(* ===== verification/Prelude.thy ===== *)
theory Prelude
  imports Main "HOL-Library.Word" "HOL-Library.Monad_Syntax"
begin

text \<open>
  Vocabulary shared by every component of the kernel model.

  \<^item> The fixed-width integers of \<open>src/common/types.h\<close> (\<open>uint8_t\<close> .. \<open>uint64_t\<close>) as words.
  \<^item> A C object that is an array is a list; a store outside the object is undefined behaviour
    and is the value \<open>None\<close> of \<open>store\<close>.
  \<^item> A \<open>const char*\<close> argument is the list of the bytes before its terminating NUL. The bytes of
    a \<open>char[]\<close> buffer are a list that contains a NUL, and \<open>cstr\<close> reads the string it holds.
  \<^item> Little-endian views of 16- and 32-bit fields, with their round trips.
  The collections \<open>word_nat\<close> and \<open>le_simps\<close> carry the arithmetic and the byte-view facts.
\<close>

unbundle bit_operations_syntax

type_synonym u8 = "8 word"
type_synonym u16 = "16 word"
type_synonym u32 = "32 word"
type_synonym u64 = "64 word"
type_synonym bytes = "8 word list"

named_theorems word_nat \<open>readings of word arithmetic in nat, under no-overflow bounds\<close>
named_theorems le_simps \<open>little-endian views of fixed-width fields\<close>

subsection \<open>Word arithmetic read in nat\<close>

lemma unat_add_small [word_nat]:
  fixes a b :: "'a::len word"
  shows "unat a + unat b < 2 ^ LENGTH('a) \<Longrightarrow> unat (a + b) = unat a + unat b"
  by (simp add: unat_word_ariths)

lemma unat_mult_small [word_nat]:
  fixes a b :: "'a::len word"
  shows "unat a * unat b < 2 ^ LENGTH('a) \<Longrightarrow> unat (a * b) = unat a * unat b"
  by (simp add: unat_word_ariths)

lemma unat_diff_small [word_nat]:
  fixes a b :: "'a::len word"
  shows "unat b \<le> unat a \<Longrightarrow> unat (a - b) = unat a - unat b"
  by (simp add: unat_sub word_le_nat_alt)

lemma unat_Suc_small [word_nat]:
  fixes a :: "'a::len word"
  shows "Suc (unat a) < 2 ^ LENGTH('a) \<Longrightarrow> unat (a + 1) = Suc (unat a)"
  using unat_add_small [of a 1] by (cases "LENGTH('a)") (auto simp: unat_word_ariths)

lemma unat_u8_bound: "unat (b :: u8) < 256"
proof -
  have "unat b < 2 ^ LENGTH(8)" by (rule unsigned_less)
  then show ?thesis by simp
qed

lemma unat_u16_bound: "unat (h :: u16) < 65536"
proof -
  have "unat h < 2 ^ LENGTH(16)" by (rule unsigned_less)
  then show ?thesis by simp
qed

lemma unat_u32_bound: "unat (w :: u32) < 4294967296"
proof -
  have "unat w < 2 ^ LENGTH(32)" by (rule unsigned_less)
  then show ?thesis by simp
qed

lemma unat_u64_bound: "unat (q :: u64) < 18446744073709551616"
proof -
  have "unat q < 2 ^ LENGTH(64)" by (rule unsigned_less)
  then show ?thesis by simp
qed

lemma unat_of_nat_u32 [word_nat]: "n < 4294967296 \<Longrightarrow> unat (of_nat n :: u32) = n"
  by (simp add: unat_of_nat)

lemma unat_of_nat_u64 [word_nat]: "n < 18446744073709551616 \<Longrightarrow> unat (of_nat n :: u64) = n"
  by (simp add: unat_of_nat)

subsection \<open>Widening casts\<close>

lemma unat_ucast_wide [word_nat]:
  fixes w :: "'a::len word"
  assumes "LENGTH('a) \<le> LENGTH('b::len)"
  shows "unat (ucast w :: 'b word) = unat w"
proof -
  have "unat w < 2 ^ LENGTH('a)" by (rule unsigned_less)
  also have "\<dots> \<le> 2 ^ LENGTH('b)" using assms by (rule power_increasing) simp
  finally show ?thesis by (simp add: unsigned_ucast_eq take_bit_nat_eq_self)
qed

lemma unat_wide_simps [simp]:
  "unat (ucast (b :: u8) :: u16) = unat b" "unat (ucast (b :: u8) :: u32) = unat b"
  "unat (ucast (b :: u8) :: u64) = unat b" "unat (ucast (h :: u16) :: u32) = unat h"
  "unat (ucast (h :: u16) :: u64) = unat h" "unat (ucast (w :: u32) :: u64) = unat w"
  by (rule unat_ucast_wide, simp)+

subsection \<open>Array objects\<close>

definition store :: "'a list \<Rightarrow> nat \<Rightarrow> 'a \<Rightarrow> 'a list option" where
  "store xs i v = (if i < length xs then Some (xs[i := v]) else None)"

lemma store_Some [simp]: "i < length xs \<Longrightarrow> store xs i v = Some (xs[i := v])"
  by (simp add: store_def)

lemma store_None_iff: "store xs i v = None \<longleftrightarrow> length xs \<le> i"
  by (simp add: store_def)

lemma store_length: "store xs i v = Some ys \<Longrightarrow> length ys = length xs"
  by (auto simp: store_def split: if_splits)

definition blit :: "'a list \<Rightarrow> nat \<Rightarrow> 'a list \<Rightarrow> 'a list" where
  "blit buf off src = take off buf @ src @ drop (off + length src) buf"

lemma length_blit [simp]: "off + length src \<le> length buf \<Longrightarrow> length (blit buf off src) = length buf"
  by (simp add: blit_def)

lemma blit_nth:
  assumes "off + length src \<le> length buf" and "i < length buf"
  shows "blit buf off src ! i =
    (if off \<le> i \<and> i < off + length src then src ! (i - off) else buf ! i)"
  using assms by (auto simp: blit_def nth_append min_def)

lemma take_blit:
  assumes "off + length src \<le> n" and "n \<le> length buf"
  shows "take n (blit buf off src) = blit (take n buf) off src"
  using assms by (intro nth_equalityI) (auto simp: blit_nth)

lemma take_list_update_snoc: "i < length xs \<Longrightarrow> take (Suc i) (xs[i := v]) = take i xs @ [v]"
  by (simp add: take_Suc_conv_app_nth)

subsection \<open>C strings\<close>

definition cstr :: "bytes \<Rightarrow> bytes" where
  "cstr buf = takeWhile (\<lambda>c. c \<noteq> 0) buf"

definition nul_free :: "bytes \<Rightarrow> bool" where
  "nul_free s \<longleftrightarrow> 0 \<notin> set s"

definition bytes_of :: "string \<Rightarrow> bytes" where
  "bytes_of s = map of_char s"

lemma cstr_append_nul [simp]: "nul_free s \<Longrightarrow> cstr (s @ 0 # rest) = s"
  unfolding cstr_def nul_free_def by (subst takeWhile_append2) auto

lemma nul_free_cstr [simp]: "nul_free (cstr buf)"
  by (auto simp: nul_free_def cstr_def dest: set_takeWhileD)

lemma nul_free_Nil [simp]: "nul_free []"
  by (simp add: nul_free_def)

lemma nul_free_Cons [simp]: "nul_free (c # s) \<longleftrightarrow> c \<noteq> 0 \<and> nul_free s"
  by (auto simp: nul_free_def)

lemma nul_free_append [simp]: "nul_free (s @ t) \<longleftrightarrow> nul_free s \<and> nul_free t"
  by (auto simp: nul_free_def)

lemma cstr_split:
  assumes "0 \<in> set buf"
  shows "\<exists>rest. buf = cstr buf @ 0 # rest"
  using assms by (induction buf) (auto simp: cstr_def)

subsection \<open>Little-endian fields\<close>

definition of_le16 :: "u8 \<Rightarrow> u8 \<Rightarrow> u16" where
  "of_le16 b0 b1 = ucast b0 OR push_bit 8 (ucast b1)"

definition le16 :: "u16 \<Rightarrow> bytes" where
  "le16 h = [ucast h, ucast (drop_bit 8 h)]"

definition of_le32 :: "u8 \<Rightarrow> u8 \<Rightarrow> u8 \<Rightarrow> u8 \<Rightarrow> u32" where
  "of_le32 b0 b1 b2 b3 = ucast b0 OR push_bit 8 (ucast b1) OR push_bit 16 (ucast b2)
     OR push_bit 24 (ucast b3)"

definition le32 :: "u32 \<Rightarrow> bytes" where
  "le32 w = [ucast w, ucast (drop_bit 8 w), ucast (drop_bit 16 w), ucast (drop_bit 24 w)]"

lemma bit_u8_beyond: "8 \<le> n \<Longrightarrow> \<not> bit (b :: u8) n"
  using bit_imp_le_length [of b n] by auto

lemma of_le16_le16 [le_simps]: "of_le16 (le16 h ! 0) (le16 h ! 1) = h"
  unfolding of_le16_def le16_def by (rule bit_word_eqI) (auto simp: bit_simps)

lemma of_le32_le32 [le_simps]: "of_le32 (le32 w ! 0) (le32 w ! 1) (le32 w ! 2) (le32 w ! 3) = w"
proof (rule bit_word_eqI)
  fix n
  assume "n < LENGTH(32)"
  then consider "n < 8" | "8 \<le> n" "n < 16" | "16 \<le> n" "n < 24" | "24 \<le> n" "n < 32"
    by fastforce
  then show "bit (of_le32 (le32 w ! 0) (le32 w ! 1) (le32 w ! 2) (le32 w ! 3)) n = bit w n"
    by cases (auto simp: of_le32_def le32_def bit_simps)
qed

lemma le16_of_le16 [le_simps]: "le16 (of_le16 b0 b1) = [b0, b1]"
  unfolding of_le16_def le16_def
  by (auto intro!: bit_word_eqI simp: bit_simps bit_u8_beyond)

lemma le32_of_le32 [le_simps]: "le32 (of_le32 b0 b1 b2 b3) = [b0, b1, b2, b3]"
  unfolding of_le32_def le32_def
  by (auto intro!: bit_word_eqI simp: bit_simps bit_u8_beyond)

lemma length_le16 [simp]: "length (le16 h) = 2"
  by (simp add: le16_def)

lemma length_le32 [simp]: "length (le32 w) = 4"
  by (simp add: le32_def)

end
