(* ===== verification/KString.thy ===== *)
theory KString
  imports Prelude
begin

text \<open>
  \<open>src/kernel/kstring.c\<close>: the kernel's byte and string routines.

  A pointer argument is the array object from the pointed-to byte to the object's end; reading
  or writing past it is undefined behaviour, the value \<open>None\<close>. Each loop is a recursion with the
  source's counter. The lemmas say when the routines stay inside their objects and what they
  compute there. \<open>char\<close> is signed on the target, so character ranges compare \<open>sint\<close>.
\<close>

subsection \<open>Memory blocks\<close>

fun k_memcpy_loop :: "nat \<Rightarrow> nat \<Rightarrow> 'a list \<Rightarrow> 'a list \<Rightarrow> 'a list option" where
  "k_memcpy_loop 0 i out ins = Some out"
| "k_memcpy_loop (Suc n) i out ins =
     (if i < length ins
      then case store out i (ins ! i) of
             None \<Rightarrow> None
           | Some out' \<Rightarrow> k_memcpy_loop n (Suc i) out' ins
      else None)"

definition k_memcpy :: "'a list \<Rightarrow> 'a list \<Rightarrow> u64 \<Rightarrow> 'a list option" where
  "k_memcpy dst src count = k_memcpy_loop (unat count) 0 dst src"

fun k_memset_loop :: "nat \<Rightarrow> nat \<Rightarrow> bytes \<Rightarrow> u8 \<Rightarrow> bytes option" where
  "k_memset_loop 0 i out v = Some out"
| "k_memset_loop (Suc n) i out v =
     (case store out i v of
        None \<Rightarrow> None
      | Some out' \<Rightarrow> k_memset_loop n (Suc i) out' v)"

definition k_memset :: "bytes \<Rightarrow> int \<Rightarrow> u64 \<Rightarrow> bytes option" where
  "k_memset dst v count = k_memset_loop (unat count) 0 dst (word_of_int v)"

fun k_memcmp_loop :: "nat \<Rightarrow> bytes \<Rightarrow> bytes \<Rightarrow> int option" where
  "k_memcmp_loop 0 a b = Some 0"
| "k_memcmp_loop (Suc n) (x # a) (y # b) =
     (if x \<noteq> y then Some (uint x - uint y) else k_memcmp_loop n a b)"
| "k_memcmp_loop (Suc n) _ _ = None"

definition k_memcmp :: "bytes \<Rightarrow> bytes \<Rightarrow> u64 \<Rightarrow> int option" where
  "k_memcmp lhs rhs count = k_memcmp_loop (unat count) lhs rhs"

subsection \<open>Strings and characters\<close>

fun k_strlen_loop :: "bytes \<Rightarrow> u64 \<Rightarrow> u64 option" where
  "k_strlen_loop [] len = None"
| "k_strlen_loop (c # s) len = (if c \<noteq> 0 then k_strlen_loop s (len + 1) else Some len)"

definition k_strlen :: "bytes \<Rightarrow> u64 option" where
  "k_strlen s = k_strlen_loop s 0"

fun k_strcmp :: "bytes \<Rightarrow> bytes \<Rightarrow> int option" where
  "k_strcmp (a # lhs) (b # rhs) =
     (if a \<noteq> 0 \<and> b \<noteq> 0
      then if a \<noteq> b then Some (uint a - uint b) else k_strcmp lhs rhs
      else Some (uint a - uint b))"
| "k_strcmp _ _ = None"

fun k_strcpy_loop :: "nat \<Rightarrow> bytes \<Rightarrow> bytes \<Rightarrow> bytes option" where
  "k_strcpy_loop i dst [] = None"
| "k_strcpy_loop i dst (c # src) =
     (if c \<noteq> 0
      then case store dst i c of
             None \<Rightarrow> None
           | Some dst' \<Rightarrow> k_strcpy_loop (Suc i) dst' src
      else store dst i 0)"

definition k_strcpy :: "bytes \<Rightarrow> bytes \<Rightarrow> bytes option" where
  "k_strcpy dst src = k_strcpy_loop 0 dst src"

definition k_toupper :: "u8 \<Rightarrow> u8" where
  "k_toupper c = (if sint c \<ge> 97 \<and> sint c \<le> 122 then c - (97 - 65) else c)"

definition k_is_space :: "u8 \<Rightarrow> bool" where
  "k_is_space c \<longleftrightarrow> c = 32 \<or> c = 9 \<or> c = 13 \<or> c = 10"

subsection \<open>What the block routines compute\<close>

lemma take_Suc_drop: "i < length xs \<Longrightarrow> take (Suc n) (drop i xs) = xs ! i # take n (drop (Suc i) xs)"
  by (metis Cons_nth_drop_Suc take_Suc_Cons)

lemma k_memcpy_loop_eq:
  "i + n \<le> length dst \<Longrightarrow> i + n \<le> length src \<Longrightarrow>
   k_memcpy_loop n i dst src = Some (take i dst @ take n (drop i src) @ drop (i + n) dst)"
  by (induction n arbitrary: i dst) (simp_all add: take_list_update_snoc take_Suc_drop)

lemma k_memcpy_loop_overrun:
  "i \<le> length dst \<Longrightarrow> i \<le> length src \<Longrightarrow> length dst < i + n \<or> length src < i + n \<Longrightarrow>
   k_memcpy_loop n i dst src = None"
  by (induction n arbitrary: i dst) (auto simp: store_def)

lemma k_memcpy_eq:
  "k_memcpy dst src count =
     (if unat count \<le> length dst \<and> unat count \<le> length src
      then Some (blit dst 0 (take (unat count) src)) else None)"
  by (auto simp: k_memcpy_def k_memcpy_loop_eq k_memcpy_loop_overrun blit_def min_def)

lemma k_memset_loop_eq:
  "k_memset_loop n i out v =
     (if n = 0 \<or> i + n \<le> length out then Some (take i out @ replicate n v @ drop (i + n) out) else None)"
  by (induction n arbitrary: i out)
     (auto simp: store_def take_list_update_snoc replicate_app_Cons_same)

lemma k_memset_eq:
  "k_memset dst v count =
     (if unat count \<le> length dst then Some (blit dst 0 (replicate (unat count) (word_of_int v))) else None)"
  by (auto simp: k_memset_def k_memset_loop_eq blit_def)

lemma k_memcmp_loop_0_iff:
  "n \<le> length a \<Longrightarrow> n \<le> length b \<Longrightarrow> k_memcmp_loop n a b = Some 0 \<longleftrightarrow> take n a = take n b"
  by (induction n a b rule: k_memcmp_loop.induct) (auto simp: word_uint_eq_iff)

lemma k_memcmp_loop_defined:
  "n \<le> length a \<Longrightarrow> n \<le> length b \<Longrightarrow> \<exists>r. k_memcmp_loop n a b = Some r"
  by (induction n a b rule: k_memcmp_loop.induct) auto

lemma k_memcmp_0_iff:
  "unat n \<le> length a \<Longrightarrow> unat n \<le> length b \<Longrightarrow>
   k_memcmp a b n = Some 0 \<longleftrightarrow> take (unat n) a = take (unat n) b"
  by (simp add: k_memcmp_def k_memcmp_loop_0_iff)

subsection \<open>What the string routines compute\<close>

lemma k_strlen_loop_eq:
  "0 \<in> set s \<Longrightarrow> k_strlen_loop s len = Some (len + of_nat (length (cstr s)))"
  by (induction s arbitrary: len) (auto simp: cstr_def algebra_simps)

lemma k_strlen_eq: "0 \<in> set s \<Longrightarrow> k_strlen s = Some (of_nat (length (cstr s)))"
  by (simp add: k_strlen_def k_strlen_loop_eq)

lemma k_strcmp_defined: "0 \<in> set l \<Longrightarrow> 0 \<in> set r \<Longrightarrow> \<exists>d. k_strcmp l r = Some d"
  by (induction l r rule: k_strcmp.induct) auto

lemma k_strcmp_0_cstr:
  "0 \<in> set l \<Longrightarrow> 0 \<in> set r \<Longrightarrow> k_strcmp l r = Some 0 \<longleftrightarrow> cstr l = cstr r"
  by (induction l r rule: k_strcmp.induct) (auto simp: cstr_def word_uint_eq_iff)

lemma k_strcmp_swap: "k_strcmp r l = map_option uminus (k_strcmp l r)"
  by (induction l r rule: k_strcmp.induct) auto

lemma k_strcpy_loop_eq:
  "0 \<in> set src \<Longrightarrow> k_strcpy_loop i dst src =
     (if i + length (cstr src) < length dst
      then Some (take i dst @ cstr src @ 0 # drop (i + Suc (length (cstr src))) dst) else None)"
proof (induction src arbitrary: i dst)
  case Nil
  then show ?case by simp
next
  case (Cons c src)
  show ?case
  proof (cases "c = 0")
    case True
    then show ?thesis by (simp add: cstr_def store_def upd_conv_take_nth_drop)
  next
    case False
    with Cons show ?thesis
      by (auto simp: cstr_def store_def take_list_update_snoc)
  qed
qed

lemma k_strcpy_eq:
  "0 \<in> set src \<Longrightarrow> k_strcpy dst src =
     (if length (cstr src) < length dst then Some (blit dst 0 (cstr src @ [0])) else None)"
  by (simp add: k_strcpy_def k_strcpy_loop_eq blit_def)

subsection \<open>Characters\<close>

lemma uint_u8_bounds: "0 \<le> uint (c :: u8)" "uint (c :: u8) < 256"
  using uint_lt2p [of c] by simp_all

lemma sint_u8: "sint (c :: u8) = (if uint c < 128 then uint c else uint c - 256)"
proof (cases "uint c < 128")
  case True
  with uint_u8_bounds [of c] show ?thesis
    by (simp add: sint_uint signed_take_bit_eq_take_bit_shift take_bit_eq_mod)
next
  case False
  then have "(uint c + 128) mod 256 = uint c + 128 - 256"
    using uint_u8_bounds [of c] by (simp add: mod_pos_geq mod_pos_pos_trivial)
  with False show ?thesis
    by (simp add: sint_uint signed_take_bit_eq_take_bit_shift take_bit_eq_mod)
qed

lemma k_toupper_eq: "k_toupper c = (if 97 \<le> uint c \<and> uint c \<le> 122 then c - 32 else c)"
  using uint_u8_bounds [of c] by (auto simp: k_toupper_def sint_u8)

lemma uint_toupper:
  "uint (k_toupper c) = (if 97 \<le> uint c \<and> uint c \<le> 122 then uint c - 32 else uint c)"
  by (auto simp: k_toupper_eq uint_sub_if_size word_le_def)

lemma k_toupper_idem [simp]: "k_toupper (k_toupper c) = k_toupper c"
  by (simp add: k_toupper_eq uint_toupper [unfolded k_toupper_eq] cong: if_cong)

lemma k_toupper_eq_iff:
  assumes "uint d < 65 \<or> 122 < uint d"
  shows "k_toupper c = d \<longleftrightarrow> c = d"
  using assms by (auto simp: word_uint_eq_iff uint_toupper split: if_splits)

lemma k_toupper_0 [simp]: "k_toupper c = 0 \<longleftrightarrow> c = 0"
  by (rule k_toupper_eq_iff) simp

lemma k_toupper_slash [simp]: "k_toupper c = 47 \<longleftrightarrow> c = 47"
  by (rule k_toupper_eq_iff) simp

lemma k_toupper_dot [simp]: "k_toupper c = 46 \<longleftrightarrow> c = 46"
  by (rule k_toupper_eq_iff) simp

end
