(* ===== verification/Path.thy ===== *)
theory Path
  imports KString
begin

text \<open>
  \<open>src/kernel/path.c\<close>: lexical normalisation of shell paths.

  The local state of \<open>path_normalize\<close> is the record \<open>path_state\<close>: the caller's buffer \<open>out\<close>, the
  write position, and the stack \<open>starts\<close>/\<open>count\<close> of component positions. Every store is checked
  against its array, so \<open>None\<close> is an out-of-bounds access. The specification is a stack of
  components (\<open>normalize_spec\<close>); the refinement lemmas show that the buffer always renders it.
\<close>

definition PATH_CAPACITY :: nat where
  "PATH_CAPACITY = 128"

record path_state =
  p_out :: bytes
  p_pos :: u32
  p_starts :: "u32 list"
  p_count :: u32

subsection \<open>The code\<close>

text \<open>\<open>out[(*pos)++] = c\<close>\<close>

definition put_char :: "u8 \<Rightarrow> path_state \<Rightarrow> path_state option" where
  "put_char c st =
     do { out \<leftarrow> store (p_out st) (unat (p_pos st)) c;
          Some (st\<lparr>p_out := out, p_pos := p_pos st + 1\<rparr>) }"

fun put_upper :: "nat \<Rightarrow> bytes \<Rightarrow> path_state \<Rightarrow> path_state option" where
  "put_upper 0 start st = Some st"
| "put_upper (Suc n) (c # start) st = do { st' \<leftarrow> put_char (k_toupper c) st; put_upper n start st' }"
| "put_upper (Suc n) [] st = None"

definition push_component :: "u32 \<Rightarrow> bytes \<Rightarrow> u32 \<Rightarrow> path_state \<Rightarrow> (bool \<times> path_state) option" where
  "push_component capacity start len st =
     (if len = 0 \<or> PATH_CAPACITY \<le> unat (p_count st) then Some (False, st)
      else if p_pos st \<noteq> 1 \<and> capacity \<le> p_pos st + 1 then Some (False, st)
      else do {
        st1 \<leftarrow> (if p_pos st \<noteq> 1 then put_char 47 st else Some st);
        if capacity \<le> p_pos st1 + len then Some (False, st1)
        else do {
          starts \<leftarrow> store (p_starts st1) (unat (p_count st1)) (p_pos st1);
          st2 \<leftarrow> put_upper (unat len) start (st1\<lparr>p_starts := starts\<rparr>);
          out \<leftarrow> store (p_out st2) (unat (p_pos st2)) 0;
          Some (True, st2\<lparr>p_out := out, p_count := p_count st2 + 1\<rparr>)
        }
      })"

definition pop_component :: "path_state \<Rightarrow> path_state option" where
  "pop_component st =
     (if p_count st = 0
      then do { out \<leftarrow> store (p_out st) 1 0; Some (st\<lparr>p_pos := 1, p_out := out\<rparr>) }
      else if unat (p_count st - 1) < length (p_starts st)
      then let start = p_starts st ! unat (p_count st - 1);
               pos = (if start > 1 then start - 1 else 1)
           in do { out \<leftarrow> store (p_out st) (unat pos) 0;
                   Some (st\<lparr>p_count := p_count st - 1, p_pos := pos, p_out := out\<rparr>) }
      else None)"

text \<open>The scan for the end of a component: its length and the rest of the path.\<close>

fun scan_component :: "bytes \<Rightarrow> u32 \<Rightarrow> u32 \<times> bytes" where
  "scan_component [] len = (len, [])"
| "scan_component (c # slash) len =
     (if c \<noteq> 47 then scan_component slash (len + 1) else (len, c # slash))"

fun skip_slashes :: "bytes \<Rightarrow> bytes" where
  "skip_slashes [] = []"
| "skip_slashes (c # path) = (if c = 47 then skip_slashes path else c # path)"

definition absorb_component :: "u32 \<Rightarrow> bytes \<Rightarrow> u32 \<Rightarrow> path_state \<Rightarrow> (bool \<times> path_state) option" where
  "absorb_component capacity cursor len st =
     (if len = 1 \<and> cursor ! 0 = 46 then Some (True, st)
      else if len = 2 \<and> cursor ! 0 = 46 \<and> cursor ! 1 = 46
      then do { st' \<leftarrow> pop_component st; Some (True, st') }
      else push_component capacity cursor len st)"

lemma scan_component_eq:
  "scan_component s len =
     (len + of_nat (length (takeWhile (\<lambda>c. c \<noteq> 47) s)), dropWhile (\<lambda>c. c \<noteq> 47) s)"
  by (induction s arbitrary: len) (auto simp: algebra_simps)

lemma skip_slashes_eq: "skip_slashes s = dropWhile (\<lambda>c. c = 47) s"
  by (induction s) auto

lemma length_after_component:
  "s \<noteq> [] \<Longrightarrow> length (skip_slashes (snd (scan_component s len))) < length s"
  by (cases s)
     (auto simp: skip_slashes_eq scan_component_eq less_Suc_eq_le
           intro: le_trans [OF length_dropWhile_le] length_dropWhile_le)

function absorb_loop :: "u32 \<Rightarrow> bytes \<Rightarrow> path_state \<Rightarrow> (bool \<times> path_state) option" where
  "absorb_loop capacity cursor st =
     (if cursor = [] then Some (True, st)
      else let len = fst (scan_component cursor 0); slash = snd (scan_component cursor 0) in
        (case absorb_component capacity cursor len st of
           None \<Rightarrow> None
         | Some (ok, st') \<Rightarrow>
             if ok then absorb_loop capacity (skip_slashes slash) st' else Some (False, st')))"
  by pat_completeness auto
termination
  by (relation "measure (\<lambda>(capacity, cursor, st). length cursor)")
     (auto simp: length_after_component)

declare absorb_loop.simps [simp del]

definition absorb_path :: "u32 \<Rightarrow> bytes \<Rightarrow> path_state \<Rightarrow> (bool \<times> path_state) option" where
  "absorb_path capacity path st = absorb_loop capacity (skip_slashes path) st"

text \<open>
  The pointer arguments may be NULL (\<open>None\<close>). \<open>starts\<close> is an uninitialised local: every slot is
  written before it is read.
\<close>

definition path_normalize ::
  "bytes option \<Rightarrow> bytes option \<Rightarrow> bytes option \<Rightarrow> u32 \<Rightarrow> (bool \<times> bytes option) option" where
  "path_normalize cwd input out capacity =
     (case (cwd, input, out) of
        (Some cwd, Some input, Some out) \<Rightarrow>
          if capacity < 2 then Some (False, Some out)
          else do {
            out0 \<leftarrow> store out 0 47;
            out1 \<leftarrow> store out0 1 0;
            let st0 = \<lparr>p_out = out1, p_pos = 1, p_starts = replicate PATH_CAPACITY 0, p_count = 0\<rparr>;
            (ok1, st1) \<leftarrow> (if input = [] \<or> hd input \<noteq> 47 then absorb_path capacity cwd st0
                          else Some (True, st0));
            if \<not> ok1 then Some (False, Some (p_out st1))
            else do {
              (ok2, st2) \<leftarrow> absorb_path capacity input st1;
              if \<not> ok2 then Some (False, Some (p_out st2))
              else do {
                out' \<leftarrow> store (p_out st2) (unat (p_pos st2)) 0;
                Some (True, Some out')
              }
            }
          }
      | _ \<Rightarrow> Some (False, out))"

subsection \<open>Specification: a stack of components\<close>

definition render :: "bytes list \<Rightarrow> bytes" where
  "render comps = (if comps = [] then [47] else concat (map (\<lambda>c. 47 # c) comps))"

function components :: "bytes \<Rightarrow> bytes list" where
  "components s =
     (if s = [] then []
      else takeWhile (\<lambda>c. c \<noteq> 47) s # components (skip_slashes (dropWhile (\<lambda>c. c \<noteq> 47) s)))"
  by pat_completeness auto
termination
  using length_after_component [of _ 0]
  by (relation "measure length") (auto simp: scan_component_eq)

declare components.simps [simp del]

definition spec_push :: "nat \<Rightarrow> bytes list \<Rightarrow> bytes \<Rightarrow> bytes list option" where
  "spec_push capacity comps c =
     (let comps' = comps @ [map k_toupper c]
      in if c = [] \<or> PATH_CAPACITY \<le> length comps \<or> capacity \<le> length (render comps')
         then None else Some comps')"

definition spec_step :: "nat \<Rightarrow> bytes \<Rightarrow> bytes list \<Rightarrow> bytes list option" where
  "spec_step capacity c comps =
     (if c = [46] then Some comps
      else if c = [46, 46] then Some (butlast comps)
      else spec_push capacity comps c)"

fun spec_absorb :: "nat \<Rightarrow> bytes list \<Rightarrow> bytes list \<Rightarrow> bytes list option" where
  "spec_absorb capacity [] comps = Some comps"
| "spec_absorb capacity (c # cs) comps =
     do { comps' \<leftarrow> spec_step capacity c comps; spec_absorb capacity cs comps' }"

definition normalize_spec :: "nat \<Rightarrow> bytes \<Rightarrow> bytes \<Rightarrow> bytes list option" where
  "normalize_spec capacity cwd input =
     do { comps \<leftarrow> (if input = [] \<or> hd input \<noteq> 47
                   then spec_absorb capacity (components (skip_slashes cwd)) [] else Some []);
          spec_absorb capacity (components (skip_slashes input)) comps }"

subsection \<open>The buffer renders the stack\<close>

definition path_rep :: "u32 \<Rightarrow> path_state \<Rightarrow> bytes list \<Rightarrow> bool" where
  "path_rep capacity st comps \<longleftrightarrow>
     unat capacity \<le> length (p_out st) \<and> length (p_starts st) = PATH_CAPACITY \<and>
     length comps \<le> PATH_CAPACITY \<and> unat (p_count st) = length comps \<and> [] \<notin> set comps \<and>
     unat (p_pos st) = length (render comps) \<and> length (render comps) < unat capacity \<and>
     take (length (render comps)) (p_out st) = render comps \<and>
     p_out st ! length (render comps) = 0 \<and>
     (\<forall>i < length comps. unat (p_starts st ! i) =
        (if i = 0 then 1 else length (render (take i comps)) + 1))"

lemma render_Nil [simp]: "render [] = [47]"
  by (simp add: render_def)

lemma render_snoc: "render (comps @ [c]) = (if comps = [] then [] else render comps) @ 47 # c"
  by (simp add: render_def)

lemma render_pos: "0 < length (render comps)"
  by (auto simp: render_def neq_Nil_conv)

lemma length_render_snoc:
  "length (render (comps @ [c])) = (if comps = [] then 1 else length (render comps) + 1) + length c"
  by (simp add: render_snoc)

lemma length_render_1_iff: "[] \<notin> set comps \<Longrightarrow> length (render comps) = 1 \<longleftrightarrow> comps = []"
  by (cases comps) (auto simp: render_def)

lemma put_upper_eq:
  assumes "n \<le> length start" and "unat (p_pos st) + n \<le> length (p_out st)"
    and "unat (p_pos st) + n < 4294967296"
  shows "put_upper n start st =
    Some (st\<lparr>p_out := blit (p_out st) (unat (p_pos st)) (map k_toupper (take n start)),
             p_pos := p_pos st + of_nat n\<rparr>)"
  using assms
proof (induction n start st rule: put_upper.induct)
  case (1 start st)
  then show ?case by (simp add: blit_def)
next
  case (2 n c start st)
  let ?i = "unat (p_pos st)"
  have pos: "unat (p_pos st + 1) = Suc ?i"
    using 2 by (intro unat_Suc_small) simp
  have "take (Suc ?i) ((p_out st)[?i := k_toupper c]) = take ?i (p_out st) @ [k_toupper c]"
    using 2 by (simp add: take_list_update_snoc)
  with 2 pos show ?case
    by (simp add: put_char_def blit_def algebra_simps)
next
  case (3 n st)
  then show ?case by simp
qed

text \<open>After the optional separator the buffer holds everything of the new rendering but the
  component itself.\<close>

definition slash_prefix :: "bytes list \<Rightarrow> bytes" where
  "slash_prefix comps = (if comps = [] then [47] else render comps @ [47])"

lemma render_snoc_prefix: "render (comps @ [c]) = slash_prefix comps @ c"
  by (simp add: slash_prefix_def render_snoc)

lemma take_blit_self [simp]:
  "off + length src \<le> length buf \<Longrightarrow> take (off + length src) (blit buf off src) = take off buf @ src"
  by (simp add: blit_def)

lemma push_write_rep:
  assumes rep: "path_rep capacity st comps"
    and c: "c \<noteq> []" and room: "length comps < PATH_CAPACITY"
    and fits: "length (slash_prefix comps) + length c < unat capacity"
    and out1: "length (p_out st1) = length (p_out st)"
      "take (length (slash_prefix comps)) (p_out st1) = slash_prefix comps"
    and pos1: "unat (p_pos st1) = length (slash_prefix comps)"
    and same: "p_starts st1 = p_starts st" "p_count st1 = p_count st"
  shows "\<exists>st'. do {
          starts \<leftarrow> store (p_starts st1) (unat (p_count st1)) (p_pos st1);
          st2 \<leftarrow> put_upper (length c) (c @ rest) (st1\<lparr>p_starts := starts\<rparr>);
          out \<leftarrow> store (p_out st2) (unat (p_pos st2)) 0;
          Some (True, st2\<lparr>p_out := out, p_count := p_count st2 + 1\<rparr>) } = Some (True, st')
       \<and> path_rep capacity st' (comps @ [map k_toupper c])"
proof -
  let ?u = "map k_toupper c" and ?pre = "slash_prefix comps"
  have cap: "unat capacity \<le> length (p_out st)" "length (p_starts st) = PATH_CAPACITY"
    and cnt: "unat (p_count st) = length comps"
    and starts: "\<forall>i < length comps. unat (p_starts st ! i) =
        (if i = 0 then 1 else length (render (take i comps)) + 1)"
    and ne: "[] \<notin> set comps"
    using rep by (auto simp: path_rep_def)
  let ?out = "(blit (p_out st1) (length ?pre) ?u)[length ?pre + length c := 0]"
  let ?st' = "st1\<lparr>p_starts := (p_starts st)[length comps := p_pos st1], p_out := ?out,
    p_pos := p_pos st1 + of_nat (length c), p_count := p_count st + 1\<rparr>"
  have small: "length ?pre + length c < 4294967296"
    using fits unat_u32_bound [of capacity] by simp
  have pos2: "unat (p_pos st1 + of_nat (length c)) = length ?pre + length c"
    using small pos1 by (subst unat_add_small) (simp_all add: unat_of_nat_u32)
  have len: "length ?pre + length c < length (p_out st1)"
    using fits cap out1 by simp
  have cnt1: "unat (p_count st + 1) = Suc (length comps)"
    using cnt room by (subst unat_Suc_small) (simp_all add: PATH_CAPACITY_def)
  have pre_len: "length ?pre = (if comps = [] then 1 else length (render comps) + 1)"
    by (simp add: slash_prefix_def)
  have t: "take (length ?pre + length c) ?out = ?pre @ ?u"
    using len out1(2) take_blit_self [of "length ?pre" ?u "p_out st1"] by simp
  have z: "?out ! (length ?pre + length c) = 0"
    using len by simp
  have idx: "unat (((p_starts st)[length comps := p_pos st1]) ! i) =
      (if i = 0 then 1 else length (render (take i (comps @ [?u]))) + 1)"
    if "i < Suc (length comps)" for i
    using that starts room cap pos1 pre_len
    by (cases "i = length comps") (auto simp: less_Suc_eq)
  have "path_rep capacity ?st' (comps @ [?u])"
    unfolding path_rep_def render_snoc_prefix
    using cap out1 len pos2 cnt1 ne c room fits t z idx by simp
  moreover have "do {
          starts \<leftarrow> store (p_starts st1) (unat (p_count st1)) (p_pos st1);
          st2 \<leftarrow> put_upper (length c) (c @ rest) (st1\<lparr>p_starts := starts\<rparr>);
          out \<leftarrow> store (p_out st2) (unat (p_pos st2)) 0;
          Some (True, st2\<lparr>p_out := out, p_count := p_count st2 + 1\<rparr>) } = Some (True, ?st')"
    using same cnt room cap pos1 len small pos2 by (simp add: put_upper_eq)
  ultimately show ?thesis by blast
qed

text \<open>The outcome of a step of the code, against the outcome of the same step of the
  specification.\<close>

definition step_refines ::
  "u32 \<Rightarrow> (bool \<times> path_state) option \<Rightarrow> bytes list option \<Rightarrow> bool" where
  "step_refines capacity r spec \<longleftrightarrow>
     (case spec of
        None \<Rightarrow> \<exists>st'. r = Some (False, st') \<and> length (p_out st') \<ge> unat capacity
      | Some comps \<Rightarrow> \<exists>st'. r = Some (True, st') \<and> path_rep capacity st' comps)"

lemma push_component_rep:
  assumes rep: "path_rep capacity st comps"
    and small: "length c + unat capacity < 4294967296"
  shows "step_refines capacity (push_component capacity (c @ rest) (of_nat (length c)) st)
           (spec_push (unat capacity) comps c)"
proof -
  have len: "unat (of_nat (length c) :: u32) = length c"
    using small by (simp add: unat_of_nat_u32)
  have fields: "unat (p_count st) = length comps" "unat (p_pos st) = length (render comps)"
      "[] \<notin> set comps" "length (render comps) < unat capacity" "unat capacity \<le> length (p_out st)"
      "take (length (render comps)) (p_out st) = render comps"
    using rep by (auto simp: path_rep_def)
  have len0: "(of_nat (length c) :: u32) = 0 \<longleftrightarrow> c = []"
    using len by (metis length_0_conv unat_0 unat_eq_zero)
  show ?thesis
  proof (cases "c = [] \<or> PATH_CAPACITY \<le> length comps")
    case True
    then show ?thesis
      using fields len0 by (auto simp: push_component_def spec_push_def step_refines_def Let_def)
  next
    case False
    then have c: "c \<noteq> []" and room: "length comps < PATH_CAPACITY" by auto
    have pos1: "p_pos st = 1 \<longleftrightarrow> comps = []"
      using fields length_render_1_iff [of comps] by (auto simp: word_unat_eq_iff)
    have spec: "spec_push (unat capacity) comps c =
        (if unat capacity \<le> length (slash_prefix comps) + length c then None
         else Some (comps @ [map k_toupper c]))"
      using c room by (auto simp: spec_push_def Let_def render_snoc_prefix)
    have plus1: "unat (p_pos st + 1) = Suc (length (render comps))"
      using fields unat_u32_bound [of capacity] by (subst unat_Suc_small) auto
    define st1 where "st1 = (if comps = [] then st
      else st\<lparr>p_out := (p_out st)[length (render comps) := 47], p_pos := p_pos st + 1\<rparr>)"
    have st1: "length (p_out st1) = length (p_out st)"
        "take (length (slash_prefix comps)) (p_out st1) = slash_prefix comps"
        "unat (p_pos st1) = length (slash_prefix comps)"
        "p_starts st1 = p_starts st" "p_count st1 = p_count st"
      using fields plus1
      by (auto simp: st1_def slash_prefix_def take_list_update_snoc)
    have sum: "unat (p_pos st1 + of_nat (length c)) = length (slash_prefix comps) + length c"
      using st1(3) len small fields(4)
      by (subst unat_add_small) (auto simp: slash_prefix_def split: if_splits)
    have code: "push_component capacity (c @ rest) (of_nat (length c)) st =
        (if comps \<noteq> [] \<and> unat capacity \<le> Suc (length (render comps)) then Some (False, st)
         else if unat capacity \<le> length (slash_prefix comps) + length c then Some (False, st1)
         else do {
          starts \<leftarrow> store (p_starts st1) (unat (p_count st1)) (p_pos st1);
          st2 \<leftarrow> put_upper (length c) (c @ rest) (st1\<lparr>p_starts := starts\<rparr>);
          out \<leftarrow> store (p_out st2) (unat (p_pos st2)) 0;
          Some (True, st2\<lparr>p_out := out, p_count := p_count st2 + 1\<rparr>) })"
      using c room len0 pos1 plus1 fields sum len
      by (auto simp: push_component_def st1_def put_char_def word_le_nat_alt)
    show ?thesis
    proof (cases "unat capacity \<le> length (slash_prefix comps) + length c")
      case True
      then show ?thesis
        unfolding code spec step_refines_def using fields st1 by auto
    next
      case False
      then have "\<not> (comps \<noteq> [] \<and> unat capacity \<le> Suc (length (render comps)))"
        by (auto simp: slash_prefix_def)
      with False show ?thesis
        using push_write_rep [OF rep c room _ st1, of rest]
        unfolding code spec step_refines_def by simp
    qed
  qed
qed

lemma pop_component_rep:
  assumes rep: "path_rep capacity st comps"
  shows "\<exists>st'. pop_component st = Some st' \<and> path_rep capacity st' (butlast comps)"
proof (cases comps rule: rev_cases)
  case Nil
  then show ?thesis
    using rep by (auto simp: pop_component_def path_rep_def unat_eq_zero)
next
  case (snoc cs c)
  let ?n = "length cs"
  let ?pos = "length (render cs)"
  have fields: "unat capacity \<le> length (p_out st)" "length (p_starts st) = PATH_CAPACITY"
      "length comps \<le> PATH_CAPACITY" "unat (p_count st) = Suc ?n" "[] \<notin> set cs"
      "take (length (render comps)) (p_out st) = render comps"
      "length (render comps) < unat capacity"
      "\<forall>i < Suc ?n. unat (p_starts st ! i) =
        (if i = 0 then 1 else length (render (take i comps)) + 1)"
    using rep snoc by (auto simp: path_rep_def)
  have cnt: "unat (p_count st - 1) = ?n"
    using fields by (subst unat_diff_small) auto
  have shorter: "?pos < length (render comps)" and pre: "take ?pos (render comps) = render cs"
    using snoc render_pos [of cs] rep by (auto simp: render_snoc path_rep_def)
  have start: "unat (p_starts st ! ?n) = (if cs = [] then 1 else ?pos + 1)"
    using fields(8) snoc by auto
  define pos :: u32 where "pos = (if p_starts st ! ?n > 1 then p_starts st ! ?n - 1 else 1)"
  have pos: "unat pos = ?pos"
    using start render_pos [of cs]
    by (cases "cs = []") (auto simp: pos_def word_less_nat_alt unat_diff_small)
  have "take ?pos (p_out st) = render cs"
    using fields(6) shorter pre by (metis min.absorb1 less_imp_le take_take)
  then have "path_rep capacity
      (st\<lparr>p_count := p_count st - 1, p_pos := pos, p_out := (p_out st)[?pos := 0]\<rparr>) cs"
    using fields snoc cnt pos shorter by (auto simp: path_rep_def)
  then show ?thesis
    using fields snoc cnt pos shorter
    by (auto simp: pop_component_def Let_def pos_def [symmetric])
qed

lemma absorb_component_rep:
  assumes rep: "path_rep capacity st comps"
    and small: "length c + unat capacity < 4294967296"
  shows "step_refines capacity (absorb_component capacity (c @ rest) (of_nat (length c)) st)
           (spec_step (unat capacity) c comps)"
proof -
  have len: "unat (of_nat (length c) :: u32) = length c"
    using small by (simp add: unat_of_nat_u32)
  have dot: "of_nat (length c) = (1 :: u32) \<and> (c @ rest) ! 0 = 46 \<longleftrightarrow> c = [46]"
    using len by (cases c) (auto simp: word_unat_eq_iff)
  have dotdot: "of_nat (length c) = (2 :: u32) \<and> (c @ rest) ! 0 = 46 \<and> (c @ rest) ! 1 = 46
      \<longleftrightarrow> c = [46, 46]"
  proof -
    have "of_nat (length c) = (2 :: u32) \<longleftrightarrow> length c = 2"
      using len by (auto simp: word_unat_eq_iff)
    then show ?thesis
      by (auto simp: length_Suc_conv numeral_2_eq_2)
  qed
  show ?thesis
    using pop_component_rep [OF rep] push_component_rep [OF rep small, of rest] rep
    unfolding absorb_component_def dot dotdot spec_step_def
    by (auto simp: step_refines_def)
qed

lemma takeWhile_component:
  "s = takeWhile (\<lambda>c. c \<noteq> 47) s @ dropWhile (\<lambda>c. c \<noteq> 47) (s :: bytes)"
  by simp

lemma absorb_loop_rep:
  assumes "path_rep capacity st comps" and "length s + unat capacity < 4294967296"
  shows "step_refines capacity (absorb_loop capacity s st)
           (spec_absorb (unat capacity) (components s) comps)"
  using assms
proof (induction capacity s st arbitrary: comps rule: absorb_loop.induct)
  case (1 capacity cursor st)
  let ?c = "takeWhile (\<lambda>c. c \<noteq> 47) cursor" and ?rest = "dropWhile (\<lambda>c. c \<noteq> 47) cursor"
  show ?case
  proof (cases "cursor = []")
    case True
    then show ?thesis
      using "1.prems" by (simp add: absorb_loop.simps components.simps step_refines_def)
  next
    case False
    have "length ?c \<le> length cursor"
      by (rule length_takeWhile_le)
    then have step: "step_refines capacity
        (absorb_component capacity cursor (of_nat (length ?c)) st) (spec_step (unat capacity) ?c comps)"
      using absorb_component_rep [OF "1.prems"(1), of ?c ?rest] "1.prems"(2) by simp
    have shorter: "length (skip_slashes ?rest) < length cursor"
      using length_after_component [OF False, of 0] by (simp add: scan_component_eq)
    show ?thesis
    proof (cases "spec_step (unat capacity) ?c comps")
      case None
      then show ?thesis
        using step False
        by (auto simp: absorb_loop.simps [of capacity cursor st] components.simps [of cursor]
            step_refines_def scan_component_eq)
    next
      case (Some comps')
      then obtain st' where st': "absorb_component capacity cursor (of_nat (length ?c)) st = Some (True, st')"
          "path_rep capacity st' comps'"
        using step by (auto simp: step_refines_def)
      have "step_refines capacity (absorb_loop capacity (skip_slashes ?rest) st')
          (spec_absorb (unat capacity) (components (skip_slashes ?rest)) comps')"
        using "1.IH" [OF False refl refl _ refl, of True st'] st' shorter "1.prems"(2)
        by (simp add: scan_component_eq)
      then show ?thesis
        using False Some st'
        by (simp add: absorb_loop.simps [of capacity cursor st] components.simps [of cursor]
            scan_component_eq)
    qed
  qed
qed

lemma length_skip_slashes: "length (skip_slashes s) \<le> length s"
  by (simp add: skip_slashes_eq length_dropWhile_le)

lemma absorb_path_rep:
  assumes "path_rep capacity st comps" and "length s + unat capacity < 4294967296"
  shows "step_refines capacity (absorb_path capacity s st)
           (spec_absorb (unat capacity) (components (skip_slashes s)) comps)"
  using assms length_skip_slashes [of s] unfolding absorb_path_def
  by (intro absorb_loop_rep) auto

lemma path_normalize_refine:
  assumes "2 \<le> unat capacity" and "unat capacity \<le> length out"
    and "length cwd + unat capacity < 4294967296" and "length input + unat capacity < 4294967296"
  shows "case normalize_spec (unat capacity) cwd input of
      None \<Rightarrow> \<exists>out'. path_normalize (Some cwd) (Some input) (Some out) capacity = Some (False, Some out')
    | Some comps \<Rightarrow> \<exists>rest. path_normalize (Some cwd) (Some input) (Some out) capacity =
                      Some (True, Some (render comps @ 0 # rest))"
proof -
  let ?st0 = "\<lparr>p_out = out[0 := 47, 1 := 0], p_pos = 1, p_starts = replicate PATH_CAPACITY 0,
      p_count = 0\<rparr>"
  have rep0: "path_rep capacity ?st0 []"
    using assms(1,2) by (cases out; cases "tl out") (auto simp: path_rep_def)
  let ?relative = "input = [] \<or> hd input \<noteq> 47"
  have first: "step_refines capacity (if ?relative then absorb_path capacity cwd ?st0 else Some (True, ?st0))
      (if ?relative then spec_absorb (unat capacity) (components (skip_slashes cwd)) [] else Some [])"
    using absorb_path_rep [OF rep0 assms(3)] rep0
    by (cases ?relative) (simp_all only: if_True if_False step_refines_def option.case, blast)
  have final: "\<exists>rest. store (p_out st) (unat (p_pos st)) 0 = Some (render comps @ 0 # rest)"
    if rep: "path_rep capacity st comps" for st comps
  proof -
    let ?n = "length (render comps)"
    have n: "?n < length (p_out st)" "take ?n (p_out st) = render comps" "unat (p_pos st) = ?n"
      using rep by (auto simp: path_rep_def)
    then have "(p_out st)[?n := 0] = render comps @ 0 # drop (Suc ?n) (p_out st)"
      by (simp add: upd_conv_take_nth_drop)
    then show ?thesis using n by auto
  qed
  have code: "path_normalize (Some cwd) (Some input) (Some out) capacity =
      do { (ok1, st1) \<leftarrow> (if ?relative then absorb_path capacity cwd ?st0 else Some (True, ?st0));
           if \<not> ok1 then Some (False, Some (p_out st1))
           else do { (ok2, st2) \<leftarrow> absorb_path capacity input st1;
                     if \<not> ok2 then Some (False, Some (p_out st2))
                     else do { out' \<leftarrow> store (p_out st2) (unat (p_pos st2)) 0; Some (True, Some out') } } }"
  proof -
    have "out \<noteq> []" "1 < length out" and "\<not> capacity < 2"
      using assms(1,2) by (auto simp: word_less_nat_alt)
    then show ?thesis
      by (simp add: path_normalize_def Let_def)
  qed
  show ?thesis
  proof (cases "if ?relative then spec_absorb (unat capacity) (components (skip_slashes cwd)) [] else Some []")
    case None
    then show ?thesis
      using first unfolding code normalize_spec_def by (auto simp: step_refines_def)
  next
    case (Some comps)
    then obtain st1 where st1: "(if ?relative then absorb_path capacity cwd ?st0 else Some (True, ?st0))
        = Some (True, st1)" "path_rep capacity st1 comps"
      using first by (auto simp: step_refines_def)
    show ?thesis
      using absorb_path_rep [OF st1(2) assms(4)] final
      unfolding code normalize_spec_def Some st1(1)
      by (cases "spec_absorb (unat capacity) (components (skip_slashes input)) comps")
         (fastforce simp: step_refines_def)+
  qed
qed

subsection \<open>Canonical paths\<close>

definition canonical_component :: "bytes \<Rightarrow> bool" where
  "canonical_component c \<longleftrightarrow> c \<noteq> [] \<and> 0 \<notin> set c \<and> 47 \<notin> set c \<and> c \<noteq> [46] \<and> c \<noteq> [46, 46] \<and>
     map k_toupper c = c"

lemma map_toupper_dots [simp]:
  "map k_toupper c = [46] \<longleftrightarrow> c = [46]" "map k_toupper c = [46, 46] \<longleftrightarrow> c = [46, 46]"
  by (auto simp: map_eq_Cons_conv)

lemma components_clean:
  "c \<in> set (components s) \<Longrightarrow> set c \<subseteq> set s \<and> 47 \<notin> set c"
proof (induction s rule: components.induct)
  case (1 s)
  show ?case
  proof (cases "s = []")
    case True
    with 1 show ?thesis by (simp add: components.simps)
  next
    case False
    have "set (skip_slashes (dropWhile (\<lambda>c. c \<noteq> 47) s)) \<subseteq> set s"
      by (auto simp: skip_slashes_eq dest: set_dropWhileD)
    with 1 False show ?thesis
      by (auto simp: components.simps [of s] dest: set_takeWhileD)
  qed
qed

lemma canonical_upper:
  "c \<noteq> [] \<Longrightarrow> c \<noteq> [46] \<Longrightarrow> c \<noteq> [46, 46] \<Longrightarrow> 0 \<notin> set c \<Longrightarrow> 47 \<notin> set c \<Longrightarrow>
   canonical_component (map k_toupper c)"
  by (auto simp: canonical_component_def image_iff dest: sym)

lemma spec_step_canonical:
  assumes "spec_step capacity c comps = Some comps'" and "0 \<notin> set c" and "47 \<notin> set c"
    and "list_all canonical_component comps"
  shows "list_all canonical_component comps'"
proof -
  have "list_all canonical_component (butlast comps)"
    using assms(4) by (auto simp: list_all_iff dest: in_set_butlastD)
  with assms canonical_upper [of c] show ?thesis
    by (auto simp: spec_step_def spec_push_def Let_def split: if_splits)
qed

lemma spec_absorb_canonical:
  "spec_absorb capacity cs comps = Some comps' \<Longrightarrow> \<forall>c \<in> set cs. 0 \<notin> set c \<and> 47 \<notin> set c \<Longrightarrow>
   list_all canonical_component comps \<Longrightarrow> list_all canonical_component comps'"
proof (induction cs arbitrary: comps)
  case Nil
  then show ?case by simp
next
  case (Cons c cs)
  from Cons.prems(1) obtain comps1 where c: "spec_step capacity c comps = Some comps1"
    and cs: "spec_absorb capacity cs comps1 = Some comps'"
    by (auto simp: bind_eq_Some_conv)
  from c Cons.prems have "list_all canonical_component comps1"
    by (intro spec_step_canonical [OF c]) auto
  with cs Cons show ?case by simp
qed

lemma set_skip_slashes: "set (skip_slashes s) \<subseteq> set s"
  by (auto simp: skip_slashes_eq dest: set_dropWhileD)

lemma components_nul_free:
  "nul_free s \<Longrightarrow> \<forall>c \<in> set (components (skip_slashes s)). 0 \<notin> set c \<and> 47 \<notin> set c"
  using components_clean [of _ "skip_slashes s"] set_skip_slashes [of s]
  unfolding nul_free_def by blast

lemma normalize_spec_canonical:
  assumes "normalize_spec capacity cwd input = Some comps" and "nul_free cwd" and "nul_free input"
  shows "list_all canonical_component comps"
proof -
  from assms(1) obtain comps0 where
    cwd: "(if input = [] \<or> hd input \<noteq> 47
       then spec_absorb capacity (components (skip_slashes cwd)) [] else Some []) = Some comps0"
    and input: "spec_absorb capacity (components (skip_slashes input)) comps0 = Some comps"
    by (auto simp: normalize_spec_def bind_eq_Some_conv)
  have "list_all canonical_component comps0"
    using cwd spec_absorb_canonical [OF _ components_nul_free [OF assms(2)], of capacity "[]" comps0]
    by (cases "input = [] \<or> hd input \<noteq> 47") simp_all
  with input show ?thesis
    using spec_absorb_canonical [OF _ components_nul_free [OF assms(3)]] by blast
qed

lemma spec_absorb_fits:
  assumes "spec_absorb capacity cs comps = Some comps'"
    and "comps = [] \<or> length (render comps) < capacity" and "length comps \<le> PATH_CAPACITY"
    and "2 \<le> capacity"
  shows "length (render comps') < capacity \<and> length comps' \<le> PATH_CAPACITY"
proof -
  have butlast: "length (render (butlast xs)) \<le> length (render xs)" for xs
    by (cases xs rule: rev_cases) (auto simp: length_render_snoc render_def)
  show ?thesis
    using assms(1-3)
  proof (induction cs arbitrary: comps)
    case Nil
    then show ?case using assms(4) by auto
  next
    case (Cons c cs)
    from Cons.prems(1) obtain comps1 where c: "spec_step capacity c comps = Some comps1"
      and cs: "spec_absorb capacity cs comps1 = Some comps'"
      by (auto simp: bind_eq_Some_conv)
    have "length (render (butlast comps)) < capacity"
      using Cons.prems(2) assms(4) butlast [of comps] by auto
    then have "(comps1 = [] \<or> length (render comps1) < capacity) \<and> length comps1 \<le> PATH_CAPACITY"
      using c Cons.prems(2,3)
      by (auto simp: spec_step_def spec_push_def Let_def split: if_splits)
    with cs Cons.IH show ?case by blast
  qed
qed

lemma normalize_spec_fits:
  assumes "normalize_spec capacity cwd input = Some comps" and "2 \<le> capacity"
  shows "length (render comps) < capacity \<and> length comps \<le> PATH_CAPACITY"
proof -
  from assms(1) obtain comps0 where
    cwd: "(if input = [] \<or> hd input \<noteq> 47
       then spec_absorb capacity (components (skip_slashes cwd)) [] else Some []) = Some comps0"
    and input: "spec_absorb capacity (components (skip_slashes input)) comps0 = Some comps"
    by (auto simp: normalize_spec_def bind_eq_Some_conv)
  have "length (render comps0) < capacity \<and> length comps0 \<le> PATH_CAPACITY"
    using cwd assms(2) spec_absorb_fits [of capacity _ "[]" comps0]
    by (cases "input = [] \<or> hd input \<noteq> 47") auto
  with input assms(2) show ?thesis
    using spec_absorb_fits by blast
qed

lemma nul_free_render: "list_all canonical_component comps \<Longrightarrow> nul_free (render comps)"
  by (auto simp: render_def nul_free_def canonical_component_def list_all_iff)

lemma components_last: "c \<noteq> [] \<Longrightarrow> 47 \<notin> set c \<Longrightarrow> components c = [c]"
proof -
  assume c: "c \<noteq> []" "47 \<notin> set c"
  then have "takeWhile (\<lambda>x. x \<noteq> 47) c = c" "dropWhile (\<lambda>x. x \<noteq> 47) c = []"
    by (auto simp: takeWhile_eq_all_conv)
  moreover have "components c =
      takeWhile (\<lambda>x. x \<noteq> 47) c # components (skip_slashes (dropWhile (\<lambda>x. x \<noteq> 47) c))"
    using c(1) by (subst components.simps) (simp only: if_False)
  ultimately show ?thesis
    by (simp only: skip_slashes.simps) (simp add: components.simps [of "[]"])
qed

lemma components_more:
  "c \<noteq> [] \<Longrightarrow> 47 \<notin> set c \<Longrightarrow> components (c @ 47 # t) = c # components (skip_slashes (47 # t))"
proof -
  assume c: "c \<noteq> []" "47 \<notin> set c"
  then have "takeWhile (\<lambda>x. x \<noteq> 47) (c @ 47 # t) = c"
      "dropWhile (\<lambda>x. x \<noteq> 47) (c @ 47 # t) = 47 # t"
    by (subst takeWhile_append2 dropWhile_append2; auto)+
  with c show ?thesis
    by (simp add: components.simps [of "c @ 47 # t"])
qed

lemma components_render:
  "list_all canonical_component comps \<Longrightarrow> components (skip_slashes (render comps)) = comps"
proof (induction comps)
  case Nil
  then show ?case by (simp add: components.simps)
next
  case (Cons c comps)
  then have c: "c \<noteq> []" "47 \<notin> set c" by (auto simp: canonical_component_def)
  then have skip: "skip_slashes (47 # c @ t) = c @ t" for t
    by (cases c) auto
  show ?case
  proof (cases comps)
    case Nil
    then show ?thesis using c skip [of "[]"] by (simp add: render_def components_last)
  next
    case (Cons d ds)
    then have "render (c # comps) = 47 # c @ 47 # tl (render comps)" "47 # tl (render comps) = render comps"
      by (simp_all add: render_def)
    then show ?thesis
      using c skip Cons.IH Cons.prems components_more [of c "tl (render comps)"] by simp
  qed
qed

lemma render_length_mono: "length (render pre) \<le> length (render (pre @ cs))" if "cs \<noteq> [] \<longrightarrow> [] \<notin> set cs"
  using that by (cases pre; cases cs) (auto simp: render_def)

lemma spec_absorb_canonical_id:
  assumes "list_all canonical_component cs" and "length (render (pre @ cs)) < capacity"
    and "length (pre @ cs) \<le> PATH_CAPACITY"
  shows "spec_absorb capacity cs pre = Some (pre @ cs)"
  using assms
proof (induction cs arbitrary: pre)
  case Nil
  then show ?case by simp
next
  case (Cons c cs)
  have ne: "[] \<notin> set cs"
    using Cons.prems(1) by (auto simp: list_all_iff canonical_component_def)
  have "length (render (pre @ [c])) \<le> length (render ((pre @ [c]) @ cs))"
    using ne by (intro render_length_mono) auto
  then have "spec_step capacity c pre = Some (pre @ [c])"
    using Cons.prems by (auto simp: spec_step_def spec_push_def canonical_component_def Let_def)
  with Cons.IH [of "pre @ [c]"] Cons.prems show ?case by simp
qed

lemma path_normalize_spec_cases:
  assumes "path_normalize (Some cwd) (Some input) (Some out) capacity = Some (True, Some out')"
    and "2 \<le> unat capacity" and "unat capacity \<le> length out"
    and "length cwd + unat capacity < 4294967296" and "length input + unat capacity < 4294967296"
    and "nul_free cwd" and "nul_free input"
  obtains comps where "normalize_spec (unat capacity) cwd input = Some comps"
    and "cstr out' = render comps" and "list_all canonical_component comps"
proof -
  show thesis
  proof (cases "normalize_spec (unat capacity) cwd input")
    case None
    then show thesis
      using path_normalize_refine [OF assms(2-5)] assms(1) by auto
  next
    case (Some comps)
    moreover have "list_all canonical_component comps"
      using normalize_spec_canonical [OF Some assms(6,7)] .
    moreover have "cstr out' = render comps"
      using path_normalize_refine [OF assms(2-5)] assms(1) Some
        nul_free_render [OF \<open>list_all canonical_component comps\<close>] by auto
    ultimately show thesis using that by blast
  qed
qed

subsection \<open>Properties\<close>

text \<open>C12. For any buffer of at least \<open>capacity \<ge> 2\<close> bytes, \<open>path_normalize\<close> never touches memory
  outside the buffer or the component stack, succeeds exactly when the component specification
  succeeds, and then leaves in the buffer the NUL-terminated rendering of the specified
  components.\<close>

theorem path_normalize_refines_spec:
  assumes "2 \<le> unat capacity" and "unat capacity \<le> length out"
    and "length cwd + unat capacity < 4294967296" and "length input + unat capacity < 4294967296"
  shows "case normalize_spec (unat capacity) cwd input of
      None \<Rightarrow> \<exists>out'. path_normalize (Some cwd) (Some input) (Some out) capacity = Some (False, Some out')
    | Some comps \<Rightarrow> \<exists>rest. path_normalize (Some cwd) (Some input) (Some out) capacity =
                      Some (True, Some (render comps @ 0 # rest))"
  using assms by (rule path_normalize_refine)

text \<open>The witness: a case of \<open>tests/path_test.c\<close>, in a 40-byte buffer.\<close>

lemma path_normalize_refines_spec_witness:
  "\<exists>rest. path_normalize (Some (bytes_of ''/MYDIR'')) (Some (bytes_of ''./test.txt''))
      (Some (replicate 40 7)) 40 = Some (True, Some (bytes_of ''/MYDIR/TEST.TXT'' @ 0 # rest))"
proof -
  have "normalize_spec (unat (40 :: u32)) (bytes_of ''/MYDIR'') (bytes_of ''./test.txt'')
      = Some [bytes_of ''MYDIR'', bytes_of ''TEST.TXT'']"
    by code_simp
  moreover have "render [bytes_of ''MYDIR'', bytes_of ''TEST.TXT''] = bytes_of ''/MYDIR/TEST.TXT''"
    by code_simp
  ultimately show ?thesis
    using path_normalize_refines_spec
      [of 40 "replicate 40 7" "bytes_of ''/MYDIR''" "bytes_of ''./test.txt''"]
    by (simp add: bytes_of_def)
qed

text \<open>A path that \<open>path_normalize\<close> accepts comes out canonical: upper-case components with no
  empty, \<open>.\<close> or \<open>..\<close> component, in fewer than \<open>capacity\<close> bytes.\<close>

theorem path_normalize_canonical:
  assumes "path_normalize (Some cwd) (Some input) (Some out) capacity = Some (True, Some out')"
    and "2 \<le> unat capacity" and "unat capacity \<le> length out"
    and "length cwd + unat capacity < 4294967296" and "length input + unat capacity < 4294967296"
    and "nul_free cwd" and "nul_free input"
  shows "\<exists>comps. cstr out' = render comps \<and> list_all canonical_component comps \<and>
    length (cstr out') < unat capacity"
  by (rule path_normalize_spec_cases [OF assms]) (use normalize_spec_fits assms(2) in force)

lemma path_normalize_canonical_witness:
  "\<exists>out' comps. path_normalize (Some (bytes_of ''/A'')) (Some (bytes_of ''b//../c.d''))
      (Some (replicate 20 0)) 20 = Some (True, Some out')
    \<and> cstr out' = render comps \<and> list_all canonical_component comps \<and> length (cstr out') < 20"
proof -
  have run: "path_normalize (Some (bytes_of ''/A'')) (Some (bytes_of ''b//../c.d''))
      (Some (replicate 20 0)) 20 = Some (True, Some (bytes_of ''/A/C.D'' @ replicate 14 0))"
    by code_simp
  show ?thesis
    using run path_normalize_canonical [OF run] by (simp add: bytes_of_def)
qed

text \<open>Normalisation is idempotent: normalising an accepted result again, from any current
  directory, succeeds and gives the same path.\<close>

theorem path_normalize_idempotent:
  assumes "path_normalize (Some cwd) (Some input) (Some out) capacity = Some (True, Some out')"
    and "2 \<le> unat capacity" and "unat capacity \<le> length out"
    and "length cwd + unat capacity < 4294967296" and "length input + unat capacity < 4294967296"
    and "nul_free cwd" and "nul_free input"
    and "unat capacity \<le> length out2" and "length cwd2 + unat capacity < 4294967296"
    and "unat capacity + unat capacity < 4294967296"
  shows "\<exists>out2'. path_normalize (Some cwd2) (Some (cstr out')) (Some out2) capacity =
    Some (True, Some out2') \<and> cstr out2' = cstr out'"
proof (rule path_normalize_spec_cases [OF assms(1-7)])
  fix comps
  assume spec: "normalize_spec (unat capacity) cwd input = Some comps"
    and out': "cstr out' = render comps" and canon: "list_all canonical_component comps"
  note fits = normalize_spec_fits [OF spec assms(2)]
  have "hd (render comps) = 47" "render comps \<noteq> []"
    by (auto simp: render_def neq_Nil_conv)
  then have "normalize_spec (unat capacity) cwd2 (render comps) = Some comps"
    using fits components_render [OF canon] spec_absorb_canonical_id [OF canon, of "[]"]
    by (simp add: normalize_spec_def)
  moreover have "length (render comps) + unat capacity < 4294967296"
    using fits assms(10) by simp
  ultimately show ?thesis
    using path_normalize_refine [OF assms(2,8,9), of "render comps"] nul_free_render [OF canon]
    unfolding out' by auto
qed

lemma path_normalize_idempotent_witness:
  "\<exists>out' out2'. path_normalize (Some (bytes_of ''/A'')) (Some (bytes_of ''b//../c.d''))
      (Some (replicate 20 0)) 20 = Some (True, Some out')
    \<and> path_normalize (Some (bytes_of ''/X'')) (Some (cstr out')) (Some (replicate 20 1)) 20
        = Some (True, Some out2') \<and> cstr out2' = cstr out'"
proof -
  have run: "path_normalize (Some (bytes_of ''/A'')) (Some (bytes_of ''b//../c.d''))
      (Some (replicate 20 0)) 20 = Some (True, Some (bytes_of ''/A/C.D'' @ replicate 14 0))"
    by code_simp
  show ?thesis
    using run path_normalize_idempotent [OF run, of "replicate 20 1" "bytes_of ''/X''"]
    by (simp add: bytes_of_def)
qed

end
