(* ===== verification/BootInfo.thy ===== *)
theory BootInfo
  imports Prelude
begin

text \<open>
  \<open>src/common/bootinfo.h\<close>: the record the UEFI loader hands to the kernel.
\<close>

definition BOOTINFO_MAGIC :: u32 where "BOOTINFO_MAGIC = 0x534f4e46"

definition BOOTINFO_CONSOLE_VGA_TEXT :: u16 where "BOOTINFO_CONSOLE_VGA_TEXT = 2"
definition BOOTINFO_CONSOLE_FRAMEBUFFER :: u16 where "BOOTINFO_CONSOLE_FRAMEBUFFER = 4"
definition BOOTINFO_FRAMEBUFFER_FORMAT_BGRX :: u32 where "BOOTINFO_FRAMEBUFFER_FORMAT_BGRX = 1"

record BootMemoryMap =
  map_base :: u64
  map_size :: u64
  descriptor_size :: u32
  descriptor_version :: u32

record BootInfo =
  magic :: u32
  bytes_per_sector :: u16
  partition_lba_start :: u32
  partition_sector_count :: u32
  acpi_rsdp :: u64
  acpi_revision :: u8
  boot_device_path_size :: u16
  boot_device_path :: bytes
  console_flags :: u16
  screen_columns :: u16
  screen_rows :: u16
  framebuffer_base :: u64
  framebuffer_width :: u32
  framebuffer_height :: u32
  framebuffer_pixels_per_scanline :: u32
  framebuffer_format :: u32
  memory_map :: BootMemoryMap

end
