(* ===== verification/PhysMem.thy ===== *)
theory PhysMem
  imports BootInfo
begin

text \<open>
  \<open>src/kernel/memory.c\<close>, the physical page allocator.

  \<open>g_free_ranges[0 .. g_free_range_count)\<close> is the list \<open>g_free_ranges\<close>: the loops that shift the
  array's tail by one slot are an insertion or a deletion at an index. The abstract state is the
  set \<open>free_set\<close> of free byte addresses; the invariant \<open>mem_inv\<close> says that the ranges are
  page-aligned, in ascending order, separated by gaps (adjacent ranges are always merged) and do
  not wrap around the address space.
\<close>

definition PAGE_SIZE :: u64 where "PAGE_SIZE = 4096"
definition MEMORY_MAX_FREE_RANGES :: nat where "MEMORY_MAX_FREE_RANGES = 256"
definition MEMORY_MAX_PHYS_ADDR :: u64 where "MEMORY_MAX_PHYS_ADDR = 0x0000000100000000"
definition MEMORY_RESERVED_LOW_END :: u64 where "MEMORY_RESERVED_LOW_END = 0x0000000000100000"
definition EFI_MEMORY_TYPE_CONVENTIONAL :: u32 where "EFI_MEMORY_TYPE_CONVENTIONAL = 7"
definition EFI_MEMORY_DESCRIPTOR_SIZE :: u32 where "EFI_MEMORY_DESCRIPTOR_SIZE = 40"
definition PROCESS_ABI_REGION_START :: u64 where "PROCESS_ABI_REGION_START = 0x0000008000000000"
definition PROCESS_ABI_REGION_END :: u64 where "PROCESS_ABI_REGION_END = 0x0000008000100000"

record EfiMemoryDescriptor =
  efi_type :: u32
  physical_start :: u64
  number_of_pages :: u64

record FreePageRange =
  fr_base :: u64
  fr_count :: u64

record memory_state =
  g_free_ranges :: "FreePageRange list"
  g_total_pages :: u64
  g_heap_head :: u64
  g_memory_ready :: bool

subsection \<open>The code\<close>

definition align_up_uintptr :: "u64 \<Rightarrow> u64 \<Rightarrow> u64" where
  "align_up_uintptr v alignment = (v + alignment - 1) AND NOT (alignment - 1)"

definition align_down_uintptr :: "u64 \<Rightarrow> u64 \<Rightarrow> u64" where
  "align_down_uintptr v alignment = v AND NOT (alignment - 1)"

definition fr_end :: "FreePageRange \<Rightarrow> u64" where
  "fr_end r = fr_base r + fr_count r * PAGE_SIZE"

definition delete_at :: "nat \<Rightarrow> 'a list \<Rightarrow> 'a list" where
  "delete_at i xs = take i xs @ drop (Suc i) xs"

definition insert_at :: "nat \<Rightarrow> 'a \<Rightarrow> 'a list \<Rightarrow> 'a list" where
  "insert_at i x xs = take i xs @ x # drop i xs"

fun find_insert :: "u64 \<Rightarrow> FreePageRange list \<Rightarrow> nat" where
  "find_insert base [] = 0"
| "find_insert base (r # rs) = (if fr_base r < base then Suc (find_insert base rs) else 0)"

definition append_free_range :: "u64 \<Rightarrow> u64 \<Rightarrow> memory_state \<Rightarrow> bool \<times> memory_state" where
  "append_free_range base page_count s =
     (let rs = g_free_ranges s; at = find_insert base rs;
          prev = rs ! (at - 1); nxt = rs ! at in
      if page_count = 0 then (True, s)
      else if MEMORY_MAX_FREE_RANGES \<le> length rs then (False, s)
      else if at < length rs \<and> base + page_count * PAGE_SIZE > fr_base nxt then (False, s)
      else if at > 0 \<and> fr_end prev = base then
        (let grown = prev\<lparr>fr_count := fr_count prev + page_count\<rparr> in
         if at < length rs \<and> fr_end grown = fr_base nxt
         then (True, s\<lparr>g_free_ranges :=
                 delete_at at (rs[at - 1 := grown\<lparr>fr_count := fr_count grown + fr_count nxt\<rparr>])\<rparr>)
         else (True, s\<lparr>g_free_ranges := rs[at - 1 := grown]\<rparr>))
      else if at < length rs \<and> base + page_count * PAGE_SIZE = fr_base nxt then
        (True, s\<lparr>g_free_ranges :=
           rs[at := nxt\<lparr>fr_base := base, fr_count := fr_count nxt + page_count\<rparr>]\<rparr>)
      else (True, s\<lparr>g_free_ranges := insert_at at \<lparr>fr_base = base, fr_count = page_count\<rparr> rs\<rparr>))"

text \<open>The loop of \<open>reserve_range\<close> over the array, from \<open>index\<close>, for aligned bounds.\<close>

function reserve_loop ::
  "u64 \<Rightarrow> u64 \<Rightarrow> nat \<Rightarrow> FreePageRange list \<Rightarrow> bool \<times> FreePageRange list" where
  "reserve_loop start end index rs =
     (if index < length rs then
        (let range_start = fr_base (rs ! index); range_end = fr_end (rs ! index) in
         if end \<le> range_start \<or> start \<ge> range_end then reserve_loop start end (Suc index) rs
         else if start \<le> range_start \<and> end \<ge> range_end
         then reserve_loop start end index (delete_at index rs)
         else if start \<le> range_start
         then reserve_loop start end (Suc index)
           (rs[index := \<lparr>fr_base = end, fr_count = (range_end - end) div PAGE_SIZE\<rparr>])
         else if end \<ge> range_end
         then reserve_loop start end (Suc index)
           (rs[index := (rs ! index)\<lparr>fr_count := (start - range_start) div PAGE_SIZE\<rparr>])
         else if MEMORY_MAX_FREE_RANGES \<le> length rs then (False, rs)
         else let right = \<lparr>fr_base = end, fr_count = (range_end - end) div PAGE_SIZE\<rparr> in
           reserve_loop start end (index + 2)
             ((insert_at (Suc index) right rs)
                [index := (rs ! index)\<lparr>fr_count := (start - range_start) div PAGE_SIZE\<rparr>]))
      else (True, rs))"
  by pat_completeness auto
termination
  by (relation "measure (\<lambda>(start, end, index, rs). length rs - index)")
     (auto simp: delete_at_def insert_at_def min_def)

declare reserve_loop.simps [simp del]

definition reserve_range :: "u64 \<Rightarrow> u64 \<Rightarrow> memory_state \<Rightarrow> bool \<times> memory_state" where
  "reserve_range reserve_start reserve_end s =
     (let start = align_down_uintptr reserve_start PAGE_SIZE;
          end = align_up_uintptr reserve_end PAGE_SIZE in
      if end \<le> start then (True, s)
      else let (ok, rs) = reserve_loop start end 0 (g_free_ranges s)
           in (ok, s\<lparr>g_free_ranges := rs\<rparr>))"

definition add_descriptor_range :: "u64 \<Rightarrow> u64 \<Rightarrow> memory_state \<Rightarrow> bool \<times> memory_state" where
  "add_descriptor_range start end s =
     (if start \<ge> MEMORY_MAX_PHYS_ADDR then (True, s)
      else let clipped_start = align_up_uintptr start PAGE_SIZE;
               clipped_end = align_down_uintptr
                 (if end > MEMORY_MAX_PHYS_ADDR then MEMORY_MAX_PHYS_ADDR else end) PAGE_SIZE in
        if clipped_end \<le> clipped_start then (True, s)
        else let pages = (clipped_end - clipped_start) div PAGE_SIZE;
                 (ok, s') = append_free_range clipped_start pages s in
          if \<not> ok then (False, s')
          else (True, s'\<lparr>g_total_pages := g_total_pages s' + pages\<rparr>))"

text \<open>
  The memory map is firmware data: \<open>desc_at\<close> reads the descriptor at an address. The loop's end
  test wraps around like the code's, so the loop is partial.
\<close>

partial_function (option) scan_memory_map ::
  "(u64 \<Rightarrow> EfiMemoryDescriptor) \<Rightarrow> u64 \<Rightarrow> u64 \<Rightarrow> u64 \<Rightarrow> memory_state
     \<Rightarrow> (bool \<times> memory_state) option" where
  "scan_memory_map desc_at cursor stride limit s =
     (if cursor + stride \<le> limit then
        (let d = desc_at cursor in
         if efi_type d \<noteq> EFI_MEMORY_TYPE_CONVENTIONAL
         then scan_memory_map desc_at (cursor + stride) stride limit s
         else if number_of_pages d = 0
         then scan_memory_map desc_at (cursor + stride) stride limit s
         else case add_descriptor_range (physical_start d)
                     (physical_start d + number_of_pages d * PAGE_SIZE) s of
                (ok, s') \<Rightarrow> if \<not> ok then Some (False, s')
                           else scan_memory_map desc_at (cursor + stride) stride limit s')
      else Some (True, s))"

definition framebuffer_bytes :: "BootInfo \<Rightarrow> u64" where
  "framebuffer_bytes b =
     ucast (framebuffer_pixels_per_scanline b) * ucast (framebuffer_height b) * 4"

definition reserve_framebuffer :: "BootInfo \<Rightarrow> memory_state \<Rightarrow> bool \<times> memory_state" where
  "reserve_framebuffer b s =
     (if console_flags b AND BOOTINFO_CONSOLE_FRAMEBUFFER \<noteq> 0
      then reserve_range (framebuffer_base b) (framebuffer_base b + framebuffer_bytes b) s
      else (True, s))"

definition memory_init ::
  "(u64 \<Rightarrow> EfiMemoryDescriptor) \<Rightarrow> u64 \<Rightarrow> u64 \<Rightarrow> BootInfo option \<Rightarrow> memory_state
     \<Rightarrow> (bool \<times> memory_state) option" where
  "memory_init desc_at kernel_start kernel_end boot_info s =
     (case boot_info of
        None \<Rightarrow> Some (False, s)
      | Some b \<Rightarrow>
          let m = memory_map b; stride = ucast (descriptor_size m) in
          if map_base m = 0 \<or> map_size m = 0 \<or> descriptor_size m < EFI_MEMORY_DESCRIPTOR_SIZE
          then Some (False, s)
          else do {
            let s0 = s\<lparr>g_free_ranges := [], g_total_pages := 0, g_heap_head := 0,
                       g_memory_ready := False\<rparr>;
            (ok1, s1) \<leftarrow> scan_memory_map desc_at (map_base m) stride (map_base m + map_size m) s0;
            if \<not> ok1 then Some (False, s1)
            else let (ok2, s2) = reserve_range 0 MEMORY_RESERVED_LOW_END s1 in
              if \<not> ok2 then Some (False, s2)
              else let (ok3, s3) = reserve_range kernel_start kernel_end s2 in
                if \<not> ok3 then Some (False, s3)
                else let (ok4, s4) = reserve_range PROCESS_ABI_REGION_START PROCESS_ABI_REGION_END s3 in
                  if \<not> ok4 then Some (False, s4)
                  else let (ok5, s5) = reserve_framebuffer b s4 in
                    if \<not> ok5 then Some (False, s5)
                    else let ready = g_free_ranges s5 \<noteq> []
                      in Some (ready, s5\<lparr>g_memory_ready := ready\<rparr>)
          })"

text \<open>\<open>alloc_pages\<close> returns 0 for NULL.\<close>

fun first_fit :: "u64 \<Rightarrow> FreePageRange list \<Rightarrow> nat" where
  "first_fit n [] = 0"
| "first_fit n (r # rs) = (if fr_count r \<ge> n then 0 else Suc (first_fit n rs))"

definition alloc_pages :: "u64 \<Rightarrow> memory_state \<Rightarrow> u64 \<times> memory_state" where
  "alloc_pages page_count s =
     (let rs = g_free_ranges s; index = first_fit page_count rs in
      if \<not> g_memory_ready s \<or> page_count = 0 then (0, s)
      else if index < length rs then
        (let r = rs ! index;
             r' = r\<lparr>fr_base := fr_base r + page_count * PAGE_SIZE, fr_count := fr_count r - page_count\<rparr>
         in (fr_base r, s\<lparr>g_free_ranges :=
               if fr_count r' = 0 then delete_at index (rs[index := r']) else rs[index := r']\<rparr>))
      else (0, s))"

definition free_pages :: "u64 \<Rightarrow> u64 \<Rightarrow> memory_state \<Rightarrow> memory_state" where
  "free_pages ptr page_count s =
     (if \<not> g_memory_ready s \<or> ptr = 0 \<or> page_count = 0 then s
      else snd (append_free_range ptr page_count s))"

definition memory_free_pages :: "memory_state \<Rightarrow> u64" where
  "memory_free_pages s = sum_list (map fr_count (g_free_ranges s))"

definition memory_total_pages :: "memory_state \<Rightarrow> u64" where
  "memory_total_pages s = g_total_pages s"

subsection \<open>Invariant and abstraction\<close>

definition lo :: "FreePageRange \<Rightarrow> nat" where
  "lo r = unat (fr_base r)"

definition hi :: "FreePageRange \<Rightarrow> nat" where
  "hi r = unat (fr_base r) + unat (fr_count r) * 4096"

definition range_ok :: "FreePageRange \<Rightarrow> bool" where
  "range_ok r \<longleftrightarrow> 4096 dvd lo r \<and> fr_count r \<noteq> 0 \<and> hi r < 2 ^ 64"

definition ranges_ok :: "FreePageRange list \<Rightarrow> bool" where
  "ranges_ok rs \<longleftrightarrow> list_all range_ok rs \<and> sorted_wrt (\<lambda>r r'. hi r < lo r') rs"

definition free_set :: "FreePageRange list \<Rightarrow> nat set" where
  "free_set rs = (\<Union>r \<in> set rs. {lo r..<hi r})"

definition mem_inv :: "memory_state \<Rightarrow> bool" where
  "mem_inv s \<longleftrightarrow> ranges_ok (g_free_ranges s) \<and> 0 \<notin> free_set (g_free_ranges s) \<and>
     length (g_free_ranges s) \<le> MEMORY_MAX_FREE_RANGES"

text \<open>A block of \<open>n\<close> pages at \<open>b\<close> that can be a free range: aligned, not empty, no wrap.\<close>

definition block_ok :: "u64 \<Rightarrow> u64 \<Rightarrow> bool" where
  "block_ok b n \<longleftrightarrow> range_ok \<lparr>fr_base = b, fr_count = n\<rparr>"

definition block_set :: "u64 \<Rightarrow> u64 \<Rightarrow> nat set" where
  "block_set b n = {unat b..<unat b + unat n * 4096}"

lemma lo_less_hi: "range_ok r \<Longrightarrow> lo r < hi r"
  by (simp add: range_ok_def lo_def hi_def unat_gt_0)

lemma unat_count_pages: "unat (n :: u64) * 4096 < 2 ^ 64 \<Longrightarrow> unat (n * PAGE_SIZE) = unat n * 4096"
  by (simp add: PAGE_SIZE_def unat_mult_small)

lemma unat_block_end:
  "unat (b :: u64) + unat n * 4096 < 2 ^ 64 \<Longrightarrow> unat (b + n * PAGE_SIZE) = unat b + unat n * 4096"
  by (simp add: unat_count_pages unat_add_small)

lemma unat_fr_end: "range_ok r \<Longrightarrow> unat (fr_end r) = hi r"
  by (simp add: fr_end_def range_ok_def hi_def unat_block_end)

lemma fr_end_eq_iff: "range_ok r \<Longrightarrow> fr_end r = b \<longleftrightarrow> hi r = unat b"
  using unat_fr_end [of r] by (auto simp: word_unat_eq_iff)

lemma free_set_simps [simp]:
  "free_set [] = {}" "free_set (r # rs) = {lo r..<hi r} \<union> free_set rs"
  "free_set (rs @ rs') = free_set rs \<union> free_set rs'"
  by (auto simp: free_set_def)

lemma ranges_ok_simps [simp]:
  "ranges_ok []"
  "ranges_ok (r # rs) \<longleftrightarrow> range_ok r \<and> (\<forall>r' \<in> set rs. hi r < lo r') \<and> ranges_ok rs"
  by (auto simp: ranges_ok_def)

lemma ranges_ok_append:
  "ranges_ok (rs @ rs') \<longleftrightarrow> ranges_ok rs \<and> ranges_ok rs' \<and> (\<forall>r \<in> set rs. \<forall>r' \<in> set rs'. hi r < lo r')"
  by (auto simp: ranges_ok_def sorted_wrt_append)

lemma ranges_ok_range: "ranges_ok rs \<Longrightarrow> r \<in> set rs \<Longrightarrow> range_ok r"
  by (auto simp: ranges_ok_def list_all_iff)

lemma delete_at_append: "delete_at (length xs) (xs @ y # ys) = xs @ ys"
  by (simp add: delete_at_def)

lemma insert_at_append: "insert_at (length xs) y (xs @ ys) = xs @ y # ys"
  by (simp add: insert_at_def)

lemma find_insert_split:
  "\<exists>ls us. rs = ls @ us \<and> find_insert b rs = length ls \<and> (\<forall>r \<in> set ls. fr_base r < b) \<and>
     (us = [] \<or> \<not> fr_base (hd us) < b)"
proof (induction rs)
  case Nil
  then show ?case by simp
next
  case (Cons r rs)
  then obtain ls us where IH: "rs = ls @ us" "find_insert b rs = length ls"
      "\<forall>r \<in> set ls. fr_base r < b" "us = [] \<or> \<not> fr_base (hd us) < b"
    by blast
  show ?case
  proof (cases "fr_base r < b")
    case True
    with IH show ?thesis by (intro exI [of _ "r # ls"] exI [of _ us]) auto
  next
    case False
    then show ?thesis by (intro exI [of _ "[]"] exI [of _ "r # rs"]) auto
  qed
qed

text \<open>A new block that is disjoint from the free set lies between its neighbours.\<close>

lemma block_after:
  assumes "range_ok r" and "block_ok b n" and "fr_base r < b"
    and "{lo r..<hi r} \<inter> block_set b n = {}"
  shows "hi r \<le> unat b"
proof (rule ccontr)
  assume "\<not> hi r \<le> unat b"
  then have "unat b \<in> {lo r..<hi r} \<inter> block_set b n"
    using assms(2,3) by (auto simp: block_set_def block_ok_def range_ok_def lo_def word_less_nat_alt unat_gt_0)
  with assms(4) show False by blast
qed

lemma block_before:
  assumes "range_ok r" and "block_ok b n" and "\<not> fr_base r < b"
    and "{lo r..<hi r} \<inter> block_set b n = {}"
  shows "unat b + unat n * 4096 \<le> lo r"
proof (rule ccontr)
  assume "\<not> unat b + unat n * 4096 \<le> lo r"
  then have "lo r \<in> {lo r..<hi r} \<inter> block_set b n"
    using assms(3) lo_less_hi [OF assms(1)] by (auto simp: block_set_def lo_def word_less_nat_alt)
  with assms(4) show False by blast
qed

text \<open>Joining two touching ranges.\<close>

definition join_ranges :: "FreePageRange \<Rightarrow> FreePageRange \<Rightarrow> FreePageRange" where
  "join_ranges p q = p\<lparr>fr_count := fr_count p + fr_count q\<rparr>"

lemma join_ranges_ok:
  assumes "range_ok p" and "range_ok q" and "hi p = lo q"
  shows "range_ok (join_ranges p q)" and "lo (join_ranges p q) = lo p"
    and "hi (join_ranges p q) = hi q"
proof -
  have "unat (fr_count p) * 4096 + unat (fr_count q) * 4096 < 2 ^ 64"
    using assms by (auto simp: range_ok_def hi_def lo_def)
  then have c: "unat (fr_count p + fr_count q) = unat (fr_count p) + unat (fr_count q)"
    by (subst unat_add_small) simp_all
  show "lo (join_ranges p q) = lo p"
    by (simp add: join_ranges_def lo_def)
  show h: "hi (join_ranges p q) = hi q"
    using assms(3) c by (simp add: join_ranges_def lo_def hi_def algebra_simps)
  have "0 < unat (fr_count p + fr_count q)"
    using c assms(1) by (simp add: range_ok_def unat_gt_0)
  then have "fr_count p + fr_count q \<noteq> 0"
    by auto
  with assms h show "range_ok (join_ranges p q)"
    by (auto simp: range_ok_def join_ranges_def lo_def)
qed

text \<open>The four ways a block can join the list, on the list split at the insertion point.\<close>

definition joined :: "FreePageRange list \<Rightarrow> FreePageRange \<Rightarrow> FreePageRange list \<Rightarrow> FreePageRange list" where
  "joined ls new us =
     (if ls \<noteq> [] \<and> hi (last ls) = lo new then
        (if us \<noteq> [] \<and> hi new = lo (hd us)
         then butlast ls @ join_ranges (join_ranges (last ls) new) (hd us) # tl us
         else butlast ls @ join_ranges (last ls) new # us)
      else if us \<noteq> [] \<and> hi new = lo (hd us) then ls @ join_ranges new (hd us) # tl us
      else ls @ new # us)"

lemma joined_ok:
  assumes ok: "ranges_ok (ls @ us)" and new: "range_ok new"
    and prev: "\<forall>r \<in> set ls. hi r \<le> lo new" and succ: "\<forall>r \<in> set us. hi new \<le> lo r"
  shows "ranges_ok (joined ls new us) \<and>
    free_set (joined ls new us) = free_set (ls @ us) \<union> {lo new..<hi new} \<and>
    length (joined ls new us) \<le> Suc (length (ls @ us))"
proof -
  note lt = lo_less_hi [OF new]
  show ?thesis
  proof (cases "ls \<noteq> [] \<and> hi (last ls) = lo new")
    case True
    then obtain ls' p where ls: "ls = ls' @ [p]" "hi p = lo new"
      by (cases ls rule: rev_cases) auto
    then have p: "range_ok p" "lo p < hi p"
      using ok lo_less_hi [of p] by (auto simp: ranges_ok_append)
    note j = join_ranges_ok [OF p(1) new ls(2)]
    show ?thesis
    proof (cases "us \<noteq> [] \<and> hi new = lo (hd us)")
      case True
      then obtain x us' where us: "us = x # us'" "hi new = lo x"
        by (cases us) auto
      then have x: "range_ok x" "lo x < hi x"
        using ok lo_less_hi [of x] by (auto simp: ranges_ok_append)
      have hx: "hi (join_ranges p new) = lo x" using j(3) us(2) by simp
      note k = join_ranges_ok [OF j(1) x(1) hx]
      have eq: "joined ls new us = ls' @ join_ranges (join_ranges p new) x # us'"
        using ls us by (simp add: joined_def)
      show ?thesis
        unfolding eq using ok ls us j k p x lt
        by (auto simp: ranges_ok_append)
    next
      case False
      then have eq: "joined ls new us = ls' @ join_ranges p new # us"
        using ls by (auto simp: joined_def)
      have "\<forall>r \<in> set us. hi new < lo r"
      proof (cases us)
        case (Cons x us')
        with False succ ok lo_less_hi [of x] show ?thesis
          by (fastforce simp: ranges_ok_append)
      qed simp
      then show ?thesis
        unfolding eq using ok ls j p lt by (auto simp: ranges_ok_append)
    qed
  next
    case F: False
    have prev': "\<forall>r \<in> set ls. hi r < lo new"
    proof (cases ls rule: rev_cases)
      case (snoc ls' p)
      with F prev ok lo_less_hi [of p] show ?thesis
        by (fastforce simp: ranges_ok_append)
    qed simp
    show ?thesis
    proof (cases "us \<noteq> [] \<and> hi new = lo (hd us)")
      case True
      then obtain x us' where us: "us = x # us'" "hi new = lo x"
        by (cases us) auto
      then have x: "range_ok x" "lo x < hi x"
        using ok lo_less_hi [of x] by (auto simp: ranges_ok_append)
      note k = join_ranges_ok [OF new x(1) us(2)]
      have eq: "joined ls new us = ls @ join_ranges new x # us'"
        using F us by (auto simp: joined_def)
      show ?thesis
        unfolding eq using ok us k x lt prev' by (auto simp: ranges_ok_append)
    next
      case False
      then have eq: "joined ls new us = ls @ new # us"
        using F by (auto simp: joined_def)
      have "\<forall>r \<in> set us. hi new < lo r"
      proof (cases us)
        case (Cons x us')
        with False succ ok lo_less_hi [of x] show ?thesis
          by (fastforce simp: ranges_ok_append)
      qed simp
      then show ?thesis
        unfolding eq using ok new prev' by (auto simp: ranges_ok_append)
    qed
  qed
qed

lemma append_free_range_joined:
  assumes ok: "ranges_ok (ls @ us)" and blk: "block_ok b n"
    and split: "find_insert b (ls @ us) = length ls"
    and succ: "\<forall>r \<in> set us. unat b + unat n * 4096 \<le> lo r"
    and room: "length (ls @ us) < MEMORY_MAX_FREE_RANGES" and rs: "g_free_ranges s = ls @ us"
  shows "append_free_range b n s =
    (True, s\<lparr>g_free_ranges := joined ls \<lparr>fr_base = b, fr_count = n\<rparr> us\<rparr>)"
proof -
  define new where "new = \<lparr>fr_base = b, fr_count = n\<rparr>"
  have new: "range_ok new" "lo new = unat b" "hi new = unat b + unat n * 4096" "n \<noteq> 0"
    using blk by (auto simp: block_ok_def new_def lo_def hi_def range_ok_def)
  have ue: "unat (b + n * PAGE_SIZE) = hi new"
    using new unat_block_end [of b n] by (auto simp: range_ok_def)
  have touch_next: "b + n * PAGE_SIZE = fr_base x \<longleftrightarrow> hi new = lo x" for x
    using ue by (auto simp: lo_def word_unat_eq_iff)
  have no_overlap: "\<not> b + n * PAGE_SIZE > fr_base x" if "x \<in> set us" for x
    using that succ ue new(3) by (auto simp: lo_def word_less_nat_alt)
  have not_full: "\<not> MEMORY_MAX_FREE_RANGES \<le> length (ls @ us)"
    using room by simp
  have join_new: "x\<lparr>fr_base := b, fr_count := fr_count x + n\<rparr> = join_ranges new x" for x
    by (cases x) (simp add: join_ranges_def new_def)
  have join_old: "x\<lparr>fr_count := fr_count x + n\<rparr> = join_ranges x new" for x
    by (simp add: join_ranges_def new_def)
  note unf = append_free_range_def rs split Let_def new_def [symmetric]
  show ?thesis
  proof (cases ls rule: rev_cases)
    case Nil
    show ?thesis
    proof (cases us)
      case Nil
      with \<open>ls = []\<close> new(4) not_full show ?thesis
        unfolding unf by (simp add: joined_def insert_at_def)
    next
      case (Cons x us')
      with \<open>ls = []\<close> new(4) not_full no_overlap [of x] touch_next [of x] join_new [of x]
      show ?thesis unfolding unf by (simp add: joined_def insert_at_def)
    qed
  next
    case (snoc ls' p)
    then have p: "range_ok p" using ok by (simp add: ranges_ok_append)
    have end_p: "fr_end p = b \<longleftrightarrow> hi p = lo new"
      using fr_end_eq_iff [OF p] new(2) by simp
    show ?thesis
    proof (cases us)
      case Nil
      with snoc new(4) not_full end_p join_old [of p] show ?thesis
        unfolding unf by (simp add: joined_def insert_at_def nth_append list_update_append)
    next
      case (Cons x us')
      have joined_end: "fr_end (join_ranges p new) = fr_base x \<longleftrightarrow> hi new = lo x" if "hi p = lo new"
        using join_ranges_ok [OF p new(1) that] by (simp add: fr_end_eq_iff) (simp add: lo_def)
      have join_next: "(join_ranges p new)\<lparr>fr_count := fr_count (join_ranges p new) + fr_count x\<rparr>
          = join_ranges (join_ranges p new) x"
        by (simp add: join_ranges_def)
      have del: "delete_at (Suc (length ls')) (ls' @ q # x # us') = ls' @ q # us'" for q
        using delete_at_append [of "ls' @ [q]" x us'] by simp
      have ins: "insert_at (Suc (length ls')) q (ls' @ p # x # us') = ls' @ p # q # x # us'" for q
        by (simp add: insert_at_def)
      show ?thesis
      proof (cases "hi p = lo new")
        case True
        with snoc Cons new(4) not_full no_overlap [of x] end_p join_old [of p] joined_end join_next del
        show ?thesis unfolding unf by (simp add: joined_def nth_append list_update_append)
      next
        case False
        with snoc Cons new(4) not_full no_overlap [of x] end_p touch_next [of x] join_new [of x] ins
        show ?thesis
          unfolding unf by (simp add: joined_def nth_append list_update_append)
      qed
    qed
  qed
qed

lemma append_free_range_ok:
  assumes ok: "ranges_ok (g_free_ranges s)" and blk: "block_ok b n"
    and disj: "free_set (g_free_ranges s) \<inter> block_set b n = {}"
    and room: "length (g_free_ranges s) < MEMORY_MAX_FREE_RANGES"
  shows "\<exists>rs'. append_free_range b n s = (True, s\<lparr>g_free_ranges := rs'\<rparr>) \<and> ranges_ok rs' \<and>
    free_set rs' = free_set (g_free_ranges s) \<union> block_set b n \<and>
    length rs' \<le> Suc (length (g_free_ranges s))"
proof -
  obtain ls us where rs: "g_free_ranges s = ls @ us" and at: "find_insert b (ls @ us) = length ls"
    and left: "\<forall>r \<in> set ls. fr_base r < b" and right: "us = [] \<or> \<not> fr_base (hd us) < b"
    using find_insert_split [of "g_free_ranges s" b] by metis
  let ?new = "\<lparr>fr_base = b, fr_count = n\<rparr>"
  have new: "range_ok ?new" "lo ?new = unat b" "hi ?new = unat b + unat n * 4096"
    using blk by (auto simp: block_ok_def lo_def hi_def)
  have disj1: "{lo r..<hi r} \<inter> block_set b n = {}" if "r \<in> set (ls @ us)" for r
    using that disj rs by (auto simp: free_set_def)
  have prev: "\<forall>r \<in> set ls. hi r \<le> lo ?new"
    using left ok rs disj1 block_after [OF _ blk] new(2)
    by (auto simp: ranges_ok_append dest: ranges_ok_range)
  have succ: "\<forall>r \<in> set us. hi ?new \<le> lo r"
  proof
    fix r assume r: "r \<in> set us"
    then have "lo (hd us) \<le> lo r"
      using ok rs lo_less_hi by (cases us) (fastforce simp: ranges_ok_append)+
    moreover have "us \<noteq> []" using r by auto
    ultimately have "\<not> fr_base r < b"
      using right by (auto simp: lo_def word_less_nat_alt)
    then show "hi ?new \<le> lo r"
      using r ok rs disj1 [of r] block_before [of r b n] blk new(3)
      by (auto simp: ranges_ok_append dest: ranges_ok_range)
  qed
  have "append_free_range b n s = (True, s\<lparr>g_free_ranges := joined ls ?new us\<rparr>)"
    using append_free_range_joined [OF _ blk at] ok rs room succ new(3) by simp
  then show ?thesis
    using joined_ok [of ls us ?new] ok rs new prev succ by (auto simp: block_set_def)
qed

subsection \<open>First-fit allocation\<close>

lemma first_fit_split:
  "first_fit n rs < length rs \<Longrightarrow>
   \<exists>ls r us. rs = ls @ r # us \<and> first_fit n rs = length ls \<and> n \<le> fr_count r \<and>
     (\<forall>q \<in> set ls. fr_count q < n)"
proof (induction rs)
  case Nil
  then show ?case by simp
next
  case (Cons q rs)
  show ?case
  proof (cases "fr_count q \<ge> n")
    case True
    then show ?thesis by (intro exI [of _ "[]"] exI [of _ q] exI [of _ rs]) auto
  next
    case False
    with Cons obtain ls r us where "rs = ls @ r # us" "first_fit n rs = length ls" "n \<le> fr_count r"
        "\<forall>q \<in> set ls. fr_count q < n"
      by auto
    with False show ?thesis by (intro exI [of _ "q # ls"] exI [of _ r] exI [of _ us]) auto
  qed
qed

lemma first_fit_none: "\<not> first_fit n rs < length rs \<Longrightarrow> \<forall>r \<in> set rs. fr_count r < n"
  by (induction rs) (auto split: if_splits)

text \<open>Cutting \<open>n\<close> pages off the front of a range.\<close>

definition cut_front :: "u64 \<Rightarrow> FreePageRange \<Rightarrow> FreePageRange" where
  "cut_front n r = r\<lparr>fr_base := fr_base r + n * PAGE_SIZE, fr_count := fr_count r - n\<rparr>"

lemma cut_front_ok:
  assumes "range_ok r" and "n \<le> fr_count r"
  shows "lo (cut_front n r) = lo r + unat n * 4096" and "hi (cut_front n r) = hi r"
    and "fr_count r \<noteq> n \<Longrightarrow> range_ok (cut_front n r)"
    and "fr_count (cut_front n r) = 0 \<longleftrightarrow> fr_count r = n"
proof -
  have n: "unat n \<le> unat (fr_count r)"
    using assms(2) by (simp add: word_le_nat_alt)
  then have "lo r + unat n * 4096 < 2 ^ 64"
    using assms(1) by (auto simp: range_ok_def lo_def hi_def)
  then have b: "unat (fr_base r + n * PAGE_SIZE) = lo r + unat n * 4096"
    by (simp add: lo_def unat_block_end)
  have c: "unat (fr_count r - n) = unat (fr_count r) - unat n"
    using n by (simp add: unat_diff_small)
  show l: "lo (cut_front n r) = lo r + unat n * 4096"
    using b by (simp add: cut_front_def lo_def)
  show h: "hi (cut_front n r) = hi r"
    using b c n by (simp add: cut_front_def hi_def lo_def algebra_simps)
  show z: "fr_count (cut_front n r) = 0 \<longleftrightarrow> fr_count r = n"
    by (auto simp: cut_front_def)
  show "range_ok (cut_front n r)" if "fr_count r \<noteq> n"
    using that assms(1) l h z by (auto simp: range_ok_def)
qed

lemma alloc_pages_cases:
  assumes inv: "mem_inv s" and ready: "g_memory_ready s" and n: "n \<noteq> 0"
  obtains (none) "alloc_pages n s = (0, s)" "\<forall>r \<in> set (g_free_ranges s). fr_count r < n"
  | (some) ls r us where "g_free_ranges s = ls @ r # us" "n \<le> fr_count r" "range_ok r" "0 < lo r"
      "\<forall>q \<in> set ls. fr_count q < n"
      "alloc_pages n s = (fr_base r, s\<lparr>g_free_ranges :=
         (if fr_count r = n then ls @ us else ls @ cut_front n r # us)\<rparr>)"
proof (cases "first_fit n (g_free_ranges s) < length (g_free_ranges s)")
  case False
  then show thesis
    using none ready n first_fit_none [OF False] by (simp add: alloc_pages_def Let_def)
next
  case True
  then obtain ls r us where rs: "g_free_ranges s = ls @ r # us" "n \<le> fr_count r"
      "first_fit n (ls @ r # us) = length ls" "\<forall>q \<in> set ls. fr_count q < n"
    using first_fit_split by metis
  have r: "range_ok r"
    using inv rs(1) by (simp add: mem_inv_def ranges_ok_append)
  have r0: "0 < lo r"
    using inv rs(1) lo_less_hi [OF r] by (auto simp: mem_inv_def)
  have "alloc_pages n s = (fr_base r, s\<lparr>g_free_ranges :=
      (if fr_count r = n then ls @ us else ls @ cut_front n r # us)\<rparr>)"
    using ready n cut_front_ok(4) [OF r rs(2)]
    unfolding alloc_pages_def Let_def rs(1,3) cut_front_def [symmetric]
    by (simp add: delete_at_append)
  then show thesis using some rs r r0 by blast
qed

lemma alloc_pages_some:
  assumes inv: "mem_inv s" and alloc: "alloc_pages n s = (p, s')" and p: "p \<noteq> 0"
  shows "mem_inv s'" and "block_ok p n" and "block_set p n \<subseteq> free_set (g_free_ranges s)"
    and "free_set (g_free_ranges s') = free_set (g_free_ranges s) - block_set p n"
    and "g_memory_ready s' = g_memory_ready s"
proof -
  have ready: "g_memory_ready s" and n: "n \<noteq> 0"
    using alloc p by (auto simp: alloc_pages_def Let_def split: if_splits)
  have "mem_inv s' \<and> block_ok p n \<and> block_set p n \<subseteq> free_set (g_free_ranges s) \<and>
      free_set (g_free_ranges s') = free_set (g_free_ranges s) - block_set p n \<and>
      g_memory_ready s' = g_memory_ready s"
  proof (rule alloc_pages_cases [OF inv ready n])
    assume "alloc_pages n s = (0, s)"
    with alloc p show ?thesis by simp
  next
    fix ls r us
    assume rs: "g_free_ranges s = ls @ r # us" "n \<le> fr_count r" "range_ok r"
      and eq: "alloc_pages n s = (fr_base r, s\<lparr>g_free_ranges :=
         (if fr_count r = n then ls @ us else ls @ cut_front n r # us)\<rparr>)"
    have ok: "ranges_ok (ls @ r # us)" and len: "length (ls @ r # us) \<le> MEMORY_MAX_FREE_RANGES"
      and zero: "0 \<notin> free_set (ls @ r # us)"
      using inv rs(1) by (simp_all add: mem_inv_def)
    note cut = cut_front_ok [OF rs(3,2)]
    have b: "block_set p n = {lo r..<lo r + unat n * 4096}" "lo r + unat n * 4096 \<le> hi r"
      using eq alloc rs(2) by (auto simp: block_set_def lo_def hi_def word_le_nat_alt)
    have exact: "lo r + unat n * 4096 = hi r" if "fr_count r = n"
      using that by (simp add: lo_def hi_def)
    have blk: "block_ok p n"
      using rs(2,3) eq alloc n
      by (auto simp: block_ok_def range_ok_def lo_def hi_def word_le_nat_alt)
    have left: "free_set ls \<inter> {lo r..<hi r} = {}" and right: "free_set us \<inter> {lo r..<hi r} = {}"
      using ok by (fastforce simp: ranges_ok_append free_set_def)+
    have sub: "{lo r..<lo r + unat n * 4096} \<subseteq> free_set (ls @ r # us)"
      using b by auto
    show ?thesis
    proof (cases "fr_count r = n")
      case True
      have "free_set (ls @ us) = free_set (ls @ r # us) - block_set p n"
        using left right b exact [OF True] by auto
      with True show ?thesis
        using eq alloc rs(1) ok len blk b zero sub
        unfolding mem_inv_def by (simp del: free_set_simps add: ranges_ok_append)
    next
      case False
      have before: "\<forall>q \<in> set ls. hi q < lo r + unat n * 4096"
        using ok by (auto simp: ranges_ok_append)
      have "{lo r..<hi r} = {lo r..<lo r + unat n * 4096} \<union> {lo r + unat n * 4096..<hi r}"
        using b(2) by (intro ivl_disj_un_two(3) [symmetric]) simp_all
      then have eq1: "free_set (ls @ r # us) = free_set ls \<union> block_set p n \<union>
          {lo r + unat n * 4096..<hi r} \<union> free_set us"
        unfolding free_set_simps b(1) by blast
      have within: "block_set p n \<subseteq> {lo r..<hi r}"
        using b(2) unfolding b(1) by simp
      have "(free_set ls \<union> free_set us) \<inter> block_set p n = {}"
        using left right within by blast
      moreover have "{lo r + unat n * 4096..<hi r} \<inter> block_set p n = {}"
        unfolding b(1) by auto
      ultimately have "free_set (ls @ cut_front n r # us) = free_set (ls @ r # us) - block_set p n"
        unfolding eq1 by (simp only: free_set_simps cut(1,2)) blast
      with False show ?thesis
        using eq alloc rs(1) ok len blk b cut zero sub before
        unfolding mem_inv_def by (simp del: free_set_simps add: ranges_ok_append)
    qed
  qed
  then show "mem_inv s'" "block_ok p n" "block_set p n \<subseteq> free_set (g_free_ranges s)"
    "free_set (g_free_ranges s') = free_set (g_free_ranges s) - block_set p n"
    "g_memory_ready s' = g_memory_ready s" by auto
qed

lemma alloc_pages_none:
  assumes inv: "mem_inv s" and alloc: "alloc_pages n s = (0, s')"
  shows "s' = s"
proof (cases "g_memory_ready s \<and> n \<noteq> 0")
  case False
  with alloc show ?thesis by (auto simp: alloc_pages_def Let_def split: if_splits)
next
  case True
  then have ready: "g_memory_ready s" and n: "n \<noteq> 0" by auto
  show ?thesis
    using alloc by (cases rule: alloc_pages_cases [OF inv ready n]) (auto simp: lo_def)
qed

end
