(* ===== verification/PageAlloc.thy ===== *)
theory PageAlloc
  imports PhysMem
begin

text \<open>
  What the page allocator of \<open>PhysMem\<close> promises its clients (the heap, the page-table pool, the
  process loader): the interface \<open>page_source\<close>, its interpretation on \<open>alloc_pages\<close> and
  \<open>free_pages\<close>, ownership along any sequence of operations, the exact meaning of first fit, and
  the page count.
\<close>

subsection \<open>Freeing\<close>

lemma free_pages_cases:
  assumes inv: "mem_inv s" and blk: "block_ok p n" and p: "p \<noteq> 0"
    and disj: "free_set (g_free_ranges s) \<inter> block_set p n = {}"
  shows "mem_inv (free_pages p n s)"
    and "free_set (g_free_ranges (free_pages p n s)) =
      free_set (g_free_ranges s) \<union>
      (if g_memory_ready s \<and> length (g_free_ranges s) < MEMORY_MAX_FREE_RANGES
       then block_set p n else {})"
    and "g_memory_ready (free_pages p n s) = g_memory_ready s"
proof -
  have n: "n \<noteq> 0" using blk by (simp add: block_ok_def range_ok_def)
  have p0: "0 \<notin> block_set p n" using p by (auto simp: block_set_def unat_gt_0)
  let ?full = "MEMORY_MAX_FREE_RANGES \<le> length (g_free_ranges s)"
  have "mem_inv (free_pages p n s) \<and> free_set (g_free_ranges (free_pages p n s)) =
      free_set (g_free_ranges s) \<union>
      (if g_memory_ready s \<and> \<not> ?full then block_set p n else {}) \<and>
      g_memory_ready (free_pages p n s) = g_memory_ready s"
  proof (cases "g_memory_ready s \<and> \<not> ?full")
    case False
    then have "free_pages p n s = s"
      using n by (auto simp: free_pages_def append_free_range_def Let_def)
    with False inv show ?thesis by auto
  next
    case True
    then obtain rs' where rs': "append_free_range p n s = (True, s\<lparr>g_free_ranges := rs'\<rparr>)"
        "ranges_ok rs'" "free_set rs' = free_set (g_free_ranges s) \<union> block_set p n"
        "length rs' \<le> Suc (length (g_free_ranges s))"
      using append_free_range_ok [OF _ blk disj] inv by (auto simp: mem_inv_def)
    with True n p p0 inv show ?thesis
      by (simp add: free_pages_def mem_inv_def)
  qed
  then show "mem_inv (free_pages p n s)"
    "free_set (g_free_ranges (free_pages p n s)) = free_set (g_free_ranges s) \<union>
      (if g_memory_ready s \<and> length (g_free_ranges s) < MEMORY_MAX_FREE_RANGES
       then block_set p n else {})"
    "g_memory_ready (free_pages p n s) = g_memory_ready s"
    by (auto simp: not_le)
qed

subsection \<open>The interface\<close>

definition owned_ok :: "nat set \<Rightarrow> (u64 \<times> u64) list \<Rightarrow> bool" where
  "owned_ok free owned \<longleftrightarrow>
     (\<forall>p n. (p, n) \<in> set owned \<longrightarrow> p \<noteq> 0 \<and> block_ok p n \<and> block_set p n \<inter> free = {}) \<and>
     sorted_wrt (\<lambda>(p, n) (q, m). block_set p n \<inter> block_set q m = {}) owned"

locale page_source =
  fixes alloc :: "u64 \<Rightarrow> 's \<Rightarrow> u64 \<times> 's"
    and release :: "u64 \<Rightarrow> u64 \<Rightarrow> 's \<Rightarrow> 's"
    and avail :: "'s \<Rightarrow> nat set"
    and inv :: "'s \<Rightarrow> bool"
  assumes alloc_fail: "\<lbrakk>inv s; alloc n s = (0, s')\<rbrakk> \<Longrightarrow> s' = s"
    and alloc_inv: "\<lbrakk>inv s; alloc n s = (p, s'); p \<noteq> 0\<rbrakk> \<Longrightarrow> inv s'"
    and alloc_block: "\<lbrakk>inv s; alloc n s = (p, s'); p \<noteq> 0\<rbrakk> \<Longrightarrow> block_ok p n"
    and alloc_avail: "\<lbrakk>inv s; alloc n s = (p, s'); p \<noteq> 0\<rbrakk> \<Longrightarrow> block_set p n \<subseteq> avail s"
    and alloc_takes: "\<lbrakk>inv s; alloc n s = (p, s'); p \<noteq> 0\<rbrakk> \<Longrightarrow> avail s' = avail s - block_set p n"
    and release_inv: "\<lbrakk>inv s; block_ok p n; p \<noteq> 0; avail s \<inter> block_set p n = {}\<rbrakk>
      \<Longrightarrow> inv (release p n s)"
    and release_only: "\<lbrakk>inv s; block_ok p n; p \<noteq> 0; avail s \<inter> block_set p n = {}\<rbrakk>
      \<Longrightarrow> avail (release p n s) \<subseteq> avail s \<union> block_set p n"
begin

lemma alloc_keeps_inv: "inv s \<Longrightarrow> alloc n s = (p, s') \<Longrightarrow> inv s'"
  using alloc_fail alloc_inv by (cases "p = 0") auto

lemma owned_alloc:
  assumes "inv s" and "alloc n s = (p, s')" and "p \<noteq> 0" and "owned_ok (avail s) owned"
  shows "owned_ok (avail s') ((p, n) # owned)"
proof -
  note laws = alloc_block [OF assms(1-3)] alloc_avail [OF assms(1-3)] alloc_takes [OF assms(1-3)]
  have "block_set p n \<inter> block_set q m = {}" if "(q, m) \<in> set owned" for q m
    using that assms(4) laws(2) by (fastforce simp: owned_ok_def)
  moreover have "block_set q m \<inter> avail s' = {}" if "(q, m) \<in> set owned" for q m
    using that assms(4) laws(3) by (fastforce simp: owned_ok_def)
  ultimately show ?thesis
    using assms(3,4) laws by (auto simp: owned_ok_def)
qed

lemma owned_release:
  assumes "inv s" and "owned_ok (avail s) (ls @ (p, n) # us)"
  shows "inv (release p n s)" and "owned_ok (avail (release p n s)) (ls @ us)"
proof -
  have b: "p \<noteq> 0" "block_ok p n" "avail s \<inter> block_set p n = {}"
    using assms(2) by (auto simp: owned_ok_def)
  show "inv (release p n s)"
    using release_inv [OF assms(1) b(2,1,3)] .
  have "block_set q m \<inter> block_set p n = {}" if "(q, m) \<in> set (ls @ us)" for q m
    using that assms(2) by (fastforce simp: owned_ok_def sorted_wrt_append)
  moreover have "block_set q m \<inter> avail s = {}" if "(q, m) \<in> set (ls @ us)" for q m
    using that assms(2) by (auto simp: owned_ok_def)
  ultimately have "block_set q m \<inter> avail (release p n s) = {}" if "(q, m) \<in> set (ls @ us)" for q m
    using that release_only [OF assms(1) b(2,1,3)] by blast
  then show "owned_ok (avail (release p n s)) (ls @ us)"
    using assms(2) by (auto simp: owned_ok_def sorted_wrt_append)
qed

end

interpretation pages: page_source alloc_pages free_pages "\<lambda>s. free_set (g_free_ranges s)" mem_inv
proof
  fix s s' :: memory_state and n p
  show "mem_inv s \<Longrightarrow> alloc_pages n s = (0, s') \<Longrightarrow> s' = s"
    by (rule alloc_pages_none)
  assume a: "mem_inv s" "alloc_pages n s = (p, s')" "p \<noteq> 0"
  note some = alloc_pages_some [OF a]
  show "mem_inv s'" "block_ok p n" "block_set p n \<subseteq> free_set (g_free_ranges s)"
    "free_set (g_free_ranges s') = free_set (g_free_ranges s) - block_set p n"
    using some by auto
next
  fix s :: memory_state and n p
  assume a: "mem_inv s" "block_ok p n" "p \<noteq> 0" "free_set (g_free_ranges s) \<inter> block_set p n = {}"
  show "mem_inv (free_pages p n s)"
    using free_pages_cases(1) [OF a] .
  show "free_set (g_free_ranges (free_pages p n s)) \<subseteq> free_set (g_free_ranges s) \<union> block_set p n"
    using free_pages_cases(2) [OF a] by auto
qed

subsection \<open>Ownership along a sequence of operations\<close>

text \<open>
  A run of the allocator: \<open>owned\<close> lists the live blocks handed out by \<open>alloc_pages\<close>. A client may
  free a block it owns, once.
\<close>

inductive alloc_step ::
  "memory_state \<times> (u64 \<times> u64) list \<Rightarrow> memory_state \<times> (u64 \<times> u64) list \<Rightarrow> bool" where
  step_alloc: "alloc_pages n s = (p, s') \<Longrightarrow> p \<noteq> 0 \<Longrightarrow> alloc_step (s, owned) (s', (p, n) # owned)"
| step_fail: "alloc_pages n s = (0, s') \<Longrightarrow> alloc_step (s, owned) (s', owned)"
| step_free: "alloc_step (s, ls @ (p, n) # us) (free_pages p n s, ls @ us)"

inductive_cases alloc_stepE [consumes 1, case_names step_alloc step_fail step_free]: "alloc_step (s, owned) (s', owned')"

definition alloc_reachable :: "memory_state \<Rightarrow> memory_state \<Rightarrow> (u64 \<times> u64) list \<Rightarrow> bool" where
  "alloc_reachable s0 s owned = alloc_step\<^sup>*\<^sup>* (s0, []) (s, owned)"

lemma alloc_step_inv:
  assumes "alloc_step (s, owned) (s', owned')" and "mem_inv s"
    and "owned_ok (free_set (g_free_ranges s)) owned"
  shows "mem_inv s' \<and> owned_ok (free_set (g_free_ranges s')) owned'"
  using assms
proof (cases rule: alloc_stepE)
  case step_alloc
  then show ?thesis
    using assms(2,3) pages.owned_alloc pages.alloc_keeps_inv by blast
next
  case step_fail
  then show ?thesis
    using assms(2,3) pages.alloc_fail by blast
next
  case step_free
  then show ?thesis
    using assms(2,3) pages.owned_release by blast
qed


text \<open>A small memory: 16 pages at 1 MiB and 4 pages at 2 MiB.\<close>

definition demo_memory :: memory_state where
  "demo_memory = \<lparr>g_free_ranges = [\<lparr>fr_base = 0x100000, fr_count = 16\<rparr>, \<lparr>fr_base = 0x200000, fr_count = 4\<rparr>],
     g_total_pages = 20, g_heap_head = 0, g_memory_ready = True\<rparr>"

lemma demo_memory_inv: "mem_inv demo_memory"
  by (simp add: demo_memory_def mem_inv_def ranges_ok_def range_ok_def lo_def hi_def
      MEMORY_MAX_FREE_RANGES_def)

lemma demo_memory_run:
  "alloc_reachable demo_memory
     (free_pages 0x100000 3 (snd (alloc_pages 2 (snd (alloc_pages 3 demo_memory))))) [(0x103000, 2)]"
proof -
  let ?s1 = "snd (alloc_pages 3 demo_memory)"
  let ?s2 = "snd (alloc_pages 2 ?s1)"
  have a: "alloc_pages 3 demo_memory = (0x100000, ?s1)" "alloc_pages 2 ?s1 = (0x103000, ?s2)"
    by (simp_all add: demo_memory_def alloc_pages_def Let_def PAGE_SIZE_def)
  have "alloc_step (demo_memory, []) (?s1, [(0x100000, 3)])"
    using a(1) by (rule step_alloc) simp
  moreover have "alloc_step (?s1, [(0x100000, 3)]) (?s2, [(0x103000, 2), (0x100000, 3)])"
    using a(2) by (rule step_alloc) simp
  moreover have "alloc_step (?s2, [(0x103000, 2), (0x100000, 3)])
      (free_pages 0x100000 3 ?s2, [(0x103000, 2)])"
    using step_free [of ?s2 "[(0x103000, 2)]" "0x100000" 3 "[]"] by simp
  ultimately show ?thesis
    unfolding alloc_reachable_def by (meson rtranclp.rtrancl_into_rtrancl rtranclp.rtrancl_refl)
qed



subsection \<open>What first fit finds\<close>

text \<open>Because touching ranges are always merged, a free run of pages lies inside one range.\<close>

lemma run_in_one_range:
  assumes "ranges_ok rs" and "block_ok b n" and "block_set b n \<subseteq> free_set rs"
  shows "\<exists>r \<in> set rs. block_set b n \<subseteq> {lo r..<hi r}"
  using assms
proof (induction rs)
  case Nil
  then show ?case
    by (auto simp: block_set_def block_ok_def range_ok_def unat_gt_0)
next
  case (Cons r rs)
  have n: "0 < unat n" using Cons.prems(2) by (simp add: block_ok_def range_ok_def unat_gt_0)
  have after: "\<forall>x \<in> free_set rs. hi r < x"
    using Cons.prems(1) by (fastforce simp: ranges_ok_def free_set_def)
  have start: "unat b \<in> block_set b n" using n by (simp add: block_set_def)
  show ?case
  proof (cases "unat b \<in> {lo r..<hi r}")
    case True
    have "hi r \<notin> free_set (r # rs)" using after by auto
    then have "hi r \<notin> block_set b n" using Cons.prems(3) by blast
    with True have "block_set b n \<subseteq> {lo r..<hi r}" by (auto simp: block_set_def)
    then show ?thesis by auto
  next
    case False
    then have "unat b \<in> free_set rs" using start Cons.prems(3) by auto
    then have "hi r < unat b" using after by blast
    then have "block_set b n \<subseteq> free_set rs"
      using Cons.prems(3) by (auto simp: block_set_def)
    moreover have "ranges_ok rs" using Cons.prems(1) by (simp add: ranges_ok_def)
    ultimately show ?thesis using Cons.IH Cons.prems(2) by auto
  qed
qed

lemma run_count:
  assumes "block_set b n \<subseteq> {lo r..<hi r}" and "n \<noteq> 0"
  shows "n \<le> fr_count r \<and> lo r \<le> unat b"
proof -
  have "0 < unat n" using assms(2) by (simp add: unat_gt_0)
  then have "lo r \<le> unat b \<and> unat b + unat n * 4096 \<le> hi r"
    using assms(1) by (auto simp: block_set_def)
  then show ?thesis by (auto simp: hi_def lo_def word_le_nat_alt)
qed

text \<open>On a ready allocator, \<open>alloc_pages\<close> fails only when no run of \<open>page_count\<close> contiguous free
  pages exists anywhere, and otherwise returns the lowest address where such a run starts.\<close>

theorem alloc_pages_lowest_run:
  assumes "mem_inv s" and "g_memory_ready s" and "n \<noteq> 0" and "alloc_pages n s = (p, s')"
  shows "if p = 0 then \<not> (\<exists>b. block_ok b n \<and> block_set b n \<subseteq> free_set (g_free_ranges s))
    else block_set p n \<subseteq> free_set (g_free_ranges s) \<and>
      (\<forall>b. block_ok b n \<and> block_set b n \<subseteq> free_set (g_free_ranges s) \<longrightarrow> p \<le> b)"
proof -
  have ok: "ranges_ok (g_free_ranges s)" using assms(1) by (simp add: mem_inv_def)
  note inside = run_in_one_range [OF ok, of _ n]
  show ?thesis
  proof (rule alloc_pages_cases [OF assms(1-3)])
    assume none: "alloc_pages n s = (0, s)" "\<forall>r \<in> set (g_free_ranges s). fr_count r < n"
    have False if b: "block_ok b n" "block_set b n \<subseteq> free_set (g_free_ranges s)" for b
      using inside [OF b] none(2) run_count [OF _ assms(3)] by (fastforce simp: not_less [symmetric])
    then show ?thesis using none(1) assms(4) by auto
  next
    fix ls r us
    assume rs: "g_free_ranges s = ls @ r # us" "range_ok r" "0 < lo r"
      and small: "\<forall>q \<in> set ls. fr_count q < n" and alloc: "alloc_pages n s = (fr_base r,
        s\<lparr>g_free_ranges := (if fr_count r = n then ls @ us else ls @ cut_front n r # us)\<rparr>)"
    have p: "p = fr_base r" "p \<noteq> 0" using alloc assms(4) rs(3) by (auto simp: lo_def)
    have "p \<le> b" if b: "block_ok b n" "block_set b n \<subseteq> free_set (g_free_ranges s)" for b
    proof -
      obtain q where q: "q \<in> set (ls @ r # us)" "block_set b n \<subseteq> {lo q..<hi q}"
        using inside [OF b] rs(1) by auto
      then have "q \<notin> set ls" "lo q \<le> unat b"
        using run_count [OF q(2) assms(3)] small by (auto simp: not_le)
      moreover have "lo r \<le> lo q" if "q \<in> set us"
        using that ok rs(1) lo_less_hi [OF rs(2)] by (auto simp: ranges_ok_append)
      ultimately show ?thesis
        using q(1) p by (auto simp: lo_def word_le_nat_alt)
    qed
    then show ?thesis
      using p alloc_pages_some(3) [OF assms(1,4)] by auto
  qed
qed

theorem alloc_pages_lowest_run_witness:
  "alloc_pages 17 demo_memory = (0, demo_memory) \<and>
   \<not> (\<exists>b. block_ok b 17 \<and> block_set b 17 \<subseteq> free_set (g_free_ranges demo_memory))"
proof -
  have "alloc_pages 17 demo_memory = (0, demo_memory)"
    by (simp add: demo_memory_def alloc_pages_def Let_def)
  then show ?thesis
    using alloc_pages_lowest_run [OF demo_memory_inv, of 17] by (simp add: demo_memory_def)
qed

subsection \<open>The page count\<close>

lemma card_free_set:
  "ranges_ok rs \<Longrightarrow> card (free_set rs) = (\<Sum>r\<leftarrow>rs. unat (fr_count r) * 4096) \<and> free_set rs \<subseteq> {..<2 ^ 64}"
proof (induction rs)
  case Nil
  then show ?case by simp
next
  case (Cons r rs)
  then have rs: "ranges_ok rs" and r: "range_ok r" by (auto simp: ranges_ok_def)
  have "{lo r..<hi r} \<inter> free_set rs = {}"
    using Cons.prems by (fastforce simp: ranges_ok_def free_set_def)
  moreover have "finite (free_set rs)" by (simp add: free_set_def)
  ultimately have "card (free_set (r # rs)) = (hi r - lo r) + card (free_set rs)"
    by (simp add: card_Un_disjoint)
  then show ?case
    using Cons.IH [OF rs] r by (auto simp: hi_def lo_def range_ok_def)
qed

lemma unat_sum_list:
  "(\<Sum>x\<leftarrow>xs. unat (f x :: u64)) < 2 ^ 64 \<Longrightarrow> unat (sum_list (map f xs)) = (\<Sum>x\<leftarrow>xs. unat (f x))"
proof (induction xs)
  case (Cons x xs)
  then show ?case by (subst list.map) (simp add: unat_add_small)
qed simp

lemma memory_free_pages_card:
  assumes "mem_inv s"
  shows "unat (memory_free_pages s) * 4096 = card (free_set (g_free_ranges s))"
proof -
  let ?rs = "g_free_ranges s"
  have c: "card (free_set ?rs) = (\<Sum>r\<leftarrow>?rs. unat (fr_count r)) * 4096" "free_set ?rs \<subseteq> {..<2 ^ 64}"
    using card_free_set [of ?rs] assms by (auto simp: mem_inv_def sum_list_mult_const)
  have "card (free_set ?rs) \<le> 2 ^ 64"
    using card_mono [OF _ c(2)] by simp
  then have "(\<Sum>r\<leftarrow>?rs. unat (fr_count r)) < 2 ^ 64"
    using c(1) by simp
  from unat_sum_list [OF this] show ?thesis
    using c(1) by (simp add: memory_free_pages_def)
qed

text \<open>\<open>memory_free_pages\<close> never overflows and counts exactly the free pages; freeing the block that an
  allocation returned restores the free set and the count, unless the range table is full.\<close>

theorem alloc_free_roundtrip:
  assumes "mem_inv s" and "alloc_pages n s = (p, s')" and "p \<noteq> 0"
    and "length (g_free_ranges s') < MEMORY_MAX_FREE_RANGES"
  shows "free_set (g_free_ranges (free_pages p n s')) = free_set (g_free_ranges s) \<and>
    memory_free_pages (free_pages p n s') = memory_free_pages s \<and>
    unat (memory_free_pages s) = unat (memory_free_pages s') + unat n"
proof -
  note some = alloc_pages_some [OF assms(1-3)]
  have ready: "g_memory_ready s'"
    using assms(2,3) some(5) by (auto simp: alloc_pages_def Let_def split: if_splits)
  have disj: "free_set (g_free_ranges s') \<inter> block_set p n = {}"
    using some(4) by auto
  note free = free_pages_cases [OF some(1,2) assms(3) disj]
  have set_eq: "free_set (g_free_ranges (free_pages p n s')) = free_set (g_free_ranges s)"
    using free(2) ready assms(4) some(3,4) by auto
  have "card (free_set (g_free_ranges s)) = card (free_set (g_free_ranges s')) + card (block_set p n)"
    using some(3,4) by (metis card_Diff_subset card_mono finite_UN finite_atLeastLessThan finite_set
        finite_subset free_set_def le_add_diff_inverse2)
  then have cnt: "unat (memory_free_pages s) = unat (memory_free_pages s') + unat n"
    using memory_free_pages_card [OF assms(1)] memory_free_pages_card [OF some(1)]
    by (simp add: block_set_def)
  have "unat (memory_free_pages (free_pages p n s')) = unat (memory_free_pages s)"
    using memory_free_pages_card [OF free(1)] memory_free_pages_card [OF assms(1)] set_eq by simp
  then show ?thesis using set_eq cnt by (simp add: word_unat_eq_iff)
qed

theorem alloc_free_roundtrip_witness:
  "\<exists>s'. alloc_pages 3 demo_memory = (0x100000, s') \<and>
     free_set (g_free_ranges (free_pages 0x100000 3 s')) = free_set (g_free_ranges demo_memory)"
proof -
  have a: "alloc_pages 3 demo_memory = (0x100000, snd (alloc_pages 3 demo_memory))"
    by (simp add: demo_memory_def alloc_pages_def Let_def)
  have "length (g_free_ranges (snd (alloc_pages 3 demo_memory))) < MEMORY_MAX_FREE_RANGES"
    by (simp add: demo_memory_def alloc_pages_def Let_def MEMORY_MAX_FREE_RANGES_def)
  from alloc_free_roundtrip [OF demo_memory_inv a _ this] a show ?thesis by auto
qed

subsection \<open>What the allocator does not check\<close>

text \<open>
  \<open>append_free_range\<close> compares a freed block with the next range only. Freeing a page that is
  already free, in the middle of a range, inserts an overlapping range, and the page is then
  handed out twice.
\<close>

lemma double_free_hands_out_twice:
  "\<exists>s2 s3. alloc_pages 16 (free_pages 0x101000 1 demo_memory) = (0x100000, s2) \<and>
     alloc_pages 1 s2 = (0x101000, s3) \<and> block_set 0x101000 1 \<subseteq> block_set 0x100000 16"
  by (simp add: demo_memory_def free_pages_def append_free_range_def alloc_pages_def Let_def
      insert_at_def delete_at_def PAGE_SIZE_def MEMORY_MAX_FREE_RANGES_def fr_end_def block_set_def)

end
