(* ===== verification/MemInit.thy ===== *)
theory MemInit
  imports PageAlloc
begin

text \<open>
  Building the free list at boot (\<open>reserve_range\<close>, \<open>add_descriptor_range\<close> and \<open>memory_init\<close> of
  \<open>src/kernel/memory.c\<close>): reserving an interval removes exactly its pages, and a successful
  \<open>memory_init\<close> leaves free exactly the conventional memory below 4 GiB outside the low megabyte,
  the kernel image and the framebuffer.
\<close>

subsection \<open>Page alignment\<close>

lemma page_mask: "v AND NOT (PAGE_SIZE - 1) = push_bit 12 (drop_bit 12 v)"
proof -
  have "PAGE_SIZE - 1 = mask 12" by (simp add: PAGE_SIZE_def mask_eq_exp_minus_1)
  then show ?thesis
    by (auto intro!: bit_word_eqI simp: bit_simps)
qed

lemma unat_align_down: "unat (align_down_uintptr v PAGE_SIZE) = unat v div 4096 * 4096"
proof -
  have v: "take_bit 64 (unat v) = unat v"
    using unat_u64_bound [of v] by (intro take_bit_nat_eq_self) simp
  have "unat (push_bit 12 (drop_bit 12 v)) = take_bit 64 (unat v div 4096 * 4096)"
    by (simp only: unsigned_push_bit_eq unsigned_drop_bit_eq) (simp add: push_bit_eq_mult drop_bit_eq_div v)
  also have "\<dots> = unat v div 4096 * 4096"
    using unat_u64_bound [of v] by (simp add: take_bit_nat_eq_self_iff)
  finally show ?thesis by (simp add: align_down_uintptr_def page_mask)
qed

lemma unat_align_up:
  assumes "unat v + 4095 < 2 ^ 64"
  shows "unat (align_up_uintptr v PAGE_SIZE) = (unat v + 4095) div 4096 * 4096"
proof -
  have "align_up_uintptr v PAGE_SIZE = align_down_uintptr (v + 4095) PAGE_SIZE"
    by (simp add: align_up_uintptr_def align_down_uintptr_def PAGE_SIZE_def algebra_simps)
  moreover have "unat (v + 4095) = unat v + 4095"
    using assms by (simp add: unat_add_small)
  ultimately show ?thesis by (simp add: unat_align_down)
qed

lemma align_aligned:
  assumes "4096 dvd unat v"
  shows "align_down_uintptr v PAGE_SIZE = v" and "align_up_uintptr v PAGE_SIZE = v"
proof -
  show "align_down_uintptr v PAGE_SIZE = v"
    using assms by (simp add: word_unat_eq_iff unat_align_down)
  have "unat v + 4095 < 2 ^ 64"
    using assms unat_u64_bound [of v] by (auto elim!: dvdE)
  then have "unat (align_up_uintptr v PAGE_SIZE) = unat v"
    using assms by (auto simp: unat_align_up elim!: dvdE)
  then show "align_up_uintptr v PAGE_SIZE = v"
    by (simp add: word_unat_eq_iff)
qed

lemma unat_pages_between:
  assumes "4096 dvd unat a" and "4096 dvd unat b" and "unat a \<le> unat b"
  shows "unat ((b - a) div PAGE_SIZE) * 4096 = unat b - unat a"
proof -
  have "unat ((b - a) div PAGE_SIZE) = (unat b - unat a) div 4096"
    using assms(3) by (simp add: unat_div_distrib unat_diff_small PAGE_SIZE_def)
  then show ?thesis using assms by (simp add: dvd_diff_nat)
qed

subsection \<open>Reserving an interval\<close>

text \<open>What \<open>reserve_range\<close> leaves of one range.\<close>

definition carve :: "u64 \<Rightarrow> u64 \<Rightarrow> FreePageRange \<Rightarrow> FreePageRange list" where
  "carve start end r =
     (let left = r\<lparr>fr_count := (start - fr_base r) div PAGE_SIZE\<rparr>;
          right = \<lparr>fr_base = end, fr_count = (fr_end r - end) div PAGE_SIZE\<rparr> in
      if end \<le> fr_base r \<or> start \<ge> fr_end r then [r]
      else (if start \<le> fr_base r then [] else [left]) @ (if end \<ge> fr_end r then [] else [right]))"

lemma carve_ok:
  assumes r: "range_ok r" and s: "4096 dvd unat s" and e: "4096 dvd unat e" and se: "unat s < unat e"
  shows "ranges_ok (carve s e r)" and "free_set (carve s e r) = {lo r..<hi r} - {unat s..<unat e}"
    and "\<forall>q \<in> set (carve s e r). lo r \<le> lo q \<and> hi q \<le> hi r"
proof -
  have base: "unat (fr_base r) = lo r" and fin: "unat (fr_end r) = hi r" and lt: "lo r < hi r"
    and aligned: "4096 dvd lo r" "4096 dvd hi r"
    using r unat_fr_end [OF r] lo_less_hi [OF r] by (auto simp: lo_def hi_def range_ok_def)
  have small: "hi r < 2 ^ 64" using r by (simp add: range_ok_def)
  define left where "left = r\<lparr>fr_count := (s - fr_base r) div PAGE_SIZE\<rparr>"
  define right where "right = \<lparr>fr_base = e, fr_count = (fr_end r - e) div PAGE_SIZE\<rparr>"
  have l: "range_ok left \<and> lo left = lo r \<and> hi left = unat s" if "lo r < unat s" "unat s < hi r"
  proof -
    have "unat ((s - fr_base r) div PAGE_SIZE) * 4096 = unat s - lo r"
      using unat_pages_between [of "fr_base r" s] base aligned s that by simp
    moreover have "lo left = lo r" "hi left = lo r + unat ((s - fr_base r) div PAGE_SIZE) * 4096"
      by (simp_all add: left_def lo_def hi_def)
    moreover from calculation(1) have "(s - fr_base r) div PAGE_SIZE \<noteq> 0"
      using that by (intro notI) simp
    ultimately have "lo left = lo r" "hi left = unat s" "(s - fr_base r) div PAGE_SIZE \<noteq> 0"
      using that by linarith+
    then show ?thesis
      using that aligned small by (simp add: range_ok_def) (simp add: left_def)
  qed
  have rt: "range_ok right \<and> lo right = unat e \<and> hi right = hi r" if "lo r < unat e" "unat e < hi r"
  proof -
    have "unat ((fr_end r - e) div PAGE_SIZE) * 4096 = hi r - unat e"
      using unat_pages_between [of e "fr_end r"] fin aligned e that by simp
    moreover have "lo right = unat e" "hi right = unat e + unat ((fr_end r - e) div PAGE_SIZE) * 4096"
      by (simp_all add: right_def lo_def hi_def)
    moreover from calculation(1) have "(fr_end r - e) div PAGE_SIZE \<noteq> 0"
      using that by (intro notI) simp
    ultimately have "lo right = unat e" "hi right = hi r" "(fr_end r - e) div PAGE_SIZE \<noteq> 0"
      using that by linarith+
    then show ?thesis
      using that e small by (simp add: range_ok_def) (simp add: right_def)
  qed
  have eq: "carve s e r = (if unat e \<le> lo r \<or> hi r \<le> unat s then [r]
      else (if unat s \<le> lo r then [] else [left]) @ (if hi r \<le> unat e then [] else [right]))"
    by (simp add: carve_def Let_def left_def right_def word_le_nat_alt base fin)
  show "ranges_ok (carve s e r)"
    unfolding eq using r l rt se by (auto simp: ranges_ok_def)
  show "free_set (carve s e r) = {lo r..<hi r} - {unat s..<unat e}"
    unfolding eq using l rt se lt by (auto split: if_splits)
  show "\<forall>q \<in> set (carve s e r). lo r \<le> lo q \<and> hi q \<le> hi r"
    unfolding eq using l rt se lt by auto
qed

lemma carve_all_ok:
  assumes "ranges_ok rs" and "4096 dvd unat s" and "4096 dvd unat e" and "unat s < unat e"
  shows "ranges_ok (concat (map (carve s e) rs)) \<and>
    free_set (concat (map (carve s e) rs)) = free_set rs - {unat s..<unat e} \<and>
    (\<forall>q \<in> set (concat (map (carve s e) rs)). \<exists>r \<in> set rs. lo r \<le> lo q)"
  using assms(1)
proof (induction rs)
  case Nil
  then show ?case by (simp add: ranges_ok_def)
next
  case (Cons r rs)
  have r: "range_ok r" and rs: "ranges_ok rs" and gap: "\<forall>r' \<in> set rs. hi r < lo r'"
    using Cons.prems by (auto simp: ranges_ok_def)
  note c = carve_ok [OF r assms(2-4)]
  note IH = Cons.IH [OF rs]
  have "\<forall>p \<in> set (carve s e r). \<forall>q \<in> set (concat (map (carve s e) rs)). hi p < lo q"
    using c(3) IH gap by (meson le_less_trans less_le_trans)
  then have "ranges_ok (concat (map (carve s e) (r # rs)))"
    using c(1) IH by (auto simp: ranges_ok_def sorted_wrt_append)
  moreover have "free_set (concat (map (carve s e) (r # rs))) = free_set (r # rs) - {unat s..<unat e}"
    using c(2) IH by (simp add: Un_Diff)
  moreover have "\<forall>q \<in> set (concat (map (carve s e) (r # rs))). \<exists>r' \<in> set (r # rs). lo r' \<le> lo q"
    using c(3) IH by auto
  ultimately show ?case by blast
qed

text \<open>The loop over the array is \<open>carve\<close> on every range, unless a split finds the table full.\<close>

lemma reserve_loop_carve:
  assumes "reserve_loop s e (length ds) (ds @ ts) = (ok, rs')"
    and "list_all range_ok ts" and "s < e" and "length (ds @ ts) \<le> MEMORY_MAX_FREE_RANGES"
  shows "length rs' \<le> MEMORY_MAX_FREE_RANGES \<and> (ok \<longrightarrow> rs' = ds @ concat (map (carve s e) ts))"
  using assms
proof (induction ts arbitrary: ds)
  case Nil
  then show ?case by (subst (asm) reserve_loop.simps) simp
next
  case (Cons r ts)
  have fe: "fr_base r < fr_end r"
    using Cons.prems(2) by (simp add: word_less_nat_alt unat_fr_end) (simp add: lo_less_hi lo_def [symmetric])
  note unf = trans [OF reserve_loop.simps [symmetric] Cons.prems(1)]
  let ?left = "r\<lparr>fr_count := (s - fr_base r) div PAGE_SIZE\<rparr>"
  let ?right = "\<lparr>fr_base = e, fr_count = (fr_end r - e) div PAGE_SIZE\<rparr>"
  note IH = Cons.IH [of "ds @ [r]"] Cons.IH [of ds] Cons.IH [of "ds @ [?left]"]
    Cons.IH [of "ds @ [?right]"] Cons.IH [of "ds @ [?left, ?right]"]
  consider "e \<le> fr_base r \<or> s \<ge> fr_end r"
    | "\<not> (e \<le> fr_base r \<or> s \<ge> fr_end r)" "s \<le> fr_base r" "e \<ge> fr_end r"
    | "\<not> (e \<le> fr_base r \<or> s \<ge> fr_end r)" "s \<le> fr_base r" "\<not> e \<ge> fr_end r"
    | "\<not> (e \<le> fr_base r \<or> s \<ge> fr_end r)" "\<not> s \<le> fr_base r" "e \<ge> fr_end r"
    | "\<not> (e \<le> fr_base r \<or> s \<ge> fr_end r)" "\<not> s \<le> fr_base r" "\<not> e \<ge> fr_end r"
    by blast
  then show ?case
  proof cases
    case 1
    then show ?thesis
      using unf IH(1) Cons.prems by (simp add: carve_def Let_def)
  next
    case 2
    then show ?thesis
      using unf IH(2) Cons.prems by (simp add: carve_def Let_def delete_at_append)
  next
    case 3
    then show ?thesis
      using unf IH(4) Cons.prems by (simp add: carve_def Let_def list_update_append)
  next
    case 4
    then show ?thesis
      using unf IH(3) Cons.prems by (simp add: carve_def Let_def list_update_append)
  next
    case 5
    have ins: "insert_at (Suc (length ds)) q (ds @ r # ts) = ds @ r # q # ts" for q
      by (simp add: insert_at_def)
    from 5 show ?thesis
      using unf IH(5) Cons.prems
      by (auto simp: carve_def Let_def list_update_append ins split: if_splits)
  qed
qed


definition page_floor :: "nat \<Rightarrow> nat" where
  "page_floor a = a div 4096 * 4096"

definition page_ceil :: "nat \<Rightarrow> nat" where
  "page_ceil a = (a + 4095) div 4096 * 4096"

lemma reserve_range_cases:
  assumes rs: "ranges_ok (g_free_ranges s)" "length (g_free_ranges s) \<le> MEMORY_MAX_FREE_RANGES"
    and e: "unat e + 4095 < 2 ^ 64" and run: "reserve_range a e s = (ok, s')"
  shows "s' = s\<lparr>g_free_ranges := g_free_ranges s'\<rparr> \<and> length (g_free_ranges s') \<le> MEMORY_MAX_FREE_RANGES \<and>
    (ok \<longrightarrow> ranges_ok (g_free_ranges s') \<and> free_set (g_free_ranges s') =
      free_set (g_free_ranges s) - {page_floor (unat a)..<page_ceil (unat e)})"
proof -
  let ?from = "align_down_uintptr a PAGE_SIZE" and ?upto = "align_up_uintptr e PAGE_SIZE"
  have bounds: "unat ?from = page_floor (unat a)" "unat ?upto = page_ceil (unat e)"
    using e by (simp_all add: unat_align_down unat_align_up page_floor_def page_ceil_def)
  have aligned: "4096 dvd unat ?from" "4096 dvd unat ?upto"
    by (simp_all add: bounds page_floor_def page_ceil_def)
  show ?thesis
  proof (cases "?upto \<le> ?from")
    case True
    then have "(ok, s') = (True, s)"
      using run by (simp add: reserve_range_def Let_def)
    moreover have "page_ceil (unat e) \<le> page_floor (unat a)"
      using True bounds by (simp add: word_le_nat_alt)
    ultimately show ?thesis using rs by simp
  next
    case False
    then have lt: "?from < ?upto" "unat ?from < unat ?upto" by (simp_all add: not_le word_less_nat_alt)
    obtain rs' where rs': "reserve_loop ?from ?upto 0 (g_free_ranges s) = (ok, rs')"
        "s' = s\<lparr>g_free_ranges := rs'\<rparr>"
      using run False by (auto simp: reserve_range_def Let_def split: prod.splits)
    have "list_all range_ok (g_free_ranges s)" using rs(1) by (simp add: ranges_ok_def)
    with rs'(1) have "length rs' \<le> MEMORY_MAX_FREE_RANGES \<and>
        (ok \<longrightarrow> rs' = concat (map (carve ?from ?upto) (g_free_ranges s)))"
      using reserve_loop_carve [of ?from ?upto "[]" "g_free_ranges s" ok rs'] lt(1) rs(2) by simp
    then show ?thesis
      using carve_all_ok [OF rs(1) aligned lt(2)] rs'(2) bounds by simp
  qed
qed

text \<open>A successful \<open>reserve_range\<close> keeps the allocator's invariant and removes exactly the pages
  that meet the interval (its start rounded down, its end rounded up) from the free set, whether
  a range is dropped, trimmed on either side or split in two.\<close>

theorem reserve_range_exact:
  assumes "mem_inv s" and "unat e + 4095 < 2 ^ 64" and "reserve_range a e s = (True, s')"
  shows "mem_inv s' \<and> free_set (g_free_ranges s') =
    free_set (g_free_ranges s) - {unat a div 4096 * 4096..<(unat e + 4095) div 4096 * 4096}"
  using reserve_range_cases [OF _ _ assms(2,3)] assms(1)
  by (auto simp: mem_inv_def page_floor_def page_ceil_def)

theorem reserve_range_exact_witness:
  "\<exists>s'. reserve_range 0x101800 0x102001 demo_memory = (True, s') \<and> mem_inv s' \<and>
     g_free_ranges s' = [\<lparr>fr_base = 0x100000, fr_count = 1\<rparr>, \<lparr>fr_base = 0x103000, fr_count = 13\<rparr>,
       \<lparr>fr_base = 0x200000, fr_count = 4\<rparr>]"
proof -
  have run: "reserve_range 0x101800 0x102001 demo_memory = (True, demo_memory\<lparr>g_free_ranges :=
      [\<lparr>fr_base = 0x100000, fr_count = 1\<rparr>, \<lparr>fr_base = 0x103000, fr_count = 13\<rparr>,
       \<lparr>fr_base = 0x200000, fr_count = 4\<rparr>]\<rparr>)"
    by (simp add: reserve_range_def demo_memory_def Let_def align_down_uintptr_def
        align_up_uintptr_def PAGE_SIZE_def reserve_loop.simps fr_end_def insert_at_def
        MEMORY_MAX_FREE_RANGES_def)
  show ?thesis
    using reserve_range_exact [OF demo_memory_inv _ run] run by (simp add: demo_memory_def)
qed

subsection \<open>Boot\<close>

text \<open>
  The firmware's memory map: descriptor \<open>i\<close> is at \<open>map_base + i * descriptor_size\<close>, and there are
  \<open>descriptor_count\<close> of them. \<open>usable\<close> is the memory a descriptor contributes.
\<close>

definition descriptor_count :: "BootInfo \<Rightarrow> nat" where
  "descriptor_count b = unat (map_size (memory_map b)) div unat (descriptor_size (memory_map b))"

definition descriptor_addr :: "BootInfo \<Rightarrow> nat \<Rightarrow> u64" where
  "descriptor_addr b i = map_base (memory_map b) + of_nat i * ucast (descriptor_size (memory_map b))"

definition usable :: "EfiMemoryDescriptor \<Rightarrow> nat set" where
  "usable d = (if efi_type d = EFI_MEMORY_TYPE_CONVENTIONAL
     then {unat (physical_start d)..<unat (physical_start d) + unat (number_of_pages d) * 4096} \<inter> {..<2 ^ 32}
     else {})"

text \<open>What UEFI promises of the map: aligned regions that do not wrap or overlap.\<close>

definition uefi_map :: "(u64 \<Rightarrow> EfiMemoryDescriptor) \<Rightarrow> BootInfo \<Rightarrow> bool" where
  "uefi_map desc_at b \<longleftrightarrow>
     unat (map_base (memory_map b)) + unat (map_size (memory_map b))
       + unat (descriptor_size (memory_map b)) < 2 ^ 64 \<and>
     (\<forall>i < descriptor_count b. let d = desc_at (descriptor_addr b i) in
        4096 dvd unat (physical_start d) \<and>
        unat (physical_start d) + unat (number_of_pages d) * 4096 < 2 ^ 64) \<and>
     (\<forall>i < descriptor_count b. \<forall>j < i. usable (desc_at (descriptor_addr b i)) \<inter>
        usable (desc_at (descriptor_addr b j)) = {})"

lemma add_descriptor_range_cases:
  assumes rs: "ranges_ok (g_free_ranges s)" "length (g_free_ranges s) \<le> MEMORY_MAX_FREE_RANGES"
    and d: "4096 dvd unat a" "unat a + unat n * 4096 < 2 ^ 64"
    and disj: "free_set (g_free_ranges s) \<inter> ({unat a..<unat a + unat n * 4096} \<inter> {..<2 ^ 32}) = {}"
    and run: "add_descriptor_range a (a + n * PAGE_SIZE) s = (ok, s')"
  shows "ok \<longrightarrow> ranges_ok (g_free_ranges s') \<and> length (g_free_ranges s') \<le> MEMORY_MAX_FREE_RANGES \<and>
    free_set (g_free_ranges s') =
      free_set (g_free_ranges s) \<union> ({unat a..<unat a + unat n * 4096} \<inter> {..<2 ^ 32})"
proof (cases "a \<ge> MEMORY_MAX_PHYS_ADDR")
  case True
  then have "2 ^ 32 \<le> unat a" by (simp add: MEMORY_MAX_PHYS_ADDR_def word_le_nat_alt)
  with True show ?thesis using run rs by (auto simp: add_descriptor_range_def)
next
  case below: False
  define e where "e = (if a + n * PAGE_SIZE > MEMORY_MAX_PHYS_ADDR then MEMORY_MAX_PHYS_ADDR
    else a + n * PAGE_SIZE)"
  have "unat e = min (2 ^ 32) (unat a + unat n * 4096)"
    using unat_block_end [OF d(2)] by (auto simp: e_def MEMORY_MAX_PHYS_ADDR_def word_less_nat_alt)
  then have e: "unat e = min (2 ^ 32) (unat a + unat n * 4096)" "4096 dvd unat e"
    using d(1) by (auto simp: min_def)
  have region: "{unat a..<unat a + unat n * 4096} \<inter> {..<2 ^ 32} = {unat a..<unat e}"
    using e(1) by auto
  note al = align_aligned(2) [OF d(1)] align_aligned(1) [OF e(2)]
  show ?thesis
  proof (cases "e \<le> a")
    case True
    then have "(ok, s') = (True, s)"
      using run below al by (simp add: add_descriptor_range_def Let_def e_def [symmetric])
    with True show ?thesis using rs unfolding region by (simp add: word_le_nat_alt)
  next
    case False
    let ?pages = "(e - a) div PAGE_SIZE"
    have len: "unat ?pages * 4096 = unat e - unat a" "unat a < unat e"
      using False unat_pages_between [OF d(1) e(2)] by (simp_all add: word_le_nat_alt)
    then have "?pages \<noteq> 0" by (intro notI) simp
    then have blk: "block_ok a ?pages"
      using d(1) len unat_u64_bound [of e] by (simp add: block_ok_def range_ok_def lo_def hi_def)
    have bs: "block_set a ?pages = {unat a..<unat e}"
      using len by (simp add: block_set_def)
    show ?thesis
    proof (cases "length (g_free_ranges s) < MEMORY_MAX_FREE_RANGES")
      case True
      obtain rs' where "append_free_range a ?pages s = (True, s\<lparr>g_free_ranges := rs'\<rparr>)"
          "ranges_ok rs'" "free_set rs' = free_set (g_free_ranges s) \<union> block_set a ?pages"
          "length rs' \<le> Suc (length (g_free_ranges s))"
        using append_free_range_ok [OF rs(1) blk _ True] disj region bs by auto
      then show ?thesis
        using run below al False True bs region
        by (auto simp: add_descriptor_range_def Let_def e_def [symmetric])
    next
      case full: False
      then have "append_free_range a ?pages s = (False, s)"
        using \<open>?pages \<noteq> 0\<close> by (simp add: append_free_range_def)
      then show ?thesis
        using run below al False by (simp add: add_descriptor_range_def Let_def e_def [symmetric])
    qed
  qed
qed

lemma descriptor_addr_bounds:
  assumes "uefi_map desc_at b" and "0 < descriptor_size (memory_map b)" and "i \<le> descriptor_count b"
  defines "m \<equiv> memory_map b"
  defines "sz \<equiv> ucast (descriptor_size m) :: u64"
  shows "descriptor_addr b i + sz = descriptor_addr b (Suc i)"
    and "descriptor_addr b i + sz \<le> map_base m + map_size m \<longleftrightarrow> i < descriptor_count b"
proof -
  let ?d = "unat (descriptor_size m)"
  have sz: "unat sz = ?d" by (simp add: sz_def)
  have d: "0 < ?d" using assms(2) by (simp add: m_def unat_gt_0 word_gt_0)
  have cap: "unat (map_base m) + unat (map_size m) + ?d < 2 ^ 64"
    using assms(1) by (simp add: uefi_map_def m_def)
  have n: "descriptor_count b * ?d \<le> unat (map_size m)" "unat (map_size m) < Suc (descriptor_count b) * ?d"
    using d by (simp_all add: descriptor_count_def m_def [symmetric])
      (metis add.commute d div_mult_mod_eq mod_less_divisor mult.commute nat_add_left_cancel_less)
  have addr: "unat (descriptor_addr b j) = unat (map_base m) + j * ?d" if "j \<le> Suc (descriptor_count b)" for j
  proof -
    have "j * ?d \<le> unat (map_size m) + ?d"
      using that n(1) mult_le_mono1 [OF that, of ?d] by simp
    moreover have "j \<le> j * ?d" using d by simp
    ultimately have small: "j < 2 ^ 64" "unat (map_base m) + j * ?d < 2 ^ 64"
      using cap by linarith+
    then have "unat (of_nat j * sz) = j * ?d"
      by (subst unat_mult_small) (simp_all add: unat_of_nat_u64 sz)
    then show ?thesis
      using small by (simp add: descriptor_addr_def m_def [symmetric] sz_def [symmetric] unat_add_small)
  qed
  show step: "descriptor_addr b i + sz = descriptor_addr b (Suc i)"
    by (simp add: descriptor_addr_def sz_def m_def algebra_simps)
  have "unat (map_base m + map_size m) = unat (map_base m) + unat (map_size m)"
    using cap by (simp add: unat_add_small)
  then have "descriptor_addr b i + sz \<le> map_base m + map_size m \<longleftrightarrow> Suc i * ?d \<le> unat (map_size m)"
    using assms(3) by (simp add: step word_le_nat_alt addr)
  also have "\<dots> \<longleftrightarrow> i < descriptor_count b"
  proof
    assume "Suc i * ?d \<le> unat (map_size m)"
    then have "Suc i * ?d < Suc (descriptor_count b) * ?d" using n(2) by linarith
    then show "i < descriptor_count b" by (simp only: mult_less_cancel2) simp
  next
    assume "i < descriptor_count b"
    then have "Suc i * ?d \<le> descriptor_count b * ?d" by (intro mult_le_mono1) simp
    then show "Suc i * ?d \<le> unat (map_size m)" using n(1) by linarith
  qed
  finally show "descriptor_addr b i + sz \<le> map_base m + map_size m \<longleftrightarrow> i < descriptor_count b" .
qed

lemma scan_memory_map_spec:
  assumes map: "uefi_map desc_at b" and sz: "0 < descriptor_size (memory_map b)"
    and le: "i \<le> descriptor_count b"
    and rs: "ranges_ok (g_free_ranges s)" "length (g_free_ranges s) \<le> MEMORY_MAX_FREE_RANGES"
    and done_: "free_set (g_free_ranges s) = (\<Union>j<i. usable (desc_at (descriptor_addr b j)))"
  defines "stride \<equiv> ucast (descriptor_size (memory_map b))"
  defines "limit \<equiv> map_base (memory_map b) + map_size (memory_map b)"
  shows "\<exists>ok s'. scan_memory_map desc_at (descriptor_addr b i) stride limit s = Some (ok, s') \<and>
    (ok \<longrightarrow> ranges_ok (g_free_ranges s') \<and> length (g_free_ranges s') \<le> MEMORY_MAX_FREE_RANGES \<and>
      free_set (g_free_ranges s') = (\<Union>j<descriptor_count b. usable (desc_at (descriptor_addr b j))))"
  using le rs done_
proof (induction "descriptor_count b - i" arbitrary: i s)
  case 0
  then have "i = descriptor_count b" by simp
  then have "scan_memory_map desc_at (descriptor_addr b i) stride limit s = Some (True, s)"
    using descriptor_addr_bounds(2) [OF map sz 0(2)]
    by (subst scan_memory_map.simps) (simp add: stride_def limit_def)
  with 0 \<open>i = descriptor_count b\<close> show ?case by blast
next
  case (Suc k)
  then have i: "i < descriptor_count b" by simp
  define d where "d = desc_at (descriptor_addr b i)"
  note bounds = descriptor_addr_bounds [OF map sz Suc.prems(1), folded stride_def limit_def]
  note unf = scan_memory_map.simps [of desc_at "descriptor_addr b i" stride limit]
  have rest: "\<exists>ok s'. scan_memory_map desc_at (descriptor_addr b (Suc i)) stride limit t = Some (ok, s') \<and>
    (ok \<longrightarrow> ranges_ok (g_free_ranges s') \<and> length (g_free_ranges s') \<le> MEMORY_MAX_FREE_RANGES \<and>
      free_set (g_free_ranges s') = (\<Union>j<descriptor_count b. usable (desc_at (descriptor_addr b j))))"
    if "ranges_ok (g_free_ranges t)" "length (g_free_ranges t) \<le> MEMORY_MAX_FREE_RANGES"
      "free_set (g_free_ranges t) = free_set (g_free_ranges s) \<union> usable d" for t
  proof (rule Suc.hyps(1))
    show "k = descriptor_count b - Suc i" using Suc.hyps(2) by simp
    show "free_set (g_free_ranges t) = (\<Union>j<Suc i. usable (desc_at (descriptor_addr b j)))"
      using that(3) Suc.prems(4) by (simp add: lessThan_Suc d_def Un_commute)
  qed (use i that in simp_all)
  show ?case
  proof (cases "efi_type d \<noteq> EFI_MEMORY_TYPE_CONVENTIONAL \<or> number_of_pages d = 0")
    case True
    then have "usable d = {}" by (auto simp: usable_def)
    then show ?thesis
      using rest [of s] Suc.prems True i bounds unf [of s] by (auto simp: d_def [symmetric] Let_def)
  next
    case False
    have dd: "4096 dvd unat (physical_start d)"
        "unat (physical_start d) + unat (number_of_pages d) * 4096 < 2 ^ 64"
      using map i by (simp_all add: uefi_map_def Let_def d_def)
    have u: "usable d = {unat (physical_start d)..<unat (physical_start d) + unat (number_of_pages d) * 4096}
        \<inter> {..<2 ^ 32}"
      using False by (simp add: usable_def)
    have "free_set (g_free_ranges s) \<inter> usable d = {}"
      using map i Suc.prems(4) by (fastforce simp: uefi_map_def d_def)
    note cases = add_descriptor_range_cases [OF Suc.prems(2,3) dd this [unfolded u], folded u]
    obtain ok t where t: "add_descriptor_range (physical_start d)
        (physical_start d + number_of_pages d * PAGE_SIZE) s = (ok, t)"
      by (meson surj_pair)
    show ?thesis
      using rest [of t] cases [OF t] t False i bounds unf [of s]
      by (cases ok) (auto simp: d_def [symmetric] Let_def)
  qed
qed

text \<open>The states between the steps of \<open>memory_init\<close>: well-formed ranges with a known free set.\<close>

definition init_stage :: "nat set \<Rightarrow> memory_state \<Rightarrow> bool" where
  "init_stage F s \<longleftrightarrow> ranges_ok (g_free_ranges s) \<and>
     length (g_free_ranges s) \<le> MEMORY_MAX_FREE_RANGES \<and> free_set (g_free_ranges s) = F"

lemma reserve_stage:
  assumes "init_stage F s" and "unat e + 4095 < 2 ^ 64" and "reserve_range a e s = (True, s')"
  shows "init_stage (F - {page_floor (unat a)..<page_ceil (unat e)}) s'"
  using reserve_range_cases [OF _ _ assms(2,3)] assms(1) by (auto simp: init_stage_def)

lemma reserve_framebuffer_stage:
  assumes "init_stage F s" and "unat (framebuffer_base b + framebuffer_bytes b) + 4095 < 2 ^ 64"
    and "reserve_framebuffer b s = (True, s')"
  shows "init_stage (F - (if console_flags b AND BOOTINFO_CONSOLE_FRAMEBUFFER \<noteq> 0
      then {page_floor (unat (framebuffer_base b))
              ..<page_ceil (unat (framebuffer_base b + framebuffer_bytes b))}
      else {})) s'"
  using assms reserve_stage by (auto simp: reserve_framebuffer_def split: if_splits)

text \<open>The bytes \<open>memory_init\<close> takes out of the free set.\<close>

definition reserved_at_boot :: "u64 \<Rightarrow> u64 \<Rightarrow> BootInfo \<Rightarrow> nat set" where
  "reserved_at_boot kernel_start kernel_end b =
     {0..<2 ^ 20} \<union> {page_floor (unat kernel_start)..<page_ceil (unat kernel_end)} \<union>
     {0x8000000000..<0x8000100000} \<union>
     (if console_flags b AND BOOTINFO_CONSOLE_FRAMEBUFFER \<noteq> 0
      then {page_floor (unat (framebuffer_base b))
              ..<page_ceil (unat (framebuffer_base b + framebuffer_bytes b))}
      else {})"

lemma memory_init_ok:
  assumes map: "uefi_map desc_at b"
    and ends: "unat kernel_end + 4095 < 2 ^ 64"
      "unat (framebuffer_base b + framebuffer_bytes b) + 4095 < 2 ^ 64"
  shows "\<exists>ok s'. memory_init desc_at kernel_start kernel_end (Some b) s = Some (ok, s') \<and>
    (ok \<longrightarrow> mem_inv s' \<and> g_memory_ready s' \<and>
      free_set (g_free_ranges s') = (\<Union>j<descriptor_count b. usable (desc_at (descriptor_addr b j)))
        - reserved_at_boot kernel_start kernel_end b)"
proof (cases "map_base (memory_map b) = 0 \<or> map_size (memory_map b) = 0 \<or>
    descriptor_size (memory_map b) < EFI_MEMORY_DESCRIPTOR_SIZE")
  case True
  then have "memory_init desc_at kernel_start kernel_end (Some b) s = Some (False, s)"
    by (simp add: memory_init_def Let_def)
  then show ?thesis by blast
next
  case False
  then have sz: "0 < descriptor_size (memory_map b)"
    by (auto simp: EFI_MEMORY_DESCRIPTOR_SIZE_def word_less_nat_alt)
  let ?s0 = "s\<lparr>g_free_ranges := [], g_total_pages := 0, g_heap_head := 0, g_memory_ready := False\<rparr>"
  let ?F = "\<Union>j<descriptor_count b. usable (desc_at (descriptor_addr b j))"
  obtain ok1 s1 where scan: "scan_memory_map desc_at (map_base (memory_map b))
      (ucast (descriptor_size (memory_map b))) (map_base (memory_map b) + map_size (memory_map b)) ?s0
      = Some (ok1, s1)" "ok1 \<longrightarrow> init_stage ?F s1"
    using scan_memory_map_spec [OF map sz, of 0 ?s0]
    by (auto simp: descriptor_addr_def ranges_ok_def init_stage_def)
  obtain ok2 s2 where r2: "reserve_range 0 MEMORY_RESERVED_LOW_END s1 = (ok2, s2)" by fastforce
  obtain ok3 s3 where r3: "reserve_range kernel_start kernel_end s2 = (ok3, s3)" by fastforce
  obtain ok4 s4 where r4: "reserve_range PROCESS_ABI_REGION_START PROCESS_ABI_REGION_END s3 = (ok4, s4)"
    by fastforce
  obtain ok5 s5 where r5: "reserve_framebuffer b s4 = (ok5, s5)" by fastforce
  let ?ok = "ok1 \<and> ok2 \<and> ok3 \<and> ok4 \<and> ok5"
  have run: "\<exists>ok s'. memory_init desc_at kernel_start kernel_end (Some b) s = Some (ok, s') \<and>
      (ok \<longrightarrow> ?ok \<and> g_free_ranges s5 \<noteq> [] \<and> s' = s5\<lparr>g_memory_ready := True\<rparr>)"
    using False scan(1) r2 r3 r4 r5 by (auto simp: memory_init_def Let_def)
  have "init_stage (?F - reserved_at_boot kernel_start kernel_end b) s5" if ok: ?ok
  proof -
    have "init_stage (?F - {0..<2 ^ 20}) s2"
      using reserve_stage [of ?F s1 MEMORY_RESERVED_LOW_END 0 s2] scan(2) r2 ok
      by (simp add: MEMORY_RESERVED_LOW_END_def page_floor_def page_ceil_def)
    then have "init_stage (?F - {0..<2 ^ 20} - {page_floor (unat kernel_start)..<page_ceil (unat kernel_end)}) s3"
      using reserve_stage [OF _ ends(1), of _ s2 kernel_start s3] r3 ok by simp
    then have "init_stage (?F - {0..<2 ^ 20} - {page_floor (unat kernel_start)..<page_ceil (unat kernel_end)}
        - {0x8000000000..<0x8000100000}) s4"
      using reserve_stage [of _ s3 PROCESS_ABI_REGION_END PROCESS_ABI_REGION_START s4] r4 ok
      by (simp add: PROCESS_ABI_REGION_START_def PROCESS_ABI_REGION_END_def page_floor_def page_ceil_def)
    from reserve_framebuffer_stage [OF this ends(2), of s5] r5 ok show ?thesis
      by (simp add: reserved_at_boot_def Diff_Un Diff_eq Int_assoc)
  qed
  with run show ?thesis
    by (fastforce simp: mem_inv_def init_stage_def reserved_at_boot_def)
qed

text \<open>C5: on a map that keeps UEFI's promises, \<open>memory_init\<close> returns, and when it reports success the
  allocator's invariant holds, the allocator is ready, and the free bytes are exactly the
  conventional memory below 4 GiB outside the low megabyte, the pages of the kernel image, the
  process ABI region and the pages of the framebuffer.\<close>

theorem memory_init_free_memory:
  assumes map: "uefi_map desc_at b"
    and ends: "unat kernel_end + 4095 < 2 ^ 64"
      "unat (framebuffer_base b + framebuffer_bytes b) + 4095 < 2 ^ 64"
  shows "\<exists>ok s'. memory_init desc_at kernel_start kernel_end (Some b) s = Some (ok, s') \<and>
    (ok \<longrightarrow> mem_inv s' \<and> g_memory_ready s' \<and>
      free_set (g_free_ranges s') = (\<Union>j<descriptor_count b. usable (desc_at (descriptor_addr b j)))
        - reserved_at_boot kernel_start kernel_end b)"
  by (rule memory_init_ok [OF assms])

text \<open>A small machine: 2 MiB of conventional memory, a reserved region, and 64 MiB more.\<close>

definition demo_boot :: BootInfo where
  "demo_boot = \<lparr>magic = 0x32425346, bytes_per_sector = 512, partition_lba_start = 2048,
     partition_sector_count = 65536, acpi_rsdp = 0, acpi_revision = 0, boot_device_path_size = 0,
     boot_device_path = [], console_flags = 0, screen_columns = 80, screen_rows = 25,
     framebuffer_base = 0, framebuffer_width = 0, framebuffer_height = 0,
     framebuffer_pixels_per_scanline = 0, framebuffer_format = 0,
     memory_map = \<lparr>map_base = 0x5000, map_size = 144, descriptor_size = 48, descriptor_version = 1\<rparr>\<rparr>"

definition demo_descriptors :: "u64 \<Rightarrow> EfiMemoryDescriptor" where
  "demo_descriptors a =
     (if a = 0x5000 then \<lparr>efi_type = 7, physical_start = 0, number_of_pages = 512\<rparr>
      else if a = 0x5030 then \<lparr>efi_type = 0, physical_start = 0x200000, number_of_pages = 256\<rparr>
      else \<lparr>efi_type = 7, physical_start = 0x300000, number_of_pages = 16384\<rparr>)"

lemma all_less_numeral:
  "(\<forall>i < (3 :: nat). P i) \<longleftrightarrow> P 0 \<and> P 1 \<and> P 2" "(\<forall>i < (2 :: nat). P i) \<longleftrightarrow> P 0 \<and> P 1"
  "(\<forall>i < (1 :: nat). P i) \<longleftrightarrow> P 0"
  by (auto simp: less_Suc_eq numeral_3_eq_3 numeral_2_eq_2)

lemma demo_map_ok: "uefi_map demo_descriptors demo_boot"
proof -
  have count: "descriptor_count demo_boot = 3"
    by (simp add: descriptor_count_def demo_boot_def)
  have addr: "descriptor_addr demo_boot 0 = 0x5000" "descriptor_addr demo_boot 1 = 0x5030"
      "descriptor_addr demo_boot 2 = 0x5060"
    by (simp_all add: descriptor_addr_def demo_boot_def)
  have d: "demo_descriptors 0x5000 = \<lparr>efi_type = 7, physical_start = 0, number_of_pages = 512\<rparr>"
      "demo_descriptors 0x5030 = \<lparr>efi_type = 0, physical_start = 0x200000, number_of_pages = 256\<rparr>"
      "demo_descriptors 0x5060 = \<lparr>efi_type = 7, physical_start = 0x300000, number_of_pages = 16384\<rparr>"
    by (simp_all add: demo_descriptors_def)
  show ?thesis
    unfolding uefi_map_def count all_less_numeral addr d
    by (simp add: usable_def EFI_MEMORY_TYPE_CONVENTIONAL_def demo_boot_def) auto
qed

lemma demo_init:
  "memory_init demo_descriptors 0x100000 0x140123 (Some demo_boot) demo_memory =
     Some (True, \<lparr>g_free_ranges = [\<lparr>fr_base = 0x141000, fr_count = 191\<rparr>,
       \<lparr>fr_base = 0x300000, fr_count = 16384\<rparr>], g_total_pages = 16896, g_heap_head = 0, g_memory_ready = True\<rparr>)"
  by (simp add: memory_init_def demo_boot_def demo_descriptors_def demo_memory_def Let_def
      scan_memory_map.simps add_descriptor_range_def append_free_range_def reserve_range_def
      reserve_framebuffer_def reserve_loop.simps fr_end_def insert_at_def delete_at_def
      align_up_uintptr_def align_down_uintptr_def PAGE_SIZE_def MEMORY_MAX_FREE_RANGES_def
      MEMORY_MAX_PHYS_ADDR_def MEMORY_RESERVED_LOW_END_def EFI_MEMORY_TYPE_CONVENTIONAL_def
      EFI_MEMORY_DESCRIPTOR_SIZE_def PROCESS_ABI_REGION_START_def PROCESS_ABI_REGION_END_def
      BOOTINFO_CONSOLE_FRAMEBUFFER_def)

theorem memory_init_free_memory_witness:
  "\<exists>s'. memory_init demo_descriptors 0x100000 0x140123 (Some demo_boot) demo_memory = Some (True, s') \<and>
     mem_inv s' \<and> free_set (g_free_ranges s') = {0x141000..<0x200000} \<union> {0x300000..<0x4300000}"
proof -
  have fb: "unat (framebuffer_base demo_boot + framebuffer_bytes demo_boot) = 0"
    by (simp add: framebuffer_bytes_def demo_boot_def)
  have "unat (0x140123 :: u64) + 4095 < 2 ^ 64" by simp
  from memory_init_free_memory [OF demo_map_ok this, where kernel_start = "0x100000" and s = demo_memory]
  obtain s' where s': "memory_init demo_descriptors 0x100000 0x140123 (Some demo_boot) demo_memory
      = Some (True, s')" "mem_inv s'"
    using fb demo_init by auto
  moreover have "free_set (g_free_ranges s') = {0x141000..<0x200000} \<union> {0x300000..<0x4300000}"
    using s'(1) demo_init by (auto simp: lo_def hi_def)
  ultimately show ?thesis by blast
qed

end
