(* ===== verification/Block.thy ===== *)
theory Block
  imports Prelude
begin

text \<open>
  The block layer's interface (\<open>src/kernel/block.h\<close>, \<open>block_read_sectors\<close> and
  \<open>block_write_sectors\<close> of \<open>src/kernel/block.c\<close>).

  The bound driver is a pair of function pointers, \<open>NULL\<close> until a driver is probed. The hardware
  behind them is not in the repository: its state \<open>'d\<close> is a parameter, and a transfer takes it and
  returns it changed. A read is given the old bytes of the \<open>count * 512\<close> byte target and returns
  the new ones; a write is given the bytes to store.
\<close>

datatype BlockBackendKind = BLOCK_BACKEND_NONE | BLOCK_BACKEND_ATA_PIO | BLOCK_BACKEND_AHCI

record 'd BlockDevice =
  backend :: BlockBackendKind
  read_sectors_fn :: "(u32 \<Rightarrow> u8 \<Rightarrow> bytes \<Rightarrow> 'd \<Rightarrow> bool \<times> bytes \<times> 'd) option"
  write_sectors_fn :: "(u32 \<Rightarrow> u8 \<Rightarrow> bytes \<Rightarrow> 'd \<Rightarrow> bool \<times> 'd) option"

definition SECTOR :: nat where "SECTOR = 512"

definition block_read_sectors ::
  "'d BlockDevice \<Rightarrow> u32 \<Rightarrow> u8 \<Rightarrow> bytes \<Rightarrow> 'd \<Rightarrow> bool \<times> bytes \<times> 'd" where
  "block_read_sectors blk lba count out d =
     (case read_sectors_fn blk of None \<Rightarrow> (False, out, d) | Some f \<Rightarrow> f lba count out d)"

definition block_write_sectors :: "'d BlockDevice \<Rightarrow> u32 \<Rightarrow> u8 \<Rightarrow> bytes \<Rightarrow> 'd \<Rightarrow> bool \<times> 'd" where
  "block_write_sectors blk lba count data d =
     (case write_sectors_fn blk of None \<Rightarrow> (False, d) | Some f \<Rightarrow> f lba count data d)"

subsection \<open>What a disk does\<close>

text \<open>
  The contract of a disk, for a view of its state as sectors of 512 bytes: a transfer that reports
  success has moved the sectors it names, one that reports failure has changed no sector outside
  them. \<open>disk_law\<close> does not promise that transfers succeed.
\<close>

definition sectors :: "('d \<Rightarrow> nat \<Rightarrow> bytes) \<Rightarrow> 'd \<Rightarrow> nat \<Rightarrow> nat \<Rightarrow> bytes" where
  "sectors view d lba n = concat (map (view d) [lba..<lba + n])"

definition disk_law :: "'d BlockDevice \<Rightarrow> ('d \<Rightarrow> nat \<Rightarrow> bytes) \<Rightarrow> bool" where
  "disk_law blk view \<longleftrightarrow>
     (\<forall>d l. length (view d l) = SECTOR) \<and>
     (\<forall>lba count out d ok out' d'. block_read_sectors blk lba count out d = (ok, out', d') \<longrightarrow>
        length out = unat count * SECTOR \<longrightarrow>
        length out' = length out \<and> view d' = view d \<and>
        (ok \<longrightarrow> out' = sectors view d (unat lba) (unat count))) \<and>
     (\<forall>lba count data d ok d'. block_write_sectors blk lba count data d = (ok, d') \<longrightarrow>
        length data = unat count * SECTOR \<longrightarrow>
        (\<forall>l. l < unat lba \<or> unat lba + unat count \<le> l \<longrightarrow> view d' l = view d l) \<and>
        (ok \<longrightarrow> sectors view d' (unat lba) (unat count) = data))"

lemma disk_view_length: "disk_law blk view \<Longrightarrow> length (view d l) = SECTOR"
  by (simp add: disk_law_def)

lemma disk_read:
  assumes "disk_law blk view" and "block_read_sectors blk lba count out d = (ok, out', d')"
    and "length out = unat count * SECTOR"
  shows "length out' = length out" and "view d' = view d"
    and "ok \<Longrightarrow> out' = sectors view d (unat lba) (unat count)"
  using assms unfolding disk_law_def by blast+

lemma disk_write:
  assumes "disk_law blk view" and "block_write_sectors blk lba count data d = (ok, d')"
    and "length data = unat count * SECTOR"
  shows "l < unat lba \<or> unat lba + unat count \<le> l \<Longrightarrow> view d' l = view d l"
    and "ok \<Longrightarrow> sectors view d' (unat lba) (unat count) = data"
  using assms unfolding disk_law_def by blast+

lemma length_sectors:
  "\<forall>l. length (view d l) = SECTOR \<Longrightarrow> length (sectors view d lba n) = n * SECTOR"
  by (induction n) (simp_all add: sectors_def)

lemma sectors_append: "sectors view d lba (m + n) = sectors view d lba m @ sectors view d (lba + m) n"
proof -
  have "[lba..<lba + (m + n)] = [lba..<lba + m] @ [lba + m..<lba + m + n]"
    using upt_add_eq_append [of lba "lba + m" n] by (simp add: add.assoc)
  then show ?thesis by (simp add: sectors_def)
qed

lemma sectors_cong:
  "(\<And>l. lba \<le> l \<Longrightarrow> l < lba + n \<Longrightarrow> view d' l = view d l) \<Longrightarrow> sectors view d' lba n = sectors view d lba n"
  unfolding sectors_def by (intro arg_cong [where f = concat] map_cong) auto

subsection \<open>A disk in memory\<close>

text \<open>A witness of \<open>disk_law\<close>: the state is a function from sector numbers to sectors.\<close>

type_synonym ramdisk = "nat \<Rightarrow> bytes"

definition ram_view :: "ramdisk \<Rightarrow> nat \<Rightarrow> bytes" where
  "ram_view d l = take SECTOR (d l @ replicate SECTOR 0)"

definition ram_read :: "u32 \<Rightarrow> u8 \<Rightarrow> bytes \<Rightarrow> ramdisk \<Rightarrow> bool \<times> bytes \<times> ramdisk" where
  "ram_read lba count out d = (True, sectors ram_view d (unat lba) (unat count), d)"

fun ram_store :: "nat \<Rightarrow> nat \<Rightarrow> bytes \<Rightarrow> ramdisk \<Rightarrow> ramdisk" where
  "ram_store lba 0 data d = d"
| "ram_store lba (Suc n) data d =
     ram_store (Suc lba) n (drop SECTOR data) (d(lba := take SECTOR data))"

definition ram_write :: "u32 \<Rightarrow> u8 \<Rightarrow> bytes \<Rightarrow> ramdisk \<Rightarrow> bool \<times> ramdisk" where
  "ram_write lba count data d = (True, ram_store (unat lba) (unat count) data d)"

definition ram_device :: "ramdisk BlockDevice" where
  "ram_device = \<lparr>backend = BLOCK_BACKEND_ATA_PIO, read_sectors_fn = Some ram_read,
     write_sectors_fn = Some ram_write\<rparr>"

lemma length_ram_view [simp]: "length (ram_view d l) = SECTOR"
  by (simp add: ram_view_def)

lemma ram_store_outside: "l < lba \<or> lba + n \<le> l \<Longrightarrow> ram_store lba n data d l = d l"
  by (induction n arbitrary: lba data d) auto

lemma ram_store_sectors:
  "length data = n * SECTOR \<Longrightarrow> sectors ram_view (ram_store lba n data d) lba n = data"
proof (induction n arbitrary: lba data d)
  case 0
  then show ?case by (simp add: sectors_def)
next
  case (Suc n)
  have "sectors ram_view (ram_store lba (Suc n) data d) lba (Suc n) =
      ram_view (ram_store lba (Suc n) data d) lba @ drop SECTOR data"
    using Suc.IH [of "drop SECTOR data" "Suc lba"] Suc.prems
      sectors_append [of ram_view _ lba 1 n] by (simp add: sectors_def)
  moreover have "ram_view (ram_store lba (Suc n) data d) lba = take SECTOR data"
    using Suc.prems by (simp add: ram_view_def ram_store_outside)
  ultimately show ?case by simp
qed

lemma ram_device_law: "disk_law ram_device ram_view"
  unfolding disk_law_def
proof (intro conjI allI impI)
  fix lba :: u32 and count :: u8 and out out' :: bytes and d d' :: ramdisk and ok
  assume "block_read_sectors ram_device lba count out d = (ok, out', d')" "length out = unat count * SECTOR"
  then show "length out' = length out" "ram_view d' = ram_view d" "ok \<Longrightarrow>
      out' = sectors ram_view d (unat lba) (unat count)"
    by (auto simp: block_read_sectors_def ram_device_def ram_read_def length_sectors)
next
  fix lba :: u32 and count :: u8 and data :: bytes and d d' :: ramdisk and ok l
  assume run: "block_write_sectors ram_device lba count data d = (ok, d')"
    and len: "length data = unat count * SECTOR"
  then have d': "d' = ram_store (unat lba) (unat count) data d"
    by (auto simp: block_write_sectors_def ram_device_def ram_write_def)
  show "ok \<Longrightarrow> sectors ram_view d' (unat lba) (unat count) = data"
    using len by (simp add: d' ram_store_sectors)
  show "l < unat lba \<or> unat lba + unat count \<le> l \<Longrightarrow> ram_view d' l = ram_view d l"
    by (simp add: d' ram_view_def ram_store_outside)
qed simp

end
