(* ===== verification/FatDefs.thy ===== *)
theory FatDefs
  imports Block KString
begin

text \<open>
  \<open>src/kernel/fat32.c\<close>: on-disk formats, the mounted volume's state, sector, cluster and FAT
  access, and \<open>fat32_mount\<close>. One record field per static variable of the file; \<open>g_block_device\<close>
  and \<open>g_disk\<close> are the block layer the driver calls. The array \<open>g_fat\<close> is a function on entry
  numbers, \<open>fat_image\<close> its bytes. Functions that return \<open>bool\<close> or \<open>Fat32Result\<close> return it with the
  new state.
\<close>

definition FAT32_MAX_FAT_SECTORS :: nat where "FAT32_MAX_FAT_SECTORS = 4096"
definition FAT32_MAX_CLUSTER_SECTORS :: nat where "FAT32_MAX_CLUSTER_SECTORS = 8"
definition FAT32_SECTOR_SIZE :: nat where "FAT32_SECTOR_SIZE = 512"
definition FAT32_END_OF_CHAIN :: u32 where "FAT32_END_OF_CHAIN = 0x0FFFFFF8"
definition FAT32_DIRECTORY :: u8 where "FAT32_DIRECTORY = 0x10"
definition FAT32_VOLUME_ID :: u8 where "FAT32_VOLUME_ID = 0x08"
definition FAT32_LFN :: u8 where "FAT32_LFN = 0x0F"
definition FAT32_ARCHIVE :: u8 where "FAT32_ARCHIVE = 0x20"
definition FAT32_DELETED :: u8 where "FAT32_DELETED = 0xE5"
definition FAT32_LFN_LAST :: u8 where "FAT32_LFN_LAST = 0x40"
definition FAT32_LFN_ENTRY_MASK :: u8 where "FAT32_LFN_ENTRY_MASK = 0x1F"
definition FAT32_MAX_NAME_ENTRIES :: nat where "FAT32_MAX_NAME_ENTRIES = 11"
definition FAT32_NAME_CAPACITY :: nat where "FAT32_NAME_CAPACITY = 128"

datatype Fat32Result =
  FAT32_OK | FAT32_NOT_FOUND | FAT32_ALREADY_EXISTS | FAT32_NOT_A_DIRECTORY
| FAT32_IS_A_DIRECTORY | FAT32_DIRECTORY_NOT_EMPTY | FAT32_INVALID_NAME | FAT32_NO_SPACE
| FAT32_IO_ERROR

subsection \<open>On-disk formats\<close>

record BootSector =
  bs_bytes_per_sector :: u16
  bs_sectors_per_cluster :: u8
  bs_reserved_sectors :: u16
  bs_fat_count :: u8
  bs_total_sectors16 :: u16
  bs_total_sectors32 :: u32
  bs_sectors_per_fat32 :: u32
  bs_root_cluster :: u32

definition le16_at :: "bytes \<Rightarrow> nat \<Rightarrow> u16" where
  "le16_at b i = of_le16 (b ! i) (b ! (i + 1))"

definition le32_at :: "bytes \<Rightarrow> nat \<Rightarrow> u32" where
  "le32_at b i = of_le32 (b ! i) (b ! (i + 1)) (b ! (i + 2)) (b ! (i + 3))"

text \<open>The packed struct read through a pointer to the sector buffer: the fields the driver uses.\<close>

definition boot_sector_of :: "bytes \<Rightarrow> BootSector" where
  "boot_sector_of b = \<lparr>bs_bytes_per_sector = le16_at b 11, bs_sectors_per_cluster = b ! 13,
     bs_reserved_sectors = le16_at b 14, bs_fat_count = b ! 16, bs_total_sectors16 = le16_at b 19,
     bs_total_sectors32 = le32_at b 32, bs_sectors_per_fat32 = le32_at b 36,
     bs_root_cluster = le32_at b 44\<rparr>"

record DirectoryEntry =
  de_name :: bytes
  attributes :: u8
  reserved :: u8
  created_time_tenths :: u8
  created_time :: u16
  created_date :: u16
  accessed_date :: u16
  first_cluster_high :: u16
  modified_time :: u16
  modified_date :: u16
  first_cluster_low :: u16
  de_size :: u32

definition entry_of_bytes :: "bytes \<Rightarrow> DirectoryEntry" where
  "entry_of_bytes b = \<lparr>de_name = take 11 b, attributes = b ! 11, reserved = b ! 12,
     created_time_tenths = b ! 13, created_time = le16_at b 14, created_date = le16_at b 16,
     accessed_date = le16_at b 18, first_cluster_high = le16_at b 20, modified_time = le16_at b 22,
     modified_date = le16_at b 24, first_cluster_low = le16_at b 26, de_size = le32_at b 28\<rparr>"

definition bytes_of_entry :: "DirectoryEntry \<Rightarrow> bytes" where
  "bytes_of_entry e = de_name e @ [attributes e, reserved e, created_time_tenths e]
     @ le16 (created_time e) @ le16 (created_date e) @ le16 (accessed_date e)
     @ le16 (first_cluster_high e) @ le16 (modified_time e) @ le16 (modified_date e)
     @ le16 (first_cluster_low e) @ le32 (de_size e)"

definition zero_entry :: DirectoryEntry where
  "zero_entry = \<lparr>de_name = replicate 11 0, attributes = 0, reserved = 0, created_time_tenths = 0,
     created_time = 0, created_date = 0, accessed_date = 0, first_cluster_high = 0,
     modified_time = 0, modified_date = 0, first_cluster_low = 0, de_size = 0\<rparr>"

record LfnDirectoryEntry =
  lfn_order :: u8
  name1 :: "u16 list"
  lfn_attributes :: u8
  entry_type :: u8
  lfn_checksum :: u8
  name2 :: "u16 list"
  lfn_first_cluster_low :: u16
  name3 :: "u16 list"

definition lfn_of_bytes :: "bytes \<Rightarrow> LfnDirectoryEntry" where
  "lfn_of_bytes b = \<lparr>lfn_order = b ! 0, name1 = map (\<lambda>i. le16_at b (1 + 2 * i)) [0..<5],
     lfn_attributes = b ! 11, entry_type = b ! 12, lfn_checksum = b ! 13,
     name2 = map (\<lambda>i. le16_at b (14 + 2 * i)) [0..<6], lfn_first_cluster_low = le16_at b 26,
     name3 = map (\<lambda>i. le16_at b (28 + 2 * i)) [0..<2]\<rparr>"

definition bytes_of_lfn :: "LfnDirectoryEntry \<Rightarrow> bytes" where
  "bytes_of_lfn l = lfn_order l # concat (map le16 (name1 l))
     @ [lfn_attributes l, entry_type l, lfn_checksum l] @ concat (map le16 (name2 l))
     @ le16 (lfn_first_cluster_low l) @ concat (map le16 (name3 l))"

definition entry_first_cluster :: "DirectoryEntry \<Rightarrow> u32" where
  "entry_first_cluster e = push_bit 16 (ucast (first_cluster_high e)) OR ucast (first_cluster_low e)"

definition entry_set_first_cluster :: "u32 \<Rightarrow> DirectoryEntry \<Rightarrow> DirectoryEntry" where
  "entry_set_first_cluster cluster e =
     e\<lparr>first_cluster_low := ucast (cluster AND 0xFFFF),
       first_cluster_high := ucast (drop_bit 16 cluster AND 0xFFFF)\<rparr>"

subsection \<open>The volume\<close>

record 'd fat_state =
  g_fat :: "u32 \<Rightarrow> u32"
  g_sector_buffer :: bytes
  g_cluster_buffer :: bytes
  g_mounted :: bool
  g_bytes_per_sector :: u16
  g_sectors_per_cluster :: u8
  g_fat_count :: u8
  g_reserved_sectors :: u16
  g_sectors_per_fat :: u32
  g_partition_lba :: u32
  g_root_cluster :: u32
  g_data_lba :: u32
  g_cluster_size :: u32
  g_total_clusters :: u32
  g_fat_lba :: u32
  g_block_device :: "'d BlockDevice"
  g_disk :: 'd

definition read_sector :: "u32 \<Rightarrow> 'd fat_state \<Rightarrow> bool \<times> 'd fat_state" where
  "read_sector lba s =
     (let (ok, out, d) = block_read_sectors (g_block_device s) lba 1 (g_sector_buffer s) (g_disk s)
      in (ok, s\<lparr>g_sector_buffer := out, g_disk := d\<rparr>))"

definition chunk_of :: "u32 \<Rightarrow> u8" where
  "chunk_of count = (if count > 255 then 255 else ucast count)"

lemma unat_chunk_of: "unat (chunk_of count) = min 255 (unat count)"
proof (cases "count > 255")
  case True
  then show ?thesis by (simp add: chunk_of_def word_less_nat_alt)
next
  case False
  then have "unat count < 256" by (simp add: word_less_nat_alt)
  with False show ?thesis by (simp add: chunk_of_def unsigned_ucast_eq take_bit_nat_eq_self)
qed

lemma chunk_step:
  assumes "count \<noteq> 0"
  shows "unat (count - ucast (chunk_of count)) = unat count - unat (chunk_of count)"
    and "0 < unat (chunk_of count)" and "unat (chunk_of count) \<le> unat count"
proof -
  show "0 < unat (chunk_of count)" "unat (chunk_of count) \<le> unat count"
    using assms by (simp_all add: unat_chunk_of unat_gt_0)
  then show "unat (count - ucast (chunk_of count)) = unat count - unat (chunk_of count)"
    by (simp add: unat_diff_small)
qed

lemma chunk_less: "count \<noteq> 0 \<Longrightarrow> unat (count - ucast (chunk_of count)) < unat count"
  using chunk_step [of count] by linarith

text \<open>Transfers of any number of sectors, in chunks of at most 255; \<open>out\<close> and \<open>data\<close> are the
  bytes from the cursor on.\<close>

function read_sectors ::
  "'d BlockDevice \<Rightarrow> u32 \<Rightarrow> u32 \<Rightarrow> bytes \<Rightarrow> 'd \<Rightarrow> bool \<times> bytes \<times> 'd" where
  "read_sectors blk lba count out d =
     (if count \<noteq> 0 then
        let chunk = chunk_of count; n = unat chunk * FAT32_SECTOR_SIZE;
            (ok, part, d') = block_read_sectors blk lba chunk (take n out) d
        in if \<not> ok then (False, part @ drop n out, d')
           else let (ok', rest, d'') = read_sectors blk (lba + ucast chunk) (count - ucast chunk)
                                        (drop n out) d'
                in (ok', part @ rest, d'')
      else (True, out, d))"
  by pat_completeness auto
termination
  by (relation "measure (\<lambda>(blk, lba, count, out, d). unat count)") (auto intro: chunk_less)

declare read_sectors.simps [simp del]

function write_sectors :: "'d BlockDevice \<Rightarrow> u32 \<Rightarrow> u32 \<Rightarrow> bytes \<Rightarrow> 'd \<Rightarrow> bool \<times> 'd" where
  "write_sectors blk lba count data d =
     (if count \<noteq> 0 then
        let chunk = chunk_of count; n = unat chunk * FAT32_SECTOR_SIZE;
            (ok, d') = block_write_sectors blk lba chunk (take n data) d
        in if \<not> ok then (False, d')
           else write_sectors blk (lba + ucast chunk) (count - ucast chunk) (drop n data) d'
      else (True, d))"
  by pat_completeness auto
termination
  by (relation "measure (\<lambda>(blk, lba, count, data, d). unat count)") (auto intro: chunk_less)

declare write_sectors.simps [simp del]

subsection \<open>The FAT\<close>

definition is_valid_data_cluster :: "u32 \<Rightarrow> 'd fat_state \<Rightarrow> bool" where
  "is_valid_data_cluster cluster s \<longleftrightarrow> cluster \<ge> 2 \<and> cluster < g_total_clusters s"

definition fat32_next_cluster :: "u32 \<Rightarrow> 'd fat_state \<Rightarrow> u32" where
  "fat32_next_cluster cluster s =
     (if \<not> is_valid_data_cluster cluster s then FAT32_END_OF_CHAIN
      else g_fat s cluster AND 0x0FFFFFFF)"

definition fat32_set_cluster :: "u32 \<Rightarrow> u32 \<Rightarrow> 'd fat_state \<Rightarrow> 'd fat_state" where
  "fat32_set_cluster cluster v s =
     (if \<not> is_valid_data_cluster cluster s then s
      else s\<lparr>g_fat := (g_fat s)(cluster := v AND 0x0FFFFFFF)\<rparr>)"

definition cluster_to_lba :: "u32 \<Rightarrow> 'd fat_state \<Rightarrow> u32" where
  "cluster_to_lba cluster s = g_data_lba s + (cluster - 2) * ucast (g_sectors_per_cluster s)"

text \<open>The bytes of the first \<open>n\<close> sectors of \<open>g_fat\<close>, and \<open>g_fat\<close> after such bytes are read into it.\<close>

definition fat_image :: "nat \<Rightarrow> (u32 \<Rightarrow> u32) \<Rightarrow> bytes" where
  "fat_image n fat = concat (map (\<lambda>i. le32 (fat (of_nat i))) [0..<n * 128])"

definition fat_load :: "bytes \<Rightarrow> (u32 \<Rightarrow> u32) \<Rightarrow> u32 \<Rightarrow> u32" where
  "fat_load img fat c = (if unat c * 4 + 3 < length img then le32_at img (unat c * 4) else fat c)"

fun flush_fat_loop :: "nat \<Rightarrow> u32 \<Rightarrow> 'd fat_state \<Rightarrow> bool \<times> 'd fat_state" where
  "flush_fat_loop 0 i s = (True, s)"
| "flush_fat_loop (Suc n) i s =
     (let (ok, d) = write_sectors (g_block_device s) (g_fat_lba s + i * g_sectors_per_fat s)
            (g_sectors_per_fat s) (fat_image (unat (g_sectors_per_fat s)) (g_fat s)) (g_disk s);
          s' = s\<lparr>g_disk := d\<rparr>
      in if \<not> ok then (False, s') else flush_fat_loop n (i + 1) s')"

definition flush_fat :: "'d fat_state \<Rightarrow> bool \<times> 'd fat_state" where
  "flush_fat s = flush_fat_loop (unat (g_fat_count s)) 0 s"

subsection \<open>Clusters\<close>

definition cluster_io_ok :: "u32 \<Rightarrow> 'd fat_state \<Rightarrow> bool" where
  "cluster_io_ok cluster s \<longleftrightarrow>
     \<not> (g_sectors_per_cluster s = 0 \<or> unat (g_sectors_per_cluster s) > FAT32_MAX_CLUSTER_SECTORS) \<and>
     is_valid_data_cluster cluster s"

definition read_cluster :: "u32 \<Rightarrow> 'd fat_state \<Rightarrow> bool \<times> 'd fat_state" where
  "read_cluster cluster s =
     (if \<not> cluster_io_ok cluster s then (False, s)
      else let n = unat (g_sectors_per_cluster s) * FAT32_SECTOR_SIZE;
               (ok, out, d) = block_read_sectors (g_block_device s) (cluster_to_lba cluster s)
                  (g_sectors_per_cluster s) (take n (g_cluster_buffer s)) (g_disk s)
           in (ok, s\<lparr>g_cluster_buffer := out @ drop n (g_cluster_buffer s), g_disk := d\<rparr>))"

definition write_cluster :: "u32 \<Rightarrow> 'd fat_state \<Rightarrow> bool \<times> 'd fat_state" where
  "write_cluster cluster s =
     (if \<not> cluster_io_ok cluster s then (False, s)
      else let n = unat (g_sectors_per_cluster s) * FAT32_SECTOR_SIZE;
               (ok, d) = block_write_sectors (g_block_device s) (cluster_to_lba cluster s)
                  (g_sectors_per_cluster s) (take n (g_cluster_buffer s)) (g_disk s)
           in (ok, s\<lparr>g_disk := d\<rparr>))"

text \<open>\<open>k_memset(g_cluster_buffer, 0, g_cluster_size)\<close> (the buffer holds the largest cluster).\<close>

definition clear_cluster_buffer :: "'d fat_state \<Rightarrow> 'd fat_state" where
  "clear_cluster_buffer s =
     s\<lparr>g_cluster_buffer := blit (g_cluster_buffer s) 0 (replicate (unat (g_cluster_size s)) 0)\<rparr>"

definition zero_cluster :: "u32 \<Rightarrow> 'd fat_state \<Rightarrow> Fat32Result \<times> 'd fat_state" where
  "zero_cluster cluster s =
     (let (ok, s') = write_cluster cluster (clear_cluster_buffer s)
      in (if ok then FAT32_OK else FAT32_IO_ERROR, s'))"

definition clusters_for_size :: "u32 \<Rightarrow> 'd fat_state \<Rightarrow> u32" where
  "clusters_for_size sz s =
     (if sz = 0 then 0 else (sz + g_cluster_size s - 1) div g_cluster_size s)"

definition entries_per_cluster :: "'d fat_state \<Rightarrow> u32" where
  "entries_per_cluster s = g_cluster_size s div 32"

subsection \<open>Mounting\<close>

text \<open>The boot sector's checks, and the number of clusters they accept.\<close>

definition boot_total_sectors :: "BootSector \<Rightarrow> u32" where
  "boot_total_sectors b =
     (if bs_total_sectors16 b \<noteq> 0 then ucast (bs_total_sectors16 b) else bs_total_sectors32 b)"

definition boot_non_data_sectors :: "BootSector \<Rightarrow> u32" where
  "boot_non_data_sectors b =
     ucast (bs_reserved_sectors b) + ucast (bs_fat_count b) * bs_sectors_per_fat32 b"

definition boot_total_clusters :: "BootSector \<Rightarrow> u32" where
  "boot_total_clusters b =
     (boot_total_sectors b - boot_non_data_sectors b) div ucast (bs_sectors_per_cluster b) + 2"

definition boot_sector_ok :: "BootSector \<Rightarrow> bool" where
  "boot_sector_ok b \<longleftrightarrow>
     unat (bs_bytes_per_sector b) = FAT32_SECTOR_SIZE \<and>
     \<not> (bs_sectors_per_fat32 b = 0 \<or> unat (bs_sectors_per_fat32 b) > FAT32_MAX_FAT_SECTORS) \<and>
     \<not> (bs_sectors_per_cluster b = 0 \<or> unat (bs_sectors_per_cluster b) > FAT32_MAX_CLUSTER_SECTORS) \<and>
     \<not> (bs_fat_count b = 0 \<or> bs_reserved_sectors b = 0) \<and>
     \<not> bs_root_cluster b < 2 \<and>
     boot_total_sectors b \<noteq> 0 \<and>
     \<not> boot_non_data_sectors b \<ge> boot_total_sectors b \<and>
     \<not> boot_total_clusters b > bs_sectors_per_fat32 b * 512 div 4 \<and>
     \<not> bs_root_cluster b \<ge> boot_total_clusters b"

definition set_geometry :: "u32 \<Rightarrow> BootSector \<Rightarrow> 'd fat_state \<Rightarrow> 'd fat_state" where
  "set_geometry partition_lba_start b s =
     (let fat_lba = partition_lba_start + ucast (bs_reserved_sectors b) in
      s\<lparr>g_partition_lba := partition_lba_start, g_bytes_per_sector := bs_bytes_per_sector b,
        g_sectors_per_cluster := bs_sectors_per_cluster b, g_fat_count := bs_fat_count b,
        g_reserved_sectors := bs_reserved_sectors b, g_sectors_per_fat := bs_sectors_per_fat32 b,
        g_root_cluster := bs_root_cluster b, g_fat_lba := fat_lba,
        g_data_lba := fat_lba + ucast (bs_fat_count b) * bs_sectors_per_fat32 b,
        g_cluster_size := ucast (bs_sectors_per_cluster b) * ucast (bs_bytes_per_sector b),
        g_total_clusters := boot_total_clusters b\<rparr>)"

definition fat32_mount :: "u32 \<Rightarrow> u16 \<Rightarrow> 'd fat_state \<Rightarrow> bool \<times> 'd fat_state" where
  "fat32_mount partition_lba_start bytes_per_sector s =
     (if unat bytes_per_sector \<noteq> FAT32_SECTOR_SIZE then (False, s)
      else let (ok, s1) = read_sector partition_lba_start s; b = boot_sector_of (g_sector_buffer s1) in
        if \<not> ok then (False, s1)
        else if \<not> boot_sector_ok b then (False, s1)
        else let s2 = set_geometry partition_lba_start b s1;
                 fat_bytes = unat (g_sectors_per_fat s2 * ucast (g_bytes_per_sector s2));
                 (ok', img, d) = read_sectors (g_block_device s2) (g_fat_lba s2) (g_sectors_per_fat s2)
                   (fat_image (unat (g_sectors_per_fat s2)) (g_fat s2)) (g_disk s2);
                 s3 = s2\<lparr>g_fat := fat_load img (g_fat s2), g_disk := d\<rparr>
             in if \<not> ok' then (False, s3)
                else (True, s3\<lparr>g_sector_buffer := replicate FAT32_SECTOR_SIZE 0,
                        g_cluster_buffer := replicate (FAT32_MAX_CLUSTER_SECTORS * FAT32_SECTOR_SIZE) 0,
                        g_fat := (\<lambda>c. if unat c * 4 < fat_bytes then g_fat s3 c else 0),
                        g_mounted := True\<rparr>))"

end
