(* ===== verification/FatTable.thy ===== *)
theory FatTable
  imports FatDefs
begin

text \<open>
  The cluster chains of \<open>src/kernel/fat32.c\<close>: finding, allocating, appending, trimming and freeing
  clusters in the in-memory FAT, and moving file data along a chain. A loop that follows links is
  total when its counter bounds it or when it destroys the links it follows; otherwise a cyclic
  FAT makes it run forever, and it is a partial function whose \<open>None\<close> is non-termination. The
  abstract view of a chain is the list of its clusters, \<open>chain s c cs\<close>.
\<close>

definition in_chain :: "u32 \<Rightarrow> bool" where
  "in_chain cluster \<longleftrightarrow> cluster \<ge> 2 \<and> cluster < FAT32_END_OF_CHAIN"

subsection \<open>Following and changing links\<close>

function find_free_from :: "u32 \<Rightarrow> 'd fat_state \<Rightarrow> u32" where
  "find_free_from cluster s =
     (if cluster < g_total_clusters s then
        if g_fat s cluster = 0 then cluster else find_free_from (cluster + 1) s
      else 0)"
  by pat_completeness auto
termination
proof (relation "measure (\<lambda>(cluster, s). unat (g_total_clusters s) - unat cluster)", simp)
  fix cluster :: u32 and s :: "'d fat_state"
  assume lt: "cluster < g_total_clusters s"
  then have "Suc (unat cluster) < 2 ^ 32 \<or> Suc (unat cluster) = 2 ^ 32"
    using unat_u32_bound [of cluster] by auto
  moreover have "Suc (unat cluster) \<noteq> 2 ^ 32"
    using lt unat_u32_bound [of "g_total_clusters s"] by (auto simp: word_less_nat_alt)
  ultimately have "unat (cluster + 1) = Suc (unat cluster)"
    by (intro unat_Suc_small) simp
  then show "((cluster + 1, s), cluster, s)
      \<in> measure (\<lambda>(cluster, s). unat (g_total_clusters s) - unat cluster)"
    using lt by (auto simp: word_less_nat_alt)
qed

declare find_free_from.simps [simp del]

definition find_free_cluster :: "'d fat_state \<Rightarrow> u32" where
  "find_free_cluster s = find_free_from 2 s"

text \<open>The loop of \<open>free_cluster_chain_in_memory\<close> clears each entry it leaves, so it ends on any
  FAT: either the number of used entries falls or the next link leaves the data area.\<close>

definition used_entries :: "'d fat_state \<Rightarrow> nat" where
  "used_entries s = card {c. is_valid_data_cluster c s \<and> g_fat s c \<noteq> 0}"

lemma finite_clusters [simp]: "finite (A :: u32 set)"
  by (rule finite_subset [OF subset_UNIV]) simp

lemma used_entries_set:
  "used_entries (fat32_set_cluster c 0 s) \<le> used_entries s"
  "is_valid_data_cluster c s \<Longrightarrow> g_fat s c \<noteq> 0 \<Longrightarrow>
     used_entries (fat32_set_cluster c 0 s) < used_entries s"
  unfolding used_entries_def
  by (rule card_mono, auto simp: fat32_set_cluster_def is_valid_data_cluster_def split: if_splits)
    (rule psubset_card_mono, auto simp: fat32_set_cluster_def is_valid_data_cluster_def split: if_splits)

function free_cluster_chain_in_memory :: "u32 \<Rightarrow> 'd fat_state \<Rightarrow> 'd fat_state" where
  "free_cluster_chain_in_memory cluster s =
     (if in_chain cluster then
        let nxt = fat32_next_cluster cluster s
        in free_cluster_chain_in_memory nxt (fat32_set_cluster cluster 0 s)
      else s)"
  by pat_completeness auto
termination
proof (relation "measure (\<lambda>(cluster, s). 2 * used_entries s + (if in_chain cluster then 1 else 0))", simp)
  fix c nxt :: u32 and s :: "'d fat_state"
  assume c: "in_chain c" and nxt: "nxt = fat32_next_cluster c s"
  have "used_entries (fat32_set_cluster c 0 s) < used_entries s" if "in_chain nxt"
    using that nxt used_entries_set(2) [of c s]
    by (cases "g_fat s c = 0") (auto simp: fat32_next_cluster_def in_chain_def split: if_splits)
  then show "((nxt, fat32_set_cluster c 0 s), c, s)
      \<in> measure (\<lambda>(cluster, s). 2 * used_entries s + (if in_chain cluster then 1 else 0))"
    using c used_entries_set(1) [of c s] by auto
qed

declare free_cluster_chain_in_memory.simps [simp del]

text \<open>The counted walk shared by \<open>trim_cluster_chain\<close>, \<open>get_cluster_at_index\<close> and
  \<open>cluster_for_directory_index\<close>.\<close>

fun chain_walk :: "nat \<Rightarrow> u32 \<Rightarrow> 'd fat_state \<Rightarrow> u32" where
  "chain_walk 0 cluster s = cluster"
| "chain_walk (Suc n) cluster s =
     (if in_chain cluster then chain_walk n (fat32_next_cluster cluster s) s else cluster)"

definition get_cluster_at_index :: "u32 \<Rightarrow> u32 \<Rightarrow> 'd fat_state \<Rightarrow> u32" where
  "get_cluster_at_index first_cluster index s = chain_walk (unat index) first_cluster s"

text \<open>The pointer argument \<open>first_cluster\<close> is a value in and a value out.\<close>

definition trim_cluster_chain ::
  "u32 \<Rightarrow> u32 \<Rightarrow> 'd fat_state \<Rightarrow> Fat32Result \<times> u32 \<times> 'd fat_state" where
  "trim_cluster_chain first_cluster required_count s =
     (if required_count = 0 then
        (FAT32_OK, 0, if first_cluster \<ge> 2 then free_cluster_chain_in_memory first_cluster s else s)
      else if first_cluster < 2 then (FAT32_OK, first_cluster, s)
      else let cluster = chain_walk (unat required_count - 1) first_cluster s in
        if \<not> in_chain cluster then (FAT32_IO_ERROR, first_cluster, s)
        else let nxt = fat32_next_cluster cluster s;
                 s' = fat32_set_cluster cluster FAT32_END_OF_CHAIN s
             in (FAT32_OK, first_cluster,
                 if in_chain nxt then free_cluster_chain_in_memory nxt s' else s'))"

partial_function (option) chain_last :: "u32 \<Rightarrow> 'd fat_state \<Rightarrow> u32 option" where
  "chain_last cluster s =
     (let nxt = fat32_next_cluster cluster s
      in if in_chain nxt then chain_last nxt s else Some cluster)"

definition append_cluster_to_chain ::
  "u32 \<Rightarrow> 'd fat_state \<Rightarrow> (Fat32Result \<times> u32 \<times> 'd fat_state) option" where
  "append_cluster_to_chain first_cluster s =
     (let free_cluster = find_free_cluster s in
      if free_cluster = 0 then Some (FAT32_NO_SPACE, 0, s)
      else let s' = fat32_set_cluster free_cluster FAT32_END_OF_CHAIN s in
        if first_cluster = 0 then Some (FAT32_OK, free_cluster, s')
        else do {
          cluster \<leftarrow> chain_last first_cluster s';
          Some (FAT32_OK, free_cluster, fat32_set_cluster cluster free_cluster s')
        })"

subsection \<open>Allocating a chain\<close>

text \<open>The first loop of \<open>allocate_cluster_chain\<close>: result, \<open>first_cluster\<close>, state.\<close>

fun allocate_loop :: "nat \<Rightarrow> u32 \<Rightarrow> u32 \<Rightarrow> 'd fat_state \<Rightarrow> Fat32Result \<times> u32 \<times> 'd fat_state" where
  "allocate_loop 0 first_cluster last_cluster s = (FAT32_OK, first_cluster, s)"
| "allocate_loop (Suc n) first_cluster last_cluster s =
     (let cluster = find_free_cluster s in
      if cluster = 0
      then (FAT32_NO_SPACE, first_cluster, free_cluster_chain_in_memory first_cluster s)
      else let s1 = fat32_set_cluster cluster FAT32_END_OF_CHAIN s in
        if last_cluster \<noteq> 0
        then allocate_loop n first_cluster cluster (fat32_set_cluster last_cluster cluster s1)
        else allocate_loop n cluster cluster s1)"

text \<open>The second loop zeroes the clusters on disk.\<close>

fun zero_loop :: "nat \<Rightarrow> u32 \<Rightarrow> u32 \<Rightarrow> 'd fat_state \<Rightarrow> Fat32Result \<times> 'd fat_state" where
  "zero_loop 0 last_cluster first_cluster s = (FAT32_OK, s)"
| "zero_loop (Suc n) last_cluster first_cluster s =
     (if in_chain last_cluster then
        let (result, s1) = zero_cluster last_cluster s;
            nxt = fat32_next_cluster last_cluster s1
        in if result \<noteq> FAT32_OK then (result, free_cluster_chain_in_memory first_cluster s1)
           else if nxt \<ge> FAT32_END_OF_CHAIN then (FAT32_OK, s1)
           else zero_loop n nxt first_cluster s1
      else (FAT32_OK, s))"

definition allocate_cluster_chain ::
  "u32 \<Rightarrow> u32 \<Rightarrow> 'd fat_state \<Rightarrow> Fat32Result \<times> u32 \<times> 'd fat_state" where
  "allocate_cluster_chain count first_cluster_out s =
     (if count = 0 then (FAT32_OK, 0, s)
      else case allocate_loop (unat count) 0 0 s of (result, first_cluster, s1) \<Rightarrow>
        if result \<noteq> FAT32_OK then (result, first_cluster_out, s1)
        else case zero_loop (unat count) first_cluster first_cluster s1 of (result', s2) \<Rightarrow>
          if result' \<noteq> FAT32_OK then (result', first_cluster_out, s2)
          else (FAT32_OK, first_cluster, s2))"

fun extend_loop ::
  "nat \<Rightarrow> u32 \<Rightarrow> 'd fat_state \<Rightarrow> (Fat32Result \<times> 'd fat_state) option" where
  "extend_loop 0 first_cluster s = Some (FAT32_OK, s)"
| "extend_loop (Suc n) first_cluster s = do {
     (result, new_cluster, s1) \<leftarrow> append_cluster_to_chain first_cluster s;
     if result \<noteq> FAT32_OK then Some (result, s1)
     else let (result', s2) = zero_cluster new_cluster s1 in
       if result' \<noteq> FAT32_OK then Some (result', fat32_set_cluster new_cluster 0 s2)
       else extend_loop n first_cluster s2 }"

definition ensure_cluster_chain_length ::
  "u32 \<Rightarrow> u32 \<Rightarrow> u32 \<Rightarrow> 'd fat_state \<Rightarrow> (Fat32Result \<times> u32 \<times> 'd fat_state) option" where
  "ensure_cluster_chain_length first_cluster current_count required_count s =
     (if required_count \<le> current_count then Some (FAT32_OK, first_cluster, s)
      else if current_count = 0
      then Some (allocate_cluster_chain required_count first_cluster s)
      else do {
        (result, s') \<leftarrow> extend_loop (unat required_count - unat current_count) first_cluster s;
        Some (result, first_cluster, s')
      })"

subsection \<open>File data\<close>

text \<open>\<open>write_data_to_chain\<close>: \<open>data\<close> is the bytes from the cursor on.\<close>

partial_function (option) write_data_loop ::
  "u32 \<Rightarrow> u32 \<Rightarrow> u32 \<Rightarrow> bytes \<Rightarrow> 'd fat_state \<Rightarrow> (Fat32Result \<times> 'd fat_state) option" where
  "write_data_loop cluster offset remaining data s =
     (if remaining = 0 then Some (FAT32_OK, s)
      else case read_cluster cluster s of (ok, s1) \<Rightarrow>
        if \<not> ok then Some (FAT32_IO_ERROR, s1)
        else let room = g_cluster_size s1 - offset;
                 chunk = (if room > remaining then remaining else room);
                 s2 = s1\<lparr>g_cluster_buffer :=
                        blit (g_cluster_buffer s1) (unat offset) (take (unat chunk) data)\<rparr>
             in case write_cluster cluster s2 of (ok', s3) \<Rightarrow>
          if \<not> ok' then Some (FAT32_IO_ERROR, s3)
          else let remaining' = remaining - chunk; data' = drop (unat chunk) data in
            if remaining' = 0 then Some (FAT32_OK, s3)
            else let cluster' = fat32_next_cluster cluster s3 in
              if \<not> in_chain cluster' then Some (FAT32_IO_ERROR, s3)
              else write_data_loop cluster' 0 remaining' data' s3)"

definition write_data_to_chain ::
  "u32 \<Rightarrow> u32 \<Rightarrow> bytes \<Rightarrow> u32 \<Rightarrow> 'd fat_state \<Rightarrow> (Fat32Result \<times> 'd fat_state) option" where
  "write_data_to_chain first_cluster start_offset data sz s =
     (if sz = 0 then Some (FAT32_OK, s)
      else if first_cluster < 2 then Some (FAT32_IO_ERROR, s)
      else let cluster = get_cluster_at_index first_cluster (start_offset div g_cluster_size s) s in
        if \<not> in_chain cluster then Some (FAT32_IO_ERROR, s)
        else write_data_loop cluster (start_offset mod g_cluster_size s) sz data s)"

text \<open>The loop of \<open>fat32_read_file\<close>; the callback sees each chunk of the cluster buffer.\<close>

partial_function (option) read_file_loop ::
  "(bytes \<Rightarrow> u32 \<Rightarrow> 'c \<Rightarrow> bool \<times> 'c) \<Rightarrow> u32 \<Rightarrow> u32 \<Rightarrow> 'c \<Rightarrow> 'd fat_state
     \<Rightarrow> (Fat32Result \<times> 'c \<times> 'd fat_state) option" where
  "read_file_loop callback remaining cluster context s =
     (if remaining > 0 \<and> in_chain cluster then
        case read_cluster cluster s of (ok, s1) \<Rightarrow>
          if \<not> ok then Some (FAT32_IO_ERROR, context, s1)
          else let chunk = (if g_cluster_size s > remaining then remaining else g_cluster_size s) in
            case callback (take (unat chunk) (g_cluster_buffer s1)) chunk context of (go, context') \<Rightarrow>
              if \<not> go then Some (FAT32_IO_ERROR, context', s1)
              else read_file_loop callback (remaining - chunk) (fat32_next_cluster cluster s1) context' s1
      else Some (if remaining = 0 then FAT32_OK else FAT32_IO_ERROR, context, s))"

end
