(* ===== verification/FatChain.thy ===== *)
theory FatChain
  imports FatTable
begin

text \<open>
  Correctness of the chain operations of \<open>FatTable\<close> on the in-memory FAT, against the list of
  clusters a chain stands for.
\<close>

subsection \<open>Chains as lists\<close>

fun chain :: "'d fat_state \<Rightarrow> u32 \<Rightarrow> u32 list \<Rightarrow> bool" where
  "chain s c [] \<longleftrightarrow> c \<ge> FAT32_END_OF_CHAIN"
| "chain s c (x # xs) \<longleftrightarrow> x = c \<and> is_valid_data_cluster c s \<and> chain s (fat32_next_cluster c s) xs"

text \<open>The FAT fits \<open>g_fat\<close>, so a data cluster is never taken for an end-of-chain mark.\<close>

definition fat_bounded :: "'d fat_state \<Rightarrow> bool" where
  "fat_bounded s \<longleftrightarrow> unat (g_total_clusters s) \<le> 524288"

definition free_clusters :: "'d fat_state \<Rightarrow> u32 set" where
  "free_clusters s = {c. is_valid_data_cluster c s \<and> g_fat s c = 0}"

definition with_fat :: "(u32 \<Rightarrow> u32) \<Rightarrow> 'd fat_state \<Rightarrow> 'd fat_state" where
  "with_fat fat s = s\<lparr>g_fat := fat\<rparr>"

lemma with_fat_simps [simp]:
  "g_fat (with_fat f s) = f" "g_total_clusters (with_fat f s) = g_total_clusters s"
  "with_fat f (with_fat g s) = with_fat f s" "with_fat (g_fat s) s = s"
  "is_valid_data_cluster c (with_fat f s) = is_valid_data_cluster c s"
  "fat_bounded (with_fat f s) = fat_bounded s"
  by (simp_all add: with_fat_def is_valid_data_cluster_def fat_bounded_def)

lemma valid_less: "fat_bounded s \<Longrightarrow> is_valid_data_cluster c s \<Longrightarrow> unat c < 524288"
  by (auto simp: fat_bounded_def is_valid_data_cluster_def word_less_nat_alt)

lemma valid_in_chain [simp]: "fat_bounded s \<Longrightarrow> is_valid_data_cluster c s \<Longrightarrow> in_chain c"
  using valid_less [of s c]
  by (auto simp: in_chain_def is_valid_data_cluster_def FAT32_END_OF_CHAIN_def word_less_nat_alt)

lemma valid_not_end: "fat_bounded s \<Longrightarrow> is_valid_data_cluster c s \<Longrightarrow> \<not> c \<ge> FAT32_END_OF_CHAIN"
  using valid_in_chain by (fastforce simp: in_chain_def)

lemma link_mask: "unat (c :: u32) < 2 ^ 28 \<Longrightarrow> c AND 0x0FFFFFFF = c"
proof -
  assume c: "unat c < 2 ^ 28"
  have "(0x0FFFFFFF :: u32) = mask 28" by (simp add: mask_eq_exp_minus_1)
  then have "c AND 0x0FFFFFFF = take_bit 28 c" by (simp add: take_bit_eq_mask)
  also have "\<dots> = c"
    using c by (simp add: word_unat_eq_iff unsigned_take_bit_eq take_bit_nat_eq_self)
  finally show ?thesis .
qed

lemma end_mask [simp]: "FAT32_END_OF_CHAIN AND 0x0FFFFFFF = FAT32_END_OF_CHAIN"
  by (simp add: FAT32_END_OF_CHAIN_def)

lemma valid_mask: "fat_bounded s \<Longrightarrow> is_valid_data_cluster c s \<Longrightarrow> c AND 0x0FFFFFFF = c"
  using valid_less [of s c] by (intro link_mask) simp

lemma set_cluster_with_fat:
  "is_valid_data_cluster c s \<Longrightarrow> fat32_set_cluster c v s = with_fat ((g_fat s)(c := v AND 0x0FFFFFFF)) s"
  by (simp add: fat32_set_cluster_def with_fat_def)

lemma next_cluster_cong:
  "g_total_clusters s' = g_total_clusters s \<Longrightarrow> g_fat s' c = g_fat s c \<Longrightarrow>
   fat32_next_cluster c s' = fat32_next_cluster c s"
  by (simp add: fat32_next_cluster_def is_valid_data_cluster_def)

lemma chain_cong:
  "chain s c cs \<Longrightarrow> g_total_clusters s' = g_total_clusters s \<Longrightarrow>
   \<forall>x \<in> set cs. g_fat s' x = g_fat s x \<Longrightarrow> chain s' c cs"
proof (induction cs arbitrary: c)
  case (Cons x xs)
  then show ?case
    using next_cluster_cong [of s' s c] by (auto simp: is_valid_data_cluster_def)
qed simp

lemma chain_valid: "chain s c cs \<Longrightarrow> x \<in> set cs \<Longrightarrow> is_valid_data_cluster x s"
  by (induction cs arbitrary: c) auto

lemma chain_suffix: "chain s c (as @ x # bs) \<Longrightarrow> chain s x (x # bs)"
  by (induction as arbitrary: c) auto

lemma chain_unique: "fat_bounded s \<Longrightarrow> chain s c cs \<Longrightarrow> chain s c cs' \<Longrightarrow> cs' = cs"
proof (induction cs arbitrary: c cs')
  case Nil
  then show ?case using valid_not_end by (cases cs') auto
next
  case (Cons x xs)
  then show ?case using valid_not_end by (cases cs') auto
qed

lemma chain_distinct: "fat_bounded s \<Longrightarrow> chain s c cs \<Longrightarrow> distinct cs"
proof (induction cs arbitrary: c)
  case (Cons x xs)
  have "x \<notin> set xs"
  proof
    assume "x \<in> set xs"
    then obtain as bs where xs: "xs = as @ x # bs" by (meson split_list)
    then have "chain s x (x # bs)"
      using chain_suffix [of s "fat32_next_cluster c s" as x bs] Cons.prems(2) by auto
    moreover have "chain s x (x # xs)" using Cons.prems(2) by simp
    ultimately have "bs = xs" using chain_unique [OF Cons.prems(1)] by blast
    with xs show False by (metis append_Cons length_append_singleton length_Cons lessI
        less_not_refl2 append_self_conv2 list.distinct(1) self_append_conv2 append_assoc)
  qed
  then show ?case using Cons by auto
qed simp

text \<open>A cluster of a chain is in use, so the allocator never returns it.\<close>

lemma chain_used: "chain s c cs \<Longrightarrow> x \<in> set cs \<Longrightarrow> g_fat s x \<noteq> 0"
proof (induction cs arbitrary: c)
  case (Cons y ys)
  have "g_fat s c \<noteq> 0" if "chain s (fat32_next_cluster c s) ys" "is_valid_data_cluster c s"
  proof
    assume "g_fat s c = 0"
    then have "fat32_next_cluster c s = 0" using that(2) by (simp add: fat32_next_cluster_def)
    with that(1) show False
      by (cases ys) (auto simp: FAT32_END_OF_CHAIN_def is_valid_data_cluster_def)
  qed
  then show ?case using Cons by auto
qed simp

lemma chain_not_free: "chain s c cs \<Longrightarrow> set cs \<inter> free_clusters s = {}"
  using chain_used by (fastforce simp: free_clusters_def)

subsection \<open>Freeing\<close>

lemma free_chain_eq:
  assumes "fat_bounded s" and "chain s c cs"
  shows "free_cluster_chain_in_memory c s = with_fat (\<lambda>x. if x \<in> set cs then 0 else g_fat s x) s"
  using assms
proof (induction cs arbitrary: c s)
  case Nil
  then show ?case
    by (subst free_cluster_chain_in_memory.simps) (auto simp: in_chain_def)
next
  case (Cons x xs)
  have x: "x = c" "is_valid_data_cluster c s" and rest: "chain s (fat32_next_cluster c s) xs"
    using Cons.prems by auto
  let ?s = "with_fat ((g_fat s)(c := 0)) s"
  have "c \<notin> set xs" using chain_distinct [OF Cons.prems] x by simp
  then have "chain ?s (fat32_next_cluster c s) xs"
    using chain_cong [OF rest, of ?s] by simp
  from Cons.IH [OF _ this] show ?case
    using x Cons.prems(1)
    by (subst free_cluster_chain_in_memory.simps)
      (auto simp: set_cluster_with_fat Let_def intro!: arg_cong [where f = "\<lambda>f. with_fat f s"])
qed

subsection \<open>Walking\<close>

lemma chain_walk_nth:
  "fat_bounded s \<Longrightarrow> chain s c cs \<Longrightarrow> chain_walk n c s = cs ! n \<and> n < length cs \<or>
   \<not> in_chain (chain_walk n c s) \<and> chain_walk n c s \<ge> 2 \<and> length cs \<le> n"
proof (induction n arbitrary: c cs)
  case 0
  then show ?case by (cases cs) (auto simp: in_chain_def FAT32_END_OF_CHAIN_def intro: order_trans [rotated])
next
  case (Suc n)
  then show ?case
  proof (cases cs)
    case Nil
    with Suc.prems show ?thesis
      by (auto simp: in_chain_def FAT32_END_OF_CHAIN_def intro: order_trans [rotated])
  next
    case (Cons x xs)
    with Suc.IH [of "fat32_next_cluster c s" xs] Suc.prems show ?thesis by auto
  qed
qed

lemma chain_last_eq:
  "fat_bounded s \<Longrightarrow> chain s c cs \<Longrightarrow> cs \<noteq> [] \<Longrightarrow> chain_last c s = Some (last cs)"
proof (induction cs arbitrary: c)
  case (Cons x xs)
  show ?case
  proof (cases xs)
    case Nil
    with Cons.prems show ?thesis by (subst chain_last.simps) (auto simp: in_chain_def Let_def)
  next
    case (Cons y ys)
    with Cons.IH Cons.prems show ?thesis
      by (subst chain_last.simps) (auto simp: Let_def)
  qed
qed simp

subsection \<open>Finding a free cluster\<close>

lemma find_free_from_cases:
  "(find_free_from c s = 0 \<and> (\<forall>x. c \<le> x \<and> x < g_total_clusters s \<longrightarrow> g_fat s x \<noteq> 0) \<or>
    find_free_from c s \<ge> c \<and> find_free_from c s < g_total_clusters s \<and> g_fat s (find_free_from c s) = 0 \<and>
    (\<forall>x. c \<le> x \<and> x < find_free_from c s \<longrightarrow> g_fat s x \<noteq> 0))"
proof (induction c s rule: find_free_from.induct)
  case (1 c s)
  note unf = find_free_from.simps [of c s]
  show ?case
  proof (cases "c < g_total_clusters s \<and> g_fat s c \<noteq> 0")
    case False
    then show ?thesis using unf by auto
  next
    case True
    then have "unat c + 1 < 2 ^ 32"
      using unat_u32_bound [of "g_total_clusters s"] by (simp add: word_less_nat_alt)
    then have up: "c < x \<longleftrightarrow> c + 1 \<le> x" for x
      by (simp add: word_less_nat_alt word_le_nat_alt unat_Suc_small Suc_le_eq)
    then have "c \<le> x \<longleftrightarrow> x = c \<or> c + 1 \<le> x" for x by (auto simp: order_le_less)
    then show ?thesis using 1 True unf by auto
  qed
qed

lemma find_free_cluster_cases:
  obtains (none) "find_free_cluster s = 0" "free_clusters s = {}"
  | (found) "find_free_cluster s \<noteq> 0" "find_free_cluster s \<in> free_clusters s"
      "\<forall>x \<in> free_clusters s. find_free_cluster s \<le> x"
  using find_free_from_cases [of 2 s]
  by (force simp: find_free_cluster_def free_clusters_def is_valid_data_cluster_def not_less [symmetric])


text \<open>\<open>find_free_cluster\<close> returns the lowest-numbered free cluster of the volume, and 0 exactly
  when there is none.\<close>

theorem find_free_cluster_least:
  "(find_free_cluster s = 0 \<longleftrightarrow> free_clusters s = {}) \<and>
   (find_free_cluster s \<noteq> 0 \<longrightarrow> find_free_cluster s \<in> free_clusters s \<and>
      (\<forall>x \<in> free_clusters s. find_free_cluster s \<le> x))"
  by (rule find_free_cluster_cases [of s]) (auto simp: free_clusters_def is_valid_data_cluster_def)

subsection \<open>Appending and trimming\<close>

lemma chain_snoc:
  assumes b: "fat_bounded s" and "chain s c cs" and "cs \<noteq> []" and f: "f \<in> free_clusters s"
  shows "chain (with_fat ((g_fat s)(f := FAT32_END_OF_CHAIN, last cs := f)) s) c (cs @ [f])"
  using assms(2,3)
proof (induction cs arbitrary: c)
  case Nil
  then show ?case by simp
next
  case (Cons x xs)
  define t where "t = with_fat ((g_fat s)(f := FAT32_END_OF_CHAIN, last (x # xs) := f)) s"
  have fv: "is_valid_data_cluster f s" using f by (simp add: free_clusters_def)
  have x: "x = c" "is_valid_data_cluster c s" and rest: "chain s (fat32_next_cluster c s) xs"
    using Cons.prems by auto
  have nf: "f \<notin> set (x # xs)" using chain_not_free [OF Cons.prems(1)] f by blast
  have tv: "is_valid_data_cluster y t = is_valid_data_cluster y s" for y
    by (simp add: t_def)
  show "chain t c ((x # xs) @ [f])"
  proof (cases xs)
    case Nil
    have "fat32_next_cluster c t = f"
      using x fv valid_mask [OF b fv] Nil by (simp add: fat32_next_cluster_def t_def)
    moreover have "fat32_next_cluster f t = FAT32_END_OF_CHAIN"
      using nf fv Nil by (simp add: fat32_next_cluster_def t_def)
    ultimately show ?thesis using x fv Nil tv by simp
  next
    case (Cons y ys)
    have "c \<noteq> last xs"
      using chain_distinct [OF b Cons.prems(1)] x Cons last_in_set [of xs] by auto
    then have next_eq: "fat32_next_cluster c t = fat32_next_cluster c s"
      using nf x Cons by (intro next_cluster_cong) (auto simp: t_def)
    have t: "t = with_fat ((g_fat s)(f := FAT32_END_OF_CHAIN, last xs := f)) s"
      using Cons by (simp add: t_def)
    have "xs \<noteq> []" using Cons by simp
    from Cons.IH [OF rest this] have "chain t (fat32_next_cluster c s) (xs @ [f])"
      by (simp only: t)
    with next_eq show ?thesis
      using x tv by simp
  qed
qed

lemma append_cluster_cases:
  assumes b: "fat_bounded s" and c: "chain s c cs" "cs \<noteq> []"
  obtains (none) "append_cluster_to_chain c s = Some (FAT32_NO_SPACE, 0, s)" "free_clusters s = {}"
  | (found) f where "f \<in> free_clusters s" "f = find_free_cluster s"
      "append_cluster_to_chain c s =
        Some (FAT32_OK, f, with_fat ((g_fat s)(f := FAT32_END_OF_CHAIN, last cs := f)) s)"
      "chain (with_fat ((g_fat s)(f := FAT32_END_OF_CHAIN, last cs := f)) s) c (cs @ [f])"
proof (rule find_free_cluster_cases [of s])
  assume "find_free_cluster s = 0" "free_clusters s = {}"
  then show thesis using none by (simp add: append_cluster_to_chain_def)
next
  define f where "f = find_free_cluster s"
  assume "find_free_cluster s \<noteq> 0" "find_free_cluster s \<in> free_clusters s"
  then have f: "f \<noteq> 0" "f \<in> free_clusters s" by (simp_all add: f_def)
  have fv: "is_valid_data_cluster f s" using f by (simp add: free_clusters_def)
  let ?s1 = "with_fat ((g_fat s)(f := FAT32_END_OF_CHAIN)) s"
  have lv: "is_valid_data_cluster (last cs) s" using chain_valid [OF c(1)] c(2) by simp
  have "chain ?s1 c cs"
    using chain_not_free [OF c(1)] f(2) by (intro chain_cong [OF c(1)]) auto
  then have "chain_last c ?s1 = Some (last cs)"
    using b c(2) by (intro chain_last_eq) simp_all
  moreover have "c \<noteq> 0" using c by (cases cs) (auto simp: is_valid_data_cluster_def)
  ultimately have "append_cluster_to_chain c s =
      Some (FAT32_OK, f, with_fat ((g_fat s)(f := FAT32_END_OF_CHAIN, last cs := f)) s)"
    using f fv lv valid_mask [OF b fv]
    by (simp add: append_cluster_to_chain_def f_def [symmetric] Let_def set_cluster_with_fat)
  then show thesis
    using found f f_def chain_snoc [OF b c f(2)] by blast
qed

lemma chain_take:
  assumes b: "fat_bounded s" and "chain s c cs" and "n < length cs"
  shows "chain (with_fat (\<lambda>x. if x = cs ! n then FAT32_END_OF_CHAIN
      else if x \<in> set (drop (Suc n) cs) then 0 else g_fat s x) s) c (take (Suc n) cs)"
  using assms(2,3)
proof (induction cs arbitrary: c n)
  case Nil
  then show ?case by simp
next
  case (Cons x xs)
  have x: "x = c" "is_valid_data_cluster c s" and rest: "chain s (fat32_next_cluster c s) xs"
    using Cons.prems by auto
  have d: "c \<notin> set xs" using chain_distinct [OF b Cons.prems(1)] x by simp
  show ?case
  proof (cases n)
    case 0
    then show ?thesis using x by (simp add: fat32_next_cluster_def)
  next
    case (Suc m)
    let ?s = "with_fat (\<lambda>y. if y = xs ! m then FAT32_END_OF_CHAIN
        else if y \<in> set (drop (Suc m) xs) then 0 else g_fat s y) s"
    have "m < length xs" using Cons.prems(2) Suc by simp
    then have "fat32_next_cluster c ?s = fat32_next_cluster c s"
      using d nth_mem [of m xs] by (intro next_cluster_cong) (auto dest: in_set_dropD)
    moreover have eq: "drop (Suc n) (x # xs) = drop (Suc m) xs" "(x # xs) ! n = xs ! m"
      using Suc by simp_all
    ultimately show ?thesis
      unfolding eq using x Suc Cons.IH [OF rest \<open>m < length xs\<close>] by simp
  qed
qed

lemma trim_cluster_chain_eq:
  assumes b: "fat_bounded s" and c: "chain s c cs" and n: "0 < unat n" "unat n \<le> length cs"
  defines "s' \<equiv> with_fat (\<lambda>x. if x = cs ! (unat n - 1) then FAT32_END_OF_CHAIN
      else if x \<in> set (drop (unat n) cs) then 0 else g_fat s x) s"
  shows "trim_cluster_chain c n s = (FAT32_OK, c, s')" and "chain s' c (take (unat n) cs)"
proof -
  let ?m = "unat n - 1"
  have m: "?m < length cs" "Suc ?m = unat n" using n by auto
  show "chain s' c (take (unat n) cs)"
    using chain_take [OF b c m(1), unfolded m(2)] unfolding s'_def .
  define x where "x = cs ! ?m"
  have walk: "chain_walk ?m c s = x" using chain_walk_nth [OF b c, of ?m] m by (auto simp: x_def)
  have split: "cs = take ?m cs @ x # drop (unat n) cs"
    using id_take_nth_drop [OF m(1)] m(2) by (simp add: x_def)
  have xv: "is_valid_data_cluster x s" using chain_valid [OF c] m by (simp add: x_def)
  have "chain s x (x # drop (unat n) cs)"
    using chain_suffix [of s c "take ?m cs" x "drop (unat n) cs"] c split by simp
  then have tail: "chain s (fat32_next_cluster x s) (drop (unat n) cs)" by simp
  let ?s1 = "with_fat ((g_fat s)(x := FAT32_END_OF_CHAIN)) s"
  have xd: "x \<notin> set (drop (unat n) cs)"
    using chain_distinct [OF b c] split by (metis distinct.simps(2) distinct_append)
  then have tail1: "chain ?s1 (fat32_next_cluster x s) (drop (unat n) cs)"
    by (intro chain_cong [OF tail]) auto
  have nx: "\<not> in_chain (fat32_next_cluster x s) \<Longrightarrow> drop (unat n) cs = []"
    using tail valid_in_chain [OF b] by (cases "drop (unat n) cs") auto
  have "c \<ge> 2"
    using n c by (cases cs) (auto simp: is_valid_data_cluster_def)
  then have "n \<noteq> 0" "\<not> c < 2" "in_chain x"
    using n xv b by (auto simp: not_less)
  moreover have "(if in_chain (fat32_next_cluster x s)
      then free_cluster_chain_in_memory (fat32_next_cluster x s) ?s1 else ?s1) = s'"
  proof (cases "in_chain (fat32_next_cluster x s)")
    case True
    then show ?thesis
      using free_chain_eq [OF _ tail1] b xd
      by (auto simp: s'_def x_def [symmetric] simp del: One_nat_def intro!: arg_cong [where f = "\<lambda>f. with_fat f s"])
  next
    case False
    then show ?thesis
      using nx by (auto simp: s'_def x_def [symmetric] simp del: One_nat_def intro!: arg_cong [where f = "\<lambda>f. with_fat f s"])
  qed
  ultimately show "trim_cluster_chain c n s = (FAT32_OK, c, s')"
    by (simp only: trim_cluster_chain_def Let_def walk set_cluster_with_fat [OF xv] end_mask
        if_False not_True_eq_False)
qed

subsection \<open>Allocating\<close>

text \<open>What \<open>allocate_loop\<close> has built: no cluster yet, or a chain with its last cluster.\<close>

definition built :: "'d fat_state \<Rightarrow> u32 \<Rightarrow> u32 \<Rightarrow> u32 list \<Rightarrow> bool" where
  "built s first last_cluster cs \<longleftrightarrow>
     (if cs = [] then first = 0 \<and> last_cluster = 0 else chain s first cs \<and> last_cluster = last cs)"

lemma built_step:
  assumes b: "fat_bounded s" and bu: "built s first l as" and f: "f \<in> free_clusters s"
  defines "s1 \<equiv> with_fat ((g_fat s)(f := FAT32_END_OF_CHAIN)) s"
  shows "as = [] \<Longrightarrow> built s1 f f [f]"
    and "as \<noteq> [] \<Longrightarrow> l \<noteq> 0 \<and> built (fat32_set_cluster l f s1) first f (as @ [f]) \<and>
      fat32_set_cluster l f s1 = with_fat ((g_fat s)(f := FAT32_END_OF_CHAIN, l := f)) s"
proof -
  have fv: "is_valid_data_cluster f s" using f by (simp add: free_clusters_def)
  show "built s1 f f [f]" if "as = []"
    using fv by (simp add: built_def s1_def fat32_next_cluster_def)
  assume as: "as \<noteq> []"
  then have c: "chain s first as" "l = last as" using bu by (simp_all add: built_def)
  have lv: "is_valid_data_cluster l s" using chain_valid [OF c(1)] as c(2) by simp
  then have "fat32_set_cluster l f s1 = with_fat ((g_fat s)(f := FAT32_END_OF_CHAIN, l := f)) s"
    using valid_mask [OF b fv] by (simp add: s1_def set_cluster_with_fat)
  moreover have "chain (with_fat ((g_fat s)(f := FAT32_END_OF_CHAIN, l := f)) s) first (as @ [f])"
    using chain_snoc [OF b c(1) as f] by (simp only: c(2))
  ultimately show "l \<noteq> 0 \<and> built (fat32_set_cluster l f s1) first f (as @ [f]) \<and>
      fat32_set_cluster l f s1 = with_fat ((g_fat s)(f := FAT32_END_OF_CHAIN, l := f)) s"
    using lv by (auto simp: built_def is_valid_data_cluster_def)
qed

text \<open>Only clusters of \<open>A\<close> change.\<close>

definition fat_changes :: "u32 set \<Rightarrow> 'd fat_state \<Rightarrow> 'd fat_state \<Rightarrow> bool" where
  "fat_changes A s s' \<longleftrightarrow> s' = with_fat (g_fat s') s \<and> (\<forall>x. x \<notin> A \<longrightarrow> g_fat s' x = g_fat s x)"

lemma fat_changes_trans:
  "fat_changes A s s' \<Longrightarrow> fat_changes B s' s'' \<Longrightarrow> A \<union> B \<subseteq> C \<Longrightarrow> fat_changes C s s''"
  unfolding fat_changes_def by (metis Un_iff subset_iff with_fat_simps(3))

lemma allocate_loop_spec:
  assumes b: "fat_bounded s" and bu: "built s first l as"
    and run: "allocate_loop n first l s = (r, first', s')"
  shows "(r = FAT32_OK \<and> n \<le> card (free_clusters s) \<and>
      (\<exists>bs. length bs = n \<and> set bs \<subseteq> free_clusters s \<and> fat_changes (set as \<union> set bs) s s' \<and>
        (\<exists>l'. built s' first' l' (as @ bs)))) \<or>
    (r = FAT32_NO_SPACE \<and> card (free_clusters s) < n \<and>
      s' = with_fat (\<lambda>x. if x \<in> set as then 0 else g_fat s x) s)"
  using b bu run
proof (induction n arbitrary: first l s as)
  case 0
  then show ?case by (fastforce simp: fat_changes_def)
next
  case (Suc n)
  show ?case
  proof (rule find_free_cluster_cases [of s])
    assume none: "find_free_cluster s = 0" "free_clusters s = {}"
    have "free_cluster_chain_in_memory first s = with_fat (\<lambda>x. if x \<in> set as then 0 else g_fat s x) s"
    proof (cases "as = []")
      case True
      then show ?thesis using Suc.prems(2)
        by (subst free_cluster_chain_in_memory.simps) (simp add: built_def in_chain_def)
    next
      case False
      then show ?thesis using free_chain_eq [OF Suc.prems(1)] Suc.prems(2) by (simp add: built_def)
    qed
    then show ?thesis using Suc.prems(3) none by auto
  next
    define f where "f = find_free_cluster s"
    assume "find_free_cluster s \<noteq> 0" "find_free_cluster s \<in> free_clusters s"
    then have f: "f \<noteq> 0" "f \<in> free_clusters s" by (simp_all add: f_def)
    then have fv: "is_valid_data_cluster f s" by (simp add: free_clusters_def)
    define t where "t = (if as = [] then with_fat ((g_fat s)(f := FAT32_END_OF_CHAIN)) s
      else with_fat ((g_fat s)(f := FAT32_END_OF_CHAIN, l := f)) s)"
    define first1 where "first1 = (if as = [] then f else first)"
    note bs = built_step [OF Suc.prems(1,2) f(2)]
    have t: "fat_bounded t" "built t first1 f (as @ [f])"
      using Suc.prems(1) bs by (auto simp: t_def first1_def)
    have set_f: "fat32_set_cluster f FAT32_END_OF_CHAIN s = with_fat ((g_fat s)(f := FAT32_END_OF_CHAIN)) s"
      using set_cluster_with_fat [OF fv] by (simp only: end_mask)
    have step: "allocate_loop (Suc n) first l s = (if l \<noteq> 0
        then allocate_loop n first f (fat32_set_cluster l f (fat32_set_cluster f FAT32_END_OF_CHAIN s))
        else allocate_loop n f f (fat32_set_cluster f FAT32_END_OF_CHAIN s))"
      using f(1) by (simp only: allocate_loop.simps Let_def f_def [symmetric] if_False)
    have run: "allocate_loop n first1 f t = (r, first', s')"
    proof (cases "as = []")
      case True
      then have "l = 0" using Suc.prems(2) by (simp only: built_def if_True)
      then have "allocate_loop n f f (with_fat ((g_fat s)(f := FAT32_END_OF_CHAIN)) s) = (r, first', s')"
        using trans [OF step [symmetric] Suc.prems(3)] by (simp only: set_f simp_thms if_False)
      then show ?thesis unfolding t_def first1_def by (simp only: True if_True simp_thms)
    next
      case False
      have l: "l \<noteq> 0" "fat32_set_cluster l f (with_fat ((g_fat s)(f := FAT32_END_OF_CHAIN)) s) =
          with_fat ((g_fat s)(f := FAT32_END_OF_CHAIN, l := f)) s"
        using bs(2) [OF False] by blast+
      then have "allocate_loop n first f (with_fat ((g_fat s)(f := FAT32_END_OF_CHAIN, l := f)) s) =
          (r, first', s')"
        using trans [OF step [symmetric] Suc.prems(3)] by (simp only: set_f if_True simp_thms)
      then show ?thesis unfolding t_def first1_def by (simp only: False if_False)
    qed
    have l_in: "as \<noteq> [] \<Longrightarrow> l \<in> set as" using Suc.prems(2) by (simp add: built_def)
    have used: "set as \<inter> free_clusters s = {}"
      using Suc.prems(2) chain_not_free [of s first as] by (cases "as = []") (auto simp: built_def)
    have t_vals: "g_fat t x = (if as \<noteq> [] \<and> x = l then f else if x = f then FAT32_END_OF_CHAIN
        else g_fat s x)" for x
      unfolding t_def by simp
    have t_total: "is_valid_data_cluster x t = is_valid_data_cluster x s" for x
      unfolding t_def by simp
    have "FAT32_END_OF_CHAIN \<noteq> 0" by (simp add: FAT32_END_OF_CHAIN_def)
    moreover have "as \<noteq> [] \<Longrightarrow> g_fat s l \<noteq> 0"
      using l_in used Suc.prems(2) chain_used [of s first as l] by (auto simp: built_def)
    ultimately have free_t: "free_clusters t = free_clusters s - {f}"
      unfolding free_clusters_def t_vals t_total using f(1) by (auto split: if_splits)
    have card_t: "card (free_clusters s) = Suc (card (free_clusters t))"
      using card_Suc_Diff1 [OF finite_clusters f(2)] by (simp only: free_t)
    have ch: "fat_changes (set (as @ [f])) s t"
      using l_in by (auto simp: fat_changes_def t_def)
    from Suc.IH [OF t run] show ?thesis
    proof (elim disjE conjE exE)
      fix bs l'
      assume ok: "r = FAT32_OK" "n \<le> card (free_clusters t)" "length bs = n"
        and sub: "set bs \<subseteq> free_clusters t"
        and more: "fat_changes (set (as @ [f]) \<union> set bs) t s'" and bu': "built s' first' l' ((as @ [f]) @ bs)"
      have "fat_changes (set as \<union> set (f # bs)) s s'"
        by (rule fat_changes_trans [OF ch more]) auto
      moreover have "set (f # bs) \<subseteq> free_clusters s"
        using sub f(2) by (auto simp: free_t)
      moreover have "length (f # bs) = Suc n" "Suc n \<le> card (free_clusters s)"
        using ok card_t by simp_all
      moreover have "built s' first' l' (as @ f # bs)" using bu' by simp
      ultimately show ?thesis using ok(1) by blast
    next
      assume r: "r = FAT32_NO_SPACE" "card (free_clusters t) < n"
        and s': "s' = with_fat (\<lambda>x. if x \<in> set (as @ [f]) then 0 else g_fat t x) t"
      have "g_fat s f = 0" using f(2) by (simp add: free_clusters_def)
      then have "(\<lambda>x. if x \<in> set (as @ [f]) then 0 else g_fat t x) =
          (\<lambda>x. if x \<in> set as then 0 else g_fat s x)"
        using l_in by (auto simp: t_def)
      then have "s' = with_fat (\<lambda>x. if x \<in> set as then 0 else g_fat s x) s"
        using s' by (simp add: t_def)
      then show ?thesis using r card_t by simp
    qed
  qed
qed

text \<open>From an empty start: exactly \<open>n\<close> fresh clusters in one chain, or nothing.\<close>

lemma allocate_loop_fresh:
  assumes "fat_bounded s" and "0 < n" and "allocate_loop n 0 0 s = (r, c, s')"
  shows "(r = FAT32_OK \<and> n \<le> card (free_clusters s) \<and>
      (\<exists>cs. length cs = n \<and> set cs \<subseteq> free_clusters s \<and> fat_changes (set cs) s s' \<and> chain s' c cs)) \<or>
    (r = FAT32_NO_SPACE \<and> card (free_clusters s) < n \<and> s' = s)"
  using allocate_loop_spec [OF assms(1) _ assms(3), of "[]"] assms(2)
  by (fastforce simp: built_def)

end
