(* ===== verification/FatStore.thy ===== *)
theory FatStore
  imports FatChain
begin

text \<open>
  Clusters on disk. The interface \<open>cluster_store\<close> is what the file and directory layers rely on:
  a successful read fills the buffer with the cluster, a successful write replaces that cluster
  and no other. It is interpreted on \<open>read_cluster\<close> and \<open>write_cluster\<close> over any block device that
  obeys \<open>disk_law\<close>, on a volume whose geometry is as \<open>fat32_mount\<close> leaves it.
\<close>

subsection \<open>The interface\<close>

locale cluster_store =
  fixes rd :: "u32 \<Rightarrow> 's \<Rightarrow> bool \<times> 's"
    and wr :: "u32 \<Rightarrow> 's \<Rightarrow> bool \<times> 's"
    and buf :: "'s \<Rightarrow> bytes"
    and patch :: "nat \<Rightarrow> bytes \<Rightarrow> 's \<Rightarrow> 's"
    and contents :: "'s \<Rightarrow> u32 \<Rightarrow> bytes"
    and valid :: "'s \<Rightarrow> u32 \<Rightarrow> bool"
    and csize :: "'s \<Rightarrow> nat"
    and inv :: "'s \<Rightarrow> bool"
    and frame :: "'s \<Rightarrow> 's \<Rightarrow> bool"
  assumes frame_trans: "\<lbrakk>frame s t; frame t u\<rbrakk> \<Longrightarrow> frame s u"
    and frame_valid: "frame s t \<Longrightarrow> valid t c = valid s c"
    and frame_csize: "frame s t \<Longrightarrow> csize t = csize s"
    and length_buf: "inv s \<Longrightarrow> length (buf s) = csize s"
    and length_contents: "\<lbrakk>inv s; valid s c\<rbrakk> \<Longrightarrow> length (contents s c) = csize s"
    and rd_frame: "\<lbrakk>inv s; rd c s = (ok, t)\<rbrakk> \<Longrightarrow> inv t \<and> frame s t \<and> contents t = contents s"
    and rd_buf: "\<lbrakk>inv s; rd c s = (True, t)\<rbrakk> \<Longrightarrow> valid s c \<and> buf t = contents s c"
    and wr_frame: "\<lbrakk>inv s; wr c s = (ok, t)\<rbrakk> \<Longrightarrow>
      inv t \<and> frame s t \<and> (\<forall>x. x \<noteq> c \<longrightarrow> contents t x = contents s x)"
    and wr_buf: "\<lbrakk>inv s; wr c s = (True, t)\<rbrakk> \<Longrightarrow> valid s c \<and> contents t c = buf s"
    and patch_frame: "inv s \<Longrightarrow> off + length data \<le> csize s \<Longrightarrow>
      inv (patch off data s) \<and> frame s (patch off data s) \<and> contents (patch off data s) = contents s"
    and patch_buf: "inv s \<Longrightarrow> off + length data \<le> csize s \<Longrightarrow>
      buf (patch off data s) = blit (buf s) off data"
begin

text \<open>Read, change and write back part of a cluster.\<close>

lemma read_modify_write:
  assumes "inv s" and "rd c s = (True, t)" and "off + length data \<le> csize s"
    and "wr c (patch off data t) = (ok, u)"
  shows "inv u \<and> frame s u \<and> (\<forall>x. x \<noteq> c \<longrightarrow> contents u x = contents s x) \<and>
    (ok \<longrightarrow> contents u = (contents s)(c := blit (contents s c) off data))"
proof -
  have t: "inv t" "frame s t" "contents t = contents s" "buf t = contents s c"
    using rd_frame [OF assms(1,2)] rd_buf [OF assms(1,2)] by auto
  have off: "off + length data \<le> csize t" using assms(3) frame_csize [OF t(2)] by simp
  let ?p = "patch off data t"
  have p: "inv ?p" "frame t ?p" "contents ?p = contents t" "buf ?p = blit (buf t) off data"
    using patch_frame [OF t(1) off] patch_buf [OF t(1) off] by auto
  have u: "inv u \<and> frame ?p u \<and> (\<forall>x. x \<noteq> c \<longrightarrow> contents u x = contents ?p x)"
    using wr_frame [OF p(1) assms(4)] .
  have "contents u = (contents s)(c := blit (contents s c) off data)" if ok
    using that wr_buf [OF p(1)] assms(4) u t p by auto
  then show ?thesis
    using u t p frame_trans by metis
qed

lemma write_whole:
  assumes "inv s" and "length data = csize s" and "wr c (patch 0 data s) = (ok, u)"
  shows "inv u \<and> frame s u \<and> (\<forall>x. x \<noteq> c \<longrightarrow> contents u x = contents s x) \<and>
    (ok \<longrightarrow> contents u = (contents s)(c := data))"
proof -
  let ?p = "patch 0 data s"
  have p: "inv ?p" "frame s ?p" "contents ?p = contents s" "buf ?p = blit (buf s) 0 data"
    using patch_frame [of s 0 data] patch_buf [of s 0 data] assms(1,2) by auto
  have "buf ?p = data" using p(4) length_buf [OF assms(1)] assms(2) by (simp add: blit_def)
  then have "contents u = (contents s)(c := data)" if ok
    using that wr_buf [OF p(1)] wr_frame [OF p(1) assms(3)] assms(3) p(3) by auto
  then show ?thesis
    using wr_frame [OF p(1) assms(3)] p frame_trans by metis
qed

end

subsection \<open>The volume on disk\<close>

definition spc :: "'d fat_state \<Rightarrow> nat" where
  "spc s = unat (g_sectors_per_cluster s)"

definition cluster_bytes_size :: "'d fat_state \<Rightarrow> nat" where
  "cluster_bytes_size s = unat (g_cluster_size s)"

text \<open>The geometry of a mounted volume whose sectors have 32-bit numbers: FATs, then clusters.\<close>

definition geometry_ok :: "'d fat_state \<Rightarrow> bool" where
  "geometry_ok s \<longleftrightarrow> fat_bounded s \<and> 2 \<le> unat (g_total_clusters s) \<and>
     0 < spc s \<and> spc s \<le> 8 \<and> unat (g_cluster_size s) = spc s * SECTOR \<and>
     unat (g_total_clusters s) \<le> unat (g_sectors_per_fat s) * 128 \<and>
     unat (g_fat_lba s) + unat (g_fat_count s) * unat (g_sectors_per_fat s) \<le> unat (g_data_lba s) \<and>
     unat (g_data_lba s) + (unat (g_total_clusters s) - 2) * spc s \<le> 2 ^ 32 \<and>
     is_valid_data_cluster (g_root_cluster s) s"

definition vol_ok :: "('d \<Rightarrow> nat \<Rightarrow> bytes) \<Rightarrow> 'd fat_state \<Rightarrow> bool" where
  "vol_ok view s \<longleftrightarrow> disk_law (g_block_device s) view \<and> geometry_ok s \<and>
     length (g_cluster_buffer s) = FAT32_MAX_CLUSTER_SECTORS * SECTOR"

definition cluster_start :: "'d fat_state \<Rightarrow> u32 \<Rightarrow> nat" where
  "cluster_start s c = unat (g_data_lba s) + (unat c - 2) * spc s"

definition cluster_data :: "('d \<Rightarrow> nat \<Rightarrow> bytes) \<Rightarrow> 'd fat_state \<Rightarrow> u32 \<Rightarrow> bytes" where
  "cluster_data view s c =
     (if is_valid_data_cluster c s then sectors view (g_disk s) (cluster_start s c) (spc s) else [])"

definition cluster_buf :: "'d fat_state \<Rightarrow> bytes" where
  "cluster_buf s = take (cluster_bytes_size s) (g_cluster_buffer s)"

definition patch_buffer :: "nat \<Rightarrow> bytes \<Rightarrow> 'd fat_state \<Rightarrow> 'd fat_state" where
  "patch_buffer off data s = s\<lparr>g_cluster_buffer := blit (g_cluster_buffer s) off data\<rparr>"

text \<open>Only the cluster buffer and the disk differ.\<close>

definition io_frame :: "'d fat_state \<Rightarrow> 'd fat_state \<Rightarrow> bool" where
  "io_frame s t \<longleftrightarrow> (\<exists>b d. t = s\<lparr>g_cluster_buffer := b, g_disk := d\<rparr>)"

lemma io_frame_simps:
  assumes "io_frame s t"
  shows "g_fat t = g_fat s" "g_total_clusters t = g_total_clusters s"
    "g_sectors_per_cluster t = g_sectors_per_cluster s" "g_cluster_size t = g_cluster_size s"
    "g_data_lba t = g_data_lba s" "g_fat_lba t = g_fat_lba s" "g_fat_count t = g_fat_count s"
    "g_sectors_per_fat t = g_sectors_per_fat s" "g_block_device t = g_block_device s"
    "g_root_cluster t = g_root_cluster s" "g_mounted t = g_mounted s"
  using assms by (auto simp: io_frame_def)

lemma io_frame_trans: "io_frame s t \<Longrightarrow> io_frame t u \<Longrightarrow> io_frame s u"
  by (auto simp: io_frame_def) blast

lemma io_frame_refl [simp]: "io_frame s s"
  unfolding io_frame_def
  by (intro exI [of _ "g_cluster_buffer s"] exI [of _ "g_disk s"]) simp

lemma io_frame_valid: "io_frame s t \<Longrightarrow> is_valid_data_cluster c t = is_valid_data_cluster c s"
  by (simp add: is_valid_data_cluster_def io_frame_simps)

lemma io_frame_geometry: "io_frame s t \<Longrightarrow> geometry_ok t = geometry_ok s"
  by (simp add: geometry_ok_def io_frame_simps io_frame_valid fat_bounded_def spc_def)

lemma io_frame_next: "io_frame s t \<Longrightarrow> fat32_next_cluster c t = fat32_next_cluster c s"
  by (intro next_cluster_cong) (simp_all add: io_frame_simps)

lemma io_frame_chain: "io_frame s t \<Longrightarrow> chain t c cs = chain s c cs"
  using chain_cong [of s c cs t] chain_cong [of t c cs s] by (auto simp: io_frame_simps)

lemma cluster_start_less:
  assumes "geometry_ok s" and "is_valid_data_cluster c s"
  shows "cluster_start s c + spc s \<le> 2 ^ 32" and "unat (cluster_to_lba c s) = cluster_start s c"
proof -
  have c: "2 \<le> unat c" "unat c < unat (g_total_clusters s)"
    using assms(2) by (auto simp: is_valid_data_cluster_def word_le_nat_alt word_less_nat_alt)
  then have "(unat c - 2) * spc s + spc s \<le> (unat (g_total_clusters s) - 2) * spc s"
    using mult_le_mono1 [of "Suc (unat c - 2)" "unat (g_total_clusters s) - 2" "spc s"]
    by (simp add: add.commute)
  then show le: "cluster_start s c + spc s \<le> 2 ^ 32"
    using assms(1) by (simp add: geometry_ok_def cluster_start_def)
  have d: "unat (c - 2) = unat c - 2" using c(1) by (simp add: unat_diff_small)
  have pos: "0 < spc s" using assms(1) by (simp add: geometry_ok_def)
  have "unat ((c - 2) * ucast (g_sectors_per_cluster s)) = (unat c - 2) * spc s"
    using le pos by (subst unat_mult_small) (auto simp: d spc_def cluster_start_def)
  then show "unat (cluster_to_lba c s) = cluster_start s c"
    using le pos by (simp add: cluster_to_lba_def cluster_start_def unat_add_small)
qed

lemma clusters_apart:
  assumes "is_valid_data_cluster c s" and "is_valid_data_cluster x s" and "x \<noteq> c"
  shows "cluster_start s x + spc s \<le> cluster_start s c \<or> cluster_start s c + spc s \<le> cluster_start s x"
proof -
  have v: "2 \<le> unat c" "2 \<le> unat x" using assms by (auto simp: is_valid_data_cluster_def word_le_nat_alt)
  moreover have "unat x \<noteq> unat c" using assms(3) by (simp add: word_unat_eq_iff)
  ultimately have "Suc (unat x - 2) \<le> unat c - 2 \<or> Suc (unat c - 2) \<le> unat x - 2" by linarith
  then show ?thesis
    using mult_le_mono1 [of "Suc (unat x - 2)" "unat c - 2" "spc s"]
      mult_le_mono1 [of "Suc (unat c - 2)" "unat x - 2" "spc s"]
    by (auto simp: cluster_start_def)
qed

lemma cluster_data_cong:
  assumes "io_frame s t" and "\<And>x. is_valid_data_cluster x s \<Longrightarrow>
    \<forall>l \<in> {cluster_start s x..<cluster_start s x + spc s}. view (g_disk t) l = view (g_disk s) l"
  shows "cluster_data view t = cluster_data view s"
proof
  fix x
  have eq: "cluster_start t x = cluster_start s x" "spc t = spc s"
    using assms(1) by (simp_all add: cluster_start_def spc_def io_frame_simps)
  show "cluster_data view t x = cluster_data view s x"
    using assms(2) [of x] sectors_cong [of "cluster_start s x" "spc s" view "g_disk t" "g_disk s"]
    by (auto simp: cluster_data_def eq io_frame_valid [OF assms(1)])
qed

lemma spc_u8: "geometry_ok s \<Longrightarrow> g_sectors_per_cluster s \<noteq> 0 \<and> \<not> spc s > FAT32_MAX_CLUSTER_SECTORS"
  by (auto simp: geometry_ok_def spc_def FAT32_MAX_CLUSTER_SECTORS_def)

lemma cluster_io_ok_iff: "geometry_ok s \<Longrightarrow> cluster_io_ok c s = is_valid_data_cluster c s"
  using spc_u8 [of s] by (simp add: cluster_io_ok_def spc_def)

lemma read_cluster_spec:
  assumes v: "vol_ok view s" and run: "read_cluster c s = (ok, t)"
  shows "vol_ok view t \<and> io_frame s t \<and> cluster_data view t = cluster_data view s \<and>
    view (g_disk t) = view (g_disk s) \<and>
    (ok \<longrightarrow> is_valid_data_cluster c s \<and> cluster_buf t = cluster_data view s c)"
proof (cases "is_valid_data_cluster c s")
  case False
  then have "(ok, t) = (False, s)"
    using run by (simp add: read_cluster_def cluster_io_ok_def)
  then show ?thesis using v by simp
next
  case True
  let ?n = "spc s * SECTOR"
  have law: "disk_law (g_block_device s) view" and g: "geometry_ok s"
    and len: "length (g_cluster_buffer s) = FAT32_MAX_CLUSTER_SECTORS * SECTOR"
    using v by (simp_all add: vol_ok_def)
  obtain out d where rd: "block_read_sectors (g_block_device s) (cluster_to_lba c s)
      (g_sectors_per_cluster s) (take ?n (g_cluster_buffer s)) (g_disk s) = (ok, out, d)"
    and t: "t = s\<lparr>g_cluster_buffer := out @ drop ?n (g_cluster_buffer s), g_disk := d\<rparr>"
    using run True g by (auto simp: read_cluster_def cluster_io_ok_iff Let_def spc_def
        FAT32_SECTOR_SIZE_def SECTOR_def split: prod.splits)
  have small: "?n \<le> length (g_cluster_buffer s)"
    using g len by (simp add: geometry_ok_def FAT32_MAX_CLUSTER_SECTORS_def)
  then have "length (take ?n (g_cluster_buffer s)) = unat (g_sectors_per_cluster s) * SECTOR"
    by (simp add: spc_def)
  note disk = disk_read [OF law rd this]
  have fr: "io_frame s t" unfolding t io_frame_def by blast
  have same: "cluster_data view t = cluster_data view s"
    by (rule cluster_data_cong [OF fr]) (simp add: t disk(2))
  have out: "length out = ?n" using disk(1) small by simp
  then have "vol_ok view t"
    using v fr small len by (simp add: vol_ok_def io_frame_geometry io_frame_simps) (simp add: t)
  moreover have "cluster_buf t = cluster_data view s c" if ok
  proof -
    have "cluster_buf t = out"
      using g out by (simp add: cluster_buf_def cluster_bytes_size_def t geometry_ok_def)
    then show ?thesis
      using disk(3) [OF that] True cluster_start_less(2) [OF g True] by (simp add: cluster_data_def spc_def)
  qed
  ultimately show ?thesis using fr same True disk(2) by (simp add: t)
qed

lemma write_cluster_spec:
  assumes v: "vol_ok view s" and run: "write_cluster c s = (ok, t)"
  shows "vol_ok view t \<and> io_frame s t \<and> (\<forall>x. x \<noteq> c \<longrightarrow> cluster_data view t x = cluster_data view s x) \<and>
    (\<forall>l. l < unat (g_data_lba s) \<longrightarrow> view (g_disk t) l = view (g_disk s) l) \<and>
    (ok \<longrightarrow> is_valid_data_cluster c s \<and> cluster_data view t c = cluster_buf s)"
proof (cases "is_valid_data_cluster c s")
  case False
  then have "(ok, t) = (False, s)"
    using run by (simp add: write_cluster_def cluster_io_ok_def)
  then show ?thesis using v by simp
next
  case True
  let ?n = "spc s * SECTOR"
  have law: "disk_law (g_block_device s) view" and g: "geometry_ok s"
    and len: "length (g_cluster_buffer s) = FAT32_MAX_CLUSTER_SECTORS * SECTOR"
    using v by (simp_all add: vol_ok_def)
  obtain d where wr: "block_write_sectors (g_block_device s) (cluster_to_lba c s)
      (g_sectors_per_cluster s) (take ?n (g_cluster_buffer s)) (g_disk s) = (ok, d)"
    and t: "t = s\<lparr>g_disk := d\<rparr>"
    using run True g by (auto simp: write_cluster_def cluster_io_ok_iff Let_def spc_def
        FAT32_SECTOR_SIZE_def SECTOR_def split: prod.splits)
  have small: "?n \<le> length (g_cluster_buffer s)"
    using g len by (simp add: geometry_ok_def FAT32_MAX_CLUSTER_SECTORS_def)
  then have "length (take ?n (g_cluster_buffer s)) = unat (g_sectors_per_cluster s) * SECTOR"
    by (simp add: spc_def)
  note disk = disk_write [OF law wr this, unfolded cluster_start_less(2) [OF g True], folded spc_def]
  have fr: "io_frame s t" unfolding t io_frame_def
    by (intro exI [of _ "g_cluster_buffer s"] exI [of _ d]) simp
  have "vol_ok view t"
    using v fr len by (simp add: vol_ok_def io_frame_geometry io_frame_simps) (simp add: t)
  moreover have eq: "cluster_start t x = cluster_start s x" "spc t = spc s"
      "is_valid_data_cluster x t = is_valid_data_cluster x s" for x
    by (simp_all add: t cluster_start_def spc_def is_valid_data_cluster_def)
  moreover have "cluster_data view t x = cluster_data view s x" if "x \<noteq> c" for x
  proof (cases "is_valid_data_cluster x s")
    case xv: True
    have "sectors view d (cluster_start s x) (spc s) = sectors view (g_disk s) (cluster_start s x) (spc s)"
      using clusters_apart [OF True xv that] by (intro sectors_cong disk(1)) auto
    then show ?thesis by (simp add: cluster_data_def eq) (simp add: t)
  qed (simp add: cluster_data_def eq)
  moreover have "cluster_data view t c = cluster_buf s" if ok
    using disk(2) [OF that] True g
    by (simp add: cluster_data_def eq cluster_buf_def cluster_bytes_size_def geometry_ok_def) (simp add: t)
  moreover have "view (g_disk t) l = view (g_disk s) l" if "l < unat (g_data_lba s)" for l
    using that disk(1) [of l] by (simp add: t cluster_start_def)
  ultimately show ?thesis using fr True by blast
qed

lemma patch_buffer_spec:
  assumes v: "vol_ok view s" and off: "off + length data \<le> cluster_bytes_size s"
  shows "vol_ok view (patch_buffer off data s)" and "io_frame s (patch_buffer off data s)"
    and "cluster_data view (patch_buffer off data s) = cluster_data view s"
    and "cluster_buf (patch_buffer off data s) = blit (cluster_buf s) off data"
proof -
  have g: "geometry_ok s" and len: "length (g_cluster_buffer s) = FAT32_MAX_CLUSTER_SECTORS * SECTOR"
    using v by (simp_all add: vol_ok_def)
  have small: "cluster_bytes_size s \<le> length (g_cluster_buffer s)"
    using g len by (simp add: geometry_ok_def cluster_bytes_size_def FAT32_MAX_CLUSTER_SECTORS_def)
  show fr: "io_frame s (patch_buffer off data s)"
    unfolding io_frame_def patch_buffer_def
    by (intro exI [of _ "blit (g_cluster_buffer s) off data"] exI [of _ "g_disk s"]) simp
  show "vol_ok view (patch_buffer off data s)"
    using v fr small off by (simp add: vol_ok_def io_frame_geometry io_frame_simps) (simp add: patch_buffer_def)
  show "cluster_data view (patch_buffer off data s) = cluster_data view s"
    by (rule cluster_data_cong [OF fr]) (simp add: patch_buffer_def)
  show "cluster_buf (patch_buffer off data s) = blit (cluster_buf s) off data"
    using small off take_blit [of off data "cluster_bytes_size s" "g_cluster_buffer s"]
    by (simp add: cluster_buf_def patch_buffer_def cluster_bytes_size_def)
qed

interpretation clusters: cluster_store read_cluster write_cluster cluster_buf patch_buffer
    "cluster_data view" "\<lambda>s c. is_valid_data_cluster c s" cluster_bytes_size "vol_ok view" io_frame
  for view :: "'d \<Rightarrow> nat \<Rightarrow> bytes"
proof
  fix s t u :: "'d fat_state" and c :: u32 and ok :: bool and off :: nat and data :: bytes
  show "io_frame s t \<Longrightarrow> io_frame t u \<Longrightarrow> io_frame s u" by (rule io_frame_trans)
  show "io_frame s t \<Longrightarrow> is_valid_data_cluster c t = is_valid_data_cluster c s" by (rule io_frame_valid)
  show "io_frame s t \<Longrightarrow> cluster_bytes_size t = cluster_bytes_size s"
    by (simp add: cluster_bytes_size_def io_frame_simps)
  show "vol_ok view s \<Longrightarrow> length (cluster_buf s) = cluster_bytes_size s"
    by (simp add: vol_ok_def geometry_ok_def cluster_buf_def cluster_bytes_size_def FAT32_MAX_CLUSTER_SECTORS_def)
  show "vol_ok view s \<Longrightarrow> is_valid_data_cluster c s \<Longrightarrow> length (cluster_data view s c) = cluster_bytes_size s"
    by (simp add: vol_ok_def geometry_ok_def cluster_data_def cluster_bytes_size_def length_sectors disk_law_def)
  show "vol_ok view s \<Longrightarrow> read_cluster c s = (ok, t) \<Longrightarrow>
      vol_ok view t \<and> io_frame s t \<and> cluster_data view t = cluster_data view s"
    using read_cluster_spec by blast
  show "vol_ok view s \<Longrightarrow> read_cluster c s = (True, t) \<Longrightarrow>
      is_valid_data_cluster c s \<and> cluster_buf t = cluster_data view s c"
    using read_cluster_spec by blast
  show "vol_ok view s \<Longrightarrow> write_cluster c s = (ok, t) \<Longrightarrow> vol_ok view t \<and> io_frame s t \<and>
      (\<forall>x. x \<noteq> c \<longrightarrow> cluster_data view t x = cluster_data view s x)"
    using write_cluster_spec by blast
  show "vol_ok view s \<Longrightarrow> write_cluster c s = (True, t) \<Longrightarrow>
      is_valid_data_cluster c s \<and> cluster_data view t c = cluster_buf s"
    using write_cluster_spec by blast
  assume "vol_ok view s" "off + length data \<le> cluster_bytes_size s"
  then show "vol_ok view (patch_buffer off data s) \<and> io_frame s (patch_buffer off data s) \<and>
      cluster_data view (patch_buffer off data s) = cluster_data view s"
    "cluster_buf (patch_buffer off data s) = blit (cluster_buf s) off data"
    using patch_buffer_spec by blast+
qed

end
