(* ===== verification/FatData.thy ===== *)
theory FatData
  imports FatStore
begin

text \<open>
  Allocation with zeroing, growing, and moving file data along chains: the disk half of
  \<open>FatTable\<close>, over the \<open>cluster_store\<close> facts of \<open>FatStore\<close>.
\<close>

subsection \<open>Volumes and FAT updates\<close>

lemma with_fat_geometry [simp]:
  "geometry_ok (with_fat f s) = geometry_ok s" "vol_ok view (with_fat f s) = vol_ok view s"
  "cluster_data view (with_fat f s) = cluster_data view s" "spc (with_fat f s) = spc s"
  "cluster_bytes_size (with_fat f s) = cluster_bytes_size s"
proof -
  show g: "geometry_ok (with_fat f s) = geometry_ok s"
    by (simp add: geometry_ok_def spc_def is_valid_data_cluster_def fat_bounded_def with_fat_def)
  then show "vol_ok view (with_fat f s) = vol_ok view s"
    by (simp add: vol_ok_def) (simp add: with_fat_def)
  show "cluster_data view (with_fat f s) = cluster_data view s"
    by (rule ext, simp add: cluster_data_def) (simp add: with_fat_def cluster_start_def spc_def)
qed (simp_all add: with_fat_def spc_def cluster_bytes_size_def)

lemma vol_bounded: "vol_ok view s \<Longrightarrow> fat_bounded s"
  by (simp add: vol_ok_def geometry_ok_def)

lemma vol_csize: "vol_ok view s \<Longrightarrow> 512 \<le> cluster_bytes_size s \<and> cluster_bytes_size s \<le> 4096"
  by (auto simp: vol_ok_def geometry_ok_def cluster_bytes_size_def SECTOR_def)

lemma io_frame_free: "io_frame s t \<Longrightarrow> free_clusters t = free_clusters s"
  by (simp add: free_clusters_def io_frame_simps io_frame_valid)

lemma io_frame_csize: "io_frame s t \<Longrightarrow> cluster_bytes_size t = cluster_bytes_size s"
  by (simp add: cluster_bytes_size_def io_frame_simps)

lemma io_frame_bounded: "io_frame s t \<Longrightarrow> fat_bounded t = fat_bounded s"
  by (simp add: fat_bounded_def io_frame_simps)

lemmas frame_simps = io_frame_simps io_frame_valid io_frame_next io_frame_chain io_frame_free
  io_frame_csize io_frame_bounded

definition zeros :: "'d fat_state \<Rightarrow> bytes" where
  "zeros s = replicate (cluster_bytes_size s) 0"

lemma zero_cluster_spec:
  assumes v: "vol_ok view s" and run: "zero_cluster c s = (r, t)"
  shows "vol_ok view t \<and> io_frame s t \<and> (\<forall>x. x \<noteq> c \<longrightarrow> cluster_data view t x = cluster_data view s x) \<and>
    (r = FAT32_OK \<or> r = FAT32_IO_ERROR) \<and>
    (r = FAT32_OK \<longrightarrow> cluster_data view t = (cluster_data view s)(c := zeros s))"
proof -
  have clear: "clear_cluster_buffer s = patch_buffer 0 (zeros s) s"
    by (simp add: clear_cluster_buffer_def patch_buffer_def zeros_def cluster_bytes_size_def)
  obtain ok where ok: "write_cluster c (patch_buffer 0 (zeros s) s) = (ok, t)"
      "r = (if ok then FAT32_OK else FAT32_IO_ERROR)"
    using run by (auto simp: zero_cluster_def clear split: prod.splits)
  show ?thesis
    using clusters.write_whole [OF v _ ok(1)] ok(2) by (auto simp: zeros_def)
qed

subsection \<open>Allocation\<close>

lemma zero_loop_spec:
  assumes "vol_ok view s" and "chain s c cs" and "length cs \<le> n" and "zero_loop n c first s = (r, t)"
  shows "(r = FAT32_OK \<and> vol_ok view t \<and> io_frame s t \<and>
      (\<forall>x. cluster_data view t x = (if x \<in> set cs then zeros s else cluster_data view s x))) \<or>
    (r = FAT32_IO_ERROR \<and> (\<exists>u. vol_ok view u \<and> io_frame s u \<and> t = free_cluster_chain_in_memory first u \<and>
      (\<forall>x. x \<notin> set cs \<longrightarrow> cluster_data view u x = cluster_data view s x)))"
  using assms
proof (induction cs arbitrary: c n s)
  case Nil
  then have "\<not> in_chain c" by (auto simp: in_chain_def)
  then have "(r, t) = (FAT32_OK, s)" using Nil.prems(4) by (cases n) simp_all
  then show ?case using Nil.prems(1) by simp
next
  case (Cons x xs)
  then obtain m where n: "n = Suc m" "length xs \<le> m" by (cases n) auto
  have x: "x = c" "is_valid_data_cluster c s" and rest: "chain s (fat32_next_cluster c s) xs"
    using Cons.prems by auto
  have b: "fat_bounded s" using vol_bounded [OF Cons.prems(1)] .
  obtain r1 s1 where z: "zero_cluster c s = (r1, s1)" by fastforce
  note zs = zero_cluster_spec [OF Cons.prems(1) z]
  have fr: "io_frame s s1" using zs by blast
  have nx: "fat32_next_cluster c s1 = fat32_next_cluster c s" using io_frame_next [OF fr] .
  have run: "(if r1 \<noteq> FAT32_OK then (r1, free_cluster_chain_in_memory first s1)
      else if fat32_next_cluster c s \<ge> FAT32_END_OF_CHAIN then (FAT32_OK, s1)
      else zero_loop m (fat32_next_cluster c s) first s1) = (r, t)"
    using Cons.prems(4) valid_in_chain [OF b x(2)]
    unfolding n(1) zero_loop.simps z Let_def prod.case nx by simp
  consider (err) "r1 = FAT32_IO_ERROR" | (stop) "r1 = FAT32_OK" "xs = []" | (go) "r1 = FAT32_OK" "xs \<noteq> []"
    using zs by blast
  then show ?case
  proof cases
    case err
    then have "r = FAT32_IO_ERROR" "t = free_cluster_chain_in_memory first s1" using run by auto
    then show ?thesis using zs x by auto
  next
    case stop
    then have "(r, t) = (FAT32_OK, s1)" using run rest by simp
    then show ?thesis using zs x stop by auto
  next
    case go
    then have lt: "\<not> fat32_next_cluster c s \<ge> FAT32_END_OF_CHAIN"
      using rest valid_not_end [OF b] by (cases xs) auto
    have run': "zero_loop m (fat32_next_cluster c s) first s1 = (r, t)"
      using run go lt by simp
    have ch: "chain s1 (fat32_next_cluster c s) xs" using rest fr by (simp add: io_frame_chain)
    have z1: "zeros s1 = zeros s" using fr by (simp add: zeros_def io_frame_csize)
    have "vol_ok view s1" using zs by blast
    note Cons.IH [OF this ch n(2) run', unfolded z1]
    then have "(r = FAT32_OK \<and> vol_ok view t \<and> io_frame s1 t \<and>
        (\<forall>x. cluster_data view t x = (if x \<in> set xs then zeros s else cluster_data view s1 x))) \<or>
      (r = FAT32_IO_ERROR \<and> (\<exists>u. vol_ok view u \<and> io_frame s1 u \<and> t = free_cluster_chain_in_memory first u \<and>
        (\<forall>x. x \<notin> set xs \<longrightarrow> cluster_data view u x = cluster_data view s1 x)))" .
    then show ?thesis
    proof (elim disjE conjE exE)
      assume "r = FAT32_OK" "vol_ok view t" "io_frame s1 t"
        "\<forall>x. cluster_data view t x = (if x \<in> set xs then zeros s else cluster_data view s1 x)"
      then show ?thesis using zs x go io_frame_trans [OF fr] by auto
    next
      fix u
      assume "r = FAT32_IO_ERROR" "vol_ok view u" "io_frame s1 u" "t = free_cluster_chain_in_memory first u"
        "\<forall>x. x \<notin> set xs \<longrightarrow> cluster_data view u x = cluster_data view s1 x"
      then show ?thesis using zs x go io_frame_trans [OF fr, of u] by (intro disjI2) auto
    qed
  qed
qed

text \<open>The outcome of an allocation of \<open>n\<close> clusters.\<close>

definition allocated :: "('d \<Rightarrow> nat \<Rightarrow> bytes) \<Rightarrow> 'd fat_state \<Rightarrow> nat \<Rightarrow> u32 \<Rightarrow> 'd fat_state \<Rightarrow> bool" where
  "allocated view s n c t \<longleftrightarrow> (\<exists>cs. length cs = n \<and> set cs \<subseteq> free_clusters s \<and> chain t c cs \<and>
     (\<forall>x. x \<notin> set cs \<longrightarrow> g_fat t x = g_fat s x) \<and>
     (\<forall>x. cluster_data view t x = (if x \<in> set cs then zeros s else cluster_data view s x)))"


subsection \<open>File data\<close>

definition chain_data :: "('d \<Rightarrow> nat \<Rightarrow> bytes) \<Rightarrow> 'd fat_state \<Rightarrow> u32 list \<Rightarrow> bytes" where
  "chain_data view s cs = concat (map (cluster_data view s) cs)"

lemma chain_data_simps [simp]:
  "chain_data view s [] = []" "chain_data view s (x # xs) = cluster_data view s x @ chain_data view s xs"
  "chain_data view s (as @ bs) = chain_data view s as @ chain_data view s bs"
  by (simp_all add: chain_data_def)

lemma chain_data_cong:
  "\<forall>x \<in> set cs. cluster_data view t x = cluster_data view s x \<Longrightarrow> chain_data view t cs = chain_data view s cs"
  by (simp add: chain_data_def cong: map_cong)

lemma length_chain_data:
  "vol_ok view s \<Longrightarrow> chain s c cs \<Longrightarrow> length (chain_data view s cs) = length cs * cluster_bytes_size s"
  by (induction cs arbitrary: c) (auto simp: clusters.length_contents)

lemma blit_append_left: "off + length d \<le> length A \<Longrightarrow> blit (A @ B) off d = blit A off d @ B"
  by (simp add: blit_def)

lemma blit_append_split:
  "off \<le> length A \<Longrightarrow> length A \<le> off + length d \<Longrightarrow>
   blit (A @ B) off d = blit A off (take (length A - off) d) @ blit B 0 (drop (length A - off) d)"
  by (simp add: blit_def min_def add.commute)

lemma blit_append_right: "blit (A @ B) (length A + off) d = A @ blit B off d"
  by (simp add: blit_def add.commute add.left_commute)

lemma blit_Nil: "blit xs off [] = xs"
  by (simp add: blit_def)

text \<open>The outcome of writing \<open>data\<close> at \<open>off\<close> into the clusters \<open>cs\<close>.\<close>

definition data_written ::
  "('d \<Rightarrow> nat \<Rightarrow> bytes) \<Rightarrow> 'd fat_state \<Rightarrow> u32 list \<Rightarrow> nat \<Rightarrow> bytes \<Rightarrow> Fat32Result \<Rightarrow> 'd fat_state \<Rightarrow> bool" where
  "data_written view s cs off data r t \<longleftrightarrow> vol_ok view t \<and> io_frame s t \<and>
     (r = FAT32_OK \<or> r = FAT32_IO_ERROR) \<and>
     (\<forall>x. x \<notin> set cs \<longrightarrow> cluster_data view t x = cluster_data view s x) \<and>
     (r = FAT32_OK \<longrightarrow> chain_data view t cs = blit (chain_data view s cs) off data)"

lemma write_data_loop_spec:
  assumes "vol_ok view s" and "chain s c cs" and "unat off < cluster_bytes_size s"
    and "length data = unat remaining" and "0 < unat remaining"
    and "unat off + length data \<le> length cs * cluster_bytes_size s"
  shows "\<exists>r t. write_data_loop c off remaining data s = Some (r, t) \<and>
    data_written view s cs (unat off) data r t"
  using assms
proof (induction cs arbitrary: c off remaining data s)
  case Nil
  then show ?case by simp
next
  case (Cons x xs)
  note v = Cons.prems(1)
  have b: "fat_bounded s" using vol_bounded [OF v] .
  have x: "x = c" "is_valid_data_cluster c s" and rest: "chain s (fat32_next_cluster c s) xs"
    using Cons.prems(2) by auto
  have d: "c \<notin> set xs" using chain_distinct [OF b Cons.prems(2)] x by simp
  have csz: "cluster_bytes_size s = unat (g_cluster_size s)" by (simp add: cluster_bytes_size_def)
  have lenc: "length (cluster_data view s c) = unat (g_cluster_size s)"
    using clusters.length_contents [OF v x(2)] csz by simp
  obtain ok s1 where rd: "read_cluster c s = (ok, s1)" by fastforce
  note rs = clusters.rd_frame [OF v rd]
  note unf = write_data_loop.simps [of c off remaining data s]
  show ?case
  proof (cases ok)
    case False
    then have "write_data_loop c off remaining data s = Some (FAT32_IO_ERROR, s1)"
      using rd Cons.prems(5) unf by auto
    then show ?thesis using rs by (auto simp: data_written_def)
  next
    case True
    define room where "room = g_cluster_size s - off"
    define chunk where "chunk = (if room > remaining then remaining else room)"
    have cs1: "g_cluster_size s1 = g_cluster_size s" using rs by (simp add: io_frame_simps)
    have room: "unat room = unat (g_cluster_size s) - unat off"
      using Cons.prems(3) csz by (simp add: room_def unat_diff_small)
    then have chunk: "unat chunk = min (unat (g_cluster_size s) - unat off) (unat remaining)"
      by (auto simp: chunk_def word_less_nat_alt)
    then have pos: "0 < unat chunk" using Cons.prems(3,5) csz by simp
    have rem: "unat (remaining - chunk) = unat remaining - unat chunk"
      using chunk by (simp add: unat_diff_small)
    let ?part = "take (unat chunk) data"
    have part: "length ?part = unat chunk" "unat off + length ?part \<le> cluster_bytes_size s"
      using chunk Cons.prems(3,4) csz by (auto simp: min_def)
    obtain ok' s3 where wr: "write_cluster c (patch_buffer (unat off) ?part s1) = (ok', s3)" by fastforce
    have rmw: "vol_ok view s3 \<and> io_frame s s3 \<and>
        (\<forall>x. x \<noteq> c \<longrightarrow> cluster_data view s3 x = cluster_data view s x) \<and>
        (ok' \<longrightarrow> cluster_data view s3 = (cluster_data view s)(c := blit (cluster_data view s c) (unat off) ?part))"
      using clusters.read_modify_write [OF v _ part(2) wr] rd True by simp
    have eq: "write_data_loop c off remaining data s =
      (if \<not> ok' then Some (FAT32_IO_ERROR, s3)
       else if remaining - chunk = 0 then Some (FAT32_OK, s3)
       else if \<not> in_chain (fat32_next_cluster c s3) then Some (FAT32_IO_ERROR, s3)
       else write_data_loop (fat32_next_cluster c s3) 0 (remaining - chunk) (drop (unat chunk) data) s3)"
    proof -
      have r0: "(remaining = 0) = False" using Cons.prems(5) by auto
      have okT: "(\<not> ok) = False" using True by simp
      show ?thesis
        unfolding unf r0 rd prod.case okT if_False Let_def cs1 room_def [symmetric]
          chunk_def [symmetric] wr [unfolded patch_buffer_def] ..
    qed
    show ?thesis
    proof (cases "ok' \<and> remaining - chunk \<noteq> 0")
      case False
      have "chain_data view s3 (x # xs) = blit (chain_data view s (x # xs)) (unat off) data"
        if ok' "remaining - chunk = 0"
      proof -
        have full: "?part = data" using that(2) rem part Cons.prems(4) by (simp add: unat_eq_0)
        have "chain_data view s3 xs = chain_data view s xs"
          using rmw d by (intro chain_data_cong) auto
        then show ?thesis
          using rmw that(1) x full part(2) lenc csz by (simp add: blit_append_left)
      qed
      then show ?thesis
        using False eq rmw x by (auto simp: data_written_def)
    next
      case True
      then have more: "unat chunk < unat remaining" using rem by (metis diff_is_0_eq' linorder_not_less unat_eq_0)
      then have k: "unat chunk = unat (g_cluster_size s) - unat off" using chunk by simp
      have len': "length (drop (unat chunk) data) = unat (remaining - chunk)" "0 < unat (remaining - chunk)"
        using rem more Cons.prems(4) by simp_all
      have csz3: "cluster_bytes_size s3 = unat (g_cluster_size s)"
        using rmw csz io_frame_csize [of s s3] by simp
      have fits: "unat (0 :: u32) + length (drop (unat chunk) data) \<le> length xs * cluster_bytes_size s3"
        using Cons.prems(3,4,6) k csz by (simp add: csz3)
      then have "xs \<noteq> []" using len' by auto
      have fr3: "io_frame s s3" using rmw by blast
      have ch3: "chain s3 (fat32_next_cluster c s3) xs"
        using rest io_frame_chain [OF fr3] io_frame_next [OF fr3] by simp
      have inc: "in_chain (fat32_next_cluster c s3)"
        using ch3 \<open>xs \<noteq> []\<close> b io_frame_bounded [OF fr3] valid_in_chain [of s3] by (cases xs) auto
      have v3: "vol_ok view s3" using rmw by blast
      have "unat (0 :: u32) < cluster_bytes_size s3" using vol_csize [OF v3] by simp
      from Cons.IH [OF v3 ch3 this len' fits] obtain r t where
        t: "write_data_loop (fat32_next_cluster c s3) 0 (remaining - chunk) (drop (unat chunk) data) s3
              = Some (r, t)"
           "data_written view s3 xs 0 (drop (unat chunk) data) r t"
        by auto
      have run: "write_data_loop c off remaining data s = Some (r, t)"
        using eq True inc t(1) by simp
      have c3: "cluster_data view s3 c = blit (cluster_data view s c) (unat off) ?part"
        "chain_data view s3 xs = chain_data view s xs"
        using rmw True d by (auto intro: chain_data_cong)
      have "chain_data view t (x # xs) = blit (chain_data view s (x # xs)) (unat off) data" if "r = FAT32_OK"
      proof -
        have "cluster_data view t c = cluster_data view s3 c"
          using t(2) d by (simp add: data_written_def)
        then have "chain_data view t (x # xs) = blit (cluster_data view s c) (unat off) ?part
            @ blit (chain_data view s xs) 0 (drop (unat chunk) data)"
          using t(2) that x c3 by (simp add: data_written_def)
        also have "\<dots> = blit (cluster_data view s c @ chain_data view s xs) (unat off) data"
          using lenc k Cons.prems(3,4) csz more by (subst blit_append_split) simp_all
        finally show ?thesis using x by simp
      qed
      then have "data_written view s (x # xs) (unat off) data r t"
        using t(2) rmw x io_frame_trans [of s s3 t] by (auto simp: data_written_def)
      then show ?thesis using run by blast
    qed
  qed
qed


text \<open>C19: writing \<open>size\<close> bytes at \<open>start_offset\<close> of a file whose chain is long enough always returns;
  on \<open>FAT32_OK\<close> the bytes of the chain are the old ones with \<open>data\<close> laid over them at that offset,
  whatever way the data straddles cluster boundaries, and whatever the result no other cluster and
  no FAT entry changes.\<close>

theorem write_data_to_chain_blits:
  assumes v: "vol_ok view s" and ch: "chain s c cs" and sz: "length data = unat sz"
    and fits: "unat start + length data \<le> length cs * cluster_bytes_size s"
  shows "\<exists>r t. write_data_to_chain c start data sz s = Some (r, t) \<and> vol_ok view t \<and> io_frame s t \<and>
    (r = FAT32_OK \<or> r = FAT32_IO_ERROR) \<and>
    (\<forall>x. x \<notin> set cs \<longrightarrow> cluster_data view t x = cluster_data view s x) \<and>
    (r = FAT32_OK \<longrightarrow> chain_data view t cs = blit (chain_data view s cs) (unat start) data)"
proof (cases "sz = 0")
  case True
  then show ?thesis using sz v by (auto simp: write_data_to_chain_def blit_Nil)
next
  case False
  define i where "i = unat start div cluster_bytes_size s"
  define o' where "o' = unat start mod cluster_bytes_size s"
  have b: "fat_bounded s" and cpos: "0 < cluster_bytes_size s"
    using vol_bounded [OF v] vol_csize [OF v] by auto
  have pos: "0 < unat sz" using False by (simp add: unat_gt_0)
  have start: "unat start = i * cluster_bytes_size s + o'" "o' < cluster_bytes_size s"
    using cpos by (simp_all add: i_def o'_def)
  have "i * cluster_bytes_size s < length cs * cluster_bytes_size s"
    using fits start pos sz by linarith
  then have i: "i < length cs" by simp
  define x where "x = cs ! i"
  have split: "cs = take i cs @ x # drop (Suc i) cs" using id_take_nth_drop [OF i] by (simp add: x_def)
  define ys where "ys = x # drop (Suc i) cs"
  have ys: "cs = take i cs @ ys" "length ys = length cs - i" using split i by (simp_all add: ys_def)
  have chx: "chain s x ys" using chain_suffix [of s c "take i cs" x "drop (Suc i) cs"] ch split by (simp add: ys_def)
  have walk: "get_cluster_at_index c (start div g_cluster_size s) s = x"
    using chain_walk_nth [OF b ch, of i] i
    by (auto simp: get_cluster_at_index_def unat_div_distrib i_def cluster_bytes_size_def x_def)
  have xin: "in_chain x" using chx b by (auto simp: ys_def)
  have "\<not> c < 2" using ch i by (cases cs) (auto simp: is_valid_data_cluster_def)
  have off: "unat (start mod g_cluster_size s) = o'"
    by (simp add: unat_mod_distrib o'_def cluster_bytes_size_def)
  have "o' + length data \<le> length ys * cluster_bytes_size s"
    using fits start ys(2) by (simp add: diff_mult_distrib)
  from write_data_loop_spec [OF v chx, of "start mod g_cluster_size s" data sz, unfolded off, OF start(2) sz pos this]
  obtain r t where run: "write_data_loop x (start mod g_cluster_size s) sz data s = Some (r, t)"
    and w: "data_written view s ys o' data r t" by blast
  have run': "write_data_to_chain c start data sz s = Some (r, t)"
    using False \<open>\<not> c < 2\<close> walk xin run by (simp add: write_data_to_chain_def Let_def)
  have v_ch: "chain s c (take i cs @ ys)" using ch ys(1) by simp
  have disj: "set (take i cs) \<inter> set ys = {}" using chain_distinct [OF b v_ch] by simp
  have len: "length (chain_data view s (take i cs)) = i * cluster_bytes_size s"
  proof -
    have "\<forall>y \<in> set (take i cs). length (cluster_data view s y) = cluster_bytes_size s"
      using chain_valid [OF ch] in_set_takeD clusters.length_contents [OF v] by metis
    then have "length (chain_data view s (take i cs)) = length (take i cs) * cluster_bytes_size s"
      by (induction "take i cs" arbitrary: i cs) (auto simp: chain_data_def length_concat sum_list_triv
          cong: map_cong)
    then show ?thesis using i by simp
  qed
  have "chain_data view t cs = blit (chain_data view s cs) (unat start) data" if "r = FAT32_OK"
  proof -
    have "chain_data view t (take i cs) = chain_data view s (take i cs)"
      using w disj by (intro chain_data_cong) (auto simp: data_written_def)
    moreover have "chain_data view t ys = blit (chain_data view s ys) o' data"
      using w that by (simp add: data_written_def)
    ultimately have "chain_data view t (take i cs @ ys) = blit (chain_data view s (take i cs @ ys)) (unat start) data"
      using blit_append_right [of "chain_data view s (take i cs)" "chain_data view s ys" o' data] len start(1)
      by simp
    then show ?thesis using ys(1) by simp
  qed
  moreover have "set ys \<subseteq> set cs" using ys(1) by (metis set_append Un_upper2)
  ultimately show ?thesis using run' w by (auto simp: data_written_def)
qed

end
