(* ===== verification/FatFileData.thy ===== *)
theory FatFileData
  imports FatData
begin

text \<open>
  Reading a file back, growing its chain, and the two together: what was written is what the read
  callback receives. A small volume on a RAM disk witnesses the hypotheses.
\<close>

subsection \<open>Reading\<close>

text \<open>The callback protocol of \<open>fat32_read_file\<close>: the pieces in order, until it declines one.\<close>

fun feed :: "(bytes \<Rightarrow> u32 \<Rightarrow> 'c \<Rightarrow> bool \<times> 'c) \<Rightarrow> bytes list \<Rightarrow> 'c \<Rightarrow> bool \<times> 'c" where
  "feed callback [] context = (True, context)"
| "feed callback (b # bs) context =
     (case callback b (of_nat (length b)) context of
        (go, context') \<Rightarrow> if go then feed callback bs context' else (False, context'))"

fun pieces :: "nat \<Rightarrow> nat \<Rightarrow> bytes \<Rightarrow> bytes list" where
  "pieces 0 k xs = []"
| "pieces (Suc n) k xs = (if xs = [] then [] else take k xs # pieces n k (drop k xs))"

lemma concat_pieces: "length xs \<le> n * k \<Longrightarrow> concat (pieces n k xs) = xs"
proof (induction n arbitrary: xs)
  case (Suc n)
  have "length (drop k xs) \<le> n * k" using Suc.prems by simp
  with Suc.IH [of "drop k xs"] show ?case by simp
qed simp

lemma read_file_loop_spec:
  assumes "vol_ok view s" and "chain s c cs" and "unat remaining \<le> length cs * cluster_bytes_size s"
  shows "\<exists>r ctx' t. read_file_loop callback remaining c ctx s = Some (r, ctx', t) \<and>
    vol_ok view t \<and> io_frame s t \<and> cluster_data view t = cluster_data view s \<and>
    (r = FAT32_OK \<or> r = FAT32_IO_ERROR) \<and>
    (r = FAT32_OK \<longrightarrow> feed callback (pieces (length cs) (cluster_bytes_size s)
        (take (unat remaining) (chain_data view s cs))) ctx = (True, ctx'))"
  using assms
proof (induction cs arbitrary: c remaining ctx s)
  case Nil
  then have "remaining = 0" by (simp add: unat_eq_0)
  then have "read_file_loop callback remaining c ctx s = Some (FAT32_OK, ctx, s)"
    by (subst read_file_loop.simps) simp
  then show ?case using Nil.prems(1) by simp
next
  case (Cons x xs)
  note v = Cons.prems(1)
  have b: "fat_bounded s" using vol_bounded [OF v] .
  have x: "x = c" "is_valid_data_cluster c s" and rest: "chain s (fat32_next_cluster c s) xs"
    using Cons.prems(2) by auto
  have lenc: "length (cluster_data view s c) = cluster_bytes_size s"
    using clusters.length_contents [OF v x(2)] .
  note unf = read_file_loop.simps [of callback remaining c ctx s]
  show ?case
  proof (cases "remaining = 0")
    case True
    then have "read_file_loop callback remaining c ctx s = Some (FAT32_OK, ctx, s)"
      using unf by simp
    then show ?thesis using v True by simp
  next
    case False
    then have pos: "remaining > 0" "0 < unat remaining" by (simp_all add: word_gt_0 unat_gt_0)
    obtain ok s1 where rd: "read_cluster c s = (ok, s1)" by fastforce
    note rs = clusters.rd_frame [OF v rd]
    then have v1: "vol_ok view s1" and fr: "io_frame s s1" and cd: "cluster_data view s1 = cluster_data view s"
      by blast+
    define chunk where "chunk = (if g_cluster_size s > remaining then remaining else g_cluster_size s)"
    have chunk: "unat chunk = min (cluster_bytes_size s) (unat remaining)"
      by (auto simp: chunk_def cluster_bytes_size_def word_less_nat_alt)
    have rem: "unat (remaining - chunk) = unat remaining - unat chunk"
      using chunk by (simp add: unat_diff_small)
    define piece where "piece = take (unat chunk) (g_cluster_buffer s1)"
    obtain go ctx1 where cb: "callback piece chunk ctx = (go, ctx1)" by fastforce
    have eq: "read_file_loop callback remaining c ctx s =
      (if \<not> ok then Some (FAT32_IO_ERROR, ctx, s1)
       else if \<not> go then Some (FAT32_IO_ERROR, ctx1, s1)
       else read_file_loop callback (remaining - chunk) (fat32_next_cluster c s1) ctx1 s1)"
    proof -
      have go: "(remaining > 0 \<and> in_chain c) = True" using pos x(2) b by simp
      show ?thesis
        unfolding unf go if_True rd prod.case Let_def chunk_def [symmetric] piece_def [symmetric] cb ..
    qed
    show ?thesis
    proof (cases "ok \<and> go")
      case False
      then have "\<exists>ctx'. read_file_loop callback remaining c ctx s = Some (FAT32_IO_ERROR, ctx', s1)"
        using eq by auto
      then show ?thesis using rs by auto
    next
      case True
      have ch1: "chain s1 (fat32_next_cluster c s1) xs"
        using rest io_frame_chain [OF fr] io_frame_next [OF fr] by simp
      have csz1: "cluster_bytes_size s1 = cluster_bytes_size s" using io_frame_csize [OF fr] .
      have "unat (remaining - chunk) \<le> length xs * cluster_bytes_size s1"
        using Cons.prems(3) rem chunk by (simp add: csz1)
      from Cons.IH [OF v1 ch1 this, of ctx1] obtain r ctx' t where
        t: "read_file_loop callback (remaining - chunk) (fat32_next_cluster c s1) ctx1 s1 = Some (r, ctx', t)"
           "vol_ok view t" "io_frame s1 t" "cluster_data view t = cluster_data view s"
           "r = FAT32_OK \<or> r = FAT32_IO_ERROR"
           "r = FAT32_OK \<longrightarrow> feed callback (pieces (length xs) (cluster_bytes_size s)
              (take (unat (remaining - chunk)) (chain_data view s1 xs))) ctx1 = (True, ctx')"
        by (auto simp: csz1 cd)
      have run: "read_file_loop callback remaining c ctx s = Some (r, ctx', t)"
        using eq True t(1) by simp
      have "cluster_buf s1 = cluster_data view s c"
        using clusters.rd_buf [OF v] rd True by simp
      then have buf: "take (cluster_bytes_size s) (g_cluster_buffer s1) = cluster_data view s c"
        by (simp add: cluster_buf_def csz1)
      have same: "chain_data view s1 xs = chain_data view s xs" using cd by (intro chain_data_cong) simp
      define all where "all = take (unat remaining) (chain_data view s (x # xs))"
      have "take (cluster_bytes_size s) all = piece"
        unfolding all_def using buf chunk x(1) lenc by (auto simp: piece_def min_def take_take)
          (metis min.absorb1 nat_le_linear take_take)
      moreover have "drop (cluster_bytes_size s) all = take (unat (remaining - chunk)) (chain_data view s xs)"
        unfolding all_def using chunk rem x(1) lenc by (simp add: drop_take min_def)
      moreover have "all \<noteq> []" unfolding all_def using pos(2) lenc x(1) vol_csize [OF v] by auto
      moreover have "of_nat (length piece) = chunk"
      proof -
        have "length (g_cluster_buffer s1) = 4096"
          using v1 by (simp add: vol_ok_def FAT32_MAX_CLUSTER_SECTORS_def SECTOR_def)
        then have "length piece = unat chunk"
          using chunk vol_csize [OF v] by (simp add: piece_def min_def)
        then show ?thesis by simp
      qed
      ultimately have "feed callback (pieces (length (x # xs)) (cluster_bytes_size s) all) ctx =
          feed callback (pieces (length xs) (cluster_bytes_size s)
            (take (unat (remaining - chunk)) (chain_data view s xs))) ctx1"
        using cb True by simp
      then show ?thesis
        using run t io_frame_trans [OF fr t(3)] unfolding all_def by (simp add: same)
    qed
  qed
qed


definition collect :: "bytes \<Rightarrow> u32 \<Rightarrow> bytes \<Rightarrow> bool \<times> bytes" where
  "collect piece len acc = (True, acc @ piece)"

lemma feed_collect: "feed collect bs acc = (True, acc @ concat bs)"
  by (induction bs arbitrary: acc) (simp_all add: collect_def)


subsection \<open>Growing a chain\<close>

text \<open>\<open>n\<close> more zeroed clusters at the end of the chain \<open>cs\<close>; nothing else changes but its last link.\<close>

definition grown :: "('d \<Rightarrow> nat \<Rightarrow> bytes) \<Rightarrow> 'd fat_state \<Rightarrow> u32 \<Rightarrow> u32 list \<Rightarrow> nat \<Rightarrow> 'd fat_state \<Rightarrow> bool" where
  "grown view s c cs n t \<longleftrightarrow> (\<exists>new. length new = n \<and> set new \<subseteq> free_clusters s \<and> chain t c (cs @ new) \<and>
     (\<forall>x. x \<notin> set new \<and> x \<noteq> last cs \<longrightarrow> g_fat t x = g_fat s x) \<and>
     (\<forall>x. cluster_data view t x = (if x \<in> set new then zeros s else cluster_data view s x)))"

lemma append_zero_spec:
  assumes v: "vol_ok view s" and ch: "chain s c cs" "cs \<noteq> []"
    and app: "append_cluster_to_chain c s = Some (FAT32_OK, f, s1)" and z: "zero_cluster f s1 = (r, s2)"
  shows "vol_ok view s2 \<and> io_frame s1 s2 \<and> f \<in> free_clusters s \<and> chain s2 c (cs @ [f]) \<and>
    g_fat s2 = (g_fat s)(f := FAT32_END_OF_CHAIN, last cs := f) \<and> free_clusters s2 = free_clusters s - {f} \<and>
    zeros s2 = zeros s \<and> (r = FAT32_OK \<or> r = FAT32_IO_ERROR) \<and>
    (r = FAT32_OK \<longrightarrow> cluster_data view s2 = (cluster_data view s)(f := zeros s))"
proof (rule append_cluster_cases [OF vol_bounded [OF v] ch])
  assume "append_cluster_to_chain c s = Some (FAT32_NO_SPACE, 0, s)"
  with app show ?thesis by simp
next
  fix f'
  assume f: "f' \<in> free_clusters s"
    and eq: "append_cluster_to_chain c s =
        Some (FAT32_OK, f', with_fat ((g_fat s)(f' := FAT32_END_OF_CHAIN, last cs := f')) s)"
      "chain (with_fat ((g_fat s)(f' := FAT32_END_OF_CHAIN, last cs := f')) s) c (cs @ [f'])"
  have ff: "f' = f" and s1: "s1 = with_fat ((g_fat s)(f := FAT32_END_OF_CHAIN, last cs := f)) s"
    using app eq(1) by auto
  have v1: "vol_ok view s1" "cluster_data view s1 = cluster_data view s" "zeros s1 = zeros s"
    using v by (simp_all add: s1 zeros_def)
  note zs = zero_cluster_spec [OF v1(1) z]
  then have fr: "io_frame s1 s2" by blast
  have "chain s2 c (cs @ [f])"
    using eq(2) io_frame_chain [OF fr] by (simp only: s1 ff)
  moreover have g: "g_fat s2 = (g_fat s)(f := FAT32_END_OF_CHAIN, last cs := f)"
    using io_frame_simps(1) [OF fr] by (simp only: s1 with_fat_simps)
  moreover have "free_clusters s2 = free_clusters s - {f}"
  proof -
    have "f \<noteq> 0" using f ff by (auto simp: free_clusters_def is_valid_data_cluster_def)
    moreover have "g_fat s (last cs) \<noteq> 0" using chain_used [OF ch(1)] ch(2) by simp
    moreover have "FAT32_END_OF_CHAIN \<noteq> 0" by (simp add: FAT32_END_OF_CHAIN_def)
    ultimately show ?thesis
      using io_frame_valid [OF fr] unfolding free_clusters_def g
      by (auto simp: s1 split: if_splits)
  qed
  moreover have "zeros s2 = zeros s" using io_frame_csize [OF fr] v1(3) by (simp add: zeros_def)
  ultimately show ?thesis using zs f ff v1 by auto
qed

lemma extend_loop_spec:
  assumes "vol_ok view s" and "chain s c cs" and "cs \<noteq> []"
  shows "\<exists>r t. extend_loop n c s = Some (r, t) \<and> vol_ok view t \<and>
    r \<in> {FAT32_OK, FAT32_NO_SPACE, FAT32_IO_ERROR} \<and>
    (r = FAT32_OK \<longrightarrow> grown view s c cs n t) \<and> (r = FAT32_NO_SPACE \<longrightarrow> card (free_clusters s) < n)"
  using assms
proof (induction n arbitrary: s cs)
  case 0
  then show ?case by (auto simp: grown_def)
next
  case (Suc n)
  note v = Suc.prems(1) and ch = Suc.prems(2,3)
  show ?case
  proof (rule append_cluster_cases [OF vol_bounded [OF v] ch])
    assume "append_cluster_to_chain c s = Some (FAT32_NO_SPACE, 0, s)" "free_clusters s = {}"
    then show ?thesis using v by simp
  next
    fix f
    assume eq: "append_cluster_to_chain c s =
        Some (FAT32_OK, f, with_fat ((g_fat s)(f := FAT32_END_OF_CHAIN, last cs := f)) s)"
    define s1 where "s1 = with_fat ((g_fat s)(f := FAT32_END_OF_CHAIN, last cs := f)) s"
    have app: "append_cluster_to_chain c s = Some (FAT32_OK, f, s1)" using eq by (simp only: s1_def)
    obtain r2 s2 where z: "zero_cluster f s1 = (r2, s2)" by fastforce
    note az = append_zero_spec [OF v ch app z]
    have run: "extend_loop (Suc n) c s = (if r2 \<noteq> FAT32_OK
        then Some (r2, fat32_set_cluster f 0 s2) else extend_loop n c s2)"
      using app z by simp
    show ?thesis
    proof (cases "r2 = FAT32_OK")
      case False
      have "vol_ok view (fat32_set_cluster f 0 s2)"
        using az set_cluster_with_fat [of f s2 0] by (cases "is_valid_data_cluster f s2")
          (auto simp: fat32_set_cluster_def)
      then show ?thesis using run False az by auto
    next
      case True
      have s2: "vol_ok view s2" "chain s2 c (cs @ [f])" "zeros s2 = zeros s" "f \<in> free_clusters s"
        "free_clusters s2 = free_clusters s - {f}" "cluster_data view s2 = (cluster_data view s)(f := zeros s)"
        "g_fat s2 = (g_fat s)(f := FAT32_END_OF_CHAIN, last cs := f)"
        using az True by auto
      have card: "card (free_clusters s) = Suc (card (free_clusters s2))"
        using card_Suc_Diff1 [OF finite_clusters s2(4)] by (simp only: s2(5))
      obtain r t where IH: "extend_loop n c s2 = Some (r, t)" "vol_ok view t"
          "r \<in> {FAT32_OK, FAT32_NO_SPACE, FAT32_IO_ERROR}" "r = FAT32_OK \<longrightarrow> grown view s2 c (cs @ [f]) n t"
          "r = FAT32_NO_SPACE \<longrightarrow> card (free_clusters s2) < n"
        using Suc.IH [OF s2(1,2)] by auto
      have "grown view s c cs (Suc n) t" if ok: "r = FAT32_OK"
      proof -
        obtain new where new: "length new = n" "set new \<subseteq> free_clusters s2" "chain t c (cs @ f # new)"
            "\<forall>x. x \<notin> set new \<and> x \<noteq> f \<longrightarrow> g_fat t x = g_fat s2 x"
            "\<forall>x. cluster_data view t x = (if x \<in> set new then zeros s else cluster_data view s2 x)"
          using IH(4) ok s2(3) by (auto simp: grown_def)
        show ?thesis unfolding grown_def
        proof (intro exI [of _ "f # new"] conjI allI impI)
          show "set (f # new) \<subseteq> free_clusters s" using new(2) s2(4,5) by auto
          show "g_fat t x = g_fat s x" if "x \<notin> set (f # new) \<and> x \<noteq> last cs" for x
            using that new(4) s2(7) by simp
          show "cluster_data view t x = (if x \<in> set (f # new) then zeros s else cluster_data view s x)" for x
            using new(5) s2(6) by simp
        qed (use new in simp_all)
      qed
      then show ?thesis using run True IH card by simp
    qed
  qed
qed


text \<open>C20: growing a file of at least one cluster to \<open>required\<close> clusters always returns; on \<open>FAT32_OK\<close> the
  old chain is a prefix of the new one, the clusters added were free and are zeroed, and no other
  FAT entry than the old last link, and no other cluster, has changed.\<close>

theorem ensure_cluster_chain_length_grows:
  assumes v: "vol_ok view s" and ch: "chain s c cs" and len: "length cs = unat current" "current \<noteq> 0"
    and more: "current < required"
  shows "\<exists>r t. ensure_cluster_chain_length c current required s = Some (r, c, t) \<and> vol_ok view t \<and>
    r \<in> {FAT32_OK, FAT32_NO_SPACE, FAT32_IO_ERROR} \<and>
    (r = FAT32_OK \<longrightarrow> grown view s c cs (unat required - unat current) t) \<and>
    (r = FAT32_NO_SPACE \<longrightarrow> card (free_clusters s) < unat required - unat current)"
proof -
  have "cs \<noteq> []" using len by (auto simp: unat_eq_0)
  from extend_loop_spec [OF v ch this, of "unat required - unat current"] show ?thesis
    using len(2) more by (auto simp: ensure_cluster_chain_length_def not_le)
qed

text \<open>C16: trimming a chain to \<open>required_count\<close> clusters keeps exactly its first ones, as a chain of
  their own, and gives every other cluster of it, and nothing else, back to the free clusters.\<close>

theorem trim_cluster_chain_keeps_prefix:
  assumes b: "fat_bounded s" and ch: "chain s c cs" and n: "0 < unat n" "unat n \<le> length cs"
  shows "\<exists>t. trim_cluster_chain c n s = (FAT32_OK, c, t) \<and> chain t c (take (unat n) cs) \<and>
    free_clusters t = free_clusters s \<union> set (drop (unat n) cs) \<and>
    (\<forall>x. x \<notin> set cs \<longrightarrow> g_fat t x = g_fat s x)"
proof -
  let ?x = "cs ! (unat n - 1)"
  define t where "t = with_fat (\<lambda>x. if x = ?x then FAT32_END_OF_CHAIN
      else if x \<in> set (drop (unat n) cs) then 0 else g_fat s x) s"
  note tr = trim_cluster_chain_eq [OF b ch n, folded t_def]
  have idx: "unat n - 1 < length cs" "Suc (unat n - 1) = unat n" using n by auto
  have x: "?x \<in> set cs" using idx by simp
  have xd: "?x \<notin> set (drop (unat n) cs)"
    using chain_distinct [OF b ch] id_take_nth_drop [OF idx(1)] idx(2)
    by (metis distinct.simps(2) distinct_append)
  have vals: "g_fat t y = (if y = ?x then FAT32_END_OF_CHAIN
      else if y \<in> set (drop (unat n) cs) then 0 else g_fat s y)" for y
    unfolding t_def by simp
  have "g_fat t y = g_fat s y" if "y \<notin> set cs" for y
    using that x in_set_dropD [of y "unat n" cs] unfolding vals by auto
  moreover have "free_clusters t = free_clusters s \<union> set (drop (unat n) cs)"
  proof -
    have "is_valid_data_cluster y t = is_valid_data_cluster y s" for y unfolding t_def by simp
    moreover have "g_fat s ?x \<noteq> 0" using chain_used [OF ch x] .
    moreover have "FAT32_END_OF_CHAIN \<noteq> 0" by (simp add: FAT32_END_OF_CHAIN_def)
    moreover have "y \<in> set (drop (unat n) cs) \<Longrightarrow> is_valid_data_cluster y s" for y
      using chain_valid [OF ch in_set_dropD] .
    ultimately show ?thesis
      using xd unfolding free_clusters_def vals by (auto split: if_splits)
  qed
  ultimately show ?thesis using tr by blast
qed

subsection \<open>A small volume\<close>

text \<open>Six data clusters of one sector: the root directory at 2, a file on 3 and 4, the rest free.\<close>

definition demo_fat :: "u32 \<Rightarrow> u32" where
  "demo_fat c = (if c = 2 then 0x0FFFFFFF else if c = 3 then 4 else if c = 4 then 0x0FFFFFFF else 0)"

definition demo_vol :: "ramdisk fat_state" where
  "demo_vol = \<lparr>g_fat = demo_fat, g_sector_buffer = replicate 512 0, g_cluster_buffer = replicate 4096 0,
     g_mounted = True, g_bytes_per_sector = 512, g_sectors_per_cluster = 1, g_fat_count = 1,
     g_reserved_sectors = 32, g_sectors_per_fat = 1, g_partition_lba = 0, g_root_cluster = 2,
     g_data_lba = 33, g_cluster_size = 512, g_total_clusters = 8, g_fat_lba = 32,
     g_block_device = ram_device, g_disk = (\<lambda>l. replicate 512 0)\<rparr>"

lemma demo_vol_ok: "vol_ok ram_view demo_vol"
  by (simp add: vol_ok_def demo_vol_def ram_device_law geometry_ok_def fat_bounded_def spc_def
      is_valid_data_cluster_def FAT32_MAX_CLUSTER_SECTORS_def SECTOR_def)

lemma demo_chain: "chain demo_vol 3 [3, 4]"
  by (simp add: demo_vol_def demo_fat_def fat32_next_cluster_def is_valid_data_cluster_def
      FAT32_END_OF_CHAIN_def)

lemma demo_csize: "cluster_bytes_size demo_vol = 512"
  by (simp add: demo_vol_def cluster_bytes_size_def)

text \<open>Transfers to a RAM disk succeed.\<close>

lemma ram_write_cluster:
  "g_block_device s = ram_device \<Longrightarrow> cluster_io_ok c s \<Longrightarrow> fst (write_cluster c s)"
  by (simp add: write_cluster_def block_write_sectors_def ram_device_def ram_write_def Let_def)

lemma demo_free: "free_clusters demo_vol = {5, 6, 7}"
proof -
  have "c \<in> {5, 6, 7}" if "\<not> c < 2" "c < 8" "demo_fat c = 0" for c :: u32
  proof -
    have "unat c < 8" "2 \<le> unat c" using that by (simp_all add: word_less_nat_alt)
    then have "unat c \<in> {2, 3, 4, 5, 6, 7}" by auto
    then have "c \<in> {2, 3, 4, 5, 6, 7}" by (auto simp: word_unat_eq_iff)
    then show ?thesis using that(3) by (auto simp: demo_fat_def)
  qed
  then have "free_clusters demo_vol \<subseteq> {5, 6, 7}"
    unfolding free_clusters_def by (auto simp: demo_vol_def is_valid_data_cluster_def not_less)
  moreover have "{5, 6, 7} \<subseteq> free_clusters demo_vol"
    by (simp add: free_clusters_def demo_vol_def is_valid_data_cluster_def demo_fat_def)
  ultimately show ?thesis by blast
qed


theorem write_data_to_chain_blits_witness:
  "\<exists>r t. write_data_to_chain 3 500 (replicate 40 7) 40 demo_vol = Some (r, t) \<and>
     (r = FAT32_OK \<longrightarrow> chain_data ram_view t [3, 4] =
        blit (chain_data ram_view demo_vol [3, 4]) 500 (replicate 40 7))"
  using write_data_to_chain_blits [OF demo_vol_ok demo_chain, of "replicate 40 7" 40 500]
  by (fastforce simp: demo_csize)

theorem find_free_cluster_least_witness:
  "find_free_cluster demo_vol = 5 \<and> (5::u32) \<in> free_clusters demo_vol"
proof -
  have a: "find_free_cluster demo_vol = 5"
    by (simp add: find_free_cluster_def find_free_from.simps demo_vol_def demo_fat_def)
  then show ?thesis using find_free_cluster_least [of demo_vol] by simp
qed

theorem ensure_cluster_chain_length_grows_witness:
  "\<exists>r t. ensure_cluster_chain_length 3 2 4 demo_vol = Some (r, 3, t) \<and>
     (r = FAT32_OK \<longrightarrow> grown ram_view demo_vol 3 [3, 4] 2 t) \<and> r \<noteq> FAT32_NO_SPACE"
  using ensure_cluster_chain_length_grows [OF demo_vol_ok demo_chain, of 2 4] by (auto simp: demo_free)

theorem trim_cluster_chain_keeps_prefix_witness:
  "\<exists>t. trim_cluster_chain 3 1 demo_vol = (FAT32_OK, 3, t) \<and> chain t 3 [3] \<and>
     free_clusters t = {4, 5, 6, 7}"
  using trim_cluster_chain_keeps_prefix [OF vol_bounded [OF demo_vol_ok] demo_chain, of 1]
  by (auto simp: demo_free)


lemma demo_write: "\<exists>t. write_data_to_chain 3 0 [1, 2, 3] 3 demo_vol = Some (FAT32_OK, t)"
proof -
  obtain s1 where rd: "read_cluster 3 demo_vol = (True, s1)"
    by (auto simp: read_cluster_def demo_vol_def cluster_io_ok_def is_valid_data_cluster_def
        FAT32_MAX_CLUSTER_SECTORS_def block_read_sectors_def ram_device_def ram_read_def Let_def)
  have s1: "io_frame demo_vol s1" "vol_ok ram_view s1"
    using clusters.rd_frame [OF demo_vol_ok rd] by blast+
  let ?s2 = "s1\<lparr>g_cluster_buffer := blit (g_cluster_buffer s1) 0 [1, 2, 3]\<rparr>"
  have geo: "g_block_device s1 = ram_device" "g_cluster_size s1 = 512"
      "is_valid_data_cluster 3 s1" "g_sectors_per_cluster s1 = 1"
    using io_frame_simps [OF s1(1)] io_frame_valid [OF s1(1), of 3]
    by (simp_all add: demo_vol_def is_valid_data_cluster_def)
  have "fst (write_cluster 3 ?s2)"
    using geo by (intro ram_write_cluster)
      (simp_all add: cluster_io_ok_def is_valid_data_cluster_def FAT32_MAX_CLUSTER_SECTORS_def)
  then obtain t where wr: "write_cluster 3 ?s2 = (True, t)" by (cases "write_cluster 3 ?s2") auto
  have "get_cluster_at_index 3 0 demo_vol = 3" "g_cluster_size demo_vol = 512" "in_chain 3"
    by (simp_all add: get_cluster_at_index_def demo_vol_def in_chain_def FAT32_END_OF_CHAIN_def)
  then show ?thesis
    using rd wr geo(2) by (simp add: write_data_to_chain_def write_data_loop.simps [of 3] Let_def)
qed


subsection \<open>A failed grow leaves a dangling link\<close>

text \<open>
  When zeroing the appended cluster fails, \<open>ensure_cluster_chain_length\<close> marks that cluster free but
  leaves the link to it in the chain: the next allocation, for any file, takes a cluster the chain
  still points to.
\<close>

definition readonly_vol :: "ramdisk fat_state" where
  "readonly_vol = demo_vol\<lparr>g_block_device := ram_device\<lparr>write_sectors_fn := None\<rparr>\<rparr>"

lemma failed_grow_dangling_link:
  "\<exists>t. ensure_cluster_chain_length 3 2 3 readonly_vol = Some (FAT32_IO_ERROR, 3, t) \<and>
     fat32_next_cluster 4 t = 5 \<and> find_free_cluster t = 5"
proof -
  have find: "find_free_cluster readonly_vol = 5"
    by (simp add: find_free_cluster_def find_free_from.simps readonly_vol_def demo_vol_def demo_fat_def)
  define s1 where "s1 = with_fat (demo_fat(5 := FAT32_END_OF_CHAIN, 4 := 5)) readonly_vol"
  have app: "append_cluster_to_chain 3 readonly_vol = Some (FAT32_OK, 5, s1)"
    by (simp add: append_cluster_to_chain_def find Let_def)
      (simp add: chain_last.simps [of 3] chain_last.simps [of 4] Let_def fat32_next_cluster_def
        fat32_set_cluster_def is_valid_data_cluster_def readonly_vol_def demo_vol_def demo_fat_def
        in_chain_def FAT32_END_OF_CHAIN_def s1_def with_fat_def)
  have z: "zero_cluster 5 s1 = (FAT32_IO_ERROR, clear_cluster_buffer s1)"
    by (simp add: zero_cluster_def write_cluster_def block_write_sectors_def clear_cluster_buffer_def
        s1_def with_fat_def readonly_vol_def ram_device_def Let_def)
  let ?t = "fat32_set_cluster 5 0 (clear_cluster_buffer s1)"
  have run: "ensure_cluster_chain_length 3 2 3 readonly_vol = Some (FAT32_IO_ERROR, 3, ?t)"
    by (simp add: ensure_cluster_chain_length_def app z)
  have fat: "g_fat ?t = demo_fat(5 := 0, 4 := 5)" "g_total_clusters ?t = 8"
    by (auto simp: fat32_set_cluster_def is_valid_data_cluster_def clear_cluster_buffer_def s1_def
        with_fat_def readonly_vol_def demo_vol_def)
  have "fat32_next_cluster 4 ?t = 5"
    unfolding fat32_next_cluster_def is_valid_data_cluster_def fat by simp
  moreover have "find_free_cluster ?t = 5"
    by (simp add: find_free_cluster_def find_free_from.simps fat demo_fat_def)
  ultimately show ?thesis using run by blast
qed

end
