(* ===== verification/FatMount.thy ===== *)
theory FatMount
  imports FatData
begin

text \<open>
  \<open>fat32_mount\<close> and \<open>flush_fat\<close>: transfers in chunks equal one transfer, flushing puts the FAT in
  every copy, mounting establishes the volume invariant, and a flushed FAT is mounted unchanged.
\<close>

subsection \<open>Chunked transfers\<close>

lemma read_sectors_spec:
  assumes "disk_law blk view" and "read_sectors blk lba count out d = (ok, out', d')"
    and "length out = unat count * SECTOR" and "unat lba + unat count < 2 ^ 32"
  shows "length out' = length out \<and> view d' = view d \<and>
    (ok \<longrightarrow> out' = sectors view d (unat lba) (unat count))"
  using assms
proof (induction blk lba count out d arbitrary: ok out' d' rule: read_sectors.induct)
  case (1 blk lba count out d)
  show ?case
  proof (cases "count = 0")
    case True
    then have "(ok, out', d') = (True, out, d)"
      using "1.prems"(2) by (simp add: read_sectors.simps [of blk lba 0])
    then show ?thesis using "1.prems"(3) True by (simp add: sectors_def)
  next
    case False
    define chunk where "chunk = chunk_of count"
    define n where "n = unat chunk * SECTOR"
    have nn: "unat chunk * FAT32_SECTOR_SIZE = n" by (simp add: n_def FAT32_SECTOR_SIZE_def SECTOR_def)
    note step = chunk_step [OF False, folded chunk_def]
    obtain ok1 part d1 where rd: "block_read_sectors blk lba chunk (take n out) d = (ok1, part, d1)"
      by (metis prod_cases3)
    have n: "n \<le> length out" using "1.prems"(3) step(3) by (simp add: n_def)
    then have tl: "length (take n out) = unat chunk * SECTOR" by (simp add: n_def)
    note disk = disk_read [OF "1.prems"(1) rd tl]
    obtain ok2 rest d2 where rec: "read_sectors blk (lba + ucast chunk) (count - ucast chunk) (drop n out) d1
        = (ok2, rest, d2)"
      by (metis prod_cases3)
    have run: "(ok, out', d') = (if \<not> ok1 then (False, part @ drop n out, d1) else (ok2, part @ rest, d2))"
    proof -
      have c: "(count \<noteq> 0) = True" using False by simp
      show ?thesis
        unfolding "1.prems"(2) [symmetric] read_sectors.simps [of blk lba count out d] c if_True Let_def
          chunk_def [symmetric] nn rd prod.case rec ..
    qed
    show ?thesis
    proof (cases ok1)
      case False
      then show ?thesis using run disk n by simp
    next
      case True
      have lba: "unat (lba + ucast chunk) = unat lba + unat chunk"
        using "1.prems"(4) step(3) by (simp add: unat_add_small)
      have IH: "length rest = length (drop n out) \<and> view d2 = view d1 \<and>
          (ok2 \<longrightarrow> rest = sectors view d1 (unat (lba + ucast chunk)) (unat (count - ucast chunk)))"
        by (rule "1.IH" [OF False chunk_def nn [symmetric] refl rd [symmetric] refl _ "1.prems"(1) rec])
          (use True "1.prems"(3,4) step lba in \<open>simp_all add: n_def diff_mult_distrib\<close>)
      have "sectors view d (unat lba) (unat count) =
          sectors view d (unat lba) (unat chunk) @ sectors view d (unat lba + unat chunk) (unat count - unat chunk)"
        using sectors_append [of view d "unat lba" "unat chunk" "unat count - unat chunk"] step(3) by simp
      moreover have "sectors view d1 = sectors view d"
        using disk(2) by (intro ext) (simp add: sectors_def)
      ultimately show ?thesis using IH True run disk n lba step(1) by auto
    qed
  qed
qed


lemma write_sectors_spec:
  assumes "disk_law blk view" and "write_sectors blk lba count data d = (ok, d')"
    and "length data = unat count * SECTOR" and "unat lba + unat count < 2 ^ 32"
  shows "(\<forall>l. l < unat lba \<or> unat lba + unat count \<le> l \<longrightarrow> view d' l = view d l) \<and>
    (ok \<longrightarrow> sectors view d' (unat lba) (unat count) = data)"
  using assms
proof (induction blk lba count data d arbitrary: ok d' rule: write_sectors.induct)
  case (1 blk lba count data d)
  show ?case
  proof (cases "count = 0")
    case True
    then have "(ok, d') = (True, d)"
      using "1.prems"(2) by (simp add: write_sectors.simps [of blk lba 0])
    then show ?thesis using "1.prems"(3) True by (simp add: sectors_def)
  next
    case False
    define chunk where "chunk = chunk_of count"
    define n where "n = unat chunk * SECTOR"
    have nn: "unat chunk * FAT32_SECTOR_SIZE = n" by (simp add: n_def FAT32_SECTOR_SIZE_def SECTOR_def)
    note step = chunk_step [OF False, folded chunk_def]
    obtain ok1 d1 where wr: "block_write_sectors blk lba chunk (take n data) d = (ok1, d1)" by fastforce
    have n: "n \<le> length data" using "1.prems"(3) step(3) by (simp add: n_def)
    then have tl: "length (take n data) = unat chunk * SECTOR" by (simp add: n_def)
    note disk = disk_write [OF "1.prems"(1) wr tl]
    obtain ok2 d2 where rec: "write_sectors blk (lba + ucast chunk) (count - ucast chunk) (drop n data) d1
        = (ok2, d2)" by fastforce
    have run: "(ok, d') = (if \<not> ok1 then (False, d1) else (ok2, d2))"
    proof -
      have c: "(count \<noteq> 0) = True" using False by simp
      show ?thesis
        unfolding "1.prems"(2) [symmetric] write_sectors.simps [of blk lba count data d] c if_True Let_def
          chunk_def [symmetric] nn wr prod.case rec ..
    qed
    show ?thesis
    proof (cases ok1)
      case False
      then show ?thesis using run disk(1) step(3) by auto
    next
      case True
      have lba: "unat (lba + ucast chunk) = unat lba + unat chunk"
        using "1.prems"(4) step(3) by (simp add: unat_add_small)
      have IH: "(\<forall>l. l < unat (lba + ucast chunk) \<or>
            unat (lba + ucast chunk) + unat (count - ucast chunk) \<le> l \<longrightarrow> view d2 l = view d1 l) \<and>
          (ok2 \<longrightarrow> sectors view d2 (unat (lba + ucast chunk)) (unat (count - ucast chunk)) = drop n data)"
        by (rule "1.IH" [OF False chunk_def nn [symmetric] refl wr [symmetric] _ "1.prems"(1) rec])
          (use True "1.prems"(3,4) step lba in \<open>simp_all add: n_def diff_mult_distrib\<close>)
      have "sectors view d2 (unat lba) (unat count) =
          sectors view d2 (unat lba) (unat chunk) @ sectors view d2 (unat lba + unat chunk) (unat count - unat chunk)"
        using sectors_append [of view d2 "unat lba" "unat chunk" "unat count - unat chunk"] step(3) by simp
      moreover have "sectors view d2 (unat lba) (unat chunk) = sectors view d1 (unat lba) (unat chunk)"
        using IH lba by (intro sectors_cong) auto
      ultimately have "ok2 \<longrightarrow> sectors view d2 (unat lba) (unat count) = data"
        using IH disk(2) True lba step(1) by simp
      moreover have "view d2 l = view d l" if "l < unat lba \<or> unat lba + unat count \<le> l" for l
        using that IH disk(1) [of l] lba step(1,3) by auto
      ultimately show ?thesis using True run by simp
    qed
  qed
qed

subsection \<open>The FAT as bytes\<close>

lemma length_fat_image [simp]: "length (fat_image n fat) = n * SECTOR"
proof -
  have "length (concat (map (\<lambda>i. le32 (fat (of_nat i))) xs)) = length xs * 4" for xs
    by (induction xs) simp_all
  then show ?thesis by (simp add: fat_image_def SECTOR_def)
qed

lemma fat_image_nth:
  assumes "i < n * 128" and "k < 4"
  shows "fat_image n fat ! (i * 4 + k) = le32 (fat (of_nat i)) ! k"
proof -
  have "concat (map (\<lambda>i. le32 (fat (of_nat i))) [a..<a + m]) ! (i * 4 + k) = le32 (fat (of_nat (a + i))) ! k"
    if "i < m" for a m
    using that
  proof (induction m arbitrary: a i)
    case (Suc m)
    have "[a..<a + Suc m] = a # [Suc a..<Suc a + m]" by (simp add: upt_conv_Cons)
    then show ?case
      using Suc.IH [of "i - 1" "Suc a"] Suc.prems assms(2)
      by (cases i) (simp_all add: nth_append algebra_simps)
  qed simp
  from this [of "n * 128" 0] assms(1) show ?thesis by (simp add: fat_image_def)
qed

lemma fat_load_image:
  assumes "unat c < n * 128"
  shows "fat_load (fat_image n fat) g c = fat c"
proof -
  have "unat c * 4 + 3 < n * SECTOR" using assms by (simp add: SECTOR_def)
  moreover have "le32_at (fat_image n fat) (unat c * 4) = fat c"
    using fat_image_nth [OF assms, of 0 fat] fat_image_nth [OF assms, of 1 fat]
      fat_image_nth [OF assms, of 2 fat] fat_image_nth [OF assms, of 3 fat] of_le32_le32 [of "fat c"]
    by (simp add: le32_at_def)
  ultimately show ?thesis by (simp add: fat_load_def)
qed

subsection \<open>Flushing\<close>

lemma flush_fat_loop_spec:
  assumes law: "disk_law (g_block_device s) view"
    and room: "unat (g_fat_lba s) + (unat i + n) * unat (g_sectors_per_fat s) < 2 ^ 32" "unat i + n < 2 ^ 32"
    and run: "flush_fat_loop n i s = (ok, t)"
  shows "t = s\<lparr>g_disk := g_disk t\<rparr> \<and>
    (\<forall>l. l < unat (g_fat_lba s) \<or> unat (g_fat_lba s) + (unat i + n) * unat (g_sectors_per_fat s) \<le> l \<longrightarrow>
       view (g_disk t) l = view (g_disk s) l) \<and>
    (\<forall>l. l < unat (g_fat_lba s) + unat i * unat (g_sectors_per_fat s) \<longrightarrow>
       view (g_disk t) l = view (g_disk s) l) \<and>
    (ok \<longrightarrow> (\<forall>k. unat i \<le> k \<and> k < unat i + n \<longrightarrow>
       sectors view (g_disk t) (unat (g_fat_lba s) + k * unat (g_sectors_per_fat s)) (unat (g_sectors_per_fat s))
       = fat_image (unat (g_sectors_per_fat s)) (g_fat s)))"
  using assms
proof (induction n arbitrary: i s)
  case 0
  then show ?case by auto
next
  case (Suc n)
  define F where "F = unat (g_fat_lba s)"
  define w where "w = unat (g_sectors_per_fat s)"
  define img where "img = fat_image w (g_fat s)"
  define lba where "lba = g_fat_lba s + i * g_sectors_per_fat s"
  have total: "F + unat i * w + w + n * w < 2 ^ 32"
    using Suc.prems(2) by (simp add: F_def w_def algebra_simps)
  have "unat (i * g_sectors_per_fat s) = unat i * w"
    using total by (subst unat_mult_small) (simp_all add: w_def)
  then have lba: "unat lba = F + unat i * w"
    unfolding lba_def using total by (subst unat_add_small) (simp_all add: F_def)
  obtain ok1 d where wr: "write_sectors (g_block_device s) lba (g_sectors_per_fat s) img (g_disk s) = (ok1, d)"
    by fastforce
  have fits: "length img = unat (g_sectors_per_fat s) * SECTOR"
    "unat lba + unat (g_sectors_per_fat s) < 2 ^ 32"
    using total lba by (simp_all add: img_def w_def [symmetric])
  note ws = write_sectors_spec [OF Suc.prems(1) wr fits, unfolded lba, folded w_def]
  let ?s = "s\<lparr>g_disk := d\<rparr>"
  have run: "(if \<not> ok1 then (False, ?s) else flush_fat_loop n (i + 1) ?s) = (ok, t)"
    using Suc.prems(4) wr by (simp add: Let_def lba_def img_def w_def)
  show ?case
  proof (cases ok1)
    case False
    then have "ok = False" "t = ?s" using run by simp_all
    then show ?thesis
      using ws by (auto simp: F_def [symmetric] w_def [symmetric] algebra_simps)
  next
    case True
    have i1: "unat (i + 1) = Suc (unat i)" using Suc.prems(3) by (simp add: unat_Suc_small)
    have rec: "flush_fat_loop n (i + 1) ?s = (ok, t)" using run True by simp
    have IH: "t = s\<lparr>g_disk := g_disk t\<rparr> \<and>
      (\<forall>l. l < F \<or> F + (Suc (unat i) + n) * w \<le> l \<longrightarrow> view (g_disk t) l = view d l) \<and>
      (\<forall>l. l < F + Suc (unat i) * w \<longrightarrow> view (g_disk t) l = view d l) \<and>
      (ok \<longrightarrow> (\<forall>k. Suc (unat i) \<le> k \<and> k < Suc (unat i) + n \<longrightarrow>
         sectors view (g_disk t) (F + k * w) w = img))"
      using Suc.IH [of ?s "i + 1", OF _ _ _ rec] Suc.prems(1,2,3) i1
      by (simp add: F_def w_def img_def)
    have first: "sectors view (g_disk t) (F + unat i * w) w = img"
    proof -
      have "sectors view (g_disk t) (F + unat i * w) w = sectors view d (F + unat i * w) w"
        using IH by (intro sectors_cong) (auto simp: algebra_simps)
      then show ?thesis using ws True by simp
    qed
    have "sectors view (g_disk t) (F + k * w) w = img" if "ok" "unat i \<le> k" "k < unat i + Suc n" for k
      using that IH first by (cases "k = unat i") auto
    moreover have "view (g_disk t) l = view (g_disk s) l"
      if "l < F \<or> F + (unat i + Suc n) * w \<le> l" for l
      using that IH ws by (auto simp: algebra_simps)
    moreover have "view (g_disk t) l = view (g_disk s) l" if "l < F + unat i * w" for l
      using that IH ws by (auto simp: algebra_simps)
    ultimately show ?thesis
      using IH by (simp add: F_def [symmetric] w_def [symmetric] img_def [symmetric])
  qed
qed

lemma flush_fat_writes_every_copy_lemma:
  assumes v: "vol_ok view s" and run: "flush_fat s = (ok, t)"
  shows "vol_ok view t \<and> g_sector_buffer t = g_sector_buffer s \<and>
    g_block_device t = g_block_device s \<and> g_fat t = g_fat s \<and> cluster_data view t = cluster_data view s \<and>
    (\<forall>l. l < unat (g_fat_lba s) \<longrightarrow> view (g_disk t) l = view (g_disk s) l) \<and>
    (ok \<longrightarrow> (\<forall>k < unat (g_fat_count s).
       sectors view (g_disk t) (unat (g_fat_lba s) + k * unat (g_sectors_per_fat s))
         (unat (g_sectors_per_fat s)) = fat_image (unat (g_sectors_per_fat s)) (g_fat s)))"
proof -
  have g: "geometry_ok s" and law: "disk_law (g_block_device s) view" using v by (simp_all add: vol_ok_def)
  have below: "unat (g_fat_lba s) + unat (g_fat_count s) * unat (g_sectors_per_fat s) \<le> unat (g_data_lba s)"
    using g by (simp add: geometry_ok_def)
  then have small: "unat (g_fat_lba s) + (unat (0 :: u32) + unat (g_fat_count s)) * unat (g_sectors_per_fat s) < 2 ^ 32"
    using unat_u32_bound [of "g_data_lba s"] by simp
  have "unat (0 :: u32) + unat (g_fat_count s) < 2 ^ 32"
    using unat_u8_bound [of "g_fat_count s"] by simp
  note fl = flush_fat_loop_spec [OF law small this, of ok t]
  have t: "t = s\<lparr>g_disk := g_disk t\<rparr>" using fl run by (simp add: flush_fat_def)
  have fr: "io_frame s t"
    by (subst t, unfold io_frame_def) (intro exI [of _ "g_cluster_buffer s"] exI [of _ "g_disk t"], simp)
  have "view (g_disk t) l = view (g_disk s) l" if "unat (g_data_lba s) \<le> l" for l
    using that below fl run by (simp add: flush_fat_def)
  then have "cluster_data view t = cluster_data view s"
    by (intro cluster_data_cong [OF fr]) (auto simp: cluster_start_def)
  moreover have "g_cluster_buffer t = g_cluster_buffer s" by (subst t) simp
  then have "vol_ok view t"
    using v io_frame_geometry [OF fr] io_frame_simps [OF fr] by (simp add: vol_ok_def)
  moreover have "g_sector_buffer t = g_sector_buffer s" by (subst t) simp
  ultimately show ?thesis
    using fl run io_frame_simps [OF fr] by (simp add: flush_fat_def)
qed

text \<open>\<open>flush_fat\<close> writes only the FAT area: file data, the boot sector and everything else on
  the disk stay as they were; and when it reports success every FAT copy on the disk holds exactly
  the bytes of \<open>g_fat\<close>, however many 255-sector transfers that took.\<close>

theorem flush_fat_writes_every_copy:
  assumes v: "vol_ok view s" and run: "flush_fat s = (ok, t)"
  shows "vol_ok view t \<and> g_fat t = g_fat s \<and> cluster_data view t = cluster_data view s \<and>
    (\<forall>l. l < unat (g_fat_lba s) \<longrightarrow> view (g_disk t) l = view (g_disk s) l) \<and>
    (ok \<longrightarrow> (\<forall>k < unat (g_fat_count s).
       sectors view (g_disk t) (unat (g_fat_lba s) + k * unat (g_sectors_per_fat s))
         (unat (g_sectors_per_fat s)) = fat_image (unat (g_sectors_per_fat s)) (g_fat s)))"
  using flush_fat_writes_every_copy_lemma [OF v run] by simp

subsection \<open>Mounting\<close>

lemma boot_sector_geometry:
  assumes ok: "boot_sector_ok b"
  defines "T \<equiv> unat (boot_total_sectors b)"
  defines "N \<equiv> unat (bs_fat_count b) * unat (bs_sectors_per_fat32 b)"
  defines "R \<equiv> unat (bs_reserved_sectors b)"
  shows "unat (boot_non_data_sectors b) = R + N" and "R + N < T"
    and "unat (boot_total_clusters b) = (T - (R + N)) div unat (bs_sectors_per_cluster b) + 2"
    and "unat (boot_total_clusters b) \<le> unat (bs_sectors_per_fat32 b) * 128"
    and "unat (bs_sectors_per_fat32 b) \<le> 4096" and "0 < R"
proof -
  have spf: "unat (bs_sectors_per_fat32 b) \<le> 4096"
    using ok by (simp add: boot_sector_ok_def FAT32_MAX_FAT_SECTORS_def)
  have cnt: "unat (bs_fat_count b) \<le> 255" using unat_u8_bound [of "bs_fat_count b"] by simp
  have N: "N \<le> 255 * 4096" unfolding N_def using mult_le_mono [OF cnt spf] by simp
  have R: "R < 65536" unfolding R_def using unat_u16_bound [of "bs_reserved_sectors b"] by simp
  have mul: "unat (ucast (bs_fat_count b) * bs_sectors_per_fat32 b :: u32) = N"
    using N by (subst unat_mult_small) (simp_all add: N_def)
  show nd: "unat (boot_non_data_sectors b) = R + N"
    unfolding boot_non_data_sectors_def using N R by (subst unat_add_small) (simp_all add: mul R_def)
  have "boot_non_data_sectors b < boot_total_sectors b" using ok by (simp add: boot_sector_ok_def not_le)
  then show lt: "R + N < T" using nd by (simp add: word_less_nat_alt T_def)
  have sub: "unat (boot_total_sectors b - boot_non_data_sectors b) = T - (R + N)"
    using nd lt by (subst unat_diff_small) (simp_all add: T_def)
  have spc: "0 < unat (bs_sectors_per_cluster b)"
    using ok by (simp add: boot_sector_ok_def unat_gt_0)
  define q where "q = (boot_total_sectors b - boot_non_data_sectors b) div ucast (bs_sectors_per_cluster b)"
  have q: "unat q = (T - (R + N)) div unat (bs_sectors_per_cluster b)"
    by (simp add: q_def unat_div_distrib sub)
  have lim: "unat (bs_sectors_per_fat32 b * 512 div 4) = unat (bs_sectors_per_fat32 b) * 128"
  proof -
    have "unat (bs_sectors_per_fat32 b * 512) = unat (bs_sectors_per_fat32 b) * 512"
      using spf by (subst unat_mult_small) simp_all
    then show ?thesis by (simp add: unat_div_distrib)
  qed
  have "unat (boot_total_clusters b) \<le> unat (bs_sectors_per_fat32 b) * 128"
    using ok lim by (simp add: boot_sector_ok_def word_less_nat_alt not_less)
  then show "unat (boot_total_clusters b) \<le> unat (bs_sectors_per_fat32 b) * 128" .
  show R0: "0 < R" using ok by (simp add: boot_sector_ok_def R_def unat_gt_0)
  have "0 < N" using ok by (simp add: boot_sector_ok_def N_def unat_gt_0)
  moreover have "unat q \<le> T - (R + N)" unfolding q by (rule div_le_dividend)
  moreover have "T < 4294967296" unfolding T_def by (rule unat_u32_bound)
  ultimately have "unat q + 2 < 2 ^ 32" using R0 by simp
  then show "unat (boot_total_clusters b) = (T - (R + N)) div unat (bs_sectors_per_cluster b) + 2"
    unfolding boot_total_clusters_def q_def [symmetric] by (subst unat_add_small) (simp_all add: q)
  show "unat (bs_sectors_per_fat32 b) \<le> 4096" by fact
qed

lemma fat32_mount_establishes_volume_lemma:
  assumes law: "disk_law (g_block_device s) view" and buf: "length (g_sector_buffer s) = SECTOR"
    and run: "fat32_mount p bps s = (True, t)"
    and fits: "unat p + unat (boot_total_sectors (boot_sector_of (view (g_disk s) (unat p)))) < 2 ^ 32"
  shows "vol_ok view t \<and>
    g_fat_lba t = p + ucast (bs_reserved_sectors (boot_sector_of (view (g_disk s) (unat p)))) \<and>
    g_sectors_per_fat t = bs_sectors_per_fat32 (boot_sector_of (view (g_disk s) (unat p))) \<and> g_mounted t \<and> boot_sector_ok (boot_sector_of (view (g_disk s) (unat p))) \<and>
    view (g_disk t) = view (g_disk s) \<and>
    (\<forall>c. unat c < unat (g_sectors_per_fat t) * 128 \<longrightarrow> g_fat t c =
       le32_at (sectors view (g_disk s) (unat (g_fat_lba t)) (unat (g_sectors_per_fat t))) (unat c * 4))"
proof -
  obtain ok1 out d1 where rd: "block_read_sectors (g_block_device s) p 1 (g_sector_buffer s) (g_disk s)
      = (ok1, out, d1)" by (metis prod_cases3)
  define s1 where "s1 = s\<lparr>g_sector_buffer := out, g_disk := d1\<rparr>"
  define b where "b = boot_sector_of out"
  have bps: "unat bps = FAT32_SECTOR_SIZE" and ok1: ok1 and bok: "boot_sector_ok b"
    using run rd by (auto simp: fat32_mount_def read_sector_def b_def Let_def split: if_splits prod.splits)
  have rs: "read_sector p s = (True, s1)" using rd ok1 by (simp add: read_sector_def s1_def)
  have "length (g_sector_buffer s) = unat (1 :: u8) * SECTOR" using buf by simp
  note disk = disk_read [OF law rd this]
  have out: "out = view (g_disk s) (unat p)" using disk(3) ok1 by (simp add: sectors_def)
  note geo = boot_sector_geometry [OF bok]
  define s2 where "s2 = set_geometry p b s1"
  have fits': "unat p + unat (boot_total_sectors b) < 2 ^ 32" using fits by (simp add: b_def out)
  have f2: "g_sectors_per_fat s2 = bs_sectors_per_fat32 b" "g_block_device s2 = g_block_device s" "g_disk s2 = d1"
    "g_fat_lba s2 = p + ucast (bs_reserved_sectors b)" "g_bytes_per_sector s2 = bs_bytes_per_sector b"
    by (simp_all add: s2_def s1_def set_geometry_def Let_def)
  define spf where "spf = unat (g_sectors_per_fat s2)"
  have spf: "spf = unat (bs_sectors_per_fat32 b)" by (simp add: spf_def f2)
  have fl: "unat (g_fat_lba s2) = unat p + unat (bs_reserved_sectors b)"
    unfolding f2 using geo(1,2) fits' by (subst unat_add_small) simp_all
  obtain ok2 img d2 where rf: "read_sectors (g_block_device s2) (g_fat_lba s2) (g_sectors_per_fat s2)
      (fat_image spf (g_fat s2)) (g_disk s2) = (ok2, img, d2)" by (metis prod_cases3)
  have cnt1: "1 \<le> unat (bs_fat_count b)" using bok by (simp add: boot_sector_ok_def unat_gt_0 Suc_le_eq)
  then have spf_le: "spf \<le> unat (bs_fat_count b) * unat (bs_sectors_per_fat32 b)" by (simp add: spf)
  have img: "length img = spf * SECTOR" "view d2 = view (g_disk s)"
      "ok2 \<longrightarrow> img = sectors view (g_disk s) (unat (g_fat_lba s2)) spf"
  proof -
    have l2: "disk_law (g_block_device s2) view" using law f2 by simp
    have sm: "unat (g_fat_lba s2) + unat (g_sectors_per_fat s2) < 2 ^ 32"
      using fl geo(2) fits' spf_le unfolding spf_def [symmetric] by linarith
    have "length (fat_image spf (g_fat s2)) = unat (g_sectors_per_fat s2) * SECTOR"
      by (simp add: spf_def)
    note r = read_sectors_spec [OF l2 rf this sm]
    have "sectors view d1 = sectors view (g_disk s)" using disk(2) by (intro ext) (simp add: sectors_def)
    then show "length img = spf * SECTOR" "view d2 = view (g_disk s)"
      "ok2 \<longrightarrow> img = sectors view (g_disk s) (unat (g_fat_lba s2)) spf"
      using r disk(2) by (simp_all add: f2 spf_def)
  qed
  define bytes where "bytes = unat (g_sectors_per_fat s2 * ucast (g_bytes_per_sector s2))"
  define s3 where "s3 = s2\<lparr>g_fat := fat_load img (g_fat s2), g_disk := d2\<rparr>"
  have "fat32_mount p bps s = (if \<not> ok2 then (False, s3)
      else (True, s3\<lparr>g_sector_buffer := replicate FAT32_SECTOR_SIZE 0,
        g_cluster_buffer := replicate (FAT32_MAX_CLUSTER_SECTORS * FAT32_SECTOR_SIZE) 0,
        g_fat := (\<lambda>c. if unat c * 4 < bytes then g_fat s3 c else 0), g_mounted := True\<rparr>))"
  proof -
    have c: "(unat bps \<noteq> FAT32_SECTOR_SIZE) = False" "(\<not> True) = False" "(\<not> boot_sector_ok b) = False"
      using bps bok by simp_all
    have sb: "boot_sector_of (g_sector_buffer s1) = b" by (simp add: s1_def b_def)
    show ?thesis
      unfolding fat32_mount_def c if_False rs prod.case Let_def sb s2_def [symmetric] spf_def [symmetric]
        rf s3_def [symmetric] bytes_def [symmetric] ..
  qed
  then have res: "ok2" "t = s3\<lparr>g_sector_buffer := replicate FAT32_SECTOR_SIZE 0,
      g_cluster_buffer := replicate (FAT32_MAX_CLUSTER_SECTORS * FAT32_SECTOR_SIZE) 0,
      g_fat := (\<lambda>c. if unat c * 4 < bytes then g_fat s3 c else 0), g_mounted := True\<rparr>"
    using run by (auto split: if_splits)
  have s3_fat: "g_fat s3 = fat_load img (g_fat s2)" by (simp add: s3_def)
  define N where "N = unat (bs_fat_count b) * unat (bs_sectors_per_fat32 b)"
  have tf: "g_total_clusters t = boot_total_clusters b" "g_sectors_per_cluster t = bs_sectors_per_cluster b"
    "g_sectors_per_fat t = bs_sectors_per_fat32 b" "g_fat_count t = bs_fat_count b"
    "g_fat_lba t = g_fat_lba s2" "g_root_cluster t = bs_root_cluster b" "g_mounted t"
    "g_data_lba t = g_fat_lba s2 + ucast (bs_fat_count b) * bs_sectors_per_fat32 b"
    "g_cluster_size t = ucast (bs_sectors_per_cluster b) * ucast (bs_bytes_per_sector b)"
    "g_block_device t = g_block_device s" "g_disk t = d2"
    "length (g_cluster_buffer t) = FAT32_MAX_CLUSTER_SECTORS * SECTOR"
    by (simp_all add: res(2) s3_def s2_def s1_def set_geometry_def Let_def FAT32_SECTOR_SIZE_def SECTOR_def)
  have spc: "0 < unat (bs_sectors_per_cluster b)" "unat (bs_sectors_per_cluster b) \<le> 8"
    using bok by (simp_all add: boot_sector_ok_def unat_gt_0 FAT32_MAX_CLUSTER_SECTORS_def not_less)
  have bps': "unat (bs_bytes_per_sector b) = 512" using bok by (simp add: boot_sector_ok_def FAT32_SECTOR_SIZE_def)
  have csize: "unat (g_cluster_size t) = unat (bs_sectors_per_cluster b) * 512"
    unfolding tf using spc bps' by (subst unat_mult_small) simp_all
  have RN: "unat (bs_reserved_sectors b) + N < unat (boot_total_sectors b)" using geo(2) by (simp add: N_def)
  have "unat (ucast (bs_fat_count b) * bs_sectors_per_fat32 b :: u32) = N"
    using RN unat_u32_bound [of "boot_total_sectors b"] by (subst unat_mult_small) (simp_all add: N_def)
  then have data: "unat (g_data_lba t) = unat p + unat (bs_reserved_sectors b) + N"
    unfolding tf using fl RN fits' by (subst unat_add_small) simp_all
  have "(unat (boot_total_clusters b) - 2) * unat (bs_sectors_per_cluster b)
      \<le> unat (boot_total_sectors b) - (unat (bs_reserved_sectors b) + N)"
    by (simp add: geo(3) N_def)
  then have last: "unat (g_data_lba t) + (unat (boot_total_clusters b) - 2) * unat (bs_sectors_per_cluster b) \<le> 2 ^ 32"
    using data RN fits' by linarith
  have root: "\<not> bs_root_cluster b < 2" "bs_root_cluster b < boot_total_clusters b"
    using bok by (simp_all add: boot_sector_ok_def not_le)
  have clusters: "unat (boot_total_clusters b) \<le> 524288" using geo(4,5) by linarith
  have "geometry_ok t"
    unfolding geometry_ok_def fat_bounded_def is_valid_data_cluster_def spc_def
    using csize spc geo(3,4) last root clusters data fl
    by (simp add: tf(1-6) SECTOR_def N_def not_less)
  then have vol: "vol_ok view t" using law tf by (simp add: vol_ok_def)
  have bytes: "bytes = spf * 512"
    unfolding bytes_def spf f2 using geo(5) bps' by (subst unat_mult_small) simp_all
  have "g_fat t c = le32_at (sectors view (g_disk s) (unat (g_fat_lba t)) spf) (unat c * 4)"
    if "unat c < spf * 128" for c
  proof -
    have "g_fat t c = fat_load img (g_fat s2) c" using that by (simp add: res(2) bytes s3_fat)
    then show ?thesis using that img res(1) by (simp add: fat_load_def SECTOR_def tf(5))
  qed
  then show ?thesis
    using vol bok img(2) by (simp add: tf(3,7,11) tf(5) f2(4) spf b_def out)
qed



text \<open>C18: a FAT that \<open>flush_fat\<close> reports written is the FAT the next mount of the volume loads: every
  entry of the table is read back unchanged.\<close>

theorem flush_then_mount_restores_fat:
  assumes v: "vol_ok view s" and sb: "length (g_sector_buffer s) = SECTOR"
    and flush: "flush_fat s = (True, t)" and mount: "fat32_mount p bps t = (True, u)"
    and boot: "b = boot_sector_of (view (g_disk s) (unat p))" "unat p + unat (boot_total_sectors b) < 2 ^ 32"
    and same: "g_fat_lba s = p + ucast (bs_reserved_sectors b)" "g_sectors_per_fat s = bs_sectors_per_fat32 b"
      "p < g_fat_lba s" "g_fat_count s \<noteq> 0"
    and c: "unat c < unat (g_sectors_per_fat s) * 128"
  shows "g_fat u c = g_fat s c"
proof -
  note fl = flush_fat_writes_every_copy_lemma [OF v flush]
  have "view (g_disk t) (unat p) = view (g_disk s) (unat p)"
    using fl same(3) by (simp add: word_less_nat_alt)
  then have bt: "boot_sector_of (view (g_disk t) (unat p)) = b" using boot(1) by simp
  have law: "disk_law (g_block_device t) view" using fl unfolding vol_ok_def by blast
  have len: "length (g_sector_buffer t) = SECTOR" using fl sb by simp
  note m = fat32_mount_establishes_volume_lemma [OF law len mount, unfolded bt, OF boot(2)]
  have fields: "g_fat_lba u = g_fat_lba s" "g_sectors_per_fat u = g_sectors_per_fat s"
    using m same by simp_all
  have "0 < unat (g_fat_count s)" using same(4) by (simp add: unat_gt_0)
  then have "sectors view (g_disk t) (unat (g_fat_lba s)) (unat (g_sectors_per_fat s)) =
      fat_image (unat (g_sectors_per_fat s)) (g_fat s)"
    using fl by (auto dest: spec [of _ 0])
  then have "g_fat u c = le32_at (fat_image (unat (g_sectors_per_fat s)) (g_fat s)) (unat c * 4)"
    using m c by (simp add: fields)
  also have "\<dots> = fat_load (fat_image (unat (g_sectors_per_fat s)) (g_fat s)) (g_fat s) c"
    using c by (simp add: fat_load_def SECTOR_def)
  also have "\<dots> = g_fat s c" using fat_load_image [OF c] .
  finally show ?thesis .
qed


subsection \<open>A volume on the RAM disk\<close>

definition demo_boot_sector :: bytes where
  "demo_boot_sector = replicate 11 0 @ [0, 2, 1, 32, 0, 1, 0, 0, 39, 0] @ replicate 15 0
     @ [1, 0, 0, 0] @ replicate 4 0 @ [2, 0, 0, 0] @ replicate 464 0"

definition demo_disk :: ramdisk where
  "demo_disk l = (if l = 0 then demo_boot_sector else replicate 512 0)"

definition unmounted :: "ramdisk fat_state" where
  "unmounted = \<lparr>g_fat = (\<lambda>c. 0), g_sector_buffer = replicate 512 0, g_cluster_buffer = replicate 4096 0,
     g_mounted = False, g_bytes_per_sector = 0, g_sectors_per_cluster = 0, g_fat_count = 0,
     g_reserved_sectors = 0, g_sectors_per_fat = 0, g_partition_lba = 0, g_root_cluster = 0,
     g_data_lba = 0, g_cluster_size = 0, g_total_clusters = 0, g_fat_lba = 0,
     g_block_device = ram_device, g_disk = demo_disk\<rparr>"

lemma demo_boot_fields:
  "boot_sector_of demo_boot_sector = \<lparr>bs_bytes_per_sector = 512, bs_sectors_per_cluster = 1,
     bs_reserved_sectors = 32, bs_fat_count = 1, bs_total_sectors16 = 39, bs_total_sectors32 = 0,
     bs_sectors_per_fat32 = 1, bs_root_cluster = 2\<rparr>"
  by (simp add: boot_sector_of_def demo_boot_sector_def nth_append le16_at_def le32_at_def
      of_le16_def of_le32_def)

lemma demo_boot_ok: "boot_sector_ok (boot_sector_of demo_boot_sector)"
  by (simp add: demo_boot_fields boot_sector_ok_def FAT32_SECTOR_SIZE_def FAT32_MAX_FAT_SECTORS_def
      FAT32_MAX_CLUSTER_SECTORS_def boot_total_sectors_def boot_non_data_sectors_def boot_total_clusters_def)

lemma demo_view_boot: "ram_view demo_disk 0 = demo_boot_sector"
  by (simp add: ram_view_def demo_disk_def SECTOR_def) (simp add: demo_boot_sector_def)

lemma ram_read_sectors: "fst (read_sectors ram_device lba count out d)"
proof (induction "ram_device" lba count out d rule: read_sectors.induct)
  case (1 lba count out d)
  let ?c = "chunk_of count"
  let ?n = "unat ?c * FAT32_SECTOR_SIZE"
  have rd: "block_read_sectors ram_device lba ?c (take ?n out) d =
      (True, sectors ram_view d (unat lba) (unat ?c), d)"
    by (simp add: block_read_sectors_def ram_device_def ram_read_def)
  show ?case
  proof (cases "count = 0")
    case True
    then show ?thesis by (simp add: read_sectors.simps [of ram_device lba 0])
  next
    case False
    obtain ok rest e where rec: "read_sectors ram_device (lba + ucast ?c) (count - ucast ?c) (drop ?n out) d
        = (ok, rest, e)" by (metis prod_cases3)
    have ok using "1" [OF False refl refl refl rd [symmetric] refl] rec by simp
    then show ?thesis
      using False rec by (simp add: read_sectors.simps [of ram_device lba count] Let_def rd)
  qed
qed

lemma ram_mount:
  assumes dev: "g_block_device s = ram_device"
    and ok: "boot_sector_ok (boot_sector_of (ram_view (g_disk s) (unat p)))"
  shows "\<exists>t. fat32_mount p 512 s = (True, t)"
proof -
  define s1 where "s1 = s\<lparr>g_sector_buffer := ram_view (g_disk s) (unat p)\<rparr>"
  have rs: "read_sector p s = (True, s1)"
    by (simp add: read_sector_def dev block_read_sectors_def ram_device_def ram_read_def
        sectors_def s1_def)
  define s2 where "s2 = set_geometry p (boot_sector_of (g_sector_buffer s1)) s1"
  obtain ok2 img d where rf: "read_sectors (g_block_device s2) (g_fat_lba s2) (g_sectors_per_fat s2)
      (fat_image (unat (g_sectors_per_fat s2)) (g_fat s2)) (g_disk s2) = (ok2, img, d)"
    by (metis prod_cases3)
  have "g_block_device s2 = ram_device"
    by (simp add: s2_def s1_def set_geometry_def Let_def dev)
  then have ok2 using ram_read_sectors rf by (metis fst_conv)
  have c: "(unat (512 :: u16) \<noteq> FAT32_SECTOR_SIZE) = False" "(\<not> True) = False" "(\<not> ok2) = False"
      "(\<not> boot_sector_ok (boot_sector_of (g_sector_buffer s1))) = False"
    using \<open>ok2\<close> ok by (simp_all add: FAT32_SECTOR_SIZE_def s1_def)
  show ?thesis
    unfolding fat32_mount_def c if_False rs prod.case Let_def s2_def [symmetric] rf by blast
qed

lemma demo_mount: "\<exists>t. fat32_mount 0 512 unmounted = (True, t)"
  by (rule ram_mount) (simp_all add: unmounted_def demo_view_boot demo_boot_ok)

lemma ram_write_sectors: "fst (write_sectors ram_device lba count data d)"
proof (induction "ram_device" lba count data d rule: write_sectors.induct)
  case (1 lba count data d)
  let ?c = "chunk_of count"
  let ?n = "unat ?c * FAT32_SECTOR_SIZE"
  obtain d' where wr: "block_write_sectors ram_device lba ?c (take ?n data) d = (True, d')"
    by (simp add: block_write_sectors_def ram_device_def ram_write_def)
  show ?case
  proof (cases "count = 0")
    case True
    then show ?thesis by (simp add: write_sectors.simps [of ram_device lba 0])
  next
    case False
    have "fst (write_sectors ram_device (lba + ucast ?c) (count - ucast ?c) (drop ?n data) d')"
      using "1" [OF False refl refl refl wr [symmetric]] by simp
    then show ?thesis
      using False by (simp add: write_sectors.simps [of ram_device lba count] Let_def wr)
  qed
qed

lemma ram_flush_loop: "g_block_device s = ram_device \<Longrightarrow> fst (flush_fat_loop n i s)"
proof (induction n arbitrary: i s)
  case (Suc n)
  then show ?case
    using ram_write_sectors [of "g_fat_lba s + i * g_sectors_per_fat s" "g_sectors_per_fat s"
        "fat_image (unat (g_sectors_per_fat s)) (g_fat s)" "g_disk s"]
    by (auto simp: Let_def split: prod.splits)
qed simp

definition mounted_vol :: "ramdisk fat_state" where
  "mounted_vol = unmounted\<lparr>g_fat := (\<lambda>c. if c = 2 \<or> c = 5 then 0x0FFFFFFF else 0), g_mounted := True,
     g_bytes_per_sector := 512, g_sectors_per_cluster := 1, g_fat_count := 1, g_reserved_sectors := 32,
     g_sectors_per_fat := 1, g_root_cluster := 2, g_data_lba := 33, g_cluster_size := 512,
     g_total_clusters := 8, g_fat_lba := 32\<rparr>"

lemma mounted_vol_ok: "vol_ok ram_view mounted_vol"
  by (simp add: vol_ok_def mounted_vol_def unmounted_def ram_device_law geometry_ok_def fat_bounded_def
      spc_def is_valid_data_cluster_def FAT32_MAX_CLUSTER_SECTORS_def SECTOR_def)

lemma demo_flush: "\<exists>t. flush_fat mounted_vol = (True, t)"
  using ram_flush_loop [of mounted_vol "unat (g_fat_count mounted_vol)" 0]
  by (cases "flush_fat mounted_vol") (simp add: flush_fat_def mounted_vol_def unmounted_def)

theorem flush_fat_writes_every_copy_witness:
  "\<exists>t. flush_fat mounted_vol = (True, t) \<and> sectors ram_view (g_disk t) 32 1 = fat_image 1 (g_fat mounted_vol)"
proof -
  obtain t where t: "flush_fat mounted_vol = (True, t)" using demo_flush by blast
  then show ?thesis
    using flush_fat_writes_every_copy [OF mounted_vol_ok t] by (auto simp: mounted_vol_def)
qed

theorem flush_then_mount_restores_fat_witness:
  "\<exists>t u. flush_fat mounted_vol = (True, t) \<and> fat32_mount 0 512 t = (True, u) \<and> g_fat u 5 = 0x0FFFFFFF"
proof -
  obtain t where t: "flush_fat mounted_vol = (True, t)" using demo_flush by blast
  have d: "g_disk mounted_vol = demo_disk" "g_fat_lba mounted_vol = 32" by (simp_all add: mounted_vol_def unmounted_def)
  note fl = flush_fat_writes_every_copy_lemma [OF mounted_vol_ok t]
  have "ram_view (g_disk t) 0 = demo_boot_sector"
    using fl by (simp add: d demo_view_boot)
  moreover have "g_block_device t = ram_device"
    using fl by (simp add: mounted_vol_def unmounted_def)
  ultimately obtain u where u: "fat32_mount 0 512 t = (True, u)"
    using ram_mount [of t 0] demo_boot_ok by auto
  have "g_fat u 5 = g_fat mounted_vol 5"
    by (rule flush_then_mount_restores_fat [OF mounted_vol_ok _ t u refl])
      (simp_all add: d demo_view_boot demo_boot_fields boot_total_sectors_def,
       simp_all add: mounted_vol_def unmounted_def SECTOR_def)
  then show ?thesis using t u by (auto simp: mounted_vol_def)
qed


end
