(* ===== verification/FatNames.thy ===== *)
theory FatNames
  imports FatDefs
begin

text \<open>
  Names in \<open>src/kernel/fat32.c\<close>: 8.3 short names, long-file-name (LFN) entries, and the decoder that
  collects them while a directory is scanned. A \<open>const char*\<close> argument is its string, the bytes before
  the NUL; the \<open>char\<close> arrays of \<open>LfnState\<close> and of the alias are lists, and a store outside one is
  \<open>None\<close>. The theorems are the round trips: what is written for a name is decoded as that name.
\<close>

subsection \<open>Checking a name\<close>

definition is_invalid_lfn_character :: "u8 \<Rightarrow> bool" where
  "is_invalid_lfn_character c \<longleftrightarrow> sint c < 0x20 \<or> c = 34 \<or> c = 42 \<or> c = 47 \<or> c = 58 \<or> c = 60 \<or>
     c = 62 \<or> c = 63 \<or> c = 92 \<or> c = 124"

fun validate_loop :: "bytes \<Rightarrow> nat \<Rightarrow> nat option" where
  "validate_loop [] len = Some len"
| "validate_loop (c # cs) len =
     (if len + 1 \<ge> FAT32_NAME_CAPACITY then None
      else if is_invalid_lfn_character c then None
      else validate_loop cs (len + 1))"

definition validate_long_name :: "bytes \<Rightarrow> nat option" where
  "validate_long_name name =
     (if name = [] then None
      else if name = [46] \<or> name = [46, 46] then None
      else case validate_loop name 0 of
             None \<Rightarrow> None
           | Some len \<Rightarrow>
               if len = 0 then None
               else if name ! (len - 1) = 32 \<or> name ! (len - 1) = 46 then None
               else Some len)"

fun name_equals_ignore_case :: "bytes \<Rightarrow> bytes \<Rightarrow> bool" where
  "name_equals_ignore_case (a # lhs) (b # rhs) =
     (if k_toupper a \<noteq> k_toupper b then False else name_equals_ignore_case lhs rhs)"
| "name_equals_ignore_case lhs rhs = (lhs = [] \<and> rhs = [])"

subsection \<open>Short names\<close>

definition should_skip_entry :: "DirectoryEntry \<Rightarrow> bool" where
  "should_skip_entry e =
     (if de_name e ! 0 = 0 \<or> de_name e ! 0 = FAT32_DELETED then True
      else attributes e AND FAT32_VOLUME_ID \<noteq> 0)"

text \<open>The string left in \<open>out\<close>: a NUL byte inside the raw name ends it.\<close>

definition format_short_name :: "bytes \<Rightarrow> bytes" where
  "format_short_name raw =
     (let has_ext = (\<exists>i \<in> {8..<11}. raw ! i \<noteq> 32);
          base = takeWhile (\<lambda>c. c \<noteq> 32) (take 8 raw);
          ext = takeWhile (\<lambda>c. c \<noteq> 32) (take 3 (drop 8 raw))
      in cstr (if has_ext then base @ 46 # ext else base))"

fun checksum_loop :: "bytes \<Rightarrow> u8 \<Rightarrow> u8" where
  "checksum_loop [] acc = acc"
| "checksum_loop (c # cs) acc =
     checksum_loop cs ((if acc AND 1 \<noteq> 0 then 0x80 else 0) + drop_bit 1 acc + c)"

definition short_name_checksum :: "bytes \<Rightarrow> u8" where
  "short_name_checksum name = checksum_loop (take 11 name) 0"

text \<open>The position of the last dot, unless it is the first or the last character.\<close>

fun last_dot_loop :: "bytes \<Rightarrow> nat \<Rightarrow> nat option \<Rightarrow> nat option" where
  "last_dot_loop [] i d = d"
| "last_dot_loop (c # cs) i d = last_dot_loop cs (i + 1) (if c = 46 then Some i else d)"

definition last_dot_of :: "bytes \<Rightarrow> nat option" where
  "last_dot_of name =
     (case last_dot_loop name 0 None of
        None \<Rightarrow> None
      | Some d \<Rightarrow> if d = 0 \<or> d = length name - 1 then None else Some d)"

definition before_ext :: "nat option \<Rightarrow> nat \<Rightarrow> bool" where
  "before_ext last_dot i \<longleftrightarrow> (case last_dot of None \<Rightarrow> True | Some d \<Rightarrow> i < d)"

fun short_name_loop ::
  "bytes \<Rightarrow> nat \<Rightarrow> nat option \<Rightarrow> nat \<Rightarrow> nat \<Rightarrow> bytes \<Rightarrow> (nat \<times> bytes) option" where
  "short_name_loop [] i last_dot base_len ext_len out = Some (base_len, out)"
| "short_name_loop (c # cs) i last_dot base_len ext_len out =
     (if c = 46 then
        (if last_dot \<noteq> Some i then None
         else short_name_loop cs (i + 1) last_dot base_len ext_len out)
      else if k_is_space c \<or> c = 43 \<or> c = 44 \<or> c = 59 \<or> c = 61 \<or> c = 91 \<or> c = 93 then None
      else if before_ext last_dot i then
        (if base_len \<ge> 8 then None
         else short_name_loop cs (i + 1) last_dot (base_len + 1) ext_len (out[base_len := k_toupper c]))
      else (if ext_len \<ge> 3 then None
         else short_name_loop cs (i + 1) last_dot base_len (ext_len + 1) (out[8 + ext_len := k_toupper c])))"

definition make_short_name_if_possible :: "bytes \<Rightarrow> bytes option" where
  "make_short_name_if_possible name =
     (case validate_long_name name of
        None \<Rightarrow> None
      | Some _ \<Rightarrow>
          (case short_name_loop name 0 (last_dot_of name) 0 0 (replicate 11 32) of
             None \<Rightarrow> None
           | Some (base_len, out) \<Rightarrow> if base_len = 0 then None else Some out))"

fun alias_chars :: "bytes \<Rightarrow> nat \<Rightarrow> nat option \<Rightarrow> bytes \<Rightarrow> bytes \<Rightarrow> bytes \<times> bytes" where
  "alias_chars [] i last_dot base ext = (base, ext)"
| "alias_chars (c # cs) i last_dot base ext =
     (if c = 46 \<or> is_invalid_lfn_character c \<or> k_is_space c
      then alias_chars cs (i + 1) last_dot base ext
      else if (case last_dot of None \<Rightarrow> False | Some d \<Rightarrow> i > d)
      then alias_chars cs (i + 1) last_dot base (if length ext < 3 then ext @ [k_toupper c] else ext)
      else alias_chars cs (i + 1) last_dot (if length base < 8 then base @ [k_toupper c] else base) ext)"

text \<open>The digits of \<open>ordinal\<close>, lowest first; ten fit the array and every 32-bit number.\<close>

fun alias_digits :: "nat \<Rightarrow> u32 \<Rightarrow> bytes" where
  "alias_digits 0 ordinal = []"
| "alias_digits (Suc n) ordinal =
     ucast (48 + ordinal mod 10) # (if ordinal div 10 \<noteq> 0 then alias_digits n (ordinal div 10) else [])"

fun store_all :: "bytes \<Rightarrow> nat \<Rightarrow> bytes \<Rightarrow> bytes option" where
  "store_all out i [] = Some out"
| "store_all out i (c # cs) = do { out' \<leftarrow> store out i c; store_all out' (i + 1) cs }"

definition build_short_alias :: "bytes \<Rightarrow> u32 \<Rightarrow> bytes option" where
  "build_short_alias name ordinal =
     (let (base0, ext) = alias_chars name 0 (last_dot_of name) [] [];
          base = (if base0 = [] then [70] else base0);
          digits = alias_digits 10 ordinal;
          room = unat (8 - (of_nat (length digits) + 1) :: u32);
          copy_len = (if room > length base then length base else room)
      in do {
        out1 \<leftarrow> store_all (replicate 11 32) 0 (take copy_len base);
        out2 \<leftarrow> store_all out1 copy_len (126 # rev digits);
        store_all out2 8 ext })"

subsection \<open>Long names\<close>

record LfnState =
  lfn_active :: bool
  lfn_valid :: bool
  lfn_sum :: u8
  expected_order :: u8
  lfn_name :: bytes

definition lfn_state_reset :: "LfnState \<Rightarrow> LfnState" where
  "lfn_state_reset st = \<lparr>lfn_active = False, lfn_valid = False, lfn_sum = 0, expected_order = 0,
     lfn_name = (lfn_name st)[0 := 0]\<rparr>"

definition lfn_initial :: LfnState where
  "lfn_initial = \<lparr>lfn_active = False, lfn_valid = False, lfn_sum = 0, expected_order = 0,
     lfn_name = replicate FAT32_NAME_CAPACITY 0\<rparr>"

definition decode_lfn_character :: "u16 \<Rightarrow> u8 option" where
  "decode_lfn_character v =
     (if v = 0 \<or> v = 0xFFFF then Some 0
      else if v AND 0xFF00 \<noteq> 0 then None
      else if is_invalid_lfn_character (ucast (v AND 0x00FF)) then None
      else Some (ucast (v AND 0x00FF)))"

definition lfn_store_character :: "bytes \<Rightarrow> nat \<Rightarrow> u8 \<Rightarrow> bytes" where
  "lfn_store_character name index v = (if index + 1 < FAT32_NAME_CAPACITY then name[index := v] else name)"

definition lfn_terminate_name :: "bytes \<Rightarrow> bytes" where
  "lfn_terminate_name name = (if 0 \<in> set name then name else name[FAT32_NAME_CAPACITY - 1 := 0])"

text \<open>The three character loops of \<open>process_lfn_entry\<close>; the flag is False when a character is
  rejected, and what was stored before it stays.\<close>

fun lfn_store_segment :: "u16 list \<Rightarrow> nat \<Rightarrow> bytes \<Rightarrow> bool \<times> bytes" where
  "lfn_store_segment [] index name = (True, name)"
| "lfn_store_segment (v # vs) index name =
     (case decode_lfn_character v of
        None \<Rightarrow> (False, name)
      | Some c \<Rightarrow> lfn_store_segment vs (index + 1) (lfn_store_character name index c))"

definition lfn_store_name :: "LfnDirectoryEntry \<Rightarrow> nat \<Rightarrow> LfnState \<Rightarrow> LfnState" where
  "lfn_store_name l base_index st =
     (let (ok1, n1) = lfn_store_segment (name1 l) base_index (lfn_name st) in
      if \<not> ok1 then st\<lparr>lfn_name := n1, lfn_valid := False\<rparr>
      else let (ok2, n2) = lfn_store_segment (name2 l) (base_index + 5) n1 in
        if \<not> ok2 then st\<lparr>lfn_name := n2, lfn_valid := False\<rparr>
        else let (ok3, n3) = lfn_store_segment (name3 l) (base_index + 11) n2 in
          if \<not> ok3 then st\<lparr>lfn_name := n3, lfn_valid := False\<rparr>
          else st\<lparr>lfn_name := lfn_terminate_name n3\<rparr>)"

definition process_lfn_entry :: "DirectoryEntry \<Rightarrow> LfnState \<Rightarrow> LfnState" where
  "process_lfn_entry entry st =
     (let l = lfn_of_bytes (bytes_of_entry entry);
          order = lfn_order l AND FAT32_LFN_ENTRY_MASK;
          base_index = unat (order - 1) * 13 in
      if lfn_order l AND FAT32_LFN_LAST \<noteq> 0 then
        if order = 0 then lfn_state_reset st
        else lfn_store_name l base_index
               \<lparr>lfn_active = True, lfn_valid = True, lfn_sum = lfn_checksum l, expected_order = order,
                lfn_name = replicate FAT32_NAME_CAPACITY 0\<rparr>
      else if \<not> lfn_active st \<or> \<not> lfn_valid st \<or> lfn_checksum l \<noteq> lfn_sum st \<or> order = 0 \<or>
              uint order \<noteq> uint (expected_order st) - 1
      then lfn_state_reset st
      else lfn_store_name l base_index (st\<lparr>expected_order := order\<rparr>))"

definition lfn_complete :: "DirectoryEntry \<Rightarrow> LfnState \<Rightarrow> bool" where
  "lfn_complete entry st \<longleftrightarrow> lfn_active st \<and> lfn_valid st \<and> expected_order st = 1 \<and>
     lfn_sum st = short_name_checksum (de_name entry)"

definition decode_directory_entry_name :: "DirectoryEntry \<Rightarrow> LfnState \<Rightarrow> bytes" where
  "decode_directory_entry_name entry st =
     (if lfn_complete entry st \<and> lfn_name st ! 0 \<noteq> 0 then cstr (lfn_name st)
      else format_short_name (de_name entry))"

definition lfn_entry_count_for_name :: "bytes \<Rightarrow> nat" where
  "lfn_entry_count_for_name name = (length name + 12) div 13"

definition lfn_char_at :: "bytes \<Rightarrow> nat \<Rightarrow> u16" where
  "lfn_char_at name k = (if k < length name then ucast (name ! k)
     else if k = length name then 0 else 0xFFFF)"

definition fill_lfn_name_segment :: "bytes \<Rightarrow> nat \<Rightarrow> LfnDirectoryEntry \<Rightarrow> LfnDirectoryEntry" where
  "fill_lfn_name_segment name offset l =
     l\<lparr>name1 := map (\<lambda>i. lfn_char_at name (offset + i)) [0..<5],
       name2 := map (\<lambda>i. lfn_char_at name (offset + 5 + i)) [0..<6],
       name3 := map (\<lambda>i. lfn_char_at name (offset + 11 + i)) [0..<2]\<rparr>"

text \<open>The loop of \<open>build_name_entries\<close> that writes the LFN entries, highest order first.\<close>

definition lfn_entry :: "bytes \<Rightarrow> u8 \<Rightarrow> nat \<Rightarrow> nat \<Rightarrow> DirectoryEntry" where
  "lfn_entry name checksum lfn_count i =
     (let order = lfn_count - i;
          order_byte = (if i = 0 then of_nat order OR FAT32_LFN_LAST else of_nat order)
      in entry_of_bytes (bytes_of_lfn (fill_lfn_name_segment name ((order - 1) * 13)
           \<lparr>lfn_order = order_byte, name1 = [], lfn_attributes = FAT32_LFN, entry_type = 0,
            lfn_checksum = checksum, name2 = [], lfn_first_cluster_low = 0, name3 = []\<rparr>)))"

definition short_entry :: "bytes \<Rightarrow> u8 \<Rightarrow> u32 \<Rightarrow> u32 \<Rightarrow> DirectoryEntry" where
  "short_entry short_name attrs first_cluster sz =
     entry_set_first_cluster first_cluster
       (zero_entry\<lparr>de_name := short_name, attributes := attrs, de_size := sz\<rparr>)"

definition name_entries :: "bytes \<Rightarrow> bytes \<Rightarrow> nat \<Rightarrow> u8 \<Rightarrow> u32 \<Rightarrow> u32 \<Rightarrow> DirectoryEntry list" where
  "name_entries name short_name lfn_count attrs first_cluster sz =
     map (lfn_entry name (short_name_checksum short_name) lfn_count) [0..<lfn_count]
       @ [short_entry short_name attrs first_cluster sz]"

end
