(* ===== verification/FatNameProofs.thy ===== *)
theory FatNameProofs
  imports FatNames
begin

text \<open>
  Round trips of the names of \<open>FatNames\<close>: 8.3 names, directory and LFN entries as bytes, and the
  LFN entries written for a name decoded back to it.
\<close>

subsection \<open>Valid names\<close>

lemma validate_loop_eq:
  "validate_loop cs len = Some n \<Longrightarrow> n = len + length cs \<and> (\<forall>c \<in> set cs. \<not> is_invalid_lfn_character c) \<and>
     (cs \<noteq> [] \<longrightarrow> n < FAT32_NAME_CAPACITY)"
proof (induction cs len arbitrary: n rule: validate_loop.induct)
  case (2 c cs len)
  then show ?case by (cases "cs = []") (auto split: if_splits)
qed simp

lemma valid_char: "\<not> is_invalid_lfn_character c \<Longrightarrow> 32 \<le> uint c \<and> uint c < 128"
  using uint_u8_bounds [of c] by (auto simp: is_invalid_lfn_character_def sint_u8 split: if_splits)

lemma validate_long_name_chars:
  assumes "validate_long_name name = Some n"
  shows "n = length name" "0 < n" "n < 128" "c \<in> set name \<Longrightarrow> 32 \<le> uint c \<and> uint c < 128"
    "c \<in> set name \<Longrightarrow> \<not> is_invalid_lfn_character c"
proof -
  obtain m where m: "validate_loop name 0 = Some m" "n = m" "m \<noteq> 0" "name \<noteq> []"
    using assms by (auto simp: validate_long_name_def split: if_splits option.splits)
  note v = validate_loop_eq [OF m(1)]
  show "n = length name" "0 < n" "n < 128" using v m by (auto simp: FAT32_NAME_CAPACITY_def)
  show ni: "c \<in> set name \<Longrightarrow> \<not> is_invalid_lfn_character c" using v by blast
  show "c \<in> set name \<Longrightarrow> 32 \<le> uint c \<and> uint c < 128" using ni valid_char by blast
qed

lemma valid_name_nul_free: "validate_long_name name = Some n \<Longrightarrow> nul_free name"
  using validate_long_name_chars(4) [of name n 0] by (auto simp: nul_free_def)

subsection \<open>Short names\<close>

lemma last_dot_loop_none: "46 \<notin> set cs \<Longrightarrow> last_dot_loop cs i d = d"
  by (induction cs arbitrary: i) auto

lemma last_dot_loop_append:
  "last_dot_loop (b @ 46 # e) i d = last_dot_loop e (Suc (i + length b)) (Some (i + length b))"
  by (induction b arbitrary: i d) auto

lemma last_dot_of_cases:
  assumes "name \<noteq> []"
  obtains (none) "last_dot_of name = None"
  | (some) b e where "name = b @ 46 # e" "b \<noteq> []" "e \<noteq> []" "last_dot_of name = Some (length b)"
proof (cases "last_dot_of name")
  case None
  then show thesis using none by blast
next
  case (Some d)
  then have loop: "last_dot_loop name 0 None = Some d" "d \<noteq> 0" "d \<noteq> length name - 1"
    by (auto simp: last_dot_of_def split: option.splits if_splits)
  then have "46 \<in> set name" using last_dot_loop_none [of name 0 None] by fastforce
  then obtain b e where be: "name = b @ 46 # e" "46 \<notin> set e" by (meson split_list_last)
  then have "d = length b" using loop(1) by (simp add: last_dot_loop_append last_dot_loop_none)
  then show thesis using some be(1) loop(2,3) Some by auto
qed

abbreviation upper :: "bytes \<Rightarrow> bytes" where
  "upper \<equiv> map k_toupper"

lemma short_name_loop_base:
  assumes "short_name_loop (cs @ rest) i ld bl el out = Some r"
    and "\<forall>k. i \<le> k \<and> k < i + length cs \<longrightarrow> before_ext ld k" "bl + length cs \<le> 8 \<or> True" "length out = 11" "bl \<le> 8"
  shows "46 \<notin> set cs \<and> 32 \<notin> set cs \<and> bl + length cs \<le> 8 \<and>
    short_name_loop rest (i + length cs) ld (bl + length cs) el (blit out bl (upper cs)) = Some r"
  using assms
proof (induction cs arbitrary: i bl out)
  case Nil
  then show ?case by (simp add: blit_def)
next
  case (Cons c cs)
  have be: "before_ext ld i" using Cons.prems(2) by simp
  then have "ld \<noteq> Some i" by (auto simp: before_ext_def)
  then have c: "c \<noteq> 46" "c \<noteq> 32" "bl < 8"
    and run: "short_name_loop (cs @ rest) (Suc i) ld (Suc bl) el (out[bl := k_toupper c]) = Some r"
    using Cons.prems(1) be by (auto simp: k_is_space_def split: if_splits)
  have "46 \<notin> set cs \<and> 32 \<notin> set cs \<and> Suc bl + length cs \<le> 8 \<and>
    short_name_loop rest (Suc i + length cs) ld (Suc bl + length cs) el
      (blit (out[bl := k_toupper c]) (Suc bl) (upper cs)) = Some r"
    using Cons.prems(2,4) c by (intro Cons.IH run) auto
  moreover have "blit (out[bl := k_toupper c]) (Suc bl) (upper cs) = blit out bl (upper (c # cs))"
    using c(3) Cons.prems(4) by (simp add: blit_def take_list_update_snoc)
  ultimately show ?case using c by simp
qed

lemma short_name_loop_ext:
  assumes "short_name_loop cs i ld bl el out = Some r"
    and "\<forall>k. i \<le> k \<longrightarrow> \<not> before_ext ld k \<and> ld \<noteq> Some k" "length out = 11" "el \<le> 3"
  shows "46 \<notin> set cs \<and> 32 \<notin> set cs \<and> el + length cs \<le> 3 \<and> r = (bl, blit out (8 + el) (upper cs))"
  using assms
proof (induction cs arbitrary: i el out)
  case Nil
  then show ?case by (simp add: blit_def)
next
  case (Cons c cs)
  have be: "\<not> before_ext ld i" "ld \<noteq> Some i" using Cons.prems(2) by simp_all
  then have c: "c \<noteq> 46" "c \<noteq> 32" "el < 3"
    and run: "short_name_loop cs (Suc i) ld bl (Suc el) (out[8 + el := k_toupper c]) = Some r"
    using Cons.prems(1) by (auto simp: k_is_space_def split: if_splits)
  have "46 \<notin> set cs \<and> 32 \<notin> set cs \<and> Suc el + length cs \<le> 3 \<and>
      r = (bl, blit (out[8 + el := k_toupper c]) (8 + Suc el) (upper cs))"
    using Cons.prems(2,3) c by (intro Cons.IH [OF run]) auto
  moreover have "blit (out[8 + el := k_toupper c]) (8 + Suc el) (upper cs) = blit out (8 + el) (upper (c # cs))"
    using c(3) Cons.prems(3) take_list_update_snoc [of "8 + el" out "k_toupper c"]
    by (simp add: blit_def add.assoc)
  ultimately show ?case using c by simp
qed

text \<open>The padded 11 bytes of a base and an extension.\<close>

definition padded :: "bytes \<Rightarrow> bytes \<Rightarrow> bytes" where
  "padded base ext = base @ replicate (8 - length base) 32 @ ext @ replicate (3 - length ext) 32"

lemma short_name_shape:
  assumes "make_short_name_if_possible name = Some raw"
  shows "\<exists>b e. raw = padded (upper b) (upper e) \<and> name = (if e = [] then b else b @ 46 # e) \<and>
    b \<noteq> [] \<and> length b \<le> 8 \<and> length e \<le> 3 \<and> 32 \<notin> set b \<and> 32 \<notin> set e"
proof -
  obtain n bl where v: "validate_long_name name = Some n" and bl: "bl \<noteq> 0"
    and loop: "short_name_loop name 0 (last_dot_of name) 0 0 (replicate 11 32) = Some (bl, raw)"
    using assms by (auto simp: make_short_name_if_possible_def split: option.splits if_splits)
  have ne: "name \<noteq> []" using validate_long_name_chars(1,2) [OF v] by auto
  show ?thesis
  proof (rule last_dot_of_cases [OF ne])
    assume none: "last_dot_of name = None"
    have "46 \<notin> set name \<and> 32 \<notin> set name \<and> 0 + length name \<le> 8 \<and>
        short_name_loop [] (0 + length name) None (0 + length name) 0 (blit (replicate 11 32) 0 (upper name))
          = Some (bl, raw)"
      using loop none by (intro short_name_loop_base) (auto simp: before_ext_def)
    moreover from this have "blit (replicate 11 32) 0 (upper name) = padded (upper name) []"
      by (simp add: blit_def padded_def replicate_add [symmetric])
    ultimately show ?thesis using ne by (intro exI [of _ name] exI [of _ "[]"]) auto
  next
    fix b e
    assume name: "name = b @ 46 # e" "b \<noteq> []" "e \<noteq> []" and ld: "last_dot_of name = Some (length b)"
    have "46 \<notin> set b \<and> 32 \<notin> set b \<and> 0 + length b \<le> 8 \<and>
        short_name_loop (46 # e) (0 + length b) (Some (length b)) (0 + length b) 0
          (blit (replicate 11 32) 0 (upper b)) = Some (bl, raw)"
      using loop ld name(1) by (intro short_name_loop_base) (auto simp: before_ext_def)
    then have B: "32 \<notin> set b" "length b \<le> 8"
      and rest: "short_name_loop e (Suc (length b)) (Some (length b)) (length b) 0
          (blit (replicate 11 32) 0 (upper b)) = Some (bl, raw)"
      by simp_all
    have "46 \<notin> set e \<and> 32 \<notin> set e \<and> 0 + length e \<le> 3 \<and>
        (bl, raw) = (length b, blit (blit (replicate 11 32) 0 (upper b)) (8 + 0) (upper e))"
      using B by (intro short_name_loop_ext [OF rest]) (auto simp: before_ext_def)
    moreover have "blit (blit (replicate 11 32) 0 (upper b)) 8 (upper e) = padded (upper b) (upper e)"
      if "length e \<le> 3"
      using B(2) that by (simp add: blit_def padded_def)
    ultimately show ?thesis using name B by (intro exI [of _ b] exI [of _ e]) auto
  qed
qed

lemma short_name_listed:
  assumes "make_short_name_if_possible name = Some raw"
  shows "format_short_name raw = upper name \<and> name_equals_ignore_case (format_short_name raw) name"
proof -
  obtain b e where raw: "raw = padded (upper b) (upper e)"
    and name: "name = (if e = [] then b else b @ 46 # e)" "length b \<le> 8" "length e \<le> 3"
      "32 \<notin> set b" "32 \<notin> set e"
    using short_name_shape [OF assms] by blast
  obtain n where v: "validate_long_name name = Some n"
    using assms by (auto simp: make_short_name_if_possible_def split: option.splits)
  have up: "c \<in> set (upper xs) \<Longrightarrow> 32 \<notin> set xs \<Longrightarrow> c \<noteq> 32" for c xs
    using k_toupper_eq_iff [of 32] by auto
  have nul: "nul_free (upper name)" using valid_name_nul_free [OF v] by (auto simp: nul_free_def)
  have t8: "take 8 raw = upper b @ replicate (8 - length b) 32"
    using name by (simp add: raw padded_def)
  have d8: "drop 8 raw = upper e @ replicate (3 - length e) 32"
    using name by (simp add: raw padded_def)
  have base: "takeWhile (\<lambda>c. c \<noteq> 32) (take 8 raw) = upper b"
    unfolding t8 using up [OF _ name(4)] by (subst takeWhile_append2) (auto simp: takeWhile_replicate)
  have t3: "take 3 (drop 8 raw) = upper e @ replicate (3 - length e) 32"
    using name by (simp add: d8)
  have ext: "takeWhile (\<lambda>c. c \<noteq> 32) (take 3 (drop 8 raw)) = upper e"
    unfolding t3 using up [OF _ name(5)] by (subst takeWhile_append2) (auto simp: takeWhile_replicate)
  have has: "(\<exists>i \<in> {8..<11}. raw ! i \<noteq> 32) \<longleftrightarrow> e \<noteq> []"
  proof
    assume "e \<noteq> []"
    then obtain c e' where e: "e = c # e'" by (cases e) auto
    have "length raw = 11" using name by (simp add: raw padded_def)
    then have "raw ! 8 = drop 8 raw ! 0" by simp
    then have "raw ! 8 = k_toupper c" by (simp add: d8 e)
    moreover have "k_toupper c \<noteq> 32" using up [of "k_toupper c" e] name(5) e by simp
    ultimately show "\<exists>i \<in> {8..<11}. raw ! i \<noteq> 32" by (intro bexI [of _ 8]) auto
  next
    assume "\<exists>i \<in> {8..<11}. raw ! i \<noteq> 32"
    then obtain i where i: "8 \<le> i" "i < 11" "raw ! i \<noteq> 32" by auto
    have "length raw = 11" using name by (simp add: raw padded_def)
    then have "raw ! i = drop 8 raw ! (i - 8)" using i by simp
    then show "e \<noteq> []" using i by (auto simp: d8)
  qed
  have "format_short_name raw = cstr (upper name)"
    using name(1) by (simp add: format_short_name_def has base ext k_toupper_eq [of 46])
  also have "\<dots> = upper name" using cstr_append_nul [OF nul, of "[]"] nul
    by (auto simp: cstr_def nul_free_def takeWhile_eq_all_conv)
  finally have eq: "format_short_name raw = upper name" .
  have "name_equals_ignore_case (upper xs) xs" for xs by (induction xs) simp_all
  with eq show ?thesis by simp
qed

lemma short_name_found:
  "make_short_name_if_possible name = Some raw \<Longrightarrow> name_equals_ignore_case (format_short_name raw) name"
  using short_name_listed by blast

text \<open>When a name has an 8.3 form, the directory entry made for it is listed under that name in
  upper case: \<open>format_short_name\<close> inverts \<open>make_short_name_if_possible\<close>, and the lookup's comparison
  accepts it.\<close>

theorem short_name_roundtrip:
  assumes "make_short_name_if_possible name = Some raw"
  shows "format_short_name raw = upper name \<and> name_equals_ignore_case (format_short_name raw) name"
  using assms by (rule short_name_listed)

theorem short_name_roundtrip_witness:
  "make_short_name_if_possible (bytes_of ''kernel.elf'') = Some (bytes_of ''KERNEL  ELF'') \<and>
   format_short_name (bytes_of ''KERNEL  ELF'') = upper (bytes_of ''kernel.elf'')"
proof -
  have "make_short_name_if_possible (bytes_of ''kernel.elf'') = Some (bytes_of ''KERNEL  ELF'')"
    by code_simp
  then show ?thesis using short_name_roundtrip by blast
qed

end
