(* ===== verification/FatLfn.thy ===== *)
theory FatLfn
  imports FatNameProofs
begin

text \<open>
  Directory slots as bytes, and the LFN round trip: the entries \<open>build_name_entries\<close> writes for a
  long name, read back in directory order by \<open>process_lfn_entry\<close>, give that name.
\<close>

subsection \<open>Slots as bytes\<close>

lemma take_map_nth: "n \<le> length b \<Longrightarrow> take n b = map ((!) b) [0..<n]"
  by (intro nth_equalityI) simp_all

lemma drop_eq_nth_list:
  "length b = 32 \<Longrightarrow> drop 11 b = [b ! 11, b ! 12, b ! 13, b ! 14, b ! 15, b ! 16, b ! 17, b ! 18,
     b ! 19, b ! 20, b ! 21, b ! 22, b ! 23, b ! 24, b ! 25, b ! 26, b ! 27, b ! 28, b ! 29, b ! 30, b ! 31]"
  by (simp add: Cons_nth_drop_Suc [symmetric])

lemma bytes_of_entry_of_bytes:
  assumes len: "length b = 32"
  shows "bytes_of_entry (entry_of_bytes b) = b"
proof -
  have "b = take 11 b @ drop 11 b" by simp
  then show ?thesis
    using drop_eq_nth_list [OF len]
    by (simp add: bytes_of_entry_def entry_of_bytes_def le16_at_def le32_at_def le_simps)
qed

lemma entry_first_cluster_set [simp]: "entry_first_cluster (entry_set_first_cluster c e) = c"
proof -
  have m: "(0xFFFF :: u32) = mask 16" by (simp add: mask_eq_exp_minus_1)
  show ?thesis
    unfolding entry_first_cluster_def entry_set_first_cluster_def
    by (rule bit_word_eqI) (auto simp: m bit_simps dest: bit_imp_le_length)
qed

lemma entry_bytes_roundtrip:
  assumes "length (de_name e) = 11"
  shows "entry_of_bytes (bytes_of_entry e) = e \<and> length (bytes_of_entry e) = 32 \<and>
    entry_first_cluster (entry_set_first_cluster c e) = c"
proof -
  have l: "le16_at (de_name e @ xs) (11 + n) = le16_at xs n" "le32_at (de_name e @ xs) (11 + n) = le32_at xs n"
      "(de_name e @ xs) ! (11 + n) = xs ! n" for xs n
    using assms by (simp_all add: le16_at_def le32_at_def nth_append add.commute)
  note at = l [of _ 0] l [of _ 1] l [of _ 2] l [of _ 3] l [of _ 5] l [of _ 7] l [of _ 9] l [of _ 11]
    l [of _ 13] l [of _ 15] l [of _ 17]
  have a: "of_le16 (ucast h) (ucast (drop_bit 8 h)) = h" for h
    using of_le16_le16 [of h] by (simp add: le16_def)
  have b: "of_le32 (ucast w) (ucast (drop_bit 8 w)) (ucast (drop_bit 16 w)) (ucast (drop_bit 24 w)) = w" for w
    using of_le32_le32 [of w] by (simp add: le32_def)
  have "entry_of_bytes (bytes_of_entry e) = e"
    using assms at by (cases e) (simp add: entry_of_bytes_def bytes_of_entry_def le16_def le32_def
        le16_at_def le32_at_def a b nth_append)
  moreover have "length (bytes_of_entry e) = 32" using assms by (simp add: bytes_of_entry_def)
  ultimately show ?thesis using entry_first_cluster_set by blast
qed

text \<open>A directory entry survives the trip through its 32 bytes on disk, with every field and the
  first cluster number intact.\<close>

theorem directory_entry_bytes_roundtrip:
  assumes "length (de_name e) = 11"
  shows "entry_of_bytes (bytes_of_entry e) = e \<and> length (bytes_of_entry e) = 32 \<and>
    entry_first_cluster (entry_set_first_cluster c e) = c"
  using assms by (rule entry_bytes_roundtrip)

theorem directory_entry_bytes_roundtrip_witness:
  "entry_of_bytes (bytes_of_entry (zero_entry\<lparr>de_name := [75, 69, 82, 78, 69, 76, 32, 32, 66, 73, 78]\<rparr>)) =
     zero_entry\<lparr>de_name := [75, 69, 82, 78, 69, 76, 32, 32, 66, 73, 78]\<rparr>"
  using directory_entry_bytes_roundtrip
    [of "zero_entry\<lparr>de_name := [75, 69, 82, 78, 69, 76, 32, 32, 66, 73, 78]\<rparr>" 7]
  by (simp add: zero_entry_def)

lemma length_bytes_of_lfn:
  "length (name1 l) = 5 \<Longrightarrow> length (name2 l) = 6 \<Longrightarrow> length (name3 l) = 2 \<Longrightarrow> length (bytes_of_lfn l) = 32"
proof -
  have "length (concat (map le16 xs)) = 2 * length xs" for xs
    by (induction xs) simp_all
  then show "length (name1 l) = 5 \<Longrightarrow> length (name2 l) = 6 \<Longrightarrow> length (name3 l) = 2 \<Longrightarrow> length (bytes_of_lfn l) = 32"
    by (simp add: bytes_of_lfn_def)
qed

lemma of_le16_parts: "of_le16 (ucast h) (ucast (drop_bit 8 h)) = h"
  using of_le16_le16 [of h] by (simp add: le16_def)

lemma lfn_of_bytes_of_lfn:
  assumes "length (name1 l) = 5" and "length (name2 l) = 6" and "length (name3 l) = 2"
  shows "lfn_of_bytes (bytes_of_lfn l) = l"
proof -
  obtain a0 a1 a2 a3 a4 where a: "name1 l = [a0, a1, a2, a3, a4]"
    using assms(1) by (auto simp: numeral_eq_Suc length_Suc_conv)
  obtain b0 b1 b2 b3 b4 b5 where b: "name2 l = [b0, b1, b2, b3, b4, b5]"
    using assms(2) by (auto simp: numeral_eq_Suc length_Suc_conv)
  obtain c0 c1 where c: "name3 l = [c0, c1]"
    using assms(3) by (auto simp: numeral_eq_Suc length_Suc_conv)
  have u: "[0..<5] = [0, 1, 2, 3, 4 :: nat]" "[0..<6] = [0, 1, 2, 3, 4, 5 :: nat]" "[0..<2] = [0, 1 :: nat]"
    by code_simp+
  show ?thesis
    unfolding lfn_of_bytes_def u bytes_of_lfn_def a b c
    by (cases l) (use a b c in \<open>simp add: le16_at_def le16_def of_le16_parts\<close>)
qed

subsection \<open>Decoding one entry\<close>

text \<open>The whole 128-byte buffer for a name, and the part of it a run of stores has filled in.\<close>

definition name_buffer :: "bytes \<Rightarrow> bytes" where
  "name_buffer name = name @ replicate (128 - length name) 0"

definition overlay :: "nat \<Rightarrow> nat \<Rightarrow> bytes \<Rightarrow> bytes \<Rightarrow> bytes" where
  "overlay lo hi full old = map (\<lambda>j. if lo \<le> j \<and> j < hi \<and> j < 127 then full ! j else old ! j) [0..<128]"

lemma length_overlay [simp]: "length (overlay lo hi full old) = 128"
  by (simp add: overlay_def)

lemma overlay_nth: "j < 128 \<Longrightarrow> overlay lo hi full old ! j =
    (if lo \<le> j \<and> j < hi \<and> j < 127 then full ! j else old ! j)"
  by (simp add: overlay_def)

lemma overlay_overlay: "lo \<le> mid \<Longrightarrow> mid \<le> hi \<Longrightarrow>
    overlay mid hi full (overlay lo mid full old) = overlay lo hi full old"
  by (intro nth_equalityI) (auto simp: overlay_nth)

lemma overlay_extend: "lo \<le> mid \<Longrightarrow> mid \<le> hi \<Longrightarrow>
    overlay lo mid full (overlay mid hi full old) = overlay lo hi full old"
  by (intro nth_equalityI) (auto simp: overlay_nth)

lemma decode_lfn_char_at:
  assumes "validate_long_name name = Some n" and "k < 128"
  shows "decode_lfn_character (lfn_char_at name k) = Some (name_buffer name ! k)"
proof -
  note v = validate_long_name_chars [OF assms(1)]
  show ?thesis
  proof (cases "k < length name")
    case True
    define c where "c = name ! k"
    have c: "32 \<le> uint c" "uint c < 128" "\<not> is_invalid_lfn_character c"
      using v(4,5) [of c] True by (auto simp: c_def)
    have u: "unat (ucast c :: u16) = unat c" "unat c < 128" "32 \<le> unat c"
    proof -
      have "int (unat c) = uint c" by simp
      then show "unat c < 128" "32 \<le> unat c" using c by linarith+
      show "unat (ucast c :: u16) = unat c" by (rule unat_wide_simps)
    qed
    then have "(ucast c :: u16) \<noteq> 0" "(ucast c :: u16) \<noteq> 0xFFFF"
      by (auto simp: word_unat_eq_iff)
    moreover have "(ucast c :: u16) AND 0xFF00 = 0"
    proof (rule bit_word_eqI)
      fix n assume "n < LENGTH(16)"
      have h: "(0xFF00 :: u16) = push_bit 8 (mask 8)" by (simp add: mask_eq_exp_minus_1 push_bit_eq_mult)
      show "bit ((ucast c :: u16) AND 0xFF00) n = bit (0 :: u16) n"
        unfolding h by (auto simp: bit_simps dest: bit_imp_le_length)
    qed
    moreover have "ucast ((ucast c :: u16) AND 0xFF) = c"
    proof (rule bit_word_eqI)
      fix n assume "n < LENGTH(8)"
      have h: "(0xFF :: u16) = mask 8" by (simp add: mask_eq_exp_minus_1)
      show "bit (ucast ((ucast c :: u16) AND 0xFF) :: u8) n = bit c n"
        unfolding h using \<open>n < LENGTH(8)\<close> by (auto simp: bit_simps)
    qed
    ultimately show ?thesis
      using True c by (simp add: decode_lfn_character_def lfn_char_at_def name_buffer_def nth_append c_def [symmetric])
  next
    case False
    then have "name_buffer name ! k = 0" using assms(2) by (simp add: name_buffer_def nth_append)
    then show ?thesis using False by (simp add: decode_lfn_character_def lfn_char_at_def)
  qed
qed

lemma lfn_store_segment_eq:
  assumes "validate_long_name name = Some n" and "length old = 128" and "lo + m \<le> 256"
    and tail: "\<And>k. 128 \<le> k \<Longrightarrow> k < lo + m \<Longrightarrow> decode_lfn_character (lfn_char_at name k) = Some 0"
  shows "lfn_store_segment (map (lfn_char_at name) [lo..<lo + m]) lo old =
    (True, overlay lo (lo + m) (name_buffer name) old)"
  using assms(2-4)
proof (induction m arbitrary: lo old)
  case 0
  have "overlay lo lo (name_buffer name) old = old"
    using 0 by (intro nth_equalityI) (auto simp: overlay_nth)
  then show ?case by simp
next
  case (Suc m)
  have up: "[lo..<lo + Suc m] = lo # [Suc lo..<Suc lo + m]" by (simp add: upt_conv_Cons)
  obtain c where c: "decode_lfn_character (lfn_char_at name lo) = Some c" "lo < 128 \<longrightarrow> c = name_buffer name ! lo"
    using decode_lfn_char_at [OF assms(1), of lo] Suc.prems(3) [of lo] by (cases "lo < 128") auto
  have "overlay (Suc lo) (Suc lo + m) (name_buffer name) (lfn_store_character old lo c) =
      overlay lo (lo + Suc m) (name_buffer name) old"
  proof (rule nth_equalityI)
    fix j assume "j < length (overlay (Suc lo) (Suc lo + m) (name_buffer name) (lfn_store_character old lo c))"
    then have j: "j < 128" by simp
    show "overlay (Suc lo) (Suc lo + m) (name_buffer name) (lfn_store_character old lo c) ! j =
        overlay lo (lo + Suc m) (name_buffer name) old ! j"
      using c(2) Suc.prems(1) j by (cases "j = lo")
        (auto simp: overlay_nth lfn_store_character_def FAT32_NAME_CAPACITY_def)
  qed simp
  moreover have "length (lfn_store_character old lo c) = 128"
    using Suc.prems(1) by (simp add: lfn_store_character_def)
  ultimately show ?case
    unfolding up using c(1) Suc.IH [of "lfn_store_character old lo c" "Suc lo"] Suc.prems by simp
qed

lemma decode_padding:
  assumes "validate_long_name name = Some n" and "128 \<le> k"
  shows "decode_lfn_character (lfn_char_at name k) = Some 0"
  using validate_long_name_chars(1,3) [OF assms(1)] assms(2)
  by (simp add: lfn_char_at_def decode_lfn_character_def)

lemma lfn_store_name_eq:
  assumes v: "validate_long_name name = Some n" and old: "length (lfn_name st) = 128" "lfn_name st ! 127 = 0"
    and lo: "lo + 13 \<le> 256"
  shows "lfn_store_name (fill_lfn_name_segment name lo l) lo st =
    st\<lparr>lfn_name := overlay lo (lo + 13) (name_buffer name) (lfn_name st)\<rparr>"
proof -
  let ?B = "name_buffer name" and ?l = "fill_lfn_name_segment name lo l"
  have shift: "map (\<lambda>i. lfn_char_at name (a + i)) [0..<m] = map (lfn_char_at name) [a..<a + m]" for a m
    by (intro nth_equalityI) simp_all
  have s1: "lfn_store_segment (name1 ?l) lo (lfn_name st) = (True, overlay lo (lo + 5) ?B (lfn_name st))"
    using lfn_store_segment_eq [OF v old(1), of lo 5] decode_padding [OF v] lo
    by (simp add: fill_lfn_name_segment_def shift)
  have s2: "lfn_store_segment (name2 ?l) (lo + 5) o1 = (True, overlay (lo + 5) (lo + 5 + 6) ?B o1)"
    if "length o1 = 128" for o1
    using lfn_store_segment_eq [OF v that, of "lo + 5" 6] decode_padding [OF v] lo
    by (simp add: fill_lfn_name_segment_def shift)
  have s3: "lfn_store_segment (name3 ?l) (lo + 11) o1 = (True, overlay (lo + 11) (lo + 11 + 2) ?B o1)"
    if "length o1 = 128" for o1
    using lfn_store_segment_eq [OF v that, of "lo + 11" 2] decode_padding [OF v] lo
    by (simp add: fill_lfn_name_segment_def shift)
  have e: "lo + 5 + 6 = lo + 11" "lo + 11 + 2 = lo + 13" by simp_all
  let ?all = "overlay lo (lo + 13) ?B (lfn_name st)"
  have all: "overlay (lo + 11) (lo + 13) ?B (overlay (lo + 5) (lo + 11) ?B (overlay lo (lo + 5) ?B (lfn_name st))) = ?all"
    by (simp add: overlay_overlay)
  have "?all ! 127 = 0" using old(2) by (simp add: overlay_nth)
  then have "0 \<in> set ?all" by (auto simp: in_set_conv_nth intro!: exI [of _ 127])
  then have "lfn_terminate_name ?all = ?all" by (simp add: lfn_terminate_name_def)
  then show ?thesis
    unfolding lfn_store_name_def s1 Let_def prod.case s2 [OF length_overlay] s3 [OF length_overlay] e all
    by simp
qed

subsection \<open>Decoding the entries of a name\<close>

lemma order_bits:
  assumes "1 \<le> n" and "n \<le> 10"
  shows "(of_nat n :: u8) AND FAT32_LFN_ENTRY_MASK = of_nat n" "(of_nat n :: u8) AND FAT32_LFN_LAST = 0"
    "((of_nat n :: u8) OR FAT32_LFN_LAST) AND FAT32_LFN_ENTRY_MASK = of_nat n"
    "((of_nat n :: u8) OR FAT32_LFN_LAST) AND FAT32_LFN_LAST \<noteq> 0"
    "(of_nat n :: u8) \<noteq> 0" "uint (of_nat n :: u8) = int n" "unat ((of_nat n :: u8) - 1) = n - 1"
proof -
  have "n = 1 \<or> n = 2 \<or> n = 3 \<or> n = 4 \<or> n = 5 \<or> n = 6 \<or> n = 7 \<or> n = 8 \<or> n = 9 \<or> n = 10"
    using assms by presburger
  then show "(of_nat n :: u8) AND FAT32_LFN_ENTRY_MASK = of_nat n" "(of_nat n :: u8) AND FAT32_LFN_LAST = 0"
    "((of_nat n :: u8) OR FAT32_LFN_LAST) AND FAT32_LFN_ENTRY_MASK = of_nat n"
    "((of_nat n :: u8) OR FAT32_LFN_LAST) AND FAT32_LFN_LAST \<noteq> 0"
    "(of_nat n :: u8) \<noteq> 0" "uint (of_nat n :: u8) = int n" "unat ((of_nat n :: u8) - 1) = n - 1"
    by (elim disjE; simp add: FAT32_LFN_ENTRY_MASK_def FAT32_LFN_LAST_def)+
qed

lemma lfn_of_entry:
  assumes "i < count"
  shows "lfn_of_bytes (bytes_of_entry (lfn_entry name checksum count i)) =
    fill_lfn_name_segment name ((count - i - 1) * 13)
      \<lparr>lfn_order = (if i = 0 then of_nat (count - i) OR FAT32_LFN_LAST else of_nat (count - i)),
       name1 = [], lfn_attributes = FAT32_LFN, entry_type = 0, lfn_checksum = checksum, name2 = [],
       lfn_first_cluster_low = 0, name3 = []\<rparr>"
proof -
  let ?l = "fill_lfn_name_segment name ((count - i - 1) * 13)
      \<lparr>lfn_order = (if i = 0 then of_nat (count - i) OR FAT32_LFN_LAST else of_nat (count - i)),
       name1 = [], lfn_attributes = FAT32_LFN, entry_type = 0, lfn_checksum = checksum, name2 = [],
       lfn_first_cluster_low = 0, name3 = []\<rparr>"
  have len: "length (name1 ?l) = 5" "length (name2 ?l) = 6" "length (name3 ?l) = 2"
    by (simp_all add: fill_lfn_name_segment_def)
  have "bytes_of_entry (lfn_entry name checksum count i) = bytes_of_lfn ?l"
    unfolding lfn_entry_def Let_def using length_bytes_of_lfn [OF len] by (rule bytes_of_entry_of_bytes)
  then show ?thesis using lfn_of_bytes_of_lfn [OF len] by simp
qed

definition lfn_after :: "bytes \<Rightarrow> u8 \<Rightarrow> nat \<Rightarrow> nat \<Rightarrow> LfnState" where
  "lfn_after name checksum count order =
     \<lparr>lfn_active = True, lfn_valid = True, lfn_sum = checksum, expected_order = of_nat order,
      lfn_name = overlay ((order - 1) * 13) (count * 13) (name_buffer name) (replicate 128 0)\<rparr>"

lemma process_first_entry:
  assumes v: "validate_long_name name = Some n" and count: "1 \<le> count" "count \<le> 10"
  shows "process_lfn_entry (lfn_entry name checksum count 0) st = lfn_after name checksum count count"
proof -
  note ob = order_bits [OF count]
  let ?st = "\<lparr>lfn_active = True, lfn_valid = True, lfn_sum = checksum, expected_order = of_nat count,
      lfn_name = replicate 128 0\<rparr>"
  let ?l = "fill_lfn_name_segment name ((count - 1) * 13)
      \<lparr>lfn_order = of_nat count OR FAT32_LFN_LAST,
       name1 = [], lfn_attributes = FAT32_LFN, entry_type = 0, lfn_checksum = checksum, name2 = [],
       lfn_first_cluster_low = 0, name3 = []\<rparr>"
  have l: "lfn_of_bytes (bytes_of_entry (lfn_entry name checksum count 0)) = ?l"
    using lfn_of_entry [of 0 count name checksum] count by simp
  have f: "lfn_order ?l = of_nat count OR FAT32_LFN_LAST" "lfn_checksum ?l = checksum"
    by (simp_all add: fill_lfn_name_segment_def)
  have "(count - 1) * 13 + 13 \<le> 256" "(count - 1) * 13 + 13 = count * 13" using count by simp_all
  then have s: "lfn_store_name ?l ((count - 1) * 13) ?st = lfn_after name checksum count count"
    using lfn_store_name_eq [OF v, of ?st "(count - 1) * 13"] by (simp add: lfn_after_def)
  show ?thesis
    unfolding process_lfn_entry_def l Let_def f ob(3,7) FAT32_NAME_CAPACITY_def
    using ob(4,5) s by simp
qed

lemma process_next_entry:
  assumes v: "validate_long_name name = Some n" and i: "0 < i" "i < count" and count: "count \<le> 10"
  shows "process_lfn_entry (lfn_entry name checksum count i) (lfn_after name checksum count (count - i + 1)) =
    lfn_after name checksum count (count - i)"
proof -
  define k where "k = count - i"
  have k: "1 \<le> k" "k \<le> 10" "k + 1 \<le> 10" "k < count" using i count by (auto simp: k_def)
  note ob = order_bits [OF k(1,2)] and ob1 = order_bits [of "k + 1"]
  let ?l = "fill_lfn_name_segment name ((k - 1) * 13)
      \<lparr>lfn_order = of_nat k,
       name1 = [], lfn_attributes = FAT32_LFN, entry_type = 0, lfn_checksum = checksum, name2 = [],
       lfn_first_cluster_low = 0, name3 = []\<rparr>"
  have l: "lfn_of_bytes (bytes_of_entry (lfn_entry name checksum count i)) = ?l"
    using lfn_of_entry [of i count name checksum] i by (simp add: k_def)
  have f: "lfn_order ?l = of_nat k" "lfn_checksum ?l = checksum"
    by (simp_all add: fill_lfn_name_segment_def)
  let ?st = "lfn_after name checksum count (k + 1)"
  have up: "uint (expected_order ?st) = int k + 1"
    using ob1 k by (simp add: lfn_after_def)
  have len: "length (lfn_name (?st\<lparr>expected_order := of_nat k\<rparr>)) = 128"
      "lfn_name (?st\<lparr>expected_order := of_nat k\<rparr>) ! 127 = 0"
    by (simp_all add: lfn_after_def overlay_nth)
  have le: "(k - 1) * 13 + 13 \<le> 256" "(k - 1) * 13 + 13 = k * 13" using k by simp_all
  have "overlay ((k - 1) * 13) (k * 13) (name_buffer name) (overlay (k * 13) (count * 13) (name_buffer name) (replicate 128 0))
      = overlay ((k - 1) * 13) (count * 13) (name_buffer name) (replicate 128 0)"
    using k by (intro overlay_extend) simp_all
  then have s: "lfn_store_name ?l ((k - 1) * 13) (?st\<lparr>expected_order := of_nat k\<rparr>) = lfn_after name checksum count k"
    using lfn_store_name_eq [OF v len le(1)] le(2) by (simp add: lfn_after_def)
  have "process_lfn_entry (lfn_entry name checksum count i) ?st = lfn_after name checksum count k"
    unfolding process_lfn_entry_def l Let_def f ob(1,2,7)
    using ob(5,6) up s by (simp add: lfn_after_def)
  then show ?thesis by (simp add: k_def)
qed

lemma process_entries:
  assumes "validate_long_name name = Some n" and "i < count" and "count \<le> 10"
  shows "fold process_lfn_entry (map (lfn_entry name checksum count) [0..<Suc i]) st =
    lfn_after name checksum count (count - i)"
  using assms(2)
proof (induction i)
  case 0
  then show ?case using process_first_entry [OF assms(1) _ assms(3)] by simp
next
  case (Suc i)
  then have "count - Suc i + 1 = count - i" by simp
  then show ?case
    using Suc process_next_entry [OF assms(1), of "Suc i" count checksum] assms(3) by simp
qed

lemma lfn_entries_decode:
  assumes v: "validate_long_name name = Some n" and short: "length short = 11"
  defines "count \<equiv> lfn_entry_count_for_name name"
  shows "count + 1 \<le> FAT32_MAX_NAME_ENTRIES \<and>
    fold process_lfn_entry (butlast (name_entries name short count attrs c sz)) st =
      lfn_after name (short_name_checksum short) count 1 \<and>
    decode_directory_entry_name (last (name_entries name short count attrs c sz))
      (fold process_lfn_entry (butlast (name_entries name short count attrs c sz)) st) = name"
proof -
  note chars = validate_long_name_chars [OF v]
  have count: "1 \<le> count" "count \<le> 10" "length name \<le> count * 13"
  proof -
    have "1 \<le> length name" "length name < 128" using chars(1-3) by (simp_all add: Suc_le_eq)
    then show "1 \<le> count" "count \<le> 10" "length name \<le> count * 13"
      unfolding count_def lfn_entry_count_for_name_def by presburger+
  qed
  let ?cs = "short_name_checksum short"
  have "fold process_lfn_entry (butlast (name_entries name short count attrs c sz)) st =
      fold process_lfn_entry (map (lfn_entry name ?cs count) [0..<Suc (count - 1)]) st"
    using count by (simp add: name_entries_def butlast_append)
  also have "\<dots> = lfn_after name ?cs count 1"
    using process_entries [OF v, of "count - 1" count ?cs st] count by simp
  finally have st: "fold process_lfn_entry (butlast (name_entries name short count attrs c sz)) st =
      lfn_after name ?cs count 1" .
  have buf: "lfn_name (lfn_after name ?cs count 1) = name_buffer name"
  proof (rule nth_equalityI)
    show "length (lfn_name (lfn_after name ?cs count 1)) = length (name_buffer name)"
      using chars by (simp add: lfn_after_def name_buffer_def)
    fix j assume "j < length (lfn_name (lfn_after name ?cs count 1))"
    then have j: "j < 128" by (simp add: lfn_after_def)
    have "name_buffer name ! j = 0" if "count * 13 \<le> j \<or> j = 127"
      using that j count(3) chars(1,3) by (auto simp: name_buffer_def nth_append)
    then show "lfn_name (lfn_after name ?cs count 1) ! j = name_buffer name ! j"
      using j by (auto simp: lfn_after_def overlay_nth)
  qed
  obtain x xs where name: "name = x # xs" using chars(1,2) by (cases name) auto
  have nul: "nul_free name" using valid_name_nul_free [OF v] .
  have rep: "replicate (128 - length name) (0 :: u8) = 0 # replicate (127 - length name) 0"
    using chars(1,3) by (cases "128 - length name") (auto simp: Suc_diff_le)
  have cs: "cstr (name_buffer name) = name" unfolding name_buffer_def rep using nul by simp
  have head: "name_buffer name ! 0 \<noteq> 0" using nul by (simp add: name_buffer_def name)
  have last: "last (name_entries name short count attrs c sz) = short_entry short attrs c sz"
    by (simp add: name_entries_def)
  have dn: "de_name (short_entry short attrs c sz) = short"
    by (simp add: short_entry_def entry_set_first_cluster_def zero_entry_def)
  have "lfn_complete (short_entry short attrs c sz) (lfn_after name ?cs count 1)"
    unfolding lfn_complete_def dn by (simp add: lfn_after_def)
  then show ?thesis
    using count unfolding st last decode_directory_entry_name_def buf cs
    using head by (simp add: FAT32_MAX_NAME_ENTRIES_def)
qed

text \<open>C17: for every name the driver accepts, the LFN entries \<open>build_name_entries\<close> writes, read back in
  directory order from any decoder state, make the entry after them decode to exactly that name.\<close>

theorem lfn_roundtrip:
  assumes v: "validate_long_name name = Some n" and short: "length short = 11"
  defines "count \<equiv> lfn_entry_count_for_name name"
  shows "count + 1 \<le> FAT32_MAX_NAME_ENTRIES \<and>
    decode_directory_entry_name (last (name_entries name short count attrs c sz))
      (fold process_lfn_entry (butlast (name_entries name short count attrs c sz)) st) = name"
  unfolding count_def using lfn_entries_decode [OF v short] by blast

theorem lfn_roundtrip_witness:
  "decode_directory_entry_name
     (last (name_entries (bytes_of ''Release notes.txt'') (replicate 11 65) 2 0x20 5 100))
     (fold process_lfn_entry
        (butlast (name_entries (bytes_of ''Release notes.txt'') (replicate 11 65) 2 0x20 5 100)) lfn_initial)
   = bytes_of ''Release notes.txt''"
proof -
  have v: "validate_long_name (bytes_of ''Release notes.txt'') = Some 17" by code_simp
  have c: "lfn_entry_count_for_name (bytes_of ''Release notes.txt'') = 2" by code_simp
  show ?thesis
    using lfn_roundtrip [OF v, of "replicate 11 65" "0x20" 5 100 lfn_initial] unfolding c by simp
qed

end
