(* ===== verification/FatDir.thy ===== *)
theory FatDir
  imports FatTable FatNames
begin

text \<open>
  Directories in \<open>src/kernel/fat32.c\<close>: reading and writing single entries, scanning a directory's
  chain for a name, for a free run of entries, for a short name or for emptiness, and building the
  entries of a new name. A scan of one cluster is a recursion over its slots; the walk along the
  chain is a partial function, \<open>None\<close> when a cyclic chain makes it run forever. \<open>None\<close> also stands
  for a store outside an array.
\<close>

record EntryRef =
  directory_first_cluster :: u32
  entry_index :: u32
  lfn_entry_count :: u32
  er_entry :: DirectoryEntry

record DirectoryRef =
  dir_is_root :: bool
  dir_first_cluster :: u32

subsection \<open>Single entries\<close>

definition slot :: "bytes \<Rightarrow> nat \<Rightarrow> DirectoryEntry" where
  "slot buf i = entry_of_bytes (take 32 (drop (32 * i) buf))"

text \<open>The entries of the cluster in the buffer.\<close>

definition cluster_entries :: "'d fat_state \<Rightarrow> DirectoryEntry list" where
  "cluster_entries s = map (slot (g_cluster_buffer s)) [0..<unat (entries_per_cluster s)]"

definition cluster_for_directory_index :: "u32 \<Rightarrow> u32 \<Rightarrow> 'd fat_state \<Rightarrow> u32 \<times> u32" where
  "cluster_for_directory_index first_cluster index s =
     (chain_walk (unat (index div entries_per_cluster s)) first_cluster s,
      index mod entries_per_cluster s)"

definition read_directory_entry ::
  "u32 \<Rightarrow> u32 \<Rightarrow> 'd fat_state \<Rightarrow> Fat32Result \<times> DirectoryEntry option \<times> 'd fat_state" where
  "read_directory_entry first_cluster index s =
     (let (cluster, i) = cluster_for_directory_index first_cluster index s in
      if \<not> in_chain cluster then (FAT32_NOT_FOUND, None, s)
      else let (ok, s') = read_cluster cluster s in
        if \<not> ok then (FAT32_IO_ERROR, None, s')
        else (FAT32_OK, Some (slot (g_cluster_buffer s') (unat i)), s'))"

definition write_directory_entry ::
  "u32 \<Rightarrow> u32 \<Rightarrow> DirectoryEntry \<Rightarrow> 'd fat_state \<Rightarrow> Fat32Result \<times> 'd fat_state" where
  "write_directory_entry first_cluster index e s =
     (let (cluster, i) = cluster_for_directory_index first_cluster index s in
      if \<not> in_chain cluster then (FAT32_IO_ERROR, s)
      else let (ok, s1) = read_cluster cluster s in
        if \<not> ok then (FAT32_IO_ERROR, s1)
        else let (ok', s2) = write_cluster cluster
               (s1\<lparr>g_cluster_buffer := blit (g_cluster_buffer s1) (32 * unat i) (bytes_of_entry e)\<rparr>)
             in (if ok' then FAT32_OK else FAT32_IO_ERROR, s2))"

definition write_entry_at :: "EntryRef \<Rightarrow> DirectoryEntry \<Rightarrow> 'd fat_state \<Rightarrow> Fat32Result \<times> 'd fat_state" where
  "write_entry_at ref e s = write_directory_entry (directory_first_cluster ref) (entry_index ref) e s"

fun write_entry_span_at ::
  "u32 \<Rightarrow> u32 \<Rightarrow> DirectoryEntry list \<Rightarrow> 'd fat_state \<Rightarrow> Fat32Result \<times> 'd fat_state" where
  "write_entry_span_at first_cluster start_index [] s = (FAT32_OK, s)"
| "write_entry_span_at first_cluster start_index (e # es) s =
     (let (result, s') = write_directory_entry first_cluster start_index e s in
      if result \<noteq> FAT32_OK then (result, s')
      else write_entry_span_at first_cluster (start_index + 1) es s')"

fun mark_range_loop :: "nat \<Rightarrow> u32 \<Rightarrow> u32 \<Rightarrow> 'd fat_state \<Rightarrow> Fat32Result \<times> 'd fat_state" where
  "mark_range_loop 0 first_cluster index s = (FAT32_OK, s)"
| "mark_range_loop (Suc n) first_cluster index s =
     (case read_directory_entry first_cluster index s of
        (result, Some e, s1) \<Rightarrow>
          (let (result', s2) = write_directory_entry first_cluster index
                 (e\<lparr>de_name := (de_name e)[0 := FAT32_DELETED]\<rparr>) s1
           in if result' \<noteq> FAT32_OK then (result', s2)
              else mark_range_loop n first_cluster (index + 1) s2)
      | (result, None, s1) \<Rightarrow> (result, s1))"

definition mark_entry_range_deleted :: "u32 \<Rightarrow> u32 \<Rightarrow> u32 \<Rightarrow> 'd fat_state \<Rightarrow> Fat32Result \<times> 'd fat_state" where
  "mark_entry_range_deleted first_cluster start_index count s =
     mark_range_loop (unat count) first_cluster start_index s"

definition mark_entry_deleted :: "EntryRef \<Rightarrow> 'd fat_state \<Rightarrow> Fat32Result \<times> 'd fat_state" where
  "mark_entry_deleted ref s =
     mark_range_loop (unat (lfn_entry_count ref + 1)) (directory_first_cluster ref)
       (entry_index ref - lfn_entry_count ref) s"

definition update_directory_parent :: "u32 \<Rightarrow> u32 \<Rightarrow> 'd fat_state \<Rightarrow> Fat32Result \<times> 'd fat_state" where
  "update_directory_parent dir_cluster parent_cluster s =
     (let (ok, s1) = read_cluster dir_cluster s in
      if \<not> ok then (FAT32_IO_ERROR, s1)
      else let (ok', s2) = write_cluster dir_cluster
             (s1\<lparr>g_cluster_buffer := blit (g_cluster_buffer s1) 32 (bytes_of_entry
                (entry_set_first_cluster parent_cluster (slot (g_cluster_buffer s1) 1)))\<rparr>)
           in (if ok' then FAT32_OK else FAT32_IO_ERROR, s2))"

subsection \<open>Looking a name up\<close>

text \<open>The scan of one cluster's entries: stopped at the end mark, found at an index with the decoder
  state, or through to the next cluster.\<close>

datatype find_step = Find_end | Find_hit u32 DirectoryEntry LfnState | Find_more LfnState

fun find_in_entries :: "DirectoryEntry list \<Rightarrow> u32 \<Rightarrow> bytes \<Rightarrow> LfnState \<Rightarrow> find_step" where
  "find_in_entries [] i name lfn = Find_more lfn"
| "find_in_entries (e # es) i name lfn =
     (if de_name e ! 0 = 0 then Find_end
      else if de_name e ! 0 = FAT32_DELETED then find_in_entries es (i + 1) name (lfn_state_reset lfn)
      else if attributes e = FAT32_LFN then find_in_entries es (i + 1) name (process_lfn_entry e lfn)
      else if should_skip_entry e then find_in_entries es (i + 1) name (lfn_state_reset lfn)
      else if name_equals_ignore_case (decode_directory_entry_name e lfn) name then Find_hit i e lfn
      else find_in_entries es (i + 1) name (lfn_state_reset lfn))"

text \<open>The LFN entries directly before entry \<open>j\<close>, read back one by one.\<close>

fun count_lfn_before :: "u32 \<Rightarrow> nat \<Rightarrow> 'd fat_state \<Rightarrow> nat \<times> 'd fat_state" where
  "count_lfn_before first_cluster 0 s = (0, s)"
| "count_lfn_before first_cluster (Suc j) s =
     (case read_directory_entry first_cluster (of_nat j) s of
        (result, Some e, s1) \<Rightarrow>
          if attributes e \<noteq> FAT32_LFN then (0, s1)
          else let (n, s2) = count_lfn_before first_cluster j s1 in (Suc n, s2)
      | (result, None, s1) \<Rightarrow> (0, s1))"

partial_function (option) find_entry_loop ::
  "u32 \<Rightarrow> u32 \<Rightarrow> u32 \<Rightarrow> bytes \<Rightarrow> LfnState \<Rightarrow> 'd fat_state
     \<Rightarrow> (Fat32Result \<times> EntryRef option \<times> 'd fat_state) option" where
  "find_entry_loop first_cluster cluster base_index name lfn s =
     (if \<not> in_chain cluster then Some (FAT32_NOT_FOUND, None, s)
      else case read_cluster cluster s of (ok, s1) \<Rightarrow>
        if \<not> ok then Some (FAT32_IO_ERROR, None, s1)
        else case find_in_entries (cluster_entries s1) base_index name lfn of
          Find_end \<Rightarrow> Some (FAT32_NOT_FOUND, None, s1)
        | Find_hit j e lfn' \<Rightarrow>
            (case (if lfn_complete e lfn' then count_lfn_before first_cluster (unat j) s1 else (0, s1)) of
               (n, s2) \<Rightarrow> Some (FAT32_OK, Some \<lparr>directory_first_cluster = first_cluster, entry_index = j,
                             lfn_entry_count = of_nat n, er_entry = e\<rparr>, s2))
        | Find_more lfn' \<Rightarrow> find_entry_loop first_cluster (fat32_next_cluster cluster s1)
            (base_index + entries_per_cluster s1) name lfn' s1)"

definition find_entry_in_cluster_dir ::
  "u32 \<Rightarrow> bytes \<Rightarrow> 'd fat_state \<Rightarrow> (Fat32Result \<times> EntryRef option \<times> 'd fat_state) option" where
  "find_entry_in_cluster_dir first_cluster name s =
     find_entry_loop first_cluster first_cluster 0 name lfn_initial s"

definition find_entry_in_directory ::
  "DirectoryRef \<Rightarrow> bytes \<Rightarrow> 'd fat_state \<Rightarrow> (Fat32Result \<times> EntryRef option \<times> 'd fat_state) option" where
  "find_entry_in_directory d name s = find_entry_in_cluster_dir (dir_first_cluster d) name s"

subsection \<open>Free entries, emptiness, short names\<close>

text \<open>The run of free entries: found with its start, or carried to the next cluster.\<close>

fun free_run :: "DirectoryEntry list \<Rightarrow> u32 \<Rightarrow> u32 \<Rightarrow> u32 \<Rightarrow> u32 \<Rightarrow> u32 + u32 \<times> u32" where
  "free_run [] i needed run_start run_count = Inr (run_start, run_count)"
| "free_run (e # es) i needed run_start run_count =
     (if de_name e ! 0 = 0 \<or> de_name e ! 0 = FAT32_DELETED then
        let run_start' = (if run_count = 0 then i else run_start); run_count' = run_count + 1
        in if run_count' \<ge> needed then Inl run_start'
           else free_run es (i + 1) needed run_start' run_count'
      else free_run es (i + 1) needed run_start 0)"

text \<open>The chain is extended when no cluster of it has the run; the index of the first entry to use.\<close>

definition extend_directory ::
  "u32 \<Rightarrow> u32 \<Rightarrow> u32 \<Rightarrow> u32 \<Rightarrow> 'd fat_state \<Rightarrow> (Fat32Result \<times> u32 \<times> 'd fat_state) option" where
  "extend_directory first_cluster base_index run_start run_count s = do {
     (result, new_cluster, s1) \<leftarrow> append_cluster_to_chain first_cluster s;
     if result \<noteq> FAT32_OK then Some (result, 0, s1)
     else let (result', s2) = zero_cluster new_cluster s1 in
       if result' \<noteq> FAT32_OK then Some (result', 0, s2)
       else let (ok, s3) = flush_fat s2 in
         if \<not> ok then Some (FAT32_IO_ERROR, 0, s3)
         else Some (FAT32_OK, if run_count \<noteq> 0 then run_start else base_index, s3) }"

partial_function (option) find_free_entry_loop ::
  "u32 \<Rightarrow> u32 \<Rightarrow> u32 \<Rightarrow> u32 \<Rightarrow> u32 \<Rightarrow> u32 \<Rightarrow> 'd fat_state
     \<Rightarrow> (Fat32Result \<times> u32 \<times> 'd fat_state) option" where
  "find_free_entry_loop first_cluster cluster base_index needed run_start run_count s =
     (if \<not> in_chain cluster then extend_directory first_cluster base_index run_start run_count s
      else case read_cluster cluster s of (ok, s1) \<Rightarrow>
        if \<not> ok then Some (FAT32_IO_ERROR, 0, s1)
        else case free_run (cluster_entries s1) base_index needed run_start run_count of
          Inl start \<Rightarrow> Some (FAT32_OK, start, s1)
        | Inr (run_start', run_count') \<Rightarrow>
            (if fat32_next_cluster cluster s1 \<ge> FAT32_END_OF_CHAIN
             then extend_directory first_cluster (base_index + entries_per_cluster s1) run_start' run_count' s1
             else find_free_entry_loop first_cluster (fat32_next_cluster cluster s1)
                    (base_index + entries_per_cluster s1) needed run_start' run_count' s1))"

definition find_free_entry_in_directory ::
  "DirectoryRef \<Rightarrow> u32 \<Rightarrow> 'd fat_state \<Rightarrow> (Fat32Result \<times> u32 \<times> 'd fat_state) option" where
  "find_free_entry_in_directory d needed s =
     find_free_entry_loop (dir_first_cluster d) (dir_first_cluster d) 0 needed 0 0 s"

definition directory_entry_is_special :: "DirectoryEntry \<Rightarrow> bool" where
  "directory_entry_is_special e \<longleftrightarrow> de_name e ! 0 = 46"

text \<open>The answer of one cluster of \<open>directory_is_empty\<close>, or the decoder state for the next.\<close>

fun empty_scan :: "DirectoryEntry list \<Rightarrow> LfnState \<Rightarrow> bool + LfnState" where
  "empty_scan [] lfn = Inr lfn"
| "empty_scan (e # es) lfn =
     (if de_name e ! 0 = 0 then Inl True
      else if de_name e ! 0 = FAT32_DELETED then empty_scan es (lfn_state_reset lfn)
      else if attributes e = FAT32_LFN then empty_scan es (process_lfn_entry e lfn)
      else if should_skip_entry e then empty_scan es (lfn_state_reset lfn)
      else if directory_entry_is_special e then empty_scan es lfn
      else Inl False)"

partial_function (option) empty_loop :: "u32 \<Rightarrow> LfnState \<Rightarrow> 'd fat_state \<Rightarrow> (bool \<times> 'd fat_state) option" where
  "empty_loop cluster lfn s =
     (if \<not> in_chain cluster then Some (True, s)
      else case read_cluster cluster s of (ok, s1) \<Rightarrow>
        if \<not> ok then Some (False, s1)
        else case empty_scan (cluster_entries s1) lfn of
          Inl answer \<Rightarrow> Some (answer, s1)
        | Inr lfn' \<Rightarrow> empty_loop (fat32_next_cluster cluster s1) lfn' s1)"

definition directory_is_empty :: "u32 \<Rightarrow> 'd fat_state \<Rightarrow> (bool \<times> 'd fat_state) option" where
  "directory_is_empty first_cluster s = empty_loop first_cluster lfn_initial s"

fun short_name_scan :: "DirectoryEntry list \<Rightarrow> bytes \<Rightarrow> bytes option \<Rightarrow> bool option" where
  "short_name_scan [] short_name ignore = None"
| "short_name_scan (e # es) short_name ignore =
     (if de_name e ! 0 = 0 then Some False
      else if de_name e ! 0 = FAT32_DELETED \<or> attributes e = FAT32_LFN
      then short_name_scan es short_name ignore
      else if attributes e AND FAT32_VOLUME_ID \<noteq> 0 then short_name_scan es short_name ignore
      else if ignore \<noteq> None \<and> de_name e = the ignore then short_name_scan es short_name ignore
      else if de_name e = short_name then Some True
      else short_name_scan es short_name ignore)"

text \<open>A read error is answered \<open>true\<close>, as in the code.\<close>

partial_function (option) short_name_exists_in_directory ::
  "u32 \<Rightarrow> bytes \<Rightarrow> bytes option \<Rightarrow> 'd fat_state \<Rightarrow> (bool \<times> 'd fat_state) option" where
  "short_name_exists_in_directory cluster short_name ignore s =
     (if \<not> in_chain cluster then Some (False, s)
      else case read_cluster cluster s of (ok, s1) \<Rightarrow>
        if \<not> ok then Some (True, s1)
        else case short_name_scan (cluster_entries s1) short_name ignore of
          Some answer \<Rightarrow> Some (answer, s1)
        | None \<Rightarrow> short_name_exists_in_directory (fat32_next_cluster cluster s1) short_name ignore s1)"

subsection \<open>Entries for a new name\<close>

partial_function (option) alias_loop ::
  "u32 \<Rightarrow> bytes \<Rightarrow> bytes option \<Rightarrow> u32 \<Rightarrow> 'd fat_state \<Rightarrow> (bytes \<times> 'd fat_state) option" where
  "alias_loop directory_cluster name ignore ordinal s =
     (case build_short_alias name ordinal of
        None \<Rightarrow> None
      | Some short_name \<Rightarrow>
          (case short_name_exists_in_directory directory_cluster short_name ignore s of
             None \<Rightarrow> None
           | Some (taken, s1) \<Rightarrow>
               if taken then alias_loop directory_cluster name ignore (ordinal + 1) s1
               else Some (short_name, s1)))"

definition build_name_entries ::
  "u32 \<Rightarrow> bytes \<Rightarrow> u8 \<Rightarrow> u32 \<Rightarrow> u32 \<Rightarrow> bytes option \<Rightarrow> 'd fat_state
     \<Rightarrow> (Fat32Result \<times> DirectoryEntry list \<times> 'd fat_state) option" where
  "build_name_entries directory_cluster name attrs first_cluster sz ignore s =
     (if validate_long_name name = None then Some (FAT32_INVALID_NAME, [], s)
      else do {
        (exact, s1) \<leftarrow> (case make_short_name_if_possible name of
            None \<Rightarrow> Some (None, s)
          | Some short_name \<Rightarrow> do {
              (taken, s1) \<leftarrow> short_name_exists_in_directory directory_cluster short_name ignore s;
              Some (if taken then None else Some short_name, s1) });
        (short_name, lfn_count, s2) \<leftarrow> (case exact of
            Some short_name \<Rightarrow> Some (short_name, 0, s1)
          | None \<Rightarrow> do {
              (short_name, s2) \<leftarrow> alias_loop directory_cluster name ignore 1 s1;
              Some (short_name, lfn_entry_count_for_name name, s2) });
        if lfn_count + 1 > FAT32_MAX_NAME_ENTRIES then Some (FAT32_INVALID_NAME, [], s2)
        else Some (FAT32_OK, name_entries name short_name lfn_count attrs first_cluster sz, s2) })"

end
