(* ===== verification/FatOps.thy ===== *)
theory FatOps
  imports FatDir Path
begin

text \<open>
  The public operations of \<open>src/kernel/fat32.c\<close>: paths are split and resolved from the root, and files
  and directories are read, written, made, removed and renamed. A \<open>const char*\<close> path is its string
  (\<open>None\<close> for the null pointer), a callback is a function of the entry or bytes it sees and of its
  context, which it returns changed. The result \<open>None\<close> of an operation stands for a loop on a cyclic
  chain or a store outside an array; every other error is a \<open>Fat32Result\<close>.
\<close>

text \<open>\<open>None\<close> in a resolved path stands for \<open>is_root\<close>.\<close>

type_synonym ResolvedPath = "DirectoryEntry option"

record Fat32NodeInfo =
  ni_name :: bytes
  ni_is_dir :: bool
  ni_size :: u32

definition is_directory :: "DirectoryEntry \<Rightarrow> bool" where
  "is_directory e \<longleftrightarrow> attributes e AND FAT32_DIRECTORY \<noteq> 0"

subsection \<open>Paths\<close>

definition PARENT_CAPACITY :: nat where
  "PARENT_CAPACITY = 128"

fun last_slash_loop :: "bytes \<Rightarrow> nat \<Rightarrow> nat option \<Rightarrow> nat option" where
  "last_slash_loop [] i last_slash = last_slash"
| "last_slash_loop (c # cursor) i last_slash =
     last_slash_loop cursor (i + 1) (if c = 47 then Some i else last_slash)"

text \<open>The parent's path and the name; \<open>None\<close> when the parent does not fit the caller's array.\<close>

definition split_path :: "bytes \<Rightarrow> (Fat32Result + bytes \<times> bytes) option" where
  "split_path path =
     (if path = [] \<or> path ! 0 \<noteq> 47 \<or> length path = 1 then Some (Inl FAT32_INVALID_NAME)
      else case last_slash_loop path 0 None of
        None \<Rightarrow> Some (Inl FAT32_INVALID_NAME)
      | Some parent_len \<Rightarrow>
          let name = drop (parent_len + 1) path in
          if name = [] then Some (Inl FAT32_INVALID_NAME)
          else if parent_len \<ge> PARENT_CAPACITY then None
          else if length name \<ge> FAT32_NAME_CAPACITY then Some (Inl FAT32_INVALID_NAME)
          else Some (Inr (if parent_len = 0 then [47] else take parent_len path, name)))"

lemma validate_long_name_Nil [simp]: "validate_long_name [] = None"
  by (simp add: validate_long_name_def)

lemma rest_shorter:
  assumes "validate_long_name (takeWhile P cs) \<noteq> None"
  shows "length (skip_slashes (dropWhile P cs)) < length cs"
proof -
  have "takeWhile P cs \<noteq> []" using assms by auto
  moreover have "length (takeWhile P cs) + length (dropWhile P cs) = length cs"
    by (metis length_append takeWhile_dropWhile_id)
  ultimately show ?thesis
    using length_skip_slashes [of "dropWhile P cs"] by (cases "takeWhile P cs") auto
qed

function resolve_loop ::
  "bytes \<Rightarrow> DirectoryEntry option \<Rightarrow> 'd fat_state
     \<Rightarrow> ((Fat32Result + ResolvedPath) \<times> 'd fat_state) option" where
  "resolve_loop cursor current s =
     (if cursor = [] then Some (Inr current, s)
      else let component = takeWhile (\<lambda>c. c \<noteq> 47) cursor;
               slash = dropWhile (\<lambda>c. c \<noteq> 47) cursor in
        if length component \<ge> FAT32_NAME_CAPACITY then Some (Inl FAT32_INVALID_NAME, s)
        else if validate_long_name component = None then Some (Inl FAT32_INVALID_NAME, s)
        else if current \<noteq> None \<and> \<not> is_directory (the current)
        then Some (Inl FAT32_NOT_A_DIRECTORY, s)
        else let first_cluster = (case current of None \<Rightarrow> g_root_cluster s | Some e \<Rightarrow> entry_first_cluster e) in
          case find_entry_in_cluster_dir first_cluster component s of
            None \<Rightarrow> None
          | Some (result, found, s1) \<Rightarrow>
              (case found of
                 None \<Rightarrow> Some (Inl result, s1)
               | Some ref \<Rightarrow>
                   let rest = skip_slashes slash in
                   if rest \<noteq> [] \<and> \<not> is_directory (er_entry ref) then Some (Inl FAT32_NOT_A_DIRECTORY, s1)
                   else resolve_loop rest (Some (er_entry ref)) s1))"
  by pat_completeness auto

termination
  by (relation "measure (\<lambda>(cursor, current, s). length cursor)") (auto intro: rest_shorter)

declare resolve_loop.simps [simp del]

definition resolve_path :: "bytes \<Rightarrow> 'd fat_state \<Rightarrow> ((Fat32Result + ResolvedPath) \<times> 'd fat_state) option" where
  "resolve_path path s = resolve_loop (skip_slashes path) None s"

definition root_directory :: "'d fat_state \<Rightarrow> DirectoryRef" where
  "root_directory s = \<lparr>dir_is_root = True, dir_first_cluster = g_root_cluster s\<rparr>"

definition resolve_directory :: "bytes \<Rightarrow> 'd fat_state \<Rightarrow> ((Fat32Result + DirectoryRef) \<times> 'd fat_state) option" where
  "resolve_directory path s = do {
     (resolved, s1) \<leftarrow> resolve_path path s;
     Some (case resolved of
             Inl result \<Rightarrow> (Inl result, s1)
           | Inr None \<Rightarrow> (Inr (root_directory s1), s1)
           | Inr (Some e) \<Rightarrow>
               if \<not> is_directory e then (Inl FAT32_NOT_A_DIRECTORY, s1)
               else (Inr \<lparr>dir_is_root = False, dir_first_cluster = entry_first_cluster e\<rparr>, s1)) }"

text \<open>The parent directory, the name and the parent's path.\<close>

definition lookup_parent_and_name ::
  "bytes \<Rightarrow> 'd fat_state \<Rightarrow> ((Fat32Result + DirectoryRef \<times> bytes \<times> bytes) \<times> 'd fat_state) option" where
  "lookup_parent_and_name path s = do {
     parts \<leftarrow> split_path path;
     case parts of
       Inl result \<Rightarrow> Some (Inl result, s)
     | Inr (parent_path, name) \<Rightarrow>
         if validate_long_name name = None then Some (Inl FAT32_INVALID_NAME, s)
         else do {
           (parent, s1) \<leftarrow> resolve_directory parent_path s;
           Some (case parent of Inl result \<Rightarrow> Inl result | Inr d \<Rightarrow> Inr (d, name, parent_path), s1) } }"

text \<open>\<open>common\<close> is the length of the longest common prefix; the string ends read as NUL.\<close>

fun common_prefix :: "bytes \<Rightarrow> bytes \<Rightarrow> nat" where
  "common_prefix (p # path) (q # parent) = (if p = q then Suc (common_prefix path parent) else 0)"
| "common_prefix path parent = 0"

definition path_is_descendant_of :: "bytes \<Rightarrow> bytes \<Rightarrow> bool" where
  "path_is_descendant_of path parent =
     (let i = common_prefix path parent in
      if i < length parent then False
      else if parent ! (i - 1) = 47 then True
      else i = length path \<or> path ! i = 47)"

definition fill_special_dir_name :: "bytes \<Rightarrow> bytes" where
  "fill_special_dir_name name = blit (replicate 11 32) 0 (take 11 name)"

subsection \<open>Looking\<close>

definition decode_node_info :: "DirectoryEntry \<Rightarrow> bytes \<Rightarrow> Fat32NodeInfo option" where
  "decode_node_info e name =
     (if length name \<ge> FAT32_NAME_CAPACITY then None
      else Some \<lparr>ni_name = name, ni_is_dir = is_directory e, ni_size = de_size e\<rparr>)"

fun last_component_loop :: "bytes \<Rightarrow> bytes \<Rightarrow> bytes" where
  "last_component_loop [] start = start"
| "last_component_loop (c # cursor) start =
     last_component_loop cursor (if c = 47 \<and> cursor \<noteq> [] then cursor else start)"

definition fat32_stat ::
  "bytes option \<Rightarrow> 'd fat_state \<Rightarrow> ((Fat32Result + Fat32NodeInfo) \<times> 'd fat_state) option" where
  "fat32_stat path s =
     (if \<not> g_mounted s \<or> path = None then Some (Inl FAT32_IO_ERROR, s)
      else do {
        (resolved, s1) \<leftarrow> resolve_path (the path) s;
        case resolved of
          Inl result \<Rightarrow> Some (Inl result, s1)
        | Inr None \<Rightarrow> Some (Inr \<lparr>ni_name = [47], ni_is_dir = True, ni_size = 0\<rparr>, s1)
        | Inr (Some e) \<Rightarrow> do {
            info \<leftarrow> decode_node_info e (last_component_loop (the path) (the path));
            Some (Inr info, s1) } })"

text \<open>One cluster of \<open>list_cluster_dir\<close>: whether the listing ended, the decoder state and the
  callback's context.\<close>

fun list_entries ::
  "(Fat32NodeInfo \<Rightarrow> 'c \<Rightarrow> bool \<times> 'c) \<Rightarrow> DirectoryEntry list \<Rightarrow> LfnState \<Rightarrow> 'c
     \<Rightarrow> (bool \<times> LfnState \<times> 'c) option" where
  "list_entries callback [] lfn context = Some (False, lfn, context)"
| "list_entries callback (e # es) lfn context =
     (if de_name e ! 0 = 0 then Some (True, lfn, context)
      else if de_name e ! 0 = FAT32_DELETED then list_entries callback es (lfn_state_reset lfn) context
      else if attributes e = FAT32_LFN then list_entries callback es (process_lfn_entry e lfn) context
      else if should_skip_entry e then list_entries callback es (lfn_state_reset lfn) context
      else if de_name e ! 0 = 46 then list_entries callback es lfn context
      else do {
        info \<leftarrow> decode_node_info e (decode_directory_entry_name e lfn);
        (case callback info context of (go, context') \<Rightarrow>
          if \<not> go then Some (True, lfn_state_reset lfn, context')
          else list_entries callback es (lfn_state_reset lfn) context') })"

partial_function (option) list_cluster_loop ::
  "(Fat32NodeInfo \<Rightarrow> 'c \<Rightarrow> bool \<times> 'c) \<Rightarrow> u32 \<Rightarrow> LfnState \<Rightarrow> 'c \<Rightarrow> 'd fat_state
     \<Rightarrow> (Fat32Result \<times> 'c \<times> 'd fat_state) option" where
  "list_cluster_loop callback cluster lfn context s =
     (if \<not> in_chain cluster then Some (FAT32_OK, context, s)
      else case read_cluster cluster s of (ok, s1) \<Rightarrow>
        if \<not> ok then Some (FAT32_IO_ERROR, context, s1)
        else case list_entries callback (cluster_entries s1) lfn context of
          None \<Rightarrow> None
        | Some (ended, lfn', context') \<Rightarrow>
            if ended then Some (FAT32_OK, context', s1)
            else list_cluster_loop callback (fat32_next_cluster cluster s1) lfn' context' s1)"

definition list_cluster_dir ::
  "u32 \<Rightarrow> (Fat32NodeInfo \<Rightarrow> 'c \<Rightarrow> bool \<times> 'c) \<Rightarrow> 'c \<Rightarrow> 'd fat_state
     \<Rightarrow> (Fat32Result \<times> 'c \<times> 'd fat_state) option" where
  "list_cluster_dir first_cluster callback context s =
     list_cluster_loop callback first_cluster lfn_initial context s"

definition fat32_list_dir ::
  "bytes option \<Rightarrow> (Fat32NodeInfo \<Rightarrow> 'c \<Rightarrow> bool \<times> 'c) \<Rightarrow> 'c \<Rightarrow> 'd fat_state
     \<Rightarrow> (Fat32Result \<times> 'c \<times> 'd fat_state) option" where
  "fat32_list_dir path callback context s =
     (if \<not> g_mounted s \<or> path = None then Some (FAT32_IO_ERROR, context, s)
      else do {
        (resolved, s1) \<leftarrow> resolve_path (the path) s;
        case resolved of
          Inl result \<Rightarrow> Some (result, context, s1)
        | Inr None \<Rightarrow> list_cluster_dir (g_root_cluster s1) callback context s1
        | Inr (Some e) \<Rightarrow>
            if \<not> is_directory e then Some (FAT32_NOT_A_DIRECTORY, context, s1)
            else list_cluster_dir (entry_first_cluster e) callback context s1 })"

definition fat32_read_file ::
  "bytes option \<Rightarrow> (bytes \<Rightarrow> u32 \<Rightarrow> 'c \<Rightarrow> bool \<times> 'c) \<Rightarrow> 'c \<Rightarrow> 'd fat_state
     \<Rightarrow> (Fat32Result \<times> 'c \<times> 'd fat_state) option" where
  "fat32_read_file path callback context s =
     (if \<not> g_mounted s \<or> path = None then Some (FAT32_IO_ERROR, context, s)
      else do {
        (resolved, s1) \<leftarrow> resolve_path (the path) s;
        case resolved of
          Inl result \<Rightarrow> Some (result, context, s1)
        | Inr None \<Rightarrow> Some (FAT32_IS_A_DIRECTORY, context, s1)
        | Inr (Some e) \<Rightarrow>
            if is_directory e then Some (FAT32_IS_A_DIRECTORY, context, s1)
            else read_file_loop callback (de_size e) (entry_first_cluster e) context s1 })"

subsection \<open>Changing\<close>

text \<open>The end of \<open>fat32_write_file\<close> and \<open>fat32_make_dir\<close>: the entries of a new name are built and
  written to free slots of the parent.\<close>

definition add_name ::
  "DirectoryRef \<Rightarrow> bytes \<Rightarrow> u8 \<Rightarrow> u32 \<Rightarrow> u32 \<Rightarrow> 'd fat_state \<Rightarrow> (Fat32Result \<times> 'd fat_state) option" where
  "add_name parent name attrs first_cluster sz s = do {
     (result, new_entries, s1) \<leftarrow>
       build_name_entries (dir_first_cluster parent) name attrs first_cluster sz None s;
     if result \<noteq> FAT32_OK then Some (result, s1)
     else do {
       (result', start, s2) \<leftarrow> find_free_entry_in_directory parent (of_nat (length new_entries)) s1;
       if result' \<noteq> FAT32_OK then Some (result', s2)
       else Some (write_entry_span_at (dir_first_cluster parent) start new_entries s2) } }"

text \<open>The entry is updated in place, or a new one is added.\<close>

definition record_file ::
  "DirectoryRef \<Rightarrow> bytes \<Rightarrow> EntryRef option \<Rightarrow> u32 \<Rightarrow> u32 \<Rightarrow> 'd fat_state \<Rightarrow> (Fat32Result \<times> 'd fat_state) option" where
  "record_file parent name existing first_cluster sz s =
     (case existing of
        Some ref \<Rightarrow> Some (write_entry_at ref
          (entry_set_first_cluster first_cluster (er_entry ref)\<lparr>de_size := sz\<rparr>) s)
      | None \<Rightarrow> add_name parent name FAT32_ARCHIVE first_cluster sz s)"

text \<open>The \<open>!append\<close> branch.\<close>

definition replace_contents ::
  "DirectoryRef \<Rightarrow> bytes \<Rightarrow> EntryRef option \<Rightarrow> u32 \<Rightarrow> u32 \<Rightarrow> bytes \<Rightarrow> u32 \<Rightarrow> 'd fat_state
     \<Rightarrow> (Fat32Result \<times> 'd fat_state) option" where
  "replace_contents parent name existing first_cluster current_clusters data sz s =
     (let required_clusters = clusters_for_size sz s in do {
       (result, first1, s1) \<leftarrow> ensure_cluster_chain_length first_cluster current_clusters required_clusters s;
       if result \<noteq> FAT32_OK then Some (result, s1)
       else let (result2, first2, s2) = trim_cluster_chain first1 required_clusters s1 in
         if result2 \<noteq> FAT32_OK then Some (result2, s2)
         else let (ok, s3) = flush_fat s2 in
           if \<not> ok then Some (FAT32_IO_ERROR, s3)
           else do {
             (result4, s4) \<leftarrow> write_data_to_chain first2 0 data sz s3;
             if result4 \<noteq> FAT32_OK then Some (result4, s4)
             else record_file parent name existing first2 sz s4 } })"

text \<open>The \<open>append\<close> branch; \<open>old_size + size\<close> wraps at 32 bits.\<close>

definition append_contents ::
  "DirectoryRef \<Rightarrow> bytes \<Rightarrow> EntryRef option \<Rightarrow> u32 \<Rightarrow> u32 \<Rightarrow> u32 \<Rightarrow> bytes \<Rightarrow> u32 \<Rightarrow> 'd fat_state
     \<Rightarrow> (Fat32Result \<times> 'd fat_state) option" where
  "append_contents parent name existing first_cluster current_clusters old_size data sz s =
     (let required_clusters = clusters_for_size (old_size + sz) s in do {
       (result, first1, s1) \<leftarrow> ensure_cluster_chain_length first_cluster current_clusters required_clusters s;
       if result \<noteq> FAT32_OK then Some (result, s1)
       else let (ok, s2) = flush_fat s1 in
         if \<not> ok then Some (FAT32_IO_ERROR, s2)
         else do {
           (result3, s3) \<leftarrow> write_data_to_chain first1 old_size data sz s2;
           if result3 \<noteq> FAT32_OK then Some (result3, s3)
           else record_file parent name existing first1 (old_size + sz) s3 } })"

definition fat32_write_file ::
  "bytes option \<Rightarrow> bytes option \<Rightarrow> u32 \<Rightarrow> bool \<Rightarrow> 'd fat_state \<Rightarrow> (Fat32Result \<times> 'd fat_state) option" where
  "fat32_write_file path data sz appending s =
     (if \<not> g_mounted s \<or> path = None then Some (FAT32_IO_ERROR, s)
      else if sz \<noteq> 0 \<and> data = None then Some (FAT32_IO_ERROR, s)
      else do {
        (looked, s1) \<leftarrow> lookup_parent_and_name (the path) s;
        case looked of
          Inl result \<Rightarrow> Some (result, s1)
        | Inr (parent, name, parent_path) \<Rightarrow> do {
            (result, existing, s2) \<leftarrow> find_entry_in_directory parent name s1;
            if result \<noteq> FAT32_OK \<and> result \<noteq> FAT32_NOT_FOUND then Some (result, s2)
            else if existing \<noteq> None \<and> is_directory (er_entry (the existing))
            then Some (FAT32_IS_A_DIRECTORY, s2)
            else let old_size = (case existing of None \<Rightarrow> 0 | Some ref \<Rightarrow> de_size (er_entry ref));
                     first_cluster = (case existing of None \<Rightarrow> 0 | Some ref \<Rightarrow> entry_first_cluster (er_entry ref));
                     current_clusters = clusters_for_size old_size s2;
                     bytes = (case data of None \<Rightarrow> [] | Some d \<Rightarrow> d) in
              if appending
              then append_contents parent name existing first_cluster current_clusters old_size bytes sz s2
              else replace_contents parent name existing first_cluster current_clusters bytes sz s2 } })"

text \<open>The first cluster of a new directory: the entries \<open>.\<close> and \<open>..\<close> in a cleared buffer.\<close>

definition special_entry :: "bytes \<Rightarrow> u32 \<Rightarrow> DirectoryEntry" where
  "special_entry name cluster = entry_set_first_cluster cluster
     (zero_entry\<lparr>de_name := fill_special_dir_name name, attributes := FAT32_DIRECTORY\<rparr>)"

definition parent_link :: "DirectoryRef \<Rightarrow> u32" where
  "parent_link d = (if dir_is_root d then 0 else dir_first_cluster d)"

definition new_directory_buffer :: "u32 \<Rightarrow> u32 \<Rightarrow> 'd fat_state \<Rightarrow> 'd fat_state" where
  "new_directory_buffer dir_cluster parent_cluster s =
     (let s1 = clear_cluster_buffer s in
      s1\<lparr>g_cluster_buffer :=
        blit (blit (g_cluster_buffer s1) 0 (bytes_of_entry (special_entry [46] dir_cluster)))
          32 (bytes_of_entry (special_entry [46, 46] parent_cluster))\<rparr>)"

definition fat32_make_dir :: "bytes option \<Rightarrow> 'd fat_state \<Rightarrow> (Fat32Result \<times> 'd fat_state) option" where
  "fat32_make_dir path s =
     (if \<not> g_mounted s \<or> path = None then Some (FAT32_IO_ERROR, s)
      else do {
        (looked, s1) \<leftarrow> lookup_parent_and_name (the path) s;
        case looked of
          Inl result \<Rightarrow> Some (result, s1)
        | Inr (parent, name, parent_path) \<Rightarrow> do {
            (result, existing, s2) \<leftarrow> find_entry_in_directory parent name s1;
            if result = FAT32_OK then Some (FAT32_ALREADY_EXISTS, s2)
            else if result \<noteq> FAT32_NOT_FOUND then Some (result, s2)
            else let (result3, dir_cluster, s3) = allocate_cluster_chain 1 0 s2 in
              if result3 \<noteq> FAT32_OK then Some (result3, s3)
              else let (ok4, s4) = flush_fat s3 in
                if \<not> ok4 then Some (FAT32_IO_ERROR, s4)
                else let (ok5, s5) = write_cluster dir_cluster
                           (new_directory_buffer dir_cluster (parent_link parent) s4) in
                  if \<not> ok5 then Some (FAT32_IO_ERROR, s5)
                  else add_name parent name FAT32_DIRECTORY dir_cluster 0 s5 } })"

definition fat32_remove :: "bytes option \<Rightarrow> 'd fat_state \<Rightarrow> (Fat32Result \<times> 'd fat_state) option" where
  "fat32_remove path s =
     (if \<not> g_mounted s \<or> path = None then Some (FAT32_IO_ERROR, s)
      else do {
        (looked, s1) \<leftarrow> lookup_parent_and_name (the path) s;
        case looked of
          Inl result \<Rightarrow> Some (result, s1)
        | Inr (parent, name, parent_path) \<Rightarrow> do {
            (result, existing, s2) \<leftarrow> find_entry_in_directory parent name s1;
            case existing of
              None \<Rightarrow> Some (result, s2)
            | Some ref \<Rightarrow> do {
                (empty, s3) \<leftarrow> (if is_directory (er_entry ref)
                   then directory_is_empty (entry_first_cluster (er_entry ref)) s2 else Some (True, s2));
                if \<not> empty then Some (FAT32_DIRECTORY_NOT_EMPTY, s3)
                else let (result4, s4) = mark_entry_deleted ref s3 in
                  if result4 \<noteq> FAT32_OK then Some (result4, s4)
                  else let s5 = (if entry_first_cluster (er_entry ref) \<ge> 2
                         then free_cluster_chain_in_memory (entry_first_cluster (er_entry ref)) s4 else s4);
                       (ok6, s6) = flush_fat s5
                    in Some (if ok6 then FAT32_OK else FAT32_IO_ERROR, s6) } } })"

text \<open>\<open>fat32_rename\<close> from the built entries on: in place when they fit the old span, otherwise to free
  slots before the old entries are deleted; a moved directory's \<open>..\<close> follows.\<close>

definition replace_entries ::
  "DirectoryRef \<Rightarrow> EntryRef \<Rightarrow> bool \<Rightarrow> DirectoryEntry list \<Rightarrow> 'd fat_state \<Rightarrow> (Fat32Result \<times> 'd fat_state) option" where
  "replace_entries new_parent old_ref same_parent new_entries s =
     (let old_span_start = entry_index old_ref - lfn_entry_count old_ref;
          old_span_count = lfn_entry_count old_ref + 1;
          new_entry_count = of_nat (length new_entries) in
      if same_parent \<and> new_entry_count \<le> old_span_count then
        let (result, s1) = write_entry_span_at (dir_first_cluster new_parent) old_span_start new_entries s in
        if result \<noteq> FAT32_OK then Some (result, s1)
        else if new_entry_count < old_span_count
        then Some (mark_entry_range_deleted (dir_first_cluster new_parent)
               (old_span_start + new_entry_count) (old_span_count - new_entry_count) s1)
        else Some (FAT32_OK, s1)
      else do {
        (result, start, s1) \<leftarrow> find_free_entry_in_directory new_parent new_entry_count s;
        if result \<noteq> FAT32_OK then Some (result, s1)
        else let (result2, s2) = write_entry_span_at (dir_first_cluster new_parent) start new_entries s1 in
          if result2 \<noteq> FAT32_OK then Some (result2, s2)
          else Some (mark_entry_deleted old_ref s2) })"

definition rename_entry ::
  "DirectoryRef \<Rightarrow> DirectoryRef \<Rightarrow> bytes \<Rightarrow> EntryRef \<Rightarrow> 'd fat_state \<Rightarrow> (Fat32Result \<times> 'd fat_state) option" where
  "rename_entry old_parent new_parent new_name old_ref s =
     (let same_parent = (dir_is_root old_parent = dir_is_root new_parent \<and>
            dir_first_cluster old_parent = dir_first_cluster new_parent);
          old_entry = er_entry old_ref in do {
       (result, new_entries, s1) \<leftarrow> build_name_entries (dir_first_cluster new_parent) new_name
          (attributes old_entry) (entry_first_cluster old_entry) (de_size old_entry)
          (if same_parent then Some (de_name old_entry) else None) s;
       if result \<noteq> FAT32_OK then Some (result, s1)
       else do {
         (result2, s2) \<leftarrow> replace_entries new_parent old_ref same_parent new_entries s1;
         if result2 \<noteq> FAT32_OK then Some (result2, s2)
         else if is_directory old_entry
         then Some (update_directory_parent (entry_first_cluster old_entry) (parent_link new_parent) s2)
         else Some (FAT32_OK, s2) } })"

definition fat32_rename ::
  "bytes option \<Rightarrow> bytes option \<Rightarrow> 'd fat_state \<Rightarrow> (Fat32Result \<times> 'd fat_state) option" where
  "fat32_rename old_path new_path s =
     (if \<not> g_mounted s \<or> old_path = None \<or> new_path = None then Some (FAT32_IO_ERROR, s)
      else if the old_path = the new_path then Some (FAT32_OK, s)
      else do {
        (old_looked, s1) \<leftarrow> lookup_parent_and_name (the old_path) s;
        case old_looked of
          Inl result \<Rightarrow> Some (result, s1)
        | Inr (old_parent, old_name, old_parent_path) \<Rightarrow> do {
            (new_looked, s2) \<leftarrow> lookup_parent_and_name (the new_path) s1;
            case new_looked of
              Inl result \<Rightarrow> Some (result, s2)
            | Inr (new_parent, new_name, new_parent_path) \<Rightarrow> do {
                (result3, old_ref, s3) \<leftarrow> find_entry_in_directory old_parent old_name s2;
                case old_ref of
                  None \<Rightarrow> Some (result3, s3)
                | Some ref \<Rightarrow>
                    if is_directory (er_entry ref) \<and> path_is_descendant_of new_parent_path (the old_path)
                    then Some (FAT32_INVALID_NAME, s3)
                    else do {
                      (result4, existing, s4) \<leftarrow> find_entry_in_directory new_parent new_name s3;
                      if result4 = FAT32_OK then Some (FAT32_ALREADY_EXISTS, s4)
                      else if result4 \<noteq> FAT32_NOT_FOUND then Some (result4, s4)
                      else rename_entry old_parent new_parent new_name ref s4 } } } })"

end
