(* ===== verification/FatDirData.thy ===== *)
theory FatDirData
  imports FatData FatDir FatLfn
begin

text \<open>
  Directories on disk. The entries of a directory are those of its chain's clusters in order,
  \<open>dir_entries\<close>; reading and writing an entry by its index, a span of entries and the delete mark are
  list look-up and list update, and the scans of \<open>FatDir\<close> are the scans of that list.
\<close>

subsection \<open>The entries of a directory\<close>

definition epc :: "'d fat_state \<Rightarrow> nat" where
  "epc s = unat (entries_per_cluster s)"

definition disk_entries :: "('d \<Rightarrow> nat \<Rightarrow> bytes) \<Rightarrow> 'd fat_state \<Rightarrow> u32 \<Rightarrow> DirectoryEntry list" where
  "disk_entries view s c = map (slot (cluster_data view s c)) [0..<epc s]"

definition dir_entries :: "('d \<Rightarrow> nat \<Rightarrow> bytes) \<Rightarrow> 'd fat_state \<Rightarrow> u32 list \<Rightarrow> DirectoryEntry list" where
  "dir_entries view s cs = concat (map (disk_entries view s) cs)"

lemma epc_size:
  assumes "vol_ok view s"
  shows "32 * epc s = cluster_bytes_size s" and "16 \<le> epc s" and "epc s \<le> 128"
proof -
  have d: "epc s = cluster_bytes_size s div 32"
    by (simp add: epc_def entries_per_cluster_def cluster_bytes_size_def unat_div)
  have "cluster_bytes_size s = spc s * 512" "0 < spc s" "spc s \<le> 8"
    using assms by (auto simp: vol_ok_def geometry_ok_def cluster_bytes_size_def SECTOR_def)
  then show "32 * epc s = cluster_bytes_size s" "16 \<le> epc s" "epc s \<le> 128" using d by simp_all
qed

lemma length_disk_entries [simp]: "length (disk_entries view s c) = epc s"
  by (simp add: disk_entries_def)

lemma length_concat_equal: "\<forall>xs \<in> set xss. length xs = n \<Longrightarrow> length (concat xss) = length xss * n"
  by (induction xss) auto

lemma nth_concat_equal:
  "\<forall>xs \<in> set xss. length xs = n \<Longrightarrow> i < length xss * n \<Longrightarrow> concat xss ! i = xss ! (i div n) ! (i mod n)"
proof (induction xss arbitrary: i)
  case (Cons xs xss)
  show ?case
  proof (cases "i < n")
    case False
    moreover have "0 < n" using Cons.prems(2) by (cases n) auto
    ultimately have "i div n = Suc ((i - n) div n)" "i mod n = (i - n) mod n"
      by (simp_all add: le_div_geq le_mod_geq not_less)
    then show ?thesis using Cons False by (simp add: nth_append)
  qed (use Cons in \<open>simp add: nth_append\<close>)
qed simp

lemma concat_update_equal:
  assumes "\<forall>xs \<in> set xss. length xs = n" and "i < length xss * n"
  shows "concat (xss[i div n := (xss ! (i div n))[i mod n := v]]) = (concat xss)[i := v]"
proof -
  have n: "0 < n" using assms(2) by (cases n) auto
  have k: "i div n < length xss" using assms(2) n by (simp add: less_mult_imp_div_less)
  let ?yss = "xss[i div n := (xss ! (i div n))[i mod n := v]]"
  have len: "\<forall>xs \<in> set ?yss. length xs = n"
    using assms(1) k by (metis in_set_conv_nth length_list_update nth_list_update nth_mem)
  show ?thesis
  proof (rule nth_equalityI)
    show "length (concat ?yss) = length ((concat xss)[i := v])"
      using length_concat_equal [OF len] length_concat_equal [OF assms(1)] by simp
    fix j assume "j < length (concat ?yss)"
    then have j: "j < length xss * n" using length_concat_equal [OF len] by simp
    have mod: "i mod n < length (xss ! (i div n))" using assms(1) k n by simp
    have eq: "j = i \<longleftrightarrow> j div n = i div n \<and> j mod n = i mod n"
      by (metis div_mult_mod_eq)
    have jl: "j < length (concat xss)" using j length_concat_equal [OF assms(1)] by simp
    have "concat ?yss ! j = ?yss ! (j div n) ! (j mod n)"
      using nth_concat_equal [OF len, of j] j by simp
    also have "\<dots> = (concat xss)[i := v] ! j"
      using eq k mod jl nth_concat_equal [OF assms(1) j]
      by (cases "j div n = i div n"; cases "j mod n = i mod n") (auto simp: nth_list_update)
    finally show "concat ?yss ! j = (concat xss)[i := v] ! j" .
  qed
qed

lemma length_dir_entries [simp]: "length (dir_entries view s cs) = length cs * epc s"
  using length_concat_equal [of "map (disk_entries view s) cs" "epc s"] by (simp add: dir_entries_def)

lemma dir_entries_nth:
  "i < length cs * epc s \<Longrightarrow>
     dir_entries view s cs ! i = slot (cluster_data view s (cs ! (i div epc s))) (i mod epc s)"
  using nth_concat_equal [of "map (disk_entries view s) cs" "epc s" i]
  by (cases "epc s = 0") (auto simp: dir_entries_def disk_entries_def less_mult_imp_div_less simp del: upt_Suc)

lemma dir_entries_simps:
  "dir_entries view s [] = []" "dir_entries view s (c # cs) = disk_entries view s c @ dir_entries view s cs"
  by (simp_all add: dir_entries_def)

lemma dir_entries_cong:
  "cluster_data view t = cluster_data view s \<Longrightarrow> epc t = epc s \<Longrightarrow> dir_entries view t cs = dir_entries view s cs"
  by (simp add: dir_entries_def disk_entries_def cong: map_cong)

lemma io_frame_epc: "io_frame s t \<Longrightarrow> epc t = epc s \<and> entries_per_cluster t = entries_per_cluster s"
  by (simp add: epc_def entries_per_cluster_def io_frame_simps)

subsection \<open>Slots of a buffer\<close>

lemma slot_take: "32 * i + 32 \<le> n \<Longrightarrow> slot (take n b) i = slot b i"
  by (simp add: slot_def drop_take)

lemma slot_cluster_buf:
  "vol_ok view s \<Longrightarrow> i < epc s \<Longrightarrow> slot (g_cluster_buffer s) i = slot (cluster_buf s) i"
  using epc_size(1) [of view s] by (simp add: cluster_buf_def slot_take)

lemma cluster_entries_eq:
  assumes "vol_ok view t" and "cluster_buf t = cluster_data view s c" and "epc t = epc s"
  shows "cluster_entries t = disk_entries view s c"
  using assms slot_cluster_buf [OF assms(1)] by (simp add: cluster_entries_def disk_entries_def flip: epc_def)

lemma slot_blit:
  assumes "length (de_name e) = 11" and "32 * j + 32 \<le> length b"
  shows "slot (blit b (32 * j) (bytes_of_entry e)) i = (if i = j then e else slot b i)"
proof -
  have len: "length (bytes_of_entry e) = 32" and rt: "entry_of_bytes (bytes_of_entry e) = e"
    using entry_bytes_roundtrip [OF assms(1)] by auto
  have "take 32 (drop (32 * i) (blit b (32 * j) (bytes_of_entry e))) =
      (if i = j then bytes_of_entry e else take 32 (drop (32 * i) b))"
  proof (rule nth_equalityI)
    show "length (take 32 (drop (32 * i) (blit b (32 * j) (bytes_of_entry e)))) =
        length (if i = j then bytes_of_entry e else take 32 (drop (32 * i) b))"
      using len assms(2) by (simp add: length_blit)
    fix k assume "k < length (take 32 (drop (32 * i) (blit b (32 * j) (bytes_of_entry e))))"
    then have k: "k < 32" "32 * i + k < length b" using len assms(2) by (auto simp: length_blit)
    then have "i \<noteq> j \<Longrightarrow> 32 * i + k < 32 * j \<or> 32 * j + 32 \<le> 32 * i + k" by presburger
    then show "take 32 (drop (32 * i) (blit b (32 * j) (bytes_of_entry e))) ! k =
        (if i = j then bytes_of_entry e else take 32 (drop (32 * i) b)) ! k"
      using k len assms(2) by (auto simp: blit_nth)
  qed
  then show ?thesis using rt by (simp add: slot_def)
qed

subsection \<open>Entries by index\<close>

text \<open>What the directory operations keep: the mounted volume and the FAT, and every cluster outside
  the directory's chain.\<close>

definition dir_frame :: "('d \<Rightarrow> nat \<Rightarrow> bytes) \<Rightarrow> u32 list \<Rightarrow> 'd fat_state \<Rightarrow> 'd fat_state \<Rightarrow> bool" where
  "dir_frame view cs s t \<longleftrightarrow> vol_ok view t \<and> io_frame s t \<and>
     (\<forall>x. x \<notin> set cs \<longrightarrow> cluster_data view t x = cluster_data view s x)"

lemma dir_frame_trans: "dir_frame view cs s t \<Longrightarrow> dir_frame view cs t u \<Longrightarrow> dir_frame view cs s u"
  using io_frame_trans by (auto simp: dir_frame_def)

lemma dir_frame_refl: "vol_ok view s \<Longrightarrow> dir_frame view cs s s"
  by (simp add: dir_frame_def)

lemma dir_frame_chain: "dir_frame view cs s t \<Longrightarrow> chain t c ds = chain s c ds"
  by (simp add: dir_frame_def io_frame_chain)

lemma dir_frame_epc: "dir_frame view cs s t \<Longrightarrow> epc t = epc s"
  using io_frame_epc by (auto simp: dir_frame_def)

lemma index_cluster:
  assumes v: "vol_ok view s" and c: "chain s c cs"
  shows "\<exists>cl. cluster_for_directory_index c i s = (cl, of_nat (unat i mod epc s)) \<and>
    (if unat i < length cs * epc s
     then in_chain cl \<and> cl = cs ! (unat i div epc s) \<and> is_valid_data_cluster cl s else \<not> in_chain cl)"
proof -
  have b: "fat_bounded s" using vol_bounded [OF v] .
  have pos: "0 < epc s" using epc_size [OF v] by simp
  have d: "unat (i div entries_per_cluster s) = unat i div epc s"
      "i mod entries_per_cluster s = of_nat (unat i mod epc s)"
    by (simp_all add: unat_div epc_def flip: unat_mod)
  have lt: "unat i div epc s < length cs \<longleftrightarrow> unat i < length cs * epc s"
    using pos by (simp add: less_mult_imp_div_less div_less_iff_less_mult)
  show ?thesis
    using chain_walk_nth [OF b c, of "unat i div epc s"] lt chain_valid [OF c] valid_in_chain [OF b]
    unfolding cluster_for_directory_index_def d by (auto simp: nth_mem)
qed

lemma read_directory_entry_spec:
  assumes v: "vol_ok view s" and c: "chain s c cs" and run: "read_directory_entry c i s = (r, eo, t)"
  shows "vol_ok view t \<and> io_frame s t \<and> cluster_data view t = cluster_data view s \<and>
    (if unat i < length cs * epc s
     then r = FAT32_OK \<and> eo = Some (dir_entries view s cs ! unat i) \<or> r = FAT32_IO_ERROR \<and> eo = None
     else r = FAT32_NOT_FOUND \<and> eo = None)"
proof -
  obtain cl where cl: "cluster_for_directory_index c i s = (cl, of_nat (unat i mod epc s))"
    and where_: "if unat i < length cs * epc s
      then in_chain cl \<and> cl = cs ! (unat i div epc s) \<and> is_valid_data_cluster cl s else \<not> in_chain cl"
    using index_cluster [OF v c] by blast
  show ?thesis
  proof (cases "unat i < length cs * epc s")
    case False
    then show ?thesis using run where_ v by (simp add: read_directory_entry_def cl)
  next
    case True
    obtain ok s1 where rd: "read_cluster cl s = (ok, s1)" by fastforce
    note frame = clusters.rd_frame [OF v rd]
    have e: "epc s1 = epc s" using io_frame_epc frame by blast
    have mod: "unat (of_nat (unat i mod epc s) :: u32) = unat i mod epc s"
      using epc_size [OF v] mod_less_divisor [of "epc s" "unat i"] by (intro unat_of_nat_u32) linarith
    have "ok \<Longrightarrow> slot (g_cluster_buffer s1) (unat i mod epc s) = dir_entries view s cs ! unat i"
      using clusters.rd_buf [OF v, of cl s1] rd frame slot_cluster_buf [of view s1 "unat i mod epc s"]
        epc_size(2) [OF v] where_ True e by (simp add: dir_entries_nth)
    moreover have "in_chain cl" using where_ True by argo
    with run have "(r, eo, t) = (if \<not> ok then (FAT32_IO_ERROR, None, s1)
        else (FAT32_OK, Some (slot (g_cluster_buffer s1) (unat i mod epc s)), s1))"
      by (cases ok) (auto simp: read_directory_entry_def cl rd mod)
    ultimately show ?thesis using frame True by (cases ok) auto
  qed
qed

lemma update_disk_entry:
  assumes v: "vol_ok view s" and c: "chain s c cs" and i: "i < length cs * epc s"
    and e: "length (de_name e) = 11" and t: "io_frame s t"
    and data: "cluster_data view t = (cluster_data view s)(cs ! (i div epc s) :=
      blit (cluster_data view s (cs ! (i div epc s))) (32 * (i mod epc s)) (bytes_of_entry e))"
  shows "dir_entries view t cs = (dir_entries view s cs)[i := e]"
proof -
  let ?k = "i div epc s" and ?j = "i mod epc s"
  have pos: "0 < epc s" using epc_size [OF v] by simp
  have k: "?k < length cs" and j: "?j < epc s" using i pos by (simp_all add: less_mult_imp_div_less)
  have d: "distinct cs" using chain_distinct [OF vol_bounded [OF v] c] .
  have ept: "epc t = epc s" using io_frame_epc [OF t] by blast
  have "length (cluster_data view s (cs ! ?k)) = cluster_bytes_size s"
    using clusters.length_contents [OF v] chain_valid [OF c] k by (simp add: nth_mem)
  then have room: "32 * ?j + 32 \<le> length (cluster_data view s (cs ! ?k))"
    using j epc_size(1) [OF v] by simp
  have one: "disk_entries view t (cs ! ?k) = (disk_entries view s (cs ! ?k))[?j := e]"
    using ept by (intro nth_equalityI)
      (auto simp: disk_entries_def data slot_blit [OF e room] nth_list_update)
  have "map (disk_entries view t) cs =
      (map (disk_entries view s) cs)[?k := (map (disk_entries view s) cs ! ?k)[?j := e]]"
  proof (rule nth_equalityI)
    fix m assume m: "m < length (map (disk_entries view t) cs)"
    then have "m \<noteq> ?k \<Longrightarrow> cs ! m \<noteq> cs ! ?k" using d k by (simp add: nth_eq_iff_index_eq)
    then show "map (disk_entries view t) cs ! m =
        (map (disk_entries view s) cs)[?k := (map (disk_entries view s) cs ! ?k)[?j := e]] ! m"
      using m one k ept by (cases "m = ?k") (auto simp: disk_entries_def data)
  qed simp
  then show ?thesis
    using concat_update_equal [of "map (disk_entries view s) cs" "epc s" i e] i by (simp add: dir_entries_def)
qed

lemma write_directory_entry_spec:
  assumes v: "vol_ok view s" and c: "chain s c cs" and e: "length (de_name e) = 11"
    and run: "write_directory_entry c i e s = (r, t)"
  shows "dir_frame view cs s t \<and> (r = FAT32_OK \<or> r = FAT32_IO_ERROR) \<and>
    (r = FAT32_OK \<longrightarrow> unat i < length cs * epc s \<and> dir_entries view t cs = (dir_entries view s cs)[unat i := e])"
proof -
  obtain cl where cl: "cluster_for_directory_index c i s = (cl, of_nat (unat i mod epc s))"
    and where_: "if unat i < length cs * epc s
      then in_chain cl \<and> cl = cs ! (unat i div epc s) \<and> is_valid_data_cluster cl s else \<not> in_chain cl"
    using index_cluster [OF v c] by blast
  show ?thesis
  proof (cases "unat i < length cs * epc s")
    case False
    then have "(r, t) = (FAT32_IO_ERROR, s)" using run where_ by (simp add: write_directory_entry_def cl)
    then show ?thesis using v by (simp add: dir_frame_refl)
  next
    case True
    then have cl': "in_chain cl" "cl = cs ! (unat i div epc s)" using where_ by argo+
    have pos: "0 < epc s" using epc_size [OF v] by simp
    have mem: "cl \<in> set cs" using True pos cl'(2) by (simp add: less_mult_imp_div_less)
    obtain ok s1 where rd: "read_cluster cl s = (ok, s1)" by fastforce
    note frame = clusters.rd_frame [OF v rd]
    have mod: "unat (of_nat (unat i mod epc s) :: u32) = unat i mod epc s"
      using epc_size [OF v] mod_less_divisor [of "epc s" "unat i"] by (intro unat_of_nat_u32) linarith
    show ?thesis
    proof (cases ok)
      case False
      then have "(r, t) = (FAT32_IO_ERROR, s1)"
        using run cl'(1) by (simp add: write_directory_entry_def cl rd)
      then show ?thesis using frame by (simp add: dir_frame_def)
    next
      case ok: True
      let ?off = "32 * (unat i mod epc s)"
      obtain ok' where wr: "write_cluster cl (patch_buffer ?off (bytes_of_entry e) s1) = (ok', t)"
        and r: "r = (if ok' then FAT32_OK else FAT32_IO_ERROR)"
        using run cl'(1) ok by (auto simp: write_directory_entry_def cl rd mod patch_buffer_def split: prod.splits)
      have len: "length (bytes_of_entry e) = 32" using entry_bytes_roundtrip [OF e] by simp
      have room: "?off + length (bytes_of_entry e) \<le> cluster_bytes_size s"
        using len epc_size(1) [OF v] mod_less_divisor [OF pos, of "unat i"] by linarith
      have rd': "read_cluster cl s = (True, s1)" using rd ok by simp
      note rmw = clusters.read_modify_write [OF v rd' room wr]
      have "dir_frame view cs s t" using rmw mem by (auto simp: dir_frame_def)
      moreover have "dir_entries view t cs = (dir_entries view s cs)[unat i := e]" if ok'
        using rmw that cl'(2) by (intro update_disk_entry [OF v c True e]) auto
      ultimately show ?thesis using r True by auto
    qed
  qed
qed

subsection \<open>Spans and delete marks\<close>

lemma chain_length_bound: "fat_bounded s \<Longrightarrow> chain s c cs \<Longrightarrow> length cs \<le> 524288"
proof -
  assume b: "fat_bounded s" and c: "chain s c cs"
  have "unat ` set cs \<subseteq> {..<524288}" using valid_less [OF b] chain_valid [OF c] by auto
  then have "card (unat ` set cs) \<le> 524288" using card_mono [of "{..<524288::nat}"] by fastforce
  moreover have "card (unat ` set cs) = length cs"
    using chain_distinct [OF b c] by (simp add: card_image inj_on_def distinct_card word_unat_eq_iff)
  ultimately show ?thesis by simp
qed

lemma dir_size_bound: "vol_ok view s \<Longrightarrow> chain s c cs \<Longrightarrow> length cs * epc s < 2 ^ 32 - 1"
proof -
  assume v: "vol_ok view s" and c: "chain s c cs"
  have "length cs * epc s \<le> 524288 * 128"
    using chain_length_bound [OF vol_bounded [OF v] c] epc_size [OF v] by (intro mult_le_mono) simp_all
  then show ?thesis by simp
qed

lemma blit_update_Cons: "i < length es \<Longrightarrow> blit (es[i := e]) (Suc i) xs = blit es i (e # xs)"
  by (simp add: blit_def take_Suc_conv_app_nth drop_update_cancel)

lemma write_entry_span_spec:
  assumes "vol_ok view s" and "chain s c cs" and "\<forall>e \<in> set new. length (de_name e) = 11"
    and "write_entry_span_at c i new s = (r, t)"
  shows "dir_frame view cs s t \<and> (r = FAT32_OK \<or> r = FAT32_IO_ERROR) \<and>
    (r = FAT32_OK \<longrightarrow> (new \<noteq> [] \<longrightarrow> unat i + length new \<le> length cs * epc s) \<and>
       dir_entries view t cs = blit (dir_entries view s cs) (unat i) new)"
  using assms
proof (induction new arbitrary: i s)
  case Nil
  then show ?case by (simp add: dir_frame_refl blit_def)
next
  case (Cons e new)
  obtain r1 s1 where w: "write_directory_entry c i e s = (r1, s1)" by fastforce
  have one: "dir_frame view cs s s1" "r1 = FAT32_OK \<or> r1 = FAT32_IO_ERROR"
      "r1 = FAT32_OK \<Longrightarrow> unat i < length cs * epc s"
      "r1 = FAT32_OK \<Longrightarrow> dir_entries view s1 cs = (dir_entries view s cs)[unat i := e]"
    using write_directory_entry_spec [OF Cons.prems(1,2) _ w] Cons.prems(3) by auto
  show ?case
  proof (cases "r1 = FAT32_OK")
    case False
    then show ?thesis using Cons.prems(4) one by (auto simp: w)
  next
    case True
    have "length cs * epc s < 2 ^ 32 - 1" by (rule dir_size_bound [OF Cons.prems(1,2)])
    then have i: "unat (i + 1) = Suc (unat i)"
      using one(3) [OF True] by (intro unat_Suc_small) simp
    have run: "write_entry_span_at c (i + 1) new s1 = (r, t)" using Cons.prems(4) True by (simp add: w)
    have v1: "vol_ok view s1" using one(1) by (simp add: dir_frame_def)
    have c1: "chain s1 c cs" using one(1) Cons.prems(2) by (simp add: dir_frame_chain)
    have e1: "epc s1 = epc s" using dir_frame_epc [OF one(1)] .
    have "\<forall>e \<in> set new. length (de_name e) = 11" using Cons.prems(3) by simp
    note rest = Cons.IH [OF v1 c1 this run, unfolded i e1]
    have "blit ((dir_entries view s cs)[unat i := e]) (Suc (unat i)) new = blit (dir_entries view s cs) (unat i) (e # new)"
      using one(3) [OF True] by (intro blit_update_Cons) simp
    then show ?thesis
      using rest one(3,4) True dir_frame_trans [OF one(1)] by (cases "new = []") auto
  qed
qed

definition mark_deleted :: "DirectoryEntry \<Rightarrow> DirectoryEntry" where
  "mark_deleted e = e\<lparr>de_name := (de_name e)[0 := FAT32_DELETED]\<rparr>"

lemma length_slot_name: "32 * i + 32 \<le> length b \<Longrightarrow> length (de_name (slot b i)) = 11"
  by (simp add: slot_def entry_of_bytes_def)

lemma length_dir_name:
  assumes "vol_ok view s" and "chain s c cs" and "i < length cs * epc s"
  shows "length (de_name (dir_entries view s cs ! i)) = 11"
proof -
  have pos: "0 < epc s" using epc_size [OF assms(1)] by simp
  then have "i div epc s < length cs" using assms(3) by (simp add: less_mult_imp_div_less)
  then have "length (cluster_data view s (cs ! (i div epc s))) = 32 * epc s"
    using clusters.length_contents [OF assms(1)] chain_valid [OF assms(2)] epc_size(1) [OF assms(1)]
    by (simp add: nth_mem)
  then show ?thesis
    unfolding dir_entries_nth [OF assms(3)] using mod_less_divisor [OF pos, of i] by (intro length_slot_name) simp
qed

lemma mark_range_loop_spec:
  assumes "vol_ok view s" and "chain s c cs" and "unat i + n \<le> length cs * epc s"
    and "mark_range_loop n c i s = (r, t)"
  shows "dir_frame view cs s t \<and> (r = FAT32_OK \<or> r = FAT32_IO_ERROR) \<and>
    (r = FAT32_OK \<longrightarrow> dir_entries view t cs = blit (dir_entries view s cs) (unat i)
       (map mark_deleted (take n (drop (unat i) (dir_entries view s cs)))))"
  using assms
proof (induction n arbitrary: i s)
  case 0
  then show ?case by (simp add: dir_frame_refl blit_def)
next
  case (Suc n)
  let ?es = "dir_entries view s cs"
  obtain r1 eo s1 where rd: "read_directory_entry c i s = (r1, eo, s1)" by (metis prod_cases3)
  have i: "unat i < length cs * epc s" using Suc.prems(3) by simp
  note rspec = read_directory_entry_spec [OF Suc.prems(1,2) rd]
  have f1: "dir_frame view cs s s1" using rspec by (simp add: dir_frame_def)
  consider (err) "r1 = FAT32_IO_ERROR" "eo = None" | (ok) "r1 = FAT32_OK" "eo = Some (?es ! unat i)"
    using rspec i by auto
  then show ?case
  proof cases
    case err
    then have "(r, t) = (FAT32_IO_ERROR, s1)" using Suc.prems(4) by (simp add: rd)
    then show ?thesis using f1 by simp
  next
    case ok
    let ?e = "mark_deleted (?es ! unat i)"
    have v1: "vol_ok view s1" and c1: "chain s1 c cs" and e1: "epc s1 = epc s"
      using f1 Suc.prems(2) dir_frame_chain [OF f1] dir_frame_epc [OF f1] by (auto simp: dir_frame_def)
    have es1: "dir_entries view s1 cs = ?es" using rspec e1 by (intro dir_entries_cong) auto
    obtain r2 s2 where w: "write_directory_entry c i ?e s1 = (r2, s2)" by fastforce
    have len: "length (de_name ?e) = 11"
      using length_dir_name [OF Suc.prems(1,2) i] by (simp add: mark_deleted_def)
    note wspec = write_directory_entry_spec [OF v1 c1 len w, unfolded es1 e1]
    have f2: "dir_frame view cs s s2" using dir_frame_trans [OF f1] wspec by blast
    show ?thesis
    proof (cases "r2 = FAT32_OK")
      case False
      then have "(r, t) = (r2, s2)" using Suc.prems(4) ok w by (simp add: rd mark_deleted_def)
      then show ?thesis using f2 wspec False by auto
    next
      case True
      have run: "mark_range_loop n c (i + 1) s2 = (r, t)"
        using Suc.prems(4) ok w True by (simp add: rd mark_deleted_def)
      have i1: "unat (i + 1) = Suc (unat i)" if "n \<noteq> 0"
      proof -
        have "length cs * epc s < 2 ^ 32" using dir_size_bound [OF Suc.prems(1,2)] by simp
        then show ?thesis using Suc.prems(3) that by (intro unat_Suc_small) simp
      qed
      have v2: "vol_ok view s2" and c2: "chain s2 c cs" and e2: "epc s2 = epc s"
        using f2 Suc.prems(2) dir_frame_chain [OF f2] dir_frame_epc [OF f2] by (auto simp: dir_frame_def)
      have es2: "dir_entries view s2 cs = ?es[unat i := ?e]" using wspec True by simp
      show ?thesis
      proof (cases "n = 0")
        case True
        then have "(r, t) = (FAT32_OK, s2)" using run by simp
        then show ?thesis using f2 es2 i True by (simp add: blit_def take_Suc_conv_app_nth upd_conv_take_nth_drop hd_drop_conv_nth take_Suc)
      next
        case False
        have room: "unat (i + 1) + n \<le> length cs * epc s2" using Suc.prems(3) i1 [OF False] e2 by simp
        note rest = Suc.IH [OF v2 c2 room run, unfolded i1 [OF False] es2]
        have "blit (?es[unat i := ?e]) (Suc (unat i)) (map mark_deleted (take n (drop (Suc (unat i)) (?es[unat i := ?e]))))
            = blit ?es (unat i) (map mark_deleted (take (Suc n) (drop (unat i) ?es)))"
          using i blit_update_Cons [of "unat i" ?es ?e] by (simp add: drop_update_cancel flip: Cons_nth_drop_Suc)
        then show ?thesis using rest f2 dir_frame_trans by auto
      qed
    qed
  qed
qed

end
