(* ===== verification/FatDirFind.thy ===== *)
theory FatDirFind
  imports FatDirData
begin

text \<open>
  Looking names up on disk: \<open>find_entry_in_cluster_dir\<close> is one scan of the directory's entries, and a
  name whose entries were written is found. A disk whose reads never fail is \<open>reads_succeed\<close>; on
  any other disk a look-up may end with \<open>FAT32_IO_ERROR\<close> but never with a wrong entry.
\<close>

definition reads_succeed :: "'d fat_state \<Rightarrow> bool" where
  "reads_succeed s \<longleftrightarrow> (\<forall>lba count out d. fst (block_read_sectors (g_block_device s) lba count out d))"

lemma io_frame_reads: "io_frame s t \<Longrightarrow> reads_succeed t = reads_succeed s"
  by (simp add: reads_succeed_def io_frame_simps)

lemma read_cluster_succeeds:
  assumes "vol_ok view s" and "reads_succeed s" and "is_valid_data_cluster c s" and "read_cluster c s = (ok, t)"
  shows ok
  using assms cluster_io_ok_iff [of s c]
  by (auto simp: read_cluster_def reads_succeed_def vol_ok_def Let_def split: prod.splits)
    (metis fst_conv)+

definition writes_succeed :: "'d fat_state \<Rightarrow> bool" where
  "writes_succeed s \<longleftrightarrow> (\<forall>lba count data d. fst (block_write_sectors (g_block_device s) lba count data d))"

definition reliable :: "'d fat_state \<Rightarrow> bool" where
  "reliable s \<longleftrightarrow> reads_succeed s \<and> writes_succeed s"

lemma io_frame_reliable: "io_frame s t \<Longrightarrow> reliable t = reliable s"
  by (simp add: reliable_def reads_succeed_def writes_succeed_def io_frame_simps)

lemma ram_reliable: "g_block_device s = ram_device \<Longrightarrow> reliable s"
  by (simp add: reliable_def reads_succeed_def writes_succeed_def block_read_sectors_def
      block_write_sectors_def ram_device_def ram_read_def ram_write_def)

lemma write_cluster_succeeds:
  assumes "vol_ok view s" and "reliable s" and "is_valid_data_cluster c s"
  shows "\<exists>t. write_cluster c s = (True, t)"
proof -
  have "cluster_io_ok c s" using assms(1,3) cluster_io_ok_iff [of s c] by (simp add: vol_ok_def)
  moreover have "fst (block_write_sectors (g_block_device s) lba count data d)" for lba count data d
    using assms(2) by (simp add: reliable_def writes_succeed_def)
  then have "\<exists>d'. block_write_sectors (g_block_device s) lba count data d = (True, d')" for lba count data d
    by (metis prod.collapse)
  ultimately show ?thesis by (auto simp: write_cluster_def Let_def split: prod.splits) (metis prod.inject)
qed

definition lfn_before :: "DirectoryEntry list \<Rightarrow> nat \<Rightarrow> nat" where
  "lfn_before es j = length (takeWhile (\<lambda>e. attributes e = FAT32_LFN) (rev (take j es)))"

lemma lfn_before_simps:
  "lfn_before es 0 = 0"
  "j < length es \<Longrightarrow> lfn_before es (Suc j) = (if attributes (es ! j) = FAT32_LFN then Suc (lfn_before es j) else 0)"
  by (simp_all add: lfn_before_def take_Suc_conv_app_nth)

subsection \<open>The scan of a list of entries\<close>

lemma find_in_entries_append:
  "find_in_entries (es @ fs) i name lfn =
     (case find_in_entries es i name lfn of
        Find_more lfn' \<Rightarrow> find_in_entries fs (i + of_nat (length es)) name lfn'
      | found \<Rightarrow> found)"
  by (induction es arbitrary: i lfn) (simp_all add: add.assoc split: find_step.splits)

lemma find_in_entries_hit:
  "find_in_entries es i name lfn = Find_hit j e lfn' \<Longrightarrow> \<exists>k < length es. j = i + of_nat k \<and> es ! k = e"
proof (induction es arbitrary: i lfn)
  case (Cons x es)
  have step: ?case if tl: "find_in_entries es (i + 1) name l = Find_hit j e lfn'" for l
  proof -
    obtain k where "k < length es" "j = i + 1 + of_nat k" "es ! k = e" using Cons.IH [OF tl] by blast
    then show ?thesis by (intro exI [of _ "Suc k"]) (simp add: add.assoc)
  qed
  show ?case
  proof (cases "\<exists>l. find_in_entries es (i + 1) name l = Find_hit j e lfn'")
    case True
    then show ?thesis using step by blast
  next
    case False
    then have "j = i" "x = e" using Cons.prems by (auto split: if_splits)
    then show ?thesis by (intro exI [of _ 0]) simp
  qed
qed simp

subsection \<open>The scan of a chain\<close>

lemma read_directory_entry_succeeds:
  assumes v: "vol_ok view s" and c: "chain s c cs" and i: "unat i < length cs * epc s"
    and run: "read_directory_entry c i s = (r, eo, t)" and rs: "reads_succeed s"
  shows "eo \<noteq> None"
proof -
  obtain cl where cl: "cluster_for_directory_index c i s = (cl, of_nat (unat i mod epc s))" "in_chain cl"
      "is_valid_data_cluster cl s"
    using index_cluster [OF v c, of i] i by auto
  obtain ok s1 where rd: "read_cluster cl s = (ok, s1)" by fastforce
  have ok using read_cluster_succeeds [OF v rs cl(3) rd] .
  then show ?thesis using run cl rd by (auto simp: read_directory_entry_def)
qed

lemma count_lfn_before_spec:
  assumes "vol_ok view s" and "chain s c cs" and "j \<le> length cs * epc s"
    and "count_lfn_before c j s = (n, t)"
  shows "vol_ok view t \<and> io_frame s t \<and> cluster_data view t = cluster_data view s \<and>
    n \<le> lfn_before (dir_entries view s cs) j \<and>
    (reads_succeed s \<longrightarrow> n = lfn_before (dir_entries view s cs) j)"
  using assms
proof (induction j arbitrary: s n)
  case 0
  then show ?case by (simp add: lfn_before_simps)
next
  case (Suc j)
  let ?es = "dir_entries view s cs"
  obtain r eo s1 where rd: "read_directory_entry c (of_nat j) s = (r, eo, s1)" by (metis prod_cases3)
  have "length cs * epc s < 2 ^ 32" using dir_size_bound [OF Suc.prems(1,2)] by simp
  then have j: "unat (of_nat j :: u32) = j" using Suc.prems(3) by (intro unat_of_nat_u32) simp
  note rspec = read_directory_entry_spec [OF Suc.prems(1,2) rd, unfolded j]
  have lt: "j < length cs * epc s" using Suc.prems(3) by simp
  have before: "lfn_before ?es (Suc j) = (if attributes (?es ! j) = FAT32_LFN then Suc (lfn_before ?es j) else 0)"
    using lt by (simp add: lfn_before_simps)
  have e1: "epc s1 = epc s" and es1: "dir_entries view s1 cs = ?es"
    using rspec io_frame_epc dir_entries_cong by blast+
  consider (err) "eo = None" "\<not> reads_succeed s" | (ok) "eo = Some (?es ! j)"
    using rspec lt read_directory_entry_succeeds [OF Suc.prems(1,2) _ rd] j by auto
  then show ?case
  proof cases
    case err
    then have "n = 0" "t = s1" using Suc.prems(4) by (simp_all add: rd)
    then show ?thesis using rspec err by simp
  next
    case ok
    show ?thesis
    proof (cases "attributes (?es ! j) = FAT32_LFN")
      case False
      then have "n = 0" "t = s1" using Suc.prems(4) ok by (simp_all add: rd)
      then show ?thesis using rspec before False by simp
    next
      case True
      obtain m where rest: "count_lfn_before c j s1 = (m, t)" and n: "n = Suc m"
        using Suc.prems(4) ok True by (auto simp: rd split: prod.splits)
      have v1: "vol_ok view s1" and c1: "chain s1 c cs" and fr: "io_frame s s1"
        using rspec Suc.prems(2) io_frame_chain by blast+
      have "j \<le> length cs * epc s1" using lt e1 by simp
      note IH = Suc.IH [OF v1 c1 this rest, unfolded es1 io_frame_reads [OF fr]]
      then show ?thesis using rspec before True n io_frame_trans [OF fr] by auto
    qed
  qed
qed

definition found_entry ::
  "'d fat_state \<Rightarrow> u32 \<Rightarrow> DirectoryEntry list \<Rightarrow> find_step \<Rightarrow> Fat32Result \<Rightarrow> EntryRef option \<Rightarrow> bool" where
  "found_entry s c es step r ref \<longleftrightarrow>
     (case step of
        Find_hit j e lfn \<Rightarrow> r = FAT32_OK \<and> (\<exists>n. ref = Some \<lparr>directory_first_cluster = c, entry_index = j,
            lfn_entry_count = of_nat n, er_entry = e\<rparr> \<and>
          n \<le> (if lfn_complete e lfn then lfn_before es (unat j) else 0) \<and>
          (reads_succeed s \<longrightarrow> n = (if lfn_complete e lfn then lfn_before es (unat j) else 0)))
      | _ \<Rightarrow> r = FAT32_NOT_FOUND \<and> ref = None)"

lemma find_entry_loop_spec:
  assumes "vol_ok view s" and "chain s c (pre @ rest)" and "chain s cl rest"
    and "base = of_nat (length pre * epc s)"
  shows "\<exists>r ref t. find_entry_loop c cl base name lfn s = Some (r, ref, t) \<and>
    vol_ok view t \<and> io_frame s t \<and> cluster_data view t = cluster_data view s \<and>
    (r = FAT32_IO_ERROR \<and> ref = None \<and> \<not> reads_succeed s \<or>
     found_entry s c (dir_entries view s (pre @ rest)) (find_in_entries (dir_entries view s rest) base name lfn) r ref)"
  using assms
proof (induction rest arbitrary: s pre cl base lfn)
  case Nil
  then have "\<not> in_chain cl" by (auto simp: in_chain_def)
  then show ?case
    using Nil.prems(1) by (simp add: find_entry_loop.simps [of c cl] found_entry_def dir_entries_simps)
next
  case (Cons x rest)
  let ?es = "dir_entries view s (pre @ x # rest)"
  have x: "x = cl" "is_valid_data_cluster cl s" "chain s (fat32_next_cluster cl s) rest" using Cons.prems(3) by auto
  have b: "fat_bounded s" using vol_bounded [OF Cons.prems(1)] .
  obtain ok s1 where rd: "read_cluster cl s = (ok, s1)" by fastforce
  note frame = clusters.rd_frame [OF Cons.prems(1) rd]
  have v1: "vol_ok view s1" and fr: "io_frame s s1" and d1: "cluster_data view s1 = cluster_data view s"
    using frame by auto
  have e1: "epc s1 = epc s" "entries_per_cluster s1 = entries_per_cluster s" using io_frame_epc [OF fr] by auto
  note unf = find_entry_loop.simps [of c cl base name lfn s]
  show ?case
  proof (cases ok)
    case False
    then have "\<not> reads_succeed s" using read_cluster_succeeds [OF Cons.prems(1) _ x(2) rd] by blast
    then show ?thesis
      using False frame valid_in_chain [OF b x(2)] by (simp add: unf rd)
  next
    case True
    have buf: "cluster_buf s1 = cluster_data view s cl"
      using clusters.rd_buf [OF Cons.prems(1), of cl s1] rd True by simp
    have entries: "cluster_entries s1 = disk_entries view s cl"
      by (rule cluster_entries_eq [OF v1 buf e1(1)])
    have run: "find_entry_loop c cl base name lfn s = (case find_in_entries (disk_entries view s cl) base name lfn of
          Find_end \<Rightarrow> Some (FAT32_NOT_FOUND, None, s1)
        | Find_hit j e lfn' \<Rightarrow>
            (case (if lfn_complete e lfn' then count_lfn_before c (unat j) s1 else (0, s1)) of
               (n, s2) \<Rightarrow> Some (FAT32_OK, Some \<lparr>directory_first_cluster = c, entry_index = j,
                             lfn_entry_count = of_nat n, er_entry = e\<rparr>, s2))
        | Find_more lfn' \<Rightarrow> find_entry_loop c (fat32_next_cluster cl s) (base + entries_per_cluster s) name lfn' s1)"
      unfolding unf using valid_in_chain [OF b x(2)] True
      by (simp add: rd entries io_frame_next [OF fr] e1 cong: find_step.case_cong)
    have ew: "of_nat (epc s) = entries_per_cluster s" by (simp add: epc_def)
    have split: "find_in_entries (dir_entries view s (x # rest)) base name lfn =
        (case find_in_entries (disk_entries view s cl) base name lfn of
           Find_more lfn' \<Rightarrow> find_in_entries (dir_entries view s rest) (base + entries_per_cluster s) name lfn'
         | found \<Rightarrow> found)"
      using x(1) by (simp add: dir_entries_simps find_in_entries_append ew cong: find_step.case_cong)
    show ?thesis
    proof (cases "find_in_entries (disk_entries view s cl) base name lfn")
      case Find_end
      then show ?thesis using frame run split by (simp add: found_entry_def)
    next
      case (Find_hit j e lfn')
      then obtain k where k: "k < epc s" "j = base + of_nat k"
        using find_in_entries_hit [OF Find_hit] by auto
      have lim: "length pre * epc s + k < length (pre @ x # rest) * epc s"
        using k(1) by (simp add: add_mult_distrib)
      have "j = of_nat (length pre * epc s + k)" using Cons.prems(4) k(2) by simp
      moreover have "length pre * epc s + k < 4294967296"
        using less_trans [OF lim dir_size_bound [OF Cons.prems(1,2)]] by simp
      ultimately have "unat j = length pre * epc s + k" using unat_of_nat_u32 by blast
      then have j: "unat j \<le> length (pre @ x # rest) * epc s1" using lim e1 by simp
      have c1: "chain s1 c (pre @ x # rest)" using Cons.prems(2) io_frame_chain [OF fr] by simp
      have es1: "dir_entries view s1 (pre @ x # rest) = ?es" using d1 e1 by (intro dir_entries_cong) auto
      show ?thesis
      proof (cases "lfn_complete e lfn'")
        case False
        then show ?thesis using frame run split Find_hit
          by (simp add: found_entry_def)
      next
        case True
        obtain n s2 where cnt: "count_lfn_before c (unat j) s1 = (n, s2)" by fastforce
        note count_lfn_before_spec [OF v1 c1 j cnt, unfolded es1 io_frame_reads [OF fr] d1]
        then show ?thesis using run split Find_hit True cnt io_frame_trans [OF fr]
          by (simp add: found_entry_def) blast
      qed
    next
      case (Find_more lfn')
      have e: "entries_per_cluster s = of_nat (epc s)" by (simp add: epc_def)
      have IH: "\<exists>r ref t. find_entry_loop c (fat32_next_cluster cl s) (base + entries_per_cluster s) name lfn' s1 =
            Some (r, ref, t) \<and> vol_ok view t \<and> io_frame s1 t \<and> cluster_data view t = cluster_data view s1 \<and>
          (r = FAT32_IO_ERROR \<and> ref = None \<and> \<not> reads_succeed s1 \<or>
           found_entry s1 c (dir_entries view s1 ((pre @ [x]) @ rest))
             (find_in_entries (dir_entries view s1 rest) (base + entries_per_cluster s) name lfn') r ref)"
      proof (rule Cons.IH [OF v1])
        show "chain s1 c ((pre @ [x]) @ rest)" "chain s1 (fat32_next_cluster cl s) rest"
          using Cons.prems(2) x(3) io_frame_chain [OF fr] by auto
        show "base + entries_per_cluster s = of_nat (length (pre @ [x]) * epc s1)"
          using Cons.prems(4) e e1 by (simp add: algebra_simps)
      qed
      have "dir_entries view s1 ds = dir_entries view s ds" for ds using d1 e1 by (intro dir_entries_cong) auto
      moreover have "found_entry s1 = found_entry s"
        unfolding fun_eq_iff found_entry_def io_frame_reads [OF fr] by blast
      ultimately show ?thesis
        using IH run split Find_more d1 io_frame_trans [OF fr] io_frame_reads [OF fr] by simp blast
    qed
  qed
qed

end
