(* ===== verification/FatDirNew.thy ===== *)
theory FatDirNew
  imports FatDirFind FatFileData
begin

text \<open>
  The directory's contract as the file operations use it: entries read by index are the entries
  written, a look-up is a scan of the directory's entries, and a name whose entries have been written
  to free slots is found with the entry written for it.
\<close>

subsection \<open>The entries of a name\<close>

lemma fill_lengths:
  "length (name1 (fill_lfn_name_segment name off l)) = 5" "length (name2 (fill_lfn_name_segment name off l)) = 6"
  "length (name3 (fill_lfn_name_segment name off l)) = 2"
  by (simp_all add: fill_lfn_name_segment_def)

lemma length_concat_le16: "length (concat (map le16 xs)) = 2 * length xs"
  by (induction xs) simp_all

lemma lfn_bytes_at:
  assumes "length (name1 l) = 5" "length (name2 l) = 6" "length (name3 l) = 2"
  shows "bytes_of_lfn l ! 0 = lfn_order l" "bytes_of_lfn l ! 11 = lfn_attributes l"
    "length (bytes_of_lfn l) = 32"
  using assms length_bytes_of_lfn [OF assms]
  by (simp_all add: bytes_of_lfn_def nth_append length_concat_le16)

lemma order_not_mark:
  assumes "0 < k" and "k \<le> 10"
  shows "of_nat k \<noteq> (0 :: u8) \<and> of_nat k \<noteq> FAT32_DELETED \<and>
    of_nat k OR FAT32_LFN_LAST \<noteq> (0 :: u8) \<and> of_nat k OR FAT32_LFN_LAST \<noteq> FAT32_DELETED"
proof -
  have "k = 1 \<or> k = 2 \<or> k = 3 \<or> k = 4 \<or> k = 5 \<or> k = 6 \<or> k = 7 \<or> k = 8 \<or> k = 9 \<or> k = 10"
    using assms by arith
  then show ?thesis by (elim disjE) (simp_all add: FAT32_DELETED_def FAT32_LFN_LAST_def)
qed

lemma lfn_entry_fields:
  shows "attributes (lfn_entry name chk count i) = FAT32_LFN"
    and "i < count \<Longrightarrow> count \<le> 10 \<Longrightarrow> de_name (lfn_entry name chk count i) ! 0 \<noteq> 0 \<and>
      de_name (lfn_entry name chk count i) ! 0 \<noteq> FAT32_DELETED"
    and "length (de_name (lfn_entry name chk count i)) = 11"
proof -
  let ?o = "if i = 0 then of_nat (count - i) OR FAT32_LFN_LAST else of_nat (count - i)"
  define l where "l = fill_lfn_name_segment name ((count - i - 1) * 13)
      \<lparr>lfn_order = ?o, name1 = [], lfn_attributes = FAT32_LFN, entry_type = 0,
       lfn_checksum = chk, name2 = [], lfn_first_cluster_low = 0, name3 = []\<rparr>"
  have e: "lfn_entry name chk count i = entry_of_bytes (bytes_of_lfn l)"
    by (simp add: lfn_entry_def l_def Let_def)
  have b: "bytes_of_lfn l ! 0 = lfn_order l" "bytes_of_lfn l ! 11 = lfn_attributes l"
      "length (bytes_of_lfn l) = 32"
    by (rule lfn_bytes_at; simp add: l_def fill_lengths)+
  have f: "lfn_order l = ?o" "lfn_attributes l = FAT32_LFN" by (simp_all add: l_def fill_lfn_name_segment_def)
  show "attributes (lfn_entry name chk count i) = FAT32_LFN"
    unfolding e using b(2) f by (simp add: entry_of_bytes_def)
  show "length (de_name (lfn_entry name chk count i)) = 11"
    unfolding e using b(3) by (simp add: entry_of_bytes_def)
  assume i: "i < count" "count \<le> 10"
  have "?o \<noteq> 0 \<and> ?o \<noteq> FAT32_DELETED"
    using order_not_mark [of "count - i"] i by auto
  then show "de_name (lfn_entry name chk count i) ! 0 \<noteq> 0 \<and>
      de_name (lfn_entry name chk count i) ! 0 \<noteq> FAT32_DELETED"
    unfolding e using b f by (simp add: entry_of_bytes_def)
qed


lemma find_in_lfn_entries:
  "\<forall>e \<in> set es. de_name e ! 0 \<noteq> 0 \<and> de_name e ! 0 \<noteq> FAT32_DELETED \<and> attributes e = FAT32_LFN \<Longrightarrow>
   find_in_entries es i name lfn = Find_more (fold process_lfn_entry es lfn)"
  by (induction es arbitrary: i lfn) auto

text \<open>The entry that names a file or directory: not an LFN entry, not a volume label, not free.\<close>

definition name_entry_ok :: "bytes \<Rightarrow> u8 \<Rightarrow> bool" where
  "name_entry_ok short attrs \<longleftrightarrow> length short = 11 \<and> short ! 0 \<noteq> 0 \<and> short ! 0 \<noteq> FAT32_DELETED \<and>
     attrs AND FAT32_VOLUME_ID = 0"

lemma not_volume_not_lfn: "a AND FAT32_VOLUME_ID = 0 \<Longrightarrow> a \<noteq> FAT32_LFN"
  by (auto simp: FAT32_VOLUME_ID_def FAT32_LFN_def)

lemma short_entry_fields [simp]:
  "de_name (short_entry short attrs c sz) = short" "attributes (short_entry short attrs c sz) = attrs"
  "de_size (short_entry short attrs c sz) = sz" "entry_first_cluster (short_entry short attrs c sz) = c"
proof -
  show "entry_first_cluster (short_entry short attrs c sz) = c" by (simp add: short_entry_def)
qed (simp_all add: short_entry_def entry_set_first_cluster_def)

lemma find_short_entry:
  assumes "name_entry_ok short attrs" and "name_equals_ignore_case (decode_directory_entry_name (short_entry short attrs c sz) lfn) name"
  shows "find_in_entries (short_entry short attrs c sz # es) i name lfn = Find_hit i (short_entry short attrs c sz) lfn"
  using assms not_volume_not_lfn [of attrs] by (simp add: name_entry_ok_def should_skip_entry_def)

lemma equals_ignore_case_refl: "name_equals_ignore_case name name"
  by (induction name) simp_all

text \<open>The written name is found, by its long name or by its 8.3 form.\<close>

lemma find_long_name:
  assumes v: "validate_long_name name = Some n" and ok: "name_entry_ok short attrs"
  defines "count \<equiv> lfn_entry_count_for_name name"
  shows "\<exists>lfn'. find_in_entries (name_entries name short count attrs c sz @ post) i name lfn =
      Find_hit (i + of_nat count) (short_entry short attrs c sz) lfn' \<and>
      lfn_complete (short_entry short attrs c sz) lfn'"
proof -
  have len: "length short = 11" using ok by (simp add: name_entry_ok_def)
  note dec = lfn_entries_decode [OF v len, of attrs c sz lfn, folded count_def]
  let ?lfns = "map (lfn_entry name (short_name_checksum short) count) [0..<count]"
  let ?e = "short_entry short attrs c sz"
  have split: "name_entries name short count attrs c sz = ?lfns @ [?e]" by (simp add: name_entries_def)
  then have st: "fold process_lfn_entry ?lfns lfn = lfn_after name (short_name_checksum short) count 1"
      "decode_directory_entry_name ?e (fold process_lfn_entry ?lfns lfn) = name" "count \<le> 10"
    using dec unfolding split butlast_snoc last_snoc by (auto simp: FAT32_MAX_NAME_ENTRIES_def)
  have "find_in_entries ?lfns i name lfn = Find_more (fold process_lfn_entry ?lfns lfn)"
    using lfn_entry_fields(1,2) st(3) by (intro find_in_lfn_entries) auto
  moreover have "find_in_entries (?e # post) (i + of_nat count) name (fold process_lfn_entry ?lfns lfn) =
      Find_hit (i + of_nat count) ?e (fold process_lfn_entry ?lfns lfn)"
    using st(2) equals_ignore_case_refl by (intro find_short_entry [OF ok]) simp
  moreover have "lfn_complete ?e (fold process_lfn_entry ?lfns lfn)"
    unfolding st(1) by (simp add: lfn_complete_def lfn_after_def)
  moreover have "name_entries name short count attrs c sz @ post = ?lfns @ (?e # post)" unfolding split by simp
  ultimately show ?thesis by (simp add: find_in_entries_append del: find_in_entries.simps)
qed

lemma find_exact_short_name:
  assumes short: "make_short_name_if_possible name = Some short" and ok: "name_entry_ok short attrs"
    and idle: "\<not> lfn_active lfn"
  shows "find_in_entries (name_entries name short 0 attrs c sz @ post) i name lfn =
      Find_hit i (short_entry short attrs c sz) lfn"
proof -
  have "decode_directory_entry_name (short_entry short attrs c sz) lfn = format_short_name short"
    using idle by (simp add: decode_directory_entry_name_def lfn_complete_def)
  moreover have "name_equals_ignore_case (format_short_name short) name"
    using short_name_found [OF short] .
  ultimately show ?thesis
    using find_short_entry [OF ok] by (simp add: name_entries_def del: find_in_entries.simps)
qed

text \<open>A scan that has passed an entry which is not a live LFN entry is not collecting a long name.\<close>

definition ends_idle :: "DirectoryEntry list \<Rightarrow> bool" where
  "ends_idle es \<longleftrightarrow> es = [] \<or> attributes (last es) \<noteq> FAT32_LFN \<or> de_name (last es) ! 0 = FAT32_DELETED"

lemma scan_ends_idle:
  assumes "find_in_entries es i name lfn_initial = Find_more lfn" and "ends_idle es"
  shows "\<not> lfn_active lfn"
proof (cases es rule: rev_cases)
  case Nil
  then show ?thesis using assms by (auto simp: lfn_initial_def)
next
  case (snoc xs e)
  then obtain l where "find_in_entries [e] (i + of_nat (length xs)) name l = Find_more lfn"
    using assms(1) by (auto simp: find_in_entries_append split: find_step.splits)
  then show ?thesis
    using assms(2) snoc by (auto simp: ends_idle_def lfn_state_reset_def split: if_splits)
qed

subsection \<open>Writes succeed on a disk that does\<close>

lemma write_directory_entry_succeeds:
  assumes v: "vol_ok view s" and c: "chain s c cs" and i: "unat i < length cs * epc s"
    and e: "length (de_name e) = 11" and rel: "reliable s" and run: "write_directory_entry c i e s = (r, t)"
  shows "r = FAT32_OK"
proof -
  obtain cl where cl: "cluster_for_directory_index c i s = (cl, of_nat (unat i mod epc s))" "in_chain cl"
      "is_valid_data_cluster cl s"
    using index_cluster [OF v c, of i] i by auto
  obtain ok s1 where rd: "read_cluster cl s = (ok, s1)" by fastforce
  have ok using read_cluster_succeeds [OF v _ cl(3) rd] rel by (simp add: reliable_def)
  have s1: "vol_ok view s1" "io_frame s s1" using clusters.rd_frame [OF v rd] by auto
  have pos: "0 < epc s" using epc_size [OF v] by simp
  have mod: "unat (of_nat (unat i mod epc s) :: u32) = unat i mod epc s"
    using epc_size [OF v] mod_less_divisor [OF pos, of "unat i"] by (intro unat_of_nat_u32) linarith
  let ?off = "32 * (unat i mod epc s)"
  have "?off + length (bytes_of_entry e) \<le> cluster_bytes_size s1"
    using entry_bytes_roundtrip [OF e] epc_size(1) [OF v] mod_less_divisor [OF pos, of "unat i"]
      io_frame_csize [OF s1(2)] by simp
  note p = patch_buffer_spec(1,2) [OF s1(1) this]
  have "reliable (patch_buffer ?off (bytes_of_entry e) s1)"
    using rel io_frame_reliable [OF s1(2)] io_frame_reliable [OF p(2)] by simp
  moreover have "is_valid_data_cluster cl (patch_buffer ?off (bytes_of_entry e) s1)"
    using cl(3) io_frame_valid [OF s1(2)] io_frame_valid [OF p(2)] by simp
  ultimately obtain u where "write_cluster cl (patch_buffer ?off (bytes_of_entry e) s1) = (True, u)"
    using write_cluster_succeeds [OF p(1)] by blast
  then show ?thesis
    using run cl rd \<open>ok\<close> mod by (simp add: write_directory_entry_def patch_buffer_def)
qed

lemma write_entry_span_succeeds:
  assumes "vol_ok view s" and "chain s c cs" and "unat i + length new \<le> length cs * epc s"
    and "\<forall>e \<in> set new. length (de_name e) = 11" and "reliable s" and "write_entry_span_at c i new s = (r, t)"
  shows "r = FAT32_OK"
  using assms
proof (induction new arbitrary: i s)
  case (Cons e new)
  obtain r1 s1 where w: "write_directory_entry c i e s = (r1, s1)" by fastforce
  have i: "unat i < length cs * epc s" using Cons.prems(3) by simp
  have e: "length (de_name e) = 11" using Cons.prems(4) by simp
  have r1: "r1 = FAT32_OK" by (rule write_directory_entry_succeeds [OF Cons.prems(1,2) i e Cons.prems(5) w])
  have fr: "dir_frame view cs s s1" using write_directory_entry_spec [OF Cons.prems(1,2) e w] by blast
  then have fr': "vol_ok view s1" "io_frame s s1" by (auto simp: dir_frame_def)
  have i1: "unat (i + 1) = Suc (unat i)"
    using i dir_size_bound [OF Cons.prems(1,2)] by (intro unat_Suc_small) simp
  show ?case
  proof (rule Cons.IH)
    show "write_entry_span_at c (i + 1) new s1 = (r, t)" using Cons.prems(6) r1 by (simp add: w)
    show "unat (i + 1) + length new \<le> length cs * epc s1"
      using Cons.prems(3) i1 dir_frame_epc [OF fr] by simp
  qed (use Cons.prems fr' io_frame_chain [OF fr'(2)] io_frame_reliable [OF fr'(2)] in auto)
qed simp

subsection \<open>The contract\<close>

text \<open>C21: writing a run of entries at an index of a directory is an update of the directory's list of
  entries, whatever clusters the run crosses. On \<open>FAT32_OK\<close> the list is the old one with the new
  entries in place and reading an index back gives the entry there; on failure or success the FAT and
  every cluster outside the directory are untouched, and a reliable disk never fails inside the
  directory.\<close>

theorem directory_write_updates_list:
  assumes v: "vol_ok view s" and c: "chain s c cs" and new: "\<forall>e \<in> set new. length (de_name e) = 11"
    and run: "write_entry_span_at c i new s = (r, t)"
  shows "dir_frame view cs s t \<and> (r = FAT32_OK \<or> r = FAT32_IO_ERROR) \<and>
    (r = FAT32_OK \<longrightarrow> dir_entries view t cs = blit (dir_entries view s cs) (unat i) new \<and>
      (\<forall>k q eo u. unat k < length cs * epc t \<longrightarrow> read_directory_entry c k t = (q, eo, u) \<longrightarrow>
         eo = Some (blit (dir_entries view s cs) (unat i) new ! unat k) \<or> eo = None \<and> \<not> reliable t)) \<and>
    (reliable s \<and> unat i + length new \<le> length cs * epc s \<longrightarrow> r = FAT32_OK)"
proof -
  note spec = write_entry_span_spec [OF v c new run]
  have fr: "dir_frame view cs s t" using spec by blast
  have t: "vol_ok view t" "chain t c cs"
    using fr c dir_frame_chain [OF fr, of c cs] by (simp_all add: dir_frame_def)
  have "eo = Some (dir_entries view t cs ! unat k) \<or> eo = None \<and> \<not> reliable t"
    if "unat k < length cs * epc t" "read_directory_entry c k t = (q, eo, u)" for k q eo u
    using read_directory_entry_spec [OF t that(2)] that(1) read_directory_entry_succeeds [OF t that]
    by (auto simp: reliable_def)
  then have reread: "\<forall>k q eo u. unat k < length cs * epc t \<longrightarrow> read_directory_entry c k t = (q, eo, u) \<longrightarrow>
      eo = Some (dir_entries view t cs ! unat k) \<or> eo = None \<and> \<not> reliable t"
    by blast
  have succ: "reliable s \<and> unat i + length new \<le> length cs * epc s \<longrightarrow> r = FAT32_OK"
    using write_entry_span_succeeds [OF v c _ new _ run] by blast
  show ?thesis
  proof (cases "r = FAT32_OK")
    case True
    then have es: "dir_entries view t cs = blit (dir_entries view s cs) (unat i) new" using spec by blast
    show ?thesis using spec succ reread unfolding es by blast
  qed (use spec succ in blast)
qed


text \<open>C14: a name is found after its entries have been written. The slot must come after a prefix of
  the directory in which the name does not occur and that has no end mark; a name kept only in its
  8.3 form must not follow a live LFN entry.\<close>

theorem written_name_is_found:
  assumes v: "vol_ok view s" and c: "chain s c cs" and name: "validate_long_name name \<noteq> None"
    and ok: "name_entry_ok short attrs"
    and pre: "find_in_entries (take (unat i) (dir_entries view s cs)) 0 name lfn_initial = Find_more lfn"
    and count: "count = lfn_entry_count_for_name name \<or>
      count = 0 \<and> make_short_name_if_possible name = Some short \<and> ends_idle (take (unat i) (dir_entries view s cs))"
    and run: "write_entry_span_at c i (name_entries name short count attrs first sz) s = (FAT32_OK, t)"
  shows "\<exists>r ref u. find_entry_in_cluster_dir c name t = Some (r, ref, u) \<and>
    (r = FAT32_IO_ERROR \<and> ref = None \<and> \<not> reliable t \<or>
     r = FAT32_OK \<and> (\<exists>n. ref = Some \<lparr>directory_first_cluster = c, entry_index = i + of_nat count,
       lfn_entry_count = n, er_entry = short_entry short attrs first sz\<rparr>))"
proof -
  let ?new = "name_entries name short count attrs first sz"
  let ?es = "dir_entries view s cs"
  have len: "\<forall>e \<in> set ?new. length (de_name e) = 11"
    using ok lfn_entry_fields(3) by (auto simp: name_entries_def name_entry_ok_def)
  note spec = write_entry_span_spec [OF v c len run]
  have room: "unat i + length ?new \<le> length ?es" and es: "dir_entries view t cs = blit ?es (unat i) ?new"
    using spec by (auto simp: name_entries_def)
  have fr: "dir_frame view cs s t" using spec by blast
  have t: "vol_ok view t" "chain t c cs"
    using fr c dir_frame_chain [OF fr, of c cs] by (simp_all add: dir_frame_def)
  obtain n where n: "validate_long_name name = Some n" using name by blast
  have at: "of_nat (length (take (unat i) ?es)) = i" using room by simp
  have "\<exists>l. find_in_entries (?new @ drop (unat i + length ?new) ?es) i name lfn =
      Find_hit (i + of_nat count) (short_entry short attrs first sz) l"
  proof (cases "count = lfn_entry_count_for_name name")
    case True
    then show ?thesis using find_long_name [OF n ok] by blast
  next
    case False
    then have short: "count = 0" "make_short_name_if_possible name = Some short"
        "ends_idle (take (unat i) ?es)" using count by auto
    then show ?thesis using find_exact_short_name [OF short(2) ok scan_ends_idle [OF pre short(3)]] by simp
  qed
  then obtain l where "find_in_entries (dir_entries view t cs) 0 name lfn_initial =
      Find_hit (i + of_nat count) (short_entry short attrs first sz) l"
    unfolding es blit_def using pre at by (auto simp: find_in_entries_append simp del: find_in_entries.simps length_take)
  then show ?thesis
    using find_entry_loop_spec [OF t(1), of c "[]" cs c 0 name lfn_initial] t(2)
    by (auto simp: find_entry_in_cluster_dir_def found_entry_def reliable_def)
qed

subsection \<open>On a concrete volume\<close>

definition demo_name :: bytes where
  "demo_name = bytes_of ''Release notes.txt''"

definition demo_entries :: "DirectoryEntry list" where
  "demo_entries = name_entries demo_name (bytes_of ''RELEAS~1TXT'') (lfn_entry_count_for_name demo_name) 0x20 5 100"

lemma demo_name_ok: "validate_long_name demo_name \<noteq> None" "lfn_entry_count_for_name demo_name = 2"
    "name_entry_ok (bytes_of ''RELEAS~1TXT'') 0x20"
  by code_simp+

lemma demo_entries_lengths: "length demo_entries = 3" "\<forall>e \<in> set demo_entries. length (de_name e) = 11"
  using demo_name_ok(2,3) lfn_entry_fields(3) by (auto simp: demo_entries_def name_entries_def name_entry_ok_def)

lemma demo_epc: "epc demo_vol = 16"
  using epc_size(1) [OF demo_vol_ok] by (simp add: demo_csize)

lemma demo_reliable: "reliable demo_vol"
  by (rule ram_reliable) (simp add: demo_vol_def)

lemma demo_span: "unat i \<le> 29 \<Longrightarrow> \<exists>t. write_entry_span_at 3 i demo_entries demo_vol = (FAT32_OK, t)"
  using write_entry_span_succeeds [OF demo_vol_ok demo_chain _ demo_entries_lengths(2), of i]
    demo_entries_lengths(1) demo_reliable
  by (cases "write_entry_span_at 3 i demo_entries demo_vol") (simp add: demo_epc)

theorem directory_write_updates_list_witness:
  "\<exists>t. write_entry_span_at 3 15 demo_entries demo_vol = (FAT32_OK, t) \<and>
     dir_entries ram_view t [3, 4] = blit (dir_entries ram_view demo_vol [3, 4]) 15 demo_entries"
proof -
  obtain t where t: "write_entry_span_at 3 15 demo_entries demo_vol = (FAT32_OK, t)"
    using demo_span [of 15] by auto
  show ?thesis
    using directory_write_updates_list [OF demo_vol_ok demo_chain demo_entries_lengths(2) t] t by auto
qed


theorem written_name_is_found_witness:
  "\<exists>t u n. write_entry_span_at 3 0 demo_entries demo_vol = (FAT32_OK, t) \<and>
     find_entry_in_cluster_dir 3 demo_name t = Some (FAT32_OK, Some \<lparr>directory_first_cluster = 3, entry_index = 2,
       lfn_entry_count = n, er_entry = short_entry (bytes_of ''RELEAS~1TXT'') 0x20 5 100\<rparr>, u)"
proof -
  obtain t where t: "write_entry_span_at 3 0 demo_entries demo_vol = (FAT32_OK, t)"
    using demo_span [of 0] by auto
  have "dir_frame ram_view [3, 4] demo_vol t"
    using write_entry_span_spec [OF demo_vol_ok demo_chain demo_entries_lengths(2) t] by blast
  then have rel: "reliable t"
    using io_frame_reliable [of demo_vol t] demo_reliable by (simp add: dir_frame_def)
  have pre: "find_in_entries (take (unat (0 :: u32)) (dir_entries ram_view demo_vol [3, 4])) 0 demo_name lfn_initial
      = Find_more lfn_initial" by simp
  show ?thesis
    using written_name_is_found [OF demo_vol_ok demo_chain demo_name_ok(1,3) pre _ t [unfolded demo_entries_def]]
      t rel demo_name_ok(2) by auto
qed

end
