(* ===== verification/KHeap.thy ===== *)
theory KHeap
  imports MemInit
begin

text \<open>
  The kernel heap of \<open>src/kernel/memory.c\<close>: first-fit allocation from a linked list of blocks that
  is kept in address order and grows by whole pages.

  The block headers are an explicit store, \<open>h_blocks\<close>, from addresses to headers; the address 0 is
  \<open>NULL\<close>. A loop along \<open>next\<close> pointers is a partial function: on a cyclic list it runs forever and
  its value is \<open>None\<close>. The abstraction is the list of block addresses, \<open>heap_list\<close>, as in the
  classical treatment of linked lists, with the set \<open>live\<close> of allocated payloads and the set \<open>span\<close>
  of bytes the heap owns.
\<close>

definition MEMORY_HEAP_ALIGNMENT :: u64 where "MEMORY_HEAP_ALIGNMENT = 16"

text \<open>\<open>sizeof(HeapBlock)\<close>: two 8-byte words and a padded flag.\<close>

definition HEAP_BLOCK_SIZE :: u64 where "HEAP_BLOCK_SIZE = 24"

record HeapBlock =
  hb_size :: u64
  hb_free :: bool
  hb_next :: u64

type_synonym blocks = "u64 \<Rightarrow> HeapBlock"

record heap_state =
  h_mem :: memory_state
  h_blocks :: blocks

subsection \<open>The code\<close>

definition align_up_size :: "u64 \<Rightarrow> u64 \<Rightarrow> u64" where
  "align_up_size v alignment = (v + alignment - 1) AND NOT (alignment - 1)"

text \<open>The loop of \<open>heap_insert_block\<close>: the previous block and the cursor where it stops.\<close>

partial_function (option) insert_walk :: "u64 \<Rightarrow> u64 \<Rightarrow> u64 \<Rightarrow> blocks \<Rightarrow> (u64 \<times> u64) option" where
  "insert_walk block prev cursor H =
     (if cursor \<noteq> 0 \<and> cursor < block then insert_walk block cursor (hb_next (H cursor)) H
      else Some (prev, cursor))"

definition heap_insert_block :: "u64 \<Rightarrow> u64 \<Rightarrow> blocks \<Rightarrow> (u64 \<times> blocks) option" where
  "heap_insert_block head block H = do {
     (prev, cursor) \<leftarrow> insert_walk block 0 head H;
     let H1 = H(block := (H block)\<lparr>hb_next := cursor\<rparr>);
     Some (if prev = 0 then (block, H1)
           else (head, H1(prev := (H1 prev)\<lparr>hb_next := block\<rparr>))) }"

partial_function (option) heap_merge_adjacent :: "u64 \<Rightarrow> blocks \<Rightarrow> blocks option" where
  "heap_merge_adjacent block H =
     (if block \<noteq> 0 \<and> hb_next (H block) \<noteq> 0 then
        let nxt = hb_next (H block); block_end = block + HEAP_BLOCK_SIZE + hb_size (H block) in
        if hb_free (H block) \<and> hb_free (H nxt) \<and> block_end = nxt
        then heap_merge_adjacent block (H(block :=
               (H block)\<lparr>hb_size := hb_size (H block) + (HEAP_BLOCK_SIZE + hb_size (H nxt)),
                         hb_next := hb_next (H nxt)\<rparr>))
        else heap_merge_adjacent nxt H
      else Some H)"

definition heap_init_region :: "u64 \<Rightarrow> u64 \<Rightarrow> blocks \<Rightarrow> u64 \<times> blocks" where
  "heap_init_region base bytes H =
     (base, H(base := \<lparr>hb_size = bytes - HEAP_BLOCK_SIZE, hb_free = True, hb_next = 0\<rparr>))"

text \<open>A fitting block is split when the rest can hold a header and 16 bytes.\<close>

definition take_block :: "u64 \<Rightarrow> u64 \<Rightarrow> blocks \<Rightarrow> blocks" where
  "take_block block aligned_size H =
     (let b = H block in
      if hb_size b \<ge> aligned_size + HEAP_BLOCK_SIZE + MEMORY_HEAP_ALIGNMENT then
        let split = block + HEAP_BLOCK_SIZE + aligned_size;
            H1 = H(split := \<lparr>hb_size = hb_size b - aligned_size - HEAP_BLOCK_SIZE, hb_free = True,
                             hb_next = hb_next b\<rparr>)
        in H1(block := \<lparr>hb_size = aligned_size, hb_free = False, hb_next = split\<rparr>)
      else H(block := b\<lparr>hb_free := False\<rparr>))"

partial_function (option) heap_alloc_loop :: "u64 \<Rightarrow> u64 \<Rightarrow> blocks \<Rightarrow> (u64 \<times> blocks) option" where
  "heap_alloc_loop block aligned_size H =
     (if block \<noteq> 0 then
        if hb_free (H block) \<and> hb_size (H block) \<ge> aligned_size
        then Some (block + HEAP_BLOCK_SIZE, take_block block aligned_size H)
        else heap_alloc_loop (hb_next (H block)) aligned_size H
      else Some (0, H))"

definition heap_alloc_from_list :: "u64 \<Rightarrow> u64 \<Rightarrow> blocks \<Rightarrow> (u64 \<times> blocks) option" where
  "heap_alloc_from_list head aligned_size H = heap_alloc_loop head aligned_size H"

definition heap_free_to_list :: "u64 \<Rightarrow> u64 \<Rightarrow> blocks \<Rightarrow> blocks option" where
  "heap_free_to_list head ptr H =
     (if ptr = 0 then Some H
      else let block = ptr - HEAP_BLOCK_SIZE
           in heap_merge_adjacent head (H(block := (H block)\<lparr>hb_free := True\<rparr>)))"

text \<open>\<open>heap_grow\<close> returns 0 for \<open>NULL\<close>.\<close>

definition heap_grow :: "u64 \<Rightarrow> heap_state \<Rightarrow> (u64 \<times> heap_state) option" where
  "heap_grow minimum_size s =
     (let required = align_up_size (HEAP_BLOCK_SIZE + minimum_size) PAGE_SIZE;
          pages = required div PAGE_SIZE;
          (block, m) = alloc_pages pages (h_mem s)
      in if block = 0 then Some (0, s\<lparr>h_mem := m\<rparr>)
         else do {
           let H = (h_blocks s)(block := \<lparr>hb_size = pages * PAGE_SIZE - HEAP_BLOCK_SIZE,
                                          hb_free = True, hb_next = 0\<rparr>);
           (head, H1) \<leftarrow> heap_insert_block (g_heap_head m) block H;
           H2 \<leftarrow> heap_merge_adjacent head H1;
           Some (block, s\<lparr>h_mem := m\<lparr>g_heap_head := head\<rparr>, h_blocks := H2\<rparr>) })"

partial_function (option) kmalloc :: "u64 \<Rightarrow> heap_state \<Rightarrow> (u64 \<times> heap_state) option" where
  "kmalloc bytes s =
     (if \<not> g_memory_ready (h_mem s) \<or> bytes = 0 then Some (0, s)
      else let aligned_size = align_up_size bytes MEMORY_HEAP_ALIGNMENT in
        case heap_alloc_from_list (g_heap_head (h_mem s)) aligned_size (h_blocks s) of
          None \<Rightarrow> None
        | Some (allocation, H) \<Rightarrow>
            if allocation \<noteq> 0 then Some (allocation, s\<lparr>h_blocks := H\<rparr>)
            else case heap_grow aligned_size (s\<lparr>h_blocks := H\<rparr>) of
              None \<Rightarrow> None
            | Some (grown, s1) \<Rightarrow> if grown = 0 then Some (0, s1) else kmalloc bytes s1)"

definition kfree :: "u64 \<Rightarrow> heap_state \<Rightarrow> heap_state option" where
  "kfree ptr s = do {
     H \<leftarrow> heap_free_to_list (g_heap_head (h_mem s)) ptr (h_blocks s);
     Some (s\<lparr>h_blocks := H\<rparr>) }"

subsection \<open>Lists of blocks\<close>

primrec heap_list :: "blocks \<Rightarrow> u64 \<Rightarrow> u64 list \<Rightarrow> bool" where
  "heap_list H p [] \<longleftrightarrow> p = 0"
| "heap_list H p (a # as) \<longleftrightarrow> p = a \<and> a \<noteq> 0 \<and> heap_list H (hb_next (H a)) as"

definition blk_end :: "blocks \<Rightarrow> u64 \<Rightarrow> nat" where
  "blk_end H a = unat a + 24 + unat (hb_size (H a))"

definition laid_out :: "blocks \<Rightarrow> u64 list \<Rightarrow> bool" where
  "laid_out H as \<longleftrightarrow> sorted_wrt (\<lambda>a b. blk_end H a \<le> unat b) as \<and>
     (\<forall>a \<in> set as. 16 \<le> unat a \<and> blk_end H a < 2 ^ 64)"

definition live :: "blocks \<Rightarrow> u64 list \<Rightarrow> (nat \<times> nat) set" where
  "live H as = (\<lambda>a. (unat a + 24, unat (hb_size (H a)))) ` {a \<in> set as. \<not> hb_free (H a)}"

definition span :: "blocks \<Rightarrow> u64 list \<Rightarrow> nat set" where
  "span H as = (\<Union>a \<in> set as. {unat a..<blk_end H a})"

fun coalesced :: "blocks \<Rightarrow> u64 list \<Rightarrow> bool" where
  "coalesced H (a # b # as) \<longleftrightarrow>
     \<not> (hb_free (H a) \<and> hb_free (H b) \<and> blk_end H a = unat b) \<and> coalesced H (b # as)"
| "coalesced H as = True"

lemma laid_out_simps:
  "laid_out H [] = True"
  "laid_out H (a # as) \<longleftrightarrow> 16 \<le> unat a \<and> blk_end H a < 2 ^ 64 \<and> (\<forall>b \<in> set as. blk_end H a \<le> unat b) \<and> laid_out H as"
  "laid_out H (as @ bs) \<longleftrightarrow> laid_out H as \<and> laid_out H bs \<and> (\<forall>a \<in> set as. \<forall>b \<in> set bs. blk_end H a \<le> unat b)"
  by (auto simp: laid_out_def sorted_wrt_append)

lemma blk_end_gt: "unat a < blk_end H a"
  by (simp add: blk_end_def)

lemma laid_out_distinct: "laid_out H as \<Longrightarrow> distinct as"
proof (induction as)
  case (Cons a as)
  then show ?case using blk_end_gt [of a H] by (auto simp: laid_out_simps)
qed simp

lemma blocks_cong:
  assumes "\<forall>a \<in> set as. H' a = H a"
  shows "heap_list H' p as = heap_list H p as" "laid_out H' as = laid_out H as"
    "live H' as = live H as" "span H' as = span H as"
proof -
  have e: "\<forall>a \<in> set as. blk_end H' a = blk_end H a" using assms by (simp add: blk_end_def)
  show "heap_list H' p as = heap_list H p as" using assms by (induction as arbitrary: p) auto
  show "laid_out H' as = laid_out H as" using assms e by (induction as) (auto simp: laid_out_simps)
  show "live H' as = live H as" using assms unfolding live_def by (intro image_cong) auto
  show "span H' as = span H as" using e by (simp add: span_def)
qed

lemma live_simps:
  "live H [] = {}" "live H (a # as) = (if hb_free (H a) then {} else {(unat a + 24, unat (hb_size (H a)))}) \<union> live H as"
  "live H (as @ bs) = live H as \<union> live H bs"
  by (auto simp: live_def)

lemma span_simps:
  "span H [] = {}" "span H (a # as) = {unat a..<blk_end H a} \<union> span H as" "span H (as @ bs) = span H as \<union> span H bs"
  by (auto simp: span_def)

lemma heap_list_suffix: "heap_list H p (as @ a # bs) \<Longrightarrow> heap_list H a (a # bs)"
  by (induction as arbitrary: p) auto

lemma heap_list_replace:
  "heap_list H p (as @ a # bs) \<Longrightarrow> \<forall>x \<in> set as. H' x = H x \<Longrightarrow> heap_list H' a (a # cs) \<Longrightarrow>
     heap_list H' p (as @ a # cs)"
  by (induction as arbitrary: p) auto

lemma heap_list_not_null: "heap_list H p as \<Longrightarrow> 0 \<notin> set as"
  by (induction as arbitrary: p) auto

lemma unat_block_arith:
  assumes "blk_end H a < 2 ^ 64"
  shows "unat (a + HEAP_BLOCK_SIZE) = unat a + 24" "unat (a + HEAP_BLOCK_SIZE + hb_size (H a)) = blk_end H a"
proof -
  show one: "unat (a + HEAP_BLOCK_SIZE) = unat a + 24"
    using assms by (simp add: HEAP_BLOCK_SIZE_def blk_end_def unat_add_small)
  show "unat (a + HEAP_BLOCK_SIZE + hb_size (H a)) = blk_end H a"
    using assms by (subst unat_add_small) (simp_all add: one blk_end_def)
qed

subsection \<open>Merging\<close>

lemma heap_merge_adjacent_spec:
  assumes "heap_list H a (a # rest)" and "laid_out H (a # rest)"
  shows "\<exists>H' rest'. heap_merge_adjacent a H = Some H' \<and> heap_list H' a (a # rest') \<and> laid_out H' (a # rest') \<and>
    set rest' \<subseteq> set rest \<and> (\<forall>x. x \<notin> set (a # rest) \<longrightarrow> H' x = H x) \<and>
    live H' (a # rest') = live H (a # rest) \<and> span H' (a # rest') = span H (a # rest) \<and>
    coalesced H' (a # rest') \<and> hb_free (H' a) = hb_free (H a) \<and>
    (\<forall>x \<in> set (a # rest). hb_free (H x) \<longrightarrow>
       (\<exists>y \<in> set (a # rest'). hb_free (H' y) \<and> hb_size (H x) \<le> hb_size (H' y)))"
  using assms
proof (induction rest arbitrary: a H)
  case Nil
  then show ?case by (simp add: heap_merge_adjacent.simps [of a])
next
  case (Cons b rest)
  have b: "hb_next (H a) = b" "b \<noteq> 0" "a \<noteq> 0" "heap_list H b (b # rest)" using Cons.prems(1) by auto
  have ends: "blk_end H a < 2 ^ 64" "blk_end H b < 2 ^ 64" "blk_end H a \<le> unat b" "16 \<le> unat a"
    and tail: "laid_out H (b # rest)" and below: "\<forall>x \<in> set (b # rest). blk_end H a \<le> unat x"
    using Cons.prems(2) by (auto simp: laid_out_simps)
  have a_notin: "a \<notin> set (b # rest)" using laid_out_distinct [OF Cons.prems(2)] by simp
  have touch: "a + HEAP_BLOCK_SIZE + hb_size (H a) = b \<longleftrightarrow> blk_end H a = unat b"
    using unat_block_arith(2) [OF ends(1)] by (auto simp: word_unat_eq_iff)
  let ?merge = "hb_free (H a) \<and> hb_free (H b) \<and> blk_end H a = unat b"
  show ?case
  proof (cases ?merge)
    case False
    obtain H' rest' where IH: "heap_merge_adjacent b H = Some H'" "heap_list H' b (b # rest')"
        "laid_out H' (b # rest')" "set rest' \<subseteq> set rest" "\<forall>x. x \<notin> set (b # rest) \<longrightarrow> H' x = H x"
        "live H' (b # rest') = live H (b # rest)" "span H' (b # rest') = span H (b # rest)"
        "coalesced H' (b # rest')" "hb_free (H' b) = hb_free (H b)"
        "\<forall>x \<in> set (b # rest). hb_free (H x) \<longrightarrow>
          (\<exists>y \<in> set (b # rest'). hb_free (H' y) \<and> hb_size (H x) \<le> hb_size (H' y))"
      using Cons.IH [OF b(4) tail] by blast
    have Ha: "H' a = H a" and Ea: "blk_end H' a = blk_end H a"
      using IH(5) a_notin by (simp_all add: blk_end_def)
    have run: "heap_merge_adjacent a H = Some H'"
      using b False touch IH(1) by (subst heap_merge_adjacent.simps) (auto simp: Let_def)
    have "laid_out H' (a # b # rest')"
      using IH(3,4) below ends(1,4) by (auto simp: laid_out_simps Ea)
    moreover have "live H' (a # b # rest') = live H (a # b # rest)" "span H' (a # b # rest') = span H (a # b # rest)"
      using IH(6,7) Ha Ea by (simp_all add: live_simps(2) [of _ a] span_simps(2) [of _ a])
    ultimately show ?thesis
      using run IH b Ha Ea False by (intro exI [of _ H'] exI [of _ "b # rest'"]) auto
  next
    case True
    let ?h = "(H a)\<lparr>hb_size := hb_size (H a) + (HEAP_BLOCK_SIZE + hb_size (H b)), hb_next := hb_next (H b)\<rparr>"
    let ?H = "H(a := ?h)"
    have size: "unat (hb_size ?h) = unat (hb_size (H a)) + (24 + unat (hb_size (H b)))"
      using ends True by (simp add: HEAP_BLOCK_SIZE_def blk_end_def unat_add_small)
    have Ea: "blk_end ?H a = blk_end H b" using size True by (simp add: blk_end_def)
    have Ex: "x \<noteq> a \<Longrightarrow> blk_end ?H x = blk_end H x" for x by (simp add: blk_end_def)
    have "heap_list ?H a (a # rest)"
      using b(3,4) a_notin blocks_cong(1) [of rest ?H H] by simp
    moreover have "laid_out ?H (a # rest)"
      using tail a_notin Ea ends(4) blocks_cong(2) [of rest ?H H] by (auto simp: laid_out_simps)
    ultimately obtain H' rest' where IH: "heap_merge_adjacent a ?H = Some H'" "heap_list H' a (a # rest')"
        "laid_out H' (a # rest')" "set rest' \<subseteq> set rest" "\<forall>x. x \<notin> set (a # rest) \<longrightarrow> H' x = ?H x"
        "live H' (a # rest') = live ?H (a # rest)" "span H' (a # rest') = span ?H (a # rest)"
        "coalesced H' (a # rest')" "hb_free (H' a) = hb_free (?H a)"
        "\<forall>x \<in> set (a # rest). hb_free (?H x) \<longrightarrow>
          (\<exists>y \<in> set (a # rest'). hb_free (H' y) \<and> hb_size (?H x) \<le> hb_size (H' y))"
      using Cons.IH [of ?H a] by blast
    have run: "heap_merge_adjacent a H = Some H'"
      using b True touch IH(1) by (subst heap_merge_adjacent.simps) (simp add: Let_def)
    have lv: "live ?H (a # rest) = live H (a # b # rest)"
      using True blocks_cong(3) [of rest ?H H] a_notin by (simp add: live_simps)
    have sp: "span ?H (a # rest) = span H (a # b # rest)"
      using True Ea blocks_cong(4) [of rest ?H H] a_notin blk_end_gt [of a H] blk_end_gt [of b H]
      by (auto simp: span_simps)
    have grew: "hb_size (H a) \<le> hb_size ?h" "hb_size (H b) \<le> hb_size ?h"
      using size by (simp_all add: word_le_nat_alt)
    have "\<exists>y \<in> set (a # rest'). hb_free (H' y) \<and> hb_size (H x) \<le> hb_size (H' y)"
      if x: "x \<in> set (a # b # rest)" "hb_free (H x)" for x
    proof (cases "x = a \<or> x = b")
      case True
      then obtain y where "y \<in> set (a # rest')" "hb_free (H' y)" "hb_size ?h \<le> hb_size (H' y)"
        using IH(10) \<open>?merge\<close> by auto
      then show ?thesis using True grew order_trans by blast
    next
      case False
      then show ?thesis using x IH(10) by auto
    qed
    then show ?thesis
      using run IH lv sp a_notin by (intro exI [of _ H'] exI [of _ rest']) auto
  qed
qed

subsection \<open>Taking a block\<close>

lemma heap_alloc_loop_cases:
  assumes "heap_list H p as" and "laid_out H as"
  obtains (none) "heap_alloc_loop p n H = Some (0, H)" "\<forall>a \<in> set as. hb_free (H a) \<longrightarrow> hb_size (H a) < n"
  | (some) ls a us where "as = ls @ a # us" "hb_free (H a)" "n \<le> hb_size (H a)"
      "heap_alloc_loop p n H = Some (a + HEAP_BLOCK_SIZE, take_block a n H)"
proof -
  have "heap_alloc_loop p n H = Some (0, H) \<and> (\<forall>a \<in> set as. hb_free (H a) \<longrightarrow> hb_size (H a) < n) \<or>
      (\<exists>ls a us. as = ls @ a # us \<and> hb_free (H a) \<and> n \<le> hb_size (H a) \<and>
        heap_alloc_loop p n H = Some (a + HEAP_BLOCK_SIZE, take_block a n H))"
    using assms
  proof (induction as arbitrary: p)
    case Nil
    then show ?case by (simp add: heap_alloc_loop.simps [of 0])
  next
    case (Cons a as)
    note unf = heap_alloc_loop.simps [of a n H]
    show ?case
    proof (cases "hb_free (H a) \<and> n \<le> hb_size (H a)")
      case True
      then show ?thesis using Cons.prems by (intro disjI2 exI [of _ "[]"]) (auto simp: unf)
    next
      case False
      have eq: "heap_alloc_loop p n H = heap_alloc_loop (hb_next (H a)) n H"
        using Cons.prems False by (auto simp: unf)
      have "heap_list H (hb_next (H a)) as" "laid_out H as" using Cons.prems by (auto simp: laid_out_simps)
      from Cons.IH [OF this] show ?thesis
      proof (elim disjE exE conjE)
        assume "heap_alloc_loop (hb_next (H a)) n H = Some (0, H)"
          "\<forall>a \<in> set as. hb_free (H a) \<longrightarrow> hb_size (H a) < n"
        then show ?thesis using eq False by auto
      next
        fix ls b us
        assume "as = ls @ b # us" "hb_free (H b)" "n \<le> hb_size (H b)"
          "heap_alloc_loop (hb_next (H a)) n H = Some (b + HEAP_BLOCK_SIZE, take_block b n H)"
        then show ?thesis using eq by (intro disjI2 exI [of _ "a # ls"]) auto
      qed
    qed
  qed
  then show thesis using none some by blast
qed

text \<open>The block that is taken, alone: it keeps its place and the rest of it becomes a free block.\<close>

lemma take_block_one:
  assumes end_: "blk_end H a < 2 ^ 64" and low: "16 \<le> unat a" and n: "n \<le> hb_size (H a)"
  defines "H' \<equiv> take_block a n H"
  obtains (whole) "H' = H(a := (H a)\<lparr>hb_free := False\<rparr>)" "unat (hb_size (H a)) < unat n + 40"
  | (split) b where "unat b = unat a + 24 + unat n" "b \<noteq> a" "b \<noteq> 0"
      "H' = H(b := \<lparr>hb_size = hb_size (H a) - n - HEAP_BLOCK_SIZE, hb_free = True, hb_next = hb_next (H a)\<rparr>,
              a := \<lparr>hb_size = n, hb_free = False, hb_next = b\<rparr>)"
      "unat (hb_size (H a) - n - HEAP_BLOCK_SIZE) = unat (hb_size (H a)) - unat n - 24"
      "unat n + 40 \<le> unat (hb_size (H a))"
proof (cases "hb_size (H a) \<ge> n + HEAP_BLOCK_SIZE + MEMORY_HEAP_ALIGNMENT")
  case False
  have le: "unat n \<le> unat (hb_size (H a))" using n by (simp add: word_le_nat_alt)
  have "unat (hb_size (H a)) < unat n + 40"
  proof (rule ccontr)
    assume "\<not> unat (hb_size (H a)) < unat n + 40"
    then have big: "unat n + 40 \<le> unat (hb_size (H a))" by simp
    then have "unat (n + HEAP_BLOCK_SIZE + MEMORY_HEAP_ALIGNMENT) = unat n + 40"
      using unat_u64_bound [of "hb_size (H a)"]
      by (simp add: HEAP_BLOCK_SIZE_def MEMORY_HEAP_ALIGNMENT_def unat_add_small)
    then show False using False big by (simp add: word_le_nat_alt)
  qed
  then show thesis using whole False by (simp add: H'_def take_block_def Let_def)
next
  case True
  have sz: "unat (hb_size (H a)) < 2 ^ 64 - 24"
    using end_ by (simp add: blk_end_def)
  have le: "unat n \<le> unat (hb_size (H a))" using n by (simp add: word_le_nat_alt)
  have n24: "unat (n + HEAP_BLOCK_SIZE) = unat n + 24"
    using le sz by (simp add: HEAP_BLOCK_SIZE_def unat_add_small)
  have big: "unat n + 40 \<le> unat (hb_size (H a))"
  proof (rule ccontr)
    assume "\<not> unat n + 40 \<le> unat (hb_size (H a))"
    show False
    proof (cases "unat n + 40 < 2 ^ 64")
      case True
      then have "unat (n + HEAP_BLOCK_SIZE + MEMORY_HEAP_ALIGNMENT) = unat n + 40"
        by (simp add: MEMORY_HEAP_ALIGNMENT_def n24 unat_add_small)
      then show False
        using \<open>n + HEAP_BLOCK_SIZE + MEMORY_HEAP_ALIGNMENT \<le> hb_size (H a)\<close> \<open>\<not> unat n + 40 \<le> _\<close>
        by (simp add: word_le_nat_alt)
    next
      case False
      then show False using le end_ low by (simp add: blk_end_def)
    qed
  qed
  let ?b = "a + HEAP_BLOCK_SIZE + n"
  have b: "unat ?b = unat a + 24 + unat n"
    using end_ big unat_block_arith(1) [OF end_] by (subst unat_add_small) (simp_all add: blk_end_def)
  have "unat (hb_size (H a) - n - HEAP_BLOCK_SIZE) = unat (hb_size (H a)) - unat n - 24"
    using big by (subst unat_diff_small) (simp_all add: HEAP_BLOCK_SIZE_def unat_diff_small word_le_nat_alt le)
  moreover have "?b \<noteq> a" "?b \<noteq> 0" using b by (auto simp: word_unat_eq_iff)
  ultimately show thesis using split [OF b] big True by (simp add: H'_def take_block_def Let_def)
qed

lemma take_block_spec:
  assumes list: "heap_list H p (ls @ a # us)" and out: "laid_out H (ls @ a # us)"
    and free: "hb_free (H a)" and n: "n \<le> hb_size (H a)"
  shows "\<exists>new. heap_list (take_block a n H) p (ls @ a # new @ us) \<and>
    laid_out (take_block a n H) (ls @ a # new @ us) \<and>
    span (take_block a n H) (ls @ a # new @ us) = span H (ls @ a # us) \<and>
    live (take_block a n H) (ls @ a # new @ us) =
      insert (unat a + 24, unat (hb_size (take_block a n H a))) (live H (ls @ a # us)) \<and>
    n \<le> hb_size (take_block a n H a) \<and> unat (hb_size (take_block a n H a)) < unat n + 40"
proof -
  let ?H = "take_block a n H"
  have end_: "blk_end H a < 2 ^ 64" and low: "16 \<le> unat a" and us: "\<forall>x \<in> set us. blk_end H a \<le> unat x" "laid_out H us"
    and lsa: "\<forall>x \<in> set ls. blk_end H x \<le> unat a" "\<forall>x \<in> set ls. \<forall>y \<in> set us. blk_end H x \<le> unat y" "laid_out H ls"
    using out by (auto simp: laid_out_simps)
  have la: "heap_list H a (a # us)" using heap_list_suffix [OF list] .
  have nin: "a \<notin> set ls" "a \<notin> set us" using laid_out_distinct [OF out] by auto
  show ?thesis
  proof (cases rule: take_block_one [OF end_ low n, case_names whole split])
    case whole
    have same: "\<forall>x \<in> set ls. ?H x = H x" "\<forall>x \<in> set us. ?H x = H x" using whole nin by auto
    have Ha: "?H a = (H a)\<lparr>hb_free := False\<rparr>" using whole by simp
    have "heap_list ?H a (a # us)" using la Ha blocks_cong(1) [OF same(2)] by simp
    then have "heap_list ?H p (ls @ a # us)" using heap_list_replace [OF list same(1)] by simp
    moreover have e: "blk_end ?H x = blk_end H x" for x using whole by (simp add: blk_end_def)
    then have "laid_out ?H (ls @ a # us)" "span ?H (ls @ a # us) = span H (ls @ a # us)"
      using out by (auto simp: laid_out_def span_def)
    moreover have "live ?H (ls @ a # us) = insert (unat a + 24, unat (hb_size (?H a))) (live H (ls @ a # us))"
      using Ha free blocks_cong(3) [OF same(1)] blocks_cong(3) [OF same(2)] by (simp add: live_simps)
    ultimately show ?thesis using Ha n whole(2) by (intro exI [of _ "[]"]) simp
  next
    case (split b)
    have bu: "unat b < blk_end H a" "unat a < unat b" using split(1,6) by (simp_all add: blk_end_def)
    have bn: "b \<notin> set ls" "b \<notin> set us"
      using us(1) lsa(1) bu blk_end_gt [of b H] by (auto simp: not_le [symmetric])
    have same: "\<forall>x \<in> set ls. ?H x = H x" "\<forall>x \<in> set us. ?H x = H x" using split(4) nin bn by auto
    have Ha: "?H a = \<lparr>hb_size = n, hb_free = False, hb_next = b\<rparr>"
      and Hb: "?H b = \<lparr>hb_size = hb_size (H a) - n - HEAP_BLOCK_SIZE, hb_free = True, hb_next = hb_next (H a)\<rparr>"
      using split(2,4) by simp_all
    have ea: "blk_end ?H a = unat b" "blk_end ?H b = blk_end H a"
      using Ha Hb split(1,5,6) by (simp_all add: blk_end_def)
    have es: "\<forall>x \<in> set ls \<union> set us. blk_end ?H x = blk_end H x" using same by (auto simp: blk_end_def)
    have "heap_list ?H a (a # b # us)" using la Ha Hb split(3) blocks_cong(1) [OF same(2)] by simp
    then have "heap_list ?H p (ls @ a # [b] @ us)" using heap_list_replace [OF list same(1)] by simp
    moreover have lsb: "\<forall>x \<in> set ls. blk_end H x \<le> unat b" using lsa(1) bu(2) by fastforce
    moreover have usb: "\<forall>x \<in> set us. unat b \<le> unat x" using us(1) bu(1) by fastforce
    have "laid_out ?H (ls @ a # [b] @ us)"
      using lsa lsb usb us end_ low bu ea es blocks_cong(2) [OF same(1)] blocks_cong(2) [OF same(2)]
      by (simp add: laid_out_simps)
    moreover have "span ?H (ls @ a # [b] @ us) = span H (ls @ a # us)"
      using ea bu blocks_cong(4) [OF same(1)] blocks_cong(4) [OF same(2)] by (auto simp: span_simps)
    moreover have "live ?H (ls @ a # [b] @ us) = insert (unat a + 24, unat (hb_size (?H a))) (live H (ls @ a # us))"
      using Ha Hb free blocks_cong(3) [OF same(1)] blocks_cong(3) [OF same(2)] by (simp add: live_simps)
    ultimately show ?thesis using Ha by (intro exI [of _ "[b]"]) simp
  qed
qed

subsection \<open>Inserting a block\<close>

lemma span_member: "x \<in> set as \<Longrightarrow> unat x \<le> k \<Longrightarrow> k < blk_end H x \<Longrightarrow> k \<in> span H as"
  by (auto simp: span_def)

lemma outside_span:
  "{unat b..<blk_end H b} \<inter> span H as = {} \<Longrightarrow> x \<in> set as \<Longrightarrow> unat x \<le> k \<Longrightarrow> k < blk_end H x \<Longrightarrow>
     unat b \<le> k \<Longrightarrow> k < blk_end H b \<Longrightarrow> False"
  using span_member [of x as k H] by (simp add: disjoint_iff)

lemma heap_list_rest: "heap_list H p (ls @ us) \<Longrightarrow> heap_list H (if us = [] then 0 else hd us) us"
  by (induction ls arbitrary: p) (auto, cases us, auto)

lemma insert_walk_spec:
  "heap_list H p as \<Longrightarrow> \<exists>ls us. as = ls @ us \<and>
     insert_walk b prev p H = Some (if ls = [] then prev else last ls, if us = [] then 0 else hd us) \<and>
     (\<forall>x \<in> set ls. x < b) \<and> (us \<noteq> [] \<longrightarrow> \<not> hd us < b)"
proof (induction as arbitrary: p prev)
  case Nil
  then show ?case by (simp add: insert_walk.simps [of b prev 0])
next
  case (Cons a as)
  note unf = insert_walk.simps [of b prev a H]
  show ?case
  proof (cases "a < b")
    case False
    then show ?thesis using Cons.prems by (intro exI [of _ "[]"] exI [of _ "a # as"]) (auto simp: unf)
  next
    case True
    obtain ls us where IH: "as = ls @ us" "\<forall>x \<in> set ls. x < b" "us \<noteq> [] \<longrightarrow> \<not> hd us < b"
        "insert_walk b a (hb_next (H a)) H = Some (if ls = [] then a else last ls, if us = [] then 0 else hd us)"
      using Cons.IH [of "hb_next (H a)" a] Cons.prems by auto
    have "insert_walk b prev a H = Some (last (a # ls), if us = [] then 0 else hd us)"
      using True IH(4) Cons.prems by (simp add: unf)
    then show ?thesis using IH True Cons.prems by (intro exI [of _ "a # ls"] exI [of _ us]) simp
  qed
qed

lemma heap_insert_block_spec:
  assumes list: "heap_list H p as" and out: "laid_out H as"
    and b: "16 \<le> unat b" "blk_end H b < 2 ^ 64" and disj: "{unat b..<blk_end H b} \<inter> span H as = {}"
  shows "\<exists>h H' ls us. heap_insert_block p b H = Some (h, H') \<and> as = ls @ us \<and> heap_list H' h (ls @ b # us) \<and>
    laid_out H (ls @ b # us) \<and> (\<forall>x. hb_size (H' x) = hb_size (H x) \<and> hb_free (H' x) = hb_free (H x))"
proof -
  obtain ls us where as: "as = ls @ us"
    and walk: "insert_walk b 0 p H = Some (if ls = [] then 0 else last ls, if us = [] then 0 else hd us)"
    and lt: "\<forall>x \<in> set ls. x < b" "us \<noteq> [] \<longrightarrow> \<not> hd us < b"
    using insert_walk_spec [OF list, of b 0] by blast
  have nb: "b \<notin> set as"
  proof
    assume "b \<in> set as"
    then show False using outside_span [OF disj, of b "unat b"] blk_end_gt [of b H] by auto
  qed
  have b0: "b \<noteq> 0" using b(1) by auto
  have rest: "heap_list H (if us = [] then 0 else hd us) us" using heap_list_rest list as by blast
  let ?H1 = "H(b := (H b)\<lparr>hb_next := if us = [] then 0 else hd us\<rparr>)"
  have "heap_list ?H1 b (b # us)"
    using rest b0 nb as blocks_cong(1) [of us ?H1 H] by auto
  then have "\<exists>h H'. heap_insert_block p b H = Some (h, H') \<and> heap_list H' h (ls @ b # us) \<and>
      (\<forall>x. hb_size (H' x) = hb_size (H x) \<and> hb_free (H' x) = hb_free (H x))"
  proof (cases ls rule: rev_cases)
    case Nil
    then show ?thesis using walk \<open>heap_list ?H1 b (b # us)\<close> by (simp add: heap_insert_block_def)
  next
    case (snoc xs l)
    have l: "l \<noteq> 0" "l \<noteq> b" "l \<notin> set us" "l \<notin> set xs"
      using heap_list_not_null [OF list] nb as snoc laid_out_distinct [OF out] by auto
    let ?H2 = "?H1(l := (?H1 l)\<lparr>hb_next := b\<rparr>)"
    have "heap_list ?H2 b (b # us)"
      using \<open>heap_list ?H1 b (b # us)\<close> l blocks_cong(1) [of "b # us" ?H2 ?H1 b] by simp
    then have "heap_list ?H2 l (l # b # us)" using l by simp
    moreover have "heap_list H p (xs @ l # us)" using list as snoc by simp
    moreover have "\<forall>x \<in> set xs. ?H2 x = H x" using nb as snoc l by auto
    ultimately have "heap_list ?H2 p (xs @ l # b # us)" using heap_list_replace by blast
    moreover have "heap_insert_block p b H = Some (p, ?H2)"
      using walk snoc l by (simp add: heap_insert_block_def)
    ultimately show ?thesis using snoc by auto
  qed
  moreover have "laid_out H (ls @ b # us)"
  proof -
    have "blk_end H x \<le> unat b" if "x \<in> set ls" for x
    proof (rule ccontr)
      assume "\<not> blk_end H x \<le> unat b"
      then show False
        using outside_span [OF disj, of x "unat b"] lt(1) that as blk_end_gt [of b H]
        by (auto simp: word_less_nat_alt)
    qed
    moreover have "blk_end H b \<le> unat y" if "y \<in> set us" for y
    proof (rule ccontr)
      assume less: "\<not> blk_end H b \<le> unat y"
      obtain u us' where us: "us = u # us'" using \<open>y \<in> set us\<close> by (cases us) auto
      have "unat u \<le> unat y"
        using that out us as blk_end_gt [of u H] by (auto simp: laid_out_simps)
      moreover have "unat b \<le> unat y"
        using lt(2) us \<open>unat u \<le> unat y\<close> by (simp add: word_less_nat_alt)
      ultimately show False
        using outside_span [OF disj, of y "unat y"] that as less blk_end_gt [of y H] by auto
    qed
    ultimately show ?thesis using out b as by (auto simp: laid_out_simps)
  qed
  ultimately show ?thesis using as by blast
qed

lemma fields_cong:
  assumes "\<forall>x. hb_size (H' x) = hb_size (H x) \<and> hb_free (H' x) = hb_free (H x)"
  shows "laid_out H' as = laid_out H as" "live H' as = live H as" "span H' as = span H as"
    "coalesced H' as = coalesced H as"
  using assms by (simp_all add: laid_out_def live_def span_def blk_end_def)
    (induction as rule: coalesced.induct [of _ H], simp_all add: blk_end_def)

subsection \<open>The invariant\<close>

definition heap_inv :: "u64 list \<Rightarrow> heap_state \<Rightarrow> bool" where
  "heap_inv as s \<longleftrightarrow> heap_list (h_blocks s) (g_heap_head (h_mem s)) as \<and> laid_out (h_blocks s) as \<and>
     mem_inv (h_mem s) \<and> span (h_blocks s) as \<inter> free_set (g_free_ranges (h_mem s)) = {}"

lemma mem_inv_head [simp]: "mem_inv (m\<lparr>g_heap_head := h\<rparr>) = mem_inv m"
  by (simp add: mem_inv_def)

lemma alloc_pages_head: "alloc_pages n m = (p, m') \<Longrightarrow> g_heap_head m' = g_heap_head m"
  by (auto simp: alloc_pages_def Let_def split: if_splits)

lemma grow_size:
  assumes "unat n + 4119 < 2 ^ 64"
  shows "n \<le> (align_up_size (HEAP_BLOCK_SIZE + n) PAGE_SIZE div PAGE_SIZE) * PAGE_SIZE - HEAP_BLOCK_SIZE"
proof -
  have r: "align_up_size (HEAP_BLOCK_SIZE + n) PAGE_SIZE = align_up_uintptr (HEAP_BLOCK_SIZE + n) PAGE_SIZE"
    by (simp add: align_up_size_def align_up_uintptr_def)
  have u: "unat (HEAP_BLOCK_SIZE + n) = unat n + 24" using assms by (simp add: HEAP_BLOCK_SIZE_def unat_add_small)
  have ru: "unat (align_up_uintptr (HEAP_BLOCK_SIZE + n) PAGE_SIZE) = (unat n + 24 + 4095) div 4096 * 4096"
    using unat_align_up [of "HEAP_BLOCK_SIZE + n"] assms u by simp
  have page4096: "unat PAGE_SIZE = 4096" by (simp add: PAGE_SIZE_def)
  have pages: "unat (align_up_uintptr (HEAP_BLOCK_SIZE + n) PAGE_SIZE div PAGE_SIZE) = (unat n + 24 + 4095) div 4096"
    by (simp add: unat_div ru page4096)
  have "unat (align_up_uintptr (HEAP_BLOCK_SIZE + n) PAGE_SIZE div PAGE_SIZE * PAGE_SIZE) =
      (unat n + 24 + 4095) div 4096 * 4096"
    using assms pages by (subst unat_mult_small) (simp_all add: page4096)
  moreover have "unat n + 24 \<le> (unat n + 24 + 4095) div 4096 * 4096"
    using div_mult_mod_eq [of "unat n + 24 + 4095" 4096] mod_less_divisor [of 4096 "unat n + 24 + 4095"]
    by linarith
  ultimately show ?thesis
    unfolding r by (simp add: word_le_nat_alt unat_diff_small HEAP_BLOCK_SIZE_def)
qed

subsection \<open>Growing, allocating, freeing\<close>

definition grow_pages :: "u64 \<Rightarrow> u64" where
  "grow_pages n = align_up_size (HEAP_BLOCK_SIZE + n) PAGE_SIZE div PAGE_SIZE"

lemma heap_grow_spec:
  assumes inv: "heap_inv as s"
  shows "\<exists>b s'. heap_grow n s = Some (b, s') \<and>
    (b = 0 \<and> s' = s \<and> alloc_pages (grow_pages n) (h_mem s) = (0, h_mem s) \<or>
     b \<noteq> 0 \<and> g_memory_ready (h_mem s') = g_memory_ready (h_mem s) \<and>
     (\<exists>as'. heap_inv as' s' \<and> live (h_blocks s') as' = live (h_blocks s) as \<and>
       span (h_blocks s) as \<subseteq> span (h_blocks s') as' \<and>
       (unat n + 4119 < 2 ^ 64 \<longrightarrow> (\<exists>x \<in> set as'. hb_free (h_blocks s' x) \<and> n \<le> hb_size (h_blocks s' x)))))"
proof -
  let ?H = "h_blocks s" and ?m = "h_mem s" and ?pages = "grow_pages n"
  obtain b m where alloc: "alloc_pages ?pages ?m = (b, m)" by fastforce
  have mi: "mem_inv ?m" and list: "heap_list ?H (g_heap_head ?m) as" and out: "laid_out ?H as"
    and apart: "span ?H as \<inter> free_set (g_free_ranges ?m) = {}"
    using inv by (auto simp: heap_inv_def)
  show ?thesis
  proof (cases "b = 0")
    case True
    then have "m = ?m" using pages.alloc_fail [OF mi] alloc by blast
    then show ?thesis using alloc True by (simp add: heap_grow_def grow_pages_def Let_def)
  next
    case False
    note law = pages.alloc_inv [OF mi alloc False] pages.alloc_block [OF mi alloc False]
      pages.alloc_avail [OF mi alloc False] pages.alloc_takes [OF mi alloc False]
    have head: "g_heap_head m = g_heap_head ?m" and ready: "g_memory_ready m = g_memory_ready ?m"
      using alloc_pages_head [OF alloc] alloc_pages_some(5) [OF mi alloc False] by auto
    let ?blk = "\<lparr>hb_size = ?pages * PAGE_SIZE - HEAP_BLOCK_SIZE, hb_free = True, hb_next = 0\<rparr>"
    define Hb where "Hb = ?H(b := ?blk)"
    have pg: "0 < unat ?pages" "unat b + unat ?pages * 4096 < 2 ^ 64" "4096 dvd unat b"
      using law(2) by (simp_all add: block_ok_def range_ok_def lo_def hi_def unat_gt_0)
    have low: "4096 \<le> unat b" using pg(3) False by (simp add: dvd_imp_le unat_gt_0)
    have Hb_b: "hb_free (Hb b)" by (simp add: Hb_def)
    have "unat (?pages * PAGE_SIZE) = unat ?pages * 4096" using pg(2) by (intro unat_count_pages) simp
    then have "unat (hb_size ?blk) = unat ?pages * 4096 - 24"
      using pg(1) by (simp add: HEAP_BLOCK_SIZE_def unat_diff_small word_le_nat_alt)
    then have bend: "blk_end Hb b = unat b + unat ?pages * 4096" using pg(1) by (simp add: blk_end_def Hb_def)
    then have bset: "{unat b..<blk_end Hb b} = block_set b ?pages" by (simp add: block_set_def)
    have "b \<notin> set as"
    proof
      assume "b \<in> set as"
      then have in_span: "unat b \<in> span ?H as" using blk_end_gt [of b ?H] by (intro span_member) simp_all
      have "unat b \<in> block_set b ?pages" using pg(1) by (simp add: block_set_def)
      then have "unat b \<in> free_set (g_free_ranges ?m)" by (rule subsetD [OF law(3)])
      then show False using in_span apart by (simp add: disjoint_iff)
    qed
    then have same: "\<forall>x \<in> set as. Hb x = ?H x" by (auto simp: Hb_def)
    note cong = blocks_cong [OF same]
    have list0: "heap_list Hb (g_heap_head m) as" and out0: "laid_out Hb as"
      using list out cong head by auto
    have disj: "{unat b..<blk_end Hb b} \<inter> span Hb as = {}"
      unfolding bset cong(4) using law(3) apart by (meson Int_commute disjoint_iff subsetD)
    have lim: "16 \<le> unat b" "blk_end Hb b < 2 ^ 64" using low pg bend by auto
    obtain h H1 ls us where ins: "heap_insert_block (g_heap_head m) b Hb = Some (h, H1)" "as = ls @ us"
        "heap_list H1 h (ls @ b # us)" "laid_out Hb (ls @ b # us)"
        "\<forall>x. hb_size (H1 x) = hb_size (Hb x) \<and> hb_free (H1 x) = hb_free (Hb x)"
      using heap_insert_block_spec [OF list0 out0 lim disj] by blast
    note f = fields_cong [OF ins(5)]
    obtain a rest where ar: "ls @ b # us = a # rest" by (cases ls) auto
    then have ha: "h = a" "heap_list H1 a (a # rest)" "laid_out H1 (a # rest)"
      using ins(3,4) f(1) by auto
    obtain H2 rest' where mrg: "heap_merge_adjacent a H1 = Some H2" "heap_list H2 a (a # rest')"
        "laid_out H2 (a # rest')" "live H2 (a # rest') = live H1 (a # rest)"
        "span H2 (a # rest') = span H1 (a # rest)"
        "\<forall>x \<in> set (a # rest). hb_free (H1 x) \<longrightarrow>
          (\<exists>y \<in> set (a # rest'). hb_free (H2 y) \<and> hb_size (H1 x) \<le> hb_size (H2 y))"
      using heap_merge_adjacent_spec [OF ha(2,3)] by blast
    let ?s = "s\<lparr>h_mem := m\<lparr>g_heap_head := h\<rparr>, h_blocks := H2\<rparr>"
    have run: "heap_grow n s = Some (b, ?s)"
      using alloc False ins(1) mrg(1) ha(1) by (simp add: heap_grow_def grow_pages_def Let_def Hb_def)
    have lv: "live H2 (a # rest') = live ?H as"
      unfolding mrg(4) f(2) ar [symmetric] using cong(3) ins(2) Hb_b by (simp add: live_simps)
    have sp: "span H2 (a # rest') = span ?H as \<union> block_set b ?pages"
      unfolding mrg(5) f(3) ar [symmetric] using cong(4) ins(2) bset by (auto simp: span_simps)
    have "heap_inv (a # rest') ?s"
      using mrg(2,3) ha(1) law apart sp by (auto simp: heap_inv_def)
    moreover have "\<exists>x \<in> set (a # rest'). hb_free (H2 x) \<and> n \<le> hb_size (H2 x)" if big: "unat n + 4119 < 2 ^ 64"
    proof -
      have "b \<in> set (a # rest)" "hb_free (H1 b)" using ins(5) by (auto simp: Hb_def simp flip: ar)
      then obtain y where y: "y \<in> set (a # rest')" "hb_free (H2 y)" "hb_size (H1 b) \<le> hb_size (H2 y)"
        using mrg(6) by blast
      have "n \<le> hb_size (H1 b)" using grow_size [OF big] ins(5) by (simp add: grow_pages_def Hb_def)
      then show ?thesis using y order_trans by blast
    qed
    ultimately show ?thesis using run False ready lv sp by (intro exI [of _ b] exI [of _ ?s]) auto
  qed
qed

text \<open>The outcome of a successful allocation of \<open>n\<close> bytes.\<close>

definition allocated_block :: "heap_state \<Rightarrow> u64 list \<Rightarrow> u64 \<Rightarrow> u64 \<Rightarrow> heap_state \<Rightarrow> u64 list \<Rightarrow> bool" where
  "allocated_block s as n p s' as' \<longleftrightarrow> heap_inv as' s' \<and> g_memory_ready (h_mem s') = g_memory_ready (h_mem s) \<and>
     span (h_blocks s) as \<subseteq> span (h_blocks s') as' \<and> unat p \<notin> fst ` live (h_blocks s) as \<and>
     (\<exists>m. unat n \<le> m \<and> m < unat n + 40 \<and> live (h_blocks s') as' = insert (unat p, m) (live (h_blocks s) as))"

lemma heap_alloc_spec:
  assumes inv: "heap_inv as s"
  shows "\<exists>p H. heap_alloc_from_list (g_heap_head (h_mem s)) n (h_blocks s) = Some (p, H) \<and>
    (p = 0 \<and> H = h_blocks s \<and> (\<forall>a \<in> set as. hb_free (h_blocks s a) \<longrightarrow> hb_size (h_blocks s a) < n) \<or>
     p \<noteq> 0 \<and> (\<exists>as'. allocated_block s as n p (s\<lparr>h_blocks := H\<rparr>) as'))"
proof -
  let ?H = "h_blocks s"
  have list: "heap_list ?H (g_heap_head (h_mem s)) as" and out: "laid_out ?H as"
    using inv by (auto simp: heap_inv_def)
  show ?thesis
  proof (cases rule: heap_alloc_loop_cases [OF list out, of n, case_names none some])
    case none
    then show ?thesis by (simp add: heap_alloc_from_list_def)
  next
    case (some ls a us)
    let ?H' = "take_block a n ?H"
    obtain new where new: "heap_list ?H' (g_heap_head (h_mem s)) (ls @ a # new @ us)"
        "laid_out ?H' (ls @ a # new @ us)" "span ?H' (ls @ a # new @ us) = span ?H as"
        "live ?H' (ls @ a # new @ us) = insert (unat a + 24, unat (hb_size (?H' a))) (live ?H as)"
        "n \<le> hb_size (?H' a)" "unat (hb_size (?H' a)) < unat n + 40"
      using take_block_spec [OF list [unfolded some(1)] out [unfolded some(1)] some(2,3)] some(1) by auto
    have "blk_end ?H a < 2 ^ 64" using out some(1) by (auto simp: laid_out_simps)
    then have p: "unat (a + HEAP_BLOCK_SIZE) = unat a + 24" by (rule unat_block_arith(1))
    then have "a + HEAP_BLOCK_SIZE \<noteq> 0" by (auto simp: word_unat_eq_iff)
    moreover have "unat a + 24 \<notin> fst ` live ?H as" using some(2) by (auto simp: live_def word_unat_eq_iff [symmetric])
    then have "allocated_block s as n (a + HEAP_BLOCK_SIZE) (s\<lparr>h_blocks := ?H'\<rparr>) (ls @ a # new @ us)"
      using new inv p by (auto simp: allocated_block_def heap_inv_def word_le_nat_alt)
    ultimately show ?thesis using some(4) by (auto simp: heap_alloc_from_list_def)
  qed
qed

lemma heap_align_bound:
  assumes "unat n + 15 < 2 ^ 64"
  shows "unat (align_up_size n MEMORY_HEAP_ALIGNMENT) = (unat n + 15) div 16 * 16"
    and "unat n \<le> unat (align_up_size n MEMORY_HEAP_ALIGNMENT)"
    and "unat (align_up_size n MEMORY_HEAP_ALIGNMENT) \<le> unat n + 15"
proof -
  have "(n + 15) AND NOT (MEMORY_HEAP_ALIGNMENT - 1) = push_bit 4 (drop_bit 4 (n + 15))"
  proof -
    have "MEMORY_HEAP_ALIGNMENT - 1 = mask 4" by (simp add: MEMORY_HEAP_ALIGNMENT_def mask_eq_exp_minus_1)
    then show ?thesis by (auto intro!: bit_word_eqI simp: bit_simps)
  qed
  moreover have "align_up_size n MEMORY_HEAP_ALIGNMENT = (n + 15) AND NOT (MEMORY_HEAP_ALIGNMENT - 1)"
    by (simp add: align_up_size_def MEMORY_HEAP_ALIGNMENT_def algebra_simps)
  moreover have u: "unat (n + 15) = unat n + 15" using assms by (simp add: unat_add_small)
  moreover have "unat (push_bit 4 (drop_bit 4 (n + 15))) = take_bit 64 ((unat n + 15) div 16 * 16)"
    by (simp only: unsigned_push_bit_eq unsigned_drop_bit_eq u)
      (use assms in \<open>simp add: push_bit_eq_mult drop_bit_eq_div take_bit_nat_eq_self\<close>)
  moreover have "(unat n + 15) div 16 * 16 < 2 ^ 64" using assms div_mult_mod_eq [of "unat n + 15" 16] by linarith
  ultimately show e: "unat (align_up_size n MEMORY_HEAP_ALIGNMENT) = (unat n + 15) div 16 * 16"
    by (simp add: take_bit_nat_eq_self)
  show "unat n \<le> unat (align_up_size n MEMORY_HEAP_ALIGNMENT)"
    "unat (align_up_size n MEMORY_HEAP_ALIGNMENT) \<le> unat n + 15"
    unfolding e using div_mult_mod_eq [of "unat n + 15" 16] mod_less_divisor [of 16 "unat n + 15"] by linarith+
qed

lemma kmalloc_cases:
  assumes inv: "heap_inv as s" and small: "unat n + 4134 < 2 ^ 64"
  defines "aligned \<equiv> align_up_size n MEMORY_HEAP_ALIGNMENT"
  shows "\<exists>p s'. kmalloc n s = Some (p, s') \<and>
    (p = 0 \<and> s' = s \<and> (\<not> g_memory_ready (h_mem s) \<or> n = 0 \<or>
        alloc_pages (grow_pages aligned) (h_mem s) = (0, h_mem s)) \<or>
     p \<noteq> 0 \<and> (\<exists>as'. allocated_block s as aligned p s' as'))"
proof (cases "\<not> g_memory_ready (h_mem s) \<or> n = 0")
  case True
  then show ?thesis by (auto simp: kmalloc.simps [of n s])
next
  case False
  have al: "unat aligned + 4119 < 2 ^ 64" unfolding aligned_def using heap_align_bound [of n] small by simp
  obtain p H where a1: "heap_alloc_from_list (g_heap_head (h_mem s)) aligned (h_blocks s) = Some (p, H)"
    and c1: "p = 0 \<and> H = h_blocks s \<or> p \<noteq> 0 \<and> (\<exists>as'. allocated_block s as aligned p (s\<lparr>h_blocks := H\<rparr>) as')"
    using heap_alloc_spec [OF inv, of aligned] by blast
  have unf: "kmalloc n s = (if p \<noteq> 0 then Some (p, s\<lparr>h_blocks := H\<rparr>)
      else case heap_grow aligned (s\<lparr>h_blocks := H\<rparr>) of None \<Rightarrow> None
        | Some (grown, s1) \<Rightarrow> if grown = 0 then Some (0, s1) else kmalloc n s1)"
    using False a1 by (subst kmalloc.simps) (simp add: aligned_def Let_def)
  show ?thesis
  proof (cases "p = 0")
    case False
    then show ?thesis using unf c1 by auto
  next
    case True
    then have H: "s\<lparr>h_blocks := H\<rparr> = s" using c1 by simp
    obtain b s1 where g: "heap_grow aligned s = Some (b, s1)"
      and gc: "b = 0 \<and> s1 = s \<and> alloc_pages (grow_pages aligned) (h_mem s) = (0, h_mem s) \<or>
        b \<noteq> 0 \<and> g_memory_ready (h_mem s1) = g_memory_ready (h_mem s) \<and>
        (\<exists>as'. heap_inv as' s1 \<and> live (h_blocks s1) as' = live (h_blocks s) as \<and>
          span (h_blocks s) as \<subseteq> span (h_blocks s1) as' \<and>
          (unat aligned + 4119 < 2 ^ 64 \<longrightarrow>
            (\<exists>x \<in> set as'. hb_free (h_blocks s1 x) \<and> aligned \<le> hb_size (h_blocks s1 x))))"
      using heap_grow_spec [OF inv, of aligned] by blast
    show ?thesis
    proof (cases "b = 0")
      case b0: True
      then have "kmalloc n s = Some (0, s)" using unf True H g gc by simp
      then show ?thesis using b0 gc by simp
    next
      case b1: False
      then obtain as1 x where as1: "heap_inv as1 s1" "live (h_blocks s1) as1 = live (h_blocks s) as"
          "span (h_blocks s) as \<subseteq> span (h_blocks s1) as1" "x \<in> set as1" "hb_free (h_blocks s1 x)"
          "aligned \<le> hb_size (h_blocks s1 x)" and rdy: "g_memory_ready (h_mem s1) = g_memory_ready (h_mem s)"
        using gc al by blast
      obtain q H1 where a2: "heap_alloc_from_list (g_heap_head (h_mem s1)) aligned (h_blocks s1) = Some (q, H1)"
        and q: "q \<noteq> 0" "\<exists>as'. allocated_block s1 as1 aligned q (s1\<lparr>h_blocks := H1\<rparr>) as'"
        using heap_alloc_spec [OF as1(1), of aligned] as1(4-6) by (fastforce simp: not_less)
      have "kmalloc n s1 = Some (q, s1\<lparr>h_blocks := H1\<rparr>)"
        using False rdy a2 q(1) by (subst kmalloc.simps) (simp add: aligned_def Let_def)
      then have run: "kmalloc n s = Some (q, s1\<lparr>h_blocks := H1\<rparr>)" using unf True H g b1 by simp
      obtain as' where "allocated_block s1 as1 aligned q (s1\<lparr>h_blocks := H1\<rparr>) as'" using q by blast
      then have "allocated_block s as aligned q (s1\<lparr>h_blocks := H1\<rparr>) as'"
        using as1(2,3) rdy unfolding allocated_block_def by auto
      then show ?thesis using run q(1) by blast
    qed
  qed
qed

end
