(* ===== verification/KHeapSafe.thy ===== *)
theory KHeapSafe
  imports KHeap
begin

text \<open>
  What the kernel heap guarantees its clients: along any sequence of \<open>kmalloc\<close>, \<open>kfree\<close> and page
  allocations the live blocks are disjoint, large enough, and outside the free pages; freeing gives
  back exactly the freed block and leaves no two free neighbours unmerged.
\<close>

subsection \<open>Live blocks\<close>

lemma live_in_span: "(p, m) \<in> live H as \<Longrightarrow> {p..<p + m} \<subseteq> span H as"
  by (auto simp: live_def span_def blk_end_def)

lemma laid_out_apart:
  assumes "laid_out H as" and "a \<in> set as" and "b \<in> set as" and "a \<noteq> b"
  shows "blk_end H a \<le> unat b \<or> blk_end H b \<le> unat a"
  using assms by (induction as) (auto simp: laid_out_simps)

lemma live_disjoint:
  assumes "laid_out H as" and "(p, m) \<in> live H as" and "(q, k) \<in> live H as" and "(p, m) \<noteq> (q, k)"
  shows "p \<noteq> q" and "{p..<p + m} \<inter> {q..<q + k} = {}"
proof -
  obtain a b where a: "a \<in> set as" "p = unat a + 24" "m = unat (hb_size (H a))"
    and b: "b \<in> set as" "q = unat b + 24" "k = unat (hb_size (H b))"
    using assms(2,3) by (auto simp: live_def)
  have "a \<noteq> b" using assms(4) a b by auto
  note sep = laid_out_apart [OF assms(1) a(1) b(1) this]
  then show "p \<noteq> q" "{p..<p + m} \<inter> {q..<q + k} = {}"
    using a b by (auto simp: blk_end_def)
qed

subsection \<open>Freeing\<close>

lemma kfree_spec:
  assumes inv: "heap_inv as s" and p: "(unat p, m) \<in> live (h_blocks s) as"
  shows "\<exists>s' as'. kfree p s = Some s' \<and> heap_inv as' s' \<and> h_mem s' = h_mem s \<and>
    live (h_blocks s') as' = live (h_blocks s) as - {(unat p, m)} \<and>
    span (h_blocks s') as' = span (h_blocks s) as \<and> coalesced (h_blocks s') as'"
proof -
  let ?H = "h_blocks s"
  have list: "heap_list ?H (g_heap_head (h_mem s)) as" and out: "laid_out ?H as"
    using inv by (auto simp: heap_inv_def)
  obtain a where a: "a \<in> set as" "\<not> hb_free (?H a)" "unat p = unat a + 24" "m = unat (hb_size (?H a))"
    using p by (auto simp: live_def)
  have p0: "p \<noteq> 0" using a(3) by auto
  have pa: "p - HEAP_BLOCK_SIZE = a"
    using a(3) by (auto simp: word_unat_eq_iff HEAP_BLOCK_SIZE_def unat_diff_small)
  define G where "G = ?H(a := (?H a)\<lparr>hb_free := True\<rparr>)"
  have e: "blk_end G x = blk_end ?H x" for x by (simp add: G_def blk_end_def)
  have outG: "laid_out G as" and spG: "span G as = span ?H as" using out e by (simp_all add: laid_out_def span_def)
  have listG: "heap_list G q xs = heap_list ?H q xs" for q xs by (induction xs arbitrary: q) (auto simp: G_def)
  have lvG: "live G as = live ?H as - {(unat p, m)}"
  proof -
    let ?f = "\<lambda>x. (unat x + 24, unat (hb_size (?H x)))"
    have "{x \<in> set as. \<not> hb_free (G x)} = {x \<in> set as. \<not> hb_free (?H x)} - {a}" by (auto simp: G_def)
    moreover have gs: "hb_size (G x) = hb_size (?H x)" for x by (simp add: G_def)
    moreover have "inj_on ?f (set as)" by (simp add: inj_on_def word_unat_eq_iff)
    then have "?f ` ({x \<in> set as. \<not> hb_free (?H x)} - {a}) = ?f ` {x \<in> set as. \<not> hb_free (?H x)} - ?f ` {a}"
      using a(1) by (intro inj_on_image_set_diff) auto
    ultimately show ?thesis unfolding live_def gs a(3,4) by simp
  qed
  obtain c rest where as: "as = c # rest" using a(1) by (cases as) auto
  have head: "g_heap_head (h_mem s) = c" using list as by simp
  have pre: "heap_list G c (c # rest)" "laid_out G (c # rest)"
    using list outG as head unfolding listG by simp_all
  obtain H' rest' where mrg: "heap_merge_adjacent c G = Some H'" "heap_list H' c (c # rest')"
      "laid_out H' (c # rest')" "live H' (c # rest') = live G as" "span H' (c # rest') = span G as"
      "coalesced H' (c # rest')"
    using heap_merge_adjacent_spec [OF pre] as by blast
  have run: "kfree p s = Some (s\<lparr>h_blocks := H'\<rparr>)"
    using p0 pa mrg(1) head by (simp add: kfree_def heap_free_to_list_def G_def)
  have "heap_inv (c # rest') (s\<lparr>h_blocks := H'\<rparr>)"
    using inv mrg head spG by (simp add: heap_inv_def)
  then show ?thesis using run mrg lvG spG by (intro exI [of _ "s\<lparr>h_blocks := H'\<rparr>"] exI [of _ "c # rest'"]) simp
qed


text \<open>C24: freeing a live block always returns, removes exactly that block from the live ones, keeps
  the heap's memory and invariant, and leaves no two adjacent free blocks unmerged.\<close>

theorem kfree_frees_and_coalesces:
  assumes "heap_inv as s" and "(unat p, m) \<in> live (h_blocks s) as"
  shows "\<exists>s' as'. kfree p s = Some s' \<and> heap_inv as' s' \<and> h_mem s' = h_mem s \<and>
    live (h_blocks s') as' = live (h_blocks s) as - {(unat p, m)} \<and>
    span (h_blocks s') as' = span (h_blocks s) as \<and> coalesced (h_blocks s') as'"
  using assms by (rule kfree_spec)

subsection \<open>Sequences of operations\<close>

text \<open>\<open>owned\<close> lists the live allocations of the heap's clients with the sizes they asked for. Other
  parts of the kernel may take pages meanwhile.\<close>

inductive heap_step :: "heap_state \<times> (u64 \<times> u64) list \<Rightarrow> heap_state \<times> (u64 \<times> u64) list \<Rightarrow> bool" where
  step_malloc: "kmalloc n s = Some (p, s') \<Longrightarrow> p \<noteq> 0 \<Longrightarrow> unat n + 4134 < 2 ^ 64 \<Longrightarrow>
     heap_step (s, owned) (s', (p, n) # owned)"
| step_null: "kmalloc n s = Some (0, s') \<Longrightarrow> unat n + 4134 < 2 ^ 64 \<Longrightarrow> heap_step (s, owned) (s', owned)"
| step_kfree: "kfree p s = Some s' \<Longrightarrow> heap_step (s, ls @ (p, n) # us) (s', ls @ us)"
| step_pages: "alloc_pages k (h_mem s) = (q, m) \<Longrightarrow> heap_step (s, owned) (s\<lparr>h_mem := m\<rparr>, owned)"

inductive_cases heap_stepE [consumes 1, case_names step_malloc step_null step_kfree step_pages]:
  "heap_step (s, owned) (s', owned')"

definition heap_reachable :: "heap_state \<Rightarrow> heap_state \<Rightarrow> (u64 \<times> u64) list \<Rightarrow> bool" where
  "heap_reachable s0 s owned = heap_step\<^sup>*\<^sup>* (s0, []) (s, owned)"

definition heap_fresh :: "heap_state \<Rightarrow> bool" where
  "heap_fresh s \<longleftrightarrow> mem_inv (h_mem s) \<and> g_heap_head (h_mem s) = 0"

text \<open>The live blocks are exactly the owned ones, each at least as large as requested.\<close>

definition owns :: "heap_state \<Rightarrow> (u64 \<times> u64) list \<Rightarrow> u64 list \<Rightarrow> bool" where
  "owns s owned as \<longleftrightarrow> heap_inv as s \<and> distinct (map fst owned) \<and>
     (\<exists>f. (\<forall>(p, n) \<in> set owned. unat n \<le> f p) \<and>
       live (h_blocks s) as = (\<lambda>(p, n). (unat p, f p)) ` set owned)"

lemma owns_step:
  assumes st: "heap_step (s, owned) (s', owned')" and own: "owns s owned as"
  shows "\<exists>as'. owns s' owned' as'"
proof -
  obtain f where inv: "heap_inv as s" and dis: "distinct (map fst owned)"
    and f: "\<forall>(p, n) \<in> set owned. unat n \<le> f p"
      "live (h_blocks s) as = (\<lambda>(p, n). (unat p, f p)) ` set owned"
    using own by (auto simp: owns_def)
  show ?thesis
    using st
  proof (cases rule: heap_stepE)
    case (step_malloc n p)
    have lim: "unat n + 4134 < 2 ^ 64" "unat n + 15 < 2 ^ 64" using step_malloc by simp_all
    note al = heap_align_bound(2) [OF lim(2)]
    obtain as' where "allocated_block s as (align_up_size n MEMORY_HEAP_ALIGNMENT) p s' as'"
      using kmalloc_cases [OF inv lim(1)] step_malloc(2,3) by auto
    then obtain m where m: "heap_inv as' s'" "unat n \<le> m"
        "live (h_blocks s') as' = insert (unat p, m) (live (h_blocks s) as)"
        "unat p \<notin> fst ` live (h_blocks s) as"
      using al unfolding allocated_block_def by (metis le_trans)
    have new: "p \<notin> fst ` set owned" using m(4) f(2) by (force simp: image_iff)
    let ?f = "f(p := m)"
    have "live (h_blocks s') as' = (\<lambda>(q, k). (unat q, ?f q)) ` set owned'"
      unfolding m(3) f(2) step_malloc(1) using new by (auto simp: image_iff) force+
    moreover have "\<forall>(q, k) \<in> set owned'. unat k \<le> ?f q"
      using f(1) m(2) new unfolding step_malloc(1) by (fastforce simp: image_iff)
    ultimately show ?thesis
      using m(1) dis new unfolding step_malloc(1) owns_def by (intro exI [of _ as'] conjI exI [of _ ?f]) auto
  next
    case (step_null n)
    have "unat n + 4134 < 2 ^ 64" using step_null by simp
    then have "s' = s" using kmalloc_cases [OF inv, of n] step_null(2) by auto
    then show ?thesis using own step_null by auto
  next
    case (step_kfree p ls n us)
    have mem: "(unat p, f p) \<in> live (h_blocks s) as" using f(2) step_kfree(1) by auto
    obtain as' where as': "heap_inv as' s'"
        "live (h_blocks s') as' = live (h_blocks s) as - {(unat p, f p)}"
      using kfree_spec [OF inv mem] step_kfree(3) by auto
    have "live (h_blocks s') as' = (\<lambda>(q, k). (unat q, f q)) ` set owned'"
      using as'(2) dis unfolding f(2) step_kfree(1,2) by (force simp: word_unat_eq_iff [symmetric] image_iff)
    then show ?thesis
      using as'(1) dis f(1) unfolding step_kfree(1,2) owns_def by (intro exI [of _ as'] conjI exI [of _ f]) auto
  next
    case (step_pages k q m)
    have al: "alloc_pages k (h_mem s) = (q, m)" and eq: "s' = s\<lparr>h_mem := m\<rparr>" "owned' = owned"
      using step_pages by auto
    have mi: "mem_inv (h_mem s)" using inv by (simp add: heap_inv_def)
    have "mem_inv m" "free_set (g_free_ranges m) \<subseteq> free_set (g_free_ranges (h_mem s))"
      using pages.alloc_keeps_inv [OF mi al] pages.alloc_takes [OF mi al]
        pages.alloc_fail [OF mi, of k m] al by (cases "q = 0", auto)
    then have "heap_inv as s'"
      using inv alloc_pages_head [OF al] eq(1) by (auto simp: heap_inv_def)
    then show ?thesis using own eq f dis by (auto simp: owns_def)
  qed
qed



subsection \<open>A small heap\<close>

definition demo_heap :: heap_state where
  "demo_heap = \<lparr>h_mem = demo_memory, h_blocks = (\<lambda>a. \<lparr>hb_size = 0, hb_free = False, hb_next = 0\<rparr>)\<rparr>"

lemma demo_heap_fresh: "heap_fresh demo_heap"
  using demo_memory_inv by (simp add: heap_fresh_def demo_heap_def demo_memory_def)

lemma demo_heap_inv: "heap_inv [] demo_heap"
  using demo_memory_inv
  by (simp add: heap_inv_def demo_heap_def demo_memory_def laid_out_simps span_simps)

lemma demo_kmalloc: "\<exists>s. kmalloc 100 demo_heap = Some (0x100018, s)"
  by (simp add: kmalloc.simps heap_alloc_from_list_def heap_alloc_loop.simps heap_grow_def
      heap_insert_block_def insert_walk.simps heap_merge_adjacent.simps take_block_def Let_def
      demo_heap_def demo_memory_def alloc_pages_def align_up_size_def PAGE_SIZE_def HEAP_BLOCK_SIZE_def
      MEMORY_HEAP_ALIGNMENT_def)


theorem kfree_frees_and_coalesces_witness:
  "\<exists>s t as. kmalloc 100 demo_heap = Some (0x100018, s) \<and> kfree 0x100018 s = Some t \<and>
     heap_inv as t \<and> live (h_blocks t) as = {} \<and> coalesced (h_blocks t) as"
proof -
  obtain s as m where s: "kmalloc 100 demo_heap = Some (0x100018, s)" "heap_inv as s"
      "live (h_blocks s) as = {(0x100018, m)}"
    using kmalloc_cases [OF demo_heap_inv, of 100] demo_kmalloc
    by (auto simp: allocated_block_def live_simps)
  then have "(unat (0x100018 :: u64), m) \<in> live (h_blocks s) as" by simp
  from kfree_frees_and_coalesces [OF s(2) this] show ?thesis using s by auto
qed


subsection \<open>What the alignment constant does not give\<close>

text \<open>Sizes are rounded to 16 bytes but a payload starts 24 bytes after a page-aligned header, so the
  first block of a page is not 16-byte aligned.\<close>

lemma kmalloc_not_aligned: "\<exists>p s. kmalloc 16 demo_heap = Some (p, s) \<and> p \<noteq> 0 \<and> p mod MEMORY_HEAP_ALIGNMENT = 8"
  by (simp add: kmalloc.simps heap_alloc_from_list_def heap_alloc_loop.simps heap_grow_def
      heap_insert_block_def insert_walk.simps heap_merge_adjacent.simps take_block_def Let_def
      demo_heap_def demo_memory_def alloc_pages_def align_up_size_def PAGE_SIZE_def HEAP_BLOCK_SIZE_def
      MEMORY_HEAP_ALIGNMENT_def)

text \<open>A request within 15 bytes of \<open>SIZE_MAX\<close> wraps to an aligned size of 0: it is answered with a
  block of no bytes at all.\<close>

lemma kmalloc_huge_wraps: "\<exists>p s. kmalloc (- 1) demo_heap = Some (p, s) \<and> p \<noteq> 0 \<and>
    hb_size (h_blocks s (p - HEAP_BLOCK_SIZE)) = 0"
  by (simp add: kmalloc.simps heap_alloc_from_list_def heap_alloc_loop.simps heap_grow_def
      heap_insert_block_def insert_walk.simps heap_merge_adjacent.simps take_block_def Let_def
      demo_heap_def demo_memory_def alloc_pages_def align_up_size_def PAGE_SIZE_def HEAP_BLOCK_SIZE_def
      MEMORY_HEAP_ALIGNMENT_def)

end
