(* ===== verification/Paging.thy ===== *)
theory Paging
  imports MemInit
begin

text \<open>
  \<open>src/kernel/paging.c\<close>: the x86-64 page tables of the kernel and of its programs.

  A table is a 4 KiB page of 512 64-bit entries. \<open>pg_tables t i\<close> is entry \<open>i\<close> of the table at
  physical address \<open>t\<close>; the pages come from \<open>alloc_pages\<close> and are page-aligned, so tables at
  different addresses never overlap. The control registers are words of the state; \<open>rdmsr\<close>,
  \<open>wrmsr\<close> and the moves from and to \<open>cr0\<close> and \<open>cr3\<close> read and write them. The section symbols of
  the linker script are the record \<open>kernel_symbols\<close>. Loops over addresses may wrap around and are
  partial functions; loops over the 512 entries are folds.
\<close>

definition PAGE_SIZE_4K :: u64 where "PAGE_SIZE_4K = 0x1000"
definition PAGE_SIZE_2M :: u64 where "PAGE_SIZE_2M = 0x200000"
definition PAGE_TABLE_ENTRIES :: nat where "PAGE_TABLE_ENTRIES = 512"
definition PAGE_PRESENT :: u64 where "PAGE_PRESENT = 0x001"
definition PAGE_WRITABLE :: u64 where "PAGE_WRITABLE = 0x002"
definition PAGE_USER :: u64 where "PAGE_USER = 0x004"
definition PAGE_PAGE_SIZE :: u64 where "PAGE_PAGE_SIZE = 0x080"
definition PAGE_NX :: u64 where "PAGE_NX = push_bit 63 1"
definition PAGE_TABLE_ADDR_MASK :: u64 where "PAGE_TABLE_ADDR_MASK = NOT 0xFFF"
definition PAGE_2M_ADDR_MASK :: u64 where "PAGE_2M_ADDR_MASK = NOT 0x1FFFFF"
definition CR0_WRITE_PROTECT :: u64 where "CR0_WRITE_PROTECT = push_bit 16 1"
definition EFER_NXE :: u64 where "EFER_NXE = push_bit 11 1"
definition LOW_IDENTITY_LIMIT :: u64 where "LOW_IDENTITY_LIMIT = 0x0000000100000000"

type_synonym tables = "u64 \<Rightarrow> nat \<Rightarrow> u64"

record paging_state =
  pg_mem :: memory_state
  pg_tables :: tables
  g_pml4 :: u64
  cr3 :: u64
  cr0 :: u64
  efer :: u64

record kernel_symbols =
  ks_start :: u64
  ks_text_start :: u64
  ks_text_end :: u64
  ks_rodata_start :: u64
  ks_rodata_end :: u64
  ks_data_start :: u64
  ks_image_end :: u64

subsection \<open>Entries and tables\<close>

definition paging_align_down_page :: "u64 \<Rightarrow> u64 \<Rightarrow> u64" where
  "paging_align_down_page v alignment = v AND NOT (alignment - 1)"

definition paging_align_up_page :: "u64 \<Rightarrow> u64 \<Rightarrow> u64" where
  "paging_align_up_page v alignment = (v + alignment - 1) AND NOT (alignment - 1)"

definition pml4_index :: "u64 \<Rightarrow> nat" where "pml4_index addr = unat (drop_bit 39 addr AND 0x1FF)"
definition pdpt_index :: "u64 \<Rightarrow> nat" where "pdpt_index addr = unat (drop_bit 30 addr AND 0x1FF)"
definition pd_index :: "u64 \<Rightarrow> nat" where "pd_index addr = unat (drop_bit 21 addr AND 0x1FF)"
definition pt_index :: "u64 \<Rightarrow> nat" where "pt_index addr = unat (drop_bit 12 addr AND 0x1FF)"

abbreviation entry_of :: "paging_state \<Rightarrow> u64 \<Rightarrow> nat \<Rightarrow> u64" where
  "entry_of s t i \<equiv> pg_tables s t i"

definition set_entry :: "u64 \<Rightarrow> nat \<Rightarrow> u64 \<Rightarrow> paging_state \<Rightarrow> paging_state" where
  "set_entry t i e s = s\<lparr>pg_tables := (pg_tables s)(t := (pg_tables s t)(i := e))\<rparr>"

definition alloc_page_table :: "paging_state \<Rightarrow> u64 \<times> paging_state" where
  "alloc_page_table s =
     (let (table, m) = alloc_pages 1 (pg_mem s); s1 = s\<lparr>pg_mem := m\<rparr> in
      if table = 0 then (0, s1)
      else (table, s1\<lparr>pg_tables := (pg_tables s)(table := (\<lambda>_. 0))\<rparr>))"

definition paging_default_leaf_flags :: "bool \<Rightarrow> bool \<Rightarrow> u64" where
  "paging_default_leaf_flags writable user_accessible =
     PAGE_PRESENT OR (if writable then PAGE_WRITABLE else 0) OR (if user_accessible then PAGE_USER else 0)"

definition table_flags :: "bool \<Rightarrow> u64" where
  "table_flags user_accessible =
     PAGE_PRESENT OR PAGE_WRITABLE OR (if user_accessible then PAGE_USER else 0)"

definition get_or_create_table :: "u64 \<Rightarrow> nat \<Rightarrow> bool \<Rightarrow> paging_state \<Rightarrow> u64 \<times> paging_state" where
  "get_or_create_table parent index user_accessible s =
     (let entry = entry_of s parent index in
      if parent = 0 then (0, s)
      else if entry AND PAGE_PRESENT \<noteq> 0 then
        (if entry AND PAGE_PAGE_SIZE \<noteq> 0 then (0, s)
         else if user_accessible \<and> entry AND PAGE_USER = 0 then (0, s)
         else (entry AND PAGE_TABLE_ADDR_MASK, s))
      else case alloc_page_table s of (table, s1) \<Rightarrow>
        if table = 0 then (0, s1)
        else (table, set_entry parent index (table OR table_flags user_accessible) s1))"

definition get_or_create_pd :: "u64 \<Rightarrow> u64 \<Rightarrow> bool \<Rightarrow> paging_state \<Rightarrow> u64 \<times> paging_state" where
  "get_or_create_pd root virt user_accessible s =
     (case get_or_create_table root (pml4_index virt) user_accessible s of (pdpt, s1) \<Rightarrow>
        if pdpt = 0 then (0, s1)
        else get_or_create_table pdpt (pdpt_index virt) user_accessible s1)"

definition split_large_page :: "u64 \<Rightarrow> nat \<Rightarrow> paging_state \<Rightarrow> bool \<times> paging_state" where
  "split_large_page pd pd_slot s =
     (let entry = entry_of s pd pd_slot in
      if entry AND PAGE_PRESENT = 0 \<or> entry AND PAGE_PAGE_SIZE = 0 then (True, s)
      else case alloc_page_table s of (pt, s1) \<Rightarrow>
        if pt = 0 then (False, s1)
        else
          let base = entry AND PAGE_2M_ADDR_MASK;
              flags = entry AND (PAGE_PRESENT OR PAGE_WRITABLE OR PAGE_NX OR PAGE_USER);
              s2 = fold (\<lambda>index. set_entry pt index ((base + of_nat index * PAGE_SIZE_4K) OR flags))
                     [0..<PAGE_TABLE_ENTRIES] s1
          in (True, set_entry pd pd_slot
                (pt OR PAGE_PRESENT OR PAGE_WRITABLE OR (flags AND PAGE_USER)) s2))"

subsection \<open>Mapping\<close>

definition map_page_2m :: "u64 \<Rightarrow> u64 \<Rightarrow> u64 \<Rightarrow> bool \<Rightarrow> bool \<Rightarrow> bool \<Rightarrow> paging_state \<Rightarrow> bool \<times> paging_state" where
  "map_page_2m root virt phys writable executable user_accessible s =
     (case get_or_create_pd root virt user_accessible s of (pd, s1) \<Rightarrow>
        if pd = 0 then (False, s1)
        else
          let flags = paging_default_leaf_flags writable user_accessible OR PAGE_PAGE_SIZE;
              flags = (if \<not> executable then flags OR PAGE_NX else flags)
          in (True, set_entry pd (pd_index virt) (phys OR flags) s1))"

text \<open>The part of \<open>map_page_4k\<close> that makes sure the directory's slot holds a page table.\<close>

definition ensure_page_table :: "u64 \<Rightarrow> nat \<Rightarrow> bool \<Rightarrow> paging_state \<Rightarrow> bool \<times> paging_state" where
  "ensure_page_table pd slot user_accessible s =
     (if entry_of s pd slot AND PAGE_PAGE_SIZE \<noteq> 0 then split_large_page pd slot s
      else if entry_of s pd slot AND PAGE_PRESENT = 0 then
        (case alloc_page_table s of (new_pt, s1) \<Rightarrow>
           if new_pt = 0 then (False, s1)
           else (True, set_entry pd slot (new_pt OR table_flags user_accessible) s1))
      else if user_accessible \<and> entry_of s pd slot AND PAGE_USER = 0 then (False, s)
      else (True, s))"

definition map_page_4k :: "u64 \<Rightarrow> u64 \<Rightarrow> u64 \<Rightarrow> bool \<Rightarrow> bool \<Rightarrow> bool \<Rightarrow> paging_state \<Rightarrow> bool \<times> paging_state" where
  "map_page_4k root virt phys writable executable user_accessible s =
     (case get_or_create_pd root virt user_accessible s of (pd, s1) \<Rightarrow>
        if pd = 0 then (False, s1)
        else case ensure_page_table pd (pd_index virt) user_accessible s1 of (ok, s2) \<Rightarrow>
          if \<not> ok then (False, s2)
          else
            let pt = entry_of s2 pd (pd_index virt) AND PAGE_TABLE_ADDR_MASK;
                flags = paging_default_leaf_flags writable user_accessible;
                flags = (if \<not> executable then flags OR PAGE_NX else flags)
            in (True, set_entry pt (pt_index virt) (phys OR flags) s2))"

partial_function (option) map_loop ::
  "u64 \<Rightarrow> u64 \<Rightarrow> u64 \<Rightarrow> u64 \<Rightarrow> bool \<Rightarrow> bool \<Rightarrow> bool \<Rightarrow> paging_state \<Rightarrow> (bool \<times> paging_state) option" where
  "map_loop root virt_cursor phys_cursor virt_end writable executable user_accessible s =
     (if virt_cursor < virt_end then
        case map_page_4k root virt_cursor phys_cursor writable executable user_accessible s of
          (ok, s1) \<Rightarrow>
            if \<not> ok then Some (False, s1)
            else map_loop root (virt_cursor + PAGE_SIZE_4K) (phys_cursor + PAGE_SIZE_4K) virt_end
                   writable executable user_accessible s1
      else Some (True, s))"

definition map_range_in_root ::
  "u64 \<Rightarrow> u64 \<Rightarrow> u64 \<Rightarrow> u64 \<Rightarrow> bool \<Rightarrow> bool \<Rightarrow> bool \<Rightarrow> paging_state \<Rightarrow> (bool \<times> paging_state) option" where
  "map_range_in_root root virt_start phys_start bytes writable executable user_accessible s =
     (if root = 0 \<or> bytes = 0 then Some (False, s)
      else if virt_start + bytes < virt_start \<or> phys_start + bytes < phys_start then Some (False, s)
      else map_loop root (paging_align_down_page virt_start PAGE_SIZE_4K)
             (paging_align_down_page phys_start PAGE_SIZE_4K)
             (paging_align_up_page (virt_start + bytes) PAGE_SIZE_4K)
             writable executable user_accessible s)"

definition map_range_identity_kernel :: "u64 \<Rightarrow> u64 \<Rightarrow> bool \<Rightarrow> bool \<Rightarrow> paging_state \<Rightarrow> (bool \<times> paging_state) option" where
  "map_range_identity_kernel start end writable executable s =
     map_range_in_root (g_pml4 s) start start (end - start) writable executable False s"

text \<open>One round of the loop of \<open>map_kernel_image\<close>: the 2 MiB chunk at \<open>cursor\<close> gets a page table.\<close>

definition split_chunk :: "u64 \<Rightarrow> paging_state \<Rightarrow> bool \<times> paging_state" where
  "split_chunk cursor s =
     (case get_or_create_pd (g_pml4 s) cursor False s of (pd, s1) \<Rightarrow>
        if pd = 0 then (False, s1)
        else
          let slot = pd_index cursor;
              s2 = (if entry_of s1 pd slot AND PAGE_PRESENT = 0
                    then set_entry pd slot (cursor OR PAGE_PRESENT OR PAGE_WRITABLE OR PAGE_PAGE_SIZE) s1
                    else s1)
          in if entry_of s2 pd slot AND PAGE_PAGE_SIZE \<noteq> 0 then split_large_page pd slot s2
             else (True, s2))"

partial_function (option) split_chunks :: "u64 \<Rightarrow> u64 \<Rightarrow> paging_state \<Rightarrow> (bool \<times> paging_state) option" where
  "split_chunks cursor chunk_end s =
     (if cursor < chunk_end then
        case split_chunk cursor s of (ok, s1) \<Rightarrow>
          if \<not> ok then Some (False, s1) else split_chunks (cursor + PAGE_SIZE_2M) chunk_end s1
      else Some (True, s))"

definition map_kernel_image :: "kernel_symbols \<Rightarrow> paging_state \<Rightarrow> (bool \<times> paging_state) option" where
  "map_kernel_image k s = do {
     (ok, s1) \<leftarrow> split_chunks (paging_align_down_page (ks_start k) PAGE_SIZE_2M)
                   (paging_align_up_page (ks_image_end k) PAGE_SIZE_2M) s;
     if \<not> ok then Some (False, s1) else do {
     (ok, s2) \<leftarrow> map_range_identity_kernel (ks_text_start k) (ks_text_end k) False True s1;
     if \<not> ok then Some (False, s2) else do {
     (ok, s3) \<leftarrow> map_range_identity_kernel (ks_rodata_start k) (ks_rodata_end k) False False s2;
     if \<not> ok then Some (False, s3)
     else if ks_image_end k > ks_data_start k
     then map_range_identity_kernel (ks_data_start k) (ks_image_end k) True False s3
     else Some (True, s3) }}}"

definition map_framebuffer :: "BootInfo option \<Rightarrow> paging_state \<Rightarrow> (bool \<times> paging_state) option" where
  "map_framebuffer boot_info s =
     (case boot_info of
        None \<Rightarrow> Some (False, s)
      | Some b \<Rightarrow>
          if console_flags b AND BOOTINFO_CONSOLE_FRAMEBUFFER = 0 then Some (True, s)
          else if framebuffer_base b = 0 then Some (True, s)
          else let start = framebuffer_base b; end = start + framebuffer_bytes b
               in map_range_in_root (g_pml4 s) start start (end - start) True False False s)"

subsection \<open>Control registers\<close>

definition enable_nxe_and_write_protect :: "paging_state \<Rightarrow> paging_state" where
  "enable_nxe_and_write_protect s =
     (let efer_low = ucast (efer s) :: u32; efer_high = ucast (drop_bit 32 (efer s)) :: u32;
          e = ucast efer_low OR push_bit 32 (ucast efer_high);
          e = e OR EFER_NXE;
          efer_low = ucast e :: u32; efer_high = ucast (drop_bit 32 e) :: u32
      in s\<lparr>efer := ucast efer_low OR push_bit 32 (ucast efer_high), cr0 := cr0 s OR CR0_WRITE_PROTECT\<rparr>)"

definition read_cr3 :: "paging_state \<Rightarrow> u64" where "read_cr3 s = cr3 s"

definition load_cr3 :: "u64 \<Rightarrow> paging_state \<Rightarrow> paging_state" where "load_cr3 pml4 s = s\<lparr>cr3 := pml4\<rparr>"

definition paging_kernel_root :: "paging_state \<Rightarrow> u64" where "paging_kernel_root s = g_pml4 s"

definition paging_current_root :: "paging_state \<Rightarrow> u64" where
  "paging_current_root s = read_cr3 s AND PAGE_TABLE_ADDR_MASK"

definition paging_activate_root :: "u64 \<Rightarrow> paging_state \<Rightarrow> paging_state" where
  "paging_activate_root root s =
     (let root = root AND PAGE_TABLE_ADDR_MASK in if root \<noteq> 0 then load_cr3 root s else s)"

subsection \<open>Address spaces\<close>

text \<open>
  \<open>destroy_table_tree\<close> recurses on the level; the loop over the entries is a fold. It frees
  pages and writes no table.
\<close>

primrec destroy_table_tree :: "nat \<Rightarrow> u64 \<Rightarrow> tables \<Rightarrow> memory_state \<Rightarrow> memory_state" where
  "destroy_table_tree 0 table T m = m"
| "destroy_table_tree (Suc level) table T m =
     (if table = 0 then m
      else fold (\<lambda>i m. let entry = T table i in
               if entry AND PAGE_PRESENT = 0 then m
               else if Suc level = 1 \<or> entry AND PAGE_PAGE_SIZE \<noteq> 0 then m
               else free_pages (entry AND PAGE_TABLE_ADDR_MASK) 1
                      (destroy_table_tree level (entry AND PAGE_TABLE_ADDR_MASK) T m))
             [0..<PAGE_TABLE_ENTRIES] m)"

text \<open>The loop of \<open>paging_init\<close> over the 2 MiB pages below 4 GiB.\<close>

partial_function (option) identity_loop :: "u64 \<Rightarrow> paging_state \<Rightarrow> (bool \<times> paging_state) option" where
  "identity_loop cursor s =
     (if cursor < LOW_IDENTITY_LIMIT then
        case map_page_2m (g_pml4 s) cursor cursor True True False s of (ok, s1) \<Rightarrow>
          if \<not> ok then Some (False, s1) else identity_loop (cursor + PAGE_SIZE_2M) s1
      else Some (True, s))"

definition paging_init :: "kernel_symbols \<Rightarrow> BootInfo option \<Rightarrow> paging_state \<Rightarrow> (bool \<times> paging_state) option" where
  "paging_init k boot_info s =
     (case alloc_page_table s of (root, s0) \<Rightarrow>
        let s1 = s0\<lparr>g_pml4 := root\<rparr> in
        if root = 0 then Some (False, s1) else do {
        (ok, s2) \<leftarrow> map_range_in_root root PAGE_SIZE_4K PAGE_SIZE_4K (PAGE_SIZE_2M - PAGE_SIZE_4K)
                      True True False s1;
        if \<not> ok then Some (False, s2) else do {
        (ok, s3) \<leftarrow> identity_loop PAGE_SIZE_2M s2;
        if \<not> ok then Some (False, s3) else do {
        (ok, s4) \<leftarrow> map_kernel_image k s3;
        if \<not> ok then Some (False, s4) else do {
        (ok, s5) \<leftarrow> map_framebuffer boot_info s4;
        if \<not> ok then Some (False, s5)
        else Some (True, load_cr3 (g_pml4 s5) (enable_nxe_and_write_protect s5)) }}}})"

definition paging_map_range ::
  "u64 \<Rightarrow> u64 \<Rightarrow> u64 \<Rightarrow> bool \<Rightarrow> bool \<Rightarrow> paging_state \<Rightarrow> (bool \<times> paging_state) option" where
  "paging_map_range virt_start phys_start bytes writable executable s =
     (if g_pml4 s = 0 then Some (False, s)
      else do {
        (ok, s1) \<leftarrow> map_range_in_root (g_pml4 s) virt_start phys_start bytes writable executable False s;
        if \<not> ok then Some (False, s1)
        else Some (True, if paging_current_root s1 = g_pml4 s1 then load_cr3 (g_pml4 s1) s1 else s1) })"

definition paging_create_address_space :: "paging_state \<Rightarrow> u64 \<times> paging_state" where
  "paging_create_address_space s =
     (if g_pml4 s = 0 then (0, s)
      else case alloc_page_table s of (root, s1) \<Rightarrow>
        if root = 0 then (0, s1)
        else (root, fold (\<lambda>i s. set_entry root i (entry_of s (g_pml4 s) i) s) [0..<PAGE_TABLE_ENTRIES] s1))"

definition paging_destroy_address_space :: "u64 \<Rightarrow> paging_state \<Rightarrow> paging_state" where
  "paging_destroy_address_space root s =
     (if root = 0 \<or> root = g_pml4 s then s
      else let T = pg_tables s;
          m = fold (\<lambda>i m. let entry = T root i in
                if entry AND PAGE_PRESENT = 0 then m
                else if g_pml4 s \<noteq> 0 \<and> entry = T (g_pml4 s) i then m
                else if entry AND PAGE_PAGE_SIZE \<noteq> 0 then m
                else free_pages (entry AND PAGE_TABLE_ADDR_MASK) 1
                       (destroy_table_tree 3 (entry AND PAGE_TABLE_ADDR_MASK) T m))
              [0..<PAGE_TABLE_ENTRIES] (pg_mem s)
      in s\<lparr>pg_mem := free_pages root 1 m\<rparr>)"

definition paging_map_user_range ::
  "u64 \<Rightarrow> u64 \<Rightarrow> u64 \<Rightarrow> u64 \<Rightarrow> bool \<Rightarrow> bool \<Rightarrow> paging_state \<Rightarrow> (bool \<times> paging_state) option" where
  "paging_map_user_range root virt_start phys_start bytes writable executable s =
     (let root_addr = root AND PAGE_TABLE_ADDR_MASK in
      if root_addr = 0 then Some (False, s)
      else do {
        (ok, s1) \<leftarrow> map_range_in_root root_addr virt_start phys_start bytes writable executable True s;
        if \<not> ok then Some (False, s1)
        else Some (True, if paging_current_root s1 = root_addr then load_cr3 root_addr s1 else s1) })"

end
