(* ===== verification/PagingTree.thy ===== *)
theory PagingTree
  imports Paging
begin

text \<open>
  Page tables as trees. \<open>table_at T R p\<close> is the table reached from the root \<open>R\<close> through the slots
  \<open>p\<close>, \<open>translate T R v\<close> is the processor's walk for the virtual address \<open>v\<close> (4 KiB, 2 MiB and
  1 GiB pages, with the rights of every level combined), and \<open>tree_ok\<close> says that the tables of a
  root are distinct pages outside the free memory whose entries have the form the code gives them.
  The lemmas \<open>link\<close> and \<open>leaf\<close> describe the two updates the code makes: hanging a fresh table on
  a slot, and writing a leaf.
\<close>

subsection \<open>Bits of an entry\<close>

lemma bit_flags [simp]:
  "bit PAGE_PRESENT n \<longleftrightarrow> n = 0" "bit PAGE_WRITABLE n \<longleftrightarrow> n = 1" "bit PAGE_USER n \<longleftrightarrow> n = 2"
  "bit PAGE_PAGE_SIZE n \<longleftrightarrow> n = 7" "bit PAGE_NX n \<longleftrightarrow> n = 63"
proof -
  have "PAGE_PRESENT = 2 ^ 0" "PAGE_WRITABLE = 2 ^ 1" "PAGE_USER = 2 ^ 2" "PAGE_PAGE_SIZE = 2 ^ 7"
    by (simp_all add: PAGE_PRESENT_def PAGE_WRITABLE_def PAGE_USER_def PAGE_PAGE_SIZE_def)
  note p = this
  show "bit PAGE_PRESENT n \<longleftrightarrow> n = 0" "bit PAGE_WRITABLE n \<longleftrightarrow> n = 1"
    "bit PAGE_USER n \<longleftrightarrow> n = 2" "bit PAGE_PAGE_SIZE n \<longleftrightarrow> n = 7"
    unfolding p bit_exp_iff by auto
  show "bit PAGE_NX n \<longleftrightarrow> n = 63"
    unfolding PAGE_NX_def bit_push_bit_iff bit_1_iff by auto
qed

lemma flag_tests [simp]:
  "e AND PAGE_PRESENT = 0 \<longleftrightarrow> \<not> bit e 0" "e AND PAGE_USER = 0 \<longleftrightarrow> \<not> bit e 2"
  "e AND PAGE_PAGE_SIZE = 0 \<longleftrightarrow> \<not> bit e 7"
proof -
  have "PAGE_PRESENT = 2 ^ 0" "PAGE_USER = 2 ^ 2" "PAGE_PAGE_SIZE = 2 ^ 7"
    by (simp_all add: PAGE_PRESENT_def PAGE_USER_def PAGE_PAGE_SIZE_def)
  note p = this
  show "e AND PAGE_PRESENT = 0 \<longleftrightarrow> \<not> bit e 0" "e AND PAGE_USER = 0 \<longleftrightarrow> \<not> bit e 2"
    "e AND PAGE_PAGE_SIZE = 0 \<longleftrightarrow> \<not> bit e 7"
    unfolding p by (simp_all only: and_exp_eq_0_iff_not_bit)
qed

lemma bit_addr_mask: "bit PAGE_TABLE_ADDR_MASK n \<longleftrightarrow> 12 \<le> n \<and> n < 64"
  "bit PAGE_2M_ADDR_MASK n \<longleftrightarrow> 21 \<le> n \<and> n < 64"
proof -
  have m: "(0xFFF :: u64) = mask 12" "(0x1FFFFF :: u64) = mask 21" by (simp_all add: mask_eq_exp_minus_1)
  show "bit PAGE_TABLE_ADDR_MASK n \<longleftrightarrow> 12 \<le> n \<and> n < 64"
    "bit PAGE_2M_ADDR_MASK n \<longleftrightarrow> 21 \<le> n \<and> n < 64"
    unfolding PAGE_TABLE_ADDR_MASK_def PAGE_2M_ADDR_MASK_def m by (auto simp: bit_not_iff bit_mask_iff)
qed

lemma bit_table_flags [simp]: "bit (table_flags u) n \<longleftrightarrow> n = 0 \<or> n = 1 \<or> (u \<and> n = 2)"
  by (auto simp: table_flags_def bit_simps)

lemma aligned_bits: "4096 dvd unat (a :: u64) \<longleftrightarrow> (\<forall>n < 12. \<not> bit a n)"
proof -
  have "4096 dvd unat a \<longleftrightarrow> take_bit 12 (unat a) = 0"
    by (simp add: take_bit_eq_mod mod_eq_0_iff_dvd)
  also have "\<dots> \<longleftrightarrow> (\<forall>n < 12. \<not> bit a n)"
    by (auto simp: bit_eq_iff bit_simps bit_unsigned_iff)
  finally show ?thesis .
qed

lemma low_bits: "unat (a :: u64) < 2 ^ 52 \<longleftrightarrow> (\<forall>n \<ge> 52. \<not> bit a n)"
proof -
  have "unat a < 2 ^ 52 \<longleftrightarrow> take_bit 52 (unat a) = unat a"
    by (rule take_bit_nat_eq_self_iff [symmetric])
  also have "\<dots> \<longleftrightarrow> take_bit 52 a = a"
    by (simp only: word_unat_eq_iff unsigned_take_bit_eq)
  also have "\<dots> \<longleftrightarrow> (\<forall>n \<ge> 52. \<not> bit a n)"
  proof
    assume "take_bit 52 a = a"
    then show "\<forall>n \<ge> 52. \<not> bit a n" by (metis bit_take_bit_iff not_less)
  next
    assume "\<forall>n \<ge> 52. \<not> bit a n"
    then show "take_bit 52 a = a"
      by (intro bit_word_eqI) (metis bit_take_bit_iff not_less)
  qed
  finally show ?thesis .
qed

text \<open>A page that can be a table: page-aligned, not the null page, below the physical limit.\<close>

definition page_ok :: "u64 \<Rightarrow> bool" where
  "page_ok a \<longleftrightarrow> a \<noteq> 0 \<and> 4096 dvd unat a \<and> unat a < 2 ^ 52"

lemma page_ok_bits: "page_ok a \<Longrightarrow> bit a n \<Longrightarrow> 12 \<le> n \<and> n < 52"
  unfolding page_ok_def aligned_bits low_bits by (meson not_less)

lemma table_entry_addr: "page_ok a \<Longrightarrow> (a OR table_flags u) AND PAGE_TABLE_ADDR_MASK = a"
  by (rule bit_word_eqI) (auto simp: bit_simps bit_addr_mask dest: page_ok_bits)

lemma table_entry_bits:
  assumes "page_ok a"
  shows "bit (a OR table_flags u) 0" "bit (a OR table_flags u) 1" "bit (a OR table_flags u) 2 = u"
    "\<not> bit (a OR table_flags u) 7" "\<not> bit (a OR table_flags u) 63"
  using page_ok_bits [OF assms, of 7] page_ok_bits [OF assms, of 63] page_ok_bits [OF assms, of 2]
  by (auto simp: bit_or_iff)

subsection \<open>The walk\<close>

definition is_table :: "u64 \<Rightarrow> bool" where
  "is_table e \<longleftrightarrow> bit e 0 \<and> \<not> bit e 7"

abbreviation child :: "u64 \<Rightarrow> u64" where
  "child e \<equiv> e AND PAGE_TABLE_ADDR_MASK"

fun table_at :: "tables \<Rightarrow> u64 \<Rightarrow> nat list \<Rightarrow> u64 option" where
  "table_at T t [] = Some t"
| "table_at T t (i # p) = (if i < 512 \<and> is_table (T t i) then table_at T (child (T t i)) p else None)"

record mapping =
  m_phys :: u64
  m_writable :: bool
  m_user :: bool
  m_exec :: bool

text \<open>The physical address an entry maps \<open>v\<close> to, with \<open>n\<close> levels of the walk left.\<close>

definition leaf_phys :: "nat \<Rightarrow> u64 \<Rightarrow> u64 \<Rightarrow> u64" where
  "leaf_phys n e v = (e AND (mask 52 AND NOT (mask (12 + 9 * n)))) OR (v AND mask (12 + 9 * n))"

definition entry_rights :: "u64 \<Rightarrow> mapping \<Rightarrow> mapping" where
  "entry_rights e m = m\<lparr>m_writable := bit e 1 \<and> m_writable m, m_user := bit e 2 \<and> m_user m,
     m_exec := \<not> bit e 63 \<and> m_exec m\<rparr>"

definition leaf_mapping :: "nat \<Rightarrow> u64 \<Rightarrow> u64 \<Rightarrow> mapping" where
  "leaf_mapping n e v = \<lparr>m_phys = leaf_phys n e v, m_writable = bit e 1, m_user = bit e 2,
     m_exec = (\<not> bit e 63)\<rparr>"

fun xlate :: "tables \<Rightarrow> u64 \<Rightarrow> nat list \<Rightarrow> u64 \<Rightarrow> mapping option" where
  "xlate T t [] v = None"
| "xlate T t (i # p) v =
     (if \<not> bit (T t i) 0 then None
      else if p = [] \<or> bit (T t i) 7 then Some (leaf_mapping (length p) (T t i) v)
      else map_option (entry_rights (T t i)) (xlate T (child (T t i)) p v))"

definition path :: "u64 \<Rightarrow> nat list" where
  "path v = [pml4_index v, pdpt_index v, pd_index v, pt_index v]"

definition translate :: "tables \<Rightarrow> u64 \<Rightarrow> u64 \<Rightarrow> mapping option" where
  "translate T R v = xlate T R (path v) v"

fun user_path :: "tables \<Rightarrow> u64 \<Rightarrow> nat list \<Rightarrow> bool" where
  "user_path T t [] = True"
| "user_path T t (i # p) = (bit (T t i) 2 \<and> user_path T (child (T t i)) p)"

lemma length_path [simp]: "length (path v) = 4"
  by (simp add: path_def)

lemma index_less [simp]: "unat (w AND 0x1FF :: u64) < 512"
proof -
  have "w AND 0x1FF = take_bit 9 w" by (simp add: take_bit_eq_mask mask_eq_exp_minus_1)
  then show ?thesis by (simp add: unsigned_take_bit_eq take_bit_nat_less_exp [of 9, simplified])
qed

lemma path_less: "i \<in> set (path v) \<Longrightarrow> i < 512"
  by (auto simp: path_def pml4_index_def pdpt_index_def pd_index_def pt_index_def)

subsection \<open>What a walk depends on\<close>

lemma table_at_append:
  "table_at T t (p @ q) = (case table_at T t p of None \<Rightarrow> None | Some u \<Rightarrow> table_at T u q)"
  by (induction p arbitrary: t) auto

lemma table_at_cong:
  assumes "\<And>p j q u. r = p @ j # q \<Longrightarrow> table_at T t p = Some u \<Longrightarrow> T' u j = T u j"
  shows "table_at T' t r = table_at T t r"
  using assms
proof (induction r arbitrary: t)
  case Nil
  then show ?case by simp
next
  case (Cons i r)
  have "T' t i = T t i" using Cons.prems [of "[]" i r t] by simp
  moreover have "T' u j = T u j" if "i < 512" "is_table (T t i)" "r = p @ j # q"
    "table_at T (child (T t i)) p = Some u" for p j q u
    using Cons.prems [of "i # p" j q u] that by simp
  ultimately show ?case using Cons.IH [of "child (T t i)"] by simp
qed

lemma user_path_cong:
  assumes "\<And>p j q u. r = p @ j # q \<Longrightarrow> table_at T t p = Some u \<Longrightarrow> T' u j = T u j"
    and "table_at T t r = Some w"
  shows "user_path T' t r = user_path T t r"
  using assms
proof (induction r arbitrary: t)
  case Nil
  then show ?case by simp
next
  case (Cons i r)
  have "T' t i = T t i" using Cons.prems(1) [of "[]" i r t] by simp
  moreover have "T' u j = T u j" if "r = p @ j # q"
    "table_at T (child (T t i)) p = Some u" for p j q u
    using Cons.prems(1) [of "i # p" j q u] Cons.prems(2) that by (simp split: if_splits)
  ultimately show ?case using Cons.IH [of "child (T t i)"] Cons.prems(2) by (simp split: if_splits)
qed

lemma xlate_cong:
  assumes "\<And>p j q u. r = p @ j # q \<Longrightarrow> table_at T t p = Some u \<Longrightarrow> T' u j = T u j"
    and "\<And>i. i \<in> set r \<Longrightarrow> i < 512"
  shows "xlate T' t r v = xlate T t r v"
  using assms
proof (induction r arbitrary: t)
  case Nil
  then show ?case by simp
next
  case (Cons i r)
  have here: "T' t i = T t i" using Cons.prems(1) [of "[]" i r t] by simp
  have "xlate T' (child (T t i)) r v = xlate T (child (T t i)) r v" if "is_table (T t i)"
  proof (rule Cons.IH)
    show "T' u j = T u j" if "r = p @ j # q" "table_at T (child (T t i)) p = Some u" for p j q u
      using Cons.prems(1) [of "i # p" j q u] Cons.prems(2) [of i] that \<open>is_table (T t i)\<close> by simp
    show "k < 512" if "k \<in> set r" for k using Cons.prems(2) that by simp
  qed
  then show ?case using here by (simp add: is_table_def)
qed


subsection \<open>Well-formed trees\<close>

text \<open>
  An entry above the last level is empty, a table entry as the code makes it, or, in a page
  directory (\<open>n = 2\<close>), a 2 MiB page.
\<close>

definition entry_ok :: "nat \<Rightarrow> u64 \<Rightarrow> bool" where
  "entry_ok n e \<longleftrightarrow> e = 0 \<or> bit e 0 \<and>
     (if bit e 7 then n = 2 else \<exists>a u. page_ok a \<and> e = a OR table_flags u)"

definition tree_ok :: "nat set \<Rightarrow> tables \<Rightarrow> u64 \<Rightarrow> bool" where
  "tree_ok F T R \<longleftrightarrow>
     (\<forall>p t. length p \<le> 3 \<longrightarrow> table_at T R p = Some t \<longrightarrow> page_ok t \<and> block_set t 1 \<inter> F = {}) \<and>
     (\<forall>p q t. length p \<le> 3 \<longrightarrow> length q \<le> 3 \<longrightarrow> table_at T R p = Some t \<longrightarrow> table_at T R q = Some t
        \<longrightarrow> p = q) \<and>
     (\<forall>p t i. length p \<le> 2 \<longrightarrow> table_at T R p = Some t \<longrightarrow> i < 512 \<longrightarrow> entry_ok (length p) (T t i))"

lemma tree_page: "tree_ok F T R \<Longrightarrow> length p \<le> 3 \<Longrightarrow> table_at T R p = Some t \<Longrightarrow> page_ok t"
  by (simp add: tree_ok_def)

lemma tree_held: "tree_ok F T R \<Longrightarrow> length p \<le> 3 \<Longrightarrow> table_at T R p = Some t \<Longrightarrow> block_set t 1 \<inter> F = {}"
  unfolding tree_ok_def by blast

lemma tree_inj: "tree_ok F T R \<Longrightarrow> length p \<le> 3 \<Longrightarrow> length q \<le> 3 \<Longrightarrow>
    table_at T R p = Some t \<Longrightarrow> table_at T R q = Some t \<Longrightarrow> p = q"
  unfolding tree_ok_def by blast

lemma tree_entry: "tree_ok F T R \<Longrightarrow> length p \<le> 2 \<Longrightarrow> table_at T R p = Some t \<Longrightarrow> i < 512 \<Longrightarrow>
    entry_ok (length p) (T t i)"
  unfolding tree_ok_def by blast

lemma tree_fresh:
  assumes "tree_ok F T R" and "length p \<le> 3" and "block_set c 1 \<subseteq> F"
  shows "table_at T R p \<noteq> Some c"
proof
  assume "table_at T R p = Some c"
  then have "block_set c 1 \<inter> F = {}" by (rule tree_held [OF assms(1,2)])
  moreover have "unat c \<in> block_set c 1" by (simp add: block_set_def)
  ultimately show False using assms(3) by blast
qed

lemma entry_ok_table:
  assumes "entry_ok n e" and "is_table e"
  shows "page_ok (child e)" "bit e 1" "\<not> bit e 63"
proof -
  obtain a u where "page_ok a" "e = a OR table_flags u"
    using assms by (auto simp: entry_ok_def is_table_def split: if_splits)
  then show "page_ok (child e)" "bit e 1" "\<not> bit e 63"
    by (simp_all only: table_entry_addr table_entry_bits not_False_eq_True)
qed

lemma is_table_new [simp]: "page_ok a \<Longrightarrow> is_table (a OR table_flags u)"
  by (simp add: is_table_def table_entry_bits)

text \<open>Below a chain of tables the walk continues with the last one, with user rights only if
  every entry of the chain grants them.\<close>

definition with_user :: "bool \<Rightarrow> mapping \<Rightarrow> mapping" where
  "with_user u m = m\<lparr>m_user := u \<and> m_user m\<rparr>"

lemma with_user_simps [simp]: "with_user True m = m" "with_user u (with_user w m) = with_user (u \<and> w) m"
  by (simp_all add: with_user_def)

lemma xlate_through:
  assumes "tree_ok F T R" and "length p + length q \<le> 3" and "table_at T R q = Some t"
    and "table_at T t p = Some w" and "js \<noteq> []"
  shows "xlate T t (p @ js) v = map_option (with_user (user_path T t p)) (xlate T w js v)"
  using assms(2-4)
proof (induction p arbitrary: q t)
  case Nil
  then show ?case by (simp add: option.map_ident)
next
  case (Cons i p)
  let ?e = "T t i"
  have i: "i < 512" and tab: "is_table ?e" and w: "table_at T (child ?e) p = Some w"
    using Cons.prems(3) by (auto split: if_splits)
  have ok: "entry_ok (length q) ?e"
    using tree_entry [OF assms(1) _ Cons.prems(2) i] Cons.prems(1) by simp
  have "table_at T R (q @ [i]) = Some (child ?e)"
    using Cons.prems(2) i tab by (simp add: table_at_append)
  then have IH: "xlate T (child ?e) (p @ js) v =
      map_option (with_user (user_path T (child ?e) p)) (xlate T w js v)"
    using Cons.IH [of "q @ [i]"] Cons.prems(1) w by simp
  have "entry_rights ?e m = with_user (bit ?e 2) m" for m
    using entry_ok_table(2,3) [OF ok tab] by (simp add: entry_rights_def with_user_def)
  then show ?case
    using tab assms(5) by (auto simp: is_table_def IH option.map_comp comp_def)
qed

corollary xlate_below:
  assumes "tree_ok F T R" and "length p \<le> 3" and "table_at T R p = Some w" and "js \<noteq> []"
  shows "xlate T R (p @ js) v = map_option (with_user (user_path T R p)) (xlate T w js v)"
  using xlate_through [OF assms(1), of p "[]" R w js v] assms by simp

subsection \<open>Writing one entry\<close>

text \<open>
  \<open>T'\<close> is \<open>T\<close> with entry \<open>i\<close> of the table at \<open>p\<close> changed, and any change to tables outside the
  tree. Walks that do not use the slot are unchanged.
\<close>

definition same_but :: "u64 set \<Rightarrow> u64 \<Rightarrow> nat \<Rightarrow> tables \<Rightarrow> tables \<Rightarrow> bool" where
  "same_but N t i T T' \<longleftrightarrow> (\<forall>u j. u \<notin> N \<longrightarrow> (u, j) \<noteq> (t, i) \<longrightarrow> T' u j = T u j)"

lemma off_path_cong:
  assumes ok: "tree_ok F T R" and p: "length p \<le> 3" "table_at T R p = Some t"
    and same: "same_but N t i T T'" and new: "\<And>q w. length q \<le> 3 \<Longrightarrow> table_at T R q = Some w \<Longrightarrow> w \<notin> N"
    and r: "length r \<le> 4" "\<And>q. r \<noteq> p @ i # q" and split: "r = q1 @ j # q2" "table_at T R q1 = Some u"
  shows "T' u j = T u j"
proof -
  have len: "length q1 \<le> 3" using r(1) split(1) by simp
  have "u \<notin> N" using new [OF len split(2)] .
  moreover have "(u, j) \<noteq> (t, i)"
    using tree_inj [OF ok len p(1) _ p(2)] r(2) split by auto
  ultimately show ?thesis using same by (simp add: same_but_def)
qed

lemma table_at_off_path:
  assumes "tree_ok F T R" and "length p \<le> 3" and "table_at T R p = Some t"
    and "same_but N t i T T'" and "\<And>q w. length q \<le> 3 \<Longrightarrow> table_at T R q = Some w \<Longrightarrow> w \<notin> N"
    and "length r \<le> 4" and "\<And>q. r \<noteq> p @ i # q"
  shows "table_at T' R r = table_at T R r"
  by (rule table_at_cong) (rule off_path_cong [OF assms])

lemma xlate_off_path:
  assumes "tree_ok F T R" and "length p \<le> 3" and "table_at T R p = Some t"
    and "same_but N t i T T'" and "\<And>q w. length q \<le> 3 \<Longrightarrow> table_at T R q = Some w \<Longrightarrow> w \<notin> N"
    and "\<And>q. path v \<noteq> p @ i # q"
  shows "translate T' R v = translate T R v"
proof -
  have "length (path v) \<le> 4" by simp
  then show ?thesis
    unfolding translate_def
    by (intro xlate_cong) (rule off_path_cong [OF assms(1-5) _ assms(6)], assumption+, rule path_less)
qed

subsection \<open>Hanging a fresh table on a slot\<close>

text \<open>The situation after \<open>get_or_create_table\<close> or \<open>split_large_page\<close> made a table \<open>c\<close>.\<close>

definition linked ::
  "nat set \<Rightarrow> tables \<Rightarrow> u64 \<Rightarrow> nat list \<Rightarrow> u64 \<Rightarrow> nat \<Rightarrow> u64 \<Rightarrow> bool \<Rightarrow> tables \<Rightarrow> bool" where
  "linked F T R p t i c u T' \<longleftrightarrow>
     tree_ok F T R \<and> length p \<le> 2 \<and> table_at T R p = Some t \<and> i < 512 \<and> \<not> is_table (T t i) \<and>
     page_ok c \<and> block_set c 1 \<subseteq> F \<and> T' t i = c OR table_flags u \<and>
     (length p < 2 \<longrightarrow> (\<forall>j. T' c j = 0)) \<and> same_but {c} t i T T'"

lemma linkedD:
  assumes "linked F T R p t i c u T'"
  shows "tree_ok F T R" "length p \<le> 2" "table_at T R p = Some t" "i < 512" "\<not> is_table (T t i)"
    "page_ok c" "block_set c 1 \<subseteq> F" "T' t i = c OR table_flags u"
    "length p < 2 \<Longrightarrow> T' c j = 0" "same_but {c} t i T T'" "length p \<le> 3"
  using assms by (simp_all add: linked_def)

lemma linked_not_new:
  assumes "linked F T R p t i c u T'" and "length q \<le> 3" and "table_at T R q = Some w"
  shows "w \<notin> {c}"
  using tree_fresh [OF linkedD(1) [OF assms(1)] assms(2) linkedD(7) [OF assms(1)]] assms(3) by auto

lemma linked_at_off:
  assumes "linked F T R p t i c u T'" and "length q \<le> 3" and "\<And>r. q \<noteq> p @ i # r"
  shows "table_at T' R q = table_at T R q"
  by (rule table_at_off_path [OF linkedD(1,11,3,10) [OF assms(1)] linked_not_new [OF assms(1)] _ assms(3)])
    (use assms(2) in auto)

lemma linked_at_new:
  assumes "linked F T R p t i c u T'"
  shows "table_at T' R p = Some t" and "table_at T' R (p @ [i]) = Some c"
proof -
  note L = linkedD [OF assms]
  show "table_at T' R p = Some t"
    using linked_at_off [OF assms L(11)] L(3) by simp
  then show "table_at T' R (p @ [i]) = Some c"
    using L(4,6) by (simp add: table_at_append L(8) table_entry_addr)
qed

lemma linked_table_at_iff:
  assumes "linked F T R p t i c u T'" and "length q \<le> 3"
  shows "table_at T' R q = Some w \<longleftrightarrow> (q = p @ [i] \<and> w = c) \<or> table_at T R q = Some w"
proof (cases "\<exists>r. q = p @ i # r")
  case False
  then show ?thesis using linked_at_off [OF assms] by auto
next
  case True
  note L = linkedD [OF assms(1)]
  obtain r where r: "q = p @ i # r" using True by blast
  have none: "table_at T R q = None"
    using L(3,5) r by (simp add: table_at_append)
  show ?thesis
  proof (cases r)
    case Nil
    then show ?thesis using r none linked_at_new(2) [OF assms(1)] by auto
  next
    case (Cons k r')
    then have "T' c k = 0" using L(9) r assms(2) by simp
    then have "table_at T' R ((p @ [i]) @ k # r') = None"
      by (subst table_at_append) (simp add: linked_at_new(2) [OF assms(1)] is_table_def)
    then show ?thesis using r none Cons by simp
  qed
qed

lemma linked_tree:
  assumes link: "linked F T R p t i c u T'"
  shows "tree_ok (F - block_set c 1) T' R"
  unfolding tree_ok_def
proof (intro conjI allI impI)
  note L = linkedD [OF link] and iff = linked_table_at_iff [OF link]
  fix q w
  assume q: "length q \<le> 3" "table_at T' R q = Some w"
  show "page_ok w"
    using q iff L(6) tree_page [OF L(1)] by auto
  show "block_set w 1 \<inter> (F - block_set c 1) = {}"
    using q iff tree_held [OF L(1) q(1), of w] by auto
next
  note L = linkedD [OF link] and iff = linked_table_at_iff [OF link]
  fix q q' w
  assume q: "length q \<le> 3" "length q' \<le> 3" "table_at T' R q = Some w" "table_at T' R q' = Some w"
  show "q = q'"
  proof (cases "w = c")
    case True
    then have "table_at T R q \<noteq> Some w" "table_at T R q' \<noteq> Some w"
      using q linked_not_new [OF link] by auto
    then show ?thesis using q iff by simp
  next
    case False
    then show ?thesis using q iff tree_inj [OF L(1) q(1,2)] by simp
  qed
next
  note L = linkedD [OF link] and iff = linked_table_at_iff [OF link]
  fix q w and j :: nat
  assume q: "length q \<le> 2" "table_at T' R q = Some w" "j < 512"
  consider "q = p @ [i]" "w = c" | "table_at T R q = Some w"
    using q iff [of q w] by auto
  then show "entry_ok (length q) (T' w j)"
  proof cases
    case 1
    then show ?thesis using q(1) L(9) by (simp add: entry_ok_def)
  next
    case 2
    then have w: "w \<noteq> c" using linked_not_new [OF link, of q w] q(1) by simp
    show ?thesis
    proof (cases "(w, j) = (t, i)")
      case True
      then show ?thesis using L(6,8) table_entry_bits [OF L(6), of u] by (auto simp: entry_ok_def)
    next
      case False
      then have "T' w j = T w j" using L(10) w by (auto simp: same_but_def)
      then show ?thesis
        using tree_entry [OF L(1) q(1) 2 q(3)] by simp
    qed
  qed
qed

lemma linked_user_path:
  assumes link: "linked F T R p t i c u T'"
  shows "length q \<le> 3 \<Longrightarrow> table_at T R q = Some w \<Longrightarrow> user_path T' R q = user_path T R q"
    and "user_path T' R (p @ [i]) \<longleftrightarrow> user_path T R p \<and> u"
proof -
  note L = linkedD [OF link]
  show same: "user_path T' R q = user_path T R q" if q: "length q \<le> 3" "table_at T R q = Some w" for q w
  proof (rule user_path_cong [OF _ q(2)])
    have "q \<noteq> p @ i # r" for r
      using q(2) L(3,5) by (auto simp: table_at_append)
    moreover have "length q \<le> 4" using q(1) by simp
    ultimately show "T' x j = T x j" if "q = q1 @ j # q2" "table_at T R q1 = Some x" for q1 j q2 x
      by (intro off_path_cong [OF L(1,11,3,10) _ _ _ that]) (rule linked_not_new [OF link])
  qed
  have snoc: "user_path S x (p @ [i]) \<longleftrightarrow> user_path S x p \<and> bit (S w i) 2"
    if "table_at S x p = Some w" for S x w
    using that by (induction p arbitrary: x) (auto split: if_splits)
  show "user_path T' R (p @ [i]) \<longleftrightarrow> user_path T R p \<and> u"
    using snoc [OF linked_at_new(1) [OF link]] same [OF L(11,3)]
    by (simp add: L(8) table_entry_bits [OF L(6)])
qed

lemma linked_translate_off:
  assumes "linked F T R p t i c u T'" and "\<And>q. path v \<noteq> p @ i # q"
  shows "translate T' R v = translate T R v"
  using xlate_off_path [OF linkedD(1,11,3,10) [OF assms(1)] linked_not_new [OF assms(1)] assms(2)] .

lemma linked_translate_via:
  assumes "linked F T R p t i c u T'" and "path v = p @ i # q" and "q \<noteq> []"
  shows "translate T' R v = map_option (with_user (user_path T R p \<and> u)) (xlate T' c q v)"
  using xlate_below [OF linked_tree [OF assms(1)] _ linked_at_new(2) [OF assms(1)] assms(3), of v]
    assms(2) linkedD(2) [OF assms(1)] linked_user_path(2) [OF assms(1)]
  by (simp add: translate_def)

lemma linked_translate_empty:
  assumes link: "linked F T R p t i c u T'" and z: "T t i = 0" "\<And>j. T' c j = 0"
  shows "translate T' R v = translate T R v"
proof (cases "\<exists>q. path v = p @ i # q")
  case True
  note L = linkedD [OF link]
  obtain q where q: "path v = p @ i # q" using True by blast
  have ne: "q \<noteq> []" using arg_cong [OF q, of length] L(2) by auto
  have "xlate T' c q v = None" using z(2) by (cases q) auto
  then have "translate T' R v = None" using linked_translate_via [OF link q ne] by simp
  moreover have "translate T R v = None"
    using xlate_below [OF L(1,11,3), of "i # q" v] q z(1) by (simp add: translate_def)
  ultimately show ?thesis by simp
qed (use linked_translate_off [OF link] in blast)

subsection \<open>Writing a leaf\<close>

lemma leaf_tree:
  assumes tree: "tree_ok F T R" and p: "length p \<le> 3" and at: "table_at T R p = Some t"
    and same: "same_but {} t i T T'"
    and mid: "length p \<le> 2 \<Longrightarrow> \<not> is_table (T t i) \<and> \<not> is_table (T' t i) \<and> entry_ok (length p) (T' t i)"
  shows "length q \<le> 3 \<Longrightarrow> table_at T' R q = table_at T R q" and "tree_ok F T' R"
proof -
  show at': "table_at T' R q = table_at T R q" if q: "length q \<le> 3" for q
  proof (cases "\<exists>r. q = p @ i # r")
    case False
    then show ?thesis using table_at_off_path [OF tree p at same] q by simp
  next
    case True
    then obtain r where r: "q = p @ i # r" by blast
    then have two: "length p \<le> 2" using q by simp
    have "table_at T' R p = Some t"
      using table_at_off_path [OF tree p at same, of p] p at by simp
    then show ?thesis using r at mid [OF two] by (simp add: table_at_append)
  qed
  show "tree_ok F T' R"
    unfolding tree_ok_def
  proof (intro conjI allI impI)
    fix q w and j :: nat
    assume q: "length q \<le> 2" "table_at T' R q = Some w" "j < 512"
    then have w: "table_at T R q = Some w" using at' [of q] by simp
    show "entry_ok (length q) (T' w j)"
    proof (cases "(w, j) = (t, i)")
      case True
      then have "p = q" using tree_inj [OF tree p _ at, of q] w q(1) by simp
      then show ?thesis using True mid q(1) by simp
    next
      case False
      then show ?thesis using same tree_entry [OF tree q(1) w q(3)] by (simp add: same_but_def)
    qed
  qed (use at' tree_page [OF tree] tree_held [OF tree] tree_inj [OF tree] in simp_all)
qed

end
