(* ===== verification/PagingMap.thy ===== *)
theory PagingMap
  imports PagingTree
begin

text \<open>
  What the mapping operations of \<open>src/kernel/paging.c\<close> do to a well-formed tree: creating tables
  and splitting large pages leaves every translation as it was, writing a leaf changes the
  translation of one page, and a run in user mode never touches a table that is reached through a
  supervisor-only entry.
\<close>

subsection \<open>The state of a tree\<close>

definition avail :: "paging_state \<Rightarrow> nat set" where
  "avail s = free_set (g_free_ranges (pg_mem s))"

definition pages_ok :: "paging_state \<Rightarrow> bool" where
  "pages_ok s \<longleftrightarrow> mem_inv (pg_mem s) \<and> avail s \<subseteq> {..<2 ^ 52}"

text \<open>
  \<open>X\<close> is a set of tables that user-mode mapping must not touch: no chain of user-accessible
  entries reaches one. A user-accessible directory holds no large page.
\<close>

definition guarded :: "bool \<Rightarrow> u64 set \<Rightarrow> tables \<Rightarrow> u64 \<Rightarrow> bool" where
  "guarded u X T R \<longleftrightarrow>
     (\<forall>p t. length p \<le> 3 \<longrightarrow> table_at T R p = Some t \<longrightarrow> user_path T R p \<longrightarrow> t \<notin> X) \<and>
     (u \<longrightarrow> (\<forall>p t i. length p = 2 \<longrightarrow> table_at T R p = Some t \<longrightarrow> user_path T R p \<longrightarrow> i < 512 \<longrightarrow>
        \<not> bit (T t i) 7))"

definition space_ok :: "bool \<Rightarrow> u64 set \<Rightarrow> u64 \<Rightarrow> paging_state \<Rightarrow> bool" where
  "space_ok u X R s \<longleftrightarrow> pages_ok s \<and> tree_ok (avail s) (pg_tables s) R \<and> guarded u X (pg_tables s) R \<and>
     (\<forall>t \<in> X. block_set t 1 \<inter> avail s = {}) \<and> (X \<noteq> {} \<longrightarrow> u)"

definition spans :: "tables \<Rightarrow> u64 \<Rightarrow> nat set" where
  "spans T R = (\<Union>t \<in> {t. \<exists>p. length p \<le> 3 \<and> table_at T R p = Some t}. block_set t 1)"

definition steps :: "bool \<Rightarrow> u64 set \<Rightarrow> u64 \<Rightarrow> paging_state \<Rightarrow> paging_state \<Rightarrow> bool" where
  "steps u X R s s' \<longleftrightarrow> space_ok u X R s' \<and> avail s' \<subseteq> avail s \<and>
     (\<forall>t \<in> X. pg_tables s' t = pg_tables s t) \<and>
     (\<forall>p t. length p \<le> 3 \<longrightarrow> table_at (pg_tables s) R p = Some t \<longrightarrow>
        table_at (pg_tables s') R p = Some t \<and>
        user_path (pg_tables s') R p = user_path (pg_tables s) R p) \<and>
     spans (pg_tables s') R = spans (pg_tables s) R \<union> (avail s - avail s') \<and>
     (\<forall>i < 512. pg_tables s' R i = pg_tables s R i \<or> pg_tables s R i = 0 \<and> bit (pg_tables s' R i) 2 = u) \<and>
     g_pml4 s' = g_pml4 s \<and> cr3 s' = cr3 s \<and> cr0 s' = cr0 s \<and> efer s' = efer s \<and>
     g_memory_ready (pg_mem s') = g_memory_ready (pg_mem s)"

definition same_walks :: "u64 \<Rightarrow> paging_state \<Rightarrow> paging_state \<Rightarrow> bool" where
  "same_walks R s s' \<longleftrightarrow> (\<forall>v. translate (pg_tables s') R v = translate (pg_tables s) R v)"

lemma space_okD:
  assumes "space_ok u X R s"
  shows "mem_inv (pg_mem s)" "avail s \<subseteq> {..<2 ^ 52}" "tree_ok (avail s) (pg_tables s) R"
    "guarded u X (pg_tables s) R" "t \<in> X \<Longrightarrow> block_set t 1 \<inter> avail s = {}" "X \<noteq> {} \<Longrightarrow> u"
  using assms by (auto simp: space_ok_def pages_ok_def)

lemma guardedD:
  "guarded u X T R \<Longrightarrow> length p \<le> 3 \<Longrightarrow> table_at T R p = Some t \<Longrightarrow> user_path T R p \<Longrightarrow> t \<notin> X"
  by (simp add: guarded_def)

lemma stepsD:
  assumes "steps u X R s s'"
  shows "space_ok u X R s'" "avail s' \<subseteq> avail s" "t \<in> X \<Longrightarrow> pg_tables s' t = pg_tables s t"
    "length p \<le> 3 \<Longrightarrow> table_at (pg_tables s) R p = Some t \<Longrightarrow> table_at (pg_tables s') R p = Some t"
    "length p \<le> 3 \<Longrightarrow> table_at (pg_tables s) R p = Some t \<Longrightarrow>
       user_path (pg_tables s') R p = user_path (pg_tables s) R p"
    "spans (pg_tables s') R = spans (pg_tables s) R \<union> (avail s - avail s')"
    "g_pml4 s' = g_pml4 s" "cr3 s' = cr3 s"
  using assms by (auto simp: steps_def)

lemma steps_refl: "space_ok u X R s \<Longrightarrow> steps u X R s s"
  by (auto simp: steps_def)

lemma steps_trans:
  assumes "steps u X R s1 s2" and "steps u X R s2 s3"
  shows "steps u X R s1 s3"
proof -
  have "pg_tables s3 R i = pg_tables s1 R i \<or> pg_tables s1 R i = 0 \<and> bit (pg_tables s3 R i) 2 = u"
    if "i < 512" for i
  proof -
    have "pg_tables s2 R i = pg_tables s1 R i \<or> pg_tables s1 R i = 0 \<and> bit (pg_tables s2 R i) 2 = u"
      "pg_tables s3 R i = pg_tables s2 R i \<or> pg_tables s2 R i = 0 \<and> bit (pg_tables s3 R i) 2 = u"
      using assms that by (simp_all add: steps_def)
    then show ?thesis by auto
  qed
  moreover have "spans (pg_tables s3) R = spans (pg_tables s1) R \<union> (avail s1 - avail s3)"
    using stepsD(2,6) [OF assms(1)] stepsD(2,6) [OF assms(2)] by blast
  ultimately show ?thesis
    using assms unfolding steps_def by (simp add: subset_trans) (metis subset_trans)
qed

lemma same_walks_trans: "same_walks R s1 s2 \<Longrightarrow> same_walks R s2 s3 \<Longrightarrow> same_walks R s1 s3"
  by (simp add: same_walks_def)

lemma same_walks_refl [simp]: "same_walks R s s"
  by (simp add: same_walks_def)

subsection \<open>A fresh table\<close>

lemma alloc_page_table_cases:
  assumes "pages_ok s" and "alloc_page_table s = (c, s1)"
  shows "c = 0 \<Longrightarrow> s1 = s"
    and "c \<noteq> 0 \<Longrightarrow> page_ok c \<and> block_set c 1 \<subseteq> avail s \<and> avail s1 = avail s - block_set c 1 \<and>
      pages_ok s1 \<and> g_memory_ready (pg_mem s1) = g_memory_ready (pg_mem s) \<and>
      pg_tables s1 = (pg_tables s)(c := (\<lambda>_. 0)) \<and> g_pml4 s1 = g_pml4 s \<and> cr3 s1 = cr3 s \<and>
      cr0 s1 = cr0 s \<and> efer s1 = efer s"
proof -
  obtain p m where pm: "alloc_pages 1 (pg_mem s) = (p, m)" by fastforce
  have inv: "mem_inv (pg_mem s)" and low: "avail s \<subseteq> {..<2 ^ 52}"
    using assms(1) by (auto simp: pages_ok_def)
  show "s1 = s" if "c = 0"
    using that assms(2) pm alloc_pages_none [OF inv] by (auto simp: alloc_page_table_def Let_def split: if_splits)
  assume c: "c \<noteq> 0"
  then have p: "p = c" and s1: "s1 = s\<lparr>pg_mem := m, pg_tables := (pg_tables s)(c := (\<lambda>_. 0))\<rparr>"
    using assms(2) pm by (auto simp: alloc_page_table_def Let_def split: if_splits)
  note pm' = pm [unfolded p] 
  note a = pages.alloc_block [OF inv pm' c] pages.alloc_avail [OF inv pm' c]
    pages.alloc_takes [OF inv pm' c] pages.alloc_inv [OF inv pm' c]
  have "unat c \<in> block_set c 1" by (simp add: block_set_def)
  then have "unat c < 2 ^ 52" using a(2) low by (auto simp: avail_def)
  moreover have "4096 dvd unat c" using a(1) by (simp add: block_ok_def range_ok_def lo_def)
  ultimately have "page_ok c" using c by (simp add: page_ok_def)
  moreover have "g_memory_ready m = g_memory_ready (pg_mem s)"
    using alloc_pages_some(5) [OF inv pm' c] .
  ultimately show "page_ok c \<and> block_set c 1 \<subseteq> avail s \<and> avail s1 = avail s - block_set c 1 \<and>
      pages_ok s1 \<and> g_memory_ready (pg_mem s1) = g_memory_ready (pg_mem s) \<and>
      pg_tables s1 = (pg_tables s)(c := (\<lambda>_. 0)) \<and> g_pml4 s1 = g_pml4 s \<and> cr3 s1 = cr3 s \<and>
      cr0 s1 = cr0 s \<and> efer s1 = efer s"
    using a low by (auto simp: s1 pages_ok_def avail_def)
qed

lemma linked_spans:
  assumes "linked F T R p t i c u T'"
  shows "spans T' R = spans T R \<union> block_set c 1"
proof -
  have "length (p @ [i]) \<le> 3" using linkedD(2) [OF assms] by simp
  then have "{w. \<exists>q. length q \<le> 3 \<and> table_at T' R q = Some w} =
      insert c {w. \<exists>q. length q \<le> 3 \<and> table_at T R q = Some w}"
    using linked_table_at_iff [OF assms] by (auto intro: exI [of _ "p @ [i]"])
  then show ?thesis by (auto simp: spans_def)
qed

text \<open>Hanging the page on a slot of the tree is a step.\<close>

lemma linked_steps:
  assumes ok: "space_ok u X R s" and a: "alloc_page_table s = (c, s1)" "c \<noteq> 0"
    and link: "linked (avail s) (pg_tables s) R p t i c w T'" and t: "t \<notin> X"
    and w: "p = [] \<Longrightarrow> w = u" and large: "u \<Longrightarrow> length p = 1 \<Longrightarrow> \<forall>j. T' c j = 0"
  shows "steps u X R s (s1\<lparr>pg_tables := T'\<rparr>)"
proof -
  let ?s = "s1\<lparr>pg_tables := T'\<rparr>" and ?T = "pg_tables s"
  note D = space_okD [OF ok] and L = linkedD [OF link] and iff = linked_table_at_iff [OF link]
  have "pages_ok s" using ok by (simp add: space_ok_def)
  note A = alloc_page_table_cases(2) [OF this a]
  have av: "avail ?s = avail s - block_set c 1" and regs: "g_pml4 ?s = g_pml4 s" "cr3 ?s = cr3 s"
      "cr0 ?s = cr0 s" "efer ?s = efer s" "g_memory_ready (pg_mem ?s) = g_memory_ready (pg_mem s)"
    and po: "pages_ok ?s"
    using A by (auto simp: avail_def pages_ok_def)
  have "unat c \<in> block_set c 1" by (simp add: block_set_def)
  then have cX: "c \<notin> X" using D(5) [of c] L(7) by blast
  have up: "user_path T' R q = user_path ?T R q" if "length q \<le> 3" "table_at ?T R q = Some x" for q x
    using linked_user_path(1) [OF link that] .
  have guard: "guarded u X T' R"
    unfolding guarded_def
  proof (intro conjI allI impI notI)
    fix q x
    assume q: "length q \<le> 3" "table_at T' R q = Some x" "user_path T' R q" "x \<in> X"
    then show False
      using iff [of q x] cX up [of q x] D(4) by (auto simp: guarded_def)
  next
    fix q x j
    assume q: "u" "length q = 2" "table_at T' R q = Some x" "user_path T' R q" "j < 512" "bit (T' x j) 7"
    have len: "length q \<le> 3" using q(2) by simp
    consider "q = p @ [i]" "x = c" | "table_at ?T R q = Some x"
      using iff [OF len, of x] q(3) by blast
    then show False
    proof cases
      case 1
      then show ?thesis using q large by simp
    next
      case 2
      have "x \<noteq> c" using linked_not_new [OF link len 2] by simp
      have old: "\<not> bit (?T x j) 7"
        using D(4) 2 q up [OF len 2] by (simp add: guarded_def)
      show ?thesis
      proof (cases "(x, j) = (t, i)")
        case True
        then show ?thesis using q(6) L(8) table_entry_bits(4) [OF L(6)] by simp
      next
        case False
        then show ?thesis using L(10) \<open>x \<noteq> c\<close> old q(6) by (auto simp: same_but_def)
      qed
    qed
  qed
  have same: "T' x = ?T x" if "x \<in> X" for x
    by (rule ext) (use L(10) that cX t in \<open>auto simp: same_but_def\<close>)
  have root: "T' R j = ?T R j \<or> ?T R j = 0 \<and> bit (T' R j) 2 = u" if "j < 512" for j
  proof (cases "(R, j) = (t, i)")
    case True
    then have p: "p = []" using tree_inj [OF L(1,11) _ L(3), of "[]"] by simp
    have "entry_ok 0 (?T t i)" using tree_entry [OF L(1,2,3,4)] p by simp
    then have "?T t i = 0" using L(5) by (auto simp: entry_ok_def is_table_def split: if_splits)
    then show ?thesis using True L(8) table_entry_bits(3) [OF L(6)] w p by simp
  next
    case False
    have "R \<noteq> c" using linked_not_new [OF link, of "[]" R] by simp
    then show ?thesis using L(10) False by (auto simp: same_but_def)
  qed
  have "space_ok u X R ?s"
    using po av D(5,6) guard linked_tree [OF link] by (auto simp: space_ok_def)
  moreover have "spans T' R = spans ?T R \<union> (avail s - avail ?s)"
    using linked_spans [OF link] L(7) av by auto
  ultimately show ?thesis
    unfolding steps_def using av regs same root iff up by auto
qed

subsection \<open>Creating the tables of a walk\<close>

text \<open>What a step that looks for the table below slot \<open>i\<close> of the one at \<open>p\<close> delivers.\<close>

definition new_on :: "nat list \<Rightarrow> u64 \<Rightarrow> paging_state \<Rightarrow> paging_state \<Rightarrow> bool" where
  "new_on p R s s' \<longleftrightarrow> (\<forall>q w. length q \<le> 3 \<longrightarrow> table_at (pg_tables s') R q = Some w \<longrightarrow>
     table_at (pg_tables s) R q = Some w \<or> (\<exists>r. p = q @ r))"

lemma new_on_refl [simp]: "new_on p R s s"
  by (simp add: new_on_def)

lemma new_on_longer:
  "new_on p R s s' \<Longrightarrow> length q \<le> 3 \<Longrightarrow> length p < length q \<Longrightarrow> table_at (pg_tables s') R q = Some w \<Longrightarrow>
     table_at (pg_tables s) R q = Some w"
  unfolding new_on_def by (metis le_add1 length_append not_le)

lemma new_on_trans: "new_on p R s1 s2 \<Longrightarrow> new_on (p @ p') R s2 s3 \<Longrightarrow> new_on (p @ p') R s1 s3"
  unfolding new_on_def by (metis append.assoc)

definition descends ::
  "bool \<Rightarrow> u64 set \<Rightarrow> u64 \<Rightarrow> nat list \<Rightarrow> u64 \<Rightarrow> paging_state \<Rightarrow> paging_state \<Rightarrow> bool" where
  "descends u X R p c s s' \<longleftrightarrow> steps u X R s s' \<and> same_walks R s s' \<and>
     new_on p R s s' \<and>
     (c \<noteq> 0 \<longrightarrow> table_at (pg_tables s') R p = Some c \<and> c \<notin> X \<and> (u \<longrightarrow> user_path (pg_tables s') R p))"

lemma set_entry_tables: "pg_tables (set_entry t i e s) u j = (if u = t \<and> j = i then e else pg_tables s u j)"
  by (simp add: set_entry_def)

lemma user_path_snoc:
  "table_at T R p = Some t \<Longrightarrow> user_path T R (p @ [i]) \<longleftrightarrow> user_path T R p \<and> bit (T t i) 2"
  by (induction p arbitrary: R) (auto split: if_splits)

lemma new_table_descends:
  assumes ok: "space_ok u X R s" and a: "alloc_page_table s = (c, s1)" "c \<noteq> 0"
    and p: "length p \<le> 2" "table_at (pg_tables s) R p = Some t" "i < 512" "t \<notin> X"
    and user: "u \<Longrightarrow> user_path (pg_tables s) R p" and zero: "\<not> bit (pg_tables s t i) 0"
  shows "descends u X R (p @ [i]) c s (set_entry t i (c OR table_flags u) s1)"
proof -
  let ?s = "set_entry t i (c OR table_flags u) s1" and ?T = "pg_tables s"
  note D = space_okD [OF ok]
  have "pages_ok s" using ok by (simp add: space_ok_def)
  note A = alloc_page_table_cases(2) [OF this a]
  have T1: "pg_tables s1 = ?T(c := (\<lambda>_. 0))" using A by simp
  have z: "?T t i = 0" using tree_entry [OF D(3) p(1-3)] zero by (simp add: entry_ok_def)
  have ct: "c \<noteq> t" using tree_fresh [OF D(3) _, of p c] p(1,2) A by auto
  have link: "linked (avail s) ?T R p t i c u (pg_tables ?s)"
    using D(3) p z A ct by (auto simp: linked_def set_entry_tables T1 same_but_def is_table_def)
  have s_eq: "s1\<lparr>pg_tables := pg_tables ?s\<rparr> = ?s" by (simp add: set_entry_def)
  have st: "steps u X R s ?s"
    using linked_steps [OF ok a link p(4)] by (simp add: s_eq set_entry_tables T1 ct)
  have "same_walks R s ?s"
    using linked_translate_empty [OF link z] by (simp add: same_walks_def set_entry_tables T1 ct)
  moreover have "c \<notin> X"
  proof -
    have "unat c \<in> block_set c 1" by (simp add: block_set_def)
    then show ?thesis using A D(5) [of c] by blast
  qed
  moreover have "u \<Longrightarrow> user_path (pg_tables ?s) R (p @ [i])"
    using linked_user_path(2) [OF link] user by simp
  moreover have "new_on (p @ [i]) R s ?s"
    using linked_table_at_iff [OF link] by (auto simp: new_on_def)
  ultimately show ?thesis
    using st linked_at_new(2) [OF link] by (simp add: descends_def)
qed

lemma get_or_create_table_descends:
  assumes ok: "space_ok u X R s" and p: "length p \<le> 2" "table_at (pg_tables s) R p = Some t"
    "i < 512" "t \<notin> X" and user: "u \<Longrightarrow> user_path (pg_tables s) R p"
    and run: "get_or_create_table t i u s = (c, s')"
  shows "descends u X R (p @ [i]) c s s'"
proof -
  let ?e = "pg_tables s t i"
  note D = space_okD [OF ok]
  have t0: "t \<noteq> 0" using tree_page [OF D(3) _ p(2)] p(1) by (auto simp: page_ok_def)
  have fail: "descends u X R (p @ [i]) 0 s s"
    using steps_refl [OF ok] by (simp add: descends_def)
  show ?thesis
  proof (cases "bit ?e 0")
    case True
    show ?thesis
    proof (cases "bit ?e 7 \<or> u \<and> \<not> bit ?e 2")
      case True
      then have "c = 0 \<and> s' = s" using run t0 \<open>bit ?e 0\<close> by (auto simp: get_or_create_table_def Let_def split: if_splits)
      then show ?thesis using fail by simp
    next
      case False
      then have r: "c = child ?e" "s' = s" using run t0 \<open>bit ?e 0\<close>
        by (auto simp: get_or_create_table_def Let_def split: if_splits)
      have at: "table_at (pg_tables s) R (p @ [i]) = Some c"
        using p \<open>bit ?e 0\<close> False by (simp add: table_at_append is_table_def r)
      have up: "u \<Longrightarrow> user_path (pg_tables s) R (p @ [i])"
        using user user_path_snoc [OF p(2)] False by simp
      have "c \<notin> X"
      proof (cases u)
        case True
        then show ?thesis using guardedD [OF D(4) _ at] up p(1) by simp
      next
        case False
        then show ?thesis using D(6) by auto
      qed
      then show ?thesis
        using steps_refl [OF ok] at up r by (simp add: descends_def)
    qed
  next
    case False
    obtain c' s1 where a: "alloc_page_table s = (c', s1)" by fastforce
    have po: "pages_ok s" using ok by (simp add: space_ok_def)
    show ?thesis
    proof (cases "c' = 0")
      case True
      then have "c = 0 \<and> s' = s" using run t0 False a alloc_page_table_cases(1) [OF po a]
        by (simp add: get_or_create_table_def)
      then show ?thesis using fail by simp
    next
      case c': False
      then have "c = c'" "s' = set_entry t i (c OR table_flags u) s1"
        using run t0 False a by (auto simp: get_or_create_table_def)
      then show ?thesis
        using new_table_descends [OF ok a c' p user False] by simp
    qed
  qed
qed

lemma descends_trans:
  assumes "descends u X R p c s1 s2" and "descends u X R (p @ p') d s2 s3"
  shows "descends u X R (p @ p') d s1 s3"
proof -
  have "steps u X R s1 s3" "same_walks R s1 s3"
    using assms(1,2) steps_trans same_walks_trans unfolding descends_def by blast+
  moreover have "new_on (p @ p') R s1 s3"
    using assms new_on_trans unfolding descends_def by blast
  ultimately show ?thesis using assms(2) by (simp add: descends_def)
qed

lemma descends_fail: "descends u X R p c s s' \<Longrightarrow> descends u X R (p @ p') 0 s s'"
  using new_on_trans [of p R s s' p' s'] by (simp add: descends_def)

lemma get_or_create_pd_descends:
  assumes ok: "space_ok u X R s" and R: "R \<notin> X" and run: "get_or_create_pd R virt u s = (c, s')"
  shows "descends u X R [pml4_index virt, pdpt_index virt] c s s'"
proof -
  obtain t s1 where a: "get_or_create_table R (pml4_index virt) u s = (t, s1)" by fastforce
  have i: "pml4_index virt < 512" "pdpt_index virt < 512" by (simp_all add: pml4_index_def pdpt_index_def)
  have d1: "descends u X R [pml4_index virt] t s s1"
    using get_or_create_table_descends [OF ok _ _ i(1) R _ a, of "[]"] by simp
  show ?thesis
  proof (cases "t = 0")
    case True
    then show ?thesis using run a descends_fail [OF d1, of "[pdpt_index virt]"] by (simp add: get_or_create_pd_def)
  next
    case False
    have "space_ok u X R s1" using d1 by (simp add: descends_def steps_def)
    then have "descends u X R ([pml4_index virt] @ [pdpt_index virt]) c s1 s'"
      by (rule get_or_create_table_descends [OF _ _ _ i(2)])
        (use d1 False run a in \<open>auto simp: descends_def get_or_create_pd_def\<close>)
    then show ?thesis using descends_trans [OF d1, of "[pdpt_index virt]"] by simp
  qed
qed

subsection \<open>Splitting a large page\<close>

lemma fold_set_entry:
  "fold (\<lambda>i. set_entry t i (f i)) [0..<n] s =
     s\<lparr>pg_tables := (pg_tables s)(t := (\<lambda>i. if i < n then f i else pg_tables s t i))\<rparr>"
proof (induction n)
  case 0
  then show ?case by (simp add: fun_upd_idem)
next
  case (Suc n)
  have "(\<lambda>i. if i < n then f i else pg_tables s t i)(n := f n) =
      (\<lambda>i. if i < Suc n then f i else pg_tables s t i)"
    by (auto simp: fun_eq_iff less_Suc_eq)
  note step = this
  have "fold (\<lambda>i. set_entry t i (f i)) [0..<Suc n] s =
      set_entry t n (f n) (fold (\<lambda>i. set_entry t i (f i)) [0..<n] s)"
    by simp
  also have "\<dots> = s\<lparr>pg_tables := (pg_tables s)(t :=
      (\<lambda>i. if i < n then f i else pg_tables s t i)(n := f n))\<rparr>"
    unfolding Suc by (simp add: set_entry_def)
  finally show ?case unfolding step .
qed

definition split_entry :: "u64 \<Rightarrow> nat \<Rightarrow> u64" where
  "split_entry e index = ((e AND PAGE_2M_ADDR_MASK) + of_nat index * PAGE_SIZE_4K) OR
     (e AND (PAGE_PRESENT OR PAGE_WRITABLE OR PAGE_NX OR PAGE_USER))"

lemma split_entry_bits:
  assumes "index < 512"
  shows "bit (split_entry e index) n \<longleftrightarrow>
    (if n < 12 then bit e n \<and> n \<in> {0, 1, 2} else if n < 21 then bit index (n - 12) else bit e n)"
proof -
  have idx: "bit (of_nat index * PAGE_SIZE_4K :: u64) k \<longleftrightarrow> 12 \<le> k \<and> k < 64 \<and> bit index (k - 12)" for k
  proof -
    have "of_nat index * PAGE_SIZE_4K = push_bit 12 (of_nat index :: u64)"
      by (simp add: PAGE_SIZE_4K_def push_bit_eq_mult)
    then show ?thesis by (auto simp: bit_push_bit_iff bit_of_nat_iff)
  qed
  have small: "\<not> bit index k" if "9 \<le> k" for k
  proof -
    have "take_bit 9 index = index" using assms by (simp add: take_bit_nat_eq_self_iff)
    then show ?thesis using that by (metis bit_take_bit_iff not_less)
  qed
  have "(e AND PAGE_2M_ADDR_MASK) + of_nat index * PAGE_SIZE_4K =
      (e AND PAGE_2M_ADDR_MASK) OR (of_nat index * PAGE_SIZE_4K)"
    by (rule disjunctive_add_eq_or, rule bit_word_eqI) (auto simp: bit_and_iff bit_addr_mask idx small)
  then show ?thesis
    using small bit_imp_le_length [of e n]
    by (auto simp: split_entry_def bit_or_iff bit_and_iff bit_addr_mask idx)
qed

text \<open>The small page of a split large page maps its part of the range with the same rights.\<close>

lemma split_leaf:
  assumes "bit e 0" and "bit e 7"
  shows "with_user (bit e 2) (leaf_mapping 0 (split_entry e (pt_index v)) v) = leaf_mapping 1 e v"
proof -
  have idx: "bit (pt_index v) k \<longleftrightarrow> k < 9 \<and> bit v (k + 12)" for k
  proof -
    have "(0x1FF :: u64) = mask 9" by (simp add: mask_eq_exp_minus_1)
    then have "bit (pt_index v) k \<longleftrightarrow> bit (drop_bit 12 v AND mask 9) k"
      by (simp add: pt_index_def bit_unsigned_iff)
    then show ?thesis by (auto simp: bit_and_iff bit_drop_bit_eq bit_mask_iff add.commute dest: bit_imp_le_length)
  qed
  have i: "pt_index v < 512" by (simp add: pt_index_def)
  note b = split_entry_bits [OF i, of e]
  have "leaf_phys 0 (split_entry e (pt_index v)) v = leaf_phys 1 e v"
    by (rule bit_word_eqI)
      (auto simp: leaf_phys_def bit_or_iff bit_and_iff bit_not_iff bit_mask_iff b idx)
  then show ?thesis
    using assms by (auto simp: with_user_def leaf_mapping_def b)
qed

lemma path_split: "path v = [pml4_index v, pdpt_index v] @ pd_index v # [pt_index v]"
  by (simp add: path_def)

lemma split_large_page_run:
  assumes "bit (pg_tables s pd slot) 0" and "bit (pg_tables s pd slot) 7"
    and "alloc_page_table s = (c, s1)" and "c \<noteq> 0"
  shows "split_large_page pd slot s = (True,
    set_entry pd slot (c OR table_flags (bit (pg_tables s pd slot) 2))
      (fold (\<lambda>i. set_entry c i (split_entry (pg_tables s pd slot) i)) [0..<512] s1))"
proof -
  let ?e = "pg_tables s pd slot"
  have flags: "(?e AND (PAGE_PRESENT OR PAGE_WRITABLE OR PAGE_NX OR PAGE_USER)) AND PAGE_USER =
      (if bit ?e 2 then PAGE_USER else 0)"
    by (rule bit_word_eqI) (auto simp: bit_and_iff bit_or_iff)
  show ?thesis
    unfolding split_large_page_def Let_def flags
    using assms by (simp add: split_entry_def table_flags_def or.assoc PAGE_TABLE_ENTRIES_def)
qed

lemma split_large_page_ok:
  assumes ok: "space_ok u X R s" and p: "length p = 2" "table_at (pg_tables s) R p = Some pd"
    "slot < 512" "pd \<notin> X" and run: "split_large_page pd slot s = (done, s')"
    and e: "bit (pg_tables s pd slot) 0" "bit (pg_tables s pd slot) 7"
  shows "steps u X R s s' \<and> same_walks R s s' \<and> new_on (p @ [slot]) R s s' \<and>
    (done \<longrightarrow> is_table (pg_tables s' pd slot))"
proof -
  let ?T = "pg_tables s" let ?e = "pg_tables s pd slot"
  note D = space_okD [OF ok]
  obtain c s1 where a: "alloc_page_table s = (c, s1)" by fastforce
  have po: "pages_ok s" using ok by (simp add: space_ok_def)
  show ?thesis
  proof (cases "c = 0")
    case True
    then have "s' = s" "\<not> done"
      using run e a alloc_page_table_cases(1) [OF po a] by (auto simp: split_large_page_def)
    then show ?thesis using steps_refl [OF ok] by simp
  next
    case c: False
    note A = alloc_page_table_cases(2) [OF po a c]
    have T1: "pg_tables s1 = ?T(c := (\<lambda>_. 0))" using A by simp
    have cpd: "c \<noteq> pd" using tree_fresh [OF D(3) _, of p c] p(1,2) A by auto
    have s': "done" "s' = set_entry pd slot (c OR table_flags (bit ?e 2))
        (s1\<lparr>pg_tables := (pg_tables s1)(c := (\<lambda>i. if i < 512 then split_entry ?e i else pg_tables s1 c i))\<rparr>)"
      using run split_large_page_run [OF e a c] by (simp_all add: fold_set_entry)
    have T': "pg_tables s' x j = (if x = pd \<and> j = slot then c OR table_flags (bit ?e 2)
        else if x = c then (if j < 512 then split_entry ?e j else 0) else ?T x j)" for x j
      by (simp add: s' set_entry_tables T1)
    have link: "linked (avail s) ?T R p pd slot c (bit ?e 2) (pg_tables s')"
      using D(3) p A cpd e by (auto simp: linked_def T' same_but_def is_table_def)
    have "s' = s1\<lparr>pg_tables := pg_tables s'\<rparr>" by (simp add: s' set_entry_def)
    then have st: "steps u X R s s'"
      using linked_steps [OF ok a c link p(4)] p(1) by (metis One_nat_def length_0_conv nat.simps(3) numeral_2_eq_2 nat.inject)
    have "translate (pg_tables s') R v = translate ?T R v" for v
    proof (cases "\<exists>q. path v = p @ slot # q")
      case False
      then show ?thesis using linked_translate_off [OF link] by simp
    next
      case True
      then obtain q where q: "path v = p @ slot # q" by blast
      then have v: "p = [pml4_index v, pdpt_index v]" "slot = pd_index v" "q = [pt_index v]"
        using p(1) by (auto simp: path_def length_Suc_conv numeral_2_eq_2)
      have i: "pt_index v < 512" by (simp add: pt_index_def)
      have new: "xlate (pg_tables s') c q v = Some (leaf_mapping 0 (split_entry ?e (pt_index v)) v)"
        using e(1) cpd i by (simp add: v T' split_entry_bits)
      have old: "xlate ?T pd (slot # q) v = Some (leaf_mapping 1 ?e v)"
        using e by (simp add: v(3))
      have "translate (pg_tables s') R v = Some (with_user (user_path ?T R p) (leaf_mapping 1 ?e v))"
        using linked_translate_via [OF link q] new split_leaf [OF e, of v]
        by (simp add: v(3) flip: with_user_simps(2))
      moreover have "translate ?T R v = Some (with_user (user_path ?T R p) (leaf_mapping 1 ?e v))"
        using xlate_below [OF D(3) _ p(2), of "slot # q" v] p(1) old q by (simp add: translate_def)
      ultimately show ?thesis by simp
    qed
    moreover have "new_on (p @ [slot]) R s s'"
      using linked_table_at_iff [OF link] by (auto simp: new_on_def)
    ultimately show ?thesis
      using st cpd A by (simp add: same_walks_def s' set_entry_tables)
  qed
qed

subsection \<open>Mapping one page\<close>

lemma ensure_page_table_descends:
  assumes ok: "space_ok u X R s" and p: "length p = 2" "table_at (pg_tables s) R p = Some pd"
    "slot < 512" "pd \<notin> X" and user: "u \<Longrightarrow> user_path (pg_tables s) R p"
    and run: "ensure_page_table pd slot u s = (done, s')"
  shows "descends u X R (p @ [slot]) (if done then child (pg_tables s' pd slot) else 0) s s' \<and>
    (done \<longrightarrow> child (pg_tables s' pd slot) \<noteq> 0)"
proof -
  let ?e = "pg_tables s pd slot"
  note D = space_okD [OF ok]
  have eok: "entry_ok 2 ?e" using tree_entry [OF D(3) _ p(2,3)] p(1) by simp
  have po: "pages_ok s" using ok by (simp add: space_ok_def)
  have fail: "descends u X R (p @ [slot]) 0 s s" using steps_refl [OF ok] by (simp add: descends_def)
  have nz: "c \<noteq> 0" if "space_ok u X R s2" "table_at (pg_tables s2) R (p @ [slot]) = Some c" for c s2
    using tree_page [OF space_okD(3) [OF that(1)] _ that(2)] p(1) by (simp add: page_ok_def)
  consider "bit ?e 7" | "\<not> bit ?e 7" "\<not> bit ?e 0" | "\<not> bit ?e 7" "bit ?e 0" by blast
  then show ?thesis
  proof cases
    case 1
    then have e0: "bit ?e 0" using eok by (auto simp: entry_ok_def)
    have "\<not> u" using D(4) p user 1 by (auto simp: guarded_def)
    then have X: "X = {}" using D(6) by auto
    note sp = split_large_page_ok [OF ok p _ e0 1]
    have run': "split_large_page pd slot s = (done, s')" using run 1 by (simp add: ensure_page_table_def)
    have "table_at (pg_tables s') R p = Some pd" using stepsD(4) [OF _ _ p(2)] sp [OF run'] p(1) by auto
    then have "done \<Longrightarrow> table_at (pg_tables s') R (p @ [slot]) = Some (child (pg_tables s' pd slot))"
      using sp [OF run'] p(3) by (simp add: table_at_append)
    then show ?thesis using sp [OF run'] \<open>\<not> u\<close> X nz [of s'] p(1) by (auto simp: descends_def steps_def)
  next
    case 2
    obtain c s1 where a: "alloc_page_table s = (c, s1)" by fastforce
    show ?thesis
    proof (cases "c = 0")
      case True
      then have "\<not> done \<and> s' = s" using run 2 a alloc_page_table_cases(1) [OF po a]
        by (simp add: ensure_page_table_def)
      then show ?thesis using fail by simp
    next
      case False
      then have s': "done" "s' = set_entry pd slot (c OR table_flags u) s1"
        using run 2 a by (auto simp: ensure_page_table_def)
      have "descends u X R (p @ [slot]) c s s'"
        unfolding s' using new_table_descends [OF ok a False _ p(2-4) user 2(2)] p(1) by simp
      moreover have "child (pg_tables s' pd slot) = c"
        using alloc_page_table_cases(2) [OF po a False] by (simp add: s' set_entry_tables table_entry_addr)
      ultimately show ?thesis using s' False by simp
    qed
  next
    case 3
    then have at: "table_at (pg_tables s) R (p @ [slot]) = Some (child ?e)"
      using p by (simp add: table_at_append is_table_def)
    show ?thesis
    proof (cases "u \<and> \<not> bit ?e 2")
      case True
      then have "\<not> done \<and> s' = s" using run 3 by (simp add: ensure_page_table_def)
      then show ?thesis using fail by simp
    next
      case False
      then have r: "done" "s' = s" using run 3 by (auto simp: ensure_page_table_def split: if_splits)
      have up: "user_path (pg_tables s) R (p @ [slot])" if u
        using False user that user_path_snoc [OF p(2)] by simp
      have "child ?e \<notin> X"
      proof (cases u)
        case True
        then show ?thesis using guardedD [OF D(4) _ at] up p(1) by simp
      next
        case False
        then show ?thesis using D(6) by auto
      qed
      then show ?thesis using at up r steps_refl [OF ok] nz [OF ok at] by (simp add: descends_def)
    qed
  qed
qed

text \<open>Writing an entry that is not a table, in a page table or over a directory's free or large slot.\<close>

lemma leaf_steps:
  assumes ok: "space_ok u X R s" and p: "length p \<le> 3" "table_at (pg_tables s) R p = Some t"
    "i < 512" "t \<notin> X"
    and mid: "length p \<le> 2 \<Longrightarrow> \<not> u \<and> length p = 2 \<and> \<not> is_table (pg_tables s t i) \<and> bit e 0 \<and> bit e 7"
  shows "steps u X R s (set_entry t i e s)"
    and "bit e 0 \<Longrightarrow> translate (pg_tables (set_entry t i e s)) R v =
      (if \<exists>q. path v = p @ i # q
       then Some (with_user (user_path (pg_tables s) R p) (leaf_mapping (3 - length p) e v))
       else translate (pg_tables s) R v)"
proof -
  let ?s = "set_entry t i e s" and ?T = "pg_tables s" and ?T' = "pg_tables (set_entry t i e s)"
  note D = space_okD [OF ok]
  have same: "same_but {} t i ?T ?T'" by (simp add: same_but_def set_entry_tables)
  have t': "?T' t i = e" by (simp add: set_entry_tables)
  have eok: "entry_ok (length p) e" "\<not> is_table e" if "length p \<le> 2"
    using mid [OF that] by (auto simp: entry_ok_def is_table_def)
  have mid': "\<not> is_table (?T t i) \<and> \<not> is_table (?T' t i) \<and> entry_ok (length p) (?T' t i)" if "length p \<le> 2"
    using mid [OF that] eok [OF that] by (simp add: t')
  have at: "table_at ?T' R q = table_at ?T R q" if "length q \<le> 3" for q
    using leaf_tree(1) [OF D(3) p(1,2) same mid' that] .
  have tree: "tree_ok (avail s) ?T' R"
    using leaf_tree(2) [OF D(3) p(1,2) same mid'] .
  have off: "q \<noteq> p @ i # r" if "length q \<le> 3" "table_at ?T R q = Some w" for q r w
    using that p(2) mid p(1) by (auto simp: table_at_append)
  have up: "user_path ?T' R q = user_path ?T R q" if q: "length q \<le> 3" "table_at ?T R q = Some w" for q w
  proof (rule user_path_cong [OF _ q(2)])
    show "?T' x j = ?T x j" if "q = q1 @ j # q2" "table_at ?T R q1 = Some x" for q1 j q2 x
      by (rule off_path_cong [OF D(3) p(1,2) same _ _ _ that]) (use q(1) off [OF q] in auto)
  qed
  have av: "avail ?s = avail s" by (simp add: avail_def set_entry_def)
  have guard: "guarded u X ?T' R"
    unfolding guarded_def
  proof (intro conjI allI impI)
    fix q w assume "length q \<le> 3" "table_at ?T' R q = Some w" "user_path ?T' R q"
    then show "w \<notin> X" using at up guardedD [OF D(4)] by auto
  next
    fix q w and j :: nat
    assume q: "u" "length q = 2" "table_at ?T' R q = Some w" "user_path ?T' R q" "j < 512"
    then have "length p = 3" using mid p(1) by (cases "length p \<le> 2") auto
    then have "w \<noteq> t" using tree_inj [OF D(3) p(1) _ p(2), of q] q(2,3) at [of q] by auto
    then show "\<not> bit (?T' w j) 7"
      using q D(4) at [of q] up [of q w] by (simp add: guarded_def set_entry_tables)
  qed
  have "space_ok u X R ?s"
    using ok tree guard av by (simp add: space_ok_def pages_ok_def) (simp add: set_entry_def)
  moreover have "spans ?T' R = spans ?T R"
    unfolding spans_def using at by (metis (no_types, lifting))
  moreover have "?T' R j = ?T R j" if "j < 512" for j
  proof -
    have "R \<noteq> t" if "j = i"
    proof
      assume "R = t"
      then have "p = []" using tree_inj [OF D(3) p(1) _ p(2), of "[]"] by simp
      then show False using mid by simp
    qed
    then show ?thesis by (auto simp: set_entry_tables)
  qed
  ultimately show "steps u X R s ?s"
    using up at p(4) av by (auto simp: steps_def set_entry_tables) (simp_all add: set_entry_def fun_eq_iff)
  assume e: "bit e 0"
  show "translate ?T' R v = (if \<exists>q. path v = p @ i # q
       then Some (with_user (user_path ?T R p) (leaf_mapping (3 - length p) e v))
       else translate ?T R v)"
  proof (cases "\<exists>q. path v = p @ i # q")
    case False
    then show ?thesis using xlate_off_path [OF D(3) p(1,2) same] by simp
  next
    case True
    then obtain q where q: "path v = p @ i # q" by blast
    have len: "length q = 3 - length p" using arg_cong [OF q, of length] by simp
    have "xlate ?T' t (i # q) v = Some (leaf_mapping (length q) e v)"
      using e mid len p(1) by (cases "length p \<le> 2") (auto simp: t')
    then have "translate ?T' R v = Some (with_user (user_path ?T' R p) (leaf_mapping (length q) e v))"
      using xlate_below [OF tree p(1), of t "i # q" v] at [OF p(1)] p(2) q by (simp add: translate_def)
    then show ?thesis using True len up [OF p(1,2)] by simp
  qed
qed

lemma leaf_flag_bits:
  "bit (if \<not> x then paging_default_leaf_flags w u OR PAGE_NX else paging_default_leaf_flags w u) n \<longleftrightarrow>
     n = 0 \<or> (w \<and> n = 1) \<or> (u \<and> n = 2) \<or> (\<not> x \<and> n = 63)"
  "bit (if \<not> x then (paging_default_leaf_flags w u OR PAGE_PAGE_SIZE) OR PAGE_NX
        else paging_default_leaf_flags w u OR PAGE_PAGE_SIZE) n \<longleftrightarrow>
     n = 0 \<or> (w \<and> n = 1) \<or> (u \<and> n = 2) \<or> n = 7 \<or> (\<not> x \<and> n = 63)"
  by (auto simp: paging_default_leaf_flags_def bit_or_iff)

text \<open>The mapping of a page of \<open>2 ^ k\<close> bytes at \<open>phys\<close>, for the address \<open>v\<close> in it.\<close>

definition page_mapping :: "nat \<Rightarrow> u64 \<Rightarrow> bool \<Rightarrow> bool \<Rightarrow> bool \<Rightarrow> u64 \<Rightarrow> mapping" where
  "page_mapping k phys w u x v =
     \<lparr>m_phys = phys + (v AND mask k), m_writable = w, m_user = u, m_exec = x\<rparr>"

definition frame_ok :: "nat \<Rightarrow> u64 \<Rightarrow> bool" where
  "frame_ok k phys \<longleftrightarrow> 2 ^ k dvd unat phys \<and> unat phys < 2 ^ 52"

lemma frame_ok_bits:
  assumes "frame_ok k phys" and "bit phys n"
  shows "k \<le> n \<and> n < 52"
proof -
  have "take_bit k (unat phys) = 0"
    using assms(1) by (simp add: frame_ok_def take_bit_eq_mod mod_eq_0_iff_dvd)
  moreover have "bit (unat phys) n" using assms(2) bit_imp_le_length [OF assms(2)] by (simp add: bit_unsigned_iff)
  ultimately have "k \<le> n" by (metis bit_0_eq bit_take_bit_iff bot_apply bot_bool_def not_less)
  moreover have "n < 52" using assms low_bits [of phys] not_less [of n 52] by (auto simp: frame_ok_def)
  ultimately show ?thesis by simp
qed

lemma leaf_mapping_page:
  assumes k: "k = 12 + 9 * n" "n \<le> 1" and ph: "frame_ok k phys"
    and f: "\<And>m. bit flags m \<longleftrightarrow> m = 0 \<or> (w \<and> m = 1) \<or> (u \<and> m = 2) \<or> (n = 1 \<and> m = 7) \<or> (\<not> x \<and> m = 63)"
  shows "leaf_mapping n (phys OR flags) v = page_mapping k phys w u x v"
proof -
  have "leaf_phys n (phys OR flags) v = phys OR (v AND mask k)"
  proof (rule bit_word_eqI)
    fix m :: nat
    show "bit (leaf_phys n (phys OR flags) v) m = bit (phys OR (v AND mask k)) m"
      using frame_ok_bits [OF ph, of m] k
      by (auto simp: leaf_phys_def bit_or_iff bit_and_iff bit_not_iff bit_mask_iff f dest: bit_imp_le_length)
  qed
  also have "\<dots> = phys + (v AND mask k)"
  proof (rule disjunctive_add_eq_or [symmetric], rule bit_word_eqI)
    fix m :: nat
    show "bit (phys AND (v AND mask k)) m = bit (0 :: u64) m"
      using frame_ok_bits [OF ph, of m] by (auto simp: bit_and_iff bit_mask_iff)
  qed
  finally have "leaf_phys n (phys OR flags) v = phys + (v AND mask k)" .
  moreover have "\<not> bit phys 1" "\<not> bit phys 2" "\<not> bit phys 63"
    using frame_ok_bits [OF ph] k by fastforce+
  ultimately show ?thesis by (simp add: leaf_mapping_def page_mapping_def bit_or_iff f)
qed

lemma map_page_4k_ok:
  assumes ok: "space_ok u X R s" and R: "R \<notin> X" and ph: "frame_ok 12 phys"
    and run: "map_page_4k R virt phys w x u s = (done, s')"
  shows "steps u X R s s'"
    and "translate (pg_tables s') R v =
      (if done \<and> path v = path virt then Some (page_mapping 12 phys w u x v) else translate (pg_tables s) R v)"
    and "new_on (take 3 (path virt)) R s s'"
proof -
  let ?p = "[pml4_index virt, pdpt_index virt]" and ?i = "pd_index virt"
  obtain pd s1 where a: "get_or_create_pd R virt u s = (pd, s1)" by fastforce
  note d1 = get_or_create_pd_descends [OF ok R a]
  have t3: "take 3 (path virt) = ?p @ [?i]" by (simp add: path_def numeral_3_eq_3)
  have "steps u X R s s' \<and> translate (pg_tables s') R v =
      (if done \<and> path v = path virt then Some (page_mapping 12 phys w u x v) else translate (pg_tables s) R v) \<and>
      new_on (?p @ [?i]) R s s'"
  proof (cases "pd = 0")
    case True
    then have "s' = s1" "\<not> done" using run a by (auto simp: map_page_4k_def)
    then show ?thesis using d1 descends_fail [OF d1, of "[?i]"] by (simp add: descends_def same_walks_def)
  next
    case pd: False
    obtain d s2 where e: "ensure_page_table pd ?i u s1 = (d, s2)" by fastforce
    have "space_ok u X R s1" using d1 by (simp add: descends_def steps_def)
    then have d2: "descends u X R (?p @ [?i]) (if d then child (pg_tables s2 pd ?i) else 0) s1 s2 \<and>
        (d \<longrightarrow> child (pg_tables s2 pd ?i) \<noteq> 0)"
      by (rule ensure_page_table_descends [OF _ _ _ _ _ _ e])
        (use d1 pd in \<open>auto simp: descends_def pd_index_def\<close>)
    note d3 = descends_trans [OF d1 conjunct1 [OF d2]]
    show ?thesis
    proof (cases d)
      case False
      then have "s' = s2" "\<not> done" using run a pd e by (auto simp: map_page_4k_def)
      then show ?thesis using d3 by (simp add: descends_def same_walks_def)
    next
      case True
      let ?pt = "child (pg_tables s2 pd ?i)"
      let ?fl = "if \<not> x then paging_default_leaf_flags w u OR PAGE_NX else paging_default_leaf_flags w u"
      have s': "done" "s' = set_entry ?pt (pt_index virt) (phys OR ?fl) s2"
        using run a pd e True by (auto simp: map_page_4k_def Let_def)
      have ok2: "space_ok u X R s2" using d3 by (simp add: descends_def steps_def)
      have is_t: "table_at (pg_tables s2) R (?p @ [?i]) = Some ?pt \<and> ?pt \<notin> X \<and>
          (u \<longrightarrow> user_path (pg_tables s2) R (?p @ [?i]))"
        using d3 d2 True by (simp add: descends_def)
      have fl: "bit ?fl m \<longleftrightarrow> m = 0 \<or> (w \<and> m = 1) \<or> (u \<and> m = 2) \<or> (0 = (1::nat) \<and> m = 7) \<or> (\<not> x \<and> m = 63)" for m
        unfolding leaf_flag_bits by simp
      have e0: "bit (phys OR ?fl) 0" by (simp only: bit_or_iff leaf_flag_bits) simp
      note lf = leaf_steps [OF ok2 _ _ _ _, of "?p @ [?i]" ?pt "pt_index virt" "phys OR ?fl"]
      have st: "steps u X R s2 s'"
        unfolding s' by (rule lf(1)) (use is_t in \<open>auto simp: pt_index_def\<close>)
      have via: "(\<exists>q. path v = (?p @ [?i]) @ pt_index virt # q) \<longleftrightarrow> path v = path virt"
        by (auto simp: path_def)
      have tr: "translate (pg_tables s') R v = (if path v = path virt
          then Some (with_user (user_path (pg_tables s2) R (?p @ [?i])) (leaf_mapping 0 (phys OR ?fl) v))
          else translate (pg_tables s2) R v)"
        unfolding s' via [symmetric] by (subst lf(2)) (use is_t e0 in \<open>auto simp: pt_index_def\<close>)
      have "with_user (user_path (pg_tables s2) R (?p @ [?i])) (leaf_mapping 0 (phys OR ?fl) v) =
          page_mapping 12 phys w u x v"
        using leaf_mapping_page [OF _ _ ph fl, of v] is_t by (auto simp: with_user_def page_mapping_def)
      moreover have "new_on (?p @ [?i]) R s s'"
      proof -
        have "table_at (pg_tables s') R q = table_at (pg_tables s2) R q" if "length q \<le> 3" for q
          by (rule leaf_tree(1) [OF space_okD(3) [OF ok2] _ conjunct1 [OF is_t], of "pt_index virt"])
            (use that in \<open>auto simp: same_but_def s' set_entry_tables\<close>)
        then show ?thesis using d3 by (simp add: descends_def new_on_def)
      qed
      ultimately show ?thesis
        using tr d3 st steps_trans s'(1) by (simp add: descends_def same_walks_def) blast
    qed
  qed
  then show "steps u X R s s'" and "translate (pg_tables s') R v =
      (if done \<and> path v = path virt then Some (page_mapping 12 phys w u x v) else translate (pg_tables s) R v)"
    and "new_on (take 3 (path virt)) R s s'"
    unfolding t3 by auto
qed

text \<open>A large page is only written over a slot that holds no table.\<close>

lemma map_page_2m_ok:
  assumes ok: "space_ok False {} R s" and ph: "frame_ok 21 phys"
    and free: "table_at (pg_tables s) R (take 3 (path virt)) = None"
    and run: "map_page_2m R virt phys w x False s = (done, s')"
  shows "steps False {} R s s'"
    and "translate (pg_tables s') R v =
      (if done \<and> take 3 (path v) = take 3 (path virt) then Some (page_mapping 21 phys w False x v)
       else translate (pg_tables s) R v)"
    and "length q = 3 \<Longrightarrow> table_at (pg_tables s') R q = table_at (pg_tables s) R q"
proof -
  let ?p = "[pml4_index virt, pdpt_index virt]" and ?i = "pd_index virt"
  have t3: "take 3 (path y) = [pml4_index y, pdpt_index y] @ [pd_index y]" for y
    by (simp add: path_def numeral_3_eq_3)
  obtain pd s1 where a: "get_or_create_pd R virt False s = (pd, s1)" by fastforce
  have d1: "descends False {} R ?p pd s s1"
    by (rule get_or_create_pd_descends [OF ok _ a]) simp
  have st1: "steps False {} R s s1" and walks: "same_walks R s s1" using d1 by (simp_all add: descends_def)
  have ok1: "space_ok False {} R s1" using stepsD(1) [OF st1] .
  have kept3: "table_at (pg_tables s1) R q = table_at (pg_tables s) R q" if "length q = 3" for q
    using that stepsD(4) [OF st1, of q] new_on_longer [of ?p R s s1 q] d1
    by (cases "table_at (pg_tables s) R q"; cases "table_at (pg_tables s1) R q") (simp_all add: descends_def)
  have "steps False {} R s s' \<and> translate (pg_tables s') R v =
      (if done \<and> take 3 (path v) = take 3 (path virt) then Some (page_mapping 21 phys w False x v)
       else translate (pg_tables s) R v) \<and>
      (length q = 3 \<longrightarrow> table_at (pg_tables s') R q = table_at (pg_tables s) R q)"
  proof (cases "pd = 0")
    case True
    then have "s' = s1" "\<not> done" using run a by (auto simp: map_page_2m_def)
    then show ?thesis using st1 walks kept3 by (simp add: same_walks_def)
  next
    case pd: False
    let ?fl = "if \<not> x then (paging_default_leaf_flags w False OR PAGE_PAGE_SIZE) OR PAGE_NX
        else paging_default_leaf_flags w False OR PAGE_PAGE_SIZE"
    have at: "table_at (pg_tables s1) R ?p = Some pd" using d1 pd by (simp add: descends_def)
    have i: "?i < 512" by (simp add: pd_index_def)
    have nt: "\<not> is_table (pg_tables s1 pd ?i)"
      using kept3 [of "?p @ [?i]"] free at i by (auto simp: t3 table_at_append split: if_splits)
    have s': "done" "s' = set_entry pd ?i (phys OR ?fl) s1"
      using run a pd by (auto simp: map_page_2m_def Let_def)
    have bits: "bit (phys OR ?fl) 0" "bit (phys OR ?fl) 7"
      by (simp_all only: bit_or_iff leaf_flag_bits) simp_all
    have len: "length ?p \<le> 3" "pd \<notin> {}" by simp_all
    have mid: "\<not> False \<and> length ?p = 2 \<and> \<not> is_table (pg_tables s1 pd ?i) \<and> bit (phys OR ?fl) 0 \<and> bit (phys OR ?fl) 7"
      using nt bits by simp
    have st: "steps False {} R s1 s'"
      unfolding s' by (rule leaf_steps(1) [OF ok1 len(1) at i len(2) mid])
    have fl: "bit ?fl m \<longleftrightarrow> m = 0 \<or> (w \<and> m = 1) \<or> (False \<and> m = 2) \<or> (1 = (1::nat) \<and> m = 7) \<or> (\<not> x \<and> m = 63)" for m
      unfolding leaf_flag_bits by simp
    have via: "(\<exists>q. path v = ?p @ ?i # q) \<longleftrightarrow> take 3 (path v) = take 3 (path virt)"
      by (auto simp: path_def numeral_3_eq_3)
    have "with_user (user_path (pg_tables s1) R ?p) (leaf_mapping (3 - length ?p) (phys OR ?fl) v) =
        page_mapping 21 phys w False x v"
      using leaf_mapping_page [OF _ _ ph fl, of v] by (simp add: with_user_def page_mapping_def)
    then have "translate (pg_tables s') R v = (if take 3 (path v) = take 3 (path virt)
        then Some (page_mapping 21 phys w False x v) else translate (pg_tables s1) R v)"
      unfolding s' via [symmetric] leaf_steps(2) [OF ok1 len(1) at i len(2) mid bits(1)] by simp
    moreover have "table_at (pg_tables s') R q = table_at (pg_tables s1) R q" if "length q = 3"
    proof (rule leaf_tree(1) [OF space_okD(3) [OF ok1] len(1) at])
      show "same_but {} pd ?i (pg_tables s1) (pg_tables s')"
        by (simp add: same_but_def s' set_entry_tables)
      show "\<not> is_table (pg_tables s1 pd ?i) \<and> \<not> is_table (pg_tables s' pd ?i) \<and>
          entry_ok (length ?p) (pg_tables s' pd ?i)"
        using nt bits by (simp add: s' set_entry_tables is_table_def entry_ok_def)
    qed (use that in simp)
    ultimately show ?thesis
      using st st1 steps_trans walks s'(1) kept3 by (auto simp: same_walks_def intro: steps_trans)
  qed
  then show "steps False {} R s s'" and "translate (pg_tables s') R v =
      (if done \<and> take 3 (path v) = take 3 (path virt) then Some (page_mapping 21 phys w False x v)
       else translate (pg_tables s) R v)"
    and "length q = 3 \<Longrightarrow> table_at (pg_tables s') R q = table_at (pg_tables s) R q"
    by auto
qed

end
