(* ===== verification/PagingRange.thy ===== *)
theory PagingRange
  imports PagingMap
begin

text \<open>
  The mapping loops of \<open>src/kernel/paging.c\<close>: a range mapped into a tree translates address by
  address to the physical range, whatever lies outside keeps its translation, and the loop always
  ends.
\<close>

subsection \<open>Pages of virtual addresses\<close>

lemma index_nat: "unat (drop_bit k v AND 0x1FF :: u64) = unat v div 2 ^ k mod 512"
proof -
  have v: "take_bit 64 (unat v) = unat v"
    using unat_u64_bound [of v] by (intro take_bit_nat_eq_self) simp
  have "(0x1FF :: u64) = mask 9" by (simp add: mask_eq_exp_minus_1)
  then have "drop_bit k v AND 0x1FF = take_bit 9 (drop_bit k v)" by (simp only: take_bit_eq_mask)
  then have "unat (drop_bit k v AND 0x1FF) = take_bit 9 (drop_bit k (unat v))"
    by (simp only: unsigned_take_bit_eq unsigned_drop_bit_eq) (simp add: v)
  also have "\<dots> = unat v div 2 ^ k mod 2 ^ 9" by (simp only: take_bit_eq_mod drop_bit_eq_div)
  finally show ?thesis by simp
qed

lemma path_nat: "path v = [unat v div 0x8000000000 mod 512, unat v div 0x40000000 mod 512,
    unat v div 0x200000 mod 512, unat v div 0x1000 mod 512]"
  unfolding path_def pml4_index_def pdpt_index_def pd_index_def pt_index_def index_nat by simp

lemma digits_eq: "m = n \<longleftrightarrow> m mod 512 = n mod 512 \<and> m div 512 = (n :: nat) div 512"
  by (metis div_mult_mod_eq)

lemma path_eq_iff:
  assumes "unat v < 2 ^ 48" and "unat w < 2 ^ 48"
  shows "path v = path w \<longleftrightarrow> unat v div 4096 = unat w div 4096"
    and "take 3 (path v) = take 3 (path w) \<longleftrightarrow> unat v div 0x200000 = unat w div 0x200000"
proof -
  have top: "unat x div 0x8000000000 mod 512 = unat x div 0x8000000000" if "unat x < 2 ^ 48" for x :: u64
  proof (rule mod_less)
    have "unat x < 512 * 0x8000000000" using that by simp
    then show "unat x div 0x8000000000 < 512" by (rule less_mult_imp_div_less)
  qed
  have dd: "n div 0x40000000 div 512 = n div 0x8000000000" "n div 0x200000 div 512 = n div 0x40000000"
    "n div 4096 div 512 = n div 0x200000" for n :: nat
    by (simp_all add: div_mult2_eq [symmetric])
  show p3: "take 3 (path v) = take 3 (path w) \<longleftrightarrow> unat v div 0x200000 = unat w div 0x200000"
    unfolding digits_eq [of "unat v div 0x200000"] dd digits_eq [of "unat v div 0x40000000"] path_nat
    by (auto simp: top [OF assms(1)] top [OF assms(2)] numeral_3_eq_3)
  have "path v = path w \<longleftrightarrow> take 3 (path v) = take 3 (path w) \<and>
      unat v div 0x1000 mod 512 = unat w div 0x1000 mod 512"
    unfolding path_nat by (simp add: numeral_3_eq_3)
  then show "path v = path w \<longleftrightarrow> unat v div 4096 = unat w div 4096"
    unfolding p3 digits_eq [of "unat v div 4096"] dd by blast
qed

lemma unat_offset: "unat (v AND mask k :: u64) = unat v mod 2 ^ k"
proof -
  have "unat (v AND mask k) = take_bit k (unat v)"
    by (simp only: take_bit_eq_mask [symmetric] unsigned_take_bit_eq)
  then show ?thesis by (simp only: take_bit_eq_mod)
qed

text \<open>Inside the page of \<open>virt\<close>, the physical address moves with the virtual one.\<close>

lemma page_mapping_offset:
  assumes "2 ^ k dvd unat virt" and "unat v div 2 ^ k = unat virt div 2 ^ k"
  shows "page_mapping k phys w u x v = \<lparr>m_phys = phys + (v - virt), m_writable = w, m_user = u, m_exec = x\<rparr>"
proof -
  have virt: "unat virt = unat virt div 2 ^ k * 2 ^ k" using assms(1) by simp
  have v: "unat v = unat virt div 2 ^ k * 2 ^ k + unat v mod 2 ^ k"
    using assms(2) by (metis div_mult_mod_eq)
  have le: "unat virt \<le> unat v" and "unat (v AND mask k) = unat v - unat virt"
    using virt v unat_offset [of v k] by linarith+
  then have "v AND mask k = v - virt"
    using le by (simp add: word_unat_eq_iff unat_diff_small)
  then show ?thesis by (simp add: page_mapping_def)
qed

subsection \<open>The loop\<close>

definition mapped :: "u64 \<Rightarrow> u64 \<Rightarrow> bool \<Rightarrow> bool \<Rightarrow> bool \<Rightarrow> u64 \<Rightarrow> mapping" where
  "mapped virt phys w u x v = \<lparr>m_phys = phys + (v - virt), m_writable = w, m_user = u, m_exec = x\<rparr>"

text \<open>The outcome of mapping \<open>[virt, virt_end)\<close> to \<open>phys\<close> in the tree of \<open>R\<close>.\<close>

definition maps_range ::
  "bool \<Rightarrow> u64 set \<Rightarrow> u64 \<Rightarrow> u64 \<Rightarrow> u64 \<Rightarrow> u64 \<Rightarrow> bool \<Rightarrow> bool \<Rightarrow> paging_state \<Rightarrow> bool \<times> paging_state \<Rightarrow> bool" where
  "maps_range u X R virt virt_end phys w x s r \<longleftrightarrow>
     steps u X R s (snd r) \<and>
     (\<forall>v. unat v < 2 ^ 48 \<longrightarrow>
        (if unat virt \<le> unat v \<and> unat v < unat virt_end
         then (fst r \<longrightarrow> translate (pg_tables (snd r)) R v = Some (mapped virt phys w u x v))
         else translate (pg_tables (snd r)) R v = translate (pg_tables s) R v))"

lemma map_loop_maps:
  assumes "space_ok u X R s" and "R \<notin> X"
    and "4096 dvd unat virt" and "4096 dvd unat phys"
    and "unat virt_end = unat virt + n * 4096" and "unat virt_end \<le> 2 ^ 48"
    and "unat phys + n * 4096 \<le> 2 ^ 52"
  shows "\<exists>r. map_loop R virt phys virt_end w x u s = Some r \<and> maps_range u X R virt virt_end phys w x s r"
  using assms
proof (induction n arbitrary: virt phys s)
  case 0
  then have "\<not> virt < virt_end" by (simp add: word_less_nat_alt)
  then show ?case
    using 0 steps_refl by (subst map_loop.simps) (auto simp: maps_range_def)
next
  case (Suc n)
  have lt: "virt < virt_end" using Suc.prems by (simp add: word_less_nat_alt)
  obtain d s1 where m: "map_page_4k R virt phys w x u s = (d, s1)" by fastforce
  have ph: "frame_ok 12 phys" using Suc.prems by (simp add: frame_ok_def)
  note p = map_page_4k_ok [OF Suc.prems(1,2) ph m]
  have v48: "unat virt < 2 ^ 48" using Suc.prems by simp
  have page: "path v = path virt \<longleftrightarrow> unat virt \<le> unat v \<and> unat v < unat virt + 4096" if "unat v < 2 ^ 48" for v
  proof -
    obtain k where k: "unat virt = 4096 * k" using Suc.prems(3) by blast
    show ?thesis unfolding path_eq_iff(1) [OF that v48] k by (simp add: div_nat_eqI) linarith
  qed
  have inpage: "page_mapping 12 phys w u x v = mapped virt phys w u x v"
    if "unat v < 2 ^ 48" "path v = path virt" for v
    using page_mapping_offset [of 12 virt v] Suc.prems(3) path_eq_iff(1) [OF that(1) v48] that
    by (simp add: mapped_def)
  show ?case
  proof (cases d)
    case False
    then have "map_loop R virt phys virt_end w x u s = Some (False, s1)"
      using lt m by (subst map_loop.simps) simp
    then show ?thesis using p False by (auto simp: maps_range_def)
  next
    case True
    have u1: "unat (virt + PAGE_SIZE_4K) = unat virt + 4096" "unat (phys + PAGE_SIZE_4K) = unat phys + 4096"
      using Suc.prems by (simp_all add: unat_add_small PAGE_SIZE_4K_def)
    obtain r where r: "map_loop R (virt + PAGE_SIZE_4K) (phys + PAGE_SIZE_4K) virt_end w x u s1 = Some r"
        "maps_range u X R (virt + PAGE_SIZE_4K) virt_end (phys + PAGE_SIZE_4K) w x s1 r"
      using Suc.IH [of s1 "virt + PAGE_SIZE_4K" "phys + PAGE_SIZE_4K"] stepsD(1) [OF p(1)] Suc.prems u1 by auto
    have run: "map_loop R virt phys virt_end w x u s = Some r"
      using lt m True r(1) by (subst map_loop.simps) simp
    have mv: "mapped (virt + PAGE_SIZE_4K) (phys + PAGE_SIZE_4K) w u x v = mapped virt phys w u x v" for v
      by (simp add: mapped_def)
    have "steps u X R s (snd r)" using steps_trans [OF p(1)] r(2) by (simp add: maps_range_def)
    moreover have "if unat virt \<le> unat v \<and> unat v < unat virt_end
         then (fst r \<longrightarrow> translate (pg_tables (snd r)) R v = Some (mapped virt phys w u x v))
         else translate (pg_tables (snd r)) R v = translate (pg_tables s) R v" if v: "unat v < 2 ^ 48" for v
    proof -
      have rest: "if unat virt + 4096 \<le> unat v \<and> unat v < unat virt_end
         then (fst r \<longrightarrow> translate (pg_tables (snd r)) R v = Some (mapped virt phys w u x v))
         else translate (pg_tables (snd r)) R v = translate (pg_tables s1) R v"
        using r(2) v by (simp add: maps_range_def u1 mv)
      show ?thesis
        using rest p(2) [of v] True page [OF v] inpage [OF v] Suc.prems(5) by (auto split: if_splits)
    qed
    ultimately show ?thesis using run by (auto simp: maps_range_def)
  qed
qed

end
