(* ===== verification/PagingSpaces.thy ===== *)
theory PagingSpaces
  imports PagingRange
begin

text \<open>
  Address spaces: the kernel's tree, the trees of programs that share its upper tables, and the
  life of a program's tree from \<open>paging_create_address_space\<close> through \<open>paging_map_user_range\<close> to
  \<open>paging_destroy_address_space\<close>.
\<close>

subsection \<open>Mapping a range\<close>

lemma paging_align [simp]:
  "paging_align_down_page v PAGE_SIZE_4K = align_down_uintptr v PAGE_SIZE"
  "paging_align_up_page v PAGE_SIZE_4K = align_up_uintptr v PAGE_SIZE"
  by (simp_all add: paging_align_down_page_def paging_align_up_page_def align_down_uintptr_def
    align_up_uintptr_def PAGE_SIZE_4K_def PAGE_SIZE_def)

lemma map_range_in_root_maps:
  assumes ok: "space_ok u X R s" "R \<notin> X" and v: "unat virt + unat bytes \<le> 2 ^ 48"
    and ph: "unat phys + unat bytes + 8192 \<le> 2 ^ 52"
  shows "\<exists>r. map_range_in_root R virt phys bytes w x u s = Some r \<and>
    maps_range u X R (align_down_uintptr virt PAGE_SIZE) (align_up_uintptr (virt + bytes) PAGE_SIZE)
      (align_down_uintptr phys PAGE_SIZE) w x s r"
proof (cases "bytes = 0")
  case True
  then show ?thesis
    using steps_refl [OF ok(1)] by (auto simp: map_range_in_root_def maps_range_def)
next
  case False
  let ?v = "align_down_uintptr virt PAGE_SIZE" and ?e = "align_up_uintptr (virt + bytes) PAGE_SIZE"
    and ?p = "align_down_uintptr phys PAGE_SIZE"
  have R0: "R \<noteq> 0" using tree_page [OF space_okD(3) [OF ok(1)], of "[]" R] by (simp add: page_ok_def)
  have s1: "unat (virt + bytes) = unat virt + unat bytes" "unat (phys + bytes) = unat phys + unat bytes"
    using v ph by (simp_all add: unat_add_small)
  have e: "unat ?e = (unat virt + unat bytes + 4095) div 4096 * 4096"
    using unat_align_up [of "virt + bytes"] v by (simp add: s1)
  have d: "unat ?v = unat virt div 4096 * 4096" "unat ?p = unat phys div 4096 * 4096"
    by (rule unat_align_down)+
  define n where "n = (unat virt + unat bytes + 4095) div 4096 - unat virt div 4096"
  have le: "unat virt div 4096 \<le> (unat virt + unat bytes + 4095) div 4096" by (intro div_le_mono) simp
  have en: "unat ?e = unat ?v + n * 4096" unfolding e d(1) n_def using le by (simp add: diff_mult_distrib)
  have e48: "unat ?e \<le> 2 ^ 48"
  proof -
    have "(unat virt + unat bytes + 4095) div 4096 \<le> (2 ^ 48 + 4095) div 4096"
      using v by (intro div_le_mono) simp
    then show ?thesis by (simp add: e)
  qed
  have p52: "unat ?p + n * 4096 \<le> 2 ^ 52"
  proof -
    have "n * 4096 \<le> unat bytes + 8190"
      using en e d(1) div_mult_mod_eq [of "unat virt" 4096] div_mult_mod_eq [of "unat virt + unat bytes + 4095" 4096]
        mod_less_divisor [of 4096 "unat virt"] by linarith
    moreover have "unat ?p \<le> unat phys" by (simp add: d(2))
    ultimately show ?thesis using ph by linarith
  qed
  have "map_range_in_root R virt phys bytes w x u s = map_loop R ?v ?p ?e w x u s"
    using False R0 by (simp add: map_range_in_root_def word_less_nat_alt s1)
  moreover have "4096 dvd unat ?v" "4096 dvd unat ?p" by (simp_all add: d)
  ultimately show ?thesis
    using map_loop_maps [OF ok _ _ en e48 p52] by simp
qed

subsection \<open>Trees that share tables\<close>

definition tables_of :: "tables \<Rightarrow> u64 \<Rightarrow> u64 set" where
  "tables_of T R = {t. \<exists>p. length p \<le> 3 \<and> table_at T R p = Some t}"

lemma tables_ofI: "length p \<le> 3 \<Longrightarrow> table_at T R p = Some t \<Longrightarrow> t \<in> tables_of T R"
  by (auto simp: tables_of_def)

lemma kept_tables:
  assumes "\<forall>t \<in> tables_of T K. T' t = T t"
  shows "length p \<le> 4 \<Longrightarrow> table_at T' K p = table_at T K p" and "translate T' K v = translate T K v"
proof -
  have agree: "T' u j = T u j" if "length r \<le> 4" "r = q1 @ j # q2" "table_at T K q1 = Some u" for r q1 j q2 u
    using assms tables_ofI [OF _ that(3)] that(1,2) by simp
  show "length p \<le> 4 \<Longrightarrow> table_at T' K p = table_at T K p"
    by (rule table_at_cong) (rule agree)
  have "length (path v) \<le> 4" by simp
  then show "translate T' K v = translate T K v"
    unfolding translate_def by (intro xlate_cong) (rule agree, assumption+, rule path_less)
qed

lemma kept_tree:
  assumes tree: "tree_ok F T K" and kept: "\<forall>t \<in> tables_of T K. T' t = T t" and sub: "F' \<subseteq> F"
  shows "tree_ok F' T' K" and "tables_of T' K = tables_of T K"
proof -
  have at: "table_at T' K p = table_at T K p" if "length p \<le> 3" for p
    using kept_tables(1) [OF kept] that by simp
  then show "tables_of T' K = tables_of T K" by (auto simp: tables_of_def)
  show "tree_ok F' T' K"
    unfolding tree_ok_def
  proof (intro conjI allI impI)
    fix p t assume "length p \<le> 3" "table_at T' K p = Some t"
    then show "page_ok t" "block_set t 1 \<inter> F' = {}"
      using at tree_page [OF tree] tree_held [OF tree, of p t] sub by auto
  next
    fix p q t assume "length p \<le> 3" "length q \<le> 3" "table_at T' K p = Some t" "table_at T' K q = Some t"
    then show "p = q" using at tree_inj [OF tree] by simp
  next
    fix p t and i :: nat assume p: "length p \<le> 2" "table_at T' K p = Some t" "i < 512"
    then have "table_at T K p = Some t" "t \<in> tables_of T K" using at [of p] tables_ofI [of p T K t] by auto
    then show "entry_ok (length p) (T' t i)" using kept tree_entry [OF tree p(1) _ p(3)] by simp
  qed
qed

text \<open>The kernel's tree: no entry of its root is accessible to user mode.\<close>

definition kernel_ok :: "paging_state \<Rightarrow> bool" where
  "kernel_ok s \<longleftrightarrow> pages_ok s \<and> tree_ok (avail s) (pg_tables s) (g_pml4 s) \<and>
     (\<forall>i < 512. \<not> bit (pg_tables s (g_pml4 s) i) 2)"

text \<open>
  A program's tree beside the kernel's: its root has the kernel's entries, and entries of its own in
  slots the kernel does not use; the tables below those are its own.
\<close>

definition isolated :: "u64 \<Rightarrow> paging_state \<Rightarrow> bool" where
  "isolated R s \<longleftrightarrow> (let T = pg_tables s; K = g_pml4 s in
     kernel_ok s \<and> tree_ok (avail s) T R \<and> R \<notin> tables_of T K \<and>
     (\<forall>i < 512. T R i = T K i \<or> T K i = 0 \<and> bit (T R i) 2) \<and>
     (\<forall>i p t. length p \<le> 2 \<longrightarrow> table_at T R (i # p) = Some t \<longrightarrow> T R i \<noteq> T K i \<longrightarrow> t \<notin> tables_of T K) \<and>
     (\<forall>p t i. length p = 2 \<longrightarrow> table_at T R p = Some t \<longrightarrow> user_path T R p \<longrightarrow> i < 512 \<longrightarrow> \<not> bit (T t i) 7))"

lemma isolatedD:
  assumes "isolated R s"
  shows "kernel_ok s" "tree_ok (avail s) (pg_tables s) R" "R \<notin> tables_of (pg_tables s) (g_pml4 s)"
    "i < 512 \<Longrightarrow> pg_tables s R i = pg_tables s (g_pml4 s) i \<or>
       pg_tables s (g_pml4 s) i = 0 \<and> bit (pg_tables s R i) 2"
    "length p \<le> 2 \<Longrightarrow> table_at (pg_tables s) R (i # p) = Some t \<Longrightarrow>
       pg_tables s R i \<noteq> pg_tables s (g_pml4 s) i \<Longrightarrow> t \<notin> tables_of (pg_tables s) (g_pml4 s)"
    "length q = 2 \<Longrightarrow> table_at (pg_tables s) R q = Some t \<Longrightarrow> user_path (pg_tables s) R q \<Longrightarrow>
       j < 512 \<Longrightarrow> \<not> bit (pg_tables s t j) 7"
  using assms by (auto simp: isolated_def Let_def)

lemma kernel_okD:
  assumes "kernel_ok s"
  shows "pages_ok s" "tree_ok (avail s) (pg_tables s) (g_pml4 s)"
    "i < 512 \<Longrightarrow> \<not> bit (pg_tables s (g_pml4 s) i) 2"
    "t \<in> tables_of (pg_tables s) (g_pml4 s) \<Longrightarrow> block_set t 1 \<inter> avail s = {}"
proof -
  show ok: "pages_ok s" "tree_ok (avail s) (pg_tables s) (g_pml4 s)"
    "i < 512 \<Longrightarrow> \<not> bit (pg_tables s (g_pml4 s) i) 2"
    using assms by (auto simp: kernel_ok_def)
  assume "t \<in> tables_of (pg_tables s) (g_pml4 s)"
  then obtain p where "length p \<le> 3" "table_at (pg_tables s) (g_pml4 s) p = Some t"
    by (auto simp: tables_of_def)
  then show "block_set t 1 \<inter> avail s = {}" by (rule tree_held [OF ok(2)])
qed

lemma isolated_space_ok:
  assumes iso: "isolated R s"
  shows "space_ok True (tables_of (pg_tables s) (g_pml4 s)) R s"
proof -
  note D = isolatedD [OF iso] and K = kernel_okD [OF isolatedD(1) [OF iso]]
  have "t \<notin> tables_of (pg_tables s) (g_pml4 s)"
    if "length p \<le> 3" "table_at (pg_tables s) R p = Some t" "user_path (pg_tables s) R p" for p t
  proof (cases p)
    case Nil
    then show ?thesis using that D(3) by simp
  next
    case (Cons i p')
    then have "i < 512" "bit (pg_tables s R i) 2" using that by (auto split: if_splits)
    then have "pg_tables s R i \<noteq> pg_tables s (g_pml4 s) i" using K(3) [of i] by auto
    then show ?thesis using D(5) [of p' i t] that Cons by simp
  qed
  then show ?thesis
    using K D(2,6) by (auto simp: space_ok_def guarded_def)
qed

lemma page_owner:
  assumes "page_ok t" and "page_ok w" and "unat t \<in> block_set w 1"
  shows "t = w"
proof -
  obtain a b where "unat t = 4096 * a" "unat w = 4096 * b" using assms(1,2) by (auto simp: page_ok_def elim!: dvdE)
  moreover from this have "a = b" using assms(3) by (simp add: block_set_def)
  ultimately show ?thesis by (simp add: word_unat_eq_iff)
qed

text \<open>Steps in user mode keep the program's tree isolated and the kernel's translations as they are.\<close>

lemma steps_isolated:
  assumes iso: "isolated R s" and st: "steps True (tables_of (pg_tables s) (g_pml4 s)) R s s'"
  shows "isolated R s'" and "translate (pg_tables s') (g_pml4 s') v = translate (pg_tables s) (g_pml4 s) v"
proof -
  let ?T = "pg_tables s" and ?T' = "pg_tables s'" and ?K = "g_pml4 s"
  note D = isolatedD [OF iso] and K = kernel_okD [OF isolatedD(1) [OF iso]] and S = stepsD [OF st]
  have K': "g_pml4 s' = ?K" by (rule S(7))
  have kept: "\<forall>t \<in> tables_of ?T ?K. ?T' t = ?T t" using S(3) by blast
  have KK: "?K \<in> tables_of ?T ?K" using tables_ofI [of "[]" ?T ?K] by simp
  have treeK: "tree_ok (avail s') ?T' ?K" and same: "tables_of ?T' ?K = tables_of ?T ?K"
    using kept_tree [OF K(2) kept S(2)] by auto
  have rootK: "?T' ?K = ?T ?K" using kept KK by blast
  note sp = space_okD [OF S(1)]
  have rel: "?T' R i = ?T ?K i \<or> ?T ?K i = 0 \<and> bit (?T' R i) 2" if "i < 512" for i
    using st D(4) [OF that] that by (auto simp: steps_def)
  have "t \<notin> tables_of ?T ?K" if p: "length p \<le> 2" "table_at ?T' R (i # p) = Some t" "?T' R i \<noteq> ?T ?K i" for i p t
  proof
    assume X: "t \<in> tables_of ?T ?K"
    have t: "page_ok t" using tree_page [OF sp(3) _ p(2)] p(1) by simp
    have in_t: "unat t \<in> block_set t 1" by (simp add: block_set_def)
    have "t \<in> {t. \<exists>q. length q \<le> 3 \<and> table_at ?T' R q = Some t}"
      using p(1,2) by (intro CollectI exI [of _ "i # p"]) simp
    then have "unat t \<in> spans ?T' R" unfolding spans_def using in_t by (rule UN_I)
    moreover have "unat t \<notin> avail s" using K(4) [OF X] in_t by auto
    ultimately have "unat t \<in> spans ?T R" unfolding S(6) by blast
    then obtain q w where q: "length q \<le> 3" "table_at ?T R q = Some w" "unat t \<in> block_set w 1"
      by (auto simp: spans_def)
    have "w = t" using page_owner [OF t tree_page [OF D(2) q(1,2)] q(3)] by simp
    then have at: "table_at ?T R q = Some t" using q by simp
    then have "table_at ?T' R q = Some t" using S(4) q(1) by simp
    then have q_eq: "q = i # p" using tree_inj [OF sp(3) q(1) _ _ p(2)] p(1) by simp
    then have i: "i < 512" "is_table (?T R i)" using at by (auto split: if_splits)
    then have "?T R i \<noteq> 0" by (auto simp: is_table_def)
    then have "?T' R i = ?T R i" using st i by (auto simp: steps_def)
    then show False using D(5) [of p i t] at q_eq p(1,3) X by simp
  qed
  moreover have "\<not> bit (?T' t j) 7" if "length q = 2" "table_at ?T' R q = Some t" "user_path ?T' R q" "j < 512" for q t j
    using sp(4) that by (simp add: guarded_def)
  moreover have "kernel_ok s'"
    using treeK rootK K(3) K' S(1) by (simp add: kernel_ok_def space_ok_def)
  moreover have "R \<notin> tables_of ?T ?K" by (rule D(3))
  ultimately show "isolated R s'"
    using sp(3) rel by (simp add: isolated_def K' same rootK)
  show "translate ?T' (g_pml4 s') v = translate ?T ?K v"
    using kept_tables(2) [OF kept] K' by simp
qed

subsection \<open>Creating and mapping\<close>

lemma translate_sub:
  assumes "\<And>i. i < 512 \<Longrightarrow> T' R i = T K i" and "\<And>t. t \<in> tables_of T K \<Longrightarrow> t \<noteq> K \<Longrightarrow> T' t = T t"
    and tree: "tree_ok F T K"
  shows "length p \<le> 3 \<Longrightarrow> p \<noteq> [] \<Longrightarrow> table_at T' R p = table_at T K p"
    and "translate T' R v = translate T K v"
proof -
  have agree: "T' u j = T u j"
    if "i < 512" "is_table (T K i)" "length r \<le> 3" "r = q1 @ j # q2" "table_at T (child (T K i)) q1 = Some u"
    for i r q1 j q2 u
  proof -
    have at: "table_at T K (i # q1) = Some u" and len: "length (i # q1) \<le> 3" using that by simp_all
    then have "u \<noteq> K" using tree_inj [OF tree len _ at, of "[]"] by auto
    then show ?thesis using assms(2) [OF tables_ofI [OF len at]] by simp
  qed
  show "table_at T' R p = table_at T K p" if p: "length p \<le> 3" "p \<noteq> []"
  proof (cases p)
    case (Cons i r)
    have "table_at T' (child (T K i)) r = table_at T (child (T K i)) r" if "i < 512" "is_table (T K i)"
      by (rule table_at_cong) (rule agree [OF that, of r], use p Cons in auto)
    then show ?thesis using Cons assms(1) [of i] by auto
  qed (use p in simp)
  obtain i r where ir: "path v = i # r" "length r = 3" using length_path [of v] by (cases "path v") auto
  have i: "i < 512" "\<And>k. k \<in> set r \<Longrightarrow> k < 512" using path_less [of _ v] ir by auto
  have "xlate T' (child (T K i)) r v = xlate T (child (T K i)) r v" if "is_table (T K i)"
    by (rule xlate_cong) (rule agree [OF i(1) that, of r], use ir i in auto)
  then show "translate T' R v = translate T K v"
    using ir i(1) assms(1) [of i] by (auto simp: translate_def is_table_def)
qed

lemma paging_create_address_space_run:
  assumes "kernel_ok s" and "paging_create_address_space s = (R, s')"
  shows "R = 0 \<Longrightarrow> s' = s"
    and "R \<noteq> 0 \<Longrightarrow> page_ok R \<and> block_set R 1 \<subseteq> avail s \<and> avail s' = avail s - block_set R 1 \<and> pages_ok s' \<and>
      g_memory_ready (pg_mem s') = g_memory_ready (pg_mem s) \<and> g_pml4 s' = g_pml4 s \<and> cr3 s' = cr3 s \<and>
      pg_tables s' = (pg_tables s)(R := (\<lambda>i. if i < 512 then pg_tables s (g_pml4 s) i else 0))"
proof -
  note K = kernel_okD [OF assms(1)]
  have K0: "g_pml4 s \<noteq> 0" using tree_page [OF K(2), of "[]"] by (simp add: page_ok_def)
  obtain c s1 where a: "alloc_page_table s = (c, s1)" by fastforce
  note A = alloc_page_table_cases [OF K(1) a]
  show "s' = s" if "R = 0"
    using that assms(2) K0 a A(1) by (auto simp: paging_create_address_space_def split: if_splits)
  assume R: "R \<noteq> 0"
  then have c: "c = R" using assms(2) K0 a by (auto simp: paging_create_address_space_def split: if_splits)
  have RK: "R \<noteq> g_pml4 s" using tree_fresh [OF K(2), of "[]" R] A(2) R c by auto
  have loop: "fold (\<lambda>i s. set_entry R i (pg_tables s (g_pml4 s) i) s) [0..<n] s1 =
      fold (\<lambda>i. set_entry R i (pg_tables s (g_pml4 s) i)) [0..<n] s1" for n
  proof (induction n)
    case (Suc n)
    show ?case using Suc RK A(2) R c
      by (simp del: upt_Suc add: upt_Suc_append fold_set_entry)
  qed simp
  have T1: "pg_tables s1 R i = 0" for i using A(2) R c by simp
  have "s' = s1\<lparr>pg_tables := (pg_tables s1)(R := (\<lambda>i. if i < 512 then pg_tables s (g_pml4 s) i else pg_tables s1 R i))\<rparr>"
    using assms(2) K0 a c R unfolding fold_set_entry [symmetric] loop [symmetric]
    by (auto simp: paging_create_address_space_def PAGE_TABLE_ENTRIES_def)
  then show "page_ok R \<and> block_set R 1 \<subseteq> avail s \<and> avail s' = avail s - block_set R 1 \<and> pages_ok s' \<and>
      g_memory_ready (pg_mem s') = g_memory_ready (pg_mem s) \<and> g_pml4 s' = g_pml4 s \<and> cr3 s' = cr3 s \<and>
      pg_tables s' = (pg_tables s)(R := (\<lambda>i. if i < 512 then pg_tables s (g_pml4 s) i else 0))"
    unfolding T1 using A(2) R c by (auto simp: avail_def pages_ok_def)
qed

lemma create_isolated:
  assumes ker: "kernel_ok s" and run: "paging_create_address_space s = (R, s')" and R: "R \<noteq> 0"
  shows "isolated R s'" and "translate (pg_tables s') R v = translate (pg_tables s) (g_pml4 s) v"
    and "translate (pg_tables s') (g_pml4 s') v = translate (pg_tables s) (g_pml4 s) v"
    and "tables_of (pg_tables s') R \<subseteq> insert R (tables_of (pg_tables s) (g_pml4 s))"
    and "tables_of (pg_tables s') (g_pml4 s') = tables_of (pg_tables s) (g_pml4 s)"
proof -
  let ?T = "pg_tables s" and ?T' = "pg_tables s'" and ?K = "g_pml4 s"
  note K = kernel_okD [OF ker] and C = paging_create_address_space_run(2) [OF ker run R]
  have RX: "R \<notin> tables_of ?T ?K"
    using tree_fresh [OF K(2) _, of _ R] C by (auto simp: tables_of_def)
  have root: "?T' R i = ?T ?K i" if "i < 512" for i using C that by simp
  have kept: "\<forall>t \<in> tables_of ?T ?K. ?T' t = ?T t" using RX C by auto
  have sub: "avail s' \<subseteq> avail s" using C by auto
  note kt = kept_tree [OF K(2) kept sub]
  have at: "table_at ?T' R p = table_at ?T ?K p" if "length p \<le> 3" "p \<noteq> []" for p
    using translate_sub(1) [of ?T' R ?T ?K, OF root _ K(2)] kept that by blast
  show "translate ?T' R v = translate ?T ?K v"
    using translate_sub(2) [of ?T' R ?T ?K, OF root _ K(2)] kept by blast
  have K': "g_pml4 s' = ?K" using C by simp
  show "translate ?T' (g_pml4 s') v = translate ?T ?K v"
    unfolding K' by (rule kept_tables(2) [OF kept])
  have KX: "?K \<in> tables_of ?T ?K" using tables_ofI [of "[]" ?T ?K] by simp
  have rootK: "?T' ?K = ?T ?K" using kept KX by blast
  show same: "tables_of ?T' (g_pml4 s') = tables_of ?T ?K" unfolding K' by (rule kt(2))
  show "tables_of ?T' R \<subseteq> insert R (tables_of ?T ?K)"
  proof
    fix t assume "t \<in> tables_of ?T' R"
    then obtain p where "length p \<le> 3" "table_at ?T' R p = Some t" by (auto simp: tables_of_def)
    then show "t \<in> insert R (tables_of ?T ?K)" using at [of p] tables_ofI [of p ?T ?K t] by (cases "p = []") auto
  qed
  have tree: "tree_ok (avail s') ?T' R"
    unfolding tree_ok_def
  proof (intro conjI allI impI)
    fix p t assume p: "length p \<le> 3" "table_at ?T' R p = Some t"
    show "page_ok t" using p at C tree_page [OF K(2) p(1)] by (cases "p = []") auto
    show "block_set t 1 \<inter> avail s' = {}" using p at C tree_held [OF K(2) p(1)] by (cases "p = []") auto
  next
    fix p q t assume p: "length p \<le> 3" "length q \<le> 3" "table_at ?T' R p = Some t" "table_at ?T' R q = Some t"
    have ne: "t \<noteq> R" if "length r \<le> 3" "r \<noteq> []" "table_at ?T' R r = Some t" for r
      using that at [of r] RX tables_ofI [of r ?T ?K t] by auto
    show "p = q"
    proof (cases "p = [] \<or> q = []")
      case True
      then show ?thesis using p ne [of p] ne [of q] by auto blast+
    next
      case False
      then show ?thesis using p at [of p] at [of q] by (intro tree_inj [OF K(2) p(1,2), of t]) simp_all
    qed
  next
    fix p t and i :: nat assume p: "length p \<le> 2" "table_at ?T' R p = Some t" "i < 512"
    show "entry_ok (length p) (?T' t i)"
    proof (cases "p = []")
      case True
      then show ?thesis using p root tree_entry [OF K(2), of "[]" ?K i] by simp
    next
      case False
      then have "table_at ?T ?K p = Some t" using at [of p] p by simp
      then show ?thesis using tree_entry [OF K(2) p(1) _ p(3)] kept tables_ofI [of p ?T ?K t] p(1) by simp
    qed
  qed
  have large: "\<not> bit (?T' t j) 7" if "length p = 2" "user_path ?T' R p" "table_at ?T' R p = Some t" for p t j
  proof -
    have "p \<noteq> []" using that(1) by auto
    then obtain i q where "p = i # q" by (cases p) auto
    then have "i < 512" "bit (?T' R i) 2" using that by (auto split: if_splits)
    then show ?thesis using root [of i] K(3) [of i] by simp
  qed
  have "kernel_ok s'"
    unfolding kernel_ok_def K' using kt(1) conjunct1 [OF C [THEN conjunct2, THEN conjunct2, THEN conjunct2]] K(3)
    by (simp only: rootK) blast
  then show "isolated R s'"
    using tree RX root same large rootK unfolding isolated_def Let_def K' by auto
qed

lemma maps_range_user:
  assumes iso: "isolated R s" and v: "unat virt + unat bytes \<le> 2 ^ 48"
    and ph: "unat phys + unat bytes + 8192 \<le> 2 ^ 52"
  shows "\<exists>done s'. paging_map_user_range R virt phys bytes w x s = Some (done, s') \<and>
    steps True (tables_of (pg_tables s) (g_pml4 s)) R s (s'\<lparr>cr3 := cr3 s\<rparr>) \<and>
    (\<forall>v. unat v < 2 ^ 48 \<longrightarrow>
       (if unat (align_down_uintptr virt PAGE_SIZE) \<le> unat v \<and> unat v < unat (align_up_uintptr (virt + bytes) PAGE_SIZE)
        then done \<longrightarrow> translate (pg_tables s') R v = Some (mapped (align_down_uintptr virt PAGE_SIZE)
               (align_down_uintptr phys PAGE_SIZE) w True x v)
        else translate (pg_tables s') R v = translate (pg_tables s) R v))"
proof -
  let ?X = "tables_of (pg_tables s) (g_pml4 s)"
  note D = isolatedD [OF iso]
  obtain r where r: "map_range_in_root R virt phys bytes w x True s = Some r"
      "maps_range True ?X R (align_down_uintptr virt PAGE_SIZE) (align_up_uintptr (virt + bytes) PAGE_SIZE)
        (align_down_uintptr phys PAGE_SIZE) w x s r"
    using map_range_in_root_maps [OF isolated_space_ok [OF iso] D(3) v ph] by blast
  have "page_ok R" using tree_page [OF D(2), of "[]"] by simp
  then have R: "child R = R" "R \<noteq> 0"
    by (auto intro!: bit_word_eqI simp: bit_and_iff bit_addr_mask dest: page_ok_bits) (simp add: page_ok_def)
  obtain d s1 where ds: "r = (d, s1)" by fastforce
  have "cr3 s1 = cr3 s" using r(2) stepsD(8) [of True ?X R s s1] by (simp add: maps_range_def ds)
  then have "\<exists>s'. paging_map_user_range R virt phys bytes w x s = Some (d, s') \<and>
      pg_tables s' = pg_tables s1 \<and> s'\<lparr>cr3 := cr3 s\<rparr> = s1"
    using r(1) R by (auto simp: paging_map_user_range_def ds load_cr3_def)
  then obtain s' where s': "paging_map_user_range R virt phys bytes w x s = Some (d, s')"
      "pg_tables s' = pg_tables s1" "s'\<lparr>cr3 := cr3 s\<rparr> = s1" by blast
  note Q = r(2) [unfolded maps_range_def ds fst_conv snd_conv]
  show ?thesis
    by (intro exI conjI, rule s'(1)) (unfold s'(2,3), rule Q [THEN conjunct1], rule Q [THEN conjunct2])
qed

lemma isolated_cr3 [simp]: "isolated R (s\<lparr>cr3 := c\<rparr>) = isolated R s"
  by (simp add: isolated_def kernel_ok_def pages_ok_def avail_def)

end
