(* ===== verification/PagingDestroy.thy ===== *)
theory PagingDestroy
  imports PagingSpaces
begin

text \<open>
  \<open>paging_destroy_address_space\<close>: the pages it frees are exactly the tables that are the
  program's own, each once, so the whole life of an address space returns every page it took.
\<close>

subsection \<open>The pages that are freed, in order\<close>

text \<open>\<open>freed n T t\<close> lists what \<open>destroy_table_tree\<close> frees below the table \<open>t\<close> of level \<open>n\<close>.\<close>

primrec freed :: "nat \<Rightarrow> tables \<Rightarrow> u64 \<Rightarrow> u64 list" where
  "freed 0 T t = []"
| "freed (Suc n) T t =
     concat (map (\<lambda>i. if n \<noteq> 0 \<and> is_table (T t i) then freed n T (child (T t i)) @ [child (T t i)] else [])
       [0..<512])"

definition free_all :: "u64 list \<Rightarrow> memory_state \<Rightarrow> memory_state" where
  "free_all ps m = fold (\<lambda>p. free_pages p 1) ps m"

lemma free_all_simps [simp]:
  "free_all [] m = m" "free_all (p # ps) m = free_all ps (free_pages p 1 m)"
  "free_all (ps @ qs) m = free_all qs (free_all ps m)"
  by (simp_all add: free_all_def)

lemma fold_free_all:
  assumes "\<And>i m. i \<in> set xs \<Longrightarrow> f i m = free_all (g i) m"
  shows "fold f xs m = free_all (concat (map g xs)) m"
  using assms by (induction xs arbitrary: m) auto

lemma destroy_table_tree_frees:
  assumes "t \<noteq> 0" and "\<And>p w. length p < n \<Longrightarrow> table_at T t p = Some w \<Longrightarrow> w \<noteq> 0"
  shows "destroy_table_tree n t T m = free_all (freed n T t) m"
  using assms
proof (induction n arbitrary: t m)
  case 0
  then show ?case by simp
next
  case (Suc n)
  let ?f = "\<lambda>i m. let entry = T t i in if entry AND PAGE_PRESENT = 0 then m
      else if Suc n = 1 \<or> entry AND PAGE_PAGE_SIZE \<noteq> 0 then m
      else free_pages (child entry) 1 (destroy_table_tree n (child entry) T m)"
  let ?g = "\<lambda>i. if n \<noteq> 0 \<and> is_table (T t i) then freed n T (child (T t i)) @ [child (T t i)] else []"
  have "?f i m = free_all (?g i) m" if i: "i \<in> set [0..<512]" for i m
  proof (cases "n \<noteq> 0 \<and> is_table (T t i)")
    case True
    have "destroy_table_tree n (child (T t i)) T m = free_all (freed n T (child (T t i))) m"
    proof (rule Suc.IH)
      show "child (T t i) \<noteq> 0" using Suc.prems(2) [of "[i]"] True i by simp
      show "w \<noteq> 0" if "length p < n" "table_at T (child (T t i)) p = Some w" for p w
        using Suc.prems(2) [of "i # p" w] that True i by simp
    qed
    then show ?thesis using True by (simp add: Let_def is_table_def)
  qed (auto simp: Let_def is_table_def)
  from fold_free_all [where f = ?f and g = ?g and xs = "[0..<512]", OF this] show ?case
    unfolding destroy_table_tree.simps freed.simps PAGE_TABLE_ENTRIES_def
    using Suc.prems(1) by (simp only: if_False)
qed

subsection \<open>Freeing a list of pages\<close>

text \<open>Once the table of free ranges is full every later free is refused: when it has room at the end,
  no free was lost.\<close>

definition roomy :: "memory_state \<Rightarrow> bool" where
  "roomy m \<longleftrightarrow> g_memory_ready m \<and> length (g_free_ranges m) < MEMORY_MAX_FREE_RANGES"

lemma not_roomy: "\<not> roomy m \<Longrightarrow> free_pages p n m = m"
  by (auto simp: roomy_def free_pages_def append_free_range_def)

lemma free_all_ok:
  assumes "mem_inv m" and "distinct ps"
    and "\<forall>p \<in> set ps. page_ok p \<and> block_set p 1 \<inter> free_set (g_free_ranges m) = {}"
  shows "mem_inv (free_all ps m) \<and> g_memory_ready (free_all ps m) = g_memory_ready m \<and>
    free_set (g_free_ranges (free_all ps m)) \<subseteq> free_set (g_free_ranges m) \<union> (\<Union>p \<in> set ps. block_set p 1) \<and>
    (roomy (free_all ps m) \<longrightarrow> roomy m \<and>
       free_set (g_free_ranges (free_all ps m)) = free_set (g_free_ranges m) \<union> (\<Union>p \<in> set ps. block_set p 1)) \<and>
    (g_memory_ready m \<and> length (g_free_ranges m) + length ps \<le> MEMORY_MAX_FREE_RANGES \<longrightarrow>
       free_set (g_free_ranges (free_all ps m)) = free_set (g_free_ranges m) \<union> (\<Union>p \<in> set ps. block_set p 1))"
  using assms
proof (induction ps arbitrary: m)
  case Nil
  then show ?case by simp
next
  case (Cons p ps)
  let ?m = "free_pages p 1 m"
  have p: "page_ok p" "block_set p 1 \<inter> free_set (g_free_ranges m) = {}" using Cons.prems by auto
  have blk: "block_ok p 1"
  proof -
    have "4096 dvd unat p" "unat p < 2 ^ 52" using p by (simp_all add: page_ok_def)
    then show ?thesis by (simp add: block_ok_def range_ok_def lo_def hi_def)
  qed
  have p0: "p \<noteq> 0" using p by (simp add: page_ok_def)
  have disj: "free_set (g_free_ranges m) \<inter> block_set p 1 = {}" using p by blast
  note F = free_pages_cases [OF Cons.prems(1) blk p0 disj]
  have len: "length (g_free_ranges ?m) \<le> Suc (length (g_free_ranges m))"
  proof (cases "g_memory_ready m \<and> length (g_free_ranges m) < MEMORY_MAX_FREE_RANGES")
    case True
    then obtain rs' where "append_free_range p 1 m = (True, m\<lparr>g_free_ranges := rs'\<rparr>)"
        "length rs' \<le> Suc (length (g_free_ranges m))"
      using append_free_range_ok [OF _ blk disj] Cons.prems(1) by (auto simp: mem_inv_def)
    then show ?thesis using True p0 by (simp add: free_pages_def)
  next
    case False
    then have "?m = m" by (auto simp: free_pages_def append_free_range_def)
    then show ?thesis by simp
  qed
  have rest: "\<forall>q \<in> set ps. page_ok q \<and> block_set q 1 \<inter> free_set (g_free_ranges ?m) = {}"
  proof
    fix q assume q: "q \<in> set ps"
    have "q \<noteq> p" using q Cons.prems(2) by auto
    moreover have "page_ok q" "block_set q 1 \<inter> free_set (g_free_ranges m) = {}" using Cons.prems(3) q by auto
    moreover have "block_set q 1 \<inter> block_set p 1 = {}"
    proof -
      obtain a b where "unat q = 4096 * a" "unat p = 4096 * b"
        using \<open>page_ok q\<close> p(1) by (auto simp: page_ok_def elim!: dvdE)
      moreover from this have "a \<noteq> b" using \<open>q \<noteq> p\<close> by (auto simp: word_unat_eq_iff)
      ultimately show ?thesis by (auto simp: block_set_def)
    qed
    ultimately show "page_ok q \<and> block_set q 1 \<inter> free_set (g_free_ranges ?m) = {}"
      using F(2) by (auto split: if_splits)
  qed
  have IH: "mem_inv (free_all ps ?m) \<and> g_memory_ready (free_all ps ?m) = g_memory_ready ?m \<and>
    free_set (g_free_ranges (free_all ps ?m)) \<subseteq> free_set (g_free_ranges ?m) \<union> (\<Union>p \<in> set ps. block_set p 1) \<and>
    (roomy (free_all ps ?m) \<longrightarrow> roomy ?m \<and>
       free_set (g_free_ranges (free_all ps ?m)) = free_set (g_free_ranges ?m) \<union> (\<Union>p \<in> set ps. block_set p 1)) \<and>
    (g_memory_ready ?m \<and> length (g_free_ranges ?m) + length ps \<le> MEMORY_MAX_FREE_RANGES \<longrightarrow>
       free_set (g_free_ranges (free_all ps ?m)) = free_set (g_free_ranges ?m) \<union> (\<Union>p \<in> set ps. block_set p 1))"
    using Cons.IH [OF F(1) _ rest] Cons.prems(2) by simp
  have sub: "free_set (g_free_ranges ?m) \<subseteq> free_set (g_free_ranges m) \<union> block_set p 1"
    using F(2) by auto
  have eq: "free_set (g_free_ranges ?m) = free_set (g_free_ranges m) \<union> block_set p 1"
    if "g_memory_ready m" "length (g_free_ranges m) + length (p # ps) \<le> MEMORY_MAX_FREE_RANGES"
    using F(2) that by simp
  have room: "roomy m \<and> free_set (g_free_ranges ?m) = free_set (g_free_ranges m) \<union> block_set p 1" if "roomy ?m"
    using F(2) that not_roomy [of m p 1] by (cases "roomy m") (auto simp: roomy_def)
  show ?case
    using IH F(3) sub eq len room by auto
qed

subsection \<open>The tables a program owns\<close>

lemma distinct_concat_map:
  assumes "distinct xs" and "\<And>x. x \<in> set xs \<Longrightarrow> distinct (f x)"
    and "\<And>x y. x \<in> set xs \<Longrightarrow> y \<in> set xs \<Longrightarrow> x \<noteq> y \<Longrightarrow> set (f x) \<inter> set (f y) = {}"
  shows "distinct (concat (map f xs))"
  using assms
proof (induction xs)
  case (Cons x xs)
  have "set (f x) \<inter> set (concat (map f xs)) = {}"
    using Cons.prems(1,3) by fastforce
  then show ?case using Cons by simp
qed simp

text \<open>What freeing below slot \<open>i\<close> of a table of level \<open>n + 1\<close> lists.\<close>

definition slot_freed :: "nat \<Rightarrow> tables \<Rightarrow> u64 \<Rightarrow> nat \<Rightarrow> u64 list" where
  "slot_freed n T t i =
     (if n \<noteq> 0 \<and> is_table (T t i) then freed n T (child (T t i)) @ [child (T t i)] else [])"

lemma freed_slots: "freed (Suc n) T t = concat (map (slot_freed n T t) [0..<512])"
  by (simp add: slot_freed_def [abs_def])

definition below :: "nat \<Rightarrow> tables \<Rightarrow> u64 \<Rightarrow> u64 set" where
  "below n T t = {w. \<exists>p. p \<noteq> [] \<and> length p < n \<and> table_at T t p = Some w}"

lemma slot_freed_set:
  assumes "set (freed n T (child (T t i))) = below n T (child (T t i))" and "i < 512"
  shows "set (slot_freed n T t i) = {w. \<exists>p. length p < n \<and> table_at T t (i # p) = Some w}"
proof (cases "n \<noteq> 0 \<and> is_table (T t i)")
  case True
  have split: "(\<exists>p. P p) \<longleftrightarrow> P [] \<or> (\<exists>p. p \<noteq> [] \<and> P p)" for P :: "nat list \<Rightarrow> bool" by metis
  show ?thesis
    unfolding slot_freed_def using True assms
    by (simp add: below_def, subst (2) split) auto
qed (use assms in \<open>auto simp: slot_freed_def\<close>)

lemma slots_set:
  assumes "\<And>i. i < 512 \<Longrightarrow> is_table (T t i) \<Longrightarrow> set (freed n T (child (T t i))) = below n T (child (T t i))"
  shows "set (freed (Suc n) T t) = below (Suc n) T t"
proof -
  have one: "set (slot_freed n T t i) = {w. \<exists>p. length p < n \<and> table_at T t (i # p) = Some w}" if "i < 512" for i
  proof (cases "is_table (T t i)")
    case True
    then show ?thesis using slot_freed_set assms that by blast
  qed (simp add: slot_freed_def)
  have "set (freed (Suc n) T t) = (\<Union>i \<in> {..<512}. {w. \<exists>p. length p < n \<and> table_at T t (i # p) = Some w})"
    unfolding freed_slots using one by auto
  also have "\<dots> = below (Suc n) T t"
  proof (intro set_eqI iffI)
    fix w assume "w \<in> below (Suc n) T t"
    then obtain p where p: "p \<noteq> []" "length p < Suc n" "table_at T t p = Some w" by (auto simp: below_def)
    then obtain i p' where ip: "p = i # p'" by (cases p) auto
    then have "i < 512" using p(3) by (auto split: if_splits)
    then show "w \<in> (\<Union>i \<in> {..<512}. {w. \<exists>p. length p < n \<and> table_at T t (i # p) = Some w})"
      using p ip by (intro UN_I [of i]) (auto simp del: table_at.simps)
  next
    fix w assume "w \<in> (\<Union>i \<in> {..<512}. {w. \<exists>p. length p < n \<and> table_at T t (i # p) = Some w})"
    then obtain i p where "length p < n" "table_at T t (i # p) = Some w" by blast
    then show "w \<in> below (Suc n) T t" unfolding below_def by (intro CollectI exI [of _ "i # p"]) simp
  qed
  finally show ?thesis .
qed

text \<open>In a tree, \<open>t\<close> at the path \<open>q\<close>: what its slots free is disjoint.\<close>

lemma slot_freed_distinct:
  assumes tree: "tree_ok F T R" and q: "table_at T R q = Some t" "length q + n \<le> 3"
    and IH: "\<And>i. i < 512 \<Longrightarrow> is_table (T t i) \<Longrightarrow>
      set (freed n T (child (T t i))) = below n T (child (T t i)) \<and> distinct (freed n T (child (T t i)))"
  shows "distinct (freed (Suc n) T t)"
  unfolding freed_slots
proof (rule distinct_concat_map)
  fix i assume "i \<in> set [0..<512]"
  then have i: "i < 512" by simp
  show "distinct (slot_freed n T t i)"
  proof (cases "n \<noteq> 0 \<and> is_table (T t i)")
    case True
    have b: "table_at T R (q @ [i]) = Some (child (T t i))"
      using q(1) i True by (simp add: table_at_append)
    have "child (T t i) \<notin> below n T (child (T t i))"
    proof
      assume "child (T t i) \<in> below n T (child (T t i))"
      then obtain p where p: "p \<noteq> []" "length p < n" "table_at T (child (T t i)) p = Some (child (T t i))"
        by (auto simp: below_def)
      have "table_at T R ((q @ [i]) @ p) = Some (child (T t i))" by (subst table_at_append) (simp add: b p)
      then show False using tree_inj [OF tree _ _ _ b, of "(q @ [i]) @ p"] p q(2) by simp
    qed
    then show ?thesis using IH [OF i] True by (simp add: slot_freed_def)
  qed (auto simp: slot_freed_def)
next
  fix i j assume ij: "i \<in> set [0..<512]" "j \<in> set [0..<512]" "(i::nat) \<noteq> j"
  have el: "\<exists>p. length p < n \<and> table_at T t (k # p) = Some w" if "w \<in> set (slot_freed n T t k)" "k < 512" for k w
  proof (cases "is_table (T t k)")
    case True
    then show ?thesis using slot_freed_set [of n T t k] IH [OF that(2)] that by auto
  qed (use that in \<open>simp add: slot_freed_def\<close>)
  show "set (slot_freed n T t i) \<inter> set (slot_freed n T t j) = {}"
  proof (rule equals0I)
    fix w assume "w \<in> set (slot_freed n T t i) \<inter> set (slot_freed n T t j)"
    then obtain p p' where p: "length p < n" "table_at T t (i # p) = Some w"
        "length p' < n" "table_at T t (j # p') = Some w"
      using el [of w i] el [of w j] ij by auto
    have "table_at T R (q @ i # p) = Some w" "table_at T R (q @ j # p') = Some w"
      using q(1) p by (simp_all add: table_at_append del: table_at.simps)
    then show False using tree_inj [OF tree, of "q @ i # p" "q @ j # p'" w] p q(2) ij(3) by simp
  qed
qed simp

lemma freed_tables:
  assumes tree: "tree_ok F T R" and "table_at T R q = Some t" and "length q + n \<le> 4"
  shows "set (freed n T t) = below n T t \<and> distinct (freed n T t)"
  using assms(2,3)
proof (induction n arbitrary: q t)
  case 0
  then show ?case by (simp add: below_def)
next
  case (Suc n)
  have IH: "set (freed n T (child (T t i))) = below n T (child (T t i)) \<and> distinct (freed n T (child (T t i)))"
    if "i < 512" "is_table (T t i)" for i
    using Suc.IH [of "q @ [i]" "child (T t i)"] Suc.prems that by (simp add: table_at_append)
  then show ?case
    using slots_set [of T t n] slot_freed_distinct [OF tree Suc.prems(1), of n] Suc.prems(2) by auto
qed

definition own_tables :: "u64 \<Rightarrow> paging_state \<Rightarrow> u64 set" where
  "own_tables R s = insert R {t. \<exists>i p. length p \<le> 2 \<and> table_at (pg_tables s) R (i # p) = Some t \<and>
     pg_tables s R i \<noteq> pg_tables s (g_pml4 s) i}"

definition own_span :: "u64 \<Rightarrow> paging_state \<Rightarrow> nat set" where
  "own_span R s = (\<Union>t \<in> own_tables R s. block_set t 1)"

text \<open>The list of pages \<open>paging_destroy_address_space\<close> frees.\<close>

definition space_freed :: "u64 \<Rightarrow> paging_state \<Rightarrow> u64 list" where
  "space_freed R s = concat (map (\<lambda>i.
     if is_table (pg_tables s R i) \<and> pg_tables s R i \<noteq> pg_tables s (g_pml4 s) i
     then slot_freed 3 (pg_tables s) R i else []) [0..<512]) @ [R]"

lemma destroy_frees:
  assumes iso: "isolated R s"
  shows "paging_destroy_address_space R s = s\<lparr>pg_mem := free_all (space_freed R s) (pg_mem s)\<rparr>"
proof -
  let ?T = "pg_tables s" and ?K = "g_pml4 s"
  note D = isolatedD [OF iso]
  have K0: "?K \<noteq> 0" using tree_page [OF kernel_okD(2) [OF D(1)], of "[]"] by (simp add: page_ok_def)
  have R: "R \<noteq> 0" "R \<noteq> ?K"
    using tree_page [OF D(2), of "[]"] D(3) tables_ofI [of "[]" ?T ?K] by (auto simp: page_ok_def)
  let ?f = "\<lambda>i m. let entry = ?T R i in if entry AND PAGE_PRESENT = 0 then m
      else if ?K \<noteq> 0 \<and> entry = ?T ?K i then m else if entry AND PAGE_PAGE_SIZE \<noteq> 0 then m
      else free_pages (child entry) 1 (destroy_table_tree 3 (child entry) ?T m)"
  let ?g = "\<lambda>i. if is_table (?T R i) \<and> ?T R i \<noteq> ?T ?K i then slot_freed 3 ?T R i else []"
  have "?f i m = free_all (?g i) m" if "i \<in> set [0..<512]" for i m
  proof (cases "is_table (?T R i) \<and> ?T R i \<noteq> ?T ?K i")
    case True
    have i: "i < 512" using that by simp
    have nz: "w \<noteq> 0" if "length p < 3" "table_at ?T (child (?T R i)) p = Some w" for p w
      using tree_page [OF D(2), of "i # p" w] that True i by (simp add: page_ok_def)
    have "destroy_table_tree 3 (child (?T R i)) ?T m = free_all (freed 3 ?T (child (?T R i))) m"
      by (rule destroy_table_tree_frees) (use nz [of "[]"] nz in auto)
    then show ?thesis using True K0 by (simp add: Let_def is_table_def slot_freed_def)
  qed (use K0 in \<open>auto simp: Let_def is_table_def\<close>)
  from fold_free_all [where f = ?f and g = ?g and xs = "[0..<512]", OF this]
  have loop: "fold ?f [0..<512] m = free_all (concat (map ?g [0..<512])) m" for m by simp
  show ?thesis
    unfolding paging_destroy_address_space_def PAGE_TABLE_ENTRIES_def space_freed_def Let_def
    using R loop [unfolded Let_def] by (simp del: upt_rec_numeral)
qed

lemma space_freed_tables:
  assumes iso: "isolated R s"
  shows "set (space_freed R s) = own_tables R s" and "distinct (space_freed R s)"
proof -
  let ?T = "pg_tables s" and ?K = "g_pml4 s"
  note D = isolatedD [OF iso]
  let ?own = "\<lambda>i. is_table (?T R i) \<and> ?T R i \<noteq> ?T ?K i"
  let ?g = "\<lambda>i. if ?own i then slot_freed 3 ?T R i else []"
  have sub: "set (freed 3 ?T (child (?T R i))) = below 3 ?T (child (?T R i)) \<and> distinct (freed 3 ?T (child (?T R i)))"
    if "i < 512" "is_table (?T R i)" for i
    using freed_tables [OF D(2), of "[i]" "child (?T R i)" 3] that by simp
  have sf: "set (slot_freed 3 ?T R i) = {w. \<exists>p. length p < 3 \<and> table_at ?T R (i # p) = Some w}"
    if "i < 512" "is_table (?T R i)" for i
    using slot_freed_set [of 3 ?T R i] sub [OF that] that(1) by simp
  have dist: "distinct (freed 4 ?T R)" and set4: "set (freed 4 ?T R) = below 4 ?T R"
    using freed_tables [OF D(2), of "[]" R 4] by simp_all
  have eq4: "freed 4 ?T R = concat (map (slot_freed 3 ?T R) [0..<512])"
  proof -
    have four: "(4 :: nat) = Suc 3" by simp
    show ?thesis unfolding four by (rule freed_slots)
  qed
  have g: "set (concat (map ?g [0..<512])) = {t. \<exists>i p. length p \<le> 2 \<and> table_at ?T R (i # p) = Some t \<and> ?T R i \<noteq> ?T ?K i}"
  proof (intro set_eqI iffI)
    fix w assume "w \<in> set (concat (map ?g [0..<512]))"
    then obtain i where i: "i < 512" "?own i" "w \<in> set (slot_freed 3 ?T R i)"
      by (auto split: if_splits simp del: upt_rec_numeral)
    then obtain p where "length p < 3" "table_at ?T R (i # p) = Some w" using sf by auto
    then show "w \<in> {t. \<exists>i p. length p \<le> 2 \<and> table_at ?T R (i # p) = Some t \<and> ?T R i \<noteq> ?T ?K i}"
      using i(2) by (intro CollectI exI [of _ i] exI [of _ p]) simp
  next
    fix w assume "w \<in> {t. \<exists>i p. length p \<le> 2 \<and> table_at ?T R (i # p) = Some t \<and> ?T R i \<noteq> ?T ?K i}"
    then obtain i p where p: "length p \<le> 2" "table_at ?T R (i # p) = Some w" "?T R i \<noteq> ?T ?K i" by blast
    then have i: "i < 512" "is_table (?T R i)" by (auto split: if_splits)
    have "length p < 3" using p(1) by simp
    then have "w \<in> set (slot_freed 3 ?T R i)" using sf [OF i] p(2) by blast
    then show "w \<in> set (concat (map ?g [0..<512]))"
      using i p(3) by (auto simp del: upt_rec_numeral)
  qed
  then show "set (space_freed R s) = own_tables R s"
    by (simp add: space_freed_def own_tables_def del: upt_rec_numeral set_concat)
  have "distinct (concat (map ?g [0..<512]))"
  proof (rule distinct_concat_map)
    fix i assume "i \<in> set [0..<512]"
    then have "slot_freed 3 ?T R i \<in> set (map (slot_freed 3 ?T R) [0..<512])"
      unfolding set_map by (rule imageI)
    then have "distinct (slot_freed 3 ?T R i)"
      using dist unfolding eq4 distinct_concat_iff by blast
    then show "distinct (?g i)" by simp
  next
    fix i j assume ij: "i \<in> set [0..<512]" "j \<in> set [0..<512]" "(i::nat) \<noteq> j"
    show "set (?g i) \<inter> set (?g j) = {}"
    proof (rule equals0I)
      fix w assume "w \<in> set (?g i) \<inter> set (?g j)"
      then have o: "?own i" "?own j" "w \<in> set (slot_freed 3 ?T R i)" "w \<in> set (slot_freed 3 ?T R j)"
        by (auto split: if_splits)
      obtain p where p: "length p < 3" "table_at ?T R (i # p) = Some w" using sf [of i] o ij by auto
      obtain q where q: "length q < 3" "table_at ?T R (j # q) = Some w" using sf [of j] o ij by auto
      show False using tree_inj [OF D(2) _ _ p(2) q(2)] p(1) q(1) ij(3) by simp
    qed
  qed simp
  moreover have "R \<notin> set (concat (map ?g [0..<512]))"
  proof
    assume "R \<in> set (concat (map ?g [0..<512]))"
    then obtain i p where p: "length p \<le> 2" "table_at ?T R (i # p) = Some R" unfolding g by blast
    then show False using tree_inj [OF D(2) _ _ p(2), of "[]"] by simp
  qed
  ultimately show "distinct (space_freed R s)"
    by (simp add: space_freed_def del: upt_rec_numeral set_concat)
qed

lemma block_owner:
  assumes "page_ok t" and "page_ok w" and "x \<in> block_set t 1" and "x \<in> block_set w 1"
  shows "t = w"
proof -
  obtain a b where ab: "unat t = 4096 * a" "unat w = 4096 * b" using assms(1,2) by (auto simp: page_ok_def elim!: dvdE)
  then have "x div 4096 = a" "x div 4096 = b"
    using assms(3,4) by (auto simp: block_set_def intro!: div_nat_eqI)
  then show ?thesis using ab by (simp add: word_unat_eq_iff)
qed

lemma destroy_ok:
  assumes iso: "isolated R s" and s': "s' = paging_destroy_address_space R s"
  shows "kernel_ok s'" and "avail s' \<subseteq> avail s \<union> own_span R s"
    and "g_memory_ready (pg_mem s) \<Longrightarrow>
      length (g_free_ranges (pg_mem s)) + card (own_tables R s) \<le> MEMORY_MAX_FREE_RANGES \<Longrightarrow>
      avail s' = avail s \<union> own_span R s"
    and "pg_tables s' = pg_tables s" and "g_pml4 s' = g_pml4 s"
    and "roomy (pg_mem s') \<Longrightarrow> roomy (pg_mem s) \<and> avail s' = avail s \<union> own_span R s"
proof -
  let ?T = "pg_tables s" and ?K = "g_pml4 s" and ?ps = "space_freed R s"
  note D = isolatedD [OF iso] and K = kernel_okD [OF isolatedD(1) [OF iso]] and fs = space_freed_tables [OF iso]
  have own: "\<exists>p. length p \<le> 3 \<and> table_at ?T R p = Some t" if t: "t \<in> own_tables R s" for t
  proof (cases "t = R")
    case False
    then obtain i p where "length p \<le> 2" "table_at ?T R (i # p) = Some t" using t by (auto simp: own_tables_def)
    then show ?thesis by (intro exI [of _ "i # p"]) simp
  qed (auto intro: exI [of _ "[]"])
  have page: "page_ok t \<and> block_set t 1 \<inter> avail s = {}" if t: "t \<in> own_tables R s" for t
    using own [OF t] tree_page [OF D(2)] tree_held [OF D(2)] by blast
  have low: "block_set t 1 \<subseteq> {..<2 ^ 52}" if "page_ok t" for t
  proof -
    have "4096 dvd unat t" "unat t < 2 ^ 52" using that by (simp_all add: page_ok_def)
    then have "unat t + 4096 \<le> 2 ^ 52" by (auto elim!: dvdE)
    then show ?thesis by (auto simp: block_set_def)
  qed
  have ps: "\<forall>p \<in> set ?ps. page_ok p \<and> block_set p 1 \<inter> free_set (g_free_ranges (pg_mem s)) = {}"
    using page by (simp add: fs(1) avail_def)
  have m: "mem_inv (pg_mem s)" using K(1) by (simp add: pages_ok_def)
  note fa = free_all_ok [OF m fs(2) ps, unfolded fs(1)]
  have run: "s' = s\<lparr>pg_mem := free_all ?ps (pg_mem s)\<rparr>" unfolding s' by (rule destroy_frees [OF iso])
  show T: "pg_tables s' = ?T" "g_pml4 s' = ?K" by (simp_all add: run)
  show sub: "avail s' \<subseteq> avail s \<union> own_span R s"
    using fa by (simp add: run avail_def own_span_def)
  have card: "length ?ps = card (own_tables R s)"
    using distinct_card [OF fs(2)] by (simp add: fs(1))
  show "roomy (pg_mem s') \<Longrightarrow> roomy (pg_mem s) \<and> avail s' = avail s \<union> own_span R s"
    using fa by (simp add: run avail_def own_span_def)
  show "avail s' = avail s \<union> own_span R s"
    if "g_memory_ready (pg_mem s)" "length (g_free_ranges (pg_mem s)) + card (own_tables R s) \<le> MEMORY_MAX_FREE_RANGES"
    using fa that by (simp add: run avail_def own_span_def card)
  have "avail s' \<subseteq> {..<2 ^ 52}"
    using sub K(1) page low by (fastforce simp: pages_ok_def own_span_def)
  then have po: "pages_ok s'" using fa by (simp add: pages_ok_def run)
  have disj: "block_set t 1 \<inter> own_span R s = {}" if t: "t \<in> tables_of ?T ?K" for t
  proof -
    have "page_ok t" using t tree_page [OF K(2)] by (auto simp: tables_of_def)
    moreover have "t \<notin> own_tables R s"
      using D(3,5) t by (auto simp: own_tables_def simp del: table_at.simps)
    ultimately show ?thesis using page block_owner by (fastforce simp: own_span_def)
  qed
  have "tree_ok (avail s') ?T ?K"
    unfolding tree_ok_def
  proof (intro conjI allI impI)
    fix p t assume p: "length p \<le> 3" "table_at ?T ?K p = Some t"
    then show "page_ok t" using tree_page [OF K(2)] by simp
    show "block_set t 1 \<inter> avail s' = {}"
      using disj [OF tables_ofI [OF p]] tree_held [OF K(2) p] sub by blast
  qed (use tree_inj [OF K(2)] tree_entry [OF K(2)] in auto)
  then show "kernel_ok s'"
    using po K(3) by (simp add: kernel_ok_def T)
qed

end
