(* ===== verification/PagingLife.thy ===== *)
theory PagingLife
  imports PagingDestroy
begin

text \<open>
  What the address spaces of \<open>src/kernel/paging.c\<close> promise: splitting keeps every translation,
  a new space translates like the kernel's, mapping into it is confined to it, and destroying it
  returns its pages.
\<close>

subsection \<open>A small machine\<close>

text \<open>An empty kernel root at 4 KiB and sixteen free pages at 64 KiB.\<close>

definition demo_pages :: memory_state where
  "demo_pages = \<lparr>g_free_ranges = [\<lparr>fr_base = 0x10000, fr_count = 16\<rparr>], g_total_pages = 16,
     g_heap_head = 0, g_memory_ready = True\<rparr>"

definition demo_paging :: paging_state where
  "demo_paging = \<lparr>pg_mem = demo_pages, pg_tables = (\<lambda>_ _. 0), g_pml4 = 0x1000, cr3 = 0x1000, cr0 = 0, efer = 0\<rparr>"

lemma demo_pages_ok: "pages_ok demo_paging" "avail demo_paging = {0x10000..<0x20000}"
  by (auto simp: pages_ok_def avail_def demo_paging_def demo_pages_def mem_inv_def ranges_ok_def
    range_ok_def free_set_def lo_def hi_def MEMORY_MAX_FREE_RANGES_def)

lemma empty_table_at: "table_at (\<lambda>_ _. 0) R p = (if p = [] then Some R else None)"
  by (cases p) (auto simp: is_table_def)

lemma demo_kernel_ok: "kernel_ok demo_paging"
proof -
  have "tree_ok {0x10000..<0x20000} (\<lambda>_ _. 0) 0x1000"
    by (auto simp: tree_ok_def empty_table_at page_ok_def block_set_def entry_ok_def)
  then show ?thesis
    using demo_pages_ok by (simp add: kernel_ok_def) (simp add: demo_paging_def)
qed

definition demo_space :: "u64 \<times> paging_state" where
  "demo_space = paging_create_address_space demo_paging"

lemma demo_space_root: "fst demo_space = 0x10000"
  by (simp add: demo_space_def paging_create_address_space_def alloc_page_table_def demo_paging_def
    demo_pages_def alloc_pages_def PAGE_SIZE_def Let_def case_prod_beta)

lemma demo_isolated: "isolated (fst demo_space) (snd demo_space)"
  using create_isolated(1) [OF demo_kernel_ok, of "fst demo_space" "snd demo_space"] demo_space_root
  by (simp add: demo_space_def)

subsection \<open>Splitting\<close>

text \<open>A tree with one 2 MiB page, at 2 MiB.\<close>

definition demo_large :: paging_state where
  "demo_large = demo_paging\<lparr>
     pg_mem := demo_pages\<lparr>g_free_ranges := [\<lparr>fr_base = 0x12000, fr_count = 14\<rparr>]\<rparr>,
     pg_tables := (\<lambda>_ _. 0)(0x1000 := (\<lambda>_. 0)(0 := 0x10003), 0x10000 := (\<lambda>_. 0)(0 := 0x11003),
       0x11000 := (\<lambda>_. 0)(1 := 0x200083))\<rparr>"

lemma demo_large_table_at: "table_at (pg_tables demo_large) 0x1000 p =
    (if p = [] then Some 0x1000 else if p = [0] then Some 0x10000 else if p = [0, 0] then Some 0x11000 else None)"
proof (cases p)
  case (Cons i q)
  then show ?thesis
  proof (cases q)
    case q: (Cons j r)
    then show ?thesis using Cons
      by (cases r) (auto simp: demo_large_def is_table_def PAGE_TABLE_ADDR_MASK_def)
  qed (auto simp: demo_large_def is_table_def PAGE_TABLE_ADDR_MASK_def)
qed simp

lemma demo_large_ok: "space_ok False {} 0x1000 demo_large"
proof -
  have av: "avail demo_large = {0x12000..<0x20000}" "pages_ok demo_large"
    by (auto simp: pages_ok_def avail_def demo_large_def demo_paging_def demo_pages_def mem_inv_def
      ranges_ok_def range_ok_def free_set_def lo_def hi_def MEMORY_MAX_FREE_RANGES_def)
  have e: "entry_ok 0 0x10003" "entry_ok (Suc 0) 0x11003" "entry_ok 2 0x200083" "entry_ok n 0" for n
  proof -
    have "page_ok 0x10000" "page_ok 0x11000" by (simp_all add: page_ok_def)
    moreover have "0x10003 = 0x10000 OR table_flags False" "0x11003 = 0x11000 OR table_flags False"
      by (simp_all add: table_flags_def PAGE_PRESENT_def PAGE_WRITABLE_def)
    moreover have "entry_ok n (a OR table_flags u)" if "page_ok a" for n a u
      unfolding entry_ok_def using table_entry_bits [OF that] that by auto
    ultimately show "entry_ok 0 0x10003" "entry_ok (Suc 0) 0x11003" by presburger+
    show "entry_ok 2 0x200083" "entry_ok n 0" by (simp_all add: entry_ok_def)
  qed
  have "tree_ok {0x12000..<0x20000} (pg_tables demo_large) 0x1000"
    unfolding tree_ok_def demo_large_table_at
    by (auto simp: page_ok_def block_set_def split: if_splits) (auto simp: demo_large_def e [simplified numeral_2_eq_2] split: if_splits)
  then show ?thesis using av by (simp add: space_ok_def guarded_def)
qed

text \<open>C26: replacing a 2 MiB page by a table of 512 small pages changes no translation: every virtual
  address keeps its physical address and its rights, in a tree that stays well formed, whether the
  split succeeds or finds no free page. After a success the slot holds a page table.\<close>

theorem split_large_page_keeps_translations:
  assumes "space_ok False {} R s" and "length p = 2" and "table_at (pg_tables s) R p = Some pd"
    and "slot < 512" and "entry_of s pd slot AND PAGE_PRESENT \<noteq> 0" and "entry_of s pd slot AND PAGE_PAGE_SIZE \<noteq> 0"
    and "split_large_page pd slot s = (done, s')"
  shows "space_ok False {} R s' \<and> (\<forall>v. translate (pg_tables s') R v = translate (pg_tables s) R v) \<and>
    (done \<longrightarrow> is_table (entry_of s' pd slot))"
proof -
  have "bit (entry_of s pd slot) 0" "bit (entry_of s pd slot) 7" using assms(5,6) by simp_all
  note sp = split_large_page_ok [OF assms(1-4) _ assms(7) this]
  then show ?thesis using stepsD(1) by (auto simp: same_walks_def)
qed

theorem split_large_page_keeps_translations_witness:
  "space_ok False {} 0x1000 (snd (split_large_page 0x11000 1 demo_large)) \<and>
   (\<forall>v. translate (pg_tables (snd (split_large_page 0x11000 1 demo_large))) 0x1000 v =
     translate (pg_tables demo_large) 0x1000 v)"
proof -
  have at: "table_at (pg_tables demo_large) 0x1000 [0, 0] = Some 0x11000"
    unfolding demo_large_table_at by simp
  show ?thesis
    using split_large_page_keeps_translations [OF demo_large_ok _ at, of 1
        "fst (split_large_page 0x11000 1 demo_large)" "snd (split_large_page 0x11000 1 demo_large)"]
    by (simp add: demo_large_def)
qed

subsection \<open>Creating and mapping\<close>

text \<open>A new address space translates every address as the kernel's does, is isolated from it,
  and costs one page; the kernel's own translations do not change. Creation fails only when
  \<open>alloc_pages\<close> has no page, and then changes nothing.\<close>

theorem create_address_space_copies_kernel:
  assumes "kernel_ok s" and "paging_create_address_space s = (R, s')"
  shows "if R = 0 then s' = s \<and> fst (alloc_pages 1 (pg_mem s)) = 0
    else isolated R s' \<and> avail s' = avail s - block_set R 1 \<and>
      (\<forall>v. translate (pg_tables s') R v = translate (pg_tables s) (g_pml4 s) v \<and>
           translate (pg_tables s') (g_pml4 s') v = translate (pg_tables s) (g_pml4 s) v)"
proof (cases "R = 0")
  case True
  have "g_pml4 s \<noteq> 0" using tree_page [OF kernel_okD(2) [OF assms(1)], of "[]"] by (simp add: page_ok_def)
  then have "fst (alloc_pages 1 (pg_mem s)) = 0"
    using assms(2) True
    by (auto simp: paging_create_address_space_def alloc_page_table_def Let_def split: prod.splits if_splits)
  then show ?thesis using True paging_create_address_space_run(1) [OF assms] by simp
next
  case False
  then show ?thesis
    using create_isolated [OF assms False] paging_create_address_space_run(2) [OF assms False] by simp
qed

theorem create_address_space_copies_kernel_witness:
  "isolated 0x10000 (snd demo_space) \<and>
   translate (pg_tables (snd demo_space)) 0x10000 0x5000 = translate (pg_tables demo_paging) 0x1000 0x5000"
  using create_address_space_copies_kernel [OF demo_kernel_ok, of "fst demo_space" "snd demo_space"]
    demo_space_root by (simp add: demo_space_def) (simp add: demo_paging_def)

text \<open>C25: mapping a range into a program's space always returns. Every other address of the space
  keeps its translation, and on success each address of the range translates to the physical range,
  user-accessible, with exactly the rights asked for. Whatever the outcome, the space stays isolated
  and no translation of the kernel changes, so a program's mapping can never give it a kernel page
  table.\<close>

theorem map_user_range_isolated:
  assumes "isolated R s" and "unat virt + unat bytes \<le> 2 ^ 48" and "unat phys + unat bytes + 8192 \<le> 2 ^ 52"
  shows "\<exists>done s'. paging_map_user_range R virt phys bytes w x s = Some (done, s') \<and> isolated R s' \<and>
    (\<forall>v. translate (pg_tables s') (g_pml4 s') v = translate (pg_tables s) (g_pml4 s) v) \<and>
    (\<forall>v. unat v < 2 ^ 48 \<longrightarrow>
       (if unat (align_down_uintptr virt PAGE_SIZE) \<le> unat v \<and> unat v < unat (align_up_uintptr (virt + bytes) PAGE_SIZE)
        then done \<longrightarrow> translate (pg_tables s') R v = Some (mapped (align_down_uintptr virt PAGE_SIZE)
               (align_down_uintptr phys PAGE_SIZE) w True x v)
        else translate (pg_tables s') R v = translate (pg_tables s) R v))"
proof -
  obtain d s' where r: "paging_map_user_range R virt phys bytes w x s = Some (d, s')"
    "steps True (tables_of (pg_tables s) (g_pml4 s)) R s (s'\<lparr>cr3 := cr3 s\<rparr>)"
    and range: "\<forall>v. unat v < 2 ^ 48 \<longrightarrow>
       (if unat (align_down_uintptr virt PAGE_SIZE) \<le> unat v \<and> unat v < unat (align_up_uintptr (virt + bytes) PAGE_SIZE)
        then d \<longrightarrow> translate (pg_tables s') R v = Some (mapped (align_down_uintptr virt PAGE_SIZE)
               (align_down_uintptr phys PAGE_SIZE) w True x v)
        else translate (pg_tables s') R v = translate (pg_tables s) R v)"
    using maps_range_user [OF assms] by blast
  have "isolated R s'" "translate (pg_tables s') (g_pml4 s') v = translate (pg_tables s) (g_pml4 s) v" for v
    using steps_isolated [OF assms(1) r(2)] by simp_all
  then show ?thesis using r(1) range by blast
qed

theorem map_user_range_isolated_witness:
  "\<exists>done s'. paging_map_user_range 0x10000 0x8000000000 0x30000 0x2000 True True (snd demo_space) = Some (done, s') \<and>
     isolated 0x10000 s' \<and>
     translate (pg_tables s') 0x10000 0x5000 = translate (pg_tables (snd demo_space)) 0x10000 0x5000"
proof -
  have iso: "isolated 0x10000 (snd demo_space)" using demo_isolated demo_space_root by simp
  have al: "unat (align_down_uintptr 0x8000000000 PAGE_SIZE) = 0x8000000000"
    by (subst unat_align_down) simp
  show ?thesis
    using map_user_range_isolated [OF iso, where virt = "0x8000000000" and bytes = "0x2000" and phys = "0x30000" and w = True and x = True]
    by (auto simp: al dest!: spec [of _ "0x5000 :: u64"])
qed

subsection \<open>Destroying\<close>

text \<open>C27: destroying a program's space frees its own tables and nothing else: the free memory grows
  by exactly those pages (when the free-range table has room for them; otherwise by a part of them),
  the allocator's invariant holds again, and the kernel's tree is as it was, outside the free
  memory.\<close>

theorem destroy_address_space_frees_own_tables:
  assumes "isolated R s" and "s' = paging_destroy_address_space R s"
  shows "kernel_ok s' \<and> avail s' \<subseteq> avail s \<union> own_span R s \<and>
    (g_memory_ready (pg_mem s) \<longrightarrow>
      length (g_free_ranges (pg_mem s)) + card (own_tables R s) \<le> MEMORY_MAX_FREE_RANGES \<longrightarrow>
      avail s' = avail s \<union> own_span R s) \<and>
    (\<forall>v. translate (pg_tables s') (g_pml4 s') v = translate (pg_tables s) (g_pml4 s) v)"
  using destroy_ok [OF assms] by simp

theorem destroy_address_space_frees_own_tables_witness:
  "kernel_ok (paging_destroy_address_space 0x10000 (snd demo_space)) \<and>
   avail (paging_destroy_address_space 0x10000 (snd demo_space)) \<subseteq>
     avail (snd demo_space) \<union> own_span 0x10000 (snd demo_space)"
proof -
  have iso: "isolated 0x10000 (snd demo_space)" using demo_isolated demo_space_root by simp
  show ?thesis using destroy_address_space_frees_own_tables [OF iso refl] by blast
qed

lemma own_tables_sub: "own_tables R s \<subseteq> tables_of (pg_tables s) R"
proof
  fix t assume "t \<in> own_tables R s"
  then consider "t = R" | i p where "length p \<le> 2" "table_at (pg_tables s) R (i # p) = Some t"
    by (auto simp: own_tables_def)
  then show "t \<in> tables_of (pg_tables s) R"
  proof cases
    case 1
    then show ?thesis using tables_ofI [of "[]" "pg_tables s" R] by simp
  next
    case 2
    then show ?thesis using tables_ofI [of "i # p" "pg_tables s" R t] by simp
  qed
qed

text \<open>After creation and any steps of mapping, what the space owns is its root and the pages the
  steps took.\<close>

lemma own_span_steps:
  assumes ker: "kernel_ok s" and new: "paging_create_address_space s = (R, s1)" "R \<noteq> 0"
    and st: "steps True (tables_of (pg_tables s1) (g_pml4 s1)) R s1 s3" and iso: "isolated R s3"
  shows "own_span R s3 = block_set R 1 \<union> (avail s1 - avail s3)"
proof -
  let ?T = "pg_tables s3" and ?K = "g_pml4 s3"
  note D = isolatedD [OF iso] and K = kernel_okD [OF isolatedD(1) [OF iso]]
  note C = create_isolated [OF ker new] and S = stepsD [OF st]
  note K1 = kernel_okD [OF isolatedD(1) [OF C(1)]]
  have KK: "g_pml4 s3 = g_pml4 s1" by (rule S(7))
  have kept: "\<forall>t \<in> tables_of (pg_tables s1) (g_pml4 s1). ?T t = pg_tables s1 t" using S(3) by blast
  have sameK: "tables_of ?T ?K = tables_of (pg_tables s1) (g_pml4 s1)"
    unfolding KK by (rule kept_tree(2) [OF K1(2) kept S(2)])
  have page: "page_ok t" if "t \<in> tables_of ?T R" for t
    using that tree_page [OF D(2)] by (auto simp: tables_of_def)
  have own_sub: "own_tables R s3 \<subseteq> tables_of ?T R" by (rule own_tables_sub)
  have spans3: "spans ?T R = spans (pg_tables s1) R \<union> (avail s1 - avail s3)" by (rule S(6))
  have sp: "spans T R = (\<Union>t \<in> tables_of T R. block_set t 1)" for T by (simp add: spans_def tables_of_def)
  show ?thesis
  proof (intro set_eqI iffI)
    fix x assume "x \<in> own_span R s3"
    then obtain t where t: "t \<in> own_tables R s3" "x \<in> block_set t 1" by (auto simp: own_span_def)
    then have tT: "t \<in> tables_of ?T R" using own_sub by blast
    then have "x \<in> spans ?T R" using t(2) by (auto simp: sp)
    then consider "x \<in> avail s1 - avail s3" | "x \<in> spans (pg_tables s1) R" using spans3 by blast
    then show "x \<in> block_set R 1 \<union> (avail s1 - avail s3)"
    proof cases
      case 2
      then obtain w where w: "w \<in> tables_of (pg_tables s1) R" "x \<in> block_set w 1" by (auto simp: sp)
      then have wK: "w = R \<or> w \<in> tables_of ?T ?K"
        using C(4,5) sameK by auto
      have "page_ok w" using w(1) tree_page [OF isolatedD(2) [OF C(1)]] by (auto simp: tables_of_def)
      then have "t = w" using block_owner [OF page [OF tT]] t(2) w(2) by blast
      moreover have "t = R \<or> t \<notin> tables_of ?T ?K"
        using t(1) D(5) by (auto simp: own_tables_def simp del: table_at.simps)
      ultimately show ?thesis using wK w(2) by auto
    qed blast
  next
    fix x assume x: "x \<in> block_set R 1 \<union> (avail s1 - avail s3)"
    show "x \<in> own_span R s3"
    proof (cases "x \<in> block_set R 1")
      case True
      then show ?thesis by (auto simp: own_span_def own_tables_def)
    next
      case False
      then have "x \<in> spans ?T R" "x \<in> avail s1" using x spans3 by auto
      then obtain t p where t: "length p \<le> 3" "table_at ?T R p = Some t" "x \<in> block_set t 1"
        by (auto simp: sp tables_of_def)
      then obtain i q where p: "p = i # q" using False by (cases p) auto
      then have i: "i < 512" using t(2) by (auto split: if_splits)
      have "?T R i \<noteq> ?T ?K i"
      proof
        assume "?T R i = ?T ?K i"
        then have "table_at ?T ?K p = Some t" using t(2) p by (auto split: if_splits)
        then have "block_set t 1 \<inter> avail s1 = {}"
          using K1(4) sameK tables_ofI [OF t(1)] by blast
        then show False using t(3) \<open>x \<in> avail s1\<close> by blast
      qed
      then have "t \<in> own_tables R s3"
        unfolding own_tables_def using t p by (intro insertI2 CollectI exI [of _ i] exI [of _ q]) simp
      then show ?thesis using t(3) by (auto simp: own_span_def)
    qed
  qed
qed

text \<open>The small machine step by step: a page of image and a page of stack.\<close>

definition pool :: "u64 \<Rightarrow> u64 \<Rightarrow> memory_state" where
  "pool b n = \<lparr>g_free_ranges = [\<lparr>fr_base = b, fr_count = n\<rparr>], g_total_pages = 16, g_heap_head = 0, g_memory_ready = True\<rparr>"

lemma pool_alloc: "1 < n \<Longrightarrow> alloc_pages 1 (pool b n) = (b, pool (b + 0x1000) (n - 1))"
  by (simp add: alloc_pages_def pool_def PAGE_SIZE_def Let_def word_le_nat_alt word_less_nat_alt) auto

definition machine :: "u64 \<Rightarrow> u64 \<Rightarrow> tables \<Rightarrow> paging_state" where
  "machine b n T = \<lparr>pg_mem = pool b n, pg_tables = T, g_pml4 = 0x1000, cr3 = 0x1000, cr0 = 0, efer = 0\<rparr>"

lemma machine_alloc: "1 < n \<Longrightarrow> b \<noteq> 0 \<Longrightarrow>
    alloc_page_table (machine b n T) = (b, machine (b + 0x1000) (n - 1) (T(b := (\<lambda>_. 0))))"
  by (simp add: alloc_page_table_def machine_def pool_alloc)

lemma machine_simps: "pg_tables (machine b n T) = T" "set_entry t i e (machine b n T) = machine b n (T(t := (T t)(i := e)))"
  "g_pml4 (machine b n T) = 0x1000" "cr3 (machine b n T) = 0x1000" "pg_mem (machine b n T) = pool b n"
  by (simp_all add: machine_def set_entry_def)

lemma space_machine: "snd demo_space = machine 0x11000 15 (\<lambda>_ _. 0)"
proof -
  have a: "alloc_page_table demo_paging = (0x10000, machine 0x11000 15 (\<lambda>_ _. 0))"
    using machine_alloc [of 16 "0x10000" "\<lambda>_ _. 0"]
    by (simp add: machine_def pool_def demo_paging_def demo_pages_def fun_upd_idem)
  have f: "fold (\<lambda>i s. set_entry 0x10000 i (entry_of s (g_pml4 s) i) s) xs (machine 0x11000 15 (\<lambda>_ _. 0)) =
      machine 0x11000 15 (\<lambda>_ _. 0)" for xs
    by (induction xs) (simp_all add: machine_simps fun_upd_idem)
  show ?thesis
    by (simp add: demo_space_def paging_create_address_space_def a PAGE_TABLE_ENTRIES_def f
       del: upt_rec_numeral) (simp add: demo_paging_def)
qed

lemmas paging_eval = machine_simps machine_alloc map_page_4k_def get_or_create_pd_def get_or_create_table_def
  ensure_page_table_def Let_def pml4_index_def pdpt_index_def pd_index_def pt_index_def table_flags_def
  PAGE_PRESENT_def PAGE_WRITABLE_def PAGE_USER_def PAGE_PAGE_SIZE_def PAGE_TABLE_ADDR_MASK_def
  paging_default_leaf_flags_def PAGE_NX_def

definition image_tables :: tables where
  "image_tables = (\<lambda>_ _. 0)(0x10000 := (\<lambda>_. 0)(1 := 0x11007), 0x11000 := (\<lambda>_. 0)(0 := 0x12007),
     0x12000 := (\<lambda>_. 0)(0 := 0x13007), 0x13000 := (\<lambda>_. 0)(0 := 0x30007))"

lemma demo_map_image_page: "map_page_4k 0x10000 0x8000000000 0x30000 True True True (machine 0x11000 15 (\<lambda>_ _. 0)) =
   (True, machine 0x14000 12 image_tables)"
  by (simp add: paging_eval image_tables_def del: flag_tests)


lemma demo_map_stack_page: "map_page_4k 0x10000 0x80000FF000 0x40000 True False True (machine 0x14000 12 image_tables) =
   (True, machine 0x14000 12 (image_tables(0x13000 := (image_tables 0x13000)(255 := 0x8000000000040007))))"
  by (simp add: paging_eval image_tables_def del: flag_tests)

lemma demo_map_image: "paging_map_user_range 0x10000 0x8000000000 0x30000 0x1000 True True (snd demo_space) =
   Some (True, machine 0x14000 12 image_tables)"
  by (simp add: space_machine paging_map_user_range_def map_range_in_root_def
    PAGE_TABLE_ADDR_MASK_def align_down_uintptr_def align_up_uintptr_def PAGE_SIZE_def map_loop.simps demo_map_image_page PAGE_SIZE_4K_def paging_current_root_def read_cr3_def paging_align_down_page_def paging_align_up_page_def machine_simps del: paging_align)

lemma demo_map_stack: "paging_map_user_range 0x10000 0x80000FF000 0x40000 0x1000 True False (machine 0x14000 12 image_tables) =
   Some (True, machine 0x14000 12 (image_tables(0x13000 := (image_tables 0x13000)(255 := 0x8000000000040007))))"
  by (simp add: paging_map_user_range_def map_range_in_root_def PAGE_TABLE_ADDR_MASK_def PAGE_SIZE_def
    map_loop.simps demo_map_stack_page PAGE_SIZE_4K_def paging_current_root_def read_cr3_def paging_align_down_page_def
    paging_align_up_page_def machine_simps del: paging_align)

lemma demo_process_table_at:
  assumes "T = image_tables(0x13000 := (image_tables 0x13000)(255 := 0x8000000000040007))"
  shows "length p \<le> 3 \<Longrightarrow> table_at T 0x10000 p = Some t \<Longrightarrow> t \<in> {0x10000, 0x11000, 0x12000, 0x13000}"
proof (cases p)
  case (Cons i q)
  assume p: "length p \<le> 3" "table_at T 0x10000 p = Some t"
  show ?thesis
  proof (cases q)
    case Nil
    then show ?thesis using Cons p assms by (auto simp: image_tables_def is_table_def PAGE_TABLE_ADDR_MASK_def split: if_splits)
  next
    case q: (Cons j r)
    then show ?thesis using Cons p assms
      by (cases r) (auto simp: image_tables_def is_table_def PAGE_TABLE_ADDR_MASK_def split: if_splits)
  qed
qed simp
text \<open>the life of a program's address space leaks no page. Create it, map an image and a stack
  into it (whether or not those succeed), destroy it: the free memory is what it was, as long as the
  table of free ranges has room for the pages that come back.\<close>

theorem address_space_life_returns_pages:
  assumes "kernel_ok s" and "g_memory_ready (pg_mem s)"
    and "paging_create_address_space s = (R, s1)" and "R \<noteq> 0"
    and "paging_map_user_range R base base_phys image_bytes w x s1 = Some (done, s2)"
    and "unat base + unat image_bytes \<le> 2 ^ 48" and "unat base_phys + unat image_bytes + 8192 \<le> 2 ^ 52"
    and "paging_map_user_range R stack stack_phys stack_bytes w' x' s2 = Some (done', s3)"
    and "unat stack + unat stack_bytes \<le> 2 ^ 48" and "unat stack_phys + unat stack_bytes + 8192 \<le> 2 ^ 52"
    and "length (g_free_ranges (pg_mem s3)) + card (own_tables R s3) \<le> MEMORY_MAX_FREE_RANGES"
  shows "avail (paging_destroy_address_space R s3) = avail s \<and> kernel_ok (paging_destroy_address_space R s3)"
proof -
  note C = create_isolated(1) [OF assms(1,3,4)] and run = paging_create_address_space_run(2) [OF assms(1,3,4)]
  let ?X = "tables_of (pg_tables s1) (g_pml4 s1)"
  obtain s2' where s2: "steps True ?X R s1 s2'" "s2' = s2\<lparr>cr3 := cr3 s1\<rparr>"
    using maps_range_user [OF C assms(6,7), of w x] assms(5) by auto
  have iso2: "isolated R s2" using steps_isolated(1) [OF C s2(1)] s2(2) by simp
  have X2: "tables_of (pg_tables s2) (g_pml4 s2) = ?X"
    using kept_tree(2) [OF kernel_okD(2) [OF isolatedD(1) [OF C]] _ order_refl, of "pg_tables s2'"]
      stepsD(3,7) [OF s2(1)] s2(2) by simp
  obtain s3' where s3: "steps True ?X R s2 s3'" "s3' = s3\<lparr>cr3 := cr3 s2\<rparr>"
    using maps_range_user [OF iso2 assms(9,10), of w' x'] assms(8) X2 by auto
  have iso3: "isolated R s3" using steps_isolated(1) [OF iso2, unfolded X2, OF s3(1)] s3(2) by simp
  have st: "steps True ?X R s1 (s3\<lparr>cr3 := cr3 s1\<rparr>)"
  proof -
    have "steps True ?X R s2' (s3\<lparr>cr3 := cr3 s1\<rparr>)"
      using s3 s2(2) by (simp add: steps_def space_ok_def pages_ok_def avail_def)
    then show ?thesis using steps_trans [OF s2(1)] by blast
  qed
  have "own_span R s3 = block_set R 1 \<union> (avail s1 - avail s3)"
    using own_span_steps [OF assms(1,3,4) st] iso3 by (simp add: own_span_def own_tables_def avail_def)
  moreover have "avail s3 \<subseteq> avail s1" using stepsD(2) [OF st] by (simp add: avail_def)
  moreover have "g_memory_ready (pg_mem s3)"
    using st run assms(2) by (simp add: steps_def)
  ultimately have "avail (paging_destroy_address_space R s3) = avail s1 \<union> block_set R 1"
    using destroy_ok(3) [OF iso3 refl] assms(11) by auto
  then show ?thesis
    using run destroy_ok(1) [OF iso3 refl] by auto
qed

theorem address_space_life_returns_pages_witness:
  "avail (paging_destroy_address_space 0x10000
     (machine 0x14000 12 (image_tables(0x13000 := (image_tables 0x13000)(255 := 0x8000000000040007))))) =
   avail demo_paging"
proof -
  let ?T = "image_tables(0x13000 := (image_tables 0x13000)(255 := 0x8000000000040007))"
  let ?s = "machine 0x14000 12 ?T"
  have sub: "own_tables 0x10000 ?s \<subseteq> {0x10000, 0x11000, 0x12000, 0x13000}"
  proof
    fix t assume "t \<in> own_tables 0x10000 ?s"
    then have "\<exists>p. length p \<le> 3 \<and> table_at ?T 0x10000 p = Some t"
      using own_tables_sub [of "0x10000" ?s] by (auto simp: tables_of_def machine_simps)
    then show "t \<in> {0x10000, 0x11000, 0x12000, 0x13000}" using demo_process_table_at [OF refl] by blast
  qed
  have "card (own_tables 0x10000 ?s) \<le> card {0x10000, 0x11000, 0x12000, 0x13000 :: u64}"
    by (rule card_mono [OF _ sub]) simp
  then have "length (g_free_ranges (pg_mem ?s)) + card (own_tables 0x10000 ?s) \<le> MEMORY_MAX_FREE_RANGES"
    by (simp add: machine_simps pool_def MEMORY_MAX_FREE_RANGES_def)
  moreover have "paging_create_address_space demo_paging = (0x10000, machine 0x11000 15 (\<lambda>_ _. 0))"
    using space_machine demo_space_root by (simp add: demo_space_def prod_eq_iff)
  ultimately show ?thesis
    using address_space_life_returns_pages [OF demo_kernel_ok _ _ _
      demo_map_image [unfolded space_machine] _ _ demo_map_stack] by (simp add: demo_paging_def demo_pages_def)
qed

end
