(* ===== verification/PagingBoot.thy ===== *)
theory PagingBoot
  imports PagingLife
begin

text \<open>
  \<open>paging_init\<close>: the kernel's own address space after boot.
\<close>

subsection \<open>The identity map of 2 MiB pages\<close>

lemma map_loop_new_on:
  assumes "space_ok u X R s" and "R \<notin> X"
    and "4096 dvd unat virt" and "4096 dvd unat phys"
    and "unat virt_end = unat virt + n * 4096" and "unat virt_end \<le> 2 ^ 48"
    and "unat phys + n * 4096 \<le> 2 ^ 52"
    and "\<And>v. unat virt \<le> unat v \<Longrightarrow> unat v < unat virt_end \<Longrightarrow> take 3 (path v) = p3"
    and "map_loop R virt phys virt_end w x u s = Some r"
  shows "new_on p3 R s (snd r)"
  using assms
proof (induction n arbitrary: virt phys s)
  case 0
  then have "\<not> virt < virt_end" by (simp add: word_less_nat_alt)
  then show ?case using 0(9) by (subst (asm) map_loop.simps) auto
next
  case (Suc n)
  have lt: "virt < virt_end" using Suc.prems by (simp add: word_less_nat_alt)
  obtain d s1 where m: "map_page_4k R virt phys w x u s = (d, s1)" by fastforce
  have ph: "frame_ok 12 phys" using Suc.prems by (simp add: frame_ok_def)
  note p = map_page_4k_ok [OF Suc.prems(1,2) ph m]
  have here: "new_on p3 R s s1" using p(3) Suc.prems(8) [of virt] Suc.prems(5) by simp
  note run = Suc.prems(9) [unfolded map_loop.simps [of R virt]]
  show ?case
  proof (cases d)
    case False
    then show ?thesis using run lt m here by auto
  next
    case True
    have u1: "unat (virt + PAGE_SIZE_4K) = unat virt + 4096" "unat (phys + PAGE_SIZE_4K) = unat phys + 4096"
      using Suc.prems by (simp_all add: unat_add_small PAGE_SIZE_4K_def)
    have "map_loop R (virt + PAGE_SIZE_4K) (phys + PAGE_SIZE_4K) virt_end w x u s1 = Some r"
      using run lt m True by simp
    then have "new_on p3 R s1 (snd r)"
      using Suc.IH [of s1 "virt + PAGE_SIZE_4K" "phys + PAGE_SIZE_4K"] stepsD(1) [OF p(1)] Suc.prems u1 by auto
    then show ?thesis using here new_on_trans [of p3 R s s1 "[]"] by simp
  qed
qed

lemma identity_loop_ok:
  assumes "space_ok False {} R s" and "g_pml4 s = R" and "unat cursor + n * 0x200000 = 2 ^ 32" and "0x200000 dvd unat cursor"
    and "\<And>v. unat cursor \<le> unat v \<Longrightarrow> unat v < 2 ^ 32 \<Longrightarrow> table_at (pg_tables s) R (take 3 (path v)) = None"
  shows "\<exists>r. identity_loop cursor s = Some r \<and> steps False {} R s (snd r) \<and>
    (\<forall>v. unat v < 2 ^ 48 \<longrightarrow> (if unat cursor \<le> unat v \<and> unat v < 2 ^ 32
       then (fst r \<longrightarrow> translate (pg_tables (snd r)) R v = Some (mapped 0 0 True False True v))
       else translate (pg_tables (snd r)) R v = translate (pg_tables s) R v))"
  using assms
proof (induction n arbitrary: cursor s)
  case 0
  then have "\<not> cursor < LOW_IDENTITY_LIMIT" by (simp add: word_less_nat_alt LOW_IDENTITY_LIMIT_def)
  then show ?case
    using 0 steps_refl by (subst identity_loop.simps) auto
next
  case (Suc n)
  have lt: "cursor < LOW_IDENTITY_LIMIT" using Suc.prems(3) by (simp add: word_less_nat_alt LOW_IDENTITY_LIMIT_def)
  have c48: "unat cursor < 2 ^ 48" using Suc.prems(3) by simp
  obtain d s1 where m: "map_page_2m R cursor cursor True True False s = (d, s1)" by fastforce
  have fr: "frame_ok 21 cursor" using Suc.prems(3,4) by (simp add: frame_ok_def)
  have free: "table_at (pg_tables s) R (take 3 (path cursor)) = None"
    using Suc.prems(5) [of cursor] Suc.prems(3) by simp
  note p = map_page_2m_ok [OF Suc.prems(1) fr free m]
  have page: "take 3 (path v) = take 3 (path cursor) \<longleftrightarrow> unat cursor \<le> unat v \<and> unat v < unat cursor + 0x200000"
    if "unat v < 2 ^ 48" for v
  proof -
    obtain k where k: "unat cursor = 0x200000 * k" using Suc.prems(4) by blast
    show ?thesis unfolding path_eq_iff(2) [OF that c48] k by (simp add: div_nat_eqI) linarith
  qed
  have inpage: "page_mapping 21 cursor True False True v = mapped 0 0 True False True v"
    if "unat v < 2 ^ 48" "take 3 (path v) = take 3 (path cursor)" for v
    using page_mapping_offset [of 21 cursor v] Suc.prems(4) path_eq_iff(2) [OF that(1) c48] that
    by (simp add: mapped_def)
  show ?case
  proof (cases d)
    case False
    then have "identity_loop cursor s = Some (False, s1)"
      using lt m Suc.prems(2) by (subst identity_loop.simps) simp
    then show ?thesis using p False by auto
  next
    case True
    have u1: "unat (cursor + PAGE_SIZE_2M) = unat cursor + 0x200000"
      using Suc.prems(3) by (simp add: unat_add_small PAGE_SIZE_2M_def)
    have "\<exists>r. identity_loop (cursor + PAGE_SIZE_2M) s1 = Some r \<and> steps False {} R s1 (snd r) \<and>
      (\<forall>v. unat v < 2 ^ 48 \<longrightarrow> (if unat (cursor + PAGE_SIZE_2M) \<le> unat v \<and> unat v < 2 ^ 32
         then (fst r \<longrightarrow> translate (pg_tables (snd r)) R v = Some (mapped 0 0 True False True v))
         else translate (pg_tables (snd r)) R v = translate (pg_tables s1) R v))"
    proof (rule Suc.IH [OF stepsD(1) [OF p(1)]])
      show "g_pml4 s1 = R" using stepsD(7) [OF p(1)] Suc.prems(2) by simp
      show "unat (cursor + PAGE_SIZE_2M) + n * 0x200000 = 2 ^ 32" using Suc.prems(3) u1 by simp
      show "0x200000 dvd unat (cursor + PAGE_SIZE_2M)" using Suc.prems(4) u1 by simp
      show "table_at (pg_tables s1) R (take 3 (path v)) = None"
        if "unat (cursor + PAGE_SIZE_2M) \<le> unat v" "unat v < 2 ^ 32" for v
        using p(3) [of "take 3 (path v)"] Suc.prems(5) [of v] that u1 by simp
    qed
    then obtain r where r: "identity_loop (cursor + PAGE_SIZE_2M) s1 = Some r" "steps False {} R s1 (snd r)"
      and tr: "\<And>v. unat v < 2 ^ 48 \<Longrightarrow> if unat (cursor + PAGE_SIZE_2M) \<le> unat v \<and> unat v < 2 ^ 32
         then (fst r \<longrightarrow> translate (pg_tables (snd r)) R v = Some (mapped 0 0 True False True v))
         else translate (pg_tables (snd r)) R v = translate (pg_tables s1) R v" by blast
    have run: "identity_loop cursor s = Some r"
      using lt m True r(1) Suc.prems(2) by (subst identity_loop.simps) simp
    have "if unat cursor \<le> unat v \<and> unat v < 2 ^ 32
       then (fst r \<longrightarrow> translate (pg_tables (snd r)) R v = Some (mapped 0 0 True False True v))
       else translate (pg_tables (snd r)) R v = translate (pg_tables s) R v" if v: "unat v < 2 ^ 48" for v
      using tr [OF v] p(2) [of v] True page [OF v] inpage [OF v] Suc.prems(3) u1 by (auto split: if_splits)
    then show ?thesis using run steps_trans [OF p(1) r(2)] by blast
  qed
qed

subsection \<open>The kernel image\<close>

lemma split_chunk_ok:
  assumes ok: "space_ok False {} K s" and K: "g_pml4 s = K"
    and v: "take 3 (path v) = take 3 (path cursor)" "translate (pg_tables s) K v \<noteq> None"
    and run: "split_chunk cursor s = (d, s')"
  shows "steps False {} K s s' \<and> same_walks K s s'"
proof -
  let ?p = "[pml4_index cursor, pdpt_index cursor]" and ?i = "pd_index cursor"
  obtain pd s1 where a: "get_or_create_pd K cursor False s = (pd, s1)" by fastforce
  have d1: "descends False {} K ?p pd s s1"
    by (rule get_or_create_pd_descends [OF ok _ a]) simp
  show ?thesis
  proof (cases "pd = 0")
    case True
    then have "s' = s1" using run a K by (simp add: split_chunk_def)
    then show ?thesis using d1 by (simp add: descends_def)
  next
    case False
    have st: "steps False {} K s s1" "same_walks K s s1" and at: "table_at (pg_tables s1) K ?p = Some pd"
      using d1 False by (simp_all add: descends_def)
    note ok1 = stepsD(1) [OF st(1)]
    have pv: "path v = ?p @ [?i, pt_index v]" using v(1) by (simp add: path_def numeral_3_eq_3)
    have "xlate (pg_tables s1) pd [?i, pt_index v] v \<noteq> None"
    proof -
      have "translate (pg_tables s1) K v \<noteq> None" using v(2) st(2) by (simp add: same_walks_def)
      then show ?thesis
        using xlate_below [OF space_okD(3) [OF ok1] _ at, of "[?i, pt_index v]" v] pv by (simp add: translate_def)
    qed
    then have e0: "bit (entry_of s1 pd ?i) 0" by (auto split: if_splits)
    show ?thesis
    proof (cases "bit (entry_of s1 pd ?i) 7")
      case True
      then have r: "split_large_page pd ?i s1 = (d, s')"
        using run a K False e0 by (simp add: split_chunk_def Let_def)
      have i: "?i < 512" by (simp add: pd_index_def)
      have "length ?p = 2" "pd \<notin> {}" by simp_all
      then have "steps False {} K s1 s' \<and> same_walks K s1 s'"
        using split_large_page_ok [OF ok1 _ at i _ r e0 True] by blast
      then show ?thesis using st steps_trans same_walks_trans by blast
    next
      case no: False
      then have "s' = s1" using run a K False e0 by (simp add: split_chunk_def Let_def)
      then show ?thesis using st by simp
    qed
  qed
qed

lemma split_chunks_ok:
  assumes "space_ok False {} K s" and "g_pml4 s = K"
    and "\<And>v. unat cursor \<le> unat v \<Longrightarrow> unat v < unat chunk_end \<Longrightarrow> unat v \<noteq> 0 \<Longrightarrow> 4096 \<le> unat v \<Longrightarrow>
      translate (pg_tables s) K v \<noteq> None"
    and "0x200000 dvd unat cursor" and "unat cursor + n * 0x200000 = unat chunk_end" and "unat chunk_end \<le> 2 ^ 32"
  shows "\<exists>r. split_chunks cursor chunk_end s = Some r \<and> steps False {} K s (snd r) \<and> same_walks K s (snd r)"
  using assms
proof (induction n arbitrary: cursor s)
  case 0
  then have "\<not> cursor < chunk_end" by (simp add: word_less_nat_alt)
  then show ?case using 0 steps_refl by (subst split_chunks.simps) auto
next
  case (Suc n)
  have lt: "cursor < chunk_end" using Suc.prems(5) by (simp add: word_less_nat_alt)
  obtain d s1 where m: "split_chunk cursor s = (d, s1)" by fastforce
  let ?v = "cursor + 0x1000"
  have v: "unat ?v = unat cursor + 0x1000" using Suc.prems(5,6) by (simp add: unat_add_small)
  obtain k where k: "unat cursor = 0x200000 * k" using Suc.prems(4) by blast
  have "unat ?v div 0x200000 = unat cursor div 0x200000" unfolding v k by (simp add: div_nat_eqI)
  then have "take 3 (path ?v) = take 3 (path cursor)"
    using path_eq_iff(2) [of ?v cursor] v Suc.prems(5,6) by simp
  moreover have "translate (pg_tables s) K ?v \<noteq> None"
    using Suc.prems(3) [of ?v] v Suc.prems(5) by simp
  ultimately have st: "steps False {} K s s1" "same_walks K s s1"
    using split_chunk_ok [OF Suc.prems(1,2) _ _ m, of ?v] by blast+
  show ?case
  proof (cases d)
    case False
    then have "split_chunks cursor chunk_end s = Some (False, s1)"
      using lt m by (subst split_chunks.simps) simp
    then show ?thesis using st by auto
  next
    case True
    have u1: "unat (cursor + PAGE_SIZE_2M) = unat cursor + 0x200000"
      using Suc.prems(5,6) by (simp add: unat_add_small PAGE_SIZE_2M_def)
    have "\<exists>r. split_chunks (cursor + PAGE_SIZE_2M) chunk_end s1 = Some r \<and>
        steps False {} K s1 (snd r) \<and> same_walks K s1 (snd r)"
    proof (rule Suc.IH [OF stepsD(1) [OF st(1)]])
      show "g_pml4 s1 = K" using stepsD(7) [OF st(1)] Suc.prems(2) by simp
      show "translate (pg_tables s1) K v \<noteq> None"
        if "unat (cursor + PAGE_SIZE_2M) \<le> unat v" "unat v < unat chunk_end" "unat v \<noteq> 0" "4096 \<le> unat v" for v
        using Suc.prems(3) [of v] that st(2) u1 by (simp add: same_walks_def)
    qed (use Suc.prems(4-6) u1 in simp_all)
    then obtain r where r: "split_chunks (cursor + PAGE_SIZE_2M) chunk_end s1 = Some r"
        "steps False {} K s1 (snd r)" "same_walks K s1 (snd r)" by blast
    have "split_chunks cursor chunk_end s = Some r"
      using lt m True r(1) by (subst split_chunks.simps) simp
    then show ?thesis using steps_trans [OF st(1) r(2)] same_walks_trans [OF st(2) r(3)] by blast
  qed
qed

text \<open>The pages that \<open>[start, end)\<close> touches.\<close>

definition in_pages :: "u64 \<Rightarrow> u64 \<Rightarrow> u64 \<Rightarrow> bool" where
  "in_pages start end v \<longleftrightarrow>
     unat (align_down_uintptr start PAGE_SIZE) \<le> unat v \<and> unat v < unat (align_up_uintptr end PAGE_SIZE)"

definition identity :: "bool \<Rightarrow> bool \<Rightarrow> u64 \<Rightarrow> mapping" where
  "identity w x v = \<lparr>m_phys = v, m_writable = w, m_user = False, m_exec = x\<rparr>"

lemma mapped_identity [simp]: "mapped a a w False x v = identity w x v"
  by (simp add: mapped_def identity_def)

text \<open>One step of building the kernel's map: a success changes the translation of the pages of
  \<open>[start, end)\<close> to the identity.\<close>

definition maps_identity :: "u64 \<Rightarrow> u64 \<Rightarrow> u64 \<Rightarrow> bool \<Rightarrow> bool \<Rightarrow> paging_state \<Rightarrow> bool \<times> paging_state \<Rightarrow> bool" where
  "maps_identity K start end w x s r \<longleftrightarrow> steps False {} K s (snd r) \<and>
     (fst r \<longrightarrow> (\<forall>v. unat v < 2 ^ 48 \<longrightarrow> translate (pg_tables (snd r)) K v =
        (if in_pages start end v then Some (identity w x v) else translate (pg_tables s) K v)))"

lemma map_range_identity:
  assumes ok: "space_ok False {} K s" and b: "unat start \<le> 2 ^ 48" "unat end \<le> 2 ^ 48"
  shows "\<exists>r. map_range_in_root K start start (end - start) w x False s = Some r \<and> maps_identity K start end w x s r"
proof (cases "unat start \<le> unat end")
  case True
  then have u: "unat (end - start) = unat end - unat start" by (simp add: unat_diff_small)
  have "start + (end - start) = end" by simp
  moreover have "unat start + unat (end - start) \<le> 2 ^ 48" "unat start + unat (end - start) + 8192 \<le> 2 ^ 52"
    using u b True by simp_all
  moreover have "K \<notin> {}" by simp
  ultimately obtain r where r: "map_range_in_root K start start (end - start) w x False s = Some r"
    "maps_range False {} K (align_down_uintptr start PAGE_SIZE) (align_up_uintptr end PAGE_SIZE)
      (align_down_uintptr start PAGE_SIZE) w x s r"
    using map_range_in_root_maps [OF ok, of start "end - start" start w x] by metis
  then show ?thesis
    by (intro exI [of _ r]) (simp add: maps_range_def maps_identity_def in_pages_def)
next
  case False
  have "start + (end - start) = end" by simp
  then have "map_range_in_root K start start (end - start) w x False s = Some (False, s)"
    using False by (simp add: map_range_in_root_def word_less_nat_alt)
  then show ?thesis using steps_refl [OF ok] by (simp add: maps_identity_def)
qed

lemma unat_align_2M:
  "unat (paging_align_down_page v PAGE_SIZE_2M) = unat v div 0x200000 * 0x200000"
  "unat v + 0x1FFFFF < 2 ^ 64 \<Longrightarrow>
     unat (paging_align_up_page v PAGE_SIZE_2M) = (unat v + 0x1FFFFF) div 0x200000 * 0x200000"
proof -
  have m: "PAGE_SIZE_2M - 1 = mask 21" by (simp add: PAGE_SIZE_2M_def mask_eq_exp_minus_1)
  have down: "unat (w AND NOT (mask 21) :: u64) = unat w div 0x200000 * 0x200000" for w
  proof -
    have "w = (w AND NOT (mask 21)) + (w AND mask 21)"
      by (subst disjunctive_add_eq_or) (auto intro!: bit_word_eqI simp: bit_and_iff bit_or_iff bit_not_iff)
    moreover have "w AND mask 21 \<le> w" by (rule word_and_le2)
    ultimately have "unat (w AND NOT (mask 21)) = unat w - unat (w AND mask 21)"
      by (metis add_diff_cancel_right' unat_sub)
    then show ?thesis by (simp add: unat_offset minus_mod_eq_div_mult)
  qed
  show "unat (paging_align_down_page v PAGE_SIZE_2M) = unat v div 0x200000 * 0x200000"
    unfolding paging_align_down_page_def m by (rule down)
  assume v: "unat v + 0x1FFFFF < 2 ^ 64"
  have "unat (v + PAGE_SIZE_2M - 1) = unat v + 0x1FFFFF"
  proof -
    have eq: "v + PAGE_SIZE_2M - 1 = v + 0x1FFFFF" by (simp add: PAGE_SIZE_2M_def)
    show ?thesis unfolding eq using v by (simp add: unat_add_small)
  qed
  then show "unat (paging_align_up_page v PAGE_SIZE_2M) = (unat v + 0x1FFFFF) div 0x200000 * 0x200000"
    unfolding paging_align_up_page_def m down by simp
qed

text \<open>The kernel's sections: the chunks are split, then text, rodata and data are mapped in turn.\<close>

definition image_map :: "kernel_symbols \<Rightarrow> (u64 \<Rightarrow> mapping option) \<Rightarrow> u64 \<Rightarrow> mapping option" where
  "image_map k beneath v =
     (if ks_image_end k > ks_data_start k \<and> in_pages (ks_data_start k) (ks_image_end k) v then Some (identity True False v)
      else if in_pages (ks_rodata_start k) (ks_rodata_end k) v then Some (identity False False v)
      else if in_pages (ks_text_start k) (ks_text_end k) v then Some (identity False True v)
      else beneath v)"

definition symbols_ok :: "kernel_symbols \<Rightarrow> bool" where
  "symbols_ok k \<longleftrightarrow> unat (ks_text_start k) \<le> 2 ^ 32 \<and> unat (ks_text_end k) \<le> 2 ^ 32 \<and>
     unat (ks_rodata_start k) \<le> 2 ^ 32 \<and> unat (ks_rodata_end k) \<le> 2 ^ 32 \<and>
     unat (ks_data_start k) \<le> 2 ^ 32 \<and> unat (ks_image_end k) \<le> 2 ^ 32"

lemma split_kernel_chunks:
  assumes ok: "space_ok False {} K s" "g_pml4 s = K" and k: "unat image_end \<le> 2 ^ 32"
    and low: "\<And>v. 4096 \<le> unat v \<Longrightarrow> unat v < 2 ^ 32 \<Longrightarrow> translate (pg_tables s) K v \<noteq> None"
  shows "\<exists>r. split_chunks (paging_align_down_page start PAGE_SIZE_2M) (paging_align_up_page image_end PAGE_SIZE_2M) s = Some r \<and>
    steps False {} K s (snd r) \<and> same_walks K s (snd r)"
proof -
  let ?c = "paging_align_down_page start PAGE_SIZE_2M" and ?e = "paging_align_up_page image_end PAGE_SIZE_2M"
  have u: "unat ?c = unat start div 0x200000 * 0x200000" "unat ?e = (unat image_end + 0x1FFFFF) div 0x200000 * 0x200000"
    using unat_align_2M k by simp_all
  have e: "unat ?e \<le> 2 ^ 32"
  proof -
    have "(unat image_end + 0x1FFFFF) div 0x200000 \<le> (2 ^ 32 + 0x1FFFFF) div 0x200000"
      using k by (intro div_le_mono) simp
    then show ?thesis by (simp add: u)
  qed
  show ?thesis
  proof (cases "?c < ?e")
    case False
    then have "split_chunks ?c ?e s = Some (True, s)" by (subst split_chunks.simps) simp
    then show ?thesis using steps_refl [OF ok(1)] by simp
  next
    case True
    then have lt: "unat start div 0x200000 < (unat image_end + 0x1FFFFF) div 0x200000"
      using u by (simp add: word_less_nat_alt)
    define n where "n = (unat image_end + 0x1FFFFF) div 0x200000 - unat start div 0x200000"
    have ce: "unat ?c + n * 0x200000 = unat ?e"
      using lt unfolding u n_def by (simp add: diff_mult_distrib)
    have dv: "0x200000 dvd unat ?c" by (simp add: u)
    show ?thesis
      by (rule split_chunks_ok [OF ok _ dv ce e]) (use low e in auto)
  qed
qed

lemma maps_identity_step:
  assumes "maps_identity K start end w x s r" and "fst r" and "unat v < 2 ^ 48"
  shows "translate (pg_tables (snd r)) K v =
    (if in_pages start end v then Some (identity w x v) else translate (pg_tables s) K v)"
  using assms by (auto simp: maps_identity_def)

lemma map_kernel_image_ok:
  assumes ok: "space_ok False {} K s" "g_pml4 s = K" and k: "symbols_ok k"
    and low: "\<And>v. 4096 \<le> unat v \<Longrightarrow> unat v < 2 ^ 32 \<Longrightarrow> translate (pg_tables s) K v \<noteq> None"
  shows "\<exists>r. map_kernel_image k s = Some r \<and> steps False {} K s (snd r) \<and>
    (fst r \<longrightarrow> (\<forall>v. unat v < 2 ^ 48 \<longrightarrow> translate (pg_tables (snd r)) K v = image_map k (translate (pg_tables s) K) v))"
proof -
  have b: "unat (ks_text_start k) \<le> 2 ^ 48" "unat (ks_text_end k) \<le> 2 ^ 48" "unat (ks_rodata_start k) \<le> 2 ^ 48"
    "unat (ks_rodata_end k) \<le> 2 ^ 48" "unat (ks_data_start k) \<le> 2 ^ 48" "unat (ks_image_end k) \<le> 2 ^ 48"
    "unat (ks_image_end k) \<le> 2 ^ 32"
    using k by (simp_all add: symbols_ok_def)
  obtain d1 s1 where r1: "split_chunks (paging_align_down_page (ks_start k) PAGE_SIZE_2M)
      (paging_align_up_page (ks_image_end k) PAGE_SIZE_2M) s = Some (d1, s1)"
    and st1: "steps False {} K s s1" "same_walks K s s1"
    using split_kernel_chunks [OF ok b(7) low, of "ks_start k"] by fastforce
  have K1: "g_pml4 s1 = K" using stepsD(7) [OF st1(1)] ok(2) by simp
  obtain d2 s2 where r2: "map_range_identity_kernel (ks_text_start k) (ks_text_end k) False True s1 = Some (d2, s2)"
    and m2: "maps_identity K (ks_text_start k) (ks_text_end k) False True s1 (d2, s2)"
    using map_range_identity [OF stepsD(1) [OF st1(1)] b(1,2), of False True] K1
    by (auto simp: map_range_identity_kernel_def)
  have st2: "steps False {} K s1 s2" using m2 by (simp add: maps_identity_def)
  have K2: "g_pml4 s2 = K" using stepsD(7) [OF st2] K1 by simp
  obtain d3 s3 where r3: "map_range_identity_kernel (ks_rodata_start k) (ks_rodata_end k) False False s2 = Some (d3, s3)"
    and m3: "maps_identity K (ks_rodata_start k) (ks_rodata_end k) False False s2 (d3, s3)"
    using map_range_identity [OF stepsD(1) [OF st2] b(3,4), of False False] K2
    by (auto simp: map_range_identity_kernel_def)
  have st3: "steps False {} K s2 s3" using m3 by (simp add: maps_identity_def)
  have K3: "g_pml4 s3 = K" using stepsD(7) [OF st3] K2 by simp
  obtain d4 s4 where r4: "map_range_identity_kernel (ks_data_start k) (ks_image_end k) True False s3 = Some (d4, s4)"
    and m4: "maps_identity K (ks_data_start k) (ks_image_end k) True False s3 (d4, s4)"
    using map_range_identity [OF stepsD(1) [OF st3] b(5,6), of True False] K3
    by (auto simp: map_range_identity_kernel_def)
  have st4: "steps False {} K s3 s4" using m4 by (simp add: maps_identity_def)
  note chain = steps_trans [OF st1(1) st2] steps_trans [OF steps_trans [OF st1(1) st2] st3]
    steps_trans [OF steps_trans [OF steps_trans [OF st1(1) st2] st3] st4]
  let ?T = "\<lambda>st. translate (pg_tables st) K"
  have t2: "?T s2 v = (if in_pages (ks_text_start k) (ks_text_end k) v then Some (identity False True v) else ?T s v)"
    if "d2" "unat v < 2 ^ 48" for v
    using maps_identity_step [OF m2] that st1(2) by (simp add: same_walks_def)
  have t3: "?T s3 v = (if in_pages (ks_rodata_start k) (ks_rodata_end k) v then Some (identity False False v) else ?T s2 v)"
    if "d3" "unat v < 2 ^ 48" for v
    using maps_identity_step [OF m3] that by simp
  have t4: "?T s4 v = (if in_pages (ks_data_start k) (ks_image_end k) v then Some (identity True False v) else ?T s3 v)"
    if "d4" "unat v < 2 ^ 48" for v
    using maps_identity_step [OF m4] that by simp
  consider "\<not> d1" | "d1" "\<not> d2" | "d1" "d2" "\<not> d3"
    | "d1" "d2" "d3" "\<not> ks_image_end k > ks_data_start k" | "d1" "d2" "d3" "ks_image_end k > ks_data_start k" by blast
  then show ?thesis
  proof cases
    case 4
    then have "map_kernel_image k s = Some (True, s3)" by (simp add: map_kernel_image_def r1 r2 r3)
    then show ?thesis using 4 chain(2) t2 t3 by (simp add: image_map_def)
  next
    case 5
    then have "map_kernel_image k s = Some (d4, s4)" by (simp add: map_kernel_image_def r1 r2 r3 r4)
    then show ?thesis using 5 chain(3) t2 t3 t4 by (simp add: image_map_def)
  qed (use st1(1) chain in \<open>simp_all add: map_kernel_image_def r1 r2 r3\<close>)
qed

subsection \<open>The whole map\<close>

definition kernel_map :: "kernel_symbols \<Rightarrow> BootInfo \<Rightarrow> u64 \<Rightarrow> mapping option" where
  "kernel_map k b v =
     (if console_flags b AND BOOTINFO_CONSOLE_FRAMEBUFFER \<noteq> 0 \<and> framebuffer_base b \<noteq> 0 \<and>
         in_pages (framebuffer_base b) (framebuffer_base b + framebuffer_bytes b) v
      then Some (identity True False v)
      else image_map k (\<lambda>v. if 4096 \<le> unat v \<and> unat v < 2 ^ 32 then Some (identity True True v) else None) v)"

lemma empty_tree:
  assumes "page_ok R" and "block_set R 1 \<inter> F = {}" and "T R = (\<lambda>_. 0)"
  shows "tree_ok F T R" and "table_at T R p = (if p = [] then Some R else None)" and "translate T R v = None"
proof -
  show at: "table_at T R p = (if p = [] then Some R else None)" for p
    using assms(3) by (cases p) (auto simp: is_table_def)
  show "tree_ok F T R" using assms by (auto simp: tree_ok_def at entry_ok_def)
  show "translate T R v = None" using assms(3) by (simp add: translate_def path_def)
qed

text \<open>The first stage: pages of 4 KiB below 2 MiB, except the null page, and 2 MiB pages above.\<close>

lemma low_identity:
  assumes po: "pages_ok s" and a: "alloc_page_table s = (R, s0)" "R \<noteq> 0"
    and run: "map_range_in_root R PAGE_SIZE_4K PAGE_SIZE_4K (PAGE_SIZE_2M - PAGE_SIZE_4K) True True False
      (s0\<lparr>g_pml4 := R\<rparr>) = Some (True, s2)"
  shows "\<exists>r. identity_loop PAGE_SIZE_2M s2 = Some r \<and> steps False {} R (s0\<lparr>g_pml4 := R\<rparr>) (snd r) \<and>
    (fst r \<longrightarrow> (\<forall>v. unat v < 2 ^ 48 \<longrightarrow> translate (pg_tables (snd r)) R v =
      (if 4096 \<le> unat v \<and> unat v < 2 ^ 32 then Some (identity True True v) else None)))"
proof -
  let ?s1 = "s0\<lparr>g_pml4 := R\<rparr>"
  note A = alloc_page_table_cases(2) [OF po a]
  have T1: "pg_tables ?s1 R = (\<lambda>_. 0)" and held: "block_set R 1 \<inter> avail ?s1 = {}" and R: "page_ok R"
    using A by (auto simp: avail_def)
  note E = empty_tree [OF R held, of "pg_tables ?s1", OF T1]
  have ok1: "space_ok False {} R ?s1"
    using E(1) A by (auto simp: space_ok_def guarded_def pages_ok_def avail_def)
  have ps: "PAGE_SIZE_4K = 0x1000" "PAGE_SIZE_2M = 0x200000" by (simp_all add: PAGE_SIZE_4K_def PAGE_SIZE_2M_def)
  have al: "align_down_uintptr 0x1000 PAGE_SIZE = 0x1000" "align_up_uintptr 0x200000 PAGE_SIZE = 0x200000"
    using align_aligned [of "0x1000"] align_aligned [of "0x200000"] by simp_all
  have loop: "map_loop R 0x1000 0x1000 0x200000 True True False ?s1 = Some (True, s2)"
    using run R paging_align [of "0x1000", unfolded ps] paging_align [of "0x200000", unfolded ps]
    by (simp add: map_range_in_root_def ps al page_ok_def)
  have m: "maps_identity R 0x1000 0x200000 True True ?s1 (True, s2)"
    using map_range_identity [OF ok1, of "0x1000" "0x200000" True True] run by (auto simp: ps)
  then have st: "steps False {} R ?s1 s2" by (simp add: maps_identity_def)
  have p0: "take 3 (path v) = [0, 0, 0]" if "unat v < 0x200000" for v
  proof -
    have "path (0 :: u64) = [0, 0, 0, 0]" by (simp add: path_nat)
    then show ?thesis using path_eq_iff(2) [of v 0] that by (simp add: numeral_3_eq_3)
  qed
  have new: "new_on [0, 0, 0] R ?s1 s2"
    using map_loop_new_on [OF ok1 _ _ _ _ _ _ _ loop, of 511 "[0, 0, 0]"] p0 by simp
  have "table_at (pg_tables s2) R (take 3 (path v)) = None" if v: "0x200000 \<le> unat v" "unat v < 2 ^ 32" for v
  proof (rule ccontr)
    assume "table_at (pg_tables s2) R (take 3 (path v)) \<noteq> None"
    then obtain w where w: "table_at (pg_tables s2) R (take 3 (path v)) = Some w" by auto
    have len: "length (take 3 (path v)) = 3" by simp
    have ne: "take 3 (path v) \<noteq> []" by (simp add: path_def)
    have "table_at (pg_tables ?s1) R (take 3 (path v)) = None" using E(2) [of "take 3 (path v)"] ne by simp
    then obtain r where r: "[0, 0, 0] = take 3 (path v) @ r"
      using new w len unfolding new_on_def by (metis order_refl option.simps(3))
    have "length [0, 0, 0 :: nat] = length (take 3 (path v)) + length r" unfolding r by (rule length_append)
    then have "r = []" unfolding len by simp
    then have "[0, 0, 0] = take 3 (path v)" using r by simp
    then have "take 3 (path v) = take 3 (path 0)" using p0 [of 0] by simp
    then show False using path_eq_iff(2) [of v 0] v by simp
  qed
  then have "\<exists>r. identity_loop 0x200000 s2 = Some r \<and> steps False {} R s2 (snd r) \<and>
    (\<forall>v. unat v < 2 ^ 48 \<longrightarrow> (if unat (0x200000 :: u64) \<le> unat v \<and> unat v < 2 ^ 32
       then (fst r \<longrightarrow> translate (pg_tables (snd r)) R v = Some (mapped 0 0 True False True v))
       else translate (pg_tables (snd r)) R v = translate (pg_tables s2) R v))"
    using stepsD(7) [OF st] by (intro identity_loop_ok [OF stepsD(1) [OF st], of _ 2047]) simp_all
  then obtain r where r: "identity_loop 0x200000 s2 = Some r" "steps False {} R s2 (snd r)"
    and tr: "\<And>v. unat v < 2 ^ 48 \<Longrightarrow> if unat (0x200000 :: u64) \<le> unat v \<and> unat v < 2 ^ 32
       then (fst r \<longrightarrow> translate (pg_tables (snd r)) R v = Some (mapped 0 0 True False True v))
       else translate (pg_tables (snd r)) R v = translate (pg_tables s2) R v" by blast
  have low: "translate (pg_tables s2) R v =
      (if 4096 \<le> unat v \<and> unat v < 0x200000 then Some (identity True True v) else None)" if "unat v < 2 ^ 48" for v
    using maps_identity_step [OF m _ that] E(3) by (simp add: in_pages_def al)
  have "translate (pg_tables (snd r)) R v =
      (if 4096 \<le> unat v \<and> unat v < 2 ^ 32 then Some (identity True True v) else None)"
    if "fst r" "unat v < 2 ^ 48" for v
    using tr [OF that(2)] low [OF that(2)] that(1) by (auto split: if_splits)
  then show ?thesis using r steps_trans [OF st r(2)] by (auto simp: ps)
qed

lemma map_framebuffer_ok:
  assumes ok: "space_ok False {} K s" "g_pml4 s = K" and b: "unat (framebuffer_base b) + unat (framebuffer_bytes b) \<le> 2 ^ 48"
  shows "\<exists>r. map_framebuffer (Some b) s = Some r \<and> steps False {} K s (snd r) \<and>
    (fst r \<longrightarrow> (\<forall>v. unat v < 2 ^ 48 \<longrightarrow> translate (pg_tables (snd r)) K v =
      (if console_flags b AND BOOTINFO_CONSOLE_FRAMEBUFFER \<noteq> 0 \<and> framebuffer_base b \<noteq> 0 \<and>
          in_pages (framebuffer_base b) (framebuffer_base b + framebuffer_bytes b) v
       then Some (identity True False v) else translate (pg_tables s) K v)))"
proof (cases "console_flags b AND BOOTINFO_CONSOLE_FRAMEBUFFER = 0 \<or> framebuffer_base b = 0")
  case True
  then have "map_framebuffer (Some b) s = Some (True, s)" by (auto simp: map_framebuffer_def)
  then show ?thesis using True steps_refl [OF ok(1)] by auto
next
  case False
  have "unat (framebuffer_base b + framebuffer_bytes b) \<le> 2 ^ 48" "unat (framebuffer_base b) \<le> 2 ^ 48"
    using b by (simp_all add: unat_add_small)
  then obtain r where "map_range_in_root K (framebuffer_base b) (framebuffer_base b)
      (framebuffer_base b + framebuffer_bytes b - framebuffer_base b) True False False s = Some r"
    "maps_identity K (framebuffer_base b) (framebuffer_base b + framebuffer_bytes b) True False s r"
    using map_range_identity [OF ok(1)] by blast
  then show ?thesis using False ok(2) by (auto simp: map_framebuffer_def Let_def maps_identity_def)
qed

lemma paging_init_ok:
  assumes po: "pages_ok s" and k: "symbols_ok k"
    and fb: "unat (framebuffer_base b) + unat (framebuffer_bytes b) \<le> 2 ^ 48"
  shows "\<exists>done s'. paging_init k (Some b) s = Some (done, s') \<and>
    (done \<longrightarrow> kernel_ok s' \<and> (\<forall>v. unat v < 2 ^ 48 \<longrightarrow> translate (pg_tables s') (g_pml4 s') v = kernel_map k b v) \<and>
      cr3 s' = g_pml4 s' \<and> bit (cr0 s') 16 \<and> bit (efer s') 11 \<and> avail s' \<subseteq> avail s)"
proof -
  obtain R s0 where a: "alloc_page_table s = (R, s0)" by fastforce
  show ?thesis
  proof (cases "R = 0")
    case True
    then show ?thesis by (auto simp: paging_init_def a)
  next
    case R: False
    let ?s1 = "s0\<lparr>g_pml4 := R\<rparr>"
    note A = alloc_page_table_cases(2) [OF po a R]
    have "R \<noteq> 0" "space_ok False {} R ?s1"
    proof -
      have "block_set R 1 \<inter> avail ?s1 = {}" "pg_tables ?s1 R = (\<lambda>_. 0)" using A by (auto simp: avail_def)
      then show "space_ok False {} R ?s1"
        using empty_tree(1) A by (auto simp: space_ok_def guarded_def pages_ok_def avail_def)
    qed (rule R)
    then obtain d2 s2 where r2: "map_range_in_root R PAGE_SIZE_4K PAGE_SIZE_4K (PAGE_SIZE_2M - PAGE_SIZE_4K) True True False ?s1 = Some (d2, s2)"
      using map_range_identity [of R ?s1 PAGE_SIZE_4K PAGE_SIZE_2M True True]
      by (auto simp: PAGE_SIZE_4K_def PAGE_SIZE_2M_def)
    show ?thesis
    proof (cases d2)
      case False
      then show ?thesis using R r2 by (auto simp: paging_init_def a)
    next
      case d2: True
      obtain d3 s3 where r3: "identity_loop PAGE_SIZE_2M s2 = Some (d3, s3)" "steps False {} R ?s1 s3"
        and t3: "d3 \<Longrightarrow> unat v < 2 ^ 48 \<Longrightarrow> translate (pg_tables s3) R v =
          (if 4096 \<le> unat v \<and> unat v < 2 ^ 32 then Some (identity True True v) else None)" for v
        using low_identity [OF po a R, of s2] r2 d2 by fastforce
      have K3: "g_pml4 s3 = R" using stepsD(7) [OF r3(2)] by simp
      show ?thesis
      proof (cases d3)
        case False
        then show ?thesis using R r2 d2 r3 by (auto simp: paging_init_def a)
      next
        case d3: True
        have low: "translate (pg_tables s3) R v \<noteq> None" if "4096 \<le> unat v" "unat v < 2 ^ 32" for v
          using t3 [OF d3, of v] that by simp
        obtain d4 s4 where r4: "map_kernel_image k s3 = Some (d4, s4)" "steps False {} R s3 s4"
          and t4: "d4 \<Longrightarrow> unat v < 2 ^ 48 \<Longrightarrow> translate (pg_tables s4) R v = image_map k (translate (pg_tables s3) R) v" for v
          using map_kernel_image_ok [OF stepsD(1) [OF r3(2)] K3 k low] by fastforce
        have K4: "g_pml4 s4 = R" using stepsD(7) [OF r4(2)] K3 by simp
        show ?thesis
        proof (cases d4)
          case False
          then show ?thesis using R r2 d2 r3 d3 r4 by (auto simp: paging_init_def a)
        next
          case d4: True
          obtain d5 s5 where r5: "map_framebuffer (Some b) s4 = Some (d5, s5)" "steps False {} R s4 s5"
            and t5: "d5 \<Longrightarrow> unat v < 2 ^ 48 \<Longrightarrow> translate (pg_tables s5) R v =
              (if console_flags b AND BOOTINFO_CONSOLE_FRAMEBUFFER \<noteq> 0 \<and> framebuffer_base b \<noteq> 0 \<and>
                in_pages (framebuffer_base b) (framebuffer_base b + framebuffer_bytes b) v
               then Some (identity True False v) else translate (pg_tables s4) R v)" for v
            using map_framebuffer_ok [OF stepsD(1) [OF r4(2)] K4 fb] by fastforce
          have K5: "g_pml4 s5 = R" using stepsD(7) [OF r5(2)] K4 by simp
          let ?s = "load_cr3 (g_pml4 s5) (enable_nxe_and_write_protect s5)"
          have run: "paging_init k (Some b) s = Some (if d5 then (True, ?s) else (False, s5))"
            using R r2 d2 r3 d3 r4 d4 r5 by (simp add: paging_init_def a)
          have st: "steps False {} R ?s1 s5" using steps_trans r3(2) r4(2) r5(2) by blast
          have "\<not> bit (pg_tables s5 R i) 2" if "i < 512" for i
            using st that A by (auto simp: steps_def)
          then have ker: "kernel_ok s5" using stepsD(1) [OF st] K5 by (simp add: kernel_ok_def space_ok_def)
          have "kernel_ok ?s = kernel_ok s5"
            by (simp add: kernel_ok_def pages_ok_def avail_def load_cr3_def enable_nxe_and_write_protect_def Let_def)
          moreover have "translate (pg_tables s5) R v = kernel_map k b v" if "d5" "unat v < 2 ^ 48" for v
            unfolding t5 [OF that] kernel_map_def t4 [OF d4 that(2)] using t3 [OF d3 that(2)]
            by (simp add: image_map_def)
          moreover have "bit (cr0 ?s) 16" "bit (efer ?s) 11"
            by (simp_all add: load_cr3_def enable_nxe_and_write_protect_def Let_def CR0_WRITE_PROTECT_def EFER_NXE_def
              bit_or_iff bit_push_bit_iff bit_ucast_iff)
          moreover have "avail ?s \<subseteq> avail s"
            using stepsD(2) [OF st] A by (auto simp: avail_def load_cr3_def enable_nxe_and_write_protect_def Let_def)
          moreover have "cr3 ?s = g_pml4 ?s" "pg_tables ?s = pg_tables s5" "g_pml4 ?s = R"
            using K5 by (simp_all add: load_cr3_def enable_nxe_and_write_protect_def Let_def)
          ultimately show ?thesis using run ker by (cases d5) auto
        qed
      qed
    qed
  qed
qed

text \<open>C9: with memory below the 52-bit physical limit, a kernel linked below 4 GiB and a framebuffer
  below 256 TiB, \<open>paging_init\<close> always returns, and when it reports success the processor runs on a
  well-formed tree, with write protection and no-execute enabled, whose map is exactly this: the
  framebuffer and the kernel's data are writable and not executable, the read-only data neither, the
  text executable and not writable, every other address from 4 KiB to 4 GiB mapped to itself, and
  nothing else, so that the null page is not mapped and nothing is accessible to user mode.\<close>

theorem paging_init_builds_kernel_map:
  assumes "pages_ok s" and "symbols_ok k"
    and "unat (framebuffer_base b) + unat (framebuffer_bytes b) \<le> 2 ^ 48"
  shows "\<exists>done s'. paging_init k (Some b) s = Some (done, s') \<and>
    (done \<longrightarrow> kernel_ok s' \<and> (\<forall>v. unat v < 2 ^ 48 \<longrightarrow> translate (pg_tables s') (g_pml4 s') v = kernel_map k b v) \<and>
      cr3 s' = g_pml4 s' \<and> bit (cr0 s') 16 \<and> bit (efer s') 11)"
  using paging_init_ok [OF assms] by blast

definition demo_symbols :: kernel_symbols where
  "demo_symbols = \<lparr>ks_start = 0x100000, ks_text_start = 0x100000, ks_text_end = 0x104000,
     ks_rodata_start = 0x104000, ks_rodata_end = 0x105000, ks_data_start = 0x105000, ks_image_end = 0x108000\<rparr>"

theorem paging_init_builds_kernel_map_witness:
  "\<exists>done s'. paging_init demo_symbols (Some demo_boot) demo_paging = Some (done, s') \<and>
     (done \<longrightarrow> translate (pg_tables s') (g_pml4 s') 0 = None \<and>
       translate (pg_tables s') (g_pml4 s') 0x101000 = Some (identity False True 0x101000))"
proof -
  have "symbols_ok demo_symbols" by (simp add: symbols_ok_def demo_symbols_def)
  moreover have "unat (framebuffer_base demo_boot) + unat (framebuffer_bytes demo_boot) \<le> 2 ^ 48"
    by (simp add: demo_boot_def framebuffer_bytes_def)
  ultimately obtain d s' where r: "paging_init demo_symbols (Some demo_boot) demo_paging = Some (d, s')"
    and m: "d \<Longrightarrow> unat v < 2 ^ 48 \<Longrightarrow> translate (pg_tables s') (g_pml4 s') v = kernel_map demo_symbols demo_boot v" for v
    using paging_init_builds_kernel_map [OF demo_pages_ok(1), of demo_symbols demo_boot] by blast
  have "kernel_map demo_symbols demo_boot 0 = None"
    by (simp add: kernel_map_def image_map_def in_pages_def demo_symbols_def demo_boot_def align_down_uintptr_def
      align_up_uintptr_def PAGE_SIZE_def)
  moreover have "kernel_map demo_symbols demo_boot 0x101000 = Some (identity False True 0x101000)"
    by (simp add: kernel_map_def image_map_def in_pages_def demo_symbols_def demo_boot_def align_down_uintptr_def
      align_up_uintptr_def PAGE_SIZE_def)
  ultimately show ?thesis using r m [of 0] m [of "0x101000"] by auto
qed

end
