(* ===== verification/Serial.thy ===== *)
theory Serial
  imports KString
begin

text \<open>
  Port I/O and \<open>src/kernel/serial.c\<close>, the 16550 serial port.

  The devices are the environment: \<open>in_port t p\<close> is the byte the \<open>t\<close>-th port read delivers if it
  reads port \<open>p\<close>, for any function \<open>in_port\<close>; \<open>io_clock\<close> counts the reads and \<open>out_log\<close> lists the
  port writes in order. Polling loops count their spins as the code does.
\<close>

record io_state =
  in_port :: "nat \<Rightarrow> u16 \<Rightarrow> u8"
  io_clock :: nat
  out_log :: "(u16 \<times> u8) list"
  g_serial_enabled :: bool

definition io_in8 :: "u16 \<Rightarrow> 'a io_state_scheme \<Rightarrow> u8 \<times> 'a io_state_scheme" where
  "io_in8 p s = (in_port s (io_clock s) p, s\<lparr>io_clock := Suc (io_clock s)\<rparr>)"

definition io_out8 :: "u16 \<Rightarrow> u8 \<Rightarrow> 'a io_state_scheme \<Rightarrow> 'a io_state_scheme" where
  "io_out8 p v s = s\<lparr>out_log := out_log s @ [(p, v)]\<rparr>"

definition SERIAL_DATA_PORT :: u16 where "SERIAL_DATA_PORT = 0x3F8"
definition SERIAL_INT_ENABLE_PORT :: u16 where "SERIAL_INT_ENABLE_PORT = 0x3F9"
definition SERIAL_FIFO_CTRL_PORT :: u16 where "SERIAL_FIFO_CTRL_PORT = 0x3FA"
definition SERIAL_LINE_CTRL_PORT :: u16 where "SERIAL_LINE_CTRL_PORT = 0x3FB"
definition SERIAL_MODEM_CTRL_PORT :: u16 where "SERIAL_MODEM_CTRL_PORT = 0x3FC"
definition SERIAL_LINE_STATUS_PORT :: u16 where "SERIAL_LINE_STATUS_PORT = 0x3FD"
definition SERIAL_TX_TIMEOUT_SPINS :: nat where "SERIAL_TX_TIMEOUT_SPINS = 100000"
definition SERIAL_RX_TIMEOUT_SPINS :: nat where "SERIAL_RX_TIMEOUT_SPINS = 100000"

definition serial_init :: "'a io_state_scheme \<Rightarrow> 'a io_state_scheme" where
  "serial_init s =
     (let s = io_out8 SERIAL_INT_ENABLE_PORT 0x00 s;
          s = io_out8 SERIAL_LINE_CTRL_PORT 0x80 s;
          s = io_out8 SERIAL_DATA_PORT 0x03 s;
          s = io_out8 SERIAL_INT_ENABLE_PORT 0x00 s;
          s = io_out8 SERIAL_LINE_CTRL_PORT 0x03 s;
          s = io_out8 SERIAL_FIFO_CTRL_PORT 0xC7 s;
          s = io_out8 SERIAL_MODEM_CTRL_PORT 0x0B s
      in s\<lparr>g_serial_enabled := True\<rparr>)"

text \<open>The transmit loop with \<open>n\<close> spins left: whether the byte can be sent, otherwise the port is
  disabled, because it is absent (a status of 0xFF) or never ready.\<close>

fun serial_tx_wait :: "nat \<Rightarrow> 'a io_state_scheme \<Rightarrow> bool \<times> 'a io_state_scheme" where
  "serial_tx_wait 0 s = (False, s\<lparr>g_serial_enabled := False\<rparr>)"
| "serial_tx_wait (Suc n) s =
     (case io_in8 SERIAL_LINE_STATUS_PORT s of (status, s1) \<Rightarrow>
        if status = 0xFF then (False, s1\<lparr>g_serial_enabled := False\<rparr>)
        else if status AND 0x20 \<noteq> 0 then (True, s1)
        else serial_tx_wait n s1)"

definition serial_write_byte :: "u8 \<Rightarrow> 'a io_state_scheme \<Rightarrow> 'a io_state_scheme" where
  "serial_write_byte v s =
     (if \<not> g_serial_enabled s then s
      else case serial_tx_wait SERIAL_TX_TIMEOUT_SPINS s of (ready, s1) \<Rightarrow>
        if ready then io_out8 SERIAL_DATA_PORT v s1 else s1)"

text \<open>The argument is the string before its NUL.\<close>

definition serial_write :: "bytes \<Rightarrow> 'a io_state_scheme \<Rightarrow> 'a io_state_scheme" where
  "serial_write str s = fold serial_write_byte str s"

definition serial_has_byte :: "'a io_state_scheme \<Rightarrow> bool \<times> 'a io_state_scheme" where
  "serial_has_byte s =
     (if \<not> g_serial_enabled s then (False, s)
      else case io_in8 SERIAL_LINE_STATUS_PORT s of (status, s1) \<Rightarrow>
        if status = 0xFF then (False, s1\<lparr>g_serial_enabled := False\<rparr>)
        else (status AND 0x01 \<noteq> 0, s1))"

text \<open>The receive loop: at most \<open>n\<close> failed polls are followed by another.\<close>

fun serial_rx_wait :: "nat \<Rightarrow> 'a io_state_scheme \<Rightarrow> bool \<times> 'a io_state_scheme" where
  "serial_rx_wait n s =
     (case serial_has_byte s of (has, s1) \<Rightarrow>
        if has then (True, s1)
        else case n of 0 \<Rightarrow> (False, s1) | Suc m \<Rightarrow> serial_rx_wait m s1)"

declare serial_rx_wait.simps [simp del]

definition serial_read_byte :: "'a io_state_scheme \<Rightarrow> u8 \<times> 'a io_state_scheme" where
  "serial_read_byte s =
     (if \<not> g_serial_enabled s then (0, s)
      else case serial_rx_wait SERIAL_RX_TIMEOUT_SPINS s of (has, s1) \<Rightarrow>
        if has then io_in8 SERIAL_DATA_PORT s1 else (0, s1))"

subsection \<open>What the port does to the rest of the state\<close>

text \<open>Serial output changes only the clock, the log and the enabled flag, and sends its byte at
  most once: a port that stops answering is disabled and costs output, not progress.\<close>

definition io_only :: "'a io_state_scheme \<Rightarrow> 'a io_state_scheme \<Rightarrow> bool" where
  "io_only s s' \<longleftrightarrow>
     s' = s\<lparr>io_clock := io_clock s', out_log := out_log s', g_serial_enabled := g_serial_enabled s'\<rparr> \<and>
     io_clock s \<le> io_clock s'"

lemma io_onlyE:
  assumes "io_only s s'"
  obtains c l e where "s' = s\<lparr>io_clock := c, out_log := l, g_serial_enabled := e\<rparr>" "io_clock s \<le> c"
  using assms unfolding io_only_def by blast

lemma io_only_refl [simp]: "io_only s s"
  by (simp add: io_only_def)

lemma io_only_trans:
  assumes "io_only s1 s2" and "io_only s2 s3"
  shows "io_only s1 s3"
proof -
  from assms(1) obtain c2 l2 e2 where 2: "s2 = s1\<lparr>io_clock := c2, out_log := l2, g_serial_enabled := e2\<rparr>"
      "io_clock s1 \<le> c2" by (rule io_onlyE)
  from assms(2) obtain c3 l3 e3 where 3: "s3 = s2\<lparr>io_clock := c3, out_log := l3, g_serial_enabled := e3\<rparr>"
      "io_clock s2 \<le> c3" by (rule io_onlyE)
  show ?thesis using 2 3 by (simp add: io_only_def)
qed

lemma io_only_update [simp]:
  "io_only s (s\<lparr>io_clock := Suc (io_clock s)\<rparr>)" "io_only s (s\<lparr>out_log := l\<rparr>)" "io_only s (s\<lparr>g_serial_enabled := e\<rparr>)"
  by (simp_all add: io_only_def)

lemma io_only_io [simp]: "io_only s (io_out8 p v s)" "io_only s (snd (io_in8 p s))"
  by (simp_all add: io_out8_def io_in8_def)

lemma serial_tx_wait_ok:
  "serial_tx_wait n s = (r, s') \<Longrightarrow>
   io_only s s' \<and> out_log s' = out_log s \<and> (g_serial_enabled s \<longrightarrow> g_serial_enabled s' = r)"
proof (induction n arbitrary: s)
  case (Suc n)
  let ?s = "s\<lparr>io_clock := Suc (io_clock s)\<rparr>"
  have one: "io_only s ?s" by simp
  consider "in_port s (io_clock s) SERIAL_LINE_STATUS_PORT = 0xFF"
    | "in_port s (io_clock s) SERIAL_LINE_STATUS_PORT \<noteq> 0xFF"
      "in_port s (io_clock s) SERIAL_LINE_STATUS_PORT AND 0x20 \<noteq> 0"
    | "in_port s (io_clock s) SERIAL_LINE_STATUS_PORT \<noteq> 0xFF"
      "in_port s (io_clock s) SERIAL_LINE_STATUS_PORT AND 0x20 = 0" by blast
  then show ?case
  proof cases
    case 3
    then have "serial_tx_wait n ?s = (r, s')" using Suc.prems by (simp add: io_in8_def)
    from Suc.IH [OF this] show ?thesis using io_only_trans [OF one] by simp
  next
    case 1
    then show ?thesis using Suc.prems by (auto simp: io_in8_def io_only_def)
  next
    case 2
    then show ?thesis using Suc.prems by (auto simp: io_in8_def io_only_def)
  qed
qed (auto simp: io_only_def)

text \<open>A byte is sent exactly when the port is still enabled afterwards.\<close>

lemma serial_write_byte_ok:
  "io_only s (serial_write_byte v s) \<and>
   out_log (serial_write_byte v s) =
     out_log s @ (if g_serial_enabled (serial_write_byte v s) then [(SERIAL_DATA_PORT, v)] else [])"
proof -
  obtain r s1 where w: "serial_tx_wait SERIAL_TX_TIMEOUT_SPINS s = (r, s1)" by fastforce
  note ok = serial_tx_wait_ok [OF w]
  show ?thesis
  proof (cases "g_serial_enabled s")
    case True
    then have "serial_write_byte v s = (if r then io_out8 SERIAL_DATA_PORT v s1 else s1)"
      by (simp add: serial_write_byte_def w)
    then show ?thesis
      using ok True io_only_trans [of s s1 "io_out8 SERIAL_DATA_PORT v s1"] by (auto simp: io_out8_def)
  qed (simp add: serial_write_byte_def)
qed

lemma serial_write_ok: "io_only s (serial_write str s)"
  unfolding serial_write_def
proof (induction str arbitrary: s)
  case (Cons v vs)
  have "io_only s (serial_write_byte v s)" using serial_write_byte_ok by (rule conjunct1)
  from io_only_trans [OF this Cons.IH] show ?case by simp
qed simp

lemma serial_has_byte_ok: "serial_has_byte s = (r, s') \<Longrightarrow> io_only s s'"
  by (auto simp: serial_has_byte_def io_in8_def io_only_def split: if_splits)

lemma serial_rx_wait_ok: "serial_rx_wait n s = (r, s') \<Longrightarrow> io_only s s'"
proof (induction n arbitrary: s)
  case 0
  then show ?case
    by (subst (asm) serial_rx_wait.simps) (auto split: prod.splits if_splits dest: serial_has_byte_ok)
next
  case (Suc n)
  obtain h s1 where h: "serial_has_byte s = (h, s1)" by fastforce
  note one = serial_has_byte_ok [OF h]
  show ?case
  proof (cases h)
    case False
    then have "serial_rx_wait n s1 = (r, s')"
      using Suc.prems by (subst (asm) serial_rx_wait.simps) (simp add: h)
    from io_only_trans [OF one Suc.IH [OF this]] show ?thesis .
  next
    case True
    then show ?thesis using Suc.prems one by (subst (asm) serial_rx_wait.simps) (simp add: h)
  qed
qed

lemma serial_read_byte_ok: "serial_read_byte s = (v, s') \<Longrightarrow> io_only s s'"
proof -
  assume r: "serial_read_byte s = (v, s')"
  obtain h s1 where h: "serial_rx_wait SERIAL_RX_TIMEOUT_SPINS s = (h, s1)" by fastforce
  show ?thesis
  proof (cases "g_serial_enabled s \<and> h")
    case True
    then have "s' = snd (io_in8 SERIAL_DATA_PORT s1)" using r by (simp add: serial_read_byte_def h)
    then show ?thesis using io_only_trans [OF serial_rx_wait_ok [OF h] io_only_io(2)] by simp
  next
    case False
    then show ?thesis
      using r serial_rx_wait_ok [OF h] by (auto simp: serial_read_byte_def h split: if_splits)
  qed
qed

lemma serial_init_ok: "io_only s (serial_init s)"
  unfolding serial_init_def Let_def io_out8_def by (simp add: io_only_def)

end
