(* ===== verification/Console.thy ===== *)
theory Console
  imports Serial BootInfo
begin

text \<open>
  \<open>src/kernel/console.c\<close>: text output on the VGA text page and on a linear framebuffer, with a copy
  to the serial port.

  The two screens are lists: \<open>g_vga\<close> the 16-bit cells from 0xB8000 on, \<open>g_framebuffer\<close> the pixels from
  the framebuffer's base on. A load or a store outside them is \<open>None\<close>, so a result \<open>Some\<close> says the
  code stayed inside. The code's loops over fixed ranges are \<open>for_each\<close> over the list of the
  counter's values; the two loops of \<open>console_clear\<close> that compare a 16-bit counter with a 32-bit bound are
  \<open>partial_function\<close>s.
\<close>

subsection \<open>Counted loops over a state that may fail\<close>

primrec for_each :: "('x \<Rightarrow> 's \<Rightarrow> 's option) \<Rightarrow> 'x list \<Rightarrow> 's \<Rightarrow> 's option" where
  "for_each f [] s = Some s"
| "for_each f (x # xs) s = do { s' \<leftarrow> f x s; for_each f xs s' }"

lemma for_each_range:
  assumes "a \<le> b" and "P a s"
    and "\<And>i s. a \<le> i \<Longrightarrow> i < b \<Longrightarrow> P i s \<Longrightarrow> \<exists>s'. f i s = Some s' \<and> P (Suc i) s'"
  shows "\<exists>s'. for_each f [a..<b] s = Some s' \<and> P b s'"
  using assms
proof (induction "b - a" arbitrary: a s)
  case (Suc n)
  from Suc.hyps(2) have lt: "a < b" by simp
  obtain s1 where s1: "f a s = Some s1" "P (Suc a) s1" using Suc.prems lt by blast
  have "\<exists>s'. for_each f [Suc a..<b] s1 = Some s' \<and> P b s'"
    by (rule Suc.hyps(1)) (use Suc.hyps(2) s1 Suc.prems in auto)
  then show ?case using s1 lt by (simp add: upt_conv_Cons)
qed simp

lemma for_each_inv:
  assumes "P s" and "\<And>x s. x \<in> set xs \<Longrightarrow> P s \<Longrightarrow> \<exists>s'. f x s = Some s' \<and> P s'"
  shows "\<exists>s'. for_each f xs s = Some s' \<and> P s'"
  using assms
proof (induction xs arbitrary: s)
  case (Cons x xs)
  obtain s1 where "f x s = Some s1" "P s1" using Cons.prems by auto
  then show ?case using Cons.IH [of s1] Cons.prems by auto
qed simp

definition fetch :: "'a list \<Rightarrow> nat \<Rightarrow> 'a option" where
  "fetch xs i = (if i < length xs then Some (xs ! i) else None)"

subsection \<open>Constants and state\<close>

definition VGA_WIDTH :: u32 where "VGA_WIDTH = 80"
definition VGA_HEIGHT :: u32 where "VGA_HEIGHT = 25"
definition VGA_ATTRIBUTE :: u16 where "VGA_ATTRIBUTE = 0x07"
definition VGA_CRTC_INDEX_PORT :: u16 where "VGA_CRTC_INDEX_PORT = 0x3D4"
definition VGA_CRTC_DATA_PORT :: u16 where "VGA_CRTC_DATA_PORT = 0x3D5"
definition VGA_CURSOR_HIGH_INDEX :: u8 where "VGA_CURSOR_HIGH_INDEX = 14"
definition VGA_CURSOR_LOW_INDEX :: u8 where "VGA_CURSOR_LOW_INDEX = 15"
definition FB_CHAR_WIDTH :: u32 where "FB_CHAR_WIDTH = 12"
definition FB_CHAR_HEIGHT :: u32 where "FB_CHAR_HEIGHT = 20"
definition FB_GLYPH_WIDTH :: nat where "FB_GLYPH_WIDTH = 5"
definition FB_GLYPH_HEIGHT :: nat where "FB_GLYPH_HEIGHT = 7"
definition FB_GLYPH_SCALE_X :: u32 where "FB_GLYPH_SCALE_X = 2"
definition FB_GLYPH_SCALE_Y :: u32 where "FB_GLYPH_SCALE_Y = 2"
definition FB_GLYPH_OFFSET_X :: u32 where "FB_GLYPH_OFFSET_X = 1"
definition FB_GLYPH_OFFSET_Y :: u32 where "FB_GLYPH_OFFSET_Y = 2"

lemmas console_consts = VGA_WIDTH_def VGA_HEIGHT_def FB_CHAR_WIDTH_def FB_CHAR_HEIGHT_def
  FB_GLYPH_WIDTH_def FB_GLYPH_HEIGHT_def FB_GLYPH_SCALE_X_def FB_GLYPH_SCALE_Y_def
  FB_GLYPH_OFFSET_X_def FB_GLYPH_OFFSET_Y_def

record console_state = io_state +
  g_vga :: "u16 list"
  g_row :: u16
  g_col :: u16
  g_console_vga_enabled :: bool
  g_console_framebuffer_enabled :: bool
  g_framebuffer :: "u32 list"
  g_framebuffer_width :: u32
  g_framebuffer_height :: u32
  g_framebuffer_pitch :: u32
  g_console_columns :: u32
  g_console_rows :: u32
  g_framebuffer_fg :: u32
  g_framebuffer_bg :: u32

subsection \<open>Glyphs and cells\<close>

definition framebuffer_color :: "BootInfo option \<Rightarrow> u8 \<Rightarrow> u8 \<Rightarrow> u8 \<Rightarrow> u32" where
  "framebuffer_color boot_info r g b =
     (case boot_info of
        Some bi \<Rightarrow>
          if framebuffer_format bi = BOOTINFO_FRAMEBUFFER_FORMAT_BGRX
          then ucast b OR push_bit 8 (ucast g) OR push_bit 16 (ucast r)
          else ucast r OR push_bit 8 (ucast g) OR push_bit 16 (ucast b)
      | None \<Rightarrow> ucast r OR push_bit 8 (ucast g) OR push_bit 16 (ucast b))"

definition glyphs :: "(u8 \<times> u8 list) list" where
  "glyphs =
  [(65, [0x04, 0x0A, 0x11, 0x11, 0x1F, 0x11, 0x11]),
   (66, [0x1E, 0x11, 0x11, 0x1E, 0x11, 0x11, 0x1E]),
   (67, [0x0E, 0x11, 0x10, 0x10, 0x10, 0x11, 0x0E]),
   (68, [0x1C, 0x12, 0x11, 0x11, 0x11, 0x12, 0x1C]),
   (69, [0x1F, 0x10, 0x10, 0x1E, 0x10, 0x10, 0x1F]),
   (70, [0x1F, 0x10, 0x10, 0x1E, 0x10, 0x10, 0x10]),
   (71, [0x0E, 0x11, 0x10, 0x17, 0x11, 0x11, 0x0E]),
   (72, [0x11, 0x11, 0x11, 0x1F, 0x11, 0x11, 0x11]),
   (73, [0x1F, 0x04, 0x04, 0x04, 0x04, 0x04, 0x1F]),
   (74, [0x1F, 0x02, 0x02, 0x02, 0x12, 0x12, 0x0C]),
   (75, [0x11, 0x12, 0x14, 0x18, 0x14, 0x12, 0x11]),
   (76, [0x10, 0x10, 0x10, 0x10, 0x10, 0x10, 0x1F]),
   (77, [0x11, 0x1B, 0x15, 0x15, 0x11, 0x11, 0x11]),
   (78, [0x11, 0x19, 0x15, 0x13, 0x11, 0x11, 0x11]),
   (79, [0x0E, 0x11, 0x11, 0x11, 0x11, 0x11, 0x0E]),
   (80, [0x1E, 0x11, 0x11, 0x1E, 0x10, 0x10, 0x10]),
   (81, [0x0E, 0x11, 0x11, 0x11, 0x15, 0x12, 0x0D]),
   (82, [0x1E, 0x11, 0x11, 0x1E, 0x14, 0x12, 0x11]),
   (83, [0x0F, 0x10, 0x10, 0x0E, 0x01, 0x01, 0x1E]),
   (84, [0x1F, 0x04, 0x04, 0x04, 0x04, 0x04, 0x04]),
   (85, [0x11, 0x11, 0x11, 0x11, 0x11, 0x11, 0x0E]),
   (86, [0x11, 0x11, 0x11, 0x11, 0x11, 0x0A, 0x04]),
   (87, [0x11, 0x11, 0x11, 0x15, 0x15, 0x15, 0x0A]),
   (88, [0x11, 0x11, 0x0A, 0x04, 0x0A, 0x11, 0x11]),
   (89, [0x11, 0x11, 0x0A, 0x04, 0x04, 0x04, 0x04]),
   (90, [0x1F, 0x01, 0x02, 0x04, 0x08, 0x10, 0x1F]),
   (48, [0x0E, 0x11, 0x13, 0x15, 0x19, 0x11, 0x0E]),
   (49, [0x04, 0x0C, 0x14, 0x04, 0x04, 0x04, 0x1F]),
   (50, [0x0E, 0x11, 0x01, 0x02, 0x04, 0x08, 0x1F]),
   (51, [0x1E, 0x01, 0x01, 0x0E, 0x01, 0x01, 0x1E]),
   (52, [0x02, 0x06, 0x0A, 0x12, 0x1F, 0x02, 0x02]),
   (53, [0x1F, 0x10, 0x10, 0x1E, 0x01, 0x01, 0x1E]),
   (54, [0x0E, 0x10, 0x10, 0x1E, 0x11, 0x11, 0x0E]),
   (55, [0x1F, 0x01, 0x02, 0x04, 0x08, 0x08, 0x08]),
   (56, [0x0E, 0x11, 0x11, 0x0E, 0x11, 0x11, 0x0E]),
   (57, [0x0E, 0x11, 0x11, 0x0F, 0x01, 0x01, 0x0E]),
   (46, [0x00, 0x00, 0x00, 0x00, 0x00, 0x0C, 0x0C]),
   (44, [0x00, 0x00, 0x00, 0x00, 0x0C, 0x0C, 0x08]),
   (58, [0x00, 0x0C, 0x0C, 0x00, 0x0C, 0x0C, 0x00]),
   (59, [0x00, 0x0C, 0x0C, 0x00, 0x0C, 0x0C, 0x08]),
   (47, [0x01, 0x02, 0x02, 0x04, 0x08, 0x08, 0x10]),
   (92, [0x10, 0x08, 0x08, 0x04, 0x02, 0x02, 0x01]),
   (45, [0x00, 0x00, 0x00, 0x1F, 0x00, 0x00, 0x00]),
   (95, [0x00, 0x00, 0x00, 0x00, 0x00, 0x00, 0x1F]),
   (61, [0x00, 0x00, 0x1F, 0x00, 0x1F, 0x00, 0x00]),
   (43, [0x00, 0x04, 0x04, 0x1F, 0x04, 0x04, 0x00]),
   (40, [0x02, 0x04, 0x08, 0x08, 0x08, 0x04, 0x02]),
   (41, [0x08, 0x04, 0x02, 0x02, 0x02, 0x04, 0x08]),
   (91, [0x0E, 0x08, 0x08, 0x08, 0x08, 0x08, 0x0E]),
   (93, [0x0E, 0x02, 0x02, 0x02, 0x02, 0x02, 0x0E]),
   (60, [0x02, 0x04, 0x08, 0x10, 0x08, 0x04, 0x02]),
   (62, [0x08, 0x04, 0x02, 0x01, 0x02, 0x04, 0x08]),
   (63, [0x0E, 0x11, 0x01, 0x02, 0x04, 0x00, 0x04]),
   (33, [0x04, 0x04, 0x04, 0x04, 0x04, 0x00, 0x04]),
   (39, [0x04, 0x04, 0x02, 0x00, 0x00, 0x00, 0x00]),
   (34, [0x0A, 0x0A, 0x04, 0x00, 0x00, 0x00, 0x00])]"

text \<open>\<open>row\<close> is below 7.\<close>

definition glyph_row_bits :: "u8 \<Rightarrow> nat \<Rightarrow> u8" where
  "glyph_row_bits ch row =
     (let c = (if ch \<ge> 97 \<and> ch \<le> 122 then k_toupper ch else ch) in
      case map_of glyphs c of
        Some bits \<Rightarrow> bits ! row
      | None \<Rightarrow> if c = 32 then 0 else [0x0E, 0x11, 0x01, 0x06, 0x04, 0x00, 0x04] ! row)"

definition put_framebuffer_pixel ::
  "u32 \<Rightarrow> u32 \<Rightarrow> u32 \<Rightarrow> 'a console_state_scheme \<Rightarrow> 'a console_state_scheme option" where
  "put_framebuffer_pixel x y color s =
     (if \<not> g_console_framebuffer_enabled s \<or> x \<ge> g_framebuffer_width s \<or> y \<ge> g_framebuffer_height s
      then Some s
      else do { fb \<leftarrow> store (g_framebuffer s) (unat (y * g_framebuffer_pitch s + x)) color;
                Some (s\<lparr>g_framebuffer := fb\<rparr>) })"

definition clear_framebuffer_cell ::
  "u32 \<Rightarrow> u32 \<Rightarrow> 'a console_state_scheme \<Rightarrow> 'a console_state_scheme option" where
  "clear_framebuffer_cell row col s =
     (let base_x = col * FB_CHAR_WIDTH; base_y = row * FB_CHAR_HEIGHT in
      for_each (\<lambda>y. for_each
        (\<lambda>x s. put_framebuffer_pixel (base_x + of_nat x) (base_y + of_nat y) (g_framebuffer_bg s) s)
        [0..<unat FB_CHAR_WIDTH]) [0..<unat FB_CHAR_HEIGHT] s)"

definition put_framebuffer_char_at ::
  "u32 \<Rightarrow> u32 \<Rightarrow> u8 \<Rightarrow> 'a console_state_scheme \<Rightarrow> 'a console_state_scheme option" where
  "put_framebuffer_char_at row col c s =
     (let base_x = col * FB_CHAR_WIDTH; base_y = row * FB_CHAR_HEIGHT in
      do {
        s \<leftarrow> clear_framebuffer_cell row col s;
        if c = 32 then Some s
        else for_each (\<lambda>y. for_each
          (\<lambda>x s. if \<not> bit (glyph_row_bits c y) (FB_GLYPH_WIDTH - 1 - x) then Some s
            else for_each (\<lambda>draw_y. for_each
              (\<lambda>draw_x s. put_framebuffer_pixel
                 (base_x + FB_GLYPH_OFFSET_X + of_nat x * FB_GLYPH_SCALE_X + of_nat draw_x)
                 (base_y + FB_GLYPH_OFFSET_Y + of_nat y * FB_GLYPH_SCALE_Y + of_nat draw_y)
                 (g_framebuffer_fg s) s)
              [0..<unat FB_GLYPH_SCALE_X]) [0..<unat FB_GLYPH_SCALE_Y] s)
          [0..<FB_GLYPH_WIDTH]) [0..<FB_GLYPH_HEIGHT] s
      })"

definition put_vga_at ::
  "u16 \<Rightarrow> u16 \<Rightarrow> u8 \<Rightarrow> 'a console_state_scheme \<Rightarrow> 'a console_state_scheme option" where
  "put_vga_at row col c s =
     (if \<not> g_console_vga_enabled s then Some s
      else do { v \<leftarrow> store (g_vga s) (unat (ucast row * VGA_WIDTH + ucast col))
                  (push_bit 8 VGA_ATTRIBUTE OR ucast c);
                Some (s\<lparr>g_vga := v\<rparr>) })"

definition update_cursor :: "'a console_state_scheme \<Rightarrow> 'a console_state_scheme" where
  "update_cursor s =
     (let position = (ucast (ucast (g_row s) * VGA_WIDTH + ucast (g_col s)) :: u16) in
      if \<not> g_console_vga_enabled s then s
      else io_out8 VGA_CRTC_DATA_PORT (ucast (position AND 0xFF))
            (io_out8 VGA_CRTC_INDEX_PORT VGA_CURSOR_LOW_INDEX
              (io_out8 VGA_CRTC_DATA_PORT (ucast (drop_bit 8 position))
                (io_out8 VGA_CRTC_INDEX_PORT VGA_CURSOR_HIGH_INDEX s))))"

subsection \<open>Scrolling\<close>

definition copy_pixel :: "nat \<Rightarrow> nat \<Rightarrow> 'a console_state_scheme \<Rightarrow> 'a console_state_scheme option" where
  "copy_pixel dst src s =
     do { v \<leftarrow> fetch (g_framebuffer s) src; fb \<leftarrow> store (g_framebuffer s) dst v;
          Some (s\<lparr>g_framebuffer := fb\<rparr>) }"

definition scroll_framebuffer :: "'a console_state_scheme \<Rightarrow> 'a console_state_scheme option" where
  "scroll_framebuffer s =
     do {
       s \<leftarrow> for_each (\<lambda>y s.
              let dst = unat ((of_nat y - FB_CHAR_HEIGHT) * g_framebuffer_pitch s);
                  src = unat (of_nat y * g_framebuffer_pitch s)
              in for_each (\<lambda>col. copy_pixel (dst + col) (src + col)) [0..<unat (g_framebuffer_width s)] s)
            [unat FB_CHAR_HEIGHT..<unat (g_framebuffer_height s)] s;
       for_each (\<lambda>y s.
              let row_pixels = unat (of_nat y * g_framebuffer_pitch s)
              in for_each (\<lambda>col s. do { fb \<leftarrow> store (g_framebuffer s) (row_pixels + col) (g_framebuffer_bg s);
                                        Some (s\<lparr>g_framebuffer := fb\<rparr>) })
                   [0..<unat (g_framebuffer_width s)] s)
            [unat (g_framebuffer_height s - FB_CHAR_HEIGHT)..<unat (g_framebuffer_height s)] s
     }"

definition copy_cell :: "nat \<Rightarrow> nat \<Rightarrow> 'a console_state_scheme \<Rightarrow> 'a console_state_scheme option" where
  "copy_cell dst src s =
     do { v \<leftarrow> fetch (g_vga s) src; vga \<leftarrow> store (g_vga s) dst v; Some (s\<lparr>g_vga := vga\<rparr>) }"

definition scroll_vga :: "'a console_state_scheme \<Rightarrow> 'a console_state_scheme option" where
  "scroll_vga s =
     do {
       s \<leftarrow> for_each (\<lambda>row. for_each
              (\<lambda>col. copy_cell ((row - 1) * unat VGA_WIDTH + col) (row * unat VGA_WIDTH + col))
              [0..<unat VGA_WIDTH]) [1..<unat VGA_HEIGHT] s;
       for_each (\<lambda>col. put_vga_at (ucast (VGA_HEIGHT - 1)) (of_nat col) 32) [0..<unat VGA_WIDTH] s
     }"

definition scroll_if_needed :: "'a console_state_scheme \<Rightarrow> 'a console_state_scheme option" where
  "scroll_if_needed s =
     (if ucast (g_row s) < g_console_rows s then Some s
      else do {
        s \<leftarrow> (if g_console_framebuffer_enabled s then scroll_framebuffer s else Some s);
        s \<leftarrow> (if g_console_vga_enabled s then scroll_vga s else Some s);
        Some (update_cursor (s\<lparr>g_row := ucast (g_console_rows s - 1)\<rparr>))
      })"

subsection \<open>Characters\<close>

definition console_write_char :: "u8 \<Rightarrow> 'a console_state_scheme \<Rightarrow> 'a console_state_scheme option" where
  "console_write_char c s =
     (if c = 13 then Some (update_cursor (serial_write_byte 13 (s\<lparr>g_col := 0\<rparr>)))
      else if c = 10 then
        do { s \<leftarrow> scroll_if_needed (s\<lparr>g_col := 0, g_row := g_row s + 1\<rparr>);
             Some (update_cursor (serial_write_byte 10 (serial_write_byte 13 s))) }
      else
        do { s \<leftarrow> put_vga_at (g_row s) (g_col s) c s;
             s \<leftarrow> (if g_console_framebuffer_enabled s
                  then put_framebuffer_char_at (ucast (g_row s)) (ucast (g_col s)) c s else Some s);
             let s = serial_write_byte c s;
             let s = s\<lparr>g_col := g_col s + 1\<rparr>;
             s \<leftarrow> (if ucast (g_col s) \<ge> g_console_columns s
                  then scroll_if_needed (s\<lparr>g_col := 0, g_row := g_row s + 1\<rparr>) else Some s);
             Some (update_cursor s) })"

definition console_write_n :: "bytes \<Rightarrow> nat \<Rightarrow> 'a console_state_scheme \<Rightarrow> 'a console_state_scheme option" where
  "console_write_n str count s =
     for_each (\<lambda>i s. do { c \<leftarrow> fetch str i; console_write_char c s }) [0..<count] s"

text \<open>The string before its NUL, of length \<open>k_strlen\<close>.\<close>

definition console_write :: "bytes \<Rightarrow> 'a console_state_scheme \<Rightarrow> 'a console_state_scheme option" where
  "console_write str s = console_write_n str (length str) s"

definition console_write_line :: "bytes \<Rightarrow> 'a console_state_scheme \<Rightarrow> 'a console_state_scheme option" where
  "console_write_line str s = do { s \<leftarrow> console_write str s; console_write_char 10 s }"

partial_function (option) clear_columns ::
  "u16 \<Rightarrow> u16 \<Rightarrow> 'a console_state_scheme \<Rightarrow> 'a console_state_scheme option" where
  "clear_columns row col s =
     (if ucast col < g_console_columns s
      then do { s \<leftarrow> clear_framebuffer_cell (ucast row) (ucast col) s; clear_columns row (col + 1) s }
      else Some s)"

partial_function (option) clear_rows ::
  "u16 \<Rightarrow> 'a console_state_scheme \<Rightarrow> 'a console_state_scheme option" where
  "clear_rows row s =
     (if ucast row < g_console_rows s
      then do { s \<leftarrow> clear_columns row 0 s; clear_rows (row + 1) s }
      else Some s)"

definition console_clear :: "'a console_state_scheme \<Rightarrow> 'a console_state_scheme option" where
  "console_clear s =
     do {
       s \<leftarrow> (if g_console_vga_enabled s
            then for_each (\<lambda>row. for_each (\<lambda>col. put_vga_at (of_nat row) (of_nat col) 32)
                   [0..<unat VGA_WIDTH]) [0..<unat VGA_HEIGHT] s
            else Some s);
       s \<leftarrow> (if g_console_framebuffer_enabled s then clear_rows 0 s else Some s);
       Some (update_cursor (s\<lparr>g_row := 0, g_col := 0\<rparr>))
     }"

definition console_backspace :: "'a console_state_scheme \<Rightarrow> 'a console_state_scheme option" where
  "console_backspace s =
     (if g_col s = 0 \<and> g_row s = 0 then Some s
      else
        let s = (if g_col s = 0 then s\<lparr>g_row := g_row s - 1, g_col := ucast (g_console_columns s - 1)\<rparr>
                 else s\<lparr>g_col := g_col s - 1\<rparr>)
        in do {
          s \<leftarrow> put_vga_at (g_row s) (g_col s) 32 s;
          s \<leftarrow> (if g_console_framebuffer_enabled s
               then put_framebuffer_char_at (ucast (g_row s)) (ucast (g_col s)) 32 s else Some s);
          Some (update_cursor (serial_write [8, 32, 8] s))
        })"

text \<open>\<open>fb base\<close> is the memory of the framebuffer at \<open>base\<close>.\<close>

definition console_init ::
  "(u64 \<Rightarrow> u32 list) \<Rightarrow> BootInfo option \<Rightarrow> 'a console_state_scheme \<Rightarrow> 'a console_state_scheme option" where
  "console_init fb boot_info s =
     (let vga = (case boot_info of None \<Rightarrow> False
                 | Some b \<Rightarrow> console_flags b AND BOOTINFO_CONSOLE_VGA_TEXT \<noteq> 0);
          s1 = (case boot_info of
             Some b \<Rightarrow>
               if console_flags b AND BOOTINFO_CONSOLE_FRAMEBUFFER \<noteq> 0 \<and> framebuffer_base b \<noteq> 0 \<and>
                  framebuffer_width b \<ge> FB_CHAR_WIDTH \<and> framebuffer_height b \<ge> FB_CHAR_HEIGHT \<and>
                  framebuffer_pixels_per_scanline b \<ge> framebuffer_width b
               then s\<lparr>g_console_framebuffer_enabled := True, g_framebuffer := fb (framebuffer_base b),
                     g_framebuffer_width := framebuffer_width b,
                     g_framebuffer_height := framebuffer_height b,
                     g_framebuffer_pitch := framebuffer_pixels_per_scanline b,
                     g_framebuffer_fg := framebuffer_color boot_info 0xE6 0xE6 0xE6,
                     g_framebuffer_bg := framebuffer_color boot_info 0x11 0x11 0x11,
                     g_console_columns := framebuffer_width b div FB_CHAR_WIDTH,
                     g_console_rows := framebuffer_height b div FB_CHAR_HEIGHT\<rparr>
               else s\<lparr>g_console_framebuffer_enabled := False, g_framebuffer := [],
                     g_framebuffer_width := 0, g_framebuffer_height := 0, g_framebuffer_pitch := 0,
                     g_console_columns := VGA_WIDTH, g_console_rows := VGA_HEIGHT\<rparr>
           | None \<Rightarrow> s\<lparr>g_console_framebuffer_enabled := False, g_framebuffer := [],
                     g_framebuffer_width := 0, g_framebuffer_height := 0, g_framebuffer_pitch := 0,
                     g_console_columns := VGA_WIDTH, g_console_rows := VGA_HEIGHT\<rparr>)
      in console_clear (serial_init (s1\<lparr>g_console_vga_enabled := vga\<rparr>)))"

end
