(* ===== verification/ConsoleSafe.thy ===== *)
theory ConsoleSafe
  imports Console
begin

text \<open>
  The console stays on its screens: every operation returns, keeps the cursor on the screen and never
  stores outside the VGA page or the framebuffer. On the VGA page it is a terminal.
\<close>

subsection \<open>Screens\<close>

text \<open>\<open>fits\<close> is the part of the state that says the screens are as large as the geometry claims;
  \<open>paints\<close> is what drawing may change.\<close>

definition fits :: "'a console_state_scheme \<Rightarrow> bool" where
  "fits s \<longleftrightarrow>
     (g_console_vga_enabled s \<longrightarrow> 2000 \<le> length (g_vga s)) \<and>
     (g_console_framebuffer_enabled s \<longrightarrow>
        g_framebuffer_width s \<le> g_framebuffer_pitch s \<and> 20 \<le> unat (g_framebuffer_height s) \<and>
        unat (g_framebuffer_height s) * unat (g_framebuffer_pitch s) \<le> length (g_framebuffer s))"

definition paints :: "'a console_state_scheme \<Rightarrow> 'a console_state_scheme \<Rightarrow> bool" where
  "paints s s' \<longleftrightarrow>
     s' = s\<lparr>g_vga := g_vga s', g_framebuffer := g_framebuffer s', io_clock := io_clock s',
            out_log := out_log s', g_serial_enabled := g_serial_enabled s'\<rparr> \<and>
     io_clock s \<le> io_clock s' \<and>
     length (g_vga s') = length (g_vga s) \<and> length (g_framebuffer s') = length (g_framebuffer s)"

lemma paints_refl [simp]: "paints s s"
  by (simp add: paints_def)

lemma paints_trans:
  assumes "paints s1 s2" and "paints s2 s3"
  shows "paints s1 s3"
proof -
  obtain v2 f2 c2 l2 e2 where 2: "s2 = s1\<lparr>g_vga := v2, g_framebuffer := f2, io_clock := c2,
      out_log := l2, g_serial_enabled := e2\<rparr>" "length v2 = length (g_vga s1)"
      "length f2 = length (g_framebuffer s1)" "io_clock s1 \<le> c2"
    using assms(1) unfolding paints_def by metis
  obtain v3 f3 c3 l3 e3 where 3: "s3 = s2\<lparr>g_vga := v3, g_framebuffer := f3, io_clock := c3,
      out_log := l3, g_serial_enabled := e3\<rparr>" "length v3 = length (g_vga s2)"
      "length f3 = length (g_framebuffer s2)" "io_clock s2 \<le> c3"
    using assms(2) unfolding paints_def by metis
  show ?thesis using 2(2-) 3(2-) by (simp add: paints_def 2(1) 3(1))
qed

lemma paints_same:
  assumes "paints s s'"
  shows "g_console_vga_enabled s' = g_console_vga_enabled s" "g_row s' = g_row s" "g_col s' = g_col s"
    "g_console_framebuffer_enabled s' = g_console_framebuffer_enabled s"
    "g_framebuffer_width s' = g_framebuffer_width s" "g_framebuffer_height s' = g_framebuffer_height s"
    "g_framebuffer_pitch s' = g_framebuffer_pitch s" "g_console_columns s' = g_console_columns s"
    "g_console_rows s' = g_console_rows s" "g_framebuffer_bg s' = g_framebuffer_bg s"
    "length (g_vga s') = length (g_vga s)" "length (g_framebuffer s') = length (g_framebuffer s)"
    "in_port s' = in_port s" "io_clock s \<le> io_clock s'"
proof -
  obtain v f c l e where *: "s' = s\<lparr>g_vga := v, g_framebuffer := f, io_clock := c,
      out_log := l, g_serial_enabled := e\<rparr>" "length v = length (g_vga s)"
      "length f = length (g_framebuffer s)" "io_clock s \<le> c"
    using assms unfolding paints_def by metis
  show "g_console_vga_enabled s' = g_console_vga_enabled s" "g_row s' = g_row s" "g_col s' = g_col s"
    "g_console_framebuffer_enabled s' = g_console_framebuffer_enabled s"
    "g_framebuffer_width s' = g_framebuffer_width s" "g_framebuffer_height s' = g_framebuffer_height s"
    "g_framebuffer_pitch s' = g_framebuffer_pitch s" "g_console_columns s' = g_console_columns s"
    "g_console_rows s' = g_console_rows s" "g_framebuffer_bg s' = g_framebuffer_bg s"
    "length (g_vga s') = length (g_vga s)" "length (g_framebuffer s') = length (g_framebuffer s)"
    "in_port s' = in_port s" "io_clock s \<le> io_clock s'"
    using * by simp_all
qed

lemma paints_fits: "paints s s' \<Longrightarrow> fits s \<Longrightarrow> fits s'"
  by (simp add: fits_def paints_same)

lemma paints_io: "io_only s s' \<Longrightarrow> paints s s'"
proof -
  assume "io_only s s'"
  then obtain c l e where "s' = s\<lparr>io_clock := c, out_log := l, g_serial_enabled := e\<rparr>" "io_clock s \<le> c"
    by (rule io_onlyE)
  then show ?thesis by (simp add: paints_def)
qed

lemma paints_lists [simp]:
  "length f = length (g_framebuffer s) \<Longrightarrow> paints s (s\<lparr>g_framebuffer := f\<rparr>)"
  "length v = length (g_vga s) \<Longrightarrow> paints s (s\<lparr>g_vga := v\<rparr>)"
  by (simp_all add: paints_def)

text \<open>An operation that returns and only paints, on screens that fit.\<close>

definition painter :: "('a console_state_scheme \<Rightarrow> 'a console_state_scheme option) \<Rightarrow> bool" where
  "painter f \<longleftrightarrow> (\<forall>s. fits s \<longrightarrow> (\<exists>s'. f s = Some s' \<and> paints s s'))"

lemma painterD: "painter f \<Longrightarrow> fits s \<Longrightarrow> \<exists>s'. f s = Some s' \<and> paints s s'"
  by (simp add: painter_def)

lemma painter_Some [simp]: "painter Some"
  by (simp add: painter_def)

lemma painter_bind [intro]:
  assumes "painter f" and "painter g"
  shows "painter (\<lambda>s. do { s \<leftarrow> f s; g s })"
  unfolding painter_def
proof (intro allI impI)
  fix s :: "'a console_state_scheme"
  assume "fits s"
  then obtain s1 where 1: "f s = Some s1" "paints s s1" using assms(1) painterD by blast
  then obtain s2 where 2: "g s1 = Some s2" "paints s1 s2"
    using assms(2) \<open>fits s\<close> paints_fits painterD by blast
  show "\<exists>s'. (do { s \<leftarrow> f s; g s }) = Some s' \<and> paints s s'"
    using 1 2 paints_trans by fastforce
qed

lemma painter_for_each [intro]:
  assumes "\<And>x. x \<in> set xs \<Longrightarrow> painter (f x)"
  shows "painter (for_each f xs)"
  using assms
proof (induction xs)
  case (Cons x xs)
  have "painter (\<lambda>s. do { s' \<leftarrow> f x s; for_each f xs s' })"
    by (rule painter_bind) (use Cons in auto)
  then show ?case by simp
qed (simp add: painter_def)

lemma painter_if [intro]:
  "(\<And>s. b s \<Longrightarrow> fits s \<Longrightarrow> \<exists>s'. f s = Some s' \<and> paints s s') \<Longrightarrow>
   (\<And>s. \<not> b s \<Longrightarrow> fits s \<Longrightarrow> \<exists>s'. g s = Some s' \<and> paints s s') \<Longrightarrow> painter (\<lambda>s. if b s then f s else g s)"
  by (simp add: painter_def)

text \<open>The 32-bit index of a pixel on the screen is inside the framebuffer, wrapped or not.\<close>

lemma pixel_index:
  assumes "y < h" and "x < w" and "w \<le> p" and "unat h * unat p \<le> n"
  shows "unat (y * p + x :: u32) < n"
proof -
  have "unat (y * p + x) \<le> unat y * unat p + unat x"
    unfolding unat_word_ariths by (metis mod_add_left_eq mod_less_eq_dividend)
  also have "unat y * unat p + unat x < (unat y + 1) * unat p"
    using assms(2,3) by (simp add: word_less_nat_alt word_le_nat_alt)
  also have "\<dots> \<le> unat h * unat p"
    using assms(1) by (intro mult_right_mono) (simp_all add: word_less_nat_alt)
  finally show ?thesis using assms(4) by simp
qed

lemma painter_pixel [simp]: "painter (put_framebuffer_pixel x y color)"
  unfolding painter_def
proof (intro allI impI)
  fix s :: "'a console_state_scheme"
  assume f: "fits s"
  show "\<exists>s'. put_framebuffer_pixel x y color s = Some s' \<and> paints s s'"
  proof (cases "\<not> g_console_framebuffer_enabled s \<or> x \<ge> g_framebuffer_width s \<or> y \<ge> g_framebuffer_height s")
    case False
    then have "unat (y * g_framebuffer_pitch s + x) < length (g_framebuffer s)"
      using f by (intro pixel_index [of y "g_framebuffer_height s" x "g_framebuffer_width s"])
        (auto simp: fits_def)
    then show ?thesis using False by (simp add: put_framebuffer_pixel_def)
  qed (simp add: put_framebuffer_pixel_def)
qed

lemma painter_pixel_bg [simp]: "painter (\<lambda>s. put_framebuffer_pixel x y (c s) s)"
  unfolding painter_def
proof (intro allI impI)
  fix s :: "'a console_state_scheme"
  assume "fits s"
  then show "\<exists>s'. put_framebuffer_pixel x y (c s) s = Some s' \<and> paints s s'"
    by (rule painterD [OF painter_pixel])
qed

lemma painter_clear_cell [simp]: "painter (clear_framebuffer_cell row col)"
proof -
  have "painter (\<lambda>s. clear_framebuffer_cell row col s)"
    unfolding clear_framebuffer_cell_def Let_def by (intro painter_for_each) simp
  then show ?thesis by simp
qed

lemma painter_char [simp]: "painter (put_framebuffer_char_at row col c)"
proof -
  have "painter (\<lambda>s. put_framebuffer_char_at row col c s)"
    unfolding put_framebuffer_char_at_def Let_def
  proof (rule painter_bind)
    show "painter (clear_framebuffer_cell row col)" by simp
  next
    let ?draw = "\<lambda>y x. for_each (\<lambda>draw_y. for_each (\<lambda>draw_x s. put_framebuffer_pixel
      (col * FB_CHAR_WIDTH + FB_GLYPH_OFFSET_X + of_nat x * FB_GLYPH_SCALE_X + of_nat draw_x)
      (row * FB_CHAR_HEIGHT + FB_GLYPH_OFFSET_Y + of_nat y * FB_GLYPH_SCALE_Y + of_nat draw_y)
      (g_framebuffer_fg s) s) [0..<unat FB_GLYPH_SCALE_X]) [0..<unat FB_GLYPH_SCALE_Y]"
    have "painter (?draw y x)" for y x by (intro painter_for_each) simp
    then have step: "painter (\<lambda>s. if \<not> bit (glyph_row_bits c y) (FB_GLYPH_WIDTH - 1 - x) then Some s else ?draw y x s)"
      for y x by (auto simp: painter_def)
    then have glyph: "painter (for_each (\<lambda>y. for_each (\<lambda>x s.
        if \<not> bit (glyph_row_bits c y) (FB_GLYPH_WIDTH - 1 - x) then Some s else ?draw y x s)
        [0..<FB_GLYPH_WIDTH]) [0..<FB_GLYPH_HEIGHT])"
      by (intro painter_for_each) (rule step)
    show "painter (\<lambda>s. if c = 32 then Some s else for_each (\<lambda>y. for_each (\<lambda>x s.
        if \<not> bit (glyph_row_bits c y) (FB_GLYPH_WIDTH - 1 - x) then Some s else ?draw y x s)
        [0..<FB_GLYPH_WIDTH]) [0..<FB_GLYPH_HEIGHT] s)"
      using glyph by (cases "c = 32") simp_all
  qed
  then show ?thesis by simp
qed


subsection \<open>The VGA page\<close>

lemma unat_vga_index:
  "unat (ucast (row :: u16) * VGA_WIDTH + ucast (col :: u16) :: u32) = unat row * 80 + unat col"
  using unat_u16_bound [of row] unat_u16_bound [of col]
  by (simp add: VGA_WIDTH_def unat_word_ariths)

lemma put_vga_at_ok:
  assumes "fits s" and "g_console_vga_enabled s \<Longrightarrow> unat row < 25 \<and> unat col < 80"
  shows "\<exists>s'. put_vga_at row col c s = Some s' \<and> paints s s' \<and>
    s' = (if g_console_vga_enabled s
          then s\<lparr>g_vga := (g_vga s)[unat row * 80 + unat col := push_bit 8 VGA_ATTRIBUTE OR ucast c]\<rparr> else s)"
proof (cases "g_console_vga_enabled s")
  case True
  then have "unat row * 80 + unat col < length (g_vga s)" using assms by (auto simp: fits_def)
  then show ?thesis using True by (simp add: put_vga_at_def unat_vga_index)
qed (simp add: put_vga_at_def)

lemma painter_vga: "unat row < 25 \<Longrightarrow> unat col < 80 \<Longrightarrow> painter (put_vga_at row col c)"
  unfolding painter_def using put_vga_at_ok by blast

text \<open>\<open>shifted n v v'\<close>: the first \<open>n\<close> cells of \<open>v'\<close> have been copied from one line below.\<close>

definition shifted :: "nat \<Rightarrow> u16 list \<Rightarrow> u16 list \<Rightarrow> bool" where
  "shifted n v v' \<longleftrightarrow> length v' = length v \<and> (\<forall>i < length v. v' ! i = (if i < n then v ! (i + 80) else v ! i))"

lemma copy_cell_shifts:
  assumes "shifted n (g_vga s0) (g_vga s)" and "n < 1920" and "2000 \<le> length (g_vga s0)"
    and "s = s0\<lparr>g_vga := v\<rparr>"
  shows "copy_cell n (n + 80) s = Some (s0\<lparr>g_vga := v[n := v ! (n + 80)]\<rparr>) \<and>
    shifted (Suc n) (g_vga s0) (v[n := v ! (n + 80)])"
proof -
  have l: "n + 80 < length v" "length v = length (g_vga s0)" using assms by (auto simp: shifted_def)
  have "shifted (Suc n) (g_vga s0) (v[n := v ! (n + 80)])"
    using assms l by (auto simp: shifted_def nth_list_update less_Suc_eq)
  then show ?thesis using l assms(4) by (simp add: copy_cell_def fetch_def)
qed

lemma scroll_copies:
  assumes "2000 \<le> length (g_vga s)"
  shows "\<exists>v'. for_each (\<lambda>row. for_each
      (\<lambda>col. copy_cell ((row - 1) * unat VGA_WIDTH + col) (row * unat VGA_WIDTH + col))
      [0..<unat VGA_WIDTH]) [1..<unat VGA_HEIGHT] s = Some (s\<lparr>g_vga := v'\<rparr>) \<and> shifted 1920 (g_vga s) v'"
proof -
  let ?S = "\<lambda>n t. (\<exists>v. t = s\<lparr>g_vga := v\<rparr>) \<and> shifted n (g_vga s) (g_vga t)"
  have "\<exists>s'. for_each (\<lambda>row. for_each (\<lambda>col. copy_cell ((row - 1) * 80 + col) (row * 80 + col)) [0..<80])
      [1..<25] s = Some s' \<and> ?S ((25 - 1) * 80) s'"
  proof (rule for_each_range [where P = "\<lambda>row. ?S ((row - 1) * 80)"])
    show "?S ((1 - 1) * 80) s" by (auto simp: shifted_def intro: exI [of _ "g_vga s"])
  next
    fix row t
    assume r: "1 \<le> row" "row < (25::nat)" and t: "?S ((row - 1) * 80) t"
    have "\<exists>s'. for_each (\<lambda>col. copy_cell ((row - 1) * 80 + col) (row * 80 + col)) [0..<80] t = Some s' \<and>
        ?S ((row - 1) * 80 + 80) s'"
    proof (rule for_each_range [where P = "\<lambda>col. ?S ((row - 1) * 80 + col)"])
      show "?S ((row - 1) * 80 + 0) t" using t by simp
    next
      fix col u
      assume c: "0 \<le> col" "col < (80::nat)" and u: "?S ((row - 1) * 80 + col) u"
      then obtain v where v: "u = s\<lparr>g_vga := v\<rparr>" by blast
      let ?n = "(row - 1) * 80 + col"
      have e: "row * 80 + col = ?n + 80" "?n < 1920" "(row - 1) * 80 + Suc col = Suc ?n"
        using r c by (cases row, auto)
      have "shifted ?n (g_vga s) (g_vga u)" using u by blast
      note step = copy_cell_shifts [OF this e(2) assms v]
      show "\<exists>s'. copy_cell ((row - 1) * 80 + col) (row * 80 + col) u = Some s' \<and>
          ?S ((row - 1) * 80 + Suc col) s'"
        unfolding e(1,3) using step by (intro exI conjI) (auto intro: exI)
    qed simp
    moreover have "(row - 1) * 80 + 80 = (Suc row - 1) * 80" using r by (cases row) auto
    ultimately show "\<exists>s'. for_each (\<lambda>col. copy_cell ((row - 1) * 80 + col) (row * 80 + col)) [0..<80] t = Some s' \<and>
        ?S ((Suc row - 1) * 80) s'" by simp
  qed simp
  then show ?thesis by (auto simp: VGA_WIDTH_def VGA_HEIGHT_def)
qed


definition vga_cell :: "u8 \<Rightarrow> u16" where
  "vga_cell c = push_bit 8 VGA_ATTRIBUTE OR ucast c"

lemma clear_last_line:
  assumes "2000 \<le> length (g_vga s)" and "g_console_vga_enabled s"
  shows "\<exists>v'. for_each (\<lambda>col. put_vga_at (ucast (VGA_HEIGHT - 1)) (of_nat col) 32) [0..<unat VGA_WIDTH] s =
      Some (s\<lparr>g_vga := v'\<rparr>) \<and> length v' = length (g_vga s) \<and>
      (\<forall>i < length v'. v' ! i = (if 1920 \<le> i \<and> i < 2000 then vga_cell 32 else g_vga s ! i))"
proof -
  let ?P = "\<lambda>n t. \<exists>v. t = s\<lparr>g_vga := v\<rparr> \<and> length v = length (g_vga s) \<and>
      (\<forall>i < length v. v ! i = (if 1920 \<le> i \<and> i < 1920 + n then vga_cell 32 else g_vga s ! i))"
  have "\<exists>t. for_each (\<lambda>col. put_vga_at (ucast (VGA_HEIGHT - 1)) (of_nat col) 32) [0..<80] s = Some t \<and> ?P 80 t"
  proof (rule for_each_range)
    show "?P 0 s" by (intro exI [of _ "g_vga s"]) auto
  next
    fix col t
    assume c: "0 \<le> col" "col < (80::nat)" and "?P col t"
    then obtain v where v: "t = s\<lparr>g_vga := v\<rparr>" "length v = length (g_vga s)"
      "\<And>i. i < length v \<Longrightarrow> v ! i = (if 1920 \<le> i \<and> i < 1920 + col then vga_cell 32 else g_vga s ! i)" by blast
    have i: "unat (ucast (ucast (VGA_HEIGHT - 1) :: u16) * VGA_WIDTH + ucast (of_nat col :: u16) :: u32) = 1920 + col"
      using c by (simp add: unat_vga_index) (simp add: VGA_HEIGHT_def unat_of_nat)
    have "put_vga_at (ucast (VGA_HEIGHT - 1)) (of_nat col) 32 t = Some (s\<lparr>g_vga := v[1920 + col := vga_cell 32]\<rparr>)"
      using v(1,2) assms c unfolding put_vga_at_def i by (simp add: vga_cell_def)
    moreover have "\<forall>i < length v. v[1920 + col := vga_cell 32] ! i =
        (if 1920 \<le> i \<and> i < 1920 + Suc col then vga_cell 32 else g_vga s ! i)"
    proof (intro allI impI)
      fix i
      assume "i < length v"
      then show "v[1920 + col := vga_cell 32] ! i =
          (if 1920 \<le> i \<and> i < 1920 + Suc col then vga_cell 32 else g_vga s ! i)"
        using v(3) [of i] by (cases "i = 1920 + col") auto
    qed
    ultimately show "\<exists>t'. put_vga_at (ucast (VGA_HEIGHT - 1)) (of_nat col) 32 t = Some t' \<and> ?P (Suc col) t'"
      using v(2) by (intro exI [of _ "s\<lparr>g_vga := v[1920 + col := vga_cell 32]\<rparr>"] conjI
          exI [of _ "v[1920 + col := vga_cell 32]"]) auto
  qed simp
  then show ?thesis by (auto simp: VGA_WIDTH_def)
qed

text \<open>Scrolling drops the first line and adds a blank one.\<close>

lemma scroll_vga_ok:
  assumes "2000 \<le> length (g_vga s)" and "g_console_vga_enabled s"
  shows "\<exists>v'. scroll_vga s = Some (s\<lparr>g_vga := v'\<rparr>) \<and> length v' = length (g_vga s) \<and>
    take 2000 v' = drop 80 (take 2000 (g_vga s)) @ replicate 80 (vga_cell 32)"
proof -
  obtain v1 where v1: "for_each (\<lambda>row. for_each
      (\<lambda>col. copy_cell ((row - 1) * unat VGA_WIDTH + col) (row * unat VGA_WIDTH + col))
      [0..<unat VGA_WIDTH]) [1..<unat VGA_HEIGHT] s = Some (s\<lparr>g_vga := v1\<rparr>)" "shifted 1920 (g_vga s) v1"
    using scroll_copies [OF assms(1)] by blast
  have l1: "length v1 = length (g_vga s)"
    and n1: "\<And>i. i < length v1 \<Longrightarrow> v1 ! i = (if i < 1920 then g_vga s ! (i + 80) else g_vga s ! i)"
    using v1(2) by (auto simp: shifted_def)
  obtain v2 where v2: "for_each (\<lambda>col. put_vga_at (ucast (VGA_HEIGHT - 1)) (of_nat col) 32) [0..<unat VGA_WIDTH]
      (s\<lparr>g_vga := v1\<rparr>) = Some (s\<lparr>g_vga := v2\<rparr>)" "length v2 = length v1"
      "\<And>i. i < length v2 \<Longrightarrow> v2 ! i = (if 1920 \<le> i \<and> i < 2000 then vga_cell 32 else v1 ! i)"
    using clear_last_line [of "s\<lparr>g_vga := v1\<rparr>"] assms l1 by auto
  have "take 2000 v2 = drop 80 (take 2000 (g_vga s)) @ replicate 80 (vga_cell 32)"
    using assms(1) l1 v2(2) by (intro nth_equalityI) (auto simp: v2(3) n1 nth_append add.commute)
  then show ?thesis unfolding scroll_vga_def v1(1) using v2(1,2) l1 by auto
qed

subsection \<open>The framebuffer scrolls inside itself\<close>

lemma line_index:
  assumes "unat (y :: u32) < unat h" and "col < unat w" and "w \<le> p" and "unat h * unat p \<le> n"
  shows "unat (y * p) + col < n"
proof -
  have "unat (y * p) + col \<le> unat y * unat p + col"
    unfolding unat_word_ariths by simp
  also have "\<dots> < (unat y + 1) * unat p" using assms(2,3) by (simp add: word_le_nat_alt)
  also have "\<dots> \<le> unat h * unat p" using assms(1) by (intro mult_right_mono) auto
  finally show ?thesis using assms(4) by simp
qed

lemma scroll_framebuffer_ok:
  assumes "fits s" and "g_console_framebuffer_enabled s"
  shows "\<exists>s'. scroll_framebuffer s = Some s' \<and> paints s s' \<and> g_vga s' = g_vga s"
proof -
  let ?P = "\<lambda>t. \<exists>f. t = s\<lparr>g_framebuffer := f\<rparr> \<and> length f = length (g_framebuffer s)"
  let ?h = "g_framebuffer_height s" and ?w = "g_framebuffer_width s" and ?p = "g_framebuffer_pitch s"
  have geo: "?w \<le> ?p" "unat ?h * unat ?p \<le> length (g_framebuffer s)" "20 \<le> unat ?h"
    using assms by (auto simp: fits_def)
  have line: "unat (y * ?p) + col < length (g_framebuffer s)" if "unat y < unat ?h" "col < unat ?w" for y col
    using line_index [OF that geo(1,2)] .
  have ofn: "unat (of_nat y :: u32) = y" if "y < unat ?h" for y
    using that unat_u32_bound [of ?h] by (intro unat_of_nat_u32) simp
  have up: "unat (of_nat y - FB_CHAR_HEIGHT :: u32) < unat ?h" if "20 \<le> y" "y < unat ?h" for y
    using ofn [OF that(2)] that by (simp add: FB_CHAR_HEIGHT_def unat_diff_small)
  have copy: "?P t \<Longrightarrow> d < length (g_framebuffer s) \<Longrightarrow> c < length (g_framebuffer s) \<Longrightarrow>
      \<exists>t'. copy_pixel d c t = Some t' \<and> ?P t'" for t d c
    by (auto simp: copy_pixel_def fetch_def) (rule exI, rule conjI, rule refl, simp)
  have 1: "\<exists>t. for_each (\<lambda>y s.
              let dst = unat ((of_nat y - FB_CHAR_HEIGHT) * g_framebuffer_pitch s);
                  src = unat (of_nat y * g_framebuffer_pitch s)
              in for_each (\<lambda>col. copy_pixel (dst + col) (src + col)) [0..<unat (g_framebuffer_width s)] s)
            [unat FB_CHAR_HEIGHT..<unat ?h] s = Some t \<and> ?P t"
  proof (rule for_each_inv)
    show "?P s" by (intro exI [of _ "g_framebuffer s"]) simp
  next
    fix y t
    assume y: "y \<in> set [unat FB_CHAR_HEIGHT..<unat ?h]" and t: "?P t"
    then have y: "20 \<le> y" "y < unat ?h" by (auto simp: FB_CHAR_HEIGHT_def)
    have eq: "g_framebuffer_pitch t = ?p" "g_framebuffer_width t = ?w" using t by auto
    show "\<exists>t'. (let dst = unat ((of_nat y - FB_CHAR_HEIGHT) * g_framebuffer_pitch t);
                  src = unat (of_nat y * g_framebuffer_pitch t)
              in for_each (\<lambda>col. copy_pixel (dst + col) (src + col)) [0..<unat (g_framebuffer_width t)] t) =
        Some t' \<and> ?P t'"
      unfolding Let_def eq
    proof (rule for_each_inv [where P = ?P])
      fix col u
      assume c: "col \<in> set [0..<unat ?w]" and u: "?P u"
      show "\<exists>u'. copy_pixel (unat ((of_nat y - FB_CHAR_HEIGHT) * ?p) + col) (unat (of_nat y * ?p) + col) u =
          Some u' \<and> ?P u'"
        by (rule copy [OF u]) (use c y in \<open>auto intro!: line up simp: ofn\<close>)
    qed (rule t)
  qed
  then obtain f1 where t1: "for_each (\<lambda>y s.
              let dst = unat ((of_nat y - FB_CHAR_HEIGHT) * g_framebuffer_pitch s);
                  src = unat (of_nat y * g_framebuffer_pitch s)
              in for_each (\<lambda>col. copy_pixel (dst + col) (src + col)) [0..<unat (g_framebuffer_width s)] s)
            [unat FB_CHAR_HEIGHT..<unat ?h] s = Some (s\<lparr>g_framebuffer := f1\<rparr>)"
      "length f1 = length (g_framebuffer s)" by blast
  have 2: "\<exists>t. for_each (\<lambda>y s.
              let row_pixels = unat (of_nat y * g_framebuffer_pitch s)
              in for_each (\<lambda>col s. do { fb \<leftarrow> store (g_framebuffer s) (row_pixels + col) (g_framebuffer_bg s);
                                        Some (s\<lparr>g_framebuffer := fb\<rparr>) })
                   [0..<unat (g_framebuffer_width s)] s)
            [unat (?h - FB_CHAR_HEIGHT)..<unat ?h] (s\<lparr>g_framebuffer := f1\<rparr>) = Some t \<and> ?P t"
  proof (rule for_each_inv)
    show "?P (s\<lparr>g_framebuffer := f1\<rparr>)" using t1(2) by blast
  next
    fix y t
    assume y: "y \<in> set [unat (?h - FB_CHAR_HEIGHT)..<unat ?h]" and t: "?P t"
    then have y: "y < unat ?h" by auto
    have eq: "g_framebuffer_pitch t = ?p" "g_framebuffer_width t = ?w" using t by auto
    show "\<exists>t'. (let row_pixels = unat (of_nat y * g_framebuffer_pitch t)
              in for_each (\<lambda>col s. do { fb \<leftarrow> store (g_framebuffer s) (row_pixels + col) (g_framebuffer_bg s);
                                        Some (s\<lparr>g_framebuffer := fb\<rparr>) })
                   [0..<unat (g_framebuffer_width t)] t) = Some t' \<and> ?P t'"
      unfolding Let_def eq
    proof (rule for_each_inv [where P = ?P])
      fix col u
      assume c: "col \<in> set [0..<unat ?w]" and u: "?P u"
      have "unat (of_nat y * ?p) + col < length (g_framebuffer s)" using c y by (intro line) (auto simp: ofn)
      then show "\<exists>u'. (do { fb \<leftarrow> store (g_framebuffer u) (unat (of_nat y * ?p) + col) (g_framebuffer_bg u);
          Some (u\<lparr>g_framebuffer := fb\<rparr>) }) = Some u' \<and> ?P u'"
        using u by auto (rule exI, rule conjI, rule refl, simp)
    qed (rule t)
  qed
  show ?thesis using 2 unfolding scroll_framebuffer_def t1(1) by auto
qed

end
