(* ===== verification/ConsoleTerm.thy ===== *)
theory ConsoleTerm
  imports ConsoleSafe
begin

text \<open>
  The operations of the console: bounds of the cursor and the screens, and, on the VGA page, the
  terminal they implement.
\<close>

subsection \<open>The invariant\<close>

definition console_ok :: "'a console_state_scheme \<Rightarrow> bool" where
  "console_ok s \<longleftrightarrow> fits s \<and> unat (g_console_rows s) \<le> 65535 \<and> unat (g_console_columns s) \<le> 65535 \<and>
     unat (g_row s) < unat (g_console_rows s) \<and> unat (g_col s) < unat (g_console_columns s) \<and>
     (g_console_vga_enabled s \<longrightarrow> g_console_rows s = 25 \<and> g_console_columns s = 80)"

definition vga_only :: "'a console_state_scheme \<Rightarrow> bool" where
  "vga_only s \<longleftrightarrow> g_console_vga_enabled s \<and> \<not> g_console_framebuffer_enabled s"

text \<open>What an operation may change: everything \<open>paints\<close> allows, and the cursor.\<close>

definition moves :: "'a console_state_scheme \<Rightarrow> 'a console_state_scheme \<Rightarrow> bool" where
  "moves s s' \<longleftrightarrow> paints (s\<lparr>g_row := g_row s', g_col := g_col s'\<rparr>) s'"

lemma moves_refl [simp]: "moves s s"
  by (simp add: moves_def)

lemma moves_paints: "paints s s' \<Longrightarrow> moves s s'"
  using paints_same(2,3) [of s s'] by (simp add: moves_def)

lemma moves_cursor [simp]: "moves s (s\<lparr>g_row := r, g_col := c\<rparr>)" "moves s (s\<lparr>g_row := r\<rparr>)" "moves s (s\<lparr>g_col := c\<rparr>)"
  by (simp_all add: moves_def)

lemma paints_cursor: "paints s s' \<Longrightarrow> paints (s\<lparr>g_row := r, g_col := c\<rparr>) (s'\<lparr>g_row := r, g_col := c\<rparr>)"
proof -
  assume "paints s s'"
  then obtain v f k l e where *: "s' = s\<lparr>g_vga := v, g_framebuffer := f, io_clock := k,
      out_log := l, g_serial_enabled := e\<rparr>" "length v = length (g_vga s)"
      "length f = length (g_framebuffer s)" "io_clock s \<le> k"
    unfolding paints_def by metis
  then show ?thesis by (simp add: paints_def)
qed

lemma moves_trans: "moves s1 s2 \<Longrightarrow> moves s2 s3 \<Longrightarrow> moves s1 s3"
  unfolding moves_def
  by (drule paints_cursor [where r = "g_row s3" and c = "g_col s3"]) (simp add: paints_trans)

lemma moves_same:
  assumes "moves s s'"
  shows "g_console_vga_enabled s' = g_console_vga_enabled s"
    "g_console_framebuffer_enabled s' = g_console_framebuffer_enabled s"
    "g_console_columns s' = g_console_columns s" "g_console_rows s' = g_console_rows s"
    "length (g_vga s') = length (g_vga s)" "fits s \<Longrightarrow> fits s'"
    "in_port s' = in_port s" "io_clock s \<le> io_clock s'"
  using assms paints_same [of "s\<lparr>g_row := g_row s', g_col := g_col s'\<rparr>" s']
  unfolding moves_def fits_def by simp_all

lemma moves_more: "moves s s' \<Longrightarrow> console_state.more s' = console_state.more s"
  unfolding moves_def paints_def by (elim conjE) (drule arg_cong [where f = console_state.more], simp)

lemma moves_ok:
  "moves s s' \<Longrightarrow> console_ok s \<Longrightarrow> unat (g_row s') < unat (g_console_rows s) \<Longrightarrow>
   unat (g_col s') < unat (g_console_columns s) \<Longrightarrow> console_ok s'"
  by (simp add: console_ok_def moves_same)

subsection \<open>The terminal\<close>

type_synonym terminal = "u16 list \<times> nat \<times> nat"

definition terminal :: "'a console_state_scheme \<Rightarrow> terminal" where
  "terminal s = (take 2000 (g_vga s), unat (g_row s), unat (g_col s))"

definition newline :: "u16 list \<Rightarrow> nat \<Rightarrow> terminal" where
  "newline cells row =
     (if row + 1 < 25 then (cells, row + 1, 0) else (drop 80 cells @ replicate 80 (vga_cell 32), 24, 0))"

fun terminal_char :: "u8 \<Rightarrow> terminal \<Rightarrow> terminal" where
  "terminal_char c (cells, row, col) =
     (if c = 13 then (cells, row, 0)
      else if c = 10 then newline cells row
      else let cells' = cells[row * 80 + col := vga_cell c] in
        if col + 1 < 80 then (cells', row, col + 1) else newline cells' row)"

fun terminal_backspace :: "terminal \<Rightarrow> terminal" where
  "terminal_backspace (cells, row, col) =
     (if row = 0 \<and> col = 0 then (cells, row, col)
      else let (row', col') = (if col = 0 then (row - 1, 79) else (row, col - 1))
        in (cells[row' * 80 + col' := vga_cell 32], row', col'))"

lemma io_terminal:
  assumes "io_only s s'"
  shows "terminal s' = terminal s" "console_ok s' = console_ok s" "vga_only s' = vga_only s"
    "g_row s' = g_row s" "g_col s' = g_col s" "moves s s'"
proof -
  obtain c l e where *: "s' = s\<lparr>io_clock := c, out_log := l, g_serial_enabled := e\<rparr>"
    using assms unfolding io_only_def by blast
  show "terminal s' = terminal s" "console_ok s' = console_ok s" "vga_only s' = vga_only s"
    "g_row s' = g_row s" "g_col s' = g_col s"
    unfolding * by (simp_all add: terminal_def console_ok_def vga_only_def fits_def)
  show "moves s s'" using assms by (intro moves_paints paints_io)
qed

lemma io_cursor: "io_only s (update_cursor s)"
  by (simp add: update_cursor_def Let_def io_out8_def io_only_def)

lemma io_cursor_serial: "io_only s (update_cursor (serial_write_byte c s))"
  using io_only_trans [OF conjunct1 [OF serial_write_byte_ok] io_cursor] .

lemma io_cursor_newline: "io_only s (update_cursor (serial_write_byte c (serial_write_byte d s)))"
  using io_only_trans [OF conjunct1 [OF serial_write_byte_ok] io_cursor_serial] .

text \<open>The outcome of an operation that draws: it returns with a good console and only moves; on the
  VGA page the terminal is \<open>t\<close>.\<close>

definition does :: "'a console_state_scheme \<Rightarrow> 'a console_state_scheme option \<Rightarrow> terminal \<Rightarrow> bool" where
  "does s r t \<longleftrightarrow> (\<exists>s'. r = Some s' \<and> console_ok s' \<and> moves s s' \<and> (vga_only s \<longrightarrow> terminal s' = t))"

lemma does_io:
  assumes "does s r t" and "\<And>s'. io_only s' (f s')"
  shows "does s (do { s' \<leftarrow> r; Some (f s') }) t"
proof -
  obtain s' where s': "r = Some s'" "console_ok s'" "moves s s'" "vga_only s \<longrightarrow> terminal s' = t"
    using assms(1) by (auto simp: does_def)
  note io = io_terminal [OF assms(2) [of s']]
  show ?thesis using s' io moves_trans [OF s'(3) io(6)] by (simp add: does_def)
qed

lemma newline_ok:
  assumes "console_ok s"
  shows "does s (scroll_if_needed (s\<lparr>g_col := 0, g_row := g_row s + 1\<rparr>)) (newline (take 2000 (g_vga s)) (unat (g_row s)))"
proof -
  let ?s = "s\<lparr>g_col := 0, g_row := g_row s + 1\<rparr>" and ?rows = "unat (g_console_rows s)"
  have ok: "fits s" "?rows \<le> 65535" "unat (g_row s) < ?rows" "0 < unat (g_console_columns s)"
    "g_console_vga_enabled s \<Longrightarrow> g_console_rows s = 25"
    using assms by (auto simp: console_ok_def)
  have row: "unat (g_row s + 1) = unat (g_row s) + 1" using ok(2,3) by (simp add: unat_Suc_small)
  have vga: "vga_only s \<Longrightarrow> ?rows = 25" using ok(5) by (simp add: vga_only_def)
  have ms: "moves s ?s" by (simp add: moves_def paints_def)
  show ?thesis
  proof (cases "unat (g_row s) + 1 < ?rows")
    case True
    then have "scroll_if_needed ?s = Some ?s"
      using row by (simp add: scroll_if_needed_def word_less_nat_alt)
    then show ?thesis
      using assms True row vga ms by (auto simp: does_def terminal_def newline_def console_ok_def fits_def)
  next
    case False
    then have last: "unat (g_row s) + 1 = ?rows" using ok(3) by simp
    have fit: "fits ?s" using ok(1) by (simp add: fits_def)
    obtain s1 where s1: "(if g_console_framebuffer_enabled ?s then scroll_framebuffer ?s else Some ?s) = Some s1"
        "paints ?s s1" "g_vga s1 = g_vga s"
      using scroll_framebuffer_ok [OF fit] by (cases "g_console_framebuffer_enabled ?s") auto
    note same = paints_same [OF s1(2)]
    obtain s2 where s2: "(if g_console_vga_enabled s1 then scroll_vga s1 else Some s1) = Some s2" "paints s1 s2"
        "g_console_vga_enabled s \<Longrightarrow> take 2000 (g_vga s2) = drop 80 (take 2000 (g_vga s)) @ replicate 80 (vga_cell 32)"
    proof (cases "g_console_vga_enabled s1")
      case True
      then have "2000 \<le> length (g_vga s1)" using ok(1) same(1) s1(3) by (simp add: fits_def)
      from scroll_vga_ok [OF this True] show ?thesis using that True s1(3) by fastforce
    next
      case False
      then show ?thesis using that [of s1] same(1) by simp
    qed
    let ?u = "s2\<lparr>g_row := ucast (g_console_rows s2 - 1)\<rparr>"
    have p: "paints ?s s2" using paints_trans [OF s1(2) s2(2)] .
    note q = paints_same [OF p]
    have r': "unat (ucast (g_console_rows s2 - 1) :: u16) = ?rows - 1"
    proof -
      have "unat (g_console_rows s2 - 1) = ?rows - 1"
        using q(9) ok(3) by (simp add: unat_diff_small)
      then show ?thesis using ok(2) by (simp add: unsigned_ucast_eq take_bit_nat_eq_self)
    qed
    have sc: "scroll_if_needed ?s = Some (update_cursor ?u)"
      using last row s1(1) s2(1) by (simp add: scroll_if_needed_def word_less_nat_alt)
    have m: "moves s ?u"
      using moves_trans [OF moves_trans [OF ms moves_paints [OF p]] moves_cursor(2)] .
    have "console_ok ?u" using moves_ok [OF m assms] q r' ok by simp
    moreover have "vga_only s \<Longrightarrow> terminal ?u = newline (take 2000 (g_vga s)) (unat (g_row s))"
      using s2(3) q r' last vga by (simp add: vga_only_def terminal_def newline_def)
    ultimately have "does s (Some ?u) (newline (take 2000 (g_vga s)) (unat (g_row s)))"
      using m by (simp add: does_def)
    from does_io [OF this io_cursor] show ?thesis by (simp add: sc)
  qed
qed

lemma put_char_ok:
  assumes "console_ok s"
  shows "\<exists>s'. (do { s \<leftarrow> put_vga_at (g_row s) (g_col s) c s;
             (if g_console_framebuffer_enabled s
              then put_framebuffer_char_at (ucast (g_row s)) (ucast (g_col s)) c s else Some s) }) = Some s' \<and>
    paints s s' \<and>
    (vga_only s \<longrightarrow> s' = s\<lparr>g_vga := (g_vga s)[unat (g_row s) * 80 + unat (g_col s) := vga_cell c]\<rparr>)"
proof -
  have fit: "fits s" using assms by (simp add: console_ok_def)
  obtain s1 where s1: "put_vga_at (g_row s) (g_col s) c s = Some s1" "paints s s1"
      "s1 = (if g_console_vga_enabled s
          then s\<lparr>g_vga := (g_vga s)[unat (g_row s) * 80 + unat (g_col s) := vga_cell c]\<rparr> else s)"
    using put_vga_at_ok [OF fit] assms unfolding console_ok_def vga_cell_def by fastforce
  obtain s2 where "put_framebuffer_char_at (ucast (g_row s1)) (ucast (g_col s1)) c s1 = Some s2" "paints s1 s2"
    using painterD [OF painter_char paints_fits [OF s1(2) fit]] by blast
  then show ?thesis using s1 paints_trans [OF s1(2)] by (auto simp: vga_only_def)
qed

lemma console_write_char_ok:
  assumes "console_ok s"
  shows "does s (console_write_char c s) (terminal_char c (terminal s))"
proof -
  have ok: "unat (g_col s) < unat (g_console_columns s)" "unat (g_console_columns s) \<le> 65535"
    "unat (g_row s) < unat (g_console_rows s)" "g_console_vga_enabled s \<Longrightarrow> g_console_columns s = 80"
    using assms by (auto simp: console_ok_def)
  consider "c = 13" | "c = 10" | "c \<noteq> 13" "c \<noteq> 10" by blast
  then show ?thesis
  proof cases
    case 1
    have "console_ok (s\<lparr>g_col := 0\<rparr>)" using moves_ok [OF moves_cursor(3) assms] ok by simp
    then have "does s (Some (s\<lparr>g_col := 0\<rparr>)) (terminal_char c (terminal s))"
      using 1 by (simp add: does_def terminal_def)
    from does_io [OF this io_cursor_serial] show ?thesis using 1 by (simp add: console_write_char_def)
  next
    case 2
    from does_io [OF newline_ok [OF assms] io_cursor_newline]
    show ?thesis using 2 by (simp add: console_write_char_def terminal_def)
  next
    case 3
    obtain s1 where s1: "(do { s \<leftarrow> put_vga_at (g_row s) (g_col s) c s;
             (if g_console_framebuffer_enabled s
              then put_framebuffer_char_at (ucast (g_row s)) (ucast (g_col s)) c s else Some s) }) = Some s1"
        "paints s s1"
        "vga_only s \<longrightarrow> s1 = s\<lparr>g_vga := (g_vga s)[unat (g_row s) * 80 + unat (g_col s) := vga_cell c]\<rparr>"
      using put_char_ok [OF assms] by blast
    let ?s2 = "serial_write_byte c s1"
    have w: "io_only s1 ?s2" using serial_write_byte_ok by (rule conjunct1)
    have run: "console_write_char c s = (do {
             s \<leftarrow> (if ucast (g_col ?s2 + 1) \<ge> g_console_columns ?s2
                  then scroll_if_needed (?s2\<lparr>g_col := 0, g_row := g_row ?s2 + 1\<rparr>)
                  else Some (?s2\<lparr>g_col := g_col ?s2 + 1\<rparr>));
             Some (update_cursor s) })"
      using s1(1) 3 by (auto simp: console_write_char_def Let_def split: Option.bind_splits if_splits)
    have p: "paints s ?s2" using paints_trans [OF s1(2) paints_io [OF w]] .
    note same = paints_same [OF p]
    have ok2: "console_ok ?s2" using moves_ok [OF moves_paints [OF p] assms] same ok by simp
    have t2: "vga_only s \<Longrightarrow> terminal ?s2 = ((take 2000 (g_vga s))[unat (g_row s) * 80 + unat (g_col s) := vga_cell c],
        unat (g_row s), unat (g_col s))"
      using io_terminal(1) [OF w] s1(3) by (simp add: terminal_def take_update_swap)
    have v2: "vga_only ?s2 = vga_only s" using same by (simp add: vga_only_def)
    have col: "unat (g_col s + 1) = unat (g_col s) + 1" using ok by (simp add: unat_Suc_small)
    have "does s (if ucast (g_col ?s2 + 1) \<ge> g_console_columns ?s2
                  then scroll_if_needed (?s2\<lparr>g_col := 0, g_row := g_row ?s2 + 1\<rparr>)
                  else Some (?s2\<lparr>g_col := g_col ?s2 + 1\<rparr>)) (terminal_char c (terminal s))"
    proof (cases "ucast (g_col ?s2 + 1) \<ge> g_console_columns ?s2")
      case True
      then have "unat (g_console_columns s) \<le> unat (g_col s) + 1"
        using same col by (simp add: word_le_nat_alt)
      then have "vga_only s \<Longrightarrow> \<not> unat (g_col s) + 1 < 80" using ok(4) by (simp add: vga_only_def)
      then have "vga_only s \<Longrightarrow> newline (take 2000 (g_vga ?s2)) (unat (g_row ?s2)) = terminal_char c (terminal s)"
        using t2 3 by (simp add: terminal_def)
      then show ?thesis
        using newline_ok [OF ok2] True moves_trans [OF moves_paints [OF p]] v2 by (auto simp: does_def)
    next
      case False
      then have lt: "unat (g_col s) + 1 < unat (g_console_columns s)"
        using same col by (simp add: word_le_nat_alt)
      then have "console_ok (?s2\<lparr>g_col := g_col ?s2 + 1\<rparr>)"
        using moves_ok [OF moves_cursor(3) ok2] same ok col by simp
      moreover have "vga_only s \<Longrightarrow> terminal (?s2\<lparr>g_col := g_col ?s2 + 1\<rparr>) = terminal_char c (terminal s)"
        using t2 3 lt ok(4) same col by (simp add: terminal_def vga_only_def)
      ultimately show ?thesis
        using False moves_trans [OF moves_paints [OF p] moves_cursor(3)] by (simp add: does_def)
    qed
    from does_io [OF this io_cursor] show ?thesis by (simp only: run)
  qed
qed


lemma does_trans:
  assumes "does s r t" and "\<And>s'. r = Some s' \<Longrightarrow> console_ok s' \<Longrightarrow> does s' (f s') (g (terminal s'))"
  shows "does s (do { s' \<leftarrow> r; f s' }) (g t)"
proof -
  obtain s1 where s1: "r = Some s1" "console_ok s1" "moves s s1" "vga_only s \<longrightarrow> terminal s1 = t"
    using assms(1) by (auto simp: does_def)
  obtain s2 where s2: "f s1 = Some s2" "console_ok s2" "moves s1 s2"
      "vga_only s1 \<longrightarrow> terminal s2 = g (terminal s1)"
    using assms(2) [OF s1(1,2)] by (auto simp: does_def)
  have "vga_only s1 = vga_only s" using moves_same [OF s1(3)] by (simp add: vga_only_def)
  then show ?thesis using s1 s2 moves_trans [OF s1(3) s2(3)] by (simp add: does_def)
qed

lemma console_write_ok:
  assumes "console_ok s"
  shows "does s (console_write str s) (fold terminal_char str (terminal s))"
proof -
  have "console_ok t \<Longrightarrow> n \<le> length str \<Longrightarrow>
      does t (for_each (\<lambda>i s. do { c \<leftarrow> fetch str i; console_write_char c s }) [n..<length str] t)
        (fold terminal_char (drop n str) (terminal t))" for n :: nat and t :: "'a console_state_scheme"
  proof (induction "length str - n" arbitrary: n t)
    case 0
    then show ?case by (simp add: does_def)
  next
    case (Suc k)
    then have n: "n < length str" by simp
    have "does t (do { s' \<leftarrow> console_write_char (str ! n) t;
          for_each (\<lambda>i s. do { c \<leftarrow> fetch str i; console_write_char c s }) [Suc n..<length str] s' })
        (fold terminal_char (drop (Suc n) str) (terminal_char (str ! n) (terminal t)))"
      by (rule does_trans [OF console_write_char_ok], rule Suc.prems, rule Suc.hyps) (use Suc in auto)
    moreover have "drop n str = str ! n # drop (Suc n) str" using n by (simp add: Cons_nth_drop_Suc)
    ultimately show ?case using n by (simp add: upt_conv_Cons fetch_def)
  qed
  from this [OF assms, of 0] show ?thesis by (simp add: console_write_def console_write_n_def)
qed

lemma console_backspace_ok:
  assumes "console_ok s"
  shows "does s (console_backspace s) (terminal_backspace (terminal s))"
proof (cases "g_col s = 0 \<and> g_row s = 0")
  case True
  then show ?thesis using assms by (simp add: console_backspace_def does_def terminal_def)
next
  case False
  let ?cols = "unat (g_console_columns s)"
  define u where "u = (if g_col s = 0 then s\<lparr>g_row := g_row s - 1, g_col := ucast (g_console_columns s - 1)\<rparr>
            else s\<lparr>g_col := g_col s - 1\<rparr>)"
  have ok: "unat (g_col s) < ?cols" "?cols \<le> 65535" "unat (g_row s) < unat (g_console_rows s)"
    "g_console_vga_enabled s \<Longrightarrow> g_console_columns s = 80"
    using assms by (auto simp: console_ok_def)
  have last: "unat (ucast (g_console_columns s - 1) :: u16) = ?cols - 1"
  proof -
    have "unat (g_console_columns s - 1) = ?cols - 1" using ok(1) by (simp add: unat_diff_small)
    then show ?thesis using ok(2) by (simp add: unsigned_ucast_eq take_bit_nat_eq_self)
  qed
  have r: "g_col s = 0 \<Longrightarrow> unat (g_row s - 1) = unat (g_row s) - 1"
    using False by (simp add: unat_minus_one)
  have c: "g_col s \<noteq> 0 \<Longrightarrow> unat (g_col s - 1) = unat (g_col s) - 1" by (simp add: unat_minus_one)
  have m: "moves s u" by (simp add: u_def)
  have ok': "console_ok u"
    by (rule moves_ok [OF m assms]) (use ok r c last in \<open>auto simp: u_def\<close>)
  obtain s1 where s1: "(do { s \<leftarrow> put_vga_at (g_row u) (g_col u) 32 u;
             (if g_console_framebuffer_enabled s
              then put_framebuffer_char_at (ucast (g_row s)) (ucast (g_col s)) 32 s else Some s) }) = Some s1"
      "paints u s1"
      "vga_only u \<longrightarrow> s1 = u\<lparr>g_vga := (g_vga u)[unat (g_row u) * 80 + unat (g_col u) := vga_cell 32]\<rparr>"
    using put_char_ok [OF ok'] by blast
  have "console_ok s1" using moves_ok [OF moves_paints [OF s1(2)] ok'] paints_same [OF s1(2)] ok'
    by (simp add: console_ok_def)
  moreover have "vga_only s \<Longrightarrow> terminal s1 = terminal_backspace (terminal s)"
    using s1(3) False r c last ok(4)
    by (auto simp: u_def vga_only_def terminal_def take_update_swap unat_eq_zero)
  ultimately have d: "does s (Some s1) (terminal_backspace (terminal s))"
    using moves_trans [OF m moves_paints [OF s1(2)]] by (simp add: does_def)
  have io: "io_only s' (update_cursor (serial_write [8, 32, 8] s'))" for s' :: "'a console_state_scheme"
    using io_only_trans [OF serial_write_ok io_cursor] .
  have "console_backspace s = (do { s' \<leftarrow> Some s1; Some (update_cursor (serial_write [8, 32, 8] s')) })"
    using s1(1) False unfolding console_backspace_def Let_def u_def [symmetric]
    by (auto split: Option.bind_splits)
  with does_io [OF d io] show ?thesis by (simp only:)
qed

subsection \<open>Clearing\<close>

lemma clear_columns_ok:
  assumes "fits s" and "unat (g_console_columns s) \<le> 65535" and "unat col \<le> unat (g_console_columns s)"
  shows "\<exists>s'. clear_columns row col s = Some s' \<and> paints s s'"
  using assms
proof (induction "unat (g_console_columns s) - unat col" arbitrary: col s)
  case 0
  then show ?case by (subst clear_columns.simps) (simp add: word_less_nat_alt)
next
  case (Suc n)
  then have lt: "unat col < unat (g_console_columns s)" by simp
  then have next': "unat (col + 1) = unat col + 1" using Suc.prems by (simp add: unat_Suc_small)
  obtain s1 where s1: "clear_framebuffer_cell (ucast row) (ucast col) s = Some s1" "paints s s1"
    using painterD [OF painter_clear_cell Suc.prems(1)] by blast
  note same = paints_same [OF s1(2)]
  have "\<exists>s'. clear_columns row (col + 1) s1 = Some s' \<and> paints s1 s'"
    by (rule Suc.hyps(1)) (use Suc same next' lt paints_fits [OF s1(2)] in auto)
  then obtain s2 where "clear_columns row (col + 1) s1 = Some s2" "paints s1 s2" by blast
  then show ?case
    using s1 lt paints_trans [OF s1(2)] by (subst clear_columns.simps) (auto simp: word_less_nat_alt)
qed

lemma clear_rows_ok:
  assumes "fits s" and "unat (g_console_columns s) \<le> 65535" and "unat (g_console_rows s) \<le> 65535"
    and "unat row \<le> unat (g_console_rows s)"
  shows "\<exists>s'. clear_rows row s = Some s' \<and> paints s s'"
  using assms
proof (induction "unat (g_console_rows s) - unat row" arbitrary: row s)
  case 0
  then show ?case by (subst clear_rows.simps) (simp add: word_less_nat_alt)
next
  case (Suc n)
  then have lt: "unat row < unat (g_console_rows s)" by simp
  then have next': "unat (row + 1) = unat row + 1" using Suc.prems by (simp add: unat_Suc_small)
  obtain s1 where s1: "clear_columns row 0 s = Some s1" "paints s s1"
    using clear_columns_ok [OF Suc.prems(1,2), of 0 row] by auto
  note same = paints_same [OF s1(2)]
  have "\<exists>s'. clear_rows (row + 1) s1 = Some s' \<and> paints s1 s'"
    by (rule Suc.hyps(1)) (use Suc same next' lt paints_fits [OF s1(2)] in auto)
  then obtain s2 where "clear_rows (row + 1) s1 = Some s2" "paints s1 s2" by blast
  then show ?case
    using s1 lt paints_trans [OF s1(2)] by (subst clear_rows.simps) (auto simp: word_less_nat_alt)
qed

text \<open>The geometry \<open>console_init\<close> sets, before there is a cursor.\<close>

definition screen_geometry_ok :: "'a console_state_scheme \<Rightarrow> bool" where
  "screen_geometry_ok s \<longleftrightarrow> fits s \<and> 0 < g_console_rows s \<and> unat (g_console_rows s) \<le> 65535 \<and>
     0 < g_console_columns s \<and> unat (g_console_columns s) \<le> 65535 \<and>
     (g_console_vga_enabled s \<longrightarrow> g_console_rows s = 25 \<and> g_console_columns s = 80)"

lemma console_clear_ok:
  assumes "screen_geometry_ok s"
  shows "\<exists>s'. console_clear s = Some s' \<and> console_ok s' \<and> moves s s'"
proof -
  have geo: "fits s" "unat (g_console_rows s) \<le> 65535" "unat (g_console_columns s) \<le> 65535"
    using assms by (auto simp: screen_geometry_ok_def)
  have "painter (for_each (\<lambda>row. for_each (\<lambda>col. put_vga_at (of_nat row) (of_nat col) 32)
                   [0..<unat VGA_WIDTH]) [0..<unat VGA_HEIGHT])"
    by (intro painter_for_each painter_vga) (auto simp: VGA_WIDTH_def VGA_HEIGHT_def unat_of_nat)
  from painterD [OF this geo(1)] obtain s1 where s1: "(if g_console_vga_enabled s
            then for_each (\<lambda>row. for_each (\<lambda>col. put_vga_at (of_nat row) (of_nat col) 32)
                   [0..<unat VGA_WIDTH]) [0..<unat VGA_HEIGHT] s
            else Some s) = Some s1" "paints s s1"
    by (cases "g_console_vga_enabled s") auto
  obtain s2 where s2: "(if g_console_framebuffer_enabled s1 then clear_rows 0 s1 else Some s1) = Some s2"
      "paints s1 s2"
    using clear_rows_ok [of s1 0] geo paints_same [OF s1(2)] paints_fits [OF s1(2)]
    by (cases "g_console_framebuffer_enabled s1") auto
  let ?u = "s2\<lparr>g_row := 0, g_col := 0\<rparr>"
  have p: "paints s s2" using paints_trans [OF s1(2) s2(2)] .
  have m: "moves s ?u" using moves_trans [OF moves_paints [OF p] moves_cursor(1)] .
  have ok: "console_ok ?u"
    using assms moves_same [OF m] by (simp add: screen_geometry_ok_def console_ok_def word_less_nat_alt)
  note io = io_terminal [OF io_cursor [of ?u]]
  show ?thesis
    using s1(1) s2(1) ok io(2) moves_trans [OF m io(6)] by (simp add: console_clear_def)
qed

lemma console_ok_geometry: "console_ok s \<Longrightarrow> screen_geometry_ok s"
  by (auto simp: console_ok_def screen_geometry_ok_def word_less_nat_alt)


subsection \<open>From boot on\<close>

text \<open>What the loader promises of the screens it describes: not both at once, a framebuffer as large as it
  says, and less than 65536 characters to a line and lines to a screen.\<close>

definition screen_promise :: "(u64 \<Rightarrow> u32 list) \<Rightarrow> BootInfo option \<Rightarrow> bool" where
  "screen_promise fb boot_info = (case boot_info of None \<Rightarrow> True | Some b \<Rightarrow>
     (console_flags b AND BOOTINFO_CONSOLE_VGA_TEXT = 0 \<or> console_flags b AND BOOTINFO_CONSOLE_FRAMEBUFFER = 0) \<and>
     unat (framebuffer_width b) div 12 \<le> 65535 \<and> unat (framebuffer_height b) div 20 \<le> 65535 \<and>
     unat (framebuffer_height b) * unat (framebuffer_pixels_per_scanline b) \<le> length (fb (framebuffer_base b)))"

lemma geometry_io: "io_only s s' \<Longrightarrow> screen_geometry_ok s' = screen_geometry_ok s"
proof -
  assume "io_only s s'"
  then obtain c l e where *: "s' = s\<lparr>io_clock := c, out_log := l, g_serial_enabled := e\<rparr>"
    unfolding io_only_def by blast
  show ?thesis unfolding * by (simp add: screen_geometry_ok_def fits_def)
qed

lemma console_init_ok:
  assumes "screen_promise fb boot_info" and "2000 \<le> length (g_vga s)"
  shows "\<exists>s'. console_init fb boot_info s = Some s' \<and> console_ok s' \<and> in_port s' = in_port s \<and>
    console_state.more s' = console_state.more s"
proof -
  let ?same = "\<lambda>s'. in_port s' = in_port s \<and> console_state.more s' = console_state.more s"
  let ?off = "s\<lparr>g_console_framebuffer_enabled := False, g_framebuffer := [], g_framebuffer_width := 0,
    g_framebuffer_height := 0, g_framebuffer_pitch := 0, g_console_columns := VGA_WIDTH,
    g_console_rows := VGA_HEIGHT\<rparr>"
  have off: "screen_geometry_ok (?off\<lparr>g_console_vga_enabled := v\<rparr>)" for v
    using assms(2) by (simp add: screen_geometry_ok_def fits_def VGA_WIDTH_def VGA_HEIGHT_def)
  have "\<exists>s1. console_init fb boot_info s = console_clear (serial_init s1) \<and> screen_geometry_ok s1 \<and> ?same s1"
  proof (cases boot_info)
    case None
    then show ?thesis using off [of False] by (auto simp: console_init_def)
  next
    case (Some b)
    let ?vga = "console_flags b AND BOOTINFO_CONSOLE_VGA_TEXT \<noteq> 0"
    let ?c = "console_flags b AND BOOTINFO_CONSOLE_FRAMEBUFFER \<noteq> 0 \<and> framebuffer_base b \<noteq> 0 \<and>
                  framebuffer_width b \<ge> FB_CHAR_WIDTH \<and> framebuffer_height b \<ge> FB_CHAR_HEIGHT \<and>
                  framebuffer_pixels_per_scanline b \<ge> framebuffer_width b"
    show ?thesis
    proof (cases ?c)
      case False
      then show ?thesis using off [of ?vga] Some by (auto simp: console_init_def)
    next
      case True
      let ?on = "s\<lparr>g_console_framebuffer_enabled := True, g_framebuffer := fb (framebuffer_base b),
        g_framebuffer_width := framebuffer_width b, g_framebuffer_height := framebuffer_height b,
        g_framebuffer_pitch := framebuffer_pixels_per_scanline b,
        g_framebuffer_fg := framebuffer_color boot_info 0xE6 0xE6 0xE6,
        g_framebuffer_bg := framebuffer_color boot_info 0x11 0x11 0x11,
        g_console_columns := framebuffer_width b div FB_CHAR_WIDTH,
        g_console_rows := framebuffer_height b div FB_CHAR_HEIGHT, g_console_vga_enabled := ?vga\<rparr>"
      have d: "unat (framebuffer_width b div FB_CHAR_WIDTH) = unat (framebuffer_width b) div 12"
        "unat (framebuffer_height b div FB_CHAR_HEIGHT) = unat (framebuffer_height b) div 20"
        by (simp_all add: FB_CHAR_WIDTH_def FB_CHAR_HEIGHT_def unat_div_distrib)
      have "12 \<le> unat (framebuffer_width b)" "20 \<le> unat (framebuffer_height b)"
        using True by (simp_all add: FB_CHAR_WIDTH_def FB_CHAR_HEIGHT_def word_le_nat_alt)
      then have "0 < unat (framebuffer_width b) div 12" "0 < unat (framebuffer_height b) div 20"
        by (simp_all add: div_greater_zero_iff)
      moreover have "\<not> ?vga" using True assms(1) Some by (auto simp: screen_promise_def)
      ultimately have "screen_geometry_ok ?on"
        using True assms(1) Some d \<open>20 \<le> unat (framebuffer_height b)\<close>
        by (simp add: screen_geometry_ok_def fits_def screen_promise_def word_less_nat_alt)
      then show ?thesis using True Some by (intro exI [of _ ?on]) (simp add: console_init_def)
    qed
  qed
  then obtain s1 where s1: "console_init fb boot_info s = console_clear (serial_init s1)" "screen_geometry_ok s1" "?same s1" by blast
  have "screen_geometry_ok (serial_init s1)" using geometry_io [OF serial_init_ok] s1(2) by blast
  from console_clear_ok [OF this] obtain s2 where s2: "console_clear (serial_init s1) = Some s2" "console_ok s2"
    "moves (serial_init s1) s2" by blast
  have "?same (serial_init s1)" using s1(3) by (simp add: serial_init_def io_out8_def Let_def)
  then have "?same s2" using moves_same(7) [OF s2(3)] moves_more [OF s2(3)] by simp
  then show ?thesis using s1(1) s2 by auto
qed

datatype console_op = ConsoleWrite bytes | ConsoleWriteLine bytes | ConsoleBackspace | ConsoleClear

fun console_step :: "console_op \<Rightarrow> 'a console_state_scheme \<Rightarrow> 'a console_state_scheme option" where
  "console_step (ConsoleWrite str) s = console_write str s"
| "console_step (ConsoleWriteLine str) s = console_write_line str s"
| "console_step ConsoleBackspace s = console_backspace s"
| "console_step ConsoleClear s = console_clear s"

lemma console_write_line_ok:
  "console_ok s \<Longrightarrow> does s (console_write_line str s) (terminal_char 10 (fold terminal_char str (terminal s)))"
  unfolding console_write_line_def by (rule does_trans [OF console_write_ok]) (assumption, rule console_write_char_ok)

lemma console_step_ok: "console_ok s \<Longrightarrow> \<exists>s'. console_step p s = Some s' \<and> console_ok s'"
  using console_write_ok [of s] console_write_line_ok [of s] console_backspace_ok [of s]
    console_clear_ok [OF console_ok_geometry [of s]]
  by (cases p) (auto simp: does_def)

text \<open>C28: the console never leaves its screens. On the screens the loader promises, \<open>console_init\<close> returns
  (its loops over 16-bit counters end), and so does every sequence of writes, backspaces and
  clears after it: no store falls outside the VGA page or the framebuffer, and the cursor stays
  on the screen.\<close>

theorem console_stays_on_screen:
  assumes "screen_promise fb boot_info" and "2000 \<le> length (g_vga s)"
  shows "\<exists>s1 s2. console_init fb boot_info s = Some s1 \<and> for_each console_step ops s1 = Some s2 \<and>
    unat (g_row s2) < unat (g_console_rows s2) \<and> unat (g_col s2) < unat (g_console_columns s2) \<and> console_ok s2"
proof -
  obtain s1 where s1: "console_init fb boot_info s = Some s1" "console_ok s1"
    using console_init_ok [OF assms] by blast
  obtain s2 where "for_each console_step ops s1 = Some s2" "console_ok s2"
    using for_each_inv [of console_ok s1 ops console_step] s1(2) console_step_ok by blast
  then show ?thesis using s1(1) by (auto simp: console_ok_def)
qed

definition demo_console :: console_state where
  "demo_console = \<lparr>in_port = (\<lambda>_ _. 0x20), io_clock = 0, out_log = [], g_serial_enabled = False,
     g_vga = replicate 2000 0, g_row = 0, g_col = 0, g_console_vga_enabled = True,
     g_console_framebuffer_enabled = False, g_framebuffer = [], g_framebuffer_width = 0,
     g_framebuffer_height = 0, g_framebuffer_pitch = 0, g_console_columns = 80, g_console_rows = 25,
     g_framebuffer_fg = 0, g_framebuffer_bg = 0\<rparr>"

definition demo_boot_info :: BootInfo where
  "demo_boot_info = \<lparr>magic = BOOTINFO_MAGIC, bytes_per_sector = 512, partition_lba_start = 0,
     partition_sector_count = 0, acpi_rsdp = 0, acpi_revision = 0, boot_device_path_size = 0,
     boot_device_path = [], console_flags = 5, screen_columns = 80, screen_rows = 25,
     framebuffer_base = 0x80000000, framebuffer_width = 30, framebuffer_height = 50,
     framebuffer_pixels_per_scanline = 32, framebuffer_format = 1,
     memory_map = \<lparr>map_base = 0, map_size = 0, descriptor_size = 0, descriptor_version = 0\<rparr>\<rparr>"

theorem console_stays_on_screen_witness:
  "\<exists>s1 s2. console_init (\<lambda>_. replicate 1600 0) (Some demo_boot_info) demo_console = Some s1 \<and>
     for_each console_step [ConsoleWrite [72, 105, 10], ConsoleBackspace, ConsoleClear] s1 = Some s2 \<and>
     unat (g_row s2) < unat (g_console_rows s2) \<and> unat (g_col s2) < unat (g_console_columns s2) \<and> console_ok s2"
  by (rule console_stays_on_screen)
    (simp_all add: screen_promise_def demo_boot_info_def demo_console_def BOOTINFO_CONSOLE_VGA_TEXT_def
      BOOTINFO_CONSOLE_FRAMEBUFFER_def)

text \<open>C29: on the VGA page \<open>console_write\<close> is the terminal one expects: it puts characters at the cursor,
  wraps long lines, returns on CR, breaks on LF and scrolls the page up by one line, blanking the last,
  when the cursor would leave it. The code's cell-by-cell copies do exactly this.\<close>

theorem console_write_is_terminal:
  assumes "console_ok s" and "vga_only s"
  shows "\<exists>s'. console_write str s = Some s' \<and> console_ok s' \<and>
    terminal s' = fold terminal_char str (terminal s)"
  using console_write_ok [OF assms(1), of str] assms(2) by (auto simp: does_def)

theorem console_write_is_terminal_witness:
  "\<exists>s'. console_write [72, 105, 10, 33] demo_console = Some s' \<and> console_ok s' \<and>
    terminal s' = fold terminal_char [72, 105, 10, 33] (terminal demo_console)"
  by (rule console_write_is_terminal) (simp_all add: console_ok_def vga_only_def fits_def demo_console_def)

end
