(* ===== verification/Keyboard.thy ===== *)
theory Keyboard
  imports ConsoleTerm
begin

text \<open>
  \<open>src/kernel/keyboard.c\<close>: line input from the serial port or the PS/2 keyboard, with echo on the
  console. The caller's buffer is a list, a store outside it is \<open>None\<close>.
\<close>

definition KEYBOARD_STATUS_PORT :: u16 where "KEYBOARD_STATUS_PORT = 0x64"
definition KEYBOARD_DATA_PORT :: u16 where "KEYBOARD_DATA_PORT = 0x60"

definition keyboard_has_scancode :: "'a console_state_scheme \<Rightarrow> bool \<times> 'a console_state_scheme" where
  "keyboard_has_scancode s = (case io_in8 KEYBOARD_STATUS_PORT s of (v, s1) \<Rightarrow> (v AND 0x01 \<noteq> 0, s1))"

definition scancodes :: "(u8 \<times> u8) list" where
  "scancodes =
  [(0x02, 49), (0x03, 50), (0x04, 51), (0x05, 52), (0x06, 53), (0x07, 54), (0x08, 55), (0x09, 56),
   (0x0A, 57), (0x0B, 48), (0x0C, 45), (0x0E, 8), (0x10, 113), (0x11, 119), (0x12, 101), (0x13, 114),
   (0x14, 116), (0x15, 121), (0x16, 117), (0x17, 105), (0x18, 111), (0x19, 112), (0x1C, 10),
   (0x1E, 97), (0x1F, 115), (0x20, 100), (0x21, 102), (0x22, 103), (0x23, 104), (0x24, 106),
   (0x25, 107), (0x26, 108), (0x2C, 122), (0x2D, 120), (0x2E, 99), (0x2F, 118), (0x30, 98),
   (0x31, 110), (0x32, 109), (0x34, 46), (0x35, 47), (0x39, 32)]"

definition translate_scancode :: "u8 \<Rightarrow> u8" where
  "translate_scancode scancode = (case map_of scancodes scancode of Some c \<Rightarrow> c | None \<Rightarrow> 0)"

text \<open>The character one turn of the loop reads; 0 where the code goes on to the next turn.\<close>

definition poll_char :: "'a console_state_scheme \<Rightarrow> u8 \<times> 'a console_state_scheme" where
  "poll_char s =
     (case serial_has_byte s of (has, s1) \<Rightarrow>
        if has then
          (case serial_read_byte s1 of (c, s2) \<Rightarrow>
             (if c = 13 then 10 else if c = 0x7F then 8 else c, s2))
        else case keyboard_has_scancode s1 of (key, s2) \<Rightarrow>
          if key then
            (case io_in8 KEYBOARD_DATA_PORT s2 of (scancode, s3) \<Rightarrow>
               if scancode = 0xE0 then (0, s3)
               else if scancode AND 0x80 \<noteq> 0 then (0, s3)
               else (translate_scancode scancode, s3))
          else (0, s2))"

partial_function (option) read_line_loop ::
  "u64 \<Rightarrow> u64 \<Rightarrow> bytes \<Rightarrow> 'a console_state_scheme \<Rightarrow> (u64 \<times> bytes \<times> 'a console_state_scheme) option" where
  "read_line_loop capacity len buffer s =
     (case poll_char s of (c, s1) \<Rightarrow>
        if c = 0 then read_line_loop capacity len buffer s1
        else if c = 8 then
          (if len \<noteq> 0 then
             do { buffer \<leftarrow> store buffer (unat (len - 1)) 0;
                  s2 \<leftarrow> console_backspace s1;
                  read_line_loop capacity (len - 1) buffer s2 }
           else read_line_loop capacity len buffer s1)
        else if c = 10 then
          do { buffer \<leftarrow> store buffer (unat len) 0;
               s2 \<leftarrow> console_write_char 10 s1;
               Some (len, buffer, s2) }
        else if len + 1 \<ge> capacity then read_line_loop capacity len buffer s1
        else
          do { buffer \<leftarrow> store buffer (unat len) c;
               buffer \<leftarrow> store buffer (unat (len + 1)) 0;
               s2 \<leftarrow> console_write_char c s1;
               read_line_loop capacity (len + 1) buffer s2 })"

definition keyboard_read_line ::
  "bytes \<Rightarrow> u64 \<Rightarrow> 'a console_state_scheme \<Rightarrow> (u64 \<times> bytes \<times> 'a console_state_scheme) option" where
  "keyboard_read_line buffer capacity s =
     (if capacity = 0 then Some (0, buffer, s) else read_line_loop capacity 0 buffer s)"

subsection \<open>Polling\<close>

lemma serial_has_byte_enabled:
  "serial_has_byte s = (True, s') \<Longrightarrow> g_serial_enabled s' \<and> g_serial_enabled s"
  by (auto simp: serial_has_byte_def io_in8_def split: if_splits)

lemma poll_char_io:
  assumes "poll_char s = (c, s')"
  shows "io_only s s' \<and> io_clock s < io_clock s'"
proof -
  obtain has s1 where h: "serial_has_byte s = (has, s1)" by fastforce
  note one = serial_has_byte_ok [OF h]
  show ?thesis
  proof (cases has)
    case True
    obtain v s2 where r: "serial_read_byte s1 = (v, s2)" by fastforce
    have "s' = s2" using assms h True r by (auto simp: poll_char_def)
    moreover have "io_only s s2" using io_only_trans [OF one serial_read_byte_ok [OF r]] .
    moreover have "io_clock s < io_clock s1"
      using h True by (auto simp: serial_has_byte_def io_in8_def split: if_splits)
    moreover have "io_clock s1 \<le> io_clock s2" using serial_read_byte_ok [OF r] by (simp add: io_only_def)
    ultimately show ?thesis by simp
  next
    case False
    define s2 where "s2 = s1\<lparr>io_clock := Suc (io_clock s1)\<rparr>"
    define s3 where "s3 = s2\<lparr>io_clock := Suc (io_clock s2)\<rparr>"
    have "s' = s2 \<or> s' = s3"
      using assms h False by (auto simp: poll_char_def keyboard_has_scancode_def io_in8_def s2_def s3_def split: if_splits)
    moreover have "io_only s1 s2" "io_only s2 s3" by (simp_all add: s2_def s3_def io_only_def)
    moreover have "io_clock s \<le> io_clock s1" using one by (simp add: io_only_def)
    ultimately show ?thesis
      using io_only_trans [OF one] io_only_trans [of s1 s2 s3] by (auto simp: s2_def s3_def)
  qed
qed

text \<open>From time \<open>T\<close> on, whichever device is polled answers with the Enter key.\<close>

definition enter_held :: "nat \<Rightarrow> 'a console_state_scheme \<Rightarrow> bool" where
  "enter_held T s \<longleftrightarrow> (\<forall>t \<ge> T.
     in_port s t SERIAL_LINE_STATUS_PORT AND 0x01 \<noteq> 0 \<and> in_port s t SERIAL_LINE_STATUS_PORT \<noteq> 0xFF \<and>
     in_port s t SERIAL_DATA_PORT = 13 \<and>
     in_port s t KEYBOARD_STATUS_PORT AND 0x01 \<noteq> 0 \<and> in_port s t KEYBOARD_DATA_PORT = 0x1C)"

lemma poll_char_enter:
  assumes "enter_held T s" and "T \<le> io_clock s"
  shows "fst (poll_char s) = 10"
proof -
  let ?c = "io_clock s"
  have port: "in_port s t SERIAL_LINE_STATUS_PORT AND 1 \<noteq> 0" "in_port s t SERIAL_LINE_STATUS_PORT \<noteq> 0xFF"
    "in_port s t SERIAL_DATA_PORT = 13" "in_port s t KEYBOARD_STATUS_PORT AND 1 \<noteq> 0"
    "in_port s t KEYBOARD_DATA_PORT = 0x1C" if "?c \<le> t" for t
    using assms that by (auto simp: enter_held_def)
  show ?thesis
  proof (cases "g_serial_enabled s")
    case True
    let ?s1 = "s\<lparr>io_clock := Suc ?c\<rparr>" and ?s2 = "s\<lparr>io_clock := Suc (Suc ?c)\<rparr>"
    have 1: "serial_has_byte s = (True, ?s1)"
      using True port [of ?c] by (simp add: serial_has_byte_def io_in8_def)
    have 2: "serial_has_byte ?s1 = (True, ?s2)"
      using True port [of "Suc ?c"] by (simp add: serial_has_byte_def io_in8_def)
    have "serial_rx_wait n ?s1 = (True, ?s2)" for n
      by (subst serial_rx_wait.simps) (simp add: 2)
    then have "serial_read_byte ?s1 = (13, ?s2\<lparr>io_clock := Suc (Suc (Suc ?c))\<rparr>)"
      using True port [of "Suc (Suc ?c)"] by (simp add: serial_read_byte_def io_in8_def)
    then show ?thesis by (simp add: poll_char_def 1)
  next
    case False
    have "serial_has_byte s = (False, s)" using False by (simp add: serial_has_byte_def)
    then show ?thesis
      using port [of ?c] port [of "Suc ?c"]
      by (simp add: poll_char_def keyboard_has_scancode_def io_in8_def translate_scancode_def scancodes_def)
  qed
qed

subsection \<open>The line\<close>

text \<open>What is in the buffer while a line of \<open>n\<close> characters is being typed.\<close>

definition line_ok :: "nat \<Rightarrow> nat \<Rightarrow> bytes \<Rightarrow> bool" where
  "line_ok cap n buffer \<longleftrightarrow> n < cap \<and> cap \<le> length buffer \<and>
     (\<forall>i < n. buffer ! i \<noteq> 0 \<and> buffer ! i \<noteq> 8 \<and> buffer ! i \<noteq> 10)"

lemma read_line_loop_ok:
  assumes "console_ok s" and "enter_held T s" and "line_ok (unat capacity) (unat len) buffer"
  shows "\<exists>n b s'. read_line_loop capacity len buffer s = Some (n, b, s') \<and> console_ok s' \<and>
    length b = length buffer \<and> line_ok (unat capacity) (unat n) b \<and> b ! unat n = 0 \<and>
    drop (unat capacity) b = drop (unat capacity) buffer \<and> moves s s'"
  using assms
proof (induction "T - io_clock s" arbitrary: len buffer s rule: less_induct)
  case less
  let ?cap = "unat capacity"
  obtain c s1 where p: "poll_char s = (c, s1)" by fastforce
  note io = conjunct1 [OF poll_char_io [OF p]] and clock = conjunct2 [OF poll_char_io [OF p]]
  note same = io_terminal [OF io]
  have ok1: "console_ok s1" using less.prems(1) same(2) by simp
  have len: "unat len < ?cap" "?cap \<le> length buffer" using less.prems(3) by (auto simp: line_ok_def)
  have again: "\<exists>n b s'. read_line_loop capacity l buf t = Some (n, b, s') \<and> console_ok s' \<and>
      length b = length buffer \<and> line_ok ?cap (unat n) b \<and> b ! unat n = 0 \<and>
      drop ?cap b = drop ?cap buffer \<and> moves s s'"
    if "moves s1 t" "console_ok t" "line_ok ?cap (unat l) buf" "length buf = length buffer"
      "drop ?cap buf = drop ?cap buffer" "c \<noteq> 10" for l buf and t :: "'a console_state_scheme"
  proof -
    have "io_clock s < T" using poll_char_enter [OF less.prems(2)] p \<open>c \<noteq> 10\<close> by (cases "io_clock s < T") auto
    moreover have m: "moves s t" using moves_trans [OF same(6) that(1)] .
    moreover have "io_clock s1 \<le> io_clock t" using moves_same(8) [OF that(1)] .
    ultimately have "T - io_clock t < T - io_clock s" using clock by simp
    moreover have "enter_held T t" using less.prems(2) moves_same(7) [OF m] by (simp add: enter_held_def)
    ultimately show ?thesis
      using less.hyps [of t l buf] that moves_trans [OF m] by metis
  qed
  have step: "read_line_loop capacity len buffer s = (case (c, s1) of (c, s1) \<Rightarrow>
        if c = 0 then read_line_loop capacity len buffer s1
        else if c = 8 then
          (if len \<noteq> 0 then
             do { buffer \<leftarrow> store buffer (unat (len - 1)) 0;
                  s2 \<leftarrow> console_backspace s1;
                  read_line_loop capacity (len - 1) buffer s2 }
           else read_line_loop capacity len buffer s1)
        else if c = 10 then
          do { buffer \<leftarrow> store buffer (unat len) 0;
               s2 \<leftarrow> console_write_char 10 s1;
               Some (len, buffer, s2) }
        else if len + 1 \<ge> capacity then read_line_loop capacity len buffer s1
        else
          do { buffer \<leftarrow> store buffer (unat len) c;
               buffer \<leftarrow> store buffer (unat (len + 1)) 0;
               s2 \<leftarrow> console_write_char c s1;
               read_line_loop capacity (len + 1) buffer s2 })"
    by (subst read_line_loop.simps) (simp only: p)
  have less_cap: "unat len + 1 < 2 ^ 64"
    using len(1) unat_u64_bound [of capacity] by simp
  then have plus: "unat (len + 1) = unat len + 1" by (simp add: unat_Suc_small)
  consider "c = 0 \<or> (c = 8 \<and> len = 0) \<or> (c \<noteq> 8 \<and> c \<noteq> 10 \<and> len + 1 \<ge> capacity)"
    | "c = 8" "len \<noteq> 0" | "c = 10" | "c \<noteq> 0" "c \<noteq> 8" "c \<noteq> 10" "\<not> len + 1 \<ge> capacity" by blast
  then show ?case
  proof cases
    case 1
    then have "read_line_loop capacity len buffer s = read_line_loop capacity len buffer s1" "c \<noteq> 10"
      unfolding step by auto
    then show ?thesis using again [OF moves_refl ok1 less.prems(3)] by simp
  next
    case 2
    have minus: "unat (len - 1) = unat len - 1" using 2 by (simp add: unat_minus_one)
    obtain t where t: "console_backspace s1 = Some t" "console_ok t" "moves s1 t"
      using console_backspace_ok [OF ok1] by (auto simp: does_def)
    have "read_line_loop capacity len buffer s =
        read_line_loop capacity (len - 1) (buffer[unat (len - 1) := 0]) t"
      using 2 t(1) len minus unfolding step by simp
    moreover have "line_ok ?cap (unat (len - 1)) (buffer[unat (len - 1) := 0])"
      using less.prems(3) minus by (auto simp: line_ok_def nth_list_update)
    ultimately show ?thesis using again [OF t(3,2), of "len - 1"] 2 len minus by simp
  next
    case 3
    obtain t where t: "console_write_char 10 s1 = Some t" "console_ok t" "moves s1 t"
      using console_write_char_ok [OF ok1] by (auto simp: does_def)
    have "read_line_loop capacity len buffer s = Some (len, buffer[unat len := 0], t)"
      using 3 t(1) len unfolding step by simp
    moreover have "line_ok ?cap (unat len) (buffer[unat len := 0])"
      using less.prems(3) by (auto simp: line_ok_def nth_list_update)
    ultimately show ?thesis using t(2) len moves_trans [OF same(6) t(3)] by simp
  next
    case 4
    then have lt: "unat len + 1 < ?cap" using plus by (simp add: word_le_nat_alt)
    obtain t where t: "console_write_char c s1 = Some t" "console_ok t" "moves s1 t"
      using console_write_char_ok [OF ok1] by (auto simp: does_def)
    let ?b = "buffer[unat len := c, unat len + 1 := 0]"
    have "read_line_loop capacity len buffer s = read_line_loop capacity (len + 1) ?b t"
      using 4 t(1) len lt plus unfolding step by simp
    moreover have "line_ok ?cap (unat (len + 1)) ?b"
      using less.prems(3) plus lt 4 by (auto simp: line_ok_def nth_list_update less_Suc_eq)
    ultimately show ?thesis using again [OF t(3,2), of "len + 1" ?b] 4 len lt by simp
  qed
qed

text \<open>C30: \<open>keyboard_read_line\<close> ends once the user holds Enter, whatever arrived before on whichever
  device. It then has stored a line shorter than the capacity, NUL-terminated inside the buffer and
  free of NUL, backspace and newline characters, has stored nothing behind the capacity, and has left
  the console good.\<close>

theorem keyboard_read_line_returns:
  assumes "console_ok s" and "enter_held T s" and "0 < capacity" and "unat capacity \<le> length buffer"
  shows "\<exists>n b s'. keyboard_read_line buffer capacity s = Some (n, b, s') \<and> console_ok s' \<and> n < capacity \<and>
    length b = length buffer \<and> b ! unat n = 0 \<and>
    (\<forall>i < unat n. b ! i \<noteq> 0 \<and> b ! i \<noteq> 8 \<and> b ! i \<noteq> 10) \<and>
    drop (unat capacity) b = drop (unat capacity) buffer"
proof -
  have "line_ok (unat capacity) (unat (0 :: u64)) buffer"
    using assms(3,4) by (simp add: line_ok_def word_less_nat_alt)
  from read_line_loop_ok [OF assms(1,2) this] obtain n b s' where
    "read_line_loop capacity 0 buffer s = Some (n, b, s')" "console_ok s'" "length b = length buffer"
    "line_ok (unat capacity) (unat n) b" "b ! unat n = 0" "drop (unat capacity) b = drop (unat capacity) buffer"
    by blast
  then show ?thesis
    using assms(3) by (auto simp: keyboard_read_line_def line_ok_def word_less_nat_alt)
qed

text \<open>A user who types \<open>a\<close> on the serial line for a while and then holds Enter on it.\<close>

definition typing_console :: console_state where
  "typing_console = demo_console\<lparr>g_serial_enabled := True,
     in_port := (\<lambda>t p. if p = SERIAL_LINE_STATUS_PORT then 0x21 else if p = SERIAL_DATA_PORT
       then (if t < 100 then 97 else 13) else if p = KEYBOARD_STATUS_PORT then 1 else 0x1C)\<rparr>"

theorem keyboard_read_line_returns_witness:
  "\<exists>n b s'. keyboard_read_line (replicate 16 1) 8 typing_console = Some (n, b, s') \<and> console_ok s' \<and> n < 8 \<and>
    length b = length (replicate 16 1 :: bytes) \<and> b ! unat n = 0 \<and>
    (\<forall>i < unat n. b ! i \<noteq> 0 \<and> b ! i \<noteq> 8 \<and> b ! i \<noteq> 10) \<and>
    drop (unat (8 :: u64)) b = drop (unat (8 :: u64)) (replicate 16 1)"
  by (rule keyboard_read_line_returns [where T = 100])
    (simp_all add: typing_console_def demo_console_def console_ok_def fits_def enter_held_def
      SERIAL_LINE_STATUS_PORT_def SERIAL_DATA_PORT_def KEYBOARD_STATUS_PORT_def KEYBOARD_DATA_PORT_def)

end
