(* ===== verification/Pci.thy ===== *)
theory Pci
  imports Prelude
begin

text \<open>
  \<open>src/kernel/pci.c\<close>: PCI configuration space through the ports 0xCF8 and 0xCFC, and the walk over all
  buses, devices and functions.

  The devices behind the ports are not in the repository. Their state \<open>'d\<close> and the six port
  instructions of \<open>src/kernel/io.h\<close> are a parameter, the record \<open>ports\<close>; what the code relies on of the
  host bridge is \<open>config_space\<close>.
\<close>

subsection \<open>Ports\<close>

record 'd ports =
  port_in8 :: "u16 \<Rightarrow> 'd \<Rightarrow> u8 \<times> 'd"
  port_in16 :: "u16 \<Rightarrow> 'd \<Rightarrow> u16 \<times> 'd"
  port_in32 :: "u16 \<Rightarrow> 'd \<Rightarrow> u32 \<times> 'd"
  port_out8 :: "u16 \<Rightarrow> u8 \<Rightarrow> 'd \<Rightarrow> 'd"
  port_out16 :: "u16 \<Rightarrow> u16 \<Rightarrow> 'd \<Rightarrow> 'd"
  port_out32 :: "u16 \<Rightarrow> u32 \<Rightarrow> 'd \<Rightarrow> 'd"

subsection \<open>Definitions\<close>

definition PCI_CONFIG_ADDRESS_PORT :: u16 where "PCI_CONFIG_ADDRESS_PORT = 0xCF8"
definition PCI_CONFIG_DATA_PORT :: u16 where "PCI_CONFIG_DATA_PORT = 0xCFC"
definition PCI_INVALID_VENDOR_ID :: u16 where "PCI_INVALID_VENDOR_ID = 0xFFFF"
definition PCI_MAX_DEVICE_COUNT :: u8 where "PCI_MAX_DEVICE_COUNT = 32"
definition PCI_MAX_FUNCTION_COUNT :: u8 where "PCI_MAX_FUNCTION_COUNT = 8"
definition PCI_MAX_BAR_COUNT :: u8 where "PCI_MAX_BAR_COUNT = 6"

record PciAddress =
  pa_bus :: u8
  pa_device :: u8
  pa_function :: u8

record PciDeviceInfo =
  pci_address :: PciAddress
  vendor_id :: u16
  device_id :: u16
  revision_id :: u8
  pci_prog_if :: u8
  pci_subclass :: u8
  pci_class_code :: u8
  header_type :: u8

record 'd pci_state =
  g_pci_available :: bool
  pci_bus :: 'd

definition pci_config_address :: "PciAddress \<Rightarrow> u8 \<Rightarrow> u32" where
  "pci_config_address a offset =
     0x80000000 OR push_bit 16 (ucast (pa_bus a)) OR push_bit 11 (ucast (pa_device a)) OR
     push_bit 8 (ucast (pa_function a)) OR (ucast offset AND 0xFC)"

definition pci_init :: "'d pci_state \<Rightarrow> bool \<times> 'd pci_state" where
  "pci_init s = (True, s\<lparr>g_pci_available := True\<rparr>)"

definition pci_available :: "'d pci_state \<Rightarrow> bool" where
  "pci_available s = g_pci_available s"

text \<open>The address is selected; every access starts so.\<close>

definition select_config :: "'d ports \<Rightarrow> PciAddress \<Rightarrow> u8 \<Rightarrow> 'd \<Rightarrow> 'd" where
  "select_config io a offset = port_out32 io PCI_CONFIG_ADDRESS_PORT (pci_config_address a offset)"

definition pci_read_config8 :: "'d ports \<Rightarrow> PciAddress option \<Rightarrow> u8 \<Rightarrow> 'd pci_state \<Rightarrow> u8 \<times> 'd pci_state" where
  "pci_read_config8 io address offset s =
     (case address of
        None \<Rightarrow> (0xFF, s)
      | Some a \<Rightarrow>
          if \<not> g_pci_available s then (0xFF, s)
          else case port_in8 io (PCI_CONFIG_DATA_PORT + (ucast offset AND 0x3)) (select_config io a offset (pci_bus s)) of
            (v, d) \<Rightarrow> (v, s\<lparr>pci_bus := d\<rparr>))"

definition pci_read_config16 :: "'d ports \<Rightarrow> PciAddress option \<Rightarrow> u8 \<Rightarrow> 'd pci_state \<Rightarrow> u16 \<times> 'd pci_state" where
  "pci_read_config16 io address offset s =
     (case address of
        None \<Rightarrow> (0xFFFF, s)
      | Some a \<Rightarrow>
          if \<not> g_pci_available s then (0xFFFF, s)
          else case port_in16 io (PCI_CONFIG_DATA_PORT + (ucast offset AND 0x2)) (select_config io a offset (pci_bus s)) of
            (v, d) \<Rightarrow> (v, s\<lparr>pci_bus := d\<rparr>))"

definition pci_read_config32 :: "'d ports \<Rightarrow> PciAddress option \<Rightarrow> u8 \<Rightarrow> 'd pci_state \<Rightarrow> u32 \<times> 'd pci_state" where
  "pci_read_config32 io address offset s =
     (case address of
        None \<Rightarrow> (0xFFFFFFFF, s)
      | Some a \<Rightarrow>
          if \<not> g_pci_available s then (0xFFFFFFFF, s)
          else case port_in32 io PCI_CONFIG_DATA_PORT (select_config io a offset (pci_bus s)) of
            (v, d) \<Rightarrow> (v, s\<lparr>pci_bus := d\<rparr>))"

definition pci_write_config8 :: "'d ports \<Rightarrow> PciAddress option \<Rightarrow> u8 \<Rightarrow> u8 \<Rightarrow> 'd pci_state \<Rightarrow> 'd pci_state" where
  "pci_write_config8 io address offset v s =
     (case address of
        None \<Rightarrow> s
      | Some a \<Rightarrow>
          if \<not> g_pci_available s then s
          else s\<lparr>pci_bus := port_out8 io (PCI_CONFIG_DATA_PORT + (ucast offset AND 0x3)) v
                   (select_config io a offset (pci_bus s))\<rparr>)"

definition pci_write_config16 :: "'d ports \<Rightarrow> PciAddress option \<Rightarrow> u8 \<Rightarrow> u16 \<Rightarrow> 'd pci_state \<Rightarrow> 'd pci_state" where
  "pci_write_config16 io address offset v s =
     (case address of
        None \<Rightarrow> s
      | Some a \<Rightarrow>
          if \<not> g_pci_available s then s
          else s\<lparr>pci_bus := port_out16 io (PCI_CONFIG_DATA_PORT + (ucast offset AND 0x2)) v
                   (select_config io a offset (pci_bus s))\<rparr>)"

definition pci_write_config32 :: "'d ports \<Rightarrow> PciAddress option \<Rightarrow> u8 \<Rightarrow> u32 \<Rightarrow> 'd pci_state \<Rightarrow> 'd pci_state" where
  "pci_write_config32 io address offset v s =
     (case address of
        None \<Rightarrow> s
      | Some a \<Rightarrow>
          if \<not> g_pci_available s then s
          else s\<lparr>pci_bus := port_out32 io PCI_CONFIG_DATA_PORT v (select_config io a offset (pci_bus s))\<rparr>)"

text \<open>\<open>out\<close> says that the caller's pointer is not NULL; the result is None for false.\<close>

definition pci_read_device_info ::
  "'d ports \<Rightarrow> PciAddress option \<Rightarrow> bool \<Rightarrow> 'd pci_state \<Rightarrow> PciDeviceInfo option \<times> 'd pci_state" where
  "pci_read_device_info io address out s =
     (case address of
        None \<Rightarrow> (None, s)
      | Some a \<Rightarrow>
          if \<not> g_pci_available s \<or> \<not> out then (None, s)
          else if pa_device a \<ge> PCI_MAX_DEVICE_COUNT \<or> pa_function a \<ge> PCI_MAX_FUNCTION_COUNT then (None, s)
          else case pci_read_config16 io address 0x00 s of (vendor, s) \<Rightarrow>
            if vendor = PCI_INVALID_VENDOR_ID then (None, s)
            else case pci_read_config16 io address 0x02 s of (device, s) \<Rightarrow>
              case pci_read_config8 io address 0x08 s of (revision, s) \<Rightarrow>
              case pci_read_config8 io address 0x09 s of (prog, s) \<Rightarrow>
              case pci_read_config8 io address 0x0A s of (sub, s) \<Rightarrow>
              case pci_read_config8 io address 0x0B s of (cls, s) \<Rightarrow>
              case pci_read_config8 io address 0x0E s of (hdr, s) \<Rightarrow>
                (Some \<lparr>pci_address = a, vendor_id = vendor, device_id = device, revision_id = revision,
                   pci_prog_if = prog, pci_subclass = sub, pci_class_code = cls, header_type = hdr\<rparr>, s))"

definition pci_read_bar :: "'d ports \<Rightarrow> PciAddress option \<Rightarrow> u8 \<Rightarrow> 'd pci_state \<Rightarrow> u32 \<times> 'd pci_state" where
  "pci_read_bar io address bar_index s =
     (if \<not> g_pci_available s \<or> address = None \<or> bar_index \<ge> PCI_MAX_BAR_COUNT then (0, s)
      else pci_read_config32 io address (0x10 + bar_index * 4) s)"

definition pci_read_bar64 :: "'d ports \<Rightarrow> PciAddress option \<Rightarrow> u8 \<Rightarrow> 'd pci_state \<Rightarrow> u64 \<times> 'd pci_state" where
  "pci_read_bar64 io address bar_index s =
     (if \<not> g_pci_available s \<or> address = None \<or> bar_index \<ge> PCI_MAX_BAR_COUNT then (0, s)
      else case pci_read_bar io address bar_index s of (low, s) \<Rightarrow>
        if low AND 0x1 \<noteq> 0 then (ucast low, s)
        else let is_64_bit = (low AND 0x6 = 0x4) in
          if is_64_bit \<and> uint bar_index + 1 \<ge> uint PCI_MAX_BAR_COUNT then (0, s)
          else case (if is_64_bit then pci_read_bar io address (bar_index + 1) s else (0, s)) of (high, s) \<Rightarrow>
            (push_bit 32 (ucast high) OR ucast low, s))"

text \<open>The visitor is a function of the device and of its context, which it returns changed, with false to
  stop. The functions 1 to \<open>function_limit - 1\<close> of a device, and all devices of a list of places; the
  first result says whether the walk goes on.\<close>

type_synonym 'c visitor = "PciDeviceInfo \<Rightarrow> 'c \<Rightarrow> bool \<times> 'c"

fun visit_functions ::
  "'d ports \<Rightarrow> 'c visitor \<Rightarrow> u8 \<Rightarrow> u8 \<Rightarrow> nat list \<Rightarrow> 'c \<Rightarrow> 'd pci_state \<Rightarrow> bool \<times> 'c \<times> 'd pci_state" where
  "visit_functions io visit bus device [] context s = (True, context, s)"
| "visit_functions io visit bus device (f # fs) context s =
     (case pci_read_device_info io (Some \<lparr>pa_bus = bus, pa_device = device, pa_function = of_nat f\<rparr>) True s of
        (None, s) \<Rightarrow> visit_functions io visit bus device fs context s
      | (Some info, s) \<Rightarrow>
          (case visit info context of (go, context) \<Rightarrow>
             if \<not> go then (False, context, s) else visit_functions io visit bus device fs context s))"

fun visit_devices ::
  "'d ports \<Rightarrow> 'c visitor \<Rightarrow> (nat \<times> nat) list \<Rightarrow> 'c \<Rightarrow> 'd pci_state \<Rightarrow> 'c \<times> 'd pci_state" where
  "visit_devices io visit [] context s = (context, s)"
| "visit_devices io visit ((bus, device) # places) context s =
     (case pci_read_device_info io (Some \<lparr>pa_bus = of_nat bus, pa_device = of_nat device, pa_function = 0\<rparr>) True s of
        (None, s) \<Rightarrow> visit_devices io visit places context s
      | (Some info, s) \<Rightarrow>
          (case visit info context of (go, context) \<Rightarrow>
             if \<not> go then (context, s)
             else let function_limit = (if header_type info AND 0x80 \<noteq> 0 then unat PCI_MAX_FUNCTION_COUNT else 1) in
               case visit_functions io visit (of_nat bus) (of_nat device) [1..<function_limit] context s of
                 (go, context, s) \<Rightarrow> if \<not> go then (context, s) else visit_devices io visit places context s))"

definition pci_enumerate :: "'d ports \<Rightarrow> 'c visitor option \<Rightarrow> 'c \<Rightarrow> 'd pci_state \<Rightarrow> 'c \<times> 'd pci_state" where
  "pci_enumerate io visit context s =
     (case visit of
        None \<Rightarrow> (context, s)
      | Some f \<Rightarrow>
          if \<not> g_pci_available s then (context, s)
          else visit_devices io f
            (concat (map (\<lambda>bus. map (Pair bus) [0..<unat PCI_MAX_DEVICE_COUNT]) [0..<256])) context s)"

subsection \<open>The host bridge\<close>

text \<open>Configuration mechanism one: an access after a dword address was written to 0xCF8 reads the bytes of
  configuration space from there on, and reading changes none of them. \<open>cfg d\<close> are those bytes by their
  address in the form of that dword.\<close>

definition config_space :: "'d ports \<Rightarrow> ('d \<Rightarrow> u32 \<Rightarrow> u8) \<Rightarrow> bool" where
  "config_space io cfg \<longleftrightarrow> (\<forall>a d. let d1 = port_out32 io PCI_CONFIG_ADDRESS_PORT a d in
     cfg d1 = cfg d \<and>
     (\<forall>k \<le> 3. fst (port_in8 io (PCI_CONFIG_DATA_PORT + k) d1) = cfg d (a + ucast k) \<and>
              cfg (snd (port_in8 io (PCI_CONFIG_DATA_PORT + k) d1)) = cfg d) \<and>
     (\<forall>k \<in> {0, 2}. fst (port_in16 io (PCI_CONFIG_DATA_PORT + k) d1) =
                   of_le16 (cfg d (a + ucast k)) (cfg d (a + ucast k + 1)) \<and>
              cfg (snd (port_in16 io (PCI_CONFIG_DATA_PORT + k) d1)) = cfg d))"

definition config_byte :: "(u32 \<Rightarrow> u8) \<Rightarrow> PciAddress \<Rightarrow> u8 \<Rightarrow> u8" where
  "config_byte c a offset = c (pci_config_address a offset + ucast (offset AND 3))"

definition config_word :: "(u32 \<Rightarrow> u8) \<Rightarrow> PciAddress \<Rightarrow> u8 \<Rightarrow> u16" where
  "config_word c a offset = (let at = pci_config_address a offset + ucast (offset AND 2) in of_le16 (c at) (c (at + 1)))"

text \<open>The device functions that answer, and the order of the walk.\<close>

definition info_at :: "(u32 \<Rightarrow> u8) \<Rightarrow> PciAddress \<Rightarrow> PciDeviceInfo option" where
  "info_at c a =
     (if config_word c a 0 = PCI_INVALID_VENDOR_ID then None
      else Some \<lparr>pci_address = a, vendor_id = config_word c a 0, device_id = config_word c a 2,
        revision_id = config_byte c a 8, pci_prog_if = config_byte c a 9, pci_subclass = config_byte c a 10,
        pci_class_code = config_byte c a 11, header_type = config_byte c a 14\<rparr>)"

definition place :: "nat \<Rightarrow> nat \<Rightarrow> nat \<Rightarrow> PciAddress" where
  "place bus device f = \<lparr>pa_bus = of_nat bus, pa_device = of_nat device, pa_function = of_nat f\<rparr>"

definition device_functions :: "(u32 \<Rightarrow> u8) \<Rightarrow> nat \<Rightarrow> nat \<Rightarrow> PciDeviceInfo list" where
  "device_functions c bus device =
     (case info_at c (place bus device 0) of
        None \<Rightarrow> []
      | Some info \<Rightarrow> info # (if header_type info AND 0x80 = 0 then []
          else List.map_filter (\<lambda>f. info_at c (place bus device f)) [1..<8]))"

definition pci_devices :: "(u32 \<Rightarrow> u8) \<Rightarrow> PciDeviceInfo list" where
  "pci_devices c = concat (map (\<lambda>bus. concat (map (device_functions c bus) [0..<32])) [0..<256])"

fun visit_all :: "'c visitor \<Rightarrow> PciDeviceInfo list \<Rightarrow> 'c \<Rightarrow> bool \<times> 'c" where
  "visit_all visit [] context = (True, context)"
| "visit_all visit (i # rest) context =
     (case visit i context of (go, context) \<Rightarrow> if go then visit_all visit rest context else (False, context))"

lemma visit_all_append:
  "visit_all visit (xs @ ys) ctx =
     (case visit_all visit xs ctx of (go, ctx) \<Rightarrow> if go then visit_all visit ys ctx else (False, ctx))"
  by (induction xs arbitrary: ctx) (auto split: prod.splits)

subsection \<open>Reading\<close>

definition same_config :: "('d \<Rightarrow> u32 \<Rightarrow> u8) \<Rightarrow> 'd pci_state \<Rightarrow> 'd pci_state \<Rightarrow> bool" where
  "same_config cfg s t \<longleftrightarrow> g_pci_available t = g_pci_available s \<and> cfg (pci_bus t) = cfg (pci_bus s)"

lemma same_config_trans: "same_config cfg s t \<Longrightarrow> same_config cfg t u \<Longrightarrow> same_config cfg s u"
  by (simp add: same_config_def)

lemma offset_bits:
  "ucast offset AND 3 \<le> (3 :: u16)" "ucast offset AND 2 \<in> {0, 2 :: u16}"
  "ucast (ucast offset AND 3 :: u16) = (ucast (offset AND 3 :: u8) :: u32)"
  "ucast (ucast offset AND 2 :: u16) = (ucast (offset AND 2 :: u8) :: u32)"
proof -
  show "ucast offset AND 3 \<le> (3 :: u16)" by (rule word_and_le1)
  have "(w :: u16) AND 2 = (if bit w 1 then 2 else 0)" for w
    by (rule bit_word_eqI) (auto simp: bit_simps bit_2_iff)
  then show "ucast offset AND 2 \<in> {0, 2 :: u16}" by (metis insertCI)
  have l: "(3 :: u16) = mask 2" "(3 :: u8) = mask 2" by (simp_all add: mask_eq_exp_minus_1)
  show "ucast (ucast offset AND 3 :: u16) = (ucast (offset AND 3 :: u8) :: u32)"
    unfolding l by (rule bit_word_eqI) (auto simp: bit_simps)
  show "ucast (ucast offset AND 2 :: u16) = (ucast (offset AND 2 :: u8) :: u32)"
    by (rule bit_word_eqI) (auto simp: bit_simps bit_2_iff)
qed

lemma read_config8:
  assumes "config_space io cfg" and "g_pci_available s"
  shows "\<exists>t. pci_read_config8 io (Some a) offset s = (config_byte (cfg (pci_bus s)) a offset, t) \<and> same_config cfg s t"
proof -
  let ?d = "select_config io a offset (pci_bus s)"
  have "fst (port_in8 io (PCI_CONFIG_DATA_PORT + (ucast offset AND 3)) ?d) =
      cfg (pci_bus s) (pci_config_address a offset + ucast (ucast offset AND 3 :: u16))"
    "cfg (snd (port_in8 io (PCI_CONFIG_DATA_PORT + (ucast offset AND 3)) ?d)) = cfg (pci_bus s)"
    using assms(1) offset_bits(1) [of offset] unfolding config_space_def select_config_def Let_def by blast+
  then show ?thesis
    using assms(2) by (auto simp: pci_read_config8_def config_byte_def same_config_def offset_bits(3) split: prod.splits)
qed

lemma read_config16:
  assumes "config_space io cfg" and "g_pci_available s"
  shows "\<exists>t. pci_read_config16 io (Some a) offset s = (config_word (cfg (pci_bus s)) a offset, t) \<and> same_config cfg s t"
proof -
  let ?d = "select_config io a offset (pci_bus s)"
  let ?at = "pci_config_address a offset + ucast (ucast offset AND 2 :: u16)"
  have "fst (port_in16 io (PCI_CONFIG_DATA_PORT + (ucast offset AND 2)) ?d) =
      of_le16 (cfg (pci_bus s) ?at) (cfg (pci_bus s) (?at + 1))"
    "cfg (snd (port_in16 io (PCI_CONFIG_DATA_PORT + (ucast offset AND 2)) ?d)) = cfg (pci_bus s)"
    using assms(1) offset_bits(2) [of offset] unfolding config_space_def select_config_def Let_def by blast+
  then show ?thesis
    using assms(2) by (auto simp: pci_read_config16_def config_word_def Let_def same_config_def offset_bits(4) split: prod.splits)
qed

lemma read_device_info:
  assumes c: "config_space io cfg" and av: "g_pci_available s" and a: "pa_device a < 32" "pa_function a < 8"
  shows "\<exists>t. pci_read_device_info io (Some a) True s = (info_at (cfg (pci_bus s)) a, t) \<and> same_config cfg s t"
proof -
  let ?c = "cfg (pci_bus s)"
  have ok: "\<not> pa_device a \<ge> PCI_MAX_DEVICE_COUNT" "\<not> pa_function a \<ge> PCI_MAX_FUNCTION_COUNT"
    using a by (simp_all add: PCI_MAX_DEVICE_COUNT_def PCI_MAX_FUNCTION_COUNT_def)
  have w: "\<exists>u. pci_read_config16 io (Some a) k t = (config_word ?c a k, u) \<and> same_config cfg s u"
    and b: "\<exists>u. pci_read_config8 io (Some a) k t = (config_byte ?c a k, u) \<and> same_config cfg s u"
    if "same_config cfg s t" for k t
    using that read_config16 [OF c, of t a k] read_config8 [OF c, of t a k] av by (auto simp: same_config_def)
  have s0: "same_config cfg s s" by (simp add: same_config_def)
  obtain t1 where 1: "pci_read_config16 io (Some a) 0 s = (config_word ?c a 0, t1)" "same_config cfg s t1" using w [OF s0] by blast
  show ?thesis
  proof (cases "config_word ?c a 0 = PCI_INVALID_VENDOR_ID")
    case True
    then show ?thesis using 1 ok av by (simp add: pci_read_device_info_def info_at_def)
  next
    case False
    obtain t2 where 2: "pci_read_config16 io (Some a) 2 t1 = (config_word ?c a 2, t2)" "same_config cfg s t2" using w [OF 1(2)] by blast
    obtain t3 where 3: "pci_read_config8 io (Some a) 8 t2 = (config_byte ?c a 8, t3)" "same_config cfg s t3" using b [OF 2(2)] by blast
    obtain t4 where 4: "pci_read_config8 io (Some a) 9 t3 = (config_byte ?c a 9, t4)" "same_config cfg s t4" using b [OF 3(2)] by blast
    obtain t5 where 5: "pci_read_config8 io (Some a) 10 t4 = (config_byte ?c a 10, t5)" "same_config cfg s t5" using b [OF 4(2)] by blast
    obtain t6 where 6: "pci_read_config8 io (Some a) 11 t5 = (config_byte ?c a 11, t6)" "same_config cfg s t6" using b [OF 5(2)] by blast
    obtain t7 where 7: "pci_read_config8 io (Some a) 14 t6 = (config_byte ?c a 14, t7)" "same_config cfg s t7" using b [OF 6(2)] by blast
    show ?thesis
      using False ok av 7(2) by (simp add: pci_read_device_info_def info_at_def 1(1) 2(1) 3(1) 4(1) 5(1) 6(1) 7(1))
  qed
qed

subsection \<open>The walk\<close>

lemma visit_functions_spec:
  assumes c: "config_space io cfg" and d: "device < 32"
  shows "g_pci_available s \<Longrightarrow> \<forall>f \<in> set fs. f < 8 \<Longrightarrow>
    \<exists>t. visit_functions io visit (of_nat bus) (of_nat device) fs ctx s =
      (case visit_all visit (List.map_filter (\<lambda>f. info_at (cfg (pci_bus s)) (place bus device f)) fs) ctx of (go, ctx') \<Rightarrow> (go, ctx', t)) \<and>
      same_config cfg s t"
proof (induction fs arbitrary: ctx s)
  case Nil
  then show ?case by (auto simp: same_config_def map_filter_simps)
next
  case (Cons f fs)
  have dev: "(of_nat device :: u8) < 32" "(of_nat f :: u8) < 8"
    using d Cons.prems(2) by (simp_all add: word_less_nat_alt unat_of_nat)
  obtain t where t: "pci_read_device_info io (Some (place bus device f)) True s =
      (info_at (cfg (pci_bus s)) (place bus device f), t)" "same_config cfg s t"
    using read_device_info [OF c Cons.prems(1), of "place bus device f"] dev by (auto simp: place_def)
  have av: "g_pci_available t" and cf: "cfg (pci_bus t) = cfg (pci_bus s)"
    using t(2) Cons.prems(1) by (simp_all add: same_config_def)
  have fs: "\<forall>f \<in> set fs. f < 8" using Cons.prems(2) by simp
  have rest: "\<exists>u. visit_functions io visit (of_nat bus) (of_nat device) fs ctx' t =
      (case visit_all visit (List.map_filter (\<lambda>f. info_at (cfg (pci_bus s)) (place bus device f)) fs) ctx' of (go, ctx') \<Rightarrow> (go, ctx', u)) \<and>
      same_config cfg s u" for ctx'
    using Cons.IH [OF av fs, of ctx'] same_config_trans [OF t(2)] by (auto simp: cf)
  show ?case
  proof (cases "info_at (cfg (pci_bus s)) (place bus device f)")
    case None
    then show ?thesis using rest [of ctx] t(1) by (simp add: place_def map_filter_simps)
  next
    case (Some info)
    obtain go ctx' where v: "visit info ctx = (go, ctx')" by fastforce
    show ?thesis using rest [of ctx'] t Some v by (cases go) (auto simp: place_def map_filter_simps)
  qed
qed

lemma visit_devices_spec:
  assumes c: "config_space io cfg"
  shows "g_pci_available s \<Longrightarrow> \<forall>(b, d) \<in> set places. d < 32 \<Longrightarrow>
    \<exists>t. visit_devices io visit places ctx s =
      (snd (visit_all visit (concat (map (\<lambda>(b, d). device_functions (cfg (pci_bus s)) b d) places)) ctx), t) \<and>
      same_config cfg s t"
proof (induction places arbitrary: ctx s)
  case Nil
  then show ?case by (simp add: same_config_def)
next
  case (Cons p places)
  obtain b d where p: "p = (b, d)" by fastforce
  have d: "d < 32" using Cons.prems(2) by (simp add: p)
  have dev: "(of_nat d :: u8) < 32" using d by (simp add: word_less_nat_alt unat_of_nat)
  let ?c = "cfg (pci_bus s)"
  obtain t where t: "pci_read_device_info io (Some (place b d 0)) True s = (info_at ?c (place b d 0), t)" "same_config cfg s t"
    using read_device_info [OF c Cons.prems(1), of "place b d 0"] dev by (auto simp: place_def)
  have rest: "\<exists>u. visit_devices io visit places ctx' t' =
      (snd (visit_all visit (concat (map (\<lambda>(b, d). device_functions ?c b d) places)) ctx'), u) \<and> same_config cfg s u"
    if "same_config cfg s t'" for ctx' t'
    using Cons.IH [of t' ctx'] Cons.prems same_config_trans [OF that] that by (auto simp: same_config_def)
  show ?case
  proof (cases "info_at ?c (place b d 0)")
    case None
    then show ?thesis using rest [OF t(2), of ctx] t(1) by (simp add: p place_def device_functions_def)
  next
    case (Some info)
    obtain go ctx1 where v: "visit info ctx = (go, ctx1)" by fastforce
    show ?thesis
    proof (cases go)
      case False
      then show ?thesis using t Some v by (auto simp: p place_def device_functions_def visit_all_append)
    next
      case True
      let ?fs = "[1..<(if header_type info AND 0x80 \<noteq> 0 then unat PCI_MAX_FUNCTION_COUNT else 1)]"
      let ?is = "List.map_filter (\<lambda>f. info_at ?c (place b d f)) ?fs"
      obtain go2 ctx2 where v2: "visit_all visit ?is ctx1 = (go2, ctx2)" by fastforce
      have "g_pci_available t" "cfg (pci_bus t) = ?c" using t(2) Cons.prems(1) by (simp_all add: same_config_def)
      moreover have "\<forall>f \<in> set ?fs. f < 8" by (auto simp: PCI_MAX_FUNCTION_COUNT_def)
      ultimately obtain u where u: "visit_functions io visit (of_nat b) (of_nat d) ?fs ctx1 t = (go2, ctx2, u)" "same_config cfg t u"
        using visit_functions_spec [OF c d, of t ?fs visit b ctx1] v2 by auto
      have df: "device_functions ?c b d = info # ?is"
        using Some by (simp add: device_functions_def PCI_MAX_FUNCTION_COUNT_def map_filter_simps)
      have su: "same_config cfg s u" by (rule same_config_trans [OF t(2) u(2)])
      have run: "visit_devices io visit (p # places) ctx s =
          (if \<not> go2 then (ctx2, u) else visit_devices io visit places ctx2 u)"
        using t(1) Some v True u(1) by (simp add: p place_def Let_def)
      show ?thesis unfolding run
        using rest [OF su, of ctx2] su v True v2 by (cases go2) (auto simp: p df visit_all_append)
    qed
  qed
qed

lemma concat_map_concat: "concat (map f (concat (map g xs))) = concat (map (\<lambda>x. concat (map f (g x))) xs)"
  by (induction xs) simp_all

lemma places_devices:
  "concat (map (\<lambda>(b, d). device_functions c b d) (concat (map (\<lambda>bus. map (Pair bus) [0..<unat PCI_MAX_DEVICE_COUNT]) [0..<256]))) =
   pci_devices c"
  unfolding concat_map_concat pci_devices_def PCI_MAX_DEVICE_COUNT_def by (simp add: comp_def del: upt_rec_numeral)


text \<open>A bus with one bridge, whose ports remember the address written.\<close>

definition demo_config :: "u32 \<Rightarrow> u8" where
  "demo_config a = (if a = 0x80000000 then 0x86 else if a = 0x80000001 then 0x80
     else if a \<in> {0x80000008..0x8000000F} then 6 else 0xFF)"

definition demo_ports :: "u32 ports" where
  "demo_ports = \<lparr>port_in8 = (\<lambda>p d. (demo_config (d + ucast (p - 0xCFC)), d)),
     port_in16 = (\<lambda>p d. (of_le16 (demo_config (d + ucast (p - 0xCFC))) (demo_config (d + ucast (p - 0xCFC) + 1)), d)),
     port_in32 = (\<lambda>p d. (0, d)), port_out8 = (\<lambda>p v d. d), port_out16 = (\<lambda>p v d. d),
     port_out32 = (\<lambda>p v d. if p = 0xCF8 then v else d)\<rparr>"


end
