(* ===== verification/Ata.thy ===== *)
theory Ata
  imports Pci Block
begin

text \<open>
  \<open>src/kernel/ata.c\<close>: sector transfers over the ATA task file in PIO mode.

  The drive is not in the repository: its state is a parameter reached through \<open>ports\<close>, and \<open>ata_drive\<close>
  is what the driver relies on. A transfer is total, every wait has a bound. The caller's buffer is a
  list of \<open>count * 512\<close> bytes.
\<close>

subsection \<open>Definitions\<close>

definition ATA_PRIMARY_IO_BASE :: u16 where "ATA_PRIMARY_IO_BASE = 0x1F0"
definition ATA_PRIMARY_CTRL_BASE :: u16 where "ATA_PRIMARY_CTRL_BASE = 0x3F6"
definition ATA_SECONDARY_IO_BASE :: u16 where "ATA_SECONDARY_IO_BASE = 0x170"
definition ATA_SECONDARY_CTRL_BASE :: u16 where "ATA_SECONDARY_CTRL_BASE = 0x376"
definition ATA_DATA_OFFSET :: u16 where "ATA_DATA_OFFSET = 0"
definition ATA_SECTOR_COUNT_OFFSET :: u16 where "ATA_SECTOR_COUNT_OFFSET = 2"
definition ATA_LBA_LOW_OFFSET :: u16 where "ATA_LBA_LOW_OFFSET = 3"
definition ATA_LBA_MID_OFFSET :: u16 where "ATA_LBA_MID_OFFSET = 4"
definition ATA_LBA_HIGH_OFFSET :: u16 where "ATA_LBA_HIGH_OFFSET = 5"
definition ATA_DRIVE_OFFSET :: u16 where "ATA_DRIVE_OFFSET = 6"
definition ATA_STATUS_OFFSET :: u16 where "ATA_STATUS_OFFSET = 7"
definition ATA_COMMAND_OFFSET :: u16 where "ATA_COMMAND_OFFSET = 7"
definition ATA_STATUS_ERR :: u8 where "ATA_STATUS_ERR = 0x01"
definition ATA_STATUS_DF :: u8 where "ATA_STATUS_DF = 0x20"
definition ATA_STATUS_DRQ :: u8 where "ATA_STATUS_DRQ = 0x08"
definition ATA_STATUS_BSY :: u8 where "ATA_STATUS_BSY = 0x80"
definition ATA_WAIT_SPINS :: nat where "ATA_WAIT_SPINS = 100000"

record AtaDeviceAddress =
  channel :: u8
  drive :: u8

record 'd ata_state =
  g_ata_io_base :: u16
  g_ata_ctrl_base :: u16
  g_ata_drive_head :: u8
  ata_device :: 'd

definition ata_init :: "AtaDeviceAddress option \<Rightarrow> 'd ata_state \<Rightarrow> bool \<times> 'd ata_state" where
  "ata_init device s =
     (case device of
        None \<Rightarrow> (False, s)
      | Some a \<Rightarrow>
          if channel a > 1 \<or> drive a > 1 then (False, s)
          else let k = uint (push_bit 1 (channel a) OR drive a) in
            if k = 0 then (True, s\<lparr>g_ata_io_base := ATA_PRIMARY_IO_BASE, g_ata_ctrl_base := ATA_PRIMARY_CTRL_BASE,
                                   g_ata_drive_head := 0xE0\<rparr>)
            else if k = 1 then (True, s\<lparr>g_ata_io_base := ATA_PRIMARY_IO_BASE, g_ata_ctrl_base := ATA_PRIMARY_CTRL_BASE,
                                   g_ata_drive_head := 0xF0\<rparr>)
            else if k = 2 then (True, s\<lparr>g_ata_io_base := ATA_SECONDARY_IO_BASE, g_ata_ctrl_base := ATA_SECONDARY_CTRL_BASE,
                                   g_ata_drive_head := 0xE0\<rparr>)
            else if k = 3 then (True, s\<lparr>g_ata_io_base := ATA_SECONDARY_IO_BASE, g_ata_ctrl_base := ATA_SECONDARY_CTRL_BASE,
                                   g_ata_drive_head := 0xF0\<rparr>)
            else (False, s))"

definition ata_in8 :: "'d ports \<Rightarrow> u16 \<Rightarrow> 'd ata_state \<Rightarrow> u8 \<times> 'd ata_state" where
  "ata_in8 io p s = (case port_in8 io p (ata_device s) of (v, d) \<Rightarrow> (v, s\<lparr>ata_device := d\<rparr>))"

definition ata_in16 :: "'d ports \<Rightarrow> u16 \<Rightarrow> 'd ata_state \<Rightarrow> u16 \<times> 'd ata_state" where
  "ata_in16 io p s = (case port_in16 io p (ata_device s) of (v, d) \<Rightarrow> (v, s\<lparr>ata_device := d\<rparr>))"

definition ata_out8 :: "'d ports \<Rightarrow> u16 \<Rightarrow> u8 \<Rightarrow> 'd ata_state \<Rightarrow> 'd ata_state" where
  "ata_out8 io offset v s = s\<lparr>ata_device := port_out8 io (g_ata_io_base s + offset) v (ata_device s)\<rparr>"

definition ata_io_wait :: "'d ports \<Rightarrow> 'd ata_state \<Rightarrow> 'd ata_state" where
  "ata_io_wait io s =
     (let s = snd (ata_in8 io (g_ata_ctrl_base s) s);
          s = snd (ata_in8 io (g_ata_ctrl_base s) s);
          s = snd (ata_in8 io (g_ata_ctrl_base s) s)
      in snd (ata_in8 io (g_ata_ctrl_base s) s))"

text \<open>The waits with \<open>n\<close> spins left.\<close>

fun wait_not_busy_loop :: "'d ports \<Rightarrow> nat \<Rightarrow> 'd ata_state \<Rightarrow> bool \<times> 'd ata_state" where
  "wait_not_busy_loop io 0 s = (False, s)"
| "wait_not_busy_loop io (Suc n) s =
     (case ata_in8 io (g_ata_io_base s + ATA_STATUS_OFFSET) s of (status, s) \<Rightarrow>
        if status AND ATA_STATUS_BSY = 0 then (True, s) else wait_not_busy_loop io n s)"

definition ata_wait_not_busy :: "'d ports \<Rightarrow> 'd ata_state \<Rightarrow> bool \<times> 'd ata_state" where
  "ata_wait_not_busy io s = wait_not_busy_loop io ATA_WAIT_SPINS s"

fun wait_drq_loop :: "'d ports \<Rightarrow> nat \<Rightarrow> 'd ata_state \<Rightarrow> bool \<times> 'd ata_state" where
  "wait_drq_loop io 0 s = (False, s)"
| "wait_drq_loop io (Suc n) s =
     (case ata_in8 io (g_ata_io_base s + ATA_STATUS_OFFSET) s of (status, s) \<Rightarrow>
        if status AND (ATA_STATUS_ERR OR ATA_STATUS_DF) \<noteq> 0 then (False, s)
        else if status AND ATA_STATUS_BSY = 0 \<and> status AND ATA_STATUS_DRQ \<noteq> 0 then (True, s)
        else wait_drq_loop io n s)"

definition ata_wait_drq :: "'d ports \<Rightarrow> 'd ata_state \<Rightarrow> bool \<times> 'd ata_state" where
  "ata_wait_drq io s = wait_drq_loop io ATA_WAIT_SPINS s"

text \<open>The task file of one sector's command, from the drive register to the command register.\<close>

definition ata_command :: "'d ports \<Rightarrow> u8 \<Rightarrow> u32 \<Rightarrow> 'd ata_state \<Rightarrow> 'd ata_state" where
  "ata_command io cmd current_lba s =
     (let s = ata_out8 io ATA_DRIVE_OFFSET (g_ata_drive_head s OR ucast (drop_bit 24 current_lba AND 0x0F)) s;
          s = ata_io_wait io s;
          s = ata_out8 io ATA_SECTOR_COUNT_OFFSET 1 s;
          s = ata_out8 io ATA_LBA_LOW_OFFSET (ucast (current_lba AND 0xFF)) s;
          s = ata_out8 io ATA_LBA_MID_OFFSET (ucast (drop_bit 8 current_lba AND 0xFF)) s;
          s = ata_out8 io ATA_LBA_HIGH_OFFSET (ucast (drop_bit 16 current_lba AND 0xFF)) s
      in ata_out8 io ATA_COMMAND_OFFSET cmd s)"

fun read_words :: "'d ports \<Rightarrow> nat \<Rightarrow> 'd ata_state \<Rightarrow> bytes \<times> 'd ata_state" where
  "read_words io 0 s = ([], s)"
| "read_words io (Suc n) s =
     (case ata_in16 io (g_ata_io_base s + ATA_DATA_OFFSET) s of (w, s) \<Rightarrow>
        case read_words io n s of (ws, s) \<Rightarrow> (le16 w @ ws, s))"

fun write_words :: "'d ports \<Rightarrow> u16 list \<Rightarrow> 'd ata_state \<Rightarrow> 'd ata_state" where
  "write_words io [] s = s"
| "write_words io (w # ws) s =
     write_words io ws (s\<lparr>ata_device := port_out16 io (g_ata_io_base s + ATA_DATA_OFFSET) w (ata_device s)\<rparr>)"

text \<open>\<open>n\<close> sectors are left, the next is number \<open>sector\<close> of the transfer.\<close>

fun ata_read_loop :: "'d ports \<Rightarrow> nat \<Rightarrow> nat \<Rightarrow> u32 \<Rightarrow> bytes \<Rightarrow> 'd ata_state \<Rightarrow> bool \<times> bytes \<times> 'd ata_state" where
  "ata_read_loop io 0 sector lba out s = (True, out, s)"
| "ata_read_loop io (Suc n) sector lba out s =
     (case ata_wait_not_busy io s of (ready, s) \<Rightarrow>
        if \<not> ready then (False, out, s)
        else case ata_wait_drq io (ata_command io 0x20 (lba + of_nat sector) s) of (ready, s) \<Rightarrow>
          if \<not> ready then (False, out, s)
          else case read_words io 256 s of (ws, s) \<Rightarrow>
            ata_read_loop io n (Suc sector) lba (blit out (512 * sector) ws) (ata_io_wait io s))"

definition ata_read_sectors :: "'d ports \<Rightarrow> u32 \<Rightarrow> u8 \<Rightarrow> bytes \<Rightarrow> 'd ata_state \<Rightarrow> bool \<times> bytes \<times> 'd ata_state" where
  "ata_read_sectors io lba count out s =
     (if count = 0 then (True, out, s)
      else if lba > 0x0FFFFFFF then (False, out, s)
      else ata_read_loop io (unat count) 0 lba out s)"

text \<open>The words of sector \<open>sector\<close> of the caller's data.\<close>

definition sector_words :: "bytes \<Rightarrow> nat \<Rightarrow> u16 list" where
  "sector_words data sector = map (\<lambda>i. of_le16 (data ! (512 * sector + 2 * i)) (data ! (512 * sector + 2 * i + 1))) [0..<256]"

fun ata_write_loop :: "'d ports \<Rightarrow> nat \<Rightarrow> nat \<Rightarrow> u32 \<Rightarrow> bytes \<Rightarrow> 'd ata_state \<Rightarrow> bool \<times> 'd ata_state" where
  "ata_write_loop io 0 sector lba data s = (True, s)"
| "ata_write_loop io (Suc n) sector lba data s =
     (case ata_wait_not_busy io s of (ready, s) \<Rightarrow>
        if \<not> ready then (False, s)
        else case ata_wait_drq io (ata_command io 0x30 (lba + of_nat sector) s) of (ready, s) \<Rightarrow>
          if \<not> ready then (False, s)
          else case ata_wait_not_busy io (ata_io_wait io (write_words io (sector_words data sector) s)) of (ready, s) \<Rightarrow>
            if \<not> ready then (False, s) else ata_write_loop io n (Suc sector) lba data s)"

definition ata_write_sectors :: "'d ports \<Rightarrow> u32 \<Rightarrow> u8 \<Rightarrow> bytes \<Rightarrow> 'd ata_state \<Rightarrow> bool \<times> 'd ata_state" where
  "ata_write_sectors io lba count data s =
     (if count = 0 then (True, s)
      else if lba > 0x0FFFFFFF then (False, s)
      else ata_write_loop io (unat count) 0 lba data s)"

subsection \<open>The drive\<close>

text \<open>
  The task file as the ATA standard describes it, over observers of the drive's state: its registers,
  whether it is free to take them, the phase of the data transfer, and the sectors of the drive that
  the driver has selected. A status without BSY says that the drive is free; one with DRQ and without an
  error that the words of the sector named by the registers can be transferred. The 256th word written
  completes the sector.
\<close>

record ata_regs =
  reg_count :: u8
  reg_low :: u8
  reg_mid :: u8
  reg_high :: u8
  reg_head :: u8

datatype ata_phase = No_data | Read_pending | Read_data nat | Write_pending | Write_data "u16 list"

record 'd ata_model =
  regs_of :: "'d \<Rightarrow> ata_regs"
  phase_of :: "'d \<Rightarrow> ata_phase"
  free_of :: "'d \<Rightarrow> bool"
  disk_of :: "'d \<Rightarrow> nat \<Rightarrow> bytes"

definition sector_number :: "ata_regs \<Rightarrow> nat" where
  "sector_number r = unat (reg_low r) + 256 * unat (reg_mid r) + 65536 * unat (reg_high r) +
     16777216 * unat (reg_head r AND 0x0F)"

fun start_data :: "ata_phase \<Rightarrow> ata_phase" where
  "start_data Read_pending = Read_data 0"
| "start_data Write_pending = Write_data []"
| "start_data p = p"

definition status_error :: "u8 \<Rightarrow> bool" where
  "status_error v \<longleftrightarrow> v AND (ATA_STATUS_ERR OR ATA_STATUS_DF) \<noteq> 0"

definition status_drq :: "u8 \<Rightarrow> bool" where
  "status_drq v \<longleftrightarrow> v AND ATA_STATUS_BSY = 0 \<and> v AND ATA_STATUS_DRQ \<noteq> 0"

definition quiet_port :: "'d ata_model \<Rightarrow> 'd \<Rightarrow> 'd \<Rightarrow> bool" where
  "quiet_port m d d' \<longleftrightarrow> disk_of m d' = disk_of m d \<and> regs_of m d' = regs_of m d"

definition drive_status :: "'d ports \<Rightarrow> u16 \<Rightarrow> 'd ata_model \<Rightarrow> bool" where
  "drive_status io base m \<longleftrightarrow> (\<forall>d v d'. port_in8 io (base + 7) d = (v, d') \<longrightarrow>
     quiet_port m d d' \<and> (v AND ATA_STATUS_BSY = 0 \<longrightarrow> free_of m d') \<and>
     (\<not> status_error v \<longrightarrow> phase_of m d' = (if status_drq v then start_data (phase_of m d) else phase_of m d)))"

definition drive_alt_status :: "'d ports \<Rightarrow> u16 \<Rightarrow> 'd ata_model \<Rightarrow> bool" where
  "drive_alt_status io ctrl m \<longleftrightarrow> (\<forall>d v d'. port_in8 io ctrl d = (v, d') \<longrightarrow>
     quiet_port m d d' \<and> phase_of m d' = phase_of m d \<and> (free_of m d \<longrightarrow> free_of m d'))"

fun set_reg :: "u16 \<Rightarrow> u8 \<Rightarrow> ata_regs \<Rightarrow> ata_regs" where
  "set_reg k v r = (if k = 2 then r\<lparr>reg_count := v\<rparr> else if k = 3 then r\<lparr>reg_low := v\<rparr>
     else if k = 4 then r\<lparr>reg_mid := v\<rparr> else if k = 5 then r\<lparr>reg_high := v\<rparr> else r\<lparr>reg_head := v\<rparr>)"

definition drive_registers :: "'d ports \<Rightarrow> u16 \<Rightarrow> 'd ata_model \<Rightarrow> bool" where
  "drive_registers io base m \<longleftrightarrow> (\<forall>d v. \<forall>k \<in> {2, 3, 4, 5, 6}. let d' = port_out8 io (base + k) v d in
     disk_of m d' = disk_of m d \<and> (free_of m d \<longrightarrow> free_of m d' \<and> regs_of m d' = set_reg k v (regs_of m d)))"

definition drive_command :: "'d ports \<Rightarrow> u16 \<Rightarrow> u8 \<Rightarrow> 'd ata_model \<Rightarrow> bool" where
  "drive_command io base head m \<longleftrightarrow> (\<forall>d. \<forall>v \<in> {0x20, 0x30}. let d' = port_out8 io (base + 7) v d in
     quiet_port m d d' \<and>
     (free_of m d \<and> reg_count (regs_of m d) = 1 \<and> reg_head (regs_of m d) AND 0xF0 = head \<longrightarrow>
        phase_of m d' = (if v = 0x20 then Read_pending else Write_pending)))"

definition drive_reads :: "'d ports \<Rightarrow> u16 \<Rightarrow> 'd ata_model \<Rightarrow> bool" where
  "drive_reads io base m \<longleftrightarrow> (\<forall>d w d'. port_in16 io base d = (w, d') \<longrightarrow> quiet_port m d d' \<and>
     (\<forall>n < 256. phase_of m d = Read_data n \<longrightarrow> phase_of m d' = Read_data (Suc n) \<and>
        (let b = disk_of m d (sector_number (regs_of m d)) in w = of_le16 (b ! (2 * n)) (b ! (2 * n + 1)))))"

definition drive_writes :: "'d ports \<Rightarrow> u16 \<Rightarrow> 'd ata_model \<Rightarrow> bool" where
  "drive_writes io base m \<longleftrightarrow> (\<forall>d ws w. phase_of m d = Write_data ws \<and> length ws < 256 \<longrightarrow>
     (let d' = port_out16 io base w d in regs_of m d' = regs_of m d \<and> phase_of m d' = Write_data (ws @ [w]) \<and>
        disk_of m d' = (if length ws < 255 then disk_of m d
          else (disk_of m d)(sector_number (regs_of m d) := concat (map le16 (ws @ [w]))))))"

definition ata_drive :: "'d ports \<Rightarrow> u16 \<Rightarrow> u16 \<Rightarrow> u8 \<Rightarrow> 'd ata_model \<Rightarrow> bool" where
  "ata_drive io base ctrl head m \<longleftrightarrow> (\<forall>d l. length (disk_of m d l) = SECTOR) \<and>
     drive_status io base m \<and> drive_alt_status io ctrl m \<and> drive_registers io base m \<and>
     drive_command io base head m \<and> drive_reads io base m \<and> drive_writes io base m"

text \<open>A drive of \<open>cap\<close> sectors transfers nothing for a number beyond them.\<close>

definition drive_limit :: "'d ports \<Rightarrow> u16 \<Rightarrow> 'd ata_model \<Rightarrow> nat \<Rightarrow> bool" where
  "drive_limit io base m cap \<longleftrightarrow> (\<forall>d v d'. port_in8 io (base + 7) d = (v, d') \<and>
     phase_of m d \<in> {Read_pending, Write_pending} \<and> cap \<le> sector_number (regs_of m d) \<longrightarrow> status_error v \<or> \<not> status_drq v)"

definition bound_to :: "u16 \<Rightarrow> u16 \<Rightarrow> u8 \<Rightarrow> 'd ata_state \<Rightarrow> bool" where
  "bound_to base ctrl head s \<longleftrightarrow> g_ata_io_base s = base \<and> g_ata_ctrl_base s = ctrl \<and> g_ata_drive_head s = head"

text \<open>The sector a 32-bit number selects: the task file holds 28 bits of it.\<close>

definition lba28 :: "u32 \<Rightarrow> nat \<Rightarrow> nat" where
  "lba28 lba i = (unat lba + i) mod 2 ^ 28"

lemma no_drive_limit: "drive_limit io base m (2 ^ 28)"
proof -
  have "unat (h AND 0x0F) < 16" for h :: u8
    using word_and_le1 [of h "0x0F"] by (simp add: word_le_nat_alt word_less_nat_alt less_Suc_eq_le)
  then have b: "unat (reg_head r AND 0x0F) < 16" for r by blast
  have p: "(2::nat) ^ 28 = 268435456" by simp
  have "sector_number r < 2 ^ 28" for r
    using unat_u8_bound [of "reg_low r"] unat_u8_bound [of "reg_mid r"] unat_u8_bound [of "reg_high r"]
      b [of r] unfolding sector_number_def p by linarith
  then show ?thesis by (simp add: drive_limit_def not_le [symmetric])
qed

lemma ata_driveD:
  assumes "ata_drive io base ctrl head m"
  shows "length (disk_of m d l) = SECTOR" "drive_status io base m" "drive_alt_status io ctrl m" "drive_registers io base m"
    "drive_command io base head m" "drive_reads io base m" "drive_writes io base m"
  using assms by (simp_all add: ata_drive_def)

abbreviation disk_at :: "'d ata_model \<Rightarrow> 'd ata_state \<Rightarrow> nat \<Rightarrow> bytes" where
  "disk_at m s \<equiv> disk_of m (ata_device s)"

text \<open>A step that leaves the disk, the registers and the driver's own variables alone.\<close>

definition still :: "'d ata_model \<Rightarrow> 'd ata_state \<Rightarrow> 'd ata_state \<Rightarrow> bool" where
  "still m s t \<longleftrightarrow> quiet_port m (ata_device s) (ata_device t) \<and> g_ata_io_base t = g_ata_io_base s \<and>
     g_ata_ctrl_base t = g_ata_ctrl_base s \<and> g_ata_drive_head t = g_ata_drive_head s"

lemma still_refl: "still m s s"
  by (simp add: still_def quiet_port_def)

lemma still_trans: "still m s t \<Longrightarrow> still m t u \<Longrightarrow> still m s u"
  by (simp add: still_def quiet_port_def)

lemma stillD:
  assumes "still m s t"
  shows "disk_at m t = disk_at m s" "regs_of m (ata_device t) = regs_of m (ata_device s)"
    "bound_to base ctrl head t = bound_to base ctrl head s"
  using assms by (simp_all add: still_def quiet_port_def bound_to_def)

subsection \<open>Waiting\<close>

lemma alt_status:
  assumes "drive_alt_status io ctrl m" and "bound_to base ctrl head s"
  shows "still m s (snd (ata_in8 io (g_ata_ctrl_base s) s)) \<and>
    phase_of m (ata_device (snd (ata_in8 io (g_ata_ctrl_base s) s))) = phase_of m (ata_device s) \<and>
    (free_of m (ata_device s) \<longrightarrow> free_of m (ata_device (snd (ata_in8 io (g_ata_ctrl_base s) s))))"
proof -
  obtain v d where "port_in8 io ctrl (ata_device s) = (v, d)" by fastforce
  then show ?thesis
    using assms unfolding drive_alt_status_def by (auto simp: ata_in8_def bound_to_def still_def)
qed

lemma io_wait:
  assumes l: "drive_alt_status io ctrl m" and b: "bound_to base ctrl head s"
  shows "still m s (ata_io_wait io s)" "phase_of m (ata_device (ata_io_wait io s)) = phase_of m (ata_device s)"
    "free_of m (ata_device s) \<Longrightarrow> free_of m (ata_device (ata_io_wait io s))"
proof -
  let ?f = "\<lambda>s. snd (ata_in8 io (g_ata_ctrl_base s) s)"
  have step: "bound_to base ctrl head (?f t) \<and> still m s (?f t) \<and> phase_of m (ata_device (?f t)) = phase_of m (ata_device s) \<and>
      (free_of m (ata_device s) \<longrightarrow> free_of m (ata_device (?f t)))"
    if "bound_to base ctrl head t" "still m s t" "phase_of m (ata_device t) = phase_of m (ata_device s)"
      "free_of m (ata_device s) \<longrightarrow> free_of m (ata_device t)" for t
    using alt_status [OF l that(1)] that still_trans [OF that(2)] stillD(3) by (metis (no_types, lifting))
  have w: "ata_io_wait io s = ?f (?f (?f (?f s)))" by (simp add: ata_io_wait_def Let_def)
  have "still m s (ata_io_wait io s) \<and> phase_of m (ata_device (ata_io_wait io s)) = phase_of m (ata_device s) \<and>
      (free_of m (ata_device s) \<longrightarrow> free_of m (ata_device (ata_io_wait io s)))"
    unfolding w using step [of s] step [of "?f s"] step [of "?f (?f s)"] step [of "?f (?f (?f s))"] b still_refl [of m s] by blast
  then show "still m s (ata_io_wait io s)" "phase_of m (ata_device (ata_io_wait io s)) = phase_of m (ata_device s)"
    "free_of m (ata_device s) \<Longrightarrow> free_of m (ata_device (ata_io_wait io s))" by blast+
qed

lemma status_read:
  assumes "drive_status io base m" and "bound_to base ctrl head s"
    and "ata_in8 io (g_ata_io_base s + ATA_STATUS_OFFSET) s = (v, t)"
  shows "still m s t" "v AND ATA_STATUS_BSY = 0 \<Longrightarrow> free_of m (ata_device t)"
    "\<not> status_error v \<Longrightarrow> phase_of m (ata_device t) =
       (if status_drq v then start_data (phase_of m (ata_device s)) else phase_of m (ata_device s))"
proof -
  obtain d where d: "port_in8 io (base + 7) (ata_device s) = (v, d)" "t = s\<lparr>ata_device := d\<rparr>"
    using assms(2,3) by (auto simp: ata_in8_def bound_to_def ATA_STATUS_OFFSET_def split: prod.splits)
  then show "still m s t" "v AND ATA_STATUS_BSY = 0 \<Longrightarrow> free_of m (ata_device t)"
    "\<not> status_error v \<Longrightarrow> phase_of m (ata_device t) =
       (if status_drq v then start_data (phase_of m (ata_device s)) else phase_of m (ata_device s))"
    using assms(1) unfolding drive_status_def by (simp_all add: still_def)
qed

lemma wait_not_busy:
  assumes l: "drive_status io base m" and run: "wait_not_busy_loop io n s = (ok, t)" and b: "bound_to base ctrl head s"
  shows "still m s t" "ok \<Longrightarrow> free_of m (ata_device t)"
proof -
  have "still m s t \<and> (ok \<longrightarrow> free_of m (ata_device t))" using run b
  proof (induction n arbitrary: s)
    case 0
    then show ?case by (simp add: still_refl)
  next
    case (Suc n)
    obtain v s1 where r: "ata_in8 io (g_ata_io_base s + ATA_STATUS_OFFSET) s = (v, s1)" by fastforce
    note R = status_read [OF l Suc.prems(2) r]
    have b1: "bound_to base ctrl head s1" using stillD(3) [OF R(1)] Suc.prems(2) by simp
    show ?case
    proof (cases "v AND ATA_STATUS_BSY = 0")
      case True
      then show ?thesis using Suc.prems(1) R by (simp add: r)
    next
      case False
      then have "wait_not_busy_loop io n s1 = (ok, t)" using Suc.prems(1) by (simp add: r)
      from Suc.IH [OF this b1] show ?thesis using still_trans [OF R(1)] by blast
    qed
  qed
  then show "still m s t" "ok \<Longrightarrow> free_of m (ata_device t)" by blast+
qed

lemma wait_drq:
  assumes l: "drive_status io base m" and run: "wait_drq_loop io n s = (ok, t)" and b: "bound_to base ctrl head s"
    and p: "phase_of m (ata_device s) \<in> {Read_pending, Write_pending}" and lim: "drive_limit io base m cap"
  shows "still m s t" "ok \<Longrightarrow> phase_of m (ata_device t) = start_data (phase_of m (ata_device s))"
    "ok \<Longrightarrow> sector_number (regs_of m (ata_device s)) < cap"
proof -
  have "still m s t \<and> (ok \<longrightarrow> phase_of m (ata_device t) = start_data (phase_of m (ata_device s)) \<and>
      sector_number (regs_of m (ata_device s)) < cap)" using run b p
  proof (induction n arbitrary: s)
    case 0
    then show ?case by (simp add: still_refl)
  next
    case (Suc n)
    obtain v s1 where r: "ata_in8 io (g_ata_io_base s + ATA_STATUS_OFFSET) s = (v, s1)" by fastforce
    note R = status_read [OF l Suc.prems(2) r]
    have b1: "bound_to base ctrl head s1" using stillD(3) [OF R(1)] Suc.prems(2) by simp
    consider (err) "status_error v" | (drq) "\<not> status_error v" "status_drq v" | (more) "\<not> status_error v" "\<not> status_drq v"
      by blast
    then show ?case
    proof cases
      case err
      then show ?thesis using Suc.prems(1) R(1) by (simp add: r status_error_def)
    next
      case drq
      have "port_in8 io (base + 7) (ata_device s) = (v, ata_device s1)"
        using r Suc.prems(2) by (auto simp: ata_in8_def bound_to_def ATA_STATUS_OFFSET_def split: prod.splits)
      then have "sector_number (regs_of m (ata_device s)) < cap"
        using lim drq Suc.prems(3) unfolding drive_limit_def by (meson not_le)
      then show ?thesis using drq Suc.prems(1) R by (simp add: r status_error_def status_drq_def)
    next
      case more
      have "phase_of m (ata_device s1) = phase_of m (ata_device s)" using R(3) more by simp
      moreover have "wait_drq_loop io n s1 = (ok, t)"
        using Suc.prems(1) more by (simp add: r status_error_def status_drq_def split: if_splits)
      ultimately show ?thesis using Suc.IH [of s1] b1 Suc.prems(3) still_trans [OF R(1)] stillD(2) [OF R(1)] by auto
    qed
  qed
  then show "still m s t" "ok \<Longrightarrow> phase_of m (ata_device t) = start_data (phase_of m (ata_device s))"
    "ok \<Longrightarrow> sector_number (regs_of m (ata_device s)) < cap" by blast+
qed

subsection \<open>Commands\<close>

lemma unat_low_byte: "unat (ucast (w AND 0xFF :: u32) :: u8) = unat w mod 256"
proof -
  have "w AND 0xFF = take_bit 8 w" by (simp add: take_bit_eq_mask mask_eq_exp_minus_1)
  then show ?thesis by (simp add: unsigned_ucast_eq unsigned_take_bit_eq take_bit_nat_def)
qed

lemma sector_number_lba:
  "sector_number \<lparr>reg_count = 1, reg_low = ucast (w AND 0xFF), reg_mid = ucast (drop_bit 8 w AND 0xFF),
     reg_high = ucast (drop_bit 16 w AND 0xFF), reg_head = h\<rparr> = unat w mod 2 ^ 28"
  if "h AND 0x0F = ucast (drop_bit 24 w AND 0x0F :: u32)" for w :: u32
proof -
  have "drop_bit 24 w AND 0x0F = take_bit 4 (drop_bit 24 w)" by (simp add: take_bit_eq_mask mask_eq_exp_minus_1)
  then have n: "unat (ucast (drop_bit 24 w AND 0x0F :: u32) :: u8) = unat w div 2 ^ 24 mod 16"
    by (simp add: unsigned_ucast_eq unsigned_take_bit_eq unat_drop_bit_eq take_bit_nat_def drop_bit_nat_def mod_mod_cancel)
  have "n mod 2 ^ 28 = n mod 256 + 256 * (n div 256 mod 256) + 65536 * (n div 65536 mod 256) + 16777216 * (n div 16777216 mod 16)"
    for n :: nat
    using mod_mult2_eq [of n 256 1048576] mod_mult2_eq [of "n div 256" 256 4096] mod_mult2_eq [of "n div 65536" 256 16]
    by (simp add: div_mult2_eq [symmetric])
  then show ?thesis
    using n by (simp add: sector_number_def that unat_low_byte unat_drop_bit_eq drop_bit_nat_def)
qed

lemma head_bits:
  fixes h :: u8 and w :: u32
  assumes "h = 0xE0 \<or> h = 0xF0"
  defines "x \<equiv> ucast (drop_bit 24 w AND 0x0F) :: u8"
  shows "(h OR x) AND 0xF0 = h" "(h OR x) AND 0x0F = x"
proof -
  have f: "(0x0F :: u32) = mask 4" by (simp add: mask_eq_exp_minus_1)
  have m: "x = x AND mask 4"
    unfolding x_def f by (rule bit_word_eqI) (auto simp: bit_simps)
  have "x AND 0x0F = x" using m by (simp add: mask_eq_exp_minus_1)
  moreover have "x AND 0xF0 = x AND (mask 4 AND 0xF0)" using m by (metis and.assoc)
  then have "x AND 0xF0 = 0" by (simp add: mask_eq_exp_minus_1)
  ultimately show "(h OR x) AND 0xF0 = h" "(h OR x) AND 0x0F = x"
    using assms(1) by (auto simp: bit.conj_disj_distrib2)
qed

text \<open>The drive is free, with these sectors and registers.\<close>

definition set_up :: "'d ata_model \<Rightarrow> u16 \<Rightarrow> u16 \<Rightarrow> u8 \<Rightarrow> (nat \<Rightarrow> bytes) \<Rightarrow> ata_regs \<Rightarrow> 'd ata_state \<Rightarrow> bool" where
  "set_up m base ctrl head D r s \<longleftrightarrow> bound_to base ctrl head s \<and> free_of m (ata_device s) \<and> disk_at m s = D \<and>
     regs_of m (ata_device s) = r"

lemma register_write:
  assumes "drive_registers io base m" and "set_up m base ctrl head D r s" and "k \<in> {2, 3, 4, 5, 6}"
  shows "set_up m base ctrl head D (set_reg k v r) (ata_out8 io k v s)"
proof -
  have "let d' = port_out8 io (base + k) v (ata_device s) in
     disk_of m d' = disk_of m (ata_device s) \<and> (free_of m (ata_device s) \<longrightarrow> free_of m d' \<and> regs_of m d' = set_reg k v (regs_of m (ata_device s)))"
    using assms(1,3) unfolding drive_registers_def by blast
  then show ?thesis using assms(2) by (simp add: set_up_def ata_out8_def bound_to_def Let_def del: set_reg.simps)
qed

lemma command:
  assumes d: "ata_drive io base ctrl head m" and h: "head = 0xE0 \<or> head = 0xF0" and b: "bound_to base ctrl head s"
    and f: "free_of m (ata_device s)" and c: "cmd = 0x20 \<or> cmd = 0x30" and t: "t = ata_command io cmd lba s"
  shows "bound_to base ctrl head t" "disk_at m t = disk_at m s"
    "phase_of m (ata_device t) = (if cmd = 0x20 then Read_pending else Write_pending)"
    "sector_number (regs_of m (ata_device t)) = unat lba mod 2 ^ 28"
proof -
  note L = ata_driveD(3,4,5) [OF d]
  let ?h = "head OR ucast (drop_bit 24 lba AND 0x0F)"
  let ?low = "ucast (lba AND 0xFF) :: u8" and ?mid = "ucast (drop_bit 8 lba AND 0xFF) :: u8"
    and ?high = "ucast (drop_bit 16 lba AND 0xFF) :: u8"
  let ?r = "regs_of m (ata_device s)" and ?D = "disk_at m s"
  let ?s1 = "ata_out8 io 6 ?h s"
  let ?s2 = "ata_io_wait io ?s1"
  let ?s6 = "ata_out8 io 5 ?high (ata_out8 io 4 ?mid (ata_out8 io 3 ?low (ata_out8 io 2 1 ?s2)))"
  have start: "set_up m base ctrl head ?D ?r s" using b f by (simp add: set_up_def)
  have reg: "set_up m base ctrl head ?D (set_reg k v r) (ata_out8 io k v u)"
    if "set_up m base ctrl head ?D r u" "k \<in> {2, 3, 4, 5, 6}" for r u k v
    by (rule register_write [OF L(2) that])
  from reg [OF start, of 6 ?h] have 1: "set_up m base ctrl head ?D (set_reg 6 ?h ?r) ?s1" by (simp del: set_reg.simps)
  then have 2: "set_up m base ctrl head ?D (set_reg 6 ?h ?r) ?s2"
    using io_wait [OF L(1), of base head ?s1] stillD(1,2) [of m ?s1 ?s2] stillD(3) [of m ?s1 ?s2 base ctrl head] by (simp add: set_up_def del: set_reg.simps)
  have "set_up m base ctrl head ?D (set_reg 5 ?high (set_reg 4 ?mid (set_reg 3 ?low (set_reg 2 1 (set_reg 6 ?h ?r))))) ?s6"
    by (intro reg 2) simp_all
  then have 6: "set_up m base ctrl head ?D \<lparr>reg_count = 1, reg_low = ?low, reg_mid = ?mid, reg_high = ?high, reg_head = ?h\<rparr> ?s6"
    by (cases ?r) simp
  have run: "t = ata_out8 io 7 cmd ?s6"
    using b by (simp add: t ata_command_def Let_def bound_to_def ATA_DRIVE_OFFSET_def ATA_SECTOR_COUNT_OFFSET_def
      ATA_LBA_LOW_OFFSET_def ATA_LBA_MID_OFFSET_def ATA_LBA_HIGH_OFFSET_def ATA_COMMAND_OFFSET_def)
  note H = head_bits [OF h, of lba]
  let ?d' = "port_out8 io (base + 7) cmd (ata_device ?s6)"
  have "quiet_port m (ata_device ?s6) ?d' \<and> (free_of m (ata_device ?s6) \<and> reg_count (regs_of m (ata_device ?s6)) = 1 \<and>
      reg_head (regs_of m (ata_device ?s6)) AND 0xF0 = head \<longrightarrow>
        phase_of m ?d' = (if cmd = 0x20 then Read_pending else Write_pending))"
    using L(3) c unfolding drive_command_def Let_def by blast
  moreover have "ata_device t = ?d'" "bound_to base ctrl head t"
    using 6 unfolding run by (simp_all add: ata_out8_def set_up_def bound_to_def)
  ultimately show "bound_to base ctrl head t" "disk_at m t = disk_at m s"
    "phase_of m (ata_device t) = (if cmd = 0x20 then Read_pending else Write_pending)"
    "sector_number (regs_of m (ata_device t)) = unat lba mod 2 ^ 28"
    using 6 H sector_number_lba [of ?h lba] by (simp_all add: set_up_def quiet_port_def)
qed

subsection \<open>Data\<close>

lemma read_words:
  assumes "drive_reads io base m" and "bound_to base ctrl head s" and "phase_of m (ata_device s) = Read_data k"
    and "k + n \<le> 256" and "length (disk_at m s (sector_number (regs_of m (ata_device s)))) = 512"
    and "read_words io n s = (ws, t)"
  shows "ws = take (2 * n) (drop (2 * k) (disk_at m s (sector_number (regs_of m (ata_device s))))) \<and> still m s t"
  using assms
proof (induction n arbitrary: k s ws)
  case 0
  then show ?case by (simp add: still_refl)
next
  case (Suc n)
  let ?b = "disk_at m s (sector_number (regs_of m (ata_device s)))"
  obtain w d where p: "port_in16 io base (ata_device s) = (w, d)" by fastforce
  let ?s1 = "s\<lparr>ata_device := d\<rparr>"
  have k: "k < 256" using Suc.prems(4) by simp
  have law: "quiet_port m (ata_device s) d" "phase_of m d = Read_data (Suc k)" "w = of_le16 (?b ! (2 * k)) (?b ! (2 * k + 1))"
    using Suc.prems(1,3) k p unfolding drive_reads_def by (auto simp: Let_def)
  have s1: "still m s ?s1" using law(1) by (simp add: still_def)
  obtain vs where r: "read_words io n ?s1 = (vs, t)" "ws = le16 w @ vs"
    using Suc.prems(2,6) p by (auto simp: ata_in16_def bound_to_def ATA_DATA_OFFSET_def split: prod.splits)
  have b1: "disk_at m ?s1 (sector_number (regs_of m (ata_device ?s1))) = ?b" using stillD [OF s1] by simp
  have "vs = take (2 * n) (drop (2 * Suc k) ?b) \<and> still m ?s1 t"
    using Suc.IH [of ?s1 "Suc k" vs] Suc.prems(1,2,4,5) stillD(3) [OF s1] law(2) r(1) unfolding b1 by simp
  moreover have "take (2 * Suc n) (drop (2 * k) ?b) = [?b ! (2 * k), ?b ! (2 * k + 1)] @ take (2 * n) (drop (2 * Suc k) ?b)"
  proof -
    have "drop (2 * k) ?b = ?b ! (2 * k) # ?b ! (2 * k + 1) # drop (2 * Suc k) ?b"
      using Suc.prems(5) k Cons_nth_drop_Suc [of "2 * k" ?b] Cons_nth_drop_Suc [of "2 * k + 1" ?b] by simp
    then show ?thesis by simp
  qed
  ultimately show ?case using still_trans [OF s1] r(2) law(3) by (simp add: le16_of_le16)
qed

lemma write_words:
  assumes "drive_writes io base m" and "bound_to base ctrl head s" and "phase_of m (ata_device s) = Write_data ps"
    and "length ps + length ws = 256" and "ws \<noteq> []"
  shows "bound_to base ctrl head (write_words io ws s)"
    "disk_at m (write_words io ws s) = (disk_at m s)(sector_number (regs_of m (ata_device s)) := concat (map le16 (ps @ ws)))"
proof -
  have "bound_to base ctrl head (write_words io ws s) \<and>
    disk_at m (write_words io ws s) = (disk_at m s)(sector_number (regs_of m (ata_device s)) := concat (map le16 (ps @ ws)))"
    using assms
  proof (induction ws arbitrary: ps s)
    case Nil
    then show ?case by simp
  next
    case (Cons w ws)
    let ?d = "port_out16 io base w (ata_device s)" and ?n = "sector_number (regs_of m (ata_device s))"
    have short: "length ps < 256" using Cons.prems(4) by simp
    have law: "regs_of m ?d = regs_of m (ata_device s)" "phase_of m ?d = Write_data (ps @ [w])"
      "disk_of m ?d = (if length ps < 255 then disk_of m (ata_device s)
          else (disk_of m (ata_device s))(?n := concat (map le16 (ps @ [w]))))"
      using Cons.prems(1,3) short unfolding drive_writes_def by (simp_all add: Let_def)
    let ?s1 = "s\<lparr>ata_device := ?d\<rparr>"
    have run: "write_words io (w # ws) s = write_words io ws ?s1"
      using Cons.prems(2) by (simp add: bound_to_def ATA_DATA_OFFSET_def)
    have b1: "bound_to base ctrl head ?s1" using Cons.prems(2) by (simp add: bound_to_def)
    show ?case
    proof (cases "ws = []")
      case True
      then show ?thesis using b1 law Cons.prems(4) unfolding run by simp
    next
      case False
      then have "length ps < 255" using Cons.prems(4) by (cases ws) simp_all
      then show ?thesis
        using Cons.IH [of ?s1 "ps @ [w]"] Cons.prems(1,4) b1 law False unfolding run by simp
    qed
  qed
  then show "bound_to base ctrl head (write_words io ws s)"
    "disk_at m (write_words io ws s) = (disk_at m s)(sector_number (regs_of m (ata_device s)) := concat (map le16 (ps @ ws)))"
    by blast+
qed

subsection \<open>Transfers\<close>

definition sectors28 :: "(nat \<Rightarrow> bytes) \<Rightarrow> u32 \<Rightarrow> nat list \<Rightarrow> bytes" where
  "sectors28 D lba ks = concat (map (\<lambda>i. D (lba28 lba i)) ks)"

definition put_sectors28 :: "u32 \<Rightarrow> bytes \<Rightarrow> nat list \<Rightarrow> (nat \<Rightarrow> bytes) \<Rightarrow> nat \<Rightarrow> bytes" where
  "put_sectors28 lba data ks D = fold (\<lambda>i D. D(lba28 lba i := take 512 (drop (512 * i) data))) ks D"

lemma blit_append: "blit buf off (xs @ ys) = blit (blit buf off xs) (off + length xs) ys"
  if "off + length xs + length ys \<le> length buf"
  using that by (cases xs) (auto simp: blit_def min_def add.commute add.left_commute)

lemma current_sector:
  assumes "unat lba \<le> 0x0FFFFFFF" and "k < 256"
  shows "unat (lba + of_nat k) mod 2 ^ 28 = lba28 lba k"
proof -
  have "unat (of_nat k :: u32) = k" using assms(2) by (intro unat_of_nat_u32) simp
  then have "unat (lba + of_nat k) = unat lba + k" using assms by (subst unat_add_small) simp_all
  then show ?thesis by (simp add: lba28_def)
qed

lemma read_loop:
  assumes d: "ata_drive io base ctrl head m" and h: "head = 0xE0 \<or> head = 0xF0" and l: "unat lba \<le> 0x0FFFFFFF"
    and lim: "drive_limit io base m cap"
  shows "bound_to base ctrl head s \<Longrightarrow> k + n \<le> 255 \<Longrightarrow> 512 * (k + n) \<le> length out \<Longrightarrow>
    ata_read_loop io n k lba out s = (ok, out', t) \<Longrightarrow>
    length out' = length out \<and> disk_at m t = disk_at m s \<and> bound_to base ctrl head t \<and>
    (ok \<longrightarrow> out' = blit out (512 * k) (sectors28 (disk_at m s) lba [k..<k + n]) \<and> (\<forall>i \<in> {k..<k + n}. lba28 lba i < cap))"
proof (induction n arbitrary: k out s)
  case 0
  then show ?case by (simp add: sectors28_def blit_def)
next
  case (Suc n)
  note L = ata_driveD [OF d]
  obtain r1 s1 where 1: "ata_wait_not_busy io s = (r1, s1)" by fastforce
  note W1 = wait_not_busy [OF L(2) 1 [unfolded ata_wait_not_busy_def] Suc.prems(1)]
  have b1: "bound_to base ctrl head s1" "disk_at m s1 = disk_at m s"
    using stillD(1) [OF W1(1)] stillD(3) [OF W1(1), of base ctrl head] Suc.prems(1) by simp_all
  show ?case
  proof (cases r1)
    case False
    then show ?thesis using Suc.prems(4) 1 b1 by auto
  next
    case r1: True
    define c where "c = ata_command io 0x20 (lba + of_nat k) s1"
    note C = command [OF d h b1(1) W1(2) [OF r1] _ c_def, simplified]
    obtain r2 s2 where 2: "ata_wait_drq io c = (r2, s2)" by fastforce
    note W2 = wait_drq [OF L(2) 2 [unfolded ata_wait_drq_def] C(1) _ lim, unfolded C(3), simplified]
    have b2: "bound_to base ctrl head s2" "disk_at m s2 = disk_at m s" "sector_number (regs_of m (ata_device s2)) = lba28 lba k"
      using stillD(1,2) [OF W2(1)] stillD(3) [OF W2(1), of base ctrl head] C b1(2) current_sector [OF l, of k] Suc.prems(2) by simp_all
    show ?thesis
    proof (cases r2)
      case False
      then show ?thesis using Suc.prems(4) 1 r1 2 b2 by (auto simp: c_def)
    next
      case r2: True
      obtain ws s3 where 3: "read_words io 256 s2 = (ws, s3)" by fastforce
      have "length (disk_at m s2 x) = 512" for x using L(1) by (simp add: SECTOR_def)
      from read_words [OF L(6) b2(1) W2(2) [OF r2] _ this 3]
      have ws: "ws = disk_at m s (lba28 lba k)" "still m s2 s3" using L(1) by (simp_all add: b2 SECTOR_def)
      have b3: "bound_to base ctrl head s3" "disk_at m s3 = disk_at m s"
        using stillD(1) [OF ws(2)] stillD(3) [OF ws(2), of base ctrl head] b2 by simp_all
      note I = io_wait(1) [OF L(3) b3(1)]
      let ?s4 = "ata_io_wait io s3"
      have b4: "bound_to base ctrl head ?s4" "disk_at m ?s4 = disk_at m s"
        using stillD(1) [OF I] stillD(3) [OF I, of base ctrl head] b3 by simp_all
      have lw: "length ws = 512" using ws(1) L(1) by (simp add: SECTOR_def)
      let ?out = "blit out (512 * k) ws"
      have lo: "length ?out = length out" using Suc.prems(3) lw by (simp add: length_blit)
      have run: "ata_read_loop io n (Suc k) lba ?out ?s4 = (ok, out', t)"
        using Suc.prems(4) 1 r1 2 r2 3 by (simp add: c_def)
      have ls: "length (sectors28 (disk_at m s) lba ks) = 512 * length ks" for ks
        using L(1) by (induction ks) (simp_all add: sectors28_def SECTOR_def)
      have "[k..<k + Suc n] = k # [Suc k..<Suc k + n]" by (simp add: upt_rec)
      then have "sectors28 (disk_at m s) lba [k..<k + Suc n] = ws @ sectors28 (disk_at m s) lba [Suc k..<Suc k + n]"
        by (simp add: sectors28_def ws(1))
      then have "blit out (512 * k) (sectors28 (disk_at m s) lba [k..<k + Suc n]) =
          blit ?out (512 * Suc k) (sectors28 (disk_at m s) lba [Suc k..<Suc k + n])"
        using Suc.prems(3) lw ls [of "[Suc k..<Suc k + n]"] by (simp add: blit_append add.commute)
      moreover have "lba28 lba k < cap" using W2(3) [OF r2] C(4) current_sector [OF l, of k] Suc.prems(2) by simp
      then have "(\<forall>i \<in> {k..<k + Suc n}. lba28 lba i < cap) \<longleftrightarrow> (\<forall>i \<in> {Suc k..<Suc k + n}. lba28 lba i < cap)"
        by (auto simp: Suc_le_eq le_less)
      ultimately show ?thesis using Suc.IH [OF b4(1) _ _ run] Suc.prems(2,3) lo b4(2) by simp
    qed
  qed
qed

lemma sector_words_bytes:
  assumes "512 * Suc k \<le> length data"
  shows "concat (map le16 (sector_words data k)) = take 512 (drop (512 * k) data)" "length (sector_words data k) = 256"
proof -
  have "concat (map (\<lambda>i. [data ! (b + 2 * i), data ! (b + 2 * i + 1)]) [0..<n]) = take (2 * n) (drop b data)"
    if "b + 2 * n \<le> length data" for b n
    using that by (induction n) (simp_all add: take_Suc_conv_app_nth)
  from this [of "512 * k" 256] assms show "concat (map le16 (sector_words data k)) = take 512 (drop (512 * k) data)"
    by (simp add: sector_words_def comp_def le16_of_le16 del: upt_rec_numeral)
  show "length (sector_words data k) = 256" by (simp add: sector_words_def del: upt_rec_numeral)
qed

lemma write_loop:
  assumes d: "ata_drive io base ctrl head m" and h: "head = 0xE0 \<or> head = 0xF0" and l: "unat lba \<le> 0x0FFFFFFF"
    and lim: "drive_limit io base m cap"
  shows "bound_to base ctrl head s \<Longrightarrow> k + n \<le> 255 \<Longrightarrow> 512 * (k + n) \<le> length data \<Longrightarrow>
    ata_write_loop io n k lba data s = (ok, t) \<Longrightarrow>
    bound_to base ctrl head t \<and>
    (\<exists>j \<le> n. disk_at m t = put_sectors28 lba data [k..<k + j] (disk_at m s) \<and> (ok \<longrightarrow> j = n) \<and>
      (\<forall>i \<in> {k..<k + j}. lba28 lba i < cap))"
proof (induction n arbitrary: k s)
  case 0
  then show ?case by (simp add: put_sectors28_def)
next
  case (Suc n)
  note L = ata_driveD [OF d]
  have none: ?case if "bound_to base ctrl head t" "disk_at m t = disk_at m s" "\<not> ok"
    using that by (auto simp: put_sectors28_def intro!: exI [of _ 0])
  obtain r1 s1 where 1: "ata_wait_not_busy io s = (r1, s1)" by fastforce
  note W1 = wait_not_busy [OF L(2) 1 [unfolded ata_wait_not_busy_def] Suc.prems(1)]
  have b1: "bound_to base ctrl head s1" "disk_at m s1 = disk_at m s"
    using stillD(1) [OF W1(1)] stillD(3) [OF W1(1), of base ctrl head] Suc.prems(1) by simp_all
  show ?case
  proof (cases r1)
    case False
    then show ?thesis using Suc.prems(4) 1 b1 by (intro none) auto
  next
    case r1: True
    define c where "c = ata_command io 0x30 (lba + of_nat k) s1"
    note C = command [OF d h b1(1) W1(2) [OF r1] _ c_def, simplified]
    obtain r2 s2 where 2: "ata_wait_drq io c = (r2, s2)" by fastforce
    note W2 = wait_drq [OF L(2) 2 [unfolded ata_wait_drq_def] C(1) _ lim, unfolded C(3), simplified]
    have b2: "bound_to base ctrl head s2" "disk_at m s2 = disk_at m s" "sector_number (regs_of m (ata_device s2)) = lba28 lba k"
      using stillD(1,2) [OF W2(1)] stillD(3) [OF W2(1), of base ctrl head] C b1(2) current_sector [OF l, of k] Suc.prems(2) by simp_all
    show ?thesis
    proof (cases r2)
      case False
      then show ?thesis using Suc.prems(4) 1 r1 2 b2 by (intro none) (auto simp: c_def)
    next
      case r2: True
      have kc: "lba28 lba k < cap" using W2(3) [OF r2] C(4) current_sector [OF l, of k] Suc.prems(2) by simp
      have sw: "concat (map le16 (sector_words data k)) = take 512 (drop (512 * k) data)" "length (sector_words data k) = 256"
        using sector_words_bytes [of k data] Suc.prems(3) by simp_all
      then have "sector_words data k \<noteq> []" by auto
      note WW = write_words [OF L(7) b2(1) W2(2) [OF r2] _ this, simplified sw list.size, simplified]
      let ?s3 = "write_words io (sector_words data k) s2"
      note I = io_wait(1) [OF L(3) WW(1)]
      have b4: "bound_to base ctrl head (ata_io_wait io ?s3)" using stillD(3) [OF I, of base ctrl head] WW(1) by simp
      obtain r4 s4 where 4: "ata_wait_not_busy io (ata_io_wait io ?s3) = (r4, s4)" by fastforce
      note W4 = wait_not_busy(1) [OF L(2) 4 [unfolded ata_wait_not_busy_def] b4]
      have b5: "bound_to base ctrl head s4" "disk_at m s4 = put_sectors28 lba data [k] (disk_at m s)"
        using stillD(1) [OF W4] stillD(3) [OF W4, of base ctrl head] stillD(1) [OF I] b4 WW(2) b2(2,3) sw(1) by (simp_all add: put_sectors28_def)
      show ?thesis
      proof (cases r4)
        case False
        then have "t = s4" "\<not> ok" using Suc.prems(4) 1 r1 2 r2 4 by (simp_all add: c_def)
        then show ?thesis using b5 kc by (intro conjI exI [of _ 1]) simp_all
      next
        case True
        then have run: "ata_write_loop io n (Suc k) lba data s4 = (ok, t)"
          using Suc.prems(4) 1 r1 2 r2 4 by (simp add: c_def)
        have "Suc k + n \<le> 255" "512 * (Suc k + n) \<le> length data" using Suc.prems(2,3) by simp_all
        from Suc.IH [OF b5(1) this run] obtain j where
          j: "j \<le> n" "disk_at m t = put_sectors28 lba data [Suc k..<Suc k + j] (disk_at m s4)" "ok \<longrightarrow> j = n"
            "\<forall>i \<in> {Suc k..<Suc k + j}. lba28 lba i < cap"
          and t: "bound_to base ctrl head t" by blast
        have "[k..<k + Suc j] = k # [Suc k..<Suc k + j]" by (simp add: upt_rec)
        then have "disk_at m t = put_sectors28 lba data [k..<k + Suc j] (disk_at m s)"
          using j(2) b5(2) by (simp add: put_sectors28_def)
        moreover have "\<forall>i \<in> {k..<k + Suc j}. lba28 lba i < cap" using j(4) kc by (auto simp: Suc_le_eq le_less)
        ultimately show ?thesis using t j by (intro conjI exI [of _ "Suc j"]) simp_all
      qed
    qed
  qed
qed

lemma ata_read:
  assumes d: "ata_drive io base ctrl head m" and h: "head = 0xE0 \<or> head = 0xF0" and lim: "drive_limit io base m cap"
    and b: "bound_to base ctrl head s" and len: "length data = 512 * unat count"
    and r: "ata_read_sectors io lba count data s = (ok, out, t)"
  shows "length out = length data" "disk_at m t = disk_at m s" "bound_to base ctrl head t"
    "ok \<Longrightarrow> out = sectors28 (disk_at m s) lba [0..<unat count]"
    "ok \<Longrightarrow> count = 0 \<or> unat lba \<le> 0x0FFFFFFF \<and> (\<forall>i < unat count. lba28 lba i < cap)"
proof -
  have n: "0 + unat count \<le> 255" using unat_u8_bound [of count] by simp
  have l: "unat lba \<le> 0x0FFFFFFF" if "\<not> lba > 0x0FFFFFFF" using that by (simp add: word_less_nat_alt)
  have "length out = length data \<and> disk_at m t = disk_at m s \<and> bound_to base ctrl head t \<and>
    (ok \<longrightarrow> out = sectors28 (disk_at m s) lba [0..<unat count] \<and>
      (count = 0 \<or> unat lba \<le> 0x0FFFFFFF \<and> (\<forall>i < unat count. lba28 lba i < cap)))"
  proof (cases "count = 0 \<or> lba > 0x0FFFFFFF")
    case True
    then show ?thesis using r b len by (auto simp: ata_read_sectors_def sectors28_def split: if_splits)
  next
    case False
    then have run: "ata_read_loop io (unat count) 0 lba data s = (ok, out, t)" using r by (simp add: ata_read_sectors_def)
    have "length (sectors28 (disk_at m s) lba [0..<unat count]) = length data" for lba
      using ata_driveD(1) [OF d] len by (simp add: sectors28_def length_concat comp_def SECTOR_def sum_list_triv)
    then show ?thesis
      using read_loop [OF d h l lim b n _ run] False len l by (auto simp: blit_def)
  qed
  then show "length out = length data" "disk_at m t = disk_at m s" "bound_to base ctrl head t"
    "ok \<Longrightarrow> out = sectors28 (disk_at m s) lba [0..<unat count]"
    "ok \<Longrightarrow> count = 0 \<or> unat lba \<le> 0x0FFFFFFF \<and> (\<forall>i < unat count. lba28 lba i < cap)" by blast+
qed

lemma ata_write:
  assumes d: "ata_drive io base ctrl head m" and h: "head = 0xE0 \<or> head = 0xF0" and lim: "drive_limit io base m cap"
    and b: "bound_to base ctrl head s" and len: "length data = 512 * unat count"
    and w: "ata_write_sectors io lba count data s = (ok, t)"
  shows "bound_to base ctrl head t"
    "\<exists>j \<le> unat count. disk_at m t = put_sectors28 lba data [0..<j] (disk_at m s) \<and> (ok \<longrightarrow> j = unat count) \<and>
       (j = 0 \<or> unat lba \<le> 0x0FFFFFFF \<and> (\<forall>i < j. lba28 lba i < cap))"
proof -
  have n: "0 + unat count \<le> 255" using unat_u8_bound [of count] by simp
  have l: "unat lba \<le> 0x0FFFFFFF" if "\<not> lba > 0x0FFFFFFF" using that by (simp add: word_less_nat_alt)
  have "bound_to base ctrl head t \<and>
    (\<exists>j \<le> unat count. disk_at m t = put_sectors28 lba data [0..<j] (disk_at m s) \<and> (ok \<longrightarrow> j = unat count) \<and>
       (j = 0 \<or> unat lba \<le> 0x0FFFFFFF \<and> (\<forall>i < j. lba28 lba i < cap)))"
  proof (cases "count = 0 \<or> lba > 0x0FFFFFFF")
    case True
    then show ?thesis using w b by (auto simp: ata_write_sectors_def put_sectors28_def split: if_splits intro!: exI [of _ 0])
  next
    case False
    then have run: "ata_write_loop io (unat count) 0 lba data s = (ok, t)" using w by (simp add: ata_write_sectors_def)
    have "512 * (0 + unat count) \<le> length data" using len by simp
    from write_loop [OF d h l lim b n this run] False obtain j where j: "j \<le> unat count"
      "disk_at m t = put_sectors28 lba data [0..<j] (disk_at m s)" "ok \<longrightarrow> j = unat count" "\<forall>i \<in> {0..<j}. lba28 lba i < cap"
      and t: "bound_to base ctrl head t" by auto
    then show ?thesis using l False by (intro conjI exI [of _ j]) auto
  qed
  then show "bound_to base ctrl head t"
    "\<exists>j \<le> unat count. disk_at m t = put_sectors28 lba data [0..<j] (disk_at m s) \<and> (ok \<longrightarrow> j = unat count) \<and>
       (j = 0 \<or> unat lba \<le> 0x0FFFFFFF \<and> (\<forall>i < j. lba28 lba i < cap))" by blast+
qed

lemma ata_init_head:
  assumes "ata_init (Some a) s0 = (True, s)" and "bound_to base ctrl head s"
  shows "head = 0xE0 \<or> head = 0xF0"
  using assms by (auto simp: ata_init_def bound_to_def Let_def split: if_splits)

text \<open>On any drive that follows the standard, once \<open>ata_init\<close> has bound it, a transfer always returns (its
  waits are bounded) and leaves the driver bound. A successful read fills the buffer with the sectors asked
  for and a failed one changes nothing on the disk; a write stores the sectors in order, all of them when it
  succeeds and a prefix when it fails. Sector numbers are taken modulo \<open>2 ^ 28\<close>: only the first sector
  of a transfer is checked against the task file's 28 bits.\<close>

theorem ata_transfers_sectors:
  assumes "ata_drive io base ctrl head m" and "ata_init (Some a) s0 = (True, s)" and "bound_to base ctrl head s"
    and "length data = 512 * unat count"
  shows "(case ata_read_sectors io lba count data s of (ok, out, t) \<Rightarrow>
       length out = length data \<and> disk_at m t = disk_at m s \<and> bound_to base ctrl head t \<and>
       (ok \<longrightarrow> out = sectors28 (disk_at m s) lba [0..<unat count])) \<and>
    (case ata_write_sectors io lba count data s of (ok, t) \<Rightarrow> bound_to base ctrl head t \<and>
       (\<exists>j \<le> unat count. disk_at m t = put_sectors28 lba data [0..<j] (disk_at m s) \<and> (ok \<longrightarrow> j = unat count)))"
proof -
  note h = ata_init_head [OF assms(2,3)]
  obtain ok out t where r: "ata_read_sectors io lba count data s = (ok, out, t)" by (metis prod_cases3)
  obtain okw u where w: "ata_write_sectors io lba count data s = (okw, u)" by fastforce
  show ?thesis
    using ata_read [OF assms(1) h no_drive_limit assms(3,4) r] ata_write [OF assms(1) h no_drive_limit assms(3,4) w]
    unfolding r w by auto
qed

lemma lba28_wraps: "lba28 0x0FFFFFFF 1 = 0"
  by (simp add: lba28_def)

subsection \<open>The disk of the block layer\<close>

text \<open>The function pointers \<open>block_driver_probe_ata\<close> stores, with the variables of the driver they use.\<close>

definition ata_block :: "'d ports \<Rightarrow> 'd ata_state \<Rightarrow> 'd BlockDevice" where
  "ata_block io a = \<lparr>backend = BLOCK_BACKEND_ATA_PIO,
     read_sectors_fn = Some (\<lambda>lba count out d. case ata_read_sectors io lba count out (a\<lparr>ata_device := d\<rparr>) of
       (ok, out, t) \<Rightarrow> (ok, out, ata_device t)),
     write_sectors_fn = Some (\<lambda>lba count data d. case ata_write_sectors io lba count data (a\<lparr>ata_device := d\<rparr>) of
       (ok, t) \<Rightarrow> (ok, ata_device t))\<rparr>"

lemma lba28_no_wrap:
  assumes "unat lba \<le> 0x0FFFFFFF" and "\<forall>i < n. lba28 lba i < cap" and "cap < 2 ^ 28" and "i < n"
  shows "lba28 lba i = unat lba + i"
proof (rule ccontr)
  assume "lba28 lba i \<noteq> unat lba + i"
  then have "2 ^ 28 \<le> unat lba + i" by (metis lba28_def mod_less not_le)
  then have "0x0FFFFFFF - unat lba < n" using assms(4) by simp
  then have "lba28 lba (0x0FFFFFFF - unat lba) < cap" using assms(2) by blast
  then show False using assms(1,3) by (simp add: lba28_def)
qed

lemma sectors28_sectors:
  "\<forall>i < n. lba28 lba i = unat lba + i \<Longrightarrow> sectors28 D lba [0..<n] = concat (map D [unat lba..<unat lba + n])"
  by (induction n) (simp_all add: sectors28_def)

lemma put_sectors28_at:
  assumes "\<forall>i < j. lba28 lba i = unat lba + i"
  shows "put_sectors28 lba data [0..<j] D l =
    (if unat lba \<le> l \<and> l < unat lba + j then take 512 (drop (512 * (l - unat lba)) data) else D l)"
  using assms by (induction j) (auto simp: put_sectors28_def not_less less_Suc_eq)

lemma concat_sectors: "concat (map (\<lambda>i. take 512 (drop (512 * i) data)) [0..<n]) = take (512 * n) data"
proof (induction n)
  case (Suc n)
  have "take (512 * n + 512) data = take (512 * n) data @ take 512 (drop (512 * n) data)" by (rule take_add)
  then show ?case using Suc by (simp add: add.commute)
qed simp

lemma ata_block_law:
  assumes d: "ata_drive io base ctrl head m" and lim: "drive_limit io base m cap" and cap: "cap < 2 ^ 28"
    and "ata_init (Some a) s0 = (True, s)" and b: "bound_to base ctrl head s"
  shows "disk_law (ata_block io s) (disk_of m)"
proof -
  note h = ata_init_head [OF assms(4,5)]
  have b': "bound_to base ctrl head (s\<lparr>ata_device := x\<rparr>)" for x using b by (simp add: bound_to_def)
  show ?thesis unfolding disk_law_def
  proof (intro conjI allI impI)
    show "length (disk_of m x l) = SECTOR" for x l using ata_driveD(1) [OF d] .
  next
    fix lba :: u32 and count :: u8 and out out' x x' ok
    assume "block_read_sectors (ata_block io s) lba count out x = (ok, out', x')" and len: "length out = unat count * SECTOR"
    then obtain t where r: "ata_read_sectors io lba count out (s\<lparr>ata_device := x\<rparr>) = (ok, out', t)" and t: "x' = ata_device t"
      by (auto simp: block_read_sectors_def ata_block_def split: prod.splits)
    have len': "length out = 512 * unat count" using len by (simp add: SECTOR_def)
    note R = ata_read [OF d h lim b' len' r]
    show "length out' = length out" "disk_of m x' = disk_of m x" using R(1,2) by (simp_all add: t)
    assume ok
    have "\<forall>i < unat count. lba28 lba i = unat lba + i"
      using R(5) [OF \<open>ok\<close>] lba28_no_wrap [OF _ _ cap, of lba "unat count"] by auto
    then show "out' = sectors (disk_of m) x (unat lba) (unat count)"
      using R(4) [OF \<open>ok\<close>] by (simp add: sectors_def sectors28_sectors)
  next
    fix lba :: u32 and count :: u8 and data x x' ok
    assume "block_write_sectors (ata_block io s) lba count data x = (ok, x')" and len: "length data = unat count * SECTOR"
    then obtain t where w: "ata_write_sectors io lba count data (s\<lparr>ata_device := x\<rparr>) = (ok, t)" and t: "x' = ata_device t"
      by (auto simp: block_write_sectors_def ata_block_def split: prod.splits)
    have len': "length data = 512 * unat count" using len by (simp add: SECTOR_def)
    from ata_write(2) [OF d h lim b' len' w] obtain j where j: "j \<le> unat count"
      "disk_of m x' = put_sectors28 lba data [0..<j] (disk_of m x)" "ok \<longrightarrow> j = unat count"
      "j = 0 \<or> unat lba \<le> 0x0FFFFFFF \<and> (\<forall>i < j. lba28 lba i < cap)"
      by (auto simp: t)
    have nw: "\<forall>i < j. lba28 lba i = unat lba + i"
      using j(4) lba28_no_wrap [OF _ _ cap, of lba j] by auto
    note at = put_sectors28_at [OF nw, of data "disk_of m x"]
    show "disk_of m x' l = disk_of m x l" if "l < unat lba \<or> unat lba + unat count \<le> l" for l
      using that j(1) by (auto simp: j(2) at)
    assume ok
    then have jc: "unat count = j" using j(3) by simp
    have "map (disk_of m x') [unat lba..<unat lba + unat count] = map (\<lambda>i. take 512 (drop (512 * i) data)) [0..<unat count]"
      by (rule nth_equalityI) (simp_all add: j(2) at jc)
    then show "sectors (disk_of m) x' (unat lba) (unat count) = data"
      by (simp only: sectors_def concat_sectors) (simp add: len')
  qed
qed


subsection \<open>A drive\<close>

text \<open>A drive of a thousand sectors that is always ready, on the primary channel; other ports read as a floating bus.\<close>

record demo_drive =
  dd_regs :: ata_regs
  dd_phase :: ata_phase
  dd_disk :: ramdisk

definition demo_ata_ports :: "demo_drive ports" where
  "demo_ata_ports = \<lparr>
     port_in8 = (\<lambda>p d. if p = 0x1F7 then
          (if sector_number (dd_regs d) < 1000 then (0x48, d\<lparr>dd_phase := start_data (dd_phase d)\<rparr>) else (0x41, d)) else (0xFF, d)),
     port_in16 = (\<lambda>p d. case dd_phase d of
        Read_data n \<Rightarrow> (let b = ram_view (dd_disk d) (sector_number (dd_regs d)) in of_le16 (b ! (2 * n)) (b ! (2 * n + 1)),
                        d\<lparr>dd_phase := Read_data (Suc n)\<rparr>)
      | _ \<Rightarrow> (0xFFFF, d)),
     port_in32 = (\<lambda>p d. (0, d)),
     port_out8 = (\<lambda>p v d. if p = 0x1F7 then d\<lparr>dd_phase := (if v = 0x20 then Read_pending else if v = 0x30 then Write_pending else No_data)\<rparr>
        else if p \<in> {0x1F2, 0x1F3, 0x1F4, 0x1F5, 0x1F6} then d\<lparr>dd_regs := set_reg (p - 0x1F0) v (dd_regs d)\<rparr> else d),
     port_out16 = (\<lambda>p w d. case dd_phase d of
        Write_data ws \<Rightarrow> d\<lparr>dd_phase := Write_data (ws @ [w]),
          dd_disk := (if length ws = 255 then (dd_disk d)(sector_number (dd_regs d) := concat (map le16 (ws @ [w]))) else dd_disk d)\<rparr>
      | _ \<Rightarrow> d),
     port_out32 = (\<lambda>p v d. d)\<rparr>"

definition demo_ata_model :: "demo_drive ata_model" where
  "demo_ata_model = \<lparr>regs_of = dd_regs, phase_of = dd_phase, free_of = (\<lambda>_. True), disk_of = (\<lambda>d. ram_view (dd_disk d))\<rparr>"

lemma demo_ata_drive: "ata_drive demo_ata_ports 0x1F0 0x3F6 head demo_ata_model"
proof -
  have len: "length (concat (map le16 ws)) = 2 * length ws" for ws :: "u16 list" by (induction ws) simp_all
  have "drive_writes demo_ata_ports 0x1F0 demo_ata_model"
    unfolding drive_writes_def
  proof (intro allI impI)
    fix d ws w assume a: "phase_of demo_ata_model d = Write_data ws \<and> length ws < 256"
    have "ram_view ((dd_disk d)(l := concat (map le16 (ws @ [w])))) = (ram_view (dd_disk d))(l := concat (map le16 (ws @ [w])))"
      if "length ws = 255" for l
      using that by (auto simp: ram_view_def fun_eq_iff SECTOR_def len simp del: map_append concat_append)
    then show "let d' = port_out16 demo_ata_ports 0x1F0 w d in regs_of demo_ata_model d' = regs_of demo_ata_model d \<and>
        phase_of demo_ata_model d' = Write_data (ws @ [w]) \<and>
        disk_of demo_ata_model d' = (if length ws < 255 then disk_of demo_ata_model d
          else (disk_of demo_ata_model d)(sector_number (regs_of demo_ata_model d) := concat (map le16 (ws @ [w]))))"
      using a by (simp add: demo_ata_ports_def demo_ata_model_def)
  qed
  moreover have "drive_status demo_ata_ports 0x1F0 demo_ata_model"
    by (auto simp: drive_status_def demo_ata_ports_def demo_ata_model_def quiet_port_def status_drq_def
      status_error_def ATA_STATUS_BSY_def ATA_STATUS_DRQ_def ATA_STATUS_ERR_def ATA_STATUS_DF_def)
  moreover have "drive_reads demo_ata_ports 0x1F0 demo_ata_model"
    by (auto simp: drive_reads_def demo_ata_ports_def demo_ata_model_def quiet_port_def Let_def split: ata_phase.splits)
  ultimately show ?thesis
    by (auto simp: ata_drive_def drive_alt_status_def drive_registers_def drive_command_def demo_ata_ports_def
      demo_ata_model_def quiet_port_def Let_def)
qed

lemma demo_drive_limit: "drive_limit demo_ata_ports 0x1F0 demo_ata_model 1000"
  by (auto simp: drive_limit_def demo_ata_ports_def demo_ata_model_def status_error_def ATA_STATUS_ERR_def ATA_STATUS_DF_def)


theorem ata_transfers_sectors_witness:
  "\<exists>s. ata_init (Some \<lparr>channel = 0, drive = 0\<rparr>)
       \<lparr>g_ata_io_base = 0x170, g_ata_ctrl_base = 0x376, g_ata_drive_head = 0xF0,
        ata_device = \<lparr>dd_regs = \<lparr>reg_count = 0, reg_low = 0, reg_mid = 0, reg_high = 0, reg_head = 0\<rparr>,
          dd_phase = No_data, dd_disk = (\<lambda>_. [])\<rparr>\<rparr> = (True, s) \<and>
     (case ata_write_sectors demo_ata_ports 7 1 (replicate 512 5) s of (ok, t) \<Rightarrow>
        \<exists>j \<le> 1. disk_at demo_ata_model t = put_sectors28 7 (replicate 512 5) [0..<j] (disk_at demo_ata_model s))"
proof -
  let ?s = "\<lparr>g_ata_io_base = 0x1F0, g_ata_ctrl_base = 0x3F6, g_ata_drive_head = 0xE0,
        ata_device = \<lparr>dd_regs = \<lparr>reg_count = 0, reg_low = 0, reg_mid = 0, reg_high = 0, reg_head = 0\<rparr>,
          dd_phase = No_data, dd_disk = (\<lambda>_. [])\<rparr>\<rparr>"
  have i: "ata_init (Some \<lparr>channel = 0, drive = 0\<rparr>)
       \<lparr>g_ata_io_base = 0x170, g_ata_ctrl_base = 0x376, g_ata_drive_head = 0xF0,
        ata_device = \<lparr>dd_regs = \<lparr>reg_count = 0, reg_low = 0, reg_mid = 0, reg_high = 0, reg_head = 0\<rparr>,
          dd_phase = No_data, dd_disk = (\<lambda>_. [])\<rparr>\<rparr> = (True, ?s)"
    by (simp add: ata_init_def ATA_PRIMARY_IO_BASE_def ATA_PRIMARY_CTRL_BASE_def)
  have "bound_to 0x1F0 0x3F6 0xE0 ?s" by (simp add: bound_to_def)
  from ata_transfers_sectors [OF demo_ata_drive i this, of "replicate 512 5" 1 7] i show ?thesis
    by (auto split: prod.splits)
qed

end
