(* ===== verification/Ahci.thy ===== *)
theory Ahci
  imports Pci Block PagingBoot
begin

text \<open>
  \<open>src/kernel/ahci.c\<close>: one SATA port driven through a single command slot.

  The controller is not in the repository: its registers and the memory it shares with the processor are
  the state \<open>'d\<close>, reached through the parameter \<open>machine\<close>; configuration space goes through \<open>ports\<close>.
  Addresses are physical ones, and a structure of the code is its bytes at its address.
\<close>

subsection \<open>Definitions\<close>

record 'd machine =
  mm_read32 :: "u64 \<Rightarrow> 'd \<Rightarrow> u32 \<times> 'd"
  mm_write32 :: "u64 \<Rightarrow> u32 \<Rightarrow> 'd \<Rightarrow> 'd"
  mem_write8 :: "u64 \<Rightarrow> u8 \<Rightarrow> 'd \<Rightarrow> 'd"
  mem_read8 :: "u64 \<Rightarrow> 'd \<Rightarrow> u8"

definition AHCI_PCI_CLASS_MASS_STORAGE :: u8 where "AHCI_PCI_CLASS_MASS_STORAGE = 1"
definition AHCI_PCI_SUBCLASS_SATA :: u8 where "AHCI_PCI_SUBCLASS_SATA = 6"
definition AHCI_PCI_PROGIF_AHCI :: u8 where "AHCI_PCI_PROGIF_AHCI = 1"
definition AHCI_PCI_COMMAND_MEMORY_SPACE :: u16 where "AHCI_PCI_COMMAND_MEMORY_SPACE = 2"
definition AHCI_PCI_COMMAND_BUS_MASTER :: u16 where "AHCI_PCI_COMMAND_BUS_MASTER = 4"
definition AHCI_BAR_INDEX :: u8 where "AHCI_BAR_INDEX = 5"
definition AHCI_MMIO_WINDOW_SIZE :: u64 where "AHCI_MMIO_WINDOW_SIZE = 0x2000"
definition AHCI_PORT_COUNT :: u8 where "AHCI_PORT_COUNT = 32"
definition HBA_GHC_AE :: u32 where "HBA_GHC_AE = 0x80000000"
definition HBA_PXIS_TFES :: u32 where "HBA_PXIS_TFES = 0x40000000"
definition HBA_PXCMD_ST :: u32 where "HBA_PXCMD_ST = 0x01"
definition HBA_PXCMD_SUD :: u32 where "HBA_PXCMD_SUD = 0x02"
definition HBA_PXCMD_FRE :: u32 where "HBA_PXCMD_FRE = 0x10"
definition HBA_PXCMD_FR :: u32 where "HBA_PXCMD_FR = 0x4000"
definition HBA_PXCMD_CR :: u32 where "HBA_PXCMD_CR = 0x8000"
definition HBA_PXTFD_DRQ :: u32 where "HBA_PXTFD_DRQ = 0x08"
definition HBA_PXTFD_BSY :: u32 where "HBA_PXTFD_BSY = 0x80"
definition HBA_PXSSTS_DET_PRESENT :: u8 where "HBA_PXSSTS_DET_PRESENT = 3"
definition HBA_PXSSTS_IPM_ACTIVE :: u8 where "HBA_PXSSTS_IPM_ACTIVE = 1"
definition SATA_SIG_ATA :: u32 where "SATA_SIG_ATA = 0x00000101"
definition FIS_TYPE_REG_H2D :: u8 where "FIS_TYPE_REG_H2D = 0x27"
definition ATA_CMD_READ_DMA_EXT :: u8 where "ATA_CMD_READ_DMA_EXT = 0x25"
definition ATA_CMD_WRITE_DMA_EXT :: u8 where "ATA_CMD_WRITE_DMA_EXT = 0x35"
definition AHCI_MAX_PRDT_BYTES :: u32 where "AHCI_MAX_PRDT_BYTES = 4 * 1024 * 1024"
definition AHCI_SPINS :: nat where "AHCI_SPINS = 1000000"

text \<open>Offsets in \<open>HbaMemory\<close> and \<open>HbaPort\<close>.\<close>

definition HBA_GHC :: u64 where "HBA_GHC = 0x04"
definition HBA_PI :: u64 where "HBA_PI = 0x0C"
definition HBA_PORTS :: u64 where "HBA_PORTS = 0x100"
definition HBA_PORT_SIZE :: u64 where "HBA_PORT_SIZE = 0x80"
definition PX_CLB :: u64 where "PX_CLB = 0x00"
definition PX_CLBU :: u64 where "PX_CLBU = 0x04"
definition PX_FB :: u64 where "PX_FB = 0x08"
definition PX_FBU :: u64 where "PX_FBU = 0x0C"
definition PX_IS :: u64 where "PX_IS = 0x10"
definition PX_IE :: u64 where "PX_IE = 0x14"
definition PX_CMD :: u64 where "PX_CMD = 0x18"
definition PX_TFD :: u64 where "PX_TFD = 0x20"
definition PX_SIG :: u64 where "PX_SIG = 0x24"
definition PX_SSTS :: u64 where "PX_SSTS = 0x28"
definition PX_SERR :: u64 where "PX_SERR = 0x30"
definition PX_SACT :: u64 where "PX_SACT = 0x34"
definition PX_CI :: u64 where "PX_CI = 0x38"

record AhciDeviceAddress =
  controller :: PciAddress
  ahci_port :: u8

text \<open>NULL pointers are 0.\<close>

record 'd ahci_state =
  g_hba :: u64
  g_port :: u64
  g_command_list :: u64
  g_received_fis :: u64
  g_command_table :: u64
  ahci_pci :: "'d pci_state"
  ahci_paging :: paging_state

definition hba_read :: "'d machine \<Rightarrow> u64 \<Rightarrow> 'd ahci_state \<Rightarrow> u32 \<times> 'd ahci_state" where
  "hba_read mc at s = (case mm_read32 mc at (pci_bus (ahci_pci s)) of (v, d) \<Rightarrow>
     (v, s\<lparr>ahci_pci := (ahci_pci s)\<lparr>pci_bus := d\<rparr>\<rparr>))"

definition hba_write :: "'d machine \<Rightarrow> u64 \<Rightarrow> u32 \<Rightarrow> 'd ahci_state \<Rightarrow> 'd ahci_state" where
  "hba_write mc at v s = s\<lparr>ahci_pci := (ahci_pci s)\<lparr>pci_bus := mm_write32 mc at v (pci_bus (ahci_pci s))\<rparr>\<rparr>"

definition poke :: "'d machine \<Rightarrow> u64 \<Rightarrow> bytes \<Rightarrow> 'd ahci_state \<Rightarrow> 'd ahci_state" where
  "poke mc at bs s = fold (\<lambda>i s. s\<lparr>ahci_pci := (ahci_pci s)\<lparr>pci_bus :=
     mem_write8 mc (at + of_nat i) (bs ! i) (pci_bus (ahci_pci s))\<rparr>\<rparr>) [0..<length bs] s"

fun wait_clear_loop :: "'d machine \<Rightarrow> nat \<Rightarrow> u64 \<Rightarrow> u32 \<Rightarrow> 'd ahci_state \<Rightarrow> bool \<times> 'd ahci_state" where
  "wait_clear_loop mc 0 at bits s = (False, s)"
| "wait_clear_loop mc (Suc n) at bits s =
     (case hba_read mc at s of (v, s) \<Rightarrow> if v AND bits = 0 then (True, s) else wait_clear_loop mc n at bits s)"

definition ahci_wait_port_mask_clear :: "'d machine \<Rightarrow> u64 \<Rightarrow> u32 \<Rightarrow> 'd ahci_state \<Rightarrow> bool \<times> 'd ahci_state" where
  "ahci_wait_port_mask_clear mc port bits s = wait_clear_loop mc AHCI_SPINS (port + PX_CMD) bits s"

definition ahci_wait_port_ready :: "'d machine \<Rightarrow> u64 \<Rightarrow> 'd ahci_state \<Rightarrow> bool \<times> 'd ahci_state" where
  "ahci_wait_port_ready mc port s = wait_clear_loop mc AHCI_SPINS (port + PX_TFD) (HBA_PXTFD_BSY OR HBA_PXTFD_DRQ) s"

definition hba_update :: "'d machine \<Rightarrow> u64 \<Rightarrow> (u32 \<Rightarrow> u32) \<Rightarrow> 'd ahci_state \<Rightarrow> 'd ahci_state" where
  "hba_update mc at f s = (case hba_read mc at s of (v, s) \<Rightarrow> hba_write mc at (f v) s)"

definition ahci_stop_port :: "'d machine \<Rightarrow> u64 \<Rightarrow> 'd ahci_state \<Rightarrow> 'd ahci_state" where
  "ahci_stop_port mc port s =
     (let s = hba_update mc (port + PX_CMD) (\<lambda>v. v AND NOT HBA_PXCMD_ST) s;
          s = hba_update mc (port + PX_CMD) (\<lambda>v. v AND NOT HBA_PXCMD_FRE) s
      in snd (ahci_wait_port_mask_clear mc port (HBA_PXCMD_FR OR HBA_PXCMD_CR) s))"

definition ahci_start_port :: "'d machine \<Rightarrow> u64 \<Rightarrow> 'd ahci_state \<Rightarrow> 'd ahci_state" where
  "ahci_start_port mc port s =
     (let s = snd (ahci_wait_port_mask_clear mc port HBA_PXCMD_CR s);
          s = hba_update mc (port + PX_CMD) (\<lambda>v. v OR (HBA_PXCMD_FRE OR HBA_PXCMD_SUD)) s
      in hba_update mc (port + PX_CMD) (\<lambda>v. v OR HBA_PXCMD_ST) s)"

definition ahci_port_has_sata_drive :: "'d machine \<Rightarrow> u64 \<Rightarrow> 'd ahci_state \<Rightarrow> bool \<times> 'd ahci_state" where
  "ahci_port_has_sata_drive mc port s =
     (case hba_read mc (port + PX_SSTS) s of (ssts, s) \<Rightarrow>
        let det = (ucast (ssts AND 0x0F) :: u8); ipm = (ucast (drop_bit 8 ssts AND 0x0F) :: u8) in
        if det \<noteq> HBA_PXSSTS_DET_PRESENT \<or> ipm \<noteq> HBA_PXSSTS_IPM_ACTIVE then (False, s)
        else case hba_read mc (port + PX_SIG) s of (sig, s) \<Rightarrow> (sig = SATA_SIG_ATA, s))"

text \<open>A page for one of the three structures, unless it has one.\<close>

definition ahci_page :: "('d ahci_state \<Rightarrow> u64) \<Rightarrow> (u64 \<Rightarrow> 'd ahci_state \<Rightarrow> 'd ahci_state) \<Rightarrow> 'd ahci_state \<Rightarrow> bool \<times> 'd ahci_state" where
  "ahci_page get put s =
     (if get s \<noteq> 0 then (True, s)
      else case alloc_pages 1 (pg_mem (ahci_paging s)) of (p, m) \<Rightarrow>
        (p \<noteq> 0, put p (s\<lparr>ahci_paging := (ahci_paging s)\<lparr>pg_mem := m\<rparr>\<rparr>)))"

definition ahci_prepare_memory :: "'d machine \<Rightarrow> 'd ahci_state \<Rightarrow> bool \<times> 'd ahci_state" where
  "ahci_prepare_memory mc s =
     (case ahci_page g_command_list (\<lambda>p s. s\<lparr>g_command_list := p\<rparr>) s of (ok, s) \<Rightarrow>
        if \<not> ok then (False, s)
        else case ahci_page g_received_fis (\<lambda>p s. s\<lparr>g_received_fis := p\<rparr>) s of (ok, s) \<Rightarrow>
          if \<not> ok then (False, s)
          else case ahci_page g_command_table (\<lambda>p s. s\<lparr>g_command_table := p\<rparr>) s of (ok, s) \<Rightarrow>
            if \<not> ok then (False, s)
            else let s = poke mc (g_command_list s) (replicate 4096 0) s;
                     s = poke mc (g_received_fis s) (replicate 4096 0) s
                 in (True, poke mc (g_command_table s) (replicate 4096 0) s))"

text \<open>The first twelve bytes of slot 0's \<open>HbaCommandHeader\<close>: flags, flags2, prdtl and prdbc, then ctba and ctbau.\<close>

definition header_start :: "bool \<Rightarrow> bytes" where
  "header_start write_dir = [5 OR (if write_dir then 0x40 else 0), 0] @ le16 1 @ le32 0"

definition ahci_configure_port :: "'d machine \<Rightarrow> u64 \<Rightarrow> 'd ahci_state \<Rightarrow> bool \<times> 'd ahci_state" where
  "ahci_configure_port mc port s =
     (case ahci_prepare_memory mc s of (ok, s) \<Rightarrow>
        if \<not> ok then (False, s)
        else
          let s = ahci_stop_port mc port s;
              s = hba_write mc (port + PX_CLB) (ucast (g_command_list s)) s;
              s = hba_write mc (port + PX_CLBU) 0 s;
              s = hba_write mc (port + PX_FB) (ucast (g_received_fis s)) s;
              s = hba_write mc (port + PX_FBU) 0 s;
              s = hba_write mc (port + PX_IS) 0xFFFFFFFF s;
              s = hba_write mc (port + PX_IE) 0 s;
              s = hba_write mc (port + PX_SERR) 0xFFFFFFFF s;
              s = hba_write mc (port + PX_SACT) 0 s;
              s = hba_write mc (port + PX_CI) 0 s;
              s = poke mc (g_command_list s) (header_start False @ le32 (ucast (g_command_table s)) @ le32 0) s;
              s = ahci_start_port mc port s
          in ahci_wait_port_ready mc port s)"

definition command_fis :: "u32 \<Rightarrow> u8 \<Rightarrow> bool \<Rightarrow> bytes" where
  "command_fis lba count write_dir =
     [FIS_TYPE_REG_H2D, 0x80, if write_dir then ATA_CMD_WRITE_DMA_EXT else ATA_CMD_READ_DMA_EXT, 0,
      ucast (lba AND 0xFF), ucast (drop_bit 8 lba AND 0xFF), ucast (drop_bit 16 lba AND 0xFF), 0x40,
      ucast (drop_bit 24 lba AND 0xFF), 0, 0, 0, count, 0, 0, 0]"

text \<open>The \<open>HbaCommandTable\<close> of 144 bytes, cleared first: the FIS and the one PRDT entry.\<close>

definition command_table :: "u32 \<Rightarrow> u8 \<Rightarrow> u64 \<Rightarrow> bool \<Rightarrow> bytes" where
  "command_table lba count buffer write_dir =
     blit (blit (replicate 144 0) 0 (command_fis lba count write_dir)) 128
       (le32 (ucast buffer) @ le32 0 @ le32 0 @ le32 (ucast count * 512 - 1))"

fun ahci_complete_loop :: "'d machine \<Rightarrow> nat \<Rightarrow> 'd ahci_state \<Rightarrow> bool option \<times> 'd ahci_state" where
  "ahci_complete_loop mc 0 s = (None, s)"
| "ahci_complete_loop mc (Suc n) s =
     (case hba_read mc (g_port s + PX_CI) s of (ci, s) \<Rightarrow>
        if ci AND 1 = 0 then (None, s)
        else case hba_read mc (g_port s + PX_IS) s of (is_reg, s) \<Rightarrow>
          if is_reg AND HBA_PXIS_TFES \<noteq> 0 then (Some False, s) else ahci_complete_loop mc n s)"

definition ahci_issue_io :: "'d machine \<Rightarrow> u32 \<Rightarrow> u8 \<Rightarrow> u64 \<Rightarrow> bool \<Rightarrow> 'd ahci_state \<Rightarrow> bool \<times> 'd ahci_state" where
  "ahci_issue_io mc lba count buffer write_dir s =
     (if g_port s = 0 then (False, s)
      else if count = 0 then (True, s)
      else let byte_count = (ucast count :: u32) * 512 in
        if byte_count = 0 \<or> byte_count > AHCI_MAX_PRDT_BYTES then (False, s)
        else if drop_bit 32 buffer \<noteq> 0 then (False, s)
        else case ahci_wait_port_ready mc (g_port s) s of (ready, s) \<Rightarrow>
          if \<not> ready then (False, s)
          else
            let s = poke mc (g_command_table s) (replicate 144 0) s;
                s = poke mc (g_command_list s) (header_start write_dir) s;
                s = poke mc (g_command_table s) (command_table lba count buffer write_dir) s;
                s = hba_write mc (g_port s + PX_IS) 0xFFFFFFFF s;
                s = hba_write mc (g_port s + PX_CI) 1 s
            in case ahci_complete_loop mc AHCI_SPINS s of
                 (Some answer, s) \<Rightarrow> (answer, s)
               | (None, s) \<Rightarrow>
                   (case hba_read mc (g_port s + PX_CI) s of (ci, s) \<Rightarrow>
                      if ci AND 1 \<noteq> 0 then (False, s)
                      else case hba_read mc (g_port s + PX_IS) s of (is_reg, s) \<Rightarrow>
                        (is_reg AND HBA_PXIS_TFES = 0, s)))"

definition run_pci :: "('d pci_state \<Rightarrow> 'a \<times> 'd pci_state) \<Rightarrow> 'd ahci_state \<Rightarrow> 'a \<times> 'd ahci_state" where
  "run_pci f s = (case f (ahci_pci s) of (r, p) \<Rightarrow> (r, s\<lparr>ahci_pci := p\<rparr>))"

text \<open>The rest of \<open>ahci_init\<close>, when the registers are mapped.\<close>

definition ahci_attach :: "'d machine \<Rightarrow> u8 \<Rightarrow> u64 \<Rightarrow> 'd ahci_state \<Rightarrow> bool \<times> 'd ahci_state" where
  "ahci_attach mc port abar_base s =
     (let s = hba_update mc (abar_base + HBA_GHC) (\<lambda>v. v OR HBA_GHC_AE) (s\<lparr>g_hba := abar_base\<rparr>)
      in case hba_read mc (g_hba s + HBA_PI) s of (ports_implemented, s) \<Rightarrow>
        if ports_implemented AND push_bit (unat port) 1 = 0 then (False, s)
        else let s = s\<lparr>g_port := g_hba s + HBA_PORTS + ucast port * HBA_PORT_SIZE\<rparr> in
          case ahci_port_has_sata_drive mc (g_port s) s of (ok, s) \<Rightarrow>
            if \<not> ok then (False, s) else ahci_configure_port mc (g_port s) s)"

text \<open>\<open>None\<close> as for \<open>paging_map_range\<close>, which maps the register window.\<close>

definition ahci_init :: "'d ports \<Rightarrow> 'd machine \<Rightarrow> AhciDeviceAddress option \<Rightarrow> 'd ahci_state \<Rightarrow> (bool \<times> 'd ahci_state) option" where
  "ahci_init io mc device s =
     (case device of
        None \<Rightarrow> Some (False, s)
      | Some dev \<Rightarrow>
          if ahci_port dev \<ge> AHCI_PORT_COUNT then Some (False, s)
          else case run_pci (pci_read_device_info io (Some (controller dev)) True) s of
            (None, s) \<Rightarrow> Some (False, s)
          | (Some info, s) \<Rightarrow>
              if pci_class_code info \<noteq> AHCI_PCI_CLASS_MASS_STORAGE \<or> pci_subclass info \<noteq> AHCI_PCI_SUBCLASS_SATA \<or>
                 pci_prog_if info \<noteq> AHCI_PCI_PROGIF_AHCI then Some (False, s)
              else case run_pci (pci_read_config16 io (Some (controller dev)) 0x04) s of (command, s) \<Rightarrow>
                let command = command OR (AHCI_PCI_COMMAND_MEMORY_SPACE OR AHCI_PCI_COMMAND_BUS_MASTER);
                    s = s\<lparr>ahci_pci := pci_write_config16 io (Some (controller dev)) 0x04 command (ahci_pci s)\<rparr>
                in case run_pci (pci_read_bar64 io (Some (controller dev)) AHCI_BAR_INDEX) s of (abar, s) \<Rightarrow>
                  if abar AND 0x1 \<noteq> 0 then Some (False, s)
                  else let abar_base = abar AND NOT 0x0F in
                    if abar_base < 0x1000 then Some (False, s)
                    else do {
                      (ok, pg) \<leftarrow> paging_map_range abar_base abar_base AHCI_MMIO_WINDOW_SIZE True False (ahci_paging s);
                      let s = s\<lparr>ahci_paging := pg\<rparr>;
                      Some (if \<not> ok then (False, s) else ahci_attach mc (ahci_port dev) abar_base s) })"

definition ahci_read_sectors :: "'d machine \<Rightarrow> u32 \<Rightarrow> u8 \<Rightarrow> u64 \<Rightarrow> 'd ahci_state \<Rightarrow> bool \<times> 'd ahci_state" where
  "ahci_read_sectors mc lba count out s = ahci_issue_io mc lba count out False s"

definition ahci_write_sectors :: "'d machine \<Rightarrow> u32 \<Rightarrow> u8 \<Rightarrow> u64 \<Rightarrow> 'd ahci_state \<Rightarrow> bool \<times> 'd ahci_state" where
  "ahci_write_sectors mc lba count data s = ahci_issue_io mc lba count data True s"

text \<open>The function pointers \<open>block_driver_probe_ahci\<close> stores. The caller's buffer is at the address \<open>dma\<close>: its
  bytes are in memory before the transfer, and those after it are the new ones.\<close>

definition ahci_at :: "'d ahci_state \<Rightarrow> 'd \<Rightarrow> 'd ahci_state" where
  "ahci_at a d = a\<lparr>ahci_pci := (ahci_pci a)\<lparr>pci_bus := d\<rparr>\<rparr>"

definition peek :: "'d machine \<Rightarrow> u64 \<Rightarrow> nat \<Rightarrow> 'd \<Rightarrow> bytes" where
  "peek mc at n d = map (\<lambda>i. mem_read8 mc (at + of_nat i) d) [0..<n]"

definition ahci_block :: "'d machine \<Rightarrow> u64 \<Rightarrow> 'd ahci_state \<Rightarrow> 'd BlockDevice" where
  "ahci_block mc dma a = \<lparr>backend = BLOCK_BACKEND_AHCI,
     read_sectors_fn = Some (\<lambda>lba count out d.
       case ahci_read_sectors mc lba count dma (poke mc dma out (ahci_at a d)) of
         (ok, s) \<Rightarrow> (ok, peek mc dma (length out) (pci_bus (ahci_pci s)), pci_bus (ahci_pci s))),
     write_sectors_fn = Some (\<lambda>lba count data d.
       case ahci_write_sectors mc lba count dma (poke mc dma data (ahci_at a d)) of
         (ok, s) \<Rightarrow> (ok, pci_bus (ahci_pci s)))\<rparr>"


subsection \<open>Initialisation returns\<close>

text \<open>The register window of the controller lies where the page tables can map it.\<close>

definition bars_low :: "'d ports \<Rightarrow> bool" where
  "bars_low io \<longleftrightarrow> (\<forall>a p. unat (fst (pci_read_bar64 io a AHCI_BAR_INDEX p)) < 2 ^ 47)"

lemma paging_map_range_returns:
  assumes "kernel_ok s" and "unat virt + unat bytes \<le> 2 ^ 48" and "unat phys + unat bytes + 8192 \<le> 2 ^ 52"
  shows "\<exists>r. paging_map_range virt phys bytes w x s = Some r"
proof -
  have "space_ok False {} (g_pml4 s) s" using assms(1) by (simp add: kernel_ok_def space_ok_def guarded_def)
  from map_range_in_root_maps [OF this _ assms(2,3), of w x] show ?thesis by (auto simp: paging_map_range_def)
qed

lemma run_pci_paging: "ahci_paging (snd (run_pci f s)) = ahci_paging s"
  by (simp add: run_pci_def split: prod.splits)

lemma ahci_init_returns:
  assumes "kernel_ok (ahci_paging s)" and "bars_low io"
  shows "\<exists>r. ahci_init io mc device s = Some r"
proof -
  have window: "(\<exists>r. paging_map_range (abar AND NOT 0x0F) (abar AND NOT 0x0F) AHCI_MMIO_WINDOW_SIZE True False (ahci_paging s) = Some r) \<and>
      ahci_paging t = ahci_paging u"
    if "run_pci (pci_read_bar64 io a AHCI_BAR_INDEX) u = (abar, t)" for abar a t and u :: "'a ahci_state"
  proof -
    have "abar = fst (pci_read_bar64 io a AHCI_BAR_INDEX (ahci_pci u))" using that by (auto simp: run_pci_def split: prod.splits)
    then have "unat abar < 2 ^ 47" using assms(2) by (simp add: bars_low_def)
    moreover have "unat (abar AND NOT 0x0F) \<le> unat abar" using word_and_le2 [of abar "NOT 0x0F"] by (simp only: word_le_nat_alt)
    ultimately have "\<exists>r. paging_map_range (abar AND NOT 0x0F) (abar AND NOT 0x0F) AHCI_MMIO_WINDOW_SIZE True False (ahci_paging s) = Some r"
      by (intro paging_map_range_returns [OF assms(1)]) (simp_all only: AHCI_MMIO_WINDOW_SIZE_def, simp_all)
    then show ?thesis using run_pci_paging [of "pci_read_bar64 io a AHCI_BAR_INDEX" u] that by simp
  qed
  have keep: "ahci_paging t = ahci_paging u" if "run_pci f u = (x, t)" for f x t and u :: "'a ahci_state"
    using run_pci_paging [of f u] that by simp
  show ?thesis
    unfolding ahci_init_def Let_def
    by (auto split: option.splits prod.splits dest!: keep [of "pci_read_device_info _ _ _"] keep [of "pci_read_config16 _ _ _"] window)
qed

end
