(* ===== verification/Driver.thy ===== *)
theory Driver
  imports Prelude
begin

text \<open>
  \<open>src/kernel/driver.c\<close>: the registry that binds drivers to devices.

  A driver's \<open>match\<close> only looks at the device; its \<open>probe\<close> acts on a state \<open>'s\<close> and may not return
  (\<open>None\<close>). NULL pointers are \<open>None\<close>. The two out-parameters of \<open>driver_core_probe\<close> are its result.
\<close>

definition DRIVER_MAX_REGISTERED :: nat where "DRIVER_MAX_REGISTERED = 16"
definition DRIVER_MAX_DEVICE_PAYLOAD_WORDS :: nat where "DRIVER_MAX_DEVICE_PAYLOAD_WORDS = 4"

datatype DriverBusType = DRIVER_BUS_FIRMWARE | DRIVER_BUS_PCI

datatype DriverDeviceClass = DRIVER_DEVICE_CLASS_BLOCK

record DriverDevice =
  bus_type :: DriverBusType
  class_type :: DriverDeviceClass
  dev_vendor_id :: u16
  dev_device_id :: u16
  dev_class_code :: u8
  dev_subclass :: u8
  dev_prog_if :: u8
  dev_reserved0 :: u8
  payload :: "u32 list"

record 's DriverOps =
  driver_name :: bytes
  driver_match :: "(DriverDevice option \<Rightarrow> bool) option"
  driver_probe :: "(DriverDevice option \<Rightarrow> 's \<Rightarrow> (bool \<times> 's) option) option"

record 's driver_core =
  g_registered :: "'s DriverOps option list"
  g_registered_count :: nat

definition driver_core_reset :: "'s driver_core \<Rightarrow> 's driver_core" where
  "driver_core_reset c = \<lparr>g_registered = fold (\<lambda>i slots. slots[i := None]) [0..<g_registered_count c] (g_registered c),
     g_registered_count = 0\<rparr>"

definition driver_core_register :: "'s DriverOps option \<Rightarrow> 's driver_core \<Rightarrow> bool \<times> 's driver_core" where
  "driver_core_register driver c =
     (case driver of
        None \<Rightarrow> (False, c)
      | Some d \<Rightarrow>
          if driver_match d = None \<or> driver_probe d = None then (False, c)
          else if g_registered_count c \<ge> DRIVER_MAX_REGISTERED then (False, c)
          else (True, c\<lparr>g_registered := (g_registered c)[g_registered_count c := Some d],
                       g_registered_count := g_registered_count c + 1\<rparr>))"

text \<open>The loop over the registered drivers for one device: the driver that is bound, if any.\<close>

fun probe_drivers :: "'s DriverOps option list \<Rightarrow> DriverDevice \<Rightarrow> 's \<Rightarrow> ('s DriverOps option \<times> 's) option" where
  "probe_drivers [] device s = Some (None, s)"
| "probe_drivers (slot # slots) device s =
     (case slot of
        None \<Rightarrow> probe_drivers slots device s
      | Some driver \<Rightarrow>
          if \<not> the (driver_match driver) (Some device) then probe_drivers slots device s
          else do {
            (ok, s) \<leftarrow> the (driver_probe driver) (Some device) s;
            if \<not> ok then probe_drivers slots device s else Some (Some driver, s) })"

fun probe_devices ::
  "'s DriverOps option list \<Rightarrow> DriverDevice list \<Rightarrow> 's \<Rightarrow> (('s DriverOps \<times> DriverDevice) option \<times> 's) option" where
  "probe_devices slots [] s = Some (None, s)"
| "probe_devices slots (device # devices) s = do {
     (bound, s) \<leftarrow> probe_drivers slots device s;
     case bound of None \<Rightarrow> probe_devices slots devices s | Some driver \<Rightarrow> Some (Some (driver, device), s) }"

definition driver_core_probe ::
  "'s driver_core \<Rightarrow> DriverDevice list option \<Rightarrow> nat \<Rightarrow> 's \<Rightarrow>
     (bool \<times> ('s DriverOps \<times> DriverDevice) option \<times> 's) option" where
  "driver_core_probe c devices device_count s =
     (case devices of
        None \<Rightarrow> Some (False, None, s)
      | Some devices \<Rightarrow>
          if device_count = 0 then Some (False, None, s)
          else do {
            (bound, s) \<leftarrow> probe_devices (take (g_registered_count c) (g_registered c)) (take device_count devices) s;
            Some (bound \<noteq> None, bound, s) })"

subsection \<open>Order of the attempts\<close>

text \<open>The attempts the registry makes, in order: device by device, and for one device the matching drivers
  in the order of their registration. The first that succeeds ends the search.\<close>

definition attempts ::
  "'s DriverOps list \<Rightarrow> DriverDevice list \<Rightarrow> ('s DriverOps \<times> DriverDevice) list" where
  "attempts drivers devices =
     concat (map (\<lambda>device. map (\<lambda>driver. (driver, device)) (filter (\<lambda>driver. the (driver_match driver) (Some device)) drivers)) devices)"

fun first_success ::
  "('s DriverOps \<times> DriverDevice) list \<Rightarrow> 's \<Rightarrow> (('s DriverOps \<times> DriverDevice) option \<times> 's) option" where
  "first_success [] s = Some (None, s)"
| "first_success ((driver, device) # rest) s = do {
     (ok, s) \<leftarrow> the (driver_probe driver) (Some device) s;
     if ok then Some (Some (driver, device), s) else first_success rest s }"

lemma first_success_append:
  "first_success (xs @ ys) s = do {
     (bound, s) \<leftarrow> first_success xs s;
     case bound of None \<Rightarrow> first_success ys s | Some b \<Rightarrow> Some (Some b, s) }"
  by (induction xs s rule: first_success.induct) (auto split: Option.bind_splits prod.splits)

lemma probe_drivers_attempts:
  "first_success (map (\<lambda>driver. (driver, device)) (filter (\<lambda>driver. the (driver_match driver) (Some device)) drivers)) s =
   map_option (\<lambda>(bound, s). (map_option (\<lambda>driver. (driver, device)) bound, s)) (probe_drivers (map Some drivers) device s)"
  by (induction drivers arbitrary: s) (auto split: Option.bind_splits prod.splits)

lemma probe_devices_attempts:
  "probe_devices (map Some drivers) devices s = first_success (attempts drivers devices) s"
proof (induction devices arbitrary: s)
  case Nil
  then show ?case by (simp add: attempts_def)
next
  case (Cons device devices)
  have "attempts drivers (device # devices) =
      map (\<lambda>driver. (driver, device)) (filter (\<lambda>driver. the (driver_match driver) (Some device)) drivers) @ attempts drivers devices"
    by (simp add: attempts_def)
  then show ?case
    by (auto simp: first_success_append probe_drivers_attempts Cons split: Option.bind_splits option.splits prod.splits)
qed

lemma length_reset: "length (g_registered (driver_core_reset c)) = length (g_registered c)"
proof -
  have "length (fold (\<lambda>i slots. slots[i := None]) is xs) = length xs" for "is" :: "nat list" and xs :: "'s DriverOps option list"
    by (induction "is" arbitrary: xs) simp_all
  then show ?thesis by (simp add: driver_core_reset_def)
qed

lemma register_two:
  assumes "length (g_registered c) = DRIVER_MAX_REGISTERED"
    and "driver_match d1 \<noteq> None" "driver_probe d1 \<noteq> None" "driver_match d2 \<noteq> None" "driver_probe d2 \<noteq> None"
  shows "\<exists>c1 c2. driver_core_register (Some d1) (driver_core_reset c) = (True, c1) \<and>
    driver_core_register (Some d2) c1 = (True, c2) \<and>
    take (g_registered_count c2) (g_registered c2) = map Some [d1, d2] \<and> length (g_registered c2) = DRIVER_MAX_REGISTERED"
proof -
  obtain x y xs where r: "g_registered (driver_core_reset c) = x # y # xs"
    using length_reset [of c] assms(1)
    by (cases "g_registered (driver_core_reset c)"; cases "tl (g_registered (driver_core_reset c))") (auto simp: DRIVER_MAX_REGISTERED_def)
  have n: "g_registered_count (driver_core_reset c) = 0" by (simp add: driver_core_reset_def)
  have "length xs + 2 = DRIVER_MAX_REGISTERED" using length_reset [of c] assms(1) r by simp
  then show ?thesis
    using assms(2-) r n by (simp add: driver_core_register_def DRIVER_MAX_REGISTERED_def)
qed

end
