(* ===== verification/BlockInit.thy ===== *)
theory BlockInit
  imports Ata Ahci Driver BootInfo
begin

text \<open>
  \<open>block_init\<close> of \<open>src/kernel/block.c\<close>: the boot disk is found from the EFI device path that the loader
  leaves in \<open>BootInfo\<close>, and its driver is bound through the registry.

  A read of a byte outside \<open>boot_device_path\<close> is \<open>None\<close>. Addresses of nodes are offsets in the path.
\<close>

subsection \<open>Device paths\<close>

definition BLOCK_MAX_PCI_PATH_DEPTH :: nat where "BLOCK_MAX_PCI_PATH_DEPTH = 8"
definition DEVICE_PATH_TYPE_HARDWARE :: u8 where "DEVICE_PATH_TYPE_HARDWARE = 0x01"
definition DEVICE_PATH_TYPE_MESSAGING :: u8 where "DEVICE_PATH_TYPE_MESSAGING = 0x03"
definition DEVICE_PATH_TYPE_END :: u8 where "DEVICE_PATH_TYPE_END = 0x7F"
definition DEVICE_PATH_SUBTYPE_PCI :: u8 where "DEVICE_PATH_SUBTYPE_PCI = 0x01"
definition DEVICE_PATH_SUBTYPE_ATAPI :: u8 where "DEVICE_PATH_SUBTYPE_ATAPI = 0x01"
definition DEVICE_PATH_SUBTYPE_SATA :: u8 where "DEVICE_PATH_SUBTYPE_SATA = 0x12"
definition DEVICE_PATH_SUBTYPE_END_ENTIRE :: u8 where "DEVICE_PATH_SUBTYPE_END_ENTIRE = 0xFF"
definition BLOCK_DRIVER_KIND_AHCI :: u32 where "BLOCK_DRIVER_KIND_AHCI = 1"
definition BLOCK_DRIVER_KIND_ATA :: u32 where "BLOCK_DRIVER_KIND_ATA = 2"
definition BLOCK_PAYLOAD_KIND :: nat where "BLOCK_PAYLOAD_KIND = 0"
definition BLOCK_PAYLOAD_0 :: nat where "BLOCK_PAYLOAD_0 = 1"
definition BLOCK_PAYLOAD_1 :: nat where "BLOCK_PAYLOAD_1 = 2"
definition BLOCK_PAYLOAD_2 :: nat where "BLOCK_PAYLOAD_2 = 3"

text \<open>The sizes of \<open>DevicePathNode\<close>, \<open>AtapiDevicePath\<close>, \<open>PciDevicePath\<close> and \<open>SataDevicePath\<close>.\<close>

definition NODE_SIZE :: nat where "NODE_SIZE = 4"
definition ATAPI_SIZE :: nat where "ATAPI_SIZE = 8"
definition PCI_SIZE :: nat where "PCI_SIZE = 6"
definition SATA_SIZE :: nat where "SATA_SIZE = 10"

record DevicePathNode =
  node_type :: u8
  node_subtype :: u8
  node_length :: "u8 \<times> u8"

record BlockPciPathHop =
  hop_device :: u8
  hop_function :: u8

datatype BlockPathParseResult = BLOCK_PATH_PARSE_INVALID | BLOCK_PATH_PARSE_ABSENT | BLOCK_PATH_PARSE_FOUND

definition path_byte :: "bytes \<Rightarrow> nat \<Rightarrow> u8 option" where
  "path_byte p i = (if i < length p then Some (p ! i) else None)"

definition path_u16 :: "bytes \<Rightarrow> nat \<Rightarrow> u16 option" where
  "path_u16 p i = do { b0 \<leftarrow> path_byte p i; b1 \<leftarrow> path_byte p (i + 1); Some (of_le16 b0 b1) }"

definition device_path_node :: "bytes \<Rightarrow> nat \<Rightarrow> DevicePathNode option" where
  "device_path_node p i = do {
     t \<leftarrow> path_byte p i; st \<leftarrow> path_byte p (i + 1); l0 \<leftarrow> path_byte p (i + 2); l1 \<leftarrow> path_byte p (i + 3);
     Some \<lparr>node_type = t, node_subtype = st, node_length = (l0, l1)\<rparr> }"

definition device_path_length :: "DevicePathNode \<Rightarrow> u16" where
  "device_path_length n = of_le16 (fst (node_length n)) (snd (node_length n))"

definition device_path_is_end :: "DevicePathNode \<Rightarrow> bool" where
  "device_path_is_end n \<longleftrightarrow> node_type n = DEVICE_PATH_TYPE_END \<and> node_subtype n = DEVICE_PATH_SUBTYPE_END_ENTIRE"

definition next_device_path_node :: "nat \<Rightarrow> DevicePathNode \<Rightarrow> nat" where
  "next_device_path_node i n = i + unat (device_path_length n)"

text \<open>The two parsers walk the path in the same way: a header inside the path, a length that holds the header
  and stays in the path, and no end node.\<close>

datatype 'a path_step = Bad_path | End_of_path | At_node 'a

definition node_step :: "bytes \<Rightarrow> nat \<Rightarrow> nat \<Rightarrow> DevicePathNode path_step option" where
  "node_step p stop i =
     (if \<not> (i + NODE_SIZE \<le> stop \<and> i < stop) then Some End_of_path
      else do {
        n \<leftarrow> device_path_node p i;
        if unat (device_path_length n) < NODE_SIZE then Some Bad_path
        else if i + unat (device_path_length n) > stop then Some Bad_path
        else if device_path_is_end n then Some End_of_path else Some (At_node n) })"

lemma node_step_At:
  assumes "node_step p stop i = Some (At_node n)"
  shows "i < next_device_path_node i n" "next_device_path_node i n \<le> stop" "stop - next_device_path_node i n < stop - i"
    "device_path_node p i = Some n" "\<not> device_path_is_end n"
  using assms by (auto simp: node_step_def next_device_path_node_def NODE_SIZE_def split: if_splits Option.bind_splits)

definition is_atapi :: "DevicePathNode \<Rightarrow> bool" where
  "is_atapi n \<longleftrightarrow> node_type n = DEVICE_PATH_TYPE_MESSAGING \<and> node_subtype n = DEVICE_PATH_SUBTYPE_ATAPI \<and>
     unat (device_path_length n) \<ge> ATAPI_SIZE"

function ata_path_loop :: "bytes \<Rightarrow> nat \<Rightarrow> nat \<Rightarrow> (BlockPathParseResult \<times> AtaDeviceAddress option) option" where
  "ata_path_loop p stop i =
     (case node_step p stop i of
        None \<Rightarrow> None
      | Some Bad_path \<Rightarrow> Some (BLOCK_PATH_PARSE_INVALID, None)
      | Some End_of_path \<Rightarrow> Some (BLOCK_PATH_PARSE_ABSENT, None)
      | Some (At_node n) \<Rightarrow>
          if is_atapi n then do {
            primary_secondary \<leftarrow> path_byte p (i + 4);
            slave_master \<leftarrow> path_byte p (i + 5);
            Some (if primary_secondary > 1 \<or> slave_master > 1 then (BLOCK_PATH_PARSE_INVALID, None)
                  else (BLOCK_PATH_PARSE_FOUND, Some \<lparr>channel = primary_secondary, drive = slave_master\<rparr>)) }
          else ata_path_loop p stop (next_device_path_node i n))"
  by pat_completeness auto
termination
  by (relation "measure (\<lambda>(p, stop, i). stop - i)") (auto intro: node_step_At(3))

declare ata_path_loop.simps [simp del]

definition block_boot_path_to_ata :: "BootInfo option \<Rightarrow> (BlockPathParseResult \<times> AtaDeviceAddress option) option" where
  "block_boot_path_to_ata boot_info =
     (case boot_info of
        None \<Rightarrow> Some (BLOCK_PATH_PARSE_INVALID, None)
      | Some b \<Rightarrow>
          if unat (boot_device_path_size b) < NODE_SIZE then Some (BLOCK_PATH_PARSE_ABSENT, None)
          else ata_path_loop (boot_device_path b) (unat (boot_device_path_size b)) 0)"

definition block_default_ata_device :: AtaDeviceAddress where
  "block_default_ata_device = \<lparr>channel = 0, drive = 0\<rparr>"

text \<open>\<open>bus\<close> is the bus of the first hop left.\<close>

fun resolve_hops :: "'d ports \<Rightarrow> u8 \<Rightarrow> BlockPciPathHop list \<Rightarrow> 'd pci_state \<Rightarrow> PciAddress option \<times> 'd pci_state" where
  "resolve_hops io bus [] s = (None, s)"
| "resolve_hops io bus (hop # hops) s =
     (let address = \<lparr>pa_bus = bus, pa_device = hop_device hop, pa_function = hop_function hop\<rparr> in
      case pci_read_device_info io (Some address) True s of
        (None, s) \<Rightarrow> (None, s)
      | (Some info, s) \<Rightarrow>
          if hops = [] then (Some address, s)
          else if pci_class_code info \<noteq> 0x06 \<or> pci_subclass info \<noteq> 0x04 then (None, s)
          else case pci_read_config8 io (Some address) 0x19 s of
            (bus, s) \<Rightarrow> if bus = 0xFF then (None, s) else resolve_hops io bus hops s)"

definition block_resolve_pci_path :: "'d ports \<Rightarrow> BlockPciPathHop list \<Rightarrow> 'd pci_state \<Rightarrow> PciAddress option \<times> 'd pci_state" where
  "block_resolve_pci_path io hops s = (if hops = [] then (None, s) else resolve_hops io 0 hops s)"

definition is_pci :: "DevicePathNode \<Rightarrow> bool" where
  "is_pci n \<longleftrightarrow> node_type n = DEVICE_PATH_TYPE_HARDWARE \<and> node_subtype n = DEVICE_PATH_SUBTYPE_PCI \<and>
     unat (device_path_length n) \<ge> PCI_SIZE"

definition is_sata :: "DevicePathNode \<Rightarrow> bool" where
  "is_sata n \<longleftrightarrow> node_type n = DEVICE_PATH_TYPE_MESSAGING \<and> node_subtype n = DEVICE_PATH_SUBTYPE_SATA \<and>
     unat (device_path_length n) \<ge> SATA_SIZE"

text \<open>The hops and the port seen so far; an inner \<open>None\<close> is the return of false.\<close>

type_synonym ahci_route = "BlockPciPathHop list \<times> u8 option"

function ahci_path_loop :: "bytes \<Rightarrow> nat \<Rightarrow> nat \<Rightarrow> ahci_route \<Rightarrow> ahci_route option option" where
  "ahci_path_loop p stop i (hops, port) =
     (case node_step p stop i of
        None \<Rightarrow> None
      | Some Bad_path \<Rightarrow> Some None
      | Some End_of_path \<Rightarrow> Some (Some (hops, port))
      | Some (At_node n) \<Rightarrow>
          if is_pci n then
            (if length hops \<ge> BLOCK_MAX_PCI_PATH_DEPTH then Some None
             else case (path_byte p (i + 4), path_byte p (i + 5)) of
               (Some f, Some d) \<Rightarrow>
                 ahci_path_loop p stop (next_device_path_node i n) (hops @ [\<lparr>hop_device = d, hop_function = f\<rparr>], port)
             | _ \<Rightarrow> None)
          else if is_sata n then
            (case (path_u16 p (i + 4), path_u16 p (i + 6), path_u16 p (i + 8)) of
               (Some hba_port_number, Some port_multiplier_port_number, Some lun) \<Rightarrow>
                 if hba_port_number \<ge> 32 then Some None
                 else if port_multiplier_port_number \<noteq> 0 \<and> port_multiplier_port_number \<noteq> 0xFFFF then Some None
                 else if lun \<noteq> 0 then Some None
                 else ahci_path_loop p stop (next_device_path_node i n) (hops, Some (ucast hba_port_number))
             | _ \<Rightarrow> None)
          else ahci_path_loop p stop (next_device_path_node i n) (hops, port))"
  by pat_completeness auto
termination
  by (relation "measure (\<lambda>(p, stop, i, r). stop - i)") (auto intro: node_step_At(3))

declare ahci_path_loop.simps [simp del]

definition block_boot_path_to_ahci ::
  "'d ports \<Rightarrow> BootInfo option \<Rightarrow> 'd pci_state \<Rightarrow> (AhciDeviceAddress option \<times> 'd pci_state) option" where
  "block_boot_path_to_ahci io boot_info s =
     (case boot_info of
        None \<Rightarrow> Some (None, s)
      | Some b \<Rightarrow>
          if unat (boot_device_path_size b) < NODE_SIZE then Some (None, s)
          else do {
            route \<leftarrow> ahci_path_loop (boot_device_path b) (unat (boot_device_path_size b)) 0 ([], None);
            Some (case route of
                Some (hops, Some port) \<Rightarrow>
                  (case block_resolve_pci_path io hops s of
                     (c, s) \<Rightarrow> (map_option (\<lambda>a. \<lparr>controller = a, ahci_port = port\<rparr>) c, s))
              | _ \<Rightarrow> (None, s)) })"


subsection \<open>Binding a driver\<close>

text \<open>The devices behind \<open>candidates\<close>, and the driver variables a probe changes.\<close>

record 'd block_state =
  g_block :: "'d BlockDevice"
  bk_ata :: "'d ata_state"
  bk_ahci :: "'d ahci_state"

definition block_driver_match_ahci :: "DriverDevice option \<Rightarrow> bool" where
  "block_driver_match_ahci device = (case device of None \<Rightarrow> False
     | Some d \<Rightarrow> class_type d = DRIVER_DEVICE_CLASS_BLOCK \<and> payload d ! BLOCK_PAYLOAD_KIND = BLOCK_DRIVER_KIND_AHCI)"

definition block_driver_probe_ahci ::
  "'d ports \<Rightarrow> 'd machine \<Rightarrow> u64 \<Rightarrow> DriverDevice option \<Rightarrow> 'd block_state \<Rightarrow> (bool \<times> 'd block_state) option" where
  "block_driver_probe_ahci io mc dma device s =
     (case device of
        None \<Rightarrow> Some (False, s)
      | Some d \<Rightarrow>
          let address = \<lparr>controller = \<lparr>pa_bus = ucast (payload d ! BLOCK_PAYLOAD_0),
                pa_device = ucast (payload d ! BLOCK_PAYLOAD_1), pa_function = ucast (payload d ! BLOCK_PAYLOAD_2)\<rparr>,
                ahci_port = dev_prog_if d\<rparr>
          in do {
            (ok, a) \<leftarrow> ahci_init io mc (Some address) (bk_ahci s);
            Some (ok, if ok then s\<lparr>bk_ahci := a, g_block := ahci_block mc dma a\<rparr> else s\<lparr>bk_ahci := a\<rparr>) })"

definition block_driver_match_ata :: "DriverDevice option \<Rightarrow> bool" where
  "block_driver_match_ata device = (case device of None \<Rightarrow> False
     | Some d \<Rightarrow> class_type d = DRIVER_DEVICE_CLASS_BLOCK \<and> payload d ! BLOCK_PAYLOAD_KIND = BLOCK_DRIVER_KIND_ATA)"

definition block_driver_probe_ata ::
  "'d ports \<Rightarrow> DriverDevice option \<Rightarrow> 'd block_state \<Rightarrow> (bool \<times> 'd block_state) option" where
  "block_driver_probe_ata io device s =
     (case device of
        None \<Rightarrow> Some (False, s)
      | Some d \<Rightarrow>
          let address = \<lparr>channel = ucast (payload d ! BLOCK_PAYLOAD_0), drive = ucast (payload d ! BLOCK_PAYLOAD_1)\<rparr>
          in case ata_init (Some address) (bk_ata s) of
            (ok, a) \<Rightarrow> Some (ok, if ok then s\<lparr>bk_ata := a, g_block := ata_block io a\<rparr> else s\<lparr>bk_ata := a\<rparr>))"

definition g_block_driver_ahci :: "'d ports \<Rightarrow> 'd machine \<Rightarrow> u64 \<Rightarrow> 'd block_state DriverOps" where
  "g_block_driver_ahci io mc dma = \<lparr>driver_name = bytes_of ''ahci'', driver_match = Some block_driver_match_ahci,
     driver_probe = Some (block_driver_probe_ahci io mc dma)\<rparr>"

definition g_block_driver_ata :: "'d ports \<Rightarrow> 'd block_state DriverOps" where
  "g_block_driver_ata io = \<lparr>driver_name = bytes_of ''ata'', driver_match = Some block_driver_match_ata,
     driver_probe = Some (block_driver_probe_ata io)\<rparr>"

definition ahci_candidate :: "AhciDeviceAddress \<Rightarrow> DriverDevice" where
  "ahci_candidate a = \<lparr>bus_type = DRIVER_BUS_PCI, class_type = DRIVER_DEVICE_CLASS_BLOCK, dev_vendor_id = 0, dev_device_id = 0,
     dev_class_code = 0, dev_subclass = 0, dev_prog_if = ahci_port a, dev_reserved0 = 0,
     payload = [BLOCK_DRIVER_KIND_AHCI, ucast (pa_bus (controller a)), ucast (pa_device (controller a)), ucast (pa_function (controller a))]\<rparr>"

definition ata_candidate :: "AtaDeviceAddress \<Rightarrow> DriverDevice" where
  "ata_candidate a = \<lparr>bus_type = DRIVER_BUS_FIRMWARE, class_type = DRIVER_DEVICE_CLASS_BLOCK, dev_vendor_id = 0, dev_device_id = 0,
     dev_class_code = 0, dev_subclass = 0, dev_prog_if = 0, dev_reserved0 = 0,
     payload = [BLOCK_DRIVER_KIND_ATA, ucast (channel a), ucast (drive a), 0]\<rparr>"

definition block_init ::
  "'d ports \<Rightarrow> 'd machine \<Rightarrow> u64 \<Rightarrow> BootInfo option \<Rightarrow> 'd block_state driver_core \<Rightarrow> 'd block_state \<Rightarrow>
     (bool \<times> 'd block_state driver_core \<times> 'd block_state) option" where
  "block_init io mc dma boot_info c s =
     (let s = s\<lparr>g_block := \<lparr>backend = BLOCK_BACKEND_NONE, read_sectors_fn = None, write_sectors_fn = None\<rparr>\<rparr>;
          c = driver_core_reset c
      in case driver_core_register (Some (g_block_driver_ahci io mc dma)) c of (ok, c) \<Rightarrow>
        if \<not> ok then Some (False, c, s)
        else case driver_core_register (Some (g_block_driver_ata io)) c of (ok, c) \<Rightarrow>
          if \<not> ok then Some (False, c, s)
          else do {
            (ahci_device, p) \<leftarrow> block_boot_path_to_ahci io boot_info (ahci_pci (bk_ahci s));
            let s = s\<lparr>bk_ahci := (bk_ahci s)\<lparr>ahci_pci := p\<rparr>\<rparr>;
            let candidates = (case ahci_device of None \<Rightarrow> [] | Some a \<Rightarrow> [ahci_candidate a]);
            (ata_result, ata_device) \<leftarrow> block_boot_path_to_ata boot_info;
            if ata_result = BLOCK_PATH_PARSE_INVALID then Some (False, c, s)
            else do {
              let candidates = (if ata_result = BLOCK_PATH_PARSE_FOUND then candidates @ [ata_candidate (the ata_device)] else candidates);
              let candidates = (if ata_result = BLOCK_PATH_PARSE_ABSENT then candidates @ [ata_candidate block_default_ata_device] else candidates);
              (ok, bound, s) \<leftarrow> driver_core_probe c (Some candidates) (length candidates) s;
              if \<not> ok then Some (False, c, s)
              else Some (read_sectors_fn (g_block s) \<noteq> None \<and> write_sectors_fn (g_block s) \<noteq> None, c, s) } })"

definition block_backend_kind :: "'d block_state \<Rightarrow> BlockBackendKind" where
  "block_backend_kind s = backend (g_block s)"

subsection \<open>What the parsers find\<close>

text \<open>A device path as a list of nodes, each a type, a subtype and a body, and its bytes.\<close>

type_synonym efi_node = "u8 \<times> u8 \<times> bytes"

fun node_bytes :: "efi_node \<Rightarrow> bytes" where
  "node_bytes (t, st, body) = [t, st] @ le16 (of_nat (4 + length body)) @ body"

definition path_bytes :: "efi_node list \<Rightarrow> bytes" where
  "path_bytes nodes = concat (map node_bytes nodes) @ [0x7F, 0xFF, 4, 0]"

fun efi_node_ok :: "efi_node \<Rightarrow> bool" where
  "efi_node_ok (t, st, body) \<longleftrightarrow> \<not> (t = 0x7F \<and> st = 0xFF) \<and> 4 + length body < 65536"

fun ata_of_nodes :: "efi_node list \<Rightarrow> BlockPathParseResult \<times> AtaDeviceAddress option" where
  "ata_of_nodes [] = (BLOCK_PATH_PARSE_ABSENT, None)"
| "ata_of_nodes ((t, st, body) # nodes) =
     (if t = 3 \<and> st = 1 \<and> 4 \<le> length body then
        (if body ! 0 \<le> 1 \<and> body ! 1 \<le> 1 then (BLOCK_PATH_PARSE_FOUND, Some \<lparr>channel = body ! 0, drive = body ! 1\<rparr>)
         else (BLOCK_PATH_PARSE_INVALID, None))
      else ata_of_nodes nodes)"

fun route_of_nodes :: "efi_node list \<Rightarrow> ahci_route \<Rightarrow> ahci_route option" where
  "route_of_nodes [] r = Some r"
| "route_of_nodes ((t, st, body) # nodes) (hops, port) =
     (if t = 1 \<and> st = 1 \<and> 2 \<le> length body then
        (if length hops < 8 then route_of_nodes nodes (hops @ [\<lparr>hop_device = body ! 1, hop_function = body ! 0\<rparr>], port) else None)
      else if t = 3 \<and> st = 0x12 \<and> 6 \<le> length body then
        (if of_le16 (body ! 0) (body ! 1) < 32 \<and> of_le16 (body ! 2) (body ! 3) \<in> {0, 0xFFFF} \<and> of_le16 (body ! 4) (body ! 5) = 0
         then route_of_nodes nodes (hops, Some (ucast (of_le16 (body ! 0) (body ! 1)))) else None)
      else route_of_nodes nodes (hops, port))"

lemma length_node_bytes [simp]: "length (node_bytes (t, st, body)) = 4 + length body"
  by simp

lemma device_path_node_at:
  assumes "4 + length body < 65536"
  shows "\<exists>n. device_path_node (pre @ node_bytes (t, st, body) @ post) (length pre) = Some n \<and>
    node_type n = t \<and> node_subtype n = st \<and> unat (device_path_length n) = 4 + length body"
proof -
  obtain b0 b1 where b: "le16 (of_nat (4 + length body)) = [b0, b1]"
    using le16_def by (metis)
  have l: "of_le16 b0 b1 = of_nat (4 + length body)" using of_le16_le16 [of "of_nat (4 + length body)"] unfolding b by simp
  have "unat (of_le16 b0 b1) = 4 + length body" unfolding l using assms
    by (simp add: unsigned_of_nat take_bit_nat_eq_self del: of_nat_add)
  then show ?thesis
    using b by (simp add: device_path_node_def path_byte_def nth_append device_path_length_def)
qed

lemma path_byte_body:
  "j < length body \<Longrightarrow> path_byte (pre @ node_bytes (t, st, body) @ post) (length pre + 4 + j) = Some (body ! j)"
  by (simp add: path_byte_def nth_append)

lemma path_u16_body:
  "Suc j < length body \<Longrightarrow> path_u16 (pre @ node_bytes (t, st, body) @ post) (length pre + 4 + j) = Some (of_le16 (body ! j) (body ! Suc j))"
  using path_byte_body [of j body pre t st post] path_byte_body [of "Suc j" body pre t st post] by (simp add: path_u16_def)

lemma node_step_node:
  assumes "efi_node_ok (t, st, body)" and "length pre + 4 + length body \<le> stop"
  shows "\<exists>n. node_step (pre @ node_bytes (t, st, body) @ post) stop (length pre) = Some (At_node n) \<and>
    node_type n = t \<and> node_subtype n = st \<and> unat (device_path_length n) = 4 + length body \<and>
    next_device_path_node (length pre) n = length (pre @ node_bytes (t, st, body))"
proof -
  obtain n where n: "device_path_node (pre @ node_bytes (t, st, body) @ post) (length pre) = Some n"
    "node_type n = t" "node_subtype n = st" "unat (device_path_length n) = 4 + length body"
    using device_path_node_at [of body pre t st post] assms(1) by auto
  then show ?thesis
    using assms by (intro exI [of _ n])
      (auto simp: node_step_def NODE_SIZE_def next_device_path_node_def device_path_is_end_def DEVICE_PATH_TYPE_END_def
        DEVICE_PATH_SUBTYPE_END_ENTIRE_def simp del: node_bytes.simps)
qed

lemma node_step_end:
  "node_step (pre @ path_bytes [] @ post) (length pre + length (path_bytes [])) (length pre) = Some End_of_path"
proof -
  have "of_le16 4 0 = 4" by (simp add: of_le16_def)
  then show ?thesis
    by (simp add: path_bytes_def node_step_def device_path_node_def path_byte_def nth_append NODE_SIZE_def device_path_length_def
      device_path_is_end_def DEVICE_PATH_TYPE_END_def DEVICE_PATH_SUBTYPE_END_ENTIRE_def)
qed

lemma path_bytes_Cons: "path_bytes (n # nodes) = node_bytes n @ path_bytes nodes"
  by (simp add: path_bytes_def)

lemma ata_path_loop_nodes:
  assumes "\<forall>n \<in> set nodes. efi_node_ok n"
  shows "ata_path_loop (pre @ path_bytes nodes @ rest) (length pre + length (path_bytes nodes)) (length pre) = Some (ata_of_nodes nodes)"
  using assms
proof (induction nodes arbitrary: pre)
  case Nil
  then show ?case
    using node_step_end [of pre rest] by (subst ata_path_loop.simps) simp
next
  case (Cons node nodes)
  obtain t st body where node: "node = (t, st, body)" by (cases node)
  let ?p = "pre @ node_bytes node @ path_bytes nodes @ rest"
  let ?stop = "length pre + length (path_bytes (node # nodes))"
  have stop: "?stop = length (pre @ node_bytes node) + length (path_bytes nodes)" by (simp add: path_bytes_Cons)
  then have "length pre + 4 + length body \<le> ?stop" by (simp add: node)
  from node_step_node [OF _ this, of t st "path_bytes nodes @ rest"] Cons.prems obtain n where
    n: "node_step ?p ?stop (length pre) = Some (At_node n)" "node_type n = t" "node_subtype n = st"
    "unat (device_path_length n) = 4 + length body" "next_device_path_node (length pre) n = length (pre @ node_bytes node)"
    by (auto simp: node)
  have atapi: "is_atapi n \<longleftrightarrow> t = 3 \<and> st = 1 \<and> 4 \<le> length body"
    by (simp add: is_atapi_def n DEVICE_PATH_TYPE_MESSAGING_def DEVICE_PATH_SUBTYPE_ATAPI_def ATAPI_SIZE_def)
  have run: "ata_path_loop (pre @ path_bytes (node # nodes) @ rest) ?stop (length pre) = ata_path_loop ?p ?stop (length pre)"
    by (simp add: path_bytes_Cons)
  show ?case
  proof (cases "is_atapi n")
    case True
    then have "4 \<le> length body" "body \<noteq> []" using atapi by auto
    then have "path_byte ?p (length pre + 4) = Some (body ! 0)" "path_byte ?p (length pre + 5) = Some (body ! 1)"
      using path_byte_body [of 0 body pre t st "path_bytes nodes @ rest"] path_byte_body [of 1 body pre t st "path_bytes nodes @ rest"]
      by (simp_all add: node add.commute del: node_bytes.simps)
    then show ?thesis
      using True atapi n unfolding run by (subst ata_path_loop.simps) (auto simp: node simp del: node_bytes.simps)
  next
    case False
    then have "ata_path_loop ?p ?stop (length pre) = ata_path_loop ?p ?stop (length (pre @ node_bytes node))"
      using n by (subst ata_path_loop.simps) (simp del: node_bytes.simps)
    also have "\<dots> = Some (ata_of_nodes nodes)"
      using Cons.IH [of "pre @ node_bytes node"] Cons.prems unfolding stop by simp
    finally show ?thesis using False atapi unfolding run by (auto simp: node simp del: node_bytes.simps)
  qed
qed

lemma ahci_path_loop_nodes:
  assumes "\<forall>n \<in> set nodes. efi_node_ok n"
  shows "ahci_path_loop (pre @ path_bytes nodes @ rest) (length pre + length (path_bytes nodes)) (length pre) r = Some (route_of_nodes nodes r)"
  using assms
proof (induction nodes arbitrary: pre r)
  case Nil
  obtain hops port where r: "r = (hops, port)" by (cases r)
  show ?case
    using node_step_end [of pre rest] unfolding r by (subst ahci_path_loop.simps) simp
next
  case (Cons node nodes)
  obtain t st body where node: "node = (t, st, body)" by (cases node)
  obtain hops port where r: "r = (hops, port)" by (cases r)
  let ?p = "pre @ node_bytes node @ path_bytes nodes @ rest"
  let ?stop = "length pre + length (path_bytes (node # nodes))"
  have stop: "?stop = length (pre @ node_bytes node) + length (path_bytes nodes)" by (simp add: path_bytes_Cons)
  then have "length pre + 4 + length body \<le> ?stop" by (simp add: node)
  from node_step_node [OF _ this, of t st "path_bytes nodes @ rest"] Cons.prems obtain n where
    n: "node_step ?p ?stop (length pre) = Some (At_node n)" "node_type n = t" "node_subtype n = st"
    "unat (device_path_length n) = 4 + length body" "next_device_path_node (length pre) n = length (pre @ node_bytes node)"
    by (auto simp: node)
  have kind: "is_pci n \<longleftrightarrow> t = 1 \<and> st = 1 \<and> 2 \<le> length body" "is_sata n \<longleftrightarrow> t = 3 \<and> st = 0x12 \<and> 6 \<le> length body"
    by (simp_all add: is_pci_def is_sata_def n DEVICE_PATH_TYPE_MESSAGING_def DEVICE_PATH_TYPE_HARDWARE_def
      DEVICE_PATH_SUBTYPE_PCI_def DEVICE_PATH_SUBTYPE_SATA_def PCI_SIZE_def SATA_SIZE_def)
  have run: "ahci_path_loop (pre @ path_bytes (node # nodes) @ rest) ?stop (length pre) r = ahci_path_loop ?p ?stop (length pre) (hops, port)"
    by (simp add: path_bytes_Cons r)
  have rec: "ahci_path_loop ?p ?stop (length (pre @ node_bytes node)) r' = Some (route_of_nodes nodes r')" for r'
    using Cons.IH [of "pre @ node_bytes node" r'] Cons.prems unfolding stop by simp
  note body8 = path_byte_body [of _ body pre t st "path_bytes nodes @ rest", folded node]
  note body16 = path_u16_body [of _ body pre t st "path_bytes nodes @ rest", folded node]
  consider (pci) "is_pci n" | (sata) "\<not> is_pci n" "is_sata n" | (other) "\<not> is_pci n" "\<not> is_sata n" by blast
  then show ?case
  proof cases
    case pci
    then have k: "t = 1" "st = 1" "2 \<le> length body" using kind by auto
    then have "body \<noteq> []" by auto
    with pci have "path_byte ?p (length pre + 4) = Some (body ! 0)" "path_byte ?p (length pre + 5) = Some (body ! 1)"
      using body8 [of 0] body8 [of 1] kind by (simp_all add: add.commute del: node_bytes.simps)
    then show ?thesis
      using pci k n rec unfolding run
      by (subst ahci_path_loop.simps) (simp add: node r not_le BLOCK_MAX_PCI_PATH_DEPTH_def del: node_bytes.simps)
  next
    case sata
    then have k: "t = 3" "st = 0x12" "6 \<le> length body" using kind by auto
    with sata have "path_u16 ?p (length pre + 4) = Some (of_le16 (body ! 0) (body ! 1))"
      "path_u16 ?p (length pre + 6) = Some (of_le16 (body ! 2) (body ! 3))"
      "path_u16 ?p (length pre + 8) = Some (of_le16 (body ! 4) (body ! 5))"
      using body16 [of 0] body16 [of 2] body16 [of 4] kind by (simp_all add: add.commute numeral_eq_Suc del: node_bytes.simps)
    then show ?thesis
      using sata k n rec unfolding run
      by (subst ahci_path_loop.simps) (simp add: node r not_le [symmetric] del: node_bytes.simps)
  next
    case other
    then have "ahci_path_loop ?p ?stop (length pre) (hops, port) = ahci_path_loop ?p ?stop (length (pre @ node_bytes node)) (hops, port)"
      using n by (subst ahci_path_loop.simps) (simp del: node_bytes.simps)
    then show ?thesis using other kind rec unfolding run by (auto simp: node r simp del: node_bytes.simps)
  qed
qed

subsection \<open>The parsers return\<close>

text \<open>They read inside the array when the size that the loader reports does not exceed it.\<close>

lemma node_step_returns: "stop \<le> length p \<Longrightarrow> \<exists>r. node_step p stop i = Some r"
  by (auto simp: node_step_def device_path_node_def path_byte_def NODE_SIZE_def)

lemma node_body:
  assumes "node_step p stop i = Some (At_node n)" and "stop \<le> length p" and "j < unat (device_path_length n)"
  shows "\<exists>b. path_byte p (i + j) = Some b"
  using node_step_At(2) [OF assms(1)] assms(2,3) by (simp add: path_byte_def next_device_path_node_def)

lemma node_word:
  assumes "node_step p stop i = Some (At_node n)" and "stop \<le> length p" and "Suc j < unat (device_path_length n)"
  shows "\<exists>b. path_u16 p (i + j) = Some b"
  using node_body [OF assms(1,2), of j] node_body [OF assms(1,2), of "Suc j"] assms(3) by (auto simp: path_u16_def)

lemma ata_path_loop_returns: "stop \<le> length p \<Longrightarrow> \<exists>r a. ata_path_loop p stop i = Some (r, a) \<and> (r = BLOCK_PATH_PARSE_FOUND \<longleftrightarrow> a \<noteq> None) \<and>
    (case a of None \<Rightarrow> True | Some d \<Rightarrow> channel d \<le> 1 \<and> drive d \<le> 1)"
proof (induction p stop i rule: ata_path_loop.induct)
  case (1 p stop i)
  obtain r where r: "node_step p stop i = Some r" using node_step_returns [OF "1.prems"] by blast
  show ?case
  proof (cases r)
    case (At_node n)
    note at = r [unfolded At_node]
    show ?thesis
    proof (cases "is_atapi n")
      case True
      then have "8 \<le> unat (device_path_length n)" by (simp add: is_atapi_def ATAPI_SIZE_def)
      then obtain b0 b1 where "path_byte p (i + 4) = Some b0" "path_byte p (i + 5) = Some b1"
        using node_body [OF at "1.prems", of 4] node_body [OF at "1.prems", of 5] by auto
      then show ?thesis using True by (subst ata_path_loop.simps) (auto simp: at)
    next
      case False
      then show ?thesis using "1.IH" [OF at] "1.prems" by (subst ata_path_loop.simps) (simp add: at)
    qed
  qed (subst ata_path_loop.simps; simp add: r)+
qed

lemma ahci_path_loop_returns: "stop \<le> length p \<Longrightarrow> \<exists>r. ahci_path_loop p stop i (hops, port) = Some r"
proof (induction p stop i "(hops, port)" arbitrary: hops port rule: ahci_path_loop.induct)
  case (1 p stop i hops port)
  obtain r where r: "node_step p stop i = Some r" using node_step_returns [OF "1.prems"] by blast
  show ?case
  proof (cases r)
    case (At_node n)
    note at = r [unfolded At_node]
    consider (pci) "is_pci n" | (sata) "\<not> is_pci n" "is_sata n" | (other) "\<not> is_pci n" "\<not> is_sata n" by blast
    then show ?thesis
    proof cases
      case pci
      then have "6 \<le> unat (device_path_length n)" by (simp add: is_pci_def PCI_SIZE_def)
      then obtain b0 b1 where "path_byte p (i + 4) = Some b0" "path_byte p (i + 5) = Some b1"
        using node_body [OF at "1.prems", of 4] node_body [OF at "1.prems", of 5] by auto
      then show ?thesis using pci "1.hyps"(1) [OF at _ pci] "1.prems" by (subst ahci_path_loop.simps) (auto simp: at)
    next
      case sata
      then have "10 \<le> unat (device_path_length n)" by (simp add: is_sata_def SATA_SIZE_def)
      then obtain b0 b1 b2 where "path_u16 p (i + 4) = Some b0" "path_u16 p (i + 6) = Some b1" "path_u16 p (i + 8) = Some b2"
        using node_word [OF at "1.prems", of 4] node_word [OF at "1.prems", of 6] node_word [OF at "1.prems", of 8] by auto
      then show ?thesis using sata "1.hyps"(2) [OF at _ sata] "1.prems" by (subst ahci_path_loop.simps) (auto simp: at)
    next
      case other
      then show ?thesis using "1.hyps"(3) [OF at _ other] "1.prems" by (subst ahci_path_loop.simps) (auto simp: at)
    qed
  qed (subst ahci_path_loop.simps; simp add: r)+
qed

subsection \<open>The disk that is bound\<close>

lemma byte_word [simp]: "ucast (ucast (b :: u8) :: u32) = b"
  by (rule bit_word_eqI) (auto simp: bit_simps)

lemma record_eta [simp]:
  "\<lparr>pa_bus = pa_bus p, pa_device = pa_device p, pa_function = pa_function p\<rparr> = p"
  "\<lparr>controller = controller a, ahci_port = ahci_port a\<rparr> = a" "\<lparr>channel = channel d, drive = drive d\<rparr> = d"
  by simp_all

lemma candidate_drivers:
  "block_driver_match_ahci (Some (ahci_candidate a))" "\<not> block_driver_match_ata (Some (ahci_candidate a))"
  "block_driver_match_ata (Some (ata_candidate d))" "\<not> block_driver_match_ahci (Some (ata_candidate d))"
  by (simp_all add: block_driver_match_ahci_def block_driver_match_ata_def ahci_candidate_def ata_candidate_def
    BLOCK_PAYLOAD_KIND_def BLOCK_DRIVER_KIND_AHCI_def BLOCK_DRIVER_KIND_ATA_def)

lemma candidate_probes:
  "block_driver_probe_ahci io mc dma (Some (ahci_candidate a)) s = do {
     (ok, x) \<leftarrow> ahci_init io mc (Some a) (bk_ahci s);
     Some (ok, if ok then s\<lparr>bk_ahci := x, g_block := ahci_block mc dma x\<rparr> else s\<lparr>bk_ahci := x\<rparr>) }"
  "block_driver_probe_ata io (Some (ata_candidate d)) s = (case ata_init (Some d) (bk_ata s) of
     (ok, x) \<Rightarrow> Some (ok, if ok then s\<lparr>bk_ata := x, g_block := ata_block io x\<rparr> else s\<lparr>bk_ata := x\<rparr>))"
  by (simp_all add: block_driver_probe_ahci_def block_driver_probe_ata_def ahci_candidate_def ata_candidate_def
    BLOCK_PAYLOAD_0_def BLOCK_PAYLOAD_1_def BLOCK_PAYLOAD_2_def numeral_eq_Suc)

lemma ata_init_succeeds:
  assumes "channel d \<le> 1" and "drive d \<le> 1"
  shows "\<exists>a. ata_init (Some d) s = (True, a)"
proof -
  have "x = 0 \<or> x = 1" if "x \<le> 1" for x :: u8
  proof -
    have "unat x = 0 \<or> unat x = 1" using that by (auto simp: word_le_nat_alt)
    then show ?thesis by (auto simp: word_unat_eq_iff)
  qed
  then have "channel d = 0 \<or> channel d = 1" "drive d = 0 \<or> drive d = 1" using assms by blast+
  then show ?thesis by (elim disjE) (simp_all add: ata_init_def)
qed

text \<open>The disk a successful \<open>block_init\<close> leaves bound.\<close>

definition bound_disk ::
  "'d ports \<Rightarrow> 'd machine \<Rightarrow> u64 \<Rightarrow> AhciDeviceAddress option \<Rightarrow> AtaDeviceAddress \<Rightarrow> 'd ahci_state \<Rightarrow> 'd block_state \<Rightarrow> 'd block_state \<Rightarrow> bool" where
  "bound_disk io mc dma x d a s t \<longleftrightarrow>
     (if x \<noteq> None \<and> (\<exists>a'. ahci_init io mc x a = Some (True, a'))
      then ahci_init io mc x a = Some (True, bk_ahci t) \<and> bk_ata t = bk_ata s \<and> g_block t = ahci_block mc dma (bk_ahci t)
      else (case x of None \<Rightarrow> bk_ahci t = a | Some _ \<Rightarrow> ahci_init io mc x a = Some (False, bk_ahci t)) \<and>
        ata_init (Some d) (bk_ata s) = (True, bk_ata t) \<and> g_block t = ata_block io (bk_ata t))"

lemma probe_candidates:
  fixes io :: "'d ports" and x :: "AhciDeviceAddress option"
  assumes "take (g_registered_count c) (g_registered c) = map Some [g_block_driver_ahci io mc dma, g_block_driver_ata io]"
    and "kernel_ok (ahci_paging (bk_ahci s))" and "bars_low io"
    and "channel d \<le> 1" "drive d \<le> 1"
  defines "devices \<equiv> (case x of None \<Rightarrow> [] | Some a \<Rightarrow> [ahci_candidate a]) @ [ata_candidate d]"
  shows "\<exists>bound t. driver_core_probe c (Some devices) (length devices) s = Some (True, bound, t) \<and>
    bound_disk io mc dma x d (bk_ahci s) s t"
proof -
  let ?drivers = "[g_block_driver_ahci io mc dma, g_block_driver_ata io]"
  have run: "driver_core_probe c (Some devices) (length devices) s = do {
      (bound, s) \<leftarrow> first_success (attempts ?drivers devices) s; Some (bound \<noteq> None, bound, s) }"
    unfolding driver_core_probe_def option.case assms(1) probe_devices_attempts by (simp add: devices_def)
  have at: "attempts ?drivers devices = (case x of None \<Rightarrow> [] | Some a \<Rightarrow> [(g_block_driver_ahci io mc dma, ahci_candidate a)]) @
      [(g_block_driver_ata io, ata_candidate d)]"
    by (simp add: attempts_def devices_def g_block_driver_ahci_def g_block_driver_ata_def candidate_drivers split: option.splits)
  have probes: "the (driver_probe (g_block_driver_ahci io mc dma)) = block_driver_probe_ahci io mc dma"
    "the (driver_probe (g_block_driver_ata io)) = block_driver_probe_ata io"
    by (simp_all add: g_block_driver_ahci_def g_block_driver_ata_def)
  obtain v where v: "ata_init (Some d) (bk_ata s) = (True, v)" using ata_init_succeeds [OF assms(4,5)] by blast
  show ?thesis
  proof (cases x)
    case None
    then show ?thesis unfolding run at by (simp add: probes candidate_probes v bound_disk_def)
  next
    case (Some a)
    obtain ok a' where i: "ahci_init io mc (Some a) (bk_ahci s) = Some (ok, a')" using ahci_init_returns [OF assms(2,3)] by fastforce
    show ?thesis
      unfolding run at by (cases ok) (simp_all add: Some probes candidate_probes v i bound_disk_def)
  qed
qed

subsection \<open>Device paths as the firmware writes them\<close>

text \<open>On the bytes of any list of device path nodes, the two parsers find what is in the list: the drive of
  the first ATAPI node, the PCI hops in their order and the port of the last SATA node.\<close>

lemma boot_path_parsed:
  assumes "\<forall>n \<in> set nodes. efi_node_ok n" and "boot_device_path b = path_bytes nodes @ rest"
    and "unat (boot_device_path_size b) = length (path_bytes nodes)"
  shows "block_boot_path_to_ata (Some b) = Some (ata_of_nodes nodes) \<and>
    block_boot_path_to_ahci io (Some b) p = Some (case route_of_nodes nodes ([], None) of
        Some (hops, Some port) \<Rightarrow> (case block_resolve_pci_path io hops p of
          (c, p) \<Rightarrow> (map_option (\<lambda>a. \<lparr>controller = a, ahci_port = port\<rparr>) c, p))
      | _ \<Rightarrow> (None, p))"
proof -
  have "\<not> length (path_bytes nodes) < NODE_SIZE" by (simp add: path_bytes_def NODE_SIZE_def)
  then show ?thesis
    using ata_path_loop_nodes [OF assms(1), of "[]" rest] ahci_path_loop_nodes [OF assms(1), of "[]" rest]
    by (simp add: block_boot_path_to_ata_def block_boot_path_to_ahci_def assms)
qed

definition demo_machine :: "'d machine" where
  "demo_machine = \<lparr>mm_read32 = (\<lambda>a d. (0, d)), mm_write32 = (\<lambda>a v d. d), mem_write8 = (\<lambda>a b d. d), mem_read8 = (\<lambda>a d. 0)\<rparr>"

definition demo_path_boot :: BootInfo where
  "demo_path_boot = demo_boot\<lparr>boot_device_path_size := 22,
     boot_device_path := path_bytes [(1, 1, [1, 0x1F]), (2, 1, []), (3, 1, [1, 0, 0, 0])] @ replicate 106 0\<rparr>"

definition demo_disks :: "demo_drive block_state" where
  "demo_disks = \<lparr>g_block = \<lparr>backend = BLOCK_BACKEND_AHCI, read_sectors_fn = None, write_sectors_fn = None\<rparr>,
     bk_ata = \<lparr>g_ata_io_base = 0, g_ata_ctrl_base = 0, g_ata_drive_head = 0, ata_device =
       \<lparr>dd_regs = \<lparr>reg_count = 0, reg_low = 0, reg_mid = 0, reg_high = 0, reg_head = 0\<rparr>, dd_phase = No_data, dd_disk = (\<lambda>_. [])\<rparr>\<rparr>,
     bk_ahci = \<lparr>g_hba = 0, g_port = 0, g_command_list = 0, g_received_fis = 0, g_command_table = 0,
       ahci_pci = \<lparr>g_pci_available = True, pci_bus =
         \<lparr>dd_regs = \<lparr>reg_count = 0, reg_low = 0, reg_mid = 0, reg_high = 0, reg_head = 0\<rparr>, dd_phase = No_data, dd_disk = (\<lambda>_. [])\<rparr>\<rparr>,
       ahci_paging = demo_paging\<rparr>\<rparr>"

lemma demo_path_parsed:
  "block_boot_path_to_ata (Some demo_path_boot) = Some (BLOCK_PATH_PARSE_FOUND, Some \<lparr>channel = 1, drive = 0\<rparr>)"
  "block_boot_path_to_ahci io (Some demo_path_boot) p = Some (None, p)"
  using boot_path_parsed [of "[(1, 1, [1, 0x1F]), (2, 1, []), (3, 1, [1, 0, 0, 0])]" demo_path_boot "replicate 106 0" io p]
  by (simp_all add: demo_path_boot_def) (simp_all add: path_bytes_def le16_def)

lemma demo_bars_low: "bars_low demo_ata_ports"
  by (simp add: bars_low_def pci_read_bar64_def pci_read_bar_def pci_read_config32_def demo_ata_ports_def select_config_def
    split: option.splits)

lemma block_init_bound:
  assumes "unat (boot_device_path_size b) \<le> length (boot_device_path b)"
    and "length (g_registered c) = DRIVER_MAX_REGISTERED"
    and "kernel_ok (ahci_paging (bk_ahci s))" and "bars_low io"
  shows "\<exists>x p r d c' t. block_boot_path_to_ahci io (Some b) (ahci_pci (bk_ahci s)) = Some (x, p) \<and>
    block_boot_path_to_ata (Some b) = Some (r, d) \<and>
    block_init io mc dma (Some b) c s = Some (r \<noteq> BLOCK_PATH_PARSE_INVALID, c', t) \<and>
    (if r = BLOCK_PATH_PARSE_INVALID then g_block t = \<lparr>backend = BLOCK_BACKEND_NONE, read_sectors_fn = None, write_sectors_fn = None\<rparr>
     else bound_disk io mc dma x (case d of None \<Rightarrow> block_default_ata_device | Some d \<Rightarrow> d) ((bk_ahci s)\<lparr>ahci_pci := p\<rparr>) s t)"
proof -
  obtain x p where x: "block_boot_path_to_ahci io (Some b) (ahci_pci (bk_ahci s)) = Some (x, p)"
  proof (cases "unat (boot_device_path_size b) < NODE_SIZE")
    case False
    obtain route where "ahci_path_loop (boot_device_path b) (unat (boot_device_path_size b)) 0 ([], None) = Some route"
      using ahci_path_loop_returns [OF assms(1)] by blast
    then have "\<exists>y. block_boot_path_to_ahci io (Some b) (ahci_pci (bk_ahci s)) = Some y"
      using False by (simp add: block_boot_path_to_ahci_def)
    then show thesis using that by fastforce
  qed (use that in \<open>simp add: block_boot_path_to_ahci_def\<close>)
  obtain r d where d: "block_boot_path_to_ata (Some b) = Some (r, d)" "r = BLOCK_PATH_PARSE_FOUND \<longleftrightarrow> d \<noteq> None"
      "case d of None \<Rightarrow> True | Some d \<Rightarrow> channel d \<le> 1 \<and> drive d \<le> 1"
    by (cases "unat (boot_device_path_size b) < NODE_SIZE")
      (use ata_path_loop_returns [OF assms(1), of 0] in \<open>auto simp: block_boot_path_to_ata_def\<close>)
  let ?dev = "case d of None \<Rightarrow> block_default_ata_device | Some d \<Rightarrow> d"
  have dev: "channel ?dev \<le> 1" "drive ?dev \<le> 1" using d(3) by (simp_all add: block_default_ata_device_def split: option.splits)
  obtain c1 c2 where c: "driver_core_register (Some (g_block_driver_ahci io mc dma)) (driver_core_reset c) = (True, c1)"
    "driver_core_register (Some (g_block_driver_ata io)) c1 = (True, c2)"
    "take (g_registered_count c2) (g_registered c2) = map Some [g_block_driver_ahci io mc dma, g_block_driver_ata io]"
    using register_two [OF assms(2), of "g_block_driver_ahci io mc dma" "g_block_driver_ata io"]
    by (auto simp: g_block_driver_ahci_def g_block_driver_ata_def)
  let ?none = "\<lparr>backend = BLOCK_BACKEND_NONE, read_sectors_fn = None, write_sectors_fn = None\<rparr> :: 'a BlockDevice"
  let ?s = "s\<lparr>g_block := ?none, bk_ahci := (bk_ahci s)\<lparr>ahci_pci := p\<rparr>\<rparr>"
  show ?thesis
  proof (cases "r = BLOCK_PATH_PARSE_INVALID")
    case True
    then have "block_init io mc dma (Some b) c s = Some (False, c2, ?s)" by (simp add: block_init_def Let_def c x d(1))
    then show ?thesis using x d(1) True by (intro exI conjI) (assumption | simp)+
  next
    case False
    let ?devices = "(case x of None \<Rightarrow> [] | Some a \<Rightarrow> [ahci_candidate a]) @ [ata_candidate ?dev]"
    have "kernel_ok (ahci_paging (bk_ahci ?s))" using assms(3) by simp
    from probe_candidates [OF c(3) this assms(4) dev, of x] obtain bound t where
      t: "driver_core_probe c2 (Some ?devices) (length ?devices) ?s = Some (True, bound, t)" "bound_disk io mc dma x ?dev (bk_ahci ?s) ?s t"
      by blast
    have fns: "read_sectors_fn (g_block t) \<noteq> None \<and> write_sectors_fn (g_block t) \<noteq> None"
      using t(2) by (auto simp: bound_disk_def ahci_block_def ata_block_def split: if_splits)
    have "block_init io mc dma (Some b) c s = Some (True, c2, t)"
    proof (cases d)
      case None
      then have "r = BLOCK_PATH_PARSE_ABSENT" using False d(2) by (cases r) simp_all
      then show ?thesis using t(1) fns None by (simp add: block_init_def Let_def c x d(1))
    next
      case (Some a)
      then have "r = BLOCK_PATH_PARSE_FOUND" using d(2) by simp
      then show ?thesis using t(1) fns Some by (simp add: block_init_def Let_def c x d(1))
    qed
    moreover have e: "bk_ata ?s = bk_ata s" "bk_ahci ?s = (bk_ahci s)\<lparr>ahci_pci := p\<rparr>" by simp_all
    have "bound_disk io mc dma x ?dev ((bk_ahci s)\<lparr>ahci_pci := p\<rparr>) s t"
      using t(2) unfolding bound_disk_def e .
    ultimately show ?thesis using x d(1) False by (intro exI conjI) (assumption | simp)+
  qed
qed



end
