(* ===== verification/FatReads.thy ===== *)
theory FatReads
  imports FatDirNew FatOps
begin

text \<open>
  The operations of \<open>fat32.c\<close> that only look: on a volume whose directory chains end, every path is
  resolved, listed and read to an answer, and the volume stays what it was. \<open>chain_ends\<close> says that
  following the FAT from a cluster leaves the volume after finitely many steps, \<open>readable\<close> that this is
  so from every cluster, or that nothing is mounted.
\<close>

subsection \<open>Volumes that can be read\<close>

inductive chain_ends :: "'d fat_state \<Rightarrow> u32 \<Rightarrow> bool" for s where
  step: "(is_valid_data_cluster c s \<Longrightarrow> chain_ends s (fat32_next_cluster c s)) \<Longrightarrow> chain_ends s c"

definition readable :: "('d \<Rightarrow> nat \<Rightarrow> bytes) \<Rightarrow> 'd fat_state \<Rightarrow> bool" where
  "readable view s \<longleftrightarrow> (g_mounted s \<longrightarrow> vol_ok view s \<and> (\<forall>c. chain_ends s c))"

text \<open>What a look may change: the cluster buffer, and a disk with the same contents.\<close>

definition looked :: "('d \<Rightarrow> nat \<Rightarrow> bytes) \<Rightarrow> 'd fat_state \<Rightarrow> 'd fat_state \<Rightarrow> bool" where
  "looked view s t \<longleftrightarrow> vol_ok view t \<and> io_frame s t \<and> cluster_data view t = cluster_data view s"

lemma looked_refl: "vol_ok view s \<Longrightarrow> looked view s s"
  by (simp add: looked_def)

lemma looked_trans: "looked view s t \<Longrightarrow> looked view t u \<Longrightarrow> looked view s u"
  using io_frame_trans by (auto simp: looked_def)

lemma looked_read: "vol_ok view s \<Longrightarrow> read_cluster c s = (ok, t) \<Longrightarrow> looked view s t"
  using clusters.rd_frame by (simp add: looked_def)

lemma looked_same:
  "looked view s t \<Longrightarrow> g_mounted t = g_mounted s" "looked view s t \<Longrightarrow> g_root_cluster t = g_root_cluster s"
  "looked view s t \<Longrightarrow> fat32_next_cluster c t = fat32_next_cluster c s"
  "looked view s t \<Longrightarrow> is_valid_data_cluster c t = is_valid_data_cluster c s"
  by (simp_all add: looked_def io_frame_simps io_frame_next io_frame_valid)

lemma looked_vol: "looked view s t \<Longrightarrow> vol_ok view t"
  by (simp add: looked_def)

lemma looked_ends:
  assumes "looked view s t" and "chain_ends s c"
  shows "chain_ends t c"
  using assms(2)
proof induction
  case (step c)
  show ?case by (rule chain_ends.step) (use step looked_same(3,4) [OF assms(1)] in simp)
qed

lemma looked_readable: "looked view s t \<Longrightarrow> readable view s \<Longrightarrow> readable view t"
  using looked_ends [of view s t] looked_same(1) [of view s t] looked_vol [of view s t] by (simp add: readable_def)

lemma chain_ends_chain: "chain s c cs \<Longrightarrow> fat_bounded s \<Longrightarrow> chain_ends s c"
proof (induction cs arbitrary: c)
  case Nil
  then have "\<not> is_valid_data_cluster c s"
    using valid_in_chain [of s c] by (auto simp: in_chain_def)
  then show ?case by (intro chain_ends.step [of c s]) simp
next
  case (Cons x xs)
  then show ?case by (intro chain_ends.step [of c s]) simp
qed

text \<open>The volume afterwards, for any disk on which it was readable.\<close>

definition only_looked :: "'d fat_state \<Rightarrow> 'd fat_state \<Rightarrow> bool" where
  "only_looked s t \<longleftrightarrow> (\<forall>view. readable view s \<longrightarrow>
     readable view t \<and> (if g_mounted s then looked view s t else t = s))"

lemma only_looked_refl [simp]: "only_looked s s"
  using looked_refl by (auto simp: only_looked_def readable_def)

lemma only_looked_trans:
  assumes "only_looked s t" and "only_looked t u"
  shows "only_looked s u"
  unfolding only_looked_def
proof (intro allI impI)
  fix view assume r: "readable view s"
  then have t: "readable view t" "if g_mounted s then looked view s t else t = s"
    using assms(1) by (auto simp: only_looked_def)
  then have u: "readable view u" "if g_mounted t then looked view t u else u = t"
    using assms(2) by (auto simp: only_looked_def)
  show "readable view u \<and> (if g_mounted s then looked view s u else u = s)"
    using t u looked_trans [of view s t u] looked_same(1) [of view s t] by (auto split: if_splits)
qed

lemma only_looked_readable: "only_looked s t \<Longrightarrow> readable view s \<Longrightarrow> readable view t"
  by (auto simp: only_looked_def)

subsection \<open>Looking a name up\<close>

lemma count_lfn_before_looks:
  "vol_ok view s \<Longrightarrow> count_lfn_before c j s = (n, t) \<Longrightarrow> looked view s t"
proof (induction j arbitrary: s n)
  case 0
  then show ?case by (simp add: looked_refl)
next
  case (Suc j)
  obtain r eo s1 where rd: "read_directory_entry c (of_nat j) s = (r, eo, s1)" by (metis prod_cases3)
  have l: "looked view s s1"
    using rd Suc.prems(1) looked_read looked_refl
    by (auto simp: read_directory_entry_def split: prod.splits if_splits)
  show ?case
  proof (cases "t = s1")
    case True
    then show ?thesis using l by simp
  next
    case False
    then obtain m where "count_lfn_before c j s1 = (m, t)"
      using Suc.prems(2) rd by (auto split: option.splits if_splits prod.splits)
    then show ?thesis using Suc.IH [OF looked_vol [OF l]] looked_trans [OF l] by blast
  qed
qed

lemma find_entry_returns:
  assumes "chain_ends s0 cl" and "looked view s0 s"
  shows "\<exists>r ref t. find_entry_loop c cl base name lfn s = Some (r, ref, t) \<and> looked view s t \<and>
    (ref = None \<longrightarrow> r \<noteq> FAT32_OK)"
  using assms
proof (induction arbitrary: base lfn s rule: chain_ends.induct)
  case (step cl)
  have v: "vol_ok view s" by (rule looked_vol [OF step.prems])
  obtain ok s1 where rd: "read_cluster cl s = (ok, s1)" by fastforce
  have l1: "looked view s s1" by (rule looked_read [OF v rd])
  note unf = find_entry_loop.simps [of c cl base name lfn s]
  show ?case
  proof (cases "in_chain cl \<and> ok")
    case False
    then show ?thesis using l1 looked_refl [OF v] by (auto simp: unf rd)
  next
    case ic: True
    have val: "is_valid_data_cluster cl s0"
      using clusters.rd_buf [OF v, of cl s1] rd ic looked_same(4) [OF step.prems] by simp
    show ?thesis
    proof (cases "find_in_entries (cluster_entries s1) base name lfn")
      case Find_end
      then show ?thesis using l1 ic by (simp add: unf rd)
    next
      case (Find_hit j e lfn')
      obtain n s2 where cnt: "(if lfn_complete e lfn' then count_lfn_before c (unat j) s1 else (0, s1)) = (n, s2)"
        by fastforce
      then have "looked view s1 s2"
        using count_lfn_before_looks [OF looked_vol [OF l1]] looked_refl [OF looked_vol [OF l1]]
        by (auto split: if_splits)
      then show ?thesis using ic Find_hit cnt looked_trans [OF l1] by (simp add: unf rd)
    next
      case (Find_more lfn')
      have l01: "looked view s0 s1" by (rule looked_trans [OF step.prems l1])
      have run: "find_entry_loop c cl base name lfn s =
          find_entry_loop c (fat32_next_cluster cl s0) (base + entries_per_cluster s1) name lfn' s1"
        using ic Find_more looked_same(3) [OF l01] by (simp add: unf rd)
      show ?thesis unfolding run
        using step.IH [OF val l01, of "base + entries_per_cluster s1" lfn'] looked_trans [OF l1] by blast
    qed
  qed
qed

subsection \<open>Paths\<close>

lemma find_entry_dir_returns:
  assumes "\<forall>c. chain_ends s c" and "vol_ok view s"
  shows "\<exists>r ref t. find_entry_in_cluster_dir c name s = Some (r, ref, t) \<and> looked view s t \<and>
    (ref = None \<longrightarrow> r \<noteq> FAT32_OK)"
  unfolding find_entry_in_cluster_dir_def using assms find_entry_returns looked_refl by blast

lemma resolve_loop_returns:
  "\<forall>c. chain_ends s c \<Longrightarrow> vol_ok view s \<Longrightarrow>
   \<exists>r t. resolve_loop cursor current s = Some (r, t) \<and> looked view s t"
proof (induction "length cursor" arbitrary: cursor current s rule: less_induct)
  case less
  let ?component = "takeWhile (\<lambda>c. c \<noteq> 47) cursor"
  let ?rest = "skip_slashes (dropWhile (\<lambda>c. c \<noteq> 47) cursor)"
  let ?first = "case current of None \<Rightarrow> g_root_cluster s | Some e \<Rightarrow> entry_first_cluster e"
  note unf = resolve_loop.simps [of cursor current s]
  show ?case
  proof (cases "cursor = [] \<or> length ?component \<ge> FAT32_NAME_CAPACITY \<or> validate_long_name ?component = None \<or>
      current \<noteq> None \<and> \<not> is_directory (the current)")
    case True
    then show ?thesis using looked_refl [OF less.prems(2)] by (auto simp: unf Let_def)
  next
    case False
    obtain r ref t where f: "find_entry_in_cluster_dir ?first ?component s = Some (r, ref, t)" "looked view s t"
      using find_entry_dir_returns [OF less.prems] by blast
    have go: "resolve_loop cursor current s = (case ref of
         None \<Rightarrow> Some (Inl r, t)
       | Some ref \<Rightarrow> if ?rest \<noteq> [] \<and> \<not> is_directory (er_entry ref) then Some (Inl FAT32_NOT_A_DIRECTORY, t)
           else resolve_loop ?rest (Some (er_entry ref)) t)"
    proof -
      have "current \<noteq> None \<and> \<not> is_directory (the current) \<longleftrightarrow> False" "cursor = [] \<longleftrightarrow> False"
        "length ?component \<ge> FAT32_NAME_CAPACITY \<longleftrightarrow> False" "validate_long_name ?component = None \<longleftrightarrow> False"
        using False by blast+
      then show ?thesis unfolding unf Let_def by (simp only: if_False f(1) option.case prod.case)
    qed
    show ?thesis
    proof (cases ref)
      case None
      then show ?thesis using go f(2) by simp
    next
      case (Some a)
      have "length ?rest < length cursor" using False by (intro rest_shorter) simp
      moreover have "\<forall>c. chain_ends t c" using looked_ends [OF f(2)] less.prems(1) by blast
      ultimately obtain r' t' where "resolve_loop ?rest (Some (er_entry a)) t = Some (r', t')" "looked view t t'"
        using less.hyps looked_vol [OF f(2)] by blast
      then show ?thesis using go Some f(2) looked_trans [OF f(2)] by auto
    qed
  qed
qed

lemma resolve_path_returns:
  "\<forall>c. chain_ends s c \<Longrightarrow> vol_ok view s \<Longrightarrow> \<exists>r t. resolve_path p s = Some (r, t) \<and> looked view s t"
  unfolding resolve_path_def by (rule resolve_loop_returns)

subsection \<open>Listing and reading\<close>

text \<open>A decoded name fits the array of \<open>Fat32NodeInfo\<close>.\<close>

definition name_room :: "bytes \<Rightarrow> bool" where
  "name_room name \<longleftrightarrow> length name = FAT32_NAME_CAPACITY \<and> name ! (FAT32_NAME_CAPACITY - 1) = 0"

lemma name_room_simps:
  "name_room (replicate FAT32_NAME_CAPACITY 0)" "name_room name \<Longrightarrow> name_room (name[i := 0])"
  "name_room name \<Longrightarrow> name_room (lfn_store_character name i c)" "name_room name \<Longrightarrow> name_room (lfn_terminate_name name)"
  by (cases "i = 127"; auto simp: name_room_def lfn_store_character_def lfn_terminate_name_def FAT32_NAME_CAPACITY_def)+

lemma lfn_reset_room: "name_room (lfn_name st) \<Longrightarrow> name_room (lfn_name (lfn_state_reset st))"
  by (simp add: lfn_state_reset_def name_room_simps)

lemma lfn_store_segment_room:
  "name_room name \<Longrightarrow> name_room (snd (lfn_store_segment vs i name))"
  by (induction vs i name rule: lfn_store_segment.induct) (auto simp: name_room_simps split: option.splits)

lemma lfn_store_name_room: "name_room (lfn_name st) \<Longrightarrow> name_room (lfn_name (lfn_store_name l i st))"
  unfolding lfn_store_name_def Let_def
  using lfn_store_segment_room
  by (auto simp: name_room_simps split: prod.splits) (metis name_room_simps(4) snd_conv)+

lemma process_lfn_entry_room: "name_room (lfn_name st) \<Longrightarrow> name_room (lfn_name (process_lfn_entry e st))"
  unfolding process_lfn_entry_def Let_def
  by (auto intro!: lfn_store_name_room lfn_reset_room name_room_simps)

lemma length_cstr: "k < length buf \<Longrightarrow> buf ! k = 0 \<Longrightarrow> length (cstr buf) \<le> k"
proof (rule ccontr)
  assume k: "k < length buf" "buf ! k = 0" and "\<not> length (cstr buf) \<le> k"
  then have "k < length (cstr buf)" by simp
  then have "buf ! k = cstr buf ! k" "cstr buf ! k \<in> set (cstr buf)" by (simp add: cstr_def takeWhile_nth, rule nth_mem)
  then show False using k(2) nul_free_cstr [of buf] by (simp add: nul_free_def)
qed

lemma length_format_short_name: "length (format_short_name raw) \<le> 12"
proof -
  have le: "length (takeWhile P (take n xs)) \<le> n" for P n and xs :: bytes
    using length_takeWhile_le [of P "take n xs"] by simp
  have c: "length (cstr x) \<le> length x" for x by (simp add: cstr_def length_takeWhile_le)
  show ?thesis
    unfolding format_short_name_def Let_def
    using le [of "\<lambda>c. c \<noteq> 32" 8 raw] le [of "\<lambda>c. c \<noteq> 32" 3 "drop 8 raw"] by (intro order.trans [OF c]) simp
qed

lemma decoded_name_fits:
  assumes "name_room (lfn_name st)"
  shows "length (decode_directory_entry_name e st) < FAT32_NAME_CAPACITY"
  using assms length_cstr [of "FAT32_NAME_CAPACITY - 1" "lfn_name st"] length_format_short_name [of "de_name e"]
  by (auto simp: decode_directory_entry_name_def name_room_def FAT32_NAME_CAPACITY_def)

lemma list_entries_returns:
  "name_room (lfn_name lfn) \<Longrightarrow> \<exists>ended lfn' ctx'. list_entries callback es lfn ctx = Some (ended, lfn', ctx') \<and>
     name_room (lfn_name lfn')"
proof (induction es arbitrary: lfn ctx)
  case (Cons e es)
  note room = lfn_reset_room [OF Cons.prems] process_lfn_entry_room [OF Cons.prems, of e]
  obtain info where info: "decode_node_info e (decode_directory_entry_name e lfn) = Some info"
    using decoded_name_fits [OF Cons.prems, of e] by (simp add: decode_node_info_def)
  obtain go ctx' where cb: "callback info ctx = (go, ctx')" by fastforce
  show ?case using Cons.prems Cons.IH room by (simp add: info cb) blast
qed auto

lemma list_cluster_returns:
  assumes "chain_ends s0 cl" and "looked view s0 s" and "name_room (lfn_name lfn)"
  shows "\<exists>r ctx' t. list_cluster_loop callback cl lfn ctx s = Some (r, ctx', t) \<and> looked view s t"
  using assms
proof (induction arbitrary: lfn ctx s rule: chain_ends.induct)
  case (step cl)
  note l0 = step.prems(1)
  have v: "vol_ok view s" by (rule looked_vol [OF l0])
  obtain ok s1 where rd: "read_cluster cl s = (ok, s1)" by fastforce
  have l1: "looked view s s1" by (rule looked_read [OF v rd])
  note unf = list_cluster_loop.simps [of callback cl lfn ctx s]
  show ?case
  proof (cases "in_chain cl \<and> ok")
    case False
    then show ?thesis using l1 looked_refl [OF v] by (auto simp: unf rd)
  next
    case ic: True
    have val: "is_valid_data_cluster cl s0"
      using clusters.rd_buf [OF v, of cl s1] rd ic looked_same(4) [OF l0] by simp
    obtain ended lfn' ctx' where le: "list_entries callback (cluster_entries s1) lfn ctx = Some (ended, lfn', ctx')"
      and room: "name_room (lfn_name lfn')" using list_entries_returns [OF step.prems(2), of callback "cluster_entries s1" ctx] by auto
    have l01: "looked view s0 s1" by (rule looked_trans [OF l0 l1])
    have run: "list_cluster_loop callback cl lfn ctx s = (if ended then Some (FAT32_OK, ctx', s1)
        else list_cluster_loop callback (fat32_next_cluster cl s0) lfn' ctx' s1)"
      using ic le looked_same(3) [OF l01] by (simp add: unf rd)
    show ?thesis unfolding run
      using step.IH [OF val l01 room, of ctx'] looked_trans [OF l1] l1 by auto
  qed
qed

lemma list_dir_returns:
  assumes "\<forall>c. chain_ends s c" and "vol_ok view s"
  shows "\<exists>r ctx' t. list_cluster_dir c callback ctx s = Some (r, ctx', t) \<and> looked view s t"
  unfolding list_cluster_dir_def
  by (rule list_cluster_returns [of s]) (use assms looked_refl in \<open>simp_all add: lfn_initial_def name_room_simps\<close>)

text \<open>Reading a file ends even on a cyclic chain: every turn takes at least a byte off its size.\<close>

lemma read_file_returns:
  "vol_ok view s \<Longrightarrow> \<exists>r ctx' t. read_file_loop callback remaining cl ctx s = Some (r, ctx', t) \<and> looked view s t"
proof (induction "unat remaining" arbitrary: remaining cl ctx s rule: less_induct)
  case less
  obtain ok s1 where rd: "read_cluster cl s = (ok, s1)" by fastforce
  have l1: "looked view s s1" by (rule looked_read [OF less.prems rd])
  define chunk where "chunk = (if g_cluster_size s > remaining then remaining else g_cluster_size s)"
  obtain go ctx1 where cb: "callback (take (unat chunk) (g_cluster_buffer s1)) chunk ctx = (go, ctx1)" by fastforce
  note unf = read_file_loop.simps [of callback remaining cl ctx s]
  show ?case
  proof (cases "remaining > 0 \<and> in_chain cl")
    case False
    then show ?thesis using looked_refl [OF less.prems] by (auto simp: unf)
  next
    case True
    have run: "read_file_loop callback remaining cl ctx s =
      (if \<not> ok then Some (FAT32_IO_ERROR, ctx, s1)
       else if \<not> go then Some (FAT32_IO_ERROR, ctx1, s1)
       else read_file_loop callback (remaining - chunk) (fat32_next_cluster cl s1) ctx1 s1)"
      unfolding unf eqTrueI [OF True] if_True rd prod.case Let_def chunk_def [symmetric] cb ..
    have "0 < unat (g_cluster_size s)" "unat remaining \<noteq> 0"
      using vol_csize [OF less.prems] True by (auto simp: cluster_bytes_size_def unat_eq_0)
    then have "0 < unat chunk" "unat chunk \<le> unat remaining"
      by (auto simp: chunk_def word_less_nat_alt)
    then have "unat (remaining - chunk) < unat remaining" by (simp add: unat_diff_small)
    from less.hyps [OF this looked_vol [OF l1]] show ?thesis
      unfolding run using l1 looked_trans [OF l1] by auto (metis looked_trans [OF l1])
  qed
qed

subsection \<open>The operations\<close>

lemma last_component_short: "length (last_component_loop cs start) \<le> max (length cs - 1) (length start)"
  by (induction cs start rule: last_component_loop.induct) (auto simp: max_def split: if_splits)

lemma fat32_stat_returns:
  assumes "readable view s" and "length p < FAT32_NAME_CAPACITY"
  shows "\<exists>r t. fat32_stat (Some p) s = Some (r, t) \<and> (g_mounted s \<longrightarrow> looked view s t) \<and> (\<not> g_mounted s \<longrightarrow> t = s)"
proof (cases "g_mounted s")
  case True
  obtain r t where r: "resolve_path p s = Some (r, t)" "looked view s t"
    using resolve_path_returns [of s view p] assms(1) True by (auto simp: readable_def)
  have "length (last_component_loop p p) < FAT32_NAME_CAPACITY"
    using last_component_short [of p p] assms(2) by simp
  then have d: "\<exists>i. decode_node_info e (last_component_loop p p) = Some i" for e by (simp add: decode_node_info_def)
  have run: "fat32_stat (Some p) s = (case r of
       Inl result \<Rightarrow> Some (Inl result, t)
     | Inr None \<Rightarrow> Some (Inr \<lparr>ni_name = [47], ni_is_dir = True, ni_size = 0\<rparr>, t)
     | Inr (Some e) \<Rightarrow> do { info \<leftarrow> decode_node_info e (last_component_loop p p); Some (Inr info, t) })"
    using r(1) True by (simp add: fat32_stat_def cong: sum.case_cong option.case_cong)
  show ?thesis
  proof (cases r)
    case (Inr found)
    then show ?thesis using run r(2) True d by (cases found) (auto, metis bind.bind_lunit)
  qed (use run r(2) True in simp)
qed (simp add: fat32_stat_def)

lemma fat32_list_dir_returns:
  assumes "readable view s"
  shows "\<exists>r ctx' t. fat32_list_dir (Some p) callback ctx s = Some (r, ctx', t) \<and>
    (g_mounted s \<longrightarrow> looked view s t) \<and> (\<not> g_mounted s \<longrightarrow> t = s)"
proof (cases "g_mounted s")
  case True
  obtain r t where r: "resolve_path p s = Some (r, t)" "looked view s t"
    using resolve_path_returns [of s view p] assms(1) True by (auto simp: readable_def)
  have t: "\<forall>c. chain_ends t c" "vol_ok view t"
    using looked_ends [OF r(2)] looked_vol [OF r(2)] assms True by (auto simp: readable_def)
  have list: "\<exists>r' ctx' u. list_cluster_dir c callback ctx t = Some (r', ctx', u) \<and> looked view s u" for c
    using list_dir_returns [OF t, of c callback ctx] looked_trans [OF r(2)] by blast
  have run: "fat32_list_dir (Some p) callback ctx s = (case r of
       Inl result \<Rightarrow> Some (result, ctx, t)
     | Inr None \<Rightarrow> list_cluster_dir (g_root_cluster t) callback ctx t
     | Inr (Some e) \<Rightarrow> if \<not> is_directory e then Some (FAT32_NOT_A_DIRECTORY, ctx, t)
         else list_cluster_dir (entry_first_cluster e) callback ctx t)"
    using r(1) True by (simp add: fat32_list_dir_def cong: sum.case_cong option.case_cong)
  show ?thesis
  proof (cases r)
    case (Inr found)
    then show ?thesis using run r(2) True list by (cases found) auto
  qed (use run r(2) True in simp)
qed (simp add: fat32_list_dir_def)

lemma fat32_read_file_returns:
  assumes "readable view s"
  shows "\<exists>r ctx' t. fat32_read_file (Some p) callback ctx s = Some (r, ctx', t) \<and>
    (g_mounted s \<longrightarrow> looked view s t) \<and> (\<not> g_mounted s \<longrightarrow> t = s)"
proof (cases "g_mounted s")
  case True
  obtain r t where r: "resolve_path p s = Some (r, t)" "looked view s t"
    using resolve_path_returns [of s view p] assms(1) True by (auto simp: readable_def)
  have rd: "\<exists>r' ctx' u. read_file_loop callback n c ctx t = Some (r', ctx', u) \<and> looked view s u" for n c
    using read_file_returns [OF looked_vol [OF r(2)], of callback n c ctx] looked_trans [OF r(2)] by blast
  have run: "fat32_read_file (Some p) callback ctx s = (case r of
       Inl result \<Rightarrow> Some (result, ctx, t)
     | Inr None \<Rightarrow> Some (FAT32_IS_A_DIRECTORY, ctx, t)
     | Inr (Some e) \<Rightarrow> if is_directory e then Some (FAT32_IS_A_DIRECTORY, ctx, t)
         else read_file_loop callback (de_size e) (entry_first_cluster e) ctx t)"
    using r(1) True by (simp add: fat32_read_file_def cong: sum.case_cong option.case_cong)
  show ?thesis
  proof (cases r)
    case (Inr found)
    then show ?thesis using run r(2) True rd by (cases found) auto
  qed (use run r(2) True in simp)
qed (simp add: fat32_read_file_def)


lemma chain_ends_last: "\<not> is_valid_data_cluster (fat32_next_cluster c s) s \<Longrightarrow> chain_ends s c"
  by (intro chain_ends.step [of c s] chain_ends.step [of "fat32_next_cluster c s" s]) simp

lemma demo_readable: "readable ram_view demo_vol"
proof -
  have next_c: "fat32_next_cluster c demo_vol = (if c = 3 then 4 else if c = 2 \<or> c = 4 then 0x0FFFFFFF
      else if is_valid_data_cluster c demo_vol then 0 else FAT32_END_OF_CHAIN)" for c
    by (simp add: fat32_next_cluster_def demo_vol_def demo_fat_def is_valid_data_cluster_def)
  have inv: "\<not> is_valid_data_cluster c demo_vol" if "c = 0x0FFFFFFF \<or> c = 0 \<or> c = FAT32_END_OF_CHAIN" for c
    using that by (auto simp: is_valid_data_cluster_def demo_vol_def FAT32_END_OF_CHAIN_def)
  have rest: "chain_ends demo_vol c" if "c \<noteq> 3" for c
    using that inv by (intro chain_ends_last) (auto simp: next_c)
  have "chain_ends demo_vol c" for c
    using rest by (cases "c = 3") (auto intro!: chain_ends.step [of 3] simp: next_c)
  then show ?thesis using demo_vol_ok by (simp add: readable_def)
qed


end
