(* ===== verification/Fs.thy ===== *)
theory Fs
  imports FatReads
begin

text \<open>
  \<open>src/kernel/fs.c\<close>: the file-system interface of the kernel, over the FAT32 driver. A NULL pointer
  argument is \<open>None\<close>. \<open>fs_init\<close> is not here: it finds the disk first.
\<close>

datatype FsNodeType = FS_NODE_FILE | FS_NODE_DIR

datatype FsResult = FS_OK | FS_NOT_FOUND | FS_ALREADY_EXISTS | FS_NOT_A_DIRECTORY | FS_IS_A_DIRECTORY
  | FS_DIRECTORY_NOT_EMPTY | FS_INVALID_NAME | FS_NO_SPACE | FS_IO_ERROR

definition FS_NAME_CAPACITY :: nat where "FS_NAME_CAPACITY = 128"

record FsNodeInfo =
  fs_name :: bytes
  fs_type :: FsNodeType
  fs_size :: u32

fun map_result :: "Fat32Result \<Rightarrow> FsResult" where
  "map_result FAT32_OK = FS_OK"
| "map_result FAT32_NOT_FOUND = FS_NOT_FOUND"
| "map_result FAT32_ALREADY_EXISTS = FS_ALREADY_EXISTS"
| "map_result FAT32_NOT_A_DIRECTORY = FS_NOT_A_DIRECTORY"
| "map_result FAT32_IS_A_DIRECTORY = FS_IS_A_DIRECTORY"
| "map_result FAT32_DIRECTORY_NOT_EMPTY = FS_DIRECTORY_NOT_EMPTY"
| "map_result FAT32_INVALID_NAME = FS_INVALID_NAME"
| "map_result FAT32_NO_SPACE = FS_NO_SPACE"
| "map_result FAT32_IO_ERROR = FS_IO_ERROR"

text \<open>The loop copies the characters of a string while they fit with a NUL behind them.\<close>

definition copy_node_info :: "Fat32NodeInfo \<Rightarrow> FsNodeInfo" where
  "copy_node_info i = \<lparr>fs_name = take (FS_NAME_CAPACITY - 1) (ni_name i),
     fs_type = (if ni_is_dir i then FS_NODE_DIR else FS_NODE_FILE), fs_size = ni_size i\<rparr>"

definition fs_list_adapter ::
  "(FsNodeInfo \<Rightarrow> 'c \<Rightarrow> bool \<times> 'c) \<Rightarrow> Fat32NodeInfo \<Rightarrow> 'c \<Rightarrow> bool \<times> 'c" where
  "fs_list_adapter callback entry context = callback (copy_node_info entry) context"

definition fs_read_adapter ::
  "(bytes \<Rightarrow> u32 \<Rightarrow> 'c \<Rightarrow> bool \<times> 'c) \<Rightarrow> bytes \<Rightarrow> u32 \<Rightarrow> 'c \<Rightarrow> bool \<times> 'c" where
  "fs_read_adapter callback data sz context = callback data sz context"

text \<open>\<open>out\<close> says that the caller's pointer is not NULL; the information is the right summand.\<close>

definition fs_stat ::
  "bytes option \<Rightarrow> bool \<Rightarrow> 'd fat_state \<Rightarrow> ((FsResult + FsNodeInfo) \<times> 'd fat_state) option" where
  "fs_stat path out s =
     (if \<not> out then Some (Inl FS_IO_ERROR, s)
      else do {
        (result, s1) \<leftarrow> fat32_stat path s;
        Some (case result of Inl e \<Rightarrow> Inl (map_result e) | Inr node \<Rightarrow> Inr (copy_node_info node), s1) })"

definition fs_list_dir ::
  "bytes option \<Rightarrow> (FsNodeInfo \<Rightarrow> 'c \<Rightarrow> bool \<times> 'c) option \<Rightarrow> 'c \<Rightarrow> 'd fat_state
     \<Rightarrow> (FsResult \<times> 'c \<times> 'd fat_state) option" where
  "fs_list_dir path callback context s =
     (case callback of
        None \<Rightarrow> Some (FS_IO_ERROR, context, s)
      | Some f \<Rightarrow> do {
          (result, context', s1) \<leftarrow> fat32_list_dir path (fs_list_adapter f) context s;
          Some (map_result result, context', s1) })"

definition fs_read_file ::
  "bytes option \<Rightarrow> (bytes \<Rightarrow> u32 \<Rightarrow> 'c \<Rightarrow> bool \<times> 'c) option \<Rightarrow> 'c \<Rightarrow> 'd fat_state
     \<Rightarrow> (FsResult \<times> 'c \<times> 'd fat_state) option" where
  "fs_read_file path callback context s =
     (case callback of
        None \<Rightarrow> Some (FS_IO_ERROR, context, s)
      | Some f \<Rightarrow> do {
          (result, context', s1) \<leftarrow> fat32_read_file path (fs_read_adapter f) context s;
          Some (map_result result, context', s1) })"

definition fs_write_file ::
  "bytes option \<Rightarrow> bytes option \<Rightarrow> u32 \<Rightarrow> bool \<Rightarrow> 'd fat_state \<Rightarrow> (FsResult \<times> 'd fat_state) option" where
  "fs_write_file path data sz app s =
     do { (result, s1) \<leftarrow> fat32_write_file path data sz app s; Some (map_result result, s1) }"

definition fs_make_dir :: "bytes option \<Rightarrow> 'd fat_state \<Rightarrow> (FsResult \<times> 'd fat_state) option" where
  "fs_make_dir path s = do { (result, s1) \<leftarrow> fat32_make_dir path s; Some (map_result result, s1) }"

definition fs_remove :: "bytes option \<Rightarrow> 'd fat_state \<Rightarrow> (FsResult \<times> 'd fat_state) option" where
  "fs_remove path s = do { (result, s1) \<leftarrow> fat32_remove path s; Some (map_result result, s1) }"

definition fs_rename ::
  "bytes option \<Rightarrow> bytes option \<Rightarrow> 'd fat_state \<Rightarrow> (FsResult \<times> 'd fat_state) option" where
  "fs_rename old_path new_path s =
     do { (result, s1) \<leftarrow> fat32_rename old_path new_path s; Some (map_result result, s1) }"

lemma map_result_ok [simp]: "map_result r = FS_OK \<longleftrightarrow> r = FAT32_OK"
  by (cases r) simp_all

text \<open>Looking through the interface.\<close>

lemma looks_only:
  assumes "\<And>view. readable view s \<Longrightarrow> \<exists>r t. f s = Some (r, t) \<and> (g_mounted s \<longrightarrow> looked view s t) \<and> (\<not> g_mounted s \<longrightarrow> t = s)"
    and "readable view s"
  shows "\<exists>r t. f s = Some (r, t) \<and> only_looked s t"
proof -
  obtain r t where f: "f s = Some (r, t)" using assms by blast
  then have t: "(g_mounted s \<longrightarrow> looked v s t) \<and> (\<not> g_mounted s \<longrightarrow> t = s)" if "readable v s" for v
    using assms(1) [OF that] by auto
  have "only_looked s t"
    unfolding only_looked_def using t looked_readable [of _ s t] by (metis (full_types))
  then show ?thesis using f by blast
qed

lemma fs_stat_returns:
  assumes "readable view v" and "length p < FS_NAME_CAPACITY"
  shows "\<exists>r w. fs_stat (Some p) True v = Some (r, w) \<and> only_looked v w"
proof -
  have "length p < FAT32_NAME_CAPACITY" using assms(2) by (simp add: FS_NAME_CAPACITY_def FAT32_NAME_CAPACITY_def)
  then have "\<exists>r w. fat32_stat (Some p) v = Some (r, w) \<and> only_looked v w"
    using looks_only [of v "fat32_stat (Some p)"] fat32_stat_returns [of _ v p] assms(1) by blast
  then show ?thesis by (auto simp: fs_stat_def)
qed

lemma fs_read_file_returns:
  assumes "readable view v"
  shows "\<exists>r ctx' w. fs_read_file (Some p) (Some callback) ctx v = Some (r, ctx', w) \<and> only_looked v w"
proof -
  let ?f = "\<lambda>s. map_option (\<lambda>(r, c, t). ((r, c), t)) (fat32_read_file (Some p) (fs_read_adapter callback) ctx s)"
  have "\<exists>r t. ?f v = Some (r, t) \<and> (g_mounted v \<longrightarrow> looked view v t) \<and> (\<not> g_mounted v \<longrightarrow> t = v)"
    if "readable view v" for view
    using fat32_read_file_returns [OF that, of p "fs_read_adapter callback" ctx] by auto
  from looks_only [of v ?f, OF this assms] show ?thesis by (auto simp: fs_read_file_def)
qed

lemma fs_list_dir_returns:
  assumes "readable view v"
  shows "\<exists>r ctx' w. fs_list_dir (Some p) (Some callback) ctx v = Some (r, ctx', w) \<and> only_looked v w"
proof -
  let ?f = "\<lambda>s. map_option (\<lambda>(r, c, t). ((r, c), t)) (fat32_list_dir (Some p) (fs_list_adapter callback) ctx s)"
  have "\<exists>r t. ?f v = Some (r, t) \<and> (g_mounted v \<longrightarrow> looked view v t) \<and> (\<not> g_mounted v \<longrightarrow> t = v)"
    if "readable view v" for view
    using fat32_list_dir_returns [OF that, of p "fs_list_adapter callback" ctx] by auto
  from looks_only [of v ?f, OF this assms] show ?thesis by (auto simp: fs_list_dir_def)
qed

end
