(* ===== verification/FsInit.thy ===== *)
theory FsInit
  imports BlockInit Fs FatMount
begin

text \<open>
  \<open>fs_init\<close> of \<open>src/kernel/fs.c\<close>: the boot disk is bound and the partition of the boot information mounted.
  The mounted volume and the drivers share one device: \<open>g_disk\<close> is its state after \<open>block_init\<close>.
\<close>

definition fs_init ::
  "'d ports \<Rightarrow> 'd machine \<Rightarrow> u64 \<Rightarrow> BootInfo option \<Rightarrow> 'd block_state driver_core \<Rightarrow> 'd block_state \<Rightarrow> 'd fat_state \<Rightarrow>
     (bool \<times> 'd block_state driver_core \<times> 'd block_state \<times> 'd fat_state) option" where
  "fs_init io mc dma boot_info c s v = do {
     (ok, c, s) \<leftarrow> block_init io mc dma boot_info c s;
     let v = v\<lparr>g_block_device := g_block s, g_disk := pci_bus (ahci_pci (bk_ahci s))\<rparr>;
     if \<not> ok then Some (False, c, s, v)
     else case boot_info of
       None \<Rightarrow> None
     | Some b \<Rightarrow> (case fat32_mount (partition_lba_start b) (bytes_per_sector b) v of (ok, v) \<Rightarrow> Some (ok, c, s, v)) }"

text \<open>The four drives of the two channels: each follows the standard and has fewer than \<open>2 ^ 28\<close> sectors.\<close>

definition standard_drives :: "'d ports \<Rightarrow> (u16 \<Rightarrow> u8 \<Rightarrow> 'd ata_model) \<Rightarrow> bool" where
  "standard_drives io M \<longleftrightarrow> (\<forall>(base, ctrl) \<in> {(0x1F0, 0x3F6), (0x170, 0x376)}. \<forall>head \<in> {0xE0, 0xF0}.
     ata_drive io base ctrl head (M base head) \<and> (\<exists>cap < 2 ^ 28. drive_limit io base (M base head) cap))"

lemma ata_init_bound:
  assumes "ata_init (Some a) s0 = (True, s)"
  shows "\<exists>(base, ctrl) \<in> {(0x1F0, 0x3F6), (0x170, 0x376)}. \<exists>head \<in> {0xE0, 0xF0}. bound_to base ctrl head s"
  using assms by (auto simp: ata_init_def bound_to_def Let_def ATA_PRIMARY_IO_BASE_def ATA_PRIMARY_CTRL_BASE_def
    ATA_SECONDARY_IO_BASE_def ATA_SECONDARY_CTRL_BASE_def split: if_splits)

lemma standard_drive_law:
  assumes "standard_drives io M" and "ata_init (Some a) s0 = (True, s)"
  shows "disk_law (ata_block io s) (disk_of (M (g_ata_io_base s) (g_ata_drive_head s)))"
proof -
  obtain base ctrl head where b: "(base, ctrl) \<in> {(0x1F0, 0x3F6), (0x170, 0x376)}" "head \<in> {0xE0, 0xF0}" "bound_to base ctrl head s"
    using ata_init_bound [OF assms(2)] by fastforce
  then obtain cap where "ata_drive io base ctrl head (M base head)" "cap < 2 ^ 28" "drive_limit io base (M base head) cap"
    using assms(1) unfolding standard_drives_def by blast
  from ata_block_law [OF this(1,3,2) assms(2) b(3)] show ?thesis using b(3) by (simp add: bound_to_def)
qed

lemma fs_init_mounts:
  assumes "unat (boot_device_path_size b) \<le> length (boot_device_path b)"
    and "length (g_registered c) = DRIVER_MAX_REGISTERED" and "kernel_ok (ahci_paging (bk_ahci s))" and "bars_low io"
    and "block_boot_path_to_ahci io (Some b) (ahci_pci (bk_ahci s)) = Some (None, p)" and "standard_drives io M"
    and "length (g_sector_buffer v) = SECTOR"
    and "\<And>base head. unat (partition_lba_start b) +
      unat (boot_total_sectors (boot_sector_of (disk_of (M base head) (pci_bus p) (unat (partition_lba_start b))))) < 2 ^ 32"
  shows "\<exists>ok c' t v'. fs_init io mc dma (Some b) c s v = Some (ok, c', t, v') \<and>
    (ok \<longrightarrow> g_mounted v' \<and> vol_ok (disk_of (M (g_ata_io_base (bk_ata t)) (g_ata_drive_head (bk_ata t)))) v' \<and>
      bk_ahci t = (bk_ahci s)\<lparr>ahci_pci := p\<rparr>)"
proof -
  obtain r d c' t where init: "block_init io mc dma (Some b) c s = Some (r \<noteq> BLOCK_PATH_PARSE_INVALID, c', t)"
    and bound: "r \<noteq> BLOCK_PATH_PARSE_INVALID \<Longrightarrow>
      bound_disk io mc dma None (case d of None \<Rightarrow> block_default_ata_device | Some d \<Rightarrow> d) ((bk_ahci s)\<lparr>ahci_pci := p\<rparr>) s t"
  proof -
    obtain x q r d c' t where b: "block_boot_path_to_ahci io (Some b) (ahci_pci (bk_ahci s)) = Some (x, q)"
      "block_init io mc dma (Some b) c s = Some (r \<noteq> BLOCK_PATH_PARSE_INVALID, c', t)"
      "r \<noteq> BLOCK_PATH_PARSE_INVALID \<Longrightarrow>
        bound_disk io mc dma x (case d of None \<Rightarrow> block_default_ata_device | Some d \<Rightarrow> d) ((bk_ahci s)\<lparr>ahci_pci := q\<rparr>) s t"
      using block_init_bound [OF assms(1-4), of mc dma] by (auto split: if_splits)
    have "x = None" "q = p" using b(1) assms(5) by simp_all
    then show thesis using b(2,3) by (intro that [of r c' t d]) simp_all
  qed
  show ?thesis
  proof (cases "r = BLOCK_PATH_PARSE_INVALID")
    case True
    then show ?thesis by (intro exI [of _ False] exI [of _ c'] exI [of _ t] exI) (simp add: fs_init_def init)
  next
    case False
    let ?d = "case d of None \<Rightarrow> block_default_ata_device | Some d \<Rightarrow> d"
    let ?M = "M (g_ata_io_base (bk_ata t)) (g_ata_drive_head (bk_ata t))"
    have t: "bk_ahci t = (bk_ahci s)\<lparr>ahci_pci := p\<rparr>" "ata_init (Some ?d) (bk_ata s) = (True, bk_ata t)"
      "g_block t = ata_block io (bk_ata t)"
      using bound [OF False] by (simp_all add: bound_disk_def)
    let ?v = "v\<lparr>g_block_device := g_block t, g_disk := pci_bus (ahci_pci (bk_ahci t))\<rparr>"
    obtain ok v' where m: "fat32_mount (partition_lba_start b) (bytes_per_sector b) ?v = (ok, v')" by fastforce
    have law: "disk_law (g_block_device ?v) (disk_of ?M)" using standard_drive_law [OF assms(6) t(2)] by (simp add: t(3))
    have "vol_ok (disk_of ?M) v' \<and> g_mounted v'" if ok
      using fat32_mount_establishes_volume_lemma [OF law _ m [unfolded eqTrueI [OF that]]] assms(7,8) by (simp add: t(1))
    moreover have "fs_init io mc dma (Some b) c s v = Some (ok, c', t, v')" using False m by (simp add: fs_init_def init)
    ultimately show ?thesis using t(1) by blast
  qed
qed

text \<open>When the boot path leads to no AHCI port and the drives of the two ATA channels follow the
  standard, \<open>fs_init\<close> returns, and a volume it reports mounted satisfies the volume invariant over the sectors
  of the drive that is bound: the contract \<open>disk_law\<close> of the file-system theorems is the drive's own.\<close>

theorem fs_init_mounts_boot_volume:
  assumes "unat (boot_device_path_size b) \<le> length (boot_device_path b)"
    and "length (g_registered c) = DRIVER_MAX_REGISTERED" and "kernel_ok (ahci_paging (bk_ahci s))" and "bars_low io"
    and "block_boot_path_to_ahci io (Some b) (ahci_pci (bk_ahci s)) = Some (None, p)" and "standard_drives io M"
    and "length (g_sector_buffer v) = SECTOR"
    and "\<And>base head. unat (partition_lba_start b) +
      unat (boot_total_sectors (boot_sector_of (disk_of (M base head) (pci_bus p) (unat (partition_lba_start b))))) < 2 ^ 32"
  shows "\<exists>ok c' t v'. fs_init io mc dma (Some b) c s v = Some (ok, c', t, v') \<and>
    (ok \<longrightarrow> g_mounted v' \<and> vol_ok (disk_of (M (g_ata_io_base (bk_ata t)) (g_ata_drive_head (bk_ata t)))) v')"
  using fs_init_mounts [OF assms, of mc dma] by blast

text \<open>The drive of \<open>Ata\<close> on the primary channel and nothing on the secondary one.\<close>

definition no_drive :: "demo_drive ata_model" where
  "no_drive = \<lparr>regs_of = dd_regs, phase_of = (\<lambda>_. No_data), free_of = (\<lambda>_. False), disk_of = (\<lambda>_ _. replicate 512 0)\<rparr>"

definition demo_drives :: "u16 \<Rightarrow> u8 \<Rightarrow> demo_drive ata_model" where
  "demo_drives base head = (if base = 0x1F0 then demo_ata_model else no_drive)"

lemma demo_no_drive: "ata_drive demo_ata_ports 0x170 0x376 head no_drive"
  by (auto simp: ata_drive_def drive_status_def drive_alt_status_def drive_registers_def drive_command_def drive_reads_def
    drive_writes_def no_drive_def demo_ata_ports_def quiet_port_def SECTOR_def status_drq_def ATA_STATUS_BSY_def Let_def split: ata_phase.splits)

lemma demo_standard_drives: "standard_drives demo_ata_ports demo_drives"
proof -
  have "drive_limit demo_ata_ports 0x170 no_drive 1000" by (simp add: drive_limit_def no_drive_def)
  then show ?thesis
    using demo_ata_drive demo_drive_limit demo_no_drive by (auto simp: standard_drives_def demo_drives_def intro!: exI [of _ 1000])
qed

definition demo_volume :: "demo_drive fat_state" where
  "demo_volume = \<lparr>g_fat = (\<lambda>c. 0), g_sector_buffer = replicate 512 0, g_cluster_buffer = replicate 4096 0,
     g_mounted = False, g_bytes_per_sector = 0, g_sectors_per_cluster = 0, g_fat_count = 0,
     g_reserved_sectors = 0, g_sectors_per_fat = 0, g_partition_lba = 0, g_root_cluster = 0,
     g_data_lba = 0, g_cluster_size = 0, g_total_clusters = 0, g_fat_lba = 0,
     g_block_device = g_block demo_disks, g_disk = pci_bus (ahci_pci (bk_ahci demo_disks))\<rparr>"

theorem fs_init_mounts_boot_volume_witness:
  "\<exists>ok c t v. fs_init demo_ata_ports demo_machine 0 (Some demo_path_boot)
      \<lparr>g_registered = replicate 16 None, g_registered_count = 0\<rparr> demo_disks
      demo_volume = Some (ok, c, t, v) \<and>
    (ok \<longrightarrow> g_mounted v)"
proof -
  have len: "unat (boot_device_path_size demo_path_boot) \<le> length (boot_device_path demo_path_boot)"
    by (simp add: demo_path_boot_def path_bytes_def)
  have k: "kernel_ok (ahci_paging (bk_ahci demo_disks))" using demo_kernel_ok by (simp add: demo_disks_def)
  have c: "length (g_registered \<lparr>g_registered = replicate 16 None, g_registered_count = 0\<rparr>) = DRIVER_MAX_REGISTERED"
    by (simp add: DRIVER_MAX_REGISTERED_def)
  have zero: "disk_of (demo_drives base head) (pci_bus (ahci_pci (bk_ahci demo_disks))) l = replicate 512 0" for base head l
    by (simp add: demo_drives_def demo_ata_model_def no_drive_def demo_disks_def ram_view_def SECTOR_def)
  have fits: "unat (partition_lba_start demo_path_boot) + unat (boot_total_sectors (boot_sector_of
      (disk_of (demo_drives base head) (pci_bus (ahci_pci (bk_ahci demo_disks))) (unat (partition_lba_start demo_path_boot))))) < 2 ^ 32"
    for base head
    unfolding zero by (simp add: boot_sector_of_def boot_total_sectors_def le16_at_def le32_at_def of_le16_def of_le32_def
      demo_path_boot_def demo_boot_def)
  have b: "length (g_sector_buffer demo_volume) = SECTOR" by (simp add: demo_volume_def SECTOR_def)
  from fs_init_mounts_boot_volume [OF len c k demo_bars_low demo_path_parsed(2) demo_standard_drives b fits, of demo_machine 0]
  show ?thesis by blast
qed

end
