(* ===== verification/Process.thy ===== *)
theory Process
  imports Keyboard Fs PagingBoot
begin

text \<open>
  \<open>src/kernel/process.c\<close>, \<open>process.h\<close> and the dispatcher of \<open>trap.c\<close>: arguments, ELF images, the
  address space of the foreground program, its execution and its system calls.

  The state of the kernel is the console's together with the paging state (and in it the page
  allocator), the mounted volume, the bytes of physical memory and the one \<open>Process\<close> object. Kernel
  code reads and writes physical memory at its own addresses, which every root maps to themselves; an
  access to a program's memory goes through the translation of the active root and is \<open>None\<close>, a
  page fault in the kernel, where there is none. Addresses of objects of the kernel image are the
  parameter \<open>process_env\<close>.
\<close>

subsection \<open>Types\<close>

definition PROCESS_MAX_FILE_SIZE :: u64 where "PROCESS_MAX_FILE_SIZE = 131072"
definition PROCESS_MAX_ARGS :: u64 where "PROCESS_MAX_ARGS = 8"
definition PROCESS_ARG_BUFFER_SIZE :: u32 where "PROCESS_ARG_BUFFER_SIZE = 256"
definition PT_LOAD :: u32 where "PT_LOAD = 1"
definition ELF_MAGIC :: u32 where "ELF_MAGIC = 0x464C457F"
definition ELFCLASS64 :: u8 where "ELFCLASS64 = 2"
definition EM_X86_64 :: u16 where "EM_X86_64 = 62"
definition PROGRAM_INFO_MAGIC :: u32 where "PROGRAM_INFO_MAGIC = 0x4D524750"
definition PROGRAM_SYSCALL_VECTOR :: u64 where "PROGRAM_SYSCALL_VECTOR = 0x80"
definition PROGRAM_SYSCALL_EXIT :: u32 where "PROGRAM_SYSCALL_EXIT = 0"
definition PROGRAM_SYSCALL_WRITE :: u32 where "PROGRAM_SYSCALL_WRITE = 1"
definition PROGRAM_SYSCALL_READ_LINE :: u32 where "PROGRAM_SYSCALL_READ_LINE = 2"
definition PROCESS_ABI_STACK_SIZE :: u64 where "PROCESS_ABI_STACK_SIZE = 65536"
definition PROCESS_ABI_STACK_TOP :: u64 where "PROCESS_ABI_STACK_TOP = PROCESS_ABI_REGION_END"
definition PROCESS_ABI_STACK_BASE :: u64 where "PROCESS_ABI_STACK_BASE = PROCESS_ABI_STACK_TOP - PROCESS_ABI_STACK_SIZE"
definition PROCESS_ABI_STACK_GAP :: u64 where "PROCESS_ABI_STACK_GAP = 4096"
definition PROCESS_ABI_IMAGE_BASE :: u64 where "PROCESS_ABI_IMAGE_BASE = PROCESS_ABI_REGION_START"
definition PROCESS_ABI_IMAGE_LIMIT :: u64 where "PROCESS_ABI_IMAGE_LIMIT = PROCESS_ABI_STACK_BASE - PROCESS_ABI_STACK_GAP"

record Elf64Header =
  e_magic :: u32
  e_class :: u8
  e_data :: u8
  e_ident_version :: u8
  e_osabi :: u8
  e_abiversion :: u8
  e_type :: u16
  e_machine :: u16
  e_version :: u32
  e_entry :: u64
  e_phoff :: u64
  e_shoff :: u64
  e_flags :: u32
  e_ehsize :: u16
  e_phentsize :: u16
  e_phnum :: u16
  e_shentsize :: u16
  e_shnum :: u16
  e_shstrndx :: u16

record Elf64ProgramHeader =
  p_type :: u32
  p_flags :: u32
  p_offset :: u64
  p_vaddr :: u64
  p_paddr :: u64
  p_filesz :: u64
  p_memsz :: u64
  p_align :: u64

definition le64_at :: "bytes \<Rightarrow> nat \<Rightarrow> u64" where
  "le64_at b i = ucast (le32_at b i) OR push_bit 32 (ucast (le32_at b (i + 4)))"

definition le64 :: "u64 \<Rightarrow> bytes" where
  "le64 q = le32 (ucast q) @ le32 (ucast (drop_bit 32 q))"

definition ELF_HEADER_SIZE :: nat where "ELF_HEADER_SIZE = 64"
definition ELF_PROGRAM_HEADER_SIZE :: nat where "ELF_PROGRAM_HEADER_SIZE = 56"

text \<open>The packed structs read from their bytes.\<close>

definition elf_header_of :: "bytes \<Rightarrow> Elf64Header" where
  "elf_header_of b = \<lparr>e_magic = le32_at b 0, e_class = b ! 4, e_data = b ! 5, e_ident_version = b ! 6,
     e_osabi = b ! 7, e_abiversion = b ! 8, e_type = le16_at b 16, e_machine = le16_at b 18,
     e_version = le32_at b 20, e_entry = le64_at b 24, e_phoff = le64_at b 32, e_shoff = le64_at b 40,
     e_flags = le32_at b 48, e_ehsize = le16_at b 52, e_phentsize = le16_at b 54, e_phnum = le16_at b 56,
     e_shentsize = le16_at b 58, e_shnum = le16_at b 60, e_shstrndx = le16_at b 62\<rparr>"

definition program_header_of :: "bytes \<Rightarrow> Elf64ProgramHeader" where
  "program_header_of b = \<lparr>p_type = le32_at b 0, p_flags = le32_at b 4, p_offset = le64_at b 8,
     p_vaddr = le64_at b 16, p_paddr = le64_at b 24, p_filesz = le64_at b 32, p_memsz = le64_at b 40,
     p_align = le64_at b 48\<rparr>"

datatype ProcessState = PROCESS_STATE_IDLE | PROCESS_STATE_LOADED | PROCESS_STATE_RUNNING | PROCESS_STATE_EXITED

record ProcessAddressSpace =
  page_table_root :: u64
  image_base :: u64
  stack_base :: u64
  stack_top :: u64
  image_capacity :: u64
  image_page_count :: u64
  image_backing :: u64
  stack_size :: u64
  stack_page_count :: u64
  stack_backing :: u64
  file_capacity :: u64
  file_page_count :: u64
  file_buffer :: u64

record ProgramInfo =
  pi_magic :: u32
  pi_reserved :: u32
  pi_argc :: u64
  pi_argv_addr :: u64
  pi_cwd_addr :: u64

record ProcessImage =
  entry_point :: u64
  im_file_size :: u32
  im_file_buffer :: u64

record ProcessRuntime =
  info :: ProgramInfo
  rt_cwd :: bytes
  rt_arg_buffer :: bytes
  rt_argv :: "u64 list"
  user_info_addr :: u64
  exit_status :: u32
  exit_requested :: bool

record Process =
  pr_state :: ProcessState
  address_space :: ProcessAddressSpace
  pr_image :: ProcessImage
  runtime :: ProcessRuntime

record process_env =
  kernel_image_end :: u64
  arg_buffer_at :: u64
  argv_at :: u64
  cwd_at :: u64

record ProcessLoadContext =
  lc_dst :: u64
  lc_capacity :: u32
  lc_size :: u32

record TrapFrame =
  tf_rsp :: u64
  tf_rax :: u64
  tf_rbx :: u64
  tf_rcx :: u64
  tf_rdx :: u64
  tf_rbp :: u64
  tf_rdi :: u64
  tf_rsi :: u64
  tf_r8 :: u64
  tf_r9 :: u64
  tf_r10 :: u64
  tf_r11 :: u64
  tf_r12 :: u64
  tf_r13 :: u64
  tf_r14 :: u64
  tf_r15 :: u64
  tf_vector :: u64
  tf_error_code :: u64
  tf_rip :: u64
  tf_cs :: u64
  tf_rflags :: u64

record 'd kernel_state = console_state +
  paging :: paging_state
  volume :: "'d fat_state"
  ram :: "u64 \<Rightarrow> u8"
  g_foreground_process :: Process
  g_active_process :: bool

abbreviation space :: "'d kernel_state \<Rightarrow> ProcessAddressSpace" where
  "space s \<equiv> address_space (g_foreground_process s)"

abbreviation rt :: "'d kernel_state \<Rightarrow> ProcessRuntime" where
  "rt s \<equiv> runtime (g_foreground_process s)"

definition with_space :: "(ProcessAddressSpace \<Rightarrow> ProcessAddressSpace) \<Rightarrow> 'd kernel_state \<Rightarrow> 'd kernel_state" where
  "with_space f s = s\<lparr>g_foreground_process := (g_foreground_process s)\<lparr>address_space := f (space s)\<rparr>\<rparr>"

definition with_runtime :: "(ProcessRuntime \<Rightarrow> ProcessRuntime) \<Rightarrow> 'd kernel_state \<Rightarrow> 'd kernel_state" where
  "with_runtime f s = s\<lparr>g_foreground_process := (g_foreground_process s)\<lparr>runtime := f (rt s)\<rparr>\<rparr>"

definition with_image :: "(ProcessImage \<Rightarrow> ProcessImage) \<Rightarrow> 'd kernel_state \<Rightarrow> 'd kernel_state" where
  "with_image f s = s\<lparr>g_foreground_process := (g_foreground_process s)\<lparr>pr_image := f (pr_image (g_foreground_process s))\<rparr>\<rparr>"

definition with_state :: "ProcessState \<Rightarrow> 'd kernel_state \<Rightarrow> 'd kernel_state" where
  "with_state st s = s\<lparr>g_foreground_process := (g_foreground_process s)\<lparr>pr_state := st\<rparr>\<rparr>"

subsection \<open>Memory\<close>

definition k_alloc_pages :: "u64 \<Rightarrow> 'd kernel_state \<Rightarrow> u64 \<times> 'd kernel_state" where
  "k_alloc_pages n s = (case alloc_pages n (pg_mem (paging s)) of (p, m) \<Rightarrow>
     (p, s\<lparr>paging := (paging s)\<lparr>pg_mem := m\<rparr>\<rparr>))"

definition k_free_pages :: "u64 \<Rightarrow> u64 \<Rightarrow> 'd kernel_state \<Rightarrow> 'd kernel_state" where
  "k_free_pages p n s = s\<lparr>paging := (paging s)\<lparr>pg_mem := free_pages p n (pg_mem (paging s))\<rparr>\<rparr>"

definition active_translation :: "'d kernel_state \<Rightarrow> u64 \<Rightarrow> mapping option" where
  "active_translation s v = translate (pg_tables (paging s)) (paging_current_root (paging s)) v"

text \<open>The kernel's accesses to a program's memory, under CR0.WP.\<close>

definition user_store :: "u64 \<Rightarrow> u8 \<Rightarrow> 'd kernel_state \<Rightarrow> 'd kernel_state option" where
  "user_store v b s =
     (case active_translation s v of
        None \<Rightarrow> None
      | Some m \<Rightarrow> if m_writable m then Some (s\<lparr>ram := (ram s)(m_phys m := b)\<rparr>) else None)"

definition user_load :: "u64 \<Rightarrow> 'd kernel_state \<Rightarrow> u8 option" where
  "user_load v s = map_option (\<lambda>m. ram s (m_phys m)) (active_translation s v)"

definition user_memset :: "u64 \<Rightarrow> u8 \<Rightarrow> nat \<Rightarrow> 'd kernel_state \<Rightarrow> 'd kernel_state option" where
  "user_memset dst b n s = for_each (\<lambda>i. user_store (dst + of_nat i) b) [0..<n] s"

definition user_write :: "u64 \<Rightarrow> bytes \<Rightarrow> 'd kernel_state \<Rightarrow> 'd kernel_state option" where
  "user_write dst bs s = for_each (\<lambda>i. user_store (dst + of_nat i) (bs ! i)) [0..<length bs] s"

text \<open>\<open>k_memcpy\<close> from the kernel's memory to the program's.\<close>

definition user_memcpy :: "u64 \<Rightarrow> u64 \<Rightarrow> nat \<Rightarrow> 'd kernel_state \<Rightarrow> 'd kernel_state option" where
  "user_memcpy dst src n s = for_each (\<lambda>i s. user_store (dst + of_nat i) (ram s (src + of_nat i)) s) [0..<n] s"

fun user_read :: "u64 \<Rightarrow> nat \<Rightarrow> 'd kernel_state \<Rightarrow> bytes option" where
  "user_read v 0 s = Some []"
| "user_read v (Suc n) s = do { b \<leftarrow> user_load v s; bs \<leftarrow> user_read (v + 1) n s; Some (b # bs) }"

definition ram_bytes :: "(u64 \<Rightarrow> u8) \<Rightarrow> u64 \<Rightarrow> nat \<Rightarrow> bytes" where
  "ram_bytes r p n = map (\<lambda>i. r (p + of_nat i)) [0..<n]"

definition ram_write :: "u64 \<Rightarrow> bytes \<Rightarrow> (u64 \<Rightarrow> u8) \<Rightarrow> u64 \<Rightarrow> u8" where
  "ram_write p bs r = fold (\<lambda>i r. r(p + of_nat i := bs ! i)) [0..<length bs] r"

definition say :: "string \<Rightarrow> 'd kernel_state \<Rightarrow> 'd kernel_state option" where
  "say str s = console_write_line (map of_char str) s"

definition say_false :: "string \<Rightarrow> 'd kernel_state \<Rightarrow> (bool \<times> 'd kernel_state) option" where
  "say_false str s = do { s \<leftarrow> say str s; Some (False, s) }"

subsection \<open>Arithmetic and ranges\<close>

definition bytes_to_pages :: "u64 \<Rightarrow> u64" where
  "bytes_to_pages n = (n + PAGE_SIZE - 1) div PAGE_SIZE"

definition align_down_page :: "u64 \<Rightarrow> u64" where
  "align_down_page value = value AND NOT (PAGE_SIZE - 1)"

definition align_up_page :: "u64 \<Rightarrow> u64" where
  "align_up_page value = (value + PAGE_SIZE - 1) AND NOT (PAGE_SIZE - 1)"

fun decimal_digits :: "nat \<Rightarrow> u32 \<Rightarrow> u8 list \<Rightarrow> u8 list" where
  "decimal_digits 0 value digits = digits"
| "decimal_digits (Suc n) value digits =
     (if value \<noteq> 0 then decimal_digits n (value div 10) (ucast (48 + value mod 10) # digits) else digits)"

text \<open>At most ten digits, pushed in the order they leave the buffer.\<close>

definition process_write_u32 :: "u32 \<Rightarrow> 'a console_state_scheme \<Rightarrow> 'a console_state_scheme option" where
  "process_write_u32 value s =
     (if value = 0 then console_write_char 48 s else for_each console_write_char (decimal_digits 10 value []) s)"

definition process_range_contains :: "u64 \<Rightarrow> u64 \<Rightarrow> u64 \<Rightarrow> u64 \<Rightarrow> bool" where
  "process_range_contains base sz ptr len =
     (if len = 0 then True
      else if ptr < base then False
      else let offset = ptr - base in if offset > sz then False else len \<le> sz - offset)"

definition process_user_range_valid :: "'d kernel_state \<Rightarrow> u64 \<Rightarrow> u64 \<Rightarrow> bool" where
  "process_user_range_valid s ptr len =
     (process_range_contains (image_base (space s)) (image_capacity (space s)) ptr len \<or>
      process_range_contains (stack_base (space s)) (stack_size (space s)) ptr len)"


subsection \<open>Loading the arguments\<close>

definition process_zero :: Process where
  "process_zero = \<lparr>pr_state = PROCESS_STATE_IDLE,
     address_space = \<lparr>page_table_root = 0, image_base = 0, stack_base = 0, stack_top = 0,
       image_capacity = 0, image_page_count = 0, image_backing = 0, stack_size = 0, stack_page_count = 0,
       stack_backing = 0, file_capacity = 0, file_page_count = 0, file_buffer = 0\<rparr>,
     pr_image = \<lparr>entry_point = 0, im_file_size = 0, im_file_buffer = 0\<rparr>,
     runtime = \<lparr>info = \<lparr>pi_magic = 0, pi_reserved = 0, pi_argc = 0, pi_argv_addr = 0, pi_cwd_addr = 0\<rparr>,
       rt_cwd = replicate PATH_CAPACITY 0, rt_arg_buffer = replicate (unat PROCESS_ARG_BUFFER_SIZE) 0,
       rt_argv = replicate (unat PROCESS_MAX_ARGS) 0, user_info_addr = 0, exit_status = 0,
       exit_requested = False\<rparr>\<rparr>"

definition process_reset_fields :: "'d kernel_state \<Rightarrow> 'd kernel_state" where
  "process_reset_fields s =
     (let s = s\<lparr>g_foreground_process := process_zero\<rparr> in
      with_space (\<lambda>a. a\<lparr>stack_size := PROCESS_ABI_STACK_SIZE, stack_base := PROCESS_ABI_STACK_BASE,
        stack_top := PROCESS_ABI_STACK_TOP, stack_page_count := bytes_to_pages PROCESS_ABI_STACK_SIZE,
        file_capacity := PROCESS_MAX_FILE_SIZE, file_page_count := bytes_to_pages PROCESS_MAX_FILE_SIZE\<rparr>)
        (with_state PROCESS_STATE_IDLE s))"

definition process_prepare_runtime :: "'d kernel_state \<Rightarrow> 'd kernel_state" where
  "process_prepare_runtime s =
     with_runtime (\<lambda>r. r\<lparr>info := (info r)\<lparr>pi_magic := PROGRAM_INFO_MAGIC, pi_reserved := 0\<rparr>,
       user_info_addr := 0, exit_status := 0, exit_requested := False\<rparr>) s"

definition process_init :: "'d kernel_state \<Rightarrow> 'd kernel_state" where
  "process_init s = process_prepare_runtime (process_reset_fields s)"

text \<open>One word from \<open>cursor\<close> into the buffer at \<open>offset\<close>, up to a character that stops it: whether it fits,
  the rest of the input, the offset and the buffer.\<close>

fun copy_word :: "(u8 \<Rightarrow> bool) \<Rightarrow> bytes \<Rightarrow> u32 \<Rightarrow> bytes \<Rightarrow> (bool \<times> bytes \<times> u32 \<times> bytes) option" where
  "copy_word stop [] offset buffer = Some (True, [], offset, buffer)"
| "copy_word stop (c # cursor) offset buffer =
     (if stop c then Some (True, c # cursor, offset, buffer)
      else if offset + 1 \<ge> PROCESS_ARG_BUFFER_SIZE then Some (False, c # cursor, offset, buffer)
      else do { buffer \<leftarrow> store buffer (unat offset) c; copy_word stop cursor (offset + 1) buffer })"

partial_function (option) args_loop ::
  "u64 \<Rightarrow> bytes \<Rightarrow> u64 \<Rightarrow> u32 \<Rightarrow> bytes \<Rightarrow> u64 list \<Rightarrow> (bool \<times> u64 \<times> bytes \<times> u64 list) option" where
  "args_loop buffer_at cursor argc offset buffer argv =
     (case dropWhile k_is_space cursor of
        [] \<Rightarrow> Some (True, argc, buffer, argv)
      | word \<Rightarrow>
          if argc \<ge> PROCESS_MAX_ARGS then Some (False, argc, buffer, argv)
          else do {
            (ok, rest, finish, buffer) \<leftarrow> copy_word k_is_space word offset buffer;
            if \<not> ok then Some (False, argc, buffer, argv)
            else do {
              buffer \<leftarrow> store buffer (unat finish) 0;
              argv \<leftarrow> store argv (unat argc) (buffer_at + ucast offset);
              args_loop buffer_at rest (argc + 1) (finish + 1) buffer argv } })"

definition process_tokenize_args ::
  "process_env \<Rightarrow> bytes option \<Rightarrow> bytes option \<Rightarrow> 'd kernel_state \<Rightarrow> (bool \<times> 'd kernel_state) option" where
  "process_tokenize_args env command argument_line s =
     (let s = with_runtime (\<lambda>r. r\<lparr>rt_arg_buffer := replicate (length (rt_arg_buffer r)) 0,
                                  rt_argv := replicate (length (rt_argv r)) 0\<rparr>) s
      in case command of
        None \<Rightarrow> Some (False, s)
      | Some [] \<Rightarrow> Some (False, s)
      | Some command \<Rightarrow> do {
          (ok, rest, offset, buffer) \<leftarrow> copy_word (\<lambda>c. False) command 0 (rt_arg_buffer (rt s));
          if \<not> ok then Some (False, with_runtime (\<lambda>r. r\<lparr>rt_arg_buffer := buffer\<rparr>) s)
          else do {
            buffer \<leftarrow> store buffer (unat offset) 0;
            argv \<leftarrow> store (rt_argv (rt s)) 0 (arg_buffer_at env);
            let line = (case argument_line of None \<Rightarrow> [] | Some l \<Rightarrow> l);
            (ok, argc, buffer, argv) \<leftarrow> args_loop (arg_buffer_at env) line 1 (offset + 1) buffer argv;
            let s = with_runtime (\<lambda>r. r\<lparr>rt_arg_buffer := buffer, rt_argv := argv\<rparr>) s;
            if \<not> ok then Some (False, s)
            else Some (True, with_runtime (\<lambda>r. r\<lparr>info := (info r)\<lparr>pi_argc := argc,
                   pi_argv_addr := argv_at env, pi_cwd_addr := cwd_at env\<rparr>\<rparr>) s) } })"

subsection \<open>The image\<close>

definition elf_header :: "'d kernel_state \<Rightarrow> Elf64Header" where
  "elf_header s = elf_header_of (ram_bytes (ram s) (im_file_buffer (pr_image (g_foreground_process s))) ELF_HEADER_SIZE)"

text \<open>Program header \<open>index\<close>, from the file buffer.\<close>

definition segment :: "'d kernel_state \<Rightarrow> nat \<Rightarrow> Elf64ProgramHeader" where
  "segment s index = (let header = elf_header s; buf = im_file_buffer (pr_image (g_foreground_process s)) in
     program_header_of (ram_bytes (ram s)
       (buf + e_phoff header + of_nat index * ucast (e_phentsize header)) ELF_PROGRAM_HEADER_SIZE))"

definition segments :: "'d kernel_state \<Rightarrow> Elf64ProgramHeader list" where
  "segments s = map (segment s) [0..<unat (e_phnum (elf_header s))]"

definition segment_outside_file :: "Elf64ProgramHeader \<Rightarrow> u32 \<Rightarrow> bool" where
  "segment_outside_file g file_size \<longleftrightarrow>
     p_offset g > ucast file_size \<or> p_filesz g > ucast file_size - p_offset g \<or> p_filesz g > p_memsz g"

fun scan_segments ::
  "Elf64ProgramHeader list \<Rightarrow> u32 \<Rightarrow> u64 \<times> u64 \<times> bool \<Rightarrow> string + (u64 \<times> u64 \<times> bool)" where
  "scan_segments [] file_size acc = Inr acc"
| "scan_segments (g # gs) file_size (image_min, image_end, has_load_segment) =
     (if p_type g \<noteq> PT_LOAD then scan_segments gs file_size (image_min, image_end, has_load_segment)
      else if segment_outside_file g file_size then Inl ''invalid program''
      else if p_vaddr g < PROCESS_ABI_IMAGE_BASE \<or> p_vaddr g \<ge> PROCESS_ABI_IMAGE_LIMIT \<or>
              p_memsz g > PROCESS_ABI_IMAGE_LIMIT - p_vaddr g
      then Inl ''program too large''
      else let segment_start = align_down_page (p_vaddr g); segment_end = align_up_page (p_vaddr g + p_memsz g) in
        scan_segments gs file_size
          (if segment_start < image_min then segment_start else image_min,
           if segment_end > image_end then segment_end else image_end, True))"

definition process_configure_image_layout ::
  "process_env \<Rightarrow> u32 \<Rightarrow> 'd kernel_state \<Rightarrow> (bool \<times> 'd kernel_state) option" where
  "process_configure_image_layout env file_size s =
     (let header = elf_header s in
      if unat file_size < ELF_HEADER_SIZE then say_false ''invalid program'' s
      else if e_magic header \<noteq> ELF_MAGIC \<or> e_class header \<noteq> ELFCLASS64 \<or> e_machine header \<noteq> EM_X86_64 \<or>
              unat (e_phentsize header) \<noteq> ELF_PROGRAM_HEADER_SIZE \<or> e_phoff header > ucast file_size \<or>
              ucast (e_phnum header) * ucast (e_phentsize header) > ucast file_size - e_phoff header
      then say_false ''invalid program'' s
      else case scan_segments (segments s) file_size (NOT 0, 0, False) of
        Inl message \<Rightarrow> say_false message s
      | Inr (image_min, image_end, has_load_segment) \<Rightarrow>
          if \<not> has_load_segment then say_false ''invalid program'' s
          else if image_min < kernel_image_end env then say_false ''program image overlaps kernel'' s
          else if e_entry header < image_min \<or> e_entry header \<ge> image_end then say_false ''invalid program'' s
          else if image_end \<le> image_min then say_false ''invalid program'' s
          else
            let s = with_space (\<lambda>a. a\<lparr>image_base := image_min, image_capacity := image_end - image_min,
                      image_page_count := bytes_to_pages (image_end - image_min)\<rparr>) s
            in if image_min < PROCESS_ABI_IMAGE_BASE \<or> image_end > PROCESS_ABI_IMAGE_LIMIT
               then say_false ''program too large'' s
               else if image_end + PROCESS_ABI_STACK_GAP > stack_base (space s)
               then say_false ''program too large'' s
               else Some (True, with_image (\<lambda>i. i\<lparr>entry_point := e_entry header, im_file_size := file_size\<rparr>) s))"

text \<open>The loop over the segments, in the program's address space. It reads the header again in every
  round, from memory that its own stores might have reached.\<close>

fun copy_segments :: "nat list \<Rightarrow> u32 \<Rightarrow> 'd kernel_state \<Rightarrow> (bool \<times> 'd kernel_state) option" where
  "copy_segments [] file_size s = Some (True, s)"
| "copy_segments (index # rest) file_size s =
     (let g = segment s index in
      if \<not> index < unat (e_phnum (elf_header s)) then Some (True, s)
      else if p_type g \<noteq> PT_LOAD then copy_segments rest file_size s
      else if segment_outside_file g file_size then say_false ''invalid program'' s
      else do {
        s1 \<leftarrow> user_memset (p_vaddr g) 0 (unat (p_memsz g)) s;
        s2 \<leftarrow> user_memcpy (p_vaddr g) (im_file_buffer (pr_image (g_foreground_process s)) + p_offset g)
               (unat (p_filesz g)) s1;
        copy_segments rest file_size s2 })"

definition process_copy_image_segments :: "u32 \<Rightarrow> 'd kernel_state \<Rightarrow> (bool \<times> 'd kernel_state) option" where
  "process_copy_image_segments file_size s =
     do {
       s1 \<leftarrow> user_memset (image_base (space s)) 0 (unat (image_capacity (space s))) s;
       (ok, s2) \<leftarrow> copy_segments [0..<2 ^ 16] file_size s1;
       Some (if ok then (True, with_state PROCESS_STATE_LOADED s2) else (False, s2))
     }"


subsection \<open>Loading\<close>

text \<open>The read callback: its context is the load context and the memory it copies to.\<close>

definition process_file_chunk_copy ::
  "bytes \<Rightarrow> u32 \<Rightarrow> ProcessLoadContext \<times> (u64 \<Rightarrow> u8) \<Rightarrow> bool \<times> (ProcessLoadContext \<times> (u64 \<Rightarrow> u8))" where
  "process_file_chunk_copy data len context =
     (case context of (load_context, r) \<Rightarrow>
        if lc_size load_context + len > lc_capacity load_context then (False, (load_context, r))
        else (True, (load_context\<lparr>lc_size := lc_size load_context + len\<rparr>,
                     ram_write (lc_dst load_context + ucast (lc_size load_context)) (take (unat len) data) r)))"

text \<open>\<open>ProcessUserContext\<close>, 480 bytes: the program information at 0, the argument vector at 32, the working
  directory at 96 and the argument strings at 224.\<close>

definition USER_CONTEXT_SIZE :: u64 where "USER_CONTEXT_SIZE = 480"
definition USER_ARGV :: u64 where "USER_ARGV = 32"
definition USER_CWD :: u64 where "USER_CWD = 96"
definition USER_ARG_BUFFER :: u64 where "USER_ARG_BUFFER = 224"

fun stage_argv :: "process_env \<Rightarrow> u64 \<Rightarrow> nat list \<Rightarrow> 'd kernel_state \<Rightarrow> (bool \<times> 'd kernel_state) option" where
  "stage_argv env user_context [] s = Some (True, s)"
| "stage_argv env user_context (index # rest) s =
     do {
       source_ptr \<leftarrow> fetch (rt_argv (rt s)) index;
       if source_ptr < arg_buffer_at env then Some (False, s)
       else let offset = source_ptr - arg_buffer_at env in
         if offset \<ge> ucast PROCESS_ARG_BUFFER_SIZE then Some (False, s)
         else do {
           s \<leftarrow> user_write (user_context + USER_ARGV + 8 * of_nat index)
                 (le64 (user_context + USER_ARG_BUFFER + offset)) s;
           stage_argv env user_context rest s } }"

definition process_stage_user_context :: "process_env \<Rightarrow> 'd kernel_state \<Rightarrow> (bool \<times> 'd kernel_state) option" where
  "process_stage_user_context env s =
     (if USER_CONTEXT_SIZE > stack_size (space s) then Some (False, s)
      else let user_context = stack_base (space s); argc = pi_argc (info (rt s)) in
        do {
          s \<leftarrow> user_memset user_context 0 (unat USER_CONTEXT_SIZE) s;
          s \<leftarrow> user_write (user_context + USER_CWD) (rt_cwd (rt s)) s;
          s \<leftarrow> user_write (user_context + USER_ARG_BUFFER) (rt_arg_buffer (rt s)) s;
          (ok, s) \<leftarrow> stage_argv env user_context [0..<unat argc] s;
          if \<not> ok then Some (False, s)
          else do {
            s \<leftarrow> user_write user_context (le32 PROGRAM_INFO_MAGIC) s;
            s \<leftarrow> user_write (user_context + 4) (le32 0) s;
            s \<leftarrow> user_write (user_context + 8) (le64 argc) s;
            s \<leftarrow> user_write (user_context + 16) (le64 (user_context + USER_ARGV)) s;
            s \<leftarrow> user_write (user_context + 24) (le64 (user_context + USER_CWD)) s;
            Some (True, with_runtime (\<lambda>r. r\<lparr>user_info_addr := user_context\<rparr>) s) } })"

text \<open>The cleanup at \<open>fail\<close>.\<close>

definition prepare_failed :: "'d kernel_state \<Rightarrow> 'd kernel_state" where
  "prepare_failed s =
     (let s = (if stack_backing (space s) \<noteq> 0
               then with_space (\<lambda>a. a\<lparr>stack_backing := 0\<rparr>)
                      (k_free_pages (stack_backing (space s)) (stack_page_count (space s)) s) else s);
          s = (if image_backing (space s) \<noteq> 0
               then with_space (\<lambda>a. a\<lparr>image_backing := 0\<rparr>)
                      (k_free_pages (image_backing (space s)) (image_page_count (space s)) s) else s)
      in if page_table_root (space s) \<noteq> 0
         then with_space (\<lambda>a. a\<lparr>page_table_root := 0\<rparr>)
                (s\<lparr>paging := paging_destroy_address_space (page_table_root (space s)) (paging s)\<rparr>)
         else s)"

definition prepare_fail :: "string \<Rightarrow> 'd kernel_state \<Rightarrow> (bool \<times> 'd kernel_state) option" where
  "prepare_fail message s = do { s \<leftarrow> say message s; Some (False, prepare_failed s) }"

definition process_map :: "u64 \<Rightarrow> u64 \<Rightarrow> u64 \<Rightarrow> bool \<Rightarrow> 'd kernel_state \<Rightarrow> (bool \<times> 'd kernel_state) option" where
  "process_map virt phys sz executable s =
     do { (ok, p) \<leftarrow> paging_map_user_range (page_table_root (space s)) virt phys sz True executable (paging s);
          Some (ok, s\<lparr>paging := p\<rparr>) }"

definition process_prepare_address_space :: "'d kernel_state \<Rightarrow> (bool \<times> 'd kernel_state) option" where
  "process_prepare_address_space s =
     (case paging_create_address_space (paging s) of (root, p) \<Rightarrow>
        let s = with_space (\<lambda>a. a\<lparr>page_table_root := root\<rparr>) (s\<lparr>paging := p\<rparr>) in
        if page_table_root (space s) = 0 then say_false ''program: page table alloc failed'' s
        else case k_alloc_pages (image_page_count (space s)) s of (img, s) \<Rightarrow>
          let s = with_space (\<lambda>a. a\<lparr>image_backing := img\<rparr>) s in
          if image_backing (space s) = 0 then prepare_fail ''program: image backing alloc failed'' s
          else case k_alloc_pages (stack_page_count (space s)) s of (stack, s) \<Rightarrow>
            let s = with_space (\<lambda>a. a\<lparr>stack_backing := stack\<rparr>) s in
            if stack_backing (space s) = 0 then prepare_fail ''program: stack backing alloc failed'' s
            else do {
              (ok, s) \<leftarrow> process_map (image_base (space s)) (image_backing (space s)) (image_capacity (space s)) True s;
              if \<not> ok then prepare_fail ''program: image map failed'' s
              else do {
                (ok, s) \<leftarrow> process_map (stack_base (space s)) (stack_backing (space s)) (stack_size (space s)) False s;
                if \<not> ok then prepare_fail ''program: stack map failed'' s
                else Some (True, s) } })"

definition process_release_address_space :: "'d kernel_state \<Rightarrow> 'd kernel_state" where
  "process_release_address_space s =
     (let s = (if image_backing (space s) \<noteq> 0
               then with_space (\<lambda>a. a\<lparr>image_backing := 0\<rparr>)
                      (k_free_pages (image_backing (space s)) (image_page_count (space s)) s) else s);
          s = (if stack_backing (space s) \<noteq> 0
               then with_space (\<lambda>a. a\<lparr>stack_backing := 0\<rparr>)
                      (k_free_pages (stack_backing (space s)) (stack_page_count (space s)) s) else s);
          s = (if file_buffer (space s) \<noteq> 0
               then with_image (\<lambda>i. i\<lparr>im_file_buffer := 0\<rparr>) (with_space (\<lambda>a. a\<lparr>file_buffer := 0\<rparr>)
                      (k_free_pages (file_buffer (space s)) (file_page_count (space s)) s)) else s);
          s = (if page_table_root (space s) \<noteq> 0
               then with_space (\<lambda>a. a\<lparr>page_table_root := 0\<rparr>)
                      (s\<lparr>paging := paging_destroy_address_space (page_table_root (space s)) (paging s)\<rparr>) else s)
      in with_runtime (\<lambda>r. r\<lparr>user_info_addr := 0\<rparr>) s)"

definition with_root :: "u64 \<Rightarrow> 'd kernel_state \<Rightarrow> 'd kernel_state" where
  "with_root root s = s\<lparr>paging := paging_activate_root root (paging s)\<rparr>"

text \<open>The part of \<open>process_load_binary\<close> that runs on the program's page tables.\<close>

definition load_into_space :: "process_env \<Rightarrow> u32 \<Rightarrow> 'd kernel_state \<Rightarrow> (bool \<times> 'd kernel_state) option" where
  "load_into_space env file_size s =
     (let previous_root = paging_current_root (paging s);
          s = with_root (page_table_root (space s)) s
      in do {
        (ok, s) \<leftarrow> process_stage_user_context env s;
        if \<not> ok then do { s \<leftarrow> say ''program user context setup failed'' s; Some (False, with_root previous_root s) }
        else do {
          (ok, s) \<leftarrow> process_copy_image_segments file_size s;
          if \<not> ok then do { s \<leftarrow> say ''program image copy failed'' s; Some (False, with_root previous_root s) }
          else Some (True, with_root previous_root s) } })"

definition process_load_binary :: "process_env \<Rightarrow> bytes \<Rightarrow> 'd kernel_state \<Rightarrow> (bool \<times> 'd kernel_state) option" where
  "process_load_binary env prog_path s =
     do {
       (node, v) \<leftarrow> fs_stat (Some prog_path) True (volume s);
       let s = s\<lparr>volume := v\<rparr>;
       case node of
         Inl _ \<Rightarrow> Some (False, s)
       | Inr node \<Rightarrow>
         if fs_type node \<noteq> FS_NODE_FILE then say_false ''program path is not a file'' s
         else if ucast (fs_size node) > file_capacity (space s) then say_false ''program too large'' s
         else
           let dst = im_file_buffer (pr_image (g_foreground_process s));
               context = \<lparr>lc_dst = dst, lc_capacity = ucast (file_capacity (space s)), lc_size = 0\<rparr>;
               cleared = ram_write dst (replicate (unat (file_capacity (space s))) 0) (ram s)
           in do {
             (result, (context, r), v) \<leftarrow>
               fs_read_file (Some prog_path) (Some process_file_chunk_copy) (context, cleared) (volume s);
             let s = s\<lparr>ram := r, volume := v\<rparr>;
             if result \<noteq> FS_OK then say_false ''program read failed'' s
             else if lc_size context \<noteq> fs_size node then say_false ''program size mismatch'' s
             else do {
               (ok, s) \<leftarrow> process_configure_image_layout env (lc_size context) s;
               if \<not> ok then Some (False, s)
               else do {
                 (ok, s) \<leftarrow> process_prepare_address_space s;
                 if \<not> ok then say_false ''program address space setup failed'' s
                 else load_into_space env (lc_size context) s } } } }"

subsection \<open>System calls and faults\<close>

definition process_finish_exit :: "u32 \<Rightarrow> 'd kernel_state \<Rightarrow> 'd kernel_state" where
  "process_finish_exit status s =
     with_state PROCESS_STATE_EXITED (with_runtime (\<lambda>r. r\<lparr>exit_requested := True, exit_status := status\<rparr>) s)"

definition process_handle_syscall ::
  "TrapFrame option \<Rightarrow> 'd kernel_state \<Rightarrow> (bool \<times> TrapFrame option \<times> 'd kernel_state) option" where
  "process_handle_syscall frame s =
     (case frame of
        None \<Rightarrow> Some (False, frame, s)
      | Some f \<Rightarrow>
        let number = (ucast (tf_rax f) :: u32); ret = (\<lambda>v. Some (f\<lparr>tf_rax := v\<rparr>)) in
        if \<not> g_active_process s then Some (False, frame, s)
        else if number = PROGRAM_SYSCALL_EXIT then
          Some (True, ret 1, process_finish_exit (ucast (tf_rdi f)) s)
        else if number = PROGRAM_SYSCALL_WRITE then
          (if \<not> process_user_range_valid s (tf_rdi f) (tf_rsi f) then Some (True, ret 0, s)
           else do {
             str \<leftarrow> user_read (tf_rdi f) (unat (tf_rsi f)) s;
             s \<leftarrow> console_write_n str (unat (tf_rsi f)) s;
             Some (True, ret (tf_rsi f), s) })
        else if number = PROGRAM_SYSCALL_READ_LINE then
          (if tf_rsi f = 0 then Some (True, ret 0, s)
           else if \<not> process_user_range_valid s (tf_rdi f) (tf_rsi f) then Some (True, ret 0, s)
           else do {
             buffer \<leftarrow> user_read (tf_rdi f) (unat (tf_rsi f)) s;
             (n, buffer, s) \<leftarrow> keyboard_read_line buffer (tf_rsi f) s;
             s \<leftarrow> user_write (tf_rdi f) buffer s;
             Some (True, ret n, s) })
        else Some (True, ret 0, s))"

definition process_should_return_to_kernel :: "'d kernel_state \<Rightarrow> bool" where
  "process_should_return_to_kernel s \<longleftrightarrow> g_active_process s \<and> exit_requested (rt s)"

definition process_handle_fault :: "TrapFrame option \<Rightarrow> 'd kernel_state \<Rightarrow> bool \<times> 'd kernel_state" where
  "process_handle_fault frame s =
     (case frame of
        None \<Rightarrow> (False, s)
      | Some f \<Rightarrow>
          if \<not> g_active_process s then (False, s)
          else if tf_cs f AND 0x3 \<noteq> 0x3 then (False, s)
          else (True, process_finish_exit 0xFFFFFFFF s))"

text \<open>Where \<open>interrupt_dispatch\<close> goes: back to the interrupted program, to the kernel behind
  \<open>program_invoke\<close>, or to the panic screen.\<close>

datatype Dispatch = Resume "TrapFrame option" | ReturnToKernel | Panic

definition interrupt_dispatch :: "TrapFrame option \<Rightarrow> 'd kernel_state \<Rightarrow> (Dispatch \<times> 'd kernel_state) option" where
  "interrupt_dispatch frame s =
     do {
       (handled, frame, s) \<leftarrow>
         (if (case frame of None \<Rightarrow> False | Some f \<Rightarrow> tf_vector f = PROGRAM_SYSCALL_VECTOR)
          then process_handle_syscall frame s else Some (False, frame, s));
       if handled
       then Some (if process_should_return_to_kernel s then ReturnToKernel else Resume frame, s)
       else case process_handle_fault frame s of (faulted, s) \<Rightarrow>
         if faulted then Some (if process_should_return_to_kernel s then ReturnToKernel else Resume frame, s)
         else if (case frame of None \<Rightarrow> False | Some f \<Rightarrow> tf_cs f AND 0x3 = 0x3) \<and> process_should_return_to_kernel s
         then Some (ReturnToKernel, s)
         else Some (Panic, s) }"

subsection \<open>Running a program\<close>

text \<open>What a program does between \<open>program_invoke\<close> and its return to the kernel: stores to its own memory,
  and traps with the frames the processor builds. A store that its page tables do not allow has no
  effect of its own (the processor raises a fault, which is a trap). The result is \<open>None\<close> while
  the program has not come back, and on a panic.\<close>

datatype user_act = UserStore u64 u8 | UserTrap TrapFrame

fun program_run :: "user_act list \<Rightarrow> 'd kernel_state \<Rightarrow> (u64 \<times> 'd kernel_state) option" where
  "program_run [] s = None"
| "program_run (UserStore v b # acts) s =
     program_run acts (case active_translation s v of
        None \<Rightarrow> s
      | Some m \<Rightarrow> if m_user m \<and> m_writable m then s\<lparr>ram := (ram s)(m_phys m := b)\<rparr> else s)"
| "program_run (UserTrap frame # acts) s =
     do {
       (d, s) \<leftarrow> interrupt_dispatch (Some frame) s;
       case d of Resume f \<Rightarrow> program_run acts s | ReturnToKernel \<Rightarrow> Some (1, s) | Panic \<Rightarrow> None }"

definition process_run_foreground ::
  "process_env \<Rightarrow> user_act list \<Rightarrow> bytes option \<Rightarrow> bytes option \<Rightarrow> bytes option \<Rightarrow> bytes option \<Rightarrow>
     'd kernel_state \<Rightarrow> (bool \<times> 'd kernel_state) option" where
  "process_run_foreground env acts prog_path command argument_line cwd s =
     (case (prog_path, command, cwd) of
        (Some prog_path, Some command, Some cwd) \<Rightarrow>
          do {
            (ok, s) \<leftarrow> process_tokenize_args env (Some command) argument_line (process_init s);
            if \<not> ok then say_false ''program args invalid'' s
            else case k_alloc_pages (file_page_count (space s)) s of (buffer, s) \<Rightarrow>
              let s = with_space (\<lambda>a. a\<lparr>file_buffer := buffer\<rparr>) s in
              if file_buffer (space s) = 0
              then do { s \<leftarrow> say ''program file buffer alloc failed'' s;
                        Some (False, process_release_address_space s) }
              else do {
                let s = with_image (\<lambda>i. i\<lparr>im_file_buffer := file_buffer (space s)\<rparr>) s;
                cwd_buffer \<leftarrow> k_strcpy (rt_cwd (rt s)) (cwd @ [0]);
                (ok, s) \<leftarrow> process_load_binary env prog_path (with_runtime (\<lambda>r. r\<lparr>rt_cwd := cwd_buffer\<rparr>) s);
                if \<not> ok then Some (False, process_release_address_space s)
                else do {
                  let kernel_root = paging_current_root (paging s);
                  let s = with_state PROCESS_STATE_RUNNING
                        (with_runtime (\<lambda>r. r\<lparr>exit_requested := False, exit_status := 0\<rparr>) s);
                  let s = with_root (page_table_root (space s)) (s\<lparr>g_active_process := True\<rparr>);
                  (invoke_result, s) \<leftarrow> program_run acts s;
                  let s = (with_root kernel_root s)\<lparr>g_active_process := False\<rparr>;
                  if invoke_result = 0 \<or> \<not> exit_requested (rt s)
                  then do { s \<leftarrow> say ''program returned unexpectedly'' s;
                            Some (False, process_release_address_space s) }
                  else if exit_status (rt s) \<noteq> 0
                  then do { s \<leftarrow> console_write (map of_char ''program exited with status '') s;
                            s \<leftarrow> process_write_u32 (exit_status (rt s)) s;
                            s \<leftarrow> console_write_char 10 s;
                            Some (False, process_release_address_space s) }
                  else Some (True, process_release_address_space s) } } }
      | _ \<Rightarrow> Some (False, s))"

end
