(* ===== verification/ProcessArgs.thy ===== *)
theory ProcessArgs
  imports Process FatFileData
begin

text \<open>
  The argument vector of a program: \<open>process_tokenize_args\<close> puts the command and the words of the
  argument line, NUL-terminated, one behind the other in the 256-byte buffer, and a pointer to each
  in the vector of eight.
\<close>

subsection \<open>The specification\<close>

function words_of :: "bytes \<Rightarrow> bytes list" where
  "words_of cursor = (case dropWhile k_is_space cursor of
     [] \<Rightarrow> []
   | c # cs \<Rightarrow> takeWhile (\<lambda>c. \<not> k_is_space c) (c # cs) # words_of (dropWhile (\<lambda>c. \<not> k_is_space c) (c # cs)))"
  by pat_completeness auto

lemma dropWhile_word_shorter:
  assumes "dropWhile k_is_space cursor = c # cs"
  shows "length (dropWhile (\<lambda>c. \<not> k_is_space c) (c # cs)) < length cursor"
proof -
  have "\<not> k_is_space c" using assms by (metis dropWhile_eq_Cons_conv)
  then have "length (dropWhile (\<lambda>c. \<not> k_is_space c) (c # cs)) \<le> length cs"
    by (simp add: length_dropWhile_le)
  also have "\<dots> < length (dropWhile k_is_space cursor)" by (simp add: assms)
  also have "\<dots> \<le> length cursor" by (rule length_dropWhile_le)
  finally show ?thesis .
qed

termination words_of
  by (relation "measure length") (auto dest: dropWhile_word_shorter)

declare words_of.simps [simp del]

definition packed :: "bytes list \<Rightarrow> bytes" where
  "packed ws = concat (map (\<lambda>w. w @ [0]) ws)"

lemma packed_snoc [simp]: "packed (ws @ [w]) = packed ws @ w @ [0]"
  by (simp add: packed_def)

lemma packed_append: "packed (us @ ws) = packed us @ packed ws"
  by (simp add: packed_def)

definition fits_buffers :: "bytes list \<Rightarrow> bool" where
  "fits_buffers ws \<longleftrightarrow> length ws \<le> 8 \<and> length (packed ws) \<le> 256"

lemma fits_prefix: "fits_buffers (us @ ws) \<Longrightarrow> fits_buffers us"
  by (simp add: fits_buffers_def packed_append)

definition arg_bytes :: "bytes list \<Rightarrow> bytes" where
  "arg_bytes ws = packed ws @ replicate (256 - length (packed ws)) 0"

definition arg_pointers :: "u64 \<Rightarrow> bytes list \<Rightarrow> u64 list" where
  "arg_pointers base ws =
     map (\<lambda>i. base + of_nat (length (packed (take i ws)))) [0..<length ws] @ replicate (8 - length ws) 0"

lemma length_arg_bytes: "length (packed ws) \<le> 256 \<Longrightarrow> length (arg_bytes ws) = 256"
  by (simp add: arg_bytes_def)

lemma length_arg_pointers: "length ws \<le> 8 \<Longrightarrow> length (arg_pointers base ws) = 8"
  by (simp add: arg_pointers_def)

lemma blit_arg_bytes:
  assumes "length (packed (ws @ [w])) \<le> 256"
  shows "blit (arg_bytes ws) (length (packed ws)) (w @ [0]) = arg_bytes (ws @ [w])"
  using assms by (simp add: blit_def arg_bytes_def)

lemma arg_pointers_snoc:
  assumes "length ws < 8"
  shows "(arg_pointers base ws)[length ws := base + of_nat (length (packed ws))] = arg_pointers base (ws @ [w])"
proof -
  have "8 - length ws = Suc (7 - length ws)" using assms by simp
  then show ?thesis by (simp add: arg_pointers_def list_update_append)
qed

subsection \<open>Words and the loop\<close>

lemma blit_Cons:
  "off < length buf \<Longrightarrow> blit (buf[off := c]) (Suc off) w = blit buf off (c # w)"
  by (simp add: blit_def take_Suc_conv_app_nth)

lemma blit_snoc:
  assumes "off + length w < length buf"
  shows "(blit buf off w)[off + length w := c] = blit buf off (w @ [c])"
proof -
  have "drop (off + length w) buf = buf ! (off + length w) # drop (Suc (off + length w)) buf"
    using assms by (simp add: Cons_nth_drop_Suc)
  then show ?thesis using assms by (simp add: blit_def list_update_append)
qed

lemma copy_word_ok:
  "length buffer = 256 \<Longrightarrow> unat offset \<le> 255 \<or> unat offset = 256 \<and> takeWhile (\<lambda>c. \<not> stop c) cs \<noteq> [] \<Longrightarrow>
   (if unat offset + length (takeWhile (\<lambda>c. \<not> stop c) cs) \<le> 255
    then copy_word stop cs offset buffer =
      Some (True, dropWhile (\<lambda>c. \<not> stop c) cs, offset + of_nat (length (takeWhile (\<lambda>c. \<not> stop c) cs)),
        blit buffer (unat offset) (takeWhile (\<lambda>c. \<not> stop c) cs))
    else \<exists>rest finish b. copy_word stop cs offset buffer = Some (False, rest, finish, b) \<and> length b = 256)"
proof (induction cs arbitrary: offset buffer)
  case Nil
  then show ?case by (simp add: blit_def)
next
  case (Cons c cs)
  show ?case
  proof (cases "stop c")
    case True
    then show ?thesis using Cons.prems by (simp add: blit_def)
  next
    case False
    have next': "unat (offset + 1) = unat offset + 1" using Cons.prems(2) by (auto simp: unat_Suc_small)
    have full: "offset + 1 \<ge> PROCESS_ARG_BUFFER_SIZE \<longleftrightarrow> 255 \<le> unat offset"
      using next' by (simp add: PROCESS_ARG_BUFFER_SIZE_def word_le_nat_alt)
    show ?thesis
    proof (cases "255 \<le> unat offset")
      case True
      then show ?thesis using False full Cons.prems(1) by simp
    next
      case lt: False
      have "if unat (offset + 1) + length (takeWhile (\<lambda>c. \<not> stop c) cs) \<le> 255
        then copy_word stop cs (offset + 1) (buffer[unat offset := c]) =
          Some (True, dropWhile (\<lambda>c. \<not> stop c) cs, offset + 1 + of_nat (length (takeWhile (\<lambda>c. \<not> stop c) cs)),
            blit (buffer[unat offset := c]) (unat (offset + 1)) (takeWhile (\<lambda>c. \<not> stop c) cs))
        else \<exists>rest finish b. copy_word stop cs (offset + 1) (buffer[unat offset := c]) = Some (False, rest, finish, b) \<and>
          length b = 256"
        by (rule Cons.IH) (use lt Cons.prems(1) next' in auto)
      then show ?thesis
        using False full lt Cons.prems(1) next' by (simp add: blit_Cons add_ac split: if_splits)
    qed
  qed
qed

lemma args_loop_ok:
  assumes "fits_buffers done"
  shows "if fits_buffers (done @ words_of cursor)
    then args_loop base cursor (of_nat (length done)) (of_nat (length (packed done))) (arg_bytes done) (arg_pointers base done) =
      Some (True, of_nat (length (done @ words_of cursor)), arg_bytes (done @ words_of cursor),
        arg_pointers base (done @ words_of cursor))
    else \<exists>argc b v. args_loop base cursor (of_nat (length done)) (of_nat (length (packed done))) (arg_bytes done)
        (arg_pointers base done) = Some (False, argc, b, v)"
  using assms
proof (induction "length cursor" arbitrary: cursor "done" rule: less_induct)
  case less
  let ?n = "of_nat (length done) :: u64" and ?off = "of_nat (length (packed done)) :: u32"
  have d: "length done \<le> 8" "length (packed done) \<le> 256" using less.prems by (auto simp: fits_buffers_def)
  have off: "unat ?off = length (packed done)" using d(2) by (intro unat_of_nat_u32) simp
  show ?case
  proof (cases "dropWhile k_is_space cursor")
    case Nil
    then have "words_of cursor = []" by (subst words_of.simps) (simp only: list.case)
    then show ?thesis using less.prems by (subst args_loop.simps) (simp add: Nil)
  next
    case (Cons c cs)
    define w where "w = takeWhile (\<lambda>c. \<not> k_is_space c) (c # cs)"
    define rest where "rest = dropWhile (\<lambda>c. \<not> k_is_space c) (c # cs)"
    have ws: "words_of cursor = w # words_of rest"
      unfolding w_def rest_def by (subst words_of.simps) (simp only: Cons list.case)
    have nsp: "\<not> k_is_space c" using Cons by (metis dropWhile_eq_Cons_conv)
    have argc: "?n \<ge> PROCESS_MAX_ARGS \<longleftrightarrow> length done = 8"
      using d(1) by (simp add: PROCESS_MAX_ARGS_def word_le_nat_alt unat_of_nat)
    have step: "args_loop base cursor ?n ?off (arg_bytes done) (arg_pointers base done) =
      (if ?n \<ge> PROCESS_MAX_ARGS then Some (False, ?n, arg_bytes done, arg_pointers base done)
       else do {
            (ok, rest, finish, buffer) \<leftarrow> copy_word k_is_space (c # cs) ?off (arg_bytes done);
            if \<not> ok then Some (False, ?n, buffer, arg_pointers base done)
            else do {
              buffer \<leftarrow> store buffer (unat finish) 0;
              argv \<leftarrow> store (arg_pointers base done) (unat ?n) (base + ucast ?off);
              args_loop base rest (?n + 1) (finish + 1) buffer argv } })"
      by (subst args_loop.simps) (simp only: Cons list.case)
    have copy: "if unat ?off + length w \<le> 255
      then copy_word k_is_space (c # cs) ?off (arg_bytes done) =
        Some (True, rest, ?off + of_nat (length w), blit (arg_bytes done) (unat ?off) w)
      else \<exists>left finish b. copy_word k_is_space (c # cs) ?off (arg_bytes done) = Some (False, left, finish, b) \<and> length b = 256"
      unfolding w_def rest_def by (rule copy_word_ok) (use d nsp off in \<open>auto simp: length_arg_bytes\<close>)
    have fit: "fits_buffers (done @ [w]) \<longleftrightarrow> length done < 8 \<and> length (packed done) + length w \<le> 255"
      by (auto simp: fits_buffers_def)
    show ?thesis
    proof (cases "fits_buffers (done @ [w])")
      case False
      then have "\<not> fits_buffers (done @ words_of cursor)"
        unfolding ws using fits_prefix [of "done @ [w]" "words_of rest"] by auto
      moreover have "\<exists>argc b v. args_loop base cursor ?n ?off (arg_bytes done) (arg_pointers base done) = Some (False, argc, b, v)"
      proof (cases "length done = 8")
        case True
        then show ?thesis unfolding step using argc by auto
      next
        case lt: False
        then have "\<not> unat ?off + length w \<le> 255" using False fit d off by simp
        then obtain left finish b where "copy_word k_is_space (c # cs) ?off (arg_bytes done) = Some (False, left, finish, b)"
          using copy by auto
        then show ?thesis unfolding step using argc lt by auto
      qed
      ultimately show ?thesis by simp
    next
      case True
      then have lt: "length done < 8" "length (packed done) + length w \<le> 255" using fit by auto
      have n: "unat ?n = length done" using d(1) by (simp add: unat_of_nat)
      have fin: "unat (?off + of_nat (length w)) = length (packed done) + length w"
      proof -
        have "?off + of_nat (length w) = (of_nat (length (packed done) + length w) :: u32)" by simp
        then show ?thesis using lt(2) by (simp only: unat_of_nat_u32)
      qed
      have cw: "copy_word k_is_space (c # cs) ?off (arg_bytes done) =
          Some (True, rest, ?off + of_nat (length w), blit (arg_bytes done) (length (packed done)) w)"
        using copy lt(2) off by simp
      have buf: "(blit (arg_bytes done) (length (packed done)) w)[length (packed done) + length w := 0] =
          arg_bytes (done @ [w])"
      proof -
        have "(blit (arg_bytes done) (length (packed done)) w)[length (packed done) + length w := 0] =
            blit (arg_bytes done) (length (packed done)) (w @ [0])"
          by (rule blit_snoc) (use lt(2) d in \<open>simp only: length_arg_bytes\<close>)
        then show ?thesis using blit_arg_bytes [of "done" w] lt(2) by simp
      qed
      have len: "length (blit (arg_bytes done) (length (packed done)) w) = 256"
        using lt(2) d by (simp add: length_arg_bytes)
      have ptr: "(arg_pointers base done)[length done := base + ucast ?off] = arg_pointers base (done @ [w])"
      proof -
        have "(ucast ?off :: u64) = of_nat (length (packed done))"
          using off unat_of_nat_u64 [of "length (packed done)"] d(2) by (simp add: word_unat_eq_iff)
        then show ?thesis using arg_pointers_snoc [OF lt(1)] by simp
      qed
      have eq: "args_loop base cursor ?n ?off (arg_bytes done) (arg_pointers base done) =
          args_loop base rest (of_nat (length (done @ [w]))) (of_nat (length (packed (done @ [w]))))
            (arg_bytes (done @ [w])) (arg_pointers base (done @ [w]))"
        unfolding step using argc lt n fin cw buf len ptr d
        by (simp add: length_arg_pointers add_ac)
      have all: "(done @ [w]) @ words_of rest = done @ words_of cursor" by (simp add: ws)
      show ?thesis unfolding eq
        by (rule less.hyps [OF dropWhile_word_shorter [OF Cons] True, folded rest_def, unfolded all])
    qed
  qed
qed


subsection \<open>The argument vector\<close>

lemma packed_nth:
  assumes "i < length ws" and "\<forall>w \<in> set ws. nul_free w"
  shows "cstr (drop (length (packed (take i ws))) (arg_bytes ws)) = ws ! i"
proof -
  have "ws = take i ws @ ws ! i # drop (Suc i) ws" using assms(1) by (simp add: id_take_nth_drop)
  then have "packed ws = packed (take i ws) @ ws ! i @ [0] @ packed (drop (Suc i) ws)"
    by (metis packed_append packed_def concat.simps(2) list.simps(9) append.assoc)
  then have "drop (length (packed (take i ws))) (arg_bytes ws) =
      ws ! i @ 0 # packed (drop (Suc i) ws) @ replicate (256 - length (packed ws)) 0"
    by (simp add: arg_bytes_def)
  moreover have "nul_free (ws ! i)" using assms by simp
  ultimately show ?thesis by (simp add: cstr_append_nul)
qed

lemma tokenize_ok:
  fixes argument_line :: "bytes option" and s :: "'d kernel_state"
  assumes "command \<noteq> []" and "length (rt_arg_buffer (rt s)) = 256" and "length (rt_argv (rt s)) = 8"
  defines "ws \<equiv> command # words_of (case argument_line of None \<Rightarrow> [] | Some l \<Rightarrow> l)"
  shows "if fits_buffers ws
    then process_tokenize_args env (Some command) argument_line s = Some (True,
      with_runtime (\<lambda>r. r\<lparr>rt_arg_buffer := arg_bytes ws, rt_argv := arg_pointers (arg_buffer_at env) ws,
        info := (info r)\<lparr>pi_argc := of_nat (length ws), pi_argv_addr := argv_at env,
          pi_cwd_addr := cwd_at env\<rparr>\<rparr>) s)
    else \<exists>r. process_tokenize_args env (Some command) argument_line s = Some (False, with_runtime (\<lambda>_. r) s)"
proof -
  let ?line = "case argument_line of None \<Rightarrow> [] | Some l \<Rightarrow> l" and ?z = "replicate 256 0 :: bytes"
  let ?base = "arg_buffer_at env"
  let ?s = "with_runtime (\<lambda>r. r\<lparr>rt_arg_buffer := ?z, rt_argv := replicate 8 0\<rparr>) s"
  have run: "process_tokenize_args env (Some command) argument_line s =
     do {
          (ok, rest, offset, buffer) \<leftarrow> copy_word (\<lambda>c. False) command 0 ?z;
          if \<not> ok then Some (False, with_runtime (\<lambda>r. r\<lparr>rt_arg_buffer := buffer\<rparr>) ?s)
          else do {
            buffer \<leftarrow> store buffer (unat offset) 0;
            argv \<leftarrow> store (replicate 8 0) 0 ?base;
            (ok, argc, buffer, argv) \<leftarrow> args_loop ?base ?line 1 (offset + 1) buffer argv;
            let s = with_runtime (\<lambda>r. r\<lparr>rt_arg_buffer := buffer, rt_argv := argv\<rparr>) ?s;
            if \<not> ok then Some (False, s)
            else Some (True, with_runtime (\<lambda>r. r\<lparr>info := (info r)\<lparr>pi_argc := argc,
                   pi_argv_addr := argv_at env, pi_cwd_addr := cwd_at env\<rparr>\<rparr>) s) } }"
  proof -
    have s0: "with_runtime (\<lambda>r. r\<lparr>rt_arg_buffer := replicate (length (rt_arg_buffer r)) 0,
        rt_argv := replicate (length (rt_argv r)) 0\<rparr>) s = ?s"
      using assms(2,3) by (simp add: with_runtime_def)
    have b: "rt_arg_buffer (rt ?s) = ?z" "rt_argv (rt ?s) = replicate 8 0" by (simp_all add: with_runtime_def)
    obtain c cs where "command = c # cs" using assms(1) by (cases command) auto
    then show ?thesis unfolding process_tokenize_args_def s0 Let_def by (simp only: option.case list.case b)
  qed
  have word: "if length command \<le> 255
    then copy_word (\<lambda>c. False) command 0 ?z = Some (True, [], of_nat (length command), blit ?z 0 command)
    else \<exists>rest finish b. copy_word (\<lambda>c. False) command 0 ?z = Some (False, rest, finish, b) \<and> length b = 256"
  proof -
    have "takeWhile (\<lambda>c. \<not> False) command = command" "dropWhile (\<lambda>c. \<not> False) command = []"
      by (induction command) simp_all
    then show ?thesis using copy_word_ok [of ?z 0 "\<lambda>c. False" command] by (simp only:) simp
  qed
  have first: "fits_buffers [command] \<longleftrightarrow> length command \<le> 255"
    by (auto simp: fits_buffers_def packed_def)
  show ?thesis
  proof (cases "length command \<le> 255")
    case False
    then have "\<not> fits_buffers ws" using first fits_prefix [of "[command]"] by (auto simp: ws_def)
    moreover obtain rest finish b where "copy_word (\<lambda>c. False) command 0 ?z = Some (False, rest, finish, b)"
      using word False by auto
    ultimately show ?thesis unfolding run by (auto simp: with_runtime_def)
  next
    case True
    have fin: "unat (of_nat (length command) :: u32) = length command" using True by (intro unat_of_nat_u32) simp
    have buf: "(blit ?z 0 command)[length command := 0] = arg_bytes [command]"
      using blit_snoc [of 0 command ?z 0] blit_arg_bytes [of "[]" command] True
      by (simp add: arg_bytes_def packed_def)
    have argv: "(replicate 8 0)[0 := ?base] = arg_pointers ?base [command]"
      using arg_pointers_snoc [of "[]" ?base command] by (simp add: arg_pointers_def packed_def)
    have "of_nat (length command) + 1 = (of_nat (length (packed [command])) :: u32)"
      by (simp add: packed_def add.commute)
    then have run': "process_tokenize_args env (Some command) argument_line s =
       do {
         (ok, argc, buffer, argv) \<leftarrow> args_loop ?base ?line (of_nat (length [command]))
            (of_nat (length (packed [command]))) (arg_bytes [command]) (arg_pointers ?base [command]);
         let s = with_runtime (\<lambda>r. r\<lparr>rt_arg_buffer := buffer, rt_argv := argv\<rparr>) ?s;
         if \<not> ok then Some (False, s)
         else Some (True, with_runtime (\<lambda>r. r\<lparr>info := (info r)\<lparr>pi_argc := argc,
                pi_argv_addr := argv_at env, pi_cwd_addr := cwd_at env\<rparr>\<rparr>) s) }"
      unfolding run using word True fin buf argv by simp
    have ws: "[command] @ words_of ?line = ws" by (simp add: ws_def)
    show ?thesis
      using args_loop_ok [of "[command]" ?line ?base] first True unfolding run' ws
      by (auto simp: with_runtime_def split: if_splits)
  qed
qed

text \<open>C31: \<open>process_tokenize_args\<close> always returns and stays inside its buffers. It accepts exactly the
  command lines whose words, each with its NUL, fit the 256 bytes and the eight pointers; then \<open>argc\<close> counts
  the command and the blank-separated words of the line, and the string at the \<open>i\<close>-th
  pointer is the \<open>i\<close>-th of them.\<close>

theorem process_tokenize_args_words:
  assumes "command \<noteq> []" and "nul_free command" and "nul_free line"
    and "length (rt_arg_buffer (rt s)) = 256" and "length (rt_argv (rt s)) = 8"
  shows "\<exists>ok s'. process_tokenize_args env (Some command) (Some line) s = Some (ok, s') \<and>
    (let ws = command # words_of line; buf = rt_arg_buffer (rt s'); argv = rt_argv (rt s') in
     (ok \<longleftrightarrow> fits_buffers ws) \<and>
     (ok \<longrightarrow> unat (pi_argc (info (rt s'))) = length ws \<and> length buf = 256 \<and> length argv = 8 \<and>
        (\<forall>i < length ws. \<exists>offset. argv ! i = arg_buffer_at env + of_nat offset \<and> offset < 256 \<and>
           cstr (drop offset buf) = ws ! i)))"
proof -
  define ws where "ws = command # words_of line"
  have free: "\<forall>w \<in> set ws. nul_free w"
  proof -
    have "nul_free l \<Longrightarrow> \<forall>w \<in> set (words_of l). nul_free w" for l
    proof (induction l rule: words_of.induct)
      case (1 cursor)
      show ?case
      proof (cases "dropWhile k_is_space cursor")
        case (Cons c cs)
        then have "set (c # cs) \<subseteq> set cursor" by (metis set_dropWhileD subsetI)
        then have "nul_free (takeWhile (\<lambda>c. \<not> k_is_space c) (c # cs))"
          "nul_free (dropWhile (\<lambda>c. \<not> k_is_space c) (c # cs))"
          using 1(2) set_takeWhileD set_dropWhileD unfolding nul_free_def by (metis subsetD)+
        moreover have "words_of cursor = takeWhile (\<lambda>c. \<not> k_is_space c) (c # cs) #
            words_of (dropWhile (\<lambda>c. \<not> k_is_space c) (c # cs))"
          by (subst words_of.simps) (simp only: Cons list.case)
        ultimately show ?thesis using 1(1) [OF Cons] by auto
      qed (subst words_of.simps, simp only: list.case, simp)
    qed
    then show ?thesis using assms(2,3) by (simp add: ws_def)
  qed
  note tok = tokenize_ok [OF assms(1,4,5), of "Some line" env, folded ws_def, simplified, folded ws_def]
  show ?thesis
  proof (cases "fits_buffers ws")
    case False
    then show ?thesis using tok by (auto simp: Let_def ws_def)
  next
    case True
    then have len: "length ws \<le> 8" "length (packed ws) \<le> 256" by (auto simp: fits_buffers_def)
    have "\<exists>offset. arg_pointers (arg_buffer_at env) ws ! i = arg_buffer_at env + of_nat offset \<and> offset < 256 \<and>
        cstr (drop offset (arg_bytes ws)) = ws ! i" if i: "i < length ws" for i
    proof (intro exI conjI)
      show "cstr (drop (length (packed (take i ws))) (arg_bytes ws)) = ws ! i" by (rule packed_nth [OF i free])
      show "arg_pointers (arg_buffer_at env) ws ! i = arg_buffer_at env + of_nat (length (packed (take i ws)))"
        using i by (simp add: arg_pointers_def nth_append)
      have "packed ws = packed (take (Suc i) ws) @ packed (drop (Suc i) ws)" by (metis packed_append append_take_drop_id)
      then show "length (packed (take i ws)) < 256" using len(2) i by (simp add: take_Suc_conv_app_nth)
    qed
    moreover have "unat (of_nat (length ws) :: u64) = length ws" using len by (intro unat_of_nat_u64) simp
    ultimately show ?thesis
      using tok True len by (simp add: with_runtime_def Let_def length_arg_bytes length_arg_pointers flip: ws_def) blast
  qed
qed


text \<open>The kernel of the witnesses: a VGA console, sixteen free pages and a small volume.\<close>

definition demo_kernel :: "ramdisk kernel_state" where
  "demo_kernel = \<lparr>in_port = (\<lambda>_ _. 0x20), io_clock = 0, out_log = [], g_serial_enabled = False,
     g_vga = replicate 2000 0, g_row = 0, g_col = 0, g_console_vga_enabled = True,
     g_console_framebuffer_enabled = False, g_framebuffer = [], g_framebuffer_width = 0,
     g_framebuffer_height = 0, g_framebuffer_pitch = 0, g_console_columns = 80, g_console_rows = 25,
     g_framebuffer_fg = 0, g_framebuffer_bg = 0,
     paging = demo_paging, volume = demo_vol, ram = (\<lambda>_. 0), g_foreground_process = process_zero,
     g_active_process = False\<rparr>"

definition demo_env :: process_env where
  "demo_env = \<lparr>kernel_image_end = 0x200000, arg_buffer_at = 0x180000, argv_at = 0x180100, cwd_at = 0x180140\<rparr>"

theorem process_tokenize_args_words_witness:
  "\<exists>ok s'. process_tokenize_args demo_env (Some [108, 115]) (Some [32, 47, 32]) demo_kernel = Some (ok, s') \<and>
    (let ws = [108, 115] # words_of [32, 47, 32]; buf = rt_arg_buffer (rt s'); argv = rt_argv (rt s') in
     (ok \<longleftrightarrow> fits_buffers ws) \<and>
     (ok \<longrightarrow> unat (pi_argc (info (rt s'))) = length ws \<and> length buf = 256 \<and> length argv = 8 \<and>
        (\<forall>i < length ws. \<exists>offset. argv ! i = arg_buffer_at demo_env + of_nat offset \<and> offset < 256 \<and>
           cstr (drop offset buf) = ws ! i)))"
  by (rule process_tokenize_args_words)
    (simp_all add: nul_free_def demo_kernel_def process_zero_def PROCESS_ARG_BUFFER_SIZE_def PROCESS_MAX_ARGS_def)

end
