(* ===== verification/ProcessImage.thy ===== *)
theory ProcessImage
  imports ProcessArgs
begin

text \<open>
  The layout of a program's image: what \<open>process_configure_image_layout\<close> accepts lies in the
  file, in the program's region and clear of the kernel and the stack.
\<close>

lemma abi_constants:
  "unat PROCESS_ABI_IMAGE_BASE = 0x8000000000" "unat PROCESS_ABI_IMAGE_LIMIT = 0x80000EF000"
  "unat PROCESS_ABI_STACK_BASE = 0x80000F0000" "unat PROCESS_ABI_STACK_TOP = 0x8000100000"
  "unat PROCESS_ABI_STACK_SIZE = 0x10000" "unat PROCESS_ABI_STACK_GAP = 0x1000"
  by (simp_all add: PROCESS_ABI_IMAGE_BASE_def PROCESS_ABI_IMAGE_LIMIT_def PROCESS_ABI_STACK_BASE_def
    PROCESS_ABI_STACK_TOP_def PROCESS_ABI_STACK_SIZE_def PROCESS_ABI_STACK_GAP_def
    PROCESS_ABI_REGION_START_def PROCESS_ABI_REGION_END_def)

lemma align_page:
  "align_down_page v = align_down_uintptr v PAGE_SIZE" "align_up_page v = align_up_uintptr v PAGE_SIZE"
  by (simp_all add: align_down_page_def align_up_page_def align_down_uintptr_def align_up_uintptr_def)

lemma unat_align_down_page: "unat (align_down_page v) = unat v div 4096 * 4096"
  by (simp add: align_page unat_align_down)

lemma unat_align_up_page: "unat v + 4095 < 2 ^ 64 \<Longrightarrow> unat (align_up_page v) = (unat v + 4095) div 4096 * 4096"
  by (simp add: align_page unat_align_up)

subsection \<open>Segments\<close>

text \<open>A segment whose bytes are in the file and whose memory is in the image \<open>[low, high)\<close>.\<close>

definition segment_ok :: "nat \<Rightarrow> nat \<Rightarrow> u32 \<Rightarrow> Elf64ProgramHeader \<Rightarrow> bool" where
  "segment_ok low high file_size g \<longleftrightarrow>
     unat (p_offset g) + unat (p_filesz g) \<le> unat file_size \<and> p_filesz g \<le> p_memsz g \<and>
     low \<le> unat (p_vaddr g) \<and> unat (p_vaddr g) + unat (p_memsz g) \<le> high"

lemma segment_ok_mono: "segment_ok low high n g \<Longrightarrow> low' \<le> low \<Longrightarrow> high \<le> high' \<Longrightarrow> segment_ok low' high' n g"
  by (auto simp: segment_ok_def)

text \<open>The bounds found so far: none, or page-aligned ones inside the region.\<close>

definition bounds_ok :: "u64 \<times> u64 \<times> bool \<Rightarrow> bool" where
  "bounds_ok b = (case b of (low, high, has) \<Rightarrow>
     if has then 0x8000000000 \<le> unat low \<and> unat low < 0x80000EF000 \<and> unat high \<le> 0x80000EF000 \<and>
       4096 dvd unat low \<and> 4096 dvd unat high
     else low = NOT 0 \<and> high = 0)"

lemma in_file:
  assumes "\<not> segment_outside_file g n"
  shows "unat (p_offset g) + unat (p_filesz g) \<le> unat n" "p_filesz g \<le> p_memsz g"
proof -
  have "p_offset g \<le> ucast n" "p_filesz g \<le> ucast n - p_offset g" "p_filesz g \<le> p_memsz g"
    using assms by (auto simp: segment_outside_file_def not_less)
  then show "unat (p_offset g) + unat (p_filesz g) \<le> unat n" "p_filesz g \<le> p_memsz g"
    by (auto simp: word_le_nat_alt unat_diff_small)
qed

lemma scan_segments_ok:
  assumes "scan_segments gs n b = Inr b'" and "bounds_ok b"
  shows "bounds_ok b' \<and> unat (fst b') \<le> unat (fst b) \<and> unat (fst (snd b)) \<le> unat (fst (snd b')) \<and>
    (\<forall>g \<in> set gs. p_type g = PT_LOAD \<longrightarrow> snd (snd b') \<and> segment_ok (unat (fst b')) (unat (fst (snd b'))) n g) \<and>
    (snd (snd b) \<longrightarrow> snd (snd b'))"
  using assms
proof (induction gs arbitrary: b)
  case Nil
  then show ?case by auto
next
  case (Cons g gs)
  obtain low high has where b: "b = (low, high, has)" by (metis prod_cases3)
  show ?case
  proof (cases "p_type g = PT_LOAD")
    case False
    then have "scan_segments gs n b = Inr b'" using Cons.prems(1) by (simp add: b)
    from Cons.IH [OF this Cons.prems(2)] show ?thesis using False by simp
  next
    case True
    let ?low = "if align_down_page (p_vaddr g) < low then align_down_page (p_vaddr g) else low"
    let ?high = "if align_up_page (p_vaddr g + p_memsz g) > high then align_up_page (p_vaddr g + p_memsz g) else high"
    have go: "\<not> segment_outside_file g n" "PROCESS_ABI_IMAGE_BASE \<le> p_vaddr g" "p_vaddr g < PROCESS_ABI_IMAGE_LIMIT"
      "p_memsz g \<le> PROCESS_ABI_IMAGE_LIMIT - p_vaddr g" "scan_segments gs n (?low, ?high, True) = Inr b'"
      using Cons.prems(1) True by (auto simp: b Let_def not_less split: if_splits)
    have v: "0x8000000000 \<le> unat (p_vaddr g)" "unat (p_vaddr g) < 0x80000EF000"
      "unat (p_vaddr g) + unat (p_memsz g) \<le> 0x80000EF000"
      using go(2-4) abi_constants by (auto simp: word_le_nat_alt word_less_nat_alt unat_diff_small)
    have plus: "unat (p_vaddr g + p_memsz g) = unat (p_vaddr g) + unat (p_memsz g)"
      using v(3) by (intro unat_add_small) simp
    define d where "d = unat (align_down_page (p_vaddr g))"
    define u where "u = unat (align_up_page (p_vaddr g + p_memsz g))"
    have d: "4096 dvd d" "d \<le> unat (p_vaddr g)" "0x8000000000 \<le> d"
      using v(1) unfolding d_def unat_align_down_page by auto
    have u: "4096 dvd u" "unat (p_vaddr g) + unat (p_memsz g) \<le> u" "u \<le> 0x80000EF000"
    proof -
      have "u = (unat (p_vaddr g) + unat (p_memsz g) + 4095) div 4096 * 4096"
        unfolding u_def using v(3) by (subst unat_align_up_page) (simp_all add: plus)
      then show "4096 dvd u" "unat (p_vaddr g) + unat (p_memsz g) \<le> u" "u \<le> 0x80000EF000" using v(3) by auto
    qed
    have low: "unat ?low = min d (unat low)" and high: "unat ?high = max u (unat high)"
      by (auto simp: d_def u_def word_less_nat_alt)
    have ok: "bounds_ok (?low, ?high, True)"
    proof (cases has)
      case True
      then show ?thesis
        using Cons.prems(2) d u v unfolding bounds_ok_def b by (simp add: low high) (auto simp: min_def max_def)
    next
      case False
      then have "unat low = 2 ^ 64 - 1" "unat high = 0" using Cons.prems(2) by (simp_all add: bounds_ok_def b unsigned_minus_1_eq_mask mask_eq_exp_minus_1)
      then show ?thesis using d u v unfolding bounds_ok_def by (simp add: low high)
    qed
    have IH: "bounds_ok b' \<and> unat (fst b') \<le> unat ?low \<and> unat ?high \<le> unat (fst (snd b')) \<and>
      (\<forall>g \<in> set gs. p_type g = PT_LOAD \<longrightarrow> snd (snd b') \<and> segment_ok (unat (fst b')) (unat (fst (snd b'))) n g) \<and>
      snd (snd b')"
      using Cons.IH [OF go(5) ok] by simp
    have "segment_ok d u n g" using in_file [OF go(1)] d u by (simp add: segment_ok_def)
    then have "segment_ok (unat (fst b')) (unat (fst (snd b'))) n g"
      using IH low high by (auto intro: segment_ok_mono)
    then show ?thesis using IH low high by (auto simp: b)
  qed
qed


subsection \<open>Messages leave the kernel alone\<close>

lemma moves_kernel:
  fixes s s' :: "'d kernel_state"
  assumes "moves s s'"
  shows "paging s' = paging s" "volume s' = volume s" "ram s' = ram s"
    "g_foreground_process s' = g_foreground_process s" "g_active_process s' = g_active_process s"
proof -
  obtain r c v f k l e where *: "s' = s\<lparr>g_row := r, g_col := c, g_vga := v, g_framebuffer := f,
      io_clock := k, out_log := l, g_serial_enabled := e\<rparr>"
    using assms unfolding moves_def paints_def by blast
  show "paging s' = paging s" "volume s' = volume s" "ram s' = ram s"
    "g_foreground_process s' = g_foreground_process s" "g_active_process s' = g_active_process s"
    unfolding * by simp_all
qed

lemma say_ok: "console_ok s \<Longrightarrow> \<exists>s'. say str s = Some s' \<and> console_ok s' \<and> moves s s'"
  using console_write_line_ok [of s] by (auto simp: say_def does_def)

lemma say_false_ok: "console_ok s \<Longrightarrow> \<exists>s'. say_false str s = Some (False, s') \<and> console_ok s' \<and> moves s s'"
  using say_ok [of s str] by (auto simp: say_false_def)

lemma with_simps [simp]:
  "space (with_space f s) = f (space s)" "space (with_image g s) = space s" "space (with_runtime h s) = space s"
  "space (with_state st s) = space s" "rt (with_space f s) = rt s" "rt (with_image g s) = rt s"
  "rt (with_runtime h s) = h (rt s)" "rt (with_state st s) = rt s"
  "pr_image (g_foreground_process (with_image g s)) = g (pr_image (g_foreground_process s))"
  "pr_image (g_foreground_process (with_space f s)) = pr_image (g_foreground_process s)"
  "pr_image (g_foreground_process (with_runtime h s)) = pr_image (g_foreground_process s)"
  "pr_image (g_foreground_process (with_state st s)) = pr_image (g_foreground_process s)"
  "pr_state (g_foreground_process (with_state st s)) = st"
  "pr_state (g_foreground_process (with_space f s)) = pr_state (g_foreground_process s)"
  "pr_state (g_foreground_process (with_image g s)) = pr_state (g_foreground_process s)"
  "pr_state (g_foreground_process (with_runtime h s)) = pr_state (g_foreground_process s)"
  by (simp_all add: with_space_def with_image_def with_runtime_def with_state_def)

lemma with_kernel [simp]:
  "paging (with_space f s) = paging s" "paging (with_image g s) = paging s" "paging (with_runtime h s) = paging s"
  "paging (with_state st s) = paging s" "ram (with_space f s) = ram s" "ram (with_image g s) = ram s"
  "ram (with_runtime h s) = ram s" "ram (with_state st s) = ram s" "volume (with_space f s) = volume s"
  "volume (with_image g s) = volume s" "volume (with_runtime h s) = volume s" "volume (with_state st s) = volume s"
  "g_active_process (with_space f s) = g_active_process s" "g_active_process (with_image g s) = g_active_process s"
  "g_active_process (with_runtime h s) = g_active_process s" "g_active_process (with_state st s) = g_active_process s"
  by (simp_all add: with_space_def with_image_def with_runtime_def with_state_def)

lemma in_port_kernel [simp]:
  "in_port (with_space f s) = in_port s" "in_port (with_image g s) = in_port s" "in_port (with_runtime h s) = in_port s"
  "in_port (with_state st s) = in_port s"
  by (simp_all add: with_space_def with_image_def with_runtime_def with_state_def)

lemma console_ok_kernel [simp]:
  "console_ok (with_space f s) = console_ok s" "console_ok (with_image g s) = console_ok s"
  "console_ok (with_runtime h s) = console_ok s" "console_ok (with_state st s) = console_ok s"
  "console_ok (s\<lparr>paging := p\<rparr>) = console_ok s" "console_ok (s\<lparr>volume := v\<rparr>) = console_ok s"
  "console_ok (s\<lparr>ram := r\<rparr>) = console_ok s" "console_ok (s\<lparr>g_active_process := a\<rparr>) = console_ok s"
  "console_ok (s\<lparr>g_foreground_process := q\<rparr>) = console_ok s"
  by (simp_all add: with_space_def with_image_def with_runtime_def with_state_def console_ok_def fits_def)

subsection \<open>The layout\<close>

definition layout_ok :: "process_env \<Rightarrow> u32 \<Rightarrow> 'd kernel_state \<Rightarrow> bool" where
  "layout_ok env n s \<longleftrightarrow>
     (let a = space s; h = elf_header s; base = unat (image_base a); top = base + unat (image_capacity a) in
      64 \<le> unat n \<and> unat (e_phoff h) + 56 * unat (e_phnum h) \<le> unat n \<and> unat (e_phentsize h) = 56 \<and>
      4096 dvd base \<and> 4096 dvd top \<and> unat (image_page_count a) * 4096 = unat (image_capacity a) \<and> base < top \<and>
      0x8000000000 \<le> base \<and> unat (kernel_image_end env) \<le> base \<and> top + 4096 \<le> unat (stack_base a) \<and>
      base \<le> unat (entry_point (pr_image (g_foreground_process s))) \<and>
      unat (entry_point (pr_image (g_foreground_process s))) < top \<and>
      (\<forall>g \<in> set (segments s). p_type g = PT_LOAD \<longrightarrow> segment_ok base top n g))"

lemma elf_cong:
  "ram s' = ram s \<Longrightarrow> im_file_buffer (pr_image (g_foreground_process s')) = im_file_buffer (pr_image (g_foreground_process s)) \<Longrightarrow>
   elf_header s' = elf_header s \<and> segment s' i = segment s i \<and> segments s' = segments s"
  by (simp add: elf_header_def segment_def [abs_def] segments_def)

lemma bytes_to_pages_exact:
  assumes "4096 dvd unat n" and "unat n + 4095 < 2 ^ 64"
  shows "unat (bytes_to_pages n) * 4096 = unat n"
proof -
  obtain k where k: "unat n = 4096 * k" using assms(1) by (auto elim: dvdE)
  have "unat (n + PAGE_SIZE - 1) = unat n + 4095"
  proof -
    have "n + PAGE_SIZE - 1 = n + 4095" by (simp add: PAGE_SIZE_def)
    then show ?thesis using assms(2) by (simp only:) (subst unat_add_small; simp)
  qed
  then show ?thesis by (simp add: bytes_to_pages_def PAGE_SIZE_def unat_div_distrib k)
qed

text \<open>What a step of loading leaves alone, apart from the fields of the process object.\<close>

definition quiet :: "'d kernel_state \<Rightarrow> 'd kernel_state \<Rightarrow> bool" where
  "quiet s s' \<longleftrightarrow> console_ok s' \<and> in_port s' = in_port s \<and> paging s' = paging s \<and> volume s' = volume s \<and> ram s' = ram s \<and>
     g_active_process s' = g_active_process s \<and> rt s' = rt s \<and>
     im_file_buffer (pr_image (g_foreground_process s')) = im_file_buffer (pr_image (g_foreground_process s)) \<and>
     (space s')\<lparr>image_base := 0, image_capacity := 0, image_page_count := 0\<rparr> =
       (space s)\<lparr>image_base := 0, image_capacity := 0, image_page_count := 0\<rparr>"

lemma quiet_say:
  assumes "quiet s t" and "console_ok s"
  shows "\<exists>s'. say_false str t = Some (False, s') \<and> quiet s s'"
proof -
  obtain s' where "say_false str t = Some (False, s')" "console_ok s'" "moves t s'"
    using say_false_ok [of t str] assms by (auto simp: quiet_def)
  then show ?thesis using assms(1) moves_kernel [of t s'] moves_same(7) [of t s'] by (simp add: quiet_def)
qed

lemma configure_ok:
  assumes "console_ok s" and "stack_base (space s) = PROCESS_ABI_STACK_BASE"
  shows "\<exists>ok s'. process_configure_image_layout env n s = Some (ok, s') \<and> quiet s s' \<and>
    (ok \<longrightarrow> layout_ok env n s' \<and> im_file_size (pr_image (g_foreground_process s')) = n)"
proof -
  have refl: "quiet s s" using assms(1) by (simp add: quiet_def)
  note fail = quiet_say [OF refl assms(1)]
  let ?h = "elf_header s"
  have no: ?thesis if "process_configure_image_layout env n s = say_false msg s" for msg
    using fail [of msg] that by auto
  let ?bad = "unat n < ELF_HEADER_SIZE \<or> e_magic ?h \<noteq> ELF_MAGIC \<or> e_class ?h \<noteq> ELFCLASS64 \<or> e_machine ?h \<noteq> EM_X86_64 \<or>
              unat (e_phentsize ?h) \<noteq> ELF_PROGRAM_HEADER_SIZE \<or> e_phoff ?h > ucast n \<or>
              ucast (e_phnum ?h) * ucast (e_phentsize ?h) > ucast n - e_phoff ?h"
  show ?thesis
  proof (cases ?bad)
    case True
    then show ?thesis by (intro no [of "''invalid program''"]) (auto simp: process_configure_image_layout_def Let_def)
  next
    case good: False
    show ?thesis
    proof (cases "scan_segments (segments s) n (NOT 0, 0, False)")
      case (Inl msg)
      then show ?thesis using good by (intro no [of msg]) (simp add: process_configure_image_layout_def Let_def)
    next
      case (Inr b)
      obtain low high has where b: "b = (low, high, has)" by (metis prod_cases3)
      note scan = scan_segments_ok [OF Inr [unfolded b], simplified bounds_ok_def [of "(NOT 0, 0, False)"] prod.case, simplified]
      let ?bad = "\<not> has \<or> low < kernel_image_end env \<or> e_entry ?h < low \<or> e_entry ?h \<ge> high \<or> high \<le> low"
      show ?thesis
      proof (cases ?bad)
        case True
        then have "\<exists>msg. process_configure_image_layout env n s = say_false msg s"
          using good Inr b by (auto simp: process_configure_image_layout_def Let_def)
        then show ?thesis using no by blast
      next
        case fine: False
        let ?a = "\<lambda>a. a\<lparr>image_base := low, image_capacity := high - low, image_page_count := bytes_to_pages (high - low)\<rparr>"
        let ?t = "with_space ?a s"
        let ?u = "with_image (\<lambda>i. i\<lparr>entry_point := e_entry ?h, im_file_size := n\<rparr>) ?t"
        have bounds: "0x8000000000 \<le> unat low" "unat high \<le> 0x80000EF000" "4096 dvd unat low" "4096 dvd unat high"
          using scan fine by (auto simp: bounds_ok_def)
        have cap: "unat (high - low) = unat high - unat low" "unat low < unat high"
          using fine by (auto simp: not_le word_le_nat_alt word_less_nat_alt unat_diff_small)
        have gap: "unat (high + PROCESS_ABI_STACK_GAP) = unat high + 4096"
          using bounds(2) abi_constants by (subst unat_add_small) simp_all
        have run: "process_configure_image_layout env n s = Some (True, ?u)"
        proof -
          have "\<not> (low < PROCESS_ABI_IMAGE_BASE \<or> high > PROCESS_ABI_IMAGE_LIMIT)"
            "\<not> high + PROCESS_ABI_STACK_GAP > stack_base (space ?t)"
            using bounds gap abi_constants assms(2) by (auto simp: word_less_nat_alt)
          then show ?thesis using good fine Inr b by (simp add: process_configure_image_layout_def Let_def)
        qed
        have pages: "unat (bytes_to_pages (high - low)) * 4096 = unat high - unat low"
          using bytes_to_pages_exact [of "high - low"] cap bounds by (auto simp: dvd_diff_nat)
        have table: "unat (e_phoff ?h) + 56 * unat (e_phnum ?h) \<le> unat n"
        proof -
          have m: "unat (ucast (e_phnum ?h) * ucast (e_phentsize ?h) :: u64) = unat (e_phnum ?h) * 56"
            using good unat_u16_bound [of "e_phnum ?h"]
            by (subst unat_mult_small) (auto simp: ELF_PROGRAM_HEADER_SIZE_def)
          have "e_phoff ?h \<le> ucast n" "ucast (e_phnum ?h) * ucast (e_phentsize ?h) \<le> ucast n - e_phoff ?h"
            using good by auto
          then show ?thesis by (simp add: word_le_nat_alt m unat_diff_small)
        qed
        have same: "elf_header ?u = ?h" "segments ?u = segments s"
          using elf_cong [of ?u s] by simp_all
        have "layout_ok env n ?u"
          using good fine bounds cap pages table scan assms(2) abi_constants
          unfolding layout_ok_def Let_def same
          by (simp add: ELF_HEADER_SIZE_def ELF_PROGRAM_HEADER_SIZE_def word_le_nat_alt word_less_nat_alt not_le not_less)
        moreover have "quiet s ?u" using refl by (simp add: quiet_def)
        ultimately show ?thesis using run by (intro exI [of _ True] exI [of _ ?u]) simp
      qed
    qed
  qed
qed


subsection \<open>What is accepted\<close>

text \<open>The loadable segments, and what is asked of each: its bytes in the file, its memory in the region.\<close>

definition load_segments :: "'d kernel_state \<Rightarrow> Elf64ProgramHeader list" where
  "load_segments s = filter (\<lambda>g. p_type g = PT_LOAD) (segments s)"

definition segment_fits :: "u32 \<Rightarrow> Elf64ProgramHeader \<Rightarrow> bool" where
  "segment_fits n g \<longleftrightarrow> unat (p_offset g) + unat (p_filesz g) \<le> unat n \<and> p_filesz g \<le> p_memsz g \<and>
     0x8000000000 \<le> unat (p_vaddr g) \<and> unat (p_vaddr g) < 0x80000EF000 \<and>
     unat (p_vaddr g) + unat (p_memsz g) \<le> 0x80000EF000"

definition image_low :: "Elf64ProgramHeader list \<Rightarrow> u64" where
  "image_low gs = fold (\<lambda>g. min (align_down_page (p_vaddr g))) gs (NOT 0)"

definition image_high :: "Elf64ProgramHeader list \<Rightarrow> u64" where
  "image_high gs = fold (\<lambda>g. max (align_up_page (p_vaddr g + p_memsz g))) gs 0"

definition header_ok :: "u32 \<Rightarrow> Elf64Header \<Rightarrow> bool" where
  "header_ok n h \<longleftrightarrow> 64 \<le> unat n \<and> e_magic h = ELF_MAGIC \<and> e_class h = ELFCLASS64 \<and> e_machine h = EM_X86_64 \<and>
     unat (e_phentsize h) = 56 \<and> unat (e_phoff h) + 56 * unat (e_phnum h) \<le> unat n"

definition accepted :: "process_env \<Rightarrow> u32 \<Rightarrow> 'd kernel_state \<Rightarrow> bool" where
  "accepted env n s \<longleftrightarrow>
     (let gs = load_segments s; h = elf_header s in
      header_ok n h \<and> gs \<noteq> [] \<and> (\<forall>g \<in> set gs. segment_fits n g) \<and>
      kernel_image_end env \<le> image_low gs \<and> image_low gs \<le> e_entry h \<and> e_entry h < image_high gs)"

lemma segment_fits_checks:
  "segment_fits n g \<longleftrightarrow> \<not> segment_outside_file g n \<and>
     \<not> (p_vaddr g < PROCESS_ABI_IMAGE_BASE \<or> p_vaddr g \<ge> PROCESS_ABI_IMAGE_LIMIT \<or>
        p_memsz g > PROCESS_ABI_IMAGE_LIMIT - p_vaddr g)"
proof -
  have "\<not> segment_outside_file g n \<longleftrightarrow> unat (p_offset g) + unat (p_filesz g) \<le> unat n \<and> p_filesz g \<le> p_memsz g"
  proof (cases "p_offset g \<le> ucast n")
    case True
    then have "unat (ucast n - p_offset g) = unat n - unat (p_offset g)" "unat (p_offset g) \<le> unat n"
      by (simp_all add: unat_diff_small word_le_nat_alt)
    then show ?thesis using True by (auto simp: segment_outside_file_def not_less word_le_nat_alt word_less_nat_alt)
  qed (auto simp: segment_outside_file_def word_le_nat_alt word_less_nat_alt)
  moreover have "\<not> (p_vaddr g < PROCESS_ABI_IMAGE_BASE \<or> p_vaddr g \<ge> PROCESS_ABI_IMAGE_LIMIT \<or>
        p_memsz g > PROCESS_ABI_IMAGE_LIMIT - p_vaddr g) \<longleftrightarrow>
     0x8000000000 \<le> unat (p_vaddr g) \<and> unat (p_vaddr g) < 0x80000EF000 \<and> unat (p_vaddr g) + unat (p_memsz g) \<le> 0x80000EF000"
  proof (cases "p_vaddr g < PROCESS_ABI_IMAGE_LIMIT")
    case True
    then have "unat (PROCESS_ABI_IMAGE_LIMIT - p_vaddr g) = 0x80000EF000 - unat (p_vaddr g)" "unat (p_vaddr g) < 0x80000EF000"
      by (simp_all add: unat_diff_small word_less_nat_alt abi_constants word_le_nat_alt)
    then show ?thesis using True abi_constants by (auto simp: word_less_nat_alt word_le_nat_alt)
  qed (use abi_constants in \<open>simp add: word_less_nat_alt word_le_nat_alt not_less\<close>)
  ultimately show ?thesis unfolding segment_fits_def by blast
qed

lemma scan_segments_spec:
  fixes gs :: "Elf64ProgramHeader list"
  defines "ls \<equiv> \<lambda>gs. filter (\<lambda>g. p_type g = PT_LOAD) gs"
  shows "(case scan_segments gs n (low, high, has) of
      Inl _ \<Rightarrow> \<not> (\<forall>g \<in> set (ls gs). segment_fits n g)
    | Inr b \<Rightarrow> (\<forall>g \<in> set (ls gs). segment_fits n g) \<and>
        b = (fold (\<lambda>g. min (align_down_page (p_vaddr g))) (ls gs) low,
             fold (\<lambda>g. max (align_up_page (p_vaddr g + p_memsz g))) (ls gs) high, has \<or> ls gs \<noteq> []))"
proof (induction gs arbitrary: low high has)
  case Nil
  then show ?case by (simp add: ls_def)
next
  case (Cons g gs)
  let ?d = "align_down_page (p_vaddr g)" and ?u = "align_up_page (p_vaddr g + p_memsz g)"
  consider (skip) "p_type g \<noteq> PT_LOAD" | (bad) "p_type g = PT_LOAD" "\<not> segment_fits n g"
    | (good) "p_type g = PT_LOAD" "segment_fits n g" by blast
  then show ?case
  proof cases
    case skip
    then have l: "ls (g # gs) = ls gs" by (simp add: ls_def)
    show ?thesis unfolding l using Cons.IH [of low high has] skip by simp
  next
    case bad
    then have "\<exists>m. scan_segments (g # gs) n (low, high, has) = Inl m"
      unfolding segment_fits_checks by auto
    then show ?thesis using bad by (auto simp: ls_def)
  next
    case good
    have m: "(if ?d < low then ?d else low) = min ?d low" "(if ?u > high then ?u else high) = max ?u high"
      by (auto simp: min_def max_def)
    have "scan_segments (g # gs) n (low, high, has) = scan_segments gs n (min ?d low, max ?u high, True)"
      using good unfolding segment_fits_checks by (simp add: Let_def m)
    then show ?thesis using Cons.IH [of "min ?d low" "max ?u high" True] good
      by (auto simp: ls_def split: sum.splits)
  qed
qed

lemma header_checks:
  "header_ok n h \<longleftrightarrow> \<not> (unat n < ELF_HEADER_SIZE \<or> e_magic h \<noteq> ELF_MAGIC \<or> e_class h \<noteq> ELFCLASS64 \<or>
     e_machine h \<noteq> EM_X86_64 \<or> unat (e_phentsize h) \<noteq> ELF_PROGRAM_HEADER_SIZE \<or> e_phoff h > ucast n \<or>
     ucast (e_phnum h) * ucast (e_phentsize h) > ucast n - e_phoff h)"
proof (cases "unat (e_phentsize h) = 56 \<and> e_phoff h \<le> ucast n")
  case True
  have m: "unat (ucast (e_phnum h) * ucast (e_phentsize h) :: u64) = unat (e_phnum h) * 56"
    using True unat_u16_bound [of "e_phnum h"] by (subst unat_mult_small) auto
  have "unat (ucast n - e_phoff h) = unat n - unat (e_phoff h)" "unat (e_phoff h) \<le> unat n"
    using True by (simp_all add: unat_diff_small word_le_nat_alt)
  then show ?thesis
    using True by (auto simp: header_ok_def ELF_HEADER_SIZE_def ELF_PROGRAM_HEADER_SIZE_def word_less_nat_alt m not_less)
qed (auto simp: header_ok_def ELF_PROGRAM_HEADER_SIZE_def word_le_nat_alt word_less_nat_alt)

text \<open>The result follows the acceptance.\<close>

lemma configure_accepts:
  assumes "console_ok s" and base: "stack_base (space s) = PROCESS_ABI_STACK_BASE"
    and run: "process_configure_image_layout env n s = Some (ok, s')"
  shows "ok \<longleftrightarrow> accepted env n s"
    and "ok \<Longrightarrow> image_base (space s') = image_low (load_segments s) \<and>
      image_base (space s') + image_capacity (space s') = image_high (load_segments s) \<and>
      entry_point (pr_image (g_foreground_process s')) = e_entry (elf_header s)"
proof -
  let ?h = "elf_header s" and ?gs = "load_segments s"
  let ?low = "image_low ?gs" and ?high = "image_high ?gs"
  have no: "\<not> ok" if "process_configure_image_layout env n s = say_false msg s1" "console_ok s1" for msg and s1 :: "'a kernel_state"
    using say_false_ok [OF that(2), of msg] that(1) run by auto
  note scan = scan_segments_spec [of "segments s" n "NOT 0" 0 False, folded load_segments_def image_low_def image_high_def]
  let ?mid = "?gs \<noteq> [] \<and> kernel_image_end env \<le> ?low \<and> ?low \<le> e_entry ?h \<and> e_entry ?h < ?high"
  let ?u = "with_image (\<lambda>i. i\<lparr>entry_point := e_entry ?h, im_file_size := n\<rparr>)
      (with_space (\<lambda>a. a\<lparr>image_base := ?low, image_capacity := ?high - ?low, image_page_count := bytes_to_pages (?high - ?low)\<rparr>) s)"
  have res: "if accepted env n s then ok \<and> s' = ?u else \<not> ok"
  proof (cases "header_ok n ?h \<and> (\<forall>g \<in> set ?gs. segment_fits n g) \<and> ?mid")
    case False
    have "\<exists>msg. process_configure_image_layout env n s = say_false msg s"
    proof (cases "header_ok n ?h")
      case False
      then show ?thesis unfolding header_checks process_configure_image_layout_def Let_def by auto
    next
      case h: True
      note h' = h [unfolded header_checks]
      show ?thesis
      proof (cases "scan_segments (segments s) n (NOT 0, 0, False)")
        case (Inl msg)
        then show ?thesis using h' unfolding process_configure_image_layout_def Let_def by auto
      next
        case (Inr b)
        then have b: "b = (?low, ?high, ?gs \<noteq> [])" "\<forall>g \<in> set ?gs. segment_fits n g" using scan by simp_all
        then have "\<not> ?mid" using False h by blast
        then have "?gs = [] \<or> ?low < kernel_image_end env \<or> e_entry ?h < ?low \<or> e_entry ?h \<ge> ?high"
          by (auto simp: not_le not_less)
        then show ?thesis using h' Inr b unfolding process_configure_image_layout_def Let_def by auto
      qed
    qed
    then show ?thesis using no assms(1) False by (auto simp: accepted_def Let_def)
  next
    case True
    note h' = True [THEN conjunct1, unfolded header_checks]
    obtain b where i: "scan_segments (segments s) n (NOT 0, 0, False) = Inr b" using scan True
      by (cases "scan_segments (segments s) n (NOT 0, 0, False)") auto
    then have b: "b = (?low, ?high, True)" using scan True by simp
    have "bounds_ok b" using scan_segments_ok [OF i] by (simp add: bounds_ok_def)
    then have bounds: "0x8000000000 \<le> unat ?low" "unat ?high \<le> 0x80000EF000" by (auto simp: b bounds_ok_def)
    have gap: "unat (?high + PROCESS_ABI_STACK_GAP) = unat ?high + 4096"
      using bounds(2) abi_constants by (subst unat_add_small) simp_all
    have ok: "\<not> (?low < kernel_image_end env)" "\<not> (e_entry ?h < ?low \<or> e_entry ?h \<ge> ?high)" "\<not> ?high \<le> ?low"
      using True by (auto simp: not_less not_le)
    have "\<not> (?low < PROCESS_ABI_IMAGE_BASE \<or> ?high > PROCESS_ABI_IMAGE_LIMIT)"
      "\<not> ?high + PROCESS_ABI_STACK_GAP > PROCESS_ABI_STACK_BASE"
      using bounds gap abi_constants by (auto simp: word_less_nat_alt)
    then have "process_configure_image_layout env n s = Some (True, ?u)"
      using h' i b ok base by (simp add: process_configure_image_layout_def Let_def)
    then show ?thesis using run True by (simp add: accepted_def Let_def)
  qed
  then show "ok \<longleftrightarrow> accepted env n s" by (simp split: if_splits)
  assume ok
  then have "s' = ?u" using res by (simp split: if_splits)
  then show "image_base (space s') = ?low \<and> image_base (space s') + image_capacity (space s') = ?high \<and>
      entry_point (pr_image (g_foreground_process s')) = e_entry ?h" by simp
qed

text \<open>C13: \<open>process_configure_image_layout\<close> always returns and touches nothing but the fields of the layout. It
  accepts exactly the files with a sound header, at least one loadable segment, every loadable segment
  in the file and in the program's region, the kernel below and the entry point inside the image; the image
  it records is then the smallest range of pages around the segments, below the stack and its gap.\<close>

theorem process_configure_image_layout_accepts:
  assumes "console_ok s" and "stack_base (space s) = PROCESS_ABI_STACK_BASE"
  shows "\<exists>ok s'. process_configure_image_layout env n s = Some (ok, s') \<and> quiet s s' \<and> (ok \<longleftrightarrow> accepted env n s) \<and>
    (ok \<longrightarrow> layout_ok env n s' \<and> image_base (space s') = image_low (load_segments s) \<and>
       image_base (space s') + image_capacity (space s') = image_high (load_segments s) \<and>
       entry_point (pr_image (g_foreground_process s')) = e_entry (elf_header s))"
  using configure_ok [OF assms, of env n] configure_accepts [OF assms] by blast

text \<open>A file of 121 bytes: a header and one segment of one byte at the start of the region.\<close>

definition demo_elf :: "u8 list" where
  "demo_elf = [0x7F, 0x45, 0x4C, 0x46, 2, 1, 1, 0, 0, 0, 0, 0, 0, 0, 0, 0, 2, 0, 62, 0, 1, 0, 0, 0,
     0, 0, 0, 0, 0x80, 0, 0, 0, 64, 0, 0, 0, 0, 0, 0, 0, 0, 0, 0, 0, 0, 0, 0, 0, 0, 0, 0, 0, 64, 0, 56, 0, 1, 0, 0, 0, 0, 0, 0, 0,
     1, 0, 0, 0, 5, 0, 0, 0, 120, 0, 0, 0, 0, 0, 0, 0, 0, 0, 0, 0, 0x80, 0, 0, 0, 0, 0, 0, 0, 0x80, 0, 0, 0,
     1, 0, 0, 0, 0, 0, 0, 0, 16, 0, 0, 0, 0, 0, 0, 0, 0, 16, 0, 0, 0, 0, 0, 0, 0xC3]"

definition demo_loaded :: "ramdisk kernel_state" where
  "demo_loaded = process_init (demo_kernel\<lparr>ram := (\<lambda>a. if unat a < 121 then demo_elf ! unat a else 0)\<rparr>)"


lemma ram_bytes_list:
  assumes "unat p + n \<le> length l" and "length l < 2 ^ 64"
  shows "ram_bytes (\<lambda>a. if unat a < length l then l ! unat a else 0) p n = take n (drop (unat p) l)"
proof (rule nth_equalityI)
  fix i assume "i < length (ram_bytes (\<lambda>a. if unat a < length l then l ! unat a else 0) p n)"
  then have i: "i < n" by (simp add: ram_bytes_def)
  have "unat (p + of_nat i) = unat p + i" using assms i by (simp add: unat_add_small unat_of_nat)
  then show "ram_bytes (\<lambda>a. if unat a < length l then l ! unat a else 0) p n ! i = take n (drop (unat p) l) ! i"
    using assms i by (simp add: ram_bytes_def)
qed (use assms in \<open>simp add: ram_bytes_def\<close>)

lemma demo_loaded_elf:
  "elf_header demo_loaded = elf_header_of (take 64 demo_elf)"
  "segments demo_loaded = [program_header_of (take 56 (drop 64 demo_elf))]"
proof -
  have len: "length demo_elf = 121" by (simp add: demo_elf_def)
  have r: "ram demo_loaded = (\<lambda>a. if unat a < length demo_elf then demo_elf ! unat a else 0)"
    "im_file_buffer (pr_image (g_foreground_process demo_loaded)) = 0"
    by (simp_all add: len demo_loaded_def process_init_def process_prepare_runtime_def process_reset_fields_def
      Let_def process_zero_def with_space_def with_state_def with_runtime_def)
  show h: "elf_header demo_loaded = elf_header_of (take 64 demo_elf)"
    unfolding elf_header_def r ELF_HEADER_SIZE_def by (subst ram_bytes_list) (simp_all add: len)
  have f: "e_phnum (elf_header_of (take 64 demo_elf)) = 1" "e_phoff (elf_header_of (take 64 demo_elf)) = 64"
    by (simp_all add: demo_elf_def elf_header_of_def le16_at_def le64_at_def le32_at_def of_le16_def of_le32_def)
  show "segments demo_loaded = [program_header_of (take 56 (drop 64 demo_elf))]"
    unfolding segments_def segment_def h Let_def r ELF_PROGRAM_HEADER_SIZE_def f
    using ram_bytes_list [of 64 56 demo_elf] by (simp add: len)
qed

theorem process_configure_image_layout_accepts_witness:
  "accepted demo_env 121 demo_loaded \<and>
   (\<exists>ok s'. process_configure_image_layout demo_env 121 demo_loaded = Some (ok, s') \<and> quiet demo_loaded s' \<and>
    (ok \<longleftrightarrow> accepted demo_env 121 demo_loaded) \<and>
    (ok \<longrightarrow> layout_ok demo_env 121 s' \<and> image_base (space s') = image_low (load_segments demo_loaded) \<and>
       image_base (space s') + image_capacity (space s') = image_high (load_segments demo_loaded) \<and>
       entry_point (pr_image (g_foreground_process s')) = e_entry (elf_header demo_loaded)))"
proof (intro conjI process_configure_image_layout_accepts)
  show "accepted demo_env 121 demo_loaded"
    unfolding accepted_def load_segments_def demo_loaded_elf Let_def
    by (simp add: demo_elf_def elf_header_of_def program_header_of_def le16_at_def le64_at_def le32_at_def of_le16_def of_le32_def
      header_ok_def segment_fits_def image_low_def image_high_def demo_env_def ELF_MAGIC_def ELFCLASS64_def EM_X86_64_def PT_LOAD_def
      align_down_page_def align_up_page_def PAGE_SIZE_def)
  have "console_ok demo_kernel" by (simp add: demo_kernel_def console_ok_def fits_def)
  then show "console_ok demo_loaded"
    by (simp add: demo_loaded_def process_init_def process_prepare_runtime_def process_reset_fields_def)
qed (simp add: demo_loaded_def process_init_def process_prepare_runtime_def process_reset_fields_def)

end
