(* ===== verification/PagingOwn.thy ===== *)
theory PagingOwn
  imports PagingLife
begin

text \<open>
  Who owns which pages while a program's address space is built and torn down: the space's own tables,
  and the blocks the kernel allocates and frees beside it.
\<close>

lemma tables_page:
  "tree_ok F T R \<Longrightarrow> t \<in> tables_of T R \<Longrightarrow> page_ok t \<and> block_set t 1 \<inter> F = {}"
  by (auto simp: tables_of_def tree_ok_def)

lemma spans_tables: "spans T R = (\<Union>t \<in> tables_of T R. block_set t 1)"
  by (simp add: spans_def tables_of_def)

lemma own_tables_kernel:
  assumes iso: "isolated R s" and t: "t \<in> own_tables R s"
  shows "t \<in> tables_of (pg_tables s) R \<and> t \<notin> tables_of (pg_tables s) (g_pml4 s)"
proof
  show "t \<in> tables_of (pg_tables s) R" using own_tables_sub t by blast
  show "t \<notin> tables_of (pg_tables s) (g_pml4 s)"
    using t isolatedD(3,5) [OF iso] by (auto simp: own_tables_def simp del: table_at.simps)
qed

text \<open>A table of the space is its own or the kernel's.\<close>

lemma own_or_kernel:
  assumes "t \<in> tables_of (pg_tables s) R"
  shows "t \<in> own_tables R s \<or> t \<in> tables_of (pg_tables s) (g_pml4 s)"
proof -
  obtain p where p: "length p \<le> 3" "table_at (pg_tables s) R p = Some t" using assms by (auto simp: tables_of_def)
  show ?thesis
  proof (cases p)
    case Nil
    then show ?thesis using p by (simp add: own_tables_def)
  next
    case (Cons i q)
    show ?thesis
    proof (cases "pg_tables s R i = pg_tables s (g_pml4 s) i")
      case True
      then have "table_at (pg_tables s) (g_pml4 s) p = Some t" using p(2) Cons by (auto split: if_splits)
      then show ?thesis using p(1) tables_ofI by blast
    next
      case False
      then show ?thesis
        using p Cons unfolding own_tables_def by (intro disjI1 insertI2 CollectI exI [of _ i] exI [of _ q]) simp
    qed
  qed
qed

subsection \<open>Mapping steps\<close>

lemma steps_kernel:
  assumes iso: "isolated R s" and st: "steps True (tables_of (pg_tables s) (g_pml4 s)) R s s'"
  shows "isolated R s'" "tables_of (pg_tables s') (g_pml4 s') = tables_of (pg_tables s) (g_pml4 s)"
    "translate (pg_tables s') (g_pml4 s') v = translate (pg_tables s) (g_pml4 s) v" "g_pml4 s' = g_pml4 s"
proof -
  show "isolated R s'" "translate (pg_tables s') (g_pml4 s') v = translate (pg_tables s) (g_pml4 s) v"
    using steps_isolated [OF iso st] by simp_all
  show K: "g_pml4 s' = g_pml4 s" by (rule stepsD(7) [OF st])
  have "\<forall>t \<in> tables_of (pg_tables s) (g_pml4 s). pg_tables s' t = pg_tables s t" using stepsD(3) [OF st] by blast
  from kept_tree(2) [OF kernel_okD(2) [OF isolatedD(1) [OF iso]] this order_refl]
  show "tables_of (pg_tables s') (g_pml4 s') = tables_of (pg_tables s) (g_pml4 s)" by (simp add: K)
qed

lemma own_span_grows:
  assumes iso: "isolated R s" and st: "steps True (tables_of (pg_tables s) (g_pml4 s)) R s s'"
  shows "own_span R s' = own_span R s \<union> (avail s - avail s')"
proof (intro set_eqI iffI)
  let ?T = "pg_tables s" and ?T' = "pg_tables s'" and ?K = "g_pml4 s"
  note D = isolatedD [OF iso] and S = stepsD [OF st] and K = steps_kernel [OF iso st]
  note D' = isolatedD [OF K(1)]
  fix x
  {
    assume "x \<in> own_span R s'"
    then obtain t where t: "t \<in> own_tables R s'" "x \<in> block_set t 1" by (auto simp: own_span_def)
    note tk = own_tables_kernel [OF K(1) t(1)]
    have "x \<in> spans ?T' R" using tk t(2) by (auto simp: spans_tables)
    then consider "x \<in> avail s - avail s'" | "x \<in> spans ?T R" using S(6) by blast
    then show "x \<in> own_span R s \<union> (avail s - avail s')"
    proof cases
      case 2
      then obtain w where w: "w \<in> tables_of ?T R" "x \<in> block_set w 1" by (auto simp: spans_tables)
      have "t = w"
        using block_owner [of t w x] tables_page [OF D'(2)] tables_page [OF D(2)] tk w t(2) by blast
      then have "w \<in> own_tables R s" using own_or_kernel [OF w(1)] tk K(2) by blast
      then show ?thesis using w(2) by (auto simp: own_span_def)
    qed blast
  next
    assume x: "x \<in> own_span R s \<union> (avail s - avail s')"
    have "\<exists>t. t \<in> tables_of ?T' R \<and> x \<in> block_set t 1 \<and> t \<notin> tables_of ?T' (g_pml4 s')"
    proof (cases "x \<in> own_span R s")
      case True
      then obtain t where t: "t \<in> own_tables R s" "x \<in> block_set t 1" by (auto simp: own_span_def)
      note tk = own_tables_kernel [OF iso t(1)]
      then obtain p where "length p \<le> 3" "table_at ?T R p = Some t" by (auto simp: tables_of_def)
      then have "t \<in> tables_of ?T' R" using S(4) tables_ofI by blast
      then show ?thesis using t(2) tk K(2) by blast
    next
      case False
      then have "x \<in> spans ?T' R" "x \<in> avail s" using x S(6) by auto
      then obtain t where t: "t \<in> tables_of ?T' R" "x \<in> block_set t 1" by (auto simp: spans_tables)
      have "t \<notin> tables_of ?T' (g_pml4 s')"
        using K(2) kernel_okD(4) [OF D(1)] t(2) \<open>x \<in> avail s\<close> by blast
      then show ?thesis using t by blast
    qed
    then show "x \<in> own_span R s'" using own_or_kernel [of _ s' R] by (auto simp: own_span_def)
  }
qed

lemma own_span_created:
  assumes "kernel_ok s" and "paging_create_address_space s = (R, s1)" and "R \<noteq> 0"
  shows "own_span R s1 = block_set R 1"
proof -
  note run = paging_create_address_space_run(2) [OF assms]
  have R: "R \<notin> tables_of (pg_tables s1) (g_pml4 s1)" by (rule isolatedD(3) [OF create_isolated(1) [OF assms]])
  then have "g_pml4 s1 \<noteq> R" using tables_ofI [of "[]" "pg_tables s1" "g_pml4 s1"] by auto
  then have same: "i < 512 \<Longrightarrow> pg_tables s1 R i = pg_tables s1 (g_pml4 s1) i" for i using run by simp
  have "own_tables R s1 = {R}"
    by (auto simp: own_tables_def dest: same split: if_splits)
  then show ?thesis by (simp add: own_span_def)
qed

lemma own_span_mem [simp]:
  "own_tables R (s\<lparr>pg_mem := m\<rparr>) = own_tables R s" "own_span R (s\<lparr>pg_mem := m\<rparr>) = own_span R s"
  "own_tables R (s\<lparr>cr3 := c\<rparr>) = own_tables R s" "own_span R (s\<lparr>cr3 := c\<rparr>) = own_span R s"
  by (simp_all add: own_span_def own_tables_def)

subsection \<open>Blocks beside the tables\<close>

text \<open>Only the free set of the allocator matters to the trees.\<close>

lemma kernel_ok_mem:
  assumes "kernel_ok s" and "mem_inv m" and "free_set (g_free_ranges m) \<subseteq> {..<2 ^ 52}"
    and "free_set (g_free_ranges m) \<inter> spans (pg_tables s) (g_pml4 s) = {}"
  shows "kernel_ok (s\<lparr>pg_mem := m\<rparr>)"
  using assms unfolding kernel_ok_def tree_ok_def pages_ok_def
  by (auto simp: avail_def spans_def disjoint_iff)

lemma isolated_mem:
  assumes "isolated R s" and "mem_inv m" and "free_set (g_free_ranges m) \<subseteq> {..<2 ^ 52}"
    and "free_set (g_free_ranges m) \<inter> spans (pg_tables s) (g_pml4 s) = {}"
    and "free_set (g_free_ranges m) \<inter> spans (pg_tables s) R = {}"
  shows "isolated R (s\<lparr>pg_mem := m\<rparr>)"
proof -
  have t: "tree_ok (free_set (g_free_ranges m)) (pg_tables s) R"
    using isolatedD(2) [OF assms(1)] assms(5) unfolding tree_ok_def spans_def by (auto simp: disjoint_iff)
  have k: "kernel_ok (s\<lparr>pg_mem := m\<rparr>)" by (rule kernel_ok_mem [OF isolatedD(1) [OF assms(1)] assms(2-4)])
  show ?thesis using assms(1) t k by (simp add: isolated_def Let_def avail_def)
qed

lemma spans_avail:
  "kernel_ok s \<Longrightarrow> spans (pg_tables s) (g_pml4 s) \<inter> avail s = {}"
  "isolated R s \<Longrightarrow> spans (pg_tables s) R \<inter> avail s = {}"
  using tables_page [OF kernel_okD(2)] tables_page [OF isolatedD(2)] by (fastforce simp: spans_tables)+

lemma own_span_spans: "isolated R s \<Longrightarrow> own_span R s \<subseteq> spans (pg_tables s) R"
  using own_tables_sub [of R s] by (auto simp: own_span_def spans_tables)

lemma spans_own: "spans (pg_tables s) R \<subseteq> own_span R s \<union> spans (pg_tables s) (g_pml4 s)"
  using own_or_kernel [of _ s R] by (auto simp: own_span_def spans_tables)

lemma own_span_apart:
  assumes iso: "isolated R s"
  shows "own_span R s \<inter> spans (pg_tables s) (g_pml4 s) = {}"
proof (rule equals0I)
  fix x assume "x \<in> own_span R s \<inter> spans (pg_tables s) (g_pml4 s)"
  then obtain t w where tw: "t \<in> own_tables R s" "x \<in> block_set t 1" "w \<in> tables_of (pg_tables s) (g_pml4 s)"
      "x \<in> block_set w 1" by (auto simp: own_span_def spans_tables)
  note t = own_tables_kernel [OF iso tw(1)]
  have "t = w"
    using block_owner [of t w x] tables_page [OF isolatedD(2) [OF iso]] t tw
      tables_page [OF kernel_okD(2) [OF isolatedD(1) [OF iso]]] by blast
  then show False using t tw(3) by blast
qed

lemma page_below: "page_ok t \<Longrightarrow> block_set t 1 \<subseteq> {..<2 ^ 52}"
proof -
  assume "page_ok t"
  then have "4096 dvd unat t" "unat t < 2 ^ 52" by (simp_all add: page_ok_def)
  then have "unat t + 4096 \<le> 2 ^ 52" by (auto elim!: dvdE)
  then show ?thesis by (auto simp: block_set_def)
qed

lemma own_span_below: "isolated R s \<Longrightarrow> own_span R s \<subseteq> {..<2 ^ 52}"
  using own_tables_kernel [of R s] tables_page [OF isolatedD(2)] page_below by (fastforce simp: own_span_def)

lemma free_block:
  assumes inv: "mem_inv m" and blk: "block_ok b n" "b \<noteq> 0" "block_set b n \<inter> free_set (g_free_ranges m) = {}"
  defines "m' \<equiv> free_pages b n m"
  shows "mem_inv m'" "free_set (g_free_ranges m') \<subseteq> free_set (g_free_ranges m) \<union> block_set b n"
    "roomy m' \<Longrightarrow> roomy m \<and> free_set (g_free_ranges m') = free_set (g_free_ranges m) \<union> block_set b n"
proof -
  have disj: "free_set (g_free_ranges m) \<inter> block_set b n = {}" using blk(3) by blast
  note F = free_pages_cases [OF inv blk(1,2) disj]
  show "mem_inv m'" "free_set (g_free_ranges m') \<subseteq> free_set (g_free_ranges m) \<union> block_set b n"
    using F by (auto simp: m'_def)
  show "roomy m' \<Longrightarrow> roomy m \<and> free_set (g_free_ranges m') = free_set (g_free_ranges m) \<union> block_set b n"
    using F(2) not_roomy [of m b n] by (cases "roomy m") (auto simp: m'_def roomy_def)
qed

subsection \<open>What a program holds\<close>

text \<open>A root (0 when there is none) and some blocks of pages, all apart from each other, from the
  kernel's tables and from the free memory.\<close>

abbreviation span_of :: "u64 \<times> u64 \<Rightarrow> nat set" where
  "span_of b \<equiv> block_set (fst b) (snd b)"

definition held_tables :: "u64 \<Rightarrow> paging_state \<Rightarrow> nat set" where
  "held_tables R s = (if R = 0 then {} else own_span R s)"

definition held :: "u64 \<Rightarrow> (u64 \<times> u64) list \<Rightarrow> paging_state \<Rightarrow> nat set" where
  "held R bs s = held_tables R s \<union> (\<Union>b \<in> set bs. span_of b)"

definition holds :: "u64 \<Rightarrow> (u64 \<times> u64) list \<Rightarrow> paging_state \<Rightarrow> bool" where
  "holds R bs s \<longleftrightarrow> kernel_ok s \<and> (R \<noteq> 0 \<longrightarrow> isolated R s) \<and>
     (\<forall>b \<in> set bs. fst b \<noteq> 0 \<and> block_ok (fst b) (snd b) \<and> span_of b \<subseteq> {..<2 ^ 52} \<and>
        span_of b \<inter> (avail s \<union> spans (pg_tables s) (g_pml4 s) \<union> held_tables R s) = {}) \<and>
     sorted_wrt (\<lambda>b c. span_of b \<inter> span_of c = {}) bs"

text \<open>The pages that are free or held.\<close>

definition pages_of :: "u64 \<Rightarrow> (u64 \<times> u64) list \<Rightarrow> paging_state \<Rightarrow> nat set" where
  "pages_of R bs s = avail s \<union> held R bs s"

lemma holdsD:
  assumes "holds R bs s"
  shows "kernel_ok s" "R \<noteq> 0 \<Longrightarrow> isolated R s" "pages_ok s"
    "b \<in> set bs \<Longrightarrow> fst b \<noteq> 0 \<and> block_ok (fst b) (snd b) \<and> span_of b \<subseteq> {..<2 ^ 52} \<and>
        span_of b \<inter> (avail s \<union> spans (pg_tables s) (g_pml4 s) \<union> held_tables R s) = {}"
    "sorted_wrt (\<lambda>b c. span_of b \<inter> span_of c = {}) bs"
  using assms by (auto simp: holds_def kernel_ok_def)

lemma held_tables_mem [simp]: "held_tables R (s\<lparr>pg_mem := m\<rparr>) = held_tables R s"
  "held_tables R (s\<lparr>cr3 := c\<rparr>) = held_tables R s"
  by (simp_all add: held_tables_def)

lemma holds_cr3 [simp]: "holds R bs (s\<lparr>cr3 := c\<rparr>) = holds R bs s"
proof -
  have "kernel_ok (s\<lparr>cr3 := c\<rparr>) = kernel_ok s"
    by (simp add: kernel_ok_def pages_ok_def avail_def)
  then show ?thesis by (simp add: holds_def avail_def)
qed

lemma pages_of_cr3 [simp]: "pages_of R bs (s\<lparr>cr3 := c\<rparr>) = pages_of R bs s"
  by (simp add: pages_of_def held_def avail_def)

lemma held_apart:
  assumes "holds R bs s"
  shows "held_tables R s \<inter> avail s = {}" "held_tables R s \<inter> spans (pg_tables s) (g_pml4 s) = {}"
  using holdsD(2) [OF assms] own_span_spans [of R s] spans_avail(2) [of R s] own_span_apart [of R s]
  by (auto simp: held_tables_def)

lemma holds_alloc:
  assumes h: "holds R bs s" and a: "alloc_pages n (pg_mem s) = (p, m)"
  shows "p = 0 \<Longrightarrow> m = pg_mem s"
    and "p \<noteq> 0 \<Longrightarrow> holds R ((p, n) # bs) (s\<lparr>pg_mem := m\<rparr>) \<and> pages_of R ((p, n) # bs) (s\<lparr>pg_mem := m\<rparr>) = pages_of R bs s"
proof -
  note D = holdsD [OF h]
  have inv: "mem_inv (pg_mem s)" and low: "avail s \<subseteq> {..<2 ^ 52}" using D(3) by (auto simp: pages_ok_def)
  show "m = pg_mem s" if "p = 0" using alloc_pages_none [OF inv] a that by auto
  assume p: "p \<noteq> 0"
  note A = alloc_pages_some [OF inv a p]
  have sub: "free_set (g_free_ranges m) \<subseteq> avail s" using A(4) by (auto simp: avail_def)
  have k: "free_set (g_free_ranges m) \<inter> spans (pg_tables s) (g_pml4 s) = {}"
    using sub spans_avail(1) [OF D(1)] by blast
  have kok: "kernel_ok (s\<lparr>pg_mem := m\<rparr>)" using kernel_ok_mem [OF D(1) A(1) _ k] sub low by blast
  have iso: "R \<noteq> 0 \<Longrightarrow> isolated R (s\<lparr>pg_mem := m\<rparr>)"
    using isolated_mem [OF D(2) A(1) _ k] sub low spans_avail(2) [OF D(2)] by blast
  have blk: "block_set p n \<subseteq> avail s" using A(3) by (simp add: avail_def)
  have av: "avail (s\<lparr>pg_mem := m\<rparr>) = avail s - block_set p n" using A(4) by (simp add: avail_def)
  have "holds R ((p, n) # bs) (s\<lparr>pg_mem := m\<rparr>)"
    unfolding holds_def
  proof (intro conjI)
    show "\<forall>b \<in> set ((p, n) # bs). fst b \<noteq> 0 \<and> block_ok (fst b) (snd b) \<and> span_of b \<subseteq> {..<2 ^ 52} \<and>
        span_of b \<inter> (avail (s\<lparr>pg_mem := m\<rparr>) \<union> spans (pg_tables (s\<lparr>pg_mem := m\<rparr>)) (g_pml4 (s\<lparr>pg_mem := m\<rparr>)) \<union>
          held_tables R (s\<lparr>pg_mem := m\<rparr>)) = {}"
    proof
      fix b assume "b \<in> set ((p, n) # bs)"
      then consider "b = (p, n)" | "b \<in> set bs" by auto
      then show "fst b \<noteq> 0 \<and> block_ok (fst b) (snd b) \<and> span_of b \<subseteq> {..<2 ^ 52} \<and>
        span_of b \<inter> (avail (s\<lparr>pg_mem := m\<rparr>) \<union> spans (pg_tables (s\<lparr>pg_mem := m\<rparr>)) (g_pml4 (s\<lparr>pg_mem := m\<rparr>)) \<union>
          held_tables R (s\<lparr>pg_mem := m\<rparr>)) = {}"
      proof cases
        case 1
        have "block_set p n \<inter> spans (pg_tables s) (g_pml4 s) = {}" "block_set p n \<inter> held_tables R s = {}"
          using blk spans_avail(1) [OF D(1)] held_apart(1) [OF h] by blast+
        then show ?thesis using 1 p A(2) blk low unfolding av by auto
      next
        case 2
        then show ?thesis using D(4) [OF 2] unfolding av by auto
      qed
    qed
    show "sorted_wrt (\<lambda>b c. span_of b \<inter> span_of c = {}) ((p, n) # bs)"
      using D(4,5) blk by fastforce
  qed (use kok iso in auto)
  moreover have "pages_of R ((p, n) # bs) (s\<lparr>pg_mem := m\<rparr>) = pages_of R bs s"
    using blk unfolding pages_of_def held_def av by auto
  ultimately show "holds R ((p, n) # bs) (s\<lparr>pg_mem := m\<rparr>) \<and>
    pages_of R ((p, n) # bs) (s\<lparr>pg_mem := m\<rparr>) = pages_of R bs s" by blast
qed

lemma holds_free:
  assumes h: "holds R (bs @ (p, n) # cs) s"
  defines "t \<equiv> s\<lparr>pg_mem := free_pages p n (pg_mem s)\<rparr>"
  shows "holds R (bs @ cs) t" "pages_of R (bs @ cs) t \<subseteq> pages_of R (bs @ (p, n) # cs) s"
    "roomy (pg_mem t) \<Longrightarrow> roomy (pg_mem s) \<and> pages_of R (bs @ cs) t = pages_of R (bs @ (p, n) # cs) s"
proof -
  note D = holdsD [OF h]
  have b: "p \<noteq> 0" "block_ok p n" "block_set p n \<subseteq> {..<2 ^ 52}"
      "block_set p n \<inter> (avail s \<union> spans (pg_tables s) (g_pml4 s) \<union> held_tables R s) = {}"
    using D(4) [of "(p, n)"] by auto
  have inv: "mem_inv (pg_mem s)" and low: "avail s \<subseteq> {..<2 ^ 52}" using D(3) by (auto simp: pages_ok_def)
  have free: "block_set p n \<inter> free_set (g_free_ranges (pg_mem s)) = {}" using b(4) by (auto simp: avail_def)
  note F = free_block [OF inv b(2,1) free]
  have sub: "free_set (g_free_ranges (free_pages p n (pg_mem s))) \<subseteq> avail s \<union> block_set p n"
    using F(2) by (simp add: avail_def)
  have k: "free_set (g_free_ranges (free_pages p n (pg_mem s))) \<inter> spans (pg_tables s) (g_pml4 s) = {}"
    using sub spans_avail(1) [OF D(1)] b(4) by blast
  have low': "free_set (g_free_ranges (free_pages p n (pg_mem s))) \<subseteq> {..<2 ^ 52}" using sub low b(3) by blast
  have kok: "kernel_ok t" unfolding t_def by (rule kernel_ok_mem [OF D(1) F(1) low' k])
  have iso: "isolated R t" if "R \<noteq> 0"
    unfolding t_def
  proof (rule isolated_mem [OF D(2) [OF that] F(1) low' k])
    have "spans (pg_tables s) R \<subseteq> held_tables R s \<union> spans (pg_tables s) (g_pml4 s)"
      using spans_own [of s R] that by (simp add: held_tables_def)
    then show "free_set (g_free_ranges (free_pages p n (pg_mem s))) \<inter> spans (pg_tables s) R = {}"
      using sub spans_avail(2) [OF D(2) [OF that]] b(4) by blast
  qed
  have av: "avail t \<subseteq> avail s \<union> block_set p n" using sub by (simp add: avail_def t_def)
  have pw: "sorted_wrt (\<lambda>b c. span_of b \<inter> span_of c = {}) (bs @ cs)"
    "\<forall>b \<in> set (bs @ cs). span_of b \<inter> block_set p n = {}"
    using D(5) by (auto simp: sorted_wrt_append)
  have "\<forall>b \<in> set (bs @ cs). fst b \<noteq> 0 \<and> block_ok (fst b) (snd b) \<and> span_of b \<subseteq> {..<2 ^ 52} \<and>
        span_of b \<inter> (avail t \<union> spans (pg_tables t) (g_pml4 t) \<union> held_tables R t) = {}"
  proof
    fix b assume "b \<in> set (bs @ cs)"
    then have "b \<in> set (bs @ (p, n) # cs)" "span_of b \<inter> block_set p n = {}" using pw(2) by auto
    then show "fst b \<noteq> 0 \<and> block_ok (fst b) (snd b) \<and> span_of b \<subseteq> {..<2 ^ 52} \<and>
        span_of b \<inter> (avail t \<union> spans (pg_tables t) (g_pml4 t) \<union> held_tables R t) = {}"
      using D(4) [of b] av by (auto simp: t_def)
  qed
  then show "holds R (bs @ cs) t" using kok iso pw(1) by (simp add: holds_def)
  show "pages_of R (bs @ cs) t \<subseteq> pages_of R (bs @ (p, n) # cs) s"
    using av by (auto simp: pages_of_def held_def t_def)
  assume "roomy (pg_mem t)"
  then have r: "roomy (pg_mem s)" "avail t = avail s \<union> block_set p n" using F(3) by (auto simp: avail_def t_def)
  then show "roomy (pg_mem s) \<and> pages_of R (bs @ cs) t = pages_of R (bs @ (p, n) # cs) s"
    by (auto simp: pages_of_def held_def t_def)
qed


lemma holds_create:
  assumes h: "holds 0 bs s" and c: "paging_create_address_space s = (R, s')"
  shows "R = 0 \<Longrightarrow> s' = s"
    and "R \<noteq> 0 \<Longrightarrow> holds R bs s' \<and> pages_of R bs s' = pages_of 0 bs s \<and> cr3 s' = cr3 s \<and> g_pml4 s' = g_pml4 s \<and>
      R \<noteq> g_pml4 s \<and> (\<forall>v. translate (pg_tables s') R v = translate (pg_tables s) (g_pml4 s) v \<and>
        translate (pg_tables s') (g_pml4 s') v = translate (pg_tables s) (g_pml4 s) v)"
proof -
  note D = holdsD [OF h]
  show "R = 0 \<Longrightarrow> s' = s" by (rule paging_create_address_space_run(1) [OF D(1) c])
  assume R: "R \<noteq> 0"
  note run = paging_create_address_space_run(2) [OF D(1) c R] and C = create_isolated [OF D(1) c R]
  note own = own_span_created [OF D(1) c R]
  have av: "avail s' = avail s - block_set R 1" "block_set R 1 \<subseteq> avail s" "g_pml4 s' = g_pml4 s" "cr3 s' = cr3 s"
    using run by auto
  have spK: "spans (pg_tables s') (g_pml4 s') = spans (pg_tables s) (g_pml4 s)" using C(5) by (simp add: spans_tables)
  have ht: "held_tables R s' = block_set R 1" using R own by (simp add: held_tables_def)
  have "holds R bs s'"
    unfolding holds_def
  proof (intro conjI ballI impI)
    fix b assume b: "b \<in> set bs"
    note Db = D(4) [OF b]
    then show "fst b \<noteq> 0" "block_ok (fst b) (snd b)" "span_of b \<subseteq> {..<2 ^ 52}" by auto
    show "span_of b \<inter> (avail s' \<union> spans (pg_tables s') (g_pml4 s') \<union> held_tables R s') = {}"
      using Db av(1,2) unfolding spK ht by blast
  qed (use C(1) isolatedD(1) D(5) in auto)
  moreover have "pages_of R bs s' = pages_of 0 bs s"
    using av(1,2) by (auto simp: pages_of_def held_def ht held_tables_def [of 0])
  moreover have "R \<noteq> g_pml4 s"
    using isolatedD(3) [OF C(1)] tables_ofI [of "[]" "pg_tables s'" "g_pml4 s'"] av(3) by auto
  ultimately show "holds R bs s' \<and> pages_of R bs s' = pages_of 0 bs s \<and> cr3 s' = cr3 s \<and> g_pml4 s' = g_pml4 s \<and>
      R \<noteq> g_pml4 s \<and> (\<forall>v. translate (pg_tables s') R v = translate (pg_tables s) (g_pml4 s) v \<and>
        translate (pg_tables s') (g_pml4 s') v = translate (pg_tables s) (g_pml4 s) v)"
    using C(2,3) av(3,4) by simp
qed

lemma holds_map:
  assumes h: "holds R bs s" and R: "R \<noteq> 0"
    and v: "unat virt + unat bytes \<le> 2 ^ 48" and ph: "unat phys + unat bytes + 8192 \<le> 2 ^ 52"
  shows "\<exists>done s'. paging_map_user_range R virt phys bytes w x s = Some (done, s') \<and> holds R bs s' \<and>
    pages_of R bs s' = pages_of R bs s \<and> g_pml4 s' = g_pml4 s \<and>
    (cr3 s AND PAGE_TABLE_ADDR_MASK \<noteq> R \<longrightarrow> cr3 s' = cr3 s) \<and>
    (\<forall>v. translate (pg_tables s') (g_pml4 s') v = translate (pg_tables s) (g_pml4 s) v) \<and>
    (\<forall>v. unat v < 2 ^ 48 \<longrightarrow>
       (if unat (align_down_uintptr virt PAGE_SIZE) \<le> unat v \<and> unat v < unat (align_up_uintptr (virt + bytes) PAGE_SIZE)
        then done \<longrightarrow> translate (pg_tables s') R v = Some (mapped (align_down_uintptr virt PAGE_SIZE)
               (align_down_uintptr phys PAGE_SIZE) w True x v)
        else translate (pg_tables s') R v = translate (pg_tables s) R v))"
proof -
  note D = holdsD [OF h]
  note iso = D(2) [OF R]
  obtain d s' where r: "paging_map_user_range R virt phys bytes w x s = Some (d, s')"
    and st: "steps True (tables_of (pg_tables s) (g_pml4 s)) R s (s'\<lparr>cr3 := cr3 s\<rparr>)"
    and range: "\<forall>v. unat v < 2 ^ 48 \<longrightarrow>
       (if unat (align_down_uintptr virt PAGE_SIZE) \<le> unat v \<and> unat v < unat (align_up_uintptr (virt + bytes) PAGE_SIZE)
        then d \<longrightarrow> translate (pg_tables s') R v = Some (mapped (align_down_uintptr virt PAGE_SIZE)
               (align_down_uintptr phys PAGE_SIZE) w True x v)
        else translate (pg_tables s') R v = translate (pg_tables s) R v)"
    using maps_range_user [OF iso v ph] by blast
  let ?t = "s'\<lparr>cr3 := cr3 s\<rparr>"
  note K = steps_kernel [OF iso st] and G = own_span_grows [OF iso st]
  have av: "avail s' \<subseteq> avail s" using stepsD(2) [OF st] by (simp add: avail_def)
  have own: "own_span R s' = own_span R s \<union> (avail s - avail s')" using G by (simp add: avail_def)
  have iso': "isolated R s'" using K(1) by simp
  have spK: "spans (pg_tables s') (g_pml4 s') = spans (pg_tables s) (g_pml4 s)" using K(2) by (simp add: spans_tables)
  have "holds R bs s'"
    unfolding holds_def
  proof (intro conjI ballI impI)
    fix b assume b: "b \<in> set bs"
    note Db = D(4) [OF b]
    then show "fst b \<noteq> 0" "block_ok (fst b) (snd b)" "span_of b \<subseteq> {..<2 ^ 52}" by auto
    show "span_of b \<inter> (avail s' \<union> spans (pg_tables s') (g_pml4 s') \<union> held_tables R s') = {}"
      using Db av own R unfolding spK by (auto simp: held_tables_def)
  qed (use iso' isolatedD(1) D(5) in auto)
  moreover have "pages_of R bs s' = pages_of R bs s"
    using av own R by (auto simp: pages_of_def held_def held_tables_def)
  moreover have "cr3 s' = cr3 s" if "cr3 s AND PAGE_TABLE_ADDR_MASK \<noteq> R"
  proof -
    have pR: "page_ok R" using tree_page [OF isolatedD(2) [OF iso], of "[]"] by simp
    have "cr3 s1 = cr3 s" if "map_range_in_root R virt phys bytes w x True s = Some (d', s1)" for d' s1
    proof -
      have "steps True (tables_of (pg_tables s) (g_pml4 s)) R s s1"
        using map_range_in_root_maps [OF isolated_space_ok [OF iso] isolatedD(3) [OF iso] v ph, of w x] that
        by (auto simp: maps_range_def)
      then show ?thesis by (rule stepsD(8))
    qed
    moreover have "child R = R" using pR by (auto intro!: bit_word_eqI simp: bit_and_iff bit_addr_mask dest: page_ok_bits)
    ultimately show ?thesis
      using r that R by (auto simp: paging_map_user_range_def paging_current_root_def read_cr3_def
          split: Option.bind_splits if_splits)
  qed
  moreover have "g_pml4 s' = g_pml4 s" "translate (pg_tables s') (g_pml4 s') v = translate (pg_tables s) (g_pml4 s) v" for v
    using K(3,4) by simp_all
  ultimately show ?thesis using r range by blast
qed

lemma holds_destroy:
  assumes h: "holds R bs s" and R: "R \<noteq> 0"
  defines "t \<equiv> paging_destroy_address_space R s"
  shows "holds 0 bs t" "pages_of 0 bs t \<subseteq> pages_of R bs s" "cr3 t = cr3 s" "g_pml4 t = g_pml4 s"
    "pg_tables t = pg_tables s"
    "roomy (pg_mem t) \<Longrightarrow> roomy (pg_mem s) \<and> pages_of 0 bs t = pages_of R bs s"
proof -
  note D = holdsD [OF h]
  note iso = D(2) [OF R] and d = destroy_ok [OF D(2) [OF R] t_def [THEN meta_eq_to_obj_eq]]
  have ht: "held_tables R s = own_span R s" using R by (simp add: held_tables_def)
  have spK: "spans (pg_tables t) (g_pml4 t) = spans (pg_tables s) (g_pml4 s)" using d(4,5) by simp
  show "holds 0 bs t"
    unfolding holds_def
  proof (intro conjI ballI impI)
    fix b assume b: "b \<in> set bs"
    note Db = D(4) [OF b]
    then show "fst b \<noteq> 0" "block_ok (fst b) (snd b)" "span_of b \<subseteq> {..<2 ^ 52}" by auto
    show "span_of b \<inter> (avail t \<union> spans (pg_tables t) (g_pml4 t) \<union> held_tables 0 t) = {}"
      using Db d(2) unfolding spK ht by (auto simp: held_tables_def)
  qed (use d(1) D(5) in auto)
  show "pages_of 0 bs t \<subseteq> pages_of R bs s"
    using d(2) by (auto simp: pages_of_def held_def ht held_tables_def [of 0])
  show "cr3 t = cr3 s" by (simp add: t_def paging_destroy_address_space_def Let_def)
  show "g_pml4 t = g_pml4 s" "pg_tables t = pg_tables s" by (rule d(5), rule d(4))
  assume "roomy (pg_mem t)"
  then show "roomy (pg_mem s) \<and> pages_of 0 bs t = pages_of R bs s"
    using d(6) by (auto simp: pages_of_def held_def ht held_tables_def [of 0])
qed

end
