(* ===== verification/ProcessSpace.thy ===== *)
theory ProcessSpace
  imports ProcessImage PagingOwn
begin

text \<open>
  The memory of a program: \<open>process_prepare_address_space\<close> and \<open>process_release_address_space\<close> over
  the ownership of \<open>PagingOwn\<close>.
\<close>

subsection \<open>What the process object owns\<close>

definition blk_list :: "u64 \<Rightarrow> u64 \<Rightarrow> (u64 \<times> u64) list" where
  "blk_list p n = (if p \<noteq> 0 then [(p, n)] else [])"

lemma blk_list_simps [simp]: "blk_list 0 n = []" "p \<noteq> 0 \<Longrightarrow> blk_list p n = [(p, n)]"
  by (simp_all add: blk_list_def)

definition blocks_of :: "ProcessAddressSpace \<Rightarrow> (u64 \<times> u64) list" where
  "blocks_of a = blk_list (image_backing a) (image_page_count a) @
     blk_list (stack_backing a) (stack_page_count a) @ blk_list (file_buffer a) (file_page_count a)"

definition owns :: "'d kernel_state \<Rightarrow> bool" where
  "owns s \<longleftrightarrow> holds (page_table_root (space s)) (blocks_of (space s)) (paging s)"

definition total :: "'d kernel_state \<Rightarrow> nat set" where
  "total s = pages_of (page_table_root (space s)) (blocks_of (space s)) (paging s)"

text \<open>What managing a program's memory leaves alone.\<close>

definition rest_of :: "ProcessAddressSpace \<Rightarrow> ProcessAddressSpace" where
  "rest_of a = a\<lparr>page_table_root := 0, image_backing := 0, stack_backing := 0, file_buffer := 0\<rparr>"

definition frame_of :: "'d kernel_state \<Rightarrow> _" where
  "frame_of s = (ram s, volume s, g_active_process s, rt s, pr_state (g_foreground_process s), cr3 (paging s),
     g_pml4 (paging s), translate (pg_tables (paging s)) (g_pml4 (paging s)), console_ok s, rest_of (space s), in_port s)"

definition keeps :: "'d kernel_state \<Rightarrow> 'd kernel_state \<Rightarrow> bool" where
  "keeps s s' \<longleftrightarrow> frame_of s' = frame_of s"

lemma keeps_refl [simp]: "keeps s s"
  by (simp add: keeps_def)

lemma keeps_trans: "keeps s1 s2 \<Longrightarrow> keeps s2 s3 \<Longrightarrow> keeps s1 s3"
  by (simp add: keeps_def)

lemma keepsD:
  assumes "keeps s s'"
  shows "ram s' = ram s" "volume s' = volume s" "g_active_process s' = g_active_process s" "rt s' = rt s"
    "pr_state (g_foreground_process s') = pr_state (g_foreground_process s)" "cr3 (paging s') = cr3 (paging s)"
    "g_pml4 (paging s') = g_pml4 (paging s)" "console_ok s' = console_ok s" "rest_of (space s') = rest_of (space s)"
    "translate (pg_tables (paging s')) (g_pml4 (paging s')) = translate (pg_tables (paging s)) (g_pml4 (paging s))"
    "in_port s' = in_port s"
  using assms unfolding keeps_def frame_of_def prod.inject by blast+

lemma rest_ofD:
  assumes "rest_of a' = rest_of a"
  shows "image_page_count a' = image_page_count a" "stack_page_count a' = stack_page_count a"
    "file_page_count a' = file_page_count a" "image_base a' = image_base a"
    "image_capacity a' = image_capacity a" "stack_base a' = stack_base a"
    "stack_size a' = stack_size a" "stack_top a' = stack_top a" "file_capacity a' = file_capacity a"
  using arg_cong [OF assms, of image_page_count] arg_cong [OF assms, of stack_page_count]
    arg_cong [OF assms, of file_page_count] arg_cong [OF assms, of image_base]
    arg_cong [OF assms, of image_capacity] arg_cong [OF assms, of stack_base]
    arg_cong [OF assms, of stack_size] arg_cong [OF assms, of stack_top] arg_cong [OF assms, of file_capacity]
  by (simp_all add: rest_of_def)

lemma keeps_moves:
  fixes s s' :: "'d kernel_state"
  shows "moves s s' \<Longrightarrow> console_ok s = console_ok s' \<Longrightarrow> keeps s s'"
  using moves_kernel [of s s'] moves_same(7) [of s s'] by (simp add: keeps_def frame_of_def)

subsection \<open>Giving back\<close>

text \<open>The three optional frees of the cleanup code, and the destruction of the tables.\<close>

definition drop_image :: "'d kernel_state \<Rightarrow> 'd kernel_state" where
  "drop_image s = (if image_backing (space s) \<noteq> 0
     then with_space (\<lambda>a. a\<lparr>image_backing := 0\<rparr>) (k_free_pages (image_backing (space s)) (image_page_count (space s)) s) else s)"

definition drop_stack :: "'d kernel_state \<Rightarrow> 'd kernel_state" where
  "drop_stack s = (if stack_backing (space s) \<noteq> 0
     then with_space (\<lambda>a. a\<lparr>stack_backing := 0\<rparr>) (k_free_pages (stack_backing (space s)) (stack_page_count (space s)) s) else s)"

definition drop_file :: "'d kernel_state \<Rightarrow> 'd kernel_state" where
  "drop_file s = (if file_buffer (space s) \<noteq> 0
     then with_image (\<lambda>i. i\<lparr>im_file_buffer := 0\<rparr>) (with_space (\<lambda>a. a\<lparr>file_buffer := 0\<rparr>)
            (k_free_pages (file_buffer (space s)) (file_page_count (space s)) s)) else s)"

definition drop_root :: "'d kernel_state \<Rightarrow> 'd kernel_state" where
  "drop_root s = (if page_table_root (space s) \<noteq> 0
     then with_space (\<lambda>a. a\<lparr>page_table_root := 0\<rparr>)
            (s\<lparr>paging := paging_destroy_address_space (page_table_root (space s)) (paging s)\<rparr>) else s)"

lemma cleanup_steps:
  "prepare_failed s = drop_root (drop_image (drop_stack s))"
  "process_release_address_space s =
     with_runtime (\<lambda>r. r\<lparr>user_info_addr := 0\<rparr>) (drop_root (drop_file (drop_stack (drop_image s))))"
  by (simp_all only: prepare_failed_def process_release_address_space_def Let_def drop_root_def drop_image_def
    drop_stack_def drop_file_def)

text \<open>What one of them does: nothing is lost as long as the table of free ranges has room.\<close>

definition gives :: "'d kernel_state \<Rightarrow> 'd kernel_state \<Rightarrow> bool" where
  "gives s s' \<longleftrightarrow> owns s' \<and> total s' \<subseteq> total s \<and> keeps s s' \<and>
     (roomy (pg_mem (paging s')) \<longrightarrow> roomy (pg_mem (paging s)) \<and> total s' = total s)"

lemma gives_trans: "gives s t \<Longrightarrow> gives t u \<Longrightarrow> gives s u"
  unfolding gives_def by (metis keeps_trans order_trans)

lemma gives_refl: "owns s \<Longrightarrow> gives s s"
  by (simp add: gives_def)

lemma k_free_pages_simps [simp]:
  "space (k_free_pages p n s) = space s" "rt (k_free_pages p n s) = rt s"
  "g_foreground_process (k_free_pages p n s) = g_foreground_process s" "ram (k_free_pages p n s) = ram s"
  "volume (k_free_pages p n s) = volume s" "g_active_process (k_free_pages p n s) = g_active_process s"
  "paging (k_free_pages p n s) = (paging s)\<lparr>pg_mem := free_pages p n (pg_mem (paging s))\<rparr>"
  "console_ok (k_free_pages p n s) = console_ok s" "in_port (k_free_pages p n s) = in_port s"
  by (simp_all add: k_free_pages_def)

lemma drop_block:
  assumes "owns s" and "blocks_of (space s) = bs @ (p, n) # cs" and "blocks_of (f (space s)) = bs @ cs"
    and "page_table_root (f (space s)) = page_table_root (space s)"
    and "rest_of (f (space s)) = rest_of (space s)"
  shows "gives s (with_space f (k_free_pages p n s))"
proof -
  have h: "holds (page_table_root (space s)) (bs @ (p, n) # cs) (paging s)" using assms(1,2) by (simp add: owns_def)
  note F = holds_free [OF h]
  show ?thesis
    using F assms by (auto simp: gives_def owns_def total_def keeps_def frame_of_def)
qed

lemma drop_image_ok: "owns s \<Longrightarrow> gives s (drop_image s) \<and> image_backing (space (drop_image s)) = 0 \<and>
    stack_backing (space (drop_image s)) = stack_backing (space s) \<and> file_buffer (space (drop_image s)) = file_buffer (space s) \<and>
    page_table_root (space (drop_image s)) = page_table_root (space s) \<and>
    own_tables R (paging (drop_image s)) = own_tables R (paging s) \<and> pr_image (g_foreground_process (drop_image s)) = pr_image (g_foreground_process s)"
  unfolding drop_image_def
  using drop_block [of s "[]" "image_backing (space s)" "image_page_count (space s)" _ "\<lambda>a. a\<lparr>image_backing := 0\<rparr>"]
    gives_refl [of s]
  by (simp add: blocks_of_def rest_of_def)

lemma drop_stack_ok: "owns s \<Longrightarrow> gives s (drop_stack s) \<and> stack_backing (space (drop_stack s)) = 0 \<and>
    image_backing (space (drop_stack s)) = image_backing (space s) \<and> file_buffer (space (drop_stack s)) = file_buffer (space s) \<and>
    page_table_root (space (drop_stack s)) = page_table_root (space s) \<and>
    own_tables R (paging (drop_stack s)) = own_tables R (paging s) \<and> pr_image (g_foreground_process (drop_stack s)) = pr_image (g_foreground_process s)"
  unfolding drop_stack_def
  using drop_block [of s "blk_list (image_backing (space s)) (image_page_count (space s))"
      "stack_backing (space s)" "stack_page_count (space s)" _ "\<lambda>a. a\<lparr>stack_backing := 0\<rparr>"]
    gives_refl [of s]
  by (simp add: blocks_of_def rest_of_def)

lemma drop_file_ok: "owns s \<Longrightarrow> gives s (drop_file s) \<and> file_buffer (space (drop_file s)) = 0 \<and>
    image_backing (space (drop_file s)) = image_backing (space s) \<and> stack_backing (space (drop_file s)) = stack_backing (space s) \<and>
    page_table_root (space (drop_file s)) = page_table_root (space s) \<and>
    own_tables R (paging (drop_file s)) = own_tables R (paging s)"
proof -
  assume o: "owns s"
  let ?t = "with_space (\<lambda>a. a\<lparr>file_buffer := 0\<rparr>) (k_free_pages (file_buffer (space s)) (file_page_count (space s)) s)"
  have "gives s ?t" if "file_buffer (space s) \<noteq> 0"
    using drop_block [of s "blk_list (image_backing (space s)) (image_page_count (space s)) @
        blk_list (stack_backing (space s)) (stack_page_count (space s))"
      "file_buffer (space s)" "file_page_count (space s)" "[]" "\<lambda>a. a\<lparr>file_buffer := 0\<rparr>"] o that
    by (simp add: blocks_of_def rest_of_def)
  moreover have "gives s (with_image g t) = gives s t" for g and t :: "'a kernel_state"
    by (simp add: gives_def owns_def total_def keeps_def frame_of_def with_image_def console_ok_def fits_def)
  ultimately show ?thesis using gives_refl [OF o] by (simp add: drop_file_def)
qed

lemma drop_root_ok:
  assumes o: "owns s"
  shows "gives s (drop_root s) \<and>
    page_table_root (space (drop_root s)) = 0 \<and> image_backing (space (drop_root s)) = image_backing (space s) \<and>
    stack_backing (space (drop_root s)) = stack_backing (space s) \<and> file_buffer (space (drop_root s)) = file_buffer (space s) \<and>
    pr_image (g_foreground_process (drop_root s)) = pr_image (g_foreground_process s)"
proof (cases "page_table_root (space s) = 0")
  case True
  then show ?thesis using o by (simp add: drop_root_def gives_def)
next
  case False
  let ?R = "page_table_root (space s)" and ?bs = "blocks_of (space s)"
  have h: "holds ?R ?bs (paging s)" using o by (simp add: owns_def)
  note F = holds_destroy [OF h False]
  let ?t = "with_space (\<lambda>a. a\<lparr>page_table_root := 0\<rparr>) (s\<lparr>paging := paging_destroy_address_space ?R (paging s)\<rparr>)"
  have "blocks_of (space ?t) = ?bs" by (simp add: blocks_of_def)
  then have "owns ?t" "total ?t \<subseteq> total s" "keeps s ?t"
    using F by (simp_all add: owns_def total_def keeps_def frame_of_def rest_of_def)
  moreover have "roomy (pg_mem (paging ?t)) \<longrightarrow> roomy (pg_mem (paging s)) \<and> total ?t = total s"
    using holds_destroy(6) [OF h False] \<open>blocks_of (space ?t) = ?bs\<close> by (simp add: total_def)
  ultimately show ?thesis using False by (simp add: gives_def drop_root_def)
qed

end
