(* ===== verification/ProcessPrepare.thy ===== *)
theory ProcessPrepare
  imports ProcessSpace
begin

text \<open>
  \<open>process_prepare_address_space\<close>: what the program's page tables say when it succeeds, and where the pages
  went when it does not.
\<close>

subsection \<open>The setting\<close>

text \<open>The layout of a process object whose image has been accepted.\<close>

definition region_ok :: "ProcessAddressSpace \<Rightarrow> bool" where
  "region_ok a \<longleftrightarrow> 4096 dvd unat (image_base a) \<and> unat (image_page_count a) * 4096 = unat (image_capacity a) \<and>
     0x8000000000 \<le> unat (image_base a) \<and> 0 < unat (image_capacity a) \<and>
     unat (image_base a) + unat (image_capacity a) + 4096 \<le> unat (stack_base a) \<and>
     stack_base a = PROCESS_ABI_STACK_BASE \<and> stack_size a = PROCESS_ABI_STACK_SIZE \<and> stack_page_count a = 16"

text \<open>The kernel runs on its own tables, and all pages are below 4 GiB, as \<open>memory_init\<close> sees to.\<close>

definition kernel_runs :: "'d kernel_state \<Rightarrow> bool" where
  "kernel_runs s \<longleftrightarrow> console_ok s \<and> owns s \<and> total s \<subseteq> {..<2 ^ 32} \<and>
     paging_current_root (paging s) = g_pml4 (paging s)"

text \<open>The program sees its image and its stack, with their rights, and everywhere else what the kernel sees.\<close>

definition in_image :: "ProcessAddressSpace \<Rightarrow> u64 \<Rightarrow> bool" where
  "in_image a v \<longleftrightarrow> unat (image_base a) \<le> unat v \<and> unat v < unat (image_base a) + unat (image_capacity a)"

definition in_stack :: "ProcessAddressSpace \<Rightarrow> u64 \<Rightarrow> bool" where
  "in_stack a v \<longleftrightarrow> unat (stack_base a) \<le> unat v \<and> unat v < unat (stack_base a) + unat (stack_size a)"

definition sees :: "ProcessAddressSpace \<Rightarrow> paging_state \<Rightarrow> bool" where
  "sees a p \<longleftrightarrow> (\<forall>v. unat v < 2 ^ 48 \<longrightarrow> translate (pg_tables p) (page_table_root a) v =
     (if in_image a v then Some (mapped (image_base a) (image_backing a) True True True v)
      else if in_stack a v then Some (mapped (stack_base a) (stack_backing a) True True False v)
      else translate (pg_tables p) (g_pml4 p) v))"

subsection \<open>The steps\<close>

lemma keepsI:
  fixes s s' :: "'d kernel_state"
  assumes "ram s' = ram s" "volume s' = volume s" "g_active_process s' = g_active_process s" "rt s' = rt s"
    "pr_state (g_foreground_process s') = pr_state (g_foreground_process s)" "cr3 (paging s') = cr3 (paging s)"
    "g_pml4 (paging s') = g_pml4 (paging s)" "console_ok s' = console_ok s" "rest_of (space s') = rest_of (space s)"
    "in_port s' = in_port s"
    "\<And>v. translate (pg_tables (paging s')) (g_pml4 (paging s')) v = translate (pg_tables (paging s)) (g_pml4 (paging s)) v"
  shows "keeps s s'"
  unfolding keeps_def frame_of_def prod.inject by (intro conjI assms ext)

text \<open>A step that takes pages: nothing is lost.\<close>

definition takes :: "'d kernel_state \<Rightarrow> 'd kernel_state \<Rightarrow> bool" where
  "takes s s' \<longleftrightarrow> owns s' \<and> total s' = total s \<and> keeps s s' \<and>
     pr_image (g_foreground_process s') = pr_image (g_foreground_process s) \<and> file_buffer (space s') = file_buffer (space s)"

lemma takes_trans: "takes s t \<Longrightarrow> takes t u \<Longrightarrow> takes s u"
  using keeps_trans [of s t u] by (simp add: takes_def)

lemma takes_refl: "owns s \<Longrightarrow> takes s s"
  by (simp add: takes_def)

lemma holds_swap: "holds R (b # c # bs) s = holds R (c # b # bs) s" "pages_of R (b # c # bs) s = pages_of R (c # b # bs) s"
  by (auto simp: holds_def pages_of_def held_def)

lemma create_takes:
  assumes o: "owns s" and z: "page_table_root (space s) = 0" and c: "paging_create_address_space (paging s) = (R, p)"
  defines "t \<equiv> with_space (\<lambda>a. a\<lparr>page_table_root := R\<rparr>) (s\<lparr>paging := p\<rparr>)"
  shows "takes s t" "image_backing (space t) = image_backing (space s)" "stack_backing (space t) = stack_backing (space s)"
    "page_table_root (space t) = R"
    "R \<noteq> 0 \<Longrightarrow> R \<noteq> g_pml4 (paging t) \<and>
      (\<forall>v. translate (pg_tables (paging t)) R v = translate (pg_tables (paging t)) (g_pml4 (paging t)) v)"
proof -
  have h: "holds 0 (blocks_of (space s)) (paging s)" using o z by (simp add: owns_def)
  note C = holds_create [OF h c]
  have b: "blocks_of (space t) = blocks_of (space s)" by (simp add: t_def blocks_of_def)
  have tr: "translate (pg_tables p) (g_pml4 p) v = translate (pg_tables (paging s)) (g_pml4 (paging s)) v" for v
  proof (cases "R = 0")
    case True
    show ?thesis unfolding C(1) [OF True] by (rule refl)
  next
    case False
    show ?thesis using C(2) [OF False] by blast
  qed
  have k: "keeps s t"
  proof (rule keepsI)
    show "translate (pg_tables (paging t)) (g_pml4 (paging t)) v = translate (pg_tables (paging s)) (g_pml4 (paging s)) v" for v
      unfolding tr [symmetric] by (simp add: t_def)
    show "cr3 (paging t) = cr3 (paging s)" "g_pml4 (paging t) = g_pml4 (paging s)"
      using C by (cases "R = 0"; simp add: t_def)+
  qed (simp_all add: t_def rest_of_def)
  have "owns t" "total t = total s"
    using C h b z by (cases "R = 0"; simp add: owns_def total_def t_def)+
  then show "takes s t" using k by (simp add: takes_def t_def)
  show "image_backing (space t) = image_backing (space s)" "stack_backing (space t) = stack_backing (space s)"
    "page_table_root (space t) = R" by (simp_all add: t_def)
  assume "R \<noteq> 0"
  from C(2) [OF this] have "R \<noteq> g_pml4 p" "translate (pg_tables p) R v = translate (pg_tables p) (g_pml4 p) v" for v
    by metis+
  then show "R \<noteq> g_pml4 (paging t) \<and>
      (\<forall>v. translate (pg_tables (paging t)) R v = translate (pg_tables (paging t)) (g_pml4 (paging t)) v)"
    by (simp add: t_def)
qed

text \<open>An allocation whose block goes to one of the fields.\<close>

lemma alloc_takes:
  assumes o: "owns s" and a: "k_alloc_pages n s = (b, t0)"
    and f: "\<And>x. page_table_root (f x) = page_table_root x" "\<And>x. rest_of (f x) = rest_of x" "\<And>x. file_buffer (f x) = file_buffer x"
    and none: "b = 0 \<Longrightarrow> blocks_of (f (space s)) = blocks_of (space s)"
    and some: "\<And>p. b \<noteq> 0 \<Longrightarrow> holds (page_table_root (space s)) (blocks_of (f (space s))) p =
        holds (page_table_root (space s)) ((b, n) # blocks_of (space s)) p \<and>
      pages_of (page_table_root (space s)) (blocks_of (f (space s))) p =
        pages_of (page_table_root (space s)) ((b, n) # blocks_of (space s)) p"
  shows "takes s (with_space f t0)" "pg_tables (paging t0) = pg_tables (paging s) \<and> g_pml4 (paging t0) = g_pml4 (paging s)"
    "space t0 = space s"
proof -
  obtain m where m: "alloc_pages n (pg_mem (paging s)) = (b, m)" "t0 = s\<lparr>paging := (paging s)\<lparr>pg_mem := m\<rparr>\<rparr>"
    using a by (auto simp: k_alloc_pages_def split: prod.splits)
  have h: "holds (page_table_root (space s)) (blocks_of (space s)) (paging s)" using o by (simp add: owns_def)
  note A = holds_alloc [OF h m(1)]
  show "pg_tables (paging t0) = pg_tables (paging s) \<and> g_pml4 (paging t0) = g_pml4 (paging s)" "space t0 = space s" by (simp_all add: m)
  have "keeps s (with_space f t0)" by (rule keepsI) (simp_all add: m f)
  moreover have "owns (with_space f t0) \<and> total (with_space f t0) = total s"
  proof (cases "b = 0")
    case True
    then show ?thesis using A(1) none h f by (simp add: owns_def total_def m)
  next
    case False
    then show ?thesis using A(2) some f by (simp add: owns_def total_def m)
  qed
  ultimately show "takes s (with_space f t0)" by (simp add: takes_def f m)
qed

lemma map_takes:
  assumes o: "owns s" and R: "page_table_root (space s) \<noteq> 0"
    and v: "unat virt + unat sz \<le> 2 ^ 48" "4096 dvd unat virt" "4096 dvd unat sz"
    and ph: "unat phys + unat sz \<le> 2 ^ 32" "4096 dvd unat phys"
    and cr: "paging_current_root (paging s) \<noteq> page_table_root (space s)"
  shows "\<exists>ok p. process_map virt phys sz x s = Some (ok, s\<lparr>paging := p\<rparr>) \<and> takes s (s\<lparr>paging := p\<rparr>) \<and>
    (\<forall>v. unat v < 2 ^ 48 \<longrightarrow> (if unat virt \<le> unat v \<and> unat v < unat virt + unat sz
        then ok \<longrightarrow> translate (pg_tables p) (page_table_root (space s)) v = Some (mapped virt phys True True x v)
        else translate (pg_tables p) (page_table_root (space s)) v =
          translate (pg_tables (paging s)) (page_table_root (space s)) v))"
proof -
  let ?R = "page_table_root (space s)"
  have h: "holds ?R (blocks_of (space s)) (paging s)" using o by (simp add: owns_def)
  have ph': "unat phys + unat sz + 8192 \<le> 2 ^ 52" using ph(1) by simp
  have ends: "unat (virt + sz) = unat virt + unat sz" using v(1) by (intro unat_add_small) simp
  have al: "align_down_uintptr virt PAGE_SIZE = virt" "align_down_uintptr phys PAGE_SIZE = phys"
    using v(2) ph(2) by (simp_all add: word_unat_eq_iff unat_align_down)
  have up: "unat (align_up_uintptr (virt + sz) PAGE_SIZE) = unat virt + unat sz"
  proof -
    obtain i where "unat virt + unat sz = 4096 * i" using dvd_add [OF v(2,3)] by (auto elim!: dvdE)
    then have k: "unat (virt + sz) = 4096 * i" using ends by simp
    then have "unat (align_up_uintptr (virt + sz) PAGE_SIZE) = (unat (virt + sz) + 4095) div 4096 * 4096"
      using v(1) by (subst unat_align_up) (simp_all add: ends)
    then show ?thesis using k ends by simp
  qed
  obtain ok p where p: "paging_map_user_range ?R virt phys sz True x (paging s) = Some (ok, p)"
    and P: "holds ?R (blocks_of (space s)) p" "pages_of ?R (blocks_of (space s)) p = pages_of ?R (blocks_of (space s)) (paging s)"
      "g_pml4 p = g_pml4 (paging s)" "cr3 (paging s) AND PAGE_TABLE_ADDR_MASK \<noteq> ?R \<longrightarrow> cr3 p = cr3 (paging s)"
      "\<forall>v. translate (pg_tables p) (g_pml4 p) v = translate (pg_tables (paging s)) (g_pml4 (paging s)) v"
    and T: "\<forall>v. unat v < 2 ^ 48 \<longrightarrow> (if unat virt \<le> unat v \<and> unat v < unat virt + unat sz
        then ok \<longrightarrow> translate (pg_tables p) ?R v = Some (mapped virt phys True True x v)
        else translate (pg_tables p) ?R v = translate (pg_tables (paging s)) ?R v)"
    using holds_map [OF h R v(1) ph', of True x, unfolded al up] by blast
  have "cr3 p = cr3 (paging s)" using P(4) cr by (simp add: paging_current_root_def read_cr3_def)
  then have "keeps s (s\<lparr>paging := p\<rparr>)" using P by (intro keepsI) simp_all
  then have "takes s (s\<lparr>paging := p\<rparr>)" using P by (simp add: takes_def owns_def total_def)
  then show ?thesis using p T by (auto simp: process_map_def)
qed

subsection \<open>Failing\<close>

definition no_memory :: "'d kernel_state \<Rightarrow> bool" where
  "no_memory s \<longleftrightarrow> page_table_root (space s) = 0 \<and> image_backing (space s) = 0 \<and> stack_backing (space s) = 0"

text \<open>Everything is given back: no page is lost unless the table of free ranges has filled up.\<close>

definition failed :: "'d kernel_state \<Rightarrow> 'd kernel_state \<Rightarrow> bool" where
  "failed s s' \<longleftrightarrow> owns s' \<and> keeps s s' \<and> no_memory s' \<and> total s' \<subseteq> total s \<and>
     (roomy (pg_mem (paging s')) \<longrightarrow> total s' = total s) \<and>
     pr_image (g_foreground_process s') = pr_image (g_foreground_process s) \<and> file_buffer (space s') = file_buffer (space s)"

lemma owns_moves:
  fixes t t' :: "'d kernel_state"
  assumes "moves t t'"
  shows "owns t' = owns t" "total t' = total t"
  using moves_kernel [OF assms] by (simp_all add: owns_def total_def)

lemma takes_moves:
  fixes s t t' :: "'d kernel_state"
  assumes t: "takes s t" and m: "moves t t'" and c: "console_ok t'" "console_ok s"
  shows "takes s t'"
proof -
  have "console_ok t" using keepsD(8) [of s t] t c(2) by (simp add: takes_def)
  then have "keeps t t'" using keeps_moves [OF m] c by simp
  moreover have "owns t'" "total t' = total s" using t owns_moves [OF m] by (simp_all add: takes_def)
  ultimately show ?thesis using keeps_trans [of s t t'] t moves_kernel [OF m] by (simp add: takes_def)
qed

lemma prepare_failed_gives:
  assumes o: "owns s"
  shows "failed s (prepare_failed s)"
proof -
  let ?a = "drop_stack s" and ?b = "drop_image (drop_stack s)" and ?c = "prepare_failed s"
  have c: "?c = drop_root ?b" by (rule cleanup_steps)
  have 1: "gives s ?a" "stack_backing (space ?a) = 0" "file_buffer (space ?a) = file_buffer (space s)"
    "pr_image (g_foreground_process ?a) = pr_image (g_foreground_process s)"
    using drop_stack_ok [OF o] by blast+
  have "owns ?a" using 1(1) by (simp add: gives_def)
  from drop_image_ok [OF this] have 2: "gives ?a ?b" "image_backing (space ?b) = 0" "stack_backing (space ?b) = 0"
    "file_buffer (space ?b) = file_buffer (space s)" "pr_image (g_foreground_process ?b) = pr_image (g_foreground_process s)"
    using 1 by simp_all
  have "owns ?b" using 2(1) by (simp add: gives_def)
  from drop_root_ok [OF this] have 3: "gives ?b ?c" "no_memory ?c" "file_buffer (space ?c) = file_buffer (space s)"
    "pr_image (g_foreground_process ?c) = pr_image (g_foreground_process s)"
    using 2 by (simp_all add: no_memory_def c)
  from gives_trans [OF gives_trans [OF 1(1) 2(1)] 3(1)] 3(2-) show ?thesis by (simp add: failed_def gives_def)
qed

lemma prepare_fail_gives:
  fixes s t :: "'d kernel_state"
  assumes t: "takes s t" and c: "console_ok s"
  shows "\<exists>s'. prepare_fail msg t = Some (False, s') \<and> failed s s'"
proof -
  have "console_ok t" using keepsD(8) [of s t] t c by (simp add: takes_def)
  then obtain t' where t': "say msg t = Some t'" "console_ok t'" "moves t t'" using say_ok by blast
  have 1: "takes s t'" by (rule takes_moves [OF t t'(3,2) c])
  then have "failed t' (prepare_failed t')" by (intro prepare_failed_gives) (simp add: takes_def)
  then have "failed s (prepare_failed t')"
    using 1 keeps_trans [of s t' "prepare_failed t'"] by (auto simp: failed_def takes_def)
  then show ?thesis using t'(1) by (simp add: prepare_fail_def)
qed

lemma say_false_gives:
  fixes s t :: "'d kernel_state"
  assumes t: "takes s t" and c: "console_ok s" and n: "no_memory t"
  shows "\<exists>s'. say_false msg t = Some (False, s') \<and> failed s s'"
proof -
  have "console_ok t" using keepsD(8) [of s t] t c by (simp add: takes_def)
  then obtain t' where t': "say_false msg t = Some (False, t')" "console_ok t'" "moves t t'" using say_false_ok by blast
  have "takes s t'" by (rule takes_moves [OF t t'(3,2) c])
  then show ?thesis using t' n moves_kernel [OF t'(3)] by (simp add: failed_def takes_def no_memory_def)
qed

subsection \<open>The whole operation\<close>

lemma block_below:
  assumes "owns s" and "total s \<subseteq> {..<2 ^ 32}" and "(b, n) \<in> set (blocks_of (space s))"
  shows "4096 dvd unat b" "unat b + 4096 * unat n \<le> 2 ^ 32" "b \<noteq> 0"
proof -
  have b: "b \<noteq> 0" "block_ok b n" using assms(1,3) holdsD(4) by (fastforce simp: owns_def)+
  then show "4096 dvd unat b" "b \<noteq> 0" by (auto simp: block_ok_def range_ok_def lo_def)
  have "block_set b n \<subseteq> total s" using assms(3) by (auto simp: total_def pages_of_def held_def)
  then have "block_set b n \<subseteq> {..<2 ^ 32}" using assms(2) by blast
  moreover have "0 < unat n" using b(2) by (simp add: block_ok_def range_ok_def unat_gt_0)
  ultimately show "unat b + 4096 * unat n \<le> 2 ^ 32"
    by (auto simp: block_set_def subset_iff dest: spec [of _ "unat b + 4096 * unat n - 1"])
qed

text \<open>The second half: both blocks are there, the ranges are mapped.\<close>

definition prepare_maps :: "'d kernel_state \<Rightarrow> (bool \<times> 'd kernel_state) option" where
  "prepare_maps s =
     do {
       (ok, s) \<leftarrow> process_map (image_base (space s)) (image_backing (space s)) (image_capacity (space s)) True s;
       if \<not> ok then prepare_fail ''program: image map failed'' s
       else do {
         (ok, s) \<leftarrow> process_map (stack_base (space s)) (stack_backing (space s)) (stack_size (space s)) False s;
         if \<not> ok then prepare_fail ''program: stack map failed'' s
         else Some (True, s) } }"

lemma prepare_split:
  "process_prepare_address_space s =
     (case paging_create_address_space (paging s) of (root, p) \<Rightarrow>
        let s = with_space (\<lambda>a. a\<lparr>page_table_root := root\<rparr>) (s\<lparr>paging := p\<rparr>) in
        if page_table_root (space s) = 0 then say_false ''program: page table alloc failed'' s
        else case k_alloc_pages (image_page_count (space s)) s of (img, s) \<Rightarrow>
          let s = with_space (\<lambda>a. a\<lparr>image_backing := img\<rparr>) s in
          if image_backing (space s) = 0 then prepare_fail ''program: image backing alloc failed'' s
          else case k_alloc_pages (stack_page_count (space s)) s of (stack, s) \<Rightarrow>
            let s = with_space (\<lambda>a. a\<lparr>stack_backing := stack\<rparr>) s in
            if stack_backing (space s) = 0 then prepare_fail ''program: stack backing alloc failed'' s
            else prepare_maps s)"
  unfolding process_prepare_address_space_def prepare_maps_def ..

definition prepared :: "'d kernel_state \<Rightarrow> bool \<Rightarrow> 'd kernel_state \<Rightarrow> bool" where
  "prepared s ok s' \<longleftrightarrow> (if ok then takes s s' \<and> page_table_root (space s') \<noteq> 0 \<and> image_backing (space s') \<noteq> 0 \<and>
       stack_backing (space s') \<noteq> 0 \<and> page_table_root (space s') \<noteq> g_pml4 (paging s') \<and> sees (space s') (paging s')
     else failed s s')"

lemma prepare_maps_ok:
  fixes s t :: "'d kernel_state"
  assumes k: "kernel_runs s" "region_ok (space s)" and t: "takes s t"
    and nz: "page_table_root (space t) \<noteq> 0" "image_backing (space t) \<noteq> 0" "stack_backing (space t) \<noteq> 0"
    and R: "page_table_root (space t) \<noteq> g_pml4 (paging t)"
      "\<forall>v. translate (pg_tables (paging t)) (page_table_root (space t)) v = translate (pg_tables (paging t)) (g_pml4 (paging t)) v"
  shows "\<exists>ok s'. prepare_maps t = Some (ok, s') \<and> prepared s ok s'"
proof -
  let ?a = "space t" and ?R = "page_table_root (space t)"
  note K = keepsD [OF t [unfolded takes_def, THEN conjunct2, THEN conjunct2, THEN conjunct1]]
  note A = rest_ofD [OF K(9)]
  have o: "owns t" "total t \<subseteq> {..<2 ^ 32}" using t k(1) by (simp_all add: takes_def kernel_runs_def)
  have c: "console_ok s" using k(1) by (simp add: kernel_runs_def)
  have reg: "region_ok ?a" using k(2) unfolding region_ok_def A .
  have cr: "paging_current_root (paging t) = g_pml4 (paging t)"
    using k(1) K(6,7) by (simp add: kernel_runs_def paging_current_root_def read_cr3_def)
  have img: "4096 dvd unat (image_backing ?a)" "unat (image_backing ?a) + unat (image_capacity ?a) \<le> 2 ^ 32"
    using block_below [OF o, of "image_backing ?a" "image_page_count ?a"] nz(2) reg
    by (simp_all add: blocks_of_def region_ok_def algebra_simps)
  have stk: "4096 dvd unat (stack_backing ?a)" "unat (stack_backing ?a) + unat (stack_size ?a) \<le> 2 ^ 32"
    using block_below [OF o, of "stack_backing ?a" "stack_page_count ?a"] nz(3) reg
    by (simp_all add: blocks_of_def region_ok_def abi_constants)
  have lay: "4096 dvd unat (image_base ?a)" "4096 dvd unat (image_capacity ?a)" "4096 dvd unat (stack_base ?a)"
    "4096 dvd unat (stack_size ?a)" "unat (image_base ?a) + unat (image_capacity ?a) \<le> 2 ^ 48"
    "unat (stack_base ?a) + unat (stack_size ?a) \<le> 2 ^ 48"
    "unat (image_base ?a) + unat (image_capacity ?a) \<le> unat (stack_base ?a)"
    using reg by (auto simp: region_ok_def abi_constants intro: dvdI [of _ _ "unat (image_page_count ?a)"])
  obtain ok p where m: "process_map (image_base ?a) (image_backing ?a) (image_capacity ?a) True t = Some (ok, t\<lparr>paging := p\<rparr>)"
    and tp: "takes t (t\<lparr>paging := p\<rparr>)"
    and T1: "\<forall>v. unat v < 2 ^ 48 \<longrightarrow> (if in_image ?a v
        then ok \<longrightarrow> translate (pg_tables p) ?R v = Some (mapped (image_base ?a) (image_backing ?a) True True True v)
        else translate (pg_tables p) ?R v = translate (pg_tables (paging t)) ?R v)"
    using map_takes [OF o(1) nz(1) lay(5,1,2) img(2,1), of True] cr R(1) by (auto simp: in_image_def)
  let ?t = "t\<lparr>paging := p\<rparr>"
  have st: "takes s ?t" by (rule takes_trans [OF t tp])
  note K1 = keepsD [OF tp [unfolded takes_def, THEN conjunct2, THEN conjunct2, THEN conjunct1]]
  show ?thesis
  proof (cases ok)
    case False
    then show ?thesis using prepare_fail_gives [OF st c, of "''program: image map failed''"] m
      by (auto simp: prepare_maps_def prepared_def)
  next
    case True
    have o1: "owns ?t" "page_table_root (space ?t) \<noteq> 0" using tp nz(1) by (simp_all add: takes_def)
    have cr1: "paging_current_root (paging ?t) \<noteq> page_table_root (space ?t)"
      using cr R(1) K1(6) by (simp add: paging_current_root_def read_cr3_def)
    have e: "space ?t = space t" "paging ?t = p" by simp_all
    obtain ok2 p2 where m2: "process_map (stack_base ?a) (stack_backing ?a) (stack_size ?a) False ?t = Some (ok2, ?t\<lparr>paging := p2\<rparr>)"
      and tp2: "takes ?t (?t\<lparr>paging := p2\<rparr>)"
      and T2: "\<forall>v. unat v < 2 ^ 48 \<longrightarrow> (if in_stack ?a v
        then ok2 \<longrightarrow> translate (pg_tables p2) ?R v = Some (mapped (stack_base ?a) (stack_backing ?a) True True False v)
        else translate (pg_tables p2) ?R v = translate (pg_tables p) ?R v)"
      using map_takes [OF o1 lay(6,3,4) stk(2,1) cr1, of False, unfolded e, folded in_stack_def] by blast
    let ?u = "?t\<lparr>paging := p2\<rparr>"
    have su: "takes s ?u" by (rule takes_trans [OF st tp2])
    note K2 = keepsD [OF tp2 [unfolded takes_def, THEN conjunct2, THEN conjunct2, THEN conjunct1]]
    show ?thesis
    proof (cases ok2)
      case False
      then show ?thesis using prepare_fail_gives [OF su c, of "''program: stack map failed''"] m m2 True
        by (auto simp: prepare_maps_def prepared_def)
    next
      case ok2: True
      have ker: "translate (pg_tables p2) (g_pml4 p2) v = translate (pg_tables (paging t)) (g_pml4 (paging t)) v" for v
        using fun_cong [OF K1(10), of v] fun_cong [OF K2(10), of v] by simp
      have "sees ?a p2"
        unfolding sees_def
      proof (intro allI impI)
        fix v :: u64 assume v: "unat v < 2 ^ 48"
        have apart: "\<not> (in_image ?a v \<and> in_stack ?a v)" using lay(7) by (auto simp: in_image_def in_stack_def)
        show "translate (pg_tables p2) ?R v =
          (if in_image ?a v then Some (mapped (image_base ?a) (image_backing ?a) True True True v)
           else if in_stack ?a v then Some (mapped (stack_base ?a) (stack_backing ?a) True True False v)
           else translate (pg_tables p2) (g_pml4 p2) v)"
          using T1 [rule_format, OF v] T2 [rule_format, OF v] apart True ok2 R(2) [rule_format, of v] ker [of v]
          by (auto split: if_splits)
      qed
      moreover have "?R \<noteq> g_pml4 p2" using R(1) K1(7) K2(7) by simp
      ultimately have "prepared s True ?u" using su nz by (simp add: prepared_def)
      then show ?thesis using m m2 True ok2 by (intro exI [of _ True] exI [of _ ?u]) (simp add: prepare_maps_def)
    qed
  qed
qed


lemma prepare_ok:
  fixes s :: "'d kernel_state"
  assumes k: "kernel_runs s" "region_ok (space s)" "no_memory s"
  shows "\<exists>ok s'. process_prepare_address_space s = Some (ok, s') \<and> prepared s ok s'"
proof -
  have o: "owns s" and c: "console_ok s" using k(1) by (simp_all add: kernel_runs_def)
  have z: "page_table_root (space s) = 0" "image_backing (space s) = 0" "stack_backing (space s) = 0"
    using k(3) by (simp_all add: no_memory_def)
  obtain R p where cr: "paging_create_address_space (paging s) = (R, p)" by fastforce
  let ?s1 = "with_space (\<lambda>a. a\<lparr>page_table_root := R\<rparr>) (s\<lparr>paging := p\<rparr>)"
  note C = create_takes [OF o z(1) cr]
  show ?thesis
  proof (cases "R = 0")
    case True
    have "no_memory ?s1" using True z by (simp add: no_memory_def)
    from say_false_gives [OF C(1) c this, of "''program: page table alloc failed''"] show ?thesis
      using True cr by (auto simp: prepare_split prepared_def Let_def)
  next
    case R: False
    have o1: "owns ?s1" using C(1) by (simp add: takes_def)
    obtain img t1 where a1: "k_alloc_pages (image_page_count (space ?s1)) ?s1 = (img, t1)" by fastforce
    let ?s2 = "with_space (\<lambda>a. a\<lparr>image_backing := img\<rparr>) t1"
    have A: "takes ?s1 ?s2" "pg_tables (paging t1) = pg_tables p \<and> g_pml4 (paging t1) = g_pml4 p" "space t1 = space ?s1"
      using alloc_takes [OF o1 a1, of "\<lambda>a. a\<lparr>image_backing := img\<rparr>"] z by (auto simp: rest_of_def blocks_of_def)
    have s2: "takes s ?s2" by (rule takes_trans [OF C(1) A(1)])
    have run2: "process_prepare_address_space s =
       (if img = 0 then prepare_fail ''program: image backing alloc failed'' ?s2
        else case k_alloc_pages (stack_page_count (space ?s2)) ?s2 of (stack, s) \<Rightarrow>
            let s = with_space (\<lambda>a. a\<lparr>stack_backing := stack\<rparr>) s in
            if stack_backing (space s) = 0 then prepare_fail ''program: stack backing alloc failed'' s
            else prepare_maps s)"
      using R a1 by (simp add: prepare_split cr Let_def)
    show ?thesis
    proof (cases "img = 0")
      case True
      then show ?thesis using prepare_fail_gives [OF s2 c, of "''program: image backing alloc failed''"]
        by (auto simp: run2 prepared_def)
    next
      case img: False
      have o2: "owns ?s2" using A(1) by (simp add: takes_def)
      obtain stk t2 where a2: "k_alloc_pages (stack_page_count (space ?s2)) ?s2 = (stk, t2)" by fastforce
      let ?s3 = "with_space (\<lambda>a. a\<lparr>stack_backing := stk\<rparr>) t2"
      have B: "takes ?s2 ?s3" "pg_tables (paging t2) = pg_tables p \<and> g_pml4 (paging t2) = g_pml4 p" "space t2 = space ?s2"
        using alloc_takes [OF o2 a2, of "\<lambda>a. a\<lparr>stack_backing := stk\<rparr>"] z img
        by (auto simp: rest_of_def blocks_of_def A(2,3) holds_swap [of _ "(img, _)"])
      have s3: "takes s ?s3" by (rule takes_trans [OF s2 B(1)])
      have run3: "process_prepare_address_space s =
          (if stk = 0 then prepare_fail ''program: stack backing alloc failed'' ?s3 else prepare_maps ?s3)"
        using img a2 by (simp add: run2 Let_def)
      show ?thesis
      proof (cases "stk = 0")
        case True
        then show ?thesis using prepare_fail_gives [OF s3 c, of "''program: stack backing alloc failed''"]
          by (auto simp: run3 prepared_def)
      next
        case stk: False
        have sp: "page_table_root (space ?s3) = R" "image_backing (space ?s3) = img" "stack_backing (space ?s3) = stk"
          using A(3) B(3) by simp_all
        have pg: "pg_tables (paging ?s3) = pg_tables p" "g_pml4 (paging ?s3) = g_pml4 p"
          using B(2) by simp_all
        have D: "R \<noteq> g_pml4 p" "\<forall>v. translate (pg_tables p) R v = translate (pg_tables p) (g_pml4 p) v"
          using C(5) [OF R] by simp_all
        have "\<exists>ok s'. prepare_maps ?s3 = Some (ok, s') \<and> prepared s ok s'"
          using D R img stk by (intro prepare_maps_ok [OF k(1,2) s3]) (simp_all only: sp pg simp_thms)
        then show ?thesis using stk by (simp add: run3)
      qed
    qed
  qed
qed


text \<open>C7: \<open>process_prepare_address_space\<close>, run by a kernel on its own tables for an accepted image, always
  returns. On success the program's tables show it exactly its image (writable, executable) and its stack
  (writable, not executable) on the blocks just taken, and elsewhere what the kernel sees; every page taken is
  accounted for and apart from every other. On failure the root and both blocks are gone and nothing is lost
  unless the table of free ranges has filled up. Either way the kernel's translations, its current root, the
  memory's contents and the other fields stay as they were.\<close>

theorem process_prepare_address_space_maps:
  assumes "kernel_runs s" and "region_ok (space s)" and "no_memory s"
  shows "\<exists>ok s'. process_prepare_address_space s = Some (ok, s') \<and> owns s' \<and> keeps s s' \<and>
    file_buffer (space s') = file_buffer (space s) \<and>
    (if ok then page_table_root (space s') \<noteq> 0 \<and> image_backing (space s') \<noteq> 0 \<and> stack_backing (space s') \<noteq> 0 \<and>
       total s' = total s \<and> sees (space s') (paging s')
     else no_memory s' \<and> total s' \<subseteq> total s \<and> (roomy (pg_mem (paging s')) \<longrightarrow> total s' = total s))"
  using prepare_ok [OF assms] by (auto simp: prepared_def failed_def takes_def split: if_splits)

definition demo_program :: "ramdisk kernel_state" where
  "demo_program = with_space (\<lambda>a. a\<lparr>image_base := 0x8000000000, image_capacity := 0x1000, image_page_count := 1\<rparr>)
     (process_init demo_kernel)"

lemma demo_program_runs: "kernel_runs demo_program" "region_ok (space demo_program)" "no_memory demo_program"
proof -
  have c: "console_ok demo_kernel" by (simp add: demo_kernel_def console_ok_def fits_def)
  have p: "paging demo_program = demo_paging"
    by (simp add: demo_program_def process_init_def process_prepare_runtime_def process_reset_fields_def)
      (simp add: demo_kernel_def)
  have a: "blocks_of (space demo_program) = []" "page_table_root (space demo_program) = 0"
    by (simp_all add: demo_program_def process_init_def process_prepare_runtime_def process_reset_fields_def
      process_zero_def blocks_of_def Let_def with_space_def with_state_def with_runtime_def)
  have "holds 0 [] demo_paging" using demo_kernel_ok by (simp add: holds_def)
  moreover have "pages_of 0 [] demo_paging \<subseteq> {..<2 ^ 32}"
    using demo_pages_ok(2) by (auto simp: pages_of_def held_def held_tables_def)
  moreover have "paging_current_root demo_paging = g_pml4 demo_paging"
    by (simp add: demo_paging_def paging_current_root_def read_cr3_def PAGE_TABLE_ADDR_MASK_def)
  moreover have "console_ok demo_program"
    using c by (simp add: demo_program_def process_init_def process_prepare_runtime_def process_reset_fields_def)
  ultimately show "kernel_runs demo_program" by (simp add: kernel_runs_def owns_def total_def p a)
  show "region_ok (space demo_program)" "no_memory demo_program"
    by (simp_all add: demo_program_def process_init_def process_prepare_runtime_def process_reset_fields_def
      process_zero_def Let_def with_space_def with_state_def with_runtime_def region_ok_def no_memory_def abi_constants
      bytes_to_pages_def PAGE_SIZE_def PROCESS_ABI_STACK_SIZE_def)
qed

end
