(* ===== verification/ProcessUser.thy ===== *)
theory ProcessUser
  imports ProcessPrepare
begin

text \<open>
  The kernel and the running program: accesses to the program's memory and the system calls.
\<close>

subsection \<open>Accesses through the page tables\<close>

text \<open>The \<open>n\<close> addresses from \<open>v\<close> on are mapped, writable, to the physical ones from \<open>p\<close> on.\<close>

definition window :: "'d kernel_state \<Rightarrow> u64 \<Rightarrow> nat \<Rightarrow> u64 \<Rightarrow> bool" where
  "window s v n p \<longleftrightarrow> (\<forall>i < n. \<exists>m. active_translation s (v + of_nat i) = Some m \<and> m_writable m \<and> m_phys m = p + of_nat i)"

lemma window_tail: "window s v (Suc n) p \<Longrightarrow> window s (v + 1) n (p + 1)"
  unfolding window_def by (auto dest: spec [of _ "Suc _"] simp: add.assoc)

lemma window_read: "window s v n p \<Longrightarrow> user_read v n s = Some (ram_bytes (ram s) p n)"
proof (induction n arbitrary: v p)
  case 0
  then show ?case by (simp add: ram_bytes_def)
next
  case (Suc n)
  have "user_load v s = Some (ram s p)"
    using Suc.prems by (auto simp: window_def user_load_def dest: spec [of _ 0])
  moreover have "ram_bytes (ram s) p (Suc n) = ram s p # ram_bytes (ram s) (p + 1) n"
    by (simp add: ram_bytes_def upt_conv_Cons map_Suc_upt [symmetric] add.assoc del: upt_Suc)
  ultimately show ?case using Suc.IH [OF window_tail [OF Suc.prems]] by simp
qed

text \<open>A loop of stores, each with a byte that may depend on the memory so far.\<close>

lemma window_stores:
  assumes "window s v n p" and "set js \<subseteq> {..<n}"
  shows "for_each (\<lambda>i s. user_store (v + of_nat i) (h i (ram s)) s) js s =
    Some (s\<lparr>ram := fold (\<lambda>i r. r(p + of_nat i := h i r)) js (ram s)\<rparr>)"
  using assms
proof (induction "js" arbitrary: s)
  case Nil
  then show ?case by simp
next
  case (Cons i js)
  let ?s = "s\<lparr>ram := (ram s)(p + of_nat i := h i (ram s))\<rparr>"
  have "active_translation ?s w = active_translation s w" for w by (simp add: active_translation_def)
  then have "window ?s v n p" using Cons.prems(1) by (simp add: window_def)
  moreover have "user_store (v + of_nat i) (h i (ram s)) s = Some ?s"
    using Cons.prems by (auto simp: window_def user_store_def)
  ultimately show ?case using Cons.IH [of ?s] Cons.prems(2) by simp
qed

lemma window_write:
  "window s v (length bs) p \<Longrightarrow> user_write v bs s = Some (s\<lparr>ram := ram_write p bs (ram s)\<rparr>)"
  using window_stores [of s v "length bs" p "[0..<length bs]" "\<lambda>i r. bs ! i"]
  by (simp add: user_write_def ram_write_def atLeast0LessThan)

lemma window_memset:
  "window s v n p \<Longrightarrow> user_memset v b n s = Some (s\<lparr>ram := ram_write p (replicate n b) (ram s)\<rparr>)"
proof -
  assume w: "window s v n p"
  have "fold (\<lambda>i r. r(p + of_nat i := b)) [0..<n] r = ram_write p (replicate n b) r" for r
    unfolding ram_write_def by (rule fold_cong) simp_all
  then show ?thesis using window_stores [OF w, of "[0..<n]" "\<lambda>i r. b"] by (simp add: user_memset_def atLeast0LessThan)
qed

lemma window_memcpy:
  "window s v n p \<Longrightarrow> user_memcpy v src n s =
    Some (s\<lparr>ram := fold (\<lambda>i r. r(p + of_nat i := r (src + of_nat i))) [0..<n] (ram s)\<rparr>)"
  using window_stores [of s v n p "[0..<n]" "\<lambda>i r. r (src + of_nat i)"]
  by (simp add: user_memcpy_def atLeast0LessThan)

lemma window_moves:
  fixes s s' :: "'d kernel_state"
  shows "paging s' = paging s \<Longrightarrow> window s' v n p = window s v n p"
  by (simp add: window_def active_translation_def)

subsection \<open>The ranges a program may name\<close>

definition within :: "u64 \<Rightarrow> u64 \<Rightarrow> u64 \<Rightarrow> u64 \<Rightarrow> bool" where
  "within base sz ptr len \<longleftrightarrow> unat base \<le> unat ptr \<and> unat ptr + unat len \<le> unat base + unat sz"

text \<open>The check is containment of the exact, never wrapping range.\<close>

lemma process_range_contains_within:
  "process_range_contains base sz ptr len \<longleftrightarrow> len = 0 \<or> within base sz ptr len"
proof (cases "base \<le> ptr")
  case True
  then have o: "unat (ptr - base) = unat ptr - unat base" "unat base \<le> unat ptr"
    by (simp_all add: unat_diff_small word_le_nat_alt)
  show ?thesis
  proof (cases "ptr - base \<le> sz")
    case le: True
    then have "unat (sz - (ptr - base)) = unat sz - (unat ptr - unat base)" "unat ptr - unat base \<le> unat sz"
      using o by (simp_all add: unat_diff_small word_le_nat_alt)
    then show ?thesis
      using True le o by (auto simp: process_range_contains_def Let_def within_def word_le_nat_alt word_less_nat_alt)
  next
    case False
    then have "unat sz < unat ptr - unat base" using o by (simp add: word_le_nat_alt)
    then show ?thesis using True False o by (auto simp: process_range_contains_def Let_def within_def)
  qed
qed (auto simp: process_range_contains_def within_def word_le_nat_alt word_less_nat_alt)

definition user_range :: "ProcessAddressSpace \<Rightarrow> u64 \<Rightarrow> u64 \<Rightarrow> bool" where
  "user_range a ptr len \<longleftrightarrow> len = 0 \<or> within (image_base a) (image_capacity a) ptr len \<or>
     within (stack_base a) (stack_size a) ptr len"

lemma user_range_valid: "process_user_range_valid s ptr len \<longleftrightarrow> user_range (space s) ptr len"
  by (auto simp: process_user_range_valid_def user_range_def process_range_contains_within)

definition user_phys :: "ProcessAddressSpace \<Rightarrow> u64 \<Rightarrow> u64" where
  "user_phys a v = (if in_image a v then image_backing a + (v - image_base a) else stack_backing a + (v - stack_base a))"

text \<open>The program's page tables are in use.\<close>

definition program_active :: "'d kernel_state \<Rightarrow> bool" where
  "program_active s \<longleftrightarrow> region_ok (space s) \<and> sees (space s) (paging s) \<and>
     paging_current_root (paging s) = page_table_root (space s)"

lemma active_window:
  assumes act: "program_active s" and rng: "user_range (space s) ptr len" and len: "len \<noteq> 0"
  shows "window s ptr (unat len) (user_phys (space s) ptr)"
  unfolding window_def
proof (intro allI impI)
  fix i assume i: "i < unat len"
  let ?a = "space s" and ?v = "ptr + of_nat i :: u64"
  have reg: "unat (image_base ?a) + unat (image_capacity ?a) + 4096 \<le> 0x80000F0000" "unat (stack_base ?a) = 0x80000F0000"
    "unat (stack_size ?a) = 0x10000"
    using act by (auto simp: program_active_def region_ok_def abi_constants)
  have bound: "unat ptr + unat len \<le> 0x8000100000"
    using rng len reg by (auto simp: user_range_def within_def)
  have v: "unat ?v = unat ptr + i"
    using i bound by (subst unat_add_small) (simp_all add: unat_of_nat take_bit_nat_eq_self)
  have low: "unat ?v < 2 ^ 48" using v i bound by simp
  have tr: "active_translation s ?v =
     (if in_image ?a ?v then Some (mapped (image_base ?a) (image_backing ?a) True True True ?v)
      else if in_stack ?a ?v then Some (mapped (stack_base ?a) (stack_backing ?a) True True False ?v)
      else translate (pg_tables (paging s)) (g_pml4 (paging s)) ?v)"
    using act low by (simp add: active_translation_def program_active_def sees_def)
  consider "within (image_base ?a) (image_capacity ?a) ptr len" | "within (stack_base ?a) (stack_size ?a) ptr len"
    using rng len by (auto simp: user_range_def)
  then show "\<exists>m. active_translation s ?v = Some m \<and> m_writable m \<and> m_phys m = user_phys ?a ptr + of_nat i"
  proof cases
    case 1
    then have "in_image ?a ?v" "in_image ?a ptr" using v i len by (auto simp: within_def in_image_def)
    then show ?thesis using tr by (simp add: mapped_def user_phys_def algebra_simps)
  next
    case 2
    then have "in_stack ?a ?v" "\<not> in_image ?a ?v" "\<not> in_image ?a ptr"
      using v i reg by (auto simp: within_def in_image_def in_stack_def)
    then show ?thesis using tr by (simp add: mapped_def user_phys_def algebra_simps)
  qed
qed

text \<open>A program's root is a page address, so CR3 holds it unchanged.\<close>

lemma owned_root:
  assumes "owns s" and "page_table_root (space s) \<noteq> 0"
  shows "page_table_root (space s) AND PAGE_TABLE_ADDR_MASK = page_table_root (space s)"
proof -
  have "isolated (page_table_root (space s)) (paging s)" using assms holdsD(2) by (simp add: owns_def)
  then have "page_ok (page_table_root (space s))" using tree_page [OF isolatedD(2), of _ _ "[]"] by simp
  then show ?thesis by (auto intro!: bit_word_eqI simp: bit_and_iff bit_addr_mask dest: page_ok_bits)
qed

lemma with_root_active:
  assumes "owns s" and "page_table_root (space s) \<noteq> 0" and "region_ok (space s)" and "sees (space s) (paging s)"
  shows "program_active (with_root (page_table_root (space s)) s)"
  using owned_root [OF assms(1,2)] assms
  by (simp add: program_active_def with_root_def paging_activate_root_def Let_def load_cr3_def paging_current_root_def
    read_cr3_def sees_def)

subsection \<open>System calls\<close>

definition syscall_number :: "TrapFrame \<Rightarrow> u32" where
  "syscall_number f = ucast (tf_rax f)"

text \<open>A call that is refused: no such number, a range that is not the program's, or a line of no room.\<close>

definition refused :: "ProcessAddressSpace \<Rightarrow> TrapFrame \<Rightarrow> bool" where
  "refused a f \<longleftrightarrow> syscall_number f \<notin> {PROGRAM_SYSCALL_EXIT, PROGRAM_SYSCALL_WRITE, PROGRAM_SYSCALL_READ_LINE} \<or>
     (syscall_number f \<noteq> PROGRAM_SYSCALL_EXIT \<and> \<not> user_range a (tf_rdi f) (tf_rsi f)) \<or>
     (syscall_number f = PROGRAM_SYSCALL_READ_LINE \<and> tf_rsi f = 0)"

lemma syscall_numbers:
  "PROGRAM_SYSCALL_EXIT = 0" "PROGRAM_SYSCALL_WRITE = 1" "PROGRAM_SYSCALL_READ_LINE = 2"
  by (simp_all add: PROGRAM_SYSCALL_EXIT_def PROGRAM_SYSCALL_WRITE_def PROGRAM_SYSCALL_READ_LINE_def)

lemma syscall_refused:
  assumes "g_active_process s" and "refused (space s) f"
  shows "process_handle_syscall (Some f) s = Some (True, Some (f\<lparr>tf_rax := 0\<rparr>), s)"
  using assms
  by (auto simp: process_handle_syscall_def refused_def syscall_number_def Let_def user_range_valid syscall_numbers)

lemma syscall_exit:
  assumes "g_active_process s" and "syscall_number f = PROGRAM_SYSCALL_EXIT"
  shows "process_handle_syscall (Some f) s =
    Some (True, Some (f\<lparr>tf_rax := 1\<rparr>), process_finish_exit (ucast (tf_rdi f)) s)"
  using assms by (simp add: process_handle_syscall_def syscall_number_def Let_def)

lemma syscall_write:
  assumes a: "g_active_process s" "program_active s" "console_ok s"
    and f: "syscall_number f = PROGRAM_SYSCALL_WRITE" "user_range (space s) (tf_rdi f) (tf_rsi f)"
  shows "\<exists>s'. process_handle_syscall (Some f) s = Some (True, Some (f\<lparr>tf_rax := tf_rsi f\<rparr>), s') \<and>
    console_ok s' \<and> moves s s' \<and> (vga_only s \<longrightarrow> terminal s' =
      fold terminal_char (ram_bytes (ram s) (user_phys (space s) (tf_rdi f)) (unat (tf_rsi f))) (terminal s))"
proof -
  let ?n = "unat (tf_rsi f)" and ?bs = "ram_bytes (ram s) (user_phys (space s) (tf_rdi f)) (unat (tf_rsi f))"
  have "user_read (tf_rdi f) ?n s = Some ?bs"
  proof (cases "tf_rsi f = 0")
    case True
    then show ?thesis by (simp add: ram_bytes_def)
  qed (use window_read [OF active_window [OF a(2) f(2)]] in simp)
  moreover have "length ?bs = ?n" by (simp add: ram_bytes_def)
  moreover obtain s' where "console_write ?bs s = Some s'" "console_ok s'" "moves s s'"
      "vga_only s \<longrightarrow> terminal s' = fold terminal_char ?bs (terminal s)"
    using console_write_ok [OF a(3), of ?bs] by (auto simp: does_def)
  ultimately show ?thesis
    using a(1) f by (simp add: process_handle_syscall_def syscall_number_def Let_def user_range_valid syscall_numbers console_write_def)
qed

lemma syscall_read_line:
  fixes s :: "'d kernel_state"
  assumes a: "g_active_process s" "program_active s" "console_ok s" "enter_held T s"
    and f: "syscall_number f = PROGRAM_SYSCALL_READ_LINE" "user_range (space s) (tf_rdi f) (tf_rsi f)" "tf_rsi f \<noteq> 0"
  shows "\<exists>n line s1. process_handle_syscall (Some f) s = Some (True, Some (f\<lparr>tf_rax := n\<rparr>),
      s1\<lparr>ram := ram_write (user_phys (space s) (tf_rdi f)) line (ram s)\<rparr>) \<and> console_ok s1 \<and> moves s s1 \<and>
    n < tf_rsi f \<and> length line = unat (tf_rsi f) \<and> line ! unat n = 0 \<and>
    (\<forall>i < unat n. line ! i \<noteq> 0 \<and> line ! i \<noteq> 8 \<and> line ! i \<noteq> 10)"
proof -
  let ?n = "unat (tf_rsi f)" and ?p = "user_phys (space s) (tf_rdi f)"
  note w = active_window [OF a(2) f(2,3)]
  have r: "user_read (tf_rdi f) ?n s = Some (ram_bytes (ram s) ?p ?n)" by (rule window_read [OF w])
  have l: "length (ram_bytes (ram s) ?p ?n) = ?n" by (simp add: ram_bytes_def)
  have "0 < ?n" using f(3) by (simp add: unat_gt_0)
  then have "line_ok ?n (unat (0 :: u64)) (ram_bytes (ram s) ?p ?n)" by (simp add: line_ok_def l)
  from read_line_loop_ok [OF a(3,4) this, unfolded l] obtain n line s1 where
    k: "read_line_loop (tf_rsi f) 0 (ram_bytes (ram s) ?p ?n) s = Some (n, line, s1)"
    and s1: "console_ok s1" "moves s s1" and line: "length line = ?n" "line_ok ?n (unat n) line" "line ! unat n = 0"
    by blast
  note m = moves_kernel [OF s1(2)]
  have "user_write (tf_rdi f) line s1 = Some (s1\<lparr>ram := ram_write ?p line (ram s)\<rparr>)"
    using window_write [of s1 "tf_rdi f" line ?p] w window_moves [OF m(1)] line(1) m(3) by simp
  then have "process_handle_syscall (Some f) s = Some (True, Some (f\<lparr>tf_rax := n\<rparr>), s1\<lparr>ram := ram_write ?p line (ram s)\<rparr>)"
    using a(1) f r k
    by (simp add: process_handle_syscall_def syscall_number_def Let_def user_range_valid syscall_numbers keyboard_read_line_def)
  then show ?thesis using s1 line by (auto simp: line_ok_def word_less_nat_alt)
qed


text \<open>The other two ways out of \<open>process_handle_syscall\<close>.\<close>

lemma syscall_without_program:
  "\<not> g_active_process s \<Longrightarrow> process_handle_syscall frame s = Some (False, frame, s)"
  by (cases frame) (simp_all add: process_handle_syscall_def Let_def)

text \<open>C8: For every frame a running program may trap with, \<open>process_handle_syscall\<close> returns (for
  READ_LINE: once the user holds Enter), changes no register but rax and stores nowhere but in the named range
  of the program's own memory. An unknown number, a range that is not wholly inside the image or the stack (as
  exact, non-wrapping integers) and a line without room give 0 and change nothing at all; EXIT records the
  status; WRITE prints the program's bytes and returns their number; READ_LINE leaves a NUL-terminated line
  shorter than its buffer in the program's memory.\<close>

theorem process_handle_syscall_checks:
  fixes s :: "'d kernel_state"
  assumes "g_active_process s" and "program_active s" and "console_ok s" and "enter_held T s"
  defines "phys \<equiv> user_phys (space s)"
  shows "\<exists>v s1 line. process_handle_syscall (Some f) s =
      Some (True, Some (f\<lparr>tf_rax := v\<rparr>), s1\<lparr>ram := ram_write (phys (tf_rdi f)) line (ram s)\<rparr>) \<and>
    (if refused (space s) f then v = 0 \<and> s1 = s \<and> line = []
     else if syscall_number f = PROGRAM_SYSCALL_EXIT
     then v = 1 \<and> s1 = process_finish_exit (ucast (tf_rdi f)) s \<and> line = []
     else console_ok s1 \<and> moves s s1 \<and> user_range (space s) (tf_rdi f) (tf_rsi f) \<and>
       (if syscall_number f = PROGRAM_SYSCALL_WRITE
        then v = tf_rsi f \<and> line = [] \<and> (vga_only s \<longrightarrow> terminal s1 =
          fold terminal_char (ram_bytes (ram s) (phys (tf_rdi f)) (unat (tf_rsi f))) (terminal s))
        else v < tf_rsi f \<and> length line = unat (tf_rsi f) \<and> line ! unat v = 0 \<and>
          (\<forall>i < unat v. line ! i \<noteq> 0 \<and> line ! i \<noteq> 8 \<and> line ! i \<noteq> 10)))"
proof (cases "refused (space s) f")
  case True
  then show ?thesis using syscall_refused [OF assms(1) True]
    by (intro exI [of _ 0] exI [of _ s] exI [of _ "[]"]) (simp add: ram_write_def)
next
  case ok: False
  then consider "syscall_number f = PROGRAM_SYSCALL_EXIT"
    | "syscall_number f = PROGRAM_SYSCALL_WRITE" "user_range (space s) (tf_rdi f) (tf_rsi f)"
    | "syscall_number f = PROGRAM_SYSCALL_READ_LINE" "user_range (space s) (tf_rdi f) (tf_rsi f)" "tf_rsi f \<noteq> 0"
    by (auto simp: refused_def syscall_numbers)
  then show ?thesis
  proof cases
    case 1
    have "(process_finish_exit c s)\<lparr>ram := ram s\<rparr> = process_finish_exit c s" for c
      by (simp add: process_finish_exit_def with_state_def with_runtime_def)
    then show ?thesis using syscall_exit [OF assms(1) 1] ok 1
      by (intro exI [of _ 1] exI [of _ "process_finish_exit (ucast (tf_rdi f)) s"] exI [of _ "[]"]) (simp add: ram_write_def)
  next
    case 2
    from syscall_write [OF assms(1-3) 2] obtain s1 where
      s1: "process_handle_syscall (Some f) s = Some (True, Some (f\<lparr>tf_rax := tf_rsi f\<rparr>), s1)" "console_ok s1" "moves s s1"
        "vga_only s \<longrightarrow> terminal s1 =
          fold terminal_char (ram_bytes (ram s) (phys (tf_rdi f)) (unat (tf_rsi f))) (terminal s)"
      unfolding phys_def by blast
    have "s1\<lparr>ram := ram s\<rparr> = s1" using moves_kernel(3) [OF s1(3)] by simp
    then show ?thesis using s1 ok 2
      by (intro exI [of _ "tf_rsi f"] exI [of _ s1] exI [of _ "[]"]) (simp add: ram_write_def syscall_numbers)
  next
    case 3
    from syscall_read_line [OF assms(1-4) 3] obtain n line s1 where
      "process_handle_syscall (Some f) s = Some (True, Some (f\<lparr>tf_rax := n\<rparr>), s1\<lparr>ram := ram_write (phys (tf_rdi f)) line (ram s)\<rparr>)"
      "console_ok s1" "moves s s1" "n < tf_rsi f" "length line = unat (tf_rsi f)" "line ! unat n = 0"
      "\<forall>i < unat n. line ! i \<noteq> 0 \<and> line ! i \<noteq> 8 \<and> line ! i \<noteq> 10"
      unfolding phys_def by blast
    then show ?thesis using ok 3
      by (intro exI [of _ n] exI [of _ s1] exI [of _ line]) (simp add: syscall_numbers)
  qed
qed

end
