(* ===== verification/ProcessLoad.thy ===== *)
theory ProcessLoad
  imports ProcessUser
begin

text \<open>
  Loading: the file into its buffer, the arguments and the segments into the program's memory. Every
  step returns and stores only in the pages of the program.
\<close>

subsection \<open>Where stores go\<close>

lemma fold_stores_outside:
  "\<forall>i \<in> set js. p + of_nat i \<noteq> a \<Longrightarrow> fold (\<lambda>i r. r(p + of_nat i := h i r)) js r a = r a"
  by (induction js arbitrary: r) auto

lemma stores_outside:
  fixes p a :: u64
  assumes "unat p + n \<le> 2 ^ 64" and "unat a \<notin> {unat p..<unat p + n}"
  shows "fold (\<lambda>i r. r(p + of_nat i := h i r)) [0..<n] r a = r a"
proof (rule fold_stores_outside, intro ballI)
  fix i assume "i \<in> set [0..<n]"
  then have "i < n" by simp
  then have "unat (p + of_nat i) = unat p + i"
    using assms(1) by (subst unat_add_small) (simp_all add: unat_of_nat take_bit_nat_eq_self)
  then show "p + of_nat i \<noteq> a" using assms(2) \<open>i < n\<close> by auto
qed

lemma ram_write_outside:
  "unat p + length bs \<le> 2 ^ 64 \<Longrightarrow> unat a \<notin> {unat p..<unat p + length bs} \<Longrightarrow> ram_write p bs r a = r a"
  unfolding ram_write_def by (rule stores_outside)

text \<open>The pages behind a program's image and stack.\<close>

definition user_pages :: "ProcessAddressSpace \<Rightarrow> nat set" where
  "user_pages a = block_set (image_backing a) (image_page_count a) \<union> block_set (stack_backing a) (stack_page_count a)"

definition backed :: "ProcessAddressSpace \<Rightarrow> bool" where
  "backed a \<longleftrightarrow> unat (image_backing a) + unat (image_capacity a) \<le> 2 ^ 32 \<and>
     unat (stack_backing a) + unat (stack_size a) \<le> 2 ^ 32"

definition program_ready :: "'d kernel_state \<Rightarrow> bool" where
  "program_ready s \<longleftrightarrow> program_active s \<and> backed (space s)"

lemma user_phys_pages:
  assumes reg: "region_ok a" and b: "backed a" and rng: "user_range a ptr len" and len: "len \<noteq> 0"
  shows "unat (user_phys a ptr) + unat len \<le> 2 ^ 32"
    "{unat (user_phys a ptr)..<unat (user_phys a ptr) + unat len} \<subseteq> user_pages a"
proof -
  have l: "0 < unat len" using len by (simp add: unat_gt_0)
  have page: "unat (image_page_count a) * 4096 = unat (image_capacity a)" "unat (stack_page_count a) * 4096 = unat (stack_size a)"
    "unat (image_base a) + unat (image_capacity a) \<le> unat (stack_base a)"
    using reg by (auto simp: region_ok_def abi_constants)
  consider (1) "within (image_base a) (image_capacity a) ptr len" | (2) "within (stack_base a) (stack_size a) ptr len"
    using rng len by (auto simp: user_range_def)
  then have "unat (user_phys a ptr) + unat len \<le> 2 ^ 32 \<and>
    {unat (user_phys a ptr)..<unat (user_phys a ptr) + unat len} \<subseteq> user_pages a"
  proof cases
    case 1
    then have i: "in_image a ptr" and o: "unat (ptr - image_base a) = unat ptr - unat (image_base a)"
      using l by (auto simp: within_def in_image_def unat_diff_small word_le_nat_alt)
    have "unat (user_phys a ptr) = unat (image_backing a) + (unat ptr - unat (image_base a))"
      using i o 1 l b by (auto simp: user_phys_def within_def backed_def intro!: trans [OF unat_add_small])
    then show ?thesis using 1 l b page(1) by (auto simp: within_def backed_def user_pages_def block_set_def)
  next
    case 2
    then have i: "\<not> in_image a ptr" and o: "unat (ptr - stack_base a) = unat ptr - unat (stack_base a)"
      using l page(3) by (auto simp: within_def in_image_def unat_diff_small word_le_nat_alt)
    have "unat (user_phys a ptr) = unat (stack_backing a) + (unat ptr - unat (stack_base a))"
      using i o 2 l b by (auto simp: user_phys_def within_def backed_def intro!: trans [OF unat_add_small])
    then show ?thesis using 2 l b page(2) by (auto simp: within_def backed_def user_pages_def block_set_def)
  qed
  then show "unat (user_phys a ptr) + unat len \<le> 2 ^ 32"
    "{unat (user_phys a ptr)..<unat (user_phys a ptr) + unat len} \<subseteq> user_pages a" by simp_all
qed

text \<open>Only the contents of the program's pages change.\<close>

definition stored :: "'d kernel_state \<Rightarrow> 'd kernel_state \<Rightarrow> bool" where
  "stored s t \<longleftrightarrow> (\<exists>r. t = s\<lparr>ram := r\<rparr> \<and> (\<forall>a. unat a \<notin> user_pages (space s) \<longrightarrow> r a = ram s a))"

lemma stored_refl [simp]: "stored s s"
  unfolding stored_def by (rule exI [of _ "ram s"]) simp

lemma stored_trans: "stored s t \<Longrightarrow> stored t u \<Longrightarrow> stored s u"
  by (auto simp: stored_def)

lemma stored_same:
  assumes "stored s t"
  shows "paging t = paging s" "space t = space s" "rt t = rt s" "volume t = volume s"
    "g_foreground_process t = g_foreground_process s" "console_ok t = console_ok s" "in_port t = in_port s"
    "g_active_process t = g_active_process s" "program_ready t = program_ready s"
    "unat a \<notin> user_pages (space s) \<Longrightarrow> ram t a = ram s a"
  using assms by (auto simp: stored_def program_ready_def program_active_def)

lemma ready_window:
  assumes r: "program_ready s" and rng: "user_range (space s) ptr len"
  shows "window s ptr (unat len) (user_phys (space s) ptr)"
proof (cases "len = 0")
  case True
  then show ?thesis by (simp add: window_def)
next
  case False
  show ?thesis using active_window [OF _ rng False] r by (simp add: program_ready_def)
qed

lemma ready_stores:
  assumes r: "program_ready s" and rng: "user_range (space s) ptr len"
  shows "stored s (s\<lparr>ram := fold (\<lambda>i r. r(user_phys (space s) ptr + of_nat i := h i r)) [0..<unat len] (ram s)\<rparr>)"
proof (cases "len = 0")
  case True
  then show ?thesis by simp
next
  case False
  have "region_ok (space s)" "backed (space s)" using r by (simp_all add: program_ready_def program_active_def)
  note P = user_phys_pages [OF this rng False]
  show ?thesis
    unfolding stored_def
  proof (intro exI conjI allI impI)
    fix a :: u64 assume a: "unat a \<notin> user_pages (space s)"
    show "fold (\<lambda>i r. r(user_phys (space s) ptr + of_nat i := h i r)) [0..<unat len] (ram s) a = ram s a"
      by (rule stores_outside) (use P a in auto)
  qed simp
qed

lemma ready_write:
  assumes "program_ready s" and "user_range (space s) ptr (of_nat (length bs))" and "length bs < 2 ^ 64"
  shows "\<exists>t. user_write ptr bs s = Some t \<and> stored s t"
proof -
  have n: "unat (of_nat (length bs) :: u64) = length bs" using assms(3) by (simp add: unat_of_nat take_bit_nat_eq_self)
  show ?thesis
    using window_write [OF ready_window [OF assms(1,2), unfolded n]] ready_stores [OF assms(1,2), of "\<lambda>i r. bs ! i", unfolded n]
    by (auto simp: ram_write_def)
qed

lemma ready_memset:
  assumes "program_ready s" and "user_range (space s) ptr len"
  shows "\<exists>t. user_memset ptr b (unat len) s = Some t \<and> stored s t"
proof -
  have "user_memset ptr b (unat len) s =
      Some (s\<lparr>ram := fold (\<lambda>i r. r(user_phys (space s) ptr + of_nat i := b)) [0..<unat len] (ram s)\<rparr>)"
    using window_stores [OF ready_window [OF assms], of "[0..<unat len]" "\<lambda>i r. b"]
    by (simp add: user_memset_def atLeast0LessThan)
  then show ?thesis using ready_stores [OF assms, of "\<lambda>i r. b"] by simp
qed

lemma ready_memcpy:
  assumes "program_ready s" and "user_range (space s) ptr len"
  shows "\<exists>t. user_memcpy ptr src (unat len) s = Some t \<and> stored s t"
  using window_memcpy [OF ready_window [OF assms], of src] ready_stores [OF assms, of "\<lambda>i r. r (src + of_nat i)"] by simp

subsection \<open>The arguments\<close>

text \<open>What \<open>process_tokenize_args\<close> leaves behind.\<close>

definition args_ready :: "ProcessRuntime \<Rightarrow> bool" where
  "args_ready r \<longleftrightarrow> pi_argc (info r) \<le> 8 \<and> length (rt_argv r) = 8 \<and> length (rt_cwd r) = 128 \<and> length (rt_arg_buffer r) = 256"

lemma stack_write:
  assumes "program_ready s" and "unat o' + length bs \<le> 480" and "bs \<noteq> []"
  shows "\<exists>t. user_write (stack_base (space s) + o') bs s = Some t \<and> stored s t"
proof (rule ready_write [OF assms(1)])
  have reg: "unat (stack_base (space s)) = 0x80000F0000" "unat (stack_size (space s)) = 0x10000"
    using assms(1) by (auto simp: program_ready_def program_active_def region_ok_def abi_constants)
  have "unat (stack_base (space s) + o') = unat (stack_base (space s)) + unat o'"
    using reg(1) assms(2) by (intro unat_add_small) simp
  moreover have "unat (of_nat (length bs) :: u64) = length bs"
    using assms(2) by (simp add: unat_of_nat take_bit_nat_eq_self)
  ultimately show "user_range (space s) (stack_base (space s) + o') (of_nat (length bs))"
    using assms(2) reg by (simp add: user_range_def within_def)
qed (use assms(2) in simp)

lemma le_lengths [simp]: "length (le32 w) = 4" "length (le64 q) = 8" "le32 w \<noteq> []" "le64 q \<noteq> []"
  by (simp_all add: le64_def le32_def)

lemma stage_argv_ok:
  assumes "program_ready s" and "args_ready (rt s)" and "set js \<subseteq> {..<8}"
  shows "\<exists>ok t. stage_argv env (stack_base (space s)) js s = Some (ok, t) \<and> stored s t"
  using assms
proof (induction js arbitrary: s)
  case Nil
  then show ?case by auto
next
  case (Cons i js)
  have i: "i < 8" "i < length (rt_argv (rt s))" using Cons.prems by (auto simp: args_ready_def)
  let ?src = "rt_argv (rt s) ! i" and ?slot = "USER_ARGV + 8 * of_nat i"
  show ?case
  proof (cases "?src < arg_buffer_at env \<or> ?src - arg_buffer_at env \<ge> ucast PROCESS_ARG_BUFFER_SIZE")
    case True
    then show ?thesis using i by (intro exI [of _ False] exI [of _ s]) (auto simp: fetch_def Let_def)
  next
    case False
    let ?v = "le64 (stack_base (space s) + USER_ARG_BUFFER + (?src - arg_buffer_at env))"
    have "unat (8 * of_nat i :: u64) = 8 * i"
      using i(1) by (subst unat_mult_small) (simp_all add: unat_of_nat take_bit_nat_eq_self)
    then have "unat ?slot = 32 + 8 * i" using i(1) by (subst unat_add_small) (simp_all add: USER_ARGV_def)
    then obtain t where t: "user_write (stack_base (space s) + ?slot) ?v s = Some t" "stored s t"
      using stack_write [OF Cons.prems(1), of ?slot ?v] i(1) by auto
    note S = stored_same [OF t(2)]
    have "program_ready t" "args_ready (rt t)" "set js \<subseteq> {..<8}" using Cons.prems S by simp_all
    from Cons.IH [OF this] obtain ok u where u: "stage_argv env (stack_base (space s)) js t = Some (ok, u)" "stored t u"
      using S(2) by auto
    have "stage_argv env (stack_base (space s)) (i # js) s = Some (ok, u)"
      using i False t(1) u(1) by (simp add: fetch_def Let_def add.assoc)
    then show ?thesis using stored_trans [OF t(2) u(2)] by blast
  qed
qed

lemma stage_ok:
  assumes r: "program_ready s" and a: "args_ready (rt s)"
  shows "\<exists>ok t. process_stage_user_context env s = Some (ok, t) \<and>
    (\<exists>u. stored s u \<and> (t = u \<or> t = with_runtime (\<lambda>r. r\<lparr>user_info_addr := stack_base (space s)\<rparr>) u))"
proof -
  let ?c = "stack_base (space s)"
  have reg: "unat ?c = 0x80000F0000" "unat (stack_size (space s)) = 0x10000"
    using r by (auto simp: program_ready_def program_active_def region_ok_def abi_constants)
  have "user_range (space s) ?c USER_CONTEXT_SIZE" using reg by (simp add: user_range_def within_def USER_CONTEXT_SIZE_def)
  from ready_memset [OF r this] obtain s1 where
    1: "user_memset ?c 0 (unat USER_CONTEXT_SIZE) s = Some s1" "stored s s1" by blast
  have wr: "\<exists>u. user_write (?c + o') bs t = Some u \<and> stored s u"
    if "stored s t" "unat o' + length bs \<le> 480" "bs \<noteq> []" for t o' bs
    using stack_write [of t o' bs] that stored_same(2,9) [OF that(1)] r stored_trans [OF that(1)] by fastforce
  have a': "length (rt_cwd (rt s)) = 128" "length (rt_arg_buffer (rt s)) = 256" "unat (pi_argc (info (rt s))) \<le> 8"
    using a by (auto simp: args_ready_def word_le_nat_alt)
  then have ne: "rt_cwd (rt s) \<noteq> []" "rt_arg_buffer (rt s) \<noteq> []" by auto
  obtain s2 where 2: "user_write (?c + USER_CWD) (rt_cwd (rt s)) s1 = Some s2" "stored s s2"
    using wr [OF 1(2), of USER_CWD "rt_cwd (rt s)"] a' ne by (auto simp: USER_CWD_def)
  obtain s3 where 3: "user_write (?c + USER_ARG_BUFFER) (rt_arg_buffer (rt s)) s2 = Some s3" "stored s s3"
    using wr [OF 2(2), of USER_ARG_BUFFER "rt_arg_buffer (rt s)"] a' ne by (auto simp: USER_ARG_BUFFER_def)
  note S1 = stored_same [OF 1(2)] and S2 = stored_same [OF 2(2)] and S3 = stored_same [OF 3(2)]
  have "program_ready s3" "args_ready (rt s3)" "set [0..<unat (pi_argc (info (rt s)))] \<subseteq> {..<8}"
    using r a a'(3) S3 by auto
  from stage_argv_ok [OF this, of env, unfolded S3(2)] obtain ok s4 where
    4: "stage_argv env ?c [0..<unat (pi_argc (info (rt s)))] s3 = Some (ok, s4)" "stored s s4"
    using stored_trans [OF 3(2)] by blast
  have size: "\<not> USER_CONTEXT_SIZE > stack_size (space s)"
    using reg(2) by (simp add: USER_CONTEXT_SIZE_def word_less_nat_alt)
  show ?thesis
  proof (cases ok)
    case False
    have "process_stage_user_context env s = Some (False, s4)"
      using size 1(1) 2(1) 3(1) 4(1) False S1(3) S2(3) by (simp add: process_stage_user_context_def Let_def)
    then show ?thesis using 4(2) by blast
  next
    case True
    obtain s5 where 5: "user_write ?c (le32 PROGRAM_INFO_MAGIC) s4 = Some s5" "stored s s5"
      using wr [OF 4(2), of 0 "le32 PROGRAM_INFO_MAGIC"] by auto
    obtain s6 where 6: "user_write (?c + 4) (le32 0) s5 = Some s6" "stored s s6"
      using wr [OF 5(2), of 4 "le32 0"] by auto
    obtain s7 where 7: "user_write (?c + 8) (le64 (pi_argc (info (rt s)))) s6 = Some s7" "stored s s7"
      using wr [OF 6(2), of 8 "le64 (pi_argc (info (rt s)))"] by auto
    obtain s8 where 8: "user_write (?c + 16) (le64 (?c + USER_ARGV)) s7 = Some s8" "stored s s8"
      using wr [OF 7(2), of 16 "le64 (?c + USER_ARGV)"] by auto
    obtain s9 where 9: "user_write (?c + 24) (le64 (?c + USER_CWD)) s8 = Some s9" "stored s s9"
      using wr [OF 8(2), of 24 "le64 (?c + USER_CWD)"] by auto
    have "process_stage_user_context env s = Some (True, with_runtime (\<lambda>r. r\<lparr>user_info_addr := ?c\<rparr>) s9)"
      using size 1(1) 2(1) 3(1) 4(1) True S1(3) S2(3) 5(1) 6(1) 7(1) 8(1) 9(1)
      by (simp add: process_stage_user_context_def Let_def)
    then show ?thesis using 9(2) by blast
  qed
qed

subsection \<open>The segments\<close>

text \<open>The file buffer is apart from the program's pages, so its contents do not change under the copying.\<close>

definition buffer_apart :: "'d kernel_state \<Rightarrow> bool" where
  "buffer_apart s \<longleftrightarrow> (let b = im_file_buffer (pr_image (g_foreground_process s)) in
     unat b + 131072 \<le> 2 ^ 32 \<and> {unat b..<unat b + 131072} \<inter> user_pages (space s) = {})"

lemma buffer_bytes:
  assumes st: "stored s t" and ap: "buffer_apart s" and n: "unat o' + n \<le> 131072"
  shows "ram_bytes (ram t) (im_file_buffer (pr_image (g_foreground_process s)) + o') n =
    ram_bytes (ram s) (im_file_buffer (pr_image (g_foreground_process s)) + o') n"
  unfolding ram_bytes_def
proof (rule map_cong [OF refl])
  let ?b = "im_file_buffer (pr_image (g_foreground_process s))"
  fix i assume "i \<in> set [0..<n]"
  then have i: "i < n" by simp
  have "unat (?b + o' + of_nat i) = unat ?b + unat o' + i"
  proof -
    have 1: "unat (?b + o') = unat ?b + unat o'"
      using ap n by (intro unat_add_small) (simp add: buffer_apart_def Let_def)
    have 2: "unat (of_nat i :: u64) = i" using i n by (simp add: unat_of_nat take_bit_nat_eq_self)
    show ?thesis using ap n i by (subst unat_add_small) (simp_all add: 1 2 buffer_apart_def Let_def)
  qed
  then have "unat (?b + o' + of_nat i) \<in> {unat ?b..<unat ?b + 131072}" using i n by simp
  then have "unat (?b + o' + of_nat i) \<notin> user_pages (space s)"
    using ap unfolding buffer_apart_def Let_def by (meson disjoint_iff)
  then show "ram t (?b + o' + of_nat i) = ram s (?b + o' + of_nat i)" by (rule stored_same(10) [OF st])
qed

definition table_inside :: "'d kernel_state \<Rightarrow> bool" where
  "table_inside s \<longleftrightarrow> (let h = elf_header s in
     unat (e_phoff h) + 56 * unat (e_phnum h) \<le> 131072 \<and> unat (e_phentsize h) = 56)"

lemma headers_kept:
  assumes st: "stored s t" and ap: "buffer_apart s" and tab: "table_inside s"
  shows "elf_header t = elf_header s" "i < unat (e_phnum (elf_header s)) \<Longrightarrow> segment t i = segment s i"
proof -
  have b: "im_file_buffer (pr_image (g_foreground_process t)) = im_file_buffer (pr_image (g_foreground_process s))"
    using stored_same(5) [OF st] by simp
  show h: "elf_header t = elf_header s"
    using buffer_bytes [OF st ap, of 0 64] by (simp add: elf_header_def b ELF_HEADER_SIZE_def)
  assume i: "i < unat (e_phnum (elf_header s))"
  let ?o = "e_phoff (elf_header s) + of_nat i * ucast (e_phentsize (elf_header s)) :: u64"
  have "unat (of_nat i * ucast (e_phentsize (elf_header s)) :: u64) = i * 56"
    using i tab unat_u16_bound [of "e_phnum (elf_header s)"]
    by (subst unat_mult_small) (simp_all add: table_inside_def Let_def unat_of_nat take_bit_nat_eq_self)
  then have "unat ?o = unat (e_phoff (elf_header s)) + i * 56"
    using i tab by (subst unat_add_small) (auto simp: table_inside_def Let_def)
  then have "unat ?o + 56 \<le> 131072" using i tab by (auto simp: table_inside_def Let_def)
  then show "segment t i = segment s i"
    using buffer_bytes [OF st ap, of ?o 56] by (simp add: segment_def h b Let_def ELF_PROGRAM_HEADER_SIZE_def add.assoc)
qed

text \<open>Every loadable segment lies in the image.\<close>

definition segments_inside :: "u32 \<Rightarrow> 'd kernel_state \<Rightarrow> bool" where
  "segments_inside n s \<longleftrightarrow> (\<forall>i < unat (e_phnum (elf_header s)). p_type (segment s i) = PT_LOAD \<longrightarrow>
     segment_ok (unat (image_base (space s))) (unat (image_base (space s)) + unat (image_capacity (space s))) n (segment s i))"

lemma copy_segments_ok:
  assumes "program_ready s" and "buffer_apart s" and "table_inside s" and "segments_inside n s"
  shows "\<exists>t. copy_segments js n s = Some (True, t) \<and> stored s t"
  using assms
proof (induction js arbitrary: s)
  case Nil
  then show ?case by auto
next
  case (Cons i js)
  let ?g = "segment s i"
  show ?case
  proof (cases "i < unat (e_phnum (elf_header s))")
    case False
    then show ?thesis by (auto simp: Let_def)
  next
    case i: True
    show ?thesis
    proof (cases "p_type ?g = PT_LOAD")
      case False
      then show ?thesis using Cons.IH [OF Cons.prems] i by (simp add: Let_def)
    next
      case True
      then have g: "segment_ok (unat (image_base (space s))) (unat (image_base (space s)) + unat (image_capacity (space s))) n ?g"
        using Cons.prems(4) i by (simp add: segments_inside_def)
      have out: "\<not> segment_outside_file ?g n"
      proof -
        have "unat (p_offset ?g) + unat (p_filesz ?g) \<le> unat n" "p_filesz ?g \<le> p_memsz ?g"
          using g by (simp_all add: segment_ok_def)
        moreover from this have "unat (ucast n - p_offset ?g) = unat n - unat (p_offset ?g)"
          by (simp add: unat_diff_small)
        ultimately show ?thesis by (auto simp: segment_outside_file_def word_less_nat_alt word_le_nat_alt not_less)
      qed
      have mem: "user_range (space s) (p_vaddr ?g) (p_memsz ?g)"
        using g by (simp add: segment_ok_def user_range_def within_def)
      have fil: "user_range (space s) (p_vaddr ?g) (p_filesz ?g)"
        using g by (auto simp: segment_ok_def user_range_def within_def word_le_nat_alt)
      obtain s1 where 1: "user_memset (p_vaddr ?g) 0 (unat (p_memsz ?g)) s = Some s1" "stored s s1"
        using ready_memset [OF Cons.prems(1) mem] by blast
      note S1 = stored_same [OF 1(2)]
      have r1: "program_ready s1" using Cons.prems(1) S1 by simp
      let ?src = "im_file_buffer (pr_image (g_foreground_process s)) + p_offset ?g"
      obtain s2 where 2: "user_memcpy (p_vaddr ?g) ?src (unat (p_filesz ?g)) s1 = Some s2" "stored s1 s2"
        using ready_memcpy [OF r1, of "p_vaddr ?g" "p_filesz ?g" ?src] fil S1 by auto
      have st: "stored s s2" by (rule stored_trans [OF 1(2) 2(2)])
      note S = stored_same [OF st] and H = headers_kept [OF st Cons.prems(2,3)]
      have "program_ready s2" "buffer_apart s2" "table_inside s2" "segments_inside n s2"
        using Cons.prems S H by (simp_all add: buffer_apart_def table_inside_def segments_inside_def)
      from Cons.IH [OF this] obtain t where "copy_segments js n s2 = Some (True, t)" "stored s2 t" by blast
      then show ?thesis using i True out 1(1) 2(1) stored_trans [OF st] by (simp add: Let_def)
    qed
  qed
qed

lemma copy_image_ok:
  assumes r: "program_ready s" and rest: "buffer_apart s" "table_inside s" "segments_inside n s"
  shows "\<exists>t. process_copy_image_segments n s = Some (True, with_state PROCESS_STATE_LOADED t) \<and> stored s t"
proof -
  have "user_range (space s) (image_base (space s)) (image_capacity (space s))" by (simp add: user_range_def within_def)
  from ready_memset [OF r this] obtain s1 where
    1: "user_memset (image_base (space s)) 0 (unat (image_capacity (space s))) s = Some s1" "stored s s1" by blast
  note S = stored_same [OF 1(2)] and H = headers_kept [OF 1(2) rest(1,2)]
  have "program_ready s1" "buffer_apart s1" "table_inside s1" "segments_inside n s1"
    using r rest S H by (simp_all add: buffer_apart_def table_inside_def segments_inside_def)
  from copy_segments_ok [OF this, of "[0..<2 ^ 16]"] obtain t where
    "copy_segments [0..<2 ^ 16] n s1 = Some (True, t)" "stored s1 t" by blast
  then show ?thesis using 1 stored_trans [OF 1(2), of t]
    by (intro exI [of _ t]) (simp add: process_copy_image_segments_def del: upt_rec_numeral)
qed

end
