(* ===== verification/ProcessFile.thy ===== *)
theory ProcessFile
  imports ProcessLoad
begin

text \<open>
  \<open>process_load_binary\<close>: from the file on the volume to a program ready to run.
\<close>

subsection \<open>Reading the file\<close>

text \<open>The load context: the destination and capacity stay, and only the buffer of 128 KiB is stored to.\<close>

definition file_ctx :: "u64 \<Rightarrow> (u64 \<Rightarrow> u8) \<Rightarrow> ProcessLoadContext \<times> (u64 \<Rightarrow> u8) \<Rightarrow> bool" where
  "file_ctx dst r0 ctx \<longleftrightarrow> lc_dst (fst ctx) = dst \<and> lc_capacity (fst ctx) = 131072 \<and> lc_size (fst ctx) \<le> 131072 \<and>
     (\<forall>a. unat a \<notin> {unat dst..<unat dst + 131072} \<longrightarrow> snd ctx a = r0 a)"

lemma chunk_ctx:
  assumes c: "file_ctx dst r0 ctx" and d: "unat dst + 131072 \<le> 2 ^ 32"
    and room: "unat (lc_size (fst ctx)) + unat len < 2 ^ 32"
  shows "file_ctx dst r0 (snd (process_file_chunk_copy data len ctx))"
    "fst (process_file_chunk_copy data len ctx) \<Longrightarrow>
      lc_size (fst (snd (process_file_chunk_copy data len ctx))) = lc_size (fst ctx) + len"
proof -
  obtain l r where ctx: "ctx = (l, r)" by fastforce
  have size: "unat (lc_size l) \<le> 131072" "lc_dst l = dst" "lc_capacity l = 131072"
    using c by (auto simp: ctx file_ctx_def word_le_nat_alt)
  have plus: "unat (lc_size l + len) = unat (lc_size l) + unat len"
    using room by (intro unat_add_small) (simp add: ctx)
  show "fst (process_file_chunk_copy data len ctx) \<Longrightarrow>
      lc_size (fst (snd (process_file_chunk_copy data len ctx))) = lc_size (fst ctx) + len"
    by (simp add: process_file_chunk_copy_def ctx split: if_splits)
  show "file_ctx dst r0 (snd (process_file_chunk_copy data len ctx))"
  proof (cases "lc_size l + len > lc_capacity l")
    case True
    then show ?thesis using c by (simp add: process_file_chunk_copy_def ctx)
  next
    case False
    then have fit: "unat (lc_size l) + unat len \<le> 131072" using plus size(3) by (simp add: word_less_nat_alt)
    have at: "unat (dst + ucast (lc_size l)) = unat dst + unat (lc_size l)"
      using size d by (subst unat_add_small) simp_all
    let ?bs = "take (unat len) data"
    have "ram_write (dst + ucast (lc_size l)) ?bs r a = r0 a" if a: "unat a \<notin> {unat dst..<unat dst + 131072}" for a
    proof -
      have len: "length ?bs \<le> unat len" by simp
      have "ram_write (dst + ucast (lc_size l)) ?bs r a = r a"
        by (rule ram_write_outside) (use a fit len d size in \<open>auto simp: at simp del: length_take\<close>)
      also have "\<dots> = r0 a" using c a by (simp add: ctx file_ctx_def)
      finally show ?thesis .
    qed
    then show ?thesis using False fit plus size by (simp add: process_file_chunk_copy_def ctx file_ctx_def word_le_nat_alt)
  qed
qed

lemma read_loop_ctx:
  fixes v :: "'d fat_state"
  assumes "read_file_loop (fs_read_adapter process_file_chunk_copy) remaining cluster ctx v = Some (res, ctx', v')"
    and "file_ctx dst r0 ctx" and "unat dst + 131072 \<le> 2 ^ 32"
    and "unat (lc_size (fst ctx)) + unat remaining < 2 ^ 32"
  shows "file_ctx dst r0 ctx'"
proof -
  let ?P = "\<lambda>cb remaining (cluster :: u32) ctx (v :: 'd fat_state) y. cb = fs_read_adapter process_file_chunk_copy \<longrightarrow>
      file_ctx dst r0 ctx \<longrightarrow> unat (lc_size (fst ctx)) + unat remaining < 2 ^ 32 \<longrightarrow> file_ctx dst r0 (fst (snd y))"
  have "?P cb remaining cluster ctx v y" if "read_file_loop cb remaining cluster ctx v = Some y"
    for cb remaining cluster ctx y and v :: "'d fat_state"
  proof (rule read_file_loop.raw_induct [of ?P, OF _ that])
    fix loop :: "_ \<Rightarrow> _ \<Rightarrow> _ \<Rightarrow> _ \<Rightarrow> 'd fat_state \<Rightarrow> _" and cb remaining cluster ctx y and v :: "'d fat_state"
    assume IH: "\<And>cb remaining cluster ctx v y. loop cb remaining cluster ctx v = Some y \<Longrightarrow> ?P cb remaining cluster ctx v y"
      and body: "(if remaining > 0 \<and> in_chain cluster then
        case read_cluster cluster v of (ok, s1) \<Rightarrow>
          if \<not> ok then Some (FAT32_IO_ERROR, ctx, s1)
          else let chunk = (if g_cluster_size v > remaining then remaining else g_cluster_size v) in
            case cb (take (unat chunk) (g_cluster_buffer s1)) chunk ctx of (go, context') \<Rightarrow>
              if \<not> go then Some (FAT32_IO_ERROR, context', s1)
              else loop cb (remaining - chunk) (fat32_next_cluster cluster s1) context' s1
      else Some (if remaining = 0 then FAT32_OK else FAT32_IO_ERROR, ctx, v)) = Some y"
    obtain res ctx' v' where y: "y = (res, ctx', v')" by (metis prod_cases3)
    show "?P cb remaining cluster ctx v y"
    proof (intro impI)
      assume cb: "cb = fs_read_adapter process_file_chunk_copy" and c: "file_ctx dst r0 ctx"
        and room: "unat (lc_size (fst ctx)) + unat remaining < 2 ^ 32"
      note step = body [unfolded y]
      obtain ok s1 where rc: "read_cluster cluster v = (ok, s1)" by fastforce
      let ?chunk = "if g_cluster_size v > remaining then remaining else g_cluster_size v"
      obtain go ctx1 where cc: "process_file_chunk_copy (take (unat ?chunk) (g_cluster_buffer s1)) ?chunk ctx = (go, ctx1)"
        by (rule prod.exhaust)
      have small: "?chunk \<le> remaining" by auto
      then have "unat (lc_size (fst ctx)) + unat ?chunk < 2 ^ 32" using room by (simp add: word_le_nat_alt)
      note C = chunk_ctx [OF c assms(3) this, of "take (unat ?chunk) (g_cluster_buffer s1)", unfolded cc, simplified]
      show "file_ctx dst r0 (fst (snd y))"
      proof (cases "remaining > 0 \<and> in_chain cluster \<and> ok \<and> go")
        case False
        then show ?thesis using step c C(1) by (auto simp: y rc cb cc fs_read_adapter_def Let_def split: if_splits)
      next
        case True
        then have rec: "loop cb (remaining - ?chunk) (fat32_next_cluster cluster s1) ctx1 s1 = Some (res, ctx', v')"
          using step by (simp add: rc cb cc fs_read_adapter_def Let_def)
        have "unat (lc_size (fst ctx1)) + unat (remaining - ?chunk) < 2 ^ 32"
        proof -
          have "unat (remaining - ?chunk) = unat remaining - unat ?chunk" "unat ?chunk \<le> unat remaining"
            using small by (simp_all add: unat_diff_small word_le_nat_alt)
          moreover have "unat (lc_size (fst ctx1)) \<le> unat (lc_size (fst ctx)) + unat ?chunk"
            using C(2) True by (simp add: unat_word_ariths)
          ultimately show ?thesis using room by linarith
        qed
        then show ?thesis using IH [OF rec] cb C(1) by (simp add: y)
      qed
    qed
  qed
  from this [OF assms(1)] assms(2,4) show ?thesis by simp
qed

lemma read_file_ctx:
  fixes v :: "'d fat_state"
  assumes "fs_read_file p (Some process_file_chunk_copy) ctx v = Some (res, ctx', v')"
    and c: "file_ctx dst r0 ctx" and d: "unat dst + 131072 \<le> 2 ^ 32" and z: "lc_size (fst ctx) = 0"
  shows "file_ctx dst r0 ctx'"
proof -
  obtain res' where "fat32_read_file p (fs_read_adapter process_file_chunk_copy) ctx v = Some (res', ctx', v')"
    using assms(1) by (auto simp: fs_read_file_def split: Option.bind_splits)
  moreover have "file_ctx dst r0 ctx'"
    if "read_file_loop (fs_read_adapter process_file_chunk_copy) remaining cluster ctx v1 = Some (r, ctx', v2)"
    for remaining cluster r v2 and v1 :: "'d fat_state"
    using read_loop_ctx [OF that c d] z unat_u32_bound [of remaining] by simp
  ultimately show ?thesis
    using c by (auto simp: fat32_read_file_def split: if_splits sum.splits option.splits Option.bind_splits)
qed

subsection \<open>What a phase of a run leaves alone\<close>

text \<open>Between two states: pages may only come back, everything outside the pages that were free or the
  program's is as it was, and the kernel's view and root are the same.\<close>

definition progress :: "'d kernel_state \<Rightarrow> 'd kernel_state \<Rightarrow> bool" where
  "progress s t \<longleftrightarrow> owns t \<and> console_ok t \<and> total t \<subseteq> total s \<and>
     (roomy (pg_mem (paging t)) \<longrightarrow> total t = total s) \<and>
     paging_current_root (paging t) = paging_current_root (paging s) \<and> g_pml4 (paging t) = g_pml4 (paging s) \<and>
     translate (pg_tables (paging t)) (g_pml4 (paging t)) = translate (pg_tables (paging s)) (g_pml4 (paging s)) \<and>
     in_port t = in_port s \<and> g_active_process t = g_active_process s \<and>
     (\<forall>a. unat a \<notin> total s \<longrightarrow> ram t a = ram s a) \<and> only_looked (volume s) (volume t)"

lemma progressD:
  assumes "progress s t"
  shows "owns t" "console_ok t" "total t \<subseteq> total s" "roomy (pg_mem (paging t)) \<Longrightarrow> total t = total s"
    "paging_current_root (paging t) = paging_current_root (paging s)" "g_pml4 (paging t) = g_pml4 (paging s)"
    "translate (pg_tables (paging t)) (g_pml4 (paging t)) = translate (pg_tables (paging s)) (g_pml4 (paging s))"
    "in_port t = in_port s" "g_active_process t = g_active_process s" "unat a \<notin> total s \<Longrightarrow> ram t a = ram s a"
    "only_looked (volume s) (volume t)"
  using assms unfolding progress_def by blast+

lemma progress_refl: "owns s \<Longrightarrow> console_ok s \<Longrightarrow> progress s s"
  by (simp add: progress_def)

lemma progress_lossless: "progress s t \<Longrightarrow> total t = total s \<Longrightarrow> progress t u \<Longrightarrow> progress s u"
  unfolding progress_def using only_looked_trans by auto

lemma progress_gives:
  assumes p: "progress s t" and g: "gives t u"
  shows "progress s u"
proof -
  note G = g [unfolded gives_def] and P = progressD [OF p]
  have k: "keeps t u" using G by blast
  note K = keepsD [OF k]
  have "paging_current_root (paging u) = paging_current_root (paging t)"
    by (simp add: paging_current_root_def read_cr3_def K(6))
  moreover have "roomy (pg_mem (paging u)) \<longrightarrow> total u = total s" using G P(4) by auto
  moreover have "total u \<subseteq> total s" using G P(3) by blast
  moreover have "\<forall>a. unat a \<notin> total s \<longrightarrow> ram u a = ram s a" using K(1) P(10) by simp
  moreover have "only_looked (volume s) (volume u)" using K(2) P(11) by simp
  ultimately show ?thesis unfolding progress_def using G P K by simp
qed

lemma progress_kept:
  assumes "keeps s t" and "owns t" and "console_ok s" and "total t \<subseteq> total s"
    and "roomy (pg_mem (paging t)) \<longrightarrow> total t = total s"
  shows "progress s t"
proof -
  note K = keepsD [OF assms(1)]
  have "paging_current_root (paging t) = paging_current_root (paging s)"
    by (simp add: paging_current_root_def read_cr3_def K(6))
  then show ?thesis unfolding progress_def using assms K by simp
qed

text \<open>A stretch on the program's tables: only its pages change.\<close>

definition worked :: "'d kernel_state \<Rightarrow> 'd kernel_state \<Rightarrow> bool" where
  "worked s t \<longleftrightarrow> console_ok t \<and> (paging t)\<lparr>cr3 := 0\<rparr> = (paging s)\<lparr>cr3 := 0\<rparr> \<and> space t = space s \<and>
     pr_image (g_foreground_process t) = pr_image (g_foreground_process s) \<and> in_port t = in_port s \<and> volume t = volume s \<and>
     g_active_process t = g_active_process s \<and> (\<forall>a. unat a \<notin> user_pages (space s) \<longrightarrow> ram t a = ram s a)"

lemma worked_trans: "worked s t \<Longrightarrow> worked t u \<Longrightarrow> worked s u"
  by (simp add: worked_def)

lemma worked_refl: "console_ok s \<Longrightarrow> worked s s"
  by (simp add: worked_def)

lemma paging_but_cr3:
  assumes "p\<lparr>cr3 := 0\<rparr> = q\<lparr>cr3 := 0\<rparr>"
  shows "pg_mem p = pg_mem q" "pg_tables p = pg_tables q" "g_pml4 p = g_pml4 q"
    "holds R bs p = holds R bs q" "pages_of R bs p = pages_of R bs q" "sees a p = sees a q"
proof -
  show 1: "pg_mem p = pg_mem q" "pg_tables p = pg_tables q" "g_pml4 p = g_pml4 q"
    using arg_cong [OF assms, of pg_mem] arg_cong [OF assms, of pg_tables] arg_cong [OF assms, of g_pml4] by simp_all
  show "holds R bs p = holds R bs q" "pages_of R bs p = pages_of R bs q"
    using arg_cong [OF assms, of "holds R bs"] arg_cong [OF assms, of "pages_of R bs"] by simp_all
  show "sees a p = sees a q" by (simp add: sees_def 1)
qed

lemma user_pages_total:
  assumes "image_backing (space s) \<noteq> 0" and "stack_backing (space s) \<noteq> 0"
  shows "user_pages (space s) \<subseteq> total s"
  using assms by (auto simp: user_pages_def total_def pages_of_def held_def blocks_of_def)

lemma worked_progress:
  assumes r: "worked s t" and "owns s" and c: "paging_current_root (paging t) = paging_current_root (paging s)"
    and "image_backing (space s) \<noteq> 0" "stack_backing (space s) \<noteq> 0"
  shows "progress s t" "total t = total s"
proof -
  have p: "(paging t)\<lparr>cr3 := 0\<rparr> = (paging s)\<lparr>cr3 := 0\<rparr>" using r by (simp add: worked_def)
  note P = paging_but_cr3 [OF p]
  have o: "owns t" "total t = total s" using assms(2) r P by (simp_all add: owns_def total_def worked_def)
  show "total t = total s" by (rule o(2))
  have "\<forall>a. unat a \<notin> total s \<longrightarrow> ram t a = ram s a"
    using user_pages_total [OF assms(4,5)] r by (auto simp: worked_def)
  then show "progress s t" unfolding progress_def using o r c P by (simp add: worked_def)
qed

lemma with_root_worked:
  assumes "console_ok s"
  shows "worked s (with_root R s)"
  using assms by (auto simp: worked_def with_root_def paging_activate_root_def Let_def load_cr3_def)

lemma stored_worked: "stored s t \<Longrightarrow> console_ok s \<Longrightarrow> worked s t"
  using stored_same [of s t] by (simp add: worked_def)

lemma say_false_worked:
  fixes t :: "'d kernel_state"
  assumes "worked s t"
  shows "\<exists>u. say_false str t = Some (False, u) \<and> worked s u \<and> paging u = paging t \<and> rt u = rt t"
proof -
  have "console_ok t" using assms by (simp add: worked_def)
  then obtain u where u: "say_false str t = Some (False, u)" "console_ok u" "moves t u" using say_false_ok by blast
  have "worked t u" using u(2) moves_kernel [OF u(3)] moves_same(7) [OF u(3)] by (simp add: worked_def)
  then show ?thesis using u worked_trans [OF assms] moves_kernel [OF u(3)] by auto
qed

lemma kernel_root_back:
  assumes "g_pml4 p \<noteq> 0" and "g_pml4 p AND PAGE_TABLE_ADDR_MASK = g_pml4 p"
  shows "paging_current_root (paging_activate_root (g_pml4 p) q) = g_pml4 p"
  using assms by (simp add: paging_activate_root_def Let_def paging_current_root_def read_cr3_def load_cr3_def)

subsection \<open>On the program's tables\<close>

definition image_ready :: "u32 \<Rightarrow> 'd kernel_state \<Rightarrow> bool" where
  "image_ready n s \<longleftrightarrow> buffer_apart s \<and> table_inside s \<and> segments_inside n s"

lemma load_into_space_ok:
  fixes s :: "'d kernel_state"
  assumes o: "owns s" and c: "console_ok s" and R: "page_table_root (space s) \<noteq> 0" and reg: "region_ok (space s)"
    and se: "sees (space s) (paging s)" and b: "backed (space s)" and a: "args_ready (rt s)" and im: "image_ready n s"
    and cur: "paging_current_root (paging s) = g_pml4 (paging s)" "g_pml4 (paging s) \<noteq> 0"
  shows "\<exists>ok t. load_into_space env n s = Some (ok, t) \<and> worked s t \<and> paging_current_root (paging t) = g_pml4 (paging s)"
proof -
  let ?s1 = "with_root (page_table_root (space s)) s" and ?prev = "g_pml4 (paging s)"
  have mask: "?prev AND PAGE_TABLE_ADDR_MASK = ?prev"
    using cur(1) by (metis paging_current_root_def and.assoc and.idem)
  have same: "space ?s1 = space s" "rt ?s1 = rt s" "ram ?s1 = ram s" "g_foreground_process ?s1 = g_foreground_process s"
    by (simp_all add: with_root_def)
  have r1: "program_ready ?s1" using with_root_active [OF o R reg se] b by (simp add: program_ready_def same)
  have ran1: "worked s ?s1" by (rule with_root_worked [OF c])
  have c1: "console_ok ?s1" using ran1 by (simp add: worked_def)
  have im1: "image_ready n ?s1"
    using im elf_cong [of ?s1 s] by (simp add: image_ready_def buffer_apart_def table_inside_def segments_inside_def same)
  have home: "worked s (with_root ?prev u) \<and> paging_current_root (paging (with_root ?prev u)) = ?prev"
    if "worked s u" for u :: "'d kernel_state"
  proof -
    have "worked u (with_root ?prev u)" using that by (intro with_root_worked) (simp add: worked_def)
    then show ?thesis
      using worked_trans [OF that] kernel_root_back [OF cur(2) mask] by (simp add: with_root_def)
  qed
  have split_run: "load_into_space env n s = do {
        (ok, s) \<leftarrow> process_stage_user_context env ?s1;
        if \<not> ok then do { s \<leftarrow> say ''program user context setup failed'' s; Some (False, with_root ?prev s) }
        else do {
          (ok, s) \<leftarrow> process_copy_image_segments n s;
          if \<not> ok then do { s \<leftarrow> say ''program image copy failed'' s; Some (False, with_root ?prev s) }
          else Some (True, with_root ?prev s) } }"
    by (simp add: load_into_space_def Let_def cur(1))
  have "args_ready (rt ?s1)" using a by (simp add: same)
  from stage_ok [OF r1 this, of env] obtain ok t u where
    st: "process_stage_user_context env ?s1 = Some (ok, t)" "stored ?s1 u"
      "t = u \<or> t = with_runtime (\<lambda>r. r\<lparr>user_info_addr := stack_base (space ?s1)\<rparr>) u" by blast
  note U = stored_same [OF st(2)]
  have t: "worked s t" "space t = space u" "paging t = paging u" "ram t = ram u" "console_ok t"
      "pr_image (g_foreground_process t) = pr_image (g_foreground_process u)"
    using st(3) worked_trans [OF ran1 stored_worked [OF st(2) c1]] c1 U(6) by (auto simp: worked_def)
  show ?thesis
  proof (cases ok)
    case False
    obtain w where w: "say ''program user context setup failed'' t = Some w" "console_ok w" "moves t w"
      using say_ok [OF t(5)] by blast
    have "worked t w" using w moves_kernel [OF w(3)] moves_same(7) [OF w(3)] by (simp add: worked_def)
    from home [OF worked_trans [OF t(1) this]] show ?thesis
      using st(1) w(1) False by (intro exI [of _ False] exI [of _ "with_root ?prev w"]) (simp add: split_run)
  next
    case True
    note H = headers_kept [OF st(2)]
    have im1': "buffer_apart ?s1" "table_inside ?s1" "segments_inside n ?s1" using im1 by (simp_all add: image_ready_def)
    have e: "elf_header t = elf_header u" "segment t i = segment u i" for i
      using elf_cong [of t u] t by simp_all
    have "program_ready t"
      using U(9) r1 t by (simp add: program_ready_def program_active_def)
    moreover have "buffer_apart t" "table_inside t" "segments_inside n t"
      using im1' H [OF im1'(1,2)] U t e
      by (simp_all add: buffer_apart_def table_inside_def segments_inside_def)
    ultimately obtain w where w: "process_copy_image_segments n t = Some (True, with_state PROCESS_STATE_LOADED w)" "stored t w"
      using copy_image_ok by blast
    have w1: "worked t w" by (rule stored_worked [OF w(2) t(5)])
    then have "worked w (with_state PROCESS_STATE_LOADED w)" by (simp add: worked_def)
    then have "worked s (with_state PROCESS_STATE_LOADED w)" by (rule worked_trans [OF worked_trans [OF t(1) w1]])
    note fin = home [OF this]
    have "load_into_space env n s = Some (True, with_root ?prev (with_state PROCESS_STATE_LOADED w))"
      unfolding split_run st(1) Option.bind.bind_lunit prod.case w(1) using True by simp
    then show ?thesis using fin by blast
  qed
qed

subsection \<open>The whole of \<open>process_load_binary\<close>\<close>

lemma progress_say:
  fixes s t :: "'d kernel_state"
  assumes p: "progress s t"
  shows "\<exists>u. say_false msg t = Some (False, u) \<and> progress s u \<and> g_foreground_process u = g_foreground_process t"
    "\<exists>u. say msg t = Some u \<and> progress s u \<and> g_foreground_process u = g_foreground_process t \<and> total u = total t"
proof -
  obtain u where u: "say msg t = Some u" "console_ok u" "moves t u" using say_ok progressD(2) [OF p] by blast
  note K = moves_kernel [OF u(3)]
  have "progress s u"
    unfolding progress_def K owns_moves [OF u(3)] moves_same(7) [OF u(3)]
    by (intro conjI u(2) progressD [OF p] allI impI)
  then show "\<exists>u. say_false msg t = Some (False, u) \<and> progress s u \<and> g_foreground_process u = g_foreground_process t"
    "\<exists>u. say msg t = Some u \<and> progress s u \<and> g_foreground_process u = g_foreground_process t \<and> total u = total t"
    using u(1) K owns_moves [OF u(3)] by (auto simp: say_false_def)
qed

definition load_pre :: "'d kernel_state \<Rightarrow> bool" where
  "load_pre s \<longleftrightarrow> kernel_runs s \<and> no_memory s \<and> file_buffer (space s) \<noteq> 0 \<and>
     im_file_buffer (pr_image (g_foreground_process s)) = file_buffer (space s) \<and>
     file_capacity (space s) = 131072 \<and> file_page_count (space s) = 32 \<and>
     stack_base (space s) = PROCESS_ABI_STACK_BASE \<and> stack_size (space s) = PROCESS_ABI_STACK_SIZE \<and>
     stack_page_count (space s) = 16 \<and> args_ready (rt s)"

lemma file_block:
  assumes "owns s" and "total s \<subseteq> {..<2 ^ 32}" and "file_buffer (space s) \<noteq> 0" and "file_page_count (space s) = 32"
  shows "unat (file_buffer (space s)) + 131072 \<le> 2 ^ 32"
    "{unat (file_buffer (space s))..<unat (file_buffer (space s)) + 131072} \<subseteq> total s"
    "{unat (file_buffer (space s))..<unat (file_buffer (space s)) + 131072} \<inter> user_pages (space s) = {} \<or>
       image_backing (space s) = 0 \<or> stack_backing (space s) = 0"
proof -
  let ?a = "space s"
  have m: "(file_buffer ?a, 32) \<in> set (blocks_of ?a)" using assms(3,4) by (simp add: blocks_of_def)
  show "unat (file_buffer ?a) + 131072 \<le> 2 ^ 32" using block_below(2) [OF assms(1,2) m] by simp
  have span: "block_set (file_buffer ?a) 32 = {unat (file_buffer ?a)..<unat (file_buffer ?a) + 131072}"
    by (simp add: block_set_def)
  show "{unat (file_buffer ?a)..<unat (file_buffer ?a) + 131072} \<subseteq> total s"
    using m unfolding span [symmetric] by (auto simp: total_def pages_of_def held_def)
  have "sorted_wrt (\<lambda>b c. span_of b \<inter> span_of c = {}) (blocks_of ?a)"
    using assms(1) holdsD(5) by (simp add: owns_def)
  then show "{unat (file_buffer ?a)..<unat (file_buffer ?a) + 131072} \<inter> user_pages ?a = {} \<or>
       image_backing ?a = 0 \<or> stack_backing ?a = 0"
    using assms(3,4) unfolding span [symmetric] by (auto simp: blocks_of_def user_pages_def)
qed

lemma quiet_progress:
  fixes s t :: "'d kernel_state"
  assumes q: "quiet s t" and n: "no_memory s" and o: "owns s"
  shows "progress s t" "total t = total s" "no_memory t" "file_buffer (space t) = file_buffer (space s)"
    "file_page_count (space t) = file_page_count (space s)" "stack_base (space t) = stack_base (space s)"
    "stack_size (space t) = stack_size (space s)" "stack_page_count (space t) = stack_page_count (space s)"
proof -
  have e: "(space t)\<lparr>image_base := 0, image_capacity := 0, image_page_count := 0\<rparr> =
      (space s)\<lparr>image_base := 0, image_capacity := 0, image_page_count := 0\<rparr>" using q by (simp add: quiet_def)
  note A = arg_cong [OF e, of image_backing] arg_cong [OF e, of stack_backing] arg_cong [OF e, of page_table_root]
    arg_cong [OF e, of file_buffer] arg_cong [OF e, of file_page_count] arg_cong [OF e, of stack_base]
    arg_cong [OF e, of stack_size] arg_cong [OF e, of stack_page_count]
  show "no_memory t" "file_buffer (space t) = file_buffer (space s)"
    "file_page_count (space t) = file_page_count (space s)" "stack_base (space t) = stack_base (space s)"
    "stack_size (space t) = stack_size (space s)" "stack_page_count (space t) = stack_page_count (space s)"
    using A n by (simp_all add: no_memory_def)
  have b: "blocks_of (space t) = blocks_of (space s)" using A n by (simp add: blocks_of_def no_memory_def)
  have p: "paging t = paging s" using q by (simp add: quiet_def)
  show tot: "total t = total s" using A p b by (simp add: total_def)
  have "owns t" using A p b o by (simp add: owns_def)
  then show "progress s t" using q tot by (simp add: progress_def quiet_def)
qed

text \<open>From a complete file in the buffer on.\<close>

definition load_rest :: "process_env \<Rightarrow> u32 \<Rightarrow> 'd kernel_state \<Rightarrow> (bool \<times> 'd kernel_state) option" where
  "load_rest env n s = do {
     (ok, s) \<leftarrow> process_configure_image_layout env n s;
     if \<not> ok then Some (False, s)
     else do {
       (ok, s) \<leftarrow> process_prepare_address_space s;
       if \<not> ok then say_false ''program address space setup failed'' s
       else load_into_space env n s } }"

definition loaded :: "'d kernel_state \<Rightarrow> bool \<Rightarrow> 'd kernel_state \<Rightarrow> bool" where
  "loaded s ok t \<longleftrightarrow> progress s t \<and> (ok \<longrightarrow> total t = total s \<and> page_table_root (space t) \<noteq> 0 \<and>
     image_backing (space t) \<noteq> 0 \<and> stack_backing (space t) \<noteq> 0 \<and> region_ok (space t) \<and>
     sees (space t) (paging t) \<and> backed (space t))"

lemma load_rest_ok:
  fixes s :: "'d kernel_state"
  assumes pre: "load_pre s" and n: "n \<le> 131072"
  shows "\<exists>ok t. load_rest env n s = Some (ok, t) \<and> loaded s ok t"
proof -
  have k: "kernel_runs s" "no_memory s" "owns s" "console_ok s" "total s \<subseteq> {..<2 ^ 32}"
    using pre by (simp_all add: load_pre_def kernel_runs_def)
  obtain ok1 s1 where c: "process_configure_image_layout env n s = Some (ok1, s1)" "quiet s s1"
      "ok1 \<longrightarrow> layout_ok env n s1" using configure_ok [OF k(4), of env n] pre by (auto simp: load_pre_def)
  note Q = quiet_progress [OF c(2) k(2,3)]
  show ?thesis
  proof (cases ok1)
    case False
    then show ?thesis using c(1) Q(1) by (intro exI [of _ False] exI [of _ s1]) (simp add: load_rest_def loaded_def)
  next
    case ok1: True
    note lay = c(3) [rule_format, OF ok1, unfolded layout_ok_def Let_def]
    have runs: "kernel_runs s1"
      using k(1) progressD [OF Q(1)] Q(2) by (simp add: kernel_runs_def)
    have reg: "region_ok (space s1)" using lay Q(6-8) pre by (auto simp: region_ok_def load_pre_def)
    obtain ok2 s2 where p: "process_prepare_address_space s1 = Some (ok2, s2)" "prepared s1 ok2 s2"
      using prepare_ok [OF runs reg Q(3)] by blast
    have c1: "console_ok s1" using runs by (simp add: kernel_runs_def)
    show ?thesis
    proof (cases ok2)
      case False
      then have "failed s1 s2" using p(2) by (simp add: prepared_def)
      then have "progress s1 s2" using c1 by (intro progress_kept) (simp_all add: failed_def)
      then have "progress s s2" by (rule progress_lossless [OF Q(1,2)])
      from progress_say(1) [OF this, of "''program address space setup failed''"] show ?thesis
        using c(1) p(1) ok1 False by (auto simp: load_rest_def loaded_def)
    next
      case ok2: True
      then have P: "takes s1 s2" "page_table_root (space s2) \<noteq> 0" "image_backing (space s2) \<noteq> 0"
          "stack_backing (space s2) \<noteq> 0" "sees (space s2) (paging s2)"
        using p(2) by (simp_all add: prepared_def)
      have o2: "owns s2" "total s2 = total s1" and kp: "keeps s1 s2" using P(1) by (simp_all add: takes_def)
      note K = keepsD [OF kp] and A = rest_ofD [OF keepsD(9) [OF kp]]
      have fb: "im_file_buffer (pr_image (g_foreground_process s2)) = file_buffer (space s2)"
          "file_buffer (space s2) \<noteq> 0" "file_page_count (space s2) = 32"
        using P(1) c(2) pre Q(4,5) A(3) by (simp_all add: takes_def quiet_def load_pre_def)
      have low: "total s2 \<subseteq> {..<2 ^ 32}" using o2(2) Q(2) k(5) by simp
      have reg2: "region_ok (space s2)" using reg unfolding region_ok_def A .
      have pages: "4096 * unat (image_page_count (space s2)) = unat (image_capacity (space s2))"
          "4096 * unat (stack_page_count (space s2)) = unat (stack_size (space s2))"
        using reg2 by (simp_all add: region_ok_def abi_constants)
      have b: "backed (space s2)"
        using block_below(2) [OF o2(1) low, of "image_backing (space s2)" "image_page_count (space s2)"]
          block_below(2) [OF o2(1) low, of "stack_backing (space s2)" "stack_page_count (space s2)"] P(3,4)
        unfolding pages by (simp add: backed_def blocks_of_def)
      note F = file_block [OF o2(1) low fb(2,3)]
      have e: "elf_header s2 = elf_header s1" "segments s2 = segments s1"
        using elf_cong [of s2 s1] K(1) P(1) by (simp_all add: takes_def)
      have im: "image_ready n s2"
      proof -
        have "buffer_apart s2" using F(1,3) P(3,4) by (simp add: buffer_apart_def fb(1))
        moreover have "table_inside s2" using lay n by (simp add: table_inside_def e word_le_nat_alt)
        moreover have "segments_inside n s2"
          unfolding segments_inside_def
        proof (intro allI impI)
          fix i assume i: "i < unat (e_phnum (elf_header s2))" "p_type (segment s2 i) = PT_LOAD"
          then have "segment s2 i \<in> set (segments s1)" unfolding e(2) [symmetric] by (simp add: segments_def)
          then show "segment_ok (unat (image_base (space s2)))
              (unat (image_base (space s2)) + unat (image_capacity (space s2))) n (segment s2 i)"
            using lay i(2) by (simp add: A)
        qed
        ultimately show ?thesis by (simp add: image_ready_def)
      qed
      have args: "args_ready (rt s2)" using K(4) c(2) pre by (simp add: quiet_def load_pre_def)
      have cur: "paging_current_root (paging s2) = g_pml4 (paging s2)"
        using runs K(6,7) by (simp add: kernel_runs_def paging_current_root_def read_cr3_def)
      have nz: "g_pml4 (paging s2) \<noteq> 0"
        using tree_page [OF kernel_okD(2) [OF holdsD(1)], of _ _ _ "[]"] o2(1) by (simp add: owns_def page_ok_def)
      have c2: "console_ok s2" using K(8) c1 by simp
      obtain ok t where l: "load_into_space env n s2 = Some (ok, t)" "worked s2 t"
          "paging_current_root (paging t) = g_pml4 (paging s2)"
        using load_into_space_ok [OF o2(1) c2 P(2) reg2 P(5) b args im cur nz] by blast
      have "progress s1 s2" using kp o2 c1 by (intro progress_kept) simp_all
      then have 12: "progress s s2" by (rule progress_lossless [OF Q(1,2)])
      have tot2: "total s2 = total s" using o2(2) Q(2) by simp
      have cur': "paging_current_root (paging t) = paging_current_root (paging s2)" using l(3) cur by simp
      note W = worked_progress [OF l(2) o2(1) cur' P(3,4)]
      have "progress s t" by (rule progress_lossless [OF 12 tot2 W(1)])
      moreover have "space t = space s2" "(paging t)\<lparr>cr3 := 0\<rparr> = (paging s2)\<lparr>cr3 := 0\<rparr>" using l(2) by (simp_all add: worked_def)
      moreover from this have "sees (space t) (paging t)" using P(5) paging_but_cr3(6) by metis
      ultimately have "loaded s ok t" using W(2) tot2 P reg2 b by (simp add: loaded_def)
      then show ?thesis using c(1) p(1) ok1 ok2 l(1) by (simp add: load_rest_def)
    qed
  qed
qed

lemma process_load_binary_ok:
  fixes s :: "'d kernel_state"
  assumes pre: "load_pre s" and v: "readable view (volume s)" "length p < FS_NAME_CAPACITY"
  shows "\<exists>ok t. process_load_binary env p s = Some (ok, t) \<and> loaded s ok t"
proof -
  have k: "owns s" "console_ok s" "total s \<subseteq> {..<2 ^ 32}" using pre by (simp_all add: load_pre_def kernel_runs_def)
  obtain r v1 where st: "fs_stat (Some p) True (volume s) = Some (r, v1)" and v1: "only_looked (volume s) v1"
    using fs_stat_returns [OF v] by blast
  let ?s1 = "s\<lparr>volume := v1\<rparr>"
  have p1: "progress s ?s1" using k v1 by (simp add: progress_def owns_def total_def)
  show ?thesis
  proof (cases r)
    case (Inl e)
    then show ?thesis using st p1 by (intro exI [of _ False] exI [of _ ?s1]) (simp add: process_load_binary_def loaded_def)
  next
    case (Inr node)
    have fail: ?thesis if "process_load_binary env p s = say_false msg t" "progress s t" for msg t
      using progress_say(1) [OF that(2), of msg] that(1) by (auto simp: loaded_def)
    show ?thesis
    proof (cases "fs_type node \<noteq> FS_NODE_FILE \<or> ucast (fs_size node) > file_capacity (space s)")
      case True
      then show ?thesis
        using fail [of "''program path is not a file''" ?s1] fail [of "''program too large''" ?s1] p1 st Inr
        by (auto simp: process_load_binary_def Let_def)
    next
      case False
      let ?dst = "file_buffer (space s)"
      let ?ctx = "(\<lparr>lc_dst = ?dst, lc_capacity = 131072, lc_size = 0\<rparr>, ram_write ?dst (replicate 131072 0) (ram s))"
      obtain res ctx v2 where r2: "fs_read_file (Some p) (Some process_file_chunk_copy) ?ctx v1 = Some (res, ctx, v2)"
          and v2: "only_looked v1 v2"
        using fs_read_file_returns [OF only_looked_readable [OF v1 v(1)], of p process_file_chunk_copy ?ctx] by blast
      note F = file_block [OF k(1,3)]
      have fb: "unat ?dst + 131072 \<le> 2 ^ 32" "{unat ?dst..<unat ?dst + 131072} \<subseteq> total s"
        using F pre by (simp_all add: load_pre_def)
      have "file_ctx ?dst (ram s) ?ctx"
        using fb(1) by (auto simp: file_ctx_def intro!: ram_write_outside)
      from read_file_ctx [OF r2 this fb(1)] have c: "file_ctx ?dst (ram s) ctx" by simp
      obtain l m where ctx: "ctx = (l, m)" by fastforce
      let ?s2 = "s\<lparr>ram := m, volume := v2\<rparr>"
      have m: "\<forall>a. unat a \<notin> total s \<longrightarrow> m a = ram s a"
      proof (intro allI impI)
        fix a :: u64 assume "unat a \<notin> total s"
        then have "unat a \<notin> {unat ?dst..<unat ?dst + 131072}" using fb(2) by blast
        then show "m a = ram s a" using c by (simp add: file_ctx_def ctx)
      qed
      have p2: "progress s ?s2" "total ?s2 = total s" using k m only_looked_trans [OF v1 v2] by (simp_all add: progress_def owns_def total_def)
      have "owns ?s2 = owns s" "total ?s2 = total s" by (simp_all add: owns_def total_def)
      then have pre2: "load_pre ?s2"
        using pre by (simp add: load_pre_def kernel_runs_def no_memory_def)
      have run: "process_load_binary env p s =
          (if res \<noteq> FS_OK then say_false ''program read failed'' ?s2
           else if lc_size l \<noteq> fs_size node then say_false ''program size mismatch'' ?s2
           else load_rest env (lc_size l) ?s2)"
        using st Inr False pre r2 unfolding process_load_binary_def load_rest_def
        by (simp add: Let_def load_pre_def ctx)
      show ?thesis
      proof (cases "res \<noteq> FS_OK \<or> lc_size l \<noteq> fs_size node")
        case True
        then show ?thesis
          using fail [of "''program read failed''" ?s2] fail [of "''program size mismatch''" ?s2] p2(1) run by auto
      next
        case False
        have "lc_size l \<le> 131072" using c by (simp add: file_ctx_def ctx)
        from load_rest_ok [OF pre2 this, of env] obtain ok t where t: "load_rest env (lc_size l) ?s2 = Some (ok, t)" "loaded ?s2 ok t"
          by blast
        then have "loaded s ok t" using progress_lossless [OF p2] p2(2) by (simp add: loaded_def)
        then show ?thesis using t(1) run False by simp
      qed
    qed
  qed
qed

end
