(* ===== verification/ProcessDemo.thy ===== *)
theory ProcessDemo
  imports ProcessUser
begin

text \<open>
  A program loaded on a small machine: 64 free pages, a kernel with an empty tree, an image of one page. The
  states the theorems about running programs are applied to.
\<close>

definition demo_pool :: paging_state where
  "demo_pool = machine 0x10000 64 (\<lambda>_ _. 0)"

definition demo_start :: "ramdisk kernel_state" where
  "demo_start = demo_program\<lparr>paging := demo_pool\<rparr>"

lemma pool_take: "k \<noteq> 0 \<Longrightarrow> k < n \<Longrightarrow> alloc_pages k (pool b n) = (b, pool (b + k * 0x1000) (n - k))"
  by (simp add: alloc_pages_def pool_def PAGE_SIZE_def Let_def word_le_nat_alt word_less_nat_alt) auto

lemma machine_take: "k \<noteq> 0 \<Longrightarrow> k < n \<Longrightarrow> paging (s :: 'd kernel_state) = machine b n T \<Longrightarrow>
    b' = b + k * 0x1000 \<Longrightarrow> n' = n - k \<Longrightarrow> k_alloc_pages k s = (b, s\<lparr>paging := machine b' n' T\<rparr>)"
  by (simp add: k_alloc_pages_def machine_def pool_take)

lemma demo_create: "paging_create_address_space demo_pool = (0x10000, machine 0x11000 63 (\<lambda>_ _. 0))"
proof -
  have a: "alloc_page_table demo_pool = (0x10000, machine 0x11000 63 (\<lambda>_ _. 0))"
    using machine_alloc [of 64 "0x10000" "\<lambda>_ _. 0"] by (simp add: demo_pool_def fun_upd_idem)
  have f: "fold (\<lambda>i s. set_entry 0x10000 i (entry_of s (g_pml4 s) i) s) xs (machine 0x11000 63 (\<lambda>_ _. 0)) =
      machine 0x11000 63 (\<lambda>_ _. 0)" for xs
    by (induction xs) (simp_all add: machine_simps fun_upd_idem)
  show ?thesis
    by (simp add: paging_create_address_space_def a PAGE_TABLE_ENTRIES_def f del: upt_rec_numeral)
      (simp add: demo_pool_def machine_simps)
qed

text \<open>The root at \<open>0x10000\<close>, the image at \<open>0x11000\<close>, the stack from \<open>0x12000\<close>, then three tables.\<close>

definition demo_tables :: tables where
  "demo_tables = (\<lambda>_ _. 0)(0x10000 := (\<lambda>_. 0)(1 := 0x22007), 0x22000 := (\<lambda>_. 0)(0 := 0x23007),
     0x23000 := (\<lambda>_. 0)(0 := 0x24007), 0x24000 := (\<lambda>_. 0)(0 := 0x11007))"

lemma demo_image_page: "map_page_4k 0x10000 0x8000000000 0x11000 True True True (machine 0x22000 46 (\<lambda>_ _. 0)) =
   (True, machine 0x25000 43 demo_tables)"
  by (simp add: paging_eval demo_tables_def del: flag_tests)

lemma demo_maps_image: "paging_map_user_range 0x10000 0x8000000000 0x11000 0x1000 True True (machine 0x22000 46 (\<lambda>_ _. 0)) =
   Some (True, machine 0x25000 43 demo_tables)"
  by (simp add: paging_map_user_range_def map_range_in_root_def
    PAGE_TABLE_ADDR_MASK_def align_down_uintptr_def align_up_uintptr_def PAGE_SIZE_def map_loop.simps demo_image_page PAGE_SIZE_4K_def paging_current_root_def read_cr3_def paging_align_down_page_def paging_align_up_page_def machine_simps del: paging_align)

text \<open>With the chain of tables there, a page of the region is one entry.\<close>

definition chained :: "tables \<Rightarrow> bool" where
  "chained T \<longleftrightarrow> T 0x10000 1 = 0x22007 \<and> T 0x22000 0 = 0x23007 \<and> T 0x23000 0 = 0x24007"

lemma chained_page:
  assumes "chained T" and "pml4_index v = 1" and "pdpt_index v = 0" and "pd_index v = 0"
  shows "\<exists>T'. map_page_4k 0x10000 v p True x True (machine b n T) = (True, machine b n T') \<and> chained T'"
  using assms by (auto simp: paging_eval chained_def simp del: flag_tests)

lemma chained_loop:
  assumes "chained T" and "k \<le> 16" and "j = 16 - k"
  shows "\<exists>T'. map_loop 0x10000 (0x80000F0000 + of_nat j * 0x1000) p 0x8000100000 True False True (machine b n T) =
    Some (True, machine b n T')"
  using assms
proof (induction k arbitrary: j p T)
  case 0
  then show ?case by (simp add: map_loop.simps machine_def)
next
  case (Suc k)
  let ?v = "0x80000F0000 + of_nat j * 0x1000 :: u64"
  have j: "j = 0 \<or> j = 1 \<or> j = 2 \<or> j = 3 \<or> j = 4 \<or> j = 5 \<or> j = 6 \<or> j = 7 \<or> j = 8 \<or> j = 9 \<or>
      j = 10 \<or> j = 11 \<or> j = 12 \<or> j = 13 \<or> j = 14 \<or> j = 15" using Suc.prems by presburger
  then have v: "?v < 0x8000100000" "pml4_index ?v = 1" "pdpt_index ?v = 0" "pd_index ?v = 0"
    by (elim disjE; simp add: pml4_index_def pdpt_index_def pd_index_def)+
  obtain T' where T': "map_page_4k 0x10000 ?v p True False True (machine b n T) = (True, machine b n T')" "chained T'"
    using chained_page [OF Suc.prems(1) v(2-4)] by blast
  have e: "?v + PAGE_SIZE_4K = 0x80000F0000 + of_nat (Suc j) * 0x1000"
    by (simp add: PAGE_SIZE_4K_def algebra_simps)
  have IH: "\<exists>T''. map_loop 0x10000 (0x80000F0000 + of_nat (Suc j) * 0x1000) (p + PAGE_SIZE_4K) 0x8000100000
      True False True (machine b n T') = Some (True, machine b n T'')"
    by (rule Suc.IH [OF T'(2)]) (use Suc.prems in auto)
  show ?case
    by (subst map_loop.simps) (simp only: v(1) T'(1) if_True prod.case not_True_eq_False if_False e IH)
qed

lemma demo_maps_stack: "\<exists>T. paging_map_user_range 0x10000 0x80000F0000 0x12000 0x10000 True False (machine 0x25000 43 demo_tables) =
   Some (True, machine 0x25000 43 T)"
proof -
  have "chained demo_tables" by (simp add: chained_def demo_tables_def)
  from chained_loop [OF this order_refl, of 0 "0x12000" "0x25000" 43] obtain T where
    "map_loop 0x10000 0x80000F0000 0x12000 0x8000100000 True False True (machine 0x25000 43 demo_tables) =
      Some (True, machine 0x25000 43 T)" by auto
  then show ?thesis
    by (intro exI [of _ T]) (simp add: paging_map_user_range_def map_range_in_root_def
      PAGE_TABLE_ADDR_MASK_def PAGE_SIZE_4K_def paging_current_root_def read_cr3_def paging_align_down_page_def
      paging_align_up_page_def machine_simps del: paging_align)
qed

lemma demo_start_space:
  "page_table_root (space demo_start) = 0" "image_base (space demo_start) = 0x8000000000"
  "image_capacity (space demo_start) = 0x1000" "image_page_count (space demo_start) = 1"
  "stack_base (space demo_start) = 0x80000F0000" "stack_size (space demo_start) = 0x10000"
  "stack_page_count (space demo_start) = 16" "paging demo_start = demo_pool"
  by (simp_all add: demo_start_def demo_program_def process_init_def process_prepare_runtime_def process_reset_fields_def
      process_zero_def Let_def with_space_def with_state_def with_runtime_def bytes_to_pages_def PAGE_SIZE_def
      PROCESS_ABI_STACK_SIZE_def PROCESS_ABI_STACK_BASE_def PROCESS_ABI_STACK_TOP_def PROCESS_ABI_REGION_END_def)

lemma demo_start_prepares: "\<exists>s'. process_prepare_address_space demo_start = Some (True, s')"
proof -
  let ?s1 = "with_space (\<lambda>a. a\<lparr>page_table_root := 0x10000\<rparr>) (demo_start\<lparr>paging := machine 0x11000 63 (\<lambda>_ _. 0)\<rparr>)"
  have 1: "k_alloc_pages 1 ?s1 = (0x11000, ?s1\<lparr>paging := machine 0x12000 62 (\<lambda>_ _. 0)\<rparr>)"
    by (rule machine_take) simp_all
  let ?s2 = "with_space (\<lambda>a. a\<lparr>image_backing := 0x11000\<rparr>) (?s1\<lparr>paging := machine 0x12000 62 (\<lambda>_ _. 0)\<rparr>)"
  have 2: "k_alloc_pages 16 ?s2 = (0x12000, ?s2\<lparr>paging := machine 0x22000 46 (\<lambda>_ _. 0)\<rparr>)"
    by (rule machine_take) simp_all
  let ?s3 = "with_space (\<lambda>a. a\<lparr>stack_backing := 0x12000\<rparr>) (?s2\<lparr>paging := machine 0x22000 46 (\<lambda>_ _. 0)\<rparr>)"
  obtain T where T: "paging_map_user_range 0x10000 0x80000F0000 0x12000 0x10000 True False (machine 0x25000 43 demo_tables) =
   Some (True, machine 0x25000 43 T)" using demo_maps_stack by blast
  have "prepare_maps ?s3 = Some (True, ?s3\<lparr>paging := machine 0x25000 43 T\<rparr>)"
    by (simp add: prepare_maps_def process_map_def demo_start_space demo_maps_image T)
  then show ?thesis
    using 1 2 by (simp add: prepare_split demo_start_space demo_create Let_def)
qed


subsection \<open>The small machine is sound\<close>

lemma demo_pool_ok: "holds 0 [] demo_pool" "pages_of 0 [] demo_pool \<subseteq> {..<2 ^ 32}"
proof -
  have m: "mem_inv (pool 0x10000 64)" "free_set (g_free_ranges (pool 0x10000 64)) = {0x10000..<0x50000}"
    by (auto simp: pool_def mem_inv_def ranges_ok_def range_ok_def free_set_def lo_def hi_def MEMORY_MAX_FREE_RANGES_def)
  have t: "tables_of (pg_tables demo_paging) (g_pml4 demo_paging) \<subseteq> {0x1000}"
  proof
    fix t assume "t \<in> tables_of (pg_tables demo_paging) (g_pml4 demo_paging)"
    then obtain p where "table_at (pg_tables demo_paging) (g_pml4 demo_paging) p = Some t" by (auto simp: tables_of_def)
    then show "t \<in> {0x1000}" by (cases p) (auto simp: demo_paging_def is_table_def split: if_splits)
  qed
  then have sp: "spans (pg_tables demo_paging) (g_pml4 demo_paging) \<subseteq> {0x1000..<0x2000}"
    by (auto simp: spans_tables block_set_def)
  have "demo_pool = demo_paging\<lparr>pg_mem := pool 0x10000 64\<rparr>"
    by (simp add: demo_pool_def machine_def demo_paging_def)
  then have k: "kernel_ok demo_pool"
    using kernel_ok_mem [OF demo_kernel_ok m(1)] sp m(2) by fastforce
  then show "holds 0 [] demo_pool" by (simp add: holds_def)
  show "pages_of 0 [] demo_pool \<subseteq> {..<2 ^ 32}"
    using m(2) by (auto simp: pages_of_def held_def held_tables_def avail_def demo_pool_def machine_simps)
qed

lemma demo_start_runs: "kernel_runs demo_start" "region_ok (space demo_start)" "no_memory demo_start"
proof -
  note D = demo_program_runs
  have "space demo_start = space demo_program" by (simp add: demo_start_def)
  then show "region_ok (space demo_start)" "no_memory demo_start" using D by (simp_all add: no_memory_def)
  have b: "blocks_of (space demo_start) = []"
    by (simp add: demo_start_def demo_program_def process_init_def process_prepare_runtime_def process_reset_fields_def
      process_zero_def blocks_of_def Let_def with_space_def with_state_def with_runtime_def)
  have c: "console_ok demo_start" using D(1) by (simp add: demo_start_def kernel_runs_def)
  have "paging_current_root demo_pool = g_pml4 demo_pool"
    by (simp add: demo_pool_def machine_simps paging_current_root_def read_cr3_def PAGE_TABLE_ADDR_MASK_def)
  then show "kernel_runs demo_start"
    using demo_pool_ok c by (simp add: kernel_runs_def owns_def total_def demo_start_space b)
qed

text \<open>The program at work, Enter held on the keyboard.\<close>

definition demo_ready :: "ramdisk kernel_state" where
  "demo_ready = snd (the (process_prepare_address_space demo_start))"

definition enter_ports :: "nat \<Rightarrow> u16 \<Rightarrow> u8" where
  "enter_ports t p = (if p = SERIAL_LINE_STATUS_PORT then 0x21 else if p = SERIAL_DATA_PORT then 13
     else if p = KEYBOARD_STATUS_PORT then 1 else 0x1C)"

definition demo_running :: "ramdisk kernel_state" where
  "demo_running = (with_root (page_table_root (space demo_ready)) demo_ready)\<lparr>g_active_process := True, in_port := enter_ports\<rparr>"

lemma demo_ready_prepared: "prepared demo_start True demo_ready"
proof -
  obtain s' where s': "process_prepare_address_space demo_start = Some (True, s')" using demo_start_prepares by blast
  then have "prepared demo_start True s'" using prepare_ok [OF demo_start_runs] by auto
  then show ?thesis using s' by (simp add: demo_ready_def)
qed

lemma demo_running_ok: "g_active_process demo_running" "program_active demo_running" "console_ok demo_running"
  "enter_held 0 demo_running"
proof -
  note P = demo_ready_prepared [unfolded prepared_def, simplified]
  have k: "keeps demo_start demo_ready" "owns demo_ready" using P by (simp_all add: takes_def)
  have "region_ok (space demo_ready)"
    using demo_start_runs(2) unfolding region_ok_def rest_ofD [OF keepsD(9) [OF k(1)]] .
  then have "program_active (with_root (page_table_root (space demo_ready)) demo_ready)"
    using with_root_active [OF k(2)] P by blast
  then show "program_active demo_running"
    by (simp add: demo_running_def program_active_def with_root_def)
  have "console_ok demo_ready" using keepsD(8) [OF k(1)] demo_start_runs(1) by (simp add: kernel_runs_def)
  then show "console_ok demo_running" by (simp add: demo_running_def with_root_def console_ok_def fits_def)
  show "g_active_process demo_running" by (simp add: demo_running_def)
  show "enter_held 0 demo_running"
    by (simp add: demo_running_def enter_held_def enter_ports_def SERIAL_LINE_STATUS_PORT_def SERIAL_DATA_PORT_def
      KEYBOARD_STATUS_PORT_def KEYBOARD_DATA_PORT_def)
qed

definition demo_frame :: TrapFrame where
  "demo_frame = \<lparr>tf_rsp = 0, tf_rax = 2, tf_rbx = 0, tf_rcx = 0, tf_rdx = 0, tf_rbp = 0, tf_rdi = 0x8000000100,
     tf_rsi = 16, tf_r8 = 0, tf_r9 = 0, tf_r10 = 0, tf_r11 = 0, tf_r12 = 0, tf_r13 = 0, tf_r14 = 0, tf_r15 = 0,
     tf_vector = PROGRAM_SYSCALL_VECTOR, tf_error_code = 0, tf_rip = 0, tf_cs = 0x1B, tf_rflags = 0\<rparr>"


theorem process_prepare_address_space_maps_witness:
  "\<exists>s'. process_prepare_address_space demo_start = Some (True, s') \<and> owns s' \<and> keeps demo_start s' \<and>
    page_table_root (space s') \<noteq> 0 \<and> total s' = total demo_start \<and> sees (space s') (paging s')"
  using process_prepare_address_space_maps [OF demo_start_runs] demo_start_prepares by auto

lemma demo_running_space:
  "image_base (space demo_running) = 0x8000000000" "image_capacity (space demo_running) = 0x1000"
proof -
  have "keeps demo_start demo_ready" using demo_ready_prepared by (simp add: prepared_def takes_def)
  note R = rest_ofD [OF keepsD(9) [OF this]]
  have "space demo_running = space demo_ready" by (simp add: demo_running_def with_root_def)
  then show "image_base (space demo_running) = 0x8000000000" "image_capacity (space demo_running) = 0x1000"
    using R(4,5) demo_start_space by simp_all
qed

theorem process_handle_syscall_checks_witness:
  "\<exists>v s1 line. process_handle_syscall (Some demo_frame) demo_running =
      Some (True, Some (demo_frame\<lparr>tf_rax := v\<rparr>), s1\<lparr>ram :=
        ram_write (user_phys (space demo_running) 0x8000000100) line (ram demo_running)\<rparr>) \<and>
    v < 16 \<and> length line = 16 \<and> line ! unat v = 0"
proof -
  have f: "tf_rdi demo_frame = 0x8000000100" "tf_rsi demo_frame = 16" "syscall_number demo_frame = 2"
    by (simp_all add: demo_frame_def syscall_number_def)
  have "\<not> refused (space demo_running) demo_frame"
    by (simp add: refused_def syscall_numbers f user_range_def within_def demo_running_space)
  then show ?thesis
    using process_handle_syscall_checks [OF demo_running_ok, of demo_frame] by (auto simp: f syscall_numbers)
qed

end
