(* ===== verification/ProcessRun.thy ===== *)
theory ProcessRun
  imports ProcessFile ProcessDemo
begin

text \<open>
  Running a program: whatever it does between \<open>program_invoke\<close> and its exit or fault, and the whole of
  \<open>process_run_foreground\<close>.
\<close>

subsection \<open>Stores of the program\<close>

text \<open>The walk uses the low 48 bits of an address only.\<close>

lemma translate_low: "translate T R (v AND mask 48) = translate T R v"
proof -
  have m: "(v AND mask 48) AND mask n = v AND mask n" if "n \<le> 48" for n
    using that by (auto intro!: bit_word_eqI simp: bit_and_iff bit_mask_iff)
  have x: "length p \<le> 4 \<Longrightarrow> xlate T t p (v AND mask 48) = xlate T t p v" for t p
  proof (induction p arbitrary: t)
    case (Cons i p)
    then have "leaf_phys (length p) (T t i) (v AND mask 48) = leaf_phys (length p) (T t i) v"
      unfolding leaf_phys_def by (subst m) simp_all
    then show ?case using Cons by (simp add: leaf_mapping_def)
  qed simp
  have d: "drop_bit n (v AND mask 48) AND 0x1FF = drop_bit n v AND 0x1FF" if "n \<le> 39" for n
  proof -
    have e: "(0x1FF :: u64) = mask 9" by (simp add: mask_eq_exp_minus_1)
    show ?thesis unfolding e using that
      by (auto intro!: bit_word_eqI simp: bit_and_iff bit_mask_iff bit_drop_bit_eq)
  qed
  have "drop_bit 39 (v AND mask 48) AND 0x1FF = drop_bit 39 v AND 0x1FF"
    "drop_bit 30 (v AND mask 48) AND 0x1FF = drop_bit 30 v AND 0x1FF"
    "drop_bit 21 (v AND mask 48) AND 0x1FF = drop_bit 21 v AND 0x1FF"
    "drop_bit 12 (v AND mask 48) AND 0x1FF = drop_bit 12 v AND 0x1FF" by (rule d, simp)+
  then have "path (v AND mask 48) = path v"
    unfolding path_def pml4_index_def pdpt_index_def pd_index_def pt_index_def by (simp only:)
  then show ?thesis using x [of "path v" R] by (simp add: translate_def)
qed

lemma low_bound: "unat (v AND mask 48 :: u64) < 2 ^ 48"
proof -
  have "v AND mask 48 = take_bit 48 v" by (simp add: take_bit_eq_mask)
  then show ?thesis using take_bit_nat_less_exp [of 48 "unat v"] by (simp add: unsigned_take_bit_eq)
qed

text \<open>Nothing of the kernel's own mapping is open to user mode, as \<open>paging_init\<close> leaves it.\<close>

definition kernel_private :: "paging_state \<Rightarrow> bool" where
  "kernel_private p \<longleftrightarrow> (\<forall>v m. translate (pg_tables p) (g_pml4 p) v = Some m \<longrightarrow> \<not> m_user m)"

lemma user_store_confined:
  assumes r: "program_ready s" and priv: "kernel_private (paging s)"
    and tr: "active_translation s v = Some m" and u: "m_user m"
  shows "unat (m_phys m) \<in> user_pages (space s)"
proof -
  let ?a = "space s" and ?w = "v AND mask 48"
  have reg: "region_ok ?a" and b: "backed ?a" and act: "program_active s" using r by (simp_all add: program_ready_def program_active_def)
  have page: "unat (image_page_count ?a) * 4096 = unat (image_capacity ?a)" "unat (stack_page_count ?a) * 4096 = unat (stack_size ?a)"
    using reg by (auto simp: region_ok_def abi_constants)
  have "translate (pg_tables (paging s)) (page_table_root ?a) ?w = Some m"
    using tr act by (simp add: active_translation_def program_active_def translate_low)
  then have t: "Some m = (if in_image ?a ?w then Some (mapped (image_base ?a) (image_backing ?a) True True True ?w)
      else if in_stack ?a ?w then Some (mapped (stack_base ?a) (stack_backing ?a) True True False ?w)
      else translate (pg_tables (paging s)) (g_pml4 (paging s)) ?w)"
    using act low_bound [of v] by (simp add: program_active_def sees_def)
  consider (1) "in_image ?a ?w" | (2) "\<not> in_image ?a ?w" "in_stack ?a ?w"
    using t priv u by (cases "in_image ?a ?w"; cases "in_stack ?a ?w") (auto simp: kernel_private_def)
  then show ?thesis
  proof cases
    case 1
    then have o: "unat (?w - image_base ?a) = unat ?w - unat (image_base ?a)"
      by (auto simp: in_image_def unat_diff_small word_le_nat_alt)
    have "unat (image_backing ?a + (?w - image_base ?a)) = unat (image_backing ?a) + (unat ?w - unat (image_base ?a))"
      using 1 b unfolding o [symmetric] by (intro unat_add_small) (auto simp: o in_image_def backed_def)
    then show ?thesis using t 1 page(1) by (auto simp: mapped_def user_pages_def block_set_def in_image_def)
  next
    case 2
    then have o: "unat (?w - stack_base ?a) = unat ?w - unat (stack_base ?a)"
      by (auto simp: in_stack_def unat_diff_small word_le_nat_alt)
    have "unat (stack_backing ?a + (?w - stack_base ?a)) = unat (stack_backing ?a) + (unat ?w - unat (stack_base ?a))"
      using 2 b unfolding o [symmetric] by (intro unat_add_small) (auto simp: o in_stack_def backed_def)
    then show ?thesis using t 2 page(2) by (auto simp: mapped_def user_pages_def block_set_def in_stack_def)
  qed
qed

subsection \<open>Traps\<close>

lemma syscall_works:
  fixes s :: "'d kernel_state"
  assumes a: "g_active_process s" "program_ready s" "console_ok s" "enter_held T s"
    and f: "syscall_number f \<noteq> PROGRAM_SYSCALL_EXIT"
  shows "\<exists>g t. process_handle_syscall (Some f) s = Some (True, Some g, t) \<and> worked s t \<and> paging t = paging s \<and> rt t = rt s"
proof -
  have act: "program_active s" and b: "backed (space s)" and reg: "region_ok (space s)"
    using a(2) by (simp_all add: program_ready_def program_active_def)
  have mv: "worked s t \<and> paging t = paging s \<and> rt t = rt s" if "console_ok t" "moves s t" for t :: "'d kernel_state"
    using that moves_kernel [OF that(2)] moves_same(7) [OF that(2)] by (simp add: worked_def)
  consider "refused (space s) f" | "syscall_number f = PROGRAM_SYSCALL_WRITE" "user_range (space s) (tf_rdi f) (tf_rsi f)"
    | "syscall_number f = PROGRAM_SYSCALL_READ_LINE" "user_range (space s) (tf_rdi f) (tf_rsi f)" "tf_rsi f \<noteq> 0"
    using f by (auto simp: refused_def syscall_numbers)
  then show ?thesis
  proof cases
    case 1
    then show ?thesis using syscall_refused [OF a(1) 1] worked_refl [OF a(3)] by blast
  next
    case 2
    then show ?thesis using syscall_write [OF a(1) act a(3) 2] mv by blast
  next
    case 3
    from syscall_read_line [OF a(1) act a(3,4) 3] obtain n line s1 where
      r: "process_handle_syscall (Some f) s = Some (True, Some (f\<lparr>tf_rax := n\<rparr>),
        s1\<lparr>ram := ram_write (user_phys (space s) (tf_rdi f)) line (ram s)\<rparr>)"
      and s1: "console_ok s1" "moves s s1" and l: "length line = unat (tf_rsi f)" by blast
    note P = user_phys_pages [OF reg b 3(2,3)]
    have "ram_write (user_phys (space s) (tf_rdi f)) line (ram s) a = ram s a" if "unat a \<notin> user_pages (space s)" for a
      by (rule ram_write_outside) (use P l that in auto)
    then have "worked s (s1\<lparr>ram := ram_write (user_phys (space s) (tf_rdi f)) line (ram s)\<rparr>)"
      using mv [OF s1] by (simp add: worked_def)
    then show ?thesis using r mv [OF s1] by auto
  qed
qed

text \<open>How a list of actions of the program ends: by a fault, or by EXIT with a status.\<close>

fun outcome :: "user_act list \<Rightarrow> u32 option" where
  "outcome [] = None"
| "outcome (UserStore v b # acts) = outcome acts"
| "outcome (UserTrap f # acts) =
     (if tf_vector f \<noteq> PROGRAM_SYSCALL_VECTOR then Some 0xFFFFFFFF
      else if syscall_number f = PROGRAM_SYSCALL_EXIT then Some (ucast (tf_rdi f)) else outcome acts)"

definition from_user_mode :: "user_act list \<Rightarrow> bool" where
  "from_user_mode acts \<longleftrightarrow> (\<forall>f. UserTrap f \<in> set acts \<longrightarrow> tf_cs f AND 3 = 3)"

lemma finish_worked:
  "console_ok s \<Longrightarrow> worked s (process_finish_exit c s)" "paging (process_finish_exit c s) = paging s"
  "exit_requested (rt (process_finish_exit c s))" "exit_status (rt (process_finish_exit c s)) = c"
  "g_active_process (process_finish_exit c s) = g_active_process s"
  by (simp_all add: process_finish_exit_def worked_def)

lemma program_run_ok:
  fixes s :: "'d kernel_state"
  assumes "program_ready s" and "kernel_private (paging s)" and "console_ok s" and "enter_held T s"
    and "g_active_process s" and "\<not> exit_requested (rt s)" and "from_user_mode acts"
  shows "case outcome acts of None \<Rightarrow> program_run acts s = None
    | Some c \<Rightarrow> \<exists>t. program_run acts s = Some (1, t) \<and> worked s t \<and> paging t = paging s \<and>
        exit_requested (rt t) \<and> exit_status (rt t) = c"
  using assms
proof (induction acts arbitrary: s)
  case Nil
  then show ?case by simp
next
  case (Cons act acts)
  have user: "from_user_mode acts" using Cons.prems(7) by (auto simp: from_user_mode_def)
  have go: "case outcome acts of None \<Rightarrow> program_run acts t = None
    | Some c \<Rightarrow> \<exists>u. program_run acts t = Some (1, u) \<and> worked s u \<and> paging u = paging s \<and>
        exit_requested (rt u) \<and> exit_status (rt u) = c"
    if t: "worked s t" "paging t = paging s" "rt t = rt s" for t :: "'d kernel_state"
  proof -
    have "program_ready t" "kernel_private (paging t)" "console_ok t" "enter_held T t" "g_active_process t"
        "\<not> exit_requested (rt t)"
      using t Cons.prems by (simp_all add: worked_def program_ready_def program_active_def enter_held_def)
    from Cons.IH [OF this user] show ?thesis
      using t worked_trans [OF t(1)] by (fastforce split: option.splits)
  qed
  show ?case
  proof (cases act)
    case (UserStore v b)
    let ?t = "case active_translation s v of None \<Rightarrow> s
      | Some m \<Rightarrow> if m_user m \<and> m_writable m then s\<lparr>ram := (ram s)(m_phys m := b)\<rparr> else s"
    have w: "worked s ?t"
      using worked_refl [OF Cons.prems(3)] user_store_confined [OF Cons.prems(1,2), of v] Cons.prems(3)
      by (auto simp: worked_def split: option.splits)
    have "paging ?t = paging s" "rt ?t = rt s" by (simp_all split: option.splits)
    from go [OF w this] show ?thesis unfolding UserStore outcome.simps program_run.simps .
  next
    case (UserTrap f)
    have cs: "tf_cs f AND 3 = 3" using Cons.prems(7) by (simp add: from_user_mode_def UserTrap)
    consider (fault) "tf_vector f \<noteq> PROGRAM_SYSCALL_VECTOR"
      | (exit) "tf_vector f = PROGRAM_SYSCALL_VECTOR" "syscall_number f = PROGRAM_SYSCALL_EXIT"
      | (other) "tf_vector f = PROGRAM_SYSCALL_VECTOR" "syscall_number f \<noteq> PROGRAM_SYSCALL_EXIT" by blast
    then show ?thesis
    proof cases
      case fault
      have "interrupt_dispatch (Some f) s = Some (ReturnToKernel, process_finish_exit 0xFFFFFFFF s)"
        using fault cs Cons.prems(5) finish_worked(3) [where s = s] finish_worked(5) [where s = s]
        by (simp add: interrupt_dispatch_def process_handle_fault_def process_should_return_to_kernel_def)
      then show ?thesis using fault finish_worked [where s = s and c = "0xFFFFFFFF"] Cons.prems(3) by (simp add: UserTrap)
    next
      case exit
      have "interrupt_dispatch (Some f) s = Some (ReturnToKernel, process_finish_exit (ucast (tf_rdi f)) s)"
        using exit syscall_exit [OF Cons.prems(5) exit(2)] Cons.prems(5) finish_worked(3) [where s = s] finish_worked(5) [where s = s]
        by (simp add: interrupt_dispatch_def process_should_return_to_kernel_def)
      then show ?thesis using exit finish_worked [where s = s and c = "ucast (tf_rdi f)"] Cons.prems(3) by (simp add: UserTrap)
    next
      case other
      obtain g t where t: "process_handle_syscall (Some f) s = Some (True, Some g, t)" "worked s t" "paging t = paging s" "rt t = rt s"
        using syscall_works [OF Cons.prems(5,1,3,4) other(2)] by blast
      have "interrupt_dispatch (Some f) s = Some (Resume (Some g), t)"
        using other t Cons.prems(6) by (simp add: interrupt_dispatch_def process_should_return_to_kernel_def)
      then have "program_run (act # acts) s = program_run acts t" "outcome (act # acts) = outcome acts"
        using other by (simp_all add: UserTrap)
      with go [OF t(2-4)] show ?thesis by (simp only:)
    qed
  qed
qed


subsection \<open>The whole run\<close>

lemma drop_space [simp]:
  "page_table_root (space (drop_root t)) = 0" "image_backing (space (drop_root t)) = image_backing (space t)"
  "stack_backing (space (drop_root t)) = stack_backing (space t)" "file_buffer (space (drop_root t)) = file_buffer (space t)"
  "image_backing (space (drop_image t)) = 0" "stack_backing (space (drop_stack t)) = 0" "file_buffer (space (drop_file t)) = 0"
  "image_backing (space (drop_stack t)) = image_backing (space t)" "image_backing (space (drop_file t)) = image_backing (space t)"
  "stack_backing (space (drop_file t)) = stack_backing (space t)" "stack_backing (space (drop_image t)) = stack_backing (space t)"
  by (simp_all add: drop_root_def drop_image_def drop_stack_def drop_file_def)

text \<open>Nothing is held any more.\<close>

definition holds_nothing :: "'d kernel_state \<Rightarrow> bool" where
  "holds_nothing s \<longleftrightarrow> no_memory s \<and> file_buffer (space s) = 0"

lemma nothing_held: "holds_nothing s \<Longrightarrow> owns s = holds 0 [] (paging s)" "holds_nothing s \<Longrightarrow> total s = avail (paging s)"
  by (simp_all add: holds_nothing_def no_memory_def owns_def total_def blocks_of_def pages_of_def held_def held_tables_def)

lemma release_progress:
  fixes s t :: "'d kernel_state"
  assumes p: "progress s t"
  shows "progress s (process_release_address_space t)" "holds_nothing (process_release_address_space t)"
proof -
  let ?a = "drop_image t" and ?b = "drop_stack (drop_image t)" and ?c = "drop_file (drop_stack (drop_image t))"
  let ?d = "drop_root ?c"
  have o: "owns t" by (rule progressD(1) [OF p])
  have a: "gives t ?a" using drop_image_ok [OF o] by blast
  then have b: "gives ?a ?b" using drop_stack_ok [of ?a] by (simp add: gives_def)
  then have c: "gives ?b ?c" using drop_file_ok [of ?b] by (simp add: gives_def)
  then have d: "gives ?c ?d" using drop_root_ok [of ?c] by (simp add: gives_def)
  have "progress s ?d"
    by (rule progress_gives [OF p gives_trans [OF a gives_trans [OF b gives_trans [OF c d]]]])
  moreover have run: "process_release_address_space t = with_runtime (\<lambda>r. r\<lparr>user_info_addr := 0\<rparr>) ?d"
    by (rule cleanup_steps(2))
  moreover have "progress s (with_runtime h u) = progress s u" for h and u :: "'d kernel_state"
    by (simp add: progress_def owns_def total_def)
  ultimately show "progress s (process_release_address_space t)" by simp
  show "holds_nothing (process_release_address_space t)"
    unfolding run by (simp add: holds_nothing_def no_memory_def)
qed

text \<open>The kernel between two programs.\<close>

definition idle :: "'d kernel_state \<Rightarrow> bool" where
  "idle s \<longleftrightarrow> console_ok s \<and> holds 0 [] (paging s) \<and> avail (paging s) \<subseteq> {..<2 ^ 32} \<and>
     paging_current_root (paging s) = g_pml4 (paging s) \<and> kernel_private (paging s) \<and> \<not> g_active_process s"

text \<open>What a run may change, whatever the program did: the console, the process object, and the contents of
  pages that were free before and are free again. The volume is only looked at.\<close>

definition unharmed :: "'d kernel_state \<Rightarrow> 'd kernel_state \<Rightarrow> bool" where
  "unharmed s t \<longleftrightarrow> idle t \<and> avail (paging t) \<subseteq> avail (paging s) \<and>
     (roomy (pg_mem (paging t)) \<longrightarrow> avail (paging t) = avail (paging s)) \<and> g_pml4 (paging t) = g_pml4 (paging s) \<and>
     (\<forall>v. translate (pg_tables (paging t)) (g_pml4 (paging t)) v = translate (pg_tables (paging s)) (g_pml4 (paging s)) v) \<and>
     (\<forall>a. unat a \<notin> avail (paging s) \<longrightarrow> ram t a = ram s a) \<and> in_port t = in_port s \<and> only_looked (volume s) (volume t)"

lemma progress_unharmed:
  fixes s t :: "'d kernel_state"
  assumes i: "idle s" and h: "holds_nothing s" and p: "progress s t" and n: "holds_nothing t"
  shows "unharmed s t"
proof -
  note P = progressD [OF p]
  have tot: "total s = avail (paging s)" "total t = avail (paging t)" "owns t = holds 0 [] (paging t)"
    using nothing_held h n by blast+
  have tr: "translate (pg_tables (paging t)) (g_pml4 (paging t)) v = translate (pg_tables (paging s)) (g_pml4 (paging s)) v" for v
    by (rule fun_cong [OF P(7)])
  have "kernel_private (paging t)" using i tr by (simp add: kernel_private_def idle_def)
  then have "idle t" using P(1,2,3,5,6,9) i tot by (auto simp: idle_def)
  then show ?thesis unfolding unharmed_def using P(3,4,6,8,10,11) tr tot by auto
qed

lemma init_state:
  fixes s :: "'d kernel_state"
  defines "s0 \<equiv> process_init s"
  shows "paging s0 = paging s" "ram s0 = ram s" "volume s0 = volume s" "console_ok s0 = console_ok s" "in_port s0 = in_port s"
    "g_active_process s0 = g_active_process s" "holds_nothing s0" "file_page_count (space s0) = 32"
    "file_capacity (space s0) = 131072" "stack_base (space s0) = PROCESS_ABI_STACK_BASE"
    "stack_size (space s0) = PROCESS_ABI_STACK_SIZE" "stack_page_count (space s0) = 16"
    "length (rt_arg_buffer (rt s0)) = 256" "length (rt_argv (rt s0)) = 8" "length (rt_cwd (rt s0)) = 128"
  by (simp_all add: s0_def process_init_def process_prepare_runtime_def process_reset_fields_def process_zero_def Let_def
    holds_nothing_def no_memory_def bytes_to_pages_def PAGE_SIZE_def PROCESS_ABI_STACK_SIZE_def PROCESS_MAX_FILE_SIZE_def
    PROCESS_ARG_BUFFER_SIZE_def PROCESS_MAX_ARGS_def PATH_CAPACITY_def)

lemma tokenize_state:
  fixes s :: "'d kernel_state"
  assumes "length (rt_arg_buffer (rt s)) = 256" and "length (rt_argv (rt s)) = 8"
  shows "\<exists>ok h. process_tokenize_args env (Some command) line s = Some (ok, with_runtime h s) \<and>
    (ok \<longrightarrow> pi_argc (info (h (rt s))) \<le> 8 \<and> length (rt_argv (h (rt s))) = 8 \<and> length (rt_arg_buffer (h (rt s))) = 256 \<and>
       rt_cwd (h (rt s)) = rt_cwd (rt s))"
proof (cases "command = []")
  case True
  then show ?thesis
    by (intro exI [of _ False] exI [of _ "\<lambda>r. r\<lparr>rt_arg_buffer := replicate (length (rt_arg_buffer r)) 0,
        rt_argv := replicate (length (rt_argv r)) 0\<rparr>"]) (simp add: process_tokenize_args_def Let_def)
next
  case False
  let ?ws = "command # words_of (case line of None \<Rightarrow> [] | Some l \<Rightarrow> l)"
  note T = tokenize_ok [OF False assms, of line env]
  show ?thesis
  proof (cases "fits_buffers ?ws")
    case True
    then have len: "length ?ws \<le> 8" "length (packed ?ws) \<le> 256"
      by (simp_all add: fits_buffers_def PROCESS_MAX_ARGS_def PROCESS_ARG_BUFFER_SIZE_def)
    have "(of_nat (length ?ws) :: u64) \<le> 8"
      using len(1) by (simp add: word_le_nat_alt unat_of_nat take_bit_nat_eq_self del: of_nat_Suc list.size)
    moreover have "length (arg_pointers (arg_buffer_at env) ?ws) = 8" "length (arg_bytes ?ws) = 256"
      by (rule length_arg_pointers [OF len(1)], rule length_arg_bytes [OF len(2)])
    moreover note T [unfolded if_P [OF True]]
    ultimately show ?thesis
      by (intro exI [of _ True] exI [of _ "\<lambda>r. r\<lparr>rt_arg_buffer := arg_bytes ?ws,
        rt_argv := arg_pointers (arg_buffer_at env) ?ws, info := (info r)\<lparr>pi_argc := of_nat (length ?ws),
          pi_argv_addr := argv_at env, pi_cwd_addr := cwd_at env\<rparr>\<rparr>"]) (simp del: of_nat_Suc list.size)
  next
    case False
    then show ?thesis using T by auto
  qed
qed

lemma progress_moves:
  fixes s t u :: "'d kernel_state"
  assumes p: "progress s t" and m: "moves t u" and c: "console_ok u"
  shows "progress s u"
proof -
  note K = moves_kernel [OF m]
  show ?thesis
    unfolding progress_def K owns_moves [OF m] moves_same(7) [OF m] by (intro conjI c progressD [OF p] allI impI)
qed

text \<open>The report of a bad status.\<close>

lemma report_ok:
  fixes s :: "'d kernel_state"
  assumes "console_ok s"
  shows "\<exists>u. (do { s \<leftarrow> console_write str s; s \<leftarrow> process_write_u32 (exit_status (rt s)) s; console_write_char 10 s }) = Some u \<and>
    console_ok u \<and> moves s u"
proof -
  have ch: "\<exists>u. console_write_char x t = Some u \<and> console_ok u \<and> moves s u"
    if "console_ok t" "moves s t" for x and t :: "'d kernel_state"
    using console_write_char_ok [OF that(1), of x] moves_trans [OF that(2)] by (auto simp: does_def)
  obtain s1 where 1: "console_write str s = Some s1" "console_ok s1" "moves s s1"
    using console_write_ok [OF assms, of str] by (auto simp: does_def)
  have "\<exists>s2. for_each console_write_char xs s1 = Some s2 \<and> console_ok s2 \<and> moves s s2" for xs
    using 1 ch for_each_inv [of "\<lambda>t. console_ok t \<and> moves s t" s1 xs console_write_char] by blast
  then obtain s2 where 2: "process_write_u32 (exit_status (rt s1)) s1 = Some s2" "console_ok s2" "moves s s2"
    using ch [OF 1(2,3)] unfolding process_write_u32_def by (cases "exit_status (rt s1) = 0") auto
  show ?thesis using 1(1) 2(1) ch [OF 2(2,3)] by simp
qed

text \<open>The file buffer.\<close>

lemma alloc_file:
  fixes s t :: "'d kernel_state"
  assumes p: "progress s t" "total t = total s" and n: "holds_nothing t" and a: "k_alloc_pages k t = (b, u)"
    and k: "file_page_count (space t) = k"
  defines "w \<equiv> with_space (\<lambda>a. a\<lparr>file_buffer := b\<rparr>) u"
  shows "progress s w" "total w = total s" "no_memory w" "space w = (space t)\<lparr>file_buffer := b\<rparr>" "rt w = rt t" "volume w = volume t"
    "paging_current_root (paging w) = paging_current_root (paging t)"
proof -
  obtain m where m: "alloc_pages k (pg_mem (paging t)) = (b, m)" "u = t\<lparr>paging := (paging t)\<lparr>pg_mem := m\<rparr>\<rparr>"
    using a by (auto simp: k_alloc_pages_def split: prod.splits)
  have z: "page_table_root (space t) = 0" "image_backing (space t) = 0" "stack_backing (space t) = 0" "file_buffer (space t) = 0"
    using n by (simp_all add: holds_nothing_def no_memory_def)
  have h: "holds 0 [] (paging t)" "total t = pages_of 0 [] (paging t)"
    using progressD(1) [OF p(1)] z by (simp_all add: owns_def total_def blocks_of_def)
  note A = holds_alloc [OF h(1) m(1)]
  show "no_memory w" "space w = (space t)\<lparr>file_buffer := b\<rparr>" "rt w = rt t" "volume w = volume t"
    using z by (simp_all add: w_def m no_memory_def)
  show "paging_current_root (paging w) = paging_current_root (paging t)"
    by (simp add: w_def m paging_current_root_def read_cr3_def)
  have "owns w \<and> total w = total t"
  proof (cases "b = 0")
    case True
    then show ?thesis using A(1) h z by (simp add: owns_def total_def blocks_of_def w_def m)
  next
    case False
    then show ?thesis using A(2) h z k by (simp add: owns_def total_def blocks_of_def w_def m)
  qed
  then have o: "owns w" "total w = total s" using p(2) by simp_all
  show "total w = total s" by (rule o(2))
  have e: "console_ok w = console_ok t" "in_port w = in_port t" "g_active_process w = g_active_process t" "ram w = ram t"
    "g_pml4 (paging w) = g_pml4 (paging t)" "pg_tables (paging w) = pg_tables (paging t)"
    "paging_current_root (paging w) = paging_current_root (paging t)" "volume w = volume t"
    by (simp_all add: w_def m paging_current_root_def read_cr3_def)
  show "progress s w"
    unfolding progress_def e o(2)
    by (intro conjI o(1) progressD [OF p(1)] order_refl impI refl allI)
qed

text \<open>From a loaded program to its end.\<close>

definition run_loaded :: "user_act list \<Rightarrow> 'd kernel_state \<Rightarrow> (bool \<times> 'd kernel_state) option" where
  "run_loaded acts s = do {
     let kernel_root = paging_current_root (paging s);
     let s = with_state PROCESS_STATE_RUNNING (with_runtime (\<lambda>r. r\<lparr>exit_requested := False, exit_status := 0\<rparr>) s);
     let s = with_root (page_table_root (space s)) (s\<lparr>g_active_process := True\<rparr>);
     (invoke_result, s) \<leftarrow> program_run acts s;
     let s = (with_root kernel_root s)\<lparr>g_active_process := False\<rparr>;
     if invoke_result = 0 \<or> \<not> exit_requested (rt s)
     then do { s \<leftarrow> say ''program returned unexpectedly'' s; Some (False, process_release_address_space s) }
     else if exit_status (rt s) \<noteq> 0
     then do { s \<leftarrow> console_write (map of_char ''program exited with status '') s;
               s \<leftarrow> process_write_u32 (exit_status (rt s)) s;
               s \<leftarrow> console_write_char 10 s;
               Some (False, process_release_address_space s) }
     else Some (True, process_release_address_space s) }"

lemma run_loaded_ok:
  fixes s t :: "'d kernel_state"
  assumes p: "progress s t" "total t = total s" and l: "loaded t True t"
    and e: "enter_held T t" "kernel_private (paging t)" "\<not> g_active_process t"
    and cur: "paging_current_root (paging t) = g_pml4 (paging t)"
    and acts: "from_user_mode acts" "outcome acts = Some c"
  shows "\<exists>u. run_loaded acts t = Some (c = 0, u) \<and> progress s u \<and> holds_nothing u"
proof -
  let ?R = "page_table_root (space t)" and ?K = "g_pml4 (paging t)"
  have L: "?R \<noteq> 0" "image_backing (space t) \<noteq> 0" "stack_backing (space t) \<noteq> 0" "region_ok (space t)"
    "sees (space t) (paging t)" "backed (space t)" using l by (simp_all add: loaded_def)
  have o: "owns t" and ct: "console_ok t" by (rule progressD(1,2) [OF p(1)])+
  let ?t1 = "(with_state PROCESS_STATE_RUNNING (with_runtime (\<lambda>r. r\<lparr>exit_requested := False, exit_status := 0\<rparr>) t))
      \<lparr>g_active_process := True\<rparr>"
  let ?t2 = "with_root ?R ?t1"
  have o1: "owns ?t1" "total ?t1 = total t" "console_ok ?t1" using o ct by (simp_all add: owns_def total_def)
  have act: "program_active ?t2" using with_root_active [of ?t1] o1(1) L by simp
  have w2: "worked ?t1 ?t2" by (rule with_root_worked [OF o1(3)])
  have rt2: "rt ?t2 = rt ?t1" "space ?t2 = space t" by (simp_all add: with_root_def)
  have ready: "program_ready ?t2" using act L(6) by (simp add: program_ready_def rt2)
  have pg2: "pg_tables (paging ?t2) = pg_tables (paging t)" "g_pml4 (paging ?t2) = g_pml4 (paging t)"
    using paging_but_cr3(2,3) [of "paging ?t2" "paging ?t1"] w2 by (simp_all add: worked_def)
  have priv: "kernel_private (paging ?t2)" using e(2) by (simp add: kernel_private_def pg2)
  have en: "enter_held T ?t2" "g_active_process ?t2" "\<not> exit_requested (rt ?t2)" "console_ok ?t2"
    using e(1) w2 by (simp_all add: worked_def enter_held_def rt2)
  obtain t3 where t3: "program_run acts ?t2 = Some (1, t3)" "worked ?t2 t3" "paging t3 = paging ?t2"
      "exit_requested (rt t3)" "exit_status (rt t3) = c"
    using program_run_ok [OF ready priv en(4,1,2,3) acts(1)] acts(2) by auto
  let ?t4 = "with_root ?K t3"
  have nz: "?K \<noteq> 0"
    using tree_page [OF kernel_okD(2) [OF holdsD(1)], of _ _ _ "[]"] o by (simp add: owns_def page_ok_def)
  have mask: "?K AND PAGE_TABLE_ADDR_MASK = ?K"
    using cur by (metis paging_current_root_def and.assoc and.idem)
  have root: "paging_current_root (paging ?t4) = ?K"
    using kernel_root_back [of "paging t", OF nz mask] by (simp add: with_root_def)
  have c3: "console_ok t3" using t3(2) by (simp add: worked_def)
  have w4: "worked ?t1 ?t4"
    by (rule worked_trans [OF worked_trans [OF w2 t3(2)] with_root_worked [OF c3]])
  have cur4: "paging_current_root (paging ?t4) = paging_current_root (paging ?t1)" using root cur by simp
  note W = worked_progress [OF w4 o1(1) cur4]
  have P: "progress ?t1 ?t4" "total ?t4 = total ?t1" using W L(2,3) by simp_all
  note D = progressD [OF P(1)]
  let ?t5 = "?t4\<lparr>g_active_process := False\<rparr>"
  have "progress t ?t5"
    unfolding progress_def
  proof (intro conjI allI impI)
    show "owns ?t5" "console_ok ?t5" using D(1,2) by (simp_all add: owns_def)
    show "total ?t5 \<subseteq> total t" "total ?t5 = total t" using P(2) o1(2) by (simp_all add: total_def)
    show "translate (pg_tables (paging ?t5)) (g_pml4 (paging ?t5)) = translate (pg_tables (paging t)) (g_pml4 (paging t))"
      using D(7) by simp
    show "ram ?t5 a = ram t a" if "unat a \<notin> total t" for a using D(10) [of a] that o1(2) by simp
  qed (use D(5,6,8,11) e(3) in simp_all)
  then have p5: "progress s ?t5" by (rule progress_lossless [OF p])
  have rt5: "rt ?t4 = rt t3" by (simp add: with_root_def)
  have run: "run_loaded acts t = (if c \<noteq> 0
     then do { u \<leftarrow> (do { s \<leftarrow> console_write (map of_char ''program exited with status '') ?t5;
               s \<leftarrow> process_write_u32 (exit_status (rt s)) s; console_write_char 10 s });
               Some (False, process_release_address_space u) }
     else Some (True, process_release_address_space ?t5))"
    unfolding run_loaded_def using t3 by (simp add: Let_def cur rt5)
  show ?thesis
  proof (cases "c = 0")
    case True
    then show ?thesis using run release_progress [OF p5] by simp
  next
    case False
    obtain u where u: "(do { s \<leftarrow> console_write (map of_char ''program exited with status '') ?t5;
               s \<leftarrow> process_write_u32 (exit_status (rt s)) s; console_write_char 10 s }) = Some u" "console_ok u" "moves ?t5 u"
      using report_ok [OF progressD(2) [OF p5]] by blast
    have "progress s u" by (rule progress_moves [OF p5 u(3,2)])
    from release_progress [OF this] show ?thesis unfolding run u(1) using False by simp
  qed
qed


lemma run_foreground_ok:
  fixes s :: "'d kernel_state"
  assumes i: "idle s" and e: "enter_held T s" and v: "readable view (volume s)" "length p < FS_NAME_CAPACITY" and d: "nul_free cwd" "length cwd < 128"
    and acts: "from_user_mode acts" "outcome acts = Some c"
  shows "\<exists>ok u. process_run_foreground env acts (Some p) (Some command) line (Some cwd) s = Some (ok, u) \<and>
    unharmed s u \<and> holds_nothing u \<and> (ok \<longrightarrow> c = 0)"
proof -
  let ?s0 = "process_init s"
  note I = init_state [of s]
  have i0: "idle ?s0" using i by (simp add: idle_def I)
  have o0: "owns ?s0" "console_ok ?s0" using i0 nothing_held(1) [OF I(7)] by (simp_all add: idle_def)
  have same: "unharmed ?s0 u = unharmed s u" for u by (simp add: unharmed_def I(1,2,3,5))
  have fin: ?thesis if "process_run_foreground env acts (Some p) (Some command) line (Some cwd) s = Some (ok, u)"
      "progress ?s0 u" "holds_nothing u" "ok \<longrightarrow> c = 0" for ok u
    using that progress_unharmed [OF i0 I(7) that(2,3)] same by blast
  obtain ok1 h where tok: "process_tokenize_args env (Some command) line ?s0 = Some (ok1, with_runtime h ?s0)"
    "ok1 \<longrightarrow> pi_argc (info (h (rt ?s0))) \<le> 8 \<and> length (rt_argv (h (rt ?s0))) = 8 \<and>
       length (rt_arg_buffer (h (rt ?s0))) = 256 \<and> rt_cwd (h (rt ?s0)) = rt_cwd (rt ?s0)"
    using tokenize_state [OF I(13,14)] by blast
  let ?s1 = "with_runtime h ?s0"
  have p1: "progress ?s0 ?s1" "total ?s1 = total ?s0" "holds_nothing ?s1"
    using o0 I(7) by (simp_all add: progress_def owns_def total_def holds_nothing_def no_memory_def)
  show ?thesis
  proof (cases ok1)
    case False
    obtain u where u: "say_false ''program args invalid'' ?s1 = Some (False, u)" "progress ?s0 u"
        "g_foreground_process u = g_foreground_process ?s1" using progress_say(1) [OF p1(1)] by blast
    have "holds_nothing u" using p1(3) u(3) by (simp add: holds_nothing_def no_memory_def)
    then show ?thesis using u(1,2) False tok(1) by (intro fin [of False u]) (simp_all add: process_run_foreground_def)
  next
    case ok1: True
    obtain b t1 where al: "k_alloc_pages (file_page_count (space ?s1)) ?s1 = (b, t1)" by fastforce
    let ?s2 = "with_space (\<lambda>a. a\<lparr>file_buffer := b\<rparr>) t1"
    have fp: "file_page_count (space ?s1) = 32" using I(8) by simp
    note A = alloc_file [OF p1 al refl]
    show ?thesis
    proof (cases "b = 0")
      case True
      obtain u where u: "say ''program file buffer alloc failed'' ?s2 = Some u" "progress ?s0 u"
        using progress_say(2) [OF A(1)] by blast
      have "process_run_foreground env acts (Some p) (Some command) line (Some cwd) s = Some (False, process_release_address_space u)"
        using tok(1) ok1 al u(1) True A(4) by (simp add: process_run_foreground_def Let_def)
      then show ?thesis using release_progress [OF u(2)] by (intro fin [of False]) simp_all
    next
      case b: False
      let ?s3 = "with_image (\<lambda>i. i\<lparr>im_file_buffer := b\<rparr>) ?s2"
      have cw: "length (rt_cwd (rt ?s3)) = 128" using tok(2) ok1 I(15) A(5) by simp
      obtain buf where buf: "k_strcpy (rt_cwd (rt ?s3)) (cwd @ [0]) = Some buf" "length buf = 128"
        using k_strcpy_eq [of "cwd @ [0]" "rt_cwd (rt ?s3)"] d cw by (auto simp: cstr_append_nul)
      let ?s4 = "with_runtime (\<lambda>r. r\<lparr>rt_cwd := buf\<rparr>) ?s3"
      have e4: "paging ?s4 = paging ?s2" "ram ?s4 = ram ?s2" "volume ?s4 = volume s" "space ?s4 = space ?s2"
          "console_ok ?s4 = console_ok ?s2" "in_port ?s4 = in_port ?s2" "g_active_process ?s4 = g_active_process ?s2"
        using A(6) I(3) by simp_all
      have ow: "owns ?s4 = owns ?s2" "total ?s4 = total ?s2" by (simp_all add: owns_def total_def)
      have "progress ?s0 ?s4 = progress ?s0 ?s2" using A(6) I(3) by (simp only: progress_def e4 ow) simp
      then have p4: "progress ?s0 ?s4" "total ?s4 = total ?s0" using A(1,2) ow by simp_all
      have cur: "paging_current_root (paging ?s4) = g_pml4 (paging ?s4)"
        using progressD(5,6) [OF p4(1)] i0 by (simp add: idle_def)
      have low: "total ?s4 \<subseteq> {..<2 ^ 32}" using p4(2) i0 nothing_held(2) [OF I(7)] by (simp add: idle_def)
      have "load_pre ?s4"
        unfolding load_pre_def kernel_runs_def
      proof (intro conjI)
        show "console_ok ?s4" "owns ?s4" using progressD(1,2) [OF p4(1)] by simp_all
        show "args_ready (rt ?s4)" using tok(2) ok1 A(5) buf(2) by (simp add: args_ready_def)
        show "no_memory ?s4" using A(3) by (simp add: no_memory_def)
      qed (use cur low b A(4) I in simp_all)
      from process_load_binary_ok [OF this _ v(2)] v(1) e4(3) obtain ok2 t where
        l: "process_load_binary env p ?s4 = Some (ok2, t)" "loaded ?s4 ok2 t" by metis
      have pt: "progress ?s0 t" using l(2) by (intro progress_lossless [OF p4]) (simp add: loaded_def)
      have run: "process_run_foreground env acts (Some p) (Some command) line (Some cwd) s =
          (if \<not> ok2 then Some (False, process_release_address_space t) else run_loaded acts t)"
        using tok(1) ok1 al b buf(1) l(1) A(4) by (simp add: process_run_foreground_def Let_def run_loaded_def)
      show ?thesis
      proof (cases ok2)
        case False
        then show ?thesis using release_progress [OF pt] run by (intro fin [of False]) simp_all
      next
        case ok2: True
        have tt: "total t = total ?s0" using l(2) ok2 p4(2) by (simp add: loaded_def)
        have lt: "loaded t True t"
          using l(2) ok2 progress_refl [of t] progressD(1,2) [OF pt] by (simp add: loaded_def)
        note D = progressD [OF pt]
        have en: "enter_held T t" using e D(8) by (simp add: enter_held_def I)
        have priv: "kernel_private (paging t)"
          using i0 fun_cong [OF D(7)] by (simp add: kernel_private_def idle_def)
        have act: "\<not> g_active_process t" using D(9) i0 by (simp add: idle_def)
        have cu: "paging_current_root (paging t) = g_pml4 (paging t)" using D(5,6) i0 by (simp add: idle_def)
        from run_loaded_ok [OF pt tt lt en priv act cu acts] obtain u where
          "run_loaded acts t = Some (c = 0, u)" "progress ?s0 u" "holds_nothing u" by blast
        then show ?thesis using run ok2 by (intro fin [of "c = 0" u]) simp_all
      qed
    qed
  qed
qed

text \<open>C1: for every program, on an idle kernel, \<open>process_run_foreground\<close> returns once the program has exited
  or faulted (Enter being held at some time, should it read a line), and does no harm whatever the program
  stored, named or trapped with: the kernel is idle again on its own root, no page is held, every page
  that was free is free again (unless the table of free ranges has filled up), the kernel's translations
  are the same, no byte outside the pages that were free has changed, and the volume has only been looked
  at. It reports success only for a program that exited with status 0.\<close>

theorem process_run_foreground_unharmed:
  assumes "idle s" and "enter_held T s" and "readable view (volume s)" and "length p < FS_NAME_CAPACITY"
    and "nul_free cwd" and "length cwd < 128"
    and "from_user_mode acts" and "outcome acts = Some c"
  shows "\<exists>ok t. process_run_foreground env acts (Some p) (Some command) line (Some cwd) s = Some (ok, t) \<and>
    unharmed s t \<and> holds_nothing t \<and> (ok \<longrightarrow> c = 0)"
  by (rule run_foreground_ok [OF assms])

definition demo_idle :: "ramdisk kernel_state" where
  "demo_idle = demo_start\<lparr>in_port := enter_ports\<rparr>"

lemma demo_idle_ok: "idle demo_idle" "enter_held 0 demo_idle" "volume demo_idle = demo_vol"
proof -
  have s: "console_ok demo_start" "owns demo_start" "total demo_start \<subseteq> {..<2 ^ 32}"
    "paging_current_root (paging demo_start) = g_pml4 (paging demo_start)"
    using demo_start_runs(1) by (simp_all add: kernel_runs_def)
  have p: "paging demo_idle = demo_pool" by (simp add: demo_idle_def demo_start_space)
  have none: "translate (pg_tables demo_pool) (g_pml4 demo_pool) v = None" for v
    by (simp add: demo_pool_def machine_simps translate_def path_def)
  have "pages_of 0 [] demo_pool = avail demo_pool" by (simp add: pages_of_def held_def held_tables_def)
  then have "avail demo_pool \<subseteq> {..<2 ^ 32}" using demo_pool_ok(2) by simp
  moreover have "console_ok demo_idle" using s(1) by (simp add: demo_idle_def console_ok_def fits_def)
  moreover have "\<not> g_active_process demo_idle"
    by (simp add: demo_idle_def demo_start_def demo_program_def process_init_def process_prepare_runtime_def process_reset_fields_def)
      (simp add: demo_kernel_def)
  ultimately show "idle demo_idle"
    using demo_pool_ok(1) s(4) none by (simp add: idle_def p kernel_private_def demo_start_space)
  show "enter_held 0 demo_idle"
    by (simp add: demo_idle_def enter_held_def enter_ports_def SERIAL_LINE_STATUS_PORT_def SERIAL_DATA_PORT_def
      KEYBOARD_STATUS_PORT_def KEYBOARD_DATA_PORT_def)
  show "volume demo_idle = demo_vol"
    by (simp add: demo_idle_def demo_start_def demo_program_def process_init_def process_prepare_runtime_def process_reset_fields_def)
      (simp add: demo_kernel_def)
qed

theorem process_run_foreground_unharmed_witness:
  "\<exists>ok t. process_run_foreground demo_env [UserStore 0x1000 7, UserTrap demo_frame, UserTrap (demo_frame\<lparr>tf_vector := 14\<rparr>)]
      (Some [47]) (Some [108, 115]) None (Some [47]) demo_idle = Some (ok, t) \<and>
    unharmed demo_idle t \<and> holds_nothing t \<and> \<not> ok"
proof -
  have "from_user_mode [UserStore 0x1000 7, UserTrap demo_frame, UserTrap (demo_frame\<lparr>tf_vector := 14\<rparr>)]"
    by (auto simp: from_user_mode_def demo_frame_def)
  moreover have "outcome [UserStore 0x1000 7, UserTrap demo_frame, UserTrap (demo_frame\<lparr>tf_vector := 14\<rparr>)] = Some 0xFFFFFFFF"
    by (simp add: demo_frame_def syscall_number_def syscall_numbers PROGRAM_SYSCALL_VECTOR_def)
  ultimately show ?thesis
    using process_run_foreground_unharmed [OF demo_idle_ok(1,2), of ram_view "[47]" "[47]"] demo_readable
    by (fastforce simp: demo_idle_ok(3) nul_free_def FS_NAME_CAPACITY_def)
qed

end
