(* ===== verification/Program.thy ===== *)
theory Program
  imports ProcessRun
begin

text \<open>
  \<open>src/kernel/program.c\<close>: which file a command names, and running it. Strings are the bytes before
  their NUL, a local \<open>char path[PATH_CAPACITY]\<close> is read as the string in it, and a NULL pointer is \<open>None\<close>.
  What the program does once it runs is the list of \<open>user_act\<close>s of \<open>process_run_foreground\<close>.
\<close>

subsection \<open>Definitions\<close>

definition PROGRAM_EXTENSION :: bytes where "PROGRAM_EXTENSION = bytes_of ''.ELF''"
definition PROGRAM_EXTENSION_LEN :: u32 where "PROGRAM_EXTENSION_LEN = 4"

datatype ProgramDispatchResult = PROGRAM_DISPATCH_EXECUTED | PROGRAM_DISPATCH_NOT_FOUND | PROGRAM_DISPATCH_FAILED

fun path_has_separator :: "bytes \<Rightarrow> bool" where
  "path_has_separator [] = False"
| "path_has_separator (c # cs) = (if c = 47 then True else path_has_separator cs)"

definition path_has_program_suffix :: "bytes \<Rightarrow> bool" where
  "path_has_program_suffix p =
     (let n = length p
      in if n < unat PROGRAM_EXTENSION_LEN then False
         else k_toupper (p ! (n - 4)) = 46 \<and> k_toupper (p ! (n - 3)) = 69 \<and>
              k_toupper (p ! (n - 2)) = 76 \<and> k_toupper (p ! (n - 1)) = 70)"

text \<open>\<open>path_normalize\<close> into a local buffer of \<open>PATH_CAPACITY\<close> bytes: the string there, or \<open>Some None\<close>
  for false.\<close>

definition local_path :: "bytes \<Rightarrow> bytes \<Rightarrow> bytes option option" where
  "local_path cwd input =
     do { (ok, out) \<leftarrow> path_normalize (Some cwd) (Some input) (Some (replicate PATH_CAPACITY 0)) (of_nat PATH_CAPACITY);
          Some (if ok then map_option cstr out else None) }"

definition build_lookup_path :: "bytes \<Rightarrow> bytes \<Rightarrow> bytes option option" where
  "build_lookup_path base command =
     (let command_len = (of_nat (length command) :: u32)
      in if path_has_program_suffix command then local_path base command
         else if unat (command_len + PROGRAM_EXTENSION_LEN + 1) > PATH_CAPACITY then Some None
         else do {
           with_extension \<leftarrow> k_strcpy (replicate PATH_CAPACITY 0) (command @ [0]);
           with_extension \<leftarrow> k_strcpy_loop (unat command_len) with_extension (PROGRAM_EXTENSION @ [0]);
           local_path base (cstr with_extension) })"

definition program_run_path ::
  "process_env \<Rightarrow> user_act list \<Rightarrow> bytes \<Rightarrow> bytes \<Rightarrow> bytes option \<Rightarrow> bytes \<Rightarrow>
     'd kernel_state \<Rightarrow> (bool \<times> 'd kernel_state) option" where
  "program_run_path env acts p command argument_line cwd s =
     process_run_foreground env acts (Some p) (Some command) argument_line (Some cwd) s"

definition not_found_line :: "'d kernel_state \<Rightarrow> (ProgramDispatchResult \<times> 'd kernel_state) option" where
  "not_found_line s = do { s \<leftarrow> say ''program not found'' s; Some (PROGRAM_DISPATCH_FAILED, s) }"

definition stat_is_ok :: "bytes option \<Rightarrow> 'd kernel_state \<Rightarrow> (bool \<times> 'd kernel_state) option" where
  "stat_is_ok p s =
     (case p of
        None \<Rightarrow> Some (False, s)
      | Some p \<Rightarrow> do { (node, v) \<leftarrow> fs_stat (Some p) True (volume s); Some (\<not> isl node, s\<lparr>volume := v\<rparr>) })"

definition run_or_fail ::
  "process_env \<Rightarrow> user_act list \<Rightarrow> bytes \<Rightarrow> bytes \<Rightarrow> bytes option \<Rightarrow> bytes \<Rightarrow>
     'd kernel_state \<Rightarrow> (ProgramDispatchResult \<times> 'd kernel_state) option" where
  "run_or_fail env acts p command argument_line cwd s =
     do { (ok, s) \<leftarrow> program_run_path env acts p command argument_line cwd s;
          Some (if ok then PROGRAM_DISPATCH_EXECUTED else PROGRAM_DISPATCH_FAILED, s) }"

definition program_dispatch ::
  "process_env \<Rightarrow> user_act list \<Rightarrow> bytes option \<Rightarrow> bytes option \<Rightarrow> bytes option \<Rightarrow>
     'd kernel_state \<Rightarrow> (ProgramDispatchResult \<times> 'd kernel_state) option" where
  "program_dispatch env acts command argument_line cwd s =
     (case (command, cwd) of
        (Some command, Some cwd) \<Rightarrow>
          if command = [] then Some (PROGRAM_DISPATCH_NOT_FOUND, s)
          else if path_has_separator command then do {
            p \<leftarrow> local_path cwd command;
            case p of
              None \<Rightarrow> not_found_line s
            | Some p \<Rightarrow>
                if \<not> path_has_program_suffix p then not_found_line s
                else do {
                  (ok, s) \<leftarrow> program_run_path env acts p command argument_line cwd s;
                  if ok then Some (PROGRAM_DISPATCH_EXECUTED, s)
                  else do {
                    (exists, s) \<leftarrow> stat_is_ok (Some p) s;
                    if exists then Some (PROGRAM_DISPATCH_FAILED, s) else not_found_line s } } }
          else do {
            p \<leftarrow> build_lookup_path [47] command;
            (found, s) \<leftarrow> stat_is_ok p s;
            if found then run_or_fail env acts (the p) command argument_line cwd s
            else do {
              p \<leftarrow> build_lookup_path cwd command;
              (found, s) \<leftarrow> stat_is_ok p s;
              if found then run_or_fail env acts (the p) command argument_line cwd s
              else Some (PROGRAM_DISPATCH_NOT_FOUND, s) } }
      | _ \<Rightarrow> Some (PROGRAM_DISPATCH_NOT_FOUND, s))"

subsection \<open>Which path is run\<close>

lemma local_path_eq:
  assumes "nul_free cwd" and "nul_free input" and "length cwd < 2 ^ 31" and "length input < 2 ^ 31"
  shows "local_path cwd input = Some (map_option render (normalize_spec PATH_CAPACITY cwd input))"
proof -
  have cap: "unat (of_nat PATH_CAPACITY :: u32) = PATH_CAPACITY" by (simp add: PATH_CAPACITY_def)
  have "2 \<le> PATH_CAPACITY" "length cwd + PATH_CAPACITY < 4294967296" "length input + PATH_CAPACITY < 4294967296"
    using assms(3,4) by (simp_all add: PATH_CAPACITY_def)
  note R = path_normalize_refine [of "of_nat PATH_CAPACITY" "replicate PATH_CAPACITY 0" cwd input, unfolded cap,
      OF this(1) _ this(2,3), simplified]
  show ?thesis
  proof (cases "normalize_spec PATH_CAPACITY cwd input")
    case None
    then show ?thesis using R by (auto simp: local_path_def)
  next
    case (Some comps)
    have "nul_free (render comps)" using normalize_spec_canonical [OF Some assms(1,2)] nul_free_render by blast
    then show ?thesis using R Some by (auto simp: local_path_def)
  qed
qed

text \<open>The file name a bare command stands for.\<close>

definition program_file :: "bytes \<Rightarrow> bytes" where
  "program_file command = (if path_has_program_suffix command then command else command @ PROGRAM_EXTENSION)"

lemma program_file_suffix: "path_has_program_suffix (program_file command)"
proof -
  have "path_has_program_suffix (command @ PROGRAM_EXTENSION)"
    by (simp add: path_has_program_suffix_def Let_def nth_append PROGRAM_EXTENSION_def PROGRAM_EXTENSION_LEN_def
      bytes_of_def k_toupper_def)
  then show ?thesis by (simp add: program_file_def)
qed

definition program_fits :: "bytes \<Rightarrow> bool" where
  "program_fits command \<longleftrightarrow> path_has_program_suffix command \<or> length command + 5 \<le> PATH_CAPACITY"

lemma build_lookup_path_eq:
  assumes "nul_free base" and "nul_free command" and "length base < 2 ^ 31" and "length command < 2 ^ 31"
  shows "build_lookup_path base command = Some (if program_fits command
     then map_option render (normalize_spec PATH_CAPACITY base (program_file command)) else None)"
proof (cases "path_has_program_suffix command")
  case True
  then show ?thesis using local_path_eq [OF assms] by (simp add: build_lookup_path_def program_fits_def program_file_def)
next
  case False
  let ?n = "length command"
  have n: "unat (of_nat ?n :: u32) = ?n" using assms(4) by (intro unat_of_nat_u32) simp
  have n5: "unat (of_nat ?n + PROGRAM_EXTENSION_LEN + 1 :: u32) = ?n + 5"
    using assms(4) n by (simp add: PROGRAM_EXTENSION_LEN_def unat_word_ariths)
  show ?thesis
  proof (cases "?n + 5 \<le> PATH_CAPACITY")
    case fits: True
    have c: "cstr (command @ [0]) = command" using assms(2) by simp
    have e: "cstr (PROGRAM_EXTENSION @ [0]) = PROGRAM_EXTENSION" "nul_free PROGRAM_EXTENSION" "length PROGRAM_EXTENSION = 4"
      by (simp_all add: PROGRAM_EXTENSION_def bytes_of_def cstr_def)
    obtain buf where buf: "k_strcpy (replicate PATH_CAPACITY 0) (command @ [0]) = Some buf"
        "take ?n buf = command" "length buf = PATH_CAPACITY"
      using fits k_strcpy_eq [of "command @ [0]" "replicate PATH_CAPACITY 0"] by (simp add: c blit_def)
    obtain rest where r: "k_strcpy_loop ?n buf (PROGRAM_EXTENSION @ [0]) = Some (command @ PROGRAM_EXTENSION @ 0 # rest)"
      using fits k_strcpy_loop_eq [of "PROGRAM_EXTENSION @ [0]" ?n buf] by (simp add: e(1,3) buf)
    have "nul_free (command @ PROGRAM_EXTENSION)" using assms(2) e(2) by simp
    then have "cstr (command @ PROGRAM_EXTENSION @ 0 # rest) = command @ PROGRAM_EXTENSION"
      using cstr_append_nul [of "command @ PROGRAM_EXTENSION" rest] by simp
    moreover have "length (command @ PROGRAM_EXTENSION) < 2 ^ 31" using fits by (simp add: e(3) PATH_CAPACITY_def)
    ultimately show ?thesis
      using False fits n n5 buf(1) r local_path_eq [OF assms(1) \<open>nul_free (command @ _)\<close> assms(3)]
      by (simp add: build_lookup_path_def program_fits_def program_file_def Let_def)
  next
    case False
    then show ?thesis using n5 \<open>\<not> path_has_program_suffix command\<close>
      by (simp add: build_lookup_path_def program_fits_def Let_def)
  qed
qed

text \<open>Every path that is looked up fits the buffers of its users.\<close>

lemma looked_up_short:
  assumes "map_option render (normalize_spec PATH_CAPACITY base input) = Some p"
  shows "length p < FS_NAME_CAPACITY"
  using assms normalize_spec_fits [of PATH_CAPACITY base input]
  by (auto simp: PATH_CAPACITY_def FS_NAME_CAPACITY_def)

subsection \<open>Dispatching\<close>

text \<open>Between two states only messages were written and files looked at.\<close>

definition only_spoke :: "'d kernel_state \<Rightarrow> 'd kernel_state \<Rightarrow> bool" where
  "only_spoke s t \<longleftrightarrow> console_ok t \<and> paging t = paging s \<and> ram t = ram s \<and> in_port t = in_port s \<and>
     g_active_process t = g_active_process s \<and> only_looked (volume s) (volume t)"

lemma only_spoke_trans: "only_spoke s t \<Longrightarrow> only_spoke t u \<Longrightarrow> only_spoke s u"
  using only_looked_trans by (auto simp: only_spoke_def)

lemma only_spoke_refl: "console_ok s \<Longrightarrow> only_spoke s s"
  by (simp add: only_spoke_def)

lemma only_spoke_moves: "moves s t \<Longrightarrow> console_ok t \<Longrightarrow> only_spoke s t" for s t :: "'d kernel_state"
  using moves_kernel [of s t] moves_same(7) [of s t] by (simp add: only_spoke_def)

lemma only_spoke_idle: "only_spoke s t \<Longrightarrow> idle s \<Longrightarrow> idle t"
  by (simp add: only_spoke_def idle_def)

lemma only_spoke_unharmed: "idle s \<Longrightarrow> only_spoke s t \<Longrightarrow> unharmed s t"
  using only_spoke_idle [of s t] by (simp add: unharmed_def only_spoke_def)

lemma unharmed_after: "unharmed s t \<Longrightarrow> only_spoke t u \<Longrightarrow> unharmed s u"
  using only_spoke_idle [of t u] only_looked_trans by (auto simp: unharmed_def only_spoke_def)

lemma unharmed_before: "only_spoke s t \<Longrightarrow> unharmed t u \<Longrightarrow> unharmed s u"
  using only_looked_trans by (auto simp: unharmed_def only_spoke_def)

lemma stat_is_ok_returns:
  assumes "readable view (volume s)" and "console_ok s" and "\<And>q. p = Some q \<Longrightarrow> length q < FS_NAME_CAPACITY"
  shows "\<exists>found t. stat_is_ok p s = Some (found, t) \<and> only_spoke s t \<and> (found \<longrightarrow> p \<noteq> None)"
proof (cases p)
  case None
  then show ?thesis using only_spoke_refl [OF assms(2)] by (auto simp: stat_is_ok_def)
next
  case (Some q)
  obtain r w where "fs_stat (Some q) True (volume s) = Some (r, w)" "only_looked (volume s) w"
    using fs_stat_returns [OF assms(1) assms(3) [OF Some]] by blast
  then show ?thesis using Some assms(2) by (simp add: stat_is_ok_def only_spoke_def)
qed

lemma not_found_line_returns:
  "console_ok s \<Longrightarrow> \<exists>t. not_found_line s = Some (PROGRAM_DISPATCH_FAILED, t) \<and> only_spoke s t"
  using say_ok [of s "''program not found''"] only_spoke_moves by (fastforce simp: not_found_line_def)

text \<open>Running one path, and what is known when it has come back.\<close>

definition dispatched :: "'d kernel_state \<Rightarrow> u32 \<Rightarrow> ProgramDispatchResult \<Rightarrow> 'd kernel_state \<Rightarrow> bool" where
  "dispatched s c r t \<longleftrightarrow> unharmed s t \<and> (r = PROGRAM_DISPATCH_EXECUTED \<longrightarrow> c = 0) \<and>
     (r = PROGRAM_DISPATCH_NOT_FOUND \<longrightarrow> only_spoke s t)"

lemma run_path_returns:
  fixes s :: "'d kernel_state"
  assumes i: "idle s" and e: "enter_held T s" and v: "readable view (volume s)" and p: "length p < FS_NAME_CAPACITY"
    and cwd: "nul_free cwd" "length cwd < 128" and acts: "from_user_mode acts" "outcome acts = Some c"
  shows "\<exists>ok t. program_run_path env acts p command line cwd s = Some (ok, t) \<and> unharmed s t \<and> (ok \<longrightarrow> c = 0)"
  unfolding program_run_path_def using run_foreground_ok [OF i e v p cwd acts] by blast

lemma run_or_fail_returns:
  fixes s :: "'d kernel_state"
  assumes i: "idle s" and e: "enter_held T s" and v: "readable view (volume s)" and p: "length p < FS_NAME_CAPACITY"
    and cwd: "nul_free cwd" "length cwd < 128" and acts: "from_user_mode acts" "outcome acts = Some c"
  shows "\<exists>r t. run_or_fail env acts p command line cwd s = Some (r, t) \<and> dispatched s c r t"
proof -
  obtain ok t where "program_run_path env acts p command line cwd s = Some (ok, t)" "unharmed s t" "ok \<longrightarrow> c = 0"
    using run_path_returns [OF assms] by blast
  then show ?thesis by (simp add: run_or_fail_def dispatched_def)
qed

lemma dispatched_before: "only_spoke s t \<Longrightarrow> dispatched t c r u \<Longrightarrow> dispatched s c r u"
  using unharmed_before only_spoke_trans by (auto simp: dispatched_def)

lemma dispatch_returns:
  fixes s :: "'d kernel_state"
  assumes i: "idle s" and e: "enter_held T s" and v: "readable view (volume s)"
    and cwd: "nul_free cwd" "length cwd < 128" and com: "nul_free command" "length command < 2 ^ 31"
    and acts: "from_user_mode acts" "outcome acts = Some c"
  shows "\<exists>r t. program_dispatch env acts (Some command) line (Some cwd) s = Some (r, t) \<and> dispatched s c r t"
proof -
  have ok: "console_ok s" using i by (simp add: idle_def)
  have c31: "length cwd < 2 ^ 31" using cwd(2) by simp
  have keep: "idle t \<and> enter_held T t \<and> readable view (volume t) \<and> console_ok t" if "only_spoke s t" for t :: "'d kernel_state"
    using that only_spoke_idle [OF that i] e v only_looked_readable [of "volume s" "volume t" view]
    by (auto simp: only_spoke_def enter_held_def)
  consider (empty) "command = []" | (path) "command \<noteq> []" "path_has_separator command"
    | (bare) "command \<noteq> []" "\<not> path_has_separator command" by blast
  then show ?thesis
  proof cases
    case empty
    then show ?thesis using only_spoke_refl [OF ok] only_spoke_unharmed [OF i only_spoke_refl [OF ok]]
      by (simp add: program_dispatch_def dispatched_def)
  next
    case path
    obtain p where p: "local_path cwd command = Some p" "\<And>q. p = Some q \<Longrightarrow> length q < FS_NAME_CAPACITY"
      using local_path_eq [OF cwd(1) com(1) c31 com(2)] looked_up_short by blast
    show ?thesis
    proof (cases "p = None \<or> \<not> path_has_program_suffix (the p)")
      case True
      then have "program_dispatch env acts (Some command) line (Some cwd) s = not_found_line s"
        using path p(1) by (cases p) (simp_all add: program_dispatch_def)
      then show ?thesis using not_found_line_returns [OF ok] only_spoke_unharmed [OF i] by (auto simp: dispatched_def)
    next
      case False
      then obtain q where q: "p = Some q" "path_has_program_suffix q" by auto
      obtain okr t where run: "program_run_path env acts q command line cwd s = Some (okr, t)" "unharmed s t" "okr \<longrightarrow> c = 0"
        using run_path_returns [OF i e v p(2) [OF q(1)] cwd acts] by blast
      show ?thesis
      proof (cases okr)
        case True
        then show ?thesis using path p(1) q run by (simp add: program_dispatch_def dispatched_def)
      next
        case False
        have t: "console_ok t" "readable view (volume t)"
          using run(2) only_looked_readable [of "volume s" "volume t" view] v by (simp_all add: unharmed_def idle_def)
        obtain found u where u: "stat_is_ok (Some q) t = Some (found, u)" "only_spoke t u"
          using stat_is_ok_returns [OF t(2,1), of "Some q"] p(2) [OF q(1)] by auto
        obtain w where w: "not_found_line u = Some (PROGRAM_DISPATCH_FAILED, w)" "only_spoke u w"
          using not_found_line_returns [of u] u(2) by (auto simp: only_spoke_def)
        have "program_dispatch env acts (Some command) line (Some cwd) s =
            (if found then Some (PROGRAM_DISPATCH_FAILED, u) else not_found_line u)"
          using path p(1) q run(1) False u(1) by (simp add: program_dispatch_def)
        then show ?thesis
          using w unharmed_after [OF run(2) u(2)] unharmed_after [OF run(2) only_spoke_trans [OF u(2) w(2)]]
          by (auto simp: dispatched_def)
      qed
    qed
  next
    case bare
    obtain p1 where p1: "build_lookup_path [47] command = Some p1" "\<And>q. p1 = Some q \<Longrightarrow> length q < FS_NAME_CAPACITY"
      using build_lookup_path_eq [of "[47]" command] com looked_up_short by (auto split: if_splits)
    obtain p2 where p2: "build_lookup_path cwd command = Some p2" "\<And>q. p2 = Some q \<Longrightarrow> length q < FS_NAME_CAPACITY"
      using build_lookup_path_eq [OF cwd(1) com(1) c31 com(2)] looked_up_short by (auto split: if_splits)
    obtain f1 t1 where t1: "stat_is_ok p1 s = Some (f1, t1)" "only_spoke s t1" "f1 \<longrightarrow> p1 \<noteq> None"
      using stat_is_ok_returns [OF v ok p1(2)] by blast
    note k1 = keep [OF t1(2)]
    obtain f2 t2 where t2: "stat_is_ok p2 t1 = Some (f2, t2)" "only_spoke t1 t2" "f2 \<longrightarrow> p2 \<noteq> None"
      using stat_is_ok_returns [of view t1 p2] k1 p2(2) by blast
    have s2: "only_spoke s t2" by (rule only_spoke_trans [OF t1(2) t2(2)])
    note k2 = keep [OF s2]
    have run: "program_dispatch env acts (Some command) line (Some cwd) s =
        (if f1 then run_or_fail env acts (the p1) command line cwd t1
         else if f2 then run_or_fail env acts (the p2) command line cwd t2
         else Some (PROGRAM_DISPATCH_NOT_FOUND, t2))"
      using bare p1(1) t1(1) p2(1) t2(1) by (simp add: program_dispatch_def)
    consider "f1" | "\<not> f1" "f2" | "\<not> f1" "\<not> f2" by blast
    then show ?thesis
    proof cases
      case 1
      have "length (the p1) < FS_NAME_CAPACITY" using p1(2) t1(3) 1 by auto
      from run_or_fail_returns [of t1 T view, OF _ _ _ this cwd acts] k1 1 show ?thesis
        unfolding run using dispatched_before [OF t1(2)] by auto blast
    next
      case 2
      have "length (the p2) < FS_NAME_CAPACITY" using p2(2) t2(3) 2 by auto
      from run_or_fail_returns [of t2 T view, OF _ _ _ this cwd acts] k2 2 show ?thesis
        unfolding run using dispatched_before [OF s2] by auto blast
    next
      case 3
      then show ?thesis unfolding run using s2 only_spoke_unharmed [OF i s2] by (simp add: dispatched_def)
    qed
  qed
qed

text \<open>Dispatching any command from an idle kernel, on a readable volume, returns once the program it
  names (if any) has exited or faulted, and does no harm: the kernel is idle, no page is lost and the volume
  has only been looked at. PROGRAM_DISPATCH_EXECUTED is reported only for a program that exited with
  status 0, and PROGRAM_DISPATCH_NOT_FOUND only when nothing was run: the paging state and the whole of the
  memory are then as they were.\<close>

theorem program_dispatch_unharmed:
  assumes "idle s" and "enter_held T s" and "readable view (volume s)"
    and "nul_free cwd" and "length cwd < 128" and "nul_free command" and "length command < 2 ^ 31"
    and "from_user_mode acts" and "outcome acts = Some c"
  shows "\<exists>r t. program_dispatch env acts (Some command) line (Some cwd) s = Some (r, t) \<and>
    unharmed s t \<and> (r = PROGRAM_DISPATCH_EXECUTED \<longrightarrow> c = 0) \<and>
    (r = PROGRAM_DISPATCH_NOT_FOUND \<longrightarrow> paging t = paging s \<and> ram t = ram s)"
proof -
  obtain r t where "program_dispatch env acts (Some command) line (Some cwd) s = Some (r, t)" "dispatched s c r t"
    using dispatch_returns [OF assms] by blast
  then show ?thesis by (auto simp: dispatched_def only_spoke_def)
qed

theorem program_dispatch_unharmed_witness:
  "\<exists>r t. program_dispatch demo_env [UserTrap (demo_frame\<lparr>tf_vector := 14\<rparr>)] (Some (bytes_of ''hello''))
      (Some (bytes_of ''a b'')) (Some [47]) demo_idle = Some (r, t) \<and> unharmed demo_idle t \<and> r \<noteq> PROGRAM_DISPATCH_EXECUTED"
proof -
  have a: "from_user_mode [UserTrap (demo_frame\<lparr>tf_vector := 14\<rparr>)]"
    by (auto simp: from_user_mode_def demo_frame_def)
  have o: "outcome [UserTrap (demo_frame\<lparr>tf_vector := 14\<rparr>)] = Some 0xFFFFFFFF"
    by (simp add: demo_frame_def PROGRAM_SYSCALL_VECTOR_def)
  have v: "readable ram_view (volume demo_idle)" using demo_readable by (simp add: demo_idle_ok(3))
  show ?thesis
    using program_dispatch_unharmed [OF demo_idle_ok(1,2) v, of "[47]" "bytes_of ''hello''"] a o
    by (fastforce simp: nul_free_def bytes_of_def)
qed

end
