(* ===== verification/Panic.thy ===== *)
theory Panic
  imports ProcessImage
begin

text \<open>
  \<open>src/kernel/panic.c\<close>: the panic screen. The processor halts at its end, so the result of \<open>panic_with_frame\<close>
  is the state in which it halts: \<open>g_panic_active\<close> and the console.
\<close>

definition panic_exception_names :: "bytes list" where
  "panic_exception_names = map bytes_of
     [''Divide Error'', ''Debug'', ''Non-Maskable Interrupt'', ''Breakpoint'', ''Overflow'', ''BOUND Range Exceeded'',
      ''Invalid Opcode'', ''Device Not Available'', ''Double Fault'', ''Coprocessor Segment Overrun'', ''Invalid TSS'',
      ''Segment Not Present'', ''Stack-Segment Fault'', ''General Protection Fault'', ''Page Fault'', ''Reserved'',
      ''x87 Floating-Point Exception'', ''Alignment Check'', ''Machine Check'', ''SIMD Floating-Point Exception'',
      ''Virtualization Exception'', ''Control Protection Exception'', ''Reserved'', ''Reserved'', ''Reserved'', ''Reserved'',
      ''Reserved'', ''Reserved'', ''Hypervisor Injection Exception'', ''VMM Communication Exception'',
      ''Security Exception'', ''Reserved'']"

definition panic_exception_name :: "u64 \<Rightarrow> bytes" where
  "panic_exception_name vector =
     (if unat vector < length panic_exception_names then panic_exception_names ! unat vector
      else bytes_of ''Unexpected Interrupt'')"

definition panic_write_hex_digit :: "u8 \<Rightarrow> 'a console_state_scheme \<Rightarrow> 'a console_state_scheme option" where
  "panic_write_hex_digit value s =
     (if value < 10 then console_write_char (48 + value) s else console_write_char (65 + (value - 10)) s)"

text \<open>\<open>shift\<close> runs from 60 down to 0 in steps of 4.\<close>

definition panic_write_hex64 :: "u64 \<Rightarrow> 'a console_state_scheme \<Rightarrow> 'a console_state_scheme option" where
  "panic_write_hex64 value s = do {
     s \<leftarrow> console_write (bytes_of ''0x'') s;
     for_each (\<lambda>i. panic_write_hex_digit (ucast (drop_bit (60 - 4 * i) value AND 0xF))) [0..<16] s }"

definition panic_write_register_line :: "bytes \<Rightarrow> u64 \<Rightarrow> 'a console_state_scheme \<Rightarrow> 'a console_state_scheme option" where
  "panic_write_register_line name value s = do {
     s \<leftarrow> console_write name s; s \<leftarrow> console_write (bytes_of '': '') s; s \<leftarrow> panic_write_hex64 value s; console_write_char 10 s }"

text \<open>The registers the code prints, in order; \<open>cr2\<close> is what the processor holds in CR2.\<close>

definition panic_registers :: "u64 \<Rightarrow> TrapFrame \<Rightarrow> (string \<times> u64) list" where
  "panic_registers cr2 f =
     [(''VECTOR'', tf_vector f), (''ERROR'', tf_error_code f), (''RIP'', tf_rip f), (''CS'', tf_cs f),
      (''RFLAGS'', tf_rflags f), (''RSP'', tf_rsp f)] @
     (if tf_vector f = 14 then [(''CR2'', cr2)] else []) @
     [(''RAX'', tf_rax f), (''RBX'', tf_rbx f), (''RCX'', tf_rcx f), (''RDX'', tf_rdx f), (''RBP'', tf_rbp f),
      (''RDI'', tf_rdi f), (''RSI'', tf_rsi f), (''R8'', tf_r8 f), (''R9'', tf_r9 f), (''R10'', tf_r10 f),
      (''R11'', tf_r11 f), (''R12'', tf_r12 f), (''R13'', tf_r13 f), (''R14'', tf_r14 f), (''R15'', tf_r15 f)]"

definition panic_with_frame ::
  "u64 \<Rightarrow> bytes option \<Rightarrow> TrapFrame option \<Rightarrow> bool \<Rightarrow> 'a console_state_scheme \<Rightarrow> (bool \<times> 'a console_state_scheme) option" where
  "panic_with_frame cr2 message frame g_panic_active s =
     (if g_panic_active then Some (True, s)
      else do {
        s \<leftarrow> console_write_char 10 s;
        s \<leftarrow> console_write_line (bytes_of ''=== KERNEL PANIC ==='') s;
        s \<leftarrow> (case message of None \<Rightarrow> Some s | Some m \<Rightarrow> console_write_line m s);
        s \<leftarrow> (case frame of
            None \<Rightarrow> Some s
          | Some f \<Rightarrow> do {
              s \<leftarrow> console_write (bytes_of ''Exception: '') s;
              s \<leftarrow> console_write_line (panic_exception_name (tf_vector f)) s;
              for_each (\<lambda>(name, value). panic_write_register_line (bytes_of name) value) (panic_registers cr2 f) s });
        Some (True, s) })"

definition panic :: "bytes option \<Rightarrow> bool \<Rightarrow> 'a console_state_scheme \<Rightarrow> (bool \<times> 'a console_state_scheme) option" where
  "panic message = panic_with_frame 0 message None"

subsection \<open>What is printed\<close>

text \<open>\<open>f\<close> prints the characters \<open>str\<close> on a good console.\<close>

definition prints :: "('a console_state_scheme \<Rightarrow> 'a console_state_scheme option) \<Rightarrow> bytes \<Rightarrow> bool" where
  "prints f str \<longleftrightarrow> (\<forall>s. console_ok s \<longrightarrow> does s (f s) (fold terminal_char str (terminal s)))"

lemma prints_does: "prints f str \<Longrightarrow> console_ok s \<Longrightarrow> does s (f s) (fold terminal_char str (terminal s))"
  by (simp add: prints_def)

lemma prints_returns: "prints f str \<Longrightarrow> console_ok s \<Longrightarrow> \<exists>t. f s = Some t \<and> console_ok t \<and> moves s t"
  by (auto simp: prints_def does_def)

lemma prints_Some: "prints Some []"
  by (simp add: prints_def does_def)

lemma prints_bind: "prints f a \<Longrightarrow> prints g b \<Longrightarrow> prints (\<lambda>s. do { s \<leftarrow> f s; g s }) (a @ b)"
  unfolding prints_def fold_append comp_apply by (blast intro: does_trans)

lemma prints_char: "prints (console_write_char c) [c]"
  using console_write_char_ok by (auto simp: prints_def)

lemma prints_write: "prints (console_write str) str"
  using console_write_ok by (auto simp: prints_def)

lemma prints_line: "prints (console_write_line str) (str @ [10])"
  using console_write_line_ok by (auto simp: prints_def)

lemma prints_for_each: "(\<And>x. x \<in> set xs \<Longrightarrow> prints (f x) (g x)) \<Longrightarrow> prints (for_each f xs) (concat (map g xs))"
proof (induction xs)
  case Nil
  then show ?case using prints_Some by (simp add: prints_def)
next
  case (Cons x xs)
  have "prints (\<lambda>s. do { s \<leftarrow> f x s; for_each f xs s }) (g x @ concat (map g xs))"
    by (rule prints_bind) (use Cons in simp_all)
  moreover have "for_each f (x # xs) = (\<lambda>s. do { s \<leftarrow> f x s; for_each f xs s })" by (simp add: fun_eq_iff)
  ultimately show ?case by simp
qed

lemma prints_option: "(\<And>x. v = Some x \<Longrightarrow> prints (f x) (g x)) \<Longrightarrow>
  prints (\<lambda>s. case v of None \<Rightarrow> Some s | Some x \<Rightarrow> f x s) (case v of None \<Rightarrow> [] | Some x \<Rightarrow> g x)"
  using prints_Some by (cases v) (simp_all add: prints_def)

lemmas prints_rules = prints_bind prints_char prints_write prints_line prints_option prints_for_each

subsection \<open>The screen\<close>

definition hex_char :: "nat \<Rightarrow> u8" where
  "hex_char d = bytes_of ''0123456789ABCDEF'' ! d"

text \<open>Sixteen hexadecimal digits, the first the most significant.\<close>

definition hex64_text :: "u64 \<Rightarrow> bytes" where
  "hex64_text v = bytes_of ''0x'' @ map (\<lambda>i. hex_char (unat v div 16 ^ (15 - i) mod 16)) [0..<16]"

lemma prints_hex_digit:
  assumes "d < 16"
  shows "prints (panic_write_hex_digit (of_nat d)) [hex_char d]"
proof -
  have "d \<in> {0, 1, 2, 3, 4, 5, 6, 7, 8, 9, 10, 11, 12, 13, 14, 15}" using assms by (simp; presburger)
  then have "(if (of_nat d :: u8) < 10 then 48 + of_nat d else 65 + (of_nat d - 10)) = hex_char d"
    by (elim insertE emptyE) (simp_all add: hex_char_def bytes_of_def)
  then show ?thesis using prints_char [of "hex_char d"] by (simp add: prints_def panic_write_hex_digit_def split: if_splits)
qed

lemma hex64_digit:
  assumes "i < 16"
  shows "ucast (drop_bit (60 - 4 * i) v AND 0xF :: u64) = (of_nat (unat v div 16 ^ (15 - i) mod 16) :: u8)"
proof -
  have f: "(0xF :: u64) = mask 4" by (simp add: mask_eq_exp_minus_1)
  have e: "(2::nat) ^ (60 - 4 * i) = 16 ^ (15 - i)"
    using power_mult [of "2::nat" 4 "15 - i"] assms by (simp add: diff_mult_distrib2)
  have "unat (drop_bit (60 - 4 * i) v AND 0xF :: u64) = unat v div 16 ^ (15 - i) mod 16"
    unfolding f by (simp add: take_bit_eq_mask [symmetric] unsigned_take_bit_eq unat_drop_bit_eq take_bit_nat_def drop_bit_nat_def e)
  then have "of_nat (unat (drop_bit (60 - 4 * i) v AND 0xF :: u64)) = (of_nat (unat v div 16 ^ (15 - i) mod 16) :: u8)" by simp
  then show ?thesis by (simp add: unsigned_of_nat)
qed

lemma prints_hex64: "prints (panic_write_hex64 v) (hex64_text v)"
proof -
  have "prints (for_each (\<lambda>i. panic_write_hex_digit (ucast (drop_bit (60 - 4 * i) v AND 0xF))) [0..<16])
      (concat (map (\<lambda>i. [hex_char (unat v div 16 ^ (15 - i) mod 16)]) [0..<16]))"
    by (rule prints_for_each) (simp add: hex64_digit prints_hex_digit)
  from prints_bind [OF prints_write this, of "bytes_of ''0x''"] show ?thesis
    by (simp add: panic_write_hex64_def [abs_def] hex64_text_def del: upt_rec_numeral)
qed

definition register_text :: "string \<times> u64 \<Rightarrow> bytes" where
  "register_text r = bytes_of (fst r) @ bytes_of '': '' @ hex64_text (snd r) @ [10]"

definition panic_text :: "u64 \<Rightarrow> bytes option \<Rightarrow> TrapFrame option \<Rightarrow> bytes" where
  "panic_text cr2 message frame =
     [10] @ (bytes_of ''=== KERNEL PANIC ==='' @ [10]) @
     (case message of None \<Rightarrow> [] | Some m \<Rightarrow> m @ [10]) @
     (case frame of None \<Rightarrow> []
      | Some f \<Rightarrow> bytes_of ''Exception: '' @ (panic_exception_name (tf_vector f) @ [10]) @
          concat (map register_text (panic_registers cr2 f)))"

lemma prints_register: "prints (panic_write_register_line (bytes_of name) value) (register_text (name, value))"
  unfolding panic_write_register_line_def [abs_def] register_text_def fst_conv snd_conv
  by (intro prints_bind prints_write prints_hex64 prints_char)

lemma prints_panic:
  "prints (\<lambda>s. map_option snd (panic_with_frame cr2 message frame False s)) (panic_text cr2 message frame)"
proof -
  have r: "prints (\<lambda>s. for_each (\<lambda>(name, value). panic_write_register_line (bytes_of name) value) (panic_registers cr2 f) s)
      (concat (map register_text (panic_registers cr2 f)))" for f
    using prints_for_each [of "panic_registers cr2 f" "\<lambda>(name, value). panic_write_register_line (bytes_of name) value" register_text]
      prints_register by (auto split: prod.splits)
  have "prints (\<lambda>s. do {
      s \<leftarrow> console_write_char 10 s;
      s \<leftarrow> console_write_line (bytes_of ''=== KERNEL PANIC ==='') s;
      s \<leftarrow> (case message of None \<Rightarrow> Some s | Some m \<Rightarrow> console_write_line m s);
      case frame of None \<Rightarrow> Some s | Some f \<Rightarrow> do {
        s \<leftarrow> console_write (bytes_of ''Exception: '') s;
        s \<leftarrow> console_write_line (panic_exception_name (tf_vector f)) s;
        for_each (\<lambda>(name, value). panic_write_register_line (bytes_of name) value) (panic_registers cr2 f) s } })
    ([10] @ (bytes_of ''=== KERNEL PANIC ==='' @ [10]) @ (case message of None \<Rightarrow> [] | Some m \<Rightarrow> m @ [10]) @
     (case frame of None \<Rightarrow> [] | Some f \<Rightarrow> bytes_of ''Exception: '' @ (panic_exception_name (tf_vector f) @ [10]) @
       concat (map register_text (panic_registers cr2 f))))"
    by (intro prints_rules r)
  moreover have "map_option snd (panic_with_frame cr2 message frame False s) = do {
      s \<leftarrow> console_write_char 10 s;
      s \<leftarrow> console_write_line (bytes_of ''=== KERNEL PANIC ==='') s;
      s \<leftarrow> (case message of None \<Rightarrow> Some s | Some m \<Rightarrow> console_write_line m s);
      case frame of None \<Rightarrow> Some s | Some f \<Rightarrow> do {
        s \<leftarrow> console_write (bytes_of ''Exception: '') s;
        s \<leftarrow> console_write_line (panic_exception_name (tf_vector f)) s;
        for_each (\<lambda>(name, value). panic_write_register_line (bytes_of name) value) (panic_registers cr2 f) s } }" for s :: "'a console_state_scheme"
    unfolding panic_with_frame_def by (auto split: Option.bind_splits option.splits)
  ultimately show ?thesis unfolding panic_text_def by (simp only: prints_def)
qed

lemma panic_returns:
  assumes "console_ok s"
  shows "\<exists>t. panic_with_frame cr2 message frame active s = Some (True, t) \<and> console_ok t \<and> moves s t \<and>
    (if active then t = s else vga_only s \<longrightarrow> terminal t = fold terminal_char (panic_text cr2 message frame) (terminal s))"
proof (cases active)
  case True
  then show ?thesis using assms by (simp add: panic_with_frame_def)
next
  case False
  obtain t where t: "map_option snd (panic_with_frame cr2 message frame False s) = Some t" "console_ok t" "moves s t"
    "vga_only s \<longrightarrow> terminal t = fold terminal_char (panic_text cr2 message frame) (terminal s)"
    using prints_does [OF prints_panic assms, of cr2 message frame] by (auto simp: does_def)
  then obtain x where "panic_with_frame cr2 message frame False s = Some (x, t)" by auto
  moreover have "x" using calculation by (auto simp: panic_with_frame_def split: Option.bind_splits)
  ultimately show ?thesis using t False by simp
qed



end
