(* ===== verification/Shell.thy ===== *)
theory Shell
  imports Program Pci Panic
begin

text \<open>
  \<open>src/kernel/shell.c\<close>, and what it prints of \<open>src/kernel/memory.c\<close> and \<open>src/kernel/trap.c\<close>.

  A command that panics or faults ends in the halted processor: the outcome \<open>Halted\<close>. A NULL argument is
  \<open>None\<close>; a pointer into the line is the string it points to. The callbacks' context is what they have
  changed: their own record, and the kernel they print on (\<open>None\<close> when printing left the screen).
\<close>

subsection \<open>State\<close>

definition SHELL_LINE_CAPACITY :: nat where "SHELL_LINE_CAPACITY = 128"

record FsReadContext =
  rc_wrote_anything :: bool
  rc_last_char :: u8

text \<open>\<open>'p\<close> is the state of the PCI host bridge.\<close>

record ('d, 'p) shell_state =
  kernel :: "'d kernel_state"
  g_cwd :: bytes
  sh_pci :: "'p pci_state"
  g_panic_active :: bool

datatype ('d, 'p) shell_outcome = Running "('d, 'p) shell_state" | Halted "('d, 'p) shell_state"

text \<open>What a command meets outside the kernel: the parameters of a program's run, the port operations, and the frame
  and CR2 of the trap that \<open>fault\<close> provokes.\<close>

record 'p shell_env =
  sh_process :: process_env
  sh_io :: "'p ports"
  sh_frame :: TrapFrame
  sh_cr2 :: u64

definition on_kernel ::
  "('d kernel_state \<Rightarrow> 'd kernel_state option) \<Rightarrow> ('d, 'p) shell_state \<Rightarrow> ('d, 'p) shell_state option" where
  "on_kernel f sh = do { k \<leftarrow> f (kernel sh); Some (sh\<lparr>kernel := k\<rparr>) }"

definition write_line :: "string \<Rightarrow> ('d, 'p) shell_state \<Rightarrow> ('d, 'p) shell_state option" where
  "write_line str = on_kernel (console_write_line (bytes_of str))"

definition done_line :: "string \<Rightarrow> ('d, 'p) shell_state \<Rightarrow> ('d, 'p) shell_outcome option" where
  "done_line str sh = map_option Running (write_line str sh)"

text \<open>A file-system operation on the volume.\<close>

definition on_volume ::
  "('d fat_state \<Rightarrow> ('r \<times> 'd fat_state) option) \<Rightarrow> ('d, 'p) shell_state \<Rightarrow> ('r \<times> ('d, 'p) shell_state) option" where
  "on_volume f sh = do {
     (r, v) \<leftarrow> f (volume (kernel sh)); Some (r, sh\<lparr>kernel := (kernel sh)\<lparr>volume := v\<rparr>\<rparr>) }"

subsection \<open>Output\<close>

definition shell_write_hex8 :: "u8 \<Rightarrow> 'a console_state_scheme \<Rightarrow> 'a console_state_scheme option" where
  "shell_write_hex8 value s = do {
     s \<leftarrow> console_write_char (bytes_of ''0123456789ABCDEF'' ! unat (drop_bit 4 value AND 0x0F)) s;
     console_write_char (bytes_of ''0123456789ABCDEF'' ! unat (value AND 0x0F)) s }"

definition shell_write_hex16 :: "u16 \<Rightarrow> 'a console_state_scheme \<Rightarrow> 'a console_state_scheme option" where
  "shell_write_hex16 value s = do { s \<leftarrow> shell_write_hex8 (ucast (drop_bit 8 value)) s; shell_write_hex8 (ucast value) s }"

definition print_device :: "PciDeviceInfo \<Rightarrow> 'a console_state_scheme \<Rightarrow> 'a console_state_scheme option" where
  "print_device dev s = do {
     s \<leftarrow> console_write (bytes_of ''bus '') s; s \<leftarrow> shell_write_hex8 (pa_bus (pci_address dev)) s;
     s \<leftarrow> console_write (bytes_of '' dev '') s; s \<leftarrow> shell_write_hex8 (pa_device (pci_address dev)) s;
     s \<leftarrow> console_write (bytes_of '' fn '') s; s \<leftarrow> shell_write_hex8 (pa_function (pci_address dev)) s;
     s \<leftarrow> console_write (bytes_of '' class '') s; s \<leftarrow> shell_write_hex8 (pci_class_code dev) s;
     s \<leftarrow> console_write (bytes_of '':'') s; s \<leftarrow> shell_write_hex8 (pci_subclass dev) s;
     s \<leftarrow> console_write (bytes_of '':'') s; s \<leftarrow> shell_write_hex8 (pci_prog_if dev) s;
     s \<leftarrow> console_write (bytes_of '' vendor '') s; s \<leftarrow> shell_write_hex16 (vendor_id dev) s;
     s \<leftarrow> console_write (bytes_of '' device '') s; s \<leftarrow> shell_write_hex16 (device_id dev) s;
     console_write_char 10 s }"

definition shell_print_pci_device :: "PciDeviceInfo \<Rightarrow> bool \<times> 'd kernel_state option \<Rightarrow> bool \<times> bool \<times> 'd kernel_state option" where
  "shell_print_pci_device dev context = (case context of (wrote_anything, k) \<Rightarrow> (True, True, Option.bind k (print_device dev)))"

definition shell_print_prompt :: "('d, 'p) shell_state \<Rightarrow> ('d, 'p) shell_state option" where
  "shell_print_prompt sh = on_kernel (\<lambda>k. do {
     k \<leftarrow> console_write (bytes_of ''FunnyOS:'') k;
     k \<leftarrow> console_write (cstr (g_cwd sh)) k;
     console_write (bytes_of ''> '') k }) sh"

definition shell_print_banner :: "('d, 'p) shell_state \<Rightarrow> ('d, 'p) shell_state option" where
  "shell_print_banner = on_kernel (\<lambda>k. do {
     k \<leftarrow> console_write_line (bytes_of ''========================================'') k;
     k \<leftarrow> console_write_line (bytes_of '' FunnyOS'') k;
     k \<leftarrow> console_write_line (bytes_of '' UEFI kernel + FAT32 shell'') k;
     k \<leftarrow> console_write_line (bytes_of '' Type 'help' to list commands.'') k;
     k \<leftarrow> console_write_line (bytes_of ''========================================'') k;
     console_write_char 10 k })"

definition shell_print_usage :: "string option \<Rightarrow> ('d, 'p) shell_state \<Rightarrow> ('d, 'p) shell_outcome option" where
  "shell_print_usage usage sh = (case usage of None \<Rightarrow> Some (Running sh) | Some u \<Rightarrow> done_line u sh)"

text \<open>The normalised path, or \<open>None\<close> behind the message.\<close>

definition resolve_path_or_print ::
  "bytes \<Rightarrow> ('d, 'p) shell_state \<Rightarrow> (bytes option \<times> ('d, 'p) shell_state) option" where
  "resolve_path_or_print input sh = do {
     p \<leftarrow> local_path (cstr (g_cwd sh)) input;
     case p of
       None \<Rightarrow> do { sh \<leftarrow> write_line ''invalid path'' sh; Some (None, sh) }
     | Some q \<Rightarrow> Some (Some q, sh) }"

definition fs_message :: "FsResult \<Rightarrow> bool \<Rightarrow> string option" where
  "fs_message result treat_dir_as_file =
     (case result of
        FS_OK \<Rightarrow> None
      | FS_NOT_FOUND \<Rightarrow> Some ''not found''
      | FS_ALREADY_EXISTS \<Rightarrow> Some ''already exists''
      | FS_NOT_A_DIRECTORY \<Rightarrow> Some ''not a directory''
      | FS_IS_A_DIRECTORY \<Rightarrow> Some (if treat_dir_as_file then ''not a file'' else ''not a directory'')
      | FS_DIRECTORY_NOT_EMPTY \<Rightarrow> Some ''directory not empty''
      | FS_INVALID_NAME \<Rightarrow> Some ''invalid path''
      | FS_NO_SPACE \<Rightarrow> Some ''fs error''
      | FS_IO_ERROR \<Rightarrow> Some ''fs error'')"

definition shell_print_fs_result :: "FsResult \<Rightarrow> bool \<Rightarrow> ('d, 'p) shell_state \<Rightarrow> ('d, 'p) shell_outcome option" where
  "shell_print_fs_result result treat_dir_as_file sh = shell_print_usage (fs_message result treat_dir_as_file) sh"

subsection \<open>Arguments\<close>

abbreviation skip_spaces :: "bytes \<Rightarrow> bytes" where
  "skip_spaces \<equiv> dropWhile k_is_space"

abbreviation word_of :: "bytes \<Rightarrow> bytes" where
  "word_of \<equiv> takeWhile (\<lambda>c. \<not> k_is_space c)"

abbreviation after_word :: "bytes \<Rightarrow> bytes" where
  "after_word \<equiv> dropWhile (\<lambda>c. \<not> k_is_space c)"

definition shell_split_write_args :: "bytes option \<Rightarrow> (bytes \<times> bytes) option" where
  "shell_split_write_args argument =
     (case argument of
        None \<Rightarrow> None
      | Some a \<Rightarrow>
          let a = skip_spaces a in
          if a = [] then None
          else if after_word a = [] then Some (word_of a, [])
          else Some (word_of a, skip_spaces (tl (after_word a))))"

definition shell_split_two_args :: "bytes option \<Rightarrow> (bytes \<times> bytes) option" where
  "shell_split_two_args argument =
     (case argument of
        None \<Rightarrow> None
      | Some a \<Rightarrow>
          let a = skip_spaces a in
          if a = [] then None
          else if after_word a = [] then None
          else let second = skip_spaces (tl (after_word a)) in
            if second = [] then None else Some (word_of a, word_of second))"

subsection \<open>Commands\<close>

definition print_entry :: "FsNodeInfo \<Rightarrow> 'a console_state_scheme \<Rightarrow> 'a console_state_scheme option" where
  "print_entry entry k = do {
     k \<leftarrow> console_write (fs_name entry) k;
     k \<leftarrow> (if fs_type entry = FS_NODE_DIR then console_write (bytes_of '' <DIR>'') k else Some k);
     console_write_char 10 k }"

definition shell_print_dir_entry :: "FsNodeInfo \<Rightarrow> bool \<times> 'd kernel_state option \<Rightarrow> bool \<times> bool \<times> 'd kernel_state option" where
  "shell_print_dir_entry entry context = (case context of (wrote_anything, k) \<Rightarrow> (True, True, Option.bind k (print_entry entry)))"

definition shell_print_file_chunk ::
  "bytes \<Rightarrow> u32 \<Rightarrow> FsReadContext \<times> 'd kernel_state option \<Rightarrow> bool \<times> FsReadContext \<times> 'd kernel_state option" where
  "shell_print_file_chunk data len context = (case context of (rc, k) \<Rightarrow>
     (True, if len \<noteq> 0 then \<lparr>rc_wrote_anything = True, rc_last_char = data ! (unat len - 1)\<rparr> else rc,
      Option.bind k (console_write_n data (unat len))))"

definition shell_command_help :: "bytes option \<Rightarrow> ('d, 'p) shell_state \<Rightarrow> ('d, 'p) shell_outcome option" where
  "shell_command_help argument =
     done_line ''Commands: help ls cd pwd cat clear mkdir write append rm mv memstat blockinfo lspci panic fault''"

text \<open>\<open>fs_list_dir\<close> with the printing callback: the volume it leaves and the console the callback has printed on.\<close>

definition list_path :: "bytes \<Rightarrow> ('d, 'p) shell_state \<Rightarrow> ('d, 'p) shell_outcome option" where
  "list_path p sh = do {
     (result, context, v) \<leftarrow> fs_list_dir (Some p) (Some shell_print_dir_entry) (False, Some (kernel sh)) (volume (kernel sh));
     k \<leftarrow> snd context;
     shell_print_fs_result result False (sh\<lparr>kernel := k\<lparr>volume := v\<rparr>\<rparr>) }"

text \<open>The checks that \<open>ls\<close> and \<open>cd\<close> make of a path other than the root: \<open>Inl\<close> when the command ends here.\<close>

definition directory_or_print ::
  "bytes \<Rightarrow> ('d, 'p) shell_state \<Rightarrow> (('d, 'p) shell_outcome + ('d, 'p) shell_state) option" where
  "directory_or_print p sh = do {
     (node, sh) \<leftarrow> on_volume (fs_stat (Some p) True) sh;
     case node of
       Inl e \<Rightarrow> map_option Inl (done_line ''not found'' sh)
     | Inr n \<Rightarrow> if fs_type n \<noteq> FS_NODE_DIR then map_option Inl (done_line ''not a directory'' sh) else Some (Inr sh) }"

definition shell_command_ls :: "bytes option \<Rightarrow> ('d, 'p) shell_state \<Rightarrow> ('d, 'p) shell_outcome option" where
  "shell_command_ls argument sh = do {
     (p, sh) \<leftarrow> (case argument of
         None \<Rightarrow> do { p \<leftarrow> k_strcpy (replicate PATH_CAPACITY 0) (g_cwd sh); Some (Some (cstr p), sh) }
       | Some a \<Rightarrow> if a = [] then do { p \<leftarrow> k_strcpy (replicate PATH_CAPACITY 0) (g_cwd sh); Some (Some (cstr p), sh) }
                   else resolve_path_or_print a sh);
     case p of
       None \<Rightarrow> Some (Running sh)
     | Some p \<Rightarrow>
         if p = [47] then list_path p sh
         else do {
           r \<leftarrow> directory_or_print p sh;
           case r of Inl out \<Rightarrow> Some out | Inr sh \<Rightarrow> list_path p sh } }"

definition set_cwd :: "bytes \<Rightarrow> ('d, 'p) shell_state \<Rightarrow> ('d, 'p) shell_outcome option" where
  "set_cwd p sh = do { cwd \<leftarrow> k_strcpy (g_cwd sh) (p @ [0]); Some (Running (sh\<lparr>g_cwd := cwd\<rparr>)) }"

text \<open>A command with a path argument: the usage line without one, and nothing more when the path is refused.\<close>

definition with_path ::
  "string \<Rightarrow> bytes option \<Rightarrow> (bytes \<Rightarrow> ('d, 'p) shell_state \<Rightarrow> ('d, 'p) shell_outcome option) \<Rightarrow>
     ('d, 'p) shell_state \<Rightarrow> ('d, 'p) shell_outcome option" where
  "with_path usage argument f sh =
     (if argument = None \<or> argument = Some [] then done_line usage sh
      else do {
        (p, sh) \<leftarrow> resolve_path_or_print (the argument) sh;
        case p of None \<Rightarrow> Some (Running sh) | Some p \<Rightarrow> f p sh })"

definition shell_command_cd :: "bytes option \<Rightarrow> ('d, 'p) shell_state \<Rightarrow> ('d, 'p) shell_outcome option" where
  "shell_command_cd argument = with_path ''usage: cd <path>'' argument (\<lambda>p sh.
     if p = [47] then set_cwd p sh
     else do {
       r \<leftarrow> directory_or_print p sh;
       case r of Inl out \<Rightarrow> Some out | Inr sh \<Rightarrow> set_cwd p sh })"

definition shell_command_pwd :: "bytes option \<Rightarrow> ('d, 'p) shell_state \<Rightarrow> ('d, 'p) shell_outcome option" where
  "shell_command_pwd argument sh = map_option Running (on_kernel (console_write_line (cstr (g_cwd sh))) sh)"

definition shell_command_cat :: "bytes option \<Rightarrow> ('d, 'p) shell_state \<Rightarrow> ('d, 'p) shell_outcome option" where
  "shell_command_cat argument = with_path ''usage: cat <path>'' argument (\<lambda>p sh. do {
     (node, sh) \<leftarrow> on_volume (fs_stat (Some p) True) sh;
     case node of
       Inl e \<Rightarrow> done_line ''not found'' sh
     | Inr n \<Rightarrow>
         if fs_type n = FS_NODE_DIR then done_line ''not a file'' sh
         else do {
           (result, context, v) \<leftarrow> fs_read_file (Some p) (Some shell_print_file_chunk)
              (\<lparr>rc_wrote_anything = False, rc_last_char = 0\<rparr>, Some (kernel sh)) (volume (kernel sh));
           k \<leftarrow> snd context;
           let sh = sh\<lparr>kernel := k\<lparr>volume := v\<rparr>\<rparr>;
           if result \<noteq> FS_OK then done_line ''fs error'' sh
           else if \<not> rc_wrote_anything (fst context) \<or> rc_last_char (fst context) \<noteq> 10
           then map_option Running (on_kernel (console_write_char 10) sh)
           else Some (Running sh) } })"

definition shell_command_clear :: "bytes option \<Rightarrow> ('d, 'p) shell_state \<Rightarrow> ('d, 'p) shell_outcome option" where
  "shell_command_clear argument sh = map_option Running (on_kernel console_clear sh)"

definition shell_command_mkdir :: "bytes option \<Rightarrow> ('d, 'p) shell_state \<Rightarrow> ('d, 'p) shell_outcome option" where
  "shell_command_mkdir argument = with_path ''usage: mkdir <path>'' argument (\<lambda>p sh. do {
     (result, sh) \<leftarrow> on_volume (fs_make_dir (Some p)) sh; shell_print_fs_result result False sh })"

text \<open>\<open>argument\<close> is copied into a buffer of \<open>SHELL_LINE_CAPACITY\<close> bytes and split there.\<close>

definition shell_command_write_internal ::
  "bytes option \<Rightarrow> bool \<Rightarrow> ('d, 'p) shell_state \<Rightarrow> ('d, 'p) shell_outcome option" where
  "shell_command_write_internal argument app sh =
     (let usage = (if app then ''usage: append <path> <text>'' else ''usage: write <path> <text>'') in
      case argument of
        None \<Rightarrow> done_line usage sh
      | Some a \<Rightarrow> do {
          mutable_argument \<leftarrow> k_strcpy (replicate SHELL_LINE_CAPACITY 0) (a @ [0]);
          case shell_split_write_args (Some (cstr mutable_argument)) of
            None \<Rightarrow> done_line usage sh
          | Some (path_arg, text_arg) \<Rightarrow> do {
              (p, sh) \<leftarrow> resolve_path_or_print path_arg sh;
              case p of
                None \<Rightarrow> Some (Running sh)
              | Some p \<Rightarrow> do {
                  (result, sh) \<leftarrow> on_volume (fs_write_file (Some p) (Some text_arg) (of_nat (length text_arg)) app) sh;
                  shell_print_fs_result result True sh } } })"

definition shell_command_write :: "bytes option \<Rightarrow> ('d, 'p) shell_state \<Rightarrow> ('d, 'p) shell_outcome option" where
  "shell_command_write argument = shell_command_write_internal argument False"

definition shell_command_append :: "bytes option \<Rightarrow> ('d, 'p) shell_state \<Rightarrow> ('d, 'p) shell_outcome option" where
  "shell_command_append argument = shell_command_write_internal argument True"

definition shell_command_rm :: "bytes option \<Rightarrow> ('d, 'p) shell_state \<Rightarrow> ('d, 'p) shell_outcome option" where
  "shell_command_rm argument = with_path ''usage: rm <path>'' argument (\<lambda>p sh. do {
     (result, sh) \<leftarrow> on_volume (fs_remove (Some p)) sh; shell_print_fs_result result False sh })"

definition shell_command_mv :: "bytes option \<Rightarrow> ('d, 'p) shell_state \<Rightarrow> ('d, 'p) shell_outcome option" where
  "shell_command_mv argument sh =
     (case argument of
        None \<Rightarrow> done_line ''usage: mv <old> <new>'' sh
      | Some a \<Rightarrow> do {
          mutable_argument \<leftarrow> k_strcpy (replicate SHELL_LINE_CAPACITY 0) (a @ [0]);
          case shell_split_two_args (Some (cstr mutable_argument)) of
            None \<Rightarrow> done_line ''usage: mv <old> <new>'' sh
          | Some (old_arg, new_arg) \<Rightarrow> do {
              (old, sh) \<leftarrow> resolve_path_or_print old_arg sh;
              case old of
                None \<Rightarrow> Some (Running sh)
              | Some old_path \<Rightarrow> do {
                  (new, sh) \<leftarrow> resolve_path_or_print new_arg sh;
                  case new of
                    None \<Rightarrow> Some (Running sh)
                  | Some new_path \<Rightarrow> do {
                      (result, sh) \<leftarrow> on_volume (fs_rename (Some old_path) (Some new_path)) sh;
                      shell_print_fs_result result False sh } } } })"

text \<open>The digits of \<open>value\<close>, pushed in the order they leave the buffer; \<open>room\<close> is what is left of the 32 bytes.\<close>

fun memory_digits :: "nat \<Rightarrow> u64 \<Rightarrow> bytes \<Rightarrow> bytes option" where
  "memory_digits 0 value digits = (if value = 0 then Some digits else None)"
| "memory_digits (Suc room) value digits =
     (if value = 0 then Some digits else memory_digits room (value div 10) (ucast (48 + value mod 10) # digits))"

definition memory_write_decimal :: "u64 \<Rightarrow> 'a console_state_scheme \<Rightarrow> 'a console_state_scheme option" where
  "memory_write_decimal value s =
     (if value = 0 then console_write_char 48 s
      else do { digits \<leftarrow> memory_digits 32 value []; for_each console_write_char digits s })"

definition memory_dump_stats :: "memory_state \<Rightarrow> 'a console_state_scheme \<Rightarrow> 'a console_state_scheme option" where
  "memory_dump_stats m s = do {
     s \<leftarrow> console_write (bytes_of ''memory: total pages='') s;
     s \<leftarrow> memory_write_decimal (memory_total_pages m) s;
     s \<leftarrow> console_write (bytes_of '' free pages='') s;
     s \<leftarrow> memory_write_decimal (memory_free_pages m) s;
     s \<leftarrow> console_write (bytes_of '' free bytes='') s;
     s \<leftarrow> memory_write_decimal (memory_free_pages m * PAGE_SIZE) s;
     console_write_char 10 s }"

definition shell_command_memstat :: "bytes option \<Rightarrow> ('d, 'p) shell_state \<Rightarrow> ('d, 'p) shell_outcome option" where
  "shell_command_memstat argument sh = map_option Running (on_kernel (memory_dump_stats (pg_mem (paging (kernel sh)))) sh)"

definition shell_command_blockinfo :: "bytes option \<Rightarrow> ('d, 'p) shell_state \<Rightarrow> ('d, 'p) shell_outcome option" where
  "shell_command_blockinfo argument sh = do {
     sh \<leftarrow> on_kernel (console_write (bytes_of ''block backend: '')) sh;
     done_line (case backend (g_block_device (volume (kernel sh))) of
       BLOCK_BACKEND_AHCI \<Rightarrow> ''ahci'' | BLOCK_BACKEND_ATA_PIO \<Rightarrow> ''ata-pio'' | BLOCK_BACKEND_NONE \<Rightarrow> ''none'') sh }"

definition shell_command_lspci :: "'p ports \<Rightarrow> bytes option \<Rightarrow> ('d, 'p) shell_state \<Rightarrow> ('d, 'p) shell_outcome option" where
  "shell_command_lspci io argument sh =
     (if \<not> pci_available (sh_pci sh) then done_line ''pci unavailable'' sh
      else case pci_enumerate io (Some shell_print_pci_device) (False, Some (kernel sh)) (sh_pci sh) of
        ((wrote_anything, k), p) \<Rightarrow> do {
          k \<leftarrow> k;
          let sh = sh\<lparr>kernel := k, sh_pci := p\<rparr>;
          if \<not> wrote_anything then done_line ''no pci devices found'' sh else Some (Running sh) })"

definition halt_with ::
  "('d kernel_state \<Rightarrow> (bool \<times> 'd kernel_state) option) \<Rightarrow> ('d, 'p) shell_state \<Rightarrow> ('d, 'p) shell_outcome option" where
  "halt_with f sh = do { (active, k) \<leftarrow> f (kernel sh); Some (Halted (sh\<lparr>kernel := k, g_panic_active := active\<rparr>)) }"

definition shell_command_panic :: "bytes option \<Rightarrow> ('d, 'p) shell_state \<Rightarrow> ('d, 'p) shell_outcome option" where
  "shell_command_panic argument sh = halt_with (panic (Some (bytes_of ''Shell requested panic'')) (g_panic_active sh)) sh"

text \<open>An instruction of the kernel faults: the processor builds a frame and \<open>interrupt_dispatch\<close> runs. It
  does not come back to an instruction that faults again, nor to a program that does not run.\<close>

definition kernel_fault :: "u64 \<Rightarrow> 'p shell_env \<Rightarrow> ('d, 'p) shell_state \<Rightarrow> ('d, 'p) shell_outcome option" where
  "kernel_fault vector env sh =
     (let frame = Some ((sh_frame env)\<lparr>tf_vector := vector\<rparr>) in do {
        (next_step, k) \<leftarrow> interrupt_dispatch frame (kernel sh);
        case next_step of
          Panic \<Rightarrow> halt_with (panic_with_frame (sh_cr2 env) (Some (bytes_of ''CPU exception'')) frame (g_panic_active sh)) (sh\<lparr>kernel := k\<rparr>)
        | _ \<Rightarrow> None })"

definition trap_trigger_invalid_opcode :: "'p shell_env \<Rightarrow> ('d, 'p) shell_state \<Rightarrow> ('d, 'p) shell_outcome option" where
  "trap_trigger_invalid_opcode = kernel_fault 6"

definition trap_trigger_page_fault :: "'p shell_env \<Rightarrow> ('d, 'p) shell_state \<Rightarrow> ('d, 'p) shell_outcome option" where
  "trap_trigger_page_fault = kernel_fault 14"

definition shell_command_fault :: "'p shell_env \<Rightarrow> bytes option \<Rightarrow> ('d, 'p) shell_state \<Rightarrow> ('d, 'p) shell_outcome option" where
  "shell_command_fault env argument sh =
     (if argument = None \<or> argument = Some [] then done_line ''usage: fault <ud2|pf>'' sh
      else if k_strcmp (the argument @ [0]) (bytes_of ''ud2'' @ [0]) = Some 0 then trap_trigger_invalid_opcode env sh
      else if k_strcmp (the argument @ [0]) (bytes_of ''pf'' @ [0]) = Some 0 then trap_trigger_page_fault env sh
      else done_line ''usage: fault <ud2|pf>'' sh)"

subsection \<open>The loop\<close>

record ('d, 'p) ShellCommand =
  cmd_name :: string
  cmd_usage :: "string option"
  cmd_handler :: "'p shell_env \<Rightarrow> bytes option \<Rightarrow> ('d, 'p) shell_state \<Rightarrow> ('d, 'p) shell_outcome option"

definition g_commands :: "('d, 'p) ShellCommand list" where
  "g_commands =
     [\<lparr>cmd_name = ''help'', cmd_usage = None, cmd_handler = (\<lambda>env. shell_command_help)\<rparr>,
      \<lparr>cmd_name = ''ls'', cmd_usage = None, cmd_handler = (\<lambda>env. shell_command_ls)\<rparr>,
      \<lparr>cmd_name = ''cd'', cmd_usage = Some ''usage: cd <path>'', cmd_handler = (\<lambda>env. shell_command_cd)\<rparr>,
      \<lparr>cmd_name = ''pwd'', cmd_usage = None, cmd_handler = (\<lambda>env. shell_command_pwd)\<rparr>,
      \<lparr>cmd_name = ''cat'', cmd_usage = Some ''usage: cat <path>'', cmd_handler = (\<lambda>env. shell_command_cat)\<rparr>,
      \<lparr>cmd_name = ''clear'', cmd_usage = None, cmd_handler = (\<lambda>env. shell_command_clear)\<rparr>,
      \<lparr>cmd_name = ''mkdir'', cmd_usage = Some ''usage: mkdir <path>'', cmd_handler = (\<lambda>env. shell_command_mkdir)\<rparr>,
      \<lparr>cmd_name = ''write'', cmd_usage = Some ''usage: write <path> <text>'', cmd_handler = (\<lambda>env. shell_command_write)\<rparr>,
      \<lparr>cmd_name = ''append'', cmd_usage = Some ''usage: append <path> <text>'', cmd_handler = (\<lambda>env. shell_command_append)\<rparr>,
      \<lparr>cmd_name = ''rm'', cmd_usage = Some ''usage: rm <path>'', cmd_handler = (\<lambda>env. shell_command_rm)\<rparr>,
      \<lparr>cmd_name = ''mv'', cmd_usage = Some ''usage: mv <old> <new>'', cmd_handler = (\<lambda>env. shell_command_mv)\<rparr>,
      \<lparr>cmd_name = ''memstat'', cmd_usage = None, cmd_handler = (\<lambda>env. shell_command_memstat)\<rparr>,
      \<lparr>cmd_name = ''blockinfo'', cmd_usage = None, cmd_handler = (\<lambda>env. shell_command_blockinfo)\<rparr>,
      \<lparr>cmd_name = ''lspci'', cmd_usage = None, cmd_handler = (\<lambda>env. shell_command_lspci (sh_io env))\<rparr>,
      \<lparr>cmd_name = ''panic'', cmd_usage = None, cmd_handler = (\<lambda>env. shell_command_panic)\<rparr>,
      \<lparr>cmd_name = ''fault'', cmd_usage = Some ''usage: fault <ud2|pf>'', cmd_handler = shell_command_fault\<rparr>]"

fun find_command :: "bytes \<Rightarrow> ('d, 'p) ShellCommand list \<Rightarrow> ('d, 'p) ShellCommand option" where
  "find_command name [] = None"
| "find_command name (c # cs) =
     (if k_strcmp (name @ [0]) (bytes_of (cmd_name c) @ [0]) = Some 0 then Some c else find_command name cs)"

definition shell_find_command :: "bytes \<Rightarrow> ('d, 'p) ShellCommand option" where
  "shell_find_command name = find_command name g_commands"

definition shell_execute ::
  "'p shell_env \<Rightarrow> user_act list \<Rightarrow> bytes \<Rightarrow> ('d, 'p) shell_state \<Rightarrow> ('d, 'p) shell_outcome option" where
  "shell_execute env acts line sh =
     (let command = skip_spaces line in
      if command = [] then Some (Running sh)
      else
        let rest = after_word command;
            argument = (if rest = [] then None else Some (skip_spaces (tl rest)));
            command = word_of command
        in case shell_find_command command of
             None \<Rightarrow> do {
               (dispatch_result, k) \<leftarrow> program_dispatch (sh_process env) acts (Some command) argument (Some (cstr (g_cwd sh))) (kernel sh);
               if dispatch_result = PROGRAM_DISPATCH_NOT_FOUND then done_line ''unknown command'' (sh\<lparr>kernel := k\<rparr>)
               else Some (Running (sh\<lparr>kernel := k\<rparr>)) }
           | Some c \<Rightarrow> cmd_handler c env argument sh)"

text \<open>A prompt, and the line read into the buffer \<open>line\<close>.\<close>

definition shell_read_line :: "bool \<Rightarrow> bytes \<Rightarrow> ('d, 'p) shell_state \<Rightarrow> (bytes \<times> ('d, 'p) shell_state) option" where
  "shell_read_line first_prompt line sh = do {
     sh \<leftarrow> (if \<not> first_prompt then on_kernel (console_write_char 10) sh else Some sh);
     sh \<leftarrow> shell_print_prompt sh;
     (n, line, k) \<leftarrow> keyboard_read_line line (of_nat SHELL_LINE_CAPACITY) (kernel sh);
     Some (line, sh\<lparr>kernel := k\<rparr>) }"

text \<open>One turn. \<open>acts\<close> is what a program does if the turn runs one.\<close>

definition shell_turn ::
  "'p shell_env \<Rightarrow> user_act list \<Rightarrow> bool \<Rightarrow> bytes \<Rightarrow> ('d, 'p) shell_state \<Rightarrow> (bytes \<times> ('d, 'p) shell_outcome) option" where
  "shell_turn env acts first_prompt line sh = do {
     (line, sh) \<leftarrow> shell_read_line first_prompt line sh;
     out \<leftarrow> shell_execute env acts (cstr line) sh;
     Some (line, out) }"

text \<open>The first turns of the endless loop.\<close>

fun shell_loop ::
  "'p shell_env \<Rightarrow> user_act list list \<Rightarrow> bool \<Rightarrow> bytes \<Rightarrow> ('d, 'p) shell_state \<Rightarrow> ('d, 'p) shell_outcome option" where
  "shell_loop env [] first_prompt line sh = Some (Running sh)"
| "shell_loop env (acts # turns) first_prompt line sh = do {
     (line, out) \<leftarrow> shell_turn env acts first_prompt line sh;
     case out of Halted sh \<Rightarrow> Some (Halted sh) | Running sh \<Rightarrow> shell_loop env turns False line sh }"

definition shell_run :: "'p shell_env \<Rightarrow> user_act list list \<Rightarrow> bytes \<Rightarrow> ('d, 'p) shell_state \<Rightarrow> ('d, 'p) shell_outcome option" where
  "shell_run env turns line sh = do { sh \<leftarrow> shell_print_banner sh; shell_loop env turns True line sh }"

end
