(* ===== verification/ShellSafe.thy ===== *)
theory ShellSafe
  imports Shell
begin

text \<open>
  What the shell may do to the kernel: a line that changes no file leaves it idle with its memory, its mapping
  and its volume as they were, whatever program the line runs; and the current directory stays canonical.
\<close>

subsection \<open>What a callback keeps\<close>

text \<open>A property of the context that the callback keeps holds when the walk is over.\<close>

lemma list_entries_keeps:
  assumes "\<And>e c. P c \<Longrightarrow> P (snd (cb e c))"
  shows "list_entries cb es lfn ctx = Some (ended, lfn', ctx') \<Longrightarrow> P ctx \<Longrightarrow> P ctx'"
proof (induction es arbitrary: lfn ctx)
  case (Cons e es)
  show ?case
  proof (cases "de_name e ! 0 \<noteq> 0 \<and> de_name e ! 0 \<noteq> FAT32_DELETED \<and> attributes e \<noteq> FAT32_LFN \<and> \<not> should_skip_entry e \<and>
      de_name e ! 0 \<noteq> 46")
    case True
    then obtain info where info: "decode_node_info e (decode_directory_entry_name e lfn) = Some info"
      using Cons.prems(1) by (auto split: Option.bind_splits)
    obtain go c where cb: "cb info ctx = (go, c)" by fastforce
    have "P c" using assms [OF Cons.prems(2), of info] cb by simp
    then show ?thesis using Cons.IH [of "lfn_state_reset lfn" c] Cons.prems(1) True info cb by (auto split: if_splits)
  next
    case False
    then show ?thesis using Cons by (auto split: if_splits)
  qed
qed simp

lemma list_cluster_keeps:
  fixes v :: "'d fat_state"
  assumes "\<And>e c. P c \<Longrightarrow> P (snd (cb e c))"
    and "list_cluster_loop cb cl lfn ctx v = Some (r, ctx', w)" and "P ctx"
  shows "P ctx'"
proof -
  let ?Q = "\<lambda>f (cl :: u32) (lfn :: LfnState) ctx (v :: 'd fat_state) y. f = cb \<longrightarrow> P ctx \<longrightarrow> P (fst (snd y))"
  have "?Q f cl lfn ctx v y" if "list_cluster_loop f cl lfn ctx v = Some y" for f cl lfn ctx y and v :: "'d fat_state"
  proof (rule list_cluster_loop.raw_induct [of ?Q, OF _ that])
    fix loop :: "_ \<Rightarrow> _ \<Rightarrow> _ \<Rightarrow> _ \<Rightarrow> 'd fat_state \<Rightarrow> _" and f cl lfn ctx y and v :: "'d fat_state"
    assume IH: "\<And>f cl lfn ctx v y. loop f cl lfn ctx v = Some y \<Longrightarrow> ?Q f cl lfn ctx v y"
      and body: "(if \<not> in_chain cl then Some (FAT32_OK, ctx, v)
        else case read_cluster cl v of (ok, v1) \<Rightarrow>
          if \<not> ok then Some (FAT32_IO_ERROR, ctx, v1)
          else case list_entries f (cluster_entries v1) lfn ctx of
            None \<Rightarrow> None
          | Some (ended, lfn', ctx') \<Rightarrow>
              if ended then Some (FAT32_OK, ctx', v1) else loop f (fat32_next_cluster cl v1) lfn' ctx' v1) = Some y"
    obtain ok v1 where rd: "read_cluster cl v = (ok, v1)" by fastforce
    show "?Q f cl lfn ctx v y"
    proof (cases "in_chain cl \<and> ok")
      case True
      then obtain ended lfn' c where le: "list_entries f (cluster_entries v1) lfn ctx = Some (ended, lfn', c)"
        using body by (auto simp: rd split: option.splits)
      show ?thesis
        using list_entries_keeps [of P cb _ lfn ctx ended lfn' c, OF assms(1)] le body True IH [of f _ lfn' c v1 y]
        by (auto simp: rd split: if_splits)
    qed (use body in \<open>auto simp: rd split: if_splits\<close>)
  qed
  from this [OF assms(2)] assms(3) show ?thesis by simp
qed

lemma fs_list_dir_keeps:
  assumes "fs_list_dir p (Some cb) ctx v = Some (r, ctx', w)" and "\<And>e c. P c \<Longrightarrow> P (snd (cb e c))" and "P ctx"
  shows "P ctx'"
proof -
  have k: "\<And>e c. P c \<Longrightarrow> P (snd (fs_list_adapter cb e c))" using assms(2) by (simp add: fs_list_adapter_def)
  show ?thesis
    using assms(1,3) list_cluster_keeps [of P "fs_list_adapter cb", OF k]
    by (auto simp: fs_list_dir_def fat32_list_dir_def list_cluster_dir_def split: if_splits sum.splits option.splits Option.bind_splits)
qed

lemma read_loop_keeps:
  assumes keep: "\<And>bs n c. length bs = unat n \<Longrightarrow> P c \<Longrightarrow> P (snd (cb bs n c))"
  shows "vol_ok view v \<Longrightarrow> read_file_loop cb remaining cl ctx v = Some (r, ctx', w) \<Longrightarrow> P ctx \<Longrightarrow> P ctx'"
proof (induction "unat remaining" arbitrary: remaining cl ctx v rule: less_induct)
  case less
  obtain ok v1 where rd: "read_cluster cl v = (ok, v1)" by fastforce
  have l1: "looked view v v1" by (rule looked_read [OF less.prems(1) rd])
  define chunk where "chunk = (if g_cluster_size v > remaining then remaining else g_cluster_size v)"
  obtain go ctx1 where cb: "cb (take (unat chunk) (g_cluster_buffer v1)) chunk ctx = (go, ctx1)" by fastforce
  have size: "512 \<le> unat (g_cluster_size v)" "unat (g_cluster_size v) \<le> 4096"
    using vol_csize [OF less.prems(1)] by (simp_all add: cluster_bytes_size_def)
  have "length (take (unat chunk) (g_cluster_buffer v1)) = unat chunk"
    using size looked_vol [OF l1] by (auto simp: chunk_def vol_ok_def FAT32_MAX_CLUSTER_SECTORS_def SECTOR_def word_less_nat_alt)
  from keep [OF this less.prems(3)] have P1: "P ctx1" by (simp add: cb)
  note unf = read_file_loop.simps [of cb remaining cl ctx v]
  show ?case
  proof (cases "remaining > 0 \<and> in_chain cl")
    case False
    then show ?thesis using less.prems by (auto simp: unf)
  next
    case True
    have run: "read_file_loop cb remaining cl ctx v =
      (if \<not> ok then Some (FAT32_IO_ERROR, ctx, v1)
       else if \<not> go then Some (FAT32_IO_ERROR, ctx1, v1)
       else read_file_loop cb (remaining - chunk) (fat32_next_cluster cl v1) ctx1 v1)"
      unfolding unf eqTrueI [OF True] if_True rd prod.case Let_def chunk_def [symmetric] cb ..
    have "unat remaining \<noteq> 0" using True by (auto simp: unat_eq_0)
    then have "0 < unat chunk" "unat chunk \<le> unat remaining" using size by (auto simp: chunk_def word_less_nat_alt)
    then have "unat (remaining - chunk) < unat remaining" by (simp add: unat_diff_small)
    from less.hyps [OF this looked_vol [OF l1] _ P1] show ?thesis
      using less.prems(2,3) P1 unfolding run by (auto split: if_splits)
  qed
qed

lemma fs_read_file_keeps:
  assumes "readable view v" and "fs_read_file (Some p) (Some cb) ctx v = Some (r, ctx', w)"
    and "\<And>bs n c. length bs = unat n \<Longrightarrow> P c \<Longrightarrow> P (snd (cb bs n c))" and "P ctx"
  shows "P ctx'"
proof (cases "g_mounted v")
  case True
  have k: "\<And>bs n c. length bs = unat n \<Longrightarrow> P c \<Longrightarrow> P (snd (fs_read_adapter cb bs n c))"
    using assms(3) by (simp add: fs_read_adapter_def)
  obtain x t where r: "resolve_path p v = Some (x, t)" "looked view v t"
    using resolve_path_returns [of v view p] assms(1) True by (auto simp: readable_def)
  show ?thesis
    using assms(2,4) r(1) read_loop_keeps [of P "fs_read_adapter cb", OF k looked_vol [OF r(2)]]
    by (auto simp: fs_read_file_def fat32_read_file_def split: if_splits sum.splits option.splits Option.bind_splits)
next
  case False
  then show ?thesis using assms(2,4) by (auto simp: fs_read_file_def fat32_read_file_def)
qed

lemma visit_functions_keeps:
  assumes "\<And>i c. P c \<Longrightarrow> P (snd (visit i c))"
  shows "P ctx \<Longrightarrow> P (fst (snd (visit_functions io visit bus device fs ctx s)))"
proof (induction fs arbitrary: ctx s)
  case (Cons f fs)
  have "P c" if "visit i ctx = (go, c)" for i go c using assms [OF Cons.prems, of i] that by simp
  then show ?case using Cons by (auto split: prod.splits option.splits)
qed simp

lemma visit_devices_keeps:
  assumes keep: "\<And>i c. P c \<Longrightarrow> P (snd (visit i c))"
  shows "P ctx \<Longrightarrow> P (fst (visit_devices io visit places ctx s))"
proof (induction places arbitrary: ctx s)
  case (Cons p places)
  obtain bus device where p: "p = (bus, device)" by fastforce
  have one: "P c" if "visit i ctx = (go, c)" for i go c using keep [OF Cons.prems, of i] that by simp
  have more: "P c'" if "P c" "visit_functions io visit b d fs c t = (go, c', t')" for b d fs c t go c' t'
    using visit_functions_keeps [of P visit, OF keep that(1), of io b d fs t] that(2) by simp
  obtain x t where rd: "pci_read_device_info io (Some \<lparr>pa_bus = of_nat bus, pa_device = of_nat device, pa_function = 0\<rparr>) True s = (x, t)"
    by fastforce
  show ?case
  proof (cases x)
    case None
    then show ?thesis using Cons by (simp add: p rd)
  next
    case (Some i)
    obtain go c where v: "visit i ctx = (go, c)" by fastforce
    let ?limit = "if header_type i AND 0x80 \<noteq> 0 then unat PCI_MAX_FUNCTION_COUNT else 1"
    obtain go' c' t' where f: "visit_functions io visit (of_nat bus) (of_nat device) [1..<?limit] c t = (go', c', t')"
      by (metis prod_cases3)
    have "P c'" by (rule more [OF one [OF v] f])
    then show ?thesis using Cons.IH [of c' t'] one [OF v] f by (simp add: p rd Some v Let_def del: upt_eq_Nil_conv)
  qed
qed simp

lemma pci_enumerate_keeps:
  "(\<And>i c. P c \<Longrightarrow> P (snd (visit i c))) \<Longrightarrow> P ctx \<Longrightarrow> P (fst (pci_enumerate io (Some visit) ctx s))"
  by (simp add: pci_enumerate_def visit_devices_keeps)


subsection \<open>Commands that print and look\<close>

definition canonical_path :: "bytes \<Rightarrow> bool" where
  "canonical_path p \<longleftrightarrow> length p < PATH_CAPACITY \<and> (\<exists>comps. list_all canonical_component comps \<and> p = render comps)"

definition cwd_ok :: "bytes \<Rightarrow> bool" where
  "cwd_ok cwd \<longleftrightarrow> length cwd = PATH_CAPACITY \<and> 0 \<in> set cwd \<and> canonical_path (cstr cwd)"

definition shell_ready :: "('v \<Rightarrow> nat \<Rightarrow> bytes) \<Rightarrow> ('v, 'p) shell_state \<Rightarrow> bool" where
  "shell_ready view s \<longleftrightarrow> console_ok (kernel s) \<and> readable view (volume (kernel s)) \<and> cwd_ok (g_cwd s)"

text \<open>Only messages were written and files looked at.\<close>

definition spoke :: "('d, 'p) shell_state \<Rightarrow> ('d, 'p) shell_state \<Rightarrow> bool" where
  "spoke s t \<longleftrightarrow> only_spoke (kernel s) (kernel t) \<and> g_cwd t = g_cwd s \<and> g_panic_active t = g_panic_active s"

lemma spoke_trans: "spoke s t \<Longrightarrow> spoke t u \<Longrightarrow> spoke s u"
  using only_spoke_trans by (auto simp: spoke_def)

lemma spoke_refl: "shell_ready view s \<Longrightarrow> spoke s s"
  by (simp add: spoke_def shell_ready_def only_spoke_refl)

lemma spoke_ready: "spoke s t \<Longrightarrow> shell_ready view s \<Longrightarrow> shell_ready view t"
  using only_looked_readable by (auto simp: spoke_def shell_ready_def only_spoke_def)

lemma canonical_nul_free: "canonical_path p \<Longrightarrow> nul_free p"
  using nul_free_render by (auto simp: canonical_path_def)

lemma canonical_short: "canonical_path p \<Longrightarrow> length p < FS_NAME_CAPACITY"
  by (simp add: canonical_path_def PATH_CAPACITY_def FS_NAME_CAPACITY_def)

text \<open>A command, or the rest of one, that ends with nothing but words said.\<close>

definition answers :: "('d \<Rightarrow> nat \<Rightarrow> bytes) \<Rightarrow> (('d, 'p) shell_state \<Rightarrow> ('d, 'p) shell_outcome option) \<Rightarrow> bool" where
  "answers view f \<longleftrightarrow> (\<forall>s. shell_ready view s \<longrightarrow> (\<exists>t. f s = Some (Running t) \<and> spoke s t))"

lemma answersD: "answers view f \<Longrightarrow> shell_ready view s \<Longrightarrow> \<exists>t. f s = Some (Running t) \<and> spoke s t"
  by (simp add: answers_def)

lemma answers_after: "answers view f \<Longrightarrow> shell_ready view s \<Longrightarrow> spoke s t \<Longrightarrow> \<exists>u. f t = Some (Running u) \<and> spoke s u"
  using answersD [of view f t] spoke_ready [of s t view] spoke_trans [of s t] by blast

text \<open>An output that only moves the cursor and paints.\<close>

definition speaks :: "('d kernel_state \<Rightarrow> 'd kernel_state option) \<Rightarrow> bool" where
  "speaks f \<longleftrightarrow> (\<forall>k. console_ok k \<longrightarrow> (\<exists>t. f k = Some t \<and> only_spoke k t))"

lemma speaksI: "(\<And>k. console_ok k \<Longrightarrow> \<exists>t. f k = Some t \<and> console_ok t \<and> moves k t) \<Longrightarrow> speaks f"
  using only_spoke_moves unfolding speaks_def by blast

lemma speaks_prints: "prints f str \<Longrightarrow> speaks f"
  by (rule speaksI) (rule prints_returns)

lemma speaks_bind:
  fixes f g :: "'d kernel_state \<Rightarrow> 'd kernel_state option"
  shows "speaks f \<Longrightarrow> speaks g \<Longrightarrow> speaks (\<lambda>k. do { k \<leftarrow> f k; g k })"
  unfolding speaks_def
proof (intro allI impI)
  fix k :: "'d kernel_state"
  assume f: "\<forall>k. console_ok k \<longrightarrow> (\<exists>t. f k = Some t \<and> only_spoke k t)"
    and g: "\<forall>k. console_ok k \<longrightarrow> (\<exists>t. g k = Some t \<and> only_spoke k t)" and k: "console_ok k"
  obtain t where t: "f k = Some t" "only_spoke k t" using f k by blast
  then have "console_ok t" by (simp add: only_spoke_def)
  then obtain u where u: "g t = Some u" "only_spoke t u" using g by blast
  show "\<exists>t. do { k \<leftarrow> f k; g k } = Some t \<and> only_spoke k t"
    using t(1) u(1) only_spoke_trans [OF t(2) u(2)] by simp
qed

lemmas speaks_rules = speaks_bind speaks_prints [OF prints_char] speaks_prints [OF prints_write] speaks_prints [OF prints_line]

lemma on_kernel_speaks: "speaks f \<Longrightarrow> shell_ready view s \<Longrightarrow> \<exists>t. on_kernel f s = Some t \<and> spoke s t"
  by (fastforce simp: speaks_def shell_ready_def on_kernel_def spoke_def)

lemma answers_speaks: "speaks f \<Longrightarrow> answers view (\<lambda>s. map_option Running (on_kernel f s))"
  using on_kernel_speaks [of f view] by (fastforce simp: answers_def)

lemma answers_line: "answers view (done_line str)"
  unfolding done_line_def [abs_def] write_line_def by (rule answers_speaks) (rule speaks_rules)

lemma answers_Running: "answers view (\<lambda>s. Some (Running s))"
  using spoke_refl by (auto simp: answers_def)

lemma answers_message: "answers view (shell_print_usage usage)"
  using answers_line answers_Running by (cases usage) (simp_all add: shell_print_usage_def [abs_def])

lemma answers_result: "answers view (shell_print_fs_result r as_file)"
  unfolding shell_print_fs_result_def [abs_def] by (rule answers_message)

lemma resolve_returns:
  assumes r: "shell_ready view s" and i: "nul_free input" "length input < 2 ^ 31"
  shows "\<exists>p t. resolve_path_or_print input s = Some (p, t) \<and> spoke s t \<and> (\<forall>q. p = Some q \<longrightarrow> canonical_path q)"
proof -
  have c: "canonical_path (cstr (g_cwd s))" using r by (simp add: shell_ready_def cwd_ok_def)
  then have "length (cstr (g_cwd s)) < 2 ^ 31" by (simp add: canonical_path_def PATH_CAPACITY_def)
  note p = local_path_eq [OF canonical_nul_free [OF c] i(1) this i(2)]
  show ?thesis
  proof (cases "normalize_spec PATH_CAPACITY (cstr (g_cwd s)) input")
    case None
    obtain t where "write_line ''invalid path'' s = Some t" "spoke s t"
      unfolding write_line_def using on_kernel_speaks [OF speaks_rules(4) r] by blast
    then show ?thesis using p None by (simp add: resolve_path_or_print_def)
  next
    case (Some comps)
    have "canonical_path (render comps)"
      using normalize_spec_canonical [OF Some canonical_nul_free [OF c] i(1)] normalize_spec_fits [OF Some]
      by (auto simp: canonical_path_def PATH_CAPACITY_def)
    then show ?thesis using p Some spoke_refl [OF r] by (simp add: resolve_path_or_print_def)
  qed
qed

lemma stat_returns:
  assumes "shell_ready view s" and "canonical_path p"
  shows "\<exists>r t. on_volume (fs_stat (Some p) True) s = Some (r, t) \<and> spoke s t"
  using fs_stat_returns [of view "volume (kernel s)" p] canonical_short [OF assms(2)] assms(1)
  by (fastforce simp: on_volume_def spoke_def shell_ready_def only_spoke_def)

lemma directory_returns:
  assumes "shell_ready view s" and "canonical_path p"
  shows "\<exists>t r. directory_or_print p s = Some r \<and> (r = Inl (Running t) \<or> r = Inr t) \<and> spoke s t"
proof -
  obtain r t where st: "on_volume (fs_stat (Some p) True) s = Some (r, t)" "spoke s t" using stat_returns [OF assms] by blast
  have "\<exists>u. done_line str t = Some (Running u) \<and> spoke s u" for str
    by (rule answers_after [OF answers_line assms(1) st(2)])
  then show ?thesis using st by (cases r) (auto simp: directory_or_print_def, metis+)
qed

lemma answers_with_path:
  fixes f :: "bytes \<Rightarrow> ('d, 'p) shell_state \<Rightarrow> ('d, 'p) shell_outcome option"
  assumes "\<And>p. canonical_path p \<Longrightarrow> answers view (f p)"
    and "\<And>a. argument = Some a \<Longrightarrow> nul_free a \<and> length a < 2 ^ 31"
  shows "answers view (with_path usage argument f)"
proof (cases "argument = None \<or> argument = Some []")
  case True
  then show ?thesis using answers_line by (simp add: with_path_def [abs_def])
next
  case False
  then obtain a where a: "argument = Some a" "nul_free a" "length a < 2 ^ 31" using assms(2) by auto
  show ?thesis
    unfolding answers_def
  proof (intro allI impI)
    fix s :: "('d, 'p) shell_state" assume r: "shell_ready view s"
    obtain p t where p: "resolve_path_or_print a s = Some (p, t)" "spoke s t" "\<And>q. p = Some q \<Longrightarrow> canonical_path q"
      using resolve_returns [OF r a(2,3)] by blast
    then show "\<exists>t. with_path usage argument f s = Some (Running t) \<and> spoke s t"
      using a(1) False answers_after [OF assms(1) r p(2)] by (cases p) (simp_all add: with_path_def)
  qed
qed

subsection \<open>The commands\<close>

lemma speaks_hex8: "speaks (shell_write_hex8 v)"
  unfolding shell_write_hex8_def [abs_def] by (intro speaks_rules)

lemma speaks_hex16: "speaks (shell_write_hex16 v)"
  unfolding shell_write_hex16_def [abs_def] by (intro speaks_rules speaks_hex8)

lemma speaks_device: "speaks (print_device dev)"
  unfolding print_device_def [abs_def] by (intro speaks_rules speaks_hex8 speaks_hex16)

lemma speaks_Some: "speaks Some"
  using speaks_prints [OF prints_Some] .

lemma speaks_entry: "speaks (print_entry e)"
  unfolding print_entry_def [abs_def] by (cases "fs_type e = FS_NODE_DIR") (simp_all, intro speaks_rules speaks_Some, intro speaks_rules)

lemma speaks_chunk: "length bs = unat n \<Longrightarrow> speaks (console_write_n bs (unat n))"
  using speaks_rules(3) [of bs] by (simp add: console_write_def [abs_def])

lemma memory_digits_returns: "unat v < 10 ^ room \<Longrightarrow> \<exists>ds'. memory_digits room v ds = Some ds'"
proof (induction room arbitrary: v ds)
  case (Suc room)
  have "unat (v div 10) < 10 ^ room" using Suc.prems by (simp add: unat_div less_mult_imp_div_less)
  then show ?case using Suc.IH by simp
qed (simp add: unat_eq_0)

lemma speaks_decimal: "speaks (memory_write_decimal v)"
proof (cases "v = 0")
  case True
  then show ?thesis using speaks_rules(2) by (simp add: memory_write_decimal_def [abs_def])
next
  case False
  have "unat v < 10 ^ 32" by (rule less_le_trans [OF unat_u64_bound]) simp
  then obtain ds where "memory_digits 32 v [] = Some ds" using memory_digits_returns by blast
  then show ?thesis
    using False speaks_prints [OF prints_for_each [OF prints_char]] by (simp add: memory_write_decimal_def [abs_def])
qed

lemma speaks_stats: "speaks (memory_dump_stats m)"
  unfolding memory_dump_stats_def [abs_def] by (intro speaks_rules speaks_decimal)

lemma speaks_clear: "speaks console_clear"
  by (rule speaksI) (rule console_clear_ok [OF console_ok_geometry])

text \<open>A printing callback keeps the console good and the kernel as it was.\<close>

definition context_ok :: "'d kernel_state \<Rightarrow> 'c \<times> 'd kernel_state option \<Rightarrow> bool" where
  "context_ok k0 c \<longleftrightarrow> (\<exists>k. snd c = Some k \<and> only_spoke k0 k)"

lemma context_speaks: "speaks f \<Longrightarrow> context_ok k0 (x, k) \<Longrightarrow> context_ok k0 (y, Option.bind k f)"
proof -
  assume f: "speaks f" and "context_ok k0 (x, k)"
  then obtain j where j: "k = Some j" "only_spoke k0 j" by (auto simp: context_ok_def)
  then have "console_ok j" by (simp add: only_spoke_def)
  then obtain t where "f j = Some t" "only_spoke j t" using f by (auto simp: speaks_def)
  then show ?thesis using j only_spoke_trans by (auto simp: context_ok_def)
qed

lemma context_callbacks:
  "context_ok k0 c \<Longrightarrow> context_ok k0 (snd (shell_print_dir_entry e c))"
  "context_ok k0 d \<Longrightarrow> context_ok k0 (snd (shell_print_pci_device i d))"
  "length bs = unat n \<Longrightarrow> context_ok k0 r \<Longrightarrow> context_ok k0 (snd (shell_print_file_chunk bs n r))"
proof -
  show "context_ok k0 c \<Longrightarrow> context_ok k0 (snd (shell_print_dir_entry e c))"
    using context_speaks [OF speaks_entry, of k0 "fst c" "snd c"] by (cases c) (simp add: shell_print_dir_entry_def)
  show "context_ok k0 d \<Longrightarrow> context_ok k0 (snd (shell_print_pci_device i d))"
    using context_speaks [OF speaks_device, of k0 "fst d" "snd d"] by (cases d) (simp add: shell_print_pci_device_def)
  show "length bs = unat n \<Longrightarrow> context_ok k0 r \<Longrightarrow> context_ok k0 (snd (shell_print_file_chunk bs n r))"
    using context_speaks [OF speaks_chunk [of bs n], of k0 "fst r" "snd r"] by (cases r; cases "n = 0") (simp_all add: shell_print_file_chunk_def)
qed

lemma spoke_volume:
  "only_spoke (kernel s) k \<Longrightarrow> only_looked (volume (kernel s)) v \<Longrightarrow> spoke s (s\<lparr>kernel := k\<lparr>volume := v\<rparr>\<rparr>)"
  by (simp add: spoke_def only_spoke_def console_ok_def fits_def)

lemma answers_list: "answers view (list_path p)"
  unfolding answers_def
proof (intro allI impI)
  fix s :: "('a, 'b) shell_state" assume r: "shell_ready view s"
  obtain res c v where l: "fs_list_dir (Some p) (Some shell_print_dir_entry) (False, Some (kernel s)) (volume (kernel s)) = Some (res, c, v)"
      "only_looked (volume (kernel s)) v"
    using fs_list_dir_returns [of view "volume (kernel s)" p shell_print_dir_entry "(False, Some (kernel s))"] r
    by (auto simp: shell_ready_def)
  have "context_ok (kernel s) (False, Some (kernel s))" using r by (simp add: context_ok_def shell_ready_def only_spoke_refl)
  from fs_list_dir_keeps [OF l(1) context_callbacks(1) this] obtain k where k: "snd c = Some k" "only_spoke (kernel s) k"
    by (auto simp: context_ok_def)
  from answers_after [OF answers_result r spoke_volume [OF k(2) l(2)], of res False]
  show "\<exists>t. list_path p s = Some (Running t) \<and> spoke s t" using l(1) k(1) by (simp add: list_path_def)
qed

lemma answers_ls:
  assumes "\<And>a. argument = Some a \<Longrightarrow> nul_free a \<and> length a < 2 ^ 31"
  shows "answers view (shell_command_ls argument)"
  unfolding answers_def
proof (intro allI impI)
  fix s :: "('a, 'b) shell_state" assume r: "shell_ready view s"
  let ?path = "case argument of
         None \<Rightarrow> do { p \<leftarrow> k_strcpy (replicate PATH_CAPACITY 0) (g_cwd s); Some (Some (cstr p), s) }
       | Some a \<Rightarrow> if a = [] then do { p \<leftarrow> k_strcpy (replicate PATH_CAPACITY 0) (g_cwd s); Some (Some (cstr p), s) }
                   else resolve_path_or_print a s"
  have c: "0 \<in> set (g_cwd s)" "canonical_path (cstr (g_cwd s))" using r by (simp_all add: shell_ready_def cwd_ok_def)
  then have copy: "\<exists>p. k_strcpy (replicate PATH_CAPACITY 0) (g_cwd s) = Some p \<and> cstr p = cstr (g_cwd s)"
    using canonical_nul_free [OF c(2)] by (simp add: k_strcpy_eq canonical_path_def blit_def cstr_append_nul)
  obtain p t where p: "?path = Some (p, t)" "spoke s t" "\<And>q. p = Some q \<Longrightarrow> canonical_path q"
  proof (cases "argument = None \<or> argument = Some []")
    case True
    then have "?path = Some (Some (cstr (g_cwd s)), s)" using copy by auto
    then show thesis by (rule that) (use c(2) spoke_refl [OF r] in auto)
  next
    case False
    then obtain a where a: "argument = Some a" "a \<noteq> []" "nul_free a" "length a < 2 ^ 31" using assms by auto
    then show thesis using resolve_returns [OF r a(3,4)] that by auto
  qed
  show "\<exists>t. shell_command_ls argument s = Some (Running t) \<and> spoke s t"
  proof (cases p)
    case None
    then show ?thesis using p(1,2) by (simp add: shell_command_ls_def)
  next
    case (Some q)
    obtain u res where u: "directory_or_print q t = Some res" "res = Inl (Running u) \<or> res = Inr u" "spoke t u"
      using directory_returns [OF spoke_ready [OF p(2) r] p(3) [OF Some]] by blast
    have run: "shell_command_ls argument s = (if q = [47] then list_path q t
        else case res of Inl out \<Rightarrow> Some out | Inr sh \<Rightarrow> list_path q sh)"
      using p(1) Some u(1) by (simp add: shell_command_ls_def)
    show ?thesis
      unfolding run using u(2) spoke_trans [OF p(2) u(3)] answers_after [OF answers_list r p(2), of q]
        answers_after [OF answers_list r spoke_trans [OF p(2) u(3)], of q] by auto
  qed
qed

lemma answers_pwd: "answers view (shell_command_pwd argument)"
  using on_kernel_speaks [OF speaks_rules(4)] by (fastforce simp: answers_def shell_command_pwd_def)

lemma answers_memstat: "answers view (shell_command_memstat argument)"
  using on_kernel_speaks [OF speaks_stats] by (fastforce simp: answers_def shell_command_memstat_def)

lemma answers_blockinfo: "answers view (shell_command_blockinfo argument)"
  unfolding answers_def
proof (intro allI impI)
  fix s :: "('a, 'b) shell_state" assume r: "shell_ready view s"
  obtain t where t: "on_kernel (console_write (bytes_of ''block backend: '')) s = Some t" "spoke s t"
    using on_kernel_speaks [OF speaks_rules(3) r] by blast
  show "\<exists>t. shell_command_blockinfo argument s = Some (Running t) \<and> spoke s t"
    using answers_after [OF answers_line r t(2)] t(1) by (simp add: shell_command_blockinfo_def)
qed

lemma answers_lspci: "answers view (shell_command_lspci io argument)"
  unfolding answers_def
proof (intro allI impI)
  fix s :: "('a, 'b) shell_state" assume r: "shell_ready view s"
  obtain wrote k p where e: "pci_enumerate io (Some shell_print_pci_device) (False, Some (kernel s)) (sh_pci s) = ((wrote, k), p)"
    by (metis prod.exhaust)
  have "context_ok (kernel s) (False, Some (kernel s))" using r by (simp add: context_ok_def shell_ready_def only_spoke_refl)
  from pci_enumerate_keeps [where P = "context_ok (kernel s)" and visit = shell_print_pci_device and io = io and s = "sh_pci s", OF context_callbacks(2) this]
  obtain k' where k: "k = Some k'" "only_spoke (kernel s) k'" by (auto simp: e context_ok_def)
  have t: "spoke s (s\<lparr>kernel := k', sh_pci := p\<rparr>)" using k(2) by (simp add: spoke_def)
  show "\<exists>t. shell_command_lspci io argument s = Some (Running t) \<and> spoke s t"
    using answers_after [OF answers_line r t] answersD [OF answers_line r] t e k(1)
    by (simp add: shell_command_lspci_def Let_def)
qed

lemma answers_cat:
  assumes "\<And>a. argument = Some a \<Longrightarrow> nul_free a \<and> length a < 2 ^ 31"
  shows "answers view (shell_command_cat argument)"
  unfolding shell_command_cat_def
proof (rule answers_with_path [OF _ assms])
  fix p assume p: "canonical_path p"
  let ?f = "\<lambda>sh :: ('a, 'b) shell_state. do {
           (result, context, v) \<leftarrow> fs_read_file (Some p) (Some shell_print_file_chunk)
              (\<lparr>rc_wrote_anything = False, rc_last_char = 0\<rparr>, Some (kernel sh)) (volume (kernel sh));
           k \<leftarrow> snd context;
           let sh = sh\<lparr>kernel := k\<lparr>volume := v\<rparr>\<rparr>;
           if result \<noteq> FS_OK then done_line ''fs error'' sh
           else if \<not> rc_wrote_anything (fst context) \<or> rc_last_char (fst context) \<noteq> 10
           then map_option Running (on_kernel (console_write_char 10) sh)
           else Some (Running sh) }"
  have "answers view ?f"
    unfolding answers_def
  proof (intro allI impI)
    fix s :: "('a, 'b) shell_state" assume r: "shell_ready view s"
    let ?c = "(\<lparr>rc_wrote_anything = False, rc_last_char = 0\<rparr>, Some (kernel s))"
    obtain res c v where l: "fs_read_file (Some p) (Some shell_print_file_chunk) ?c (volume (kernel s)) = Some (res, c, v)"
        "only_looked (volume (kernel s)) v"
      using fs_read_file_returns [of view "volume (kernel s)" p shell_print_file_chunk ?c] r by (auto simp: shell_ready_def)
    have "context_ok (kernel s) ?c" using r by (simp add: context_ok_def shell_ready_def only_spoke_refl)
    from fs_read_file_keeps [OF _ l(1) context_callbacks(3) this, of view] r obtain k
      where k: "snd c = Some k" "only_spoke (kernel s) k" by (auto simp: context_ok_def shell_ready_def)
    note t = spoke_volume [OF k(2) l(2)]
    show "\<exists>t. ?f s = Some (Running t) \<and> spoke s t"
      using l(1) k(1) t answers_after [OF answers_line r t] answers_after [OF answers_speaks [OF speaks_rules(2)] r t]
      by (simp add: Let_def)
  qed
  note f = answers_after [OF this]
  show "answers view (\<lambda>sh :: ('a, 'b) shell_state. do {
       (node, sh) \<leftarrow> on_volume (fs_stat (Some p) True) sh;
       case node of
         Inl e \<Rightarrow> done_line ''not found'' sh
       | Inr n \<Rightarrow> if fs_type n = FS_NODE_DIR then done_line ''not a file'' sh else ?f sh })"
    unfolding answers_def
  proof (intro allI impI)
    fix s :: "('a, 'b) shell_state" assume r: "shell_ready view s"
    obtain n t where t: "on_volume (fs_stat (Some p) True) s = Some (n, t)" "spoke s t" using stat_returns [OF r p] by blast
    show "\<exists>u. (do {
       (node, sh) \<leftarrow> on_volume (fs_stat (Some p) True) s;
       case node of
         Inl e \<Rightarrow> done_line ''not found'' sh
       | Inr n \<Rightarrow> if fs_type n = FS_NODE_DIR then done_line ''not a file'' sh else ?f sh }) = Some (Running u) \<and> spoke s u"
      using t(1) answers_after [OF answers_line r t(2)] f [OF r t(2)] by (cases n) (auto simp del: Let_def)
  qed
qed

subsection \<open>Commands that change the directory or stop the machine\<close>

text \<open>As \<open>spoke\<close>, with another directory.\<close>

definition moved :: "('d, 'p) shell_state \<Rightarrow> ('d, 'p) shell_state \<Rightarrow> bool" where
  "moved s t \<longleftrightarrow> only_spoke (kernel s) (kernel t) \<and> cwd_ok (g_cwd t) \<and> g_panic_active t = g_panic_active s"

lemma spoke_moved: "shell_ready view s \<Longrightarrow> spoke s t \<Longrightarrow> moved s t"
  by (simp add: spoke_def moved_def shell_ready_def)

lemma set_cwd_moves:
  assumes "shell_ready view s" and "spoke s t" and "canonical_path p"
  shows "\<exists>u. set_cwd p t = Some (Running u) \<and> moved s u"
proof -
  have cwd: "length (g_cwd t) = PATH_CAPACITY" using assms(1,2) by (simp add: shell_ready_def cwd_ok_def spoke_def)
  have p: "nul_free p" "length p < PATH_CAPACITY" using canonical_nul_free [OF assms(3)] assms(3) by (simp_all add: canonical_path_def)
  have set: "set_cwd p t = Some (Running (t\<lparr>g_cwd := blit (g_cwd t) 0 (p @ [0])\<rparr>))"
    using k_strcpy_eq [of "p @ [0]" "g_cwd t"] cwd p by (simp add: set_cwd_def)
  have "cwd_ok (blit (g_cwd t) 0 (p @ [0]))"
    using cwd p assms(3) by (simp add: cwd_ok_def blit_def cstr_append_nul)
  then show ?thesis using set assms(2) by (simp add: moved_def spoke_def)
qed

lemma cd_moves:
  assumes r: "shell_ready view s" and "\<And>a. argument = Some a \<Longrightarrow> nul_free a \<and> length a < 2 ^ 31"
  shows "\<exists>t. shell_command_cd argument s = Some (Running t) \<and> moved s t"
proof (cases "argument = None \<or> argument = Some []")
  case True
  then show ?thesis using answersD [OF answers_line r] spoke_moved [OF r] by (auto simp: shell_command_cd_def with_path_def)
next
  case False
  then obtain a where a: "argument = Some a" "a \<noteq> []" "nul_free a" "length a < 2 ^ 31" using assms by auto
  obtain p t where p: "resolve_path_or_print a s = Some (p, t)" "spoke s t" "\<And>q. p = Some q \<Longrightarrow> canonical_path q"
    using resolve_returns [OF r a(3,4)] by blast
  show ?thesis
  proof (cases p)
    case None
    then show ?thesis using a p(1,2) spoke_moved [OF r] by (simp add: shell_command_cd_def with_path_def)
  next
    case (Some q)
    obtain u res where u: "directory_or_print q t = Some res" "res = Inl (Running u) \<or> res = Inr u" "spoke t u"
      using directory_returns [OF spoke_ready [OF p(2) r] p(3) [OF Some]] by blast
    have run: "shell_command_cd argument s = (if q = [47] then set_cwd q t
        else case res of Inl out \<Rightarrow> Some out | Inr sh \<Rightarrow> set_cwd q sh)"
      using a p(1) Some u(1) by (simp add: shell_command_cd_def with_path_def)
    note su = spoke_trans [OF p(2) u(3)]
    show ?thesis
      unfolding run using u(2) set_cwd_moves [OF r p(2) p(3) [OF Some]] set_cwd_moves [OF r su p(3) [OF Some]]
        spoke_moved [OF r su] by auto
  qed
qed

text \<open>Halted behind a panic screen.\<close>

definition halted :: "('d, 'p) shell_state \<Rightarrow> ('d, 'p) shell_state \<Rightarrow> bool" where
  "halted s t \<longleftrightarrow> only_spoke (kernel s) (kernel t) \<and> g_cwd t = g_cwd s \<and> g_panic_active t"

lemma halt_halts:
  assumes "shell_ready view s"
  shows "\<exists>t. halt_with (panic_with_frame cr2 message frame (g_panic_active s)) s = Some (Halted t) \<and> halted s t"
proof -
  obtain k where "panic_with_frame cr2 message frame (g_panic_active s) (kernel s) = Some (True, k)" "console_ok k" "moves (kernel s) k"
    using panic_returns [of "kernel s" cr2 message frame "g_panic_active s"] assms by (auto simp: shell_ready_def)
  then show ?thesis using only_spoke_moves [of "kernel s" k] by (simp add: halt_with_def halted_def)
qed

lemma panic_halts:
  assumes "shell_ready view s"
  shows "\<exists>t. shell_command_panic argument s = Some (Halted t) \<and> halted s t"
  unfolding shell_command_panic_def panic_def by (rule halt_halts [OF assms])

lemma kernel_fault_halts:
  assumes r: "shell_ready view s" and "\<not> g_active_process (kernel s)" and "vector \<noteq> PROGRAM_SYSCALL_VECTOR"
  shows "\<exists>t. kernel_fault vector env s = Some (Halted t) \<and> halted s t"
proof -
  let ?frame = "Some ((sh_frame env)\<lparr>tf_vector := vector\<rparr>)"
  have "interrupt_dispatch ?frame (kernel s) = Some (Panic, kernel s)"
    using assms(2,3) by (simp add: interrupt_dispatch_def process_handle_fault_def process_should_return_to_kernel_def)
  moreover have "s\<lparr>kernel := kernel s\<rparr> = s" by simp
  ultimately show ?thesis
    using halt_halts [OF r] by (simp add: kernel_fault_def Let_def)
qed

lemma fault_halts:
  assumes r: "shell_ready view s" and i: "\<not> g_active_process (kernel s)" and a: "\<And>a. argument = Some a \<Longrightarrow> nul_free a"
  shows "if argument \<in> {Some (bytes_of ''ud2''), Some (bytes_of ''pf'')}
    then \<exists>t. shell_command_fault env argument s = Some (Halted t) \<and> halted s t
    else \<exists>t. shell_command_fault env argument s = Some (Running t) \<and> spoke s t"
proof (cases "argument = None \<or> argument = Some []")
  case True
  then show ?thesis using answersD [OF answers_line r] by (auto simp: shell_command_fault_def bytes_of_def)
next
  case False
  then obtain b where b: "argument = Some b" "nul_free b" using a by auto
  have cmp: "k_strcmp (b @ [0]) (w @ [0]) = Some 0 \<longleftrightarrow> b = w" if "nul_free w" for w
    using k_strcmp_0_cstr [of "b @ [0]" "w @ [0]"] b(2) that by simp
  have w: "nul_free (bytes_of ''ud2'')" "nul_free (bytes_of ''pf'')" by (simp_all add: bytes_of_def nul_free_def)
  have f: "\<exists>t. kernel_fault v env s = Some (Halted t) \<and> halted s t" if "v \<in> {6, 14}" for v
    by (rule kernel_fault_halts [OF r i]) (use that in \<open>auto simp: PROGRAM_SYSCALL_VECTOR_def\<close>)
  have run: "shell_command_fault env argument s = (if b = bytes_of ''ud2'' then kernel_fault 6 env s
      else if b = bytes_of ''pf'' then kernel_fault 14 env s else done_line ''usage: fault <ud2|pf>'' s)"
    using False by (simp add: shell_command_fault_def b(1) cmp [OF w(1)] cmp [OF w(2)] trap_trigger_invalid_opcode_def
      trap_trigger_page_fault_def)
  show ?thesis
    unfolding run using b(1) answersD [OF answers_line r, of "''usage: fault <ud2|pf>''"] f [of 6] f [of 14] by simp
qed

subsection \<open>A line\<close>

lemma found_command:
  assumes "nul_free name" and "\<And>c. c \<in> set cs \<Longrightarrow> nul_free (bytes_of (cmd_name c))" and "find_command name cs = Some c"
  shows "c \<in> set cs \<and> name = bytes_of (cmd_name c)"
  using assms(2,3)
proof (induction cs)
  case (Cons d cs)
  have "k_strcmp (name @ [0]) (bytes_of (cmd_name d) @ [0]) = Some 0 \<longleftrightarrow> name = bytes_of (cmd_name d)"
    using k_strcmp_0_cstr [of "name @ [0]" "bytes_of (cmd_name d) @ [0]"] assms(1) Cons.prems(1) [of d] by simp
  then show ?case using Cons by (auto split: if_splits)
qed simp

lemma command_names: "c \<in> set g_commands \<Longrightarrow> nul_free (bytes_of (cmd_name c))"
  by (auto simp: g_commands_def bytes_of_def nul_free_def)

text \<open>The commands that write to the volume.\<close>

definition writes_files :: "bytes \<Rightarrow> bool" where
  "writes_files name \<longleftrightarrow> name \<in> set (map bytes_of [''mkdir'', ''write'', ''append'', ''rm'', ''mv''])"

text \<open>What a line that writes no file does to the shell's state.\<close>

definition line_done :: "bytes \<Rightarrow> ('d, 'p) shell_state \<Rightarrow> ('d, 'p) shell_outcome \<Rightarrow> bool" where
  "line_done name s out \<longleftrightarrow> (case out of
     Running t \<Rightarrow> unharmed (kernel s) (kernel t) \<and> cwd_ok (g_cwd t) \<and>
       g_panic_active t = g_panic_active s \<and> (name \<noteq> bytes_of ''cd'' \<longrightarrow> g_cwd t = g_cwd s)
   | Halted t \<Rightarrow> halted s t \<and> name \<in> {bytes_of ''panic'', bytes_of ''fault''})"

lemma halted_done: "halted s t \<Longrightarrow> name \<in> {bytes_of ''panic'', bytes_of ''fault''} \<Longrightarrow> line_done name s (Halted t)"
  by (simp add: line_done_def)

lemma moved_done: "idle (kernel s) \<Longrightarrow> moved s t \<Longrightarrow> line_done (bytes_of ''cd'') s (Running t)"
  using only_spoke_unharmed [of "kernel s" "kernel t"]
  by (simp add: line_done_def moved_def)

lemma spoke_done: "idle (kernel s) \<Longrightarrow> shell_ready view s \<Longrightarrow> spoke s t \<Longrightarrow> line_done name s (Running t)"
  using only_spoke_unharmed [of "kernel s" "kernel t"]
  by (simp add: line_done_def spoke_def shell_ready_def)

lemma answers_command:
  assumes "c \<in> set g_commands" and "\<not> writes_files (bytes_of (cmd_name c))"
    and "cmd_name c \<notin> {''cd'', ''panic'', ''fault''}" and "\<And>a. argument = Some a \<Longrightarrow> nul_free a \<and> length a < 2 ^ 31"
  shows "answers view (cmd_handler c env argument)"
proof -
  have "answers view (shell_command_help argument)" unfolding shell_command_help_def by (rule answers_line)
  moreover have "answers view (shell_command_clear argument)"
    unfolding shell_command_clear_def [abs_def] by (rule answers_speaks [OF speaks_clear])
  ultimately show ?thesis
    using assms(1-3) answers_ls [OF assms(4), of argument view] answers_cat [OF assms(4), of argument view]
      answers_pwd answers_memstat answers_blockinfo answers_lspci
    by (auto simp: g_commands_def writes_files_def)
qed

lemma command_done:
  assumes r: "shell_ready view s" and i: "idle (kernel s)" and c: "c \<in> set g_commands"
    and n: "\<not> writes_files (bytes_of (cmd_name c))" and a: "\<And>a. argument = Some a \<Longrightarrow> nul_free a \<and> length a < 2 ^ 31"
  shows "\<exists>out. cmd_handler c env argument s = Some out \<and> line_done (bytes_of (cmd_name c)) s out"
proof (cases "cmd_name c \<in> {''cd'', ''panic'', ''fault''}")
  case False
  then show ?thesis using answersD [OF answers_command [OF c n False a] r] spoke_done [OF i r] by blast
next
  case True
  consider (cd) "cmd_name c = ''cd''" "cmd_handler c env argument = shell_command_cd argument"
    | (panic) "cmd_name c = ''panic''" "cmd_handler c env argument = shell_command_panic argument"
    | (fault) "cmd_name c = ''fault''" "cmd_handler c env argument = shell_command_fault env argument"
    using True c by (auto simp: g_commands_def)
  then show ?thesis
  proof cases
    case cd
    then show ?thesis using cd_moves [OF r a] moved_done [OF i] by auto
  next
    case panic
    then show ?thesis using panic_halts [OF r] halted_done by fastforce
  next
    case fault
    have "\<not> g_active_process (kernel s)" "\<And>b. argument = Some b \<Longrightarrow> nul_free b" using i a by (simp_all add: idle_def)
    note f = fault_halts [where env = env and argument = argument, OF r this]
    show ?thesis
    proof (cases "argument \<in> {Some (bytes_of ''ud2''), Some (bytes_of ''pf'')}")
      case True
      then obtain t where "shell_command_fault env argument s = Some (Halted t)" "halted s t" using f by auto
      then show ?thesis using fault halted_done [of s t] by simp
    next
      case False
      then obtain t where "shell_command_fault env argument s = Some (Running t)" "spoke s t" using f by auto
      then show ?thesis using fault spoke_done [OF i r] by simp
    qed
  qed
qed

lemma execute_done:
  fixes s :: "('d, 'p) shell_state"
  assumes r: "shell_ready view s" and i: "idle (kernel s)" and e: "enter_held T (kernel s)"
    and l: "nul_free line" "length line < 2 ^ 31" and w: "\<not> writes_files (word_of (skip_spaces line))"
    and acts: "from_user_mode acts" "outcome acts = Some c"
  shows "\<exists>out. shell_execute env acts line s = Some out \<and> line_done (word_of (skip_spaces line)) s out"
proof (cases "skip_spaces line = []")
  case True
  then show ?thesis using spoke_done [OF i r spoke_refl [OF r]] by (simp add: shell_execute_def)
next
  case False
  let ?cmd = "word_of (skip_spaces line)" and ?rest = "after_word (skip_spaces line)"
  let ?arg = "if ?rest = [] then None else Some (skip_spaces (tl ?rest))"
  have sub: "set ?cmd \<subseteq> set line" "set (skip_spaces (tl ?rest)) \<subseteq> set line"
    "length ?cmd \<le> length line" "length (skip_spaces (tl ?rest)) \<le> length line"
  proof -
    show "set ?cmd \<subseteq> set line"
    proof
      fix x assume "x \<in> set ?cmd"
      then have "x \<in> set (skip_spaces line)" by (rule set_takeWhileD [THEN conjunct1])
      then show "x \<in> set line" by (rule set_dropWhileD)
    qed
    show "set (skip_spaces (tl ?rest)) \<subseteq> set line"
    proof
      fix x assume "x \<in> set (skip_spaces (tl ?rest))"
      then have "x \<in> set (tl ?rest)" by (rule set_dropWhileD)
      then have "x \<in> set ?rest" by (cases ?rest) simp_all
      then have "x \<in> set (skip_spaces line)" by (rule set_dropWhileD)
      then show "x \<in> set line" by (rule set_dropWhileD)
    qed
    show "length ?cmd \<le> length line" by (rule le_trans [OF length_takeWhile_le length_dropWhile_le])
    have "length (skip_spaces (tl ?rest)) \<le> length ?rest" using length_dropWhile_le [of k_is_space "tl ?rest"] by simp
    also have "\<dots> \<le> length line" by (rule le_trans [OF length_dropWhile_le length_dropWhile_le])
    finally show "length (skip_spaces (tl ?rest)) \<le> length line" .
  qed
  have cmd: "nul_free ?cmd" "length ?cmd < 2 ^ 31" using sub(1,3) l by (auto simp: nul_free_def)
  have arg: "nul_free a \<and> length a < 2 ^ 31" if "?arg = Some a" for a
    using that sub(2,4) l by (auto simp: nul_free_def split: if_splits)
  show ?thesis
  proof (cases "shell_find_command ?cmd :: ('d, 'p) ShellCommand option")
    case (Some c)
    have run: "shell_execute env acts line s = cmd_handler c env ?arg s"
      by (simp only: shell_execute_def Let_def False if_False Some option.case)
    have n: "c \<in> set g_commands \<and> ?cmd = bytes_of (cmd_name c)"
      by (rule found_command [OF cmd(1) command_names]) (use Some in \<open>auto simp: shell_find_command_def\<close>)
    then have "c \<in> set g_commands" "\<not> writes_files (bytes_of (cmd_name c))" using w by simp_all
    from command_done [where env = env, OF r i this arg] show ?thesis unfolding run n [THEN conjunct2] .
  next
    case None
    let ?cwd = "cstr (g_cwd s)"
    have p: "canonical_path ?cwd" using r by (simp add: shell_ready_def cwd_ok_def)
    then have cwd: "nul_free ?cwd" "length ?cwd < 128" using canonical_nul_free by (simp_all add: canonical_path_def PATH_CAPACITY_def)
    have v: "readable view (volume (kernel s))" using r by (simp add: shell_ready_def)
    obtain res k where d: "program_dispatch (sh_process env) acts (Some ?cmd) ?arg (Some ?cwd) (kernel s) = Some (res, k)"
        "dispatched (kernel s) c res k"
      using dispatch_returns [OF i e v cwd cmd acts] by blast
    have run: "shell_execute env acts line s = (if res = PROGRAM_DISPATCH_NOT_FOUND
        then done_line ''unknown command'' (s\<lparr>kernel := k\<rparr>) else Some (Running (s\<lparr>kernel := k\<rparr>)))"
      by (simp only: shell_execute_def Let_def False if_False None option.case d(1) bind.bind_lunit prod.case)
    show ?thesis
    proof (cases "res = PROGRAM_DISPATCH_NOT_FOUND")
      case True
      then have t: "spoke s (s\<lparr>kernel := k\<rparr>)" using d(2) by (simp add: dispatched_def spoke_def)
      obtain u where "done_line ''unknown command'' (s\<lparr>kernel := k\<rparr>) = Some (Running u)" "spoke s u"
        using answers_after [OF answers_line r t] by blast
      then show ?thesis unfolding run using True spoke_done [OF i r] by simp
    next
      case False
      then show ?thesis
        unfolding run using d(2) r by (simp add: dispatched_def line_done_def shell_ready_def)
    qed
  qed
qed

text \<open>C37. From an idle kernel on a readable volume, any line that names none of the commands that write files
  returns once the program it may run has exited or faulted. The kernel is idle again with its memory, its mapping
  and its volume as they were; the directory is canonical, and another one only after \<open>cd\<close>. Only \<open>panic\<close> and
  \<open>fault\<close> stop the machine, behind the panic screen.\<close>

theorem shell_execute_unharmed:
  fixes s :: "('d, 'p) shell_state"
  assumes "shell_ready view s" and "idle (kernel s)" and "enter_held T (kernel s)"
    and "nul_free line" and "length line < 2 ^ 31" and "\<not> writes_files (word_of (skip_spaces line))"
    and "from_user_mode acts" and "outcome acts = Some c"
  shows "\<exists>out. shell_execute env acts line s = Some out \<and> (case out of
     Running t \<Rightarrow> unharmed (kernel s) (kernel t) \<and> cwd_ok (g_cwd t) \<and>
       (word_of (skip_spaces line) \<noteq> bytes_of ''cd'' \<longrightarrow> g_cwd t = g_cwd s)
   | Halted t \<Rightarrow> word_of (skip_spaces line) \<in> {bytes_of ''panic'', bytes_of ''fault''} \<and> g_panic_active t \<and>
       paging (kernel t) = paging (kernel s) \<and> ram (kernel t) = ram (kernel s))"
proof -
  obtain out where "shell_execute env acts line s = Some out" "line_done (word_of (skip_spaces line)) s out"
    using execute_done [OF assms, of env] by blast
  then show ?thesis by (auto simp: line_done_def halted_def only_spoke_def split: shell_outcome.splits)
qed

definition demo_shell :: "(ramdisk, unit) shell_state" where
  "demo_shell = \<lparr>kernel = demo_idle, g_cwd = 47 # replicate 127 0, sh_pci = \<lparr>g_pci_available = False, pci_bus = ()\<rparr>,
     g_panic_active = False\<rparr>"

lemma demo_shell_ready: "shell_ready ram_view demo_shell" "idle (kernel demo_shell)" "enter_held 0 (kernel demo_shell)"
proof -
  have "cstr (47 # replicate 127 0) = [47]" by (simp add: cstr_def)
  moreover have "canonical_path [47]"
    by (auto simp: canonical_path_def PATH_CAPACITY_def render_def intro!: exI [of _ "[]"])
  ultimately have "cwd_ok (47 # replicate 127 0)" by (simp add: cwd_ok_def PATH_CAPACITY_def)
  then show "shell_ready ram_view demo_shell"
    using demo_idle_ok demo_readable by (simp add: shell_ready_def demo_shell_def idle_def)
  show "idle (kernel demo_shell)" "enter_held 0 (kernel demo_shell)" using demo_idle_ok by (simp_all add: demo_shell_def)
qed

definition demo_shell_env :: "unit shell_env" where
  "demo_shell_env = \<lparr>sh_process = demo_env,
     sh_io = \<lparr>port_in8 = (\<lambda>p d. (0xFF, d)), port_in16 = (\<lambda>p d. (0xFFFF, d)), port_in32 = (\<lambda>p d. (0xFFFFFFFF, d)),
       port_out8 = (\<lambda>p v d. d), port_out16 = (\<lambda>p v d. d), port_out32 = (\<lambda>p v d. d)\<rparr>,
     sh_frame = demo_frame, sh_cr2 = 0\<rparr>"

definition demo_fault :: "user_act list" where
  "demo_fault = [UserTrap (demo_frame\<lparr>tf_vector := 14\<rparr>)]"

lemma demo_fault_ok: "from_user_mode demo_fault" "outcome demo_fault = Some 0xFFFFFFFF"
  by (auto simp: from_user_mode_def demo_fault_def demo_frame_def PROGRAM_SYSCALL_VECTOR_def)

theorem shell_execute_unharmed_witness:
  "\<exists>t. shell_execute demo_shell_env demo_fault (bytes_of ''  ls docs'') demo_shell = Some (Running t) \<and>
     unharmed (kernel demo_shell) (kernel t) \<and> g_cwd t = g_cwd demo_shell"
proof -
  have w: "word_of (skip_spaces (bytes_of ''  ls docs'')) = bytes_of ''ls''"
    by (simp add: bytes_of_def k_is_space_def)
  have l: "nul_free (bytes_of ''  ls docs'')" "length (bytes_of ''  ls docs'') < 2 ^ 31"
    by (simp_all add: bytes_of_def nul_free_def)
  have n: "\<not> writes_files (word_of (skip_spaces (bytes_of ''  ls docs'')))"
    unfolding w by (simp add: writes_files_def bytes_of_def)
  have d: "bytes_of ''ls'' \<noteq> bytes_of ''cd''" "bytes_of ''ls'' \<notin> {bytes_of ''panic'', bytes_of ''fault''}"
    by (simp_all add: bytes_of_def)
  obtain out where "shell_execute demo_shell_env demo_fault (bytes_of ''  ls docs'') demo_shell = Some out" and
    "case out of Running t \<Rightarrow> unharmed (kernel demo_shell) (kernel t) \<and> cwd_ok (g_cwd t) \<and>
         (bytes_of ''ls'' \<noteq> bytes_of ''cd'' \<longrightarrow> g_cwd t = g_cwd demo_shell)
     | Halted t \<Rightarrow> bytes_of ''ls'' \<in> {bytes_of ''panic'', bytes_of ''fault''} \<and> g_panic_active t \<and>
         paging (kernel t) = paging (kernel demo_shell) \<and> ram (kernel t) = ram (kernel demo_shell)"
    using shell_execute_unharmed [OF demo_shell_ready l n demo_fault_ok, of demo_shell_env] unfolding w by blast
  then show ?thesis using d by (cases out) simp_all
qed

subsection \<open>A session\<close>

lemma enter_line:
  assumes "enter_held 0 s" and "read_line_loop capacity 0 buffer s = Some (n, typed, t)"
  shows "cstr typed = []"
proof -
  obtain s1 where "poll_char s = (10, s1)" using poll_char_enter [OF assms(1)] by (metis le0 prod.collapse)
  then have "typed = buffer[0 := 0]" "buffer \<noteq> []"
    using assms(2) by (subst (asm) read_line_loop.simps, auto simp: store_def split: if_splits Option.bind_splits)+
  then show ?thesis by (cases buffer) (simp_all add: cstr_def)
qed

lemma read_line_returns:
  assumes r: "shell_ready view s" and e: "enter_held T (kernel s)" and l: "length line = SHELL_LINE_CAPACITY"
  shows "\<exists>typed t. shell_read_line first line s = Some (typed, t) \<and> spoke s t \<and> length typed = SHELL_LINE_CAPACITY \<and>
    (T = 0 \<longrightarrow> cstr typed = [])"
proof -
  obtain t1 where t1: "(if \<not> first then on_kernel (console_write_char 10) s else Some s) = Some t1" "spoke s t1"
    using on_kernel_speaks [OF speaks_rules(2) r, of 10] spoke_refl [OF r] by (cases first) auto
  note r1 = spoke_ready [OF t1(2) r]
  have "speaks (\<lambda>k. do { k \<leftarrow> console_write (bytes_of ''FunnyOS:'') k; k \<leftarrow> console_write (cstr (g_cwd t1)) k;
      console_write (bytes_of ''> '') k })" by (intro speaks_rules)
  from on_kernel_speaks [OF this r1] obtain t2 where t2: "shell_print_prompt t1 = Some t2" "spoke t1 t2"
    by (auto simp: shell_print_prompt_def)
  note r2 = spoke_ready [OF t2(2) r1] and s2 = spoke_trans [OF t1(2) t2(2)]
  have e2: "enter_held T (kernel t2)" using e s2 by (simp add: spoke_def only_spoke_def enter_held_def)
  moreover have "console_ok (kernel t2)" using r2 by (simp add: shell_ready_def)
  moreover have "line_ok (unat (of_nat SHELL_LINE_CAPACITY :: u64)) (unat (0 :: u64)) line"
    using l by (simp add: line_ok_def SHELL_LINE_CAPACITY_def)
  ultimately obtain n typed k where k: "read_line_loop (of_nat SHELL_LINE_CAPACITY) 0 line (kernel t2) = Some (n, typed, k)"
      "console_ok k" "length typed = length line" "moves (kernel t2) k"
    using read_line_loop_ok by blast
  have "spoke t2 (t2\<lparr>kernel := k\<rparr>)" using only_spoke_moves [OF k(4,2)] by (simp add: spoke_def)
  then have "spoke s (t2\<lparr>kernel := k\<rparr>)" by (rule spoke_trans [OF s2])
  then show ?thesis
    using t1(1) t2(1) k(1,3) l enter_line [OF _ k(1)] e2
    by (auto simp: shell_read_line_def keyboard_read_line_def SHELL_LINE_CAPACITY_def)
qed

text \<open>The user types no line that writes files.\<close>

fun types_no_write :: "'p shell_env \<Rightarrow> user_act list list \<Rightarrow> bool \<Rightarrow> bytes \<Rightarrow> ('d, 'p) shell_state \<Rightarrow> bool" where
  "types_no_write env [] first line sh = True"
| "types_no_write env (acts # turns) first line sh =
     (case shell_read_line first line sh of None \<Rightarrow> True
      | Some (typed, t) \<Rightarrow> \<not> writes_files (word_of (skip_spaces (cstr typed))) \<and>
          (case shell_execute env acts (cstr typed) t of Some (Running u) \<Rightarrow> types_no_write env turns False typed u | _ \<Rightarrow> True))"

text \<open>As \<open>unharmed\<close>, over many runs: each may lose pages of its own when the table of free ranges is full.\<close>

definition kept :: "'d kernel_state \<Rightarrow> 'd kernel_state \<Rightarrow> bool" where
  "kept s t \<longleftrightarrow> idle t \<and> avail (paging t) \<subseteq> avail (paging s) \<and> g_pml4 (paging t) = g_pml4 (paging s) \<and>
     (\<forall>v. translate (pg_tables (paging t)) (g_pml4 (paging t)) v = translate (pg_tables (paging s)) (g_pml4 (paging s)) v) \<and>
     (\<forall>a. unat a \<notin> avail (paging s) \<longrightarrow> ram t a = ram s a) \<and> in_port t = in_port s \<and> only_looked (volume s) (volume t)"

lemma kept_unharmed: "unharmed s t \<Longrightarrow> kept s t"
  unfolding unharmed_def kept_def by (elim conjE) (intro conjI)

lemma kept_spoke: "idle s \<Longrightarrow> only_spoke s t \<Longrightarrow> kept s t"
  by (rule kept_unharmed [OF only_spoke_unharmed])

lemma kept_trans: "kept s t \<Longrightarrow> kept t u \<Longrightarrow> kept s u"
  using only_looked_trans by (auto simp: kept_def)

definition session_ok :: "('d \<Rightarrow> nat \<Rightarrow> bytes) \<Rightarrow> nat \<Rightarrow> ('d, 'p) shell_state \<Rightarrow> bool" where
  "session_ok view T s \<longleftrightarrow> shell_ready view s \<and> idle (kernel s) \<and> enter_held T (kernel s)"

lemma kept_session:
  assumes "session_ok view T s" and "kept (kernel s) (kernel t)" and "cwd_ok (g_cwd t)"
  shows "session_ok view T t"
  using assms only_looked_readable [of "volume (kernel s)" "volume (kernel t)" view]
  by (simp add: session_ok_def shell_ready_def kept_def idle_def enter_held_def)

lemma session_spoke:
  assumes "session_ok view T s" and "spoke s t"
  shows "session_ok view T t" "kept (kernel s) (kernel t)"
proof -
  show "kept (kernel s) (kernel t)" using assms kept_spoke [of "kernel s" "kernel t"] by (simp add: session_ok_def spoke_def)
  then show "session_ok view T t"
    by (rule kept_session [OF assms(1)]) (use assms in \<open>simp add: session_ok_def shell_ready_def spoke_def\<close>)
qed

definition session_end :: "('d, 'p) shell_state \<Rightarrow> ('d, 'p) shell_outcome \<Rightarrow> bool" where
  "session_end s out \<longleftrightarrow> (case out of Running t \<Rightarrow> kept (kernel s) (kernel t) \<and> cwd_ok (g_cwd t)
     | Halted t \<Rightarrow> kept (kernel s) (kernel t) \<and> g_panic_active t)"

lemma session_end_trans: "kept (kernel s) (kernel t) \<Longrightarrow> session_end t out \<Longrightarrow> session_end s out"
  using kept_trans by (auto simp: session_end_def split: shell_outcome.splits)

lemma turn_returns:
  fixes s :: "('d, 'p) shell_state"
  assumes s: "session_ok view T s" and l: "length line = SHELL_LINE_CAPACITY" and acts: "from_user_mode acts" "outcome acts = Some c"
    and quiet: "types_no_write env (acts # turns) first line s"
  shows "\<exists>typed out. shell_turn env acts first line s = Some (typed, out) \<and> session_end s out \<and>
    length typed = SHELL_LINE_CAPACITY \<and> (\<forall>t. out = Running t \<longrightarrow> types_no_write env turns False typed t)"
proof -
  obtain typed t where t: "shell_read_line first line s = Some (typed, t)" "spoke s t" "length typed = SHELL_LINE_CAPACITY"
    using read_line_returns [of view s T line first] s l by (auto simp: session_ok_def)
  note st = session_spoke [OF s t(2)]
  have "length (cstr typed) \<le> length typed" by (simp add: cstr_def length_takeWhile_le)
  then have len: "length (cstr typed) < 2 ^ 31" using t(3) by (simp add: SHELL_LINE_CAPACITY_def)
  have free: "nul_free (cstr typed)" by simp
  have w: "\<not> writes_files (word_of (skip_spaces (cstr typed)))" using quiet t(1) by simp
  obtain out where out: "shell_execute env acts (cstr typed) t = Some out" "line_done (word_of (skip_spaces (cstr typed))) t out"
    using execute_done [OF _ _ _ free len w acts, of view t T env] st(1) by (auto simp: session_ok_def)
  have "idle (kernel t)" using st(1) by (simp add: session_ok_def)
  then have "session_end t out"
    using out(2) kept_unharmed kept_spoke by (auto simp: line_done_def session_end_def halted_def split: shell_outcome.splits)
  then have "session_end s out" by (rule session_end_trans [OF st(2)])
  moreover have "\<forall>u. out = Running u \<longrightarrow> types_no_write env turns False typed u" using quiet t(1) out(1) by (cases out) simp_all
  ultimately show ?thesis using t(1,3) out(1) by (simp add: shell_turn_def)
qed

lemma loop_returns:
  fixes s :: "('d, 'p) shell_state"
  assumes "session_ok view T s" and "length line = SHELL_LINE_CAPACITY"
    and "\<forall>acts \<in> set turns. from_user_mode acts \<and> outcome acts \<noteq> None" and "types_no_write env turns first line s"
  shows "\<exists>out. shell_loop env turns first line s = Some out \<and> session_end s out"
  using assms
proof (induction turns arbitrary: first line s)
  case Nil
  then show ?case
    using kept_spoke [OF _ only_spoke_refl, of "kernel s"] by (auto simp: session_end_def session_ok_def shell_ready_def)
next
  case (Cons acts turns)
  then obtain c where acts: "from_user_mode acts" "outcome acts = Some c" by auto
  obtain typed out where t: "shell_turn env acts first line s = Some (typed, out)" "session_end s out"
      "length typed = SHELL_LINE_CAPACITY" "\<And>t. out = Running t \<Longrightarrow> types_no_write env turns False typed t"
    using turn_returns [OF Cons.prems(1,2) acts Cons.prems(4)] by blast
  show ?case
  proof (cases out)
    case (Running u)
    have k: "kept (kernel s) (kernel u)" "cwd_ok (g_cwd u)" using t(2) by (simp_all add: Running session_end_def)
    have "\<exists>out. shell_loop env turns False typed u = Some out \<and> session_end u out"
      by (rule Cons.IH [OF kept_session [OF Cons.prems(1) k] t(3) _ t(4) [OF Running]]) (use Cons.prems(3) in simp)
    then show ?thesis using t(1) Running session_end_trans [OF k(1)] by auto
  next
    case (Halted u)
    then show ?thesis using t(1,2) by simp
  qed
qed

lemma speaks_banner: "shell_ready view s \<Longrightarrow> \<exists>t. shell_print_banner s = Some t \<and> spoke s t"
  unfolding shell_print_banner_def by (rule on_kernel_speaks) (intro speaks_rules)

text \<open>C3. From boot on, the shell answers every line: however many lines the user types and whatever the
  programs among them do, as long as no line names a command that writes files, \<open>shell_run\<close> is back at its prompt
  or has stopped behind a panic screen. The kernel is idle with its mapping and its own memory as at the start,
  the volume has only been looked at and the directory is canonical.\<close>

theorem shell_run_session:
  fixes s :: "('d, 'p) shell_state"
  assumes "shell_ready view s" and "idle (kernel s)" and "enter_held T (kernel s)" and "length line = SHELL_LINE_CAPACITY"
    and "\<forall>acts \<in> set turns. from_user_mode acts \<and> outcome acts \<noteq> None"
    and "\<And>t. shell_print_banner s = Some t \<Longrightarrow> types_no_write env turns True line t"
  shows "\<exists>out. shell_run env turns line s = Some out \<and> (case out of
     Running t \<Rightarrow> kept (kernel s) (kernel t) \<and> cwd_ok (g_cwd t)
   | Halted t \<Rightarrow> kept (kernel s) (kernel t) \<and> g_panic_active t)"
proof -
  obtain t where t: "shell_print_banner s = Some t" "spoke s t" using speaks_banner [OF assms(1)] by blast
  have "session_ok view T s" using assms(1-3) by (simp add: session_ok_def)
  note st = session_spoke [OF this t(2)]
  obtain out where "shell_loop env turns True line t = Some out" "session_end t out"
    using loop_returns [OF st(1) assms(4,5) assms(6) [OF t(1)]] by blast
  then show ?thesis
    using t(1) session_end_trans [OF st(2)] by (auto simp: shell_run_def session_end_def)
qed

lemma types_enter:
  assumes "session_ok view 0 s" and "length line = SHELL_LINE_CAPACITY"
  shows "types_no_write env turns first line s"
  using assms
proof (induction turns arbitrary: first line s)
  case (Cons acts turns)
  obtain typed t where t: "shell_read_line first line s = Some (typed, t)" "spoke s t" "length typed = SHELL_LINE_CAPACITY"
      "cstr typed = []"
    using read_line_returns [of view s 0 line first] Cons.prems by (auto simp: session_ok_def)
  have "shell_execute env acts [] t = Some (Running t)" by (simp add: shell_execute_def)
  then show ?case
    using t Cons.IH [OF session_spoke(1) [OF Cons.prems(1) t(2)] t(3)] by (simp add: writes_files_def bytes_of_def)
qed simp

theorem shell_run_session_witness:
  "\<exists>out. shell_run demo_shell_env [demo_fault, demo_fault, demo_fault] (replicate 128 0) demo_shell = Some out \<and>
     (case out of Running t \<Rightarrow> kept (kernel demo_shell) (kernel t) \<and> cwd_ok (g_cwd t)
      | Halted t \<Rightarrow> kept (kernel demo_shell) (kernel t) \<and> g_panic_active t)"
proof (rule shell_run_session [OF demo_shell_ready])
  show l: "length (replicate 128 0 :: bytes) = SHELL_LINE_CAPACITY" by (simp add: SHELL_LINE_CAPACITY_def)
  show "\<forall>acts \<in> set [demo_fault, demo_fault, demo_fault]. from_user_mode acts \<and> outcome acts \<noteq> None"
    using demo_fault_ok by simp
  fix t assume b: "shell_print_banner demo_shell = Some t"
  have s: "session_ok ram_view 0 demo_shell" using demo_shell_ready by (simp add: session_ok_def)
  obtain u where "shell_print_banner demo_shell = Some u" "spoke demo_shell u" using speaks_banner [OF demo_shell_ready(1)] by blast
  then have "spoke demo_shell t" using b by simp
  from session_spoke(1) [OF s this] show "types_no_write demo_shell_env [demo_fault, demo_fault, demo_fault] True (replicate 128 0) t"
    by (rule types_enter [OF _ l])
qed

end
