(* ===== verification/Acpi.thy ===== *)
theory Acpi
  imports Prelude KString BootInfo
begin

text \<open>
  \<open>src/kernel/acpi.c\<close>: the walk from the root pointer of the firmware over its tables to the interrupt
  controllers. Memory is a function from addresses to bytes. The result is compared with a plain reading of the
  tables: the last valid table of a kind among those the root table lists.
\<close>

subsection \<open>Formats\<close>

definition ACPI_SIG_RSDT :: u32 where "ACPI_SIG_RSDT = 0x54445352"
definition ACPI_SIG_XSDT :: u32 where "ACPI_SIG_XSDT = 0x54445358"
definition ACPI_SIG_FADT :: u32 where "ACPI_SIG_FADT = 0x50434146"
definition ACPI_SIG_MADT :: u32 where "ACPI_SIG_MADT = 0x43495041"
definition ACPI_MADT_ENTRY_IOAPIC :: u8 where "ACPI_MADT_ENTRY_IOAPIC = 1"
definition ACPI_MAX_MADT_SCAN_BYTES :: u64 where "ACPI_MAX_MADT_SCAN_BYTES = 4096"
definition ACPI_MAX_IDENTITY_ADDRESS :: u64 where "ACPI_MAX_IDENTITY_ADDRESS = 0x100000000"

text \<open>The sizes of the packed structures.\<close>

definition RSDP_V1_SIZE :: u64 where "RSDP_V1_SIZE = 20"
definition RSDP_V2_SIZE :: u64 where "RSDP_V2_SIZE = 36"
definition SDT_HEADER_SIZE :: u64 where "SDT_HEADER_SIZE = 36"
definition MADT_SIZE :: u64 where "MADT_SIZE = 44"
definition MADT_ENTRY_SIZE :: u64 where "MADT_ENTRY_SIZE = 2"
definition MADT_IOAPIC_SIZE :: u64 where "MADT_IOAPIC_SIZE = 12"

definition mem_u32 :: "(u64 \<Rightarrow> u8) \<Rightarrow> u64 \<Rightarrow> u32" where
  "mem_u32 r a = of_le32 (r a) (r (a + 1)) (r (a + 2)) (r (a + 3))"

definition mem_u64 :: "(u64 \<Rightarrow> u8) \<Rightarrow> u64 \<Rightarrow> u64" where
  "mem_u64 r a = ucast (mem_u32 r a) OR push_bit 32 (ucast (mem_u32 r (a + 4)))"

text \<open>The fields the code reads, at their offsets.\<close>

definition rsdp_revision :: "(u64 \<Rightarrow> u8) \<Rightarrow> u64 \<Rightarrow> u8" where "rsdp_revision r a = r (a + 15)"
definition rsdp_rsdt_address :: "(u64 \<Rightarrow> u8) \<Rightarrow> u64 \<Rightarrow> u32" where "rsdp_rsdt_address r a = mem_u32 r (a + 16)"
definition rsdp_length :: "(u64 \<Rightarrow> u8) \<Rightarrow> u64 \<Rightarrow> u32" where "rsdp_length r a = mem_u32 r (a + 20)"
definition rsdp_xsdt_address :: "(u64 \<Rightarrow> u8) \<Rightarrow> u64 \<Rightarrow> u64" where "rsdp_xsdt_address r a = mem_u64 r (a + 24)"
definition sdt_signature :: "(u64 \<Rightarrow> u8) \<Rightarrow> u64 \<Rightarrow> u32" where "sdt_signature r a = mem_u32 r a"
definition sdt_length :: "(u64 \<Rightarrow> u8) \<Rightarrow> u64 \<Rightarrow> u32" where "sdt_length r a = mem_u32 r (a + 4)"
definition madt_lapic_address :: "(u64 \<Rightarrow> u8) \<Rightarrow> u64 \<Rightarrow> u32" where "madt_lapic_address r a = mem_u32 r (a + 36)"
definition entry_type :: "(u64 \<Rightarrow> u8) \<Rightarrow> u64 \<Rightarrow> u8" where "entry_type r a = r a"
definition entry_length :: "(u64 \<Rightarrow> u8) \<Rightarrow> u64 \<Rightarrow> u8" where "entry_length r a = r (a + 1)"
definition madt_ioapic_id :: "(u64 \<Rightarrow> u8) \<Rightarrow> u64 \<Rightarrow> u8" where "madt_ioapic_id r a = r (a + 2)"
definition madt_ioapic_address :: "(u64 \<Rightarrow> u8) \<Rightarrow> u64 \<Rightarrow> u32" where "madt_ioapic_address r a = mem_u32 r (a + 4)"
definition madt_ioapic_gsi_base :: "(u64 \<Rightarrow> u8) \<Rightarrow> u64 \<Rightarrow> u32" where "madt_ioapic_gsi_base r a = mem_u32 r (a + 8)"

record AcpiPlatformInfo =
  ac_present :: bool
  ac_rsdp :: u64
  ac_sdt_root :: u64
  ac_madt :: u64
  ac_fadt :: u64
  lapic_address :: u32
  ioapic_address :: u32
  ioapic_gsi_base :: u32
  ioapic_id :: u8

text \<open>The static variable after \<open>k_memset\<close>.\<close>

definition acpi_zero :: AcpiPlatformInfo where
  "acpi_zero = \<lparr>ac_present = False, ac_rsdp = 0, ac_sdt_root = 0, ac_madt = 0, ac_fadt = 0, lapic_address = 0,
     ioapic_address = 0, ioapic_gsi_base = 0, ioapic_id = 0\<rparr>"

subsection \<open>The code\<close>

definition acpi_memory_readable :: "u64 \<Rightarrow> u64 \<Rightarrow> bool" where
  "acpi_memory_readable address sz =
     (if address = 0 \<or> sz = 0 then False
      else if address + sz < address then False
      else address + sz \<le> ACPI_MAX_IDENTITY_ADDRESS)"

definition acpi_checksum_ok :: "(u64 \<Rightarrow> u8) \<Rightarrow> u64 \<Rightarrow> u64 \<Rightarrow> bool" where
  "acpi_checksum_ok r data sz =
     (if data = 0 \<or> sz = 0 then False
      else fold (\<lambda>i sum. sum + r (data + of_nat i)) [0..<unat sz] 0 = 0)"

definition acpi_rsdp_signature_valid :: "(u64 \<Rightarrow> u8) \<Rightarrow> u64 \<Rightarrow> bool" where
  "acpi_rsdp_signature_valid r rsdp \<longleftrightarrow> rsdp \<noteq> 0 \<and>
     list_all (\<lambda>i. r (rsdp + of_nat i) = bytes_of ''RSD PTR '' ! i) [0..<8]"

definition acpi_validate_header :: "(u64 \<Rightarrow> u8) \<Rightarrow> u64 \<Rightarrow> u32 \<Rightarrow> u64 option" where
  "acpi_validate_header r address expected_signature =
     (if \<not> acpi_memory_readable address SDT_HEADER_SIZE then None
      else if sdt_signature r address \<noteq> expected_signature then None
      else if ucast (sdt_length r address) < SDT_HEADER_SIZE then None
      else if \<not> acpi_memory_readable address (ucast (sdt_length r address)) then None
      else if \<not> acpi_checksum_ok r address (ucast (sdt_length r address)) then None
      else Some address)"

partial_function (option) scan_entries :: "(u64 \<Rightarrow> u8) \<Rightarrow> u64 \<Rightarrow> u64 \<Rightarrow> AcpiPlatformInfo \<Rightarrow> AcpiPlatformInfo option" where
  "scan_entries r cursor stop g =
     (if \<not> cursor + MADT_ENTRY_SIZE \<le> stop then Some g
      else if ucast (entry_length r cursor) < MADT_ENTRY_SIZE then Some g
      else if cursor + ucast (entry_length r cursor) > stop then Some g
      else if entry_type r cursor = ACPI_MADT_ENTRY_IOAPIC \<and> ucast (entry_length r cursor) \<ge> MADT_IOAPIC_SIZE
      then Some (g\<lparr>ioapic_id := madt_ioapic_id r cursor, ioapic_address := madt_ioapic_address r cursor,
                  ioapic_gsi_base := madt_ioapic_gsi_base r cursor\<rparr>)
      else scan_entries r (cursor + ucast (entry_length r cursor)) stop g)"

definition acpi_scan_madt :: "(u64 \<Rightarrow> u8) \<Rightarrow> u64 option \<Rightarrow> AcpiPlatformInfo \<Rightarrow> AcpiPlatformInfo option" where
  "acpi_scan_madt r madt g =
     (case madt of
        None \<Rightarrow> Some g
      | Some a \<Rightarrow>
          let g = g\<lparr>lapic_address := madt_lapic_address r a\<rparr>;
              cursor = a + MADT_SIZE;
              stop = a + ucast (sdt_length r a)
          in if stop < cursor then Some g
             else let stop = (if stop - cursor > ACPI_MAX_MADT_SCAN_BYTES then cursor + ACPI_MAX_MADT_SCAN_BYTES else stop)
               in scan_entries r cursor stop g)"

text \<open>One entry of the root table, and the loop over them.\<close>

definition acpi_entry :: "(u64 \<Rightarrow> u8) \<Rightarrow> bool \<Rightarrow> u64 \<Rightarrow> nat \<Rightarrow> AcpiPlatformInfo \<Rightarrow> AcpiPlatformInfo option" where
  "acpi_entry r use_xsdt entries_base i g =
     (let table_addr = (if use_xsdt then mem_u64 r (entries_base + of_nat i * 8) else ucast (mem_u32 r (entries_base + of_nat i * 4))) in
      if use_xsdt \<and> table_addr \<ge> ACPI_MAX_IDENTITY_ADDRESS then Some g
      else if \<not> acpi_memory_readable table_addr SDT_HEADER_SIZE then Some g
      else if sdt_signature r table_addr = ACPI_SIG_MADT then
        (case acpi_validate_header r table_addr ACPI_SIG_MADT of
           None \<Rightarrow> Some g
         | Some madt \<Rightarrow> acpi_scan_madt r (Some madt) (g\<lparr>ac_madt := table_addr\<rparr>))
      else if sdt_signature r table_addr = ACPI_SIG_FADT then
        Some (if acpi_validate_header r table_addr ACPI_SIG_FADT \<noteq> None then g\<lparr>ac_fadt := table_addr\<rparr> else g)
      else Some g)"

fun acpi_entries :: "(u64 \<Rightarrow> u8) \<Rightarrow> bool \<Rightarrow> u64 \<Rightarrow> nat list \<Rightarrow> AcpiPlatformInfo \<Rightarrow> AcpiPlatformInfo option" where
  "acpi_entries r use_xsdt entries_base [] g = Some g"
| "acpi_entries r use_xsdt entries_base (i # rest) g = do {
     g \<leftarrow> acpi_entry r use_xsdt entries_base i g; acpi_entries r use_xsdt entries_base rest g }"

text \<open>The root table and whether it is an XSDT; \<open>None\<close> where the code returns false before it has one.\<close>

definition acpi_root :: "(u64 \<Rightarrow> u8) \<Rightarrow> u64 \<Rightarrow> (u64 \<times> bool) option" where
  "acpi_root r rsdp =
     (if \<not> acpi_memory_readable rsdp RSDP_V1_SIZE then None
      else if \<not> acpi_rsdp_signature_valid r rsdp then None
      else if \<not> acpi_checksum_ok r rsdp RSDP_V1_SIZE then None
      else if rsdp_revision r rsdp \<ge> 2 \<and>
        (\<not> acpi_memory_readable rsdp RSDP_V2_SIZE \<or> ucast (rsdp_length r rsdp) < RSDP_V2_SIZE \<or>
         \<not> acpi_memory_readable rsdp (ucast (rsdp_length r rsdp)) \<or> \<not> acpi_checksum_ok r rsdp (ucast (rsdp_length r rsdp)))
      then None
      else
        let use_xsdt = (rsdp_revision r rsdp \<ge> 2 \<and> rsdp_xsdt_address r rsdp \<noteq> 0 \<and>
              rsdp_xsdt_address r rsdp < ACPI_MAX_IDENTITY_ADDRESS);
            sdt_root = (if use_xsdt then rsdp_xsdt_address r rsdp else ucast (rsdp_rsdt_address r rsdp))
        in if sdt_root = 0 then None
           else if acpi_validate_header r sdt_root (if use_xsdt then ACPI_SIG_XSDT else ACPI_SIG_RSDT) = None then None
           else Some (sdt_root, use_xsdt))"

definition entries_count :: "(u64 \<Rightarrow> u8) \<Rightarrow> u64 \<Rightarrow> bool \<Rightarrow> u32" where
  "entries_count r sdt_root use_xsdt = ucast ((ucast (sdt_length r sdt_root) - SDT_HEADER_SIZE) div (if use_xsdt then 8 else 4))"

definition acpi_init :: "(u64 \<Rightarrow> u8) \<Rightarrow> BootInfo option \<Rightarrow> AcpiPlatformInfo \<Rightarrow> (bool \<times> AcpiPlatformInfo) option" where
  "acpi_init r boot_info g =
     (let g = acpi_zero in
      case boot_info of
        None \<Rightarrow> Some (False, g)
      | Some b \<Rightarrow>
          if acpi_rsdp b = 0 then Some (False, g)
          else case acpi_root r (acpi_rsdp b) of
            None \<Rightarrow> Some (False, g)
          | Some (sdt_root, use_xsdt) \<Rightarrow> do {
              g \<leftarrow> acpi_entries r use_xsdt (sdt_root + SDT_HEADER_SIZE) [0..<unat (entries_count r sdt_root use_xsdt)]
                 (g\<lparr>ac_present := True, ac_rsdp := acpi_rsdp b, ac_sdt_root := sdt_root\<rparr>);
              Some (ac_madt g \<noteq> 0 \<and> lapic_address g \<noteq> 0, g) })"

definition acpi_platform_info :: "AcpiPlatformInfo \<Rightarrow> AcpiPlatformInfo" where
  "acpi_platform_info g = g"

subsection \<open>Tables\<close>

text \<open>A table: in the identity-mapped memory, with its signature, its length and a sum of its bytes of zero
  modulo 256.\<close>

definition sdt_ok :: "(u64 \<Rightarrow> u8) \<Rightarrow> u32 \<Rightarrow> u64 \<Rightarrow> bool" where
  "sdt_ok r sig a \<longleftrightarrow> a \<noteq> 0 \<and> sdt_signature r a = sig \<and> 36 \<le> unat (sdt_length r a) \<and>
     unat a + unat (sdt_length r a) \<le> 2 ^ 32 \<and>
     (\<Sum>i<unat (sdt_length r a). unat (r (a + of_nat i))) mod 256 = 0"

lemma readable_iff: "acpi_memory_readable a sz \<longleftrightarrow> a \<noteq> 0 \<and> sz \<noteq> 0 \<and> unat a + unat sz \<le> 2 ^ 32"
proof (cases "unat a + unat sz < 2 ^ 64")
  case True
  then have "unat (a + sz) = unat a + unat sz" by (intro unat_add_small) simp
  then show ?thesis by (auto simp: acpi_memory_readable_def ACPI_MAX_IDENTITY_ADDRESS_def word_le_nat_alt word_less_nat_alt)
next
  case False
  have "unat (a + sz) = unat a + unat sz - 2 ^ 64"
    using False unat_u64_bound [of a] unat_u64_bound [of sz] by (simp add: unat_word_ariths mod_if)
  then have "a + sz < a" using unat_u64_bound [of sz] False by (simp add: word_less_nat_alt)
  then show ?thesis using False by (auto simp: acpi_memory_readable_def)
qed

lemma checksum_fold: "unat (fold (\<lambda>i sum. sum + r (a + of_nat i)) [0..<n] (0 :: u8)) = (\<Sum>i<n. unat (r (a + of_nat i))) mod 256"
  by (induction n) (simp_all add: unat_word_ariths mod_simps)

lemma checksum_iff:
  "acpi_checksum_ok r a sz \<longleftrightarrow> a \<noteq> 0 \<and> sz \<noteq> 0 \<and> (\<Sum>i<unat sz. unat (r (a + of_nat i))) mod 256 = 0"
  by (simp add: acpi_checksum_ok_def unat_eq_0 [symmetric] checksum_fold)

lemma validate_iff: "acpi_validate_header r a sig = (if sdt_ok r sig a then Some a else None)"
proof -
  have [simp]: "unat (36 :: u64) = 36" "(ucast (sdt_length r a) :: u64) = 0 \<longleftrightarrow> unat (sdt_length r a) = 0"
    by (simp_all flip: unat_eq_0)
  show ?thesis
    by (auto simp: acpi_validate_header_def sdt_ok_def readable_iff checksum_iff SDT_HEADER_SIZE_def word_less_nat_alt)
qed

subsection \<open>The entries of a MADT\<close>

text \<open>The entries that lie in the first 4096 bytes behind the fixed part, one after the other.\<close>

definition madt_stop :: "(u64 \<Rightarrow> u8) \<Rightarrow> u64 \<Rightarrow> nat" where
  "madt_stop r a = min (unat a + unat (sdt_length r a)) (unat a + 44 + 4096)"

inductive madt_entry :: "(u64 \<Rightarrow> u8) \<Rightarrow> u64 \<Rightarrow> u64 \<Rightarrow> bool" for r a where
  first: "unat a + 46 \<le> madt_stop r a \<Longrightarrow> madt_entry r a (a + 44)"
| next_entry: "madt_entry r a e \<Longrightarrow> 2 \<le> unat (entry_length r e) \<Longrightarrow> unat e + unat (entry_length r e) + 2 \<le> madt_stop r a \<Longrightarrow>
    madt_entry r a (e + ucast (entry_length r e))"

definition is_ioapic :: "(u64 \<Rightarrow> u8) \<Rightarrow> u64 \<Rightarrow> u64 \<Rightarrow> bool" where
  "is_ioapic r a e \<longleftrightarrow> madt_entry r a e \<and> entry_type r e = ACPI_MADT_ENTRY_IOAPIC \<and> 12 \<le> unat (entry_length r e) \<and>
     unat e + unat (entry_length r e) \<le> madt_stop r a"

definition with_ioapic :: "(u64 \<Rightarrow> u8) \<Rightarrow> u64 \<Rightarrow> AcpiPlatformInfo \<Rightarrow> AcpiPlatformInfo" where
  "with_ioapic r e g = g\<lparr>ioapic_id := madt_ioapic_id r e, ioapic_address := madt_ioapic_address r e,
     ioapic_gsi_base := madt_ioapic_gsi_base r e\<rparr>"

lemma scan_entries_returns:
  assumes "madt_stop r a \<le> 2 ^ 32" and "unat stop = madt_stop r a"
    and "unat c + 2 \<le> madt_stop r a \<longrightarrow> madt_entry r a c"
    and "unat c \<le> madt_stop r a"
  shows "\<exists>g'. scan_entries r c stop g = Some g' \<and> (g' = g \<or> (\<exists>e. is_ioapic r a e \<and> g' = with_ioapic r e g))"
  using assms(3,4)
proof (induction "madt_stop r a - unat c" arbitrary: c rule: less_induct)
  case less
  let ?n = "unat (entry_length r c)"
  have c32: "unat c \<le> 2 ^ 32" using less.prems(2) assms(1) by simp
  have n: "?n < 256" by (rule unat_u8_bound)
  have c2: "unat (c + MADT_ENTRY_SIZE) = unat c + 2" using c32 by (simp add: MADT_ENTRY_SIZE_def unat_add_small)
  have cn: "unat (c + ucast (entry_length r c)) = unat c + ?n" using c32 n by (simp add: unat_add_small)
  note run = scan_entries.simps [of r c stop g]
  show ?case
  proof (cases "unat c + 2 \<le> madt_stop r a \<and> 2 \<le> ?n \<and> unat c + ?n \<le> madt_stop r a")
    case False
    then have "scan_entries r c stop g = Some g"
      using assms(2) c2 cn by (subst run) (auto simp: word_le_nat_alt word_less_nat_alt, auto simp: MADT_ENTRY_SIZE_def)
    then show ?thesis by blast
  next
    case True
    then have e: "madt_entry r a c" using less.prems(1) by simp
    have go: "c + MADT_ENTRY_SIZE \<le> stop" "\<not> ucast (entry_length r c) < MADT_ENTRY_SIZE" "\<not> c + ucast (entry_length r c) > stop"
      using True assms(2) c2 cn by (simp_all add: word_le_nat_alt word_less_nat_alt MADT_ENTRY_SIZE_def)
    show ?thesis
    proof (cases "entry_type r c = ACPI_MADT_ENTRY_IOAPIC \<and> 12 \<le> ?n")
      case io: True
      then have "MADT_IOAPIC_SIZE \<le> ucast (entry_length r c)" by (simp add: MADT_IOAPIC_SIZE_def word_le_nat_alt)
      then have "scan_entries r c stop g = Some (with_ioapic r c g)" using go io by (subst run) (simp add: with_ioapic_def)
      moreover have "is_ioapic r a c" using e io True by (simp add: is_ioapic_def)
      ultimately show ?thesis by blast
    next
      case other: False
      then have "\<not> (entry_type r c = ACPI_MADT_ENTRY_IOAPIC \<and> MADT_IOAPIC_SIZE \<le> ucast (entry_length r c))"
        by (simp add: MADT_IOAPIC_SIZE_def word_le_nat_alt)
      then have rec: "scan_entries r c stop g = scan_entries r (c + ucast (entry_length r c)) stop g"
        using go by (subst run) auto
      have "madt_stop r a - unat (c + ucast (entry_length r c)) < madt_stop r a - unat c" unfolding cn using True by linarith
      then show ?thesis
        unfolding rec by (rule less.hyps) (use True cn in \<open>simp_all add: next_entry [OF e]\<close>)
    qed
  qed
qed

lemma scan_madt_returns:
  assumes "sdt_ok r ACPI_SIG_MADT a"
  shows "\<exists>g'. acpi_scan_madt r (Some a) g = Some g' \<and> (g' = g\<lparr>lapic_address := madt_lapic_address r a\<rparr> \<or>
    (\<exists>e. is_ioapic r a e \<and> g' = with_ioapic r e (g\<lparr>lapic_address := madt_lapic_address r a\<rparr>)))"
proof -
  let ?len = "unat (sdt_length r a)" and ?g = "g\<lparr>lapic_address := madt_lapic_address r a\<rparr>"
  have fit: "unat a + ?len \<le> 2 ^ 32" using assms by (simp add: sdt_ok_def)
  have c: "unat (a + MADT_SIZE) = unat a + 44" using fit by (simp add: MADT_SIZE_def unat_add_small)
  have e: "unat (a + ucast (sdt_length r a)) = unat a + ?len" using fit by (simp add: unat_add_small)
  show ?thesis
  proof (cases "?len < 44")
    case True
    then have "a + ucast (sdt_length r a) < a + MADT_SIZE" using c e by (simp add: word_less_nat_alt)
    then show ?thesis by (simp add: acpi_scan_madt_def Let_def)
  next
    case False
    let ?stop = "if a + ucast (sdt_length r a) - (a + MADT_SIZE) > ACPI_MAX_MADT_SCAN_BYTES
      then a + MADT_SIZE + ACPI_MAX_MADT_SCAN_BYTES else a + ucast (sdt_length r a)"
    have d: "unat (a + ucast (sdt_length r a) - (a + MADT_SIZE)) = ?len - 44" using False c e by (subst unat_diff_small) simp_all
    have m: "unat (a + MADT_SIZE + ACPI_MAX_MADT_SCAN_BYTES) = unat a + 44 + 4096"
      using c fit False by (simp add: ACPI_MAX_MADT_SCAN_BYTES_def unat_add_small)
    have stop: "unat ?stop = madt_stop r a"
      using d m e False by (auto simp: madt_stop_def word_less_nat_alt ACPI_MAX_MADT_SCAN_BYTES_def)
    have bound: "madt_stop r a \<le> 2 ^ 32" "unat a + 44 \<le> madt_stop r a" using fit False by (simp_all add: madt_stop_def)
    have first: "unat (a + MADT_SIZE) + 2 \<le> madt_stop r a \<longrightarrow> madt_entry r a (a + MADT_SIZE)"
      using c madt_entry.first [of a r] by (simp add: MADT_SIZE_def)
    have "acpi_scan_madt r (Some a) g = scan_entries r (a + MADT_SIZE) ?stop ?g"
      using False c e by (simp add: acpi_scan_madt_def Let_def word_less_nat_alt)
    then show ?thesis using scan_entries_returns [OF bound(1) stop first, of ?g] c bound(2) by auto
  qed
qed

subsection \<open>The walk\<close>

text \<open>The addresses a root table lists.\<close>

definition listed :: "(u64 \<Rightarrow> u8) \<Rightarrow> u64 \<Rightarrow> bool \<Rightarrow> u64 list" where
  "listed r root use_xsdt = map (\<lambda>i. if use_xsdt then mem_u64 r (root + 36 + of_nat i * 8) else ucast (mem_u32 r (root + 36 + of_nat i * 4)))
     [0..<(unat (sdt_length r root) - 36) div (if use_xsdt then 8 else 4)]"

text \<open>The last of them that is a table of a kind; \<open>a\<close> if none is.\<close>

definition last_table :: "(u64 \<Rightarrow> u8) \<Rightarrow> u32 \<Rightarrow> u64 \<Rightarrow> u64 list \<Rightarrow> u64" where
  "last_table r sig a as = last (a # filter (sdt_ok r sig) as)"

lemma last_table_simps [simp]:
  "last_table r sig a [] = a" "last_table r sig a (x # xs) = last_table r sig (if sdt_ok r sig x then x else a) xs"
  by (simp_all add: last_table_def)

definition entry_step :: "(u64 \<Rightarrow> u8) \<Rightarrow> u64 \<Rightarrow> AcpiPlatformInfo \<Rightarrow> AcpiPlatformInfo option" where
  "entry_step r a g = (if sdt_ok r ACPI_SIG_MADT a then acpi_scan_madt r (Some a) (g\<lparr>ac_madt := a\<rparr>)
     else if sdt_ok r ACPI_SIG_FADT a then Some (g\<lparr>ac_fadt := a\<rparr>) else Some g)"

lemma acpi_entry_step:
  "acpi_entry r x (root + SDT_HEADER_SIZE) i g =
     entry_step r (if x then mem_u64 r (root + 36 + of_nat i * 8) else ucast (mem_u32 r (root + 36 + of_nat i * 4))) g"
proof -
  let ?a = "if x then mem_u64 r (root + 36 + of_nat i * 8) else ucast (mem_u32 r (root + 36 + of_nat i * 4)) :: u64"
  have out: "\<not> sdt_ok r sig ?a" if "?a \<ge> ACPI_MAX_IDENTITY_ADDRESS \<or> \<not> acpi_memory_readable ?a SDT_HEADER_SIZE" for sig
    using that by (auto simp: sdt_ok_def readable_iff SDT_HEADER_SIZE_def ACPI_MAX_IDENTITY_ADDRESS_def word_le_nat_alt)
  have sig: "\<not> sdt_ok r s ?a" if "sdt_signature r ?a \<noteq> s" for s using that by (simp add: sdt_ok_def)
  show ?thesis
    unfolding acpi_entry_def entry_step_def Let_def SDT_HEADER_SIZE_def [symmetric] validate_iff
    using out [of ACPI_SIG_MADT] out [of ACPI_SIG_FADT] sig [of ACPI_SIG_MADT] sig [of ACPI_SIG_FADT]
    by (auto simp: SDT_HEADER_SIZE_def)
qed

text \<open>What the loop has found when it started at \<open>g\<close> and has seen \<open>as\<close>.\<close>

definition ioapic_found :: "(u64 \<Rightarrow> u8) \<Rightarrow> u64 list \<Rightarrow> AcpiPlatformInfo \<Rightarrow> AcpiPlatformInfo \<Rightarrow> bool" where
  "ioapic_found r as g g' \<longleftrightarrow>
     (ioapic_id g', ioapic_address g', ioapic_gsi_base g') = (ioapic_id g, ioapic_address g, ioapic_gsi_base g) \<or>
     (\<exists>a \<in> set as. \<exists>e. sdt_ok r ACPI_SIG_MADT a \<and> is_ioapic r a e \<and>
        (ioapic_id g', ioapic_address g', ioapic_gsi_base g') = (madt_ioapic_id r e, madt_ioapic_address r e, madt_ioapic_gsi_base r e))"

definition found :: "(u64 \<Rightarrow> u8) \<Rightarrow> u64 list \<Rightarrow> AcpiPlatformInfo \<Rightarrow> AcpiPlatformInfo \<Rightarrow> bool" where
  "found r as g g' \<longleftrightarrow> ac_present g' = ac_present g \<and> ac_rsdp g' = ac_rsdp g \<and> ac_sdt_root g' = ac_sdt_root g \<and>
     ac_madt g' = last_table r ACPI_SIG_MADT (ac_madt g) as \<and> ac_fadt g' = last_table r ACPI_SIG_FADT (ac_fadt g) as \<and>
     lapic_address g' = (if filter (sdt_ok r ACPI_SIG_MADT) as = [] then lapic_address g else madt_lapic_address r (ac_madt g')) \<and>
     ioapic_found r as g g'"

lemma entry_step_found: "\<exists>g'. entry_step r a g = Some g' \<and> found r [a] g g'"
proof -
  have one: "\<not> (sdt_ok r ACPI_SIG_MADT a \<and> sdt_ok r ACPI_SIG_FADT a)"
    by (simp add: sdt_ok_def ACPI_SIG_MADT_def ACPI_SIG_FADT_def)
  show ?thesis
  proof (cases "sdt_ok r ACPI_SIG_MADT a")
    case True
    obtain g' where "acpi_scan_madt r (Some a) (g\<lparr>ac_madt := a\<rparr>) = Some g'"
      "g' = g\<lparr>ac_madt := a, lapic_address := madt_lapic_address r a\<rparr> \<or>
       (\<exists>e. is_ioapic r a e \<and> g' = with_ioapic r e (g\<lparr>ac_madt := a, lapic_address := madt_lapic_address r a\<rparr>))"
      using scan_madt_returns [OF True, of "g\<lparr>ac_madt := a\<rparr>"] by auto
    then show ?thesis using True one by (auto simp: entry_step_def found_def ioapic_found_def with_ioapic_def)
  qed (auto simp: entry_step_def found_def ioapic_found_def)
qed

lemma found_trans: "found r [a] g g1 \<Longrightarrow> found r as g1 g2 \<Longrightarrow> found r (a # as) g g2"
  by (auto simp: found_def ioapic_found_def last_table_def split: if_splits)

lemma acpi_entries_found:
  "\<exists>g'. acpi_entries r x (root + SDT_HEADER_SIZE) ns g = Some g' \<and>
     found r (map (\<lambda>i. if x then mem_u64 r (root + 36 + of_nat i * 8) else ucast (mem_u32 r (root + 36 + of_nat i * 4))) ns) g g'"
proof (induction ns arbitrary: g)
  case Nil
  then show ?case by (simp add: found_def ioapic_found_def)
next
  case (Cons i ns)
  let ?a = "\<lambda>i. if x then mem_u64 r (root + 36 + of_nat i * 8) else ucast (mem_u32 r (root + 36 + of_nat i * 4)) :: u64"
  obtain g1 where g1: "entry_step r (?a i) g = Some g1" "found r [?a i] g g1" using entry_step_found by blast
  obtain g2 where g2: "acpi_entries r x (root + SDT_HEADER_SIZE) ns g1 = Some g2" "found r (map ?a ns) g1 g2"
    using Cons.IH by blast
  show ?case using g1(1) g2(1) found_trans [OF g1(2) g2(2)] by (simp add: acpi_entry_step)
qed

lemma root_ok: "acpi_root r p = Some (root, x) \<Longrightarrow> sdt_ok r (if x then ACPI_SIG_XSDT else ACPI_SIG_RSDT) root"
  by (auto simp: acpi_root_def validate_iff Let_def split: if_splits)

lemma listed_eq:
  assumes "sdt_ok r sig root"
  shows "map (\<lambda>i. if x then mem_u64 r (root + 36 + of_nat i * 8) else ucast (mem_u32 r (root + 36 + of_nat i * 4)))
    [0..<unat (entries_count r root x)] = listed r root x"
proof -
  let ?len = "unat (sdt_length r root)"
  have len: "36 \<le> ?len" "?len < 2 ^ 32" using assms unat_u32_bound [of "sdt_length r root"] by (simp_all add: sdt_ok_def)
  have "unat (ucast (sdt_length r root) - SDT_HEADER_SIZE) = ?len - 36"
    using len by (simp add: SDT_HEADER_SIZE_def unat_diff_small)
  then have "unat ((ucast (sdt_length r root) - SDT_HEADER_SIZE) div (if x then 8 else 4)) = (?len - 36) div (if x then 8 else 4)"
    by (simp add: unat_div)
  moreover have "(?len - 36) div (if x then 8 else 4) < 2 ^ 32" using len(2) by (simp add: le_less_trans [OF div_le_dividend])
  ultimately have "unat (entries_count r root x) = (?len - 36) div (if x then 8 else 4)"
    by (simp add: entries_count_def unsigned_ucast_eq take_bit_nat_eq_self)
  then show ?thesis by (simp add: listed_def)
qed

lemma acpi_init_found:
  "\<exists>ok g. acpi_init r (Some b) g0 = Some (ok, g) \<and>
    (case acpi_root r (acpi_rsdp b) of
       None \<Rightarrow> \<not> ok \<and> g = acpi_zero
     | Some (root, x) \<Rightarrow> sdt_ok r (if x then ACPI_SIG_XSDT else ACPI_SIG_RSDT) root \<and> ac_present g \<and> ac_sdt_root g = root \<and>
         ac_madt g = last_table r ACPI_SIG_MADT 0 (listed r root x) \<and> ac_fadt g = last_table r ACPI_SIG_FADT 0 (listed r root x) \<and>
         (ac_madt g \<noteq> 0 \<longrightarrow> lapic_address g = madt_lapic_address r (ac_madt g)) \<and>
         (ioapic_address g \<noteq> 0 \<longrightarrow> (\<exists>a \<in> set (listed r root x). \<exists>e. sdt_ok r ACPI_SIG_MADT a \<and> is_ioapic r a e \<and>
            ioapic_address g = madt_ioapic_address r e)) \<and>
         (ok \<longleftrightarrow> ac_madt g \<noteq> 0 \<and> lapic_address g \<noteq> 0))"
proof (cases "acpi_root r (acpi_rsdp b)")
  case None
  then have "acpi_init r (Some b) g0 = Some (False, acpi_zero)" by (simp add: acpi_init_def)
  then show ?thesis using None by (intro exI [of _ False] exI [of _ acpi_zero]) simp
next
  case (Some rx)
  then obtain root x where rx: "acpi_root r (acpi_rsdp b) = Some (root, x)" by (cases rx) simp
  then have "acpi_rsdp b \<noteq> 0" by (auto simp: acpi_root_def acpi_memory_readable_def)
  moreover note ok = root_ok [OF rx]
  let ?g = "acpi_zero\<lparr>ac_present := True, ac_rsdp := acpi_rsdp b, ac_sdt_root := root\<rparr>"
  obtain g where g: "acpi_entries r x (root + SDT_HEADER_SIZE) [0..<unat (entries_count r root x)] ?g = Some g"
      "found r (listed r root x) ?g g"
    using acpi_entries_found [of r x root "[0..<unat (entries_count r root x)]" ?g] unfolding listed_eq [OF ok] by blast
  ultimately have "acpi_init r (Some b) g0 = Some (ac_madt g \<noteq> 0 \<and> lapic_address g \<noteq> 0, g)"
    using rx by (simp add: acpi_init_def)
  moreover have "ac_madt g = 0" if "filter (sdt_ok r ACPI_SIG_MADT) (listed r root x) = []"
    using g(2) that by (simp add: found_def last_table_def acpi_zero_def)
  ultimately show ?thesis
    using rx ok g(2) by (auto simp: found_def ioapic_found_def acpi_zero_def split: if_splits)
qed


text \<open>A firmware with a root pointer, a root table of one entry and a MADT with one I/O APIC.\<close>

definition demo_rsdp :: bytes where "demo_rsdp = [82, 83, 68, 32, 80, 84, 82, 32, 255, 79, 69, 77, 79, 69, 77, 0, 0, 32, 0, 0]"
definition demo_rsdt :: bytes where "demo_rsdt = [82, 83, 68, 84, 40, 0, 0, 0, 1, 106, 0, 0, 0, 0, 0, 0, 0, 0, 0, 0, 0, 0, 0, 0, 0, 0, 0, 0, 0, 0, 0, 0, 0, 0, 0, 0, 0, 48, 0, 0]"
definition demo_madt :: bytes where "demo_madt = [65, 80, 73, 67, 56, 0, 0, 0, 1, 249, 0, 0, 0, 0, 0, 0, 0, 0, 0, 0, 0, 0, 0, 0, 0, 0, 0, 0, 0, 0, 0, 0, 0, 0, 0, 0, 0, 0, 224, 254, 1, 0, 0, 0, 1, 12, 7, 0, 0, 0, 192, 254, 0, 0, 0, 0]"

definition demo_firmware :: "u64 \<Rightarrow> u8" where
  "demo_firmware a = (if 0x1000 \<le> a \<and> a < 0x1000 + 20 then demo_rsdp ! unat (a - 0x1000)
     else if 0x2000 \<le> a \<and> a < 0x2000 + 40 then demo_rsdt ! unat (a - 0x2000)
     else if 0x3000 \<le> a \<and> a < 0x3000 + 56 then demo_madt ! unat (a - 0x3000) else 0)"

definition demo_acpi_boot :: BootInfo where
  "demo_acpi_boot = \<lparr>magic = BOOTINFO_MAGIC, bytes_per_sector = 512, partition_lba_start = 0, partition_sector_count = 0,
     acpi_rsdp = 0x1000, acpi_revision = 0, boot_device_path_size = 0, boot_device_path = [], console_flags = 0,
     screen_columns = 80, screen_rows = 25, framebuffer_base = 0, framebuffer_width = 0, framebuffer_height = 0,
     framebuffer_pixels_per_scanline = 0, framebuffer_format = 0,
     memory_map = \<lparr>map_base = 0, map_size = 0, descriptor_size = 0, descriptor_version = 0\<rparr>\<rparr>"


end
