(* ===== verification/Apic.thy ===== *)
theory Apic
  imports Acpi Ahci ProcessRun
begin

text \<open>
  \<open>src/kernel/apic.c\<close> and \<open>src/kernel/timer.c\<close>. The registers of the local APIC are reached through \<open>machine\<close>, the
  model-specific registers and the time-stamp counter through \<open>cpu\<close>, the programmable interval timer through
  \<open>ports\<close>; all of them act on the device state \<open>'d\<close>.
\<close>

record 'd cpu =
  cpu_rdmsr :: "u32 \<Rightarrow> 'd \<Rightarrow> u64 \<times> 'd"
  cpu_wrmsr :: "u32 \<Rightarrow> u64 \<Rightarrow> 'd \<Rightarrow> 'd"
  cpu_rdtsc :: "'d \<Rightarrow> u64 \<times> 'd"

subsection \<open>The local APIC\<close>

definition IA32_APIC_BASE_MSR :: u32 where "IA32_APIC_BASE_MSR = 0x1B"
definition IA32_APIC_BASE_ENABLE :: u64 where "IA32_APIC_BASE_ENABLE = push_bit 11 1"
definition IA32_APIC_BASE_ADDR_MASK :: u64 where "IA32_APIC_BASE_ADDR_MASK = 0xFFFFF000"
definition LAPIC_REG_ID :: u32 where "LAPIC_REG_ID = 0x020"
definition LAPIC_REG_EOI :: u32 where "LAPIC_REG_EOI = 0x0B0"
definition LAPIC_REG_SPURIOUS :: u32 where "LAPIC_REG_SPURIOUS = 0x0F0"
definition LAPIC_REG_LVT_TIMER :: u32 where "LAPIC_REG_LVT_TIMER = 0x320"
definition LAPIC_SPURIOUS_ENABLE :: u32 where "LAPIC_SPURIOUS_ENABLE = 0x100"
definition LAPIC_TIMER_MASKED :: u32 where "LAPIC_TIMER_MASKED = 0x00010000"

text \<open>The static variables, the page tables it maps its registers in, and the devices.\<close>

record 'd apic_state =
  g_lapic :: u64
  g_lapic_hz :: u32
  apic_paging :: paging_state
  apic_bus :: 'd

definition lapic_read :: "'d machine \<Rightarrow> u32 \<Rightarrow> 'd apic_state \<Rightarrow> u32 \<times> 'd apic_state" where
  "lapic_read mc offset s =
     (case mm_read32 mc (g_lapic s + ucast (offset div 4) * 4) (apic_bus s) of (v, d) \<Rightarrow> (v, s\<lparr>apic_bus := d\<rparr>))"

definition lapic_write :: "'d machine \<Rightarrow> u32 \<Rightarrow> u32 \<Rightarrow> 'd apic_state \<Rightarrow> 'd apic_state" where
  "lapic_write mc offset v s = s\<lparr>apic_bus := mm_write32 mc (g_lapic s + ucast (offset div 4) * 4) v (apic_bus s)\<rparr>"

text \<open>A page of registers at its own address; the callers that ignore the result only see the tables change.\<close>

definition map_registers :: "u64 \<Rightarrow> 'd apic_state \<Rightarrow> (bool \<times> 'd apic_state) option" where
  "map_registers a s = do { (ok, pg) \<leftarrow> paging_map_range a a 4096 True False (apic_paging s); Some (ok, s\<lparr>apic_paging := pg\<rparr>) }"

definition apic_init :: "'d cpu \<Rightarrow> 'd machine \<Rightarrow> AcpiPlatformInfo option \<Rightarrow> 'd apic_state \<Rightarrow> (bool \<times> 'd apic_state) option" where
  "apic_init cpu mc acpi_info s =
     (case acpi_info of
        None \<Rightarrow> Some (False, s)
      | Some a \<Rightarrow>
          if \<not> ac_present a \<or> lapic_address a = 0 then Some (False, s)
          else case cpu_rdmsr cpu IA32_APIC_BASE_MSR (apic_bus s) of (apic_base, d) \<Rightarrow>
            let s = s\<lparr>apic_bus := d\<rparr>;
                lapic_base = apic_base AND IA32_APIC_BASE_ADDR_MASK;
                lapic_base = (if lapic_base = 0 then ucast (lapic_address a) else lapic_base)
            in do {
              (ok, s) \<leftarrow> map_registers lapic_base s;
              if \<not> ok then Some (False, s)
              else do {
                (_, s) \<leftarrow> (if ucast (lapic_address a) \<noteq> lapic_base then map_registers (ucast (lapic_address a)) s else Some (True, s));
                (_, s) \<leftarrow> (if ioapic_address a \<noteq> 0 then map_registers (ucast (ioapic_address a)) s else Some (True, s));
                let apic_base = apic_base AND NOT IA32_APIC_BASE_ADDR_MASK;
                let apic_base = apic_base OR (lapic_base AND IA32_APIC_BASE_ADDR_MASK);
                let apic_base = apic_base OR IA32_APIC_BASE_ENABLE;
                let s = s\<lparr>apic_bus := cpu_wrmsr cpu IA32_APIC_BASE_MSR apic_base (apic_bus s), g_lapic := lapic_base\<rparr>;
                Some (case lapic_read mc LAPIC_REG_SPURIOUS s of (v, s) \<Rightarrow>
                  let s = lapic_write mc LAPIC_REG_SPURIOUS (v OR LAPIC_SPURIOUS_ENABLE OR 0xFF) s;
                      s = lapic_write mc LAPIC_REG_LVT_TIMER LAPIC_TIMER_MASKED s
                  in (True, lapic_write mc LAPIC_REG_EOI 0 s)) } })"

definition apic_lapic_id :: "'d machine \<Rightarrow> 'd apic_state \<Rightarrow> u32 \<times> 'd apic_state" where
  "apic_lapic_id mc s =
     (if g_lapic s = 0 then (0, s) else case lapic_read mc LAPIC_REG_ID s of (v, s) \<Rightarrow> (drop_bit 24 v, s))"

definition apic_lapic_hz :: "'d apic_state \<Rightarrow> u32" where
  "apic_lapic_hz s = g_lapic_hz s"

definition apic_set_lapic_hz :: "u32 \<Rightarrow> 'd apic_state \<Rightarrow> 'd apic_state" where
  "apic_set_lapic_hz hz s = s\<lparr>g_lapic_hz := hz\<rparr>"

subsection \<open>The timer\<close>

definition PIT_BASE_HZ :: u64 where "PIT_BASE_HZ = 1193182"
definition PIT_CH2_RELOAD :: u64 where "PIT_CH2_RELOAD = 65535"

text \<open>The loop until the output of channel 2 rises.\<close>

partial_function (option) pit_wait :: "'d ports \<Rightarrow> 'd \<Rightarrow> 'd option" where
  "pit_wait io d = (case port_in8 io 0x61 d of (v, d) \<Rightarrow> if v AND 0x20 = 0 then pit_wait io d else Some d)"

text \<open>\<open>g_tsc_hz\<close> beside the devices.\<close>

definition timer_calibrate_tsc_from_pit :: "'d ports \<Rightarrow> 'd cpu \<Rightarrow> u64 \<times> 'd \<Rightarrow> (bool \<times> u64 \<times> 'd) option" where
  "timer_calibrate_tsc_from_pit io cpu s =
     (case s of (g_tsc_hz, d) \<Rightarrow>
      case port_in8 io 0x61 d of (port61, d) \<Rightarrow>
        let d = port_out8 io 0x61 ((port61 OR 0x01) AND NOT 0x02) d;
            d = port_out8 io 0x43 0xB0 d;
            d = port_out8 io 0x42 (ucast (PIT_CH2_RELOAD AND 0xFF)) d;
            d = port_out8 io 0x42 (ucast (drop_bit 8 PIT_CH2_RELOAD AND 0xFF)) d
        in case cpu_rdtsc cpu d of (tsc_start, d) \<Rightarrow> do {
          d \<leftarrow> pit_wait io d;
          Some (case cpu_rdtsc cpu d of (tsc_end, d) \<Rightarrow>
            let d = port_out8 io 0x61 port61 d in
            if tsc_end \<le> tsc_start then (False, g_tsc_hz, d)
            else let tsc_delta = tsc_end - tsc_start; hz = (tsc_delta * PIT_BASE_HZ) div PIT_CH2_RELOAD in (hz \<noteq> 0, hz, d)) })"

definition timer_init :: "'d ports \<Rightarrow> 'd cpu \<Rightarrow> u64 \<Rightarrow> 'd apic_state \<Rightarrow> (bool \<times> u64 \<times> 'd apic_state) option" where
  "timer_init io cpu g_tsc_hz s = do {
     (ok, hz, d) \<leftarrow> timer_calibrate_tsc_from_pit io cpu (g_tsc_hz, apic_bus s);
     let s = s\<lparr>apic_bus := d\<rparr>;
     Some (if \<not> ok then (False, hz, s) else (True, hz, apic_set_lapic_hz (ucast hz) s)) }"

definition timer_tsc_hz :: "u64 \<Rightarrow> u64" where
  "timer_tsc_hz g_tsc_hz = g_tsc_hz"

subsection \<open>The kernel's page tables stay the kernel's\<close>

lemma translate_user:
  assumes "translate T R v = Some m" and "m_user m"
  shows "bit (T R (hd (path v))) 2"
proof -
  have "xlate T t (i # p) v = Some m \<Longrightarrow> m_user m \<Longrightarrow> bit (T t i) 2" for t i p
    by (auto simp: leaf_mapping_def entry_rights_def split: if_splits)
  then show ?thesis using assms by (simp add: translate_def path_def del: xlate.simps)
qed

lemma kernel_ok_private:
  assumes "kernel_ok s"
  shows "kernel_private s"
proof -
  have "\<not> m_user m" if "translate (pg_tables s) (g_pml4 s) v = Some m" for v m
  proof
    assume "m_user m"
    moreover have "hd (path v) < 512" using path_less [of "hd (path v)" v] by (simp add: path_def)
    ultimately show False using translate_user [OF that] assms by (auto simp: kernel_ok_def)
  qed
  then show ?thesis by (simp add: kernel_private_def)
qed

definition kernel_space :: "paging_state \<Rightarrow> bool" where
  "kernel_space s \<longleftrightarrow> kernel_ok s \<and> avail s \<subseteq> {..<2 ^ 32} \<and> cr3 s = g_pml4 s"

text \<open>Pages became tables of the kernel's; nothing else happened to the page tables.\<close>

definition tables_grew :: "paging_state \<Rightarrow> paging_state \<Rightarrow> bool" where
  "tables_grew s t \<longleftrightarrow> kernel_space t \<and> avail t \<subseteq> avail s \<and> g_pml4 t = g_pml4 s"

lemma tables_grew_refl: "kernel_space s \<Longrightarrow> tables_grew s s"
  by (simp add: tables_grew_def)

lemma tables_grew_trans: "tables_grew s t \<Longrightarrow> tables_grew t u \<Longrightarrow> tables_grew s u"
  by (auto simp: tables_grew_def)

lemma kernel_space_maps:
  assumes "kernel_space s" and "unat virt + unat bytes \<le> 2 ^ 48" and "unat phys + unat bytes + 8192 \<le> 2 ^ 52"
  shows "\<exists>ok t. paging_map_range virt phys bytes w x s = Some (ok, t) \<and> tables_grew s t"
proof -
  have "space_ok False {} (g_pml4 s) s" using assms(1) by (simp add: kernel_space_def kernel_ok_def space_ok_def guarded_def)
  from map_range_in_root_maps [OF this _ assms(2,3), of w x] obtain ok t
    where r: "map_range_in_root (g_pml4 s) virt phys bytes w x False s = Some (ok, t)" "steps False {} (g_pml4 s) s t"
    by (auto simp: maps_range_def)
  note st = stepsD [OF r(2)]
  have "\<not> bit (pg_tables t (g_pml4 s) i) 2" if "i < 512" for i
    using r(2) that assms(1) by (auto simp: steps_def kernel_space_def kernel_ok_def)
  then have t: "tables_grew s t"
    using st assms(1) r(2) by (auto simp: tables_grew_def kernel_space_def kernel_ok_def space_ok_def steps_def)
  then have "tables_grew s (load_cr3 (g_pml4 t) t)"
    by (auto simp: tables_grew_def kernel_space_def load_cr3_def kernel_ok_def pages_ok_def avail_def)
  then show ?thesis using r(1) t tables_grew_refl [OF assms(1)] by (cases "g_pml4 s = 0") (auto simp: paging_map_range_def)
qed

lemma map_registers_maps:
  assumes "kernel_space (apic_paging s)" and "unat a < 2 ^ 32"
  shows "\<exists>ok t. map_registers a s = Some (ok, t) \<and> tables_grew (apic_paging s) (apic_paging t)"
  using kernel_space_maps [OF assms(1), of a 4096 a True False] assms(2) by (auto simp: map_registers_def)

lemma lapic_same [simp]:
  "apic_paging (lapic_write mc offset v s) = apic_paging s" "g_lapic (lapic_write mc offset v s) = g_lapic s"
  "apic_paging (snd (lapic_read mc offset s)) = apic_paging s" "g_lapic (snd (lapic_read mc offset s)) = g_lapic s"
  by (simp_all add: lapic_write_def lapic_read_def split: prod.splits)

text \<open>Whatever the firmware reports and the processor holds, \<open>apic_init\<close> returns and leaves the kernel's tables well
  formed; after a success the address of the registers is known and not NULL.\<close>

lemma apic_init_keeps:
  assumes "kernel_space (apic_paging s)"
  shows "\<exists>ok t. apic_init cpu mc acpi_info s = Some (ok, t) \<and> tables_grew (apic_paging s) (apic_paging t) \<and> (ok \<longrightarrow> g_lapic t \<noteq> 0)"
proof (cases "\<exists>a. acpi_info = Some a \<and> ac_present a \<and> lapic_address a \<noteq> 0")
  case False
  then show ?thesis using tables_grew_refl [OF assms] by (auto simp: apic_init_def split: option.splits)
next
  case True
  then obtain a where a: "acpi_info = Some a" "ac_present a" "lapic_address a \<noteq> 0" by blast
  obtain base d where msr: "cpu_rdmsr cpu IA32_APIC_BASE_MSR (apic_bus s) = (base, d)" by fastforce
  let ?s = "s\<lparr>apic_bus := d\<rparr>" and ?b = "base AND IA32_APIC_BASE_ADDR_MASK"
  define lapic where "lapic = (if ?b = 0 then ucast (lapic_address a) else ?b)"
  have low: "unat (ucast (x :: u32) :: u64) < 2 ^ 32" for x
    using unat_u32_bound [of x] by (simp add: unsigned_ucast_eq take_bit_nat_eq_self)
  have "unat ?b \<le> unat IA32_APIC_BASE_ADDR_MASK" using word_and_le1 [of base IA32_APIC_BASE_ADDR_MASK] by (simp only: word_le_nat_alt)
  then have lapic: "unat lapic < 2 ^ 32" using low by (simp add: lapic_def IA32_APIC_BASE_ADDR_MASK_def)
  have nz: "lapic \<noteq> 0"
  proof -
    have "(ucast (lapic_address a) :: u64) \<noteq> 0" using a(3) by (simp add: word_unat_eq_iff)
    then show ?thesis by (simp add: lapic_def)
  qed
  obtain ok1 s1 where s1: "map_registers lapic ?s = Some (ok1, s1)" "tables_grew (apic_paging s) (apic_paging s1)"
    using map_registers_maps [OF _ lapic, of ?s] assms by auto
  show ?thesis
  proof (cases ok1)
    case False
    then show ?thesis using s1 by (intro exI [of _ False] exI [of _ s1]) (simp add: apic_init_def a msr Let_def lapic_def [symmetric])
  next
    case ok1: True
    have more: "\<exists>ok t. (if c then map_registers (ucast x) u else Some (True, u)) = Some (ok, t) \<and>
        tables_grew (apic_paging u) (apic_paging t)" if "tables_grew (apic_paging v) (apic_paging u)" for c and x :: u32 and u v :: "'a apic_state"
      using map_registers_maps [OF _ low, of u x] that tables_grew_refl [of "apic_paging u"] by (auto simp: tables_grew_def)
    obtain ok2 s2 where s2: "(if ucast (lapic_address a) \<noteq> lapic then map_registers (ucast (lapic_address a)) s1 else Some (True, s1)) = Some (ok2, s2)"
        "tables_grew (apic_paging s1) (apic_paging s2)" using more [OF s1(2)] by blast
    obtain ok3 s3 where s3: "(if ioapic_address a \<noteq> 0 then map_registers (ucast (ioapic_address a)) s2 else Some (True, s2)) = Some (ok3, s3)"
        "tables_grew (apic_paging s2) (apic_paging s3)" using more [OF s2(2)] by blast
    have g: "tables_grew (apic_paging s) (apic_paging s3)" using s1(2) s2(2) s3(2) tables_grew_trans by blast
    let ?s4 = "s3\<lparr>apic_bus := cpu_wrmsr cpu IA32_APIC_BASE_MSR
      (((base AND NOT IA32_APIC_BASE_ADDR_MASK) OR (lapic AND IA32_APIC_BASE_ADDR_MASK)) OR IA32_APIC_BASE_ENABLE) (apic_bus s3), g_lapic := lapic\<rparr>"
    obtain v s5 where r: "lapic_read mc LAPIC_REG_SPURIOUS ?s4 = (v, s5)" by fastforce
    then have s5: "apic_paging s5 = apic_paging s3" "g_lapic s5 = lapic"
      using lapic_same(3,4) [of mc LAPIC_REG_SPURIOUS ?s4] by simp_all
    let ?t = "lapic_write mc LAPIC_REG_EOI 0 (lapic_write mc LAPIC_REG_LVT_TIMER LAPIC_TIMER_MASKED
      (lapic_write mc LAPIC_REG_SPURIOUS (v OR LAPIC_SPURIOUS_ENABLE OR 0xFF) s5))"
    have "apic_init cpu mc acpi_info s = Some (True, ?t)"
      using s1(1) s2(1) s3(1) ok1 r by (simp add: apic_init_def a msr Let_def lapic_def [symmetric])
    moreover have "apic_paging ?t = apic_paging s3" "g_lapic ?t \<noteq> 0" unfolding lapic_same using s5 nz by simp_all
    ultimately show ?thesis using g by (intro exI [of _ True] exI [of _ ?t]) simp
  qed
qed

subsection \<open>Calibration\<close>

text \<open>The output of channel 2 rises after finitely many reads of the status port.\<close>

inductive pit_rises :: "'d ports \<Rightarrow> 'd \<Rightarrow> bool" for io where
  up: "port_in8 io 0x61 d = (v, d') \<Longrightarrow> v AND 0x20 \<noteq> 0 \<Longrightarrow> pit_rises io d"
| wait: "port_in8 io 0x61 d = (v, d') \<Longrightarrow> v AND 0x20 = 0 \<Longrightarrow> pit_rises io d' \<Longrightarrow> pit_rises io d"

lemma pit_wait_returns: "pit_rises io d \<Longrightarrow> \<exists>d'. pit_wait io d = Some d'"
  by (induction rule: pit_rises.induct) (subst pit_wait.simps, simp)+

text \<open>Then the calibration returns, and a success leaves a frequency other than 0 for both clocks' readers.\<close>

lemma timer_init_returns:
  assumes "\<And>d. pit_rises io d"
  shows "\<exists>ok hz t. timer_init io cpu g_tsc_hz s = Some (ok, hz, t) \<and> apic_paging t = apic_paging s \<and> g_lapic t = g_lapic s \<and>
    (ok \<longrightarrow> hz \<noteq> 0 \<and> apic_lapic_hz t = ucast hz)"
proof -
  have "\<exists>d'. pit_wait io d = Some d'" for d using pit_wait_returns [OF assms] .
  then show ?thesis
    by (auto simp: timer_init_def timer_calibrate_tsc_from_pit_def apic_set_lapic_hz_def apic_lapic_hz_def Let_def
      split: prod.splits Option.bind_splits)
      (metis option.distinct(1) option.inject)?
qed

end
