(* ===== verification/SelfTest.thy ===== *)
theory SelfTest
  imports KHeapSafe
begin

text \<open>
  \<open>memory_self_test\<close> of \<open>src/kernel/memory.c\<close>: it passes on every allocator that can give three contiguous pages
  and has room for two more ranges, and leaves the free memory as it was. The bytes it writes into the payloads are
  not part of the state: only block headers are.
\<close>

text \<open>The heap of one region of three pages: allocate, free and reuse. The first component says that no allocation failed.\<close>

definition heap_exercise :: "u64 \<Rightarrow> blocks \<Rightarrow> (bool \<times> blocks) option" where
  "heap_exercise scratch_region H =
     (case heap_init_region scratch_region (3 * PAGE_SIZE) H of (scratch_head, H) \<Rightarrow> do {
        (small, H) \<leftarrow> heap_alloc_from_list scratch_head (align_up_size 64 MEMORY_HEAP_ALIGNMENT) H;
        (medium, H) \<leftarrow> heap_alloc_from_list scratch_head (align_up_size 512 MEMORY_HEAP_ALIGNMENT) H;
        (large, H) \<leftarrow> heap_alloc_from_list scratch_head (align_up_size 6000 MEMORY_HEAP_ALIGNMENT) H;
        if small = 0 \<or> medium = 0 \<or> large = 0 then Some (False, H)
        else do {
          H \<leftarrow> heap_free_to_list scratch_head medium H;
          H \<leftarrow> heap_free_to_list scratch_head small H;
          H \<leftarrow> heap_free_to_list scratch_head large H;
          (reused_small, H) \<leftarrow> heap_alloc_from_list scratch_head (align_up_size 128 MEMORY_HEAP_ALIGNMENT) H;
          (reused_large, H) \<leftarrow> heap_alloc_from_list scratch_head (align_up_size 4096 MEMORY_HEAP_ALIGNMENT) H;
          if reused_small = 0 \<or> reused_large = 0 then Some (False, H)
          else do {
            H \<leftarrow> heap_free_to_list scratch_head reused_large H;
            H \<leftarrow> heap_free_to_list scratch_head reused_small H;
            Some (True, H) } } })"

definition memory_self_test :: "heap_state \<Rightarrow> (bool \<times> heap_state) option" where
  "memory_self_test s =
     (let m = h_mem s in
      if \<not> g_memory_ready m then Some (False, s)
      else
        let pages_before = memory_free_pages m in
        case alloc_pages 1 m of (first_page, m) \<Rightarrow>
        case alloc_pages 2 m of (second_page, m) \<Rightarrow>
          if first_page = 0 \<or> second_page = 0 then Some (False, s\<lparr>h_mem := m\<rparr>)
          else
            let m = free_pages first_page 1 (free_pages second_page 2 m) in
            if memory_free_pages m \<noteq> pages_before then Some (False, s\<lparr>h_mem := m\<rparr>)
            else case alloc_pages 3 m of (scratch_region, m) \<Rightarrow>
              if scratch_region = 0 then Some (False, s\<lparr>h_mem := m\<rparr>)
              else do {
                (passed, H) \<leftarrow> heap_exercise scratch_region (h_blocks s);
                let m = free_pages scratch_region 3 m;
                Some (passed \<and> memory_free_pages m = pages_before, s\<lparr>h_mem := m, h_blocks := H\<rparr>) })"

lemma word_add_numerals: "(p :: u64) + numeral a + numeral b = p + numeral (a + b)"
  by (simp add: add.assoc)

lemma heap_exercise_passes:
  assumes "p \<noteq> 0" and "unat p + 12288 < 2 ^ 64"
  shows "\<exists>H'. heap_exercise p H = Some (True, H')"
proof -
  have nz: "p + k \<noteq> 0" if "unat k < 12288" for k :: u64
  proof
    assume "p + k = 0"
    moreover have "unat (p + k) = unat p + unat k" using assms(2) that by (intro unat_add_small) simp
    ultimately show False using assms(1) by (simp add: unat_eq_0)
  qed
  have n: "p + 24 \<noteq> 0" "p + 88 \<noteq> 0" "p + 112 \<noteq> 0" "p + 624 \<noteq> 0" "p + 648 \<noteq> 0" "p + 6648 \<noteq> 0" "p + 152 \<noteq> 0" "p + 176 \<noteq> 0"
    "p + 4272 \<noteq> 0"
    using nz [of 24] nz [of 88] nz [of 112] nz [of 624] nz [of 648] nz [of 6648] nz [of 152] nz [of 176] nz [of 4272] by simp_all
  show ?thesis
    by (simp add: heap_exercise_def heap_init_region_def heap_alloc_from_list_def heap_free_to_list_def take_block_def
      heap_alloc_loop.simps heap_merge_adjacent.simps align_up_size_def MEMORY_HEAP_ALIGNMENT_def HEAP_BLOCK_SIZE_def
      PAGE_SIZE_def Let_def word_add_numerals n assms(1))
qed

lemma alloc_shrinks:
  assumes "mem_inv m" and "alloc_pages n m = (p, m')"
  shows "length (g_free_ranges m') \<le> length (g_free_ranges m)"
proof (cases "g_memory_ready m \<and> n \<noteq> 0")
  case True
  then have ready: "g_memory_ready m" and n: "n \<noteq> 0" by auto
  show ?thesis using assms(2) by (cases rule: alloc_pages_cases [OF assms(1) ready n]) auto
qed (use assms(2) in \<open>auto simp: alloc_pages_def Let_def split: if_splits\<close>)

lemma free_grows:
  assumes "mem_inv m" and "block_ok p n" and "free_set (g_free_ranges m) \<inter> block_set p n = {}"
  shows "length (g_free_ranges (free_pages p n m)) \<le> Suc (length (g_free_ranges m))"
proof (cases "g_memory_ready m \<and> p \<noteq> 0 \<and> n \<noteq> 0 \<and> length (g_free_ranges m) < MEMORY_MAX_FREE_RANGES")
  case True
  then obtain rs' where "append_free_range p n m = (True, m\<lparr>g_free_ranges := rs'\<rparr>)" "length rs' \<le> Suc (length (g_free_ranges m))"
    using append_free_range_ok [OF _ assms(2,3)] assms(1) by (auto simp: mem_inv_def)
  then show ?thesis by (simp add: free_pages_def)
next
  case False
  then consider "\<not> g_memory_ready m \<or> p = 0 \<or> n = 0" | "n \<noteq> 0" "MEMORY_MAX_FREE_RANGES \<le> length (g_free_ranges m)" by force
  then have "free_pages p n m = m"
    by cases (simp add: free_pages_def, simp add: free_pages_def append_free_range_def Let_def)
  then show ?thesis by simp
qed

text \<open>Allocating a page and then two, and giving both back: the free pages are the same again.\<close>

lemma two_blocks_back:
  assumes inv: "mem_inv m" and a: "alloc_pages 1 m = (p, m1)" "alloc_pages 2 m1 = (q, m2)" and nz: "p \<noteq> 0" "q \<noteq> 0"
  defines "t \<equiv> free_pages p 1 (free_pages q 2 m2)"
  shows "mem_inv t" "g_memory_ready t = g_memory_ready m" "free_set (g_free_ranges t) \<subseteq> free_set (g_free_ranges m)"
    "length (g_free_ranges m) + 2 \<le> MEMORY_MAX_FREE_RANGES \<Longrightarrow> free_set (g_free_ranges t) = free_set (g_free_ranges m)"
    "length (g_free_ranges t) \<le> length (g_free_ranges m) + 2"
proof -
  let ?F = "\<lambda>m. free_set (g_free_ranges m)"
  note A = alloc_pages_some [OF inv a(1) nz(1)]
  note B = alloc_pages_some [OF A(1) a(2) nz(2)]
  have d1: "?F m2 \<inter> block_set q 2 = {}" using B(4) by auto
  note C = free_pages_cases [OF B(1,2) nz(2) d1]
  have d2: "?F (free_pages q 2 m2) \<inter> block_set p 1 = {}" using C(2) B(3,4) A(4) by (auto split: if_splits)
  note D = free_pages_cases [OF C(1) A(2) nz(1) d2]
  have len: "length (g_free_ranges m2) \<le> length (g_free_ranges m)"
    using alloc_shrinks [OF A(1) a(2)] alloc_shrinks [OF inv a(1)] by simp
  have len2: "length (g_free_ranges (free_pages q 2 m2)) \<le> Suc (length (g_free_ranges m))"
    using free_grows [OF B(1,2) d1] len by simp
  show "mem_inv t" unfolding t_def by (rule D(1))
  show "g_memory_ready t = g_memory_ready m" unfolding t_def using D(3) C(3) A(5) B(5) by simp
  show "?F t \<subseteq> ?F m" unfolding t_def using D(2) C(2) A(3,4) B(3,4) by (auto split: if_splits)
  show "length (g_free_ranges t) \<le> length (g_free_ranges m) + 2"
    unfolding t_def using free_grows [OF C(1) A(2) d2] len2 by simp
  have ready: "g_memory_ready m" using a(1) nz(1) by (auto simp: alloc_pages_def Let_def split: if_splits)
  show "?F t = ?F m" if "length (g_free_ranges m) + 2 \<le> MEMORY_MAX_FREE_RANGES"
    unfolding t_def using D(2) C(2,3) A(3,4,5) B(3,4,5) ready len len2 that by auto
qed

lemma same_free_pages:
  assumes "mem_inv s" and "mem_inv t" and "free_set (g_free_ranges s) = free_set (g_free_ranges t)"
  shows "memory_free_pages s = memory_free_pages t"
  using memory_free_pages_card [OF assms(1)] memory_free_pages_card [OF assms(2)] assms(3) by (simp add: word_unat_eq_iff)

lemma scratch_room: "block_ok p 3 \<Longrightarrow> unat p + 12288 < 2 ^ 64"
  by (simp add: block_ok_def range_ok_def hi_def)

text \<open>Whatever the allocator holds, the self-test returns and takes nothing that was not free.\<close>

lemma memory_self_test_returns:
  assumes "mem_inv (h_mem s)"
  shows "\<exists>ok t. memory_self_test s = Some (ok, t) \<and> mem_inv (h_mem t) \<and> g_memory_ready (h_mem t) = g_memory_ready (h_mem s) \<and>
    free_set (g_free_ranges (h_mem t)) \<subseteq> free_set (g_free_ranges (h_mem s))"
proof -
  let ?m = "h_mem s" and ?F = "\<lambda>m. free_set (g_free_ranges m)"
  obtain p m1 where p: "alloc_pages 1 ?m = (p, m1)" by fastforce
  obtain q m2 where q: "alloc_pages 2 m1 = (q, m2)" by fastforce
  have m1: "mem_inv m1 \<and> ?F m1 \<subseteq> ?F ?m \<and> g_memory_ready m1 = g_memory_ready ?m"
    using alloc_pages_some [OF assms p] alloc_pages_none [OF assms] p assms by (cases "p = 0") auto
  have m2: "mem_inv m2 \<and> ?F m2 \<subseteq> ?F ?m \<and> g_memory_ready m2 = g_memory_ready ?m"
    using alloc_pages_some [OF _ q] alloc_pages_none [of m1 2 m2] q m1 by (cases "q = 0") auto
  note run = memory_self_test_def [of s, unfolded Let_def p prod.case q]
  show ?thesis
  proof (cases "g_memory_ready ?m \<and> p \<noteq> 0 \<and> q \<noteq> 0")
    case False
    then show ?thesis using m2 assms by (auto simp: run)
  next
    case True
    let ?t = "free_pages p 1 (free_pages q 2 m2)"
    note T = two_blocks_back [OF assms p q conjunct1 [OF conjunct2 [OF True]] conjunct2 [OF conjunct2 [OF True]]]
    obtain r m3 where r: "alloc_pages 3 ?t = (r, m3)" by fastforce
    show ?thesis
    proof (cases "memory_free_pages ?t = memory_free_pages ?m \<and> r \<noteq> 0")
      case False
      have "m3 = ?t" if "r = 0" using alloc_pages_none [OF T(1)] r that by simp
      then show ?thesis using False True T by (auto simp: run r)
    next
      case ok: True
      note R = alloc_pages_some [OF T(1) r conjunct2 [OF ok]]
      obtain H where H: "heap_exercise r (h_blocks s) = Some (True, H)"
        using heap_exercise_passes [OF conjunct2 [OF ok] scratch_room [OF R(2)]] by blast
      have "?F m3 \<inter> block_set r 3 = {}" using R(4) by auto
      note D = free_pages_cases [OF R(1,2) conjunct2 [OF ok] this]
      have "?F (free_pages r 3 m3) \<subseteq> ?F ?t" using D(2) R(3,4) by (auto split: if_splits)
      then have "?F (free_pages r 3 m3) \<subseteq> ?F ?m" using T(3) by blast
      moreover have "g_memory_ready (free_pages r 3 m3) = g_memory_ready ?m" using D(3) R(5) T(2) by simp
      ultimately show ?thesis using True ok D(1) H by (simp add: run r)
    qed
  qed
qed

text \<open>It passes, and leaves the free memory as it was, when three contiguous pages are free and two more ranges fit.\<close>

lemma memory_self_test_passes:
  assumes inv: "mem_inv (h_mem s)" and ready: "g_memory_ready (h_mem s)"
    and b: "block_ok b 3" "block_set b 3 \<subseteq> free_set (g_free_ranges (h_mem s))"
    and room: "length (g_free_ranges (h_mem s)) + 2 < MEMORY_MAX_FREE_RANGES"
  shows "\<exists>t. memory_self_test s = Some (True, t) \<and> mem_inv (h_mem t) \<and>
    free_set (g_free_ranges (h_mem t)) = free_set (g_free_ranges (h_mem s))"
proof -
  let ?m = "h_mem s" and ?F = "\<lambda>m. free_set (g_free_ranges m)"
  have ub: "unat b + 12288 < 2 ^ 64" "4096 dvd unat b" using b(1) by (simp_all add: block_ok_def range_ok_def hi_def lo_def)
  have b1: "block_ok b 1" "block_set b 1 \<subseteq> ?F ?m"
    using ub b(2) by (auto simp: block_ok_def range_ok_def hi_def lo_def block_set_def)
  obtain p m1 where p: "alloc_pages 1 ?m = (p, m1)" by fastforce
  obtain q m2 where q: "alloc_pages 2 m1 = (q, m2)" by fastforce
  have p0: "p \<noteq> 0" "p \<le> b" using alloc_pages_lowest_run [OF inv ready _ p] b1 by (auto split: if_splits)
  note A = alloc_pages_some [OF inv p p0(1)]
  have ub': "unat (b + 4096) = unat b + 4096" using ub(1) by (simp add: unat_add_small)
  have b2: "block_ok (b + 4096) 2" "block_set (b + 4096) 2 \<subseteq> ?F m1"
  proof -
    show "block_ok (b + 4096) 2" using ub ub' by (simp add: block_ok_def range_ok_def hi_def lo_def)
    have "block_set (b + 4096) 2 \<inter> block_set p 1 = {}" using p0(2) ub' by (auto simp: block_set_def word_le_nat_alt)
    moreover have "block_set (b + 4096) 2 \<subseteq> block_set b 3" using ub' by (auto simp: block_set_def)
    ultimately show "block_set (b + 4096) 2 \<subseteq> ?F m1" using A(4) b(2) by blast
  qed
  have q0: "q \<noteq> 0"
    using alloc_pages_lowest_run [OF A(1) _ _ q] A(5) ready b2 by (auto split: if_splits)
  let ?t = "free_pages p 1 (free_pages q 2 m2)"
  note T = two_blocks_back [OF inv p q p0(1) q0]
  have same: "?F ?t = ?F ?m" using T(4) room by simp
  have count: "memory_free_pages ?t = memory_free_pages ?m" by (rule same_free_pages [OF T(1) inv same])
  obtain r m3 where r: "alloc_pages 3 ?t = (r, m3)" by fastforce
  have r0: "r \<noteq> 0"
    using alloc_pages_lowest_run [OF T(1) _ _ r] T(2) ready same b by (auto split: if_splits)
  note R = alloc_pages_some [OF T(1) r r0]
  obtain H where H: "heap_exercise r (h_blocks s) = Some (True, H)"
    using heap_exercise_passes [OF r0 scratch_room [OF R(2)]] by blast
  have len: "length (g_free_ranges m3) < MEMORY_MAX_FREE_RANGES"
    using alloc_shrinks [OF T(1) r] T(5) room by simp
  have restored: "?F (free_pages r 3 m3) = ?F ?t" "memory_free_pages (free_pages r 3 m3) = memory_free_pages ?t"
    using alloc_free_roundtrip [OF T(1) r r0 len] by simp_all
  have "?F m3 \<inter> block_set r 3 = {}" using R(4) by auto
  then have "mem_inv (free_pages r 3 m3)" by (rule free_pages_cases(1) [OF R(1,2) r0])
  then show ?thesis
    using ready p0(1) q0 count r0 H restored same by (simp add: memory_self_test_def p q r)
qed

end
