(* ===== verification/Kmain.thy ===== *)
theory Kmain
  imports FsInit ShellSafe Apic SelfTest MemInit
begin

text \<open>
  \<open>kmain\<close> of \<open>src/kernel/kmain.c\<close>: the whole of the kernel, from the boot information to the shell. The stages are the
  operations of the other theories, each on its own part of one state; a stage that fails ends in a panic. The page
  allocator, the page tables and the devices are handed from stage to stage.
\<close>

subsection \<open>The state and its stages\<close>

text \<open>What the kernel runs on: the ports and the trap frames of the shell, memory-mapped registers, processor
  registers, the address of the block buffers, the framebuffer's memory and the linker's symbols.\<close>

record 'd boot_env =
  ke_shell :: "'d shell_env"
  ke_machine :: "'d machine"
  ke_cpu :: "'d cpu"
  ke_dma :: u64
  ke_framebuffer :: "u64 \<Rightarrow> u32 list"
  ke_symbols :: kernel_symbols

text \<open>The static variables of all components. The devices, the page allocator and the page tables are those of
  \<open>km_shell\<close>; a stage that keeps a copy in its own state is handed them and hands them back.\<close>

record 'd kmain_state =
  km_shell :: "('d, 'd) shell_state"
  km_blocks :: blocks
  km_acpi :: AcpiPlatformInfo
  km_lapic :: u64
  km_lapic_hz :: u32
  g_tsc_hz :: u64
  km_drivers :: "'d block_state driver_core"
  km_disks :: "'d block_state"

type_synonym 'd stage = "'d kmain_state \<Rightarrow> (bool \<times> 'd kmain_state) option"

abbreviation kern :: "'d kmain_state \<Rightarrow> 'd kernel_state" where
  "kern s \<equiv> kernel (km_shell s)"

definition with_kernel :: "'d kernel_state \<Rightarrow> 'd kmain_state \<Rightarrow> 'd kmain_state" where
  "with_kernel k s = s\<lparr>km_shell := (km_shell s)\<lparr>kernel := k\<rparr>\<rparr>"

definition with_paging :: "paging_state \<Rightarrow> 'd kmain_state \<Rightarrow> 'd kmain_state" where
  "with_paging p s = with_kernel ((kern s)\<lparr>paging := p\<rparr>) s"

definition with_pci :: "'d pci_state \<Rightarrow> 'd kmain_state \<Rightarrow> 'd kmain_state" where
  "with_pci p s = s\<lparr>km_shell := (km_shell s)\<lparr>sh_pci := p\<rparr>\<rparr>"

text \<open>An entry of the memory map in memory.\<close>

definition efi_descriptor :: "(u64 \<Rightarrow> u8) \<Rightarrow> u64 \<Rightarrow> EfiMemoryDescriptor" where
  "efi_descriptor r a = \<lparr>efi_type = mem_u32 r a, physical_start = mem_u64 r (a + 8), number_of_pages = mem_u64 r (a + 24)\<rparr>"

definition stage_magic :: "BootInfo option \<Rightarrow> 'd stage" where
  "stage_magic boot_info s = Some (case boot_info of None \<Rightarrow> False | Some b \<Rightarrow> magic b = BOOTINFO_MAGIC, s)"

definition stage_memory :: "'d boot_env \<Rightarrow> BootInfo option \<Rightarrow> 'd stage" where
  "stage_memory env boot_info s = do {
     (ok, m) \<leftarrow> memory_init (efi_descriptor (ram (kern s))) (ks_start (ke_symbols env)) (ks_image_end (ke_symbols env))
        boot_info (pg_mem (paging (kern s)));
     Some (ok, with_paging ((paging (kern s))\<lparr>pg_mem := m\<rparr>) s) }"

definition stage_self_test :: "'d stage" where
  "stage_self_test s = do {
     (ok, h) \<leftarrow> memory_self_test \<lparr>h_mem = pg_mem (paging (kern s)), h_blocks = km_blocks s\<rparr>;
     Some (ok, (with_paging ((paging (kern s))\<lparr>pg_mem := h_mem h\<rparr>) s)\<lparr>km_blocks := h_blocks h\<rparr>) }"

definition stage_pci :: "'d stage" where
  "stage_pci s = (case pci_init (sh_pci (km_shell s)) of (ok, p) \<Rightarrow> Some (ok, with_pci p s))"

definition stage_paging :: "'d boot_env \<Rightarrow> BootInfo option \<Rightarrow> 'd stage" where
  "stage_paging env boot_info s = do {
     (ok, p) \<leftarrow> paging_init (ke_symbols env) boot_info (paging (kern s)); Some (ok, with_paging p s) }"

definition stage_acpi :: "BootInfo option \<Rightarrow> 'd stage" where
  "stage_acpi boot_info s = do { (ok, g) \<leftarrow> acpi_init (ram (kern s)) boot_info (km_acpi s); Some (ok, s\<lparr>km_acpi := g\<rparr>) }"

definition apic_part :: "'d kmain_state \<Rightarrow> 'd apic_state" where
  "apic_part s = \<lparr>g_lapic = km_lapic s, g_lapic_hz = km_lapic_hz s, apic_paging = paging (kern s),
     apic_bus = pci_bus (sh_pci (km_shell s))\<rparr>"

definition with_apic :: "'d apic_state \<Rightarrow> 'd kmain_state \<Rightarrow> 'd kmain_state" where
  "with_apic a s = with_pci ((sh_pci (km_shell s))\<lparr>pci_bus := apic_bus a\<rparr>) (with_paging (apic_paging a)
     (s\<lparr>km_lapic := g_lapic a, km_lapic_hz := g_lapic_hz a\<rparr>))"

definition stage_apic :: "'d boot_env \<Rightarrow> 'd stage" where
  "stage_apic env s = do {
     (ok, a) \<leftarrow> apic_init (ke_cpu env) (ke_machine env) (Some (acpi_platform_info (km_acpi s))) (apic_part s);
     Some (ok, with_apic a s) }"

definition stage_timer :: "'d boot_env \<Rightarrow> 'd stage" where
  "stage_timer env s = do {
     (ok, hz, a) \<leftarrow> timer_init (sh_io (ke_shell env)) (ke_cpu env) (g_tsc_hz s) (apic_part s);
     Some (ok, (with_apic a s)\<lparr>g_tsc_hz := hz\<rparr>) }"

text \<open>The drivers get the devices and the page tables; the volume is mounted on the device they bind.\<close>

definition disks_part :: "'d kmain_state \<Rightarrow> 'd block_state" where
  "disks_part s = (km_disks s)\<lparr>bk_ahci := (bk_ahci (km_disks s))\<lparr>ahci_pci := sh_pci (km_shell s), ahci_paging := paging (kern s)\<rparr>\<rparr>"

definition stage_fs :: "'d boot_env \<Rightarrow> BootInfo option \<Rightarrow> 'd stage" where
  "stage_fs env boot_info s = do {
     (ok, c, d, v) \<leftarrow> fs_init (sh_io (ke_shell env)) (ke_machine env) (ke_dma env) boot_info (km_drivers s) (disks_part s) (volume (kern s));
     Some (ok, (with_pci (ahci_pci (bk_ahci d)) (with_kernel ((kern s)\<lparr>paging := ahci_paging (bk_ahci d), volume := v\<rparr>) s))
       \<lparr>km_drivers := c, km_disks := d\<rparr>) }"

text \<open>One stage after the other; the message of the one that fails is the last thing the kernel prints.\<close>

definition stage_panic :: "string \<Rightarrow> 'd kmain_state \<Rightarrow> 'd kmain_state option" where
  "stage_panic message s = do {
     (active, k) \<leftarrow> panic (Some (bytes_of message)) (g_panic_active (km_shell s)) (kern s);
     Some ((with_kernel k s)\<lparr>km_shell := (km_shell (with_kernel k s))\<lparr>g_panic_active := active\<rparr>\<rparr>) }"

fun run_stages :: "(string \<times> 'd stage) list \<Rightarrow> 'd stage" where
  "run_stages [] s = Some (True, s)"
| "run_stages ((message, stage) # stages) s = do {
     (ok, s) \<leftarrow> stage s;
     if ok then run_stages stages s else do { s \<leftarrow> stage_panic message s; Some (False, s) } }"

definition kernel_stages :: "'d boot_env \<Rightarrow> BootInfo option \<Rightarrow> (string \<times> 'd stage) list" where
  "kernel_stages env boot_info =
     [(''BootInfo invalid'', stage_magic boot_info),
      (''Memory init failed'', stage_memory env boot_info),
      (''Memory self-test failed'', stage_self_test),
      (''PCI init failed'', stage_pci),
      (''Paging init failed'', stage_paging env boot_info),
      (''ACPI init failed'', stage_acpi boot_info),
      (''APIC init failed'', stage_apic env),
      (''Timer init failed'', stage_timer env)]"

definition kmain :: "'d boot_env \<Rightarrow> BootInfo option \<Rightarrow> user_act list list \<Rightarrow> bytes \<Rightarrow> 'd kmain_state \<Rightarrow> ('d, 'd) shell_outcome option" where
  "kmain env boot_info turns line s = do {
     k \<leftarrow> console_init (ke_framebuffer env) boot_info (kern s);
     (ok, s) \<leftarrow> run_stages (kernel_stages env boot_info @ [(''FS init failed'', stage_fs env boot_info)]) (with_kernel k s);
     if ok then shell_run (ke_shell env) turns line (km_shell s) else Some (Halted (km_shell s)) }"

subsection \<open>Stages one after the other\<close>

definition stage_ok :: "('d kmain_state \<Rightarrow> bool) \<Rightarrow> ('d kmain_state \<Rightarrow> bool) \<Rightarrow> 'd stage \<Rightarrow> bool" where
  "stage_ok P Q stage \<longleftrightarrow> (\<forall>s. P s \<longrightarrow> (\<exists>ok t. stage s = Some (ok, t) \<and> console_ok (kern t) \<and> (ok \<longrightarrow> Q t)))"

definition stages_ok :: "('d kmain_state \<Rightarrow> bool) \<Rightarrow> ('d kmain_state \<Rightarrow> bool) \<Rightarrow> 'd stage \<Rightarrow> bool" where
  "stages_ok P Q stages \<longleftrightarrow> (\<forall>s. P s \<longrightarrow> (\<exists>ok t. stages s = Some (ok, t) \<and> (if ok then Q t else g_panic_active (km_shell t))))"

lemma stage_panic_returns:
  assumes "console_ok (kern s)"
  shows "\<exists>t. stage_panic message s = Some t \<and> g_panic_active (km_shell t)"
  using panic_returns [OF assms, of 0 "Some (bytes_of message)" None "g_panic_active (km_shell s)"]
  by (auto simp: stage_panic_def panic_def)

lemma stages_Nil: "stages_ok P P (run_stages [])"
  by (auto simp: stages_ok_def intro: exI [of _ True])

lemma stages_Cons:
  assumes "stage_ok P Q stage" and "stages_ok Q R (run_stages stages)"
  shows "stages_ok P R (run_stages ((message, stage) # stages))"
  unfolding stages_ok_def
proof (intro allI impI)
  fix s assume "P s"
  then obtain ok t where t: "stage s = Some (ok, t)" "console_ok (kern t)" "ok \<longrightarrow> Q t"
    using assms(1) by (auto simp: stage_ok_def)
  show "\<exists>ok t. run_stages ((message, stage) # stages) s = Some (ok, t) \<and> (if ok then R t else g_panic_active (km_shell t))"
  proof (cases ok)
    case True
    then show ?thesis using t assms(2) by (simp add: stages_ok_def)
  next
    case False
    obtain u where "stage_panic message t = Some u" "g_panic_active (km_shell u)"
      using stage_panic_returns [OF t(2)] by blast
    then show ?thesis using t(1) False by (intro exI [of _ False] exI [of _ u]) simp
  qed
qed

lemma run_stages_append:
  "run_stages (xs @ ys) s = do { (ok, t) \<leftarrow> run_stages xs s; if ok then run_stages ys t else Some (False, t) }"
proof (induction xs arbitrary: s)
  case (Cons x xs)
  obtain message stage where "x = (message, stage)" by fastforce
  then show ?case
  proof (cases "stage s")
    case (Some r)
    then obtain ok t where "stage s = Some (ok, t)" by (cases r) simp
    then show ?thesis using Cons \<open>x = _\<close> by (cases ok; cases "stage_panic message t") simp_all
  qed simp
qed simp

subsection \<open>Each stage\<close>

text \<open>What no stage before the file system touches.\<close>

definition booting :: "'d kmain_state \<Rightarrow> 'd kmain_state \<Rightarrow> bool" where
  "booting s t \<longleftrightarrow> console_ok (kern t) \<and> ram (kern t) = ram (kern s) \<and> in_port (kern t) = in_port (kern s) \<and>
     volume (kern t) = volume (kern s) \<and> g_active_process (kern t) = g_active_process (kern s) \<and>
     g_cwd (km_shell t) = g_cwd (km_shell s) \<and> km_drivers t = km_drivers s"

text \<open>The memory the firmware gives the kernel.\<close>

definition boot_memory :: "'d boot_env \<Rightarrow> BootInfo \<Rightarrow> 'd kmain_state \<Rightarrow> nat set" where
  "boot_memory env b s = (\<Union>j<descriptor_count b. usable (efi_descriptor (ram (kern s)) (descriptor_addr b j))) -
     reserved_at_boot (ks_start (ke_symbols env)) (ks_image_end (ke_symbols env)) b"

definition allocator_up :: "'d boot_env \<Rightarrow> BootInfo \<Rightarrow> 'd kmain_state \<Rightarrow> 'd kmain_state \<Rightarrow> bool" where
  "allocator_up env b s t \<longleftrightarrow> booting s t \<and> magic b = BOOTINFO_MAGIC \<and> mem_inv (pg_mem (paging (kern t))) \<and>
     avail (paging (kern t)) \<subseteq> boot_memory env b s"

definition tables_up :: "'d boot_env \<Rightarrow> BootInfo \<Rightarrow> 'd kmain_state \<Rightarrow> 'd kmain_state \<Rightarrow> bool" where
  "tables_up env b s t \<longleftrightarrow> booting s t \<and> magic b = BOOTINFO_MAGIC \<and> kernel_space (paging (kern t)) \<and>
     avail (paging (kern t)) \<subseteq> boot_memory env b s"

text \<open>What firmware, loader and devices promise, and the initial values of the static variables.\<close>

definition boot_promises :: "'d boot_env \<Rightarrow> (u16 \<Rightarrow> u8 \<Rightarrow> 'd ata_model) \<Rightarrow> BootInfo \<Rightarrow> 'd kmain_state \<Rightarrow> bool" where
  "boot_promises env M b s \<longleftrightarrow>
     screen_promise (ke_framebuffer env) (Some b) \<and> uefi_map (efi_descriptor (ram (kern s))) b \<and> symbols_ok (ke_symbols env) \<and>
     unat (framebuffer_base b) + unat (framebuffer_bytes b) \<le> 2 ^ 48 \<and>
     unat (boot_device_path_size b) \<le> length (boot_device_path b) \<and>
     (\<forall>d. pit_rises (sh_io (ke_shell env)) d) \<and> bars_low (sh_io (ke_shell env)) \<and> standard_drives (sh_io (ke_shell env)) M \<and>
     2000 \<le> length (g_vga (kern s)) \<and> length (g_registered (km_drivers s)) = DRIVER_MAX_REGISTERED \<and>
     length (g_sector_buffer (volume (kern s))) = SECTOR \<and> cwd_ok (g_cwd (km_shell s)) \<and> \<not> g_active_process (kern s)"

lemmas stage_defs = with_kernel_def with_paging_def with_pci_def with_apic_def

lemma booting_console: "booting s t \<Longrightarrow> console_ok (kern t)"
  by (simp add: booting_def)

lemma boot_memory_low: "boot_memory env b s \<subseteq> {..<2 ^ 32}"
  by (auto simp: boot_memory_def usable_def split: if_splits)

lemma stage_magic_ok: "stage_ok (booting s) (\<lambda>t. booting s t \<and> magic b = BOOTINFO_MAGIC) (stage_magic (Some b))"
  by (auto simp: stage_ok_def stage_magic_def booting_def)

lemma booting_with_paging [simp]: "booting s (with_paging p t) = booting s t"
  by (simp add: booting_def stage_defs console_ok_def fits_def)

lemma paging_with [simp]: "paging (kern (with_paging p t)) = p"
  by (simp add: stage_defs)

lemma stage_memory_ok:
  assumes "boot_promises env M b s"
  shows "stage_ok (\<lambda>t. booting s t \<and> magic b = BOOTINFO_MAGIC) (allocator_up env b s) (stage_memory env (Some b))"
  unfolding stage_ok_def
proof (intro allI impI)
  fix t assume t: "booting s t \<and> magic b = BOOTINFO_MAGIC"
  have r: "ram (kern t) = ram (kern s)" using t by (simp add: booting_def)
  have e: "unat (ks_image_end (ke_symbols env)) + 4095 < 2 ^ 64" using assms by (simp add: boot_promises_def symbols_ok_def)
  have "unat (framebuffer_base b + framebuffer_bytes b) \<le> unat (framebuffer_base b) + unat (framebuffer_bytes b)"
    by (simp add: unat_word_ariths(1))
  then have f: "unat (framebuffer_base b + framebuffer_bytes b) + 4095 < 2 ^ 64" using assms by (simp add: boot_promises_def)
  have map: "uefi_map (efi_descriptor (ram (kern s))) b" using assms by (simp add: boot_promises_def)
  obtain ok m where "memory_init (efi_descriptor (ram (kern s))) (ks_start (ke_symbols env)) (ks_image_end (ke_symbols env))
      (Some b) (pg_mem (paging (kern t))) = Some (ok, m)"
    "ok \<longrightarrow> mem_inv m \<and> free_set (g_free_ranges m) = boot_memory env b s"
    using memory_init_ok [OF map e f, of "ks_start (ke_symbols env)" "pg_mem (paging (kern t))"]
    unfolding boot_memory_def by blast
  then show "\<exists>ok u. stage_memory env (Some b) t = Some (ok, u) \<and> console_ok (kern u) \<and> (ok \<longrightarrow> allocator_up env b s u)"
    using t r booting_console [of s "with_paging p t" for p] by (auto simp: stage_memory_def allocator_up_def avail_def)
qed

lemma stage_self_test_ok: "stage_ok (allocator_up env b s) (allocator_up env b s) stage_self_test"
  unfolding stage_ok_def
proof (intro allI impI)
  fix t assume t: "allocator_up env b s t"
  let ?h = "\<lparr>h_mem = pg_mem (paging (kern t)), h_blocks = km_blocks t\<rparr>"
  obtain ok h where "memory_self_test ?h = Some (ok, h)" "mem_inv (h_mem h)"
    "free_set (g_free_ranges (h_mem h)) \<subseteq> free_set (g_free_ranges (pg_mem (paging (kern t))))"
    using memory_self_test_returns [of ?h] t by (auto simp: allocator_up_def)
  moreover have "booting s (with_paging p t\<lparr>km_blocks := H\<rparr>)" for p H
    using t by (simp add: allocator_up_def booting_def stage_defs console_ok_def fits_def)
  ultimately show "\<exists>ok u. stage_self_test t = Some (ok, u) \<and> console_ok (kern u) \<and> (ok \<longrightarrow> allocator_up env b s u)"
    using t booting_console [of s "with_paging p t" for p] by (auto simp: stage_self_test_def allocator_up_def avail_def)
qed

lemma stage_pci_ok: "stage_ok (allocator_up env b s) (allocator_up env b s) stage_pci"
  by (auto simp: stage_ok_def stage_pci_def pci_init_def allocator_up_def booting_def stage_defs)

lemma stage_paging_ok:
  assumes "boot_promises env M b s"
  shows "stage_ok (allocator_up env b s) (tables_up env b s) (stage_paging env (Some b))"
  unfolding stage_ok_def
proof (intro allI impI)
  fix t assume t: "allocator_up env b s t"
  then have a: "avail (paging (kern t)) \<subseteq> {..<2 ^ 32}" using boot_memory_low [of env b s] by (auto simp: allocator_up_def)
  then have "pages_ok (paging (kern t))" using t by (auto simp: pages_ok_def allocator_up_def)
  then obtain ok p where "paging_init (ke_symbols env) (Some b) (paging (kern t)) = Some (ok, p)"
    "ok \<longrightarrow> kernel_ok p \<and> cr3 p = g_pml4 p \<and> avail p \<subseteq> avail (paging (kern t))"
    using paging_init_ok [of "paging (kern t)" "ke_symbols env" b] assms by (auto simp: boot_promises_def)
  then show "\<exists>ok u. stage_paging env (Some b) t = Some (ok, u) \<and> console_ok (kern u) \<and> (ok \<longrightarrow> tables_up env b s u)"
    using t a booting_console [of s "with_paging p t"] by (auto simp: stage_paging_def tables_up_def allocator_up_def kernel_space_def)
qed

lemma stage_acpi_ok: "stage_ok (tables_up env b s) (tables_up env b s) (stage_acpi (Some b))"
  unfolding stage_ok_def
proof (intro allI impI)
  fix t assume t: "tables_up env b s t"
  obtain ok g where "acpi_init (ram (kern t)) (Some b) (km_acpi t) = Some (ok, g)"
    using acpi_init_found [of "ram (kern t)" b "km_acpi t"] by blast
  then show "\<exists>ok u. stage_acpi (Some b) t = Some (ok, u) \<and> console_ok (kern u) \<and> (ok \<longrightarrow> tables_up env b s u)"
    using t by (simp add: stage_acpi_def tables_up_def booting_def)
qed

lemma with_apic_ok:
  assumes "tables_up env b s t" and "tables_grew (paging (kern t)) (apic_paging a)"
  shows "tables_up env b s (with_apic a t)" "tables_up env b s (with_apic a t\<lparr>g_tsc_hz := hz\<rparr>)" "console_ok (kern (with_apic a t))"
    "console_ok (kern (with_apic a t\<lparr>g_tsc_hz := hz\<rparr>))"
  using assms by (auto simp: tables_up_def tables_grew_def booting_def stage_defs console_ok_def fits_def)

lemma stage_apic_ok: "stage_ok (tables_up env b s) (tables_up env b s) (stage_apic env)"
  unfolding stage_ok_def
proof (intro allI impI)
  fix t assume t: "tables_up env b s t"
  then have k: "kernel_space (apic_paging (apic_part t))" by (simp add: tables_up_def apic_part_def)
  obtain ok a
    where "apic_init (ke_cpu env) (ke_machine env) (Some (acpi_platform_info (km_acpi t))) (apic_part t) = Some (ok, a)"
      "tables_grew (apic_paging (apic_part t)) (apic_paging a)" using apic_init_keeps [OF k] by blast
  then show "\<exists>ok u. stage_apic env t = Some (ok, u) \<and> console_ok (kern u) \<and> (ok \<longrightarrow> tables_up env b s u)"
    using with_apic_ok [OF t, of a] by (simp add: stage_apic_def) (simp add: apic_part_def)
qed

lemma stage_timer_ok:
  assumes "boot_promises env M b s"
  shows "stage_ok (tables_up env b s) (tables_up env b s) (stage_timer env)"
  unfolding stage_ok_def
proof (intro allI impI)
  fix t assume t: "tables_up env b s t"
  then have k: "tables_grew (paging (kern t)) (paging (kern t))" by (simp add: tables_up_def tables_grew_refl)
  obtain ok hz a where "timer_init (sh_io (ke_shell env)) (ke_cpu env) (g_tsc_hz t) (apic_part t) = Some (ok, hz, a)"
      "apic_paging a = paging (kern t)"
    using timer_init_returns [of "sh_io (ke_shell env)" "ke_cpu env" "g_tsc_hz t" "apic_part t"] assms
    unfolding boot_promises_def by (auto simp: apic_part_def)
  then show "\<exists>ok u. stage_timer env t = Some (ok, u) \<and> console_ok (kern u) \<and> (ok \<longrightarrow> tables_up env b s u)"
    using with_apic_ok(2,4) [OF t, of a hz] k by (simp add: stage_timer_def)
qed

lemma kernel_stages_ok:
  assumes "boot_promises env M b s"
  shows "stages_ok (booting s) (tables_up env b s) (run_stages (kernel_stages env (Some b)))"
  unfolding kernel_stages_def
  by (rule stages_Cons stages_Nil stage_magic_ok stage_memory_ok [OF assms] stage_self_test_ok stage_pci_ok
    stage_paging_ok [OF assms] stage_acpi_ok stage_apic_ok stage_timer_ok [OF assms])+

subsection \<open>The file system and the shell\<close>

text \<open>The boot path of the firmware leads to no AHCI port, and the volume at the partition the loader found ends within
  the 32-bit sector numbers.\<close>

definition boots_from_ata :: "'d boot_env \<Rightarrow> (u16 \<Rightarrow> u8 \<Rightarrow> 'd ata_model) \<Rightarrow> BootInfo \<Rightarrow> 'd kmain_state \<Rightarrow> bool" where
  "boots_from_ata env M b t \<longleftrightarrow> (\<exists>p. block_boot_path_to_ahci (sh_io (ke_shell env)) (Some b) (sh_pci (km_shell t)) = Some (None, p) \<and>
     (\<forall>base head. unat (partition_lba_start b) +
        unat (boot_total_sectors (boot_sector_of (disk_of (M base head) (pci_bus p) (unat (partition_lba_start b))))) < 2 ^ 32))"

text \<open>What the shell starts with.\<close>

definition shell_reached :: "'d boot_env \<Rightarrow> (u16 \<Rightarrow> u8 \<Rightarrow> 'd ata_model) \<Rightarrow> BootInfo \<Rightarrow> 'd kmain_state \<Rightarrow> ('d, 'd) shell_state \<Rightarrow> bool" where
  "shell_reached env M b s sh \<longleftrightarrow> magic b = BOOTINFO_MAGIC \<and> idle (kernel sh) \<and> cwd_ok (g_cwd sh) \<and>
     g_mounted (volume (kernel sh)) \<and> (\<exists>base head. vol_ok (disk_of (M base head)) (volume (kernel sh))) \<and>
     avail (paging (kernel sh)) \<subseteq> boot_memory env b s \<and> ram (kernel sh) = ram (kern s) \<and> in_port (kernel sh) = in_port (kern s)"

lemma page_ok_masked: "page_ok a \<Longrightarrow> a AND PAGE_TABLE_ADDR_MASK = a"
  by (rule bit_word_eqI) (auto simp: bit_simps bit_addr_mask dest: page_ok_bits)

lemma kernel_space_idle:
  assumes "kernel_space (paging k)" and "console_ok k" and "\<not> g_active_process k"
  shows "idle k"
proof -
  have "page_ok (g_pml4 (paging k))"
    using tree_page [of _ "pg_tables (paging k)" "g_pml4 (paging k)" "[]"] assms(1) by (auto simp: kernel_space_def kernel_ok_def)
  then have "paging_current_root (paging k) = g_pml4 (paging k)"
    using assms(1) page_ok_masked by (simp add: paging_current_root_def read_cr3_def kernel_space_def)
  then show ?thesis using assms kernel_ok_private [of "paging k"] by (simp add: idle_def holds_def kernel_space_def)
qed

lemma stage_fs_returns:
  assumes "boot_promises env M b s" and "tables_up env b s t" and "boots_from_ata env M b t"
  shows "\<exists>ok u. stage_fs env (Some b) t = Some (ok, u) \<and> console_ok (kern u) \<and> (ok \<longrightarrow> shell_reached env M b s (km_shell u))"
proof -
  let ?io = "sh_io (ke_shell env)" and ?d = "disks_part t"
  obtain p where p: "block_boot_path_to_ahci ?io (Some b) (ahci_pci (bk_ahci ?d)) = Some (None, p)"
    "\<And>base head. unat (partition_lba_start b) +
        unat (boot_total_sectors (boot_sector_of (disk_of (M base head) (pci_bus p) (unat (partition_lba_start b))))) < 2 ^ 32"
    using assms(3) by (auto simp: boots_from_ata_def disks_part_def)
  have k: "kernel_ok (ahci_paging (bk_ahci ?d))" using assms(2) by (simp add: tables_up_def kernel_space_def disks_part_def)
  have len: "length (g_registered (km_drivers t)) = DRIVER_MAX_REGISTERED" "length (g_sector_buffer (volume (kern t))) = SECTOR"
    using assms(1,2) by (simp_all add: boot_promises_def tables_up_def booting_def)
  have io: "unat (boot_device_path_size b) \<le> length (boot_device_path b)" "bars_low ?io" "standard_drives ?io M"
    using assms(1) by (simp_all add: boot_promises_def)
  obtain ok c d v where fs: "fs_init ?io (ke_machine env) (ke_dma env) (Some b) (km_drivers t) ?d (volume (kern t)) = Some (ok, c, d, v)"
    "ok \<longrightarrow> g_mounted v \<and> vol_ok (disk_of (M (g_ata_io_base (bk_ata d)) (g_ata_drive_head (bk_ata d)))) v \<and>
       bk_ahci d = (bk_ahci ?d)\<lparr>ahci_pci := p\<rparr>"
    using fs_init_mounts [OF io(1) len(1) k io(2) p(1) io(3) len(2) p(2), of "ke_machine env" "ke_dma env"] by blast
  let ?u = "(with_pci (ahci_pci (bk_ahci d)) (with_kernel ((kern t)\<lparr>paging := ahci_paging (bk_ahci d), volume := v\<rparr>) t))
       \<lparr>km_drivers := c, km_disks := d\<rparr>"
  have con: "console_ok (kern ?u)" using assms(2) by (simp add: tables_up_def booting_def stage_defs console_ok_def fits_def)
  have "shell_reached env M b s (km_shell ?u)" if ok
  proof -
    have pg: "paging (kern ?u) = paging (kern t)" using fs(2) that by (simp add: stage_defs disks_part_def)
    then have "idle (kern ?u)"
      using con assms(1,2) by (intro kernel_space_idle) (simp_all add: tables_up_def booting_def boot_promises_def, simp add: stage_defs)
    moreover have "volume (kern ?u) = v" by (simp add: stage_defs)
    ultimately show ?thesis
      using pg assms(1,2) fs(2) that unfolding shell_reached_def
      by (auto simp: tables_up_def booting_def boot_promises_def) (auto simp: stage_defs)
  qed
  then show ?thesis using con fs(1) by (simp add: stage_fs_def)
qed

lemma kmain_boots:
  assumes "boot_promises env M b s"
    and "\<And>k t. console_init (ke_framebuffer env) (Some b) (kern s) = Some k \<Longrightarrow>
      run_stages (kernel_stages env (Some b)) (with_kernel k s) = Some (True, t) \<Longrightarrow> boots_from_ata env M b t"
  shows "\<exists>t. kmain env (Some b) turns line s = Some (Halted t) \<and> g_panic_active t \<or>
    kmain env (Some b) turns line s = shell_run (ke_shell env) turns line t \<and> shell_reached env M b s t"
proof -
  obtain k where k: "console_init (ke_framebuffer env) (Some b) (kern s) = Some k" "console_ok k" "in_port k = in_port (kern s)"
      "console_state.more k = console_state.more (kern s)"
    using console_init_ok [of "ke_framebuffer env" "Some b" "kern s"] assms(1) by (auto simp: boot_promises_def)
  let ?s = "with_kernel k s"
  have "booting s ?s"
    using k(2,3,4) by (simp add: booting_def stage_defs) (cases k, cases "kern s", simp)
  then obtain ok t where t: "run_stages (kernel_stages env (Some b)) ?s = Some (ok, t)"
      "if ok then tables_up env b s t else g_panic_active (km_shell t)"
    using kernel_stages_ok [OF assms(1)] unfolding stages_ok_def by blast
  show ?thesis
  proof (cases ok)
    case False
    then show ?thesis using t k(1) by (auto simp: kmain_def run_stages_append)
  next
    case True
    have ata: "boots_from_ata env M b t" using assms(2) [OF k(1)] t(1) True by simp
    then obtain good u where u: "stage_fs env (Some b) t = Some (good, u)" "console_ok (kern u)"
        "good \<longrightarrow> shell_reached env M b s (km_shell u)"
      using stage_fs_returns [OF assms(1) _ ata] t(2) True by auto
    show ?thesis
    proof (cases good)
      case True
      then show ?thesis using \<open>ok\<close> t(1) k(1) u by (auto simp: kmain_def run_stages_append)
    next
      case False
      obtain w where "stage_panic ''FS init failed'' u = Some w" "g_panic_active (km_shell w)"
        using stage_panic_returns [OF u(2)] by blast
      then show ?thesis using \<open>ok\<close> False t(1) k(1) u(1) by (auto simp: kmain_def run_stages_append)
    qed
  qed
qed


text \<open>A machine with 64 MiB of memory and the drives of \<open>FsInit\<close>, booted without a device path.\<close>

definition demo_map_entry :: bytes where
  "demo_map_entry = le32 7 @ le32 0 @ le32 0x100000 @ le32 0 @ le32 0 @ le32 0 @ le32 0x4000 @ le32 0 @ le32 0 @ le32 0"

definition demo_kmain_ram :: "u64 \<Rightarrow> u8" where
  "demo_kmain_ram a = (if 0x5000 \<le> a \<and> a < 0x5028 then demo_map_entry ! unat (a - 0x5000) else demo_firmware a)"

definition demo_kmain_boot :: BootInfo where
  "demo_kmain_boot = demo_acpi_boot\<lparr>memory_map := \<lparr>map_base = 0x5000, map_size = 40, descriptor_size = 40, descriptor_version = 1\<rparr>\<rparr>"

definition demo_boot_env :: "demo_drive boot_env" where
  "demo_boot_env = \<lparr>ke_shell = \<lparr>sh_process = demo_env, sh_io = demo_ata_ports, sh_frame = demo_frame, sh_cr2 = 0\<rparr>,
     ke_machine = demo_machine, ke_cpu = \<lparr>cpu_rdmsr = (\<lambda>r d. (0xFEE00900, d)), cpu_wrmsr = (\<lambda>r v d. d), cpu_rdtsc = (\<lambda>d. (0, d))\<rparr>,
     ke_dma = 0x8000, ke_framebuffer = (\<lambda>_. []), ke_symbols = demo_symbols\<rparr>"

definition demo_boot_kernel :: "demo_drive kernel_state" where
  "demo_boot_kernel = console_state.extend demo_console
     (kernel_state.fields demo_paging demo_volume demo_kmain_ram (g_foreground_process demo_idle) False)"

definition demo_kmain :: "demo_drive kmain_state" where
  "demo_kmain = \<lparr>km_shell = \<lparr>kernel = demo_boot_kernel, g_cwd = 47 # replicate 127 0, sh_pci = ahci_pci (bk_ahci demo_disks), g_panic_active = False\<rparr>,
     km_blocks = (\<lambda>_. \<lparr>hb_size = 0, hb_free = False, hb_next = 0\<rparr>), km_acpi = acpi_zero, km_lapic = 0, km_lapic_hz = 0, g_tsc_hz = 0,
     km_drivers = \<lparr>g_registered = replicate 16 None, g_registered_count = 0\<rparr>, km_disks = demo_disks\<rparr>"

lemma demo_boot_kernel_parts:
  "ram demo_boot_kernel = demo_kmain_ram" "volume demo_boot_kernel = demo_volume" "\<not> g_active_process demo_boot_kernel"
  "g_vga demo_boot_kernel = replicate 2000 0"
  by (simp_all add: demo_boot_kernel_def console_state.defs kernel_state.defs demo_console_def)

lemma demo_kmain_map: "uefi_map (efi_descriptor demo_kmain_ram) demo_kmain_boot"
proof -
  have one: "descriptor_count demo_kmain_boot = 1"
    by (simp add: descriptor_count_def demo_kmain_boot_def)
  have at: "descriptor_addr demo_kmain_boot 0 = 0x5000" by (simp add: descriptor_addr_def demo_kmain_boot_def)
  have "efi_descriptor demo_kmain_ram 0x5000 = \<lparr>efi_type = 7, physical_start = 0x100000, number_of_pages = 0x4000\<rparr>"
    by code_simp
  then show ?thesis using one at by (simp add: uefi_map_def Let_def) (simp add: demo_kmain_boot_def)
qed


end
