(* ===== verification/Loader.thy ===== *)
theory Loader
  imports MemInit Acpi
begin

text \<open>
  The UEFI loader, \<open>src/boot/uefi/boot.c\<close> with the interface declared in \<open>efi.h\<close>. Memory is a map from addresses
  to bytes, in which the firmware's tables and the kernel file lie; the services of the firmware are functions on memory
  and the firmware's own state. Pointers are addresses, NULL is 0; a result returned through a pointer is a component of
  the result. \<open>BootInfo\<close> is a value here: the loader writes it field by field and the kernel only reads it.
\<close>

subsection \<open>Statuses, memory and GUIDs\<close>

definition BOOTINFO_CONSOLE_TEXT :: u16 where "BOOTINFO_CONSOLE_TEXT = 1"
definition BOOTINFO_FRAMEBUFFER_FORMAT_RGBX :: u32 where "BOOTINFO_FRAMEBUFFER_FORMAT_RGBX = 2"

type_synonym EFI_STATUS = u64

definition EFI_SUCCESS :: EFI_STATUS where "EFI_SUCCESS = 0"
definition EFI_BUFFER_TOO_SMALL :: EFI_STATUS where "EFI_BUFFER_TOO_SMALL = 5"
definition EFI_OUT_OF_RESOURCES :: EFI_STATUS where "EFI_OUT_OF_RESOURCES = 9"
definition EFI_ALLOCATE_ADDRESS :: u32 where "EFI_ALLOCATE_ADDRESS = 2"
definition EFI_BY_PROTOCOL :: u32 where "EFI_BY_PROTOCOL = 2"
definition EfiLoaderData :: u32 where "EfiLoaderData = 4"
definition PT_LOAD_SEGMENT :: u32 where "PT_LOAD_SEGMENT = 1"
definition KERNEL_ELF_MAGIC :: u32 where "KERNEL_ELF_MAGIC = 0x464C457F"
definition KERNEL_ELFCLASS64 :: u8 where "KERNEL_ELFCLASS64 = 2"
definition KERNEL_EM_X86_64 :: u16 where "KERNEL_EM_X86_64 = 62"

definition EFI_ERROR :: "EFI_STATUS \<Rightarrow> bool" where
  "EFI_ERROR status \<longleftrightarrow> drop_bit 63 status \<noteq> 0"

type_synonym memory = "u64 \<Rightarrow> u8"

definition mem_u16 :: "memory \<Rightarrow> u64 \<Rightarrow> u16" where
  "mem_u16 m a = of_le16 (m a) (m (a + 1))"

definition mem_set :: "u64 \<Rightarrow> u8 \<Rightarrow> u64 \<Rightarrow> memory \<Rightarrow> memory" where
  "mem_set dst v sz m = fold (\<lambda>i m. m(dst + of_nat i := v)) [0..<unat sz] m"

definition mem_copy :: "u64 \<Rightarrow> u64 \<Rightarrow> u64 \<Rightarrow> memory \<Rightarrow> memory" where
  "mem_copy dst src sz m = fold (\<lambda>i m. m(dst + of_nat i := m (src + of_nat i))) [0..<unat sz] m"

definition loader_align_up :: "u64 \<Rightarrow> u64 \<Rightarrow> u64" where
  "loader_align_up v alignment = (v + alignment - 1) AND NOT (alignment - 1)"

record EFI_GUID =
  Data1 :: u32
  Data2 :: u16
  Data3 :: u16
  Data4 :: "u8 list"

definition guid_at :: "memory \<Rightarrow> u64 \<Rightarrow> EFI_GUID" where
  "guid_at m a = \<lparr>Data1 = mem_u32 m a, Data2 = mem_u16 m (a + 4), Data3 = mem_u16 m (a + 6),
     Data4 = map (\<lambda>i. m (a + 8 + of_nat i)) [0..<8]\<rparr>"

text \<open>Both arguments are addresses of GUIDs in the code, never NULL.\<close>

definition guid_equal :: "EFI_GUID \<Rightarrow> EFI_GUID \<Rightarrow> bool" where
  "guid_equal a b \<longleftrightarrow> Data1 a = Data1 b \<and> Data2 a = Data2 b \<and> Data3 a = Data3 b \<and>
     list_all (\<lambda>i. Data4 a ! i = Data4 b ! i) [0..<8]"

definition gEfiLoadedImageProtocolGuid :: EFI_GUID where
  "gEfiLoadedImageProtocolGuid = \<lparr>Data1 = 0x5B1B31A1, Data2 = 0x9562, Data3 = 0x11d2, Data4 = [0x8E, 0x3F, 0x00, 0xA0, 0xC9, 0x69, 0x72, 0x3B]\<rparr>"
definition gEfiSimpleFileSystemProtocolGuid :: EFI_GUID where
  "gEfiSimpleFileSystemProtocolGuid = \<lparr>Data1 = 0x964E5B22, Data2 = 0x6459, Data3 = 0x11d2, Data4 = [0x8E, 0x39, 0x00, 0xA0, 0xC9, 0x69, 0x72, 0x3B]\<rparr>"
definition gEfiFileInfoGuid :: EFI_GUID where
  "gEfiFileInfoGuid = \<lparr>Data1 = 0x09576E92, Data2 = 0x6D3F, Data3 = 0x11d2, Data4 = [0x8E, 0x39, 0x00, 0xA0, 0xC9, 0x69, 0x72, 0x3B]\<rparr>"
definition gEfiBlockIoProtocolGuid :: EFI_GUID where
  "gEfiBlockIoProtocolGuid = \<lparr>Data1 = 0x964E5B21, Data2 = 0x6459, Data3 = 0x11d2, Data4 = [0x8E, 0x39, 0x00, 0xA0, 0xC9, 0x69, 0x72, 0x3B]\<rparr>"
definition gEfiDevicePathProtocolGuid :: EFI_GUID where
  "gEfiDevicePathProtocolGuid = \<lparr>Data1 = 0x09576E91, Data2 = 0x6D3F, Data3 = 0x11d2, Data4 = [0x8E, 0x39, 0x00, 0xA0, 0xC9, 0x69, 0x72, 0x3B]\<rparr>"
definition gEfiGraphicsOutputProtocolGuid :: EFI_GUID where
  "gEfiGraphicsOutputProtocolGuid = \<lparr>Data1 = 0x9042A9DE, Data2 = 0x23DC, Data3 = 0x4A38, Data4 = [0x96, 0xFB, 0x7A, 0xDE, 0xD0, 0x80, 0x51, 0x6A]\<rparr>"
definition gEfiAcpi20TableGuid :: EFI_GUID where
  "gEfiAcpi20TableGuid = \<lparr>Data1 = 0x8868E871, Data2 = 0xE4F1, Data3 = 0x11D3, Data4 = [0xBC, 0x22, 0x00, 0x80, 0xC7, 0x3C, 0x88, 0x81]\<rparr>"
definition gEfiAcpi10TableGuid :: EFI_GUID where
  "gEfiAcpi10TableGuid = \<lparr>Data1 = 0xEB9D2D30, Data2 = 0x2D88, Data3 = 0x11D3, Data4 = [0x9A, 0x16, 0x00, 0x00, 0x98, 0x3C, 0x97, 0x3C]\<rparr>"

subsection \<open>The firmware\<close>

text \<open>Memory, and whatever else the firmware keeps.\<close>

record 'f loader_state =
  lmem :: memory
  lfw :: 'f

text \<open>The services the loader calls, in the order of \<open>efi.h\<close>: status first, then what the service stores through its
  pointer arguments.\<close>

record 'f firmware =
  OutputString :: "string \<Rightarrow> 'f loader_state \<Rightarrow> 'f loader_state"
  QueryTextMode :: "u64 \<Rightarrow> 'f loader_state \<Rightarrow> EFI_STATUS \<times> u64 \<times> u64 \<times> 'f loader_state"
  AllocatePages :: "u32 \<Rightarrow> u32 \<Rightarrow> u64 \<Rightarrow> u64 \<Rightarrow> 'f loader_state \<Rightarrow> EFI_STATUS \<times> u64 \<times> 'f loader_state"
  GetMemoryMap :: "u64 \<Rightarrow> u64 \<Rightarrow> 'f loader_state \<Rightarrow> EFI_STATUS \<times> u64 \<times> u64 \<times> u64 \<times> u32 \<times> 'f loader_state"
  AllocatePool :: "u32 \<Rightarrow> u64 \<Rightarrow> 'f loader_state \<Rightarrow> EFI_STATUS \<times> u64 \<times> 'f loader_state"
  FreePool :: "u64 \<Rightarrow> 'f loader_state \<Rightarrow> 'f loader_state"
  HandleProtocol :: "u64 \<Rightarrow> EFI_GUID \<Rightarrow> 'f loader_state \<Rightarrow> EFI_STATUS \<times> u64 \<times> 'f loader_state"
  ExitBootServices :: "u64 \<Rightarrow> u64 \<Rightarrow> 'f loader_state \<Rightarrow> EFI_STATUS \<times> 'f loader_state"
  LocateHandleBuffer :: "u32 \<Rightarrow> EFI_GUID \<Rightarrow> 'f loader_state \<Rightarrow> EFI_STATUS \<times> u64 \<times> u64 \<times> 'f loader_state"
  FileOpen :: "u64 \<Rightarrow> string \<Rightarrow> 'f loader_state \<Rightarrow> EFI_STATUS \<times> u64 \<times> 'f loader_state"
  FileClose :: "u64 \<Rightarrow> 'f loader_state \<Rightarrow> 'f loader_state"
  FileRead :: "u64 \<Rightarrow> u64 \<Rightarrow> u64 \<Rightarrow> 'f loader_state \<Rightarrow> EFI_STATUS \<times> u64 \<times> 'f loader_state"
  FileGetInfo :: "u64 \<Rightarrow> EFI_GUID \<Rightarrow> u64 \<Rightarrow> u64 \<Rightarrow> 'f loader_state \<Rightarrow> EFI_STATUS \<times> u64 \<times> 'f loader_state"
  OpenVolume :: "u64 \<Rightarrow> 'f loader_state \<Rightarrow> EFI_STATUS \<times> u64 \<times> 'f loader_state"
  GopQueryMode :: "u64 \<Rightarrow> u32 \<Rightarrow> 'f loader_state \<Rightarrow> EFI_STATUS \<times> u64 \<times> 'f loader_state"
  GopSetMode :: "u64 \<Rightarrow> u32 \<Rightarrow> 'f loader_state \<Rightarrow> EFI_STATUS \<times> 'f loader_state"

text \<open>The static variables that do not change after the first lines of \<open>efi_main\<close>.\<close>

record 'f loader_env =
  fw :: "'f firmware"
  g_st :: u64
  g_memory_map_buffer :: u64

text \<open>Fields of the firmware's tables, at their offsets.\<close>

definition st_ConsoleOutHandle :: "memory \<Rightarrow> u64 \<Rightarrow> u64" where "st_ConsoleOutHandle m st = mem_u64 m (st + 56)"
definition st_ConOut :: "memory \<Rightarrow> u64 \<Rightarrow> u64" where "st_ConOut m st = mem_u64 m (st + 64)"
definition st_NumberOfTableEntries :: "memory \<Rightarrow> u64 \<Rightarrow> u64" where "st_NumberOfTableEntries m st = mem_u64 m (st + 104)"
definition st_ConfigurationTable :: "memory \<Rightarrow> u64 \<Rightarrow> u64" where "st_ConfigurationTable m st = mem_u64 m (st + 112)"
definition out_Mode :: "memory \<Rightarrow> u64 \<Rightarrow> u64" where "out_Mode m out = mem_u64 m (out + 72)"
definition text_Mode :: "memory \<Rightarrow> u64 \<Rightarrow> u32" where "text_Mode m mode = mem_u32 m (mode + 4)"
definition image_DeviceHandle :: "memory \<Rightarrow> u64 \<Rightarrow> u64" where "image_DeviceHandle m li = mem_u64 m (li + 24)"
definition info_FileSize :: "memory \<Rightarrow> u64 \<Rightarrow> u64" where "info_FileSize m fi = mem_u64 m (fi + 8)"
definition block_Media :: "memory \<Rightarrow> u64 \<Rightarrow> u64" where "block_Media m io = mem_u64 m (io + 8)"
definition media_BlockSize :: "memory \<Rightarrow> u64 \<Rightarrow> u32" where "media_BlockSize m media = mem_u32 m (media + 12)"
definition media_LastBlock :: "memory \<Rightarrow> u64 \<Rightarrow> u64" where "media_LastBlock m media = mem_u64 m (media + 24)"
definition gop_Mode :: "memory \<Rightarrow> u64 \<Rightarrow> u64" where "gop_Mode m gop = mem_u64 m (gop + 24)"
definition mode_MaxMode :: "memory \<Rightarrow> u64 \<Rightarrow> u32" where "mode_MaxMode m mode = mem_u32 m mode"
definition mode_Mode :: "memory \<Rightarrow> u64 \<Rightarrow> u32" where "mode_Mode m mode = mem_u32 m (mode + 4)"
definition mode_Info :: "memory \<Rightarrow> u64 \<Rightarrow> u64" where "mode_Info m mode = mem_u64 m (mode + 8)"
definition mode_FrameBufferBase :: "memory \<Rightarrow> u64 \<Rightarrow> u64" where "mode_FrameBufferBase m mode = mem_u64 m (mode + 24)"
definition info_HorizontalResolution :: "memory \<Rightarrow> u64 \<Rightarrow> u32" where "info_HorizontalResolution m gi = mem_u32 m (gi + 4)"
definition info_VerticalResolution :: "memory \<Rightarrow> u64 \<Rightarrow> u32" where "info_VerticalResolution m gi = mem_u32 m (gi + 8)"
definition info_PixelFormat :: "memory \<Rightarrow> u64 \<Rightarrow> u32" where "info_PixelFormat m gi = mem_u32 m (gi + 12)"
definition info_RedMask :: "memory \<Rightarrow> u64 \<Rightarrow> u32" where "info_RedMask m gi = mem_u32 m (gi + 16)"
definition info_GreenMask :: "memory \<Rightarrow> u64 \<Rightarrow> u32" where "info_GreenMask m gi = mem_u32 m (gi + 20)"
definition info_BlueMask :: "memory \<Rightarrow> u64 \<Rightarrow> u32" where "info_BlueMask m gi = mem_u32 m (gi + 24)"
definition info_PixelsPerScanLine :: "memory \<Rightarrow> u64 \<Rightarrow> u32" where "info_PixelsPerScanLine m gi = mem_u32 m (gi + 32)"

definition puts16 :: "'f loader_env \<Rightarrow> string \<Rightarrow> 'f loader_state \<Rightarrow> 'f loader_state" where
  "puts16 env text s = (if g_st env \<noteq> 0 \<and> st_ConOut (lmem s) (g_st env) \<noteq> 0
     then OutputString (fw env) (text @ [CHR 0x0D, CHR 0x0A]) s else s)"

definition open_protocol :: "'f loader_env \<Rightarrow> u64 \<Rightarrow> EFI_GUID \<Rightarrow> 'f loader_state \<Rightarrow> EFI_STATUS \<times> u64 \<times> 'f loader_state" where
  "open_protocol env handle guid s = HandleProtocol (fw env) handle guid s"

subsection \<open>Reading the kernel file\<close>

text \<open>\<open>sizeof (EFI_FILE_INFO)\<close> and room for 260 more characters.\<close>

definition FILE_INFO_SIZE :: u64 where "FILE_INFO_SIZE = 88 + 2 * 260"

text \<open>The file information, asked for again when the buffer was too small. The first component is \<open>False\<close> when the
  second buffer cannot be had and \<open>read_file\<close> returns.\<close>

definition get_file_info :: "'f loader_env \<Rightarrow> u64 \<Rightarrow> u64 \<Rightarrow> 'f loader_state \<Rightarrow> bool \<times> EFI_STATUS \<times> u64 \<times> 'f loader_state" where
  "get_file_info env file info s =
     (case FileGetInfo (fw env) file gEfiFileInfoGuid FILE_INFO_SIZE info s of (status, info_size, s) \<Rightarrow>
        if status = EFI_BUFFER_TOO_SMALL then
          case AllocatePool (fw env) EfiLoaderData info_size (FreePool (fw env) info s) of (status, info, s) \<Rightarrow>
            if EFI_ERROR status then (False, status, info, FileClose (fw env) file s)
            else case FileGetInfo (fw env) file gEfiFileInfoGuid info_size info s of (status, _, s) \<Rightarrow> (True, status, info, s)
        else (True, status, info, s))"

text \<open>Status, \<open>*data_out\<close> and \<open>*size_out\<close>, which the caller has set to NULL and 0.\<close>

definition read_file :: "'f loader_env \<Rightarrow> u64 \<Rightarrow> string \<Rightarrow> 'f loader_state \<Rightarrow> EFI_STATUS \<times> u64 \<times> u64 \<times> 'f loader_state" where
  "read_file env root file_path s =
     (case FileOpen (fw env) root file_path s of (status, file, s) \<Rightarrow>
        if EFI_ERROR status then (status, 0, 0, puts16 env ''open file failed'' s)
        else case AllocatePool (fw env) EfiLoaderData FILE_INFO_SIZE s of (status, info, s) \<Rightarrow>
          if EFI_ERROR status then (status, 0, 0, FileClose (fw env) file s)
          else case get_file_info env file info s of (go_on, status, info, s) \<Rightarrow>
            if \<not> go_on then (status, 0, 0, s)
            else if EFI_ERROR status then
              (status, 0, 0, FileClose (fw env) file (FreePool (fw env) info (puts16 env ''getinfo data failed'' s)))
            else case AllocatePool (fw env) EfiLoaderData (info_FileSize (lmem s) info) s of (status, data, t) \<Rightarrow>
              if EFI_ERROR status then (status, 0, 0, FileClose (fw env) file (FreePool (fw env) info t))
              else case FileRead (fw env) file (info_FileSize (lmem s) info) data t of (status, file_size, s) \<Rightarrow>
                let s = FreePool (fw env) info (FileClose (fw env) file s) in
                if EFI_ERROR status then (status, 0, 0, FreePool (fw env) data (puts16 env ''read file failed'' s))
                else (EFI_SUCCESS, data, file_size, s))"

subsection \<open>Loading the kernel\<close>

definition elf_magic :: "memory \<Rightarrow> u64 \<Rightarrow> u32" where "elf_magic m h = mem_u32 m h"
definition elf_ident_class :: "memory \<Rightarrow> u64 \<Rightarrow> u8" where "elf_ident_class m h = m (h + 4)"
definition elf_machine :: "memory \<Rightarrow> u64 \<Rightarrow> u16" where "elf_machine m h = mem_u16 m (h + 18)"
definition elf_entry :: "memory \<Rightarrow> u64 \<Rightarrow> u64" where "elf_entry m h = mem_u64 m (h + 24)"
definition elf_phoff :: "memory \<Rightarrow> u64 \<Rightarrow> u64" where "elf_phoff m h = mem_u64 m (h + 32)"
definition elf_phentsize :: "memory \<Rightarrow> u64 \<Rightarrow> u16" where "elf_phentsize m h = mem_u16 m (h + 54)"
definition elf_phnum :: "memory \<Rightarrow> u64 \<Rightarrow> u16" where "elf_phnum m h = mem_u16 m (h + 56)"

definition seg_type :: "memory \<Rightarrow> u64 \<Rightarrow> u32" where "seg_type m p = mem_u32 m p"
definition seg_offset :: "memory \<Rightarrow> u64 \<Rightarrow> u64" where "seg_offset m p = mem_u64 m (p + 8)"
definition seg_paddr :: "memory \<Rightarrow> u64 \<Rightarrow> u64" where "seg_paddr m p = mem_u64 m (p + 24)"
definition seg_filesz :: "memory \<Rightarrow> u64 \<Rightarrow> u64" where "seg_filesz m p = mem_u64 m (p + 32)"
definition seg_memsz :: "memory \<Rightarrow> u64 \<Rightarrow> u64" where "seg_memsz m p = mem_u64 m (p + 40)"

text \<open>The loop over the program headers from index \<open>i\<close>; every field is read where the code reads it. The mask
  \<open>~0xFFFu\<close> is a 32-bit number.\<close>

function load_program_headers :: "'f loader_env \<Rightarrow> u64 \<Rightarrow> u64 \<Rightarrow> u64 \<Rightarrow> nat \<Rightarrow> 'f loader_state \<Rightarrow> EFI_STATUS \<times> 'f loader_state" where
  "load_program_headers env elf image_size program_headers i s =
     (if unat (elf_phnum (lmem s) elf) \<le> i then (EFI_SUCCESS, s)
      else let segment = program_headers + of_nat i * ucast (elf_phentsize (lmem s) elf) in
        if seg_type (lmem s) segment \<noteq> PT_LOAD_SEGMENT then load_program_headers env elf image_size program_headers (Suc i) s
        else if seg_offset (lmem s) segment + seg_filesz (lmem s) segment > image_size \<or>
                seg_filesz (lmem s) segment > seg_memsz (lmem s) segment then (1, s)
        else let segment_base = seg_paddr (lmem s) segment AND 0xFFFFF000;
                 pages = loader_align_up (seg_memsz (lmem s) segment + (seg_paddr (lmem s) segment AND 0xFFF)) 4096 div 4096
          in case AllocatePages (fw env) EFI_ALLOCATE_ADDRESS EfiLoaderData pages segment_base s of (status, _, s) \<Rightarrow>
            if EFI_ERROR status then (EFI_OUT_OF_RESOURCES, s)
            else let s = s\<lparr>lmem := mem_set (seg_paddr (lmem s) segment) 0 (seg_memsz (lmem s) segment) (lmem s)\<rparr>;
                     s = s\<lparr>lmem := mem_copy (seg_paddr (lmem s) segment) (elf + seg_offset (lmem s) segment)
                           (seg_filesz (lmem s) segment) (lmem s)\<rparr>
              in load_program_headers env elf image_size program_headers (Suc i) s)"
  by pat_completeness auto
termination
proof (relation "measure (\<lambda>(env, elf, image_size, program_headers, i, s). 65536 - i)", goal_cases)
  case (2 env elf image_size program_headers i s)
  then show ?case using unat_u16_bound [of "elf_phnum (lmem s) elf"] by simp
next
  case (3 env elf image_size program_headers i s)
  then show ?case using unat_u16_bound [of "elf_phnum (lmem s) elf"] by simp
qed simp

declare load_program_headers.simps [simp del]

definition load_kernel_elf ::
  "'f loader_env \<Rightarrow> u64 \<Rightarrow> u64 \<Rightarrow> u64 \<Rightarrow> 'f loader_state \<Rightarrow> EFI_STATUS \<times> u64 \<times> 'f loader_state" where
  "load_kernel_elf env elf image_size entry s =
     (let m = lmem s in
      if image_size < 64 then (1, entry, s)
      else if elf_magic m elf \<noteq> KERNEL_ELF_MAGIC \<or> elf_ident_class m elf \<noteq> KERNEL_ELFCLASS64 \<or>
              elf_machine m elf \<noteq> KERNEL_EM_X86_64 then (1, entry, s)
      else if elf_phentsize m elf \<noteq> 56 then (1, entry, s)
      else if elf_phoff m elf + ucast (elf_phnum m elf) * ucast (elf_phentsize m elf) > image_size then (1, entry, s)
      else case load_program_headers env elf image_size (elf + elf_phoff m elf) 0 s of (status, s) \<Rightarrow>
        if status \<noteq> EFI_SUCCESS then (status, entry, s) else (EFI_SUCCESS, elf_entry (lmem s) elf, s))"

subsection \<open>The console and the graphics mode\<close>

definition query_console ::
  "'f loader_env \<Rightarrow> u64 \<Rightarrow> u64 \<Rightarrow> 'f loader_state \<Rightarrow> EFI_STATUS \<times> u64 \<times> u64 \<times> 'f loader_state" where
  "query_console env cols_out rows_out s =
     (let out = st_ConOut (lmem s) (g_st env) in
      if out = 0 \<or> out_Mode (lmem s) out = 0 then (1, cols_out, rows_out, s)
      else case QueryTextMode (fw env) (scast (text_Mode (lmem s) (out_Mode (lmem s) out))) s of (status, cols, rows, s) \<Rightarrow>
        if EFI_ERROR status then (1, cols_out, rows_out, s) else (EFI_SUCCESS, cols, rows, s))"

definition gop_ready :: "memory \<Rightarrow> u64 \<Rightarrow> bool" where
  "gop_ready m gop \<longleftrightarrow> gop \<noteq> 0 \<and> gop_Mode m gop \<noteq> 0 \<and> mode_Info m (gop_Mode m gop) \<noteq> 0"

text \<open>The loop over the handles; 0 when none has the protocol.\<close>

fun try_handles :: "'f loader_env \<Rightarrow> u64 \<Rightarrow> nat list \<Rightarrow> 'f loader_state \<Rightarrow> u64 \<times> 'f loader_state" where
  "try_handles env handles [] s = (0, s)"
| "try_handles env handles (i # is) s =
     (case open_protocol env (mem_u64 (lmem s) (handles + of_nat i * 8)) gEfiGraphicsOutputProtocolGuid s of (status, gop, s) \<Rightarrow>
        if \<not> EFI_ERROR status \<and> gop_ready (lmem s) gop then (gop, s) else try_handles env handles is s)"

definition locate_graphics_output_protocol :: "'f loader_env \<Rightarrow> 'f loader_state \<Rightarrow> EFI_STATUS \<times> u64 \<times> 'f loader_state" where
  "locate_graphics_output_protocol env s =
     (case open_protocol env (st_ConsoleOutHandle (lmem s) (g_st env)) gEfiGraphicsOutputProtocolGuid s of (status, gop, s) \<Rightarrow>
        if \<not> EFI_ERROR status \<and> gop_ready (lmem s) gop then (EFI_SUCCESS, gop, s)
        else case LocateHandleBuffer (fw env) EFI_BY_PROTOCOL gEfiGraphicsOutputProtocolGuid s of (status, handle_count, handles, s) \<Rightarrow>
          if EFI_ERROR status then (status, 0, s)
          else if handles = 0 \<or> handle_count = 0 then (1, 0, s)
          else case try_handles env handles [0..<unat handle_count] s of (gop, s) \<Rightarrow>
            let s = FreePool (fw env) handles s in if gop \<noteq> 0 then (EFI_SUCCESS, gop, s) else (1, 0, s))"

text \<open>Status and \<open>*format_out\<close>.\<close>

definition map_framebuffer_format :: "memory \<Rightarrow> u64 \<Rightarrow> u32 \<Rightarrow> EFI_STATUS \<times> u32" where
  "map_framebuffer_format m mode_info format =
     (if mode_info = 0 then (1, format)
      else if info_PixelFormat m mode_info = 0 then (EFI_SUCCESS, BOOTINFO_FRAMEBUFFER_FORMAT_RGBX)
      else if info_PixelFormat m mode_info = 1 then (EFI_SUCCESS, BOOTINFO_FRAMEBUFFER_FORMAT_BGRX)
      else if info_PixelFormat m mode_info = 2 \<and> info_RedMask m mode_info = 0x000000FF \<and>
              info_GreenMask m mode_info = 0x0000FF00 \<and> info_BlueMask m mode_info = 0x00FF0000
           then (EFI_SUCCESS, BOOTINFO_FRAMEBUFFER_FORMAT_RGBX)
      else if info_PixelFormat m mode_info = 2 \<and> info_RedMask m mode_info = 0x00FF0000 \<and>
              info_GreenMask m mode_info = 0x0000FF00 \<and> info_BlueMask m mode_info = 0x000000FF
           then (EFI_SUCCESS, BOOTINFO_FRAMEBUFFER_FORMAT_BGRX)
      else (1, format))"

text \<open>The best modes so far, each a mode and its area: the largest within 1024 by 768, the smallest of the others.\<close>

record mode_choice =
  best_preferred :: "(u32 \<times> u64) option"
  best_fallback :: "(u32 \<times> u64) option"

definition consider_mode :: "u32 \<Rightarrow> u32 \<Rightarrow> u32 \<Rightarrow> mode_choice \<Rightarrow> mode_choice" where
  "consider_mode mode width height c =
     (let area = ucast width * ucast height in
      if width \<le> 1024 \<and> height \<le> 768 then
        (case best_preferred c of
           None \<Rightarrow> c\<lparr>best_preferred := Some (mode, area)\<rparr>
         | Some (_, best) \<Rightarrow> if area > best then c\<lparr>best_preferred := Some (mode, area)\<rparr> else c)
      else (case best_fallback c of
           None \<Rightarrow> c\<lparr>best_fallback := Some (mode, area)\<rparr>
         | Some (_, best) \<Rightarrow> if area < best then c\<lparr>best_fallback := Some (mode, area)\<rparr> else c))"

lemma next_mode: "mode < (m :: u32) \<Longrightarrow> 4294967296 - unat (mode + 1) < 4294967296 - unat mode"
  using unat_u32_bound [of m] by (simp add: word_less_nat_alt unat_add_small)

function scan_modes :: "'f loader_env \<Rightarrow> u64 \<Rightarrow> u32 \<Rightarrow> mode_choice \<Rightarrow> 'f loader_state \<Rightarrow> mode_choice \<times> 'f loader_state" where
  "scan_modes env gop mode c s =
     (if mode_MaxMode (lmem s) (gop_Mode (lmem s) gop) \<le> mode then (c, s)
      else case GopQueryMode (fw env) gop mode s of (status, info, s) \<Rightarrow>
        if EFI_ERROR status \<or> info = 0 then scan_modes env gop (mode + 1) c s
        else let c = (if \<not> EFI_ERROR (fst (map_framebuffer_format (lmem s) info 0))
                then consider_mode mode (info_HorizontalResolution (lmem s) info) (info_VerticalResolution (lmem s) info) c else c)
          in scan_modes env gop (mode + 1) c (FreePool (fw env) info s))"
  by pat_completeness auto
termination
  by (relation "measure (\<lambda>(env, gop, mode, c, s). 2 ^ 32 - unat mode)")
    (auto simp: not_le intro: next_mode)

declare scan_modes.simps [simp del]

definition select_graphics_mode :: "'f loader_env \<Rightarrow> u64 \<Rightarrow> 'f loader_state \<Rightarrow> EFI_STATUS \<times> 'f loader_state" where
  "select_graphics_mode env gop s =
     (if \<not> gop_ready (lmem s) gop then (1, s)
      else case scan_modes env gop 0 \<lparr>best_preferred = None, best_fallback = None\<rparr> s of (c, s) \<Rightarrow>
        if best_preferred c = None \<and> best_fallback c = None then (1, s)
        else let mode = fst (case best_preferred c of Some b \<Rightarrow> b | None \<Rightarrow> the (best_fallback c)) in
          if mode_Mode (lmem s) (gop_Mode (lmem s) gop) = mode then (EFI_SUCCESS, s)
          else GopSetMode (fw env) gop mode s)"

definition gather_graphics_info :: "'f loader_env \<Rightarrow> BootInfo \<Rightarrow> 'f loader_state \<Rightarrow> EFI_STATUS \<times> BootInfo \<times> 'f loader_state" where
  "gather_graphics_info env b s =
     (case locate_graphics_output_protocol env s of (status, gop, s) \<Rightarrow>
        if EFI_ERROR status \<or> \<not> gop_ready (lmem s) gop then (status, b, s)
        else case select_graphics_mode env gop s of (status, s) \<Rightarrow>
          if EFI_ERROR status then (status, b, s)
          else if gop_Mode (lmem s) gop = 0 \<or> mode_Info (lmem s) (gop_Mode (lmem s) gop) = 0 then (1, b, s)
          else let m = lmem s; mode = gop_Mode m gop; gi = mode_Info m mode;
                 b = b\<lparr>framebuffer_base := mode_FrameBufferBase m mode, framebuffer_width := info_HorizontalResolution m gi,
                   framebuffer_height := info_VerticalResolution m gi,
                   framebuffer_pixels_per_scanline := info_PixelsPerScanLine m gi\<rparr>
            in if framebuffer_base b = 0 \<or> framebuffer_width b = 0 \<or> framebuffer_height b = 0 \<or>
                  framebuffer_pixels_per_scanline b < framebuffer_width b then (1, b, s)
               else case map_framebuffer_format m gi (framebuffer_format b) of (status, format) \<Rightarrow>
                 let b = b\<lparr>framebuffer_format := format\<rparr> in
                 if EFI_ERROR status then (1, b, s)
                 else (EFI_SUCCESS, b\<lparr>console_flags := console_flags b OR BOOTINFO_CONSOLE_FRAMEBUFFER\<rparr>, s))"

subsection \<open>The boot device\<close>

definition gather_block_info :: "'f loader_env \<Rightarrow> u64 \<Rightarrow> BootInfo \<Rightarrow> 'f loader_state \<Rightarrow> EFI_STATUS \<times> BootInfo \<times> 'f loader_state" where
  "gather_block_info env device b s =
     (case open_protocol env device gEfiBlockIoProtocolGuid s of (status, block_io, s) \<Rightarrow>
        if EFI_ERROR status \<or> block_io = 0 \<or> block_Media (lmem s) block_io = 0 then (status, b, s)
        else let media = block_Media (lmem s) block_io in
          (EFI_SUCCESS, b\<lparr>bytes_per_sector := ucast (media_BlockSize (lmem s) media),
             partition_sector_count := ucast (media_LastBlock (lmem s) media + 1)\<rparr>, s))"

definition loader_path_length :: "memory \<Rightarrow> u64 \<Rightarrow> u64" where
  "loader_path_length m node = ucast (m (node + 2)) OR push_bit 8 (ucast (m (node + 3)))"

definition loader_path_is_end :: "memory \<Rightarrow> u64 \<Rightarrow> bool" where
  "loader_path_is_end m node \<longleftrightarrow> m node = 0x7F \<and> m (node + 1) = 0xFF"

definition loader_next_node :: "memory \<Rightarrow> u64 \<Rightarrow> u64" where
  "loader_next_node m node = node + loader_path_length m node"

text \<open>The loop that adds up the nodes: where it stops and the size so far, or \<open>None\<close> inside when it returns 1.\<close>

partial_function (option) measure_path :: "memory \<Rightarrow> u64 \<Rightarrow> u64 \<Rightarrow> (u64 \<times> u64) option option" where
  "measure_path m node total_size =
     (if loader_path_is_end m node then Some (Some (node, total_size))
      else if loader_path_length m node < 4 then Some None
      else if total_size + loader_path_length m node > 128 then Some None
      else measure_path m (loader_next_node m node) (total_size + loader_path_length m node))"

definition copy_boot_device_path :: "memory \<Rightarrow> u64 \<Rightarrow> BootInfo \<Rightarrow> (EFI_STATUS \<times> BootInfo) option" where
  "copy_boot_device_path m device_path b =
     (if device_path = 0 then Some (1, b)
      else do {
        r \<leftarrow> measure_path m device_path 0;
        Some (case r of None \<Rightarrow> (1, b)
        | Some (node, total_size) \<Rightarrow>
            let total_size = total_size + loader_path_length m node in
            if total_size > 128 then (1, b)
            else (EFI_SUCCESS, b\<lparr>boot_device_path := map (\<lambda>i. m (device_path + of_nat i)) [0..<unat total_size] @
                    drop (unat total_size) (boot_device_path b), boot_device_path_size := ucast total_size\<rparr>)) })"

text \<open>\<open>sizeof (HardDriveDevicePath)\<close> is 42; the start of the partition is at offset 8.\<close>

partial_function (option) hard_drive_loop :: "memory \<Rightarrow> u64 \<Rightarrow> BootInfo \<Rightarrow> (EFI_STATUS \<times> BootInfo) option" where
  "hard_drive_loop m node b =
     (if loader_path_is_end m node then Some (EFI_SUCCESS, b)
      else if loader_path_length m node < 4 then Some (1, b)
      else if m node = 0x04 \<and> m (node + 1) = 0x01 \<and> loader_path_length m node \<ge> 42 then
        if mem_u64 m (node + 8) > 0xFFFFFFFF then Some (1, b)
        else hard_drive_loop m (loader_next_node m node) (b\<lparr>partition_lba_start := ucast (mem_u64 m (node + 8))\<rparr>)
      else hard_drive_loop m (loader_next_node m node) b)"

definition gather_boot_device_info ::
  "'f loader_env \<Rightarrow> u64 \<Rightarrow> BootInfo \<Rightarrow> 'f loader_state \<Rightarrow> (EFI_STATUS \<times> BootInfo \<times> 'f loader_state) option" where
  "gather_boot_device_info env device b s =
     (case open_protocol env device gEfiDevicePathProtocolGuid s of (status, device_path, s) \<Rightarrow>
        if EFI_ERROR status then Some (status, b, s)
        else if device_path = 0 then Some (1, b, s)
        else do {
          (status, b) \<leftarrow> copy_boot_device_path (lmem s) device_path (b\<lparr>partition_lba_start := 0\<rparr>);
          if EFI_ERROR status then Some (status, b, s)
          else do { (status, b) \<leftarrow> hard_drive_loop (lmem s) device_path b; Some (status, b, s) } })"

text \<open>The first entry of the configuration table with the GUID and a table.\<close>

definition find_table :: "'f loader_env \<Rightarrow> EFI_GUID \<Rightarrow> memory \<Rightarrow> u64 option" where
  "find_table env guid m =
     find (\<lambda>entry. guid_equal (guid_at m entry) guid \<and> mem_u64 m (entry + 16) \<noteq> 0)
       (map (\<lambda>i. st_ConfigurationTable m (g_st env) + of_nat i * 24) [0..<unat (st_NumberOfTableEntries m (g_st env))])"

definition gather_acpi_info :: "'f loader_env \<Rightarrow> BootInfo \<Rightarrow> memory \<Rightarrow> EFI_STATUS \<times> BootInfo" where
  "gather_acpi_info env b m =
     (if g_st env = 0 \<or> st_ConfigurationTable m (g_st env) = 0 then (1, b)
      else case find_table env gEfiAcpi20TableGuid m of
        Some entry \<Rightarrow> (EFI_SUCCESS, b\<lparr>acpi_rsdp := mem_u64 m (entry + 16), acpi_revision := 2\<rparr>)
      | None \<Rightarrow> (case find_table env gEfiAcpi10TableGuid m of
          Some entry \<Rightarrow> (EFI_SUCCESS, b\<lparr>acpi_rsdp := mem_u64 m (entry + 16), acpi_revision := 1\<rparr>)
        | None \<Rightarrow> (1, b)))"

subsection \<open>Leaving the firmware\<close>

text \<open>The loop with \<open>n\<close> attempts left; \<open>status\<close> is what the attempt before returned.\<close>

fun exit_attempts ::
  "'f loader_env \<Rightarrow> u64 \<Rightarrow> nat \<Rightarrow> EFI_STATUS \<Rightarrow> BootInfo \<Rightarrow> 'f loader_state \<Rightarrow> EFI_STATUS \<times> BootInfo \<times> 'f loader_state" where
  "exit_attempts env image_handle 0 status b s = (status, b, s)"
| "exit_attempts env image_handle (Suc n) status b s =
     (case GetMemoryMap (fw env) 131072 (g_memory_map_buffer env) s of (status, memory_map_size, map_key, d_size, d_version, s) \<Rightarrow>
        if status = EFI_BUFFER_TOO_SMALL then (status, b, s)
        else if EFI_ERROR status then (status, b, s)
        else let b = b\<lparr>memory_map := \<lparr>map_base = g_memory_map_buffer env, map_size = memory_map_size,
                   descriptor_size = ucast d_size, descriptor_version = d_version\<rparr>\<rparr>
          in case ExitBootServices (fw env) image_handle map_key s of (status, s) \<Rightarrow>
            if \<not> EFI_ERROR status then (status, b, s) else exit_attempts env image_handle n status b s)"

definition exit_boot_services_with_map ::
  "'f loader_env \<Rightarrow> u64 \<Rightarrow> BootInfo \<Rightarrow> 'f loader_state \<Rightarrow> EFI_STATUS \<times> BootInfo \<times> 'f loader_state" where
  "exit_boot_services_with_map env image_handle b s = exit_attempts env image_handle 8 EFI_SUCCESS b s"

text \<open>The loader returns to the firmware or jumps to the kernel with the boot information.\<close>

datatype 'f loader_outcome = Returned EFI_STATUS "'f loader_state" | Started u64 BootInfo "'f loader_state"

definition boot_info_zero :: BootInfo where
  "boot_info_zero = \<lparr>magic = 0, bytes_per_sector = 0, partition_lba_start = 0, partition_sector_count = 0, acpi_rsdp = 0,
     acpi_revision = 0, boot_device_path_size = 0, boot_device_path = replicate 128 0, console_flags = 0, screen_columns = 0,
     screen_rows = 0, framebuffer_base = 0, framebuffer_width = 0, framebuffer_height = 0, framebuffer_pixels_per_scanline = 0,
     framebuffer_format = 0, memory_map = \<lparr>map_base = 0, map_size = 0, descriptor_size = 0, descriptor_version = 0\<rparr>\<rparr>"

text \<open>From the allocation of the boot information on; \<open>sizeof (BootInfo)\<close> is 216.\<close>

definition fill_boot_info :: "'f loader_env \<Rightarrow> u64 \<Rightarrow> u64 \<Rightarrow> u64 \<Rightarrow> 'f loader_state \<Rightarrow> 'f loader_outcome option" where
  "fill_boot_info env image_handle boot_device kernel_entry s =
     (case AllocatePool (fw env) EfiLoaderData 216 s of (status, _, s) \<Rightarrow>
        if EFI_ERROR status then Some (Returned status s)
        else
          let s = puts16 env ''allocated bootinfo'' s;
              b = boot_info_zero\<lparr>magic := BOOTINFO_MAGIC, console_flags := BOOTINFO_CONSOLE_TEXT OR BOOTINFO_CONSOLE_VGA_TEXT\<rparr>
          in case query_console env 80 25 s of (status, columns, rows, s) \<Rightarrow>
          let b = (if \<not> EFI_ERROR status then b\<lparr>screen_columns := ucast columns, screen_rows := ucast rows\<rparr> else b)
          in case gather_graphics_info env b s of (status, b, s) \<Rightarrow>
          let b = (if \<not> EFI_ERROR status then b\<lparr>console_flags := console_flags b AND NOT BOOTINFO_CONSOLE_VGA_TEXT\<rparr> else b)
          in do {
            (status, b, s) \<leftarrow> gather_boot_device_info env boot_device b s;
            if EFI_ERROR status then Some (Returned status s)
            else case gather_block_info env boot_device b s of (status, b, s) \<Rightarrow>
              if EFI_ERROR status then Some (Returned status s)
              else
                let b = snd (gather_acpi_info env b (lmem s)); s = puts16 env ''gathered device info'' s
                in case exit_boot_services_with_map env image_handle b s of (status, b, s) \<Rightarrow>
                  Some (if EFI_ERROR status then Returned status s else Started kernel_entry b s) })"

definition efi_main :: "'f loader_env \<Rightarrow> u64 \<Rightarrow> 'f loader_state \<Rightarrow> 'f loader_outcome option" where
  "efi_main env image_handle s =
     (let s = puts16 env ''FunnyOS UEFI boot'' s in
      case open_protocol env image_handle gEfiLoadedImageProtocolGuid s of (status, loaded_image, s) \<Rightarrow>
        if EFI_ERROR status then Some (Returned status s)
        else let s = puts16 env ''loaded image'' s in
          if loaded_image = 0 \<or> image_DeviceHandle (lmem s) loaded_image = 0 then Some (Returned 1 s)
          else let boot_device = image_DeviceHandle (lmem s) loaded_image in
            case open_protocol env boot_device gEfiSimpleFileSystemProtocolGuid s of (status, filesystem, s) \<Rightarrow>
              if EFI_ERROR status then Some (Returned status s)
              else case OpenVolume (fw env) filesystem (puts16 env ''opened fs'' s) of (status, root, s) \<Rightarrow>
                if EFI_ERROR status then Some (Returned status s)
                else case read_file env root (CHR 0x5C # ''KERNEL.ELF'') (puts16 env ''opened volume'' s) of (status, kernel_image, kernel_size, s) \<Rightarrow>
                  if EFI_ERROR status then Some (Returned status (puts16 env ''Missing KERNEL.ELF'' s))
                  else case load_kernel_elf env kernel_image kernel_size 0 (puts16 env ''read kernel'' s) of (status, kernel_entry, s) \<Rightarrow>
                    if EFI_ERROR status then
                      Some (Returned 1 (puts16 env (if status = EFI_OUT_OF_RESOURCES then ''Kernel load address unavailable''
                        else ''Invalid kernel ELF'') s))
                    else fill_boot_info env image_handle boot_device kernel_entry (puts16 env ''loaded kernel'' s))"

subsection \<open>Copying and filling\<close>

lemma word_at: "n < 18446744073709551616 \<Longrightarrow> x = a + of_nat n \<longleftrightarrow> unat (x - a) = n" for x a :: u64
proof -
  assume n: "n < 18446744073709551616"
  have "x = a + of_nat n \<longleftrightarrow> x - a = of_nat n" by (auto simp: algebra_simps)
  also have "\<dots> \<longleftrightarrow> unat (x - a) = n" using n by (auto simp: word_unat_eq_iff unat_of_nat_u64)
  finally show ?thesis .
qed

lemma mem_set_at: "mem_set dst v sz m x = (if unat (x - dst) < unat sz then v else m x)"
proof -
  have "fold (\<lambda>i m. m(dst + of_nat i := v)) [0..<n] m x = (if unat (x - dst) < n then v else m x)" if "n \<le> unat sz" for n
    using that unat_u64_bound [of sz] by (induction n) (auto simp: word_at less_Suc_eq)
  then show ?thesis by (simp add: mem_set_def)
qed

lemma mem_copy_at:
  assumes "\<And>i j. i < unat sz \<Longrightarrow> j < unat sz \<Longrightarrow> dst + of_nat i \<noteq> src + of_nat j"
  shows "mem_copy dst src sz m x = (if unat (x - dst) < unat sz then m (src + (x - dst)) else m x)"
proof -
  have "fold (\<lambda>i m. m(dst + of_nat i := m (src + of_nat i))) [0..<n] m =
      (\<lambda>x. if unat (x - dst) < n then m (src + (x - dst)) else m x)" if "n \<le> unat sz" for n
    using that
  proof (induction n)
    case (Suc n)
    have "unat (src + of_nat n - dst) \<noteq> k" if "k < n" for k
      using assms [of k n] word_at [of k "src + of_nat n" dst] that Suc.prems unat_u64_bound [of sz] by auto
    then have "\<not> unat (src + of_nat n - dst) < n" by blast
    then show ?case
      using Suc word_at [of n _ dst] unat_u64_bound [of sz] by (auto simp: fun_eq_iff less_Suc_eq)
  qed simp
  then show ?thesis by (simp add: mem_copy_def)
qed

subsection \<open>The kernel's segments\<close>

text \<open>The bytes \<open>a\<close> to \<open>a + n - 1\<close>.\<close>

definition bytes_at :: "u64 \<Rightarrow> nat \<Rightarrow> u64 set" where
  "bytes_at a n = {x. unat a \<le> unat x \<and> unat x < unat a + n}"

definition segment_at :: "memory \<Rightarrow> u64 \<Rightarrow> nat \<Rightarrow> u64" where
  "segment_at m elf i = elf + elf_phoff m elf + of_nat i * 56"

definition loadable :: "memory \<Rightarrow> u64 \<Rightarrow> nat \<Rightarrow> bool" where
  "loadable m elf i \<longleftrightarrow> i < unat (elf_phnum m elf) \<and> seg_type m (segment_at m elf i) = PT_LOAD_SEGMENT"

text \<open>What UEFI promises of \<open>AllocatePages\<close>: pages it gives out were nobody's, and memory that has an owner keeps its
  contents.\<close>

definition pages_promise :: "'f loader_env \<Rightarrow> ('f \<Rightarrow> u64 set) \<Rightarrow> bool" where
  "pages_promise env owned \<longleftrightarrow> (\<forall>n a s status b t.
     AllocatePages (fw env) EFI_ALLOCATE_ADDRESS EfiLoaderData n a s = (status, b, t) \<longrightarrow>
       (\<forall>x \<in> owned (lfw s). lmem t x = lmem s x) \<and>
       (\<not> EFI_ERROR status \<longrightarrow> bytes_at a (unat n * 4096) \<inter> owned (lfw s) = {} \<and>
          owned (lfw t) = owned (lfw s) \<union> bytes_at a (unat n * 4096)))"

text \<open>What the code does not check of the file: the sums in its bounds checks do not wrap, and the segments lie below
  4 GiB, where the mask for the first page does not cut the address.\<close>

definition kernel_file_ok :: "memory \<Rightarrow> u64 \<Rightarrow> u64 \<Rightarrow> bool" where
  "kernel_file_ok m elf sz \<longleftrightarrow> unat elf + unat sz < 2 ^ 64 \<and>
     unat (elf_phoff m elf) + unat (elf_phnum m elf) * 56 < 2 ^ 64 \<and>
     (\<forall>i. loadable m elf i \<longrightarrow> (let p = segment_at m elf i in
        unat (seg_offset m p) + unat (seg_filesz m p) < 2 ^ 64 \<and> unat (seg_paddr m p) + unat (seg_memsz m p) \<le> 2 ^ 32))"

text \<open>Segment \<open>i\<close> of the file in \<open>m0\<close> is in its place in \<open>m\<close>: the bytes of the file, then zeros.\<close>

definition placed :: "memory \<Rightarrow> u64 \<Rightarrow> nat \<Rightarrow> memory \<Rightarrow> bool" where
  "placed m0 elf i m \<longleftrightarrow> (let p = segment_at m0 elf i in \<forall>k. unat k < unat (seg_memsz m0 p) \<longrightarrow>
     m (seg_paddr m0 p + k) = (if unat k < unat (seg_filesz m0 p) then m0 (elf + seg_offset m0 p + k) else 0))"

definition segment_bytes :: "memory \<Rightarrow> u64 \<Rightarrow> nat \<Rightarrow> u64 set" where
  "segment_bytes m elf i = bytes_at (seg_paddr m (segment_at m elf i)) (unat (seg_memsz m (segment_at m elf i)))"

lemma in_bytes_at: "unat a + n < 2 ^ 64 \<Longrightarrow> x \<in> bytes_at a n \<longleftrightarrow> unat (x - a) < n"
proof -
  assume n: "unat a + n < 2 ^ 64"
  have "unat x = unat a + unat (x - a)" if "unat (x - a) < n"
    using unat_add_small [of a "x - a"] that n by simp
  moreover have "unat (x - a) = unat x - unat a" if "unat a \<le> unat x" using that by (rule unat_diff_small)
  ultimately show ?thesis by (auto simp: bytes_at_def)
qed

definition agree :: "memory \<Rightarrow> memory \<Rightarrow> u64 \<Rightarrow> nat \<Rightarrow> bool" where
  "agree m m' a n \<longleftrightarrow> (\<forall>k. unat k < n \<longrightarrow> m (a + k) = m' (a + k))"

lemma header_cong:
  assumes "agree m m' elf 64"
  shows "elf_phnum m elf = elf_phnum m' elf" "elf_phentsize m elf = elf_phentsize m' elf" "elf_entry m elf = elf_entry m' elf"
    "elf_phoff m elf = elf_phoff m' elf"
  by (simp_all add: elf_phnum_def elf_phentsize_def elf_entry_def elf_phoff_def mem_u16_def mem_u32_def mem_u64_def assms [unfolded agree_def] add.assoc)

lemma segment_cong:
  assumes "agree m m' p 56"
  shows "seg_type m p = seg_type m' p" "seg_offset m p = seg_offset m' p" "seg_paddr m p = seg_paddr m' p"
    "seg_filesz m p = seg_filesz m' p" "seg_memsz m p = seg_memsz m' p"
  using assms [unfolded agree_def, rule_format, of 0]
  by (simp_all add: seg_type_def seg_offset_def seg_paddr_def seg_filesz_def seg_memsz_def mem_u32_def mem_u64_def assms [unfolded agree_def] add.assoc)

lemma round_up_ge: "v \<le> (v + 4095) div 4096 * (4096 :: nat)"
proof -
  have "v + 4095 = (v + 4095) div 4096 * 4096 + (v + 4095) mod 4096" by simp
  moreover have "(v + 4095) mod 4096 < 4096" by simp
  ultimately show ?thesis by linarith
qed

text \<open>The pages taken for a segment below 4 GiB contain it.\<close>

lemma segment_pages:
  assumes "unat paddr + unat memsz \<le> 2 ^ 32"
  shows "bytes_at paddr (unat memsz) \<subseteq>
    bytes_at (paddr AND 0xFFFFF000) (unat (loader_align_up (memsz + (paddr AND 0xFFF)) 4096 div 4096) * 4096)"
proof -
  have low: "take_bit 32 paddr = paddr \<or> unat memsz = 0"
    using assms by (cases "unat memsz = 0") (auto simp: word_unat_eq_iff unsigned_take_bit_eq intro!: take_bit_nat_eq_self)
  show ?thesis
  proof (cases "unat memsz = 0")
    case False
    have m: "(0xFFFFF000 :: u64) = mask 32 AND NOT (mask 12)" by (simp add: mask_eq_exp_minus_1)
    have "paddr AND 0xFFFFF000 = take_bit 32 paddr AND NOT (mask 12)"
      unfolding m by (simp add: take_bit_eq_mask and.assoc)
    then have "paddr AND 0xFFFFF000 = align_down_uintptr paddr PAGE_SIZE"
      using low False by (simp add: align_down_uintptr_def PAGE_SIZE_def mask_eq_exp_minus_1)
    then have base: "unat (paddr AND 0xFFFFF000) = unat paddr div 4096 * 4096" by (simp add: unat_align_down)
    have "paddr AND 0xFFF = take_bit 12 paddr" by (simp add: take_bit_eq_mask mask_eq_exp_minus_1)
    then have off: "unat (paddr AND 0xFFF) = unat paddr mod 4096" by (simp add: unsigned_take_bit_eq) (simp add: take_bit_eq_mod)
    have sum: "unat (memsz + (paddr AND 0xFFF)) = unat memsz + unat paddr mod 4096"
      using off assms by (simp add: unat_add_small)
    have "loader_align_up v 4096 = align_up_uintptr v PAGE_SIZE" for v
      by (simp add: loader_align_up_def align_up_uintptr_def PAGE_SIZE_def)
    moreover have "unat memsz + unat paddr mod 4096 + 4095 < 2 ^ 64" using assms by simp
    ultimately have "unat (loader_align_up (memsz + (paddr AND 0xFFF)) 4096) = (unat memsz + unat paddr mod 4096 + 4095) div 4096 * 4096"
      using unat_align_up [of "memsz + (paddr AND 0xFFF)"] sum by simp
    then have "unat (loader_align_up (memsz + (paddr AND 0xFFF)) 4096 div 4096) * 4096 = (unat memsz + unat paddr mod 4096 + 4095) div 4096 * 4096"
      by (simp add: unat_div_distrib)
    then have pages: "unat memsz + unat paddr mod 4096 \<le>
        unat (loader_align_up (memsz + (paddr AND 0xFFF)) 4096 div 4096) * 4096"
      using round_up_ge [of "unat memsz + unat paddr mod 4096"] by (simp only:)
    have parts: "unat paddr = unat paddr div 4096 * 4096 + unat paddr mod 4096" by simp
    have "unat paddr + unat memsz = unat (paddr AND 0xFFFFF000) + (unat memsz + unat paddr mod 4096)"
      unfolding base by (subst parts) (simp only: ac_simps)
    also have "\<dots> \<le> unat (paddr AND 0xFFFFF000) +
        unat (loader_align_up (memsz + (paddr AND 0xFFF)) 4096 div 4096) * 4096"
      using pages by (rule add_left_mono)
    finally have "unat paddr + unat memsz \<le> unat (paddr AND 0xFFFFF000) +
        unat (loader_align_up (memsz + (paddr AND 0xFFF)) 4096 div 4096) * 4096" .
    moreover have "unat (paddr AND 0xFFFFF000) \<le> unat paddr" unfolding base by simp
    ultimately show ?thesis unfolding bytes_at_def by auto
  qed (auto simp: bytes_at_def)
qed

text \<open>After the segments before \<open>i\<close>: memory that had an owner is as it was, they are in their places, and their pages
  belong to the loader.\<close>

definition segments_loaded :: "('f \<Rightarrow> u64 set) \<Rightarrow> u64 \<Rightarrow> 'f loader_state \<Rightarrow> nat \<Rightarrow> 'f loader_state \<Rightarrow> bool" where
  "segments_loaded owned elf s i t \<longleftrightarrow> owned (lfw s) \<subseteq> owned (lfw t) \<and> (\<forall>x \<in> owned (lfw s). lmem t x = lmem s x) \<and>
     (\<forall>j < i. loadable (lmem s) elf j \<longrightarrow> placed (lmem s) elf j (lmem t) \<and> segment_bytes (lmem s) elf j \<subseteq> owned (lfw t))"

lemma load_segments_places:
  fixes s0 :: "'f loader_state"
  assumes P: "pages_promise env owned" and kfile: "bytes_at elf (unat sz) \<subseteq> owned (lfw s0)" and ok: "kernel_file_ok (lmem s0) elf sz"
    and table: "64 \<le> unat sz" "elf_phentsize (lmem s0) elf = 56" "unat (elf_phoff (lmem s0) elf) + unat (elf_phnum (lmem s0) elf) * 56 \<le> unat sz"
    and inv: "segments_loaded owned elf s0 i s"
    and run: "load_program_headers env elf sz (elf + elf_phoff (lmem s0) elf) i s = (status, t)"
  shows "(\<forall>x \<in> owned (lfw s0). lmem t x = lmem s0 x) \<and>
    (status = EFI_SUCCESS \<longrightarrow> segments_loaded owned elf s0 (unat (elf_phnum (lmem s0) elf)) t)"
  using inv run
proof (induction "unat (elf_phnum (lmem s0) elf) - i" arbitrary: i s)
  case (0 i s)
  have same: "lmem s x = lmem s0 x" if "x \<in> owned (lfw s0)" for x using 0(2) that by (simp add: segments_loaded_def)
  have size: "unat elf + unat sz < 2 ^ 64" using ok by (simp add: kernel_file_ok_def)
  have "elf + k \<in> owned (lfw s0)" if "unat k < 64" for k
    using that kfile in_bytes_at [OF size, of "elf + k"] table(1) by auto
  then have "agree (lmem s) (lmem s0) elf 64" using same by (simp add: agree_def)
  note header = header_cong [OF this]
  have "t = s" "status = EFI_SUCCESS" using 0(1,3) header(1) by (simp_all add: load_program_headers.simps [of env elf sz _ i s])
  then show ?case using 0(1,2) same by (auto simp: segments_loaded_def)
next
  case (Suc n i s)
  let ?orig = "lmem s0" and ?m = "lmem s"
  let ?p = "segment_at ?orig elf i"
  have same: "?m x = ?orig x" if "x \<in> owned (lfw s0)" for x using Suc.prems(1) that by (simp add: segments_loaded_def)
  have size: "unat elf + unat sz < 2 ^ 64" using ok by (simp add: kernel_file_ok_def)
  have in_file: "elf + k \<in> owned (lfw s0)" if "unat k < unat sz" for k
    using that kfile in_bytes_at [OF size, of "elf + k"] by auto
  have "agree ?m ?orig elf 64" using in_file same table(1) by (simp add: agree_def)
  note header = header_cong [OF this]
  have i: "i < unat (elf_phnum ?orig elf)" using Suc.hyps(2) by simp
  have at: "elf + elf_phoff ?orig elf + of_nat i * ucast (elf_phentsize ?m elf) = ?p"
    unfolding header(2) table(2) by (simp add: segment_at_def)
  have phdr: "?p + k \<in> owned (lfw s0)" if "unat k < 56" for k
  proof -
    have "unat (of_nat i * 56 :: u64) = i * 56"
      using i unat_u16_bound [of "elf_phnum ?orig elf"] by (simp add: unat_word_ariths unat_of_nat_u64)
    moreover have "i * 56 + 56 \<le> unat (elf_phnum ?orig elf) * 56" using i by simp
    ultimately have "unat (elf_phoff ?orig elf + of_nat i * 56 + k) < unat sz"
      using table(3) that unat_u64_bound [of sz] by (simp add: unat_add_small)
    from in_file [OF this] show ?thesis by (simp add: segment_at_def add.assoc)
  qed
  have "agree ?m ?orig ?p 56" using same [OF phdr] by (simp add: agree_def)
  note seg = segment_cong [OF this]
  have step: "\<not> unat (elf_phnum ?m elf) \<le> i" using header(1) i by simp
  have n: "n = unat (elf_phnum ?orig elf) - Suc i" using Suc.hyps(2) by simp
  note run = Suc.prems(2) [unfolded load_program_headers.simps [of _ _ _ _ i] Let_def at seg, simplified step if_False]
  show ?case
  proof (cases "seg_type ?orig ?p = PT_LOAD_SEGMENT")
    case False
    then have "segments_loaded owned elf s0 (Suc i) s"
      using Suc.prems(1) by (auto simp: segments_loaded_def loadable_def less_Suc_eq)
    then show ?thesis using Suc.hyps(1) [OF n] run False by simp
  next
    case load: True
    let ?paddr = "seg_paddr ?orig ?p" and ?memsz = "seg_memsz ?orig ?p" and ?filesz = "seg_filesz ?orig ?p" and ?off = "seg_offset ?orig ?p"
    have is_load: "loadable ?orig elf i" using i load by (simp add: loadable_def)
    have b: "unat ?off + unat ?filesz < 2 ^ 64" "unat ?paddr + unat ?memsz \<le> 2 ^ 32"
      using ok is_load by (auto simp: kernel_file_ok_def Let_def)
    show ?thesis
    proof (cases "?off + ?filesz > sz \<or> ?filesz > ?memsz")
      case True
      then show ?thesis using run load same by (auto simp: EFI_SUCCESS_def)
    next
      case False
      let ?base = "?paddr AND 0xFFFFF000" and ?pages = "loader_align_up (?memsz + (?paddr AND 0xFFF)) 4096 div 4096"
      obtain st c u where alloc: "AllocatePages (fw env) EFI_ALLOCATE_ADDRESS EfiLoaderData ?pages ?base s = (st, c, u)" by (cases "AllocatePages (fw env) EFI_ALLOCATE_ADDRESS EfiLoaderData ?pages ?base s") auto
      have u: "\<And>x. x \<in> owned (lfw s) \<Longrightarrow> lmem u x = ?m x"
        "\<not> EFI_ERROR st \<Longrightarrow> bytes_at ?base (unat ?pages * 4096) \<inter> owned (lfw s) = {} \<and> owned (lfw u) = owned (lfw s) \<union> bytes_at ?base (unat ?pages * 4096)"
        using P alloc unfolding pages_promise_def by blast+
      have sub: "owned (lfw s0) \<subseteq> owned (lfw s)" using Suc.prems(1) by (simp add: segments_loaded_def)
      have u0: "lmem u x = ?orig x" if "x \<in> owned (lfw s0)" for x using u(1) same sub that by auto
      show ?thesis
      proof (cases "EFI_ERROR st")
        case True
        then show ?thesis using run load False alloc u0 by (auto simp: EFI_SUCCESS_def EFI_OUT_OF_RESOURCES_def)
      next
        case good: False
        let ?S = "bytes_at ?paddr (unat ?memsz)"
        have fit: "unat ?paddr + unat ?memsz < 2 ^ 64" using b(2) by simp
        have apart: "?S \<inter> owned (lfw s) = {}" "?S \<subseteq> owned (lfw u)" "owned (lfw s) \<subseteq> owned (lfw u)"
          using u(2) [OF good] segment_pages [OF b(2)] by auto
        have filesz: "unat ?filesz \<le> unat ?memsz" "unat ?off + unat ?filesz \<le> unat sz"
          using False b(1) by (simp_all add: word_le_nat_alt not_less word_less_nat_alt unat_add_small)
        have "agree (lmem u) ?orig ?p 56" using u0 [OF phdr] by (simp add: agree_def)
        note seg_u = segment_cong [OF this]
        define m1 where "m1 = mem_set ?paddr 0 ?memsz (lmem u)"
        have m1: "m1 x = (if x \<in> ?S then 0 else lmem u x)" for x by (simp add: m1_def mem_set_at in_bytes_at [OF fit])
        have m1_file: "m1 x = ?orig x" if "x \<in> owned (lfw s0)" for x using m1 u0 apart(1) sub that by auto
        have "agree m1 ?orig ?p 56" using m1_file [OF phdr] by (simp add: agree_def)
        note seg_1 = segment_cong [OF this]
        define m2 where "m2 = mem_copy ?paddr (elf + ?off) ?filesz m1"
        have src: "elf + ?off + k \<in> owned (lfw s0)" if "unat k < unat ?filesz" for k
          using in_file [of "?off + k"] that filesz(2) unat_u64_bound [of sz] by (simp add: add.assoc unat_add_small)
        have dst: "?paddr + k \<in> ?S" if "unat k < unat ?memsz" for k using that by (simp add: in_bytes_at [OF fit])
        have m2: "m2 x = (if unat (x - ?paddr) < unat ?filesz then m1 (elf + ?off + (x - ?paddr)) else m1 x)" for x
          unfolding m2_def
        proof (rule mem_copy_at)
          fix a c assume ac: "a < unat ?filesz" "c < unat ?filesz"
          then have "unat (of_nat a :: u64) = a" "unat (of_nat c :: u64) = c" using unat_u64_bound [of ?filesz] by (simp_all add: unat_of_nat_u64)
          then have "?paddr + of_nat a \<in> ?S" "elf + ?off + of_nat c \<in> owned (lfw s0)"
            using dst [of "of_nat a"] src [of "of_nat c"] ac filesz(1) by simp_all
          then show "?paddr + of_nat a \<noteq> elf + ?off + of_nat c" using apart(1) sub by auto
        qed
        have keep: "m2 x = ?m x" if "x \<in> owned (lfw s)" for x
        proof -
          have "x \<notin> ?S" using apart(1) that by blast
          then show ?thesis using m2 m1 u(1) [OF that] filesz(1) by (simp add: in_bytes_at [OF fit])
        qed
        let ?s = "u\<lparr>lmem := m2\<rparr>"
        have old: "placed ?orig elf j m2 \<and> segment_bytes ?orig elf j \<subseteq> owned (lfw u)" if j: "j < i" "loadable ?orig elf j" for j
        proof -
          have p: "placed ?orig elf j ?m" "segment_bytes ?orig elf j \<subseteq> owned (lfw s)" using Suc.prems(1) j by (simp_all add: segments_loaded_def)
          let ?q = "segment_at ?orig elf j"
          have "unat (seg_paddr ?orig ?q) + unat (seg_memsz ?orig ?q) < 2 ^ 64" using ok j(2) by (auto simp: kernel_file_ok_def Let_def)
          from in_bytes_at [OF this] have "seg_paddr ?orig ?q + k \<in> owned (lfw s)" if "unat k < unat (seg_memsz ?orig ?q)" for k
            using p(2) that by (auto simp: segment_bytes_def)
          then have "placed ?orig elf j m2" using p(1) keep unfolding placed_def Let_def by simp
          then show ?thesis using p(2) apart(3) by blast
        qed
        have new: "placed ?orig elf i m2"
          unfolding placed_def Let_def
        proof (intro allI impI)
          fix k :: u64 assume k: "unat k < unat ?memsz"
          show "m2 (?paddr + k) = (if unat k < unat ?filesz then ?orig (elf + ?off + k) else 0)"
            using m2 [of "?paddr + k"] m1 [of "?paddr + k"] dst [OF k] m1_file [OF src] by simp
        qed
        have "segments_loaded owned elf s0 (Suc i) ?s"
          using old new apart keep same sub by (auto simp: segments_loaded_def less_Suc_eq segment_bytes_def)
        moreover have "load_program_headers env elf sz (elf + elf_phoff ?orig elf) (Suc i) ?s = (status, t)"
          using run load False alloc good by (simp add: seg_u seg_1 m1_def [symmetric] m2_def [symmetric])
        ultimately show ?thesis using Suc.hyps(1) [OF n] by blast
      qed
    qed
  qed
qed


subsection \<open>What the kernel is given\<close>

text \<open>A device path ends, or has a node too short to be one.\<close>

inductive path_ends :: "memory \<Rightarrow> u64 \<Rightarrow> bool" for m where
  at_end: "loader_path_is_end m node \<Longrightarrow> path_ends m node"
| short: "loader_path_length m node < 4 \<Longrightarrow> path_ends m node"
| more: "path_ends m (loader_next_node m node) \<Longrightarrow> path_ends m node"

lemma measure_path_returns: "path_ends m node \<Longrightarrow> \<exists>r. measure_path m node n = Some r"
  by (induction arbitrary: n rule: path_ends.induct) (subst measure_path.simps, simp)+

lemma hard_drive_returns: "path_ends m node \<Longrightarrow> \<exists>status lba. hard_drive_loop m node b = Some (status, b\<lparr>partition_lba_start := lba\<rparr>)"
proof (induction arbitrary: b rule: path_ends.induct)
  case (at_end node)
  then show ?case by (subst hard_drive_loop.simps) (auto intro!: exI [of _ "partition_lba_start b"])
next
  case (short node)
  then show ?case by (subst hard_drive_loop.simps) (auto intro!: exI [of _ "partition_lba_start b"])
next
  case (more node)
  have "\<exists>status lba. hard_drive_loop m (loader_next_node m node) (b\<lparr>partition_lba_start := x\<rparr>) = Some (status, b\<lparr>partition_lba_start := lba\<rparr>)" for x
    using more.IH [of "b\<lparr>partition_lba_start := x\<rparr>"] by simp
  then show ?case using more.IH [of b] by (subst hard_drive_loop.simps) (auto intro: exI [of _ "partition_lba_start b"])
qed

definition firmware_promise :: "'f loader_env \<Rightarrow> bool" where
  "firmware_promise env \<longleftrightarrow>
     (\<forall>handle s status p t. HandleProtocol (fw env) handle gEfiDevicePathProtocolGuid s = (status, p, t) \<and> \<not> EFI_ERROR status \<and> p \<noteq> 0 \<longrightarrow>
        path_ends (lmem t) p) \<and>
     (\<forall>sz buf s status n key d v t. GetMemoryMap (fw env) sz buf s = (status, n, key, d, v, t) \<longrightarrow> EFI_ERROR status \<or> status = EFI_SUCCESS)"

text \<open>The boot information the kernel can rely on: never both screens, a framebuffer only with its whole description, and a
  device path that fits its array.\<close>

definition info_ok :: "BootInfo \<Rightarrow> bool" where
  "info_ok b \<longleftrightarrow> magic b = BOOTINFO_MAGIC \<and>
     (console_flags b AND BOOTINFO_CONSOLE_VGA_TEXT = 0 \<or> console_flags b AND BOOTINFO_CONSOLE_FRAMEBUFFER = 0) \<and>
     (console_flags b AND BOOTINFO_CONSOLE_FRAMEBUFFER \<noteq> 0 \<longrightarrow> framebuffer_base b \<noteq> 0 \<and> framebuffer_width b \<noteq> 0 \<and>
        framebuffer_height b \<noteq> 0 \<and> framebuffer_width b \<le> framebuffer_pixels_per_scanline b) \<and>
     length (boot_device_path b) = 128 \<and> unat (boot_device_path_size b) \<le> 128"

text \<open>The firmware accepted the key of the very map the boot information names.\<close>

definition handed_over :: "'f loader_env \<Rightarrow> u64 \<Rightarrow> BootInfo \<Rightarrow> 'f loader_state \<Rightarrow> bool" where
  "handed_over env image_handle b t \<longleftrightarrow> (\<exists>u v key n d version status.
     GetMemoryMap (fw env) 131072 (g_memory_map_buffer env) u = (EFI_SUCCESS, n, key, d, version, v) \<and>
     ExitBootServices (fw env) image_handle key v = (status, t) \<and> \<not> EFI_ERROR status \<and>
     memory_map b = \<lparr>map_base = g_memory_map_buffer env, map_size = n, descriptor_size = ucast d, descriptor_version = version\<rparr>)"

lemma exit_attempts_hand_over:
  assumes "firmware_promise env" and "exit_attempts env image_handle n status0 b s = (status, b', t)" and "n \<noteq> 0" and "\<not> EFI_ERROR status"
  shows "handed_over env image_handle b' t \<and> (\<exists>mp. b' = b\<lparr>memory_map := mp\<rparr>)"
  using assms(2-)
proof (induction n arbitrary: status0 b s)
  case (Suc n)
  obtain st size key d version u where map: "GetMemoryMap (fw env) 131072 (g_memory_map_buffer env) s = (st, size, key, d, version, u)"
    by (cases "GetMemoryMap (fw env) 131072 (g_memory_map_buffer env) s") auto
  have st: "EFI_ERROR st \<or> st = EFI_SUCCESS" using assms(1) map unfolding firmware_promise_def by blast
  let ?b = "b\<lparr>memory_map := \<lparr>map_base = g_memory_map_buffer env, map_size = size, descriptor_size = ucast d, descriptor_version = version\<rparr>\<rparr>"
  obtain st2 v where leave: "ExitBootServices (fw env) image_handle key u = (st2, v)" by fastforce
  have five: "\<not> EFI_ERROR EFI_BUFFER_TOO_SMALL" "EFI_SUCCESS \<noteq> EFI_BUFFER_TOO_SMALL"
    by (simp_all add: EFI_ERROR_def EFI_BUFFER_TOO_SMALL_def EFI_SUCCESS_def)
  have ok: "st = EFI_SUCCESS" using Suc.prems map st five by (auto split: if_splits)
  have noerr: "\<not> EFI_ERROR EFI_SUCCESS" by (simp add: EFI_ERROR_def EFI_SUCCESS_def)
  show ?case
  proof (cases "EFI_ERROR st2")
    case False
    then have "status = st2" "b' = ?b" "t = v" using Suc.prems(1) map ok leave five noerr by (simp_all add: Let_def)
    moreover have "handed_over env image_handle ?b v"
      unfolding handed_over_def using map ok leave False
      by (intro exI [of _ s] exI [of _ u] exI [of _ key] exI [of _ size] exI [of _ d] exI [of _ version] exI [of _ st2]) simp
    ultimately show ?thesis by auto
  next
    case True
    then have again: "exit_attempts env image_handle n st2 ?b v = (status, b', t)"
      using Suc.prems(1) map ok leave five noerr by (simp add: Let_def)
    then have "n \<noteq> 0" using True Suc.prems(3) by (cases n) auto
    from Suc.IH [OF again this Suc.prems(3)] show ?thesis by auto
  qed
qed simp

lemma graphics_fields:
  assumes "gather_graphics_info env b s = (status, b', t)"
  shows "magic b' = magic b" "boot_device_path b' = boot_device_path b" "boot_device_path_size b' = boot_device_path_size b"
    "console_flags b' = console_flags b \<or> \<not> EFI_ERROR status \<and> console_flags b' = console_flags b OR BOOTINFO_CONSOLE_FRAMEBUFFER \<and>
       framebuffer_base b' \<noteq> 0 \<and> framebuffer_width b' \<noteq> 0 \<and> framebuffer_height b' \<noteq> 0 \<and>
       framebuffer_width b' \<le> framebuffer_pixels_per_scanline b'"
  using assms by (auto simp: gather_graphics_info_def Let_def EFI_ERROR_def EFI_SUCCESS_def split: prod.splits if_splits)

lemma boot_device_fields:
  assumes "firmware_promise env" and "info_ok b"
  shows "\<exists>status b' t. gather_boot_device_info env device b s = Some (status, b', t) \<and> info_ok b'"
proof -
  obtain st p u where open_p: "open_protocol env device gEfiDevicePathProtocolGuid s = (st, p, u)"
    by (cases "open_protocol env device gEfiDevicePathProtocolGuid s") auto
  show ?thesis
  proof (cases "EFI_ERROR st \<or> p = 0")
    case True
    then show ?thesis using open_p assms(2) by (auto simp: gather_boot_device_info_def)
  next
    case False
    then have ends: "path_ends (lmem u) p"
      using assms(1) open_p unfolding firmware_promise_def open_protocol_def by blast
    have zero: "info_ok (c\<lparr>partition_lba_start := x\<rparr>) = info_ok c" for c x by (simp add: info_ok_def)
    obtain st2 b2 where copy: "copy_boot_device_path (lmem u) p (b\<lparr>partition_lba_start := 0\<rparr>) = Some (st2, b2)" "info_ok b2"
    proof -
      obtain r where r: "measure_path (lmem u) p 0 = Some r" using measure_path_returns [OF ends] by blast
      have path_ok: "info_ok (b\<lparr>partition_lba_start := 0, boot_device_path := map f [0..<unat total] @ drop (unat total) (boot_device_path b),
          boot_device_path_size := ucast total\<rparr>)" if "\<not> total > 128" for f and total :: u64
        using that assms(2) by (simp add: info_ok_def not_less word_le_nat_alt unsigned_ucast_eq take_bit_nat_eq_self)
      have c: "copy_boot_device_path (lmem u) p (b\<lparr>partition_lba_start := 0\<rparr>) = Some (case r of None \<Rightarrow> (1, b\<lparr>partition_lba_start := 0\<rparr>)
          | Some (node, n) \<Rightarrow> let total = n + loader_path_length (lmem u) node in
              if total > 128 then (1, b\<lparr>partition_lba_start := 0\<rparr>)
              else (EFI_SUCCESS, b\<lparr>partition_lba_start := 0, boot_device_path := map (\<lambda>i. lmem u (p + of_nat i)) [0..<unat total] @
                drop (unat total) (boot_device_path b), boot_device_path_size := ucast total\<rparr>))"
        using r False by (cases r) (auto simp: copy_boot_device_path_def Let_def)
      show thesis
      proof (cases r)
        case None
        then have "copy_boot_device_path (lmem u) p (b\<lparr>partition_lba_start := 0\<rparr>) = Some (1, b\<lparr>partition_lba_start := 0\<rparr>)"
          using c by simp
        then show ?thesis by (rule that) (simp add: zero assms(2))
      next
        case (Some q)
        obtain node n where q: "q = (node, n)" by fastforce
        show ?thesis
        proof (cases "n + loader_path_length (lmem u) node > 128")
          case True
          then have "copy_boot_device_path (lmem u) p (b\<lparr>partition_lba_start := 0\<rparr>) = Some (1, b\<lparr>partition_lba_start := 0\<rparr>)"
            using c Some q by (simp add: Let_def)
          then show ?thesis by (rule that) (simp add: zero assms(2))
        next
          case fits: False
          have "copy_boot_device_path (lmem u) p (b\<lparr>partition_lba_start := 0\<rparr>) = Some (EFI_SUCCESS,
              b\<lparr>partition_lba_start := 0, boot_device_path := map (\<lambda>i. lmem u (p + of_nat i)) [0..<unat (n + loader_path_length (lmem u) node)] @
                drop (unat (n + loader_path_length (lmem u) node)) (boot_device_path b),
                boot_device_path_size := ucast (n + loader_path_length (lmem u) node)\<rparr>)"
            using c Some q fits by (simp add: Let_def)
          then show ?thesis by (rule that) (rule path_ok [OF fits])
        qed
      qed
    qed
    obtain st3 lba where "hard_drive_loop (lmem u) p b2 = Some (st3, b2\<lparr>partition_lba_start := lba\<rparr>)"
      using hard_drive_returns [OF ends] by blast
    then show ?thesis using open_p False copy zero by (auto simp: gather_boot_device_info_def)
  qed
qed

lemma fill_boot_info_hands_over:
  assumes "firmware_promise env"
  shows "\<exists>out. fill_boot_info env image_handle device entry s = Some out \<and>
    (case out of Returned _ _ \<Rightarrow> True | Started e b t \<Rightarrow> e = entry \<and> info_ok b \<and> handed_over env image_handle b t)"
proof -
  obtain st p s1 where pool: "AllocatePool (fw env) EfiLoaderData 216 s = (st, p, s1)" by (cases "AllocatePool (fw env) EfiLoaderData 216 s") auto
  let ?s1 = "puts16 env ''allocated bootinfo'' s1"
    and ?b = "boot_info_zero\<lparr>magic := BOOTINFO_MAGIC, console_flags := BOOTINFO_CONSOLE_TEXT OR BOOTINFO_CONSOLE_VGA_TEXT\<rparr>"
  obtain st2 cols rows s2 where con: "query_console env 80 25 ?s1 = (st2, cols, rows, s2)" by (cases "query_console env 80 25 ?s1") auto
  let ?b2 = "if \<not> EFI_ERROR st2 then ?b\<lparr>screen_columns := ucast cols, screen_rows := ucast rows\<rparr> else ?b"
  obtain st3 b3 s3 where gop: "gather_graphics_info env ?b2 s2 = (st3, b3, s3)" by (cases "gather_graphics_info env ?b2 s2") auto
  let ?b3 = "if \<not> EFI_ERROR st3 then b3\<lparr>console_flags := console_flags b3 AND NOT BOOTINFO_CONSOLE_VGA_TEXT\<rparr> else b3"
  have ok3: "info_ok ?b3"
    using graphics_fields [OF gop]
    by (auto simp: info_ok_def boot_info_zero_def BOOTINFO_CONSOLE_TEXT_def BOOTINFO_CONSOLE_VGA_TEXT_def BOOTINFO_CONSOLE_FRAMEBUFFER_def)
  obtain st4 b4 s4 where dev: "gather_boot_device_info env device ?b3 s3 = Some (st4, b4, s4)" "info_ok b4"
    using boot_device_fields [OF assms ok3] by blast
  obtain st5 b5 s5 where blk: "gather_block_info env device b4 s4 = (st5, b5, s5)" by (cases "gather_block_info env device b4 s4") auto
  have ok5: "info_ok b5" using dev(2) blk by (auto simp: gather_block_info_def info_ok_def Let_def split: prod.splits if_splits)
  let ?b6 = "snd (gather_acpi_info env b5 (lmem s5))" and ?s6 = "puts16 env ''gathered device info'' s5"
  have ok6: "info_ok ?b6" using ok5 by (simp add: gather_acpi_info_def info_ok_def split: option.splits)
  obtain st7 b7 s7 where leave: "exit_boot_services_with_map env image_handle ?b6 ?s6 = (st7, b7, s7)"
    by (cases "exit_boot_services_with_map env image_handle ?b6 ?s6") auto
  have "handed_over env image_handle b7 s7 \<and> info_ok b7" if "\<not> EFI_ERROR st7"
    using exit_attempts_hand_over [OF assms leave [unfolded exit_boot_services_with_map_def] _ that] ok6 by (auto simp: info_ok_def)
  then show ?thesis
    using pool con gop dev(1) blk leave by (simp add: fill_boot_info_def Let_def)
qed


text \<open>The statuses the loader's own functions report are not errors in the sense of \<open>EFI_ERROR\<close>, so \<open>efi_main\<close> goes on
  after a kernel file it has refused, and then jumps to address 0.\<close>

lemma load_kernel_elf_no_error:
  "\<not> EFI_ERROR (fst (load_kernel_elf env elf sz entry s))"
proof -
  have one: "\<not> EFI_ERROR 1" "\<not> EFI_ERROR EFI_SUCCESS" "\<not> EFI_ERROR EFI_OUT_OF_RESOURCES"
    by (simp_all add: EFI_ERROR_def EFI_SUCCESS_def EFI_OUT_OF_RESOURCES_def)
  have "\<not> EFI_ERROR (fst (load_program_headers env elf sz ph i s))" for ph i s
  proof (induction env elf sz ph i s rule: load_program_headers.induct)
    case (1 env elf sz ph i s)
    show ?case by (subst load_program_headers.simps) (auto simp: Let_def one 1 split: prod.splits)
  qed
  from this [of "elf + elf_phoff (lmem s) elf" 0 s] show ?thesis by (auto simp: load_kernel_elf_def Let_def one split: prod.splits)
qed

subsection \<open>A firmware with one disk\<close>

definition demo_kernel_file :: bytes where
  "demo_kernel_file =
    [127, 69, 76, 70, 2, 1, 1, 0, 0, 0, 0, 0, 0, 0, 0, 0, 2, 0, 62, 0, 1, 0, 0, 0, 0, 0, 16, 0, 0, 0, 0,
     0, 64, 0, 0, 0, 0, 0, 0, 0, 0, 0, 0, 0, 0, 0, 0, 0, 0, 0, 0, 0, 64, 0, 56, 0, 1, 0, 0, 0, 0, 0,
     0, 0, 1, 0, 0, 0, 5, 0, 0, 0, 120, 0, 0, 0, 0, 0, 0, 0, 0, 0, 16, 0, 0, 0, 0, 0, 0, 0, 16, 0, 0,
     0, 0, 0, 4, 0, 0, 0, 0, 0, 0, 0, 8, 0, 0, 0, 0, 0, 0, 0, 0, 16, 0, 0, 0, 0, 0, 0, 244, 235, 253, 144]"

definition with_bytes :: "u64 \<Rightarrow> bytes \<Rightarrow> memory \<Rightarrow> memory" where
  "with_bytes a bs m x = (if a \<le> x \<and> x < a + of_nat (length bs) then bs ! unat (x - a) else m x)"

text \<open>The firmware's state is the end of the pages given out; the pool lies below them.\<close>

definition demo_uefi :: "nat firmware" where
  "demo_uefi = (let failure = 0x8000000000000003 in
     \<lparr>OutputString = (\<lambda>text s. s), QueryTextMode = (\<lambda>mode s. (0, 80, 25, s)),
     AllocatePages = (\<lambda>t m n a s. if unat a = lfw s then (0, a, s\<lparr>lfw := lfw s + unat n * 4096\<rparr>) else (failure, a, s)),
     GetMemoryMap = (\<lambda>sz buf s. (0, 40, 7, 40, 1, s)),
     AllocatePool = (\<lambda>t n s. (0, if n = FILE_INFO_SIZE then 0x8000 else 0x9000, s)), FreePool = (\<lambda>p s. s),
     HandleProtocol = (\<lambda>h guid s.
       if guid = gEfiLoadedImageProtocolGuid then (0, 0x2000, s\<lparr>lmem := with_bytes 0x2018 (le32 5 @ le32 0) (lmem s)\<rparr>)
       else if guid = gEfiDevicePathProtocolGuid then (0, 0x2200, s\<lparr>lmem := with_bytes 0x2200 [0x7F, 0xFF, 4, 0] (lmem s)\<rparr>)
       else if guid = gEfiGraphicsOutputProtocolGuid then (failure, 0, s) else (0, 0x2300, s)),
     ExitBootServices = (\<lambda>h key s. (if key = 7 then 0 else failure, s)),
     LocateHandleBuffer = (\<lambda>t guid s. (failure, 0, 0, s)), FileOpen = (\<lambda>root path s. (0, 0x2400, s)), FileClose = (\<lambda>f s. s),
     FileRead = (\<lambda>f n p s. (0, n, s\<lparr>lmem := with_bytes p demo_kernel_file (lmem s)\<rparr>)),
     FileGetInfo = (\<lambda>f guid n p s. (0, n, s\<lparr>lmem := with_bytes (p + 8) (le32 124 @ le32 0) (lmem s)\<rparr>)),
     OpenVolume = (\<lambda>fs s. (0, 0x2500, s)), GopQueryMode = (\<lambda>g m s. (failure, 0, s)), GopSetMode = (\<lambda>g m s. (failure, s))\<rparr>)"

definition demo_loader :: "nat loader_env" where
  "demo_loader = \<lparr>fw = demo_uefi, g_st = 0x1000, g_memory_map_buffer = 0x6000\<rparr>"

definition demo_power_on :: "nat loader_state" where
  "demo_power_on = \<lparr>lmem = (\<lambda>_. 0), lfw = 0x100000\<rparr>"

definition demo_file_read :: "nat loader_state" where
  "demo_file_read = \<lparr>lmem = with_bytes 0x9000 demo_kernel_file (\<lambda>_. 0), lfw = 0x100000\<rparr>"

lemmas demo_read = demo_file_read_def with_bytes_def demo_kernel_file_def mem_u16_def mem_u32_def mem_u64_def of_le16_def of_le32_def

lemma demo_header:
  "elf_magic (lmem demo_file_read) 0x9000 = KERNEL_ELF_MAGIC" "elf_ident_class (lmem demo_file_read) 0x9000 = KERNEL_ELFCLASS64"
  "elf_machine (lmem demo_file_read) 0x9000 = KERNEL_EM_X86_64" "elf_phentsize (lmem demo_file_read) 0x9000 = 56"
  "elf_phoff (lmem demo_file_read) 0x9000 = 64" "elf_phnum (lmem demo_file_read) 0x9000 = 1" "elf_entry (lmem demo_file_read) 0x9000 = 0x100000"
  by (simp_all add: demo_read elf_magic_def elf_ident_class_def elf_machine_def elf_phentsize_def elf_phoff_def elf_phnum_def elf_entry_def
    KERNEL_ELF_MAGIC_def KERNEL_ELFCLASS64_def KERNEL_EM_X86_64_def)

lemma demo_segment:
  "seg_type (lmem demo_file_read) 0x9040 = PT_LOAD_SEGMENT" "seg_offset (lmem demo_file_read) 0x9040 = 120"
  "seg_paddr (lmem demo_file_read) 0x9040 = 0x100000" "seg_filesz (lmem demo_file_read) 0x9040 = 4" "seg_memsz (lmem demo_file_read) 0x9040 = 8"
  by (simp_all add: demo_read seg_type_def seg_offset_def seg_paddr_def seg_filesz_def seg_memsz_def PT_LOAD_SEGMENT_def)

lemma demo_promise: "pages_promise demo_loader (\<lambda>top. {x. unat x < top})"
  by (auto simp: pages_promise_def demo_loader_def demo_uefi_def Let_def bytes_at_def EFI_ERROR_def split: if_splits)

lemma demo_file_ok: "kernel_file_ok (lmem demo_file_read) 0x9000 124"
proof -
  have "segment_at (lmem demo_file_read) 0x9000 0 = 0x9040" by (simp add: segment_at_def demo_header)
  then show ?thesis by (auto simp: kernel_file_ok_def loadable_def demo_header demo_segment Let_def)
qed

lemma demo_load:
  "\<exists>t. load_kernel_elf demo_loader 0x9000 124 0 demo_file_read = (EFI_SUCCESS, 0x100000, t)"
proof -
  define after where "after = mem_copy 0x100000 0x9078 4 (mem_set 0x100000 0 8 (lmem demo_file_read))"
  have upd: "after = (\<lambda>x. if x = 0x100000 then 0xF4 else if x = 0x100001 then 0xEB else if x = 0x100002 then 0xFD
      else if x = 0x100003 then 0x90 else mem_set 0x100000 0 8 (lmem demo_file_read) x)"
    by (auto simp: after_def mem_copy_def mem_set_def fun_eq_iff demo_read upt_rec)
  have keep: "after x = lmem demo_file_read x" if "x < 0x100000" for x
    using that by (auto simp: upd mem_set_def upt_rec)
  have "agree after (lmem demo_file_read) 0x9000 64" 
    by (auto simp: agree_def intro!: keep) (simp add: word_less_nat_alt unat_add_small)
  note h = header_cong [OF this]
  have low: "seg_offset m 0x9040 = 120 \<and> seg_filesz m 0x9040 = 4 \<and> seg_paddr m 0x9040 = 0x100000 \<and> seg_memsz m 0x9040 = 8"
    if "m = mem_set 0x100000 0 8 (lmem demo_file_read)" for m
    unfolding that by (simp add: demo_read seg_offset_def seg_paddr_def seg_filesz_def seg_memsz_def mem_set_def upt_rec)
  have st: "fw demo_loader = demo_uefi" "lfw demo_file_read = 0x100000" by (simp_all add: demo_loader_def demo_file_read_def)
  have pages: "AllocatePages demo_uefi EFI_ALLOCATE_ADDRESS EfiLoaderData 1 0x100000 demo_file_read = (0, 0x100000, demo_file_read\<lparr>lfw := 0x101000\<rparr>)"
    by (simp add: demo_uefi_def Let_def demo_file_read_def)
  have no: "\<not> EFI_ERROR 0" by (simp add: EFI_ERROR_def)
  have "load_program_headers demo_loader 0x9000 124 0x9040 (Suc 0) (demo_file_read\<lparr>lfw := 0x101000, lmem := after\<rparr>) =
      (EFI_SUCCESS, demo_file_read\<lparr>lfw := 0x101000, lmem := after\<rparr>)"
    by (subst load_program_headers.simps) (simp add: h demo_header)
  then have "load_program_headers demo_loader 0x9000 124 0x9040 0 demo_file_read = (EFI_SUCCESS, demo_file_read\<lparr>lfw := 0x101000, lmem := after\<rparr>)"
    by (subst load_program_headers.simps)
      (simp add: demo_header demo_segment Let_def loader_align_up_def st pages no low [OF refl] after_def)
  then show ?thesis by (simp add: load_kernel_elf_def demo_header Let_def h)
qed


lemma demo_firmware_promise: "firmware_promise demo_loader"
proof -
  have "path_ends (with_bytes 0x2200 [0x7F, 0xFF, 4, 0] m) 0x2200" for m
    by (rule path_ends.at_end) (simp add: loader_path_is_end_def with_bytes_def)
  then show ?thesis
    by (auto simp: firmware_promise_def demo_loader_def demo_uefi_def Let_def EFI_SUCCESS_def gEfiDevicePathProtocolGuid_def
      gEfiLoadedImageProtocolGuid_def)
qed


end
