(* ===== verification/Runtime.thy ===== *)
theory Runtime
  imports ProcessDemo ProcessRun Acpi
begin

text \<open>
  The user programs: the runtime \<open>src/programs/common/runtime.c\<close>, \<open>src/programs/hello/main.c\<close> and
  \<open>src/programs/args/main.c\<close>. A program is seen from its own side: it has a view of memory, and what it does for the kernel
  to see is the list of \<open>user_act\<close>s that \<open>program_run\<close> takes. The lemmas say what a number looks like when it is written
  and that the two programs end with their exit status, so that the theorem of \<open>ProcessRun\<close> covers them.
\<close>

subsection \<open>The runtime\<close>

text \<open>The registers the code does not set, the addresses of its string literals and of the array \<open>digits\<close> on the stack, and
  what the kernel returns for the call after \<open>n\<close> actions and leaves in memory when that call reads a line.\<close>

record program_env =
  pe_frame :: TrapFrame
  pe_literal :: "string \<Rightarrow> u64"
  pe_digits :: u64
  pe_result :: "nat \<Rightarrow> u64"
  pe_line :: "nat \<Rightarrow> (u64 \<Rightarrow> u8) \<Rightarrow> u64 \<Rightarrow> u8"

record program_state =
  umem :: "u64 \<Rightarrow> u8"
  acts :: "user_act list"

definition program_store :: "u64 \<Rightarrow> u8 \<Rightarrow> program_state \<Rightarrow> program_state" where
  "program_store a b s = s\<lparr>umem := (umem s)(a := b), acts := acts s @ [UserStore a b]\<rparr>"

definition program_syscall1 :: "program_env \<Rightarrow> u64 \<Rightarrow> u64 \<Rightarrow> program_state \<Rightarrow> u64 \<times> program_state" where
  "program_syscall1 env number arg0 s = (pe_result env (length (acts s)),
     s\<lparr>acts := acts s @ [UserTrap ((pe_frame env)\<lparr>tf_vector := PROGRAM_SYSCALL_VECTOR, tf_rax := number, tf_rdi := arg0\<rparr>)]\<rparr>)"

definition program_syscall2 :: "program_env \<Rightarrow> u64 \<Rightarrow> u64 \<Rightarrow> u64 \<Rightarrow> program_state \<Rightarrow> u64 \<times> program_state" where
  "program_syscall2 env number arg0 arg1 s = (pe_result env (length (acts s)),
     s\<lparr>acts := acts s @ [UserTrap ((pe_frame env)\<lparr>tf_vector := PROGRAM_SYSCALL_VECTOR, tf_rax := number, tf_rdi := arg0, tf_rsi := arg1\<rparr>)]\<rparr>)"

partial_function (option) program_strlen_loop :: "(u64 \<Rightarrow> u8) \<Rightarrow> u64 \<Rightarrow> u64 \<Rightarrow> u64 option" where
  "program_strlen_loop m str len = (if m (str + len) \<noteq> 0 then program_strlen_loop m str (len + 1) else Some len)"

definition program_strlen :: "u64 \<Rightarrow> program_state \<Rightarrow> u64 option" where
  "program_strlen str s = program_strlen_loop (umem s) str 0"

text \<open>The program does nothing after this call.\<close>

definition program_exit :: "program_env \<Rightarrow> u32 \<Rightarrow> program_state \<Rightarrow> program_state" where
  "program_exit env status s = snd (program_syscall1 env (ucast PROGRAM_SYSCALL_EXIT) (ucast status) s)"

definition program_write :: "program_env \<Rightarrow> u64 \<Rightarrow> u64 \<Rightarrow> program_state \<Rightarrow> program_state" where
  "program_write env data len s =
     (if data = 0 \<or> len = 0 then s else snd (program_syscall2 env (ucast PROGRAM_SYSCALL_WRITE) data len s))"

definition program_write_str :: "program_env \<Rightarrow> u64 \<Rightarrow> program_state \<Rightarrow> program_state option" where
  "program_write_str env str s = do { len \<leftarrow> program_strlen str s; Some (program_write env str len s) }"

definition program_write_line :: "program_env \<Rightarrow> u64 \<Rightarrow> program_state \<Rightarrow> program_state option" where
  "program_write_line env str s = do {
     s \<leftarrow> program_write_str env str s; Some (program_write env (pe_literal env [CHR 0x0A]) 1 s) }"

text \<open>The two loops of \<open>program_write_u32\<close>: the digits from the last one on into the array, and back out of it.\<close>

function digits_loop :: "program_env \<Rightarrow> u32 \<Rightarrow> u32 \<Rightarrow> program_state \<Rightarrow> u32 \<times> program_state" where
  "digits_loop env v count s =
     (if v \<noteq> 0 then digits_loop env (v div 10) (count + 1)
        (program_store (pe_digits env + ucast count) (ucast (48 + v mod 10)) s) else (count, s))"
  by pat_completeness auto
termination
  by (relation "measure (\<lambda>(env, v, count, s). unat v)") (auto simp: unat_div_distrib unat_gt_0 intro!: div_less_dividend)

declare digits_loop.simps [simp del]

fun digits_out :: "program_env \<Rightarrow> nat \<Rightarrow> program_state \<Rightarrow> program_state" where
  "digits_out env 0 s = s"
| "digits_out env (Suc n) s = digits_out env n (program_write env (pe_digits env + of_nat n) 1 s)"

definition program_write_u32 :: "program_env \<Rightarrow> u32 \<Rightarrow> program_state \<Rightarrow> program_state" where
  "program_write_u32 env v s =
     (if v = 0 then program_write env (pe_literal env ''0'') 1 s
      else case digits_loop env v 0 s of (count, s) \<Rightarrow> digits_out env (unat count) s)"

definition program_read_line :: "program_env \<Rightarrow> u64 \<Rightarrow> u64 \<Rightarrow> program_state \<Rightarrow> u64 \<times> program_state" where
  "program_read_line env buf cap s =
     (if buf = 0 \<or> cap = 0 then (0, s)
      else case program_syscall2 env (ucast PROGRAM_SYSCALL_READ_LINE) buf cap s of (n, t) \<Rightarrow>
        (n, t\<lparr>umem := pe_line env (length (acts s)) (umem s)\<rparr>))"

subsection \<open>The programs\<close>

definition hello_main :: "program_env \<Rightarrow> u64 \<Rightarrow> program_state \<Rightarrow> (u32 \<times> program_state) option" where
  "hello_main env prog_info s = do { s \<leftarrow> program_write_line env (pe_literal env ''Hello from HELLO.ELF'') s; Some (0, s) }"

text \<open>The loop of \<open>ARGS.ELF\<close> over its arguments; \<open>argc\<close> is read again in every round.\<close>

partial_function (option) args_print :: "program_env \<Rightarrow> u64 \<Rightarrow> u64 \<Rightarrow> u64 \<Rightarrow> program_state \<Rightarrow> program_state option" where
  "args_print env prog_info argv i s =
     (if i < mem_u64 (umem s) (prog_info + 8) then do {
        let s = program_write env (pe_literal env ''argv['') 5 s;
        let s = program_write_u32 env (ucast i) s;
        let s = program_write env (pe_literal env '']='') 2 s;
        s \<leftarrow> program_write_line env (mem_u64 (umem s) (argv + i * 8)) s;
        args_print env prog_info argv (i + 1) s }
      else Some s)"

definition args_main :: "program_env \<Rightarrow> u64 \<Rightarrow> program_state \<Rightarrow> (u32 \<times> program_state) option" where
  "args_main env prog_info s = do {
     let s = program_write env (pe_literal env ''argc='') 5 s;
     let s = program_write_u32 env (ucast (mem_u64 (umem s) (prog_info + 8))) s;
     let s = program_write env (pe_literal env [CHR 0x0A]) 1 s;
     s \<leftarrow> args_print env prog_info (mem_u64 (umem s) (prog_info + 16)) 0 s;
     Some (0, s) }"

text \<open>\<open>_start\<close>.\<close>

definition program_start ::
  "(program_env \<Rightarrow> u64 \<Rightarrow> program_state \<Rightarrow> (u32 \<times> program_state) option) \<Rightarrow> program_env \<Rightarrow> u64 \<Rightarrow> program_state \<Rightarrow> program_state option" where
  "program_start main env prog_info s = do { (status, s) \<leftarrow> main env prog_info s; Some (program_exit env status s) }"

subsection \<open>What a run does\<close>

text \<open>The memory after the program's own stores, and the bytes its WRITE calls hand to the kernel.\<close>

fun replay :: "user_act list \<Rightarrow> (u64 \<Rightarrow> u8) \<Rightarrow> u64 \<Rightarrow> u8" where
  "replay [] m = m"
| "replay (UserStore a b # as) m = replay as (m(a := b))"
| "replay (UserTrap f # as) m = replay as m"

definition span :: "(u64 \<Rightarrow> u8) \<Rightarrow> u64 \<Rightarrow> nat \<Rightarrow> bytes" where
  "span m a n = map (\<lambda>i. m (a + of_nat i)) [0..<n]"

fun written :: "(u64 \<Rightarrow> u8) \<Rightarrow> user_act list \<Rightarrow> bytes" where
  "written m [] = []"
| "written m (UserStore a b # as) = written (m(a := b)) as"
| "written m (UserTrap f # as) =
     (if syscall_number f = PROGRAM_SYSCALL_WRITE then span m (tf_rdi f) (unat (tf_rsi f)) else []) @ written m as"

text \<open>Actions that keep the program running: stores, and system calls other than EXIT.\<close>

definition keeps_running :: "program_env \<Rightarrow> user_act \<Rightarrow> bool" where
  "keeps_running env act \<longleftrightarrow> (case act of UserStore a b \<Rightarrow> True | UserTrap f \<Rightarrow>
     tf_vector f = PROGRAM_SYSCALL_VECTOR \<and> syscall_number f \<noteq> PROGRAM_SYSCALL_EXIT \<and> tf_cs f = tf_cs (pe_frame env))"

text \<open>From \<open>s\<close> to \<open>t\<close> the program writes \<open>out\<close>; its own memory changes in the array \<open>digits\<close> only.\<close>

definition digit_area :: "program_env \<Rightarrow> u64 set" where
  "digit_area env = (\<lambda>i. pe_digits env + of_nat i) ` {..<10}"

definition writes :: "program_env \<Rightarrow> program_state \<Rightarrow> bytes \<Rightarrow> program_state \<Rightarrow> bool" where
  "writes env s out t \<longleftrightarrow> (\<exists>as. acts t = acts s @ as \<and> umem t = replay as (umem s) \<and> written (umem s) as = out \<and>
     list_all (keeps_running env) as \<and> (\<forall>a. a \<notin> digit_area env \<longrightarrow> umem t a = umem s a))"

lemma replay_Cons: "replay (act # as) m = replay as (case act of UserStore a b \<Rightarrow> m(a := b) | UserTrap f \<Rightarrow> m)"
  by (cases act) auto

lemma written_Cons: "written m (act # as) = (case act of UserStore a b \<Rightarrow> written (m(a := b)) as | UserTrap f \<Rightarrow>
    (if syscall_number f = PROGRAM_SYSCALL_WRITE then span m (tf_rdi f) (unat (tf_rsi f)) else []) @ written m as)"
  by (cases act) auto

lemma replay_append [simp]: "replay (as @ bs) m = replay bs (replay as m)"
  by (induction as arbitrary: m) (auto simp: replay_Cons)

lemma written_append [simp]: "written m (as @ bs) = written m as @ written (replay as m) bs"
  by (induction as arbitrary: m) (auto simp: written_Cons replay_Cons split: user_act.split)

lemma writes_refl [simp]: "writes env s [] s"
  by (auto simp: writes_def intro!: exI [of _ "[]"])

lemma writes_trans: "\<lbrakk>writes env s out t; writes env t out' u\<rbrakk> \<Longrightarrow> writes env s (out @ out') u"
  unfolding writes_def by (elim exE conjE) (rule_tac x = "as @ asa" in exI, auto)

lemma outcome_running: "list_all (keeps_running env) as \<Longrightarrow> outcome (as @ bs) = outcome bs"
  by (induction as rule: outcome.induct) (auto simp: keeps_running_def)

lemma program_write_writes: "data \<noteq> 0 \<Longrightarrow> writes env s (span (umem s) data (unat len)) (program_write env data len s)"
  by (auto simp: program_write_def writes_def program_syscall2_def keeps_running_def syscall_number_def syscall_numbers
      span_def)

lemma program_store_writes: "a \<in> digit_area env \<Longrightarrow> writes env s [] (program_store a b s)"
  by (auto simp: program_store_def writes_def keeps_running_def intro!: exI [of _ "[UserStore a b]"])

lemma writes_outside: "\<lbrakk>writes env s out t; a \<notin> digit_area env\<rbrakk> \<Longrightarrow> umem t a = umem s a"
  by (auto simp: writes_def)

subsection \<open>Numbers\<close>

fun low_digits :: "nat \<Rightarrow> bytes" where
  "low_digits v = (if v = 0 then [] else of_nat (48 + v mod 10) # low_digits (v div 10))"

declare low_digits.simps [simp del]

definition decimal :: "nat \<Rightarrow> bytes" where
  "decimal v = (if v = 0 then [48] else rev (low_digits v))"

text \<open>It is the decimal notation: digits only, of the right value, the first one not \<open>0\<close> but for \<open>0\<close> itself.\<close>

lemma low_digits_facts:
  "foldr (\<lambda>d n. 10 * n + (unat d - 48)) (low_digits v) 0 = v" (is ?V)
  "d \<in> set (low_digits v) \<Longrightarrow> 48 \<le> unat d \<and> unat d \<le> 57"
  "v \<noteq> 0 \<Longrightarrow> low_digits v \<noteq> [] \<and> last (low_digits v) \<noteq> 48"
proof -
  have u: "unat (of_nat (48 + v mod 10) :: u8) = 48 + v mod 10" for v
    unfolding unat_of_nat by simp
  show ?V
    by (induction v rule: low_digits.induct) (subst low_digits.simps, auto simp del: of_nat_add simp: u)
  show "d \<in> set (low_digits v) \<Longrightarrow> 48 \<le> unat d \<and> unat d \<le> 57"
  proof (induction v rule: low_digits.induct)
    case (1 v)
    then show ?case using u [of v] by (auto simp: low_digits.simps [of v] simp del: of_nat_add split: if_splits)
  qed
  show "v \<noteq> 0 \<Longrightarrow> low_digits v \<noteq> [] \<and> last (low_digits v) \<noteq> 48"
  proof (induction v rule: low_digits.induct)
    case (1 v)
    show ?case
    proof (cases "v div 10 = 0")
      case True
      then have "v mod 10 = v" by simp
      have "low_digits v = [of_nat (48 + v)]"
        using 1(2) True \<open>v mod 10 = v\<close> by (simp add: low_digits.simps [of v] low_digits.simps [of 0])
      moreover have "(of_nat (48 + v) :: u8) \<noteq> 48" using u [of v] 1(2) \<open>v mod 10 = v\<close> by (auto simp del: of_nat_add)
      ultimately show ?thesis by simp
    next
      case False
      with 1 show ?thesis by (simp add: low_digits.simps [of v])
    qed
  qed
qed

lemma decimal_value:
  "foldl (\<lambda>n d. 10 * n + (unat d - 48)) 0 (decimal v) = v"
  "list_all (\<lambda>d. 48 \<le> unat d \<and> unat d \<le> 57) (decimal v)" "v \<noteq> 0 \<Longrightarrow> hd (decimal v) \<noteq> 48"
  using low_digits_facts(1) [of v] low_digits_facts(2) [of _ v] low_digits_facts(3) [of v] by (auto simp: decimal_def foldl_conv_foldr list_all_iff hd_rev)

lemma low_digits_length: "v < 10 ^ k \<Longrightarrow> length (low_digits v) \<le> k"
proof (induction k arbitrary: v)
  case 0
  then show ?case by (simp add: low_digits.simps)
next
  case (Suc k)
  then have "v div 10 < 10 ^ k" by (simp add: div_less_iff_less_mult ac_simps)
  from Suc.IH [OF this] show ?case by (subst low_digits.simps) simp
qed

lemma digits_loop_stores:
  assumes "unat c + length (low_digits (unat v)) \<le> 10" and "digits_loop env v c s = (c', t)"
  shows "unat c' = unat c + length (low_digits (unat v)) \<and> writes env s [] t \<and>
    (\<forall>i < length (low_digits (unat v)). umem t (pe_digits env + of_nat (unat c + i)) = low_digits (unat v) ! i) \<and>
    (\<forall>i < unat c. umem t (pe_digits env + of_nat i) = umem s (pe_digits env + of_nat i))"
  using assms
proof (induction env v c s arbitrary: c' t rule: digits_loop.induct)
  case (1 env v c s)
  show ?case
  proof (cases "v = 0")
    case True
    then show ?thesis using 1(3) by (subst (asm) digits_loop.simps) (simp add: low_digits.simps)
  next
    case False
    define ds where "ds = low_digits (unat v div 10)"
    define s1 where "s1 = program_store (pe_digits env + ucast c) (ucast (48 + v mod 10)) s"
    have v: "unat v \<noteq> 0" using False by (simp add: unat_eq_0)
    have ld: "low_digits (unat v) = of_nat (48 + unat v mod 10) # ds"
      using v by (subst low_digits.simps) (simp add: ds_def)
    have dv: "unat (v div 10) = unat v div 10" by (simp add: unat_div_distrib)
    have c: "unat (c + 1) = unat c + 1" using 1(2) ld by (subst unat_add_small) simp_all
    have e: "(ucast c :: u64) = of_nat (unat c)" by simp
    have b: "(ucast (48 + v mod 10) :: u8) = of_nat (48 + unat v mod 10)"
    proof (rule word_unat_eq_iff [THEN iffD2])
      have "unat (48 + v mod 10 :: u32) = 48 + unat v mod 10"
        by (subst unat_add_small) (simp_all add: unat_mod_distrib)
      then show "unat (ucast (48 + v mod 10) :: u8) = unat (of_nat (48 + unat v mod 10) :: u8)"
        by (simp only: unsigned_ucast_eq unat_of_nat take_bit_eq_mod word_size)
    qed
    have r: "digits_loop env (v div 10) (c + 1) s1 = (c', t)"
      using 1(3) False by (subst (asm) digits_loop.simps) (simp add: s1_def)
    have "unat (c + 1) + length (low_digits (unat (v div 10))) \<le> 10"
      using 1(2) unfolding ld dv c ds_def by simp
    from 1(1) [OF False this [unfolded s1_def] r [unfolded s1_def]]
    have H: "unat c' = unat c + 1 + length ds" "writes env s1 [] t"
      "\<forall>i < length ds. umem t (pe_digits env + of_nat (unat c + 1 + i)) = ds ! i"
      "\<forall>i < unat c + 1. umem t (pe_digits env + of_nat i) = umem s1 (pe_digits env + of_nat i)"
      unfolding dv c ds_def [symmetric] s1_def [symmetric] by blast+
    have "pe_digits env + ucast c \<in> digit_area env" using 1(2) ld unfolding digit_area_def e by (intro image_eqI [OF refl]) simp
    then have W: "writes env s [] t" using writes_trans [OF program_store_writes H(2) [unfolded s1_def]] by simp
    have M: "umem s1 = (umem s)(pe_digits env + of_nat (unat c) := of_nat (48 + unat v mod 10))"
      unfolding s1_def program_store_def b e by simp
    have ne: "(of_nat i :: u64) \<noteq> of_nat (unat c)" if "i < unat c" for i
    proof -
      have "unat (of_nat i :: u64) = i" "unat (of_nat (unat c) :: u64) = unat c" using that 1(2) ld by (simp_all add: unat_of_nat)
      then show ?thesis using that by (metis nat_neq_iff)
    qed
    have "umem t (pe_digits env + of_nat (unat c + i)) = (of_nat (48 + unat v mod 10) # ds) ! i"
      if "i < Suc (length ds)" for i
    proof (cases i)
      case 0
      have "umem t (pe_digits env + of_nat (unat c)) = umem s1 (pe_digits env + of_nat (unat c))" using H(4) [rule_format, of "unat c"] by simp
      then show ?thesis using 0 M by simp
    next
      case (Suc j)
      then show ?thesis using H(3) that by (simp add: ac_simps)
    qed
    moreover have "umem t (pe_digits env + of_nat i) = umem s (pe_digits env + of_nat i)" if "i < unat c" for i
      using H(4) M ne [OF that] that by simp
    ultimately show ?thesis using H(1) W unfolding ld by simp
  qed
qed

lemma span_1: "span m a (Suc 0) = [m a]"
  by (simp add: span_def)

lemma digits_out_writes:
  assumes "\<forall>i < n. umem s (pe_digits env + of_nat i) = ds ! i" and "n \<le> length ds"
    and "\<forall>i < n. pe_digits env + of_nat i \<noteq> 0" "n \<le> 10"
  shows "writes env s (rev (take n ds)) (digits_out env n s)"
  using assms
proof (induction n arbitrary: s)
  case 0
  then show ?case by simp
next
  case (Suc n)
  let ?t = "program_write env (pe_digits env + of_nat n) 1 s"
  have w: "writes env s [ds ! n] ?t"
    using program_write_writes [of "pe_digits env + of_nat n" env s 1] Suc.prems(1,3) by (simp add: span_1)
  have "umem ?t = umem s" by (simp add: program_write_def program_syscall2_def)
  then have "writes env ?t (rev (take n ds)) (digits_out env n ?t)" using Suc by simp
  from writes_trans [OF w this] Suc.prems(2) show ?case by (simp add: take_Suc_conv_app_nth)
qed

lemma program_write_u32_writes:
  assumes "\<forall>i < 10. pe_digits env + of_nat i \<noteq> 0" and "pe_literal env ''0'' \<noteq> 0" "umem s (pe_literal env ''0'') = 48"
  shows "writes env s (decimal (unat v)) (program_write_u32 env v s)"
proof (cases "v = 0")
  case True
  then show ?thesis using program_write_writes [OF assms(2), of env s 1] assms(3)
    by (simp add: program_write_u32_def decimal_def span_1)
next
  case False
  let ?ds = "low_digits (unat v)"
  have n: "length ?ds \<le> 10" by (rule low_digits_length) (use unat_u32_bound [of v] in simp)
  obtain c t where r: "digits_loop env v 0 s = (c, t)" by fastforce
  have H: "unat c = length ?ds" "writes env s [] t" "\<forall>i < length ?ds. umem t (pe_digits env + of_nat i) = ?ds ! i"
    using digits_loop_stores [OF _ r] n by simp_all
  have "writes env t (rev ?ds) (digits_out env (length ?ds) t)"
    using digits_out_writes [OF H(3)] assms(1) n by simp
  from writes_trans [OF H(2) this] show ?thesis using False r H(1)
    by (simp add: program_write_u32_def decimal_def unat_eq_0)
qed

subsection \<open>The programs end\<close>

text \<open>A NUL-terminated text and a 64-bit word in the program's memory, away from the array \<open>digits\<close>.\<close>

definition text_at :: "program_env \<Rightarrow> (u64 \<Rightarrow> u8) \<Rightarrow> u64 \<Rightarrow> bytes \<Rightarrow> bool" where
  "text_at env m a cs \<longleftrightarrow> a \<noteq> 0 \<and> nul_free cs \<and> length cs < 2 ^ 32 \<and>
     (\<forall>i \<le> length cs. m (a + of_nat i) = (cs @ [0]) ! i \<and> a + of_nat i \<notin> digit_area env)"

definition word_at :: "program_env \<Rightarrow> (u64 \<Rightarrow> u8) \<Rightarrow> u64 \<Rightarrow> u64 \<Rightarrow> bool" where
  "word_at env m a w \<longleftrightarrow> mem_u64 m a = w \<and> (\<forall>i < 8. a + of_nat i \<notin> digit_area env)"

definition literals :: "string list" where
  "literals = [''0'', [CHR 0x0A], ''Hello from HELLO.ELF'', ''argc='', ''argv['', '']='']"

definition env_ready :: "program_env \<Rightarrow> (u64 \<Rightarrow> u8) \<Rightarrow> bool" where
  "env_ready env m \<longleftrightarrow> tf_cs (pe_frame env) AND 3 = 3 \<and> (\<forall>i < 10. pe_digits env + of_nat i \<noteq> 0) \<and>
     list_all (\<lambda>l. text_at env m (pe_literal env l) (bytes_of l)) literals"

lemma text_at_kept: "\<lbrakk>writes env s out t; text_at env (umem s) a cs\<rbrakk> \<Longrightarrow> text_at env (umem t) a cs"
  by (simp add: text_at_def writes_outside)

lemma env_ready_kept: "\<lbrakk>writes env s out t; env_ready env (umem s)\<rbrakk> \<Longrightarrow> env_ready env (umem t)"
  by (auto simp: env_ready_def list_all_iff intro: text_at_kept)

lemma word_at_kept:
  assumes "writes env s out t" "word_at env (umem s) a w"
  shows "word_at env (umem t) a w"
proof -
  have "umem t (a + of_nat i) = umem s (a + of_nat i)" if "i < 8" for i
    using assms(2) that by (intro writes_outside [OF assms(1)]) (simp add: word_at_def)
  from this [of 0] this [of 1] this [of 2] this [of 3] this [of 4] this [of 5] this [of 6] this [of 7] show ?thesis
    using assms(2) by (simp add: word_at_def mem_u64_def mem_u32_def add.assoc)
qed

lemma text_at_span: "text_at env m a cs \<Longrightarrow> span m a (length cs) = cs"
  by (auto simp: text_at_def span_def nth_append intro!: nth_equalityI)

lemma strlen_loop_text:
  assumes "text_at env m a cs" and "i \<le> length cs"
  shows "program_strlen_loop m a (of_nat i) = Some (of_nat (length cs))"
  using assms(2)
proof (induction "length cs - i" arbitrary: i)
  case 0
  then have "m (a + of_nat i) = 0" using assms(1) by (auto simp: text_at_def nth_append)
  then show ?case using 0 by (subst program_strlen_loop.simps) simp
next
  case (Suc n)
  then have "m (a + of_nat i) \<noteq> 0" using assms(1) by (auto simp: text_at_def nth_append nul_free_def dest: nth_mem)
  moreover have "program_strlen_loop m a (of_nat (i + 1)) = Some (of_nat (length cs))" using Suc by (intro Suc.hyps) auto
  ultimately show ?case by (subst program_strlen_loop.simps) (simp add: add.commute)
qed

lemma program_strlen_text: "text_at env (umem s) a cs \<Longrightarrow> program_strlen a s = Some (of_nat (length cs))"
  using strlen_loop_text [of env "umem s" a cs 0] by (simp add: program_strlen_def)

lemma literal_writes:
  assumes "env_ready env (umem s)" and "l \<in> set literals" and "unat n = length l"
  shows "writes env s (bytes_of l) (program_write env (pe_literal env l) n s)"
proof -
  have t: "text_at env (umem s) (pe_literal env l) (bytes_of l)" using assms(1,2) by (simp add: env_ready_def list_all_iff)
  have "length (bytes_of l) = unat n" using assms(3) by (simp add: bytes_of_def)
  then show ?thesis using program_write_writes [of "pe_literal env l" env s n] text_at_span [OF t] t by (simp add: text_at_def)
qed

lemma program_write_line_writes:
  assumes "env_ready env (umem s)" and t: "text_at env (umem s) a cs"
  shows "\<exists>t. program_write_line env a s = Some t \<and> writes env s (cs @ [10]) t"
proof -
  let ?t = "program_write env a (of_nat (length cs)) s"
  have "unat (of_nat (length cs) :: u64) = length cs" using t by (simp add: text_at_def unat_of_nat)
  then have w: "writes env s cs ?t" using program_write_writes [of a env s "of_nat (length cs)"] text_at_span [OF t] t by (simp add: text_at_def)
  have "writes env ?t (bytes_of [CHR 0x0A]) (program_write env (pe_literal env [CHR 0x0A]) 1 ?t)"
    by (rule literal_writes [OF env_ready_kept [OF w assms(1)]]) (simp_all add: literals_def)
  from writes_trans [OF w this] show ?thesis
    by (simp add: program_write_line_def program_write_str_def program_strlen_text [OF t] bytes_of_def)
qed

text \<open>How a program that runs from \<open>s\<close> ends: it has written \<open>out\<close>, and its last action is EXIT with \<open>status\<close>.\<close>

definition ends :: "program_env \<Rightarrow> program_state \<Rightarrow> bytes \<Rightarrow> u32 \<Rightarrow> program_state \<Rightarrow> bool" where
  "ends env s out status t \<longleftrightarrow> (\<exists>as. acts t = acts s @ as \<and> written (umem s) as = out \<and> from_user_mode as \<and> outcome as = Some status)"

lemma status_word: "ucast (ucast (status :: u32) :: u64) = status"
  by (rule ucast_up_ucast_id) (simp add: is_up)

lemma program_start_ends:
  assumes "env_ready env (umem s)" and "main env pinfo s = Some (status, t)" and "writes env s out t"
  shows "\<exists>u. program_start main env pinfo s = Some u \<and> ends env s out status u"
proof -
  obtain as where as: "acts t = acts s @ as" "umem t = replay as (umem s)" "written (umem s) as = out" "list_all (keeps_running env) as"
    using assms(3) by (auto simp: writes_def)
  let ?f = "(pe_frame env)\<lparr>tf_vector := PROGRAM_SYSCALL_VECTOR, tf_rax := ucast PROGRAM_SYSCALL_EXIT, tf_rdi := ucast status\<rparr>"
  have n: "syscall_number ?f = PROGRAM_SYSCALL_EXIT" by (simp add: syscall_number_def syscall_numbers)
  have "from_user_mode (as @ [UserTrap ?f])"
    using as(4) assms(1) by (auto simp: from_user_mode_def list_all_iff keeps_running_def env_ready_def)
  moreover have "outcome (as @ [UserTrap ?f]) = Some status"
    unfolding outcome_running [OF as(4)] by (simp add: n status_word)
  moreover have "written (umem s) (as @ [UserTrap ?f]) = out" using as(3) n by (simp add: syscall_numbers)
  ultimately have "ends env s out status (program_exit env status t)"
    using as(1) by (auto simp: ends_def program_exit_def program_syscall1_def intro!: exI [of _ "as @ [UserTrap ?f]"])
  then show ?thesis using assms(2) by (simp add: program_start_def)
qed

theorem hello_ends:
  assumes "env_ready env (umem s)"
  shows "\<exists>t. program_start hello_main env pinfo s = Some t \<and> ends env s (bytes_of ''Hello from HELLO.ELF'' @ [10]) 0 t"
proof -
  have "text_at env (umem s) (pe_literal env ''Hello from HELLO.ELF'') (bytes_of ''Hello from HELLO.ELF'')"
    using assms by (simp add: env_ready_def literals_def)
  from program_write_line_writes [OF assms this] obtain t where
    t: "program_write_line env (pe_literal env ''Hello from HELLO.ELF'') s = Some t" and
    w: "writes env s (bytes_of ''Hello from HELLO.ELF'' @ [10]) t" by blast
  show ?thesis by (rule program_start_ends [OF assms _ w]) (simp add: hello_main_def t)
qed

text \<open>The \<open>ProgramInfo\<close> at \<open>p\<close> with the arguments \<open>args\<close>, as \<open>process_build_args\<close> leaves it.\<close>

definition args_view :: "program_env \<Rightarrow> (u64 \<Rightarrow> u8) \<Rightarrow> u64 \<Rightarrow> u64 \<Rightarrow> bytes list \<Rightarrow> bool" where
  "args_view env m p argv args \<longleftrightarrow> length args < 2 ^ 32 \<and> word_at env m (p + 8) (of_nat (length args)) \<and> word_at env m (p + 16) argv \<and>
     (\<forall>i < length args. \<exists>w. word_at env m (argv + of_nat i * 8) w \<and> text_at env m w (args ! i))"

definition arg_line :: "nat \<Rightarrow> bytes \<Rightarrow> bytes" where
  "arg_line i a = bytes_of ''argv['' @ decimal i @ bytes_of '']='' @ a @ [10]"

lemma args_view_kept: "\<lbrakk>writes env s out t; args_view env (umem s) p argv args\<rbrakk> \<Longrightarrow> args_view env (umem t) p argv args"
  unfolding args_view_def by (blast intro: word_at_kept text_at_kept)

lemma decimal_writes:
  assumes "env_ready env (umem s)"
  shows "writes env s (decimal (unat v)) (program_write_u32 env v s)"
proof -
  have t: "text_at env (umem s) (pe_literal env ''0'') (bytes_of ''0'')" using assms by (simp add: env_ready_def literals_def)
  then have "umem s (pe_literal env ''0'' + of_nat 0) = (bytes_of ''0'' @ [0]) ! 0" unfolding text_at_def by blast
  then show ?thesis using program_write_u32_writes assms t by (simp add: env_ready_def text_at_def bytes_of_def)
qed

lemma args_print_writes:
  assumes "env_ready env (umem s)" and "args_view env (umem s) p argv args" and "i \<le> length args"
  shows "\<exists>t. args_print env p argv (of_nat i) s = Some t \<and>
    writes env s (concat (map (\<lambda>j. arg_line j (args ! j)) [i..<length args])) t"
  using assms
proof (induction "length args - i" arbitrary: i s)
  case 0
  then have "mem_u64 (umem s) (p + 8) = of_nat i" by (auto simp: args_view_def word_at_def)
  then show ?case using 0 by (subst args_print.simps) simp
next
  case (Suc n)
  have i: "i < length args" and l: "length args < 2 ^ 32" using Suc.hyps(2) Suc.prems(2) by (auto simp: args_view_def)
  have u: "unat (of_nat i :: u64) = i" "unat (of_nat (length args) :: u64) = length args" "unat (ucast (of_nat i :: u64) :: u32) = i"
    using i l by (simp_all add: unat_of_nat unsigned_ucast_eq take_bit_eq_mod)
  have more: "(of_nat i :: u64) < mem_u64 (umem s) (p + 8)"
    using Suc.prems(2) i unfolding args_view_def word_at_def by (simp add: word_less_nat_alt u)
  let ?s1 = "program_write env (pe_literal env ''argv['') 5 s"
  let ?s2 = "program_write_u32 env (ucast (of_nat i :: u64)) ?s1"
  let ?s3 = "program_write env (pe_literal env '']='') 2 ?s2"
  have w1: "writes env s (bytes_of ''argv['') ?s1" by (rule literal_writes [OF Suc.prems(1)]) (simp_all add: literals_def)
  have w2: "writes env ?s1 (decimal i) ?s2" using decimal_writes [OF env_ready_kept [OF w1 Suc.prems(1)]] u(3) by metis
  note w12 = writes_trans [OF w1 w2]
  have w3: "writes env ?s2 (bytes_of '']='') ?s3"
    by (rule literal_writes [OF env_ready_kept [OF w12 Suc.prems(1)]]) (simp_all add: literals_def)
  note w123 = writes_trans [OF w12 w3]
  have ready: "env_ready env (umem ?s3)" and view: "args_view env (umem ?s3) p argv args"
    by (rule env_ready_kept [OF w123 Suc.prems(1)], rule args_view_kept [OF w123 Suc.prems(2)])
  then obtain w where w: "mem_u64 (umem ?s3) (argv + of_nat i * 8) = w" "text_at env (umem ?s3) w (args ! i)"
    using i by (auto simp: args_view_def word_at_def)
  from program_write_line_writes [OF ready w(2)] obtain s4 where
    s4: "program_write_line env w ?s3 = Some s4" and w4: "writes env ?s3 (args ! i @ [10]) s4" by blast
  note w1234 = writes_trans [OF w123 w4]
  have n: "n = length args - (i + 1)" "i + 1 \<le> length args" using Suc.hyps(2) i by arith+
  obtain t where t: "args_print env p argv (of_nat (i + 1)) s4 = Some t"
      "writes env s4 (concat (map (\<lambda>j. arg_line j (args ! j)) [i + 1..<length args])) t"
    using Suc.hyps(1) [OF n(1) env_ready_kept [OF w1234 Suc.prems(1)] args_view_kept [OF w1234 Suc.prems(2)] n(2)] by blast
  have "args_print env p argv (of_nat i) s = Some t"
    using t(1) more by (subst args_print.simps) (simp add: Let_def w(1) s4 add.commute)
  moreover have "writes env s (concat (map (\<lambda>j. arg_line j (args ! j)) [i..<length args])) t"
    using writes_trans [OF w1234 t(2)] i by (simp add: upt_conv_Cons arg_line_def)
  ultimately show ?case by blast
qed

theorem args_ends:
  assumes "env_ready env (umem s)" and "args_view env (umem s) p argv args"
  shows "\<exists>t. program_start args_main env p s = Some t \<and>
    ends env s (bytes_of ''argc='' @ decimal (length args) @ [10] @ concat (map (\<lambda>i. arg_line i (args ! i)) [0..<length args])) 0 t"
proof -
  let ?s1 = "program_write env (pe_literal env ''argc='') 5 s"
  have w1: "writes env s (bytes_of ''argc='') ?s1" by (rule literal_writes [OF assms(1)]) (simp_all add: literals_def)
  let ?n = "ucast (mem_u64 (umem ?s1) (p + 8)) :: u32"
  let ?s2 = "program_write_u32 env ?n ?s1"
  have n: "unat ?n = length args" using args_view_kept [OF w1 assms(2)]
    by (simp add: args_view_def word_at_def unat_of_nat unsigned_ucast_eq take_bit_eq_mod)
  have w2: "writes env ?s1 (decimal (length args)) ?s2" using decimal_writes [OF env_ready_kept [OF w1 assms(1)]] n by metis
  note w12 = writes_trans [OF w1 w2]
  let ?s3 = "program_write env (pe_literal env [CHR 0x0A]) 1 ?s2"
  have w3: "writes env ?s2 (bytes_of [CHR 0x0A]) ?s3"
    by (rule literal_writes [OF env_ready_kept [OF w12 assms(1)]]) (simp_all add: literals_def)
  note w123 = writes_trans [OF w12 w3]
  note view = args_view_kept [OF w123 assms(2)]
  have a: "mem_u64 (umem ?s3) (p + 16) = argv" using view by (simp add: args_view_def word_at_def)
  obtain t where t: "args_print env p argv 0 ?s3 = Some t"
      "writes env ?s3 (concat (map (\<lambda>j. arg_line j (args ! j)) [0..<length args])) t"
    using args_print_writes [OF env_ready_kept [OF w123 assms(1)] view, of 0] by auto
  have "args_main env p s = Some (0, t)" using t(1) by (simp add: args_main_def Let_def a)
  from program_start_ends [where main = args_main, OF assms(1) this writes_trans [OF w123 t(2)]] show ?thesis by (simp add: bytes_of_def)
qed

text \<open>An environment as the linker lays one out: the literals from \<open>0x100\<close> on, the stack at \<open>0x2000\<close>.\<close>

definition demo_program :: program_env where
  "demo_program = \<lparr>pe_frame = demo_frame,
     pe_literal = (\<lambda>l. if l = ''0'' then 0x100 else if l = [CHR 0x0A] then 0x102 else if l = ''argc='' then 0x104
       else if l = ''argv['' then 0x10A else if l = '']='' then 0x110 else 0x113),
     pe_digits = 0x2000, pe_result = (\<lambda>n. 0), pe_line = (\<lambda>n m. m)\<rparr>"

definition demo_rodata :: "u64 \<Rightarrow> u8" where
  "demo_rodata a = (let text = bytes_of ''0'' @ [0, 10, 0] @ bytes_of ''argc='' @ [0] @ bytes_of ''argv['' @ [0] @ bytes_of '']='' @ [0] @
       bytes_of ''Hello from HELLO.ELF'' @ [0] in
     if 0x100 \<le> a \<and> unat a - 0x100 < length text then text ! (unat a - 0x100) else 0)"

lemma demo_area: "unat a < 0x2000 \<Longrightarrow> a \<notin> digit_area demo_program"
  by (auto simp: digit_area_def demo_program_def unat_add_small unat_of_nat)

lemma demo_text_at:
  assumes "list_all (\<lambda>i. demo_rodata (a + of_nat i) = (cs @ [0]) ! i) [0..<Suc (length cs)]"
    and "a \<noteq> 0" "nul_free cs" "unat a + length cs < 0x2000"
  shows "text_at demo_program demo_rodata a cs"
proof -
  have "a + of_nat i \<notin> digit_area demo_program" if "i \<le> length cs" for i
    using assms(4) that by (intro demo_area) (simp add: unat_add_small unat_of_nat)
  then show ?thesis using assms by (auto simp: text_at_def list_all_iff)
qed

lemma demo_program_ready: "env_ready demo_program demo_rodata"
proof -
  have "list_all (\<lambda>l. text_at demo_program demo_rodata (pe_literal demo_program l) (bytes_of l)) literals"
    unfolding literals_def list.pred_inject
    by (intro conjI TrueI demo_text_at)
      (simp_all add: demo_program_def demo_rodata_def bytes_of_def nul_free_def of_char_def upt_rec)
  moreover have "\<forall>i < 10. pe_digits demo_program + of_nat i \<noteq> 0"
  proof (intro allI impI)
    fix i :: nat assume "i < 10"
    then have "unat (0x2000 + of_nat i :: u64) = 0x2000 + i" by (simp add: unat_add_small unat_of_nat)
    then show "pe_digits demo_program + of_nat i \<noteq> 0" by (auto simp: demo_program_def)
  qed
  ultimately show ?thesis by (simp add: env_ready_def demo_program_def demo_frame_def)
qed

text \<open>\<open>HELLO.ELF\<close> there: it ends with status 0.\<close>

lemma hello_demo:
  "\<exists>t. program_start hello_main demo_program 0 \<lparr>umem = demo_rodata, acts = []\<rparr> = Some t \<and> from_user_mode (acts t) \<and> outcome (acts t) = Some 0"
  using hello_ends [of demo_program "\<lparr>umem = demo_rodata, acts = []\<rparr>" 0] demo_program_ready by (auto simp: ends_def)

end
