(* ===== verification/Spec2Isabelle.thy ===== *)
theory Spec2Isabelle
  imports Path MemInit FatFileData FatMount FatLfn FatOps FatDirNew KHeapSafe PagingBoot ConsoleTerm Keyboard FsInit ShellSafe Kmain Loader Runtime
begin

text \<open>
  A model of FunnyOS, a small x86-64 operating system booted by UEFI, and the theorems that say what
  its kernel guarantees. File names below are under \<open>src/src/\<close> of the repository.

  \<^bold>\<open>The program.\<close> The UEFI loader (\<open>boot/uefi/boot.c\<close>) places the kernel, the memory map and the
  framebuffer description in memory and jumps to the kernel. The kernel (\<open>kernel/kmain.c\<close>) builds its
  page allocator and heap from the memory map (\<open>memory.c\<close>), its page tables (\<open>paging.c\<close>), finds the
  boot disk (\<open>block.c\<close> over \<open>ahci.c\<close> or \<open>ata.c\<close>), mounts the FAT32 volume on it (\<open>fat32.c\<close>) and runs a
  shell, which normalises paths (\<open>path.c\<close>), works on files and starts user programs, each in
  an address space of its own.

  \<^bold>\<open>Conventions.\<close> Integers have their C widths (\<open>u8\<close> to \<open>u64\<close> of \<open>Prelude\<close>) and wrap; a C string
  is the list of its bytes; every module's static variables are the fields of a record that its
  functions take and return. A store outside a buffer, or a loop that does not end, is \<open>None\<close>: loops
  whose end needs an argument are \<open>partial_function (option)\<close>, and the theorems about them say
  \<open>\<exists>r. f x = Some r\<close>, so they include termination. No definition has a fuel argument of its own; the
  numbers in recursions are the loop counters of the code.

  \<^bold>\<open>The theories.\<close>
  \<^item> \<open>Prelude\<close>: word types, byte access, alignment, list updates, word arithmetic read as \<open>nat\<close>.
  \<^item> \<open>KString\<close>: \<open>kernel/kstring.c\<close>. \<open>BootInfo\<close>: \<open>common/bootinfo.h\<close>.
  \<^item> \<open>Path\<close>: \<open>kernel/path.c\<close>, refined to a stack of components; results are canonical and stable.
  \<^item> \<open>PhysMem\<close>: the page allocator of \<open>kernel/memory.c\<close> (\<open>append_free_range\<close>, \<open>reserve_range\<close>,
    \<open>alloc_pages\<close>, \<open>free_pages\<close>, \<open>memory_init\<close>), the invariant of the array of free ranges and the set
    \<open>free_set\<close> it denotes. \<open>MemInit\<close>: what \<open>memory_init\<close> leaves free. \<open>PageAlloc\<close>: the contract with
    clients, over all runs.
  \<^item> \<open>KHeap\<close>, \<open>KHeapSafe\<close>: \<open>kmalloc\<close> and \<open>kfree\<close> over a map from addresses to block headers; the heap
    is a list of disjoint blocks inside pages it got from the allocator.
  \<^item> \<open>SelfTest\<close>: \<open>memory_self_test\<close>, which returns on every allocator and leaves it as it was when it passes.
  \<^item> \<open>Block\<close>: the entry points of \<open>kernel/block.c\<close> and the contract \<open>disk_law\<close> of a disk: the driver
    below is a parameter, with only the law that a reported success moved the sectors. \<open>Driver\<close>: the registry of
    \<open>kernel/driver.c\<close>. \<open>BlockInit\<close>: the rest of \<open>block.c\<close>, from the EFI device path of the boot disk to the driver
    that is bound. \<open>FsInit\<close>: \<open>fs_init\<close>, which mounts the volume on it.
  \<^item> \<open>FatDefs\<close>, \<open>FatTable\<close>, \<open>FatNames\<close>, \<open>FatDir\<close>, \<open>FatOps\<close>: all of \<open>kernel/fat32.c\<close>, in the order of
    the file: formats and mount, cluster chains, names, directories, public operations.
    \<open>FatChain\<close> is the FAT as a set of disjoint chains; \<open>FatStore\<close> the interface of clusters on disk (a
    locale that is instantiated by the driver's cluster access); \<open>FatData\<close> and
    \<open>FatFileData\<close> allocation, growth and file contents; \<open>FatMount\<close> mounting and flushing;
    \<open>FatNameProofs\<close> and \<open>FatLfn\<close> the round trips of names; \<open>FatDirData\<close>, \<open>FatDirFind\<close> and
    \<open>FatDirNew\<close> directories as lists of entries. \<open>FatReads\<close>: the operations that only look end on every
    volume whose chains end (\<open>readable\<close>; the code does not protect itself against a cyclic FAT), and
    leave the volume alone. \<open>Fs\<close>: \<open>kernel/fs.c\<close> above it.
  \<^item> \<open>Paging\<close>: all of \<open>kernel/paging.c\<close>. Tables are a map from addresses to 512 entries. \<open>PagingTree\<close>
    reads them as a tree and defines the translation \<open>xlate\<close> of an address; \<open>PagingMap\<close> and
    \<open>PagingRange\<close> follow one mapping and a range; \<open>PagingSpaces\<close> and \<open>PagingDestroy\<close> are about a
    program's tree beside the kernel's; \<open>PagingLife\<close> and \<open>PagingBoot\<close> state the results.

  \<^item> \<open>Serial\<close>: \<open>kernel/serial.c\<close>. \<open>Console\<close>: \<open>kernel/console.c\<close>, with the VGA page and the framebuffer as
    lists; \<open>ConsoleSafe\<close> shows that no store leaves them, \<open>ConsoleTerm\<close> that the VGA page shows what an
    abstract terminal would. \<open>Keyboard\<close>: \<open>kernel/keyboard.c\<close>; the controller is a stream of port answers.
  \<^item> \<open>Process\<close>: all of \<open>kernel/process.c\<close> and the dispatcher of \<open>kernel/trap.c\<close>, over one record
    \<open>kernel_state\<close> that joins volume, console, paging and a map of physical memory. The processor in user
    mode is a list of \<open>user_act\<close>s, stores and traps. \<open>ProcessArgs\<close> (command lines), \<open>ProcessImage\<close> (ELF
    files), \<open>ProcessSpace\<close>, \<open>PagingOwn\<close> and \<open>ProcessPrepare\<close> (the address space), \<open>ProcessUser\<close> (system calls), \<open>ProcessLoad\<close> and
    \<open>ProcessFile\<close> (loading from the volume) and \<open>ProcessRun\<close> (a whole run) build up to one statement: a program
    leaves nothing behind. \<open>ProcessDemo\<close> holds the concrete kernel of the witnesses. \<open>Program\<close>: the search for
    a command's program in \<open>kernel/program.c\<close>.
  \<^item> \<open>Panic\<close>: \<open>kernel/panic.c\<close>, which prints its text and halts. \<open>Shell\<close>: all of \<open>kernel/shell.c\<close>, the command table with every
    command, a line, a turn and the loop over the user's turns; a command may halt the machine. \<open>ShellSafe\<close>: whatever
    lines are typed, the kernel stays as it was, as long as none of them writes files.
  \<^item> \<open>Pci\<close>, \<open>Ata\<close>, \<open>Ahci\<close>: \<open>kernel/pci.c\<close>, \<open>kernel/ata.c\<close> and \<open>kernel/ahci.c\<close> over port and register
    operations of an environment. What the hardware does with them is a hypothesis where a theorem needs
    it: \<open>config_space\<close> for the host bridge, \<open>ata_drive\<close> for a drive's task file. \<open>Ata\<close> derives \<open>disk_law\<close> from \<open>ata_drive\<close>,
    so the file-system theorems rest on the behaviour of the drive for a volume on an ATA disk.
  \<^item> \<open>Acpi\<close>: \<open>kernel/acpi.c\<close>, over memory as a function from addresses to bytes: which tables are accepted and what is
    taken from them. \<open>Apic\<close>: \<open>kernel/apic.c\<close> and \<open>kernel/timer.c\<close>; the kernel's page tables stay well formed while the
    registers are mapped, and the calibration ends once the timer's output rises.
  \<^item> \<open>Kmain\<close>: \<open>kernel/kmain.c\<close>, the stages of the boot in order on one state that holds every component's variables. Its
    theorem composes those of the stages: the kernel halts behind a panic screen or reaches the shell in the state that the
    theorem of \<open>ShellSafe\<close> starts from (on a volume whose chains end).
  \<^item> \<open>Loader\<close>: \<open>boot/uefi/boot.c\<close>. The firmware is an environment of services over memory. Its theorems say where the
    kernel's segments end up and what the boot information promises; the promises \<open>Kmain\<close> assumes of it beyond that (fewer
    than 65536 characters to a line, a framebuffer below 256 TiB) are the firmware's.
  \<^item> \<open>Runtime\<close>: \<open>programs/common/runtime.c\<close>, \<open>programs/hello/main.c\<close> and \<open>programs/args/main.c\<close>, from the program's
    side: what they write, digit by digit, and that their actions come from user mode and end in EXIT with status 0, so that the
    theorem of \<open>ProcessRun\<close> on the run of a program covers them. The loop over the digits ends by its measure; the one over a
    text and the one over the arguments are partial functions, and the theorems show that they end on a text that is terminated.

  \<^bold>\<open>Interfaces.\<close> A client is proved against a locale, and the provider's theory interprets the locale
  on the model of the code: the page allocator for heap and page tables, the cluster store
  for files and directories, the disk for the file system.

  \<^bold>\<open>Assumptions.\<close> An AHCI disk keeps \<open>disk_law\<close> (for ATA it is proved); the memory map keeps the UEFI
  promise that descriptors do not overlap and stay below the end of memory; physical memory behaves
  as memory. One processor, no interrupt touches the modelled state. A program acts only in user mode: it
  stores where its pages allow and traps. Theorems that need the table of free ranges not to be full, so that \<open>free_pages\<close>
  drops no page (\<open>roomy\<close>), say so. The bytes of memory, the page tables and the block headers of the heap are separate maps: that
  the code keeps them apart is what the theorems about page ownership show.

  \<^bold>\<open>Not modelled.\<close> The assembly entry points (\<open>entry.asm\<close>, \<open>program_entry.asm\<close>), whose effect on the state is the trap
  frame and the run of a program in \<open>Process\<close>; the
  host-side tests and build tools. The devices themselves are hypotheses, and an AHCI controller has none: its driver
  is modelled, but what a transfer does to the disk is not derived.
\<close>

end
